(* ===== verification/Godby_Prelude.thy ===== *)
theory Godby_Prelude
  imports Main "HOL-Library.Word"
begin

text \<open>
  Shared base of the development: the machine integer types of the sources, the
  collections of simplification rules the component theories extend, facts about
  words read as natural numbers, and the generic notion of a transition system with
  an inductive invariant that every concurrent component instantiates.
\<close>

unbundle bit_operations_syntax

section \<open>Machine types\<close>

type_synonym u8 = "8 word"
type_synonym u32 = "32 word"
type_synonym u64 = "64 word"

section \<open>Transition systems\<close>

text \<open>
  The states a system can reach: \<open>I\<close> describes the initial states and \<open>R\<close> the atomic
  steps any thread may take next.
\<close>

inductive reachable :: "('s \<Rightarrow> bool) \<Rightarrow> ('s \<Rightarrow> 's \<Rightarrow> bool) \<Rightarrow> 's \<Rightarrow> bool"
  for I :: "'s \<Rightarrow> bool" and R :: "'s \<Rightarrow> 's \<Rightarrow> bool" where
  reachable_init: "I s \<Longrightarrow> reachable I R s"
| reachable_step: "reachable I R s \<Longrightarrow> R s t \<Longrightarrow> reachable I R t"

section \<open>Collections\<close>

named_theorems unat_simps "words read as natural numbers"

section \<open>Words as natural numbers\<close>

lemma unat_lt64 [simp]: "unat (x :: u64) < 18446744073709551616"
  using unsigned_less [of x] by simp

lemma unat_lt32 [simp]: "unat (x :: u32) < 4294967296"
  using unsigned_less [of x] by simp

lemma unat_and_mask_nat: "unat (x AND mask k) = unat (x :: 'a::len word) mod 2 ^ k"
  by (metis take_bit_eq_mask take_bit_eq_mod unsigned_take_bit_eq)

lemma unat_and_1 [unat_simps]: "unat (x AND 1) = unat (x :: 'a::len word) mod 2"
  using unat_and_mask_nat [of x 1] by (simp add: mask_Suc_0)

lemma unat_drop_bit [unat_simps]: "unat (drop_bit k x) = unat (x :: 'a::len word) div 2 ^ k"
  by (metis drop_bit_eq_div unsigned_drop_bit_eq unsigned_take_bit_eq take_bit_word_eq_self order_refl)

lemma and_1_eq_0_iff: "x AND 1 = 0 \<longleftrightarrow> even (unat (x :: 'a::len word))"
proof -
  have "x AND 1 = 0 \<longleftrightarrow> unat (x AND 1) = 0" by (simp only: unat_eq_0)
  then show ?thesis by (simp add: unat_and_1 even_iff_mod_2_eq_zero)
qed

lemma unat_add_small [unat_simps]:
  "unat a + unat b < 2 ^ LENGTH('a) \<Longrightarrow> unat (a + b) = unat a + unat (b :: 'a::len word)"
  by (simp add: unat_word_ariths)

lemma unat_Suc_less:
  assumes "unat (i :: 'a::len word) < unat (b :: 'a word)"
  shows "unat (i + 1) = unat i + 1"
proof -
  have "unat b < 2 ^ LENGTH('a)" by (rule unsigned_less)
  with assms have "unat i + unat (1 :: 'a word) < 2 ^ LENGTH('a)" unfolding unat_1 by linarith
  then show ?thesis using unat_add_small [of i 1] by simp
qed

lemma unat_mult_small [unat_simps]:
  "unat a * unat b < 2 ^ LENGTH('a) \<Longrightarrow> unat (a * b) = unat a * unat (b :: 'a::len word)"
  by (simp add: unat_word_ariths)

lemma unat_sub_small [unat_simps]:
  "unat b \<le> unat a \<Longrightarrow> unat (a - b) = unat a - unat (b :: 'a::len word)"
  by (simp add: unat_sub word_le_nat_alt)

lemma unat_pred: "d \<noteq> 0 \<Longrightarrow> unat (d - 1) = unat (d :: 'a::len word) - 1"
  by (rule unat_minus_one)

lemma unat_pred_less: "d \<noteq> 0 \<Longrightarrow> unat (d - 1) < unat (d :: 'a::len word)"
  by (metis diff_less unat_gt_0 unat_pred zero_less_one)

lemma unat_two_power: "k < LENGTH('a) \<Longrightarrow> unat (2 ^ k :: 'a::len word) = 2 ^ k"
  using of_nat_inverse [of "2 ^ k" "2 ^ k :: 'a word"] by simp

lemma unat_ucast_mod: "unat (ucast w :: 'b::len word) = unat (w :: 'a::len word) mod 2 ^ LENGTH('b)"
  by (simp add: unsigned_ucast_eq take_bit_eq_mod)

lemma unat_ucast_up [unat_simps]:
  "LENGTH('a) \<le> LENGTH('b) \<Longrightarrow> unat (ucast (w :: 'a::len word) :: 'b::len word) = unat w"
  by (metis unat_ucast_mod mod_less order_less_le_trans power_increasing one_le_numeral unsigned_less)

lemmas unat_divmod [unat_simps] = unat_div unat_mod

text \<open>Indices into a ring.\<close>

lemma mod_window: "i \<le> j \<Longrightarrow> j < i + c \<Longrightarrow> j mod c = i mod c \<Longrightarrow> j = (i :: nat)"
proof -
  assume "i \<le> j" "j < i + c" "j mod c = i mod c"
  then have "c dvd j - i" "j - i < c" by (simp_all add: mod_eq_dvd_iff_nat)
  then have "j - i = 0" by (metis dvd_imp_le gr_zeroI not_le)
  with \<open>i \<le> j\<close> show "j = i" by simp
qed

lemma ring_offset:
  assumes "i < m" and "j < m" and "(n + i) mod m = (n + j) mod (m :: nat)"
  shows "i = j"
proof (cases "i \<le> j")
  case True
  then have "n + i \<le> n + j" "n + j < n + i + m" using assms(1,2) by linarith+
  then have "n + j = n + i" using assms(3) [symmetric] by (rule mod_window)
  then show ?thesis by simp
next
  case False
  then have "n + j \<le> n + i" "n + i < n + j + m" using assms(1,2) by linarith+
  then have "n + i = n + j" using assms(3) by (rule mod_window)
  then show ?thesis by simp
qed

text \<open>The usual test for a power of two.\<close>

lemma nat_and_pred_power: "(x :: nat) \<noteq> 0 \<Longrightarrow> x AND (x - 1) = 0 \<Longrightarrow> \<exists>k. x = 2 ^ k"
proof (induction x rule: less_induct)
  case (less x)
  have rec: "x AND (x - 1) = of_bool (odd x \<and> odd (x - 1)) + 2 * ((x div 2) AND ((x - 1) div 2))"
    by (rule and_rec)
  show ?case
  proof (cases "odd x")
    case True
    then have "(x - 1) div 2 = x div 2" by (auto elim: oddE)
    with rec less.prems(2) have "x div 2 = 0" by simp
    with True have "x = 2 ^ 0" by (auto elim: oddE)
    then show ?thesis ..
  next
    case False
    then have e: "(x - 1) div 2 = x div 2 - 1" "x = 2 * (x div 2)" "x div 2 < x" "x div 2 \<noteq> 0"
      using less.prems(1) by (auto elim!: evenE)
    with rec less.prems(2) have "x div 2 AND (x div 2 - 1) = 0" by simp
    then obtain k where "x div 2 = 2 ^ k" using less.IH [OF e(3,4)] by blast
    then have "x = 2 ^ Suc k" using e(2) by simp
    then show ?thesis ..
  qed
qed

lemma word_and_pred_power:
  assumes "(c :: 'a::len word) \<noteq> 0" and "c AND (c - 1) = 0"
  obtains k where "k < LENGTH('a)" and "c = 2 ^ k" and "unat c = 2 ^ k"
proof -
  have "unat c AND (unat c - 1) = unat (c AND (c - 1))"
    using unat_pred [OF assms(1)] by (simp add: unsigned_and_eq)
  then have "unat c AND (unat c - 1) = 0" using assms(2) by simp
  moreover have "unat c \<noteq> 0" using assms(1) by (simp add: unat_eq_0)
  ultimately obtain k where k: "unat c = 2 ^ k" using nat_and_pred_power by blast
  moreover have "(2 :: nat) ^ k < 2 ^ LENGTH('a)" unfolding k [symmetric] by (rule unsigned_less)
  then have "k < LENGTH('a)" by simp
  moreover from this k have "c = 2 ^ k" by (simp add: word_unat_eq_iff unat_two_power)
  ultimately show thesis using that by blast
qed

section \<open>Invariants of transition systems\<close>

locale transition_invariant =
  fixes init :: "'s \<Rightarrow> bool"
    and step :: "'s \<Rightarrow> 's \<Rightarrow> bool"
    and inv :: "'s \<Rightarrow> bool"
  assumes init_inv: "init s \<Longrightarrow> inv s"
    and step_inv: "inv s \<Longrightarrow> step s t \<Longrightarrow> inv t"
begin

lemma reachable_inv: "reachable init step s \<Longrightarrow> inv s"
  by (induction rule: reachable.induct) (auto intro: init_inv step_inv)

lemma rtranclp_inv: "step\<^sup>*\<^sup>* s t \<Longrightarrow> inv s \<Longrightarrow> inv t"
  by (induction rule: rtranclp_induct) (auto intro: step_inv)

end

lemma reachable_rtranclp: "R\<^sup>*\<^sup>* s t \<Longrightarrow> reachable I R s \<Longrightarrow> reachable I R t"
  by (induction rule: rtranclp_induct) (auto intro: reachable.intros)

end
