(* ===== verification/Mathematics.thy ===== *)
theory Mathematics
  imports Godby_Prelude Complex_Main
begin

text \<open>
  \<^verbatim>\<open>godby/include/godby/Math.h\<close> and \<^verbatim>\<open>godby/mathematics/Prime.cc\<close>: most significant bit,
  rounding up to a power of two (all three preprocessor branches), the primality test
  and the search for the next prime. The primality code mixes \<open>size_t\<close> (64 bits) and
  \<open>unsigned\<close> (32 bits); the widths are kept, so the narrowing at the calls of the
  witness test is visible. Loops that need not end are \<open>option\<close> valued.
\<close>

section \<open>Math.h\<close>

function MSB :: "'a::len word \<Rightarrow> nat" where
  "MSB n = (if n > 1 then 1 + MSB (drop_bit 1 n) else 0)"
  by pat_completeness auto
termination
  by (relation "measure unat") (auto simp: unat_simps word_less_nat_alt)

declare MSB.simps [simp del]

text \<open>\<open>std::bit_width\<close> and \<open>std::bit_ceil\<close>; the latter is undefined when the result does not fit.\<close>

function bit_width :: "'a::len word \<Rightarrow> nat" where
  "bit_width n = (if n = 0 then 0 else 1 + bit_width (drop_bit 1 n))"
  by pat_completeness auto
termination
  by (relation "measure unat") (auto simp: unat_simps word_neq_0_conv word_less_nat_alt)

declare bit_width.simps [simp del]

definition bit_ceil :: "'a::len word \<Rightarrow> 'a word option" where
  "bit_ceil x = (if x \<le> 1 then Some 1
     else if bit_width (x - 1) < LENGTH('a) then Some (push_bit (bit_width (x - 1)) 1) else None)"

text \<open>The C++20 branch, the one the headers of the library require.\<close>

definition NextPowerOfTwo :: "'a::len word \<Rightarrow> 'a word option" where
  "NextPowerOfTwo x = bit_ceil x"

text \<open>The \<open>__builtin_clzll\<close> branch; shifting by 64 is undefined.\<close>

definition builtin_clzll :: "u64 \<Rightarrow> nat" where
  "builtin_clzll x = 64 - bit_width x"

definition NextPowerOfTwo_clz :: "'a::len word \<Rightarrow> 'a word option" where
  "NextPowerOfTwo_clz x = (if x = 0 \<or> x = 1 then Some 1
     else let shift = 64 - builtin_clzll (ucast (x - 1))
          in if shift < 64 then Some (ucast (push_bit shift (1 :: u64))) else None)"

text \<open>The portable branch: smear the highest set bit downwards.\<close>

function smear :: "nat \<Rightarrow> 'a::len word \<Rightarrow> 'a word" where
  "smear i x = (if 0 < i \<and> i < LENGTH('a) then smear (i + i) (x OR drop_bit i x) else x)"
  by pat_completeness auto
termination
  by (relation "measure (\<lambda>(i, x). LENGTH('a) - i)") auto

declare smear.simps [simp del]

definition NextPowerOfTwo_smear :: "'a::len word \<Rightarrow> 'a word" where
  "NextPowerOfTwo_smear x = (if x = 0 then 1 else smear 1 (x - 1) + 1)"

section \<open>Prime.cc\<close>

function IsPrime_power_loop :: "u64 \<Rightarrow> u64 \<Rightarrow> u32 \<Rightarrow> u32 \<Rightarrow> u64" where
  "IsPrime_power_loop pw result n m =
     (if n = 0 then result
      else IsPrime_power_loop ((pw * pw) mod ucast m)
             (if n AND 1 \<noteq> 0 then (result * pw) mod ucast m else result) (drop_bit 1 n) m)"
  by pat_completeness auto
termination
  by (relation "measure (\<lambda>(p, r, n, m). unat n)")
    (auto simp: unat_simps word_neq_0_conv word_less_nat_alt)

declare IsPrime_power_loop.simps [simp del]

definition IsPrime_power :: "u32 \<Rightarrow> u32 \<Rightarrow> u32 \<Rightarrow> u64" where
  "IsPrime_power a n m = IsPrime_power_loop (ucast a) 1 n m"

text \<open>The loop that divides \<open>u\<close> by two until it is odd; it never ends for \<open>u = 0\<close>.\<close>

partial_function (option) witness_split :: "u32 \<Rightarrow> u32 \<Rightarrow> (u32 \<times> u32) option" where
  [code]: "witness_split u t = (if u AND 1 = 0 then witness_split (u div 2) (t + 1) else Some (u, t))"

text \<open>
  The squaring loop \<open>for (i = 1; i <= t; ++i)\<close>, by the number of iterations left; the
  result is the early \<open>true\<close> or the final value of \<open>curr\<close>.
\<close>

fun witness_loop :: "nat \<Rightarrow> u64 \<Rightarrow> u64 \<Rightarrow> u32 \<Rightarrow> bool" where
  "witness_loop 0 prev cur n = (cur \<noteq> 1)"
| "witness_loop (Suc k) prev cur n =
     (let cur' = (prev * prev) mod ucast n
      in if cur' = 1 \<and> prev \<noteq> 1 \<and> prev \<noteq> ucast (n - 1) then True
         else witness_loop k cur' cur' n)"

definition IsPrime_witness :: "u32 \<Rightarrow> u32 \<Rightarrow> bool option" where
  "IsPrime_witness a n =
     (case witness_split (n div 2) 1 of
        None \<Rightarrow> None
      | Some (u, t) \<Rightarrow> Some (witness_loop (unat t) (IsPrime_power a u n) 0 n))"

partial_function (option) trial_loop :: "u64 \<Rightarrow> u64 \<Rightarrow> bool option" where
  [code]: "trial_loop n k =
     (if 36 * k * k - 12 * k < n
      then if n mod (6 * k + 1) = 0 \<or> n mod (6 * k - 1) = 0 then Some False
           else trial_loop n (k + 1)
      else Some True)"

text \<open>The sequence of \<open>if (IsPrime_witness(a, n)) return false;\<close>, with \<open>n\<close> narrowed to 32 bits.\<close>

fun no_witness :: "u32 list \<Rightarrow> u64 \<Rightarrow> bool option" where
  "no_witness [] n = Some True"
| "no_witness (a # as) n =
     (case IsPrime_witness a (ucast n) of
        None \<Rightarrow> None
      | Some w \<Rightarrow> if w then Some False else no_witness as n)"

definition IsPrime :: "u64 \<Rightarrow> bool option" where
  "IsPrime n =
     (if (n AND 1 = 0 \<and> n \<noteq> 2) \<or> n < 2 \<or> (n mod 3 = 0 \<and> n \<noteq> 3) then Some False
      else if n < 1373653 then trial_loop n 1
      else if n < 9080191 then no_witness [31, 73] n
      else no_witness [2, 7, 61] n)"

partial_function (option) NextPrime_loop :: "u64 \<Rightarrow> u64 option" where
  [code]: "NextPrime_loop next =
     Option.bind (IsPrime next) (\<lambda>b. if b then Some next else NextPrime_loop (next + 2))"

definition NextPrime :: "u64 \<Rightarrow> u64 option" where
  "NextPrime n = (if n \<le> 2 then Some 2
     else NextPrime_loop (if n AND 1 = 0 then n + 1 else n))"

section \<open>Specification\<close>

definition is_prime :: "nat \<Rightarrow> bool" where
  "is_prime p \<longleftrightarrow> 1 < p \<and> (\<forall>d. d dvd p \<longrightarrow> d = 1 \<or> d = p)"

section \<open>Powers of two\<close>

lemma unat_bit_width: "unat x < 2 ^ bit_width x"
proof (induction x rule: bit_width.induct)
  case (1 x)
  show ?case
  proof (cases "x = 0")
    case False
    then have "unat x div 2 < 2 ^ bit_width (drop_bit 1 x)"
      using "1.IH" by (simp add: unat_simps)
    with False show ?thesis
      by (subst bit_width.simps) auto
  qed simp
qed

lemma bit_width_unat: "x \<noteq> 0 \<Longrightarrow> 2 ^ (bit_width x - 1) \<le> unat x"
proof (induction x rule: bit_width.induct)
  case (1 x)
  show ?case
  proof (cases "drop_bit 1 x = 0")
    case True
    with "1.prems" show ?thesis
      by (subst bit_width.simps) (simp add: bit_width.simps [of 0] unat_gt_0 Suc_le_eq)
  next
    case False
    with "1.IH" "1.prems" have ih: "2 ^ (bit_width (drop_bit 1 x) - 1) \<le> unat x div 2"
      by (simp add: unat_simps)
    from False have "bit_width (drop_bit 1 x) \<noteq> 0"
      by (subst bit_width.simps) simp
    with ih "1.prems" show ?thesis
      by (subst bit_width.simps) (cases "bit_width (drop_bit 1 x)", auto)
  qed
qed

lemma bit_width_le_iff: "bit_width x \<le> k \<longleftrightarrow> unat x < 2 ^ k"
proof (cases "x = 0")
  case True
  then show ?thesis by (simp add: bit_width.simps)
next
  case False
  then have "bit_width x \<noteq> 0" by (subst bit_width.simps) simp
  show ?thesis
  proof
    assume "bit_width x \<le> k"
    then have "(2::nat) ^ bit_width x \<le> 2 ^ k" by (rule power_increasing) simp
    with unat_bit_width [of x] show "unat x < 2 ^ k" by (rule less_le_trans)
  next
    assume "unat x < 2 ^ k"
    with bit_width_unat [OF False] have "(2::nat) ^ (bit_width x - 1) < 2 ^ k" by (rule le_less_trans)
    then have "bit_width x - 1 < k" by simp
    with \<open>bit_width x \<noteq> 0\<close> show "bit_width x \<le> k" by simp
  qed
qed

lemma bit_width_le_len: "bit_width (x :: 'a::len word) \<le> LENGTH('a)"
  by (simp add: bit_width_le_iff unsigned_less)

lemma bit_width_eqI:
  assumes "\<And>k. unat x < 2 ^ k \<longleftrightarrow> unat y < 2 ^ k"
  shows "bit_width (x :: 'a::len word) = bit_width (y :: 'b::len word)"
proof (rule antisym)
  show "bit_width x \<le> bit_width y"
    using assms unat_bit_width [of y] by (simp add: bit_width_le_iff)
  show "bit_width y \<le> bit_width x"
    using assms unat_bit_width [of x] by (simp add: bit_width_le_iff)
qed

lemma MSB_bounds: "n \<noteq> 0 \<Longrightarrow> 2 ^ MSB n \<le> unat n \<and> unat n < 2 ^ Suc (MSB n)"
proof (induction n rule: MSB.induct)
  case (1 n)
  show ?case
  proof (cases "n > 1")
    case True
    then have "unat n > 1" by (simp add: word_less_nat_alt)
    then have "unat n div 2 \<noteq> 0" by simp
    then have "drop_bit 1 n \<noteq> 0"
      by (metis unat_drop_bit power_one_right unat_eq_0)
    with "1.IH" True have "2 ^ MSB (drop_bit 1 n) \<le> unat n div 2"
      and "unat n div 2 < 2 ^ Suc (MSB (drop_bit 1 n))"
      by (simp_all add: unat_simps)
    with True show ?thesis
      by (subst (1 2) MSB.simps) auto
  next
    case False
    with "1.prems" have "unat n = 1"
      by (metis One_nat_def linorder_neqE_nat less_Suc0 unat_1 unat_eq_0 word_less_nat_alt)
    with False show ?thesis by (subst (1 2) MSB.simps) simp
  qed
qed

lemma bit_width_pred_less:
  assumes "unat (x :: 'a::len word) \<le> 2 ^ (LENGTH('a) - 1)" and "x > 1"
  shows "bit_width (x - 1) < LENGTH('a)"
proof -
  have "unat (x - 1) < 2 ^ (LENGTH('a) - 1)"
    using assms by (simp add: unat_simps word_less_nat_alt)
  then have "bit_width (x - 1) \<le> LENGTH('a) - 1"
    by (rule bit_width_le_iff [THEN iffD2])
  then show ?thesis
    by (metis One_nat_def Suc_pred len_gt_0 less_Suc_eq_le)
qed

lemma bit_ceil_power:
  "unat (x :: 'a::len word) \<le> 2 ^ (LENGTH('a) - 1) \<Longrightarrow> x > 1 \<Longrightarrow>
   bit_ceil x = Some (2 ^ bit_width (x - 1))"
  using bit_width_pred_less [of x] by (simp add: bit_ceil_def push_bit_eq_mult linorder_not_le [symmetric])

lemma bit_exists_iff_width: "(\<exists>j. bit x (k + j)) \<longleftrightarrow> k < bit_width (x :: 'a::len word)"
proof -
  have "(\<exists>j. bit x (k + j)) \<longleftrightarrow> drop_bit k x \<noteq> 0"
    by (auto simp: bit_eq_iff bit_drop_bit_eq) (metis add.commute add_lessD1 bit_imp_le_length)
  also have "\<dots> \<longleftrightarrow> unat x div 2 ^ k \<noteq> 0"
    by (metis unat_drop_bit unat_eq_0)
  also have "\<dots> \<longleftrightarrow> \<not> bit_width x \<le> k"
    by (simp add: bit_width_le_iff div_eq_0_iff)
  finally show ?thesis unfolding not_le .
qed

lemma smear_bits:
  fixes x x0 :: "'a::len word"
  assumes "0 < i" and "\<And>k. bit x k \<longleftrightarrow> (\<exists>j<i. bit x0 (k + j))"
  shows "bit (smear i x) k \<longleftrightarrow> (\<exists>j. bit x0 (k + j))"
  using assms
proof (induction i x arbitrary: k rule: smear.induct)
  case (1 i x)
  show ?case
  proof (cases "i < LENGTH('a)")
    case True
    have "bit (x OR drop_bit i x) m \<longleftrightarrow> (\<exists>j<i + i. bit x0 (m + j))" for m
    proof -
      have "(\<exists>j<i + i. bit x0 (m + j)) \<longleftrightarrow> (\<exists>j<i. bit x0 (m + j)) \<or> (\<exists>j<i. bit x0 (i + m + j))"
      proof
        assume "\<exists>j<i + i. bit x0 (m + j)"
        then obtain j where j: "j < i + i" "bit x0 (m + j)" by blast
        show "(\<exists>j<i. bit x0 (m + j)) \<or> (\<exists>j<i. bit x0 (i + m + j))"
        proof (cases "j < i")
          case False
          with j have "j - i < i" "bit x0 (i + m + (j - i))" by (auto simp: ac_simps)
          then show ?thesis by blast
        qed (use j in blast)
      next
        assume "(\<exists>j<i. bit x0 (m + j)) \<or> (\<exists>j<i. bit x0 (i + m + j))"
        then show "\<exists>j<i + i. bit x0 (m + j)"
          by (metis (no_types) ab_semigroup_add_class.add_ac(1) add.commute add_less_mono1 trans_less_add1)
      qed
      then show ?thesis
        by (simp add: bit_or_iff bit_drop_bit_eq "1.prems"(2))
    qed
    with "1.IH" True "1.prems"(1) show ?thesis
      by (subst smear.simps) simp
  next
    case False
    then have "(\<exists>j. bit x0 (k + j)) \<longleftrightarrow> (\<exists>j<i. bit x0 (k + j))"
      by (meson bit_imp_le_length le_add2 less_le_trans le_less_trans linorder_not_le)
    with False "1.prems" show ?thesis by (subst smear.simps) simp
  qed
qed

lemma smear_mask: "smear 1 x = mask (bit_width (x :: 'a::len word))"
proof (rule bit_word_eqI)
  fix k assume "k < LENGTH('a)"
  have "bit (smear 1 x) k \<longleftrightarrow> (\<exists>j. bit x (k + j))"
    by (rule smear_bits) auto
  with \<open>k < LENGTH('a)\<close> show "bit (smear 1 x) k = bit (mask (bit_width x) :: 'a word) k"
    by (simp add: bit_exists_iff_width bit_mask_iff)
qed

lemma smear_power: "x \<noteq> 0 \<Longrightarrow> NextPowerOfTwo_smear x = 2 ^ bit_width (x - 1)"
  by (simp add: NextPowerOfTwo_smear_def smear_mask [unfolded One_nat_def] mask_eq_exp_minus_1)

lemma clz_power:
  assumes "LENGTH('a) \<le> 64" and "1 < (x :: 'a::len word)" and "bit_width (x - 1) < LENGTH('a)"
  shows "NextPowerOfTwo_clz x = Some (2 ^ bit_width (x - 1))"
proof -
  have w: "bit_width (ucast (x - 1) :: u64) = bit_width (x - 1)"
    using assms(1) by (intro bit_width_eqI) (simp add: unat_simps)
  then have "64 - builtin_clzll (ucast (x - 1)) = bit_width (x - 1)"
    using assms(1,3) by (simp add: builtin_clzll_def)
  moreover have "(ucast (push_bit (bit_width (x - 1)) 1 :: u64) :: 'a word) = 2 ^ bit_width (x - 1)"
    using assms by (simp add: word_unat_eq_iff push_bit_eq_mult unat_two_power unat_ucast_mod)
  ultimately show ?thesis
    using assms by (auto simp: NextPowerOfTwo_clz_def)
qed

lemma le_1_word_cases: "\<not> 1 < x \<Longrightarrow> x = 0 \<or> x = (1 :: 'a::len word)"
  by (metis One_nat_def leI le_SucE le_zero_eq unat_1 unat_eq_0 word_le_nat_alt word_unat_eq_iff)

section \<open>Prime numbers\<close>

lemma is_prime_coprime: "is_prime p \<Longrightarrow> \<not> p dvd a \<Longrightarrow> coprime p a"
  unfolding is_prime_def by (metis coprime_iff_gcd_eq_1 gcd_dvd1 gcd_dvd2)

lemma is_prime_dvd_mult: "is_prime p \<Longrightarrow> p dvd a * b \<Longrightarrow> p dvd a \<or> p dvd b"
  using is_prime_coprime coprime_dvd_mult_right_iff by blast

lemma is_prime_dvd_choose:
  assumes "is_prime p" and "0 < k" and "k < p"
  shows "p dvd p choose k"
proof -
  have "p dvd k * (p choose k)"
    using assms by (metis binomial_absorption Suc_pred dvd_triv_left One_nat_def
        is_prime_def less_trans zero_less_one)
  moreover have "\<not> p dvd k" using assms by (auto dest: dvd_imp_le)
  ultimately show ?thesis using assms(1) is_prime_dvd_mult by blast
qed

lemma freshman: "is_prime p \<Longrightarrow> (a + 1) ^ p mod p = (a ^ p + 1) mod p" for a :: nat
proof -
  assume p: "is_prime p"
  then have "0 < p" by (simp add: is_prime_def)
  have "(a + 1) ^ p = (\<Sum>k\<le>p. (p choose k) * a ^ k)"
    by (subst binomial) simp
  also have "{..p} = insert 0 (insert p {0<..<p})" using \<open>0 < p\<close> by auto
  also have "(\<Sum>k\<in>insert 0 (insert p {0<..<p}). (p choose k) * a ^ k) =
      1 + (a ^ p + (\<Sum>k\<in>{0<..<p}. (p choose k) * a ^ k))"
    using \<open>0 < p\<close> by simp
  finally have eq: "(a + 1) ^ p = (a ^ p + 1) + (\<Sum>k\<in>{0<..<p}. (p choose k) * a ^ k)" by simp
  have "p dvd (\<Sum>k\<in>{0<..<p}. (p choose k) * a ^ k)"
    by (intro dvd_sum dvd_mult2 is_prime_dvd_choose p) auto
  then show ?thesis unfolding eq by (metis mod_add_right_eq dvd_imp_mod_0 add_0_right)
qed

lemma fermat_all: "is_prime p \<Longrightarrow> a ^ p mod p = a mod p"
proof (induction a)
  case 0
  then show ?case by (simp add: is_prime_def zero_power)
next
  case (Suc a)
  have "Suc a ^ p mod p = (a ^ p mod p + 1) mod p"
    using freshman [OF Suc.prems, of a] by (simp add: mod_Suc_eq)
  also have "\<dots> = (a + 1) mod p"
    by (simp only: Suc.IH [OF Suc.prems] mod_add_left_eq)
  finally show ?case by simp
qed

lemma fermat:
  assumes "is_prime p" and "\<not> p dvd a"
  shows "a ^ (p - 1) mod p = 1"
proof -
  have p: "1 < p" using assms by (simp add: is_prime_def)
  then have "a * a ^ (p - 1) mod p = a mod p"
    using fermat_all [OF assms(1), of a] by (simp flip: power_Suc)
  moreover have "0 < a" using assms(2) by (cases "a = 0") auto
  then have one: "1 \<le> a ^ (p - 1)" and "a \<le> a * a ^ (p - 1)" by simp_all
  ultimately have "p dvd a * a ^ (p - 1) - a" by (metis mod_eq_dvd_iff_nat)
  also have "a * a ^ (p - 1) - a = a * (a ^ (p - 1) - 1)" by (simp add: diff_mult_distrib2)
  finally have "p dvd a ^ (p - 1) - 1" using assms is_prime_dvd_mult by blast
  with one have "a ^ (p - 1) mod p = 1 mod p" by (metis mod_eq_dvd_iff_nat)
  with p show ?thesis by simp
qed

lemma sqrt_one_mod_prime:
  assumes "is_prime p" and "x < p" and "x * x mod p = 1"
  shows "x = 1 \<or> x = p - 1"
proof -
  have "x \<noteq> 0" using assms(3) by (cases "x = 0") auto
  then obtain y where y: "x = Suc y" by (cases x) auto
  have "p dvd x * x - 1" using assms(3) by (metis dvd_minus_mod)
  also have "x * x - 1 = y * (x + 1)" by (simp add: y)
  finally have "p dvd y \<or> p dvd x + 1" using assms(1) is_prime_dvd_mult by blast
  then show ?thesis using assms(2) y by (auto dest!: dvd_imp_le)
qed

section \<open>The witness test\<close>

lemma mod_power_cong:
  "a mod m = b mod m \<Longrightarrow> a * (y mod m) ^ k mod m = b * y ^ k mod (m :: nat)"
  by (metis mod_mult_eq power_mod)

lemma power_loop_unat:
  assumes "unat m > 0" and "unat pw < unat m \<or> unat pw < 128" and "unat result < unat m"
  shows "unat (IsPrime_power_loop pw result n m) = unat result * unat pw ^ unat n mod unat m"
  using assms
proof (induction pw result n m rule: IsPrime_power_loop.induct)
  case (1 pw result n m)
  note unat_simps [simp]
  have m: "unat m < 4294967296" by (rule unat_lt32)
  have pw: "unat pw < 4294967296" using "1.prems"(2) m by linarith
  have bound: "x * y < 18446744073709551616" if "x < 4294967296" "y < 4294967296" for x y :: nat
    using mult_strict_mono [OF that] by simp
  have sq: "unat (pw * pw mod ucast m) = unat pw * unat pw mod unat m"
    using bound [OF pw pw] by simp
  have res: "unat (result * pw mod ucast m) = unat result * unat pw mod unat m"
    using bound [of "unat result" "unat pw"] pw "1.prems"(3) m by simp
  show ?case
  proof (cases "n = 0")
    case True
    with "1.prems" show ?thesis by (subst IsPrime_power_loop.simps) simp
  next
    case False
    let ?r = "if n AND 1 \<noteq> 0 then (result * pw) mod ucast m else result"
    have r: "unat ?r mod unat m = unat result * unat pw ^ (unat n mod 2) mod unat m"
      using res by (cases "even (unat n)") (simp_all add: and_1_eq_0_iff odd_iff_mod_2_eq_one del: unat_simps)
    have "unat ?r < unat m" using "1.prems" by (simp add: res)
    then have "unat (IsPrime_power_loop (pw * pw mod ucast m) ?r (drop_bit 1 n) m) =
        unat ?r * (unat pw * unat pw mod unat m) ^ (unat n div 2) mod unat m"
      using "1.IH" [OF False] "1.prems"(1) sq by simp
    also have "\<dots> = unat result * (unat pw ^ (unat n mod 2) * (unat pw * unat pw) ^ (unat n div 2)) mod unat m"
      using mod_power_cong [OF r] by (simp only: mult.assoc)
    also have "unat pw ^ (unat n mod 2) * (unat pw * unat pw) ^ (unat n div 2) = unat pw ^ unat n"
      by (metis power2_eq_square power_add power_mult mod_mult_div_eq)
    finally show ?thesis
      using False by (subst IsPrime_power_loop.simps) simp
  qed
qed

lemma IsPrime_power_unat:
  assumes "unat m > 1" and "unat a < 128"
  shows "unat (IsPrime_power a n m) = unat a ^ unat n mod unat m"
  unfolding IsPrime_power_def
  by (subst power_loop_unat) (use assms in \<open>auto simp: unat_simps\<close>)

lemma witness_split_0: "witness_split 0 t = None"
proof (rule ccontr)
  assume "witness_split 0 t \<noteq> None"
  then obtain r where ret: "witness_split 0 t = Some r" by auto
  have "(0 :: u32) \<noteq> 0"
  proof (rule witness_split.raw_induct [where P = "\<lambda>u t r. u \<noteq> 0", OF _ ret])
    fix f :: "u32 \<Rightarrow> u32 \<Rightarrow> (u32 \<times> u32) option" and u t :: u32 and r
    assume ih: "\<And>u t r. f u t = Some r \<Longrightarrow> u \<noteq> 0"
      and eq: "(if u AND 1 = 0 then f (u div 2) (t + 1) else Some (u, t)) = Some r"
    show "(u :: u32) \<noteq> 0"
      using ih [of "u div 2"] eq by (cases r) (auto split: if_splits)
  qed
  then show False by simp
qed

lemma witness_split_odd:
  "u \<noteq> 0 \<Longrightarrow> unat u < 2 ^ b \<Longrightarrow> unat t + b < 2 ^ 32 \<Longrightarrow>
   \<exists>u' t'. witness_split u t = Some (u', t') \<and> odd (unat u') \<and> unat t \<le> unat t' \<and>
     unat t' < unat t + b \<and> unat u = unat u' * 2 ^ (unat t' - unat t)"
proof (induction b arbitrary: u t)
  case 0
  then show ?case by (simp add: unat_eq_0)
next
  case (Suc b)
  note unat_simps [simp]
  show ?case
  proof (cases "u AND 1 = 0")
    case False
    then show ?thesis by (subst witness_split.simps) (auto simp: and_1_eq_0_iff)
  next
    case True
    then have even: "even (unat u)" by (simp add: and_1_eq_0_iff)
    with Suc.prems(1) have "unat u \<ge> 2" by (metis dvd_imp_le unat_gt_0 word_neq_0_conv)
    then have "unat (u div 2) \<noteq> 0" by simp
    then have nz: "u div 2 \<noteq> 0" by (metis unat_0)
    have t1: "unat (t + 1) = Suc (unat t)" using Suc.prems(3) by simp
    have half: "unat (u div 2) < 2 ^ b"
      using Suc.prems(2) by (simp add: less_mult_imp_div_less)
    obtain u' t' where split: "witness_split (u div 2) (t + 1) = Some (u', t')" "odd (unat u')"
      "Suc (unat t) \<le> unat t'" "unat t' < Suc (unat t) + b"
      "unat u div 2 = unat u' * 2 ^ (unat t' - Suc (unat t))"
      using Suc.IH [OF nz half, of "t + 1"] Suc.prems t1 by auto
    then have "Suc (unat t' - Suc (unat t)) = unat t' - unat t" by simp
    moreover have "unat u = unat u' * 2 ^ Suc (unat t' - Suc (unat t))"
      using even split(5) by (metis dvd_mult_div_cancel mult.left_commute power_Suc)
    ultimately have "unat u = unat u' * 2 ^ (unat t' - unat t)" by simp
    with split True show ?thesis
      by (subst witness_split.simps) auto
  qed
qed

lemma witness_loop_prime:
  assumes "is_prime (unat n)"
  shows "unat prev < unat n \<Longrightarrow> unat prev ^ 2 ^ k mod unat n = 1 \<Longrightarrow> (k = 0 \<longrightarrow> cur = 1) \<Longrightarrow>
    \<not> witness_loop k prev cur n"
proof (induction k arbitrary: prev cur)
  case 0
  then show ?case by simp
next
  case (Suc k)
  note unat_simps [simp]
  have n: "1 < unat n" using assms by (simp add: is_prime_def)
  define c where "c = prev * prev mod ucast n"
  have "unat prev < 4294967296" using Suc.prems(1) unat_lt32 [of n] by linarith
  then have "unat prev * unat prev < 18446744073709551616"
    using mult_strict_mono [of "unat prev" 4294967296 "unat prev" 4294967296] by simp
  then have c: "unat c = unat prev * unat prev mod unat n" by (simp add: c_def)
  then have less: "unat c < unat n" using n by simp
  have "unat c ^ 2 ^ k mod unat n = (unat prev * unat prev) ^ 2 ^ k mod unat n"
    unfolding c by (simp add: power_mod)
  also have "(unat prev * unat prev) ^ 2 ^ k = unat prev ^ 2 ^ Suc k"
    by (simp add: power2_eq_square [symmetric] power_mult [symmetric])
  finally have pow: "unat c ^ 2 ^ k mod unat n = 1" using Suc.prems(2) by simp
  then have "k = 0 \<longrightarrow> c = 1" using less by (auto simp: word_unat_eq_iff)
  with Suc.IH [OF less pow] have rest: "\<not> witness_loop k c c n" by blast
  have "prev = 1 \<or> prev = ucast (n - 1)" if "c = 1"
  proof -
    have "unat prev * unat prev mod unat n = 1" using c that by simp
    then have "unat prev = 1 \<or> unat prev = unat n - 1"
      using sqrt_one_mod_prime [OF assms Suc.prems(1)] by blast
    then show ?thesis using n by (auto simp: word_unat_eq_iff)
  qed
  with rest show ?case
    by (auto simp: Let_def c_def [symmetric])
qed

lemma IsPrime_witness_terminates:
  assumes "2 \<le> unat n"
  shows "\<exists>u t. witness_split (n div 2) 1 = Some (u, t) \<and> odd (unat u) \<and> 1 \<le> unat t \<and>
    unat n div 2 = unat u * 2 ^ (unat t - 1)"
proof -
  have "unat (n div 2) \<noteq> 0" using assms by (simp add: unat_simps)
  then have "n div 2 \<noteq> 0" by (metis unat_0)
  moreover have "unat (n div 2) < 2 ^ 32" by (rule order_less_le_trans [OF unat_lt32]) simp
  ultimately show ?thesis
    using witness_split_odd [of "n div 2" 32 1] by (auto simp: unat_simps)
qed

lemma IsPrime_witness_Some: "2 \<le> unat n \<Longrightarrow> \<exists>b. IsPrime_witness a n = Some b"
  using IsPrime_witness_terminates [of n] by (auto simp: IsPrime_witness_def)

lemma IsPrime_witness_prime:
  assumes "is_prime (unat n)" and "odd (unat n)" and "unat a < 128" and "\<not> unat n dvd unat a"
  shows "IsPrime_witness a n = Some False"
proof -
  have n: "1 < unat n" using assms by (simp add: is_prime_def)
  then obtain u t where ut: "witness_split (n div 2) 1 = Some (u, t)" "1 \<le> unat t"
    "unat n div 2 = unat u * 2 ^ (unat t - 1)"
    using IsPrime_witness_terminates [of n] by auto
  have "unat n - 1 = 2 * (unat n div 2)" using assms(2) by (auto elim: oddE)
  also have "\<dots> = unat u * 2 ^ Suc (unat t - 1)" by (simp add: ut(3))
  also have "Suc (unat t - 1) = unat t" using ut(2) by simp
  finally have e: "unat n - 1 = unat u * 2 ^ unat t" .
  let ?p = "IsPrime_power a u n"
  have p: "unat ?p = unat a ^ unat u mod unat n"
    using IsPrime_power_unat n assms(3) by simp
  then have "unat ?p ^ 2 ^ unat t mod unat n = unat a ^ (unat n - 1) mod unat n"
    by (simp add: e [unfolded One_nat_def] power_mod power_mult)
  then have "unat ?p ^ 2 ^ unat t mod unat n = 1"
    using fermat [OF assms(1,4)] by simp
  moreover have "unat ?p < unat n" using p n by simp
  ultimately have "\<not> witness_loop (unat t) ?p 0 n"
    using witness_loop_prime [OF assms(1)] ut(2) by auto
  then show ?thesis by (simp add: IsPrime_witness_def ut(1))
qed

section \<open>Trial division\<close>

definition no_small_factor :: "nat \<Rightarrow> nat \<Rightarrow> bool" where
  "no_small_factor n k \<longleftrightarrow>
     (\<forall>j\<ge>k. 36 * j * j - 12 * j < n \<longrightarrow> \<not> 6 * j + 1 dvd n \<and> \<not> 6 * j - 1 dvd n)"

lemma no_small_factor_unfold:
  "no_small_factor n k \<longleftrightarrow>
     (36 * k * k - 12 * k < n \<longrightarrow> \<not> 6 * k + 1 dvd n \<and> \<not> 6 * k - 1 dvd n) \<and> no_small_factor n (Suc k)"
  unfolding no_small_factor_def by (metis Suc_leD not_less_eq_eq le_antisym order_refl)

lemma no_small_factor_end:
  assumes "0 < k" and "n \<le> 36 * k * k - 12 * k"
  shows "no_small_factor n k"
proof -
  have "36 * k * k - 12 * k \<le> 36 * j * j - 12 * j" if "k \<le> j" for j
  proof -
    have "12 * k * (3 * k - 1) \<le> 12 * j * (3 * j - 1)"
      using that by (intro mult_le_mono) auto
    then show ?thesis by (simp add: algebra_simps diff_mult_distrib2)
  qed
  with assms(2) show ?thesis unfolding no_small_factor_def by (meson leD le_less_trans)
qed

lemma trial_loop_spec:
  assumes "unat n < 1373653"
  shows "1 \<le> unat k \<Longrightarrow> unat k \<le> 200 \<Longrightarrow> trial_loop n k = Some (no_small_factor (unat n) (unat k))"
proof (induction "200 - unat k" arbitrary: k rule: less_induct)
  case less
  note unat_simps [simp]
  define i where "i = unat k"
  have i: "1 \<le> i" "i \<le> 200" using less.prems by (simp_all add: i_def)
  have sq: "i * i \<le> 200 * 200" using i(2) by (intro mult_le_mono)
  have u36: "unat (36 * k * k) = 36 * i * i"
    using sq i by (simp add: i_def [symmetric] mult.assoc)
  have le: "12 * i \<le> 36 * i * i" using i(1) by (cases i) auto
  have u12: "unat (12 * k) = 12 * i" using i by (simp add: i_def [symmetric])
  have guard: "36 * k * k - 12 * k < n \<longleftrightarrow> 36 * i * i - 12 * i < unat n"
    using le by (simp add: word_less_nat_alt u36 u12)
  have "unat (6 * k + 1) = 6 * i + 1" and "unat (6 * k - 1) = 6 * i - 1"
    using i by (simp_all add: i_def [symmetric])
  then have divs: "n mod (6 * k + 1) = 0 \<longleftrightarrow> 6 * i + 1 dvd unat n"
    "n mod (6 * k - 1) = 0 \<longleftrightarrow> 6 * i - 1 dvd unat n"
    by (simp_all add: word_unat_eq_iff mod_eq_0_iff_dvd)
  show ?case
  proof (cases "36 * i * i - 12 * i < unat n")
    case False
    then have "no_small_factor (unat n) i" using i by (intro no_small_factor_end) auto
    with False guard show ?thesis
      by (subst trial_loop.simps) (simp add: i_def)
  next
    case True
    then have "i \<noteq> 200" using assms by auto
    with i have "i < 200" by simp
    then have k1: "unat (k + 1) = Suc i" by (simp add: i_def)
    have "trial_loop n (k + 1) = Some (no_small_factor (unat n) (Suc i))"
      using less.hyps [of "k + 1"] k1 \<open>i < 200\<close> by (simp add: i_def)
    with True show ?thesis
      by (subst trial_loop.simps, subst no_small_factor_unfold) (auto simp: guard divs i_def [symmetric])
  qed
qed

lemma least_factor:
  assumes "1 < n" and "\<not> is_prime n"
  obtains d where "1 < d" "d dvd n" "d * d \<le> n"
proof -
  obtain d where d: "d dvd n" "d \<noteq> 1" "d \<noteq> n"
    using assms by (auto simp: is_prime_def)
  then obtain e where e: "n = d * e" by (elim dvdE)
  have "1 < d" "1 < e" using d e assms(1)
    by (metis One_nat_def less_one linorder_neqE_nat mult_0 not_less_zero,
        metis One_nat_def d(3) e less_one linorder_neqE_nat mult.right_neutral mult_0_right not_less_zero assms(1))
  show thesis
  proof (cases "d \<le> e")
    case True
    with \<open>1 < d\<close> d(1) e that [of d] show thesis by simp
  next
    case False
    with \<open>1 < e\<close> e that [of e] show thesis by simp
  qed
qed

lemma factor_form:
  assumes "d dvd n" and "odd n" and "\<not> 3 dvd n" and "1 < (d :: nat)"
  obtains j where "1 \<le> j" "d = 6 * j + 1 \<or> d = 6 * j - 1"
proof -
  have "odd d" "\<not> 3 dvd d" using assms dvd_trans by blast+
  then have "d mod 6 = 1 \<or> d mod 6 = 5" by presburger
  then show thesis
  proof
    assume "d mod 6 = 1"
    then have "d = 6 * (d div 6) + 1" by (metis mult_div_mod_eq)
    moreover from this assms(4) have "1 \<le> d div 6" by (cases "d div 6") auto
    ultimately show thesis using that by blast
  next
    assume "d mod 6 = 5"
    then have "d = 6 * (d div 6 + 1) - 1" using mult_div_mod_eq [of 6 d] by simp
    then show thesis using that [of "d div 6 + 1"] by simp
  qed
qed

lemma square_guard: "1 \<le> j \<Longrightarrow> (6 * j - 1) * (6 * j - 1) = Suc (36 * j * j - 12 * j)" for j :: nat
  by (cases j) (auto simp: algebra_simps)

lemma trial_division_correct:
  assumes "1 < n" and "odd n \<or> n = 2" and "\<not> 3 dvd n \<or> n = 3"
  shows "no_small_factor n 1 \<longleftrightarrow> is_prime n"
proof
  assume p: "is_prime n"
  show "no_small_factor n 1"
    unfolding no_small_factor_def
  proof (intro allI impI)
    fix j assume j: "1 \<le> j" "36 * j * j - 12 * j < n"
    then have sq: "(6 * j - 1) * (6 * j - 1) \<le> n" by (metis Suc_leI square_guard)
    have "6 * j + 1 < (6 * j - 1) * (6 * j - 1)"
      using j(1) by (cases j) (auto simp: algebra_simps)
    with sq have "6 * j + 1 < n" by simp
    with j(1) show "\<not> 6 * j + 1 dvd n \<and> \<not> 6 * j - 1 dvd n"
      using p by (auto simp: is_prime_def)
  qed
next
  assume nf: "no_small_factor n 1"
  show "is_prime n"
  proof (cases "n = 2 \<or> n = 3")
    case True
    have "d = 1 \<or> d = m" if "d dvd m" "m = 2 \<or> m = 3" for d m :: nat
    proof -
      have "d \<le> 3" using that by (auto dest: dvd_imp_le)
      then have "d = 0 \<or> d = 1 \<or> d = 2 \<or> d = 3" by presburger
      with that show ?thesis by auto
    qed
    with True show ?thesis by (auto simp: is_prime_def)
  next
    case False
    show ?thesis
    proof (rule ccontr)
      assume "\<not> is_prime n"
      with assms(1) obtain d where d: "1 < d" "d dvd n" "d * d \<le> n" by (rule least_factor)
      obtain j where j: "1 \<le> j" "d = 6 * j + 1 \<or> d = 6 * j - 1"
        using d False assms by (auto elim!: factor_form)
      then have "(6 * j - 1) * (6 * j - 1) \<le> d * d" by (intro mult_le_mono) auto
      with d(3) have "36 * j * j - 12 * j < n" using square_guard [OF j(1)] by simp
      with nf j d(2) show False by (auto simp: no_small_factor_def)
    qed
  qed
qed

section \<open>The primality test\<close>

lemma IsPrime_guard_unat:
  "(n AND 1 = 0 \<and> n \<noteq> 2) \<or> n < 2 \<or> (n mod 3 = 0 \<and> n \<noteq> 3) \<longleftrightarrow>
   \<not> (1 < unat n \<and> (odd (unat n) \<or> unat n = 2) \<and> (\<not> 3 dvd unat n \<or> unat n = 3))" for n :: u64
  by (auto simp: and_1_eq_0_iff word_less_nat_alt word_unat_eq_iff unat_simps mod_eq_0_iff_dvd)

lemma is_prime_guard:
  "is_prime n \<Longrightarrow> 1 < n \<and> (odd n \<or> n = 2) \<and> (\<not> 3 dvd n \<or> n = 3)"
  by (auto simp: is_prime_def)

lemma IsPrime_small:
  assumes "n < 1373653"
  shows "IsPrime n = Some (is_prime (unat n))"
proof (cases "1 < unat n \<and> (odd (unat n) \<or> unat n = 2) \<and> (\<not> 3 dvd unat n \<or> unat n = 3)")
  case False
  then have "\<not> is_prime (unat n)" using is_prime_guard by blast
  with False show ?thesis unfolding IsPrime_def IsPrime_guard_unat by simp
next
  case True
  have "unat n < 1373653" using assms by (simp add: word_less_nat_alt)
  then have "trial_loop n 1 = Some (no_small_factor (unat n) 1)"
    using trial_loop_spec [of n 1] by simp
  then have "trial_loop n 1 = Some (is_prime (unat n))"
    using trial_division_correct [of "unat n"] True by simp
  with True assms show ?thesis unfolding IsPrime_def IsPrime_guard_unat by simp
qed

lemma no_witness_Some: "2 \<le> unat (ucast n :: u32) \<Longrightarrow> \<exists>b. no_witness as n = Some b"
  by (induction as) (use IsPrime_witness_Some in \<open>fastforce split: option.splits\<close>)+

lemma no_witness_prime:
  "is_prime (unat (ucast n :: u32)) \<Longrightarrow> odd (unat (ucast n :: u32)) \<Longrightarrow>
   \<forall>a\<in>set as. 0 < unat a \<and> unat a < 128 \<and> unat a < unat (ucast n :: u32) \<Longrightarrow>
   no_witness as n = Some True"
proof (induction as)
  case (Cons a as)
  then have "IsPrime_witness a (ucast n) = Some False"
    by (intro IsPrime_witness_prime) (auto dest: dvd_imp_le)
  with Cons show ?case by simp
qed simp

lemma unat_narrow: "unat n < 2 ^ 32 \<Longrightarrow> unat (ucast (n :: u64) :: u32) = unat n"
  by (simp add: unat_ucast_mod)

text \<open>
  C30. Below 1373653, where the code divides by the numbers of the form \<open>6k \<plusminus> 1\<close>, the
  primality test returns and is exact: it answers true for the primes and only for them.
\<close>

theorem IsPrime_trial_exact:
  assumes "n < 1373653"
  shows "IsPrime n = Some (is_prime (unat n))"
  using assms by (rule IsPrime_small)

theorem IsPrime_trial_exact_witness:
  "(1000003 :: u64) < 1373653 \<and> IsPrime 1000003 = Some (is_prime 1000003)"
  using IsPrime_trial_exact [of 1000003] by simp

text \<open>
  For every number below $2^{32}$ the test returns, and it never rejects a prime: a
  negative answer of the Miller-Rabin rounds is always right.
\<close>

theorem IsPrime_accepts_primes:
  assumes "unat n < 2 ^ 32"
  shows "\<exists>b. IsPrime n = Some b \<and> (is_prime (unat n) \<longrightarrow> b)"
proof (cases "n < 1373653")
  case True
  then show ?thesis by (simp add: IsPrime_small)
next
  case False
  then have big: "1373653 \<le> unat n" by (simp add: word_less_nat_alt)
  show ?thesis
  proof (cases "1 < unat n \<and> (odd (unat n) \<or> unat n = 2) \<and> (\<not> 3 dvd unat n \<or> unat n = 3)")
    case guard: False
    then have "\<not> is_prime (unat n)" using is_prime_guard by blast
    with guard show ?thesis unfolding IsPrime_def IsPrime_guard_unat by (intro exI [of _ False]) simp
  next
    case guard: True
    with big have "odd (unat n)" by auto
    have n32: "unat (ucast n :: u32) = unat n" using assms by (rule unat_narrow)
    have run: "IsPrime n = (if n < 9080191 then no_witness [31, 73] n else no_witness [2, 7, 61] n)"
      using guard False unfolding IsPrime_def IsPrime_guard_unat by simp
    have "\<exists>b. no_witness as n = Some b" for as
      using big by (intro no_witness_Some) (simp add: n32)
    moreover have "no_witness as n = Some True" if "is_prime (unat n)" "as = [31, 73] \<or> as = [2, 7, 61]" for as
      using that big \<open>odd (unat n)\<close> by (intro no_witness_prime) (auto simp: n32)
    ultimately show ?thesis unfolding run by (auto simp del: no_witness.simps)
  qed
qed

theorem IsPrime_accepts_primes_witness:
  "unat (1373653 :: u64) < 2 ^ 32 \<and> (\<exists>b. IsPrime 1373653 = Some b \<and> (is_prime 1373653 \<longrightarrow> b))"
  using IsPrime_accepts_primes [of 1373653] by simp

text \<open>
  C31. The comment in the source promises the test for all numbers below 4759123141, but
  the witness test takes \<open>unsigned\<close> arguments: a number that is 1 modulo $2^{32}$ is
  narrowed to 1 and the loop that makes \<open>u\<close> odd never ends.
\<close>

theorem IsPrime_narrowing_diverges:
  assumes "1373653 \<le> unat n" and "unat n mod 2 ^ 32 = 1" and "\<not> 3 dvd unat n"
  shows "IsPrime n = None"
proof -
  have "unat n mod 4294967296 mod 2 = 1" using assms(2) by simp
  then have "odd (unat n)" by (simp add: mod_mod_cancel odd_iff_mod_2_eq_one)
  have "ucast n = (1 :: u32)" using assms(2) by (simp add: word_unat_eq_iff unat_ucast_mod)
  moreover have "(1 :: u32) div 2 = 0" by simp
  ultimately have "no_witness (a # as) n = None" for a as
    by (simp add: IsPrime_witness_def witness_split_0)
  with assms \<open>odd (unat n)\<close> show ?thesis
    unfolding IsPrime_def IsPrime_guard_unat by (simp add: word_less_nat_alt)
qed

theorem IsPrime_narrowing_diverges_witness:
  "IsPrime 4294967297 = None \<and> unat (4294967297 :: u64) < 4759123141"
  using IsPrime_narrowing_diverges [of 4294967297] by simp

section \<open>The next prime\<close>

lemma NextPrime_loop_least:
  assumes "is_prime p" and "p < 1373653"
  shows "odd (unat n) \<Longrightarrow> 2 < unat n \<Longrightarrow> unat n \<le> p \<Longrightarrow>
    \<exists>q. NextPrime_loop n = Some q \<and> is_prime (unat q) \<and> unat n \<le> unat q \<and>
        (\<forall>r. is_prime r \<and> unat n \<le> r \<longrightarrow> unat q \<le> r)"
proof (induction "p - unat n" arbitrary: n rule: less_induct)
  case less
  have small: "n < 1373653" using less.prems(3) assms(2) by (simp add: word_less_nat_alt)
  show ?case
  proof (cases "is_prime (unat n)")
    case True
    with small show ?thesis by (subst NextPrime_loop.simps) (auto simp: IsPrime_small)
  next
    case False
    have "odd p" using assms(1) less.prems is_prime_guard [OF assms(1)] by auto
    with False less.prems assms(1) have p2: "unat n + 2 \<le> p"
      by (metis Suc_leI add_2_eq_Suc' even_Suc le_neq_implies_less)
    then have n2: "unat (n + 2) = unat n + 2" using assms(2) by (simp add: unat_simps)
    have "p - (unat n + 2) < p - unat n" using p2 by simp
    then obtain q where q: "NextPrime_loop (n + 2) = Some q" "is_prime (unat q)" "unat n + 2 \<le> unat q"
      "\<forall>r. is_prime r \<and> unat n + 2 \<le> r \<longrightarrow> unat q \<le> r"
      using less.hyps [of "n + 2"] less.prems p2 by (auto simp: n2)
    have "unat q \<le> r" if "is_prime r" "unat n \<le> r" for r
    proof -
      have "odd r" using that less.prems is_prime_guard [OF that(1)] by auto
      with that False less.prems(1) have "unat n + 2 \<le> r"
        by (metis Suc_leI add_2_eq_Suc' even_Suc le_neq_implies_less)
      with q(4) that show ?thesis by blast
    qed
    with q False small show ?thesis
      by (subst NextPrime_loop.simps) (auto simp: IsPrime_small)
  qed
qed

text \<open>
  As long as a prime not below the argument exists in the exact range of the test,
  the search returns, and its result is the least prime not below the argument.
\<close>

theorem NextPrime_least:
  assumes "is_prime p" and "p < 1373653" and "unat n \<le> p"
  shows "\<exists>q. NextPrime n = Some q \<and> is_prime (unat q) \<and> unat n \<le> unat q \<and>
    (\<forall>r. is_prime r \<and> unat n \<le> r \<longrightarrow> unat q \<le> r)"
proof (cases "n \<le> 2")
  case True
  moreover have "is_prime 2"
    using trial_division_correct [of 2] no_small_factor_end [of 1 2] by simp
  moreover have "unat n \<le> 2" using True by (simp add: word_le_nat_alt)
  ultimately show ?thesis by (auto simp: NextPrime_def is_prime_def)
next
  case False
  then have big: "2 < unat n" by (simp add: word_le_nat_alt)
  then have "odd p" using assms is_prime_guard [OF assms(1)] by auto
  define m where "m = (if n AND 1 = 0 then n + 1 else n)"
  have m: "unat m = (if even (unat n) then unat n + 1 else unat n)"
    using assms by (simp add: m_def and_1_eq_0_iff unat_simps)
  have up: "unat m \<le> r" if "is_prime r" "unat n \<le> r" for r
  proof -
    have "odd r" using that big is_prime_guard [OF that(1)] by auto
    with that m show ?thesis by (metis Suc_eq_plus1 Suc_leI le_neq_implies_less)
  qed
  have "NextPrime n = NextPrime_loop m" using False by (simp add: NextPrime_def m_def)
  moreover have "unat n \<le> unat m" and "odd (unat m)" and "2 < unat m"
    using m big by auto
  ultimately show ?thesis
    using NextPrime_loop_least [OF assms(1,2), of m] up assms by fastforce
qed

theorem NextPrime_least_witness:
  "\<exists>q. NextPrime 8 = Some q \<and> is_prime (unat q) \<and> 8 \<le> unat q \<and>
    (\<forall>r. is_prime r \<and> 8 \<le> r \<longrightarrow> unat q \<le> r)"
proof -
  have "is_prime 11"
    using trial_division_correct [of 11] no_small_factor_end [of 1 11] by simp
  then show ?thesis using NextPrime_least [of 11 8] by simp
qed

lemma NextPowerOfTwo_power:
  assumes "unat (x :: 'a::len word) \<le> 2 ^ (LENGTH('a) - 1)"
  shows "\<exists>k<LENGTH('a). NextPowerOfTwo x = Some (2 ^ k) \<and> unat x \<le> 2 ^ k \<and>
      (\<forall>j. unat x \<le> 2 ^ j \<longrightarrow> k \<le> j) \<and> NextPowerOfTwo_smear x = 2 ^ k \<and>
      (LENGTH('a) \<le> 64 \<longrightarrow> NextPowerOfTwo_clz x = Some (2 ^ k))"
proof (cases "1 < x")
  case True
  let ?k = "bit_width (x - 1)"
  have k: "?k < LENGTH('a)" using assms True by (rule bit_width_pred_less)
  have pred: "unat (x - 1) = unat x - 1" and "1 < unat x"
    using True by (simp_all add: unat_simps word_less_nat_alt)
  have "unat x \<le> 2 ^ j \<longleftrightarrow> ?k \<le> j" for j
    using \<open>1 < unat x\<close> unfolding bit_width_le_iff pred by linarith
  moreover have "x \<noteq> 0" using True by auto
  ultimately show ?thesis
    using k True assms by (intro exI [of _ ?k])
      (simp add: NextPowerOfTwo_def bit_ceil_power smear_power clz_power)
next
  case False
  then have "x = 0 \<or> x = 1" by (rule le_1_word_cases)
  then show ?thesis
    by (intro exI [of _ 0])
      (auto simp: NextPowerOfTwo_def bit_ceil_def NextPowerOfTwo_smear_def NextPowerOfTwo_clz_def
        smear_mask [unfolded One_nat_def] bit_width.simps [of 0])
qed

text \<open>
  Rounding up to a power of two: for every representable case the compiled branch
  returns the least power of two not below its argument, and the two fallback branches of
  the header (count leading zeros, bit smearing) compute the same value.
\<close>

theorem NextPowerOfTwo_least:
  assumes "unat (x :: 'a::len word) \<le> 2 ^ (LENGTH('a) - 1)"
  shows "\<exists>k<LENGTH('a). NextPowerOfTwo x = Some (2 ^ k) \<and> unat x \<le> 2 ^ k \<and>
      (\<forall>j. unat x \<le> 2 ^ j \<longrightarrow> k \<le> j) \<and> NextPowerOfTwo_smear x = 2 ^ k \<and>
      (LENGTH('a) \<le> 64 \<longrightarrow> NextPowerOfTwo_clz x = Some (2 ^ k))"
  using assms by (rule NextPowerOfTwo_power)

theorem NextPowerOfTwo_least_witness:
  "\<exists>k<32. NextPowerOfTwo (1000 :: u32) = Some (2 ^ k) \<and> 1000 \<le> (2 :: nat) ^ k \<and>
      (\<forall>j. 1000 \<le> (2 :: nat) ^ j \<longrightarrow> k \<le> j) \<and> NextPowerOfTwo_smear (1000 :: u32) = 2 ^ k \<and>
      NextPowerOfTwo_clz (1000 :: u32) = Some (2 ^ k)"
  using NextPowerOfTwo_least [of "1000 :: u32"] by simp

end
