(* ===== verification/Timer_Slots.thy ===== *)
theory Timer_Slots
  imports Godby_Prelude
begin

text \<open>
  The intrusive doubly linked lists of \<^verbatim>\<open>godby/include/godby/TimerWheel.h\<close>: timer events
  (\<open>TimerEventTpl\<close>) carry their own links and a pointer to the slot (\<open>TimerSlotTpl\<close>) they are
  in. Events and slots are named by numbers and coordinates, the object fields are a store
  indexed by those names, and every pointer write of \<open>relink\<close> and \<open>pop\<close> is an update of the
  store. The abstraction relates the store to one list of events per slot.
\<close>

section \<open>State\<close>

type_synonym event_id = nat

datatype slot_id = Slot (slot_level: nat) (slot_index: nat)

record timer_event =
  M_scheduled_at :: u64
  M_slot :: "slot_id option"
  M_next :: "event_id option"
  M_prev :: "event_id option"

text \<open>A default-constructed event.\<close>

definition TimerEventTpl :: timer_event where
  "TimerEventTpl = \<lparr>M_scheduled_at = 0, M_slot = None, M_next = None, M_prev = None\<rparr>"

text \<open>
  The wheel: pending ticks, the clock of each level, the head pointer \<open>M_events\<close> of the slot
  \<open>M_slots[level][index]\<close>, the fields of all event objects, and the program state outside the
  timer library, which only the callbacks touch.
\<close>

record 'u wheel =
  M_ticks_pending :: u64
  M_now :: "nat \<Rightarrow> u64"
  M_slots :: "slot_id \<Rightarrow> event_id option"
  events :: "event_id \<Rightarrow> timer_event"
  world :: 'u

definition upd_event :: "event_id \<Rightarrow> (timer_event \<Rightarrow> timer_event) \<Rightarrow> 'u wheel \<Rightarrow> 'u wheel" where
  "upd_event e f w = w\<lparr>events := (events w)(e := f (events w e))\<rparr>"

abbreviation set_next :: "event_id \<Rightarrow> event_id option \<Rightarrow> 'u wheel \<Rightarrow> 'u wheel" where
  "set_next e n \<equiv> upd_event e (M_next_update (\<lambda>_. n))"

abbreviation set_prev :: "event_id \<Rightarrow> event_id option \<Rightarrow> 'u wheel \<Rightarrow> 'u wheel" where
  "set_prev e p \<equiv> upd_event e (M_prev_update (\<lambda>_. p))"

abbreviation set_slot :: "event_id \<Rightarrow> slot_id option \<Rightarrow> 'u wheel \<Rightarrow> 'u wheel" where
  "set_slot e s \<equiv> upd_event e (M_slot_update (\<lambda>_. s))"

abbreviation set_head :: "slot_id \<Rightarrow> event_id option \<Rightarrow> 'u wheel \<Rightarrow> 'u wheel" where
  "set_head s h w \<equiv> w\<lparr>M_slots := (M_slots w)(s := h)\<rparr>"

section \<open>TimerEventTpl and TimerSlotTpl\<close>

definition scheduled :: "event_id \<Rightarrow> 'u wheel \<Rightarrow> bool" where
  "scheduled e w \<longleftrightarrow> M_slot (events w e) \<noteq> None"

definition scheduled_at :: "event_id \<Rightarrow> 'u wheel \<Rightarrow> u64" where
  "scheduled_at e w = M_scheduled_at (events w e)"

definition set_scheduled_at :: "event_id \<Rightarrow> u64 \<Rightarrow> 'u wheel \<Rightarrow> 'u wheel" where
  "set_scheduled_at e tick = upd_event e (M_scheduled_at_update (\<lambda>_. tick))"

text \<open>The first half of \<open>relink\<close>: take the event out of the slot it is in.\<close>

definition unlink :: "event_id \<Rightarrow> 'u wheel \<Rightarrow> 'u wheel" where
  "unlink e w =
     (case M_slot (events w e) of
        None \<Rightarrow> w
      | Some old \<Rightarrow>
          (let prev = M_prev (events w e); next = M_next (events w e);
               w1 = (case next of None \<Rightarrow> w | Some n \<Rightarrow> set_prev n prev w)
           in case prev of Some p \<Rightarrow> set_next p next w1 | None \<Rightarrow> set_head old next w1))"

text \<open>The second half: push it on the front of the new slot, or leave it unlinked.\<close>

definition link_front :: "event_id \<Rightarrow> slot_id option \<Rightarrow> 'u wheel \<Rightarrow> 'u wheel" where
  "link_front e new_slot w =
     (case new_slot of
        Some s \<Rightarrow>
          (let old = M_slots w s;
               w1 = set_next e old w;
               w2 = (case old of None \<Rightarrow> w1 | Some h \<Rightarrow> set_prev h (Some e) w1)
           in set_head s (Some e) w2)
      | None \<Rightarrow> set_next e None w)"

definition relink :: "event_id \<Rightarrow> slot_id option \<Rightarrow> 'u wheel \<Rightarrow> 'u wheel" where
  "relink e new_slot w =
     (if new_slot = M_slot (events w e) then w
      else set_slot e new_slot (set_prev e None (link_front e new_slot (unlink e w))))"

definition cancel :: "event_id \<Rightarrow> 'u wheel \<Rightarrow> 'u wheel" where
  "cancel e w = (if M_slot (events w e) \<noteq> None then relink e None w else w)"

text \<open>\<open>TimerSlotTpl::pop\<close>; reading through a null head pointer is \<open>None\<close>.\<close>

definition pop :: "slot_id \<Rightarrow> 'u wheel \<Rightarrow> (event_id \<times> 'u wheel) option" where
  "pop s w =
     (case M_slots w s of
        None \<Rightarrow> None
      | Some e \<Rightarrow>
          (let next = M_next (events w e);
               w1 = set_head s next w;
               w2 = (case next of None \<Rightarrow> w1 | Some n \<Rightarrow> set_prev n None w1)
           in Some (e, set_slot e None (set_next e None w2))))"

section \<open>Abstraction to lists\<close>

text \<open>
  A list segment: from the node \<open>c\<close> with predecessor \<open>p\<close> through the events of the list to the
  node \<open>d\<close>, whose predecessor is \<open>q\<close>.
\<close>

fun dseg :: "(event_id \<Rightarrow> timer_event) \<Rightarrow> event_id option \<Rightarrow> event_id option \<Rightarrow> event_id list \<Rightarrow>
    event_id option \<Rightarrow> event_id option \<Rightarrow> bool" where
  "dseg E p c [] q d \<longleftrightarrow> p = q \<and> c = d"
| "dseg E p c (x # xs) q d \<longleftrightarrow>
     c = Some x \<and> M_prev (E x) = p \<and> dseg E (Some x) (M_next (E x)) xs q d"

definition end_of :: "event_id option \<Rightarrow> event_id list \<Rightarrow> event_id option" where
  "end_of p xs = (if xs = [] then p else Some (last xs))"

definition links :: "'u wheel \<Rightarrow> (slot_id \<Rightarrow> event_id list) \<Rightarrow> bool" where
  "links w S \<longleftrightarrow> (\<forall>s. dseg (events w) None (M_slots w s) (S s) (end_of None (S s)) None) \<and>
     (\<forall>s. distinct (S s)) \<and> (\<forall>s t. s \<noteq> t \<longrightarrow> set (S s) \<inter> set (S t) = {})"

definition slots_abs :: "'u wheel \<Rightarrow> (slot_id \<Rightarrow> event_id list) \<Rightarrow> bool" where
  "slots_abs w S \<longleftrightarrow> links w S \<and> (\<forall>e s. M_slot (events w e) = Some s \<longleftrightarrow> e \<in> set (S s))"

section \<open>List segments\<close>

lemma upd_event_simps [simp]:
  "events (upd_event e f w) = (events w)(e := f (events w e))"
  "M_slots (upd_event e f w) = M_slots w"
  "M_now (upd_event e f w) = M_now w"
  "M_ticks_pending (upd_event e f w) = M_ticks_pending w"
  "world (upd_event e f w) = world w"
  by (simp_all add: upd_event_def)

lemma linksI:
  "(\<And>s. dseg (events w) None (M_slots w s) (S s) (end_of None (S s)) None) \<Longrightarrow>
   (\<And>s. distinct (S s)) \<Longrightarrow> (\<And>s t. s \<noteq> t \<Longrightarrow> set (S s) \<inter> set (S t) = {}) \<Longrightarrow> links w S"
  unfolding links_def by blast

lemma linksD:
  assumes "links w S"
  shows "dseg (events w) None (M_slots w s) (S s) (end_of None (S s)) None"
    and "distinct (S s)" and "s \<noteq> t \<Longrightarrow> set (S s) \<inter> set (S t) = {}"
  using assms unfolding links_def by blast+

lemma slots_absI:
  "links w S \<Longrightarrow> (\<And>e s. M_slot (events w e) = Some s \<longleftrightarrow> e \<in> set (S s)) \<Longrightarrow> slots_abs w S"
  unfolding slots_abs_def by blast

lemma slots_absD:
  assumes "slots_abs w S"
  shows "links w S" and "M_slot (events w e) = Some s \<longleftrightarrow> e \<in> set (S s)"
  using assms unfolding slots_abs_def by blast+

lemma end_of_Cons: "end_of p (x # xs) = end_of (Some x) xs"
  by (simp add: end_of_def)

lemma dseg_append:
  "dseg E p c (xs @ ys) q d \<longleftrightarrow> (\<exists>r m. dseg E p c xs r m \<and> dseg E r m ys q d)"
  by (induction xs arbitrary: p c) auto

lemma dseg_end: "dseg E p c xs q d \<Longrightarrow> q = end_of p xs"
  by (induction xs arbitrary: p c) (fastforce simp: end_of_def)+

lemma dseg_cong:
  "(\<And>x. x \<in> set xs \<Longrightarrow> M_prev (E' x) = M_prev (E x) \<and> M_next (E' x) = M_next (E x)) \<Longrightarrow>
   dseg E' p c xs q d \<longleftrightarrow> dseg E p c xs q d"
  by (induction xs arbitrary: p c) auto

lemma dseg_unique: "dseg E p c xs q None \<Longrightarrow> dseg E p c ys r None \<Longrightarrow> xs = ys"
proof (induction xs arbitrary: p c ys)
  case Nil
  then show ?case by (cases ys) auto
next
  case (Cons x xs)
  then show ?case by (cases ys) auto
qed

lemma dseg_head: "dseg E p c xs q None \<Longrightarrow> c = (case xs of [] \<Rightarrow> None | x # _ \<Rightarrow> Some x)"
  by (cases xs) auto

lemma dseg_cong_mono:
  "dseg E p c xs q d \<Longrightarrow>
   (\<And>x. x \<in> set xs \<Longrightarrow> M_prev (E' x) = M_prev (E x) \<and> M_next (E' x) = M_next (E x)) \<Longrightarrow>
   dseg E' p c xs q d"
  using dseg_cong [of xs E' E p c q d] by blast

text \<open>Taking an event out of the middle of a list: its neighbours are linked to each other.\<close>

lemma dseg_neighbours:
  assumes "dseg E None c (xs @ e # ys) q None"
  shows "M_prev (E e) = end_of None xs"
    and "M_next (E e) = (case ys of [] \<Rightarrow> None | y # _ \<Rightarrow> Some y)"
    and "dseg E None c xs (M_prev (E e)) (Some e)"
    and "dseg E (Some e) (M_next (E e)) ys q None"
proof -
  show xs: "dseg E None c xs (M_prev (E e)) (Some e)" and ys: "dseg E (Some e) (M_next (E e)) ys q None"
    using assms by (auto simp: dseg_append)
  show "M_prev (E e) = end_of None xs" using dseg_end [OF xs] .
  show "M_next (E e) = (case ys of [] \<Rightarrow> None | y # _ \<Rightarrow> Some y)" using dseg_head [OF ys] .
qed

definition bypass :: "(event_id \<Rightarrow> timer_event) \<Rightarrow> event_id \<Rightarrow> event_id \<Rightarrow> timer_event" where
  "bypass E e x =
     (let y = (if M_next (E e) = Some x then M_prev_update (\<lambda>_. M_prev (E e)) (E x) else E x)
      in if M_prev (E e) = Some x then M_next_update (\<lambda>_. M_next (E e)) y else y)"

lemma dseg_bypass_tail:
  assumes "dseg E (Some e) (M_next (E e)) ys q None" and "distinct ys"
    and "\<And>x. x \<in> set ys \<Longrightarrow> M_prev (E e) \<noteq> Some x"
  shows "\<exists>q'. dseg (bypass E e) (M_prev (E e)) (M_next (E e)) ys q' None"
proof (cases ys)
  case Nil
  with assms(1) show ?thesis by simp
next
  case (Cons y ys')
  then have ny: "M_next (E e) = Some y" and d: "dseg E (Some y) (M_next (E y)) ys' q None"
    using assms(1) by simp_all
  have "bypass E e y = M_prev_update (\<lambda>_. M_prev (E e)) (E y)"
    using ny assms(3) [of y] Cons by (simp add: bypass_def)
  moreover have "bypass E e x = E x" if "x \<in> set ys'" for x
    using that ny assms(2) assms(3) [of x] Cons by (auto simp: bypass_def)
  then have "dseg (bypass E e) (Some y) (M_next (E y)) ys' q None"
    by (intro dseg_cong_mono [OF d]) simp
  ultimately show ?thesis
    using Cons ny by (intro exI [of _ q]) simp
qed

lemma dseg_remove:
  assumes "dseg E None c (xs @ e # ys) q None" and "distinct (xs @ e # ys)"
    and "c' = (case M_prev (E e) of None \<Rightarrow> M_next (E e) | Some _ \<Rightarrow> c)"
  shows "\<exists>q'. dseg (bypass E e) None c' (xs @ ys) q' None"
proof -
  note n = dseg_neighbours [OF assms(1)]
  have "M_prev (E e) \<noteq> Some x" if "x \<in> set ys" for x
    using n(1) that assms(2) by (auto simp: end_of_def dest: last_in_set)
  then obtain q' where ys: "dseg (bypass E e) (M_prev (E e)) (M_next (E e)) ys q' None"
    using dseg_bypass_tail [OF n(4)] assms(2) by auto
  show ?thesis
  proof (cases xs rule: rev_cases)
    case Nil
    with n(1) have "M_prev (E e) = None" by (simp add: end_of_def)
    with Nil ys assms(3) show ?thesis by auto
  next
    case (snoc zs a)
    with n(1) have pa: "M_prev (E e) = Some a" by (simp add: end_of_def)
    have new: "a \<noteq> e" "a \<notin> set ys" "a \<notin> set zs" "\<And>x. x \<in> set zs \<Longrightarrow> x \<notin> set ys"
      using assms(2) snoc by auto
    then have "M_next (E e) \<noteq> Some a" "\<And>x. x \<in> set zs \<Longrightarrow> M_next (E e) \<noteq> Some x"
      using n(2) by (auto split: list.splits)
    then have a: "bypass E e a = M_next_update (\<lambda>_. M_next (E e)) (E a)"
      and z: "\<And>x. x \<in> set zs \<Longrightarrow> bypass E e x = E x"
      using pa new(3) by (auto simp: bypass_def Let_def)
    have "dseg E None c zs (M_prev (E a)) (Some a)"
      using n(3) snoc by (auto simp: dseg_append)
    then have "dseg (bypass E e) None c zs (M_prev (E a)) (Some a)"
      by (rule dseg_cong_mono) (simp add: z)
    then have "dseg (bypass E e) None c xs (Some a) (M_next (E e))"
      by (auto simp: snoc dseg_append a)
    with ys assms(3) pa show ?thesis by (auto simp: dseg_append)
  qed
qed

lemma links_cases:
  assumes "links w S" and "e \<in> set (S s)"
  obtains xs ys where "S s = xs @ e # ys" "removeAll e (S s) = xs @ ys"
    "\<And>t. t \<noteq> s \<Longrightarrow> removeAll e (S t) = S t"
proof -
  obtain xs ys where "S s = xs @ e # ys" using assms(2) by (meson split_list)
  moreover from this assms(1) have "e \<notin> set xs" "e \<notin> set ys"
    unfolding links_def by (metis distinct_append distinct.simps(2) disjoint_insert(1) list.set(2))+
  moreover have "e \<notin> set (S t)" if "t \<noteq> s" for t
    using that assms unfolding links_def by blast
  ultimately show thesis using that by (simp add: removeAll_id)
qed

lemma unlink_frame [simp]:
  "M_now (unlink e w) = M_now w" "M_ticks_pending (unlink e w) = M_ticks_pending w"
  "world (unlink e w) = world w"
  "M_slot (events (unlink e w) x) = M_slot (events w x)"
  "M_scheduled_at (events (unlink e w) x) = M_scheduled_at (events w x)"
  by (auto simp: unlink_def Let_def split: option.splits)

lemma unlink_links:
  assumes "slots_abs w S"
  shows "links (unlink e w) (\<lambda>s. removeAll e (S s))"
proof (cases "M_slot (events w e)")
  case None
  then have "e \<notin> set (S s)" for s using assms unfolding slots_abs_def by (metis option.distinct(1))
  with assms None show ?thesis by (simp add: unlink_def slots_abs_def removeAll_id)
next
  case (Some s)
  have L: "links w S" and ein: "e \<in> set (S s)" using assms Some unfolding slots_abs_def by blast+
  from L ein obtain xs ys where S: "S s = xs @ e # ys" "removeAll e (S s) = xs @ ys"
    and other: "\<And>t. t \<noteq> s \<Longrightarrow> removeAll e (S t) = S t" by (rule links_cases) blast
  let ?E = "events w" and ?w = "unlink e w"
  define c' where "c' = (case M_prev (?E e) of None \<Rightarrow> M_next (?E e) | Some _ \<Rightarrow> M_slots w s)"
  have d: "dseg ?E None (M_slots w s) (xs @ e # ys) (end_of None (S s)) None"
    and dis: "distinct (xs @ e # ys)"
    using L S(1) unfolding links_def by metis+
  have E: "events ?w = bypass ?E e"
    by (rule ext) (auto simp: unlink_def bypass_def Some Let_def split: option.splits)
  have here: "\<exists>q'. dseg (events ?w) None c' (xs @ ys) q' None"
    unfolding E by (rule dseg_remove [OF d dis c'_def])
  have head: "M_slots ?w s = c'" "t \<noteq> s \<Longrightarrow> M_slots ?w t = M_slots w t" for t
    by (auto simp: unlink_def Some Let_def c'_def split: option.splits)
  have touched: "events ?w x = ?E x" if "x \<notin> set (S s)" for x
  proof -
    have "M_prev (?E e) \<noteq> Some x" "M_next (?E e) \<noteq> Some x"
      using that dseg_neighbours(1,2) [OF d] by (auto simp: S(1) end_of_def split: list.splits)
    then show ?thesis by (simp add: E bypass_def)
  qed
  have "dseg (events ?w) None (M_slots ?w t) (removeAll e (S t)) (end_of None (removeAll e (S t))) None" for t
  proof (cases "t = s")
    case True
    from here obtain q' where q': "dseg (events ?w) None c' (xs @ ys) q' None" by blast
    then have "q' = end_of None (xs @ ys)" by (rule dseg_end)
    with q' True head(1) S(2) show ?thesis by simp
  next
    case False
    then have "set (S t) \<inter> set (S s) = {}" by (rule linksD(3) [OF L])
    then have "dseg (events ?w) None (M_slots w t) (S t) (end_of None (S t)) None"
      using touched by (intro dseg_cong_mono [OF linksD(1) [OF L]]) (metis disjoint_iff)
    with False head(2) other show ?thesis by simp
  qed
  moreover have "distinct (removeAll e (S t))" for t using L by (simp add: links_def distinct_removeAll)
  moreover have "set (removeAll e (S t)) \<inter> set (removeAll e (S u)) = {}" if "t \<noteq> u" for t u
    using linksD(3) [OF L that] by auto
  ultimately show ?thesis unfolding links_def by blast
qed

lemma link_front_frame [simp]:
  "M_now (link_front e s w) = M_now w" "M_ticks_pending (link_front e s w) = M_ticks_pending w"
  "world (link_front e s w) = world w"
  "M_slot (events (link_front e s w) x) = M_slot (events w x)"
  "M_scheduled_at (events (link_front e s w) x) = M_scheduled_at (events w x)"
  by (auto simp: link_front_def Let_def split: option.splits)

lemma link_front_links:
  assumes "links w S" and "\<And>t. e \<notin> set (S t)"
  shows "links (set_prev e None (link_front e (Some s) w)) (S(s := e # S s))"
proof -
  define v where "v = set_prev e None (link_front e (Some s) w)"
  note d = linksD(1) [OF assms(1)] and dist = linksD(2) [OF assms(1)] and disj = linksD(3) [OF assms(1)]
  have hd: "M_slots w s = (case S s of [] \<Rightarrow> None | x # _ \<Rightarrow> Some x)" using dseg_head [OF d] .
  have head: "M_slots v = (M_slots w)(s := Some e)"
    by (auto simp: v_def link_front_def Let_def split: option.splits)
  have e: "M_prev (events v e) = None" "M_next (events v e) = M_slots w s"
    using assms(2) [of s] hd by (auto simp: v_def link_front_def Let_def split: option.splits list.splits)
  have same: "M_prev (events v x) = M_prev (events w x) \<and> M_next (events v x) = M_next (events w x)"
    if "x \<noteq> e" "M_slots w s \<noteq> Some x" for x
    using that by (auto simp: v_def link_front_def Let_def split: option.splits)
  have first: "M_prev (events v x) = Some e" "M_next (events v x) = M_next (events w x)"
    if "M_slots w s = Some x" for x
    using that assms(2) [of s] hd by (auto simp: v_def link_front_def Let_def split: list.splits)
  have "dseg (events v) (Some e) (M_slots w s) (S s) (end_of (Some e) (S s)) None"
  proof (cases "S s")
    case Nil
    with hd show ?thesis by (simp add: end_of_def)
  next
    case (Cons x xs)
    have "dseg (events w) (Some x) (M_next (events w x)) xs (end_of None (S s)) None"
      using d [of s] Cons by simp
    then have "dseg (events v) (Some x) (M_next (events w x)) xs (end_of None (S s)) None"
    proof (rule dseg_cong_mono)
      fix y assume "y \<in> set xs"
      then have "y \<noteq> e" "M_slots w s \<noteq> Some y"
        using dist [of s] assms(2) [of s] hd Cons by auto
      then show "M_prev (events v y) = M_prev (events w y) \<and> M_next (events v y) = M_next (events w y)"
        by (rule same)
    qed
    with Cons hd first [of x] show ?thesis by (simp add: end_of_def)
  qed
  moreover have "dseg (events v) None (M_slots w t) (S t) (end_of None (S t)) None" if "t \<noteq> s" for t
  proof (rule dseg_cong_mono [OF d])
    fix x assume "x \<in> set (S t)"
    then have "x \<notin> set (S s)" using disj [OF that] by blast
    then have "M_slots w s \<noteq> Some x" using hd by (auto split: list.splits)
    moreover have "x \<noteq> e" using \<open>x \<in> set (S t)\<close> assms(2) by blast
    ultimately show "M_prev (events v x) = M_prev (events w x) \<and> M_next (events v x) = M_next (events w x)"
      by (rule same [rotated])
  qed
  ultimately show ?thesis
    unfolding v_def [symmetric]
  proof (intro linksI)
    fix t u :: slot_id
    assume "t \<noteq> u"
    then show "set ((S(s := e # S s)) t) \<inter> set ((S(s := e # S s)) u) = {}"
      using disj [of t u] assms(2) by auto
  qed (use dist assms(2) in \<open>auto simp: head e end_of_Cons\<close>)
qed

definition removed :: "event_id \<Rightarrow> (slot_id \<Rightarrow> event_id list) \<Rightarrow> slot_id \<Rightarrow> event_id list" where
  "removed e S = (\<lambda>s. removeAll e (S s))"

lemma set_slot_links: "links (set_slot e s w) S \<longleftrightarrow> links w S"
proof -
  have "dseg (events (set_slot e s w)) p c xs q d \<longleftrightarrow> dseg (events w) p c xs q d" for p c xs q d
    by (rule dseg_cong) simp
  then show ?thesis by (simp add: links_def)
qed

lemma relink_M_slot [simp]:
  "M_slot (events (relink e s w) x) = (if x = e then s else M_slot (events w x))"
  by (simp add: relink_def)

text \<open>What \<open>relink\<close> does to the lists, on each of its branches.\<close>

lemma relink_Some:
  assumes "slots_abs w S" and "M_slot (events w e) \<noteq> Some s"
  shows "slots_abs (relink e (Some s) w) ((removed e S)(s := e # removed e S s))"
proof -
  have "links (unlink e w) (removed e S)"
    using unlink_links [OF assms(1)] by (simp add: removed_def)
  then have "links (set_prev e None (link_front e (Some s) (unlink e w))) ((removed e S)(s := e # removed e S s))"
    by (rule link_front_links) (simp add: removed_def)
  moreover have "M_slot (events (relink e (Some s) w) x) = Some t \<longleftrightarrow>
      x \<in> set (((removed e S)(s := e # removed e S s)) t)" for x t
    using slots_absD(2) [OF assms(1), of x t] by (auto simp: removed_def)
  moreover have "relink e (Some s) w = set_slot e (Some s) (set_prev e None (link_front e (Some s) (unlink e w)))"
    using assms(2) by (auto simp: relink_def)
  ultimately show ?thesis
    by (intro slots_absI) (simp_all only: set_slot_links)
qed

lemma relink_same: "M_slot (events w e) = s \<Longrightarrow> relink e s w = w"
  by (simp add: relink_def)

lemma relink_None:
  assumes "slots_abs w S" and "M_slot (events w e) \<noteq> None"
  shows "slots_abs (relink e None w) (removed e S)"
proof -
  have L: "links (unlink e w) (removed e S)"
    using unlink_links [OF assms(1)] by (simp add: removed_def)
  let ?w = "set_prev e None (link_front e None (unlink e w))"
  have "dseg (events ?w) p c (removed e S s) q d \<longleftrightarrow> dseg (events (unlink e w)) p c (removed e S s) q d" for p c s q d
    by (rule dseg_cong) (auto simp: link_front_def removed_def)
  then have "links ?w (removed e S)" using L by (simp add: links_def link_front_def)
  moreover have "M_slot (events (relink e None w) x) = Some t \<longleftrightarrow> x \<in> set (removed e S t)" for x t
    using slots_absD(2) [OF assms(1), of x t] by (auto simp: removed_def)
  moreover have "relink e None w = set_slot e None ?w"
    using assms(2) by (auto simp: relink_def)
  ultimately show ?thesis
    by (intro slots_absI) (simp_all only: set_slot_links)
qed

lemma relink_frame [simp]:
  "M_now (relink e s w) = M_now w" "M_ticks_pending (relink e s w) = M_ticks_pending w"
  "world (relink e s w) = world w"
  "M_scheduled_at (events (relink e s w) x) = M_scheduled_at (events w x)"
  by (simp_all add: relink_def)

lemma pop_frame:
  assumes "pop s w = Some (e, w')"
  shows "M_now w' = M_now w" "M_ticks_pending w' = M_ticks_pending w" "world w' = world w"
    "M_scheduled_at (events w' x) = M_scheduled_at (events w x)"
    "M_slots w s = Some e"
  using assms by (auto simp: pop_def Let_def split: option.splits)

text \<open>\<open>pop\<close> takes the first event of the slot and leaves it unscheduled.\<close>

lemma pop_abs:
  assumes "slots_abs w S" and "S s = e # xs"
  shows "\<exists>w'. pop s w = Some (e, w') \<and> slots_abs w' (S(s := xs))"
proof -
  note L = slots_absD(1) [OF assms(1)]
  note d = linksD(1) [OF L] and dist = linksD(2) [OF L] and disj = linksD(3) [OF L]
  have h: "M_slots w s = Some e" using dseg_head [OF d, of s] assms(2) by simp
  have dxs: "dseg (events w) (Some e) (M_next (events w e)) xs (end_of None (S s)) None"
    using d [of s] assms(2) by simp
  have nx: "M_next (events w e) = (case xs of [] \<Rightarrow> None | x # _ \<Rightarrow> Some x)" using dseg_head [OF dxs] .
  obtain w' where w': "pop s w = Some (e, w')" using h by (simp add: pop_def Let_def)
  then have def: "w' = set_slot e None (set_next e None
      (case M_next (events w e) of None \<Rightarrow> set_head s (M_next (events w e)) w
       | Some n \<Rightarrow> set_prev n None (set_head s (M_next (events w e)) w)))"
    using h by (simp add: pop_def Let_def)
  have head: "M_slots w' = (M_slots w)(s := M_next (events w e))"
    by (auto simp: def split: option.splits)
  have e_xs: "e \<notin> set xs" using dist [of s] assms(2) by simp
  have same: "M_prev (events w' x) = M_prev (events w x) \<and> M_next (events w' x) = M_next (events w x)"
    if "x \<noteq> e" "M_next (events w e) \<noteq> Some x" for x
    using that by (auto simp: def split: option.splits)
  have "dseg (events w') None (M_slots w' t) ((S(s := xs)) t) (end_of None ((S(s := xs)) t)) None" for t
  proof (cases "t = s")
    case False
    have "x \<noteq> e \<and> M_next (events w e) \<noteq> Some x" if "x \<in> set (S t)" for x
      using that disj [OF False] nx assms(2) by (auto split: list.splits)
    then have "dseg (events w') None (M_slots w t) (S t) (end_of None (S t)) None"
      by (intro dseg_cong_mono [OF d] same) blast+
    with False head show ?thesis by simp
  next
    case True
    show ?thesis
    proof (cases xs)
      case Nil
      with True head nx show ?thesis by (simp add: end_of_def)
    next
      case (Cons y ys)
      then have "dseg (events w) (Some y) (M_next (events w y)) ys (end_of None (S s)) None"
        using dxs by simp
      then have "dseg (events w') (Some y) (M_next (events w y)) ys (end_of None (S s)) None"
      proof (rule dseg_cong_mono)
        fix x assume "x \<in> set ys"
        then have "x \<noteq> e" "M_next (events w e) \<noteq> Some x"
          using Cons nx e_xs dist [of s] assms(2) by auto
        then show "M_prev (events w' x) = M_prev (events w x) \<and> M_next (events w' x) = M_next (events w x)"
          by (rule same)
      qed
      moreover have "M_prev (events w' y) = None" "M_next (events w' y) = M_next (events w y)"
        using Cons nx e_xs by (auto simp: def)
      ultimately show ?thesis
        using True head nx Cons assms(2) by (simp add: end_of_def)
    qed
  qed
  moreover have "distinct ((S(s := xs)) t)" for t using dist [of t] dist [of s] assms(2) by auto
  moreover have "set ((S(s := xs)) t) \<inter> set ((S(s := xs)) u) = {}" if "t \<noteq> u" for t u
    using disj [OF that] assms(2) by auto
  moreover have "M_slot (events w' x) = Some t \<longleftrightarrow> x \<in> set ((S(s := xs)) t)" for x t
  proof -
    have "M_slot (events w' x) = (if x = e then None else M_slot (events w x))"
      by (auto simp: def split: option.splits)
    moreover have "M_slot (events w x) = Some t \<longleftrightarrow> x \<in> set (S t)"
      by (rule slots_absD(2) [OF assms(1)])
    moreover have "e \<notin> set (S t)" if "t \<noteq> s" using disj [OF that] assms(2) by auto
    ultimately show ?thesis using e_xs assms(2) by auto
  qed
  ultimately have "slots_abs w' (S(s := xs))"
    by (intro slots_absI linksI)
  with w' show ?thesis by blast
qed

lemma slots_abs_head: "slots_abs w S \<Longrightarrow> M_slots w s = None \<longleftrightarrow> S s = []"
  using dseg_head [OF linksD(1) [OF slots_absD(1)], of w S s] by (auto split: list.splits)

end
