(* ===== verification/Timer_Wheel.thy ===== *)
theory Timer_Wheel
  imports Timer_Slots
begin

text \<open>
  The hierarchical timer wheel \<open>TimerWheelTpl<uint64_t>\<close> of \<^verbatim>\<open>godby/include/godby/TimerWheel.h\<close>:
  eight levels of 256 slots, each level ticking 256 times slower than the one below. The
  model keeps the 64-bit ticks, the two mutually recursive functions \<open>advance\<close> and
  \<open>process_current_slot\<close>, the limit on the number of executed events and the resumption of an
  interrupted tick. A failed assertion or an access outside an array is \<open>None\<close>.

  The virtual \<open>execute\<close> of an event is a parameter of the functions that call it; the locale
  \<open>timer_callback\<close> states what the wheel relies on. Only the loop that empties a slot takes
  fuel, since a callback decides how often it runs; \<open>timer_callback\<close> gives a bound.
\<close>

section \<open>Constants and constructor\<close>

abbreviation LEVEL_NUM :: nat where "LEVEL_NUM \<equiv> 8"
abbreviation MAX_LEVEL :: nat where "MAX_LEVEL \<equiv> 7"
abbreviation NUM_SLOTS :: u64 where "NUM_SLOTS \<equiv> 256"
abbreviation SLOT_MASK :: u64 where "SLOT_MASK \<equiv> 255"

definition TimerWheelTpl :: "u64 \<Rightarrow> (event_id \<Rightarrow> timer_event) \<Rightarrow> 'u \<Rightarrow> 'u wheel" where
  "TimerWheelTpl start_tick evs u =
     \<lparr>M_ticks_pending = 0, M_now = (\<lambda>i. drop_bit (8 * i) start_tick), M_slots = (\<lambda>_. None),
      events = evs, world = u\<rparr>"

definition now :: "'u wheel \<Rightarrow> u64" where
  "now w = M_now w 0"

section \<open>schedule and schedule\_in\_range\<close>

text \<open>The loop that finds the level for a distance, and the distance in ticks of that level.\<close>

function schedule_level :: "(nat \<Rightarrow> u64) \<Rightarrow> nat \<Rightarrow> u64 \<Rightarrow> nat \<times> u64" where
  "schedule_level nows level delta =
     (if delta \<ge> NUM_SLOTS
      then schedule_level nows (level + 1) (drop_bit 8 (delta + (nows level AND SLOT_MASK)))
      else (level, delta))"
  by pat_completeness auto
termination
proof (relation "measure (\<lambda>(nows, level, delta). unat delta)", goal_cases)
  case (2 nows level delta)
  have "unat (nows level AND SLOT_MASK) = unat (nows level) mod 256"
    using unat_and_mask_nat [of "nows level" 8] by (simp add: mask_eq_exp_minus_1)
  then have "unat (nows level AND SLOT_MASK) < 256" by simp
  moreover have "unat (delta + (nows level AND SLOT_MASK)) \<le> unat delta + unat (nows level AND SLOT_MASK)"
    by (simp add: unat_word_ariths)
  ultimately have "unat (delta + (nows level AND SLOT_MASK)) div 256 \<le> (unat delta + 255) div 256"
    by (intro div_le_mono) simp
  also have "(unat delta + 255) div 256 < unat delta"
    using 2 by (simp add: word_le_nat_alt)
  finally show ?case by (simp add: unat_simps)
qed simp

declare schedule_level.simps [simp del]

definition schedule :: "event_id \<Rightarrow> u64 \<Rightarrow> 'u wheel \<Rightarrow> 'u wheel option" where
  "schedule e delta w =
     (if delta = 0 then None
      else let w1 = set_scheduled_at e (M_now w 0 + delta) w;
               (level, d) = schedule_level (M_now w1) 0 delta
           in if level \<le> MAX_LEVEL
              then Some (relink e (Some (Slot level (unat ((M_now w1 level + d) AND SLOT_MASK)))) w1)
              else None)"

text \<open>The loop that widens the mask until both ends of the range agree under it.\<close>

lemma push_bit_8_vanishes: "\<exists>n. push_bit (8 * n) (m :: u64) = 0"
  by (intro exI [of _ 8]) (simp add: bit_eq_iff bit_push_bit_iff)

function range_mask :: "u64 \<Rightarrow> u64 \<Rightarrow> u64 \<Rightarrow> u64" where
  "range_mask start stop m =
     (if start AND m \<noteq> stop AND m then range_mask start stop (push_bit 8 m) else m)"
  by pat_completeness auto
termination
proof (relation "measure (\<lambda>(start, stop, m). LEAST n. push_bit (8 * n) m = 0)", goal_cases)
  case (2 start stop m)
  let ?n = "LEAST n. push_bit (8 * n) m = 0"
  have n: "push_bit (8 * ?n) m = 0" using push_bit_8_vanishes [of m] by (rule LeastI_ex)
  have "m \<noteq> 0" using 2 by auto
  with n obtain k where k: "?n = Suc k" by (cases ?n) auto
  then have "push_bit (8 * k) (push_bit 8 m) = 0" using n by (simp add: push_bit_push_bit add.commute)
  then have "(LEAST n. push_bit (8 * n) (push_bit 8 m) = 0) \<le> k" by (rule Least_le)
  with k show ?case by simp
qed simp

declare range_mask.simps [simp del]

definition schedule_in_range :: "event_id \<Rightarrow> u64 \<Rightarrow> u64 \<Rightarrow> 'u wheel \<Rightarrow> 'u wheel option" where
  "schedule_in_range e start stop w =
     (if \<not> stop > start then None
      else if scheduled e w \<and>
              (let current = scheduled_at e w - M_now w 0 in current \<ge> start \<and> current \<le> stop)
      then Some w
      else schedule e (stop AND drop_bit 8 (range_mask start stop (NOT 0))) w)"

section \<open>advance and process\_current\_slot\<close>

text \<open>The callback of an event: it sees and may change the whole state, or fail.\<close>

type_synonym 'u execute = "event_id \<Rightarrow> 'u wheel \<Rightarrow> 'u wheel option"

text \<open>
  The loop of \<open>process_current_slot\<close> that empties one slot. The result is the return value,
  the remaining number of executions (a reference parameter) and the state.
\<close>

fun drain_slot :: "nat \<Rightarrow> 'u execute \<Rightarrow> nat \<Rightarrow> nat \<Rightarrow> u64 \<Rightarrow> 'u wheel \<Rightarrow> (bool \<times> u64 \<times> 'u wheel) option" where
  "drain_slot 0 exec level i max_events w = None"
| "drain_slot (Suc fuel) exec level i max_events w =
     (case pop (Slot level i) w of
        None \<Rightarrow> Some (True, max_events, w)
      | Some (e, w1) \<Rightarrow>
          if level > 0 \<and> (M_now w1 0 AND SLOT_MASK) \<noteq> 0 then None
          else if level > 0 \<and> \<not> M_now w1 0 \<ge> scheduled_at e w1
          then (case schedule e (scheduled_at e w1 - M_now w1 0) w1 of
                  None \<Rightarrow> None
                | Some w2 \<Rightarrow> drain_slot fuel exec level i max_events w2)
          else (case exec e w1 of
                  None \<Rightarrow> None
                | Some w2 \<Rightarrow>
                    if max_events - 1 = 0 then Some (False, max_events - 1, w2)
                    else drain_slot fuel exec level i (max_events - 1) w2))"

text \<open>
  \<open>advance\<close>, its loop \<open>while (delta--)\<close> and \<open>process_current_slot\<close>. The limit is passed to the
  next level by value and to \<open>process_current_slot\<close> by reference, as in the code.
\<close>

function advance :: "nat \<Rightarrow> 'u execute \<Rightarrow> u64 \<Rightarrow> u64 \<Rightarrow> nat \<Rightarrow> 'u wheel \<Rightarrow> (bool \<times> 'u wheel) option"
  and advance_loop :: "nat \<Rightarrow> 'u execute \<Rightarrow> u64 \<Rightarrow> u64 \<Rightarrow> nat \<Rightarrow> 'u wheel \<Rightarrow> (bool \<times> 'u wheel) option"
  and process_current_slot ::
    "nat \<Rightarrow> 'u execute \<Rightarrow> u64 \<Rightarrow> u64 \<Rightarrow> nat \<Rightarrow> 'u wheel \<Rightarrow> (bool \<times> u64 \<times> 'u wheel) option" where
  "advance fuel exec delta max_execute level w =
     (if M_ticks_pending w \<noteq> 0 then
        let w1 = (if level = 0 then w\<lparr>M_ticks_pending := M_ticks_pending w + delta\<rparr> else w)
        in case process_current_slot fuel exec (M_now w1 level) max_execute level w1 of
             None \<Rightarrow> None
           | Some (ok, max_execute', w2) \<Rightarrow>
               if \<not> ok then Some (False, w2)
               else if level = 0
               then advance_loop fuel exec (M_ticks_pending w2 - 1) max_execute' level
                      (w2\<lparr>M_ticks_pending := 0\<rparr>)
               else Some (True, w2)
      else if delta = 0 then None
      else advance_loop fuel exec delta max_execute level w)"
| "advance_loop fuel exec delta max_execute level w =
     (if delta = 0 then Some (True, w)
      else let w1 = w\<lparr>M_now := (M_now w)(level := M_now w level + 1)\<rparr>
           in case process_current_slot fuel exec (M_now w1 level) max_execute level w1 of
                None \<Rightarrow> None
              | Some (ok, max_execute', w2) \<Rightarrow>
                  if \<not> ok then Some (False, w2\<lparr>M_ticks_pending := (delta - 1) + 1\<rparr>)
                  else advance_loop fuel exec (delta - 1) max_execute' level w2)"
| "process_current_slot fuel exec tick max_events level w =
     (let i = unat (tick AND SLOT_MASK)
      in if i = 0 \<and> level < MAX_LEVEL
         then (case advance fuel exec 1 max_events (level + 1) w of
                 None \<Rightarrow> None
               | Some (ok, w1) \<Rightarrow>
                   if \<not> ok then Some (False, max_events, w1)
                   else drain_slot fuel exec level i max_events w1)
         else drain_slot fuel exec level i max_events w)"
  by pat_completeness auto
termination
  by (relation "measures
    [\<lambda>x. case x of Inl (f, x, d, m, l, w) \<Rightarrow> 8 - l | Inr (Inl (f, x, d, m, l, w)) \<Rightarrow> 8 - l
       | Inr (Inr (f, x, t, m, l, w)) \<Rightarrow> 8 - l,
     \<lambda>x. case x of Inl (f, x, d, m, l, w) \<Rightarrow> 2 | Inr (Inl (f, x, d, m, l, w)) \<Rightarrow> 1
       | Inr (Inr (f, x, t, m, l, w)) \<Rightarrow> 0,
     \<lambda>x. case x of Inl (f, x, d, m, l, w) \<Rightarrow> 0 | Inr (Inl (f, x, d, m, l, w)) \<Rightarrow> unat d
       | Inr (Inr (f, x, t, m, l, w)) \<Rightarrow> 0]") (auto simp: unat_pred_less)

declare advance.simps [simp del] advance_loop.simps [simp del] process_current_slot.simps [simp del]

section \<open>Invariant\<close>

text \<open>
  The clock of a level is the tick counter divided by the length of its slots. While a tick
  is processed, the levels below \<open>k\<close> already show the new tick and the others the old one.
\<close>

definition clock_ok :: "'u wheel \<Rightarrow> bool" where
  "clock_ok w \<longleftrightarrow> (\<forall>l<8. unat (M_now w l) = unat (M_now w 0) div 256 ^ l)"

definition clock_mid :: "nat \<Rightarrow> 'u wheel \<Rightarrow> bool" where
  "clock_mid k w \<longleftrightarrow> (\<forall>l<8. unat (M_now w l) =
     (if l < k then unat (M_now w 0) div 256 ^ l else (unat (M_now w 0) - 1) div 256 ^ l))"

text \<open>
  An event due at tick \<open>s\<close> sits, at its level, in the slot of \<open>s\<close>, less than one turn ahead of
  the clock of the level and at least \<open>lo\<close> ticks ahead.
\<close>

definition entry_ok :: "(nat \<Rightarrow> u64) \<Rightarrow> (nat \<Rightarrow> nat) \<Rightarrow> slot_id \<Rightarrow> nat \<Rightarrow> bool" where
  "entry_ok nows lo t s \<longleftrightarrow> slot_level t < 8 \<and> slot_index t = (s div 256 ^ slot_level t) mod 256 \<and>
     unat (nows (slot_level t)) + lo (slot_level t) \<le> s div 256 ^ slot_level t \<and>
     s div 256 ^ slot_level t \<le> unat (nows (slot_level t)) + 255"

definition entries :: "(nat \<Rightarrow> nat) \<Rightarrow> 'u wheel \<Rightarrow> bool" where
  "entries lo w \<longleftrightarrow> (\<forall>e t. M_slot (events w e) = Some t \<longrightarrow>
     entry_ok (M_now w) lo t (unat (scheduled_at e w)))"

definition slots_ok :: "'u wheel \<Rightarrow> bool" where
  "slots_ok w \<longleftrightarrow> (\<exists>S. slots_abs w S)"

text \<open>Between ticks every event is ahead of the clock; in an interrupted tick it may be due now.\<close>

definition lo_upto :: "nat \<Rightarrow> nat \<Rightarrow> nat" where
  "lo_upto k l = (if l < k then 0 else 1)"

definition lo_pend :: "nat \<Rightarrow> nat \<Rightarrow> nat" where
  "lo_pend n l = (if n mod 256 ^ l = 0 then 0 else 1)"

definition wheel_inv :: "'u wheel \<Rightarrow> bool" where
  "wheel_inv w \<longleftrightarrow> clock_ok w \<and> slots_ok w \<and>
     entries (if M_ticks_pending w = 0 then lo_upto 0 else lo_pend (unat (M_now w 0))) w"

definition sched_in :: "event_id set \<Rightarrow> 'u wheel \<Rightarrow> bool" where
  "sched_in U w \<longleftrightarrow> (\<forall>e. scheduled e w \<longrightarrow> e \<in> U)"

text \<open>What a callback may do: cancel events, leave them alone, or put them ahead of the clock.\<close>

definition later :: "'u wheel \<Rightarrow> 'u wheel \<Rightarrow> bool" where
  "later w w' \<longleftrightarrow> (\<forall>e t. M_slot (events w' e) = Some t \<longrightarrow>
     (M_slot (events w e) = Some t \<and> scheduled_at e w' = scheduled_at e w) \<or>
     entry_ok (M_now w') (\<lambda>_. 1) t (unat (scheduled_at e w')))"

text \<open>A callback that is not run at the very tick its event is scheduled for fails.\<close>

definition on_time :: "'u execute \<Rightarrow> 'u execute" where
  "on_time exec e w = (if scheduled_at e w = M_now w 0 then exec e w else None)"

section \<open>The contract of \<open>TimerEvent::execute\<close>\<close>

locale timer_callback =
  fixes exec :: "'u execute"
    and U :: "event_id set"
    and H :: nat
  assumes finite_U: "finite U"
    and exec_ok: "clock_ok w \<Longrightarrow> slots_ok w \<Longrightarrow> sched_in U w \<Longrightarrow> e \<in> U \<Longrightarrow> \<not> scheduled e w \<Longrightarrow>
      unat (M_now w 0) \<le> H \<Longrightarrow>
      \<exists>w'. exec e w = Some w' \<and> slots_ok w' \<and> sched_in U w' \<and> later w w' \<and>
           M_now w' = M_now w \<and> M_ticks_pending w' = M_ticks_pending w"

text \<open>
  A relation \<open>R n\<close> that every run of callbacks and moves at tick \<open>n\<close> respects, and a condition
  \<open>G\<close> on the limit under which a run is never interrupted.
\<close>

locale timer_run = timer_callback +
  fixes R :: "nat \<Rightarrow> 'u wheel \<Rightarrow> 'u wheel \<Rightarrow> bool"
    and G :: "u64 \<Rightarrow> 'u wheel \<Rightarrow> bool"
  assumes R_refl: "R n w w"
    and R_trans: "R n w1 w2 \<Longrightarrow> R n w2 w3 \<Longrightarrow> R n w1 w3"
    and R_clock: "R n w (w\<lparr>M_now := f\<rparr>)"
    and R_pending: "R n w (w\<lparr>M_ticks_pending := p\<rparr>)"
    and R_run: "clock_ok w \<Longrightarrow> slots_ok w \<Longrightarrow> sched_in U w \<Longrightarrow> pop t w = Some (e, w1) \<Longrightarrow>
      unat (scheduled_at e w) = n \<Longrightarrow> unat (M_now w 0) = n \<Longrightarrow> n \<le> H \<Longrightarrow> exec e w1 = Some w2 \<Longrightarrow> R n w w2"
    and R_move: "slots_ok w \<Longrightarrow> sched_in U w \<Longrightarrow> pop t w = Some (e, w1) \<Longrightarrow>
      w2 = relink e (Some t') (set_scheduled_at e (scheduled_at e w1) w1) \<Longrightarrow> R n w w2"
    and G_mono: "R n w w' \<Longrightarrow> G m w \<Longrightarrow> G m w'"
    and G_run: "clock_ok w \<Longrightarrow> slots_ok w \<Longrightarrow> sched_in U w \<Longrightarrow> pop t w = Some (e, w1) \<Longrightarrow>
      unat (scheduled_at e w) = n \<Longrightarrow> unat (M_now w 0) = n \<Longrightarrow> n \<le> H \<Longrightarrow> exec e w1 = Some w2 \<Longrightarrow> G m w \<Longrightarrow> m - 1 \<noteq> 0 \<and> G (m - 1) w2"

section \<open>Arithmetic of the levels\<close>

lemma unat_slot_mask: "unat (x AND SLOT_MASK) = unat x mod 256"
  using unat_and_mask_nat [of x 8] by (simp add: mask_eq_exp_minus_1)

lemma level_Suc: "(n :: nat) div 256 ^ Suc l = n div 256 ^ l div 256"
  by (metis div_mult2_eq mult.commute power_Suc)

lemma level_boundary: "(n :: nat) mod 256 ^ Suc j = 0 \<longleftrightarrow> n mod 256 ^ j = 0 \<and> (n div 256 ^ j) mod 256 = 0"
  by (auto simp: mult.commute [of 256] mod_mult2_eq)

lemma pred_div_same: "0 < (n :: nat) \<Longrightarrow> n mod m \<noteq> 0 \<Longrightarrow> (n - 1) div m = n div m"
  by (cases n) (auto simp: div_Suc)

lemma pred_div_next: "0 < (n :: nat) \<Longrightarrow> n mod m = 0 \<Longrightarrow> Suc ((n - 1) div m) = n div m"
  by (cases n) (auto simp: div_Suc)

lemma level_not_boundary: "j \<le> l \<Longrightarrow> (n :: nat) mod 256 ^ l = 0 \<Longrightarrow> n mod 256 ^ j = 0"
  by (metis dvd_power_le dvd_trans dvd_refl mod_0_imp_dvd dvd_imp_mod_0 le_imp_power_dvd)

lemma entry_mono: "entry_ok nows lo t s \<Longrightarrow> (\<And>l. l < 8 \<Longrightarrow> lo' l \<le> lo l) \<Longrightarrow> entry_ok nows lo' t s"
  unfolding entry_ok_def by (meson add_left_mono order_trans)

lemma entries_mono: "entries lo w \<Longrightarrow> (\<And>l. l < 8 \<Longrightarrow> lo' l \<le> lo l) \<Longrightarrow> entries lo' w"
  unfolding entries_def by (blast intro: entry_mono)

lemma lo_upto_le: "lo_upto k l \<le> 1" and lo_pend_le: "lo_pend n l \<le> 1"
  by (simp_all add: lo_upto_def lo_pend_def)

lemma same_slot: "n \<le> x \<Longrightarrow> x \<le> n + 255 \<Longrightarrow> x mod 256 = n mod 256 \<Longrightarrow> x = (n :: nat)"
proof -
  assume "n \<le> x" "x \<le> n + 255" "x mod 256 = n mod 256"
  then have "256 dvd x - n" "x - n < 256" by (simp_all add: mod_eq_dvd_iff_nat)
  then have "x - n = 0" by (metis dvd_imp_le gr_zeroI not_le)
  with \<open>n \<le> x\<close> show "x = n" by simp
qed

lemma entry_not_current:
  "entry_ok nows (\<lambda>_. 1) (Slot j i) s \<Longrightarrow> i \<noteq> unat (nows j) mod 256"
proof
  assume e: "entry_ok nows (\<lambda>_. 1) (Slot j i) s" and i: "i = unat (nows j) mod 256"
  define x n where "x = s div 256 ^ j" and "n = unat (nows j)"
  have "n + 1 \<le> x" "x \<le> n + 255" "x mod 256 = n mod 256"
    using e i by (auto simp: entry_ok_def x_def n_def)
  then show False using same_slot [of n x] by simp
qed

lemma entry_current:
  assumes "entry_ok nows lo (Slot j i) s" and "i = unat (nows j) mod 256"
  shows "s div 256 ^ j = unat (nows j)"
proof -
  define x n where "x = s div 256 ^ j" and "n = unat (nows j)"
  have "n \<le> x" "x \<le> n + 255" "x mod 256 = n mod 256"
    using assms by (auto simp: entry_ok_def x_def n_def)
  then have "x = n" by (rule same_slot)
  then show ?thesis by (simp add: x_def n_def)
qed

lemma later_entries:
  assumes "entries lo w" and "later w w'" and "M_now w' = M_now w" and "\<And>l. lo l \<le> 1"
  shows "entries lo w'"
  unfolding entries_def
proof (intro allI impI)
  fix e t assume "M_slot (events w' e) = Some t"
  then show "entry_ok (M_now w') lo t (unat (scheduled_at e w'))"
    using assms unfolding later_def entries_def by (metis entry_mono)
qed

section \<open>Scheduling\<close>

lemma carry: "(a + x) div 256 = a div 256 + (x + a mod 256) div (256 :: nat)"
proof -
  have "a + x = (x + a mod 256) + 256 * (a div 256)" by simp
  then show ?thesis by (metis add.commute div_mult_self2 zero_neq_numeral)
qed

lemma schedule_level_spec:
  assumes "s < 2 ^ 64"
  shows "\<forall>k<8. unat (nows k) = n div 256 ^ k \<Longrightarrow> l < 8 \<Longrightarrow> n div 256 ^ l + unat delta = s div 256 ^ l \<Longrightarrow> 0 < unat delta \<Longrightarrow>
    schedule_level nows l delta = (l', d) \<Longrightarrow>
    l' < 8 \<and> n div 256 ^ l' + unat d = s div 256 ^ l' \<and> 0 < unat d \<and> unat d < 256"
proof (induction nows l delta arbitrary: l' d rule: schedule_level.induct)
  case (1 nows l delta)
  show ?case
  proof (cases "delta \<ge> NUM_SLOTS")
    case False
    with "1.prems" show ?thesis
      by (subst (asm) schedule_level.simps) (auto simp: word_le_nat_alt)
  next
    case True
    then have big: "256 \<le> unat delta" by (simp add: word_le_nat_alt)
    have "l < 7"
    proof (rule ccontr)
      assume "\<not> l < 7"
      with "1.prems"(2) have "l = 7" by simp
      have "s div 256 ^ 7 < 256" using assms by (simp add: less_mult_imp_div_less)
      with "1.prems"(3) big \<open>l = 7\<close> show False by simp
    qed
    define r where "r = n div 256 ^ l mod 256"
    have low: "unat (nows l AND SLOT_MASK) = r"
      using "1.prems"(1,2) by (simp add: unat_slot_mask r_def)
    have sum: "unat delta + r \<le> s div 256 ^ l"
      using "1.prems"(3) by (metis add.commute add_le_mono1 mod_less_eq_dividend r_def)
    also have "\<dots> \<le> s" by simp
    finally have "unat delta + r < 18446744073709551616" using assms by simp
    then have add: "unat (delta + (nows l AND SLOT_MASK)) = unat delta + r"
      by (simp add: unat_simps low)
    let ?d = "drop_bit 8 (delta + (nows l AND SLOT_MASK))"
    have d: "unat ?d = (unat delta + r) div 256" by (simp add: unat_drop_bit add)
    have rest: "n div 256 ^ Suc l + unat ?d = s div 256 ^ Suc l"
      unfolding d level_Suc r_def "1.prems"(3) [symmetric] by (rule carry [symmetric])
    have "0 < unat ?d" using big by (simp add: d)
    moreover have "schedule_level nows (Suc l) ?d = (l', d)"
      using "1.prems"(5) True by (subst (asm) schedule_level.simps) simp
    ultimately show ?thesis
      using "1.IH" [OF True, of l' d] rest \<open>l < 7\<close> "1.prems"(1) by simp
  qed
qed

lemma schedule_spec:
  assumes "clock_ok w" and "delta \<noteq> 0" and "unat (M_now w 0) + unat delta < 2 ^ 64"
  shows "\<exists>t. schedule e delta w = Some (relink e (Some t) (set_scheduled_at e (M_now w 0 + delta) w)) \<and>
    entry_ok (M_now w) (\<lambda>_. 1) t (unat (M_now w 0) + unat delta)"
proof -
  define n where "n = unat (M_now w 0)"
  define s where "s = n + unat delta"
  obtain l d where ld: "schedule_level (M_now w) 0 delta = (l, d)" by (cases "schedule_level (M_now w) 0 delta")
  have s64: "s < 2 ^ 64" using assms(3) by (simp only: s_def n_def)
  have nows: "\<forall>k<8. unat (M_now w k) = n div 256 ^ k"
    using assms(1) unfolding clock_ok_def n_def .
  have "0 < unat delta" using assms(2) by (simp add: unat_gt_0)
  then have spec: "l < 8" "n div 256 ^ l + unat d = s div 256 ^ l" "0 < unat d" "unat d < 256"
    using schedule_level_spec [OF s64 nows _ _ _ ld] by (simp_all add: s_def)
  have nl: "unat (M_now w l) = n div 256 ^ l" using nows spec(1) by blast
  have sum: "unat (M_now w l) + unat d = s div 256 ^ l" using spec(2) nl by simp
  have "s div 256 ^ l \<le> s" by (rule div_le_dividend)
  then have lt: "unat (M_now w l) + unat d < 2 ^ 64" unfolding sum using s64 by (rule le_less_trans)
  then have "unat (M_now w l + d) = s div 256 ^ l"
    by (intro trans [OF unat_add_small sum]) simp
  then have "entry_ok (M_now w) (\<lambda>_. 1) (Slot l (unat ((M_now w l + d) AND SLOT_MASK))) s"
    using spec nl by (simp add: entry_ok_def unat_slot_mask)
  moreover have "schedule e delta w =
      Some (relink e (Some (Slot l (unat ((M_now w l + d) AND SLOT_MASK)))) (set_scheduled_at e (M_now w 0 + delta) w))"
    using assms(2) ld spec(1) by (simp add: schedule_def set_scheduled_at_def)
  ultimately show ?thesis by (auto simp: s_def n_def)
qed

lemma set_scheduled_at_frame [simp]:
  "M_now (set_scheduled_at e x w) = M_now w" "M_ticks_pending (set_scheduled_at e x w) = M_ticks_pending w"
  "world (set_scheduled_at e x w) = world w" "M_slots (set_scheduled_at e x w) = M_slots w"
  "M_slot (events (set_scheduled_at e x w) a) = M_slot (events w a)"
  "scheduled_at a (set_scheduled_at e x w) = (if a = e then x else scheduled_at a w)"
  by (auto simp: set_scheduled_at_def scheduled_at_def)

lemma scheduled_at_relink [simp]: "scheduled_at a (relink e t w) = scheduled_at a w"
  by (simp add: scheduled_at_def)

lemma set_scheduled_at_abs: "slots_abs (set_scheduled_at e x w) S \<longleftrightarrow> slots_abs w S"
proof -
  have "dseg (events (set_scheduled_at e x w)) p c xs q d \<longleftrightarrow> dseg (events w) p c xs q d" for p c xs q d
    by (rule dseg_cong) (simp add: set_scheduled_at_def)
  then show ?thesis by (simp add: slots_abs_def links_def)
qed

lemma relink_slots_ok: "slots_ok w \<Longrightarrow> slots_ok (relink e t w)"
  unfolding slots_ok_def by (metis relink_None relink_Some relink_same not_None_eq)

lemma schedule_slots_ok: "slots_ok w \<Longrightarrow> slots_ok (relink e t (set_scheduled_at e x w))"
  by (rule relink_slots_ok) (simp add: slots_ok_def set_scheduled_at_abs)

text \<open>A call of \<open>schedule\<close> by a callback or a user stays within the contract.\<close>

lemma schedule_later:
  assumes "clock_ok w" and "slots_ok w" and "delta \<noteq> 0" and "unat (M_now w 0) + unat delta < 2 ^ 64"
  shows "\<exists>w'. schedule e delta w = Some w' \<and> slots_ok w' \<and> later w w' \<and> M_now w' = M_now w \<and>
    M_ticks_pending w' = M_ticks_pending w \<and> world w' = world w \<and> scheduled e w' \<and>
    unat (scheduled_at e w') = unat (M_now w 0) + unat delta \<and>
    (\<forall>a. a \<noteq> e \<longrightarrow> scheduled a w' = scheduled a w \<and> scheduled_at a w' = scheduled_at a w)"
proof -
  obtain t where t: "schedule e delta w = Some (relink e (Some t) (set_scheduled_at e (M_now w 0 + delta) w))"
    "entry_ok (M_now w) (\<lambda>_. 1) t (unat (M_now w 0) + unat delta)"
    using schedule_spec [OF assms(1,3,4)] by blast
  have "unat (M_now w 0 + delta) = unat (M_now w 0) + unat delta"
    using assms(4) by (simp add: unat_simps)
  with t show ?thesis
    using schedule_slots_ok [OF assms(2)] by (auto simp: later_def scheduled_def)
qed

lemma cancel_later:
  assumes "slots_ok w"
  shows "slots_ok (cancel e w) \<and> later w (cancel e w) \<and> \<not> scheduled e (cancel e w)"
  using relink_slots_ok [OF assms, of e None] assms
  by (auto simp: cancel_def later_def scheduled_def)

lemma pop_slots:
  assumes "slots_ok w"
  shows "pop t w = None \<Longrightarrow> M_slot (events w a) \<noteq> Some t"
    and "pop t w = Some (e, w1) \<Longrightarrow> M_slot (events w e) = Some t \<and> slots_ok w1 \<and>
      (\<forall>a. M_slot (events w1 a) = (if a = e then None else M_slot (events w a)))"
proof -
  obtain S where S: "slots_abs w S" using assms by (auto simp: slots_ok_def)
  show "M_slot (events w a) \<noteq> Some t" if "pop t w = None"
  proof -
    have "S t = []" using that pop_abs [OF S, of t] by (cases "S t") fastforce+
    then show ?thesis using slots_absD(2) [OF S, of a t] by simp
  qed
  show "M_slot (events w e) = Some t \<and> slots_ok w1 \<and>
      (\<forall>a. M_slot (events w1 a) = (if a = e then None else M_slot (events w a)))"
    if p: "pop t w = Some (e, w1)"
  proof -
    have "M_slots w t = Some e" using pop_frame(5) [OF p] .
    then have "S t \<noteq> []" using slots_abs_head [OF S, of t] by simp
    then obtain x xs where xs: "S t = x # xs" by (cases "S t") auto
    then have x: "x = e" "slots_abs w1 (S(t := xs))"
      using pop_abs [OF S xs] p by auto
    then have "M_slot (events w e) = Some t" using slots_absD(2) [OF S, of e t] xs by simp
    moreover have "M_slot (events w1 a) = (if a = e then None else M_slot (events w a))" for a
      using p by (auto simp: pop_def Let_def split: option.splits)
    ultimately show ?thesis using x(2) by (auto simp: slots_ok_def)
  qed
qed

lemma scheduled_at_pop: "pop t w = Some (e, w1) \<Longrightarrow> scheduled_at a w1 = scheduled_at a w"
  by (simp add: scheduled_at_def pop_frame)

section \<open>Emptying a slot\<close>

definition slot_set :: "slot_id \<Rightarrow> 'u wheel \<Rightarrow> event_id set" where
  "slot_set t w = {e. M_slot (events w e) = Some t}"

text \<open>The state of the wheel while the slots of level \<open>j\<close> and below may hold events due now.\<close>

definition tick_state :: "event_id set \<Rightarrow> (nat \<Rightarrow> nat) \<Rightarrow> 'u wheel \<Rightarrow> bool" where
  "tick_state U lo w \<longleftrightarrow> clock_ok w \<and> slots_ok w \<and> sched_in U w \<and> entries lo w"

lemma clock_ok_cong: "M_now w' = M_now w \<Longrightarrow> clock_ok w' = clock_ok w"
  by (simp add: clock_ok_def)

lemma clock_okD: "clock_ok w \<Longrightarrow> l < 8 \<Longrightarrow> unat (M_now w l) = unat (M_now w 0) div 256 ^ l"
  unfolding clock_ok_def by blast

lemma slot_set_sub: "sched_in U w \<Longrightarrow> slot_set t w \<subseteq> U"
  by (auto simp: slot_set_def sched_in_def scheduled_def)

lemma pop_tick_state:
  assumes "tick_state U lo w" and p: "pop t w = Some (e, w1)"
  shows "tick_state U lo w1" and "e \<in> U" and "\<not> scheduled e w1" and "slot_set t w1 = slot_set t w - {e}"
    and "e \<in> slot_set t w" and "M_now w1 = M_now w" and "M_ticks_pending w1 = M_ticks_pending w"
    and "entry_ok (M_now w) lo t (unat (scheduled_at e w))"
proof -
  have ok: "clock_ok w" "slots_ok w" "sched_in U w" "entries lo w" using assms(1) by (auto simp: tick_state_def)
  note ps = pop_slots(2) [OF ok(2) p] and fr = pop_frame [OF p]
  show "M_now w1 = M_now w" "M_ticks_pending w1 = M_ticks_pending w" using fr by simp_all
  show "e \<in> slot_set t w" "slot_set t w1 = slot_set t w - {e}" using ps by (auto simp: slot_set_def)
  show "e \<in> U" "\<not> scheduled e w1" using ps ok(3) by (auto simp: sched_in_def scheduled_def)
  show "entry_ok (M_now w) lo t (unat (scheduled_at e w))" using ps ok(4) by (simp add: entries_def)
  have "sched_in U w1" using ps ok(3) by (auto simp: sched_in_def scheduled_def)
  moreover have "entries lo w1" using ps ok(4) fr by (simp add: entries_def scheduled_at_def)
  ultimately show "tick_state U lo w1"
    using ps ok(1) clock_ok_cong [OF fr(1)] by (simp add: tick_state_def)
qed

lemma later_tick_state:
  assumes "tick_state U lo w" and "later w w'" and "M_now w' = M_now w" and "slots_ok w'" and "sched_in U w'"
    and "\<And>l. lo l \<le> 1"
  shows "tick_state U lo w'"
    and "i = unat (M_now w j) mod 256 \<Longrightarrow> slot_set (Slot j i) w' \<subseteq> slot_set (Slot j i) w"
proof -
  show "tick_state U lo w'"
    using assms later_entries [of lo w w'] clock_ok_cong [OF assms(3)] by (auto simp: tick_state_def)
  show "slot_set (Slot j i) w' \<subseteq> slot_set (Slot j i) w" if i: "i = unat (M_now w j) mod 256"
  proof
    fix e assume "e \<in> slot_set (Slot j i) w'"
    then have "M_slot (events w' e) = Some (Slot j i)" by (simp add: slot_set_def)
    moreover have "\<not> entry_ok (M_now w') (\<lambda>_. 1) (Slot j i) s" for s
      using entry_not_current i assms(3) by metis
    ultimately show "e \<in> slot_set (Slot j i) w"
      using assms(2) unfolding later_def slot_set_def by blast
  qed
qed

text \<open>An event found in the current slot of a level is due at the start of that slot or later.\<close>

lemma due_in_slot:
  assumes "entry_ok (M_now w) lo (Slot j i) s" and "i = unat (M_now w j) mod 256"
    and "clock_ok w" and "j < 8" and "unat (M_now w 0) mod 256 ^ j = 0"
  shows "unat (M_now w 0) \<le> s" and "j = 0 \<Longrightarrow> s = unat (M_now w 0)"
proof -
  define n where "n = unat (M_now w 0)"
  have "s div 256 ^ j = n div 256 ^ j"
    using entry_current [OF assms(1,2)] clock_okD [OF assms(3,4)] by (simp add: n_def)
  moreover have "n = n div 256 ^ j * 256 ^ j"
    using assms(5) div_mult_mod_eq [of n "256 ^ j"] by (simp add: n_def)
  moreover have "s div 256 ^ j * 256 ^ j \<le> s" by (rule div_times_less_eq_dividend)
  ultimately show "unat (M_now w 0) \<le> s" and "j = 0 \<Longrightarrow> s = unat (M_now w 0)"
    by (auto simp: n_def)
qed

lemma level_slot_mask:
  assumes "0 < j" and "unat x mod 256 ^ j = 0"
  shows "x AND SLOT_MASK = (0 :: u64)"
proof -
  have "unat x mod 256 = 0" using level_not_boundary [of 1 j "unat x"] assms by simp
  then show ?thesis by (simp add: word_unat_eq_iff unat_slot_mask)
qed

definition drained :: "'u wheel \<Rightarrow> 'u wheel \<Rightarrow> bool" where
  "drained w w' \<longleftrightarrow> M_now w' = M_now w \<and> M_ticks_pending w' = M_ticks_pending w"

context timer_run
begin

lemma drain_move:
  assumes st: "tick_state U (lo_upto (Suc j)) w" and p: "pop (Slot j i) w = Some (e, w1)"
    and i: "i = unat (M_now w j) mod 256" and late: "unat (M_now w 0) < unat (scheduled_at e w)"
  shows "\<exists>w2. schedule e (scheduled_at e w1 - M_now w1 0) w1 = Some w2 \<and>
    tick_state U (lo_upto (Suc j)) w2 \<and> slot_set (Slot j i) w2 \<subseteq> slot_set (Slot j i) w - {e} \<and>
    drained w w2 \<and> R n w w2"
proof -
  note pw = pop_tick_state [OF st p]
  let ?d = "scheduled_at e w1 - M_now w1 0"
  have sa: "scheduled_at e w1 = scheduled_at e w" by (rule scheduled_at_pop [OF p])
  have "M_now w1 0 + ?d = scheduled_at e w" using sa by simp
  have d: "unat ?d = unat (scheduled_at e w) - unat (M_now w 0)"
    using late sa pw(6) by (simp add: unat_sub_small)
  have nz: "?d \<noteq> 0" using d late by (metis unat_0 zero_less_diff less_irrefl)
  have fit: "unat (M_now w1 0) + unat ?d = unat (scheduled_at e w)" using d late pw(6) by simp
  have cl: "clock_ok w1" "slots_ok w1" "sched_in U w1" using pw(1) by (auto simp: tick_state_def)
  have lt: "unat (M_now w1 0) + unat ?d < 2 ^ 64" unfolding fit using unsigned_less [of "scheduled_at e w"] by simp
  obtain w2 where w2: "schedule e ?d w1 = Some w2" "slots_ok w2" "later w1 w2" "M_now w2 = M_now w1"
    "M_ticks_pending w2 = M_ticks_pending w1" "scheduled e w2"
    "\<forall>a. a \<noteq> e \<longrightarrow> scheduled a w2 = scheduled a w1 \<and> scheduled_at a w2 = scheduled_at a w1"
    using schedule_later [OF cl(1,2) nz lt, of e] by blast
  obtain t where "schedule e ?d w1 = Some (relink e (Some t) (set_scheduled_at e (M_now w1 0 + ?d) w1))"
    using schedule_spec [OF cl(1) nz lt] by blast
  then have "w2 = relink e (Some t) (set_scheduled_at e (scheduled_at e w1) w1)" using w2(1) by simp
  moreover have "slots_ok w" "sched_in U w" using st by (auto simp: tick_state_def)
  ultimately have "R n w w2" using R_move [OF _ _ p] by blast
  moreover have s2: "sched_in U w2" using w2(7) cl(3) pw(2) unfolding sched_in_def by metis
  note nx = later_tick_state [OF pw(1) w2(3,4,2) s2 lo_upto_le]
  have "slot_set (Slot j i) w2 \<subseteq> slot_set (Slot j i) w - {e}" using nx(2) [of i j] pw(4,6) i by simp
  ultimately show ?thesis using w2(1,4,5) pw(6,7) nx(1) by (simp add: drained_def)
qed

lemma drain_run:
  assumes st: "tick_state U (lo_upto (Suc j)) w" and p: "pop (Slot j i) w = Some (e, w1)"
    and i: "i = unat (M_now w j) mod 256" and due: "unat (scheduled_at e w) = n"
    and n: "n = unat (M_now w 0)" and "n \<le> H"
  shows "\<exists>w2. exec e w1 = Some w2 \<and> on_time exec e w1 = Some w2 \<and>
    tick_state U (lo_upto (Suc j)) w2 \<and> slot_set (Slot j i) w2 \<subseteq> slot_set (Slot j i) w - {e} \<and>
    drained w w2 \<and> R n w w2 \<and> (G m w \<longrightarrow> m - 1 \<noteq> 0 \<and> G (m - 1) w2)"
proof -
  note pw = pop_tick_state [OF st p]
  have ok: "clock_ok w1" "slots_ok w1" "sched_in U w1" using pw(1) by (auto simp: tick_state_def)
  have ok0: "clock_ok w" "slots_ok w" "sched_in U w" using st by (auto simp: tick_state_def)
  note due' = due n [symmetric] assms(6)
  obtain w2 where w2: "exec e w1 = Some w2" "slots_ok w2" "sched_in U w2" "later w1 w2"
    "M_now w2 = M_now w1" "M_ticks_pending w2 = M_ticks_pending w1"
    using exec_ok [OF ok pw(2,3)] pw(6) n assms(6) by auto
  have "scheduled_at e w1 = M_now w1 0"
    using due n pw(6) by (simp add: scheduled_at_pop [OF p] word_unat_eq_iff)
  then have "on_time exec e w1 = Some w2" using w2(1) by (simp add: on_time_def)
  moreover have "R n w w2" by (rule R_run [OF ok0 p due' w2(1)])
  moreover have "G m w \<longrightarrow> m - 1 \<noteq> 0 \<and> G (m - 1) w2" using G_run [OF ok0 p due' w2(1)] by blast
  moreover note nx = later_tick_state [OF pw(1) w2(4,5,2,3) lo_upto_le]
  moreover have "slot_set (Slot j i) w2 \<subseteq> slot_set (Slot j i) w - {e}" using nx(2) [of i j] pw(4,6) i by simp
  ultimately show ?thesis using w2(1,5,6) pw(6,7) by (simp add: drained_def)
qed

lemma slot_emptied:
  assumes "tick_state U (lo_upto (Suc j)) w" and "slot_set (Slot j (unat (M_now w j) mod 256)) w = {}"
  shows "tick_state U (lo_upto j) w"
proof -
  have "entry_ok (M_now w) (lo_upto j) t (unat (scheduled_at e w))" if t: "M_slot (events w e) = Some t" for e t
  proof -
    have ok: "entry_ok (M_now w) (lo_upto (Suc j)) t (unat (scheduled_at e w))"
      using assms(1) t by (simp add: tick_state_def entries_def)
    show ?thesis
    proof (cases "slot_level t = j")
      case False
      then show ?thesis using ok by (simp add: entry_ok_def lo_upto_def less_Suc_eq)
    next
      case True
      moreover have "t \<noteq> Slot j (unat (M_now w j) mod 256)" using assms(2) t by (auto simp: slot_set_def)
      ultimately have "slot_index t \<noteq> unat (M_now w j) mod 256" by (metis slot_id.collapse)
      then have "unat (scheduled_at e w) div 256 ^ j \<noteq> unat (M_now w j)"
        using ok True by (auto simp: entry_ok_def)
      then show ?thesis using ok True by (simp add: entry_ok_def lo_upto_def)
    qed
  qed
  then show ?thesis using assms(1) by (simp add: tick_state_def entries_def)
qed

text \<open>
  With enough fuel the loop returns, runs callbacks only at their tick, and either empties the
  slot or stops because the limit is reached.
\<close>

lemma drain_slot_ok:
  assumes "tick_state U (lo_upto (Suc j)) w" and "i = unat (M_now w j) mod 256"
    and "n = unat (M_now w 0)" and "n \<le> H" and "n mod 256 ^ j = 0" and "j < 8"
    and "card (slot_set (Slot j i) w) < fuel"
  shows "\<exists>ok m' w'. drain_slot fuel exec j i m w = Some (ok, m', w') \<and>
    drain_slot fuel (on_time exec) j i m w = Some (ok, m', w') \<and>
    tick_state U (lo_upto (Suc j)) w' \<and> drained w w' \<and> R n w w' \<and>
    (ok \<longrightarrow> tick_state U (lo_upto j) w') \<and> (G m w \<longrightarrow> ok \<and> G m' w')"
  using assms
proof (induction fuel arbitrary: m w)
  case (Suc fuel)
  note st = Suc.prems(1) and i = Suc.prems(2)
  have so: "slots_ok w" and co: "clock_ok w" and sc: "sched_in U w" using st by (auto simp: tick_state_def)
  have fin: "finite (slot_set (Slot j i) v)" if "sched_in U v" for v
    using slot_set_sub [OF that] finite_U by (rule finite_subset)
  show ?case
  proof (cases "pop (Slot j i) w")
    case None
    then have "slot_set (Slot j i) w = {}" using pop_slots(1) [OF so] by (auto simp: slot_set_def)
    then have "tick_state U (lo_upto j) w" using slot_emptied [OF st] i by simp
    with None st show ?thesis using R_refl by (auto simp: drained_def)
  next
    case (Some ew)
    then obtain e w1 where p: "pop (Slot j i) w = Some (e, w1)" by (cases ew) simp
    note pw = pop_tick_state [OF st p] and sa = scheduled_at_pop [OF p, of e]
    have next_ok: "card (slot_set (Slot j i) w2) < fuel"
      if "slot_set (Slot j i) w2 \<subseteq> slot_set (Slot j i) w - {e}" for w2
    proof -
      have "card (slot_set (Slot j i) w2) \<le> card (slot_set (Slot j i) w - {e})"
        using fin [OF sc] that by (intro card_mono) auto
      also have "\<dots> < card (slot_set (Slot j i) w)"
        using fin [OF sc] pw(5) by (intro psubset_card_mono) auto
      finally show ?thesis using Suc.prems(7) by simp
    qed
    have rest: "\<exists>ok m' w'. drain_slot fuel exec j i m1 w2 = Some (ok, m', w') \<and>
        drain_slot fuel (on_time exec) j i m1 w2 = Some (ok, m', w') \<and>
        tick_state U (lo_upto (Suc j)) w' \<and> drained w w' \<and> R n w w' \<and>
        (ok \<longrightarrow> tick_state U (lo_upto j) w') \<and> (G m1 w2 \<longrightarrow> ok \<and> G m' w')"
      if "tick_state U (lo_upto (Suc j)) w2" "slot_set (Slot j i) w2 \<subseteq> slot_set (Slot j i) w - {e}"
        "drained w w2" "R n w w2" for m1 w2
      using Suc.IH [OF that(1), of m1] that i Suc.prems(3-6) next_ok [OF that(2)] R_trans [OF that(4)]
      by (auto simp: drained_def)
    have low: "j > 0 \<Longrightarrow> M_now w1 0 AND SLOT_MASK = 0"
      using level_slot_mask [of j "M_now w 0"] Suc.prems(3,5) pw(6) by simp
    note due = due_in_slot [OF pw(8) i co Suc.prems(6)] 
    have ge: "n \<le> unat (scheduled_at e w)" "j = 0 \<Longrightarrow> unat (scheduled_at e w) = n"
      using due Suc.prems(3,5) by simp_all
    show ?thesis
    proof (cases "unat (scheduled_at e w) = n")
      case True
      obtain w2 where w2: "exec e w1 = Some w2" "on_time exec e w1 = Some w2"
        "tick_state U (lo_upto (Suc j)) w2" "slot_set (Slot j i) w2 \<subseteq> slot_set (Slot j i) w - {e}"
        "drained w w2" "R n w w2" "G m w \<longrightarrow> m - 1 \<noteq> 0 \<and> G (m - 1) w2"
        using drain_run [OF st p i True Suc.prems(3,4), of m] by blast
      have now: "scheduled_at e w1 = M_now w1 0"
        using True Suc.prems(3) pw(6) sa by (simp add: word_unat_eq_iff)
      show ?thesis
      proof (cases "m - 1 = 0")
        case True
        with w2 p low now show ?thesis by auto
      next
        case False
        with w2 p low now rest [OF w2(3-6), of "m - 1"] show ?thesis by auto
      qed
    next
      case False
      then have late: "unat (M_now w 0) < unat (scheduled_at e w)" "j > 0"
        using ge Suc.prems(3) by auto
      then obtain w2 where w2: "schedule e (scheduled_at e w1 - M_now w1 0) w1 = Some w2"
        "tick_state U (lo_upto (Suc j)) w2" "slot_set (Slot j i) w2 \<subseteq> slot_set (Slot j i) w - {e}"
        "drained w w2" "R n w w2"
        using drain_move [OF st p i late(1), of n] by blast
      have "\<not> M_now w1 0 \<ge> scheduled_at e w1"
        using late(1) pw(6) sa by (simp add: word_le_nat_alt)
      with w2 p low late(2) rest [OF w2(2-5), of m] G_mono [OF w2(5), of m] show ?thesis by auto
    qed
  qed
qed simp

end

section \<open>Advancing the clock\<close>

lemma lo_pend_upto: "n mod 256 ^ j = 0 \<Longrightarrow> lo_pend n l \<le> lo_upto (Suc j) l"
  using level_not_boundary [of l j n] by (auto simp: lo_pend_def lo_upto_def)

lemma lo_upto_pend:
  assumes "n mod 256 ^ Suc j \<noteq> 0"
  shows "lo_upto (Suc j) l \<le> lo_pend n l"
proof (cases "l < Suc j")
  case False
  then have "n mod 256 ^ l \<noteq> 0" using level_not_boundary [of "Suc j" l n] assms by (metis not_less)
  then show ?thesis by (simp add: lo_pend_def lo_upto_def)
qed (simp add: lo_upto_def)

lemma tick_state_mono:
  "tick_state U lo w \<Longrightarrow> (\<And>l. l < 8 \<Longrightarrow> lo' l \<le> lo l) \<Longrightarrow> tick_state U lo' w"
  unfolding tick_state_def by (blast intro: entries_mono)

text \<open>
  The states in which \<open>process_current_slot\<close> is called at level \<open>j\<close>: either in the first pass
  over a tick, with the clocks up to level \<open>j\<close> already moved on, or when a tick is resumed.
\<close>

definition at_level :: "event_id set \<Rightarrow> nat \<Rightarrow> 'u wheel \<Rightarrow> bool" where
  "at_level U j w \<longleftrightarrow> slots_ok w \<and> sched_in U w \<and> j < 8 \<and> unat (M_now w 0) mod 256 ^ j = 0 \<and>
     (if M_ticks_pending w = 0
      then 0 < unat (M_now w 0) \<and> clock_mid (Suc j) w \<and> entries (lo_upto (Suc j)) w
      else clock_ok w \<and> entries (lo_pend (unat (M_now w 0))) w)"

lemma at_level_clock: "at_level U j w \<Longrightarrow> unat (M_now w j) = unat (M_now w 0) div 256 ^ j"
  unfolding at_level_def clock_mid_def clock_ok_def by (metis lessI)

lemma clock_mid_ok:
  assumes "clock_mid (Suc j) w" and "0 < unat (M_now w 0)" and "unat (M_now w 0) mod 256 ^ Suc j \<noteq> 0 \<or> j = 7"
  shows "clock_ok w"
  unfolding clock_ok_def
proof (intro allI impI)
  fix l :: nat assume l: "l < 8"
  define n where "n = unat (M_now w 0)"
  have mid: "unat (M_now w l) = (if l < Suc j then n div 256 ^ l else (n - 1) div 256 ^ l)"
    using assms(1) l unfolding clock_mid_def n_def by blast
  show "unat (M_now w l) = unat (M_now w 0) div 256 ^ l"
  proof (cases "l < Suc j")
    case False
    then have "n mod 256 ^ l \<noteq> 0"
      using assms(3) l level_not_boundary [of "Suc j" l n] unfolding n_def by auto
    then show ?thesis using mid False assms(2) pred_div_same [of n "256 ^ l"] unfolding n_def by simp
  qed (simp add: mid n_def)
qed

text \<open>The level needs no help from above: the slots above are empty for this tick.\<close>

lemma at_level_tick_state:
  assumes "at_level U j w" and "unat (M_now w j AND SLOT_MASK) \<noteq> 0 \<or> j = 7"
  shows "tick_state U (lo_upto (Suc j)) w"
proof -
  let ?n = "unat (M_now w 0)"
  have b: "?n mod 256 ^ Suc j \<noteq> 0 \<or> j = 7"
    using assms level_boundary [of ?n j] at_level_clock [OF assms(1)] by (auto simp: unat_slot_mask)
  have "lo_upto (Suc j) l \<le> lo_pend ?n l" if "l < 8" for l
    using b that lo_upto_pend [of ?n j l] by (auto simp: lo_upto_def)
  then show ?thesis
    using assms(1) clock_mid_ok [of j w] b entries_mono [of "lo_pend ?n" w "lo_upto (Suc j)"]
    unfolding at_level_def tick_state_def by (auto split: if_splits)
qed

text \<open>Moving the clock of the next level on.\<close>

lemma at_level_next:
  assumes "at_level U j w" and "unat (M_now w j AND SLOT_MASK) = 0" and "j < 7" and "M_ticks_pending w = 0"
  shows "at_level U (Suc j) (w\<lparr>M_now := (M_now w)(Suc j := M_now w (Suc j) + 1)\<rparr>)"
proof -
  define n where "n = unat (M_now w 0)"
  let ?w = "w\<lparr>M_now := (M_now w)(Suc j := M_now w (Suc j) + 1)\<rparr>"
  have b: "n mod 256 ^ Suc j = 0"
    using assms level_boundary [of n j] at_level_clock [OF assms(1)]
    unfolding n_def at_level_def unat_slot_mask by auto
  have n0: "0 < n" and mid: "clock_mid (Suc j) w" and en: "entries (lo_upto (Suc j)) w"
    using assms(1,4) by (simp_all add: at_level_def n_def)
  have mid': "unat (M_now w l) = (if l < Suc j then n div 256 ^ l else (n - 1) div 256 ^ l)" if "l < 8" for l
    using mid that unfolding clock_mid_def n_def by blast
  have old: "unat (M_now w (Suc j)) = (n - 1) div 256 ^ Suc j" using mid' [of "Suc j"] assms(3) by simp
  have "Suc ((n - 1) div 256 ^ Suc j) = n div 256 ^ Suc j" by (rule pred_div_next [OF n0 b])
  moreover have "n div 256 ^ Suc j \<le> n" by (rule div_le_dividend)
  moreover have "n < 2 ^ 64" using unsigned_less [of "M_now w 0"] by (simp add: n_def)
  ultimately have "Suc (unat (M_now w (Suc j))) = n div 256 ^ Suc j" "Suc (unat (M_now w (Suc j))) < 2 ^ 64"
    unfolding old by (blast, metis le_less_trans)
  then have new: "unat (M_now w (Suc j) + 1) = n div 256 ^ Suc j" "unat (M_now w (Suc j) + 1) = Suc (unat (M_now w (Suc j)))"
    using unat_add_small [of "M_now w (Suc j)" 1] by simp_all
  have "clock_mid (Suc (Suc j)) ?w"
    unfolding clock_mid_def
  proof (intro allI impI)
    fix l :: nat assume "l < 8"
    then show "unat (M_now ?w l) = (if l < Suc (Suc j) then unat (M_now ?w 0) div 256 ^ l
        else (unat (M_now ?w 0) - 1) div 256 ^ l)"
      using mid' [of l] new(1) by (cases "l = Suc j") (auto simp: n_def [symmetric] less_Suc_eq)
  qed
  moreover have "entries (lo_upto (Suc (Suc j))) ?w"
    using en new(2) unfolding entries_def entry_ok_def by (fastforce simp: lo_upto_def scheduled_at_def less_Suc_eq)
  ultimately show ?thesis
    using assms b n0 unfolding at_level_def by (simp add: n_def slots_ok_def slots_abs_def links_def sched_in_def scheduled_def)
qed

definition processed :: "event_id set \<Rightarrow> bool \<Rightarrow> nat \<Rightarrow> 'u wheel \<Rightarrow> 'u wheel \<Rightarrow> bool" where
  "processed U ok j w w' \<longleftrightarrow> M_now w' 0 = M_now w 0 \<and>
     (if ok then tick_state U (lo_upto j) w' \<and> M_ticks_pending w' = M_ticks_pending w
      else tick_state U (lo_pend (unat (M_now w 0))) w' \<and>
           (M_ticks_pending w \<noteq> 0 \<longrightarrow> M_ticks_pending w' = M_ticks_pending w))"

text \<open>
  What a run from \<open>w\<close> gives: the relation of the tick, and no interruption while \<open>G\<close> holds.
\<close>

definition gives :: "(nat \<Rightarrow> 'u wheel \<Rightarrow> 'u wheel \<Rightarrow> bool) \<Rightarrow> (u64 \<Rightarrow> 'u wheel \<Rightarrow> bool) \<Rightarrow>
    bool \<Rightarrow> u64 \<Rightarrow> u64 \<Rightarrow> 'u wheel \<Rightarrow> 'u wheel \<Rightarrow> bool" where
  "gives R G ok m m' w w' \<longleftrightarrow> R (unat (M_now w 0)) w w' \<and> (G m w \<longrightarrow> ok \<and> G m' w')"

lemma tick_state_pending [simp]: "tick_state U lo (w\<lparr>M_ticks_pending := p\<rparr>) = tick_state U lo w"
  by (simp add: tick_state_def clock_ok_def slots_ok_def slots_abs_def links_def sched_in_def scheduled_def
      entries_def scheduled_at_def)

context timer_run
begin

lemma drain_processed:
  assumes "at_level U j w0" and "tick_state U (lo_upto (Suc j)) w" and "card U < fuel" and "unat (M_now w 0) \<le> H"
    and "M_now w 0 = M_now w0 0" and "M_ticks_pending w = M_ticks_pending w0"
    and "R (unat (M_now w0 0)) w0 w"
  shows "\<exists>ok m' w'. drain_slot fuel exec j (unat (M_now w0 j AND SLOT_MASK)) m w = Some (ok, m', w') \<and>
    drain_slot fuel (on_time exec) j (unat (M_now w0 j AND SLOT_MASK)) m w = Some (ok, m', w') \<and>
    processed U ok j w0 w' \<and> gives R G ok m m' w0 w'"
proof -
  define i where "i = unat (M_now w0 j AND SLOT_MASK)"
  have j: "j < 8" and b: "unat (M_now w 0) mod 256 ^ j = 0" using assms(1,5) by (simp_all add: at_level_def)
  have ck: "clock_ok w" and sc: "sched_in U w" using assms(2) by (simp_all add: tick_state_def)
  have i: "i = unat (M_now w j) mod 256"
    using at_level_clock [OF assms(1)] clock_okD [OF ck j] assms(5) by (simp add: i_def unat_slot_mask)
  have "card (slot_set (Slot j i) w) \<le> card U"
    using slot_set_sub [OF sc] finite_U by (rule card_mono [rotated])
  with assms(3) have "card (slot_set (Slot j i) w) < fuel" by simp
  from drain_slot_ok [OF assms(2) i refl assms(4) b j this, of m]
  obtain ok m' w' where r: "drain_slot fuel exec j i m w = Some (ok, m', w')"
    "drain_slot fuel (on_time exec) j i m w = Some (ok, m', w')"
    "tick_state U (lo_upto (Suc j)) w'" "drained w w'" "R (unat (M_now w 0)) w w'"
    "ok \<longrightarrow> tick_state U (lo_upto j) w'" "G m w \<longrightarrow> ok \<and> G m' w'" by blast
  have "tick_state U (lo_pend (unat (M_now w 0))) w'"
    using r(3) by (rule tick_state_mono) (rule lo_pend_upto [OF b])
  then have "processed U ok j w0 w'" using r(4,6) assms(5,6) by (simp add: processed_def drained_def)
  moreover have "gives R G ok m m' w0 w'"
    using r(5,7) assms(5) R_trans [OF assms(7)] G_mono [OF assms(7), of m] by (simp add: gives_def)
  ultimately show ?thesis using r(1,2) unfolding i_def by blast
qed

text \<open>The call for the next level, given the lemma for that level.\<close>

lemma advance_upper:
  assumes at: "at_level U j w" and z: "unat (M_now w j AND SLOT_MASK) = 0" and j: "j < 7"
    and IH: "\<And>v. at_level U (Suc j) v \<Longrightarrow> M_now v 0 = M_now w 0 \<Longrightarrow>
      \<exists>ok m' w'. process_current_slot fuel exec (M_now v (Suc j)) m (Suc j) v = Some (ok, m', w') \<and>
        process_current_slot fuel (on_time exec) (M_now v (Suc j)) m (Suc j) v = Some (ok, m', w') \<and>
        processed U ok (Suc j) v w' \<and> gives R G ok m m' v w'"
  shows "\<exists>ok w'. advance fuel exec 1 m (Suc j) w = Some (ok, w') \<and>
    advance fuel (on_time exec) 1 m (Suc j) w = Some (ok, w') \<and>
    processed U ok (Suc j) w w' \<and> R (unat (M_now w 0)) w w' \<and> (G m w \<longrightarrow> ok)"
proof (cases "M_ticks_pending w = 0")
  case True
  define v where "v = w\<lparr>M_now := (M_now w)(Suc j := M_now w (Suc j) + 1)\<rparr>"
  have v: "at_level U (Suc j) v" "M_now v 0 = M_now w 0" "M_ticks_pending v = 0"
    using at_level_next [OF at z j True] True by (simp_all add: v_def)
  have Rv: "R (unat (M_now w 0)) w v" unfolding v_def by (rule R_clock)
  from IH [OF v(1,2)] obtain ok m' w' where r:
    "process_current_slot fuel exec (M_now v (Suc j)) m (Suc j) v = Some (ok, m', w')"
    "process_current_slot fuel (on_time exec) (M_now v (Suc j)) m (Suc j) v = Some (ok, m', w')"
    "processed U ok (Suc j) v w'" "gives R G ok m m' v w'" by blast
  let ?w = "if ok then w' else w'\<lparr>M_ticks_pending := 1\<rparr>"
  have adv: "advance fuel x 1 m (Suc j) w = Some (ok, ?w)"
    if "process_current_slot fuel x (M_now v (Suc j)) m (Suc j) v = Some (ok, m', w')" for x
    using that True
    by (subst advance.simps, subst advance_loop.simps, simp add: v_def [symmetric] Let_def)
      (simp add: advance_loop.simps v_def)
  have "R (unat (M_now w 0)) w w'" using r(4) v(2) R_trans [OF Rv] by (simp add: gives_def)
  moreover from this have "R (unat (M_now w 0)) w (w'\<lparr>M_ticks_pending := 1\<rparr>)" by (rule R_trans) (rule R_pending)
  moreover have "G m w \<longrightarrow> ok" using r(4) G_mono [OF Rv] by (simp add: gives_def)
  moreover have "processed U ok (Suc j) w ?w" using r(3) v(2,3) True by (simp add: processed_def split: if_splits)
  ultimately show ?thesis using adv [OF r(1)] adv [OF r(2)] by auto
next
  case False
  have "unat (M_now w 0) mod 256 ^ Suc j = 0"
    using at z at_level_clock [OF at] level_boundary [of "unat (M_now w 0)" j]
    unfolding at_level_def unat_slot_mask by auto
  then have "at_level U (Suc j) w" using at j False by (simp add: at_level_def)
  from IH [OF this refl] show ?thesis
    using False by (fastforce simp: advance.simps gives_def)
qed

lemma process_current_slot_ok:
  assumes "at_level U j w" and "unat (M_now w 0) \<le> H" and "card U < fuel"
  shows "\<exists>ok m' w'. process_current_slot fuel exec (M_now w j) m j w = Some (ok, m', w') \<and>
    process_current_slot fuel (on_time exec) (M_now w j) m j w = Some (ok, m', w') \<and>
    processed U ok j w w' \<and> gives R G ok m m' w w'"
  using assms
proof (induction "7 - j" arbitrary: j m w)
  case 0
  then have j: "j = 7" by (simp add: at_level_def)
  then show ?case
    using drain_processed [OF 0(2) at_level_tick_state [OF 0(2)] 0(4,3) refl refl R_refl, of m]
    by (simp add: process_current_slot.simps Let_def)
next
  case (Suc k)
  show ?case
  proof (cases "unat (M_now w j AND SLOT_MASK) = 0")
    case False
    then show ?thesis
      using drain_processed [OF Suc.prems(1) at_level_tick_state [OF Suc.prems(1)] Suc.prems(3,2) refl refl R_refl, of m]
      by (simp add: process_current_slot.simps Let_def)
  next
    case zero: True
    have j7: "j < 7" using Suc(2) by simp
    have k: "k = 7 - Suc j" using Suc(2) by simp
    have "\<exists>ok w'. advance fuel exec 1 m (Suc j) w = Some (ok, w') \<and>
      advance fuel (on_time exec) 1 m (Suc j) w = Some (ok, w') \<and>
      processed U ok (Suc j) w w' \<and> R (unat (M_now w 0)) w w' \<and> (G m w \<longrightarrow> ok)"
      using Suc.prems(2,3) by (intro advance_upper [OF Suc.prems(1) zero j7] Suc(1) [OF k]) simp_all
    then obtain ok w1 where up: "advance fuel exec 1 m (Suc j) w = Some (ok, w1)"
      "advance fuel (on_time exec) 1 m (Suc j) w = Some (ok, w1)"
      "processed U ok (Suc j) w w1" "R (unat (M_now w 0)) w w1" "G m w \<longrightarrow> ok"
      by blast
    show ?thesis
    proof (cases ok)
      case False
      with up zero j7 show ?thesis
        by (auto simp: process_current_slot.simps Let_def processed_def gives_def)
    next
      case True
      have ts: "tick_state U (lo_upto (Suc j)) w1" "M_now w1 0 = M_now w 0"
        "M_ticks_pending w1 = M_ticks_pending w" using up(3) True by (simp_all add: processed_def)
      show ?thesis
        using drain_processed [OF Suc.prems(1) ts(1) Suc.prems(3) _ ts(2,3) up(4), of m] Suc.prems(2) ts(2)
          up(1,2) True zero j7 by (simp add: process_current_slot.simps Let_def)
    qed
  qed
qed

end

text \<open>The tick a wheel is to reach: an interrupted tick leaves the rest of its ticks pending.\<close>

definition target :: "'u wheel \<Rightarrow> nat" where
  "target w = unat (M_now w 0) + (unat (M_ticks_pending w) - 1)"

text \<open>A run over the ticks \<open>a + 1, \<dots>, b\<close>, related tick by tick.\<close>

inductive tick_run :: "(nat \<Rightarrow> 'u wheel \<Rightarrow> 'u wheel \<Rightarrow> bool) \<Rightarrow> nat \<Rightarrow> nat \<Rightarrow> 'u wheel \<Rightarrow> 'u wheel \<Rightarrow> bool"
  for R where
  tick_run_refl: "tick_run R a a w w"
| tick_run_step: "R (Suc a) w w1 \<Longrightarrow> tick_run R (Suc a) b w1 w2 \<Longrightarrow> tick_run R a b w w2"

lemma wheel_inv_tick_state:
  "wheel_inv w \<and> sched_in U w \<longleftrightarrow>
   tick_state U (if M_ticks_pending w = 0 then lo_upto 0 else lo_pend (unat (M_now w 0))) w"
  by (auto simp: wheel_inv_def tick_state_def)

lemma at_level_first:
  assumes "tick_state U (lo_upto 0) w" and "M_ticks_pending w = 0" and "unat (M_now w 0 + 1) = Suc (unat (M_now w 0))"
  shows "at_level U 0 (w\<lparr>M_now := (M_now w)(0 := M_now w 0 + 1)\<rparr>)" (is "at_level U 0 ?w")
proof -
  define n where "n = unat (M_now w 0)"
  have ck: "unat (M_now w l) = n div 256 ^ l" if "l < 8" for l
    using assms(1) that unfolding tick_state_def clock_ok_def n_def by blast
  have "clock_mid (Suc 0) ?w"
    unfolding clock_mid_def
  proof (intro allI impI)
    fix l :: nat assume "l < 8"
    then show "unat (M_now ?w l) = (if l < Suc 0 then unat (M_now ?w 0) div 256 ^ l
        else (unat (M_now ?w 0) - 1) div 256 ^ l)"
      using ck [of l] assms(3) by (cases "l = 0") (auto simp: n_def [symmetric])
  qed
  moreover have "entries (lo_upto (Suc 0)) ?w"
    using assms(1,3) unfolding tick_state_def entries_def entry_ok_def
    by (fastforce simp: lo_upto_def scheduled_at_def)
  ultimately show ?thesis
    using assms unfolding at_level_def tick_state_def
    by (simp add: slots_ok_def slots_abs_def links_def sched_in_def scheduled_def)
qed

context timer_run
begin

lemma advance_loop_ok:
  assumes "tick_state U (lo_upto 0) w" and "M_ticks_pending w = 0" and "unat (M_now w 0) + unat delta \<le> H"
    and "H < 2 ^ 64" and "card U < fuel"
  shows "\<exists>ok w'. advance_loop fuel exec delta m 0 w = Some (ok, w') \<and>
    advance_loop fuel (on_time exec) delta m 0 w = Some (ok, w') \<and> wheel_inv w' \<and> sched_in U w' \<and>
    (ok \<longleftrightarrow> M_ticks_pending w' = 0) \<and> target w' = unat (M_now w 0) + unat delta \<and>
    tick_run R (unat (M_now w 0)) (unat (M_now w' 0)) w w' \<and> (G m w \<longrightarrow> ok)"
  using assms
proof (induction "unat delta" arbitrary: delta m w)
  case 0
  then have "delta = 0" by (simp add: unat_eq_0)
  moreover have "wheel_inv w \<and> sched_in U w" using 0 by (simp only: wheel_inv_tick_state) simp
  ultimately show ?case
    using 0 by (auto simp: advance_loop.simps target_def intro: tick_run_refl)
next
  case (Suc d)
  have nz: "delta \<noteq> 0" using Suc(2) by auto
  have d: "unat (delta - 1) = d" using unat_pred [OF nz] Suc(2) by simp
  have "unat (M_now w 0) + 1 < 2 ^ 64" using Suc(2) Suc.prems(3,4) by linarith
  then have now1: "unat (M_now w 0 + 1) = Suc (unat (M_now w 0))"
    using unat_add_small [of "M_now w 0" 1] by simp
  define v where "v = w\<lparr>M_now := (M_now w)(0 := M_now w 0 + 1)\<rparr>"
  have v: "at_level U 0 v" "M_ticks_pending v = 0" "unat (M_now v 0) = Suc (unat (M_now w 0))"
    using at_level_first [OF Suc.prems(1,2) now1] Suc.prems(2) now1 by (simp_all add: v_def)
  have Rv: "R n w v" for n unfolding v_def by (rule R_clock)
  have vH: "unat (M_now v 0) \<le> H" using v(3) Suc(2) Suc.prems(3) by simp
  obtain ok m' w1 where r: "process_current_slot fuel exec (M_now v 0) m 0 v = Some (ok, m', w1)"
    "process_current_slot fuel (on_time exec) (M_now v 0) m 0 v = Some (ok, m', w1)"
    "processed U ok 0 v w1" "gives R G ok m m' v w1"
    using process_current_slot_ok [OF v(1) vH Suc.prems(5), of m] by blast
  have loop: "advance_loop fuel x delta m 0 w =
      (if ok then advance_loop fuel x (delta - 1) m' 0 w1 else Some (False, w1\<lparr>M_ticks_pending := delta\<rparr>))"
    if "process_current_slot fuel x (M_now v 0) m 0 v = Some (ok, m', w1)" for x
    using that nz by (subst advance_loop.simps) (simp add: v_def Let_def)
  have now': "unat (M_now w1 0) = Suc (unat (M_now w 0))" using r(3) v(3) by (simp add: processed_def)
  have Rw1: "R (Suc (unat (M_now w 0))) w w1" using r(4) v(3) R_trans [OF Rv] by (simp add: gives_def)
  show ?case
  proof (cases ok)
    case False
    let ?w = "w1\<lparr>M_ticks_pending := delta\<rparr>"
    have "wheel_inv ?w \<and> sched_in U ?w"
      using r(3) False nz unfolding wheel_inv_tick_state by (simp add: processed_def)
    moreover have "tick_run R (unat (M_now w 0)) (unat (M_now ?w 0)) w ?w"
      using R_trans [OF Rw1 R_pending] now' by (auto intro: tick_run.intros)
    moreover have "\<not> G m w" using r(4) False G_mono [OF Rv] by (auto simp: gives_def)
    ultimately show ?thesis
      using loop [OF r(1)] loop [OF r(2)] False nz now' Suc(2) by (auto simp: target_def)
  next
    case True
    have w1: "tick_state U (lo_upto 0) w1" "M_ticks_pending w1 = 0"
      using r(3) True v(2) by (simp_all add: processed_def)
    have G': "G m w \<longrightarrow> G m' w1" using r(4) G_mono [OF Rv] by (simp add: gives_def)
    have "unat (M_now w1 0) + unat (delta - 1) \<le> H" using now' d Suc(2) Suc.prems(3) by simp
    from Suc(1) [OF d [symmetric] w1 this Suc.prems(4,5), of m']
    show ?thesis
      using loop [OF r(1)] loop [OF r(2)] True now' d Suc(2) G'
      by (auto intro: tick_run_step [of R, OF Rw1])
  qed
qed

text \<open>
  A call of \<open>advance\<close> returns, keeps the invariant, runs every callback at its tick and loses
  no tick, interrupted or not.
\<close>

lemma advance_ok:
  assumes "wheel_inv w" and "sched_in U w" and "delta \<noteq> 0 \<or> M_ticks_pending w \<noteq> 0"
    and "target w + unat delta \<le> H" and "Suc H < 2 ^ 64" and "card U < fuel"
  shows "\<exists>ok w'. advance fuel exec delta m 0 w = Some (ok, w') \<and>
    advance fuel (on_time exec) delta m 0 w = Some (ok, w') \<and> wheel_inv w' \<and> sched_in U w' \<and>
    (ok \<longleftrightarrow> M_ticks_pending w' = 0) \<and> target w' = target w + unat delta \<and>
    (\<exists>v. R (unat (M_now w 0)) w v \<and> tick_run R (unat (M_now w 0)) (unat (M_now w' 0)) v w') \<and>
    (G m w \<longrightarrow> ok)"
proof (cases "M_ticks_pending w = 0")
  case True
  then have "tick_state U (lo_upto 0) w" using assms(1,2) wheel_inv_tick_state [of w U] by simp
  then show ?thesis
    using advance_loop_ok [of w delta fuel m] True assms R_refl
    by (fastforce simp: advance.simps target_def)
next
  case False
  let ?p = "M_ticks_pending w + delta"
  have p0: "0 < unat (M_ticks_pending w)" using False by (simp add: unat_gt_0)
  have "unat (M_ticks_pending w) + unat delta < 2 ^ 64" using assms(4,5) p0 by (simp add: target_def)
  then have p: "unat ?p = unat (M_ticks_pending w) + unat delta" using unat_add_small [of "M_ticks_pending w" delta] by simp
  then have nz: "?p \<noteq> 0" using p0 by (metis unat_0 add_is_0 less_irrefl)
  define v where "v = w\<lparr>M_ticks_pending := ?p\<rparr>"
  have v: "M_now v = M_now w" "M_ticks_pending v = ?p" by (simp_all add: v_def)
  have "tick_state U (lo_pend (unat (M_now v 0))) v"
    using assms(1,2) False wheel_inv_tick_state [of w U] by (simp add: v_def)
  then have "at_level U 0 v" using nz v(2) by (simp add: at_level_def tick_state_def)
  moreover have vH: "unat (M_now v 0) \<le> H" using assms(4) v(1) by (simp add: target_def)
  ultimately obtain ok m' w1 where r: "process_current_slot fuel exec (M_now v 0) m 0 v = Some (ok, m', w1)"
    "process_current_slot fuel (on_time exec) (M_now v 0) m 0 v = Some (ok, m', w1)"
    "processed U ok 0 v w1" "gives R G ok m m' v w1"
    using process_current_slot_ok [OF _ vH assms(6), of 0 m] assms(6) by blast
  have adv: "advance fuel x delta m 0 w =
      (if ok then advance_loop fuel x (M_ticks_pending w1 - 1) m' 0 (w1\<lparr>M_ticks_pending := 0\<rparr>) else Some (False, w1))"
    if "process_current_slot fuel x (M_now v 0) m 0 v = Some (ok, m', w1)" for x
    using that False by (subst advance.simps) (simp add: v_def Let_def)
  have Rv: "R n w v" for n unfolding v_def by (rule R_pending)
  have w1: "M_now w1 0 = M_now w 0" "M_ticks_pending w1 = ?p"
    using r(3) nz v by (auto simp: processed_def split: if_splits)
  have Rw1: "R (unat (M_now w 0)) w w1" using r(4) v(1) R_trans [OF Rv] by (simp add: gives_def)
  show ?thesis
  proof (cases ok)
    case False
    have "wheel_inv w1 \<and> sched_in U w1"
      using r(3) False nz w1 v unfolding wheel_inv_tick_state by (simp add: processed_def)
    moreover have "\<not> G m w" using r(4) False G_mono [OF Rv] by (auto simp: gives_def)
    ultimately show ?thesis
      using adv [OF r(1)] adv [OF r(2)] False nz w1 p p0 Rw1
      by (auto simp: target_def intro: tick_run_refl)
  next
    case True
    let ?w = "w1\<lparr>M_ticks_pending := 0\<rparr>"
    have st: "tick_state U (lo_upto 0) ?w" using r(3) True by (simp add: processed_def)
    have d: "unat (M_ticks_pending w1 - 1) = unat (M_ticks_pending w) - 1 + unat delta"
      using unat_pred [OF nz] w1(2) p p0 by simp
    have R': "R (unat (M_now w 0)) w ?w" by (rule R_trans [OF Rw1 R_pending])
    have "G m w \<longrightarrow> G m' ?w" using r(4) G_mono [OF Rv] G_mono [OF R_pending] by (simp add: gives_def)
    moreover have "\<exists>ok w'. advance_loop fuel exec (M_ticks_pending w1 - 1) m' 0 ?w = Some (ok, w') \<and>
        advance_loop fuel (on_time exec) (M_ticks_pending w1 - 1) m' 0 ?w = Some (ok, w') \<and> wheel_inv w' \<and> sched_in U w' \<and>
        (ok \<longleftrightarrow> M_ticks_pending w' = 0) \<and> target w' = unat (M_now ?w 0) + unat (M_ticks_pending w1 - 1) \<and>
        tick_run R (unat (M_now ?w 0)) (unat (M_now w' 0)) ?w w' \<and> (G m' ?w \<longrightarrow> ok)"
      using st d w1(1) assms(4-6) by (intro advance_loop_ok) (auto simp: target_def)
    ultimately show ?thesis
      using adv [OF r(1)] adv [OF r(2)] True R' d w1(1) by (auto simp: target_def)
  qed
qed

end

end
