(* ===== verification/Timer_Callbacks.thy ===== *)
theory Timer_Callbacks
  imports Timer_Wheel
begin

text \<open>
  Callbacks of the timer wheel and the properties of a whole call of \<open>advance\<close>. The contract
  \<open>timer_callback\<close> is interpreted on the events of \<^verbatim>\<open>TimerWheel.h\<close> whose callback leaves the
  wheel alone (\<open>CallbackTimerEventTpl\<close> and \<open>MemberTimerEventTpl\<close>): for them the order, the
  time and the set of the executed events are determined.
\<close>

section \<open>Callbacks that do not touch the wheel\<close>

text \<open>
  \<open>CallbackTimerEventTpl::execute\<close> calls \<open>callback_()\<close>; here \<open>callback e\<close> is what the callback
  of the event object \<open>e\<close> does to the program state outside the timer library.
\<close>

definition callback_execute :: "(event_id \<Rightarrow> 'u \<Rightarrow> 'u) \<Rightarrow> 'u execute" where
  "callback_execute callback e w = Some (w\<lparr>world := callback e (world w)\<rparr>)"

text \<open>The same for \<open>(M_obj->*MemberFunction)()\<close> with one object per event.\<close>

definition member_execute :: "(event_id \<Rightarrow> 'o) \<Rightarrow> ('o \<Rightarrow> 'u \<Rightarrow> 'u) \<Rightarrow> 'u execute" where
  "member_execute M_obj MemberFunction e w = Some (w\<lparr>world := MemberFunction (M_obj e) (world w)\<rparr>)"

lemma member_callback: "member_execute M_obj f = callback_execute (\<lambda>e. f (M_obj e))"
  by (intro ext) (simp add: member_execute_def callback_execute_def)

definition scheduled_set :: "'u wheel \<Rightarrow> event_id set" where
  "scheduled_set w = {e. scheduled e w}"

text \<open>
  What happens during tick \<open>n\<close>: a list of events due at \<open>n\<close> runs, each once; they are no
  longer scheduled, all others are as before.
\<close>

definition fires :: "(event_id \<Rightarrow> 'u \<Rightarrow> 'u) \<Rightarrow> nat set \<Rightarrow> event_id list \<Rightarrow> 'u wheel \<Rightarrow> 'u wheel \<Rightarrow> bool" where
  "fires callback T es w w' \<longleftrightarrow> distinct es \<and> set es \<subseteq> scheduled_set w \<and>
     scheduled_set w' = scheduled_set w - set es \<and> world w' = fold callback es (world w) \<and>
     (\<forall>e. scheduled_at e w' = scheduled_at e w) \<and> (\<forall>e\<in>set es. unat (scheduled_at e w) \<in> T)"

definition fires_at :: "(event_id \<Rightarrow> 'u \<Rightarrow> 'u) \<Rightarrow> nat \<Rightarrow> 'u wheel \<Rightarrow> 'u wheel \<Rightarrow> bool" where
  "fires_at callback n w w' \<longleftrightarrow> (\<exists>es. fires callback {n} es w w')"

definition below_limit :: "u64 \<Rightarrow> 'u wheel \<Rightarrow> bool" where
  "below_limit m w \<longleftrightarrow> finite (scheduled_set w) \<and> card (scheduled_set w) < unat m"

lemma fires_Nil:
  "scheduled_set w' = scheduled_set w \<Longrightarrow> world w' = world w \<Longrightarrow> (\<And>e. scheduled_at e w' = scheduled_at e w) \<Longrightarrow>
   fires callback T [] w w'"
  by (simp add: fires_def)

lemma fires_append:
  assumes "fires callback T es w w1" and "fires callback T' fs w1 w2"
  shows "fires callback (T \<union> T') (es @ fs) w w2"
  using assms by (auto simp: fires_def)

lemma pop_scheduled:
  assumes "slots_ok w" and "pop t w = Some (e, w1)"
  shows "e \<in> scheduled_set w" and "scheduled_set w1 = scheduled_set w - {e}"
  using pop_slots(2) [OF assms] by (auto simp: scheduled_set_def scheduled_def)

lemma fires_run:
  assumes "slots_ok w" and "pop t w = Some (e, w1)" and "callback_execute callback e w1 = Some w2"
    and "unat (scheduled_at e w) = n"
  shows "fires callback {n} [e] w w2"
proof -
  have w2: "w2 = w1\<lparr>world := callback e (world w1)\<rparr>" using assms(3) by (simp add: callback_execute_def)
  then have "scheduled_set w2 = scheduled_set w1" "scheduled_at a w2 = scheduled_at a w1" for a
    by (simp_all add: scheduled_set_def scheduled_def scheduled_at_def)
  then show ?thesis
    using pop_scheduled [OF assms(1,2)] pop_frame(3) [OF assms(2)] scheduled_at_pop [OF assms(2)] assms(4) w2
    by (simp add: fires_def)
qed

lemma fires_move:
  assumes "slots_ok w" and "pop t w = Some (e, w1)"
    and "w2 = relink e (Some t') (set_scheduled_at e (scheduled_at e w1) w1)"
  shows "fires callback T [] w w2"
proof (rule fires_Nil)
  show "scheduled_set w2 = scheduled_set w"
    using pop_scheduled [OF assms(1,2)] assms(3) by (auto simp: scheduled_set_def scheduled_def)
qed (simp_all add: assms(3) pop_frame [OF assms(2)] scheduled_at_pop [OF assms(2)])

lemma fires_below_limit: "fires callback T es w w' \<Longrightarrow> below_limit m w \<Longrightarrow> below_limit m w'"
  unfolding fires_def below_limit_def
  by (metis Diff_subset card_mono finite_Diff order_le_less_trans)

lemma run_below_limit:
  assumes "slots_ok w" and "pop t w = Some (e, w1)" and "callback_execute callback e w1 = Some w2"
    and "below_limit m w"
  shows "m - 1 \<noteq> 0 \<and> below_limit (m - 1) w2"
proof -
  have "scheduled_set w2 = scheduled_set w - {e}" "e \<in> scheduled_set w"
    using fires_run [OF assms(1-3) refl] by (auto simp: fires_def)
  then have c: "Suc (card (scheduled_set w2)) = card (scheduled_set w)" and f: "finite (scheduled_set w2)"
    using assms(4) card.remove [of "scheduled_set w" e] by (simp_all add: below_limit_def)
  have "m \<noteq> 0" using assms(4) by (auto simp: below_limit_def)
  then have "unat (m - 1) = unat m - 1" by (rule unat_pred)
  then have "card (scheduled_set w2) < unat (m - 1)" using c assms(4) unfolding below_limit_def by linarith
  then show ?thesis using f by (auto simp: below_limit_def)
qed

interpretation cb: timer_run "callback_execute callback" "{..<K}" H "fires_at callback" below_limit
proof unfold_locales
  show "finite {..<K}" by simp
  show "\<exists>w'. callback_execute callback e w = Some w' \<and> slots_ok w' \<and> sched_in {..<K} w' \<and> later w w' \<and>
      M_now w' = M_now w \<and> M_ticks_pending w' = M_ticks_pending w"
    if "slots_ok w" "sched_in {..<K} w" for w :: "'a wheel" and e
    using that by (auto simp: callback_execute_def slots_ok_def slots_abs_def links_def sched_in_def
        scheduled_def later_def scheduled_at_def)
  show "fires_at callback n w w" for n and w :: "'a wheel"
    unfolding fires_at_def by (rule exI, rule fires_Nil) simp_all
  show "fires_at callback n w1 w3" if "fires_at callback n w1 w2" "fires_at callback n w2 w3"
    for n and w1 w2 w3 :: "'a wheel"
    using that fires_append unfolding fires_at_def by (metis Un_absorb)
  show "fires_at callback n w (w\<lparr>M_now := f\<rparr>)" for n f and w :: "'a wheel"
    unfolding fires_at_def
    by (rule exI, rule fires_Nil) (simp_all add: scheduled_set_def scheduled_def scheduled_at_def)
  show "fires_at callback n w (w\<lparr>M_ticks_pending := p\<rparr>)" for n p and w :: "'a wheel"
    unfolding fires_at_def
    by (rule exI, rule fires_Nil) (simp_all add: scheduled_set_def scheduled_def scheduled_at_def)
qed (auto simp: fires_at_def intro: fires_run fires_move fires_below_limit dest: run_below_limit)

section \<open>A whole call of \<open>advance\<close>\<close>

lemma scheduled_ahead:
  assumes "wheel_inv w" and "M_ticks_pending w = 0" and "scheduled e w"
  shows "unat (M_now w 0) < unat (scheduled_at e w)"
proof -
  obtain t where t: "M_slot (events w e) = Some t" using assms(3) by (auto simp: scheduled_def)
  define n s l where "n = unat (M_now w 0)" and "s = unat (scheduled_at e w)" and "l = slot_level t"
  have en: "entry_ok (M_now w) (lo_upto 0) t s" and ck: "clock_ok w"
    using assms(1,2) t by (auto simp: wheel_inv_def entries_def s_def)
  then have "n div 256 ^ l + 1 \<le> s div 256 ^ l"
    using clock_okD [OF ck, of l] by (simp add: entry_ok_def lo_upto_def n_def l_def)
  then have "\<not> s \<le> n" using div_le_mono [of s n "256 ^ l"] by fastforce
  then show ?thesis by (simp add: n_def s_def)
qed

lemma tick_run_mono: "tick_run R a b w w' \<Longrightarrow> a \<le> b"
  by (induction rule: tick_run.induct) auto

text \<open>The ticks of a run put together: the events come in the order of their ticks.\<close>

lemma tick_run_fires:
  "tick_run (fires_at callback) a b w w' \<Longrightarrow>
   \<exists>es. fires callback {a<..b} es w w' \<and> sorted (map (\<lambda>e. unat (scheduled_at e w)) es)"
proof (induction rule: tick_run.induct)
  case (tick_run_refl a w)
  have "fires callback {a<..a} [] w w" by (rule fires_Nil) simp_all
  then show ?case by force
next
  case (tick_run_step a w w1 b w2)
  obtain es where es: "fires callback {Suc a} es w w1" using tick_run_step(1) by (auto simp: fires_at_def)
  obtain fs where fs: "fires callback {Suc a<..b} fs w1 w2" "sorted (map (\<lambda>e. unat (scheduled_at e w1)) fs)"
    using tick_run_step(3) by blast
  have "{Suc a} \<union> {Suc a<..b} = {a<..b}" using tick_run_mono [OF tick_run_step(2)] by auto
  then have "fires callback {a<..b} (es @ fs) w w2" using fires_append [OF es fs(1)] by simp
  moreover have same: "scheduled_at e w1 = scheduled_at e w" for e using es by (simp add: fires_def)
  have ts: "\<forall>e\<in>set es. unat (scheduled_at e w) = Suc a" "\<forall>e\<in>set fs. Suc a < unat (scheduled_at e w)"
    using es fs(1) same by (auto simp: fires_def)
  then have "sorted (map (\<lambda>e. unat (scheduled_at e w)) es)"
    by (induction es) auto
  ultimately show ?case using fs(2) ts same by (intro exI [of _ "es @ fs"]) (auto simp: sorted_append)
qed

section \<open>The public operations keep the invariant\<close>

lemma TimerWheelTpl_inv:
  assumes "\<And>e. M_slot (evs e) = None"
  shows "wheel_inv (TimerWheelTpl start evs u)" and "sched_in U (TimerWheelTpl start evs u)"
    and "M_ticks_pending (TimerWheelTpl start evs u) = 0" and "M_now (TimerWheelTpl start evs u) 0 = start"
proof -
  let ?w = "TimerWheelTpl start evs u"
  have "unat (M_now ?w l) = unat start div 256 ^ l" for l
    by (simp add: TimerWheelTpl_def unat_drop_bit power_mult)
  then have "clock_ok ?w" by (simp add: clock_ok_def)
  moreover have "slots_abs ?w (\<lambda>_. [])"
    using assms by (simp add: slots_abs_def links_def TimerWheelTpl_def end_of_def)
  ultimately show "wheel_inv ?w"
    using assms by (auto simp: wheel_inv_def slots_ok_def entries_def) (simp_all add: TimerWheelTpl_def assms)
qed (simp_all add: TimerWheelTpl_def sched_in_def scheduled_def assms)

lemma later_wheel_inv:
  assumes "wheel_inv w" and "later w w'" and "slots_ok w'" and "M_now w' = M_now w"
    and "M_ticks_pending w' = M_ticks_pending w"
  shows "wheel_inv w'"
  using assms later_entries [OF _ assms(2,4), of "lo_upto 0"] later_entries [OF _ assms(2,4), of "lo_pend (unat (M_now w 0))"]
    lo_upto_le lo_pend_le clock_ok_cong [OF assms(4)]
  by (auto simp: wheel_inv_def)

lemma schedule_wheel_inv:
  assumes "wheel_inv w" and "delta \<noteq> 0" and "unat (M_now w 0) + unat delta < 2 ^ 64"
  shows "\<exists>w'. schedule e delta w = Some w' \<and> wheel_inv w' \<and> M_now w' = M_now w \<and>
    M_ticks_pending w' = M_ticks_pending w \<and> world w' = world w \<and> scheduled e w' \<and>
    unat (scheduled_at e w') = unat (M_now w 0) + unat delta \<and>
    (\<forall>a. a \<noteq> e \<longrightarrow> scheduled a w' = scheduled a w \<and> scheduled_at a w' = scheduled_at a w)"
proof -
  have "clock_ok w" "slots_ok w" using assms(1) by (auto simp: wheel_inv_def)
  from schedule_later [OF this assms(2,3), of e] show ?thesis
    using later_wheel_inv [OF assms(1)] by metis
qed

lemma cancel_wheel_inv:
  assumes "wheel_inv w"
  shows "wheel_inv (cancel e w)" and "\<not> scheduled e (cancel e w)"
    and "a \<noteq> e \<Longrightarrow> scheduled a (cancel e w) = scheduled a w"
    and "scheduled_at a (cancel e w) = scheduled_at a w" and "M_now (cancel e w) = M_now w"
    and "M_ticks_pending (cancel e w) = M_ticks_pending w"
proof -
  have "slots_ok w" using assms by (simp add: wheel_inv_def)
  moreover show m: "M_now (cancel e w) = M_now w" "M_ticks_pending (cancel e w) = M_ticks_pending w"
    by (simp_all add: cancel_def)
  ultimately show "wheel_inv (cancel e w)" "\<not> scheduled e (cancel e w)"
    using later_wheel_inv [OF assms _ _ m] cancel_later by blast+
qed (simp_all add: cancel_def scheduled_def scheduled_at_def)

lemma range_mask_delta: "unat (stop AND m) \<le> unat (stop :: u64)"
  by (metis word_and_le2 word_le_nat_alt and.commute)

lemma schedule_in_range_wheel_inv:
  assumes "wheel_inv w" and "unat (M_now w 0) + unat stop < 2 ^ 64" and "schedule_in_range e start stop w = Some w'"
  shows "wheel_inv w'" and "M_now w' = M_now w" and "M_ticks_pending w' = M_ticks_pending w"
    and "a \<noteq> e \<Longrightarrow> scheduled a w' = scheduled a w"
proof -
  have "w' = w \<or> (\<exists>d. d \<noteq> 0 \<and> unat d \<le> unat stop \<and> schedule e d w = Some w')"
    using assms(3) range_mask_delta [of stop] unfolding schedule_in_range_def schedule_def
    by (auto simp: Let_def split: if_splits)
  then show "wheel_inv w'" "M_now w' = M_now w" "M_ticks_pending w' = M_ticks_pending w"
    "a \<noteq> e \<Longrightarrow> scheduled a w' = scheduled a w"
    using schedule_wheel_inv [OF assms(1), of _ e] assms(1,2) by fastforce+
qed

text \<open>
  The uses of a wheel by a program that owns \<open>K\<close> events: any sequence of calls of the public
  functions, with the ticks below \<open>H\<close>.
\<close>

inductive wheel_step :: "(event_id \<Rightarrow> 'u \<Rightarrow> 'u) \<Rightarrow> nat \<Rightarrow> nat \<Rightarrow> 'u wheel \<Rightarrow> 'u wheel \<Rightarrow> bool"
  for callback K H where
  step_schedule: "e < K \<Longrightarrow> unat (M_now w 0) + unat delta < 2 ^ 64 \<Longrightarrow> schedule e delta w = Some w' \<Longrightarrow>
    wheel_step callback K H w w'"
| step_range: "e < K \<Longrightarrow> unat (M_now w 0) + unat stop < 2 ^ 64 \<Longrightarrow>
    schedule_in_range e start stop w = Some w' \<Longrightarrow> wheel_step callback K H w w'"
| step_cancel: "wheel_step callback K H w (cancel e w)"
| step_advance: "target w + unat delta \<le> H \<Longrightarrow>
    advance (Suc K) (callback_execute callback) delta m 0 w = Some (ok, w') \<Longrightarrow> wheel_step callback K H w w'"

definition new_wheel :: "'u wheel \<Rightarrow> bool" where
  "new_wheel w \<longleftrightarrow> (\<exists>start u. w = TimerWheelTpl start (\<lambda>_. TimerEventTpl) u)"

lemma TimerEventTpl_slot [simp]: "M_slot TimerEventTpl = None"
  by (simp add: TimerEventTpl_def)

lemma advance_None: "delta = 0 \<Longrightarrow> M_ticks_pending w = 0 \<Longrightarrow> advance fuel exec delta m 0 w = None"
  by (simp add: advance.simps)

lemma wheel_step_inv:
  assumes "wheel_step callback K H w w'" and "wheel_inv w" and "sched_in {..<K} w" and "Suc H < 2 ^ 64"
  shows "wheel_inv w' \<and> sched_in {..<K} w'"
  using assms(1)
proof (cases rule: wheel_step.cases)
  case (step_schedule e delta)
  then have "delta \<noteq> 0" by (auto simp: schedule_def)
  then show ?thesis
    using schedule_wheel_inv [OF assms(2) _ step_schedule(2), of e] step_schedule assms(3) unfolding sched_in_def
    by (metis lessThan_iff option.inject)
next
  case (step_range e stop start)
  then show ?thesis
    using schedule_in_range_wheel_inv [OF assms(2) step_range(2,3)] assms(3) unfolding sched_in_def
    by (metis lessThan_iff)
next
  case (step_cancel e)
  then show ?thesis
    using cancel_wheel_inv(1,2) [OF assms(2), of e] cancel_wheel_inv(3) [OF assms(2), of _ e] assms(3)
    unfolding sched_in_def by metis
next
  case (step_advance delta m ok)
  then have "delta \<noteq> 0 \<or> M_ticks_pending w \<noteq> 0" using advance_None by force
  then show ?thesis
    using cb.advance_ok [OF assms(2,3) _ step_advance(1) assms(4), of "Suc K" callback m] step_advance by simp
qed

interpretation wheel: transition_invariant new_wheel "wheel_step callback K H"
    "\<lambda>w. Suc H < 2 ^ 64 \<longrightarrow> wheel_inv w \<and> sched_in {..<K} w"
  by unfold_locales (auto simp: new_wheel_def dest: wheel_step_inv intro: TimerWheelTpl_inv)

text \<open>A wheel with one event, scheduled in 1000 ticks.\<close>

lemma one_event_wheel:
  "\<exists>w :: nat wheel. wheel_inv w \<and> M_ticks_pending w = 0 \<and> M_now w 0 = 0 \<and> scheduled_set w = {3} \<and>
     unat (scheduled_at 3 w) = 1000 \<and> world w = 0 \<and> reachable new_wheel (wheel_step (\<lambda>e n. n + e) 4 3000) w"
proof -
  define w0 :: "nat wheel" where "w0 = TimerWheelTpl 0 (\<lambda>_. TimerEventTpl) 0"
  have w0: "wheel_inv w0" "sched_in {} w0" "M_ticks_pending w0 = 0" "M_now w0 0 = 0" "world w0 = 0"
    unfolding w0_def by (rule TimerWheelTpl_inv, simp)+ (simp add: TimerWheelTpl_def)
  then have "unat (M_now w0 0) + unat (1000 :: u64) < 2 ^ 64" by simp
  then obtain w where w: "schedule 3 1000 w0 = Some w" "wheel_inv w" "M_now w = M_now w0"
    "M_ticks_pending w = M_ticks_pending w0" "scheduled 3 w" "world w = world w0"
    "unat (scheduled_at 3 w) = unat (M_now w0 0) + unat (1000 :: u64)" "\<forall>a. a \<noteq> 3 \<longrightarrow> scheduled a w = scheduled a w0"
    using schedule_wheel_inv [OF w0(1), of 1000 3] by auto
  have "reachable new_wheel (wheel_step (\<lambda>e n. n + e) 4 3000) w0"
    by (rule reachable.intros) (auto simp: new_wheel_def w0_def)
  then have "reachable new_wheel (wheel_step (\<lambda>e n. n + e) 4 3000) w"
    by (rule reachable.intros) (rule step_schedule [OF _ _ w(1)], simp_all add: w0(4))
  moreover have "scheduled_set w = {3}" using w(5,8) w0(2) by (auto simp: scheduled_set_def sched_in_def)
  ultimately show ?thesis using w w0 by (intro exI [of _ w]) simp
qed

section \<open>Properties\<close>

text \<open>
  C6. For every callback that keeps the contract of \<open>timer_callback\<close> (it may cancel and schedule
  events, its own included), a call of \<open>advance\<close> returns, whatever the limit: every callback
  it runs runs at exactly the tick its event is scheduled for (the run is the same when every
  callback fails at any other tick), the invariant of the wheel holds again, it reports an
  interruption exactly when ticks are left pending, and no tick is lost.
\<close>

theorem advance_on_time:
  assumes "timer_callback exec U H" and "wheel_inv w" and "sched_in U w"
    and "delta \<noteq> 0 \<or> M_ticks_pending w \<noteq> 0" and "target w + unat delta \<le> H" and "Suc H < 2 ^ 64"
    and "card U < fuel"
  shows "\<exists>ok w'. advance fuel exec delta m 0 w = Some (ok, w') \<and>
    advance fuel (on_time exec) delta m 0 w = Some (ok, w') \<and> wheel_inv w' \<and> sched_in U w' \<and>
    (ok \<longleftrightarrow> M_ticks_pending w' = 0) \<and> target w' = target w + unat delta"
proof -
  have "timer_run exec U H (\<lambda>_ _ _. True) (\<lambda>_ _. False)"
    using assms(1) by (simp add: timer_run_def timer_run_axioms_def)
  from timer_run.advance_ok [OF this assms(2-7), of m] show ?thesis by blast
qed

theorem advance_on_time_witness:
  "\<exists>w :: nat wheel. scheduled 3 w \<and> unat (scheduled_at 3 w) = 1000 \<and>
    (\<exists>ok w'. advance 5 (callback_execute (\<lambda>e n. n + e)) 2000 7 0 w = Some (ok, w') \<and>
      advance 5 (on_time (callback_execute (\<lambda>e n. n + e))) 2000 7 0 w = Some (ok, w') \<and>
      wheel_inv w' \<and> target w' = 2000)"
proof -
  obtain w :: "nat wheel" where w: "wheel_inv w" "M_ticks_pending w = 0" "M_now w 0 = 0" "scheduled_set w = {3}"
    "unat (scheduled_at 3 w) = 1000" using one_event_wheel by blast
  have "scheduled e w \<longleftrightarrow> e = 3" for e using w(4) unfolding scheduled_set_def by blast
  then have s: "sched_in {..<4} w" "scheduled 3 w" by (auto simp: sched_in_def)
  have t: "target w = 0" using w(2,3) by (simp add: target_def)
  have "\<exists>ok w'. advance 5 (callback_execute (\<lambda>e n. n + e)) 2000 7 0 w = Some (ok, w') \<and>
      advance 5 (on_time (callback_execute (\<lambda>e n. n + e))) 2000 7 0 w = Some (ok, w') \<and>
      wheel_inv w' \<and> sched_in {..<4} w' \<and> (ok \<longleftrightarrow> M_ticks_pending w' = 0) \<and> target w' = target w + unat (2000 :: u64)"
    by (intro advance_on_time [of _ _ 3000] cb.timer_callback_axioms w(1) s(1)) (simp_all add: t)
  with s w(5) t show ?thesis by auto
qed

text \<open>
  C22. With callbacks that leave the wheel alone and a limit above the number of scheduled
  events, a call of \<open>advance\<close> from a wheel with no pending ticks executes exactly the events
  whose tick is at most \<open>now + delta\<close>, each of them once, in the order of their ticks; the
  others stay scheduled for the same tick, and the clock stands at \<open>now + delta\<close>.
\<close>

theorem advance_fires_due_events:
  assumes "wheel_inv w" and "M_ticks_pending w = 0" and "scheduled_set w \<subseteq> {..<K}" and "delta \<noteq> 0"
    and "Suc (unat (now w) + unat delta) < 2 ^ 64" and "K < fuel" and "card (scheduled_set w) < unat m"
  shows "\<exists>es w'. advance fuel (callback_execute callback) delta m 0 w = Some (True, w') \<and>
    world w' = fold callback es (world w) \<and> distinct es \<and> sorted (map (\<lambda>e. unat (scheduled_at e w)) es) \<and>
    set es = {e. scheduled e w \<and> unat (scheduled_at e w) \<le> unat (now w) + unat delta} \<and>
    scheduled_set w' = {e. scheduled e w \<and> unat (now w) + unat delta < unat (scheduled_at e w)} \<and>
    (\<forall>e. scheduled_at e w' = scheduled_at e w) \<and> unat (now w') = unat (now w) + unat delta"
proof -
  let ?T = "unat (now w) + unat delta"
  have t: "target w = unat (now w)" using assms(2) by (simp add: target_def now_def)
  have sc: "sched_in {..<K} w" using assms(3) by (auto simp: scheduled_set_def sched_in_def)
  have bl: "below_limit m w"
    using assms(3,7) finite_subset [OF assms(3)] by (simp add: below_limit_def)
  obtain w' v where w': "advance fuel (callback_execute callback) delta m 0 w = Some (True, w')" "wheel_inv w'"
    "M_ticks_pending w' = 0" "target w' = ?T" "fires_at callback (unat (M_now w 0)) w v"
    "tick_run (fires_at callback) (unat (M_now w 0)) (unat (M_now w' 0)) v w'"
    using cb.advance_ok [OF assms(1) sc _ _ assms(5), of delta fuel callback m] assms(4,6) t bl by auto
  have nw': "unat (now w') = ?T" using w'(3,4) by (simp add: target_def now_def)
  obtain es where es: "fires callback {unat (M_now w 0)} es w v" using w'(5) by (auto simp: fires_at_def)
  then have "es = []"
    using scheduled_ahead [OF assms(1,2)] by (cases es) (fastforce simp: fires_def scheduled_set_def)+
  with es have v: "scheduled_set v = scheduled_set w" "world v = world w" "\<And>e. scheduled_at e v = scheduled_at e w"
    by (simp_all add: fires_def)
  obtain fs where fs: "fires callback {unat (now w)<..?T} fs v w'" "sorted (map (\<lambda>e. unat (scheduled_at e v)) fs)"
    using tick_run_fires [OF w'(6)] nw' by (auto simp: now_def)
  have rest: "?T < unat (scheduled_at e w)" if "e \<in> scheduled_set w'" for e
    using scheduled_ahead [OF w'(2,3), of e] that fs(1) v(3) nw' by (simp add: scheduled_set_def fires_def now_def)
  have "set fs = {e. scheduled e w \<and> unat (scheduled_at e w) \<le> ?T}"
    using fs(1) v rest by (fastforce simp: fires_def scheduled_set_def)
  moreover from this have "scheduled_set w' = {e. scheduled e w \<and> ?T < unat (scheduled_at e w)}"
    using fs(1) v(1) by (auto simp: fires_def scheduled_set_def)
  ultimately show ?thesis
    using w'(1) fs v nw' by (intro exI [of _ fs] exI [of _ w']) (simp add: fires_def)
qed

theorem advance_fires_due_events_witness:
  "\<exists>w :: nat wheel. scheduled_set w = {3} \<and>
    (\<exists>w'. advance 5 (callback_execute (\<lambda>e n. n + e)) 2000 7 0 w = Some (True, w') \<and>
      world w' = 3 \<and> scheduled_set w' = {})"
proof -
  obtain w :: "nat wheel" where w: "wheel_inv w" "M_ticks_pending w = 0" "M_now w 0 = 0" "scheduled_set w = {3}"
    "unat (scheduled_at 3 w) = 1000" "world w = 0" using one_event_wheel by blast
  have "scheduled e w \<longleftrightarrow> e = 3" for e using w(4) unfolding scheduled_set_def by blast
  then have s: "{e. scheduled e w \<and> P e} = (if P 3 then {3} else {})" for P by auto
  obtain es w' where r: "advance 5 (callback_execute (\<lambda>e n. n + e)) 2000 7 0 w = Some (True, w')"
    "world w' = fold (\<lambda>e n. n + e) es (world w)" "distinct es"
    "set es = {e. scheduled e w \<and> unat (scheduled_at e w) \<le> unat (now w) + unat (2000 :: u64)}"
    "scheduled_set w' = {e. scheduled e w \<and> unat (now w) + unat (2000 :: u64) < unat (scheduled_at e w)}"
    using advance_fires_due_events [OF w(1,2), of 4 2000 5 7 "\<lambda>e n. n + e"] w(3,4) by (auto simp: now_def)
  then have "set es = {3}" "scheduled_set w' = {}" using w(3,5) by (simp_all add: s now_def)
  moreover from this r(3) have "es = [3]" by (cases es; cases "tl es") auto
  ultimately show ?thesis using r(1,2) w(4,6) by auto
qed



end
