(* ===== verification/Timer_Queries.thy ===== *)
theory Timer_Queries
  imports Timer_Callbacks
begin

text \<open>
  The two functions of \<^verbatim>\<open>TimerWheel.h\<close> that choose or report a time: \<open>schedule_in_range\<close>
  picks a tick in a range, \<open>ticks_to_wakeup\<close> tells how long a driver may sleep. Both are
  right on a bounded domain, which the properties state, and the boundaries are shown to be
  sharp.
\<close>

section \<open>schedule\_in\_range\<close>

text \<open>The masks the loop goes through are the words with the low \<open>n\<close> bits cleared.\<close>

lemma and_high_mask: "x AND push_bit n (NOT 0) = push_bit n (drop_bit n (x :: u64))"
  by (auto simp: bit_eq_iff bit_simps)

lemma and_high_mask_eq:
  "x AND push_bit n (NOT 0) = y AND push_bit n (NOT 0) \<longleftrightarrow> drop_bit n x = drop_bit n (y :: u64)"
proof
  assume "x AND push_bit n (NOT 0) = y AND push_bit n (NOT 0)"
  then have "drop_bit n (push_bit n (drop_bit n x)) = drop_bit n (push_bit n (drop_bit n y))"
    by (simp only: and_high_mask)
  moreover have "drop_bit n (push_bit n (drop_bit n z)) = drop_bit n z" for z :: u64
    by (auto simp: bit_eq_iff bit_simps dest: bit_imp_le_length)
  ultimately show "drop_bit n x = drop_bit n y" by simp
qed (simp only: and_high_mask)

lemma range_mask_result:
  "m = push_bit (8 * k) (NOT 0) \<Longrightarrow>
   (k = 0 \<longrightarrow> start \<noteq> stop) \<Longrightarrow> (0 < k \<longrightarrow> drop_bit (8 * (k - 1)) start \<noteq> drop_bit (8 * (k - 1)) stop) \<Longrightarrow>
   \<exists>j. range_mask start stop m = push_bit (8 * Suc j) (NOT 0) \<and> drop_bit (8 * j) start \<noteq> drop_bit (8 * j) stop"
proof (induction start stop m arbitrary: k rule: range_mask.induct)
  case (1 start stop m)
  show ?case
  proof (cases "start AND m = stop AND m")
    case True
    then have "drop_bit (8 * k) start = drop_bit (8 * k) stop" using "1.prems"(1) and_high_mask_eq by blast
    then have "0 < k" using "1.prems"(2) by (cases k) auto
    then show ?thesis
      using True "1.prems"(1,3) by (intro exI [of _ "k - 1"]) (simp add: range_mask.simps)
  next
    case False
    then have "drop_bit (8 * k) start \<noteq> drop_bit (8 * k) stop" using "1.prems"(1) and_high_mask_eq by blast
    moreover have "push_bit 8 m = push_bit (8 * Suc k) (NOT 0)"
      using "1.prems"(1) by (simp only: push_bit_push_bit mult_Suc_right)
    ultimately have "\<exists>j. range_mask start stop (push_bit 8 m) = push_bit (8 * Suc j) (NOT 0) \<and>
        drop_bit (8 * j) start \<noteq> drop_bit (8 * j) stop"
      using "1.IH" [of "Suc k"] False by simp
    then show ?thesis using False by (subst range_mask.simps) simp
  qed
qed

lemma small_high_bits: "unat (x :: u64) < 2 ^ 56 \<Longrightarrow> bit x n \<Longrightarrow> n < 56"
proof (rule ccontr)
  assume x: "unat x < 2 ^ 56" and b: "bit x n" and "\<not> n < 56"
  then have "(2 :: nat) ^ 56 \<le> 2 ^ n" by (intro power_increasing) simp_all
  with x have "unat x < 2 ^ n" by linarith
  then have "\<not> bit (unat x) n" by (simp add: bit_iff_odd)
  with b show False by (simp add: bit_unsigned_iff)
qed

lemma range_delta:
  assumes "unat stop < 2 ^ 56"
  shows "stop AND drop_bit 8 (push_bit (8 * Suc j) (NOT 0)) = push_bit (8 * j) (drop_bit (8 * j) (stop :: u64))"
  using small_high_bits [OF assms] by (auto simp: bit_eq_iff bit_simps)

lemma unat_high_part:
  "unat (push_bit n (drop_bit n (x :: u64))) = unat x div 2 ^ n * 2 ^ n"
proof -
  have "unat (drop_bit n x) * 2 ^ n \<le> unat x" by (simp add: unat_drop_bit)
  also have "unat x < 2 ^ 64" using unsigned_less [of x] by simp
  finally have "unat (drop_bit n x) * 2 ^ n < 2 ^ 64" .
  then have "take_bit 64 (push_bit n (unat (drop_bit n x))) = unat (drop_bit n x) * 2 ^ n"
    by (simp only: push_bit_eq_mult take_bit_eq_mod mod_less)
  then show ?thesis unfolding unsigned_push_bit_eq by (simp add: unat_drop_bit)
qed

lemma range_delta_bounds:
  assumes "unat stop < 2 ^ 56" and "start < (stop :: u64)"
  defines "d \<equiv> stop AND drop_bit 8 (range_mask start stop (NOT 0))"
  shows "start < d" and "d \<le> stop"
proof -
  obtain j where j: "range_mask start stop (NOT 0) = push_bit (8 * Suc j) (NOT 0)"
    "drop_bit (8 * j) start \<noteq> drop_bit (8 * j) stop"
    using range_mask_result [of "NOT 0" 0 start stop] assms(2) by auto
  let ?p = "2 ^ (8 * j) :: nat"
  have d: "unat d = unat stop div ?p * ?p" unfolding d_def j(1) range_delta [OF assms(1)] by (rule unat_high_part)
  have "unat start div ?p \<noteq> unat stop div ?p" using j(2) by (simp add: word_unat_eq_iff unat_drop_bit)
  moreover have "unat start div ?p \<le> unat stop div ?p"
    using assms(2) by (intro div_le_mono) (simp add: word_less_nat_alt)
  ultimately have "Suc (unat start div ?p) \<le> unat stop div ?p" by simp
  then have "Suc (unat start div ?p) * ?p \<le> unat d" unfolding d by (rule mult_le_mono1)
  moreover have "unat start < Suc (unat start div ?p) * ?p"
    by (metis dividend_less_div_times mult_Suc zero_less_numeral zero_less_power)
  ultimately show "start < d" by (simp add: word_less_nat_alt)
  show "d \<le> stop" by (simp add: word_le_nat_alt d)
qed

section \<open>ticks\_to\_wakeup\<close>

text \<open>The loop over the events of a slot, along the next pointers.\<close>

partial_function (option) min_over :: "'u wheel \<Rightarrow> event_id option \<Rightarrow> u64 \<Rightarrow> u64 option" where
  "min_over w event min_tick =
     (case event of
        None \<Rightarrow> Some min_tick
      | Some e \<Rightarrow> min_over w (M_next (events w e)) (min min_tick (scheduled_at e w - M_now w 0)))"

declare min_over.simps [code, simp]

text \<open>
  The loop over the slots of a level from step \<open>i\<close> on, with \<open>k\<close> steps to go: \<open>Inl\<close> is the value
  the function returns from inside the loop, \<open>Inr ()\<close> is the end of the loop.
\<close>

fun wakeup_scan :: "'u wheel \<Rightarrow> nat \<Rightarrow> nat \<Rightarrow> u64 \<Rightarrow> u64 \<Rightarrow> (u64 + unit) option" where
  "wakeup_scan w level 0 i min_tick = Some (Inr ())"
| "wakeup_scan w level (Suc k) i min_tick =
     (let slot_index = unat ((M_now w level + 1 + i) AND SLOT_MASK);
          head = M_slots w (Slot level slot_index);
          up = (if slot_index = 0 \<and> level < MAX_LEVEL \<and> (level > 0 \<or> head = None)
                then min_over w (M_slots w (Slot (level + 1) (unat ((M_now w (level + 1) + 1) AND SLOT_MASK)))) min_tick
                else Some min_tick)
      in case up of
           None \<Rightarrow> None
         | Some min_tick \<Rightarrow>
             (case head of
                None \<Rightarrow> wakeup_scan w level k (i + 1) min_tick
              | Some e \<Rightarrow>
                  if level = 0 then Some (Inl (min min_tick (scheduled_at e w - M_now w 0)))
                  else (case min_over w head min_tick of
                          None \<Rightarrow> None
                        | Some min_tick \<Rightarrow> Some (Inl min_tick))))"

function ticks_to_wakeup :: "'u wheel \<Rightarrow> u64 \<Rightarrow> nat \<Rightarrow> u64 option" where
  "ticks_to_wakeup w max_ticks level =
     (if M_ticks_pending w \<noteq> 0 then Some 0
      else case wakeup_scan w level 256 0 max_ticks of
             None \<Rightarrow> None
           | Some (Inl t) \<Rightarrow> Some t
           | Some (Inr _) \<Rightarrow>
               if level < MAX_LEVEL \<and> drop_bit (8 * level + 1) max_ticks > 0
               then ticks_to_wakeup w max_ticks (level + 1)
               else Some max_ticks)"
  by pat_completeness auto
termination by (relation "measure (\<lambda>(w, max_ticks, level). 7 - level)") auto

declare ticks_to_wakeup.simps [simp del] wakeup_scan.simps(2) [simp del] min_over.simps [simp del]

lemma min_over_None [simp]: "min_over w None m = Some m"
  by (simp add: min_over.simps)

text \<open>When every event is on the lowest level, its slot tells its distance.\<close>

definition near :: "'u wheel \<Rightarrow> bool" where
  "near w \<longleftrightarrow> (\<forall>e t. M_slot (events w e) = Some t \<longrightarrow> slot_level t = 0)"

lemma slot_head:
  assumes "slots_ok w"
  shows "M_slots w t = Some e \<Longrightarrow> M_slot (events w e) = Some t"
    and "M_slots w t = None \<Longrightarrow> M_slot (events w e) \<noteq> Some t"
proof -
  obtain S where S: "slots_abs w S" using assms by (auto simp: slots_ok_def)
  show "M_slot (events w e) = Some t" if "M_slots w t = Some e"
    using dseg_head [OF linksD(1) [OF slots_absD(1) [OF S]], of t] that slots_absD(2) [OF S, of e t]
    by (auto split: list.splits)
  show "M_slot (events w e) \<noteq> Some t" if "M_slots w t = None"
    using slots_abs_head [OF S, of t] slots_absD(2) [OF S, of e t] that by auto
qed

lemma near_upper_empty: "slots_ok w \<Longrightarrow> near w \<Longrightarrow> 0 < l \<Longrightarrow> M_slots w (Slot l i) = None"
  using slot_head(1) [of w "Slot l i"] unfolding near_def
  by (metis less_irrefl not_None_eq slot_id.sel(1))

lemma near_slot:
  assumes "wheel_inv w" and "M_ticks_pending w = 0" and "near w" and "scheduled e w"
  shows "M_slot (events w e) = Some (Slot 0 (unat (scheduled_at e w) mod 256))"
    and "unat (M_now w 0) + 1 \<le> unat (scheduled_at e w)" and "unat (scheduled_at e w) \<le> unat (M_now w 0) + 255"
proof -
  obtain t where t: "M_slot (events w e) = Some t" using assms(4) by (auto simp: scheduled_def)
  then have "slot_level t = 0" "entry_ok (M_now w) (lo_upto 0) t (unat (scheduled_at e w))"
    using assms(1-3) by (auto simp: near_def wheel_inv_def entries_def)
  then show "M_slot (events w e) = Some (Slot 0 (unat (scheduled_at e w) mod 256))"
    and "unat (M_now w 0) + 1 \<le> unat (scheduled_at e w)" and "unat (scheduled_at e w) \<le> unat (M_now w 0) + 255"
    using t by (cases t; simp add: entry_ok_def lo_upto_def)+
qed

lemma scan_index: "unat ((x + 1 + of_nat i) AND SLOT_MASK) = (unat (x :: u64) + 1 + i) mod 256"
proof -
  have "unat (x + 1 + of_nat i) = (unat x + 1 + i) mod 2 ^ 64"
    by (simp add: unat_word_ariths unsigned_of_nat take_bit_eq_mod mod_simps)
  moreover have "(n mod 2 ^ 64) mod 256 = n mod (256 :: nat)" for n
    by (rule mod_mod_cancel) simp
  ultimately show ?thesis by (simp only: unat_slot_mask)
qed

lemma near_scan:
  assumes "wheel_inv w" and "M_ticks_pending w = 0" and "near w" and "scheduled a w"
    and "\<And>e. scheduled e w \<Longrightarrow> unat (M_now w 0) + 1 + i \<le> unat (scheduled_at e w)" and "i + k = 256"
  shows "\<exists>e. scheduled e w \<and> (\<forall>e'. scheduled e' w \<longrightarrow> scheduled_at e w \<le> scheduled_at e' w) \<and>
    wakeup_scan w 0 k (of_nat i) m = Some (Inl (min m (scheduled_at e w - M_now w 0)))"
  using assms(5,6)
proof (induction k arbitrary: i)
  case 0
  then show ?case using near_slot(3) [OF assms(1-4)] "0.prems"(1) [OF assms(4)] by simp
next
  case (Suc k)
  let ?n = "unat (M_now w 0)" and ?t = "Slot 0 ((unat (M_now w 0) + 1 + i) mod 256)"
  have so: "slots_ok w" using assms(1) by (simp add: wheel_inv_def)
  note up = near_upper_empty [OF so assms(3)]
  have at: "unat (scheduled_at e w) = ?n + 1 + i" if "M_slot (events w e) = Some ?t" for e
  proof -
    have s: "scheduled e w" using that by (simp add: scheduled_def)
    note ns = near_slot [OF assms(1-3) s]
    have "unat (scheduled_at e w) mod 256 = (?n + 1 + i) mod 256" using ns(1) that by simp
    moreover have "unat (scheduled_at e w) \<le> (?n + 1 + i) + 255" using ns(3) by simp
    ultimately show ?thesis using same_slot [OF Suc.prems(1) [OF s]] by blast
  qed
  have step: "wakeup_scan w 0 (Suc k) (of_nat i) m =
      (case M_slots w ?t of None \<Rightarrow> wakeup_scan w 0 k (of_nat (Suc i)) m
       | Some e \<Rightarrow> Some (Inl (min m (scheduled_at e w - M_now w 0))))"
    unfolding wakeup_scan.simps(2) scan_index Let_def of_nat_Suc add.commute [of 1]
    using up [of 1] by (cases "M_slots w ?t") auto
  show ?case
  proof (cases "M_slots w ?t")
    case (Some e)
    have e: "M_slot (events w e) = Some ?t" using slot_head(1) [OF so Some] .
    then have "scheduled e w" by (simp add: scheduled_def)
    moreover have "scheduled_at e w \<le> scheduled_at e' w" if "scheduled e' w" for e'
      using at [OF e] Suc.prems(1) [OF that] by (simp add: word_le_nat_alt)
    ultimately show ?thesis using step Some by (intro exI [of _ e]) simp
  next
    case None
    have "?n + 1 + Suc i \<le> unat (scheduled_at e w)" if "scheduled e w" for e
    proof -
      have "unat (scheduled_at e w) \<noteq> ?n + 1 + i"
        using near_slot(1) [OF assms(1-3) that] slot_head(2) [OF so None, of e] by metis
      with Suc.prems(1) [OF that] show ?thesis by simp
    qed
    then show ?thesis using Suc.IH [of "Suc i"] Suc.prems(2) step None by simp
  qed
qed

lemma empty_scan:
  assumes "\<And>t. M_slots w t = None"
  shows "wakeup_scan w level k i m = Some (Inr ())"
  using assms by (induction k arbitrary: i) (simp_all add: wakeup_scan.simps(2) Let_def)

lemma empty_wakeup:
  assumes "\<And>t. M_slots w t = None" and "M_ticks_pending w = 0"
  shows "ticks_to_wakeup w max_ticks level = Some max_ticks"
proof (induction "7 - level" arbitrary: level)
  case 0
  then show ?case by (simp add: ticks_to_wakeup.simps assms empty_scan)
next
  case (Suc n)
  then have "ticks_to_wakeup w max_ticks (Suc level) = Some max_ticks" by simp
  then show ?case by (subst ticks_to_wakeup.simps) (simp add: assms empty_scan)
qed

text \<open>
  A wheel at tick 65535 with event 0, due at 65541, still on level 2, where it has been since
  it was scheduled more than 65536 ticks before, and event 1, due at 65545, on level 0.
\<close>

definition boundary_wheel :: "unit wheel" where
  "boundary_wheel = relink 1 (Some (Slot 0 9)) (set_scheduled_at 1 65545
     (relink 0 (Some (Slot 2 1)) (set_scheduled_at 0 65541 (TimerWheelTpl 65535 (\<lambda>_. TimerEventTpl) ()))))"

lemma boundary_wheel_now: "M_now boundary_wheel = (\<lambda>i. drop_bit (8 * i) 65535)" "M_ticks_pending boundary_wheel = 0"
  by (simp_all add: boundary_wheel_def TimerWheelTpl_def)

lemma boundary_wheel_inv: "wheel_inv boundary_wheel"
proof -
  have w0: "wheel_inv (TimerWheelTpl 65535 (\<lambda>_. TimerEventTpl) ())" by (rule TimerWheelTpl_inv) simp
  then have "slots_ok boundary_wheel"
    unfolding boundary_wheel_def by (intro schedule_slots_ok) (simp add: wheel_inv_def)
  moreover have "clock_ok boundary_wheel"
    using w0 clock_ok_cong [of boundary_wheel "TimerWheelTpl 65535 (\<lambda>_. TimerEventTpl) ()"]
    by (simp add: wheel_inv_def boundary_wheel_def)
  moreover have "entries (lo_upto 0) boundary_wheel"
    unfolding entries_def boundary_wheel_now
    by (auto simp: boundary_wheel_def TimerWheelTpl_def entry_ok_def lo_upto_def unat_drop_bit split: if_splits)
  ultimately show ?thesis by (simp add: wheel_inv_def boundary_wheel_now)
qed

section \<open>Properties\<close>

text \<open>
  \<open>schedule\<close> with a positive distance that does not run past the last tick puts the event,
  scheduled or not before, \<open>delta\<close> ticks ahead; it keeps the invariant, the clock, the user
  state and the schedule of every other event.
\<close>

theorem schedule_sets_tick:
  assumes "wheel_inv w" and "delta \<noteq> 0" and "unat (now w) + unat delta < 2 ^ 64"
  shows "\<exists>w'. schedule e delta w = Some w' \<and> wheel_inv w' \<and> now w' = now w \<and> world w' = world w \<and>
    scheduled e w' \<and> unat (scheduled_at e w') = unat (now w) + unat delta \<and>
    (\<forall>a. a \<noteq> e \<longrightarrow> scheduled a w' = scheduled a w \<and> scheduled_at a w' = scheduled_at a w)"
  using schedule_wheel_inv [OF assms(1,2), of e] assms(3) by (auto simp: now_def)

theorem schedule_sets_tick_witness:
  "\<exists>w'. schedule 0 100000 boundary_wheel = Some w' \<and> wheel_inv w' \<and> unat (scheduled_at 0 w') = 165535 \<and>
    scheduled_at 1 w' = scheduled_at 1 boundary_wheel"
  using schedule_sets_tick [OF boundary_wheel_inv, of 100000 0]
  by (auto simp: now_def boundary_wheel_now)

text \<open>
  \<open>schedule_in_range\<close> with both ends below \<open>2 ^ 56\<close> leaves the event scheduled inside the
  range and keeps the invariant.
\<close>

theorem schedule_in_range_in_range:
  assumes "wheel_inv w" and "start < stop" and "unat stop < 2 ^ 56" and "unat (now w) + unat stop < 2 ^ 64"
  shows "\<exists>w'. schedule_in_range e start stop w = Some w' \<and> wheel_inv w' \<and> now w' = now w \<and> scheduled e w' \<and>
    start \<le> scheduled_at e w' - now w \<and> scheduled_at e w' - now w \<le> stop"
proof (cases "scheduled e w \<and> (let current = scheduled_at e w - M_now w 0 in current \<ge> start \<and> current \<le> stop)")
  case True
  then show ?thesis using assms(1,2) by (simp add: schedule_in_range_def now_def Let_def)
next
  case False
  define d where "d = stop AND drop_bit 8 (range_mask start stop (NOT 0))"
  have d: "start < d" "d \<le> stop" unfolding d_def by (rule range_delta_bounds [OF assms(3,2)])+
  have fit: "unat (M_now w 0) + unat d < 2 ^ 64" using d(2) assms(4) by (simp add: word_le_nat_alt now_def)
  have "d \<noteq> 0" using d(1) by auto
  from schedule_wheel_inv [OF assms(1) this fit, of e]
  obtain w' where w': "schedule e d w = Some w'" "wheel_inv w'" "M_now w' = M_now w" "scheduled e w'"
    "unat (scheduled_at e w') = unat (M_now w 0) + unat d" by blast
  have "scheduled_at e w' = M_now w 0 + d"
    using w'(5) fit by (simp add: word_unat_eq_iff unat_simps)
  then have "scheduled_at e w' - now w = d" by (simp add: now_def)
  moreover have "schedule_in_range e start stop w = Some w'"
    unfolding schedule_in_range_def d_def [symmetric] using False assms(2) w'(1) by auto
  ultimately show ?thesis using w' d by (simp add: now_def)
qed

theorem schedule_in_range_in_range_witness:
  "\<exists>w'. schedule_in_range 1 1000 70000 boundary_wheel = Some w' \<and> scheduled 1 w' \<and>
    1000 \<le> scheduled_at 1 w' - now boundary_wheel \<and> scheduled_at 1 w' - now boundary_wheel \<le> 70000"
  using schedule_in_range_in_range [OF boundary_wheel_inv, of 1000 70000 1]
  by (auto simp: now_def boundary_wheel_now)

text \<open>
  The bound on the range of \<open>schedule_in_range\<close> is sharp: from \<open>2 ^ 56\<close> on the shifted mask loses the top
  byte of the range. A valid range then fails the assertion of \<open>schedule\<close>, or the event is
  scheduled far outside the range.
\<close>

theorem schedule_in_range_top_byte:
  "schedule_in_range e 0 (2 ^ 56) (TimerWheelTpl 0 (\<lambda>_. TimerEventTpl) u) = None \<and>
   (\<exists>w'. schedule_in_range e (2 ^ 56) (2 ^ 56 + 1) (TimerWheelTpl 0 (\<lambda>_. TimerEventTpl) u) = Some w' \<and>
      scheduled_at e w' = 1)"
proof -
  let ?w = "TimerWheelTpl 0 (\<lambda>_. TimerEventTpl) u"
  have w: "wheel_inv ?w" "M_now ?w 0 = 0" by (rule TimerWheelTpl_inv, simp)+
  have s: "\<not> scheduled e ?w" by (simp add: scheduled_def TimerWheelTpl_def)
  have "range_mask 0 (2 ^ 56) (NOT 0) = 0" by code_simp
  then have "schedule_in_range e 0 (2 ^ 56) ?w = None"
    using s by (simp add: schedule_in_range_def schedule_def)
  moreover have "(2 ^ 56 + 1 :: u64) AND drop_bit 8 (range_mask (2 ^ 56) (2 ^ 56 + 1) (NOT 0)) = 1" by code_simp
  then have "schedule_in_range e (2 ^ 56) (2 ^ 56 + 1) ?w = schedule e 1 ?w"
    using s by (simp add: schedule_in_range_def)
  moreover obtain w' where "schedule e 1 ?w = Some w'" "unat (scheduled_at e w') = unat (1 :: u64)"
    using schedule_wheel_inv [OF w(1), of 1 e] w(2) by auto
  ultimately show ?thesis by (auto simp: word_unat_eq_iff)
qed

text \<open>
  \<open>ticks_to_wakeup\<close> on a wheel whose events are all on the lowest level: it returns the
  distance of the earliest event, cut off at \<open>max\<close>, and \<open>max\<close> when nothing is scheduled.
\<close>

theorem ticks_to_wakeup_near:
  assumes "wheel_inv w" and "M_ticks_pending w = 0" and "near w"
  shows "if \<exists>e. scheduled e w
    then \<exists>e. scheduled e w \<and> (\<forall>a. scheduled a w \<longrightarrow> scheduled_at e w \<le> scheduled_at a w) \<and>
      ticks_to_wakeup w max_ticks 0 = Some (min max_ticks (scheduled_at e w - now w))
    else ticks_to_wakeup w max_ticks 0 = Some max_ticks"
proof (cases "\<exists>e. scheduled e w")
  case True
  then obtain a where a: "scheduled a w" by blast
  have "\<exists>e. scheduled e w \<and> (\<forall>e'. scheduled e' w \<longrightarrow> scheduled_at e w \<le> scheduled_at e' w) \<and>
      wakeup_scan w 0 256 (of_nat 0) max_ticks = Some (Inl (min max_ticks (scheduled_at e w - M_now w 0)))"
    using near_slot(2) [OF assms] by (intro near_scan [OF assms a]) simp_all
  then show ?thesis using True assms(2) by (auto simp: ticks_to_wakeup.simps now_def)
next
  case False
  have "slots_ok w" using assms(1) by (simp add: wheel_inv_def)
  then have "M_slots w t = None" for t
    using slot_head(1) False unfolding scheduled_def by (metis not_None_eq)
  then show ?thesis using False empty_wakeup [OF _ assms(2)] by simp
qed

theorem ticks_to_wakeup_near_witness:
  "ticks_to_wakeup (cancel 0 boundary_wheel) 1000 0 = Some 10"
proof -
  let ?w = "cancel 0 boundary_wheel"
  note inv = cancel_wheel_inv [OF boundary_wheel_inv, of 0]
  have slot: "M_slot (events ?w e) = (if e = 1 then Some (Slot 0 9) else None)" for e
    by (simp add: cancel_def boundary_wheel_def TimerWheelTpl_def)
  have s: "scheduled e ?w \<longleftrightarrow> e = 1" for e by (simp add: scheduled_def slot)
  have "near ?w" by (simp add: near_def slot)
  moreover have "scheduled_at 1 ?w - now ?w = 10" by code_simp
  ultimately show ?thesis
    using ticks_to_wakeup_near [OF inv(1), of 1000] inv(6) by (simp add: boundary_wheel_now s)
qed

text \<open>
  With an event still on level 2 the answer can be too late: here event 0 is due in 6
  ticks, and \<open>ticks_to_wakeup\<close> answers 10, the distance of a later event on level 0.
\<close>

theorem ticks_to_wakeup_too_late:
  "wheel_inv boundary_wheel \<and> scheduled 0 boundary_wheel \<and> scheduled_at 0 boundary_wheel - now boundary_wheel = 6 \<and>
   ticks_to_wakeup boundary_wheel (- 1) 0 = Some 10"
proof -
  have "ticks_to_wakeup boundary_wheel (- 1) 0 = Some 10" by code_simp
  moreover have "scheduled 0 boundary_wheel" by code_simp
  moreover have "scheduled_at 0 boundary_wheel - now boundary_wheel = 6" by code_simp
  ultimately show ?thesis using boundary_wheel_inv by blast
qed

end
