(* ===== verification/Stealing_Queue.thy ===== *)
theory Stealing_Queue
  imports Godby_Prelude "HOL-Library.Multiset"
begin

text \<open>
  The work-stealing deque of \<^verbatim>\<open>godby/include/godby/StealingQueue.h\<close>. One owner thread pushes
  and pops at the bottom, any number of thieves steal at the top. The operations are given
  twice: as functions on the queue, run without interference, and as a labelled transition
  system with one step per access to memory another thread can see, interleaved in any order
  (the fences and orderings of the code are taken to give sequential consistency). A cell is
  a \<open>godby::Atomic\<close>: for an arithmetic type one atomic word, for any other type a pointer to an
  object, so that a thief reads the pointer and then the object, which a push may have deleted in
  between. The transition system refines an abstract deque.
\<close>

section \<open>The circular array\<close>

record 'a array =
  C :: u64
  M :: u64
  S :: "'a list"

text \<open>The constructor; the cells hold the default value of the item type.\<close>

definition Array :: "'a \<Rightarrow> u64 \<Rightarrow> 'a array" where
  "Array dflt c = \<lparr>C = c, M = c - 1, S = replicate (unat c) dflt\<rparr>"

definition array_push :: "u64 \<Rightarrow> 'a \<Rightarrow> 'a array \<Rightarrow> 'a array" where
  "array_push i x a = a\<lparr>S := (S a)[unat (i AND M a) := x]\<rparr>"

definition array_pop :: "u64 \<Rightarrow> 'a array \<Rightarrow> 'a" where
  "array_pop i a = S a ! unat (i AND M a)"

text \<open>The copying loop of \<open>resize\<close> from \<open>i\<close> to \<open>b\<close>, which counts up modulo the word size.\<close>

function copy_range :: "'a array \<Rightarrow> u64 \<Rightarrow> u64 \<Rightarrow> 'a array \<Rightarrow> 'a array" where
  "copy_range a b i ptr = (if i \<noteq> b then copy_range a b (i + 1) (array_push i (array_pop i a) ptr) else ptr)"
  by pat_completeness auto
termination
proof (relation "measure (\<lambda>(a, b, i, ptr). unat (b - i))", goal_cases)
  case (2 a b i ptr)
  then have "b - i \<noteq> 0" by simp
  then have "unat (b - i - 1) < unat (b - i)" by (rule unat_pred_less)
  moreover have "b - (i + 1) = b - i - 1" by (simp add: diff_diff_eq)
  ultimately have "unat (b - (i + 1)) < unat (b - i)" by (simp only:)
  then show ?case by simp
qed simp

declare copy_range.simps [simp del]

definition resize :: "'a \<Rightarrow> u64 \<Rightarrow> u64 \<Rightarrow> 'a array \<Rightarrow> 'a array" where
  "resize dflt b t a = copy_range a b t (Array dflt (2 * C a))"

section \<open>The queue\<close>

text \<open>Arrays live in a heap, since thieves may still read one that has been replaced.\<close>

record 'a squeue =
  M_top :: u64
  M_bottom :: u64
  M_array :: nat
  M_garbage :: "nat list"
  heap :: "'a array list"

definition cur :: "'a squeue \<Rightarrow> 'a array" where
  "cur q = heap q ! M_array q"

definition StealingQueue :: "'a \<Rightarrow> u64 \<Rightarrow> 'a squeue option" where
  "StealingQueue dflt capacity =
     (if capacity \<noteq> 0 \<and> capacity AND (capacity - 1) = 0
      then Some \<lparr>M_top = 0, M_bottom = 0, M_array = 0, M_garbage = [], heap = [Array dflt capacity]\<rparr>
      else None)"

definition empty :: "'a squeue \<Rightarrow> bool" where
  "empty q \<longleftrightarrow> M_bottom q \<le> M_top q"

definition size_q :: "'a squeue \<Rightarrow> u64" where
  "size_q q = (if M_bottom q \<ge> M_top q then M_bottom q - M_top q else 0)"

definition capacity :: "'a squeue \<Rightarrow> u64" where
  "capacity q = C (cur q)"

text \<open>The part of \<open>push\<close> that replaces a full array by one of twice the size.\<close>

definition grow :: "'a \<Rightarrow> u64 \<Rightarrow> u64 \<Rightarrow> 'a squeue \<Rightarrow> 'a squeue" where
  "grow dflt b t q =
     (if C (cur q) - 1 < b - t
      then q\<lparr>heap := heap q @ [resize dflt b t (cur q)], M_garbage := M_garbage q @ [M_array q],
             M_array := length (heap q)\<rparr>
      else q)"

definition write_cell :: "u64 \<Rightarrow> 'a \<Rightarrow> 'a squeue \<Rightarrow> 'a squeue" where
  "write_cell b x q = q\<lparr>heap := (heap q)[M_array q := array_push b x (cur q)]\<rparr>"

definition push :: "'a \<Rightarrow> 'a \<Rightarrow> 'a squeue \<Rightarrow> 'a squeue" where
  "push dflt item q =
     (let b = M_bottom q; t = M_top q; q1 = grow dflt b t q
      in (write_cell b item q1)\<lparr>M_bottom := b + 1\<rparr>)"

text \<open>Without interference the compare-and-exchange always succeeds.\<close>

definition pop :: "'a squeue \<Rightarrow> 'a option \<times> 'a squeue" where
  "pop q =
     (let b = M_bottom q - 1; q1 = q\<lparr>M_bottom := b\<rparr>; t = M_top q1
      in if t \<le> b then
           (let item = array_pop b (cur q1)
            in if t = b then (Some item, q1\<lparr>M_top := t + 1, M_bottom := b + 1\<rparr>) else (Some item, q1))
         else (None, q1\<lparr>M_bottom := b + 1\<rparr>))"

definition steal :: "'a squeue \<Rightarrow> 'a option \<times> 'a squeue" where
  "steal q =
     (let t = M_top q; b = M_bottom q
      in if t < b then (Some (array_pop t (cur q)), q\<lparr>M_top := t + 1\<rparr>) else (None, q))"

section \<open>The threads\<close>

text \<open>
  Where the owner stands: between operations, in a push, or in a pop. A thief at \<open>T_object\<close> has read the pointer
  of a cell of array \<open>a\<close>, to an object of value \<open>x\<close>; at \<open>T_dangling\<close> the owner has replaced and deleted that object.
\<close>

datatype 'a owner_pc =
    Idle
  | Push_loaded u64 u64 'a
  | Push_grown u64 'a
  | Push_written u64 'a
  | Pop_claimed u64
  | Pop_cas u64 u64 'a
  | Pop_restore u64

datatype 'a thief_pc =
    T_idle
  | T_top u64
  | T_nonempty u64
  | T_array u64 nat
  | T_object u64 nat 'a
  | T_dangling
  | T_item u64 'a

record 'a sys =
  queue :: "'a squeue"
  owner :: "'a owner_pc"
  thief :: "nat \<Rightarrow> 'a thief_pc"

text \<open>
  The effect of a step as a client sees it; the others are silent. \<open>Claimed\<close> is the first store of a pop and \<open>Dangling i\<close>
  the access of thief \<open>i\<close> to a deleted object.
\<close>

datatype 'a label = Silent | Pushed 'a | Claimed | Popped "'a option" | Stolen nat "'a option" | Dangling nat

text \<open>The objects a thief may still point to when the owner stores to cell \<open>b\<close> of the array \<open>M_array\<close>: \<open>Atomic::store\<close> deletes the old one.\<close>

fun overwritten :: "'a squeue \<Rightarrow> u64 \<Rightarrow> 'a thief_pc \<Rightarrow> 'a thief_pc" where
  "overwritten q b (T_object t a x) = (if a = M_array q \<and> t AND M (cur q) = b AND M (cur q) then T_dangling else T_object t a x)"
| "overwritten q b pc = pc"

text \<open>\<open>cls\<close> says that the item type is not arithmetic.\<close>

inductive step :: "bool \<Rightarrow> 'a \<Rightarrow> 'a sys \<Rightarrow> 'a label \<Rightarrow> 'a sys \<Rightarrow> bool" for cls dflt where
  push_load: "owner s = Idle \<Longrightarrow>
    step cls dflt s Silent (s\<lparr>owner := Push_loaded (M_bottom (queue s)) (M_top (queue s)) x\<rparr>)"
| push_grow: "owner s = Push_loaded b t x \<Longrightarrow>
    step cls dflt s Silent (s\<lparr>queue := grow dflt b t (queue s), owner := Push_grown b x\<rparr>)"
| push_write: "owner s = Push_grown b x \<Longrightarrow>
    step cls dflt s Silent (s\<lparr>queue := write_cell b x (queue s), owner := Push_written b x,
      thief := overwritten (queue s) b \<circ> thief s\<rparr>)"
| push_publish: "owner s = Push_written b x \<Longrightarrow>
    step cls dflt s (Pushed x) (s\<lparr>queue := (queue s)\<lparr>M_bottom := b + 1\<rparr>, owner := Idle\<rparr>)"
| pop_claim: "owner s = Idle \<Longrightarrow> b = M_bottom (queue s) - 1 \<Longrightarrow>
    step cls dflt s Claimed (s\<lparr>queue := (queue s)\<lparr>M_bottom := b\<rparr>, owner := Pop_claimed b\<rparr>)"
| pop_take: "owner s = Pop_claimed b \<Longrightarrow> M_top (queue s) < b \<Longrightarrow>
    step cls dflt s (Popped (Some (array_pop b (cur (queue s))))) (s\<lparr>owner := Idle\<rparr>)"
| pop_last: "owner s = Pop_claimed b \<Longrightarrow> M_top (queue s) = b \<Longrightarrow>
    step cls dflt s Silent (s\<lparr>owner := Pop_cas b b (array_pop b (cur (queue s)))\<rparr>)"
| pop_empty: "owner s = Pop_claimed b \<Longrightarrow> \<not> M_top (queue s) \<le> b \<Longrightarrow>
    step cls dflt s (Popped None) (s\<lparr>owner := Pop_restore b\<rparr>)"
| pop_cas_ok: "owner s = Pop_cas b t x \<Longrightarrow> M_top (queue s) = t \<Longrightarrow>
    step cls dflt s (Popped (Some x)) (s\<lparr>queue := (queue s)\<lparr>M_top := t + 1\<rparr>, owner := Pop_restore b\<rparr>)"
| pop_cas_lost: "owner s = Pop_cas b t x \<Longrightarrow> M_top (queue s) \<noteq> t \<Longrightarrow>
    step cls dflt s (Popped None) (s\<lparr>owner := Pop_restore b\<rparr>)"
| pop_restore: "owner s = Pop_restore b \<Longrightarrow>
    step cls dflt s Silent (s\<lparr>queue := (queue s)\<lparr>M_bottom := b + 1\<rparr>, owner := Idle\<rparr>)"
| steal_top: "thief s i = T_idle \<Longrightarrow>
    step cls dflt s Silent (s\<lparr>thief := (thief s)(i := T_top (M_top (queue s)))\<rparr>)"
| steal_bottom: "thief s i = T_top t \<Longrightarrow> t < M_bottom (queue s) \<Longrightarrow>
    step cls dflt s Silent (s\<lparr>thief := (thief s)(i := T_nonempty t)\<rparr>)"
| steal_none: "thief s i = T_top t \<Longrightarrow> \<not> t < M_bottom (queue s) \<Longrightarrow>
    step cls dflt s (Stolen i None) (s\<lparr>thief := (thief s)(i := T_idle)\<rparr>)"
| steal_array: "thief s i = T_nonempty t \<Longrightarrow>
    step cls dflt s Silent (s\<lparr>thief := (thief s)(i := T_array t (M_array (queue s)))\<rparr>)"
| steal_item: "thief s i = T_array t a \<Longrightarrow> \<not> cls \<Longrightarrow>
    step cls dflt s Silent (s\<lparr>thief := (thief s)(i := T_item t (array_pop t (heap (queue s) ! a)))\<rparr>)"
| steal_pointer: "thief s i = T_array t a \<Longrightarrow> cls \<Longrightarrow>
    step cls dflt s Silent (s\<lparr>thief := (thief s)(i := T_object t a (array_pop t (heap (queue s) ! a)))\<rparr>)"
| steal_object: "thief s i = T_object t a x \<Longrightarrow>
    step cls dflt s Silent (s\<lparr>thief := (thief s)(i := T_item t x)\<rparr>)"
| steal_dangling: "thief s i = T_dangling \<Longrightarrow>
    step cls dflt s (Dangling i) (s\<lparr>thief := (thief s)(i := T_idle)\<rparr>)"
| steal_cas_ok: "thief s i = T_item t x \<Longrightarrow> M_top (queue s) = t \<Longrightarrow>
    step cls dflt s (Stolen i (Some x))
      (s\<lparr>queue := (queue s)\<lparr>M_top := t + 1\<rparr>, thief := (thief s)(i := T_idle)\<rparr>)"
| steal_cas_lost: "thief s i = T_item t x \<Longrightarrow> M_top (queue s) \<noteq> t \<Longrightarrow>
    step cls dflt s (Stolen i None) (s\<lparr>thief := (thief s)(i := T_idle)\<rparr>)"

inductive run :: "bool \<Rightarrow> 'a \<Rightarrow> 'a sys \<Rightarrow> 'a label list \<Rightarrow> 'a sys \<Rightarrow> bool" for cls dflt where
  run_Nil: "run cls dflt s [] s"
| run_snoc: "run cls dflt s ls s1 \<Longrightarrow> step cls dflt s1 l s2 \<Longrightarrow> run cls dflt s (ls @ [l]) s2"

section \<open>The abstract deque\<close>

inductive deque_step :: "'a list \<Rightarrow> 'a label \<Rightarrow> 'a list \<Rightarrow> bool" where
  "deque_step xs Silent xs"
| "deque_step xs (Pushed x) (xs @ [x])"
| "deque_step xs Claimed xs"
| "deque_step (xs @ [x]) (Popped (Some x)) xs"
| "deque_step [] (Popped None) []"
| "deque_step (x # xs) (Stolen i (Some x)) xs"
| "deque_step xs (Stolen i None) xs"

inductive deque_run :: "'a list \<Rightarrow> 'a label list \<Rightarrow> 'a list \<Rightarrow> bool" where
  deque_Nil: "deque_run xs [] xs"
| deque_snoc: "deque_run xs ls ys \<Longrightarrow> deque_step ys l zs \<Longrightarrow> deque_run xs (ls @ [l]) zs"

fun pushed_items :: "'a label list \<Rightarrow> 'a list" where
  "pushed_items [] = []"
| "pushed_items (Pushed x # ls) = x # pushed_items ls"
| "pushed_items (_ # ls) = pushed_items ls"

fun taken_items :: "'a label list \<Rightarrow> 'a list" where
  "taken_items [] = []"
| "taken_items (Popped (Some x) # ls) = x # taken_items ls"
| "taken_items (Stolen i (Some x) # ls) = x # taken_items ls"
| "taken_items (_ # ls) = taken_items ls"

section \<open>Cells of the arrays\<close>

definition arr_ok :: "'a array \<Rightarrow> bool" where
  "arr_ok a \<longleftrightarrow> (\<exists>k\<le>62. C a = 2 ^ k \<and> M a = C a - 1 \<and> length (S a) = 2 ^ k)"

definition cell :: "'a array \<Rightarrow> nat \<Rightarrow> 'a" where
  "cell a i = S a ! (i mod length (S a))"

definition cap :: "'a array \<Rightarrow> nat" where
  "cap a = length (S a)"

lemma power_pred_mask: "k < 64 \<Longrightarrow> (2 :: u64) ^ k - 1 = mask k"
  by (simp add: mask_eq_exp_minus_1)

lemma arr_ok_index:
  assumes "arr_ok a"
  shows "unat (i AND M a) = unat i mod cap a" and "0 < cap a" and "unat (C a) = cap a" and "cap a \<le> 2 ^ 62"
proof -
  obtain k where k: "k \<le> 62" "C a = 2 ^ k" "M a = C a - 1" "length (S a) = 2 ^ k"
    using assms by (auto simp: arr_ok_def)
  then have "M a = mask k" by (simp add: power_pred_mask)
  then show "unat (i AND M a) = unat i mod cap a" using k by (simp add: unat_and_mask_nat cap_def)
  show "0 < cap a" "unat (C a) = cap a" using k by (simp_all add: cap_def unat_two_power)
  show "cap a \<le> 2 ^ 62" using k(1) unfolding cap_def k(4) by (intro power_increasing) simp_all
qed

lemma array_pop_cell: "arr_ok a \<Longrightarrow> array_pop i a = cell a (unat i)"
  by (simp add: array_pop_def cell_def arr_ok_index cap_def)

lemma array_push_ok [simp]: "arr_ok a \<Longrightarrow> arr_ok (array_push i x a)" "cap (array_push i x a) = cap a"
  by (simp_all add: arr_ok_def array_push_def cap_def)

lemma array_push_cell:
  assumes "arr_ok a"
  shows "cell (array_push i x a) j = (if j mod cap a = unat i mod cap a then x else cell a j)"
  using arr_ok_index [OF assms] by (auto simp: cell_def array_push_def cap_def nth_list_update)

lemma Array_ok:
  assumes "k \<le> 62"
  shows "arr_ok (Array dflt (2 ^ k))" and "cap (Array dflt (2 ^ k)) = 2 ^ k"
  using assms by (auto simp: arr_ok_def Array_def cap_def unat_two_power)

lemma copy_range_ok:
  "arr_ok a \<Longrightarrow> arr_ok ptr \<Longrightarrow> unat i \<le> unat b \<Longrightarrow> arr_ok (copy_range a b i ptr) \<and>
    cap (copy_range a b i ptr) = cap ptr \<and>
    (\<forall>j. j < unat b \<and> unat b \<le> j + cap ptr \<longrightarrow>
      cell (copy_range a b i ptr) j = (if unat i \<le> j then cell a j else cell ptr j))"
proof (induction a b i ptr rule: copy_range.induct)
  case (1 a b i ptr)
  show ?case
  proof (cases "i = b")
    case True
    then show ?thesis using "1.prems" by (auto simp: copy_range.simps)
  next
    case False
    let ?ptr = "array_push i (array_pop i a) ptr"
    have lt: "unat i < unat b" using False "1.prems"(3) by (simp add: word_unat_eq_iff)
    then have i1: "unat (i + 1) = unat i + 1" by (rule unat_Suc_less)
    have IH: "arr_ok (copy_range a b (i + 1) ?ptr)" "cap (copy_range a b (i + 1) ?ptr) = cap ptr"
      "\<And>j. j < unat b \<Longrightarrow> unat b \<le> j + cap ptr \<Longrightarrow>
        cell (copy_range a b (i + 1) ?ptr) j = (if unat i + 1 \<le> j then cell a j else cell ?ptr j)"
      using "1.IH" [OF False] "1.prems" lt i1 by auto
    have "cell ?ptr j = (if j = unat i then cell a j else cell ptr j)"
      if "j < unat i + 1" "unat b \<le> j + cap ptr" for j
    proof (cases "j = unat i")
      case False
      then have "j mod cap ptr \<noteq> unat i mod cap ptr"
        using that lt mod_window [of j "unat i" "cap ptr"] by auto
      then show ?thesis using False array_push_cell [OF "1.prems"(2)] by simp
    qed (simp add: array_push_cell [OF "1.prems"(2)] array_pop_cell [OF "1.prems"(1)])
    then show ?thesis using False IH by (subst (1 2 3) copy_range.simps) (auto simp: le_Suc_eq)
  qed
qed

lemma resize_ok:
  assumes "arr_ok a" and "unat t \<le> unat b" and "unat b \<le> unat t + cap a" and "cap a < 2 ^ 62"
  shows "arr_ok (resize dflt b t a)" and "cap (resize dflt b t a) = 2 * cap a"
    and "unat t \<le> j \<Longrightarrow> j < unat b \<Longrightarrow> cell (resize dflt b t a) j = cell a j"
proof -
  obtain k where k: "k \<le> 62" "C a = 2 ^ k" "length (S a) = 2 ^ k" using assms(1) by (auto simp: arr_ok_def)
  have "k < 62"
  proof (rule ccontr)
    assume "\<not> k < 62"
    with k(1) have "k = 62" by simp
    with k(3) assms(4) show False by (simp add: cap_def)
  qed
  then have "Suc k \<le> 62" by simp
  note new = Array_ok [OF this, of dflt]
  have d: "2 * C a = 2 ^ Suc k" using k(2) by simp
  have c: "cap a = 2 ^ k" using k(3) by (simp add: cap_def)
  have r: "resize dflt b t a = copy_range a b t (Array dflt (2 ^ Suc k))" by (simp only: resize_def d)
  note cp = copy_range_ok [OF assms(1) new(1) assms(2)]
  show "arr_ok (resize dflt b t a)" unfolding r using cp by blast
  show "cap (resize dflt b t a) = 2 * cap a" unfolding r using cp new(2) c by simp
  show "cell (resize dflt b t a) j = cell a j" if "unat t \<le> j" "j < unat b"
    unfolding r using cp that new(2) c assms(3) by simp
qed

section \<open>The refinement relation\<close>

text \<open>
  The bottom index as a client sees it: during a pop the claimed item still belongs to the
  queue until the owner has looked at the top.
\<close>

definition lbot :: "'a sys \<Rightarrow> nat" where
  "lbot s = (case owner s of
      Pop_claimed b \<Rightarrow> unat b + 1 | Pop_cas b t x \<Rightarrow> unat b + 1 | Pop_restore b \<Rightarrow> unat b + 1
    | _ \<Rightarrow> unat (M_bottom (queue s)))"

definition ltop :: "'a sys \<Rightarrow> nat" where
  "ltop s = unat (M_top (queue s))"

definition heap_ok :: "'a squeue \<Rightarrow> bool" where
  "heap_ok q \<longleftrightarrow> (\<forall>a\<in>set (heap q). arr_ok a) \<and> M_array q < length (heap q)"

definition owner_ok :: "'a sys \<Rightarrow> bool" where
  "owner_ok s \<longleftrightarrow> (case owner s of
      Idle \<Rightarrow> True
    | Push_loaded b t x \<Rightarrow> b = M_bottom (queue s) \<and> unat t \<le> ltop s \<and> unat b \<le> unat t + cap (cur (queue s))
    | Push_grown b x \<Rightarrow> b = M_bottom (queue s) \<and> unat b < ltop s + cap (cur (queue s))
    | Push_written b x \<Rightarrow> b = M_bottom (queue s) \<and> unat b < ltop s + cap (cur (queue s)) \<and>
        cell (cur (queue s)) (unat b) = x
    | Pop_claimed b \<Rightarrow> b = M_bottom (queue s)
    | Pop_cas b t x \<Rightarrow> b = M_bottom (queue s) \<and> t = b \<and> unat b \<le> ltop s \<and>
        (ltop s = unat b \<longrightarrow> x = cell (cur (queue s)) (unat b))
    | Pop_restore b \<Rightarrow> b = M_bottom (queue s) \<and> ltop s = unat b + 1)"

text \<open>
  What a thief knows is only of use while the top has not moved: the item it is after is
  still in the queue, and what it has read is that item.
\<close>

definition thief_ok :: "'a squeue \<Rightarrow> nat \<Rightarrow> nat \<Rightarrow> 'a thief_pc \<Rightarrow> bool" where
  "thief_ok q t0 b0 pc \<longleftrightarrow> (case pc of
      T_idle \<Rightarrow> True
    | T_top t \<Rightarrow> unat t \<le> t0
    | T_nonempty t \<Rightarrow> unat t \<le> t0 \<and> (unat t = t0 \<longrightarrow> t0 < b0)
    | T_array t a \<Rightarrow> unat t \<le> t0 \<and> a < length (heap q) \<and>
        (unat t = t0 \<longrightarrow> t0 < b0 \<and> cell (heap q ! a) t0 = cell (cur q) t0)
    | T_object t a x \<Rightarrow> unat t \<le> t0 \<and> (unat t = t0 \<longrightarrow> t0 < b0 \<and> x = cell (cur q) t0)
    | T_dangling \<Rightarrow> True
    | T_item t x \<Rightarrow> unat t \<le> t0 \<and> (unat t = t0 \<longrightarrow> t0 < b0 \<and> x = cell (cur q) t0))"

definition represents :: "'a sys \<Rightarrow> 'a list \<Rightarrow> bool" where
  "represents s xs \<longleftrightarrow> heap_ok (queue s) \<and> ltop s \<le> lbot s \<and> lbot s < 2 ^ 62 \<and>
     lbot s \<le> ltop s + cap (cur (queue s)) \<and> xs = map (cell (cur (queue s))) [ltop s ..< lbot s] \<and>
     owner_ok s \<and> (\<forall>i. thief_ok (queue s) (ltop s) (lbot s) (thief s i))"

lemma thief_ok_mono:
  assumes "thief_ok q t0 b0 pc" and "t0 \<le> t1" and "length (heap q) \<le> length (heap q')"
    and "t1 = t0 \<Longrightarrow> t0 < b0 \<Longrightarrow> t0 < b1 \<and> cell (cur q') t0 = cell (cur q) t0 \<and>
      (\<forall>a<length (heap q). cell (heap q' ! a) t0 = cell (heap q ! a) t0)"
  shows "thief_ok q' t1 b1 pc"
  using assms by (cases pc) (auto simp: thief_ok_def)

lemma heap_ok_cur: "heap_ok q \<Longrightarrow> arr_ok (cur q)"
  by (simp add: heap_ok_def cur_def)

lemma representsI:
  assumes "heap_ok (queue s)" and "ltop s \<le> lbot s" and "lbot s < 2 ^ 62"
    and "lbot s \<le> ltop s + cap (cur (queue s))" and "owner_ok s"
    and "\<And>i. thief_ok (queue s) (ltop s) (lbot s) (thief s i)"
    and "xs = map (cell (cur (queue s))) [ltop s ..< lbot s]"
  shows "represents s xs"
  using assms unfolding represents_def by blast

lemma representsD:
  assumes "represents s xs"
  shows "heap_ok (queue s)" and "ltop s \<le> lbot s" and "lbot s < 2 ^ 62"
    and "lbot s \<le> ltop s + cap (cur (queue s))" and "owner_ok s"
    and "thief_ok (queue s) (ltop s) (lbot s) (thief s i)"
    and "xs = map (cell (cur (queue s))) [ltop s ..< lbot s]"
  using assms unfolding represents_def by blast+

section \<open>The steps refine the abstract deque\<close>

lemma ltop_simps [simp]:
  "ltop (s\<lparr>owner := pc\<rparr>) = ltop s" "ltop (s\<lparr>thief := f\<rparr>) = ltop s" "ltop (s\<lparr>queue := q\<rparr>) = unat (M_top q)"
  by (simp_all add: ltop_def)

lemma lbot_thief [simp]: "lbot (s\<lparr>thief := f\<rparr>) = lbot s"
  by (cases "owner s") (simp_all add: lbot_def)

lemma owner_ok_thief [simp]: "owner_ok (s\<lparr>thief := f\<rparr>) = owner_ok s"
  by (cases "owner s") (simp_all add: owner_ok_def ltop_def)

lemma owner_change:
  assumes "represents s xs" and "lbot (s\<lparr>owner := pc\<rparr>) = lbot s" and "owner_ok (s\<lparr>owner := pc\<rparr>)"
  shows "represents (s\<lparr>owner := pc\<rparr>) xs"
  using representsD [OF assms(1)] assms(2,3) by (intro representsI) simp_all

lemma thief_change:
  assumes "represents s xs" and "thief_ok (queue s) (ltop s) (lbot s) pc"
  shows "represents (s\<lparr>thief := (thief s)(i := pc)\<rparr>) xs"
  using representsD [OF assms(1)] assms(2) by (intro representsI) simp_all

lemma grow_frame [simp]: "M_top (grow dflt b t q) = M_top q" "M_bottom (grow dflt b t q) = M_bottom q"
  by (simp_all add: grow_def)

lemma grow_ok:
  assumes "heap_ok q" and "unat t \<le> unat b" and "unat b \<le> unat t + cap (cur q)" and "unat b < 2 ^ 62"
  shows "heap_ok (grow dflt b t q)" and "unat b < unat t + cap (cur (grow dflt b t q))"
    and "unat t \<le> j \<Longrightarrow> j < unat b \<Longrightarrow> cell (cur (grow dflt b t q)) j = cell (cur q) j"
    and "length (heap q) \<le> length (heap (grow dflt b t q))"
    and "a < length (heap q) \<Longrightarrow> heap (grow dflt b t q) ! a = heap q ! a"
proof -
  note ck = heap_ok_cur [OF assms(1)]
  note ix = arr_ok_index [OF ck]
  have "C (cur q) \<noteq> 0" using ix(2,3) by (metis unat_0 less_irrefl)
  then have full: "C (cur q) - 1 < b - t \<longleftrightarrow> cap (cur q) \<le> unat b - unat t"
    using ix(2,3) assms(2) by (auto simp: word_less_nat_alt unat_pred unat_sub_small)
  have small: "cap (cur q) < 2 ^ 62" if "C (cur q) - 1 < b - t" using that full assms(4) by simp
  note rs = resize_ok [OF ck assms(2,3), where dflt = dflt]
  have new: "cur (grow dflt b t q) = (if C (cur q) - 1 < b - t then resize dflt b t (cur q) else cur q)"
    by (simp add: grow_def cur_def nth_append)
  show "heap_ok (grow dflt b t q)"
    using assms(1) rs(1) small by (auto simp: heap_ok_def grow_def cur_def)
  show "unat b < unat t + cap (cur (grow dflt b t q))"
    unfolding new using full rs(2) small ix(2) assms(2,3) by auto
  show "cell (cur (grow dflt b t q)) j = cell (cur q) j" if "unat t \<le> j" "j < unat b"
    unfolding new using rs(3) small that by simp
qed (simp_all add: grow_def nth_append)

lemma sim_grow:
  assumes "represents s xs" and o: "owner s = Push_loaded b t x"
  shows "represents (s\<lparr>queue := grow dflt b t (queue s), owner := Push_grown b x\<rparr>) xs"
proof -
  note r = representsD [OF assms(1)]
  have ow: "b = M_bottom (queue s)" "unat t \<le> ltop s" "unat b \<le> unat t + cap (cur (queue s))"
    using r(5) o by (auto simp: owner_ok_def)
  have B: "lbot s = unat b" using o ow(1) by (simp add: lbot_def)
  have tb: "unat t \<le> unat b" "unat b < 2 ^ 62" using ow(2) r(2,3) B by simp_all
  note g = grow_ok [OF r(1) tb(1) ow(3) tb(2), where dflt = dflt]
  let ?s = "s\<lparr>queue := grow dflt b t (queue s), owner := Push_grown b x\<rparr>"
  have TB: "ltop ?s = ltop s" "lbot ?s = lbot s" using B ow(1) by (simp_all add: ltop_def lbot_def)
  have same: "cell (cur (grow dflt b t (queue s))) j = cell (cur (queue s)) j" if "ltop s \<le> j" "j < lbot s" for j
    using g(3) that ow(2) B by simp
  show ?thesis
  proof (rule representsI, unfold TB)
    show "thief_ok (queue ?s) (ltop s) (lbot s) (thief ?s i)" for i
      using thief_ok_mono [OF r(6) order_refl, of "grow dflt b t (queue s)" "lbot s" i] g(4,5) same by simp
    show "xs = map (cell (cur (queue ?s))) [ltop s..<lbot s]" using r(7) same by simp
    show "owner_ok ?s" using g(2) ow by (simp add: owner_ok_def ltop_def)
  qed (use r g(1,2) B ow in simp_all)
qed

lemma write_cell_frame [simp]:
  "M_top (write_cell b x q) = M_top q" "M_bottom (write_cell b x q) = M_bottom q"
  "length (heap (write_cell b x q)) = length (heap q)" "M_array (write_cell b x q) = M_array q"
  by (simp_all add: write_cell_def)

lemma write_cell_ok:
  assumes "heap_ok q"
  shows "heap_ok (write_cell b x q)" and "cur (write_cell b x q) = array_push b x (cur q)"
    and "a < length (heap q) \<Longrightarrow> heap (write_cell b x q) ! a = (if a = M_array q then array_push b x (cur q) else heap q ! a)"
proof -
  show h: "heap (write_cell b x q) ! a = (if a = M_array q then array_push b x (cur q) else heap q ! a)"
    if "a < length (heap q)" for a
    using that by (simp add: write_cell_def nth_list_update)
  show "cur (write_cell b x q) = array_push b x (cur q)"
    using assms h [of "M_array q"] by (simp add: heap_ok_def cur_def)
  show "heap_ok (write_cell b x q)"
    using assms heap_ok_cur [OF assms] set_update_subset_insert [of "heap q" "M_array q" "array_push b x (cur q)"]
    by (auto simp: heap_ok_def write_cell_def)
qed

lemma thief_ok_overwritten: "thief_ok q t b pc \<Longrightarrow> thief_ok q t b (overwritten q' i pc)"
  by (cases pc) (simp_all add: thief_ok_def)

lemma sim_write:
  assumes "represents s xs" and o: "owner s = Push_grown b x"
  shows "represents (s\<lparr>queue := write_cell b x (queue s), owner := Push_written b x, thief := overwritten (queue s) b \<circ> thief s\<rparr>) xs"
proof -
  note r = representsD [OF assms(1)]
  have ow: "b = M_bottom (queue s)" "unat b < ltop s + cap (cur (queue s))"
    using r(5) o by (auto simp: owner_ok_def)
  have B: "lbot s = unat b" using o ow(1) by (simp add: lbot_def)
  note w = write_cell_ok [OF r(1), where b = b and x = x] and ck = heap_ok_cur [OF r(1)]
  let ?s = "s\<lparr>queue := write_cell b x (queue s), owner := Push_written b x, thief := overwritten (queue s) b \<circ> thief s\<rparr>"
  have TB: "ltop ?s = ltop s" "lbot ?s = lbot s" using B ow(1) by (simp_all add: ltop_def lbot_def)
  have same: "cell (array_push b x (cur (queue s))) j = cell (cur (queue s)) j" if "ltop s \<le> j" "j < lbot s" for j
    using that mod_window [of j "unat b" "cap (cur (queue s))"] ow(2) B array_push_cell [OF ck, of b x j] by fastforce
  show ?thesis
  proof (rule representsI, unfold TB)
    show "thief_ok (queue ?s) (ltop s) (lbot s) (thief ?s i)" for i
      using thief_ok_mono [OF thief_ok_overwritten [OF r(6)] order_refl, of "write_cell b x (queue s)" "lbot s" "queue s" b i]
        w(2,3) same by (simp add: cur_def)
    show "xs = map (cell (cur (queue ?s))) [ltop s..<lbot s]" using r(7) same w(2) by simp
    show "owner_ok ?s" using ow w(2) array_push_cell [OF ck, of b x "unat b"] by (simp add: owner_ok_def ltop_def)
  qed (use r w B ow in simp_all)
qed

lemma index_small: "unat (b :: u64) < 2 ^ 62 \<Longrightarrow> unat (b + 1) = unat b + 1"
  using unat_add_small [of b 1] by simp

text \<open>Steps that only move the indices leave the cells alone.\<close>

lemma move_indices:
  assumes "represents s xs" and "heap q = heap (queue s)" and "M_array q = M_array (queue s)"
    and "thief_ok (queue s) (ltop s) (lbot s) pc"
    and "ltop s \<le> unat (M_top q)" and "unat (M_top q) \<le> b" and "b < 2 ^ 62"
    and "b \<le> unat (M_top q) + cap (cur (queue s))"
    and "unat (M_top q) = ltop s \<Longrightarrow> ltop s < lbot s \<Longrightarrow> ltop s < b"
    and "owner_ok (s\<lparr>queue := q, owner := op, thief := (thief s)(i := pc)\<rparr>)"
    and "lbot (s\<lparr>queue := q, owner := op, thief := (thief s)(i := pc)\<rparr>) = b"
    and "ys = map (cell (cur (queue s))) [unat (M_top q) ..< b]"
  shows "represents (s\<lparr>queue := q, owner := op, thief := (thief s)(i := pc)\<rparr>) ys"
proof -
  note r = representsD [OF assms(1)]
  have c: "cur q = cur (queue s)" using assms(2,3) by (simp add: cur_def)
  have th: "thief_ok q (unat (M_top q)) b p" if "thief_ok (queue s) (ltop s) (lbot s) p" for p
    by (rule thief_ok_mono [OF that assms(5)]) (use assms(2,9) c in auto)
  let ?s = "s\<lparr>queue := q, owner := op, thief := (thief s)(i := pc)\<rparr>"
  have T: "ltop ?s = unat (M_top q)" by (simp add: ltop_def)
  show ?thesis
    by (rule representsI, unfold T assms(11))
      (use assms r(1) th [OF assms(4)] th [OF r(6)] c in \<open>simp_all add: heap_ok_def\<close>)
qed

lemma move_owner:
  assumes "represents s xs" and "heap q = heap (queue s)" and "M_array q = M_array (queue s)"
    and "ltop s \<le> unat (M_top q)" and "unat (M_top q) \<le> b" and "b < 2 ^ 62"
    and "b \<le> unat (M_top q) + cap (cur (queue s))"
    and "unat (M_top q) = ltop s \<Longrightarrow> ltop s < lbot s \<Longrightarrow> ltop s < b"
    and "owner_ok (s\<lparr>queue := q, owner := op\<rparr>)" and "lbot (s\<lparr>queue := q, owner := op\<rparr>) = b"
    and "ys = map (cell (cur (queue s))) [unat (M_top q) ..< b]"
  shows "represents (s\<lparr>queue := q, owner := op\<rparr>) ys"
proof -
  have e: "s\<lparr>queue := q, owner := op, thief := (thief s)(0 := thief s 0)\<rparr> = s\<lparr>queue := q, owner := op\<rparr>"
    by (cases s) simp
  show ?thesis
    using move_indices [OF assms(1-3) representsD(6) [OF assms(1), of 0] assms(4-8), where op = op and i = 0 and ys = ys]
      assms(9-11) unfolding e by simp
qed

lemma sim_publish:
  assumes "represents s xs" and o: "owner s = Push_written b x" and "unat b + 1 < 2 ^ 62"
  shows "represents (s\<lparr>queue := (queue s)\<lparr>M_bottom := b + 1\<rparr>, owner := Idle\<rparr>) (xs @ [x])"
proof -
  note r = representsD [OF assms(1)]
  have ow: "b = M_bottom (queue s)" "unat b < ltop s + cap (cur (queue s))" "cell (cur (queue s)) (unat b) = x"
    using r(5) o by (auto simp: owner_ok_def)
  have B: "lbot s = unat b" using o ow(1) by (simp add: lbot_def)
  have b1: "unat (b + 1) = unat b + 1" using assms(3) by (intro index_small) simp
  show ?thesis
    by (rule move_owner [OF assms(1), where b = "unat b + 1"])
      (use r B b1 ow assms(3) in \<open>simp_all add: ltop_def [symmetric] lbot_def owner_ok_def\<close>)
qed

lemma sim_claim:
  assumes "represents s xs" and o: "owner s = Idle" and b: "b = M_bottom (queue s) - 1" and p: "1 \<le> lbot s"
  shows "represents (s\<lparr>queue := (queue s)\<lparr>M_bottom := b\<rparr>, owner := Pop_claimed b\<rparr>) xs"
proof -
  note r = representsD [OF assms(1)]
  have B: "lbot s = unat (M_bottom (queue s))" using o by (simp add: lbot_def)
  with p have "M_bottom (queue s) \<noteq> 0" by (metis unat_0 not_one_le_zero)
  then have "unat b = lbot s - 1" unfolding b B by (rule unat_pred)
  then have "unat b + 1 = lbot s" using p by simp
  then show ?thesis
    by (intro move_owner [OF assms(1), where b = "lbot s"])
      (use r in \<open>simp_all add: ltop_def [symmetric] lbot_def owner_ok_def\<close>)
qed

lemma sim_take:
  assumes "represents s xs" and o: "owner s = Pop_claimed b" and "M_top (queue s) < b"
  shows "\<exists>ys. xs = ys @ [array_pop b (cur (queue s))] \<and> represents (s\<lparr>owner := Idle\<rparr>) ys"
proof -
  note r = representsD [OF assms(1)]
  have ow: "b = M_bottom (queue s)" using r(5) o by (simp add: owner_ok_def)
  have B: "lbot s = unat b + 1" using o by (simp add: lbot_def)
  have lt: "ltop s < unat b" using assms(3) by (simp add: ltop_def word_less_nat_alt)
  let ?ys = "map (cell (cur (queue s))) [ltop s ..< unat b]"
  have "represents (s\<lparr>queue := queue s, owner := Idle\<rparr>) ?ys"
    by (rule move_owner [OF assms(1), where b = "unat b"])
      (use r B lt ow in \<open>simp_all add: ltop_def [symmetric] lbot_def owner_ok_def\<close>)
  moreover have "xs = ?ys @ [array_pop b (cur (queue s))]"
    using r(7) B lt array_pop_cell [OF heap_ok_cur [OF r(1)]] by simp
  ultimately show ?thesis by (intro exI [of _ ?ys]) simp
qed

lemma sim_pop_cas:
  assumes "represents s xs" and o: "owner s = Pop_cas b t x" and "M_top (queue s) = t"
  shows "xs = [x] \<and> represents (s\<lparr>queue := (queue s)\<lparr>M_top := t + 1\<rparr>, owner := Pop_restore b\<rparr>) []"
proof -
  note r = representsD [OF assms(1)]
  have ow: "b = M_bottom (queue s)" "t = b" "unat b \<le> ltop s" "ltop s = unat b \<longrightarrow> x = cell (cur (queue s)) (unat b)"
    using r(5) o by (auto simp: owner_ok_def)
  have T: "ltop s = unat b" using assms(3) ow(2) by (simp add: ltop_def)
  have B: "lbot s = unat b + 1" using o by (simp add: lbot_def)
  have t1: "unat (b + 1) = unat b + 1" using r(3) B by (intro index_small) simp
  have "represents (s\<lparr>queue := (queue s)\<lparr>M_top := t + 1\<rparr>, owner := Pop_restore b\<rparr>) []"
    by (rule move_owner [OF assms(1), where b = "unat b + 1"])
      (use r B T t1 ow in \<open>simp_all add: lbot_def owner_ok_def\<close>)
  then show ?thesis using r(7) T B ow(4) by simp
qed

lemma sim_restore:
  assumes "represents s xs" and o: "owner s = Pop_restore b"
  shows "represents (s\<lparr>queue := (queue s)\<lparr>M_bottom := b + 1\<rparr>, owner := Idle\<rparr>) xs"
proof -
  note r = representsD [OF assms(1)]
  have ow: "ltop s = unat b + 1" using r(5) o by (simp add: owner_ok_def)
  have B: "lbot s = unat b + 1" using o by (simp add: lbot_def)
  have b1: "unat (b + 1) = unat b + 1" using r(3) B by (intro index_small) simp
  show ?thesis
    by (rule move_owner [OF assms(1), where b = "unat b + 1"])
      (use r B b1 ow in \<open>simp_all add: ltop_def [symmetric] lbot_def owner_ok_def\<close>)
qed

lemma sim_steal:
  assumes "represents s xs" and t: "thief s i = T_item t x" and "M_top (queue s) = t"
  shows "\<exists>ys. xs = x # ys \<and>
    represents (s\<lparr>queue := (queue s)\<lparr>M_top := t + 1\<rparr>, thief := (thief s)(i := T_idle)\<rparr>) ys"
proof -
  note r = representsD [OF assms(1)]
  have th: "ltop s < lbot s" "x = cell (cur (queue s)) (ltop s)"
    using r(6) [of i] t assms(3) by (auto simp: thief_ok_def ltop_def)
  have T: "unat t = ltop s" using assms(3) by (simp add: ltop_def)
  have t1: "unat (t + 1) = ltop s + 1" using index_small [of t] r(3) th(1) T by simp
  let ?q = "(queue s)\<lparr>M_top := t + 1\<rparr>" and ?ys = "map (cell (cur (queue s))) [ltop s + 1 ..< lbot s]"
  let ?s = "s\<lparr>queue := ?q, owner := owner s, thief := (thief s)(i := T_idle)\<rparr>"
  have e: "?s = s\<lparr>queue := ?q, thief := (thief s)(i := T_idle)\<rparr>" by (cases s) simp
  have "cur ?q = cur (queue s)" by (simp add: cur_def)
  then have "owner_ok ?s" and "lbot ?s = lbot s"
    using r(5) th t1 T by (cases "owner s"; auto simp: owner_ok_def ltop_def lbot_def)+
  then have "represents ?s ?ys"
    by (intro move_indices [OF assms(1), where b = "lbot s"])
      (use r th t1 in \<open>simp_all add: thief_ok_def\<close>)
  moreover have "xs = x # ?ys" using r(7) th by (simp add: upt_conv_Cons)
  ultimately show ?thesis unfolding e by blast
qed

text \<open>
  Every step of the threads is a step of the deque with the same label, as long as the owner
  has not pushed \<open>2 ^ 62\<close> items.
\<close>

lemma step_refines:
  assumes "represents s xs" and "step cls dflt s l s'" and "\<And>x. l = Pushed x \<Longrightarrow> lbot s + 1 < 2 ^ 62"
    and "l = Claimed \<Longrightarrow> 1 \<le> lbot s" and "\<And>i. l \<noteq> Dangling i"
  shows "\<exists>ys. deque_step xs l ys \<and> represents s' ys"
  using assms(2)
proof cases
  case (push_load x)
  have "represents s' xs"
    unfolding push_load by (rule owner_change [OF assms(1)])
      (use representsD [OF assms(1)] push_load in \<open>simp_all add: lbot_def owner_ok_def ltop_def\<close>)
  then show ?thesis using push_load deque_step.intros by blast
next
  case (push_grow b t x)
  then show ?thesis using sim_grow [OF assms(1)] deque_step.intros by blast
next
  case (push_write b x)
  then show ?thesis using sim_write [OF assms(1)] deque_step.intros by blast
next
  case (push_publish b x)
  have "lbot s = unat b" using representsD(5) [OF assms(1)] push_publish by (simp add: lbot_def owner_ok_def)
  then show ?thesis using sim_publish [OF assms(1)] push_publish assms(3) deque_step.intros by metis
next
  case (pop_claim b)
  then show ?thesis using sim_claim [OF assms(1)] assms(4) deque_step.intros by blast
next
  case (pop_take b)
  then obtain ys where "xs = ys @ [array_pop b (cur (queue s))]" "represents s' ys"
    using sim_take [OF assms(1)] by auto
  then show ?thesis using pop_take(1) deque_step.intros(4) by metis
next
  case (pop_last b)
  have "represents s' xs"
    unfolding pop_last by (rule owner_change [OF assms(1)])
      (use representsD [OF assms(1)] pop_last array_pop_cell [OF heap_ok_cur] in
        \<open>simp_all add: lbot_def owner_ok_def ltop_def\<close>)
  then show ?thesis using pop_last deque_step.intros by blast
next
  case (pop_empty b)
  note r = representsD [OF assms(1)]
  have B: "lbot s = unat b + 1" using pop_empty by (simp add: lbot_def)
  then have T: "ltop s = unat b + 1" using r(2) pop_empty by (simp add: ltop_def word_le_nat_alt)
  have "represents s' xs"
    unfolding pop_empty by (rule owner_change [OF assms(1)])
      (use r pop_empty T in \<open>simp_all add: lbot_def owner_ok_def\<close>)
  moreover have "xs = []" using r(7) B T by simp
  ultimately show ?thesis using pop_empty deque_step.intros by blast
next
  case (pop_cas_ok b t x)
  then have "xs = [] @ [x]" "represents s' []" using sim_pop_cas [OF assms(1)] by auto
  then show ?thesis using pop_cas_ok deque_step.intros by metis
next
  case (pop_cas_lost b t x)
  note r = representsD [OF assms(1)]
  have ow: "t = b" "unat b \<le> ltop s" "b = M_bottom (queue s)" using r(5) pop_cas_lost by (auto simp: owner_ok_def)
  have B: "lbot s = unat b + 1" using pop_cas_lost by (simp add: lbot_def)
  moreover have "ltop s \<noteq> unat b" using pop_cas_lost ow(1) by (simp add: ltop_def word_unat_eq_iff)
  ultimately have T: "ltop s = unat b + 1" using r(2) ow(2) by simp
  have "represents s' xs"
    unfolding pop_cas_lost by (rule owner_change [OF assms(1)])
      (use r pop_cas_lost T ow in \<open>simp_all add: lbot_def owner_ok_def\<close>)
  moreover have "xs = []" using r(7) B T by simp
  ultimately show ?thesis using pop_cas_lost deque_step.intros by blast
next
  case (pop_restore b)
  then show ?thesis using sim_restore [OF assms(1)] deque_step.intros by blast
next
  case (steal_top i)
  have "represents s' xs" unfolding steal_top
    by (rule thief_change [OF assms(1)]) (simp add: thief_ok_def ltop_def)
  then show ?thesis using steal_top deque_step.intros by blast
next
  case (steal_bottom i t)
  note r = representsD [OF assms(1)]
  have "unat (M_bottom (queue s)) \<le> lbot s"
    using r(5) by (cases "owner s") (auto simp: lbot_def owner_ok_def)
  then have "represents s' xs" unfolding steal_bottom
    using r(6) [of i] steal_bottom by (intro thief_change [OF assms(1)]) (auto simp: thief_ok_def word_less_nat_alt)
  then show ?thesis using steal_bottom deque_step.intros by blast
next
  case (steal_none i t)
  have "represents s' xs" unfolding steal_none by (rule thief_change [OF assms(1)]) (simp add: thief_ok_def)
  then show ?thesis using steal_none deque_step.intros(7) by metis
next
  case (steal_array i t)
  note r = representsD [OF assms(1)]
  have "represents s' xs" unfolding steal_array
    using r(1) r(6) [of i] steal_array
    by (intro thief_change [OF assms(1)]) (auto simp: thief_ok_def heap_ok_def cur_def)
  then show ?thesis using steal_array deque_step.intros by blast
next
  case (steal_item i t a)
  note r = representsD [OF assms(1)]
  have "represents s' xs" unfolding steal_item
    using r(1) r(6) [of i] steal_item array_pop_cell [of "heap (queue s) ! a" t]
    by (intro thief_change [OF assms(1)]) (auto simp: thief_ok_def heap_ok_def)
  then show ?thesis using steal_item deque_step.intros by blast
next
  case (steal_pointer i t a)
  note r = representsD [OF assms(1)]
  have "represents s' xs" unfolding steal_pointer
    using r(1) r(6) [of i] steal_pointer array_pop_cell [of "heap (queue s) ! a" t]
    by (intro thief_change [OF assms(1)]) (auto simp: thief_ok_def heap_ok_def)
  then show ?thesis using steal_pointer deque_step.intros by blast
next
  case (steal_object i t a x)
  have "represents s' xs" unfolding steal_object
    using representsD(6) [OF assms(1), of i] steal_object by (intro thief_change [OF assms(1)]) (auto simp: thief_ok_def)
  then show ?thesis using steal_object deque_step.intros by blast
next
  case (steal_dangling i)
  then show ?thesis using assms(5) by blast
next
  case (steal_cas_ok i t x)
  then show ?thesis using sim_steal [OF assms(1)] deque_step.intros by metis
next
  case (steal_cas_lost i t x)
  have "represents s' xs" unfolding steal_cas_lost by (rule thief_change [OF assms(1)]) (simp add: thief_ok_def)
  then show ?thesis using steal_cas_lost deque_step.intros(7) by metis
qed

section \<open>Whole runs\<close>

lemma unat_Suc_le: "unat (b + 1) \<le> unat (b :: u64) + 1"
  by (simp add: unat_word_ariths)

lemma lbot_step:
  assumes "represents s xs" and "step cls dflt s l s'" and "l = Claimed \<Longrightarrow> 1 \<le> lbot s"
  shows "lbot s' \<le> lbot s + length (pushed_items [l])"
  using assms(2)
proof cases
  case (pop_claim b)
  then have B: "lbot s = unat (M_bottom (queue s))" by (simp add: lbot_def)
  with assms(3) pop_claim(1) have nz: "M_bottom (queue s) \<noteq> 0" by (metis unat_0 not_one_le_zero)
  have "unat b + 1 = lbot s" using unat_pred [OF nz] assms(3) pop_claim B by simp
  then show ?thesis using pop_claim by (simp add: lbot_def)
qed (use representsD(5) [OF assms(1)] unat_Suc_le in \<open>(cases "owner s"; auto simp: lbot_def owner_ok_def)+\<close>)

text \<open>After the first push the bottom index is never 0 again.\<close>

lemma lbot_positive:
  assumes "represents s xs" and "step cls dflt s l s'" and "1 \<le> lbot s \<or> pushed_items [l] \<noteq> []" and "\<And>x. l = Pushed x \<Longrightarrow> lbot s + 1 < 2 ^ 62"
  shows "1 \<le> lbot s'"
  using assms(2)
proof cases
  case (push_publish b x)
  then have "lbot s = unat b" using representsD(5) [OF assms(1)] by (simp add: lbot_def owner_ok_def)
  then have "unat (b + 1) = unat b + 1" using assms(4) push_publish by (intro index_small) simp
  then show ?thesis using push_publish by (simp add: lbot_def)
next
  case (pop_take b)
  then have "1 \<le> unat b" by (simp add: word_less_nat_alt)
  then show ?thesis using pop_take representsD(5) [OF assms(1)] by (simp add: lbot_def owner_ok_def)
next
  case (pop_restore b)
  have "lbot s = unat b + 1" using pop_restore by (simp add: lbot_def)
  then have "unat (b + 1) = unat b + 1" using representsD(3) [OF assms(1)] by (intro index_small) simp
  then show ?thesis using pop_restore by (simp add: lbot_def)
qed (use assms(3) representsD(5) [OF assms(1)] in \<open>(cases "owner s"; auto simp: lbot_def owner_ok_def)+\<close>)

lemma pushed_items_snoc: "pushed_items (ls @ [l]) = pushed_items ls @ pushed_items [l]"
  by (induction ls rule: pushed_items.induct) auto

lemma taken_items_snoc: "taken_items (ls @ [l]) = taken_items ls @ taken_items [l]"
  by (induction ls rule: taken_items.induct) auto

text \<open>A run in which no pop starts before the first push has ended, and no thief reads a deleted object.\<close>

definition pop_after_push :: "'a label list \<Rightarrow> bool" where
  "pop_after_push ls \<longleftrightarrow> (\<forall>ls1 ls2. ls = ls1 @ Claimed # ls2 \<longrightarrow> pushed_items ls1 \<noteq> [])"

lemma pop_after_push_snoc:
  assumes "pop_after_push (ls @ [l])"
  shows "pop_after_push ls" and "l = Claimed \<Longrightarrow> pushed_items ls \<noteq> []"
  using assms unfolding pop_after_push_def by auto

lemma interleaving_refines:
  assumes "run cls dflt s0 ls s" and "represents s0 xs" and "lbot s0 + length (pushed_items ls) < 2 ^ 62"
    and "pop_after_push ls" and "\<forall>i. Dangling i \<notin> set ls"
  shows "\<exists>ys. deque_run xs ls ys \<and> represents s ys \<and> lbot s \<le> lbot s0 + length (pushed_items ls) \<and>
    (pushed_items ls \<noteq> [] \<longrightarrow> 1 \<le> lbot s)"
  using assms
proof (induction rule: run.induct)
  case (run_Nil s)
  then show ?case by (auto intro: deque_run.intros)
next
  case (run_snoc s ls s1 l s2)
  note pp = pop_after_push_snoc [OF run_snoc.prems(3)]
  from run_snoc pp obtain ys where ys: "deque_run xs ls ys" "represents s1 ys" "lbot s1 \<le> lbot s + length (pushed_items ls)"
    "pushed_items ls \<noteq> [] \<longrightarrow> 1 \<le> lbot s1"
    by (auto simp: pushed_items_snoc)
  have n: "length (pushed_items (ls @ [l])) = length (pushed_items ls) + length (pushed_items [l])"
    by (simp add: pushed_items_snoc)
  have small: "lbot s1 + 1 < 2 ^ 62" if "l = Pushed x" for x
    using that ys(3) run_snoc.prems(2) n by simp
  have claim: "1 \<le> lbot s1" if "l = Claimed" using that pp(2) ys(4) by blast
  have safe: "l \<noteq> Dangling i" for i using run_snoc.prems(4) by auto
  obtain zs where zs: "deque_step ys l zs" "represents s2 zs"
    using step_refines [OF ys(2) run_snoc.hyps(2) _ claim safe] small by blast
  have "lbot s2 \<le> lbot s + length (pushed_items (ls @ [l]))"
    using lbot_step [OF ys(2) run_snoc.hyps(2) claim] ys(3) n by simp
  moreover have "1 \<le> lbot s2" if "pushed_items (ls @ [l]) \<noteq> []"
  proof (rule lbot_positive [OF ys(2) run_snoc.hyps(2)])
    show "1 \<le> lbot s1 \<or> pushed_items [l] \<noteq> []" using that ys(4) by (auto simp: pushed_items_snoc)
  qed (rule small)
  ultimately show ?case using deque_snoc [OF ys(1) zs(1)] zs(2) by blast
qed

text \<open>With an arithmetic item type a thief never holds a pointer.\<close>

lemma arithmetic_no_pointer:
  assumes "run cls dflt s0 ls s" and "\<not> cls" and "\<forall>i. thief s0 i \<noteq> T_dangling \<and> (\<forall>t a x. thief s0 i \<noteq> T_object t a x)"
  shows "(\<forall>i. Dangling i \<notin> set ls) \<and> (\<forall>i. thief s i \<noteq> T_dangling \<and> (\<forall>t a x. thief s i \<noteq> T_object t a x))"
  using assms
proof (induction rule: run.induct)
  case (run_snoc s ls s1 l s2)
  have e: "overwritten q b pc = pc" if "\<forall>t a x. pc \<noteq> T_object t a x" for q b and pc :: "'a thief_pc"
    using that by (cases pc) auto
  from run_snoc have "\<forall>i. thief s1 i \<noteq> T_dangling \<and> (\<forall>t a x. thief s1 i \<noteq> T_object t a x)" "\<forall>i. Dangling i \<notin> set ls" by auto
  with run_snoc.hyps(2) run_snoc.prems(1) show ?case by cases (auto simp: e)
qed simp

lemma deque_run_items: "deque_run xs ls ys \<Longrightarrow> mset xs + mset (pushed_items ls) = mset ys + mset (taken_items ls)"
proof (induction rule: deque_run.induct)
  case (deque_snoc xs ls ys l zs)
  from deque_snoc(2) show ?case
    using deque_snoc(3) by cases (auto simp: pushed_items_snoc taken_items_snoc)
qed simp

text \<open>A queue that no thread is working on, and the operations on it run to the end.\<close>

definition quiet :: "'a squeue \<Rightarrow> 'a sys" where
  "quiet q = \<lparr>queue = q, owner = Idle, thief = (\<lambda>_. T_idle)\<rparr>"

lemma quiet_upd [simp]:
  "queue (quiet q) = q" "owner (quiet q) = Idle" "thief (quiet q) i = T_idle"
  "quiet q\<lparr>owner := pc, queue := q'\<rparr> = (quiet q')\<lparr>owner := pc\<rparr>"
  "quiet q\<lparr>queue := q'\<rparr> = quiet q'"
  "(quiet q)\<lparr>owner := Idle\<rparr> = quiet q"
  "(quiet q)\<lparr>owner := pc, thief := overwritten q' b \<circ> thief (quiet q'')\<rparr> = (quiet q)\<lparr>owner := pc\<rparr>"
  by (simp_all add: quiet_def fun_eq_iff)

lemma lbot_quiet [simp]: "lbot (quiet q) = unat (M_bottom q)" "ltop (quiet q) = unat (M_top q)"
  by (simp_all add: lbot_def ltop_def)

lemma push_quiet:
  assumes "represents (quiet q) xs" and "unat (M_bottom q) + 1 < 2 ^ 62"
  shows "represents (quiet (push dflt x q)) (xs @ [x])"
proof -
  note r = representsD [OF assms(1)]
  let ?b = "M_bottom q" and ?t = "M_top q"
  have "represents ((quiet q)\<lparr>owner := Push_loaded ?b ?t x\<rparr>) xs"
    using r by (intro owner_change [OF assms(1)]) (simp_all add: lbot_def owner_ok_def)
  from sim_grow [OF this, of ?b ?t x dflt]
  have "represents ((quiet (grow dflt ?b ?t q))\<lparr>owner := Push_grown ?b x\<rparr>) xs" by simp
  from sim_write [OF this, of ?b x]
  have "represents ((quiet (write_cell ?b x (grow dflt ?b ?t q)))\<lparr>owner := Push_written ?b x\<rparr>) xs" by simp
  from sim_publish [OF this, of ?b x] assms(2) show ?thesis by (simp add: push_def Let_def)
qed

lemma pop_quiet:
  assumes "represents (quiet q) xs" and "pop q = (r, q')" and "M_bottom q \<noteq> 0"
  shows "if xs = [] then r = None \<and> represents (quiet q') []
    else r = Some (last xs) \<and> represents (quiet q') (butlast xs)"
proof -
  let ?b = "M_bottom q - 1" and ?q = "q\<lparr>M_bottom := M_bottom q - 1\<rparr>"
  let ?s = "(quiet ?q)\<lparr>owner := Pop_claimed ?b\<rparr>"
  have 1: "represents ?s xs" using sim_claim [OF assms(1), of ?b] assms(3) by (simp add: Suc_le_eq unat_gt_0)
  note r = representsD [OF 1]
  have B: "lbot ?s = unat ?b + 1" by (simp add: lbot_def)
  consider "M_top q < ?b" | "M_top q = ?b" | "?b < M_top q" by (rule linorder_cases)
  then show ?thesis
  proof cases
    case 1
    then obtain ys where "xs = ys @ [array_pop ?b (cur ?q)]" "represents (quiet ?q) ys"
      using sim_take [OF \<open>represents ?s xs\<close>, of ?b] by auto
    moreover have "pop q = (Some (array_pop ?b (cur ?q)), ?q)" using 1 by (auto simp: pop_def Let_def)
    ultimately show ?thesis using assms(2) by simp
  next
    case 2
    let ?s2 = "(quiet ?q)\<lparr>owner := Pop_cas ?b ?b (array_pop ?b (cur ?q))\<rparr>"
    have "represents ?s2 xs"
      using owner_change [OF \<open>represents ?s xs\<close>, of "Pop_cas ?b ?b (array_pop ?b (cur ?q))"] r(1) 2
        array_pop_cell [OF heap_ok_cur, of ?q ?b] by (simp add: lbot_def owner_ok_def)
    from sim_pop_cas [OF this, of ?b ?b]
    have "xs = [array_pop ?b (cur ?q)]" "represents ((quiet (?q\<lparr>M_top := ?b + 1\<rparr>))\<lparr>owner := Pop_restore ?b\<rparr>) []"
      using 2 by auto
    then show ?thesis using sim_restore [of "(quiet (?q\<lparr>M_top := ?b + 1\<rparr>))\<lparr>owner := Pop_restore ?b\<rparr>" "[]" ?b] 2 assms(2)
      by (auto simp: pop_def Let_def)
  next
    case 3
    have T: "unat (M_top q) = unat ?b + 1" using r(2) B 3 by (simp add: word_less_nat_alt)
    have "represents ((quiet ?q)\<lparr>owner := Pop_restore ?b\<rparr>) xs"
      using owner_change [OF \<open>represents ?s xs\<close>, of "Pop_restore ?b"] T by (simp add: lbot_def owner_ok_def)
    from sim_restore [OF this, of ?b] have "represents (quiet (?q\<lparr>M_bottom := ?b + 1\<rparr>)) xs" by simp
    moreover have "xs = []" using r(7) B T by simp
    moreover have "pop q = (None, ?q\<lparr>M_bottom := ?b + 1\<rparr>)" using 3 by (auto simp: pop_def Let_def)
    ultimately show ?thesis using assms(2) by simp
  qed
qed

lemma steal_quiet:
  assumes "represents (quiet q) xs" and "steal q = (r, q')"
  shows "if xs = [] then r = None \<and> represents (quiet q') []
    else r = Some (hd xs) \<and> represents (quiet q') (tl xs)"
proof -
  note r = representsD [OF assms(1)]
  show ?thesis
  proof (cases "M_top q < M_bottom q")
    case False
    then have "xs = []" using r(7) by (simp add: word_less_nat_alt)
    then show ?thesis using False assms by (simp add: steal_def)
  next
    case True
    then have lt: "unat (M_top q) < unat (M_bottom q)" by (simp add: word_less_nat_alt)
    let ?x = "array_pop (M_top q) (cur q)"
    let ?s = "quiet q\<lparr>thief := (thief (quiet q))(0 := T_item (M_top q) ?x)\<rparr>"
    have "represents ?s xs"
      using array_pop_cell [OF heap_ok_cur] r(1) lt by (intro thief_change [OF assms(1)]) (simp add: thief_ok_def)
    then obtain ys where ys: "xs = ?x # ys"
      "represents (?s\<lparr>queue := q\<lparr>M_top := M_top q + 1\<rparr>, thief := (thief ?s)(0 := T_idle)\<rparr>) ys"
      using sim_steal [of ?s xs 0 "M_top q" ?x] by auto
    moreover have "?s\<lparr>queue := q\<lparr>M_top := M_top q + 1\<rparr>, thief := (thief ?s)(0 := T_idle)\<rparr> =
        quiet (q\<lparr>M_top := M_top q + 1\<rparr>)" by (simp add: quiet_def fun_eq_iff)
    moreover have "steal q = (Some ?x, q\<lparr>M_top := M_top q + 1\<rparr>)" using True by (simp add: steal_def Let_def)
    ultimately show ?thesis using assms(2) by simp
  qed
qed

text \<open>A new queue, and the state after the first push into it.\<close>

lemma new_queue:
  assumes "StealingQueue dflt c = Some q" and "unat c \<le> 2 ^ 62"
  shows "represents (quiet q) []" and "M_bottom q = 0"
proof -
  have c: "c \<noteq> 0" "c AND (c - 1) = 0"
    and q: "q = \<lparr>M_top = 0, M_bottom = 0, M_array = 0, M_garbage = [], heap = [Array dflt c]\<rparr>"
    using assms(1) by (auto simp: StealingQueue_def split: if_splits)
  obtain k where k: "k < 64" "c = 2 ^ k" "unat c = 2 ^ k" using word_and_pred_power [OF c] by auto
  have "(2 :: nat) ^ k \<le> 2 ^ 62" using assms(2) k(3) by simp
  then have "k \<le> 62" by (metis power_le_imp_le_exp one_less_numeral_iff semiring_norm(76))
  note A = Array_ok [OF this, of dflt]
  show "M_bottom q = 0" by (simp add: q)
  have "heap_ok q" using A(1) k(2) q by (simp add: heap_ok_def)
  then show "represents (quiet q) []"
    by (intro representsI) (simp_all add: q owner_ok_def thief_ok_def)
qed

lemma first_push:
  assumes "StealingQueue dflt c = Some q" and "unat c \<le> 2 ^ 62"
  shows "represents (quiet (push dflt x q)) [x]" and "M_bottom (push dflt x q) = 1"
  using push_quiet [OF new_queue(1) [OF assms], of dflt x] new_queue(2) [OF assms] by (simp_all add: push_def Let_def)

section \<open>Runs as functions\<close>

text \<open>Who goes next: the owner starts a push or a pop or goes on, or a thief goes on.\<close>

datatype 'a turn = Do_push 'a | Do_pop | Owner | Thief nat

fun owner_do :: "'a \<Rightarrow> 'a owner_pc \<Rightarrow> 'a sys \<Rightarrow> 'a label \<times> 'a sys" where
  "owner_do dflt (Push_loaded b t x) s = (Silent, s\<lparr>queue := grow dflt b t (queue s), owner := Push_grown b x\<rparr>)"
| "owner_do dflt (Push_grown b x) s = (Silent, s\<lparr>queue := write_cell b x (queue s), owner := Push_written b x,
     thief := overwritten (queue s) b \<circ> thief s\<rparr>)"
| "owner_do dflt (Push_written b x) s = (Pushed x, s\<lparr>queue := (queue s)\<lparr>M_bottom := b + 1\<rparr>, owner := Idle\<rparr>)"
| "owner_do dflt (Pop_claimed b) s =
     (if M_top (queue s) < b then (Popped (Some (array_pop b (cur (queue s)))), s\<lparr>owner := Idle\<rparr>)
      else if M_top (queue s) = b then (Silent, s\<lparr>owner := Pop_cas b b (array_pop b (cur (queue s)))\<rparr>)
      else (Popped None, s\<lparr>owner := Pop_restore b\<rparr>))"
| "owner_do dflt (Pop_cas b t x) s =
     (if M_top (queue s) = t then (Popped (Some x), s\<lparr>queue := (queue s)\<lparr>M_top := t + 1\<rparr>, owner := Pop_restore b\<rparr>)
      else (Popped None, s\<lparr>owner := Pop_restore b\<rparr>))"
| "owner_do dflt (Pop_restore b) s = (Silent, s\<lparr>queue := (queue s)\<lparr>M_bottom := b + 1\<rparr>, owner := Idle\<rparr>)"
| "owner_do dflt Idle s = (Claimed, s\<lparr>queue := (queue s)\<lparr>M_bottom := M_bottom (queue s) - 1\<rparr>, owner := Pop_claimed (M_bottom (queue s) - 1)\<rparr>)"

fun thief_do :: "bool \<Rightarrow> nat \<Rightarrow> 'a thief_pc \<Rightarrow> 'a sys \<Rightarrow> 'a label \<times> 'a sys" where
  "thief_do cls i T_idle s = (Silent, s\<lparr>thief := (thief s)(i := T_top (M_top (queue s)))\<rparr>)"
| "thief_do cls i (T_top t) s =
     (if t < M_bottom (queue s) then (Silent, s\<lparr>thief := (thief s)(i := T_nonempty t)\<rparr>)
      else (Stolen i None, s\<lparr>thief := (thief s)(i := T_idle)\<rparr>))"
| "thief_do cls i (T_nonempty t) s = (Silent, s\<lparr>thief := (thief s)(i := T_array t (M_array (queue s)))\<rparr>)"
| "thief_do cls i (T_array t a) s = (let x = array_pop t (heap (queue s) ! a) in
     (Silent, s\<lparr>thief := (thief s)(i := if cls then T_object t a x else T_item t x)\<rparr>))"
| "thief_do cls i (T_object t a x) s = (Silent, s\<lparr>thief := (thief s)(i := T_item t x)\<rparr>)"
| "thief_do cls i T_dangling s = (Dangling i, s\<lparr>thief := (thief s)(i := T_idle)\<rparr>)"
| "thief_do cls i (T_item t x) s =
     (if M_top (queue s) = t
      then (Stolen i (Some x), s\<lparr>queue := (queue s)\<lparr>M_top := t + 1\<rparr>, thief := (thief s)(i := T_idle)\<rparr>)
      else (Stolen i None, s\<lparr>thief := (thief s)(i := T_idle)\<rparr>))"

text \<open>\<open>Do_push\<close> and \<open>Do_pop\<close> while an operation is under way go on with it.\<close>

fun take_turn :: "bool \<Rightarrow> 'a \<Rightarrow> 'a turn \<Rightarrow> 'a sys \<Rightarrow> 'a label \<times> 'a sys" where
  "take_turn cls dflt (Do_push x) s =
     (if owner s = Idle then (Silent, s\<lparr>owner := Push_loaded (M_bottom (queue s)) (M_top (queue s)) x\<rparr>) else owner_do dflt (owner s) s)"
| "take_turn cls dflt (Thief i) s = thief_do cls i (thief s i) s"
| "take_turn cls dflt _ s = owner_do dflt (owner s) s"

fun take_turns :: "bool \<Rightarrow> 'a \<Rightarrow> 'a turn list \<Rightarrow> 'a sys \<Rightarrow> 'a label list \<times> 'a sys" where
  "take_turns cls dflt [] s = ([], s)"
| "take_turns cls dflt (a # as) s =
     (let (l, s1) = take_turn cls dflt a s; (ls, s2) = take_turns cls dflt as s1 in (l # ls, s2))"

lemma owner_do_step: "owner_do dflt (owner s) s = (l, s') \<Longrightarrow> step cls dflt s l s'"
  by (cases "owner s") (auto intro: step.intros split: if_splits)

lemma thief_do_step: "thief_do cls i (thief s i) s = (l, s') \<Longrightarrow> step cls dflt s l s'"
  by (cases "thief s i"; cases cls) (auto intro: step.intros split: if_splits simp: Let_def)

lemma take_turn_step: "take_turn cls dflt a s = (l, s') \<Longrightarrow> step cls dflt s l s'"
  by (cases a) (auto intro: owner_do_step thief_do_step step.intros split: if_splits)

lemma run_Cons: "run cls dflt s1 ls s2 \<Longrightarrow> step cls dflt s l s1 \<Longrightarrow> run cls dflt s (l # ls) s2"
proof (induction rule: run.induct)
  case (run_Nil s1)
  show ?case using run_snoc [OF run.run_Nil run_Nil] by simp
next
  case (run_snoc s1 ls s2 k s3)
  show ?case using run.run_snoc [OF run_snoc.IH [OF run_snoc.prems] run_snoc.hyps(2)] by simp
qed

lemma take_turns_run: "take_turns cls dflt as s = (ls, s') \<Longrightarrow> run cls dflt s ls s'"
proof (induction as arbitrary: s ls)
  case (Cons a as)
  obtain l s1 where a: "take_turn cls dflt a s = (l, s1)" by (cases "take_turn cls dflt a s") auto
  obtain ks where ks: "take_turns cls dflt as s1 = (ks, s')" "ls = l # ks"
    using Cons.prems a by (auto split: prod.splits)
  show ?case unfolding ks(2) by (rule run_Cons [OF Cons.IH [OF ks(1)] take_turn_step [OF a]])
qed (auto intro: run_Nil)

section \<open>Properties\<close>

text \<open>
  C1. Linearizability of the work-stealing deque. Start from a new queue, of a capacity that is
  a power of two, and let the owner and any number of thieves interleave their memory accesses in any
  way (sequentially consistently), with fewer than \<open>2 ^ 62 - 1\<close> pushes, such that the owner starts no pop before its first push has ended
  and, when the item type is not arithmetic, no thief reads an object that a push has replaced in its cell and deleted.
  Then the results of all operations are those of an abstract deque: a pop takes the last item, finds the queue empty only when it is, and a
  successful steal takes the first. No item is lost or taken twice. Both conditions are needed: \<open>pop_on_new_queue\<close> and \<open>stale_thief_reads_deleted\<close>.
\<close>

theorem stealing_queue_linearizable:
  assumes "StealingQueue dflt c = Some q" and "unat c \<le> 2 ^ 62"
    and "run cls dflt (quiet q) ls s" and "length (pushed_items ls) < 2 ^ 62 - 1"
    and "pop_after_push ls" and "cls \<Longrightarrow> \<forall>i. Dangling i \<notin> set ls"
  shows "\<exists>ys. deque_run [] ls ys \<and> represents s ys \<and> mset (pushed_items ls) = mset (taken_items ls) + mset ys"
proof -
  have d: "\<forall>i. Dangling i \<notin> set ls"
    using assms(6) arithmetic_no_pointer [OF assms(3)] by (cases cls) auto
  have "lbot (quiet q) + length (pushed_items ls) < 2 ^ 62" using new_queue(2) [OF assms(1,2)] assms(4) by simp
  then obtain ys where ys: "deque_run [] ls ys" "represents s ys"
    using interleaving_refines [OF assms(3) new_queue(1) [OF assms(1,2)] _ assms(5) d] by blast
  with deque_run_items [OF ys(1)] show ?thesis by (auto simp: add.commute)
qed

text \<open>
  A thief starts before the first push and finds nothing, and starts again; the owner pushes 7 and 8, the thief takes 7 in the middle of a pop of
  the owner, which takes 8.
\<close>

theorem stealing_queue_linearizable_witness:
  "\<exists>q ls s ys. StealingQueue (0 :: nat) 2 = Some q \<and> run True 0 (quiet q) ls s \<and> represents s ys \<and> deque_run [] ls ys \<and>
    pushed_items ls = [7, 8] \<and> taken_items ls = [7, 8] \<and> Stolen 3 None \<in> set ls \<and> ys = []"
proof -
  let ?q = "\<lparr>M_top = 0, M_bottom = 0, M_array = 0, M_garbage = [], heap = [Array (0 :: nat) 2]\<rparr>"
  have q: "StealingQueue (0 :: nat) 2 = Some ?q" by (simp add: StealingQueue_def)
  let ?as = "[Thief 3, Do_push 7, Owner, Thief 3, Owner, Owner, Thief 3, Do_push 8, Owner, Owner, Owner, Thief 3, Thief 3, Thief 3, Thief 3, Do_pop,
    Thief 3, Owner, Owner, Owner] :: nat turn list"
  obtain ls s where ls: "take_turns True 0 ?as (quiet ?q) = (ls, s)" by (cases "take_turns True 0 ?as (quiet ?q)") auto
  have e: "ls = [Silent, Silent, Silent, Stolen 3 None, Silent, Pushed 7, Silent, Silent, Silent, Silent, Pushed 8, Silent, Silent, Silent, Silent,
      Claimed, Stolen 3 (Some 7), Silent, Popped (Some 8), Silent]"
    using ls by (simp add: quiet_def grow_def write_cell_def cur_def Array_def array_push_def array_pop_def Let_def)
  have r: "run True 0 (quiet ?q) ls s" using ls by (rule take_turns_run)
  have p: "pop_after_push ls" unfolding e pop_after_push_def by (auto simp: Cons_eq_append_conv)
  obtain ys where ys: "deque_run [] ls ys" "represents s ys" "mset (pushed_items ls) = mset (taken_items ls) + mset ys"
    using stealing_queue_linearizable [OF q _ r _ p] by (auto simp: e)
  from ys(3) have "ys = []" by (simp add: e)
  with q r ys(1,2) show ?thesis by (intro exI [of _ ?q] exI [of _ ls] exI [of _ s] exI [of _ ys]) (simp add: e)
qed

text \<open>
  When the item type is not arithmetic, as in the executor, a thief that has read the pointer of a cell and is overtaken reads an object that was deleted: the
  owner takes the item back and pushes until it comes to the cell again, in a queue of capacity 1 with the next push.
\<close>

theorem stale_thief_reads_deleted:
  "\<exists>q ls s. StealingQueue dflt 1 = Some q \<and> run True dflt (quiet q) ls s \<and> pop_after_push ls \<and> pushed_items ls = [x, y] \<and> last ls = Dangling i"
proof -
  let ?q = "\<lparr>M_top = 0, M_bottom = 0, M_array = 0, M_garbage = [], heap = [Array dflt 1]\<rparr>"
  have q: "StealingQueue dflt 1 = Some ?q" by (simp add: StealingQueue_def)
  let ?as = "[Do_push x, Owner, Owner, Owner, Thief i, Thief i, Thief i, Thief i, Do_pop, Owner, Owner, Owner, Do_push y, Owner, Owner, Owner, Thief i]"
  obtain ls s where ls: "take_turns True dflt ?as (quiet ?q) = (ls, s)" by (cases "take_turns True dflt ?as (quiet ?q)") auto
  have e: "ls = [Silent, Silent, Silent, Pushed x, Silent, Silent, Silent, Silent, Claimed, Silent, Popped (Some x), Silent,
      Silent, Silent, Silent, Pushed y, Dangling i]"
    using ls by (simp add: quiet_def grow_def write_cell_def cur_def Array_def array_push_def array_pop_def Let_def)
  have "run True dflt (quiet ?q) ls s" using ls by (rule take_turns_run)
  moreover have "pop_after_push ls" unfolding e pop_after_push_def by (auto simp: Cons_eq_append_conv)
  ultimately show ?thesis using q by (intro exI [of _ ?q] exI [of _ ls] exI [of _ s]) (simp add: e)
qed

text \<open>
  The operations without interference: \<open>push\<close> appends at the bottom, growing the array when
  it is full, \<open>pop\<close> takes the last item, \<open>steal\<close> the first, and on an empty queue both return
  nothing; \<open>size\<close> and \<open>empty\<close> report the number of items. Something has been pushed before.
\<close>

theorem stealing_queue_sequential:
  assumes "represents (quiet q) xs" and "unat (M_bottom q) + 1 < 2 ^ 62" and "M_bottom q \<noteq> 0"
  shows "represents (quiet (push dflt x q)) (xs @ [x]) \<and>
    fst (pop q) = (if xs = [] then None else Some (last xs)) \<and> represents (quiet (snd (pop q))) (butlast xs) \<and>
    fst (steal q) = (if xs = [] then None else Some (hd xs)) \<and> represents (quiet (snd (steal q))) (tl xs) \<and>
    unat (size_q q) = length xs \<and> (empty q \<longleftrightarrow> xs = [])"
proof -
  note r = representsD [OF assms(1)]
  have le: "unat (M_top q) \<le> unat (M_bottom q)" using r(2) by simp
  have len: "length xs = unat (M_bottom q) - unat (M_top q)" using r(7) by simp
  have "unat (size_q q) = length xs" using le len by (simp add: size_q_def word_le_nat_alt unat_sub_small)
  moreover have "empty q \<longleftrightarrow> xs = []" using le len by (auto simp: empty_def word_le_nat_alt)
  moreover note push_quiet [OF assms(1,2), of dflt x] pop_quiet [OF assms(1) surjective_pairing assms(3)] steal_quiet [OF assms(1) surjective_pairing]
  ultimately show ?thesis by (simp split: if_splits)
qed

theorem stealing_queue_sequential_witness:
  "\<exists>q. represents (quiet q) [7] \<and> fst (pop q) = Some (7 :: nat) \<and> fst (steal q) = Some 7 \<and> unat (size_q q) = 1"
proof -
  obtain q where q: "StealingQueue (0 :: nat) 2 = Some q" by (simp add: StealingQueue_def)
  note f = first_push [OF q, of 7]
  from f have "represents (quiet (push 0 7 q)) [7]" "unat (M_bottom (push 0 7 q)) + 1 < 2 ^ 62" "M_bottom (push 0 7 q) \<noteq> 0" by simp_all
  from stealing_queue_sequential [OF this, of 0 0] this show ?thesis by auto
qed

text \<open>
  A pop on a queue into which nothing has ever been pushed does not report it empty: the
  bottom index wraps around, an item that was never pushed is returned, and the queue then
  claims to hold \<open>2 ^ 64 - 1\<close> items.
\<close>

theorem pop_on_new_queue:
  assumes "StealingQueue dflt c = Some q"
  shows "fst (pop q) = Some dflt \<and> \<not> empty (snd (pop q)) \<and> unat (size_q (snd (pop q))) = 2 ^ 64 - 1"
proof -
  have c: "c \<noteq> 0" and q: "q = \<lparr>M_top = 0, M_bottom = 0, M_array = 0, M_garbage = [], heap = [Array dflt c]\<rparr>"
    using assms by (auto simp: StealingQueue_def split: if_splits)
  have p: "pop q = (Some (array_pop (- 1) (Array dflt c)), q\<lparr>M_bottom := - 1\<rparr>)"
    by (simp add: pop_def q Let_def cur_def)
  have "unat (c - 1) < unat c" using c by (rule unat_pred_less)
  then have "array_pop (- 1) (Array dflt c) = dflt" by (simp add: array_pop_def Array_def)
  then show ?thesis
    unfolding p by (simp add: q empty_def size_q_def unsigned_minus_1_eq_mask mask_eq_exp_minus_1)
qed

theorem pop_on_new_queue_witness:
  "\<exists>q. StealingQueue (0 :: nat) 1024 = Some q \<and> fst (pop q) = Some 0 \<and> unat (size_q (snd (pop q))) = 2 ^ 64 - 1"
proof -
  obtain q where q: "StealingQueue (0 :: nat) 1024 = Some q" by (simp add: StealingQueue_def)
  from pop_on_new_queue [OF this] q show ?thesis by blast
qed

end
