(* ===== verification/Atomic_Queue.thy ===== *)
theory Atomic_Queue
  imports Mathematics "HOL-Library.Multiset"
begin

text \<open>
  The bounded queues of \<^verbatim>\<open>godby/include/godby/AtomicQueue.h\<close>: ring buffers whose slots are
  claimed by incrementing a 32-bit head or tail counter. \<open>AtomicQueue\<close> and \<open>AtomicQueueB\<close> mark
  a free slot with a special element, \<open>AtomicQueue2\<close> and \<open>AtomicQueueB2\<close> keep a state per slot;
  the index of a slot is shuffled so that neighbours lie on different cache lines. The
  functions of this theory are the operations run without interference; a loop that would spin
  for ever is \<open>None\<close>. They implement a bounded FIFO queue, whose contract is the locale
  \<open>bounded_fifo\<close>.
\<close>

section \<open>Slot indices\<close>

definition GetCacheLineIndexBits :: "u64 \<Rightarrow> nat" where
  "GetCacheLineIndexBits elements_per_cache_line = MSB elements_per_cache_line"

definition GetIndexShuffleBits :: "bool \<Rightarrow> u32 \<Rightarrow> u64 \<Rightarrow> nat" where
  "GetIndexShuffleBits minimize_contention array_size elements_per_cache_line =
     (if minimize_contention then
        let bits = GetCacheLineIndexBits elements_per_cache_line
        in if array_size < push_bit (bits * 2) 1 then 0 else bits
      else 0)"

definition remap_index :: "nat \<Rightarrow> u32 \<Rightarrow> u32" where
  "remap_index BITS index =
     (if BITS = 0 then index
      else let mix_mask = push_bit BITS 1 - 1;
               mix = (index XOR drop_bit BITS index) AND mix_mask
           in index XOR mix XOR push_bit BITS mix)"

text \<open>The slot of a counter value in the queues of static size and in the allocated ones.\<close>

definition slot_mod :: "nat \<Rightarrow> u32 \<Rightarrow> u32 \<Rightarrow> nat" where
  "slot_mod SHUFFLE_BITS sz h = unat (remap_index SHUFFLE_BITS (h mod sz))"

definition slot_and :: "nat \<Rightarrow> u32 \<Rightarrow> u32 \<Rightarrow> nat" where
  "slot_and SHUFFLE_BITS sz h = unat (remap_index SHUFFLE_BITS (h AND (sz - 1)))"

section \<open>Queues\<close>

datatype slot_state = EMPTY | STORING | STORED | LOADING

record 'a aqueue =
  M_head :: u32
  M_tail :: u32
  M_size :: u32
  M_states :: "slot_state list"
  M_elements :: "'a list"

text \<open>
  \<open>do_push_atomic\<close> and \<open>do_pop_atomic\<close> on the slot \<open>i\<close>: the assertion that the element is not
  \<open>nil\<close>, and the loop that waits for the slot to be free or filled.
\<close>

definition do_push_atomic :: "'a \<Rightarrow> 'a \<Rightarrow> nat \<Rightarrow> 'a aqueue \<Rightarrow> 'a aqueue option" where
  "do_push_atomic nil element i q =
     (if element = nil then None
      else if M_elements q ! i \<noteq> nil then None
      else Some (q\<lparr>M_elements := (M_elements q)[i := element]\<rparr>))"

definition do_pop_atomic :: "'a \<Rightarrow> nat \<Rightarrow> 'a aqueue \<Rightarrow> ('a \<times> 'a aqueue) option" where
  "do_pop_atomic nil i q =
     (let element = M_elements q ! i
      in if element \<noteq> nil then Some (element, q\<lparr>M_elements := (M_elements q)[i := nil]\<rparr>) else None)"

text \<open>
  The same with a state per slot. Moving the element out leaves some value behind, which
  depends on the element type: the parameter \<open>moved\<close>.
\<close>

definition do_push_any :: "'a \<Rightarrow> nat \<Rightarrow> 'a aqueue \<Rightarrow> 'a aqueue option" where
  "do_push_any element i q =
     (if M_states q ! i \<noteq> EMPTY then None
      else Some (q\<lparr>M_elements := (M_elements q)[i := element], M_states := (M_states q)[i := STORED]\<rparr>))"

definition do_pop_any :: "('a \<Rightarrow> 'a) \<Rightarrow> nat \<Rightarrow> 'a aqueue \<Rightarrow> ('a \<times> 'a aqueue) option" where
  "do_pop_any moved i q =
     (if M_states q ! i \<noteq> STORED then None
      else let element = M_elements q ! i
           in Some (element, q\<lparr>M_elements := (M_elements q)[i := moved element], M_states := (M_states q)[i := EMPTY]\<rparr>))"

text \<open>
  \<open>AtomicQueueCommon\<close>, with the \<open>do_push\<close> and \<open>do_pop\<close> of the derived class as arguments. The
  distances are compared as signed numbers.
\<close>

definition try_push :: "(u32 \<Rightarrow> 'a aqueue \<Rightarrow> 'a aqueue option) \<Rightarrow> 'a aqueue \<Rightarrow> (bool \<times> 'a aqueue) option" where
  "try_push do_push q =
     (let head = M_head q
      in if sint (head - M_tail q) \<ge> sint (M_size q) then Some (False, q)
         else case do_push head (q\<lparr>M_head := head + 1\<rparr>) of
                None \<Rightarrow> None
              | Some q1 \<Rightarrow> Some (True, q1))"

definition try_pop :: "(u32 \<Rightarrow> 'a aqueue \<Rightarrow> ('a \<times> 'a aqueue) option) \<Rightarrow> 'a aqueue \<Rightarrow> ('a option \<times> 'a aqueue) option" where
  "try_pop do_pop q =
     (let tail = M_tail q
      in if sint (M_head q - tail) \<le> 0 then Some (None, q)
         else case do_pop tail (q\<lparr>M_tail := tail + 1\<rparr>) of
                None \<Rightarrow> None
              | Some (element, q1) \<Rightarrow> Some (Some element, q1))"

definition push :: "(u32 \<Rightarrow> 'a aqueue \<Rightarrow> 'a aqueue option) \<Rightarrow> 'a aqueue \<Rightarrow> 'a aqueue option" where
  "push do_push q = (let head = M_head q in do_push head (q\<lparr>M_head := head + 1\<rparr>))"

definition pop :: "(u32 \<Rightarrow> 'a aqueue \<Rightarrow> ('a \<times> 'a aqueue) option) \<Rightarrow> 'a aqueue \<Rightarrow> ('a \<times> 'a aqueue) option" where
  "pop do_pop q = (let tail = M_tail q in do_pop tail (q\<lparr>M_tail := tail + 1\<rparr>))"

definition was_size :: "'a aqueue \<Rightarrow> u32" where
  "was_size q = word_of_int (max (sint (M_head q - M_tail q)) 0)"

definition was_empty :: "'a aqueue \<Rightarrow> bool" where
  "was_empty q \<longleftrightarrow> was_size q = 0"

text \<open>The comparison of an unsigned and a signed number converts the signed one.\<close>

definition was_full :: "'a aqueue \<Rightarrow> bool" where
  "was_full q \<longleftrightarrow> was_size q \<ge> M_size q"

definition capacity :: "'a aqueue \<Rightarrow> u32" where
  "capacity q = M_size q"

text \<open>The special member functions of \<open>AtomicQueueCommon\<close>, which copy only the counters.\<close>

definition common_assign :: "'a aqueue \<Rightarrow> 'a aqueue \<Rightarrow> 'a aqueue" where
  "common_assign b q = q\<lparr>M_head := M_head b, M_tail := M_tail b\<rparr>"

definition common_swap :: "'a aqueue \<Rightarrow> 'a aqueue \<Rightarrow> 'a aqueue \<times> 'a aqueue" where
  "common_swap q b =
     (let h = M_head q; t = M_tail q
      in (q\<lparr>M_head := M_head b, M_tail := M_tail b\<rparr>, b\<lparr>M_head := h, M_tail := t\<rparr>))"

section \<open>The four queue classes\<close>

text \<open>The element types fix how many elements or states fit on a cache line of 64 bytes.\<close>

definition AtomicQueue :: "u32 \<Rightarrow> bool \<Rightarrow> 'a \<Rightarrow> 'a aqueue option" where
  "AtomicQueue SIZE MINIMIZE_CONTENTION nil =
     (case (if MINIMIZE_CONTENTION then NextPowerOfTwo SIZE else Some SIZE) of
        None \<Rightarrow> None
      | Some sz \<Rightarrow> Some \<lparr>M_head = 0, M_tail = 0, M_size = sz, M_states = [],
                           M_elements = replicate (unat sz) nil\<rparr>)"

definition AtomicQueue_do_push :: "'a \<Rightarrow> nat \<Rightarrow> 'a \<Rightarrow> u32 \<Rightarrow> 'a aqueue \<Rightarrow> 'a aqueue option" where
  "AtomicQueue_do_push nil SHUFFLE_BITS element head q =
     do_push_atomic nil element (slot_mod SHUFFLE_BITS (M_size q) head) q"

definition AtomicQueue_do_pop :: "'a \<Rightarrow> nat \<Rightarrow> u32 \<Rightarrow> 'a aqueue \<Rightarrow> ('a \<times> 'a aqueue) option" where
  "AtomicQueue_do_pop nil SHUFFLE_BITS tail q = do_pop_atomic nil (slot_mod SHUFFLE_BITS (M_size q) tail) q"

definition AtomicQueue2 :: "u32 \<Rightarrow> bool \<Rightarrow> 'a \<Rightarrow> 'a aqueue option" where
  "AtomicQueue2 SIZE MINIMIZE_CONTENTION value0 =
     (case (if MINIMIZE_CONTENTION then NextPowerOfTwo SIZE else Some SIZE) of
        None \<Rightarrow> None
      | Some sz \<Rightarrow> Some \<lparr>M_head = 0, M_tail = 0, M_size = sz, M_states = replicate (unat sz) EMPTY,
                           M_elements = replicate (unat sz) value0\<rparr>)"

definition AtomicQueue2_do_push :: "nat \<Rightarrow> 'a \<Rightarrow> u32 \<Rightarrow> 'a aqueue \<Rightarrow> 'a aqueue option" where
  "AtomicQueue2_do_push SHUFFLE_BITS element head q = do_push_any element (slot_mod SHUFFLE_BITS (M_size q) head) q"

definition AtomicQueue2_do_pop :: "('a \<Rightarrow> 'a) \<Rightarrow> nat \<Rightarrow> u32 \<Rightarrow> 'a aqueue \<Rightarrow> ('a \<times> 'a aqueue) option" where
  "AtomicQueue2_do_pop moved SHUFFLE_BITS tail q = do_pop_any moved (slot_mod SHUFFLE_BITS (M_size q) tail) q"

definition AtomicQueueB :: "nat \<Rightarrow> u32 \<Rightarrow> 'a \<Rightarrow> 'a aqueue option" where
  "AtomicQueueB SHUFFLE_BITS sz nil =
     (case NextPowerOfTwo sz of
        None \<Rightarrow> None
      | Some p \<Rightarrow> let n = max p (push_bit (SHUFFLE_BITS * 2) 1)
                  in Some \<lparr>M_head = 0, M_tail = 0, M_size = n, M_states = [], M_elements = replicate (unat n) nil\<rparr>)"

definition AtomicQueueB_do_push :: "'a \<Rightarrow> nat \<Rightarrow> 'a \<Rightarrow> u32 \<Rightarrow> 'a aqueue \<Rightarrow> 'a aqueue option" where
  "AtomicQueueB_do_push nil SHUFFLE_BITS element head q =
     do_push_atomic nil element (slot_and SHUFFLE_BITS (M_size q) head) q"

definition AtomicQueueB_do_pop :: "'a \<Rightarrow> nat \<Rightarrow> u32 \<Rightarrow> 'a aqueue \<Rightarrow> ('a \<times> 'a aqueue) option" where
  "AtomicQueueB_do_pop nil SHUFFLE_BITS tail q = do_pop_atomic nil (slot_and SHUFFLE_BITS (M_size q) tail) q"

definition AtomicQueueB2 :: "nat \<Rightarrow> u32 \<Rightarrow> 'a \<Rightarrow> 'a aqueue option" where
  "AtomicQueueB2 SHUFFLE_BITS sz value0 =
     (case NextPowerOfTwo sz of
        None \<Rightarrow> None
      | Some p \<Rightarrow> let n = max p (push_bit (SHUFFLE_BITS * 2) 1)
                  in Some \<lparr>M_head = 0, M_tail = 0, M_size = n, M_states = replicate (unat n) EMPTY,
                           M_elements = replicate (unat n) value0\<rparr>)"

definition AtomicQueueB2_do_push :: "nat \<Rightarrow> 'a \<Rightarrow> u32 \<Rightarrow> 'a aqueue \<Rightarrow> 'a aqueue option" where
  "AtomicQueueB2_do_push SHUFFLE_BITS element head q = do_push_any element (slot_and SHUFFLE_BITS (M_size q) head) q"

definition AtomicQueueB2_do_pop :: "('a \<Rightarrow> 'a) \<Rightarrow> nat \<Rightarrow> u32 \<Rightarrow> 'a aqueue \<Rightarrow> ('a \<times> 'a aqueue) option" where
  "AtomicQueueB2_do_pop moved SHUFFLE_BITS tail q = do_pop_any moved (slot_and SHUFFLE_BITS (M_size q) tail) q"

text \<open>
  The move constructor of the allocated queues leaves a queue of size 0 without memory, and
  the move assignment swaps.
\<close>

definition queue_move :: "'a aqueue \<Rightarrow> 'a aqueue \<times> 'a aqueue" where
  "queue_move b =
     (\<lparr>M_head = M_head b, M_tail = M_tail b, M_size = M_size b, M_states = M_states b, M_elements = M_elements b\<rparr>,
      b\<lparr>M_size := 0, M_states := [], M_elements := []\<rparr>)"

definition queue_swap :: "'a aqueue \<Rightarrow> 'a aqueue \<Rightarrow> 'a aqueue \<times> 'a aqueue" where
  "queue_swap q b =
     (let (q1, b1) = common_swap q b
      in (q1\<lparr>M_size := M_size b, M_states := M_states b, M_elements := M_elements b\<rparr>,
          b1\<lparr>M_size := M_size q, M_states := M_states q, M_elements := M_elements q\<rparr>))"

definition queue_move_assign :: "'a aqueue \<Rightarrow> 'a aqueue \<Rightarrow> 'a aqueue \<times> 'a aqueue" where
  "queue_move_assign q b = (let (b1, q1) = queue_swap b q in (q1, b1))"

section \<open>RetryDecorator\<close>

text \<open>The decorator repeats \<open>try_push\<close> and \<open>try_pop\<close> until they succeed.\<close>

partial_function (option) retry_push :: "('q \<Rightarrow> (bool \<times> 'q) option) \<Rightarrow> 'q \<Rightarrow> 'q option" where
  "retry_push try q =
     (case try q of
        None \<Rightarrow> None
      | Some (ok, q1) \<Rightarrow> if ok then Some q1 else retry_push try q1)"

partial_function (option) retry_pop :: "('q \<Rightarrow> ('a option \<times> 'q) option) \<Rightarrow> 'q \<Rightarrow> ('a \<times> 'q) option" where
  "retry_pop try q =
     (case try q of
        None \<Rightarrow> None
      | Some (r, q1) \<Rightarrow> (case r of Some x \<Rightarrow> Some (x, q1) | None \<Rightarrow> retry_pop try q1))"

section \<open>The shuffle is a permutation of the slots\<close>

lemma bit_remap_index:
  assumes "2 * b \<le> 32"
  shows "bit (remap_index b x) n \<longleftrightarrow>
    (if n < b then bit x (n + b) else if n < 2 * b then bit x (n - b) else bit x n)"
proof (cases "b = 0")
  case False
  define mix where "mix = (x XOR drop_bit b x) AND (push_bit b 1 - 1)"
  have m: "(push_bit b 1 - 1 :: u32) = mask b" by (simp add: push_bit_eq_mult mask_eq_exp_minus_1)
  have mix: "bit mix i \<longleftrightarrow> i < b \<and> (bit x i \<noteq> bit x (i + b))" for i
    unfolding mix_def m using assms by (auto simp: bit_and_iff bit_xor_iff bit_drop_bit_eq bit_mask_iff add.commute)
  have "remap_index b x = x XOR mix XOR push_bit b mix" using False by (simp add: remap_index_def mix_def Let_def)
  then have "bit (remap_index b x) n \<longleftrightarrow> (bit x n \<noteq> bit mix n) \<noteq> (b \<le> n \<and> n < 32 \<and> bit mix (n - b))"
    by (auto simp: bit_xor_iff bit_push_bit_iff)
  then show ?thesis using assms by (cases "n < b"; cases "n < 2 * b") (auto simp: mix)
qed (simp add: remap_index_def)

lemma remap_index_involution:
  assumes "2 * b \<le> 32"
  shows "remap_index b (remap_index b x) = x"
  by (rule bit_eqI) (auto simp: bit_remap_index [OF assms])

lemma word_less_power_bits:
  assumes "k < LENGTH('a)"
  shows "(x :: 'a::len word) < 2 ^ k \<longleftrightarrow> (\<forall>n\<ge>k. \<not> bit x n)"
proof -
  have lt: "x < 2 ^ k \<longleftrightarrow> unat x < 2 ^ k" using assms by (simp add: word_less_nat_alt unat_two_power)
  show ?thesis
  proof
    assume "x < 2 ^ k"
    with lt have "take_bit k (unat x) = unat x" by (simp add: take_bit_nat_eq_self)
    then have "bit (unat x) n \<longleftrightarrow> n < k \<and> bit (unat x) n" for n by (metis bit_take_bit_iff)
    then show "\<forall>n\<ge>k. \<not> bit x n" by (metis bit_unsigned_iff leD possible_bit_nat)
  next
    assume "\<forall>n\<ge>k. \<not> bit x n"
    then have "take_bit k x = x" by (auto simp: bit_eq_iff bit_take_bit_iff) (meson not_le)
    then have "unat x = take_bit k (unat x)" by (metis unsigned_take_bit_eq)
    also have "\<dots> < 2 ^ k" by simp
    finally show "x < 2 ^ k" using lt by simp
  qed
qed

lemma remap_index_less:
  assumes "2 * b \<le> k" and "k < 32" and "x < 2 ^ k"
  shows "remap_index b x < 2 ^ k"
proof -
  have "2 * b \<le> 32" using assms by simp
  then show ?thesis
    using assms by (simp add: word_less_power_bits bit_remap_index)
qed

section \<open>Ring buffers\<close>

text \<open>
  What the queues need of the slot function: the slots of a full turn of the counter are the
  slots of the ring, each once, also across the wrap-around of the 32-bit counter.
\<close>

definition ring_slots :: "(u32 \<Rightarrow> nat) \<Rightarrow> nat \<Rightarrow> bool" where
  "ring_slots idx n \<longleftrightarrow> 0 < n \<and> n < 2 ^ 31 \<and> (\<forall>h. idx h < n) \<and> (\<forall>h. idx (h + of_nat n) = idx h) \<and>
     (\<forall>h i j. i < n \<longrightarrow> j < n \<longrightarrow> idx (h + of_nat i) = idx (h + of_nat j) \<longrightarrow> i = j)"

lemma unat_add_mod: "k \<le> 32 \<Longrightarrow> unat (h + of_nat i :: u32) mod 2 ^ k = (unat h + i) mod 2 ^ k"
proof -
  assume "k \<le> 32"
  then have "(2 :: nat) ^ k dvd 2 ^ 32" by (rule le_imp_power_dvd)
  then have "(m mod 2 ^ 32) mod 2 ^ k = m mod 2 ^ k" for m :: nat by (rule mod_mod_cancel)
  moreover have "unat (h + of_nat i :: u32) = (unat h + i) mod 2 ^ 32"
    by (simp add: unat_word_ariths unsigned_of_nat take_bit_eq_mod mod_simps)
  ultimately show ?thesis by simp
qed

lemma slot_power:
  assumes "2 * b \<le> k" and "k < 31"
  shows "ring_slots (slot_mod b (2 ^ k)) (2 ^ k)" and "slot_and b (2 ^ k) = slot_mod b (2 ^ k)"
proof -
  have k32: "k < 32" "k \<le> 32" "2 * b \<le> 32" using assms by simp_all
  have p: "unat (2 ^ k :: u32) = 2 ^ k" using k32(1) by (simp add: unat_two_power)
  define red where "red = (\<lambda>h :: u32. h mod 2 ^ k)"
  have red: "unat (red h) = unat h mod 2 ^ k" for h using p by (simp add: red_def unat_mod)
  have idx: "slot_mod b (2 ^ k) h = unat (remap_index b (red h))" for h by (simp add: slot_mod_def red_def)
  have small: "red h < 2 ^ k" for h using red [of h] p by (simp add: word_less_nat_alt)
  have lt: "slot_mod b (2 ^ k) h < 2 ^ k" for h
    using remap_index_less [OF assms(1) k32(1) small [of h]] p by (simp add: idx word_less_nat_alt)
  have eq: "slot_mod b (2 ^ k) h = slot_mod b (2 ^ k) h' \<longleftrightarrow> unat h mod 2 ^ k = unat h' mod 2 ^ k" for h h'
  proof -
    have "slot_mod b (2 ^ k) h = slot_mod b (2 ^ k) h' \<longleftrightarrow> remap_index b (red h) = remap_index b (red h')"
      by (simp add: idx word_unat_eq_iff)
    also have "\<dots> \<longleftrightarrow> red h = red h'" using remap_index_involution [OF k32(3)] by metis
    finally show ?thesis by (simp add: word_unat_eq_iff red)
  qed
  show "ring_slots (slot_mod b (2 ^ k)) (2 ^ k)"
    unfolding ring_slots_def eq unat_add_mod [OF k32(2)]
  proof (intro conjI allI impI)
    show "(2 :: nat) ^ k < 2 ^ 31" using assms(2) by (intro power_strict_increasing) simp_all
    show "i = j" if "i < 2 ^ k" "j < 2 ^ k" "(unat h + i) mod 2 ^ k = (unat h + j) mod 2 ^ k" for h :: u32 and i j
      using that by (rule ring_offset)
  qed (simp, rule lt, simp)
  have m: "(2 ^ k - 1 :: u32) = mask k" by (simp add: mask_eq_exp_minus_1)
  have "h AND (2 ^ k - 1) = red h" for h :: u32
    by (simp only: m word_unat_eq_iff red unat_and_mask_nat)
  then show "slot_and b (2 ^ k) = slot_mod b (2 ^ k)"
    by (intro ext) (simp add: slot_and_def idx)
qed

text \<open>
  A ring with the items \<open>xs\<close> from the tail on: \<open>view i\<close> is what slot \<open>i\<close> holds, if anything.
\<close>

definition ring_rep :: "(u32 \<Rightarrow> nat) \<Rightarrow> nat \<Rightarrow> u32 \<Rightarrow> u32 \<Rightarrow> (nat \<Rightarrow> 'a option) \<Rightarrow> 'a list \<Rightarrow> bool" where
  "ring_rep idx n h t view xs \<longleftrightarrow> length xs \<le> n \<and> h = t + of_nat (length xs) \<and>
     (\<forall>j<n. view (idx (t + of_nat j)) = (if j < length xs then Some (xs ! j) else None))"

lemma ring_slotsD:
  assumes "ring_slots idx n"
  shows "0 < n" and "n < 2 ^ 31" and "idx h < n" and "idx (h + of_nat n) = idx h"
    and "i < n \<Longrightarrow> j < n \<Longrightarrow> idx (h + of_nat i) = idx (h + of_nat j) \<Longrightarrow> i = j"
  using assms unfolding ring_slots_def by blast+

lemma ring_repD:
  assumes "ring_rep idx n h t view xs"
  shows "length xs \<le> n" and "h = t + of_nat (length xs)"
    and "j < n \<Longrightarrow> view (idx (t + of_nat j)) = (if j < length xs then Some (xs ! j) else None)"
  using assms unfolding ring_rep_def by blast+

lemma sint_small: "n < 2 ^ 31 \<Longrightarrow> sint (of_nat n :: u32) = int n"
  by (simp add: signed_of_nat signed_take_bit_int_eq_self)

lemma ring_distance:
  assumes "ring_slots idx n" and "ring_rep idx n h t view xs"
  shows "sint (h - t) = int (length xs)"
proof -
  have "length xs < 2 ^ 31" using ring_repD(1) [OF assms(2)] ring_slotsD(2) [OF assms(1)] by simp
  moreover have "h - t = of_nat (length xs)" using ring_repD(2) [OF assms(2)] by simp
  ultimately show ?thesis by (simp add: sint_small)
qed

lemma ring_push_slot:
  assumes s: "ring_slots idx n" and r: "ring_rep idx n h t view xs" and "length xs < n"
  shows "view (idx h) = None" and "ring_rep idx n (h + 1) t (view(idx h := Some x)) (xs @ [x])"
proof -
  note rd = ring_repD [OF r]
  show "view (idx h) = None" using rd(2) rd(3) [OF assms(3)] by simp
  show "ring_rep idx n (h + 1) t (view(idx h := Some x)) (xs @ [x])"
    unfolding ring_rep_def
  proof (intro conjI allI impI)
    fix j assume j: "j < n"
    show "(view(idx h := Some x)) (idx (t + of_nat j)) = (if j < length (xs @ [x]) then Some ((xs @ [x]) ! j) else None)"
    proof (cases "j = length xs")
      case True
      then show ?thesis using rd(2) by simp
    next
      case False
      then have "idx (t + of_nat j) \<noteq> idx h"
        using ring_slotsD(5) [OF s j assms(3), of t] rd(2) by auto
      then show ?thesis using rd(3) [OF j] False by (auto simp: nth_append less_Suc_eq)
    qed
  qed (use rd assms(3) in simp_all)
qed

lemma ring_pop_slot:
  assumes s: "ring_slots idx n" and r: "ring_rep idx n h t view (x # xs)"
  shows "view (idx t) = Some x" and "ring_rep idx n h (t + 1) (view(idx t := None)) xs"
proof -
  note rd = ring_repD [OF r] and n0 = ring_slotsD(1) [OF s]
  show "view (idx t) = Some x" using rd(3) [OF n0] by simp
  show "ring_rep idx n h (t + 1) (view(idx t := None)) xs"
    unfolding ring_rep_def
  proof (intro conjI allI impI)
    fix j assume j: "j < n"
    have shift: "t + 1 + of_nat j = t + of_nat (Suc j)" by simp
    show "(view(idx t := None)) (idx (t + 1 + of_nat j)) = (if j < length xs then Some (xs ! j) else None)"
    proof (cases "Suc j = n")
      case True
      then have "idx (t + 1 + of_nat j) = idx t" unfolding shift using ring_slotsD(4) [OF s, of t] by simp
      then show ?thesis using True rd(1) by simp
    next
      case False
      then have sj: "Suc j < n" using j by simp
      have "idx (t + of_nat (Suc j)) \<noteq> idx t"
        using ring_slotsD(5) [OF s sj n0, of t] by auto
      then show ?thesis unfolding shift using rd(3) [OF sj] by simp
    qed
  qed (use rd in simp_all)
qed

section \<open>The contract of a bounded queue\<close>

lemma retry_push_stuck:
  assumes "t q = Some (False, q)"
  shows "retry_push t q = None"
proof (rule ccontr)
  assume "retry_push t q \<noteq> None"
  then obtain r where ret: "retry_push t q = Some r" by auto
  have "t q \<noteq> Some (False, q)"
    by (rule retry_push.raw_induct [where P = "\<lambda>t q r. t q \<noteq> Some (False, q)", OF _ ret]) auto
  with assms show False by simp
qed

lemma retry_pop_stuck:
  assumes "t q = Some (None, q)"
  shows "retry_pop t q = None"
proof (rule ccontr)
  assume "retry_pop t q \<noteq> None"
  then obtain r where ret: "retry_pop t q = Some r" by auto
  have "t q \<noteq> Some (None, q)"
    by (rule retry_pop.raw_induct [where P = "\<lambda>t q r. t q \<noteq> Some (None, q)", OF _ ret]) auto
  with assms show False by simp
qed

text \<open>A sequence of calls with their answers, on a queue and on the bounded list it stands for.\<close>

datatype 'a queue_call = Try_push 'a | Try_pop

datatype 'a queue_answer = Pushed bool | Popped "'a option"

fun queue_run :: "('a \<Rightarrow> 'q \<Rightarrow> (bool \<times> 'q) option) \<Rightarrow> ('q \<Rightarrow> ('a option \<times> 'q) option) \<Rightarrow>
    'a queue_call list \<Rightarrow> 'q \<Rightarrow> ('a queue_answer list \<times> 'q) option" where
  "queue_run tpush tpop [] q = Some ([], q)"
| "queue_run tpush tpop (Try_push x # cs) q =
     (case tpush x q of None \<Rightarrow> None
      | Some (ok, q) \<Rightarrow> map_option (\<lambda>(as, q). (Pushed ok # as, q)) (queue_run tpush tpop cs q))"
| "queue_run tpush tpop (Try_pop # cs) q =
     (case tpop q of None \<Rightarrow> None
      | Some (r, q) \<Rightarrow> map_option (\<lambda>(as, q). (Popped r # as, q)) (queue_run tpush tpop cs q))"

fun bounded_run :: "nat \<Rightarrow> 'a queue_call list \<Rightarrow> 'a list \<Rightarrow> 'a queue_answer list \<times> 'a list" where
  "bounded_run n [] xs = ([], xs)"
| "bounded_run n (Try_push x # cs) xs =
     (let (as, ys) = bounded_run n cs (if length xs < n then xs @ [x] else xs) in (Pushed (length xs < n) # as, ys))"
| "bounded_run n (Try_pop # cs) xs =
     (let (as, ys) = bounded_run n cs (drop 1 xs) in (Popped (if xs = [] then None else Some (hd xs)) # as, ys))"

text \<open>The queue answers every sequence of calls as the bounded list would, and holds what that holds.\<close>

definition runs_as_fifo ::
    "('a \<Rightarrow> 'q \<Rightarrow> (bool \<times> 'q) option) \<Rightarrow> ('q \<Rightarrow> ('a option \<times> 'q) option) \<Rightarrow> ('q \<Rightarrow> 'a list \<Rightarrow> bool) \<Rightarrow>
     nat \<Rightarrow> 'a queue_call list \<Rightarrow> 'q \<Rightarrow> bool" where
  "runs_as_fifo tpush tpop rep n cs q \<longleftrightarrow>
     (\<exists>q'. queue_run tpush tpop cs q = Some (fst (bounded_run n cs []), q') \<and> rep q' (snd (bounded_run n cs [])))"

locale bounded_fifo =
  fixes tpush :: "'a \<Rightarrow> 'q \<Rightarrow> (bool \<times> 'q) option"
    and tpop :: "'q \<Rightarrow> ('a option \<times> 'q) option"
    and rep :: "'q \<Rightarrow> 'a list \<Rightarrow> bool"
    and cap :: "'q \<Rightarrow> nat"
    and valid :: "'a \<Rightarrow> bool"
  assumes rep_cap: "rep q xs \<Longrightarrow> length xs \<le> cap q"
    and push_room: "rep q xs \<Longrightarrow> valid x \<Longrightarrow> length xs < cap q \<Longrightarrow>
      \<exists>q'. tpush x q = Some (True, q') \<and> rep q' (xs @ [x]) \<and> cap q' = cap q"
    and push_full: "rep q xs \<Longrightarrow> length xs = cap q \<Longrightarrow> tpush x q = Some (False, q)"
    and pop_item: "rep q (x # xs) \<Longrightarrow> \<exists>q'. tpop q = Some (Some x, q') \<and> rep q' xs \<and> cap q' = cap q"
    and pop_none: "rep q [] \<Longrightarrow> tpop q = Some (None, q)"
begin

lemma push_call:
  assumes "rep q xs" and "valid x"
  shows "\<exists>q'. tpush x q = Some (length xs < cap q, q') \<and> rep q' (if length xs < cap q then xs @ [x] else xs) \<and> cap q' = cap q"
  using push_room [OF assms] push_full [OF assms(1)] rep_cap [OF assms(1)] assms(1) by (cases "length xs < cap q") auto

lemma pop_call:
  assumes "rep q xs"
  shows "\<exists>q'. tpop q = Some (if xs = [] then None else Some (hd xs), q') \<and> rep q' (drop 1 xs) \<and> cap q' = cap q"
  using assms pop_item pop_none by (cases xs) auto

lemma run_refines:
  "rep q xs \<Longrightarrow> (\<And>x. Try_push x \<in> set cs \<Longrightarrow> valid x) \<Longrightarrow>
   \<exists>q'. queue_run tpush tpop cs q = Some (fst (bounded_run (cap q) cs xs), q') \<and> rep q' (snd (bounded_run (cap q) cs xs))"
proof (induction cs arbitrary: q xs)
  case (Cons c cs)
  show ?case
  proof (cases c)
    case (Try_push x)
    obtain q1 where q1: "tpush x q = Some (length xs < cap q, q1)" "rep q1 (if length xs < cap q then xs @ [x] else xs)"
      "cap q1 = cap q" using push_call [OF Cons.prems(1), of x] Cons.prems(2) Try_push by auto
    show ?thesis using Cons.IH [OF q1(2)] Cons.prems(2) q1 Try_push
      by (auto simp: case_prod_unfold Let_def)
  next
    case Try_pop
    obtain q1 where q1: "tpop q = Some (if xs = [] then None else Some (hd xs), q1)" "rep q1 (drop 1 xs)" "cap q1 = cap q"
      using pop_call [OF Cons.prems(1)] by blast
    show ?thesis using Cons.IH [OF q1(2)] Cons.prems(2) q1 Try_pop
      by (auto simp: case_prod_unfold Let_def)
  qed
qed simp

lemma fifo:
  assumes "rep q []" and "\<And>x. Try_push x \<in> set cs \<Longrightarrow> valid x" and "cap q = n"
  shows "runs_as_fifo tpush tpop rep n cs q"
  using run_refines [OF assms(1,2)] assms(3) by (simp add: runs_as_fifo_def)

text \<open>The loops of the decorator return exactly when there is room or an item.\<close>

lemma retry_push_room:
  assumes "rep q xs" and "valid x" and "length xs < cap q"
  shows "\<exists>q'. retry_push (tpush x) q = Some q' \<and> rep q' (xs @ [x])"
  using push_room [OF assms] by (subst retry_push.simps) auto

lemma retry_push_full:
  assumes "rep q xs" and "length xs = cap q"
  shows "retry_push (tpush x) q = None"
  using push_full [OF assms] by (rule retry_push_stuck)

lemma retry_pop_item:
  assumes "rep q (x # xs)"
  shows "\<exists>q'. retry_pop tpop q = Some (x, q') \<and> rep q' xs"
  using pop_item [OF assms] by (subst retry_pop.simps) auto

lemma retry_pop_empty:
  assumes "rep q []"
  shows "retry_pop tpop q = None"
  using pop_none [OF assms] by (rule retry_pop_stuck)

end

section \<open>The queues keep the contract\<close>

definition queue_ok :: "nat \<Rightarrow> 'a aqueue \<Rightarrow> bool" where
  "queue_ok b q \<longleftrightarrow> (\<exists>k<31. 2 * b \<le> k \<and> M_size q = 2 ^ k) \<and> length (M_elements q) = unat (M_size q)"

definition atomic_view :: "'a \<Rightarrow> 'a aqueue \<Rightarrow> nat \<Rightarrow> 'a option" where
  "atomic_view nil q i = (if M_elements q ! i = nil then None else Some (M_elements q ! i))"

definition any_view :: "'a aqueue \<Rightarrow> nat \<Rightarrow> 'a option" where
  "any_view q i = (if M_states q ! i = STORED then Some (M_elements q ! i) else None)"

definition atomic_rep :: "'a \<Rightarrow> nat \<Rightarrow> 'a aqueue \<Rightarrow> 'a list \<Rightarrow> bool" where
  "atomic_rep nil b q xs \<longleftrightarrow> queue_ok b q \<and>
     ring_rep (slot_mod b (M_size q)) (unat (M_size q)) (M_head q) (M_tail q) (atomic_view nil q) xs"

definition any_rep :: "nat \<Rightarrow> 'a aqueue \<Rightarrow> 'a list \<Rightarrow> bool" where
  "any_rep b q xs \<longleftrightarrow> queue_ok b q \<and> length (M_states q) = unat (M_size q) \<and>
     set (M_states q) \<subseteq> {EMPTY, STORED} \<and>
     ring_rep (slot_mod b (M_size q)) (unat (M_size q)) (M_head q) (M_tail q) (any_view q) xs"

definition queue_cap :: "'a aqueue \<Rightarrow> nat" where
  "queue_cap q = unat (M_size q)"

lemma queue_ok_slots:
  assumes "queue_ok b q"
  shows "ring_slots (slot_mod b (M_size q)) (queue_cap q)" and "slot_and b (M_size q) = slot_mod b (M_size q)"
    and "sint (M_size q) = int (queue_cap q)"
proof -
  obtain k where k: "k < 31" "2 * b \<le> k" "M_size q = 2 ^ k" using assms by (auto simp: queue_ok_def)
  have c: "queue_cap q = 2 ^ k" using k by (simp add: queue_cap_def unat_two_power)
  show "ring_slots (slot_mod b (M_size q)) (queue_cap q)" "slot_and b (M_size q) = slot_mod b (M_size q)"
    using slot_power [OF k(2,1)] k(3) c by simp_all
  then have "queue_cap q < 2 ^ 31" using ring_slotsD(2) by blast
  moreover have "M_size q = of_nat (queue_cap q)" by (simp add: queue_cap_def)
  ultimately show "sint (M_size q) = int (queue_cap q)" using sint_small by metis
qed

lemma queue_ok_frame [simp]:
  "queue_ok b (q\<lparr>M_head := h\<rparr>) = queue_ok b q" "queue_ok b (q\<lparr>M_tail := h\<rparr>) = queue_ok b q"
  "queue_ok b (q\<lparr>M_elements := (M_elements q)[i := x]\<rparr>) = queue_ok b q"
  "queue_ok b (q\<lparr>M_states := ss\<rparr>) = queue_ok b q"
  by (simp_all add: queue_ok_def)

lemma atomic_push:
  assumes "atomic_rep nil b q xs" and "length xs < queue_cap q" and "x \<noteq> nil"
  shows "\<exists>q'. do_push_atomic nil x (slot_mod b (M_size q) (M_head q)) (q\<lparr>M_head := M_head q + 1\<rparr>) = Some q' \<and>
    atomic_rep nil b q' (xs @ [x]) \<and> queue_cap q' = queue_cap q"
proof -
  let ?i = "slot_mod b (M_size q) (M_head q)"
  let ?q = "q\<lparr>M_head := M_head q + 1, M_elements := (M_elements q)[?i := x]\<rparr>"
  have ok: "queue_ok b q" and r: "ring_rep (slot_mod b (M_size q)) (queue_cap q) (M_head q) (M_tail q) (atomic_view nil q) xs"
    using assms(1) by (simp_all add: atomic_rep_def queue_cap_def)
  note sl = queue_ok_slots(1) [OF ok]
  note push = ring_push_slot [OF sl r assms(2)]
  have i: "?i < length (M_elements q)" using ring_slotsD(3) [OF sl] ok by (simp add: queue_ok_def queue_cap_def)
  have "atomic_view nil ?q = (atomic_view nil q)(?i := Some x)"
    using i assms(3) by (intro ext) (simp add: atomic_view_def nth_list_update)
  then have "atomic_rep nil b ?q (xs @ [x])"
    using push(2) [of x] ok by (simp add: atomic_rep_def queue_cap_def queue_ok_def)
  moreover have "M_elements q ! ?i = nil" using push(1) by (simp add: atomic_view_def split: if_splits)
  then have "do_push_atomic nil x ?i (q\<lparr>M_head := M_head q + 1\<rparr>) = Some ?q"
    using assms(3) by (simp add: do_push_atomic_def)
  ultimately show ?thesis by (auto simp: queue_cap_def)
qed

lemma atomic_pop:
  assumes "atomic_rep nil b q (x # xs)"
  shows "\<exists>q'. do_pop_atomic nil (slot_mod b (M_size q) (M_tail q)) (q\<lparr>M_tail := M_tail q + 1\<rparr>) = Some (x, q') \<and>
    atomic_rep nil b q' xs \<and> queue_cap q' = queue_cap q"
proof -
  let ?i = "slot_mod b (M_size q) (M_tail q)"
  let ?q = "q\<lparr>M_tail := M_tail q + 1, M_elements := (M_elements q)[?i := nil]\<rparr>"
  have ok: "queue_ok b q" and r: "ring_rep (slot_mod b (M_size q)) (queue_cap q) (M_head q) (M_tail q) (atomic_view nil q) (x # xs)"
    using assms by (simp_all add: atomic_rep_def queue_cap_def)
  note sl = queue_ok_slots(1) [OF ok]
  note pop = ring_pop_slot [OF sl r]
  have i: "?i < length (M_elements q)" using ring_slotsD(3) [OF sl] ok by (simp add: queue_ok_def queue_cap_def)
  have "atomic_view nil ?q = (atomic_view nil q)(?i := None)"
    using i by (intro ext) (simp add: atomic_view_def nth_list_update)
  then have "atomic_rep nil b ?q xs"
    using pop(2) ok by (simp add: atomic_rep_def queue_cap_def queue_ok_def)
  moreover have "M_elements q ! ?i = x" "x \<noteq> nil" using pop(1) by (auto simp: atomic_view_def split: if_splits)
  then have "do_pop_atomic nil ?i (q\<lparr>M_tail := M_tail q + 1\<rparr>) = Some (x, ?q)"
    by (simp add: do_pop_atomic_def Let_def)
  ultimately show ?thesis by (auto simp: queue_cap_def)
qed

lemma any_push:
  assumes "any_rep b q xs" and "length xs < queue_cap q"
  shows "\<exists>q'. do_push_any x (slot_mod b (M_size q) (M_head q)) (q\<lparr>M_head := M_head q + 1\<rparr>) = Some q' \<and>
    any_rep b q' (xs @ [x]) \<and> queue_cap q' = queue_cap q"
proof -
  let ?i = "slot_mod b (M_size q) (M_head q)"
  let ?q = "q\<lparr>M_head := M_head q + 1, M_elements := (M_elements q)[?i := x], M_states := (M_states q)[?i := STORED]\<rparr>"
  have ok: "queue_ok b q" and st: "length (M_states q) = queue_cap q" "set (M_states q) \<subseteq> {EMPTY, STORED}"
    and r: "ring_rep (slot_mod b (M_size q)) (queue_cap q) (M_head q) (M_tail q) (any_view q) xs"
    using assms(1) by (simp_all add: any_rep_def queue_cap_def)
  note sl = queue_ok_slots(1) [OF ok]
  note push = ring_push_slot [OF sl r assms(2)]
  have i: "?i < length (M_elements q)" "?i < length (M_states q)"
    using ring_slotsD(3) [OF sl] ok st(1) by (simp_all add: queue_ok_def queue_cap_def)
  have "any_view ?q = (any_view q)(?i := Some x)"
    using i by (intro ext) (simp add: any_view_def nth_list_update)
  moreover have "set ((M_states q)[?i := STORED]) \<subseteq> {EMPTY, STORED}"
    using st(2) set_update_subset_insert [of "M_states q" ?i STORED] by auto
  ultimately have "any_rep b ?q (xs @ [x])"
    using push(2) [of x] ok st(1) by (simp add: any_rep_def queue_cap_def queue_ok_def)
  moreover have "M_states q ! ?i \<noteq> STORED" using push(1) by (simp add: any_view_def split: if_splits)
  then have "M_states q ! ?i = EMPTY" using st(2) nth_mem [OF i(2)] by auto
  then have "do_push_any x ?i (q\<lparr>M_head := M_head q + 1\<rparr>) = Some ?q" by (simp add: do_push_any_def)
  ultimately show ?thesis by (auto simp: queue_cap_def)
qed

lemma any_pop:
  assumes "any_rep b q (x # xs)"
  shows "\<exists>q'. do_pop_any moved (slot_mod b (M_size q) (M_tail q)) (q\<lparr>M_tail := M_tail q + 1\<rparr>) = Some (x, q') \<and>
    any_rep b q' xs \<and> queue_cap q' = queue_cap q"
proof -
  let ?i = "slot_mod b (M_size q) (M_tail q)"
  let ?q = "q\<lparr>M_tail := M_tail q + 1, M_elements := (M_elements q)[?i := moved x], M_states := (M_states q)[?i := EMPTY]\<rparr>"
  have ok: "queue_ok b q" and st: "length (M_states q) = queue_cap q" "set (M_states q) \<subseteq> {EMPTY, STORED}"
    and r: "ring_rep (slot_mod b (M_size q)) (queue_cap q) (M_head q) (M_tail q) (any_view q) (x # xs)"
    using assms(1) by (simp_all add: any_rep_def queue_cap_def)
  note sl = queue_ok_slots(1) [OF ok]
  note pop = ring_pop_slot [OF sl r]
  have i: "?i < length (M_elements q)" "?i < length (M_states q)"
    using ring_slotsD(3) [OF sl] ok st(1) by (simp_all add: queue_ok_def queue_cap_def)
  have "any_view ?q = (any_view q)(?i := None)"
    using i by (intro ext) (simp add: any_view_def nth_list_update)
  moreover have "set ((M_states q)[?i := EMPTY]) \<subseteq> {EMPTY, STORED}"
    using st(2) set_update_subset_insert [of "M_states q" ?i EMPTY] by auto
  ultimately have "any_rep b ?q xs"
    using pop(2) ok st(1) by (simp add: any_rep_def queue_cap_def queue_ok_def)
  moreover have "M_states q ! ?i = STORED" "M_elements q ! ?i = x"
    using pop(1) by (auto simp: any_view_def split: if_splits)
  then have "do_pop_any moved ?i (q\<lparr>M_tail := M_tail q + 1\<rparr>) = Some (x, ?q)"
    by (simp add: do_pop_any_def Let_def)
  ultimately show ?thesis by (auto simp: queue_cap_def)
qed

text \<open>The checks of \<open>try_push\<close> and \<open>try_pop\<close> decide whether there is room or an item.\<close>

lemma try_checks:
  assumes "queue_ok b q" and "ring_rep (slot_mod b (M_size q)) (queue_cap q) (M_head q) (M_tail q) view xs"
  shows "sint (M_head q - M_tail q) \<ge> sint (M_size q) \<longleftrightarrow> length xs = queue_cap q"
    and "sint (M_head q - M_tail q) \<le> 0 \<longleftrightarrow> xs = []"
  using ring_distance [OF queue_ok_slots(1) [OF assms(1)] assms(2)] queue_ok_slots(3) [OF assms(1)]
    ring_repD(1) [OF assms(2)] by auto

text \<open>
  The laws for any class whose \<open>do_push\<close> and \<open>do_pop\<close> use the slot of the counter: the two kinds
  of slots, each with its representation.
\<close>

lemma queue_fifo:
  assumes rep: "\<And>q xs. rep q xs \<Longrightarrow> queue_ok b q \<and>
      ring_rep (slot_mod b (M_size q)) (queue_cap q) (M_head q) (M_tail q) (view q) xs"
    and dpush: "\<And>q xs x. rep q xs \<Longrightarrow> valid x \<Longrightarrow> length xs < queue_cap q \<Longrightarrow>
      \<exists>q'. dpush x (M_head q) (q\<lparr>M_head := M_head q + 1\<rparr>) = Some q' \<and> rep q' (xs @ [x]) \<and> queue_cap q' = queue_cap q"
    and dpop: "\<And>q xs x. rep q (x # xs) \<Longrightarrow>
      \<exists>q'. dpop (M_tail q) (q\<lparr>M_tail := M_tail q + 1\<rparr>) = Some (x, q') \<and> rep q' xs \<and> queue_cap q' = queue_cap q"
  shows "bounded_fifo (\<lambda>x. try_push (dpush x)) (try_pop dpop) rep queue_cap valid"
proof unfold_locales
  show "length xs \<le> queue_cap q" if "rep q xs" for q xs using rep [OF that] ring_repD(1) by blast
next
  fix q xs x assume r: "rep q xs"
  then have ck: "sint (M_head q - M_tail q) \<ge> sint (M_size q) \<longleftrightarrow> length xs = queue_cap q"
    using rep try_checks(1) by blast
  show "\<exists>q'. try_push (dpush x) q = Some (True, q') \<and> rep q' (xs @ [x]) \<and> queue_cap q' = queue_cap q"
    if "valid x" "length xs < queue_cap q"
    using dpush [OF r that] that(2) ck by (auto simp: try_push_def Let_def)
  show "try_push (dpush x) q = Some (False, q)" if "length xs = queue_cap q"
    using that ck by (simp add: try_push_def Let_def)
next
  fix q x xs assume r: "rep q (x # xs)"
  then have "\<not> sint (M_head q - M_tail q) \<le> 0" using rep try_checks(2) by blast
  then show "\<exists>q'. try_pop dpop q = Some (Some x, q') \<and> rep q' xs \<and> queue_cap q' = queue_cap q"
    using dpop [OF r] by (auto simp: try_pop_def Let_def)
next
  fix q assume "rep q []"
  then have "sint (M_head q - M_tail q) \<le> 0" using rep try_checks(2) by blast
  then show "try_pop dpop q = Some (None, q)" by (simp add: try_pop_def Let_def)
qed

lemma atomic_rep_ring:
  "atomic_rep nil b q xs \<Longrightarrow> queue_ok b q \<and>
     ring_rep (slot_mod b (M_size q)) (queue_cap q) (M_head q) (M_tail q) (atomic_view nil q) xs"
  by (simp add: atomic_rep_def queue_cap_def)

lemma any_rep_ring:
  "any_rep b q xs \<Longrightarrow> queue_ok b q \<and>
     ring_rep (slot_mod b (M_size q)) (queue_cap q) (M_head q) (M_tail q) (any_view q) xs"
  by (simp add: any_rep_def queue_cap_def)

lemmas queue_do_defs = AtomicQueue_do_push_def AtomicQueue_do_pop_def AtomicQueueB_do_push_def
  AtomicQueueB_do_pop_def AtomicQueue2_do_push_def AtomicQueue2_do_pop_def AtomicQueueB2_do_push_def
  AtomicQueueB2_do_pop_def

lemma slot_and_rep:
  "atomic_rep nil b q xs \<Longrightarrow> slot_and b (M_size q) = slot_mod b (M_size q)"
  "any_rep b q xs \<Longrightarrow> slot_and b (M_size q) = slot_mod b (M_size q)"
  by (rule queue_ok_slots(2), simp add: atomic_rep_def any_rep_def)+

interpretation aq: bounded_fifo "\<lambda>x. try_push (AtomicQueue_do_push nil b x)" "try_pop (AtomicQueue_do_pop nil b)"
    "atomic_rep nil b" queue_cap "\<lambda>x. x \<noteq> nil"
  by (rule queue_fifo [OF atomic_rep_ring]) (simp_all add: queue_do_defs atomic_push atomic_pop)

interpretation aqb: bounded_fifo "\<lambda>x. try_push (AtomicQueueB_do_push nil b x)" "try_pop (AtomicQueueB_do_pop nil b)"
    "atomic_rep nil b" queue_cap "\<lambda>x. x \<noteq> nil"
  by (rule queue_fifo [OF atomic_rep_ring]) (simp_all add: queue_do_defs slot_and_rep atomic_push atomic_pop)

interpretation aq2: bounded_fifo "\<lambda>x. try_push (AtomicQueue2_do_push b x)" "try_pop (AtomicQueue2_do_pop moved b)"
    "any_rep b" queue_cap "\<lambda>_. True"
  by (rule queue_fifo [OF any_rep_ring]) (simp_all add: queue_do_defs any_push any_pop)

interpretation aqb2: bounded_fifo "\<lambda>x. try_push (AtomicQueueB2_do_push b x)" "try_pop (AtomicQueueB2_do_pop moved b)"
    "any_rep b" queue_cap "\<lambda>_. True"
  by (rule queue_fifo [OF any_rep_ring]) (simp_all add: queue_do_defs slot_and_rep any_push any_pop)

section \<open>Construction\<close>

lemma queue_cap_capacity: "queue_cap q = unat (capacity q)"
  by (simp add: queue_cap_def capacity_def)

lemma ring_rep_new: "(\<And>i. i < n \<Longrightarrow> view i = None) \<Longrightarrow> (\<And>h. idx h < n) \<Longrightarrow> ring_rep idx n 0 0 view []"
  by (simp add: ring_rep_def)

lemma new_atomic_rep:
  assumes "k < 31" and "2 * b \<le> k"
  shows "atomic_rep nil b \<lparr>M_head = 0, M_tail = 0, M_size = 2 ^ k, M_states = ss,
    M_elements = replicate (unat (2 ^ k :: u32)) nil\<rparr> []" (is "atomic_rep nil b ?q []")
proof -
  have ok: "queue_ok b ?q" using assms by (auto simp: queue_ok_def)
  have "ring_rep (slot_mod b (M_size ?q)) (queue_cap ?q) 0 0 (atomic_view nil ?q) []"
    using ring_slotsD(3) [OF queue_ok_slots(1) [OF ok]]
    by (intro ring_rep_new) (simp_all add: atomic_view_def queue_cap_def)
  then show ?thesis using ok by (simp add: atomic_rep_def queue_cap_def)
qed

lemma new_any_rep:
  assumes "k < 31" and "2 * b \<le> k"
  shows "any_rep b \<lparr>M_head = 0, M_tail = 0, M_size = 2 ^ k, M_states = replicate (unat (2 ^ k :: u32)) EMPTY,
    M_elements = replicate (unat (2 ^ k :: u32)) v\<rparr> []" (is "any_rep b ?q []")
proof -
  have ok: "queue_ok b ?q" using assms by (auto simp: queue_ok_def)
  have "ring_rep (slot_mod b (M_size ?q)) (queue_cap ?q) 0 0 (any_view ?q) []"
    using ring_slotsD(3) [OF queue_ok_slots(1) [OF ok]]
    by (intro ring_rep_new) (simp_all add: any_view_def queue_cap_def)
  then show ?thesis using ok by (auto simp: any_rep_def queue_cap_def)
qed

lemma max_power: "max ((2 :: u32) ^ k) (2 ^ j) = 2 ^ max k j" if "k < 32" "j < 32"
proof (cases "k \<le> j")
  case True
  have "(2 :: u32) ^ k \<le> 2 ^ j" using that True by (simp add: word_le_nat_alt unat_two_power)
  with True show ?thesis by (simp add: max_def)
next
  case False
  then have "\<not> (2 :: u32) ^ k \<le> 2 ^ j" using that by (simp add: word_le_nat_alt unat_two_power)
  with False show ?thesis by (simp add: max_def)
qed

lemma NextPowerOfTwo_small:
  assumes "unat (x :: u32) \<le> 2 ^ 30"
  shows "\<exists>k<31. NextPowerOfTwo x = Some (2 ^ k) \<and> unat x \<le> 2 ^ k"
proof -
  have "unat x \<le> 2 ^ (LENGTH(32) - 1)" using assms by simp
  then obtain k where k: "NextPowerOfTwo x = Some (2 ^ k)" "unat x \<le> 2 ^ k" "\<forall>j. unat x \<le> 2 ^ j \<longrightarrow> k \<le> j"
    using NextPowerOfTwo_power [of x] by blast
  from k(3) assms have "k \<le> 30" by blast
  then show ?thesis using k(1,2) by (intro exI [of _ k]) simp
qed

text \<open>At most 64 elements fit on a cache line, and the shuffle is switched off for small rings.\<close>

lemma GetIndexShuffleBits_le:
  assumes "k < 31" and "e \<noteq> 0" and "e \<le> 64"
  shows "2 * GetIndexShuffleBits m (2 ^ k) e \<le> k"
proof -
  define b where "b = MSB e"
  have "(2 :: nat) ^ b \<le> 64" using MSB_bounds [OF assms(2)] assms(3) by (simp add: b_def word_le_nat_alt)
  then have "(2 :: nat) ^ b \<le> 2 ^ 6" by simp
  then have b: "b \<le> 6" by (rule power_le_imp_le_exp [rotated]) simp
  have "2 ^ k < (2 :: u32) ^ (b * 2) \<longleftrightarrow> k < b * 2"
    using assms(1) b by (simp add: word_less_nat_alt unat_two_power)
  then show ?thesis
    by (simp add: GetIndexShuffleBits_def GetCacheLineIndexBits_def b_def [symmetric] Let_def push_bit_eq_mult)
qed

lemma AtomicQueue_new:
  assumes "unat SIZE \<le> 2 ^ 30" and "e \<noteq> 0" and "e \<le> 64"
  shows "\<exists>q. AtomicQueue SIZE True nil = Some q \<and> atomic_rep nil (GetIndexShuffleBits True (M_size q) e) q [] \<and>
    unat SIZE \<le> queue_cap q"
proof -
  obtain k where k: "k < 31" "NextPowerOfTwo SIZE = Some (2 ^ k)" "unat SIZE \<le> 2 ^ k"
    using NextPowerOfTwo_small [OF assms(1)] by blast
  then show ?thesis
    using new_atomic_rep [OF k(1) GetIndexShuffleBits_le [OF k(1) assms(2,3), of True], of nil "[]"]
    by (simp add: AtomicQueue_def queue_cap_def unat_two_power)
qed

lemma AtomicQueue2_new:
  assumes "unat SIZE \<le> 2 ^ 30" and "e \<noteq> 0" and "e \<le> 64"
  shows "\<exists>q. AtomicQueue2 SIZE True v = Some q \<and> any_rep (GetIndexShuffleBits True (M_size q) e) q [] \<and>
    unat SIZE \<le> queue_cap q"
proof -
  obtain k where k: "k < 31" "NextPowerOfTwo SIZE = Some (2 ^ k)" "unat SIZE \<le> 2 ^ k"
    using NextPowerOfTwo_small [OF assms(1)] by blast
  then show ?thesis
    using new_any_rep [OF k(1) GetIndexShuffleBits_le [OF k(1) assms(2,3), of True], of v]
    by (simp add: AtomicQueue2_def queue_cap_def unat_two_power)
qed

lemma allocated_size:
  assumes "unat sz \<le> 2 ^ 30" and "b \<le> 15"
  shows "\<exists>p k. NextPowerOfTwo sz = Some p \<and> k < 31 \<and> 2 * b \<le> k \<and> unat sz \<le> 2 ^ k \<and>
    max p (push_bit (b * 2) 1) = (2 ^ k :: u32)"
proof -
  obtain i where i: "i < 31" "NextPowerOfTwo sz = Some (2 ^ i)" "unat sz \<le> 2 ^ i"
    using NextPowerOfTwo_small [OF assms(1)] by blast
  let ?k = "max i (b * 2)"
  have "(2 :: nat) ^ i \<le> 2 ^ ?k" by (rule power_increasing) simp_all
  then have "unat sz \<le> 2 ^ ?k" using i(3) by (rule order_trans [rotated])
  moreover have "max (2 ^ i) (push_bit (b * 2) 1) = (2 ^ ?k :: u32)"
    using max_power [of i "b * 2"] i(1) assms(2) by (simp add: push_bit_eq_mult)
  ultimately show ?thesis using i assms(2) by (intro exI [of _ "2 ^ i"] exI [of _ ?k]) simp
qed

lemma AtomicQueueB_new:
  assumes "unat sz \<le> 2 ^ 30" and "b \<le> 15"
  shows "\<exists>q. AtomicQueueB b sz nil = Some q \<and> atomic_rep nil b q [] \<and> unat sz \<le> queue_cap q"
proof -
  obtain p k where k: "NextPowerOfTwo sz = Some p" "k < 31" "2 * b \<le> k" "unat sz \<le> 2 ^ k"
    "max p (push_bit (b * 2) 1) = (2 ^ k :: u32)" using allocated_size [OF assms] by blast
  then show ?thesis
    using new_atomic_rep [OF k(2,3), of nil "[]"] by (simp add: AtomicQueueB_def Let_def queue_cap_def unat_two_power)
qed

lemma AtomicQueueB2_new:
  assumes "unat sz \<le> 2 ^ 30" and "b \<le> 15"
  shows "\<exists>q. AtomicQueueB2 b sz v = Some q \<and> any_rep b q [] \<and> unat sz \<le> queue_cap q"
proof -
  obtain p k where k: "NextPowerOfTwo sz = Some p" "k < 31" "2 * b \<le> k" "unat sz \<le> 2 ^ k"
    "max p (push_bit (b * 2) 1) = (2 ^ k :: u32)" using allocated_size [OF assms] by blast
  then show ?thesis
    using new_any_rep [OF k(2,3), of v] by (simp add: AtomicQueueB2_def Let_def queue_cap_def unat_two_power)
qed

lemma was_size_length:
  assumes "queue_ok b q" and "ring_rep (slot_mod b (M_size q)) (queue_cap q) (M_head q) (M_tail q) view xs"
  shows "unat (was_size q) = length xs"
proof -
  have "sint (M_head q - M_tail q) = int (length xs)"
    by (rule ring_distance [OF queue_ok_slots(1) [OF assms(1)] assms(2)])
  moreover have "length xs < 2 ^ 31"
    using ring_repD(1) [OF assms(2)] ring_slotsD(2) [OF queue_ok_slots(1) [OF assms(1)]] by simp
  ultimately show ?thesis by (simp add: was_size_def unsigned_of_nat take_bit_nat_eq_self)
qed

section \<open>Properties\<close>

text \<open>
  C28. The queues of static size, \<open>AtomicQueue\<close> and \<open>AtomicQueue2\<close>, used by one thread, with the contention
  minimized (the default, \<open>MINIMIZE_CONTENTION = true\<close>) and at most \<open>2 ^ 30\<close> elements asked for: a new queue has room for at
  least that many, and every sequence of \<open>try_push\<close> and \<open>try_pop\<close> is answered as by a list of that capacity, first in,
  first out, a push refused exactly when it is full and a pop exactly when it is empty, however often the ring and its counters
  go round. The slots are shuffled for the given number of elements per cache line; \<open>AtomicQueue\<close> stores no \<open>NIL\<close>.
\<close>

theorem static_queue_fifo:
  assumes "unat SIZE \<le> 2 ^ 30" and "e \<noteq> 0" and "e \<le> 64" and "Try_push nil \<notin> set cs"
  shows "(\<exists>q b. AtomicQueue SIZE True nil = Some q \<and> b = GetIndexShuffleBits True (M_size q) e \<and> SIZE \<le> capacity q \<and>
      runs_as_fifo (\<lambda>x. try_push (AtomicQueue_do_push nil b x)) (try_pop (AtomicQueue_do_pop nil b)) (atomic_rep nil b)
        (unat (capacity q)) cs q) \<and>
    (\<exists>q b. AtomicQueue2 SIZE True v = Some q \<and> b = GetIndexShuffleBits True (M_size q) e \<and> SIZE \<le> capacity q \<and>
      runs_as_fifo (\<lambda>x. try_push (AtomicQueue2_do_push b x)) (try_pop (AtomicQueue2_do_pop moved b)) (any_rep b)
        (unat (capacity q)) ds q)"
proof -
  obtain q where q: "AtomicQueue SIZE True nil = Some q" "atomic_rep nil (GetIndexShuffleBits True (M_size q) e) q []"
    "unat SIZE \<le> queue_cap q" using AtomicQueue_new [OF assms(1-3), of nil] by auto
  obtain p where p: "AtomicQueue2 SIZE True v = Some p" "any_rep (GetIndexShuffleBits True (M_size p) e) p []"
    "unat SIZE \<le> queue_cap p" using AtomicQueue2_new [OF assms(1-3), of v] by auto
  have v: "x \<noteq> nil" if "Try_push x \<in> set cs" for x using that assms(4) by blast
  show ?thesis using q(1,3) p(1,3) aq.fifo [OF q(2) v queue_cap_capacity] aq2.fifo [OF p(2) TrueI queue_cap_capacity]
    by (simp add: word_le_nat_alt queue_cap_capacity)
qed

text \<open>A queue of one slot that goes through four pushes and three pops, with one of each refused.\<close>

theorem static_queue_fifo_witness:
  "\<exists>q b. AtomicQueue 1 True 0 = Some q \<and> b = GetIndexShuffleBits True (M_size q) 16 \<and> capacity q = 1 \<and>
    (\<exists>q'. queue_run (\<lambda>x. try_push (AtomicQueue_do_push 0 b x)) (try_pop (AtomicQueue_do_pop 0 b))
       [Try_push 5, Try_push 6, Try_pop, Try_push 7, Try_pop, Try_pop, Try_push 8] q =
       Some ([Pushed True, Pushed False, Popped (Some 5), Pushed True, Popped (Some (7 :: nat)), Popped None, Pushed True], q') \<and>
       atomic_rep 0 b q' [8])"
proof -
  have "capacity q = 1" if "AtomicQueue 1 True (0 :: nat) = Some q" for q
  proof -
    have "AtomicQueue 1 True (0 :: nat) =
        Some \<lparr>M_head = 0, M_tail = 0, M_size = 1, M_states = [], M_elements = [0]\<rparr>" by code_simp
    then show ?thesis using that by (auto simp: capacity_def)
  qed
  moreover have "Try_push 0 \<notin> set [Try_push 5, Try_push 6, Try_pop, Try_push (7 :: nat), Try_pop, Try_pop, Try_push 8]" by simp
  note static_queue_fifo [of 1 16, OF _ _ _ this, THEN conjunct1, unfolded runs_as_fifo_def]
  ultimately show ?thesis by fastforce
qed

text \<open>
  The same for the allocated queues \<open>AtomicQueueB\<close> and \<open>AtomicQueueB2\<close>, whose size is at
  least the square of the number of elements per cache line.
\<close>

theorem allocated_queue_fifo:
  assumes "unat sz \<le> 2 ^ 30" and "b \<le> 15" and "Try_push nil \<notin> set cs"
  shows "(\<exists>q. AtomicQueueB b sz nil = Some q \<and> sz \<le> capacity q \<and>
      runs_as_fifo (\<lambda>x. try_push (AtomicQueueB_do_push nil b x)) (try_pop (AtomicQueueB_do_pop nil b)) (atomic_rep nil b)
        (unat (capacity q)) cs q) \<and>
    (\<exists>q. AtomicQueueB2 b sz v = Some q \<and> sz \<le> capacity q \<and>
      runs_as_fifo (\<lambda>x. try_push (AtomicQueueB2_do_push b x)) (try_pop (AtomicQueueB2_do_pop moved b)) (any_rep b)
        (unat (capacity q)) ds q)"
proof -
  obtain q where q: "AtomicQueueB b sz nil = Some q" "atomic_rep nil b q []" "unat sz \<le> queue_cap q"
    using AtomicQueueB_new [OF assms(1,2), of nil] by auto
  obtain p where p: "AtomicQueueB2 b sz v = Some p" "any_rep b p []" "unat sz \<le> queue_cap p"
    using AtomicQueueB2_new [OF assms(1,2), of v] by auto
  have v: "x \<noteq> nil" if "Try_push x \<in> set cs" for x using that assms(3) by blast
  show ?thesis using q(1,3) p(1,3) aqb.fifo [OF q(2) v queue_cap_capacity] aqb2.fifo [OF p(2) TrueI queue_cap_capacity]
    by (simp add: word_le_nat_alt queue_cap_capacity)
qed

text \<open>
  The decorator on a queue with \<open>xs\<close> in it: \<open>push\<close> returns with the element appended
  exactly when there is room, \<open>pop\<close> returns the first element exactly when there is one;
  \<open>was_size\<close>, \<open>was_empty\<close> and \<open>was_full\<close> report the number of elements.
\<close>

theorem retry_decorator:
  assumes "any_rep b q xs"
  shows "(length xs < unat (capacity q) \<longleftrightarrow>
      (\<exists>q'. retry_push (try_push (AtomicQueueB2_do_push b x)) q = Some q' \<and> any_rep b q' (xs @ [x]))) \<and>
    (case xs of [] \<Rightarrow> retry_pop (try_pop (AtomicQueueB2_do_pop moved b)) q = None
     | y # ys \<Rightarrow> \<exists>q'. retry_pop (try_pop (AtomicQueueB2_do_pop moved b)) q = Some (y, q') \<and> any_rep b q' ys) \<and>
    unat (was_size q) = length xs \<and> (was_empty q \<longleftrightarrow> xs = []) \<and> (was_full q \<longleftrightarrow> length xs = unat (capacity q))"
proof -
  have ok: "queue_ok b q" and r: "ring_rep (slot_mod b (M_size q)) (queue_cap q) (M_head q) (M_tail q) (any_view q) xs"
    using any_rep_ring [OF assms] by simp_all
  have len: "length xs \<le> queue_cap q" by (rule ring_repD(1) [OF r])
  have cap: "unat (capacity q) = queue_cap q" by (simp add: capacity_def queue_cap_def)
  have ws: "unat (was_size q) = length xs" by (rule was_size_length [OF ok r])
  have "was_empty q \<longleftrightarrow> xs = []" using ws by (simp add: was_empty_def unat_eq_0 [symmetric])
  moreover have "was_full q \<longleftrightarrow> length xs = unat (capacity q)"
    using ws len by (auto simp: was_full_def word_le_nat_alt capacity_def queue_cap_def)
  moreover have "length xs < queue_cap q \<longleftrightarrow>
      (\<exists>q'. retry_push (try_push (AtomicQueueB2_do_push b x)) q = Some q' \<and> any_rep b q' (xs @ [x]))"
  proof (cases "length xs < queue_cap q")
    case True
    then show ?thesis using aqb2.retry_push_room [OF assms TrueI True, of x] by simp
  next
    case False
    then have "length xs = queue_cap q" using len by simp
    then show ?thesis using aqb2.retry_push_full [OF assms, of x] False by simp
  qed
  moreover have "case xs of [] \<Rightarrow> retry_pop (try_pop (AtomicQueueB2_do_pop moved b)) q = None
     | y # ys \<Rightarrow> \<exists>q'. retry_pop (try_pop (AtomicQueueB2_do_pop moved b)) q = Some (y, q') \<and> any_rep b q' ys"
    using aqb2.retry_pop_empty aqb2.retry_pop_item assms by (auto split: list.split)
  ultimately show ?thesis using ws cap by simp
qed

theorem retry_decorator_witness:
  "\<exists>q. AtomicQueueB2 3 1000 (0 :: nat) = Some q \<and> was_empty q \<and>
    (\<exists>q'. retry_push (try_push (AtomicQueueB2_do_push 3 7)) q = Some q' \<and> any_rep 3 q' [7])"
proof -
  obtain q where q: "AtomicQueueB2 3 1000 (0 :: nat) = Some q" "any_rep 3 q []" "1000 \<le> queue_cap q"
    using AtomicQueueB2_new [of 1000 3 0] by auto
  show ?thesis using retry_decorator [OF q(2), of 7 id] q by (auto simp: capacity_def queue_cap_def)
qed

text \<open>
  The index shuffle is its own inverse and keeps indices below any power of two that
  is at least the square of the number of elements per line: it permutes the slots.
\<close>

theorem remap_index_permutes:
  assumes "2 * b \<le> k" and "k < 32"
  shows "bij_betw (remap_index b) {x. x < 2 ^ k} {x. x < 2 ^ k} \<and> remap_index b (remap_index b x) = x"
proof -
  have inv: "remap_index b (remap_index b y) = y" for y using assms by (intro remap_index_involution) simp
  then have "bij_betw (remap_index b) {x. x < 2 ^ k} {x. x < 2 ^ k}"
    using remap_index_less [OF assms] by (intro bij_betw_byWitness [where f' = "remap_index b"]) auto
  with inv show ?thesis by blast
qed

theorem remap_index_permutes_witness:
  "bij_betw (remap_index 3) {x. x < 2 ^ 6} {x. x < 2 ^ 6}"
  using remap_index_permutes [of 3 6] by simp

text \<open>
  A static queue without the rounding to a power of two is not a ring of \<open>SIZE\<close> slots when
  the 32-bit counters wrap around: with size 3 the counters \<open>2 ^ 32 - 1\<close> and 0, one apart, have
  the same slot, and a \<open>try_push\<close> on a queue with one element of three never returns.
\<close>

theorem odd_size_wraps:
  "\<exists>q q1. M_size q = 3 \<and> unat (was_size q) = 0 \<and> set (M_states q) = {EMPTY} \<and>
    try_push (AtomicQueue2_do_push (GetIndexShuffleBits False 3 64) (7 :: nat)) q = Some (True, q1) \<and>
    unat (was_size q1) = 1 \<and> try_push (AtomicQueue2_do_push (GetIndexShuffleBits False 3 64) 8) q1 = None"
proof -
  let ?q = "\<lparr>M_head = - 1, M_tail = - 1, M_size = 3, M_states = replicate 3 EMPTY, M_elements = replicate 3 (0 :: nat)\<rparr>"
  let ?q1 = "?q\<lparr>M_head := 0, M_states := [STORED, EMPTY, EMPTY], M_elements := [7, 0, 0]\<rparr>"
  have "try_push (AtomicQueue2_do_push (GetIndexShuffleBits False 3 64) 7) ?q = Some (True, ?q1)" by code_simp
  moreover have "unat (was_size ?q) = 0" "unat (was_size ?q1) = 1" by code_simp+
  moreover have "try_push (AtomicQueue2_do_push (GetIndexShuffleBits False 3 64) 8) ?q1 = None" by code_simp
  ultimately show ?thesis by (intro exI [of _ ?q] exI [of _ ?q1]) simp
qed

end
