(* ===== verification/Hazard_Lists.thy ===== *)
theory Hazard_Lists
  imports Godby_Prelude "HOL-Library.Monad_Syntax" "HOL-Library.Multiset"
begin

text \<open>
  The intrusive lists of retired objects of \<open>HazardPointers.h\<close>. An object is an address; its
  \<open>next\<close> field lives in the object itself, so that reading or writing it after \<open>destroy\<close> is an
  error. Every operation returns \<open>None\<close> for such an access, for a failed assertion and for a loop
  that does not end; the lemmas show that on well-formed lists the operations return and are
  what they should be on the sequence of objects the list holds.
\<close>

section \<open>Objects\<close>

record garbage =
  next_of :: "nat \<Rightarrow> nat option"
  destroyed :: "nat list"

definition get_next :: "garbage \<Rightarrow> nat \<Rightarrow> nat option option" where
  "get_next g p = (if p \<in> set (destroyed g) then None else Some (next_of g p))"

definition set_next :: "garbage \<Rightarrow> nat \<Rightarrow> nat option \<Rightarrow> garbage option" where
  "set_next g p q = (if p \<in> set (destroyed g) then None else Some (g\<lparr>next_of := (next_of g)(p := q)\<rparr>))"

definition destroy :: "garbage \<Rightarrow> nat \<Rightarrow> garbage option" where
  "destroy g p = (if p \<in> set (destroyed g) then None else Some (g\<lparr>destroyed := destroyed g @ [p]\<rparr>))"

section \<open>The list operations\<close>

record retired_list =
  head :: "nat option"
  tail :: "nat option"

definition RetiredList :: retired_list where
  "RetiredList = \<lparr>head = None, tail = None\<rparr>"

definition RetiredList_of :: "nat option \<Rightarrow> retired_list" where
  "RetiredList_of p = \<lparr>head = p, tail = None\<rparr>"

definition RetiredList_assign :: "nat option \<Rightarrow> retired_list \<Rightarrow> retired_list option" where
  "RetiredList_assign p l = (if head l = None then Some (l\<lparr>head := p\<rparr>) else None)"

text \<open>The move constructor: the new list and what is left of the old one.\<close>

definition RetiredList_move :: "retired_list \<Rightarrow> retired_list \<times> retired_list" where
  "RetiredList_move other = (\<lparr>head = head other, tail = None\<rparr>, other\<lparr>head := None\<rparr>)"

definition push :: "nat \<Rightarrow> retired_list \<Rightarrow> garbage \<Rightarrow> (retired_list \<times> garbage) option" where
  "push p l g = do {
     g \<leftarrow> set_next g p (head l);
     let l = l\<lparr>head := Some p\<rparr>;
     n \<leftarrow> get_next g p;
     Some (if n = None then l\<lparr>tail := Some p\<rparr> else l, g)
   }"

definition append :: "retired_list \<Rightarrow> retired_list \<Rightarrow> garbage \<Rightarrow> (retired_list \<times> retired_list \<times> garbage) option" where
  "append l other g =
     (if head l = None then Some (\<lparr>head = head other, tail = tail other\<rparr>, \<lparr>head = None, tail = None\<rparr>, g)
      else if head other \<noteq> None then
        (case tail l of
           None \<Rightarrow> None
         | Some t \<Rightarrow> do {
             g \<leftarrow> set_next g t (head other);
             Some (l\<lparr>tail := tail other\<rparr>, \<lparr>head = None, tail = None\<rparr>, g)
           })
      else Some (l, other, g))"

definition swap :: "retired_list \<Rightarrow> retired_list \<Rightarrow> retired_list \<times> retired_list" where
  "swap l other = (\<lparr>head = head other, tail = tail other\<rparr>, \<lparr>head = head l, tail = tail l\<rparr>)"

text \<open>The first loop of \<open>cleanup\<close> removes from the front, the second behind \<open>prev\<close>.\<close>

partial_function (option) cleanup_front ::
  "(nat \<Rightarrow> bool) \<Rightarrow> nat option \<Rightarrow> garbage \<Rightarrow> (nat option \<times> garbage) option" where
  [code]: "cleanup_front is_protected hp g =
     (case hp of
        None \<Rightarrow> Some (hp, g)
      | Some p \<Rightarrow>
          if is_protected p then Some (hp, g)
          else do {
            n \<leftarrow> get_next g p;
            g \<leftarrow> destroy g p;
            cleanup_front is_protected n g
          })"

partial_function (option) cleanup_rest ::
  "(nat \<Rightarrow> bool) \<Rightarrow> nat \<Rightarrow> nat option \<Rightarrow> garbage \<Rightarrow> (nat \<times> garbage) option" where
  [code]: "cleanup_rest is_protected prev current g =
     (case current of
        None \<Rightarrow> Some (prev, g)
      | Some c \<Rightarrow>
          if \<not> is_protected c then do {
            n \<leftarrow> get_next g c;
            g \<leftarrow> destroy g c;
            g \<leftarrow> set_next g prev n;
            cleanup_rest is_protected prev n g
          }
          else do {
            n \<leftarrow> get_next g c;
            cleanup_rest is_protected c n g
          })"

definition cleanup :: "(nat \<Rightarrow> bool) \<Rightarrow> retired_list \<Rightarrow> garbage \<Rightarrow> (retired_list \<times> garbage) option" where
  "cleanup is_protected l g = do {
     (hp, g) \<leftarrow> cleanup_front is_protected (head l) g;
     case hp of
       None \<Rightarrow> Some (\<lparr>head = None, tail = None\<rparr>, g)
     | Some h \<Rightarrow> do {
         current \<leftarrow> get_next g h;
         (prev, g) \<leftarrow> cleanup_rest is_protected h current g;
         Some (\<lparr>head = Some h, tail = Some prev\<rparr>, g)
       }
   }"

definition RetiredList_dtor :: "retired_list \<Rightarrow> garbage \<Rightarrow> (retired_list \<times> garbage) option" where
  "RetiredList_dtor = cleanup (\<lambda>_. False)"

fun eject_loop ::
  "(nat \<Rightarrow> bool) \<Rightarrow> nat \<Rightarrow> retired_list \<Rightarrow> retired_list \<Rightarrow> garbage \<Rightarrow> (retired_list \<times> retired_list \<times> garbage) option" where
  "eject_loop is_protected n l into g =
     (case (head l, n) of
        (Some current, Suc m) \<Rightarrow> do {
          nx \<leftarrow> get_next g current;
          let l = l\<lparr>head := nx\<rparr>;
          if is_protected current then do {
            (into, g) \<leftarrow> push current into g;
            eject_loop is_protected m l into g
          }
          else do {
            g \<leftarrow> destroy g current;
            eject_loop is_protected m l into g
          }
        }
      | _ \<Rightarrow> Some (l, into, g))"

declare eject_loop.simps [simp del]

definition eject_and_move ::
  "nat \<Rightarrow> retired_list \<Rightarrow> retired_list \<Rightarrow> (nat \<Rightarrow> bool) \<Rightarrow> garbage \<Rightarrow> (retired_list \<times> retired_list \<times> garbage) option" where
  "eject_and_move n l into is_protected g = do {
     (l, into, g) \<leftarrow> eject_loop is_protected n l into g;
     Some (if head l = None then l\<lparr>tail := None\<rparr> else l, into, g)
   }"

section \<open>The objects of a list\<close>

fun path :: "garbage \<Rightarrow> nat option \<Rightarrow> nat list \<Rightarrow> bool" where
  "path g p [] \<longleftrightarrow> p = None"
| "path g p (a # xs) \<longleftrightarrow> p = Some a \<and> a \<notin> set (destroyed g) \<and> path g (next_of g a) xs"

text \<open>\<open>rlist g l xs\<close>: the list \<open>l\<close> holds the live objects \<open>xs\<close> in this order, each once.\<close>

definition last_of :: "nat list \<Rightarrow> nat option" where
  "last_of xs = (if xs = [] then None else Some (last xs))"

definition rlist :: "garbage \<Rightarrow> retired_list \<Rightarrow> nat list \<Rightarrow> bool" where
  "rlist g l xs \<longleftrightarrow> path g (head l) xs \<and> distinct xs \<and> tail l = last_of xs"

definition same_outside :: "nat set \<Rightarrow> garbage \<Rightarrow> garbage \<Rightarrow> bool" where
  "same_outside A g g' \<longleftrightarrow> (\<forall>p. p \<notin> A \<longrightarrow> next_of g' p = next_of g p \<and> (p \<in> set (destroyed g') \<longleftrightarrow> p \<in> set (destroyed g)))"

lemma path_frame: "path g p xs \<Longrightarrow> same_outside A g g' \<Longrightarrow> A \<inter> set xs = {} \<Longrightarrow> path g' p xs"
  by (induction xs arbitrary: p) (auto simp: same_outside_def)

lemma same_outside_upd:
  "same_outside {a} g (g\<lparr>next_of := (next_of g)(a := q)\<rparr>)"
  "same_outside {a} g (g\<lparr>destroyed := destroyed g @ [a]\<rparr>)"
  "same_outside {a, b} g (g\<lparr>destroyed := destroyed g @ [a], next_of := (next_of g)(b := q)\<rparr>)"
  by (auto simp: same_outside_def)

lemma path_live: "path g p xs \<Longrightarrow> a \<in> set xs \<Longrightarrow> a \<notin> set (destroyed g)"
  by (induction xs arbitrary: p) auto

lemma path_None [simp]: "path g None xs \<longleftrightarrow> xs = []"
  by (cases xs) auto

lemma path_Some: "path g (Some a) xs \<longleftrightarrow> (\<exists>ys. xs = a # ys \<and> a \<notin> set (destroyed g) \<and> path g (next_of g a) ys)"
  by (cases xs) auto

lemma path_append:
  "path g p xs \<Longrightarrow> xs \<noteq> [] \<Longrightarrow> distinct xs \<Longrightarrow> path g q ys \<Longrightarrow> set xs \<inter> set ys = {} \<Longrightarrow>
   path (g\<lparr>next_of := (next_of g)(last xs := q)\<rparr>) p (xs @ ys)"
proof (induction xs arbitrary: p)
  case (Cons a xs)
  show ?case
  proof (cases "xs = []")
    case True
    have "path (g\<lparr>next_of := (next_of g)(a := q)\<rparr>) q ys"
      by (rule path_frame [OF Cons.prems(4) same_outside_upd(1)]) (use Cons.prems(5) in auto)
    then show ?thesis using Cons.prems(1) unfolding True by (simp add: fun_upd_def)
  next
    case False
    then have "last xs \<noteq> a" using Cons.prems(3) last_in_set [of xs] by auto
    then show ?thesis using Cons False by auto
  qed
qed simp

lemma same_outside_refl [simp]: "same_outside A g g"
  by (simp add: same_outside_def)

lemma same_outside_trans:
  "same_outside A g g' \<Longrightarrow> same_outside B g' g'' \<Longrightarrow> A \<subseteq> C \<Longrightarrow> B \<subseteq> C \<Longrightarrow> same_outside C g g''"
  unfolding same_outside_def by (metis subsetD)

lemma rlist_frame:
  "rlist g l xs \<Longrightarrow> same_outside A g g' \<Longrightarrow> A \<inter> set xs = {} \<Longrightarrow> rlist g' l xs"
  unfolding rlist_def by (auto intro: path_frame)

lemma rlist_live: "rlist g l xs \<Longrightarrow> set xs \<inter> set (destroyed g) = {}"
  by (auto simp: rlist_def dest: path_live)

lemma rlist_RetiredList: "rlist g l [] \<longleftrightarrow> l = RetiredList"
  by (cases l) (auto simp: rlist_def RetiredList_def last_of_def)

section \<open>What the operations do\<close>

lemma push_rlist:
  assumes "rlist g l xs" and "p \<notin> set xs" and "p \<notin> set (destroyed g)"
  shows "\<exists>l' g'. push p l g = Some (l', g') \<and> rlist g' l' (p # xs) \<and>
    destroyed g' = destroyed g \<and> same_outside {p} g g'"
proof -
  define g' where "g' = g\<lparr>next_of := (next_of g)(p := head l)\<rparr>"
  define l' where "l' = (if head l = None then l\<lparr>head := Some p, tail := Some p\<rparr> else l\<lparr>head := Some p\<rparr>)"
  have "push p l g = Some (l', g')"
    using assms(3) by (simp add: push_def set_next_def get_next_def g'_def l'_def Let_def)
  moreover have "path g' (head l) xs" unfolding g'_def
    by (rule path_frame [OF _ same_outside_upd(1)]) (use assms in \<open>auto simp: rlist_def\<close>)
  then have "rlist g' l' (p # xs)" using assms
    by (auto simp: rlist_def g'_def l'_def last_of_def)
  moreover have "same_outside {p} g g'" unfolding g'_def by (rule same_outside_upd)
  ultimately show ?thesis by (auto simp: g'_def)
qed

lemma append_rlist:
  assumes "rlist g l xs" and "rlist g other ys" and "set xs \<inter> set ys = {}"
  shows "\<exists>l' g'. append l other g = Some (l', RetiredList, g') \<and> rlist g' l' (xs @ ys) \<and>
    destroyed g' = destroyed g \<and> same_outside (set xs) g g'"
proof (cases "xs = [] \<or> ys = []")
  case True
  then show ?thesis using assms
    by (cases l; cases other) (auto simp: append_def rlist_def last_of_def RetiredList_def path_Some)
next
  case False
  define g' where "g' = g\<lparr>next_of := (next_of g)(last xs := head other)\<rparr>"
  have t: "tail l = Some (last xs)" "tail other = Some (last ys)" "head l \<noteq> None" "head other \<noteq> None"
    using assms(1,2) False by (cases "head l"; cases "head other"; simp add: rlist_def last_of_def)+
  have "last xs \<notin> set (destroyed g)" using rlist_live [OF assms(1)] False last_in_set by blast
  then have "append l other g = Some (l\<lparr>tail := tail other\<rparr>, RetiredList, g')"
    using t by (auto simp: append_def set_next_def g'_def RetiredList_def)
  moreover have "rlist g' (l\<lparr>tail := tail other\<rparr>) (xs @ ys)"
    using assms False t path_append [of g "head l" xs "head other" ys]
    by (auto simp: rlist_def g'_def last_of_def)
  moreover have "same_outside (set xs) g g'" using False by (auto simp: same_outside_def g'_def)
  ultimately show ?thesis by (auto simp: g'_def)
qed

lemma swap_rlist:
  "rlist g l xs \<Longrightarrow> rlist g other ys \<Longrightarrow> rlist g (fst (swap l other)) ys \<and> rlist g (snd (swap l other)) xs"
  by (simp add: rlist_def swap_def)

lemma cleanup_front_path:
  "path g p xs \<Longrightarrow> distinct xs \<Longrightarrow>
   \<exists>g' q. cleanup_front P p g = Some (q, g') \<and> path g' q (dropWhile (\<lambda>x. \<not> P x) xs) \<and>
     destroyed g' = destroyed g @ takeWhile (\<lambda>x. \<not> P x) xs \<and> next_of g' = next_of g"
proof (induction xs arbitrary: p g)
  case Nil
  then show ?case by (simp add: cleanup_front.simps)
next
  case (Cons a xs)
  show ?case
  proof (cases "P a")
    case True
    then show ?thesis using Cons.prems by (simp add: cleanup_front.simps)
  next
    case False
    define h where "h = g\<lparr>destroyed := destroyed g @ [a]\<rparr>"
    have "path h (next_of g a) xs" unfolding h_def
      by (rule path_frame [OF _ same_outside_upd(2)]) (use Cons.prems in auto)
    from Cons.IH [OF this] Cons.prems(2) obtain g' q where
      r: "cleanup_front P (next_of g a) h = Some (q, g')" "path g' q (dropWhile (\<lambda>x. \<not> P x) xs)"
        "destroyed g' = destroyed h @ takeWhile (\<lambda>x. \<not> P x) xs" "next_of g' = next_of h" by auto
    have "cleanup_front P p g = cleanup_front P (next_of g a) h"
      using Cons.prems False by (subst cleanup_front.simps) (simp add: get_next_def destroy_def h_def)
    then show ?thesis using r False by (auto simp: h_def)
  qed
qed

lemma cleanup_rest_path:
  "path g (Some prev) (prev # xs) \<Longrightarrow> distinct (prev # xs) \<Longrightarrow>
   \<exists>g' t. cleanup_rest P prev (next_of g prev) g = Some (t, g') \<and>
     path g' (Some prev) (prev # filter P xs) \<and> t = last (prev # filter P xs) \<and>
     destroyed g' = destroyed g @ filter (\<lambda>x. \<not> P x) xs \<and> same_outside (set (prev # xs)) g g'"
proof (induction xs arbitrary: prev g)
  case Nil
  then show ?case by (simp add: cleanup_rest.simps)
next
  case (Cons a xs)
  then have pa: "next_of g prev = Some a" "a \<notin> set (destroyed g)" "prev \<notin> set (destroyed g)"
    "path g (next_of g a) xs" "a \<noteq> prev" "prev \<notin> set xs" "a \<notin> set xs" "distinct xs" by auto
  show ?case
  proof (cases "P a")
    case True
    then have "cleanup_rest P prev (next_of g prev) g = cleanup_rest P a (next_of g a) g"
      using pa by (subst cleanup_rest.simps) (simp add: get_next_def)
    moreover obtain g' t where "cleanup_rest P a (next_of g a) g = Some (t, g')"
      "path g' (Some a) (a # filter P xs)" "t = last (a # filter P xs)"
      "destroyed g' = destroyed g @ filter (\<lambda>x. \<not> P x) xs" "same_outside (set (a # xs)) g g'"
      using Cons.IH [of g a] pa by auto
    ultimately show ?thesis using True pa by (auto simp: same_outside_def)
  next
    case False
    define h where "h = g\<lparr>destroyed := destroyed g @ [a], next_of := (next_of g)(prev := next_of g a)\<rparr>"
    have "cleanup_rest P prev (next_of g prev) g = cleanup_rest P prev (next_of h prev) h"
      using pa False by (subst cleanup_rest.simps) (simp add: get_next_def destroy_def set_next_def h_def)
    moreover have "path h (next_of g a) xs" unfolding h_def
      by (rule path_frame [OF _ same_outside_upd(3)]) (use pa in auto)
    then have "path h (Some prev) (prev # xs)" using pa by (simp add: h_def)
    moreover have "distinct (prev # xs)" using pa by simp
    ultimately obtain g' t where "cleanup_rest P prev (next_of g prev) g = Some (t, g')"
      "path g' (Some prev) (prev # filter P xs)" "t = last (prev # filter P xs)"
      "destroyed g' = destroyed h @ filter (\<lambda>x. \<not> P x) xs" "same_outside (set (prev # xs)) h g'"
      using Cons.IH [of h prev] by auto
    moreover have "same_outside (set (prev # a # xs)) g g'"
      using \<open>same_outside (set (prev # xs)) h g'\<close> by (auto simp: same_outside_def h_def)
    ultimately show ?thesis using False by (auto simp: h_def)
  qed
qed


lemma filter_split_while:
  "filter P xs = filter P (dropWhile (\<lambda>x. \<not> P x) xs)"
  "filter (\<lambda>x. \<not> P x) xs = takeWhile (\<lambda>x. \<not> P x) xs @ filter (\<lambda>x. \<not> P x) (dropWhile (\<lambda>x. \<not> P x) xs)"
  by (induction xs) auto

lemma cleanup_rlist:
  assumes "rlist g l xs"
  shows "\<exists>l' g'. cleanup P l g = Some (l', g') \<and> rlist g' l' (filter P xs) \<and>
    destroyed g' = destroyed g @ filter (\<lambda>x. \<not> P x) xs \<and> same_outside (set xs) g g'"
proof -
  from assms have "path g (head l) xs" "distinct xs" by (auto simp: rlist_def)
  then obtain g1 q where f: "cleanup_front P (head l) g = Some (q, g1)"
    "path g1 q (dropWhile (\<lambda>x. \<not> P x) xs)" "destroyed g1 = destroyed g @ takeWhile (\<lambda>x. \<not> P x) xs"
    "next_of g1 = next_of g" using cleanup_front_path by blast
  have s1: "same_outside (set xs) g g1" using f(3,4) by (auto simp: same_outside_def dest: set_takeWhileD)
  show ?thesis
  proof (cases "dropWhile (\<lambda>x. \<not> P x) xs")
    case Nil
    then have "filter P xs = []" "filter (\<lambda>x. \<not> P x) xs = takeWhile (\<lambda>x. \<not> P x) xs" "q = None"
      using filter_split_while [of P xs] f(2) unfolding Nil by simp_all
    then show ?thesis using f s1 by (auto simp: cleanup_def rlist_def last_of_def)
  next
    case (Cons h ys)
    have "distinct (h # ys)" unfolding Cons [symmetric] using \<open>distinct xs\<close> by (rule distinct_dropWhile)
    then have h: "q = Some h" "path g1 (Some h) (h # ys)" "P h" "distinct (h # ys)" "set (h # ys) \<subseteq> set xs"
      using f(2) Cons dropWhile_eq_Cons_conv [of "\<lambda>x. \<not> P x" xs h ys]
        set_dropWhileD [of _ "\<lambda>x. \<not> P x" xs] by auto
    from cleanup_rest_path [OF h(2,4), of P] obtain g2 t where
      c: "cleanup_rest P h (next_of g1 h) g1 = Some (t, g2)" "path g2 (Some h) (h # filter P ys)"
        "t = last (h # filter P ys)" "destroyed g2 = destroyed g1 @ filter (\<lambda>x. \<not> P x) ys"
        "same_outside (set (h # ys)) g1 g2" by blast
    have "cleanup P l g = Some (\<lparr>head = Some h, tail = Some t\<rparr>, g2)"
      using f(1) h(1,2) c(1) by (simp add: cleanup_def get_next_def)
    moreover have "rlist g2 \<lparr>head = Some h, tail = Some t\<rparr> (filter P xs)"
      using c(2,3) h(3,4) Cons filter_split_while(1) [of P xs] by (simp add: rlist_def last_of_def)
    moreover have "destroyed g2 = destroyed g @ filter (\<lambda>x. \<not> P x) xs"
      using c(4) f(3) h(3) Cons filter_split_while(2) [of P xs] by simp
    moreover have "same_outside (set xs) g g2"
      using same_outside_trans [OF s1 c(5)] h(5) by simp
    ultimately show ?thesis by blast
  qed
qed

lemma path_next: "path g (Some a) (a # xs) \<Longrightarrow> path g (next_of g a) xs"
  by simp

lemma eject_loop_path:
  "path g (head l) xs \<Longrightarrow> distinct xs \<Longrightarrow> rlist g into ys \<Longrightarrow> set xs \<inter> set ys = {} \<Longrightarrow>
   \<exists>l' into' g'. eject_loop P n l into g = Some (l', into', g') \<and>
     path g' (head l') (drop n xs) \<and> tail l' = tail l \<and> rlist g' into' (rev (filter P (take n xs)) @ ys) \<and>
     destroyed g' = destroyed g @ filter (\<lambda>x. \<not> P x) (take n xs) \<and> same_outside (set xs) g g'"
proof (induction n arbitrary: l into g xs ys)
  case 0
  then show ?case by (subst eject_loop.simps) (auto split: option.split)
next
  case (Suc n)
  show ?case
  proof (cases xs)
    case Nil
    then show ?thesis using Suc.prems by (subst eject_loop.simps) auto
  next
    case (Cons a zs)
    have a: "head l = Some a" "a \<notin> set (destroyed g)" "path g (next_of g a) zs" "a \<notin> set zs" "a \<notin> set ys"
      "distinct zs" "set zs \<inter> set ys = {}" using Suc.prems Cons by auto
    have frame: "path h p zs" if "path g p zs" "same_outside {a} g h" for h p
      by (rule path_frame [OF that]) (use a(4) in simp)
    show ?thesis
    proof (cases "P a")
      case True
      from push_rlist [OF Suc.prems(3) a(5,2)] obtain into1 g1 where
        p: "push a into g = Some (into1, g1)" "rlist g1 into1 (a # ys)" "destroyed g1 = destroyed g"
          "same_outside {a} g g1" by blast
      have "path g1 (head (l\<lparr>head := next_of g a\<rparr>)) zs" using frame [OF a(3) p(4)] by simp
      moreover have "set zs \<inter> set (a # ys) = {}" using a by simp
      ultimately obtain l' into' g' where r: "eject_loop P n (l\<lparr>head := next_of g a\<rparr>) into1 g1 = Some (l', into', g')"
        "path g' (head l') (drop n zs)" "tail l' = tail l" "rlist g' into' (rev (filter P (take n zs)) @ a # ys)"
        "destroyed g' = destroyed g1 @ filter (\<lambda>x. \<not> P x) (take n zs)" "same_outside (set zs) g1 g'"
        using Suc.IH [of g1 "l\<lparr>head := next_of g a\<rparr>" zs into1 "a # ys"] p(2) a(6) by auto
      have "eject_loop P (Suc n) l into g = Some (l', into', g')"
        using a(1,2) True p(1) r(1) by (subst eject_loop.simps) (simp add: get_next_def Let_def)
      moreover have "same_outside (set xs) g g'" using same_outside_trans [OF p(4) r(6)] Cons by auto
      ultimately show ?thesis using r p(3) True Cons by auto
    next
      case False
      define g1 where "g1 = g\<lparr>destroyed := destroyed g @ [a]\<rparr>"
      have so: "same_outside {a} g g1" unfolding g1_def by (rule same_outside_upd)
      have "path g1 (head (l\<lparr>head := next_of g a\<rparr>)) zs" using frame [OF a(3) so] by simp
      moreover have "rlist g1 into ys" using rlist_frame [OF Suc.prems(3) so] a(5) by simp
      ultimately obtain l' into' g' where r: "eject_loop P n (l\<lparr>head := next_of g a\<rparr>) into g1 = Some (l', into', g')"
        "path g' (head l') (drop n zs)" "tail l' = tail l" "rlist g' into' (rev (filter P (take n zs)) @ ys)"
        "destroyed g' = destroyed g1 @ filter (\<lambda>x. \<not> P x) (take n zs)" "same_outside (set zs) g1 g'"
        using Suc.IH [of g1 "l\<lparr>head := next_of g a\<rparr>" zs into ys] a(6,7) by auto
      have "eject_loop P (Suc n) l into g = Some (l', into', g')"
        using a(1,2) False r(1) by (subst eject_loop.simps) (simp add: get_next_def destroy_def Let_def g1_def)
      moreover have "same_outside (set xs) g g'" using same_outside_trans [OF so r(6)] Cons by auto
      ultimately show ?thesis using r False Cons by (auto simp: g1_def)
    qed
  qed
qed

lemma eject_and_move_rlist:
  assumes "rlist g l xs" and "rlist g into ys" and "set xs \<inter> set ys = {}"
  shows "\<exists>l' into' g'. eject_and_move n l into P g = Some (l', into', g') \<and>
    rlist g' l' (drop n xs) \<and> rlist g' into' (rev (filter P (take n xs)) @ ys) \<and>
    destroyed g' = destroyed g @ filter (\<lambda>x. \<not> P x) (take n xs) \<and> same_outside (set xs) g g'"
proof -
  from assms(1) have l: "path g (head l) xs" "distinct xs" "tail l = last_of xs" by (auto simp: rlist_def)
  from eject_loop_path [OF l(1,2) assms(2,3), of P n] obtain l' into' g' where
    r: "eject_loop P n l into g = Some (l', into', g')" "path g' (head l') (drop n xs)" "tail l' = tail l"
      "rlist g' into' (rev (filter P (take n xs)) @ ys)"
      "destroyed g' = destroyed g @ filter (\<lambda>x. \<not> P x) (take n xs)" "same_outside (set xs) g g'" by blast
  have "rlist g' (if head l' = None then l'\<lparr>tail := None\<rparr> else l') (drop n xs)"
  proof (cases "head l'")
    case None
    then show ?thesis using r(2) by (auto simp: rlist_def last_of_def)
  next
    case (Some h)
    then have "drop n xs \<noteq> []" using r(2) by (metis option.distinct(1) path.simps(1))
    then have "last_of (drop n xs) = last_of xs" by (auto simp: last_of_def last_drop)
    then show ?thesis using Some r(2,3) l(2,3) by (auto simp: rlist_def)
  qed
  then show ?thesis using r by (auto simp: eject_and_move_def)
qed

end
