(* ===== verification/Hazard_Pointers.thy ===== *)
theory Hazard_Pointers
  imports Hazard_Lists
begin

text \<open>
  \<open>HazardPointers.h\<close>: the list of slots, each with one hazard pointer and the retired objects of
  its thread, and the two ways of reclaiming them. The operations of this theory are those of one
  thread run alone, down to the pointer writes of the intrusive lists; every operation returns
  \<open>None\<close> for a failed assertion or an access to a destroyed object. Beside the operations stand
  the same steps on plain sequences, and lemmas that relate the two; the interleaved accesses
  of several threads in \<open>Hazard_Safety\<close> are built on the sequences.
\<close>

section \<open>Slots\<close>

datatype memory_order =
  memory_order_relaxed | memory_order_consume | memory_order_acquire | memory_order_release |
  memory_order_acq_rel | memory_order_seq_cst

datatype ReclamationMethod = amortized_reclamation | deamortized_reclamation

text \<open>
  \<open>DeamortizedReclaimer\<close>, over the representation of its lists. Slots are named by their position
  in the linked list of slots, which only grows at its end.
\<close>

record 'l reclaimer =
  current_slot :: "nat option"
  protected_set :: "nat option set"
  next_protected_set :: "nat option set"
  eligible :: 'l
  next_eligible :: 'l
  num_hazard_ptrs :: u32
  next_num_hazard_ptrs :: u32
  num_retires :: u32

record hazard_slot =
  protected_ptr :: "nat option"
  slot_retired :: retired_list
  num_retires_since_cleanup :: u32
  in_use :: bool
  deamortized_reclaimer :: "retired_list reclaimer option"

record hazards =
  slots :: "hazard_slot list"
  mode :: ReclamationMethod
  protection_order :: memory_order
  garbage_of :: garbage

definition DeamortizedReclaimer :: "u32 \<Rightarrow> retired_list reclaimer" where
  "DeamortizedReclaimer hardware_concurrency =
     \<lparr>current_slot = None, protected_set = {}, next_protected_set = {},
      eligible = RetiredList, next_eligible = RetiredList,
      num_hazard_ptrs = hardware_concurrency, next_num_hazard_ptrs = hardware_concurrency, num_retires = 0\<rparr>"

definition HazardSlot :: "bool \<Rightarrow> hazard_slot" where
  "HazardSlot b = \<lparr>protected_ptr = None, slot_retired = RetiredList, num_retires_since_cleanup = 0,
                   in_use = b, deamortized_reclaimer = None\<rparr>"

definition HazardPointers :: "u32 \<Rightarrow> hazards" where
  "HazardPointers hardware_concurrency =
     \<lparr>slots = HazardSlot False # replicate (unat hardware_concurrency - 1) (HazardSlot False),
      mode = amortized_reclamation, protection_order = memory_order_relaxed,
      garbage_of = \<lparr>next_of = \<lambda>_. None, destroyed = []\<rparr>\<rparr>"

abbreviation upd_slot :: "nat \<Rightarrow> (hazard_slot \<Rightarrow> hazard_slot) \<Rightarrow> hazards \<Rightarrow> hazards" where
  "upd_slot i f hs \<equiv> hs\<lparr>slots := (slots hs)[i := f (slots hs ! i)]\<rparr>"

text \<open>\<open>get_slot\<close>: the first slot from \<open>current\<close> on that is not in use, or a new one at the end.\<close>

fun find_slot :: "hazard_slot list \<Rightarrow> nat \<Rightarrow> nat option" where
  "find_slot [] i = None"
| "find_slot (sl # sls) i = (if \<not> in_use sl then Some i else find_slot sls (Suc i))"

definition get_slot :: "u32 \<Rightarrow> hazards \<Rightarrow> nat \<times> hazards" where
  "get_slot hardware_concurrency hs =
     (case find_slot (slots hs) 0 of
        Some i \<Rightarrow> (i, upd_slot i (in_use_update (\<lambda>_. True)) hs)
      | None \<Rightarrow>
          let my_slot = HazardSlot True;
              my_slot = (if mode hs = deamortized_reclamation
                         then my_slot\<lparr>deamortized_reclaimer := Some (DeamortizedReclaimer hardware_concurrency)\<rparr>
                         else my_slot)
          in (length (slots hs), hs\<lparr>slots := slots hs @ [my_slot]\<rparr>))"

definition relinquish_slot :: "nat \<Rightarrow> hazards \<Rightarrow> hazards" where
  "relinquish_slot i = upd_slot i (in_use_update (\<lambda>_. False))"

text \<open>
  The destructor deletes slot after slot; the destructor of a slot runs the one of its
  reclaimer (whose lists are destroyed in reverse order of declaration) and of its retired list.
\<close>

definition HazardSlot_dtor :: "hazard_slot \<Rightarrow> garbage \<Rightarrow> garbage option" where
  "HazardSlot_dtor sl g = do {
     g \<leftarrow> (case deamortized_reclaimer sl of
             None \<Rightarrow> Some g
           | Some r \<Rightarrow> do {
               (_, g) \<leftarrow> RetiredList_dtor (next_eligible r) g;
               (_, g) \<leftarrow> RetiredList_dtor (eligible r) g;
               Some g
             });
     (_, g) \<leftarrow> RetiredList_dtor (slot_retired sl) g;
     Some g
   }"

fun HazardPointers_dtor :: "hazard_slot list \<Rightarrow> garbage \<Rightarrow> garbage option" where
  "HazardPointers_dtor [] g = Some g"
| "HazardPointers_dtor (sl # sls) g = do { g \<leftarrow> HazardSlot_dtor sl g; HazardPointers_dtor sls g }"

section \<open>Protection\<close>

text \<open>
  \<open>protect\<close> run alone: the second read of the source gives the first value again. \<open>f\<close> maps the
  value read to the object to protect.
\<close>

definition protect :: "nat \<Rightarrow> ('u \<Rightarrow> nat option) \<Rightarrow> 'u \<Rightarrow> hazards \<Rightarrow> 'u \<times> hazards" where
  "protect i f src hs =
     (case f src of
        None \<Rightarrow> (src, hs)
      | Some p \<Rightarrow> (src, upd_slot i (protected_ptr_update (\<lambda>_. Some p)) hs))"

definition release :: "nat \<Rightarrow> hazards \<Rightarrow> hazards" where
  "release i = upd_slot i (protected_ptr_update (\<lambda>_. None))"

section \<open>Reclamation\<close>

definition cleanup_threshold :: u32 where "cleanup_threshold = 2000"

definition scan_hazard_pointers :: "hazard_slot list \<Rightarrow> nat set" where
  "scan_hazard_pointers sls = set (List.map_filter protected_ptr sls)"

definition cleanup_slot :: "nat \<Rightarrow> hazards \<Rightarrow> hazards option" where
  "cleanup_slot i hs =
     (let prot = scan_hazard_pointers (slots hs) in do {
       (l, g) \<leftarrow> cleanup (\<lambda>p. p \<in> prot) (slot_retired (slots hs ! i)) (garbage_of hs);
       Some (upd_slot i (\<lambda>sl. sl\<lparr>slot_retired := l, num_retires_since_cleanup := 0\<rparr>) (hs\<lparr>garbage_of := g\<rparr>))
     })"

text \<open>The start of a pass over the hazard pointers, in \<open>do_reclamation_work\<close>.\<close>

definition start_pass :: "retired_list reclaimer \<Rightarrow> retired_list \<Rightarrow> garbage \<Rightarrow>
    (retired_list reclaimer \<times> retired_list \<times> garbage) option" where
  "start_pass r retired g = do {
     (el, ne, g) \<leftarrow> append (eligible r) (next_eligible r) g;
     let (ne, retired) = swap ne retired;
     Some (r\<lparr>num_retires := 0, num_hazard_ptrs := next_num_hazard_ptrs r, next_num_hazard_ptrs := 0,
             current_slot := Some 0, protected_set := next_protected_set r, next_protected_set := {},
             eligible := el, next_eligible := ne\<rparr>, retired, g)
   }"

definition scan_one :: "nat option list \<Rightarrow> retired_list reclaimer \<Rightarrow> nat \<Rightarrow> retired_list \<Rightarrow> garbage \<Rightarrow>
    (retired_list reclaimer \<times> retired_list \<times> garbage) option" where
  "scan_one hz r c retired g = do {
     (el, retired, g) \<leftarrow> eject_and_move 2 (eligible r) retired (\<lambda>p. Some p \<in> protected_set r) g;
     Some (r\<lparr>eligible := el, next_num_hazard_ptrs := next_num_hazard_ptrs r + 1,
             next_protected_set := insert (hz ! c) (next_protected_set r),
             current_slot := (if Suc c < length hz then Some (Suc c) else None)\<rparr>, retired, g)
   }"

definition do_reclamation_work :: "nat option list \<Rightarrow> retired_list reclaimer \<Rightarrow> retired_list \<Rightarrow> garbage \<Rightarrow>
    (retired_list reclaimer \<times> retired_list \<times> garbage) option" where
  "do_reclamation_work hz r retired g =
     (let r = r\<lparr>num_retires := num_retires r + 1\<rparr> in
      case current_slot r of
        None \<Rightarrow>
          if num_retires r < 2 * num_hazard_ptrs r then Some (r, retired, g)
          else do { (r, retired, g) \<leftarrow> start_pass r retired g; scan_one hz r 0 retired g }
      | Some c \<Rightarrow> scan_one hz r c retired g)"

definition retire :: "nat \<Rightarrow> nat \<Rightarrow> hazards \<Rightarrow> hazards option" where
  "retire i p hs = do {
     (l, g) \<leftarrow> push p (slot_retired (slots hs ! i)) (garbage_of hs);
     let hs = upd_slot i (slot_retired_update (\<lambda>_. l)) (hs\<lparr>garbage_of := g\<rparr>);
     if mode hs = deamortized_reclamation then
       (case deamortized_reclaimer (slots hs ! i) of
          None \<Rightarrow> None
        | Some r \<Rightarrow> do {
            (r, l, g) \<leftarrow> do_reclamation_work (List.map protected_ptr (slots hs)) r l g;
            Some (upd_slot i (\<lambda>sl. sl\<lparr>slot_retired := l, deamortized_reclaimer := Some r\<rparr>) (hs\<lparr>garbage_of := g\<rparr>))
          })
     else
       let hs = upd_slot i (\<lambda>sl. sl\<lparr>num_retires_since_cleanup := num_retires_since_cleanup sl + 1\<rparr>) hs in
       if cleanup_threshold \<le> num_retires_since_cleanup (slots hs ! i) then cleanup_slot i hs else Some hs
   }"

definition enable_deamortized_reclamation :: "u32 \<Rightarrow> hazards \<Rightarrow> hazards option" where
  "enable_deamortized_reclamation hardware_concurrency hs =
     (if mode hs \<noteq> amortized_reclamation then None
      else Some (hs\<lparr>slots := List.map (\<lambda>sl. sl\<lparr>deamortized_reclaimer :=
                                  Some (DeamortizedReclaimer hardware_concurrency)\<rparr>) (slots hs),
                     mode := deamortized_reclamation,
                     protection_order := memory_order_seq_cst\<rparr>))"

section \<open>The same steps on sequences\<close>

definition start_pass_list :: "nat list reclaimer \<Rightarrow> nat list \<Rightarrow> nat list reclaimer" where
  "start_pass_list r retired =
     r\<lparr>num_retires := 0, num_hazard_ptrs := next_num_hazard_ptrs r, next_num_hazard_ptrs := 0,
       current_slot := Some 0, protected_set := next_protected_set r, next_protected_set := {},
       eligible := eligible r @ next_eligible r, next_eligible := retired\<rparr>"

definition scan_one_list :: "nat option list \<Rightarrow> nat list reclaimer \<Rightarrow> nat \<Rightarrow> nat list \<Rightarrow>
    nat list reclaimer \<times> nat list \<times> nat list" where
  "scan_one_list hz r c retired =
     (r\<lparr>eligible := drop 2 (eligible r), next_num_hazard_ptrs := next_num_hazard_ptrs r + 1,
        next_protected_set := insert (hz ! c) (next_protected_set r),
        current_slot := (if Suc c < length hz then Some (Suc c) else None)\<rparr>,
      rev (filter (\<lambda>p. Some p \<in> protected_set r) (take 2 (eligible r))) @ retired,
      filter (\<lambda>p. Some p \<notin> protected_set r) (take 2 (eligible r)))"

definition work_list :: "nat option list \<Rightarrow> nat list reclaimer \<Rightarrow> nat list \<Rightarrow>
    nat list reclaimer \<times> nat list \<times> nat list" where
  "work_list hz r retired =
     (let r = r\<lparr>num_retires := num_retires r + 1\<rparr> in
      case current_slot r of
        None \<Rightarrow> if num_retires r < 2 * num_hazard_ptrs r then (r, retired, [])
                else scan_one_list hz (start_pass_list r retired) 0 []
      | Some c \<Rightarrow> scan_one_list hz r c retired)"

text \<open>\<open>reclaimer_lists g r s\<close>: the reclaimer with pointer lists holds what the one with sequences holds.\<close>

definition reclaimer_lists :: "garbage \<Rightarrow> retired_list reclaimer \<Rightarrow> nat list reclaimer \<Rightarrow> bool" where
  "reclaimer_lists g r s \<longleftrightarrow>
     current_slot s = current_slot r \<and> protected_set s = protected_set r \<and>
     next_protected_set s = next_protected_set r \<and> num_hazard_ptrs s = num_hazard_ptrs r \<and>
     next_num_hazard_ptrs s = next_num_hazard_ptrs r \<and> num_retires s = num_retires r \<and>
     rlist g (eligible r) (eligible s) \<and> rlist g (next_eligible r) (next_eligible s)"

definition objects :: "nat list reclaimer \<Rightarrow> nat list \<Rightarrow> nat list" where
  "objects s xs = xs @ eligible s @ next_eligible s"

lemma start_pass_refines:
  assumes r: "reclaimer_lists g r s" and l: "rlist g l xs" and d: "distinct (objects s xs)"
  shows "\<exists>r' g'. start_pass r l g = Some (r', RetiredList, g') \<and>
    reclaimer_lists g' r' (start_pass_list s xs) \<and> destroyed g' = destroyed g \<and>
    same_outside (set (objects s xs)) g g'"
proof -
  have e: "rlist g (eligible r) (eligible s)" "rlist g (next_eligible r) (next_eligible s)"
    using r by (auto simp: reclaimer_lists_def)
  have dj: "set (eligible s) \<inter> set (next_eligible s) = {}" "set (eligible s) \<inter> set xs = {}"
    using d by (auto simp: objects_def)
  from append_rlist [OF e dj(1)] obtain el g' where
    a: "append (eligible r) (next_eligible r) g = Some (el, RetiredList, g')"
      "rlist g' el (eligible s @ next_eligible s)" "destroyed g' = destroyed g"
      "same_outside (set (eligible s)) g g'" by blast
  have "rlist g' l xs" using rlist_frame [OF l a(4)] dj(2) by simp
  moreover have "swap RetiredList l = (l, RetiredList)" by (cases l) (simp add: swap_def RetiredList_def)
  moreover have "same_outside (set (objects s xs)) g g'"
    using same_outside_trans [OF a(4) same_outside_refl, of "set (objects s xs)" "{}"] by (auto simp: objects_def)
  ultimately show ?thesis using a r
    by (auto simp: start_pass_def start_pass_list_def reclaimer_lists_def)
qed

lemma scan_one_refines:
  assumes r: "reclaimer_lists g r s" and l: "rlist g l xs" and d: "distinct (objects s xs)"
    and s': "scan_one_list hz s c xs = (s', xs', ds)"
  shows "\<exists>r' l' g'. scan_one hz r c l g = Some (r', l', g') \<and> reclaimer_lists g' r' s' \<and>
    rlist g' l' xs' \<and> destroyed g' = destroyed g @ ds \<and> same_outside (set (objects s xs)) g g'"
proof -
  have e: "rlist g (eligible r) (eligible s)" "rlist g (next_eligible r) (next_eligible s)"
    and eq: "protected_set s = protected_set r" using r by (auto simp: reclaimer_lists_def)
  have dj: "set (eligible s) \<inter> set xs = {}" "set (eligible s) \<inter> set (next_eligible s) = {}"
    using d by (auto simp: objects_def)
  from eject_and_move_rlist [OF e(1) l dj(1), of 2 "\<lambda>p. Some p \<in> protected_set r"] obtain el l' g' where
    a: "eject_and_move 2 (eligible r) l (\<lambda>p. Some p \<in> protected_set r) g = Some (el, l', g')"
      "rlist g' el (drop 2 (eligible s))"
      "rlist g' l' (rev (filter (\<lambda>p. Some p \<in> protected_set r) (take 2 (eligible s))) @ xs)"
      "destroyed g' = destroyed g @ filter (\<lambda>p. Some p \<notin> protected_set r) (take 2 (eligible s))"
      "same_outside (set (eligible s)) g g'" by blast
  have "rlist g' (next_eligible r) (next_eligible s)" using rlist_frame [OF e(2) a(5) dj(2)] .
  moreover have "same_outside (set (objects s xs)) g g'"
    using same_outside_trans [OF a(5) same_outside_refl, of "set (objects s xs)" "{}"] by (auto simp: objects_def)
  ultimately show ?thesis using a r s'
    by (auto simp: scan_one_def scan_one_list_def reclaimer_lists_def eq)
qed

lemma work_refines:
  assumes r: "reclaimer_lists g r s" and l: "rlist g l xs" and d: "distinct (objects s xs)"
    and s': "work_list hz s xs = (s', xs', ds)"
  shows "\<exists>r' l' g'. do_reclamation_work hz r l g = Some (r', l', g') \<and> reclaimer_lists g' r' s' \<and>
    rlist g' l' xs' \<and> destroyed g' = destroyed g @ ds \<and> same_outside (set (objects s xs)) g g'"
proof -
  define r1 where "r1 = r\<lparr>num_retires := num_retires r + 1\<rparr>"
  define s1 where "s1 = s\<lparr>num_retires := num_retires s + 1\<rparr>"
  have r1: "reclaimer_lists g r1 s1" "distinct (objects s1 xs)" "objects s1 xs = objects s xs"
    "current_slot s1 = current_slot r1" "num_retires s1 = num_retires r1" "num_hazard_ptrs s1 = num_hazard_ptrs r1"
    using r d by (auto simp: reclaimer_lists_def r1_def s1_def objects_def)
  have w: "work_list hz s xs = (case current_slot s1 of
      None \<Rightarrow> if num_retires s1 < 2 * num_hazard_ptrs s1 then (s1, xs, [])
              else scan_one_list hz (start_pass_list s1 xs) 0 []
    | Some c \<Rightarrow> scan_one_list hz s1 c xs)"
    unfolding work_list_def s1_def Let_def by (rule refl)
  have c: "do_reclamation_work hz r l g = (case current_slot r1 of
      None \<Rightarrow> if num_retires r1 < 2 * num_hazard_ptrs r1 then Some (r1, l, g)
              else do { (r, retired, g) \<leftarrow> start_pass r1 l g; scan_one hz r 0 retired g }
    | Some c \<Rightarrow> scan_one hz r1 c l g)"
    unfolding do_reclamation_work_def r1_def Let_def by (rule refl)
  consider (wait) "current_slot r1 = None" "num_retires r1 < 2 * num_hazard_ptrs r1"
    | (start) "current_slot r1 = None" "\<not> num_retires r1 < 2 * num_hazard_ptrs r1"
    | (scan) k where "current_slot r1 = Some k" by (cases "current_slot r1") auto
  then show ?thesis
  proof cases
    case wait
    then show ?thesis using w c r1 l s' by auto
  next
    case start
    from start_pass_refines [OF r1(1) l r1(2)] obtain r2 g2 where
      p: "start_pass r1 l g = Some (r2, RetiredList, g2)" "reclaimer_lists g2 r2 (start_pass_list s1 xs)"
        "destroyed g2 = destroyed g" "same_outside (set (objects s1 xs)) g g2" by blast
    have o: "mset (objects (start_pass_list s1 xs) []) = mset (objects s1 xs)"
      by (simp add: objects_def start_pass_list_def)
    have "distinct (objects (start_pass_list s1 xs) [])"
      using r1(2) mset_eq_imp_distinct_iff [OF o] by simp
    moreover have "rlist g2 RetiredList []" by (simp add: rlist_RetiredList)
    moreover have "scan_one_list hz (start_pass_list s1 xs) 0 [] = (s', xs', ds)"
      using w s' start r1(4-6) by simp
    ultimately obtain r' l' g' where q: "scan_one hz r2 0 RetiredList g2 = Some (r', l', g')"
      "reclaimer_lists g' r' s'" "rlist g' l' xs'" "destroyed g' = destroyed g2 @ ds"
      "same_outside (set (objects (start_pass_list s1 xs) [])) g2 g'"
      using scan_one_refines [OF p(2)] by blast
    have "do_reclamation_work hz r l g = Some (r', l', g')" using c start p(1) q(1) by simp
    moreover have "same_outside (set (objects s xs)) g g'"
      using same_outside_trans [OF p(4) q(5)] mset_eq_setD [OF o] r1(3) by simp
    ultimately show ?thesis using q p(3) by auto
  next
    case scan
    then show ?thesis using scan_one_refines [OF r1(1) l r1(2)] w c s' r1(3,4) by auto
  qed
qed

section \<open>The slots as sequences\<close>

text \<open>
  \<open>S\<close> and \<open>X\<close> give the reclaimer and the retired objects of every slot as sequences; no object is
  in two places.
\<close>

definition slot_view :: "garbage \<Rightarrow> hazard_slot \<Rightarrow> nat list reclaimer \<Rightarrow> nat list \<Rightarrow> bool" where
  "slot_view g sl s xs \<longleftrightarrow> rlist g (slot_retired sl) xs \<and> distinct (objects s xs) \<and>
     (case deamortized_reclaimer sl of
        None \<Rightarrow> eligible s = [] \<and> next_eligible s = []
      | Some r \<Rightarrow> reclaimer_lists g r s)"

definition hazards_view :: "hazards \<Rightarrow> (nat \<Rightarrow> nat list reclaimer) \<Rightarrow> (nat \<Rightarrow> nat list) \<Rightarrow> bool" where
  "hazards_view hs S X \<longleftrightarrow>
     (\<forall>i < length (slots hs). slot_view (garbage_of hs) (slots hs ! i) (S i) (X i) \<and>
        (mode hs = deamortized_reclamation \<longrightarrow> deamortized_reclaimer (slots hs ! i) \<noteq> None)) \<and>
     (\<forall>i < length (slots hs). \<forall>j < length (slots hs). i \<noteq> j \<longrightarrow>
        set (objects (S i) (X i)) \<inter> set (objects (S j) (X j)) = {})"

text \<open>\<open>retire\<close> on sequences: the new reclaimer, retired objects and count of the slot, and the objects destroyed.\<close>

definition retire_list :: "ReclamationMethod \<Rightarrow> nat option list \<Rightarrow> nat \<Rightarrow> nat list reclaimer \<Rightarrow> nat list \<Rightarrow> u32 \<Rightarrow>
    nat list reclaimer \<times> nat list \<times> u32 \<times> nat list" where
  "retire_list m hz p s xs n =
     (if m = deamortized_reclamation then
        let (s', xs', ds) = work_list hz s (p # xs) in (s', xs', n, ds)
      else if cleanup_threshold \<le> n + 1 then
        (s, filter (\<lambda>q. Some q \<in> set hz) (p # xs), 0, filter (\<lambda>q. Some q \<notin> set hz) (p # xs))
      else (s, p # xs, n + 1, []))"

lemma scan_set: "p \<in> scan_hazard_pointers sls \<longleftrightarrow> Some p \<in> set (List.map protected_ptr sls)"
  unfolding scan_hazard_pointers_def
  by (induction sls) (auto simp: map_filter_simps split: option.splits)

lemma mset_partition: "filter_mset P M + filter_mset (\<lambda>x. \<not> P x) M = M"
  by (rule multiset_partition [symmetric])

lemma scan_one_conserves:
  assumes "scan_one_list hz s c xs = (s', xs', ds)"
  shows "mset (objects s' xs') + mset ds = mset (objects s xs)"
proof -
  define P where "P = (\<lambda>p. Some p \<in> protected_set s)"
  have d: "mset (drop 2 (eligible s)) + mset (take 2 (eligible s)) = mset (eligible s)"
    by (metis add.commute append_take_drop_id mset_append)
  have "mset (objects s' xs') + mset ds =
      mset (drop 2 (eligible s)) + (filter_mset P (mset (take 2 (eligible s))) +
        filter_mset (\<lambda>x. \<not> P x) (mset (take 2 (eligible s)))) + mset xs + mset (next_eligible s)"
    using assms by (auto simp: scan_one_list_def objects_def P_def)
  then show ?thesis unfolding mset_partition d by (simp add: objects_def)
qed

lemma work_conserves:
  assumes "work_list hz s xs = (s', xs', ds)"
  shows "mset (objects s' xs') + mset ds = mset (objects s xs)"
proof -
  have "mset (objects (start_pass_list r xs) []) = mset (objects r xs)" for r
    by (simp add: objects_def start_pass_list_def)
  moreover have "objects (s\<lparr>num_retires := n\<rparr>) xs = objects s xs" for n by (simp add: objects_def)
  ultimately show ?thesis using assms scan_one_conserves [of hz _ _ _ s' xs' ds]
    unfolding work_list_def Let_def by (auto split: option.splits if_splits)
qed

lemma retire_list_conserves:
  assumes "retire_list m hz p s xs n = (s', xs', n', ds)"
  shows "mset (objects s' xs') + mset ds = add_mset p (mset (objects s xs))"
proof (cases "m = deamortized_reclamation")
  case True
  then show ?thesis using assms work_conserves [of hz s "p # xs"]
    by (auto simp: retire_list_def objects_def split: prod.splits)
next
  case False
  then show ?thesis using assms mset_partition [of "\<lambda>q. Some q \<in> set hz" "mset xs"]
    by (auto simp: retire_list_def objects_def split: if_splits)
qed

abbreviation put_slot :: "nat \<Rightarrow> hazard_slot \<Rightarrow> garbage \<Rightarrow> hazards \<Rightarrow> hazards" where
  "put_slot i sl g hs \<equiv> hs\<lparr>garbage_of := g, slots := (slots hs)[i := sl]\<rparr>"

lemma map_protected_put:
  "protected_ptr sl = protected_ptr (sls ! i) \<Longrightarrow> List.map protected_ptr (sls[i := sl]) = List.map protected_ptr sls"
  by (simp add: map_update list_update_id nth_map [symmetric] del: nth_map)
    (metis list_update_beyond list_update_id map_update not_le)

text \<open>What \<open>retire\<close> is after its push, in the two modes.\<close>

lemma retire_deamortized:
  assumes "mode hs = deamortized_reclamation" and i: "i < length (slots hs)" and "sl = slots hs ! i"
    and "push p (slot_retired sl) (garbage_of hs) = Some (l1, g1)" and "deamortized_reclaimer sl = Some r"
    and "do_reclamation_work (List.map protected_ptr (slots hs)) r l1 g1 = Some (r', l', g')"
  shows "retire i p hs = Some (put_slot i (sl\<lparr>slot_retired := l', deamortized_reclaimer := Some r'\<rparr>) g' hs)"
  using assms by (simp add: retire_def Let_def map_protected_put)

lemma retire_amortized:
  assumes "mode hs \<noteq> deamortized_reclamation" and i: "i < length (slots hs)" and "sl = slots hs ! i"
    and "push p (slot_retired sl) (garbage_of hs) = Some (l1, g1)"
    and "n = num_retires_since_cleanup sl + 1"
    and "cleanup (\<lambda>q. Some q \<in> set (List.map protected_ptr (slots hs))) l1 g1 = Some (l', g')"
  shows "retire i p hs = Some (if cleanup_threshold \<le> n
    then put_slot i (sl\<lparr>slot_retired := l', num_retires_since_cleanup := 0\<rparr>) g' hs
    else put_slot i (sl\<lparr>slot_retired := l1, num_retires_since_cleanup := n\<rparr>) g1 hs)"
  using assms by (simp add: retire_def Let_def cleanup_slot_def scan_set map_protected_put del: set_map)

lemma recl_frame:
  assumes "slot_view g sl s xs" and "same_outside A g g'" and "A \<inter> set (eligible s @ next_eligible s) = {}"
  shows "case deamortized_reclaimer sl of None \<Rightarrow> eligible s = [] \<and> next_eligible s = []
    | Some r \<Rightarrow> reclaimer_lists g' r s"
  using assms rlist_frame [OF _ assms(2)]
  by (auto simp: slot_view_def reclaimer_lists_def Int_Un_distrib split: option.splits)

lemma same_outside_mono: "same_outside A g g' \<Longrightarrow> A \<subseteq> B \<Longrightarrow> same_outside B g g'"
  by (auto simp: same_outside_def)

definition slot_result :: "garbage \<Rightarrow> hazard_slot \<Rightarrow> nat set \<Rightarrow> garbage \<Rightarrow> hazard_slot \<Rightarrow>
    nat list reclaimer \<times> nat list \<times> u32 \<times> nat list \<Rightarrow> bool" where
  "slot_result g sl A g' sl' res \<longleftrightarrow> (case res of (s', xs', n', ds) \<Rightarrow>
     slot_view g' sl' s' xs' \<and> num_retires_since_cleanup sl' = n' \<and>
     protected_ptr sl' = protected_ptr sl \<and> in_use sl' = in_use sl \<and>
     (deamortized_reclaimer sl' = None \<longleftrightarrow> deamortized_reclaimer sl = None) \<and>
     destroyed g' = destroyed g @ ds \<and> same_outside A g g')"

lemma retire_list_distinct:
  assumes "retire_list m hz p s xs n = (s', xs', n', ds)" and "distinct (objects s xs)" and "p \<notin> set (objects s xs)"
  shows "distinct (objects s' xs') \<and> distinct ds \<and> set (objects s' xs') \<union> set ds = insert p (set (objects s xs)) \<and>
    set (objects s' xs') \<inter> set ds = {}"
proof -
  have eq: "mset (objects s' xs' @ ds) = mset (p # objects s xs)"
    using retire_list_conserves [OF assms(1)] by simp
  then have "distinct (objects s' xs' @ ds)" using mset_eq_imp_distinct_iff [OF eq] assms(2,3) by simp
  moreover have "set (objects s' xs' @ ds) = set (p # objects s xs)" using eq by (rule mset_eq_setD)
  ultimately show ?thesis by auto
qed

lemma retire_slot:
  assumes v: "hazards_view hs S X" and i: "i < length (slots hs)"
    and p: "p \<notin> set (objects (S i) (X i))" "p \<notin> set (destroyed (garbage_of hs))"
  shows "\<exists>sl' g'. retire i p hs = Some (put_slot i sl' g' hs) \<and>
    slot_result (garbage_of hs) (slots hs ! i) (insert p (set (objects (S i) (X i)))) g' sl'
      (retire_list (mode hs) (List.map protected_ptr (slots hs)) p (S i) (X i) (num_retires_since_cleanup (slots hs ! i)))"
proof -
  define sl where "sl = slots hs ! i"
  define hz where "hz = List.map protected_ptr (slots hs)"
  define n where "n = num_retires_since_cleanup sl + 1"
  define A where "A = insert p (set (objects (S i) (X i)))"
  obtain s' xs' n' ds where rl: "retire_list (mode hs) hz p (S i) (X i) (num_retires_since_cleanup sl) = (s', xs', n', ds)"
    by (cases "retire_list (mode hs) hz p (S i) (X i) (num_retires_since_cleanup sl)") auto
  have sv: "slot_view (garbage_of hs) sl (S i) (X i)" using v i unfolding hazards_view_def sl_def by blast
  then have x: "rlist (garbage_of hs) (slot_retired sl) (X i)" "p \<notin> set (X i)" "distinct (objects (S i) (X i))"
    using p(1) unfolding slot_view_def objects_def by auto
  have dd: "distinct (objects s' xs')" using retire_list_distinct [OF rl x(3) p(1)] by blast
  from push_rlist [OF x(1,2) p(2)] obtain l1 g1 where
    pu: "push p (slot_retired sl) (garbage_of hs) = Some (l1, g1)" "rlist g1 l1 (p # X i)"
      "destroyed g1 = destroyed (garbage_of hs)" "same_outside {p} (garbage_of hs) g1" by blast
  from cleanup_rlist [OF pu(2), of "\<lambda>q. Some q \<in> set hz"] obtain l' g' where
    c: "cleanup (\<lambda>q. Some q \<in> set hz) l1 g1 = Some (l', g')" "rlist g' l' (filter (\<lambda>q. Some q \<in> set hz) (p # X i))"
      "destroyed g' = destroyed g1 @ filter (\<lambda>q. Some q \<notin> set hz) (p # X i)" "same_outside (set (p # X i)) g1 g'" by blast
  have so: "same_outside (set (p # X i)) (garbage_of hs) g'" "same_outside (set (p # X i)) (garbage_of hs) g1"
    using same_outside_trans [OF pu(4) c(4)] same_outside_mono [OF pu(4)] by auto
  have sub: "set (p # X i) \<subseteq> A" unfolding A_def objects_def by auto
  have dis: "set (p # X i) \<inter> set (eligible (S i) @ next_eligible (S i)) = {}"
    using x(3) p(1) unfolding objects_def by auto
  show ?thesis
    unfolding sl_def [symmetric] hz_def [symmetric] A_def [symmetric] rl slot_result_def prod.case
  proof (cases "mode hs = deamortized_reclamation")
    case True
    then obtain r where r: "deamortized_reclaimer sl = Some r" "reclaimer_lists (garbage_of hs) r (S i)"
      using v i sv unfolding hazards_view_def slot_view_def sl_def by (auto split: option.splits)
    have wl: "work_list hz (S i) (p # X i) = (s', xs', ds)" "n' = num_retires_since_cleanup sl"
      using rl True by (auto simp: retire_list_def split: prod.splits)
    have "reclaimer_lists g1 r (S i)"
      using recl_frame [OF sv pu(4)] r(1) p(1) unfolding objects_def by auto
    moreover have "distinct (objects (S i) (p # X i))" using x(3) p(1) unfolding objects_def by auto
    ultimately obtain r' l' g' where
      w: "do_reclamation_work hz r l1 g1 = Some (r', l', g')" "reclaimer_lists g' r' s'" "rlist g' l' xs'"
        "destroyed g' = destroyed g1 @ ds" "same_outside (set (objects (S i) (p # X i))) g1 g'"
      using work_refines [OF _ pu(2) _ wl(1)] by blast
    have "same_outside A (garbage_of hs) g'"
      using same_outside_trans [OF pu(4) w(5), of A] unfolding A_def objects_def by auto
    then show "\<exists>sl' g'. retire i p hs = Some (put_slot i sl' g' hs) \<and> slot_view g' sl' s' xs' \<and>
       num_retires_since_cleanup sl' = n' \<and> protected_ptr sl' = protected_ptr sl \<and> in_use sl' = in_use sl \<and>
       (deamortized_reclaimer sl' = None \<longleftrightarrow> deamortized_reclaimer sl = None) \<and>
       destroyed g' = destroyed (garbage_of hs) @ ds \<and> same_outside A (garbage_of hs) g'"
      using retire_deamortized [OF True i sl_def pu(1) r(1) w(1) [unfolded hz_def]] w dd wl(2) r(1) pu(3)
      by (intro exI [of _ "sl\<lparr>slot_retired := l', deamortized_reclaimer := Some r'\<rparr>"] exI [of _ g'])
        (simp add: slot_view_def)
  next
    case False
    note ret = retire_amortized [OF False i sl_def pu(1) n_def c(1) [unfolded hz_def]]
    show "\<exists>sl' g'. retire i p hs = Some (put_slot i sl' g' hs) \<and> slot_view g' sl' s' xs' \<and>
       num_retires_since_cleanup sl' = n' \<and> protected_ptr sl' = protected_ptr sl \<and> in_use sl' = in_use sl \<and>
       (deamortized_reclaimer sl' = None \<longleftrightarrow> deamortized_reclaimer sl = None) \<and>
       destroyed g' = destroyed (garbage_of hs) @ ds \<and> same_outside A (garbage_of hs) g'"
    proof (cases "cleanup_threshold \<le> n")
      case True
      then show ?thesis using ret rl False c(2,3) pu(3) dd recl_frame [OF sv so(1) dis] same_outside_mono [OF so(1) sub]
        by (intro exI [of _ "sl\<lparr>slot_retired := l', num_retires_since_cleanup := 0\<rparr>"] exI [of _ g'])
          (auto simp: slot_view_def retire_list_def n_def)
    next
      case F: False
      then show ?thesis using ret rl False pu(2,3) dd recl_frame [OF sv so(2) dis] same_outside_mono [OF so(2) sub]
        by (intro exI [of _ "sl\<lparr>slot_retired := l1, num_retires_since_cleanup := n\<rparr>"] exI [of _ g1])
          (auto simp: slot_view_def retire_list_def n_def)
    qed
  qed
qed

lemma slot_view_frame:
  assumes "slot_view g sl s xs" and "same_outside A g g'" and "A \<inter> set (objects s xs) = {}"
  shows "slot_view g' sl s xs"
proof -
  have "rlist g' (slot_retired sl) xs" using assms rlist_frame [OF _ assms(2)]
    by (auto simp: slot_view_def objects_def Int_Un_distrib)
  moreover have "A \<inter> set (eligible s @ next_eligible s) = {}" using assms(3) by (auto simp: objects_def)
  ultimately show ?thesis using recl_frame [OF assms(1,2)] assms(1) by (auto simp: slot_view_def)
qed

section \<open>What the operations promise\<close>

lemma hazards_view_D:
  assumes "hazards_view hs S X" and "i < length (slots hs)"
  shows "slot_view (garbage_of hs) (slots hs ! i) (S i) (X i)" "distinct (objects (S i) (X i))"
  using assms by (auto simp: hazards_view_def slot_view_def)

lemma retire_view:
  assumes v: "hazards_view hs S X" and i: "i < length (slots hs)"
    and p: "\<And>j. j < length (slots hs) \<Longrightarrow> p \<notin> set (objects (S j) (X j))" "p \<notin> set (destroyed (garbage_of hs))"
    and rl: "retire_list (mode hs) (List.map protected_ptr (slots hs)) p (S i) (X i)
        (num_retires_since_cleanup (slots hs ! i)) = (s', xs', n', ds)"
  shows "\<exists>hs'. retire i p hs = Some hs' \<and> hazards_view hs' (S(i := s')) (X(i := xs')) \<and>
    destroyed (garbage_of hs') = destroyed (garbage_of hs) @ ds \<and>
    num_retires_since_cleanup (slots hs' ! i) = n' \<and>
    List.map protected_ptr (slots hs') = List.map protected_ptr (slots hs)"
proof -
  define A where "A = insert p (set (objects (S i) (X i)))"
  from retire_slot [OF v i p(1) [OF i] p(2)] rl obtain sl' g' where
    ret: "retire i p hs = Some (put_slot i sl' g' hs)" and sv: "slot_view g' sl' s' xs'"
    and n': "num_retires_since_cleanup sl' = n'" and pp: "protected_ptr sl' = protected_ptr (slots hs ! i)"
    and dr: "deamortized_reclaimer sl' = None \<longleftrightarrow> deamortized_reclaimer (slots hs ! i) = None"
    and ds: "destroyed g' = destroyed (garbage_of hs) @ ds" and so: "same_outside A (garbage_of hs) g'"
    unfolding slot_result_def A_def by auto
  have sub: "set (objects s' xs') \<subseteq> A"
    using retire_list_distinct [OF rl hazards_view_D(2) [OF v i] p(1) [OF i]] unfolding A_def by blast
  have dis: "A \<inter> set (objects (S j) (X j)) = {}" if "j < length (slots hs)" "j \<noteq> i" for j
    using that v i p(1) [OF that(1)] unfolding hazards_view_def A_def by (auto simp: disjoint_iff)
  have "slot_view g' (slots hs ! j) (S j) (X j)" if "j < length (slots hs)" "j \<noteq> i" for j
    using slot_view_frame [OF hazards_view_D(1) [OF v that(1)] so dis [OF that]] .
  moreover have "set (objects (S j) (X j)) \<inter> set (objects (S k) (X k)) = {}"
    if "j < length (slots hs)" "k < length (slots hs)" "j \<noteq> k" for j k
    using that v unfolding hazards_view_def by blast
  ultimately have "hazards_view (put_slot i sl' g' hs) (S(i := s')) (X(i := xs'))"
    using v i sv dr dis sub unfolding hazards_view_def
    by (auto simp: nth_list_update)
  then show ?thesis using ret n' pp ds i
    by (intro exI [of _ "put_slot i sl' g' hs"]) (simp add: map_protected_put)
qed

text \<open>C25. \<open>retire\<close> returns: it fails no assertion, touches no destroyed object and its loops end. Every
  object that was handed to it is afterwards either still on a list or destroyed exactly once,
  the other slots keep their objects, and in the amortized mode no object is destroyed that
  some slot protects, while every object a cleanup leaves behind is protected.\<close>

theorem retire_reclaims:
  assumes v: "hazards_view hs S X" and i: "i < length (slots hs)"
    and p: "\<forall>j < length (slots hs). p \<notin> set (objects (S j) (X j))" "p \<notin> set (destroyed (garbage_of hs))"
  shows "\<exists>hs' s' xs' ds. retire i p hs = Some hs' \<and> hazards_view hs' (S(i := s')) (X(i := xs')) \<and>
    destroyed (garbage_of hs') = destroyed (garbage_of hs) @ ds \<and>
    mset (objects s' xs') + mset ds = add_mset p (mset (objects (S i) (X i))) \<and>
    (mode hs = amortized_reclamation \<longrightarrow>
       (\<forall>q j. q \<in> set ds \<and> j < length (slots hs) \<longrightarrow> protected_ptr (slots hs ! j) \<noteq> Some q) \<and>
       (cleanup_threshold \<le> num_retires_since_cleanup (slots hs ! i) + 1 \<longrightarrow>
          (\<forall>q \<in> set xs'. \<exists>j < length (slots hs). protected_ptr (slots hs ! j) = Some q)))"
proof -
  let ?hz = "List.map protected_ptr (slots hs)" and ?n = "num_retires_since_cleanup (slots hs ! i)"
  obtain s' xs' n' ds where rl: "retire_list (mode hs) ?hz p (S i) (X i) ?n = (s', xs', n', ds)"
    by (cases "retire_list (mode hs) ?hz p (S i) (X i) ?n") auto
  have "p \<notin> set (objects (S j) (X j))" if "j < length (slots hs)" for j using p(1) that by blast
  then obtain hs' where
    r: "retire i p hs = Some hs'" "hazards_view hs' (S(i := s')) (X(i := xs'))"
      "destroyed (garbage_of hs') = destroyed (garbage_of hs) @ ds"
    using retire_view [OF v i _ p(2) rl] by blast
  have hz: "Some q \<in> set ?hz \<longleftrightarrow> (\<exists>j < length (slots hs). protected_ptr (slots hs ! j) = Some q)" for q
    using in_set_conv_nth [of "Some q" ?hz] unfolding length_map by (metis nth_map)
  have am: "(\<forall>q \<in> set ds. Some q \<notin> set ?hz) \<and> (cleanup_threshold \<le> ?n + 1 \<longrightarrow> (\<forall>q \<in> set xs'. Some q \<in> set ?hz))"
    if "mode hs = amortized_reclamation"
  proof (cases "cleanup_threshold \<le> ?n + 1")
    case True
    then have "xs' = filter (\<lambda>q. Some q \<in> set ?hz) (p # X i)" "ds = filter (\<lambda>q. Some q \<notin> set ?hz) (p # X i)"
      using rl that unfolding retire_list_def by auto
    then show ?thesis by (simp only: set_filter mem_Collect_eq) blast
  next
    case False
    then have "ds = []" using rl that unfolding retire_list_def by auto
    with False show ?thesis by simp
  qed
  have "mode hs = amortized_reclamation \<longrightarrow>
       (\<forall>q j. q \<in> set ds \<and> j < length (slots hs) \<longrightarrow> protected_ptr (slots hs ! j) \<noteq> Some q) \<and>
       (cleanup_threshold \<le> ?n + 1 \<longrightarrow>
          (\<forall>q \<in> set xs'. \<exists>j < length (slots hs). protected_ptr (slots hs ! j) = Some q))"
    using am unfolding hz by blast
  then show ?thesis using r(1-3) retire_list_conserves [OF rl] by blast
qed

text \<open>A retired object is destroyed at the next cleanup unless it is protected.\<close>

definition example_slots :: hazards where
  "example_slots = \<lparr>
     slots = [\<lparr>protected_ptr = None, slot_retired = RetiredList, num_retires_since_cleanup = 1999, in_use = True, deamortized_reclaimer = None\<rparr>,
              \<lparr>protected_ptr = Some 8, slot_retired = RetiredList, num_retires_since_cleanup = 0, in_use = True, deamortized_reclaimer = None\<rparr>],
     mode = amortized_reclamation, protection_order = memory_order_relaxed,
     garbage_of = \<lparr>next_of = \<lambda>_. None, destroyed = []\<rparr>\<rparr>"

definition no_objects :: "nat list reclaimer" where
  "no_objects = \<lparr>current_slot = None, protected_set = {}, next_protected_set = {}, eligible = [], next_eligible = [],
     num_hazard_ptrs = 0, next_num_hazard_ptrs = 0, num_retires = 0\<rparr>"

lemma example_view: "hazards_view example_slots (\<lambda>_. no_objects) (\<lambda>_. [])"
  by (auto simp: hazards_view_def slot_view_def example_slots_def no_objects_def objects_def rlist_RetiredList
      less_Suc_eq nth_Cons')

lemma retire_reclaims_witness:
  "(\<exists>hs'. retire 0 7 example_slots = Some hs' \<and> set (destroyed (garbage_of hs')) \<subseteq> {7}) \<and>
   map_option (\<lambda>hs. destroyed (garbage_of hs)) (retire 0 7 example_slots) = Some [7] \<and>
   map_option (\<lambda>hs. destroyed (garbage_of hs)) (retire 0 8 example_slots) = Some []"
proof -
  have "0 < length (slots example_slots)" "7 \<notin> set (destroyed (garbage_of example_slots))"
    by (simp_all add: example_slots_def)
  moreover have "\<forall>j < length (slots example_slots). 7 \<notin> set (objects no_objects [])"
    by (simp add: objects_def no_objects_def)
  ultimately obtain hs' s' xs' ds where "retire 0 7 example_slots = Some hs'"
    "destroyed (garbage_of hs') = destroyed (garbage_of example_slots) @ ds"
    "mset (objects s' xs') + mset ds = add_mset 7 (mset (objects no_objects []))"
    using retire_reclaims [OF example_view, of 0 7] by auto
  moreover have "set ds \<subseteq> {7}" if "mset (objects s' xs') + mset ds = {#7#}" for s' xs'
    using that by (metis mset_subset_eq_add_right set_mset_add_mset_insert set_mset_empty set_mset_mono set_mset_mset)
  moreover have "map_option (\<lambda>hs. destroyed (garbage_of hs)) (retire 0 7 example_slots) = Some [7]"
    "map_option (\<lambda>hs. destroyed (garbage_of hs)) (retire 0 8 example_slots) = Some []" by code_simp+
  ultimately show ?thesis by (auto simp: example_slots_def objects_def no_objects_def)
qed

end
