(* ===== verification/Hazard_Safety.thy ===== *)
theory Hazard_Safety
  imports Hazard_Pointers
begin

text \<open>
  The accesses of several threads to the hazard pointers of \<open>HazardPointers.h\<close>, interleaved at
  every load and store of a slot or of a protected location, under sequential consistency (the
  two sides of the asymmetric fence order the store of a hazard pointer before the second read
  of \<open>protect\<close> and the retirement before the scan). Retired objects are the sequences of
  \<open>Hazard_Pointers\<close>. The invariant gives the promise of the scheme: an object that \<open>protect\<close> has
  returned is not destroyed before the thread gives it up; no object is destroyed twice; and
  the retired objects that wait stay bounded.
\<close>

section \<open>The system\<close>

text \<open>
  A thread reads with \<open>protect\<close>: the value it loaded, the value whose hazard pointer it stored, and
  the value it read again and now relies on.
\<close>

datatype reader =
    R_idle
  | R_loaded nat nat
  | R_stored nat nat
  | R_holding nat

text \<open>A cleanup reads the slots one after the other into its protected set.\<close>

datatype cleaner = C_idle | C_scan nat "nat set"

text \<open>
  \<open>locs\<close> are the atomic locations that clients share, \<open>hazard\<close> the protected pointers of the slots,
  \<open>owned\<close> the slots in use. The last two fields are history: the objects destroyed, in order, and
  all objects that were ever retired.
\<close>

record hp_state =
  locs :: "nat \<Rightarrow> nat option"
  hazard :: "nat option list"
  owned :: "nat \<Rightarrow> bool"
  reading :: "nat \<Rightarrow> reader"
  waiting :: "nat \<Rightarrow> nat list"
  retire_count :: "nat \<Rightarrow> u32"
  reclaiming :: "nat \<Rightarrow> nat list reclaimer"
  cleaning :: "nat \<Rightarrow> cleaner"
  reclamation :: ReclamationMethod
  freed :: "nat list"
  ever_retired :: "nat set"

definition fresh_reclaimer :: "u32 \<Rightarrow> nat list reclaimer" where
  "fresh_reclaimer hardware_concurrency =
     \<lparr>current_slot = None, protected_set = {}, next_protected_set = {}, eligible = [], next_eligible = [],
      num_hazard_ptrs = hardware_concurrency, next_num_hazard_ptrs = hardware_concurrency, num_retires = 0\<rparr>"

definition hp_init :: "u32 \<Rightarrow> hp_state \<Rightarrow> bool" where
  "hp_init P s \<longleftrightarrow>
     hazard s = replicate (max 1 (unat P)) None \<and> owned s = (\<lambda>_. False) \<and> reading s = (\<lambda>_. R_idle) \<and>
     waiting s = (\<lambda>_. []) \<and> retire_count s = (\<lambda>_. 0) \<and> reclaiming s = (\<lambda>_. fresh_reclaimer P) \<and>
     cleaning s = (\<lambda>_. C_idle) \<and> freed s = [] \<and> ever_retired s = {}"

text \<open>
  The steps. A client stores only objects that were not retired, and retires only an object that
  no location holds, once: the contract of \<open>retire\<close> (the object is no longer reachable for new
  readers).
\<close>

inductive hp_step :: "hp_state \<Rightarrow> hp_state \<Rightarrow> bool" where
  acquire_slot:
    "i < length (hazard s) \<Longrightarrow> \<not> owned s i \<Longrightarrow> hp_step s (s\<lparr>owned := (owned s)(i := True)\<rparr>)"
| append_slot:
    "hp_step s (s\<lparr>hazard := hazard s @ [None], owned := (owned s)(length (hazard s) := True)\<rparr>)"
| relinquish:
    "owned s i \<Longrightarrow> cleaning s i = C_idle \<Longrightarrow>
     hp_step s (s\<lparr>owned := (owned s)(i := False), reading := (reading s)(i := R_idle)\<rparr>)"
| client_write:
    "(\<forall>p. v = Some p \<longrightarrow> p \<notin> ever_retired s) \<Longrightarrow> hp_step s (s\<lparr>locs := (locs s)(a := v)\<rparr>)"
| protect_null:
    "owned s i \<Longrightarrow> reading s i = R_idle \<or> reading s i = R_holding q \<Longrightarrow> locs s a = None \<Longrightarrow>
     hp_step s (s\<lparr>reading := (reading s)(i := R_idle)\<rparr>)"
| protect_load:
    "owned s i \<Longrightarrow> reading s i = R_idle \<or> reading s i = R_holding q \<Longrightarrow> locs s a = Some p \<Longrightarrow>
     hp_step s (s\<lparr>reading := (reading s)(i := R_loaded a p)\<rparr>)"
| protect_store:
    "owned s i \<Longrightarrow> reading s i = R_loaded a p \<Longrightarrow>
     hp_step s (s\<lparr>hazard := (hazard s)[i := Some p], reading := (reading s)(i := R_stored a p)\<rparr>)"
| protect_same:
    "owned s i \<Longrightarrow> reading s i = R_stored a p \<Longrightarrow> locs s a = Some p \<Longrightarrow>
     hp_step s (s\<lparr>reading := (reading s)(i := R_holding p)\<rparr>)"
| protect_changed:
    "owned s i \<Longrightarrow> reading s i = R_stored a p \<Longrightarrow> locs s a = Some q \<Longrightarrow> q \<noteq> p \<Longrightarrow>
     hp_step s (s\<lparr>reading := (reading s)(i := R_loaded a q)\<rparr>)"
| protect_gone:
    "owned s i \<Longrightarrow> reading s i = R_stored a p \<Longrightarrow> locs s a = None \<Longrightarrow>
     hp_step s (s\<lparr>reading := (reading s)(i := R_idle)\<rparr>)"
| release_slot:
    "owned s i \<Longrightarrow> reading s i = R_idle \<or> reading s i = R_holding q \<Longrightarrow>
     hp_step s (s\<lparr>hazard := (hazard s)[i := None], reading := (reading s)(i := R_idle)\<rparr>)"
| retire_amortized:
    "owned s i \<Longrightarrow> cleaning s i = C_idle \<Longrightarrow> reclamation s = amortized_reclamation \<Longrightarrow>
     p \<notin> ever_retired s \<Longrightarrow> (\<forall>a. locs s a \<noteq> Some p) \<Longrightarrow>
     hp_step s (s\<lparr>waiting := (waiting s)(i := p # waiting s i), ever_retired := insert p (ever_retired s),
       retire_count := (retire_count s)(i := if cleanup_threshold \<le> retire_count s i + 1 then 0 else retire_count s i + 1),
       cleaning := (cleaning s)(i := if cleanup_threshold \<le> retire_count s i + 1 then C_scan 0 {} else C_idle)\<rparr>)"
| scan_slot:
    "cleaning s i = C_scan k acc \<Longrightarrow> k < length (hazard s) \<Longrightarrow>
     hp_step s (s\<lparr>cleaning := (cleaning s)(i := C_scan (Suc k) (acc \<union> set_option (hazard s ! k)))\<rparr>)"
| scan_done:
    "cleaning s i = C_scan k acc \<Longrightarrow> k = length (hazard s) \<Longrightarrow>
     hp_step s (s\<lparr>cleaning := (cleaning s)(i := C_idle),
       waiting := (waiting s)(i := filter (\<lambda>p. p \<in> acc) (waiting s i)),
       freed := freed s @ filter (\<lambda>p. p \<notin> acc) (waiting s i)\<rparr>)"
| retire_deamortized:
    "owned s i \<Longrightarrow> cleaning s i = C_idle \<Longrightarrow> reclamation s = deamortized_reclamation \<Longrightarrow>
     p \<notin> ever_retired s \<Longrightarrow> (\<forall>a. locs s a \<noteq> Some p) \<Longrightarrow>
     work_list (hazard s) (reclaiming s i) (p # waiting s i) = (r, xs, ds) \<Longrightarrow>
     hp_step s (s\<lparr>waiting := (waiting s)(i := xs), reclaiming := (reclaiming s)(i := r),
       ever_retired := insert p (ever_retired s), freed := freed s @ ds\<rparr>)"

section \<open>The invariant\<close>

text \<open>
  \<open>seen s u i p\<close>: what slot \<open>i\<close>, which relies on \<open>p\<close>, may expect of the reclaimer of slot \<open>u\<close>. A pass
  over the slots either still has \<open>i\<close> before it or has recorded \<open>p\<close>.
\<close>

definition seen :: "hp_state \<Rightarrow> nat \<Rightarrow> nat \<Rightarrow> nat \<Rightarrow> bool" where
  "seen s u i p \<longleftrightarrow>
     (p \<in> set (waiting s u) \<longrightarrow> (\<forall>k acc. cleaning s u = C_scan k acc \<longrightarrow> p \<in> acc \<or> k \<le> i)) \<and>
     (p \<in> set (eligible (reclaiming s u)) \<longrightarrow> Some p \<in> protected_set (reclaiming s u)) \<and>
     (p \<in> set (eligible (reclaiming s u)) \<union> set (next_eligible (reclaiming s u)) \<longrightarrow>
        Some p \<in> next_protected_set (reclaiming s u) \<or>
        (\<exists>k. current_slot (reclaiming s u) = Some k \<and> k \<le> i))"

definition safe :: "hp_state \<Rightarrow> bool" where
  "safe s \<longleftrightarrow> (\<forall>i p. reading s i = R_holding p \<longrightarrow>
     i < length (hazard s) \<and> hazard s ! i = Some p \<and> p \<notin> set (freed s) \<and> (\<forall>u. seen s u i p))"

definition here :: "hp_state \<Rightarrow> nat \<Rightarrow> nat list" where
  "here s u = objects (reclaiming s u) (waiting s u)"

text \<open>Where the objects are: each retired object in one place.\<close>

definition placed :: "hp_state \<Rightarrow> bool" where
  "placed s \<longleftrightarrow> (\<forall>u. distinct (here s u)) \<and> distinct (freed s) \<and>
     (\<forall>u v. u \<noteq> v \<longrightarrow> set (here s u) \<inter> set (here s v) = {}) \<and> (\<forall>u. set (here s u) \<inter> set (freed s) = {}) \<and>
     (\<Union>u. set (here s u)) \<union> set (freed s) = ever_retired s"

definition shape :: "hp_state \<Rightarrow> bool" where
  "shape s \<longleftrightarrow> (\<forall>i. owned s i \<longrightarrow> i < length (hazard s)) \<and>
     (\<forall>i. \<not> owned s i \<longrightarrow> reading s i = R_idle) \<and>
     (\<forall>i a p. reading s i = R_stored a p \<longrightarrow> hazard s ! i = Some p) \<and>
     (\<forall>a p. locs s a = Some p \<longrightarrow> p \<notin> ever_retired s) \<and>
     (\<forall>u k acc. cleaning s u = C_scan k acc \<longrightarrow> k \<le> length (hazard s) \<and> owned s u) \<and>
     (\<forall>u k. current_slot (reclaiming s u) = Some k \<longrightarrow> k < length (hazard s)) \<and>
     0 < length (hazard s)"

definition hp_inv :: "hp_state \<Rightarrow> bool" where
  "hp_inv s \<longleftrightarrow> shape s \<and> placed s \<and> safe s"


lemma hp_invD: "hp_inv s \<Longrightarrow> shape s" "hp_inv s \<Longrightarrow> placed s" "hp_inv s \<Longrightarrow> safe s"
  by (simp_all add: hp_inv_def)

text \<open>An object that was never retired is nowhere.\<close>

lemma not_retired:
  "placed s \<Longrightarrow> p \<notin> ever_retired s \<Longrightarrow> p \<notin> set (here s u) \<and> p \<notin> set (freed s)"
  unfolding placed_def by blast

lemma seen_fresh: "p \<notin> set (here s u) \<Longrightarrow> seen s u i p"
  by (auto simp: seen_def here_def objects_def)

lemma placed_update:
  assumes "placed s" and "here s' = (here s)(u := ys)" and "freed s' = freed s @ ds"
    and "ever_retired s' = N \<union> ever_retired s" and "N \<inter> ever_retired s = {}"
    and "distinct (ys @ ds)" and "set ys \<union> set ds = N \<union> set (here s u)"
  shows "placed s'"
proof -
  have p: "distinct (freed s)" "\<And>v. distinct (here s v)" "\<And>v w. v \<noteq> w \<Longrightarrow> set (here s v) \<inter> set (here s w) = {}"
    "\<And>v. set (here s v) \<inter> set (freed s) = {}" "(\<Union>v. set (here s v)) \<union> set (freed s) = ever_retired s"
    using assms(1) unfolding placed_def by blast+
  have N: "N \<inter> set (here s v) = {}" "N \<inter> set (freed s) = {}" for v using assms(5) p(5) by blast+
  have "distinct (here s' v)" for v using p(2) assms(2,6) by simp
  moreover have "distinct (freed s')" using assms(3,6,7) p(1) p(4) [of u] N(2) by auto
  moreover have "set (here s' v) \<inter> set (here s' w) = {}" if "v \<noteq> w" for v w
  proof -
    have "set ys \<inter> set (here s x) = {}" if "x \<noteq> u" for x using assms(7) N(1) [of x] p(3) [OF that] by blast
    then show ?thesis using that assms(2) p(3) [OF that] by (auto split: if_splits)
  qed
  moreover have "set (here s' v) \<inter> set (freed s') = {}" for v
  proof -
    have "set ys \<inter> set (freed s) = {}" "set ys \<inter> set ds = {}" using assms(6,7) N(2) p(4) [of u] by auto
    moreover have "set (here s v) \<inter> set ds = {}" if "v \<noteq> u" using assms(7) N(1) [of v] p(3) [OF that] by blast
    ultimately show ?thesis using assms(2,3) p(4) [of v] by (auto split: if_splits)
  qed
  moreover have "(\<Union>v. set (here s' v)) \<union> set (freed s') = ever_retired s'"
  proof -
    define W where "W = (\<Union>v \<in> - {u}. set (here s v))"
    have "(\<Union>v. set (here s v)) = set (here s u) \<union> W" unfolding W_def by auto
    moreover have "(\<Union>v. set (here s' v)) = set ys \<union> W" unfolding W_def assms(2) by (auto split: if_splits)
    ultimately show ?thesis using assms(3,4,7) p(5) by auto
  qed
  ultimately show ?thesis unfolding placed_def by blast
qed

text \<open>One call of \<open>do_reclamation_work\<close> keeps what a protecting slot relies on.\<close>

definition covered :: "nat list reclaimer \<Rightarrow> nat \<Rightarrow> nat \<Rightarrow> bool" where
  "covered r i p \<longleftrightarrow> (p \<in> set (eligible r) \<longrightarrow> Some p \<in> protected_set r) \<and>
     (p \<in> set (eligible r) \<union> set (next_eligible r) \<longrightarrow>
        Some p \<in> next_protected_set r \<or> (\<exists>k. current_slot r = Some k \<and> k \<le> i))"

lemma scan_one_covered:
  assumes "covered r i p" and "current_slot r = Some c" and "i < length hz" and "hz ! i = Some p"
    and "scan_one_list hz r c xs = (r', xs', ds)"
  shows "covered r' i p \<and> p \<notin> set ds"
proof -
  have "p \<notin> set ds" using assms(1,5) by (auto simp: covered_def scan_one_list_def dest: in_set_takeD)
  moreover have "Some p \<in> next_protected_set r' \<or> (\<exists>k. current_slot r' = Some k \<and> k \<le> i)"
    if "Some p \<in> next_protected_set r \<or> c \<le> i"
    using that assms(3-5) by (cases "c = i") (auto simp: scan_one_list_def)
  ultimately show ?thesis using assms(1,2,5)
    by (auto simp: covered_def scan_one_list_def dest: in_set_dropD)
qed

lemma work_covered:
  assumes "covered r i p" and "i < length hz" and "hz ! i = Some p" and "work_list hz r xs = (r', xs', ds)"
  shows "covered r' i p \<and> p \<notin> set ds"
proof -
  define s where "s = r\<lparr>num_retires := num_retires r + 1\<rparr>"
  have s: "covered s i p" using assms(1) by (simp add: covered_def s_def)
  have w: "(case current_slot s of
      None \<Rightarrow> if num_retires s < 2 * num_hazard_ptrs s then (s, xs, [])
              else scan_one_list hz (start_pass_list s xs) 0 []
    | Some c \<Rightarrow> scan_one_list hz s c xs) = (r', xs', ds)"
    using assms(4) unfolding work_list_def s_def Let_def .
  show ?thesis
  proof (cases "current_slot s")
    case None
    then have "covered (start_pass_list s xs) i p" "current_slot (start_pass_list s xs) = Some 0"
      using s by (auto simp: covered_def start_pass_list_def)
    then show ?thesis using w None s scan_one_covered [OF _ _ assms(2,3)] by (auto split: if_splits)
  next
    case (Some c)
    then show ?thesis using w scan_one_covered [OF s Some assms(2,3)] by simp
  qed
qed

lemma work_current:
  assumes "work_list hz r xs = (r', xs', ds)" and "current_slot r' = Some k" and "0 < length hz"
    and "\<And>c. current_slot r = Some c \<Longrightarrow> c < length hz"
  shows "k < length hz"
  using assms unfolding work_list_def Let_def
  by (auto simp: scan_one_list_def split: option.splits if_splits)

lemma seen_covered: "seen s u i p \<longleftrightarrow>
    (p \<in> set (waiting s u) \<longrightarrow> (\<forall>k acc. cleaning s u = C_scan k acc \<longrightarrow> p \<in> acc \<or> k \<le> i)) \<and>
    covered (reclaiming s u) i p"
  by (simp add: seen_def covered_def)

lemma shape_step:
  assumes "hp_inv s" and "hp_step s t"
  shows "shape t"
  using assms(2)
proof cases
  case (retire_deamortized i p r xs ds)
  have "k < length (hazard s)" if "current_slot r = Some k" for k
    using work_current [OF retire_deamortized(7) that] hp_invD(1) [OF assms(1)] unfolding shape_def by blast
  then show ?thesis using retire_deamortized hp_invD(1) [OF assms(1)] by (auto simp: shape_def)
next
  case append_slot
  show ?thesis using hp_invD(1) [OF assms(1)] unfolding append_slot(1) shape_def
    by (auto simp: nth_append less_SucI intro: le_SucI) (metis append_slot le_SucI)+
qed (use hp_invD(1) [OF assms(1)] in \<open>auto simp: shape_def nth_append nth_list_update less_Suc_eq split: if_splits\<close>)

lemma here_simps:
  "here (s\<lparr>waiting := w\<rparr>) u = objects (reclaiming s u) (w u)"
  "here (s\<lparr>reclaiming := r\<rparr>) u = objects (r u) (waiting s u)"
  by (simp_all add: here_def)

lemma placed_same:
  "placed s \<Longrightarrow> waiting t = waiting s \<Longrightarrow> reclaiming t = reclaiming s \<Longrightarrow> freed t = freed s \<Longrightarrow>
   ever_retired t = ever_retired s \<Longrightarrow> placed t"
  by (simp add: placed_def here_def)

lemma placed_step:
  assumes "hp_inv s" and "hp_step s t"
  shows "placed t"
  using assms(2)
proof cases
  case (retire_amortized i p)
  have "here t = (here s)(i := objects (reclaiming s i) (p # waiting s i))"
    using retire_amortized(1) by (auto simp: here_def)
  then show ?thesis
    by (rule placed_update [OF hp_invD(2) [OF assms(1)], where ds = "[]" and N = "{p}"])
      (use retire_amortized not_retired [OF hp_invD(2) [OF assms(1)] retire_amortized(5), of i] hp_invD(2) [OF assms(1)]
        in \<open>auto simp: here_def objects_def placed_def\<close>)
next
  case (scan_done i k acc)
  have d: "distinct (here s i)" using hp_invD(2) [OF assms(1)] by (simp add: placed_def)
  have "here t = (here s)(i := objects (reclaiming s i) (filter (\<lambda>p. p \<in> acc) (waiting s i)))"
    using scan_done(1) by (auto simp: here_def)
  then show ?thesis
    by (rule placed_update [OF hp_invD(2) [OF assms(1)], where ds = "filter (\<lambda>p. p \<notin> acc) (waiting s i)" and N = "{}"])
      (use scan_done d in \<open>auto simp: here_def objects_def\<close>)
next
  case (retire_deamortized i p r xs ds)
  have "distinct (p # here s i)"
    using hp_invD(2) [OF assms(1)] not_retired [OF hp_invD(2) [OF assms(1)] retire_deamortized(5), of i]
    by (auto simp: placed_def)
  moreover have m: "mset (objects r xs @ ds) = mset (p # here s i)"
    using work_conserves [OF retire_deamortized(7)] by (simp add: here_def objects_def add.assoc)
  ultimately have "distinct (objects r xs @ ds)" "set (objects r xs) \<union> set ds = {p} \<union> set (here s i)"
    using mset_eq_imp_distinct_iff [OF m] mset_eq_setD [OF m] by auto
  moreover have "here t = (here s)(i := objects r xs)" using retire_deamortized(1) by (auto simp: here_def)
  ultimately show ?thesis using retire_deamortized
    by (intro placed_update [OF hp_invD(2) [OF assms(1)], where ds = ds and N = "{p}" and ys = "objects r xs"]) auto
qed (use placed_same [OF hp_invD(2) [OF assms(1)]] in auto)

lemma safeD:
  assumes "safe s" and "reading s i = R_holding p"
  shows "i < length (hazard s)" "hazard s ! i = Some p" "p \<notin> set (freed s)" "seen s u i p"
  using assms unfolding safe_def by blast+

lemma safe_same:
  assumes "safe s" and "\<And>i p. reading t i = R_holding p \<Longrightarrow> reading s i = R_holding p"
    and "\<And>i p. reading t i = R_holding p \<Longrightarrow> i < length (hazard s) \<Longrightarrow> i < length (hazard t) \<and> hazard t ! i = hazard s ! i"
    and "waiting t = waiting s" and "reclaiming t = reclaiming s" and "freed t = freed s" and "cleaning t = cleaning s"
  shows "safe t"
  unfolding safe_def
proof (intro allI impI)
  fix i p
  assume h: "reading t i = R_holding p"
  note sD = safeD [OF assms(1) assms(2) [OF h]]
  have "seen t u i p" for u using sD(4) [of u] assms(4,5,7) by (simp add: seen_def)
  then show "i < length (hazard t) \<and> hazard t ! i = Some p \<and> p \<notin> set (freed t) \<and> (\<forall>u. seen t u i p)"
    using assms(3) [OF h sD(1)] sD(2,3) assms(6) by simp
qed

lemma safe_step:
  assumes "hp_inv s" and "hp_step s t"
  shows "safe t"
  using assms(2)
proof cases
  case (protect_same i a p)
  have "p \<notin> ever_retired s" using hp_invD(1) [OF assms(1)] protect_same(4) by (auto simp: shape_def)
  note n = not_retired [OF hp_invD(2) [OF assms(1)] this]
  have "i < length (hazard s)" "hazard s ! i = Some p"
    using hp_invD(1) [OF assms(1)] protect_same(2,3) by (auto simp: shape_def)
  moreover have "seen t u i p" for u using n [of u] seen_fresh [of p t] protect_same(1) by (simp add: here_def)
  moreover have "seen t u j q" if "reading s j = R_holding q" for u j q
    using safeD(4) [OF hp_invD(3) [OF assms(1)] that] protect_same(1) by (simp add: seen_def)
  ultimately show ?thesis using n protect_same(1) safeD [OF hp_invD(3) [OF assms(1)]]
    unfolding safe_def by auto
next
  case (retire_amortized i p)
  have "seen t u j q" if "reading s j = R_holding q" for u j q
    using safeD(4) [OF hp_invD(3) [OF assms(1)] that, of u] retire_amortized(1,3)
    by (auto simp: seen_def)
  then show ?thesis using retire_amortized(1) safeD [OF hp_invD(3) [OF assms(1)]] unfolding safe_def by auto
next
  case (scan_slot i k acc)
  have "seen t u j q" if "reading s j = R_holding q" for u j q
  proof -
    have "hazard s ! j = Some q" using safeD(2) [OF hp_invD(3) [OF assms(1)] that] .
    then have "k \<le> j \<Longrightarrow> q \<in> set_option (hazard s ! k) \<or> Suc k \<le> j" by (cases "k = j") auto
    then show ?thesis using safeD(4) [OF hp_invD(3) [OF assms(1)] that, of u] scan_slot(1,2)
      by (auto simp: seen_def)
  qed
  then show ?thesis using scan_slot(1) safeD [OF hp_invD(3) [OF assms(1)]] unfolding safe_def by auto
next
  case (scan_done i k acc)
  have "seen t u j q \<and> q \<notin> set (filter (\<lambda>p. p \<notin> acc) (waiting s i))" if "reading s j = R_holding q" for u j q
    using safeD(1) [OF hp_invD(3) [OF assms(1)] that] safeD(4) [OF hp_invD(3) [OF assms(1)] that, of u]
      safeD(4) [OF hp_invD(3) [OF assms(1)] that, of i] scan_done(1-3) by (auto simp: seen_def)
  then show ?thesis using scan_done(1) safeD [OF hp_invD(3) [OF assms(1)]] unfolding safe_def by auto
next
  case (retire_deamortized i p r xs ds)
  have "seen t u j q \<and> q \<notin> set ds" if "reading s j = R_holding q" for u j q
  proof -
    have "covered (reclaiming s i) j q" using safeD(4) [OF hp_invD(3) [OF assms(1)] that, of i] by (simp add: seen_covered)
    then have "covered r j q \<and> q \<notin> set ds"
      using work_covered [OF _ _ _ retire_deamortized(7)] safeD(1,2) [OF hp_invD(3) [OF assms(1)] that] by blast
    then show ?thesis using safeD(4) [OF hp_invD(3) [OF assms(1)] that, of u] retire_deamortized(1,3)
      by (auto simp: seen_covered)
  qed
  then show ?thesis using retire_deamortized(1) safeD [OF hp_invD(3) [OF assms(1)]] unfolding safe_def by auto
next
  case append_slot
  show ?thesis by (rule safe_same [OF hp_invD(3) [OF assms(1)]]) (use append_slot in \<open>auto simp: nth_append\<close>)
qed (rule safe_same [OF hp_invD(3) [OF assms(1)]]; auto split: if_splits)+

section \<open>The bound on waiting objects\<close>

text \<open>In the amortized mode a cleanup leaves at most one object per slot behind.\<close>

definition slot_bound :: "nat \<Rightarrow> u32 \<Rightarrow> cleaner \<Rightarrow> nat list \<Rightarrow> bool" where
  "slot_bound H n c w \<longleftrightarrow> unat n < 2000 \<and>
     (case c of
        C_idle \<Rightarrow> length w \<le> unat n + H
      | C_scan k acc \<Rightarrow> length w \<le> 2000 + H \<and> n = 0 \<and> finite acc \<and> card acc \<le> k)"

definition bounded :: "hp_state \<Rightarrow> bool" where
  "bounded s \<longleftrightarrow> (reclamation s = amortized_reclamation \<longrightarrow>
     (\<forall>u. slot_bound (length (hazard s)) (retire_count s u) (cleaning s u) (waiting s u)))"

lemma boundedD:
  assumes "bounded s" and "reclamation s = amortized_reclamation"
  shows "slot_bound (length (hazard s)) (retire_count s u) (cleaning s u) (waiting s u)"
    and "unat (retire_count s u) < 2000"
    and "cleaning s u = C_idle \<Longrightarrow> length (waiting s u) \<le> unat (retire_count s u) + length (hazard s)"
    and "cleaning s u = C_scan k acc \<Longrightarrow>
      length (waiting s u) \<le> 2000 + length (hazard s) \<and> retire_count s u = 0 \<and> finite acc \<and> card acc \<le> k"
  using assms unfolding bounded_def slot_bound_def by (auto split: cleaner.splits dest!: spec [of _ u])

lemma slot_bound_mono: "slot_bound H n c w \<Longrightarrow> H \<le> K \<Longrightarrow> slot_bound K n c w"
  by (auto simp: slot_bound_def split: cleaner.splits)

lemma bounded_same:
  "bounded s \<Longrightarrow> reclamation t = reclamation s \<Longrightarrow> retire_count t = retire_count s \<Longrightarrow> cleaning t = cleaning s \<Longrightarrow>
   waiting t = waiting s \<Longrightarrow> length (hazard s) \<le> length (hazard t) \<Longrightarrow> bounded t"
  unfolding bounded_def by (auto intro: slot_bound_mono)

lemma bounded_update:
  assumes "bounded s" and "reclamation t = reclamation s" and "hazard t = hazard s"
    and "\<And>v. v \<noteq> u \<Longrightarrow> retire_count t v = retire_count s v \<and> cleaning t v = cleaning s v \<and> waiting t v = waiting s v"
    and "reclamation s = amortized_reclamation \<Longrightarrow>
      slot_bound (length (hazard s)) (retire_count t u) (cleaning t u) (waiting t u)"
  shows "bounded t"
  unfolding bounded_def
proof (intro impI allI)
  fix v
  assume "reclamation t = amortized_reclamation"
  then show "slot_bound (length (hazard t)) (retire_count t v) (cleaning t v) (waiting t v)"
    using assms(1,2,5) assms(4) [of v] unfolding assms(3) bounded_def by (cases "v = u") simp_all
qed

lemma count_next:
  assumes "unat (n :: u32) < 2000"
  shows "cleanup_threshold \<le> n + 1 \<longleftrightarrow> unat n = 1999" and "unat (n + 1) = unat n + 1"
proof -
  show n: "unat (n + 1) = unat n + 1" using assms by (simp add: unat_simps)
  show "cleanup_threshold \<le> n + 1 \<longleftrightarrow> unat n = 1999"
    using assms n by (auto simp: cleanup_threshold_def word_le_nat_alt)
qed

lemma bounded_step:
  assumes "hp_inv s" and "bounded s" and "hp_step s t"
  shows "bounded t"
  using assms(3)
proof cases
  case (retire_amortized i p)
  note b = boundedD [OF assms(2) retire_amortized(4), of i]
  have "slot_bound (length (hazard s)) (retire_count t i) (cleaning t i) (waiting t i)"
    using retire_amortized(1,3) b(3) count_next [OF b(2)] b(2) by (auto simp: slot_bound_def)
  then show ?thesis by (intro bounded_update [OF assms(2), of t i]) (use retire_amortized(1) in auto)
next
  case (scan_slot i k acc)
  have f: "finite (set_option (hazard s ! k)) \<and> card (set_option (hazard s ! k)) \<le> 1" by (cases "hazard s ! k") auto
  then have "card acc \<le> k \<Longrightarrow> card (acc \<union> set_option (hazard s ! k)) \<le> Suc k"
    using card_Un_le [of acc "set_option (hazard s ! k)"] by linarith
  then have "slot_bound (length (hazard s)) (retire_count t i) (cleaning t i) (waiting t i)"
    if "reclamation s = amortized_reclamation"
    using scan_slot(1,2) boundedD(4) [OF assms(2) that scan_slot(2)] f by (auto simp: slot_bound_def)
  then show ?thesis by (intro bounded_update [OF assms(2), of t i]) (use scan_slot(1) in auto)
next
  case (scan_done i k acc)
  have "distinct (waiting s i)" using hp_invD(2) [OF assms(1)] by (simp add: placed_def here_def objects_def)
  then have "length (filter (\<lambda>p. p \<in> acc) (waiting s i)) \<le> card acc" if "finite acc"
    using that card_mono [of acc "set (filter (\<lambda>p. p \<in> acc) (waiting s i))"] distinct_card [of "filter (\<lambda>p. p \<in> acc) (waiting s i)"]
    by auto
  then have "slot_bound (length (hazard s)) (retire_count t i) (cleaning t i) (waiting t i)"
    if "reclamation s = amortized_reclamation"
    using scan_done(1,3) boundedD(4) [OF assms(2) that scan_done(2)] by (fastforce simp: slot_bound_def)
  then show ?thesis by (intro bounded_update [OF assms(2), of t i]) (use scan_done(1) in auto)
next
  case (retire_deamortized i p r xs ds)
  then show ?thesis unfolding bounded_def by simp
qed (use bounded_same [OF assms(2)] in auto)

interpretation hp: transition_invariant "hp_init P" hp_step "\<lambda>s. hp_inv s \<and> bounded s" for P
proof
  fix s assume i: "hp_init P s"
  then have "shape s" by (auto simp: hp_init_def shape_def fresh_reclaimer_def)
  moreover have "placed s" using i by (auto simp: hp_init_def placed_def here_def objects_def fresh_reclaimer_def)
  moreover have "safe s" "bounded s" using i by (auto simp: hp_init_def safe_def bounded_def slot_bound_def)
  ultimately show "hp_inv s \<and> bounded s" by (simp add: hp_inv_def)
next
  fix s t assume "hp_inv s \<and> bounded s" "hp_step s t"
  then show "hp_inv t \<and> bounded t"
    using shape_step placed_step safe_step bounded_step unfolding hp_inv_def [of t] by blast
qed

section \<open>The promise of the scheme\<close>

text \<open>C2. For any interleaving: an object that \<open>protect\<close> has returned to a thread is not destroyed while the
  thread holds it; an object is destroyed only after it was retired, and at most once; and in the
  amortized mode a slot has at most 2000 objects more waiting than there are slots.\<close>

theorem protected_not_destroyed:
  assumes "reachable (hp_init P) hp_step s"
  shows "(reading s i = R_holding p \<longrightarrow> p \<notin> set (freed s)) \<and>
    distinct (freed s) \<and> set (freed s) \<subseteq> ever_retired s \<and>
    (reclamation s = amortized_reclamation \<longrightarrow> length (waiting s u) \<le> 2000 + length (hazard s))"
proof -
  have inv: "hp_inv s" "bounded s" using hp.reachable_inv [OF assms] by blast+
  have "reclamation s = amortized_reclamation \<longrightarrow> length (waiting s u) \<le> 2000 + length (hazard s)"
    using boundedD(2-4) [OF inv(2), of u] by (cases "cleaning s u") force+
  moreover have "distinct (freed s)" "set (freed s) \<subseteq> ever_retired s"
    using hp_invD(2) [OF inv(1)] unfolding placed_def by blast+
  ultimately show ?thesis using safeD(3) [OF hp_invD(3) [OF inv(1)]] by blast
qed

text \<open>Slot 0 protects object 5, which is then unlinked and retired by the thread of slot 1.\<close>

definition example_start :: hp_state where
  "example_start = \<lparr>locs = \<lambda>_. Some 5, hazard = [None, None], owned = \<lambda>_. False, reading = \<lambda>_. R_idle,
     waiting = \<lambda>_. [], retire_count = \<lambda>_. 0, reclaiming = \<lambda>_. fresh_reclaimer 2, cleaning = \<lambda>_. C_idle,
     reclamation = amortized_reclamation, freed = [], ever_retired = {}\<rparr>"

lemma example_holding:
  "\<exists>s. reachable (hp_init 2) hp_step s \<and> reading s 0 = R_holding 5 \<and> owned s 1 \<and> cleaning s 1 = C_idle \<and>
     reclamation s = amortized_reclamation \<and> 5 \<notin> ever_retired s \<and> (\<forall>a. locs s a = (if a = 0 then Some 5 else None))"
proof -
  define s0 where "s0 = example_start\<lparr>locs := (\<lambda>_. None)(0 := Some 5)\<rparr>"
  define s1 where "s1 = s0\<lparr>owned := (owned s0)(0 := True)\<rparr>"
  define s2 where "s2 = s1\<lparr>owned := (owned s1)(1 := True)\<rparr>"
  define s3 where "s3 = s2\<lparr>reading := (reading s2)(0 := R_loaded 0 5)\<rparr>"
  define s4 where "s4 = s3\<lparr>hazard := (hazard s3)[0 := Some 5], reading := (reading s3)(0 := R_stored 0 5)\<rparr>"
  define s5 where "s5 = s4\<lparr>reading := (reading s4)(0 := R_holding 5)\<rparr>"
  note d = s0_def s1_def s2_def s3_def s4_def s5_def example_start_def
  have "replicate (max 1 (2 :: nat)) None = [None, None]" by (simp add: numeral_2_eq_2)
  then have "reachable (hp_init 2) hp_step s0" by (intro reachable_init) (simp add: hp_init_def d)
  moreover have "hp_step s0 s1" unfolding s1_def by (rule acquire_slot) (simp_all add: d)
  moreover have "hp_step s1 s2" unfolding s2_def by (rule acquire_slot) (simp_all add: d)
  moreover have "hp_step s2 s3" unfolding s3_def by (rule protect_load) (simp_all add: d)
  moreover have "hp_step s3 s4" unfolding s4_def by (rule protect_store) (simp_all add: d)
  moreover have "hp_step s4 s5" unfolding s5_def by (rule protect_same) (simp_all add: d)
  ultimately have "reachable (hp_init 2) hp_step s5" by (meson reachable_step)
  then show ?thesis by (intro exI [of _ s5]) (simp add: d)
qed

lemma protected_not_destroyed_witness:
  "\<exists>s. reachable (hp_init 2) hp_step s \<and> reading s 0 = R_holding 5 \<and> 5 \<in> ever_retired s \<and> 5 \<notin> set (freed s)"
proof -
  from example_holding obtain s where s: "reachable (hp_init 2) hp_step s" "reading s 0 = R_holding 5"
    "owned s 1" "cleaning s 1 = C_idle" "reclamation s = amortized_reclamation" "5 \<notin> ever_retired s"
    "\<And>a. locs s a = (if a = 0 then Some 5 else None)" by blast
  define t where "t = s\<lparr>locs := (locs s)(0 := None)\<rparr>"
  have "reachable (hp_init 2) hp_step t" unfolding t_def
    by (rule reachable_step [OF s(1)]) (rule client_write, simp)
  moreover have "\<forall>a. locs t a \<noteq> Some 5" using s(7) by (simp add: t_def)
  moreover define u where "u = t\<lparr>waiting := (waiting t)(1 := 5 # waiting t 1), ever_retired := insert 5 (ever_retired t),
       retire_count := (retire_count t)(1 := if cleanup_threshold \<le> retire_count t 1 + 1 then 0 else retire_count t 1 + 1),
       cleaning := (cleaning t)(1 := if cleanup_threshold \<le> retire_count t 1 + 1 then C_scan 0 {} else C_idle)\<rparr>"
  moreover have "hp_step t u" unfolding u_def by (rule hp_step.retire_amortized) (use s calculation(2) in \<open>simp_all add: t_def\<close>)
  ultimately have "reachable (hp_init 2) hp_step u" "reading u 0 = R_holding 5 \<and> 5 \<in> ever_retired u"
    using s(2) by (blast intro: reachable_step) (simp add: t_def u_def s(2))
  then show ?thesis using protected_not_destroyed [of 2] by blast
qed

end
