(* ===== verification/Wait_Free_Counter.thy ===== *)
theory Wait_Free_Counter
  imports Godby_Prelude
begin

text \<open>
  \<open>details::WaitFreeCounter\<close> of \<open>AtomicSharedPointer.h\<close> at the width the library uses it,
  \<open>ref_cnt_type = uint32_t\<close>. The top two bits of the word are flags: the zero flag makes zero
  sticky, the pending flag is left by a \<open>load\<close> that met a zero no decrement has claimed yet.

  The first part gives each operation run alone, the second the single atomic accesses of any
  number of threads under sequential consistency. The invariant of the second part shows that
  the counter never comes back from zero and that exactly one decrement is told that it was the
  one that reached zero.
\<close>

section \<open>The word and its flags\<close>

definition zero_flag :: u32 where "zero_flag = push_bit 31 1"
definition zero_pending_flag :: u32 where "zero_pending_flag = push_bit 30 1"
definition max_value :: u32 where "max_value = zero_pending_flag - 1"

definition WaitFreeCounter :: u32 where "WaitFreeCounter = 1"

section \<open>The operations run alone\<close>

text \<open>Each operation takes the word and returns its answer with the word it leaves.\<close>

definition load :: "u32 \<Rightarrow> u32 \<times> u32" where
  "load x = (if x = 0 then (0, zero_flag OR zero_pending_flag)
             else (if x AND zero_flag \<noteq> 0 then 0 else x, x))"

definition increment :: "u32 \<Rightarrow> u32 \<Rightarrow> bool \<times> u32" where
  "increment arg x = (x AND zero_flag = 0, x + arg)"

definition decrement :: "u32 \<Rightarrow> u32 \<Rightarrow> bool \<times> u32" where
  "decrement arg x =
     (if x = arg then
        let y = x - arg in
        if y = 0 then (True, zero_flag)
        else if y AND zero_pending_flag \<noteq> 0 then (y AND zero_pending_flag \<noteq> 0, zero_flag)
        else (False, y)
      else (False, x - arg))"

section \<open>The accesses of several threads\<close>

text \<open>
  The places between the atomic accesses: a \<open>load\<close> that read 0 and is about to try its
  compare-and-swap, a \<open>decrement\<close> whose \<open>fetch_sub\<close> met its argument, and one whose
  compare-and-swap failed on a word with the pending flag.
\<close>

datatype counter_pc = Idle | Load_cas | Dec_cas | Dec_exchange

text \<open>
  The word is the only shared memory. The other fields record the history: the references the
  threads hold (the successful increments less the decrements begun), the sum of the arguments
  of failed increments since the flag was set, the sum over all failed increments, the largest
  number of references held so far, and the number of decrements that returned true.
\<close>

record counter =
  word_x :: u32
  pcs :: "nat \<Rightarrow> counter_pc"
  refs :: nat
  failed :: nat
  refused :: nat
  peak :: nat
  zeros :: nat

datatype counter_event =
    Tau
  | Load_ret u32
  | Increment_ret bool
  | Decrement_ret bool

definition counter_init :: "counter \<Rightarrow> bool" where
  "counter_init s \<longleftrightarrow>
     0 < word_x s \<and> word_x s \<le> max_value \<and> refs s = unat (word_x s) \<and>
     pcs s = (\<lambda>_. Idle) \<and> failed s = 0 \<and> refused s = 0 \<and> peak s = refs s \<and> zeros s = 0"

text \<open>
  A thread decrements only references it holds. An increment is never refused by the model: its
  \<open>fetch_add\<close> wraps in the 32 bits, a failed one included. That the references held at one time and
  the failed increments stay within \<open>max_value\<close>, which the two stolen bits ask for and no code
  enforces, is \<open>within\<close> below, a hypothesis of the theorems.
\<close>

inductive counter_step :: "counter \<Rightarrow> counter_event \<Rightarrow> counter \<Rightarrow> bool" where
  load_read:
    "pcs s t = Idle \<Longrightarrow> word_x s \<noteq> 0 \<Longrightarrow>
     counter_step s (Load_ret (if word_x s AND zero_flag \<noteq> 0 then 0 else word_x s)) s"
| load_read_zero:
    "pcs s t = Idle \<Longrightarrow> word_x s = 0 \<Longrightarrow> counter_step s Tau (s\<lparr>pcs := (pcs s)(t := Load_cas)\<rparr>)"
| load_cas_ok:
    "pcs s t = Load_cas \<Longrightarrow> word_x s = 0 \<Longrightarrow>
     counter_step s (Load_ret 0)
       (s\<lparr>word_x := zero_flag OR zero_pending_flag, pcs := (pcs s)(t := Idle)\<rparr>)"
| load_cas_fail:
    "pcs s t = Load_cas \<Longrightarrow> word_x s \<noteq> 0 \<Longrightarrow>
     counter_step s (Load_ret (if word_x s AND zero_flag \<noteq> 0 then 0 else word_x s))
       (s\<lparr>pcs := (pcs s)(t := Idle)\<rparr>)"
| inc_ok:
    "pcs s t = Idle \<Longrightarrow> word_x s AND zero_flag = 0 \<Longrightarrow>
     counter_step s (Increment_ret True)
       (s\<lparr>word_x := word_x s + arg, refs := refs s + unat arg, peak := max (peak s) (refs s + unat arg)\<rparr>)"
| inc_fail:
    "pcs s t = Idle \<Longrightarrow> word_x s AND zero_flag \<noteq> 0 \<Longrightarrow>
     counter_step s (Increment_ret False)
       (s\<lparr>word_x := word_x s + arg, failed := failed s + unat arg, refused := refused s + unat arg\<rparr>)"
| dec_last:
    "pcs s t = Idle \<Longrightarrow> arg \<noteq> 0 \<Longrightarrow> unat arg \<le> refs s \<Longrightarrow> word_x s = arg \<Longrightarrow>
     counter_step s Tau
       (s\<lparr>word_x := word_x s - arg, refs := refs s - unat arg, pcs := (pcs s)(t := Dec_cas)\<rparr>)"
| dec_other:
    "pcs s t = Idle \<Longrightarrow> arg \<noteq> 0 \<Longrightarrow> unat arg \<le> refs s \<Longrightarrow> word_x s \<noteq> arg \<Longrightarrow>
     counter_step s (Decrement_ret False)
       (s\<lparr>word_x := word_x s - arg, refs := refs s - unat arg\<rparr>)"
| dec_cas_ok:
    "pcs s t = Dec_cas \<Longrightarrow> word_x s = 0 \<Longrightarrow>
     counter_step s (Decrement_ret True)
       (s\<lparr>word_x := zero_flag, pcs := (pcs s)(t := Idle), zeros := zeros s + 1\<rparr>)"
| dec_cas_pending:
    "pcs s t = Dec_cas \<Longrightarrow> word_x s \<noteq> 0 \<Longrightarrow> word_x s AND zero_pending_flag \<noteq> 0 \<Longrightarrow>
     counter_step s Tau (s\<lparr>pcs := (pcs s)(t := Dec_exchange)\<rparr>)"
| dec_cas_fail:
    "pcs s t = Dec_cas \<Longrightarrow> word_x s \<noteq> 0 \<Longrightarrow> word_x s AND zero_pending_flag = 0 \<Longrightarrow>
     counter_step s (Decrement_ret False) (s\<lparr>pcs := (pcs s)(t := Idle)\<rparr>)"
| dec_exchange_ok:
    "pcs s t = Dec_exchange \<Longrightarrow> word_x s AND zero_pending_flag \<noteq> 0 \<Longrightarrow>
     counter_step s (Decrement_ret True)
       (s\<lparr>word_x := zero_flag, failed := 0, pcs := (pcs s)(t := Idle), zeros := zeros s + 1\<rparr>)"
| dec_exchange_fail:
    "pcs s t = Dec_exchange \<Longrightarrow> word_x s AND zero_pending_flag = 0 \<Longrightarrow>
     counter_step s (Decrement_ret False)
       (s\<lparr>word_x := zero_flag, failed := 0, pcs := (pcs s)(t := Idle)\<rparr>)"

inductive_cases counter_stepE: "counter_step s e t"

abbreviation counter_run :: "counter \<Rightarrow> counter \<Rightarrow> bool" where
  "counter_run s t \<equiv> \<exists>e. counter_step s e t"

section \<open>Reading the flags\<close>

text \<open>A word is read as its two flags and the 30 bits below them.\<close>

lemma flag_values [simp]:
  "zero_flag = 0x80000000" "zero_pending_flag = 0x40000000" "max_value = 0x3FFFFFFF"
  by (simp_all add: zero_flag_def zero_pending_flag_def max_value_def)

lemma bit_odd_unat: "bit x n \<longleftrightarrow> odd (unat (x :: 'a::len word) div 2 ^ n)"
proof -
  have "bit x n \<longleftrightarrow> bit (unat x) n" by (auto simp: bit_unsigned_iff bit_imp_le_length)
  then show ?thesis by (simp add: bit_iff_odd)
qed

lemma zero_flag_clear: "x AND 0x80000000 = 0 \<longleftrightarrow> unat (x :: u32) < 2 ^ 31"
proof -
  have "x AND 0x80000000 = 0 \<longleftrightarrow> even (unat x div 2 ^ 31)"
    using and_exp_eq_0_iff_not_bit [of x 31] by (simp add: bit_odd_unat)
  moreover have "unat x div 2 ^ 31 = (if unat x < 2 ^ 31 then 0 else 1)"
    using unat_lt32 [of x] div_nat_eqI [of "2 ^ 31" 1 "unat x"] by simp
  ultimately show ?thesis by (auto split: if_splits)
qed

lemma pending_flag_clear: "x AND 0x40000000 = 0 \<longleftrightarrow> unat (x :: u32) mod 2 ^ 31 < 2 ^ 30"
proof -
  have "x AND 0x40000000 = 0 \<longleftrightarrow> even (unat x div 2 ^ 30)"
    using and_exp_eq_0_iff_not_bit [of x 30] by (simp add: bit_odd_unat)
  moreover have "unat x mod 2 ^ 31 = unat x mod 2 ^ 30 + 2 ^ 30 * (unat x div 2 ^ 30 mod 2)"
    using mod_mult2_eq [of "unat x" "2 ^ 30" 2] by simp
  ultimately show ?thesis by (cases "even (unat x div 2 ^ 30)") (auto simp: even_iff_mod_2_eq_zero odd_iff_mod_2_eq_one)
qed

lemmas flags_clear = zero_flag_clear pending_flag_clear

section \<open>The operations on a count and on a dead counter\<close>

text \<open>\<open>holds x n\<close>: the word counts \<open>n\<close> references; \<open>dead x k\<close>: zero was claimed and \<open>k\<close> increments failed
  since.\<close>

definition holds :: "u32 \<Rightarrow> nat \<Rightarrow> bool" where
  "holds x n \<longleftrightarrow> unat x = n \<and> 0 < n \<and> n < 2 ^ 30"

definition dead :: "u32 \<Rightarrow> nat \<Rightarrow> bool" where
  "dead x k \<longleftrightarrow> unat x = 2 ^ 31 + k \<and> k < 2 ^ 30"

lemma increment_holds: "holds x n \<Longrightarrow> n + 1 < 2 ^ 30 \<Longrightarrow> fst (increment 1 x) \<and> holds (snd (increment 1 x)) (n + 1)"
  by (auto simp: increment_def holds_def zero_flag_clear unat_simps)

lemma increment_dead: "dead x k \<Longrightarrow> k + 1 < 2 ^ 30 \<Longrightarrow> \<not> fst (increment 1 x) \<and> dead (snd (increment 1 x)) (k + 1)"
  by (auto simp: increment_def dead_def zero_flag_clear unat_simps)

lemma decrement_holds:
  assumes "holds x n"
  shows "fst (decrement 1 x) \<longleftrightarrow> n = 1"
    and "n = 1 \<Longrightarrow> dead (snd (decrement 1 x)) 0"
    and "n \<noteq> 1 \<Longrightarrow> holds (snd (decrement 1 x)) (n - 1)"
proof -
  have "x = 1 \<longleftrightarrow> n = 1" using assms by (auto simp: holds_def word_unat_eq_iff)
  moreover have "unat (x - 1) = n - 1" using assms by (auto simp: holds_def unat_simps)
  ultimately show "fst (decrement 1 x) \<longleftrightarrow> n = 1" "n = 1 \<Longrightarrow> dead (snd (decrement 1 x)) 0"
    "n \<noteq> 1 \<Longrightarrow> holds (snd (decrement 1 x)) (n - 1)"
    using assms by (auto simp: decrement_def dead_def holds_def Let_def)
qed

lemma load_holds: "holds x n \<Longrightarrow> load x = (x, x)"
  by (auto simp: load_def holds_def zero_flag_clear)

lemma load_dead: "dead x k \<Longrightarrow> load x = (0, x)"
  by (auto simp: load_def dead_def zero_flag_clear)

section \<open>The invariant\<close>

text \<open>
  The word is in one of three phases: it holds the number of references; it is zero for good
  and some decrement still has to claim that; it is zero for good and was claimed.
\<close>

definition live :: "counter \<Rightarrow> bool" where
  "live s \<longleftrightarrow> unat (word_x s) = refs s \<and> refs s < 2 ^ 30 \<and> failed s = 0 \<and> zeros s = 0 \<and>
     (refs s = 0 \<longrightarrow> (\<exists>t. pcs s t = Dec_cas)) \<and> (\<forall>t. pcs s t \<noteq> Dec_exchange)"

definition pending :: "counter \<Rightarrow> bool" where
  "pending s \<longleftrightarrow> unat (word_x s) = 2 ^ 31 + 2 ^ 30 + failed s \<and> failed s < 2 ^ 30 \<and> refs s = 0 \<and>
     zeros s = 0 \<and> (\<exists>t. pcs s t = Dec_cas \<or> pcs s t = Dec_exchange)"

definition claimed :: "counter \<Rightarrow> bool" where
  "claimed s \<longleftrightarrow> unat (word_x s) = 2 ^ 31 + failed s \<and> failed s < 2 ^ 30 \<and> refs s = 0 \<and> zeros s = 1"

definition counter_inv :: "counter \<Rightarrow> bool" where
  "counter_inv s \<longleftrightarrow> live s \<or> pending s \<or> claimed s"

text \<open>
  The counts that fit below the flags now, and those that did so far. A counter whose history
  stayed within the bits is in one of the phases.
\<close>

definition fits :: "counter \<Rightarrow> bool" where
  "fits s \<longleftrightarrow> refs s < 2 ^ 30 \<and> failed s < 2 ^ 30"

definition within :: "counter \<Rightarrow> bool" where
  "within s \<longleftrightarrow> peak s \<le> unat max_value \<and> refused s \<le> unat max_value"

definition counter_safe :: "counter \<Rightarrow> bool" where
  "counter_safe s \<longleftrightarrow> refs s \<le> peak s \<and> failed s \<le> refused s \<and> (within s \<longrightarrow> counter_inv s)"

text \<open>What the tests of the code see in each phase.\<close>

lemma live_word: "live s \<Longrightarrow> word_x s AND zero_flag = 0 \<and> word_x s AND zero_pending_flag = 0"
  by (auto simp: live_def flags_clear)

lemma pending_word:
  assumes "pending s"
  shows "word_x s AND zero_flag \<noteq> 0" "word_x s AND zero_pending_flag \<noteq> 0" "word_x s \<noteq> 0"
proof -
  have eq: "unat (word_x s) = 2 ^ 31 + (2 ^ 30 + failed s)" and lt: "failed s < 2 ^ 30"
    using assms by (auto simp: pending_def)
  have "unat (word_x s) mod 2 ^ 31 = (2 ^ 30 + failed s) mod 2 ^ 31" unfolding eq by (rule mod_add_self1)
  then have "unat (word_x s) mod 2 ^ 31 = 2 ^ 30 + failed s" using lt by simp
  then show "word_x s AND zero_pending_flag \<noteq> 0" by (simp add: pending_flag_clear)
  show "word_x s AND zero_flag \<noteq> 0" using eq by (simp add: zero_flag_clear)
  show "word_x s \<noteq> 0" using eq by auto
qed

lemma claimed_word:
  assumes "claimed s"
  shows "word_x s AND zero_flag \<noteq> 0" "word_x s AND zero_pending_flag = 0" "word_x s \<noteq> 0"
proof -
  have eq: "unat (word_x s) = 2 ^ 31 + failed s" and lt: "failed s < 2 ^ 30"
    using assms by (auto simp: claimed_def)
  have "unat (word_x s) mod 2 ^ 31 = failed s" unfolding eq using lt by simp
  then show "word_x s AND zero_pending_flag = 0" using lt by (simp add: pending_flag_clear)
  show "word_x s AND zero_flag \<noteq> 0" using eq by (simp add: zero_flag_clear)
  show "word_x s \<noteq> 0" using eq by auto
qed

lemma live_zero_other:
  assumes "live s" and "word_x s = 0" and "pcs s t \<noteq> Dec_cas"
  obtains u where "u \<noteq> t" and "pcs s u = Dec_cas"
proof -
  from assms(1,2) have "refs s = 0" by (simp add: live_def)
  with assms(1) obtain u where "pcs s u = Dec_cas" unfolding live_def by blast
  with assms(3) that show thesis by metis
qed

lemma live_step:
  assumes "live s" and "counter_step s e s'" and "fits s'"
  shows "counter_inv s'"
  using assms(2,1,3)
proof cases
  case (inc_ok t arg)
  then have "unat (word_x s + arg) = unat (word_x s) + unat arg"
    using assms(1,3) by (intro unat_add_small) (simp add: live_def fits_def)
  then show ?thesis using inc_ok assms(1,3) by (auto simp: counter_inv_def live_def fits_def unat_eq_0)
next
  case (dec_other t arg)
  then have "unat (word_x s - arg) = unat (word_x s) - unat arg"
    using assms(1) by (intro unat_sub_small) (simp add: live_def)
  moreover have "unat (word_x s) \<noteq> unat arg" using dec_other by (metis word_unat_eq_iff)
  ultimately show ?thesis using dec_other assms(1) by (auto simp: counter_inv_def live_def)
next
  case (load_read_zero t)
  then obtain u where "u \<noteq> t" "pcs s u = Dec_cas" using live_zero_other [OF assms(1), of t] by auto
  then have "live s'" using load_read_zero assms(1) by (auto simp: live_def)
  then show ?thesis by (simp add: counter_inv_def)
next
  case (load_cas_ok t)
  then obtain u where "u \<noteq> t" "pcs s u = Dec_cas" using live_zero_other [OF assms(1), of t] by auto
  then have "pending s'" using load_cas_ok assms(1) by (auto simp: pending_def live_def)
  then show ?thesis by (simp add: counter_inv_def)
next
  case (dec_cas_ok t)
  then show ?thesis using assms(1) by (simp add: counter_inv_def live_def claimed_def)
qed (use live_word [OF assms(1)] assms(1) in \<open>auto simp: counter_inv_def live_def unat_eq_0\<close>)

lemma pending_other:
  assumes "pending s" and "pcs s t \<noteq> Dec_cas" and "pcs s t \<noteq> Dec_exchange"
  shows "\<exists>u. u \<noteq> t \<and> (pcs s u = Dec_cas \<or> pcs s u = Dec_exchange)"
  using assms unfolding pending_def by metis

lemma pending_step:
  assumes "pending s" and "counter_step s e s'" and "fits s'"
  shows "pending s' \<or> claimed s'"
  using assms(2,1,3)
proof cases
  case (inc_fail t arg)
  then have "unat (word_x s + arg) = unat (word_x s) + unat arg"
    using assms(1,3) by (intro unat_add_small) (simp add: pending_def fits_def)
  then show ?thesis using inc_fail assms(1,3) by (auto simp: pending_def fits_def)
next
  case (load_cas_fail t)
  then obtain u where "u \<noteq> t" "pcs s u = Dec_cas \<or> pcs s u = Dec_exchange"
    using pending_other [OF assms(1), of t] by auto
  then have "pending s'" using load_cas_fail assms(1) unfolding pending_def
    by (auto intro!: exI [of _ u])
  then show ?thesis ..
next
  case (dec_exchange_ok t)
  then have "claimed s'" using assms(1) by (simp add: claimed_def pending_def)
  then show ?thesis ..
next
  case (dec_cas_pending t)
  then have "pending s'" using assms(1) by (auto simp: pending_def)
  then show ?thesis ..
qed (use pending_word [OF assms(1)] assms(1) in \<open>auto simp: pending_def unat_eq_0\<close>)

lemma claimed_step:
  assumes "claimed s" and "counter_step s e s'" and "fits s'"
  shows "claimed s'"
  using assms(2,1,3)
proof cases
  case (inc_fail t arg)
  then have "unat (word_x s + arg) = unat (word_x s) + unat arg"
    using assms(1,3) by (intro unat_add_small) (simp add: claimed_def fits_def)
  then show ?thesis using inc_fail assms(1,3) by (auto simp: claimed_def fits_def)
qed (use claimed_word [OF assms(1)] assms(1) in \<open>auto simp: claimed_def unat_eq_0\<close>)

lemma counter_inv_step: "counter_inv s \<Longrightarrow> counter_step s e s' \<Longrightarrow> fits s' \<Longrightarrow> counter_inv s'"
  using live_step pending_step claimed_step unfolding counter_inv_def by blast

lemma history_step:
  assumes "counter_step s e s'"
  shows "peak s \<le> peak s'" "refused s \<le> refused s'"
    and "refs s \<le> peak s \<Longrightarrow> refs s' \<le> peak s'" "failed s \<le> refused s \<Longrightarrow> failed s' \<le> refused s'"
  using assms by (cases; simp)+

lemma within_step: "counter_step s e s' \<Longrightarrow> within s' \<Longrightarrow> within s"
  using history_step(1,2) unfolding within_def by (meson le_trans)

lemma within_run: "counter_run\<^sup>*\<^sup>* s u \<Longrightarrow> within u \<Longrightarrow> within s"
  by (induction rule: rtranclp_induct) (use within_step in blast)+

lemma safe_fits: "counter_safe s \<Longrightarrow> within s \<Longrightarrow> fits s"
  by (auto simp: counter_safe_def within_def fits_def)

lemma counter_safe_step:
  assumes "counter_safe s" and "counter_step s e s'"
  shows "counter_safe s'"
proof -
  have l: "refs s' \<le> peak s'" "failed s' \<le> refused s'"
    using assms(1) history_step [OF assms(2)] by (auto simp: counter_safe_def)
  moreover have "counter_inv s'" if "within s'"
    using counter_inv_step [OF _ assms(2)] within_step [OF assms(2) that] that l assms(1)
    by (auto simp: counter_safe_def fits_def within_def)
  ultimately show ?thesis by (simp add: counter_safe_def)
qed

interpretation cnt: transition_invariant counter_init counter_run counter_safe
proof
  fix s assume "counter_init s"
  then show "counter_safe s"
    by (auto simp: counter_init_def counter_safe_def counter_inv_def live_def word_le_nat_alt unat_eq_0)
qed (blast intro: counter_safe_step)

lemma zero_sticks:
  assumes "counter_step s e s'" and "pending s \<or> claimed s" and "fits s'"
  shows "pending s' \<or> claimed s'"
  using assms pending_step claimed_step by blast

lemma not_live_D: "counter_inv s \<Longrightarrow> word_x s AND zero_flag \<noteq> 0 \<Longrightarrow> pending s \<or> claimed s"
  using live_word unfolding counter_inv_def by blast

lemma zero_for_good_run:
  "counter_run\<^sup>*\<^sup>* s t \<Longrightarrow> counter_safe s \<Longrightarrow> within t \<Longrightarrow> pending s \<or> claimed s \<Longrightarrow>
   (pending t \<or> claimed t) \<and> counter_safe t"
proof (induction rule: rtranclp_induct)
  case (step t u)
  then obtain e where e: "counter_step t e u" by blast
  then have "pending t \<or> claimed t" "counter_safe t" using step within_step by blast+
  then show ?case using zero_sticks [OF e] counter_safe_step [OF _ e] safe_fits step.prems(2) by blast
qed simp

section \<open>What the counter promises\<close>

text \<open>C10. For any interleaving of the atomic accesses of any number of threads, as long as neither
  the references held at one time nor the arguments of all failed increments together have
  passed \<open>max_value\<close> (\<open>within\<close>): while a reference is held no decrement has reported zero and the
  word is the number of references; at most one decrement ever reports zero; and when no
  reference is left and no decrement is under way, exactly one has reported it.\<close>

theorem one_decrement_reaches_zero:
  assumes "reachable counter_init counter_run s" and "within s"
  shows "zeros s \<le> 1 \<and>
    (0 < refs s \<longrightarrow> zeros s = 0 \<and> unat (word_x s) = refs s) \<and>
    (refs s = 0 \<and> (\<forall>t. pcs s t = Idle \<or> pcs s t = Load_cas) \<longrightarrow> zeros s = 1)"
proof -
  have "counter_safe s" using assms(1) by (rule cnt.reachable_inv)
  with assms(2) consider "live s" | "pending s" | "claimed s"
    unfolding counter_safe_def counter_inv_def by blast
  then show ?thesis
  proof cases
    case 1
    then show ?thesis unfolding live_def by (metis counter_pc.distinct(3,7) le0 less_irrefl)
  next
    case 2
    then show ?thesis unfolding pending_def
      by (metis counter_pc.distinct(3,5,7,9) le0 less_irrefl)
  qed (simp add: claimed_def)
qed

text \<open>
  A run of two threads: thread 7 gives the only reference up, thread 8 loads the zero before it
  is claimed and leaves the pending flag, and thread 7 finds the flag and claims the zero.
\<close>

abbreviation example_state :: "u32 \<Rightarrow> (nat \<Rightarrow> counter_pc) \<Rightarrow> nat \<Rightarrow> nat \<Rightarrow> counter" where
  "example_state x p n z \<equiv> \<lparr>word_x = x, pcs = p, refs = n, failed = 0, refused = 0, peak = 1, zeros = z\<rparr>"

lemma example_init: "reachable counter_init counter_run (example_state 1 (\<lambda>_. Idle) 1 0)"
  by (rule reachable_init) (simp add: counter_init_def word_le_nat_alt)

lemma example_dec: "reachable counter_init counter_run (example_state 0 ((\<lambda>_. Idle)(7 := Dec_cas)) 0 0)"
  using reachable_step [OF example_init, of "example_state 0 ((\<lambda>_. Idle)(7 := Dec_cas)) 0 0"]
    counter_step.dec_last [of "example_state 1 (\<lambda>_. Idle) 1 0" 7 1]
  by auto

lemma example_load: "reachable counter_init counter_run
    (example_state 0 ((\<lambda>_. Idle)(7 := Dec_cas, 8 := Load_cas)) 0 0)"
  using reachable_step [OF example_dec, of "example_state 0 ((\<lambda>_. Idle)(7 := Dec_cas, 8 := Load_cas)) 0 0"]
    counter_step.load_read_zero [of "example_state 0 ((\<lambda>_. Idle)(7 := Dec_cas)) 0 0" 8]
  by auto

lemma example_flag: "reachable counter_init counter_run
    (example_state 0xC0000000 ((\<lambda>_. Idle)(7 := Dec_cas)) 0 0)"
  using reachable_step [OF example_load, of "example_state 0xC0000000 ((\<lambda>_. Idle)(7 := Dec_cas)) 0 0"]
    counter_step.load_cas_ok [of "example_state 0 ((\<lambda>_. Idle)(7 := Dec_cas, 8 := Load_cas)) 0 0" 8]
  by (auto simp: fun_upd_twist fun_upd_idem)

lemma example_found: "reachable counter_init counter_run
    (example_state 0xC0000000 ((\<lambda>_. Idle)(7 := Dec_exchange)) 0 0)"
  using reachable_step [OF example_flag, of "example_state 0xC0000000 ((\<lambda>_. Idle)(7 := Dec_exchange)) 0 0"]
    counter_step.dec_cas_pending [of "example_state 0xC0000000 ((\<lambda>_. Idle)(7 := Dec_cas)) 0 0" 7]
  by auto

lemma example_cas:
  "counter_step (example_state 0xC0000000 ((\<lambda>_. Idle)(7 := Dec_exchange)) 0 0) (Decrement_ret True)
     (example_state zero_flag (\<lambda>_. Idle) 0 1)"
  using counter_step.dec_exchange_ok [of "example_state 0xC0000000 ((\<lambda>_. Idle)(7 := Dec_exchange)) 0 0" 7]
  by (simp add: fun_upd_idem)

lemma example_claimed: "reachable counter_init counter_run (example_state zero_flag (\<lambda>_. Idle) 0 1)"
  using reachable_step [OF example_found] example_cas by blast

lemma one_decrement_reaches_zero_witness:
  "within (example_state zero_flag (\<lambda>_. Idle) 0 1) \<and>
   reachable counter_init counter_run (example_state zero_flag (\<lambda>_. Idle) 0 1) \<and>
   zeros (example_state zero_flag (\<lambda>_. Idle) 0 1) \<le> 1"
proof -
  have "within (example_state zero_flag (\<lambda>_. Idle) 0 1)" by (simp add: within_def)
  then show ?thesis using example_claimed one_decrement_reaches_zero by blast
qed

text \<open>Zero is final, within the same bounds: once an operation has seen the counter at zero (a
  load that answered 0, an increment that failed or a decrement that answered true), every later
  increment fails and every later load answers 0. Before that an increment succeeds and a load
  answers the number of references held.\<close>

theorem counter_events:
  assumes "reachable counter_init counter_run s" and "counter_step s e s'"
    and "counter_run\<^sup>*\<^sup>* s' u" and "counter_step u f u'" and "within u"
  shows "(e = Load_ret 0 \<or> e = Increment_ret False \<or> e = Decrement_ret True \<longrightarrow>
            f \<noteq> Increment_ret True \<and> (\<forall>v. f = Load_ret v \<longrightarrow> v = 0)) \<and>
         (\<forall>v. e = Load_ret v \<and> v \<noteq> 0 \<longrightarrow> unat v = refs s)"
proof -
  have safe: "counter_safe s" "counter_safe s'"
    using cnt.reachable_inv [OF assms(1)] counter_safe_step [OF _ assms(2)] by blast+
  have w: "within s'" "within s" using within_run [OF assms(3,5)] within_step [OF assms(2)] by blast+
  have inv: "counter_inv s" and fits: "fits s'"
    using safe w safe_fits by (auto simp: counter_safe_def)
  have final: "pending s' \<or> claimed s'"
    if "e = Load_ret 0 \<or> e = Increment_ret False \<or> e = Decrement_ret True"
    using assms(2) that
  proof cases
    case (load_cas_ok t)
    then have l: "live s" using inv pending_word [of s] claimed_word [of s] by (auto simp: counter_inv_def)
    then obtain w where "w \<noteq> t" "pcs s w = Dec_cas" using load_cas_ok live_zero_other [OF l, of t] by auto
    then show ?thesis using load_cas_ok l by (auto simp: live_def pending_def)
  next
    case (dec_cas_ok t)
    then show ?thesis using inv by (auto simp: counter_inv_def live_def pending_def claimed_def)
  next
    case (dec_exchange_ok t)
    then show ?thesis using inv live_word pending_step [OF _ assms(2) fits] claimed_word
      by (auto simp: counter_inv_def)
  qed (use not_live_D [OF inv] zero_sticks [OF assms(2) _ fits] in \<open>auto split: if_splits\<close>)
  have "f \<noteq> Increment_ret True \<and> (\<forall>v. f = Load_ret v \<longrightarrow> v = 0)" if "pending s' \<or> claimed s'"
    using assms(4) zero_for_good_run [OF assms(3) safe(2) assms(5) that]
    by cases (use pending_word [of u] claimed_word [of u] in auto)
  moreover have "unat v = refs s" if "e = Load_ret v" "v \<noteq> 0" for v
    using assms(2) that inv pending_word [of s] claimed_word [of s]
    by cases (auto simp: counter_inv_def live_def split: if_splits)
  ultimately show ?thesis using final by blast
qed

lemma counter_events_witness:
  "(\<exists>u. counter_step (example_state zero_flag (\<lambda>_. Idle) 0 1) (Increment_ret False) u) \<and>
   \<not> (\<exists>u. counter_step (example_state zero_flag (\<lambda>_. Idle) 0 1) (Increment_ret True) u)"
  using counter_events [OF example_found example_cas rtranclp.rtrancl_refl]
    counter_step.inc_fail [of "example_state zero_flag (\<lambda>_. Idle) 0 1" 0 1]
  by (fastforce simp: within_def)

section \<open>What failed increments do to the flags\<close>

text \<open>
  A failed increment has still added its argument. Enough of them carry out of the low bits and
  clear the zero flag.
\<close>

lemma failed_increments:
  assumes "pcs s t = Idle" and "word_x s = zero_flag" and "n \<le> 2 ^ 31"
  shows "\<exists>u. ((\<lambda>a b. counter_step a (Increment_ret False) b) ^^ n) s u \<and> pcs u = pcs s \<and>
    word_x u = zero_flag + of_nat n \<and> zeros u = zeros s \<and> refs u = refs s \<and> refused u = refused s + n"
  using assms(3)
proof (induction n)
  case 0
  then show ?case using assms(2) by auto
next
  case (Suc n)
  then obtain u where u: "((\<lambda>a b. counter_step a (Increment_ret False) b) ^^ n) s u" "pcs u = pcs s"
    "word_x u = zero_flag + of_nat n" "zeros u = zeros s" "refs u = refs s" "refused u = refused s + n" by auto
  have "unat (word_x u) = 2 ^ 31 + n"
    using Suc.prems unat_add_small [of zero_flag "of_nat n"] by (simp add: u(3) unat_of_nat take_bit_nat_eq_self)
  then have "word_x u AND zero_flag \<noteq> 0" by (simp add: zero_flag_clear)
  then have "counter_step u (Increment_ret False)
      (u\<lparr>word_x := word_x u + 1, failed := failed u + unat (1 :: u32), refused := refused u + unat (1 :: u32)\<rparr>)"
    (is "counter_step u _ ?v")
    using counter_step.inc_fail [of u t 1] assms(1) u(2) by simp
  then have "((\<lambda>a b. counter_step a (Increment_ret False) b) ^^ Suc n) s ?v" using u(1) by auto
  then show ?case using u by (intro exI [of _ ?v]) (simp add: add.assoc)
qed

text \<open>C33. The bound of C10 is needed: from every state in which zero was claimed and no increment
  has failed since, \<open>2 ^ 31\<close> failed increments by 1 lead to a word without the zero flag, and the
  next increment, on an object that was already destroyed, succeeds.\<close>

theorem failed_increments_revive:
  assumes "reachable counter_init counter_run s" and "pcs s t = Idle" and "word_x s = zero_flag"
  shows "\<exists>u v. ((\<lambda>a b. counter_step a (Increment_ret False) b) ^^ (2 ^ 31)) s u \<and>
    counter_step u (Increment_ret True) v \<and> reachable counter_init counter_run v \<and>
    word_x v = 1 \<and> zeros v = zeros s"
proof -
  obtain u where u: "((\<lambda>a b. counter_step a (Increment_ret False) b) ^^ (2 ^ 31)) s u" "pcs u = pcs s"
    "word_x u = zero_flag + of_nat (2 ^ 31)" "zeros u = zeros s"
    using failed_increments [OF assms(2,3), of "2 ^ 31"] by blast
  have "counter_run\<^sup>*\<^sup>* s u"
    using u(1) by (rule relpowp_imp_rtranclp [THEN rtranclp_mono [THEN predicate2D, rotated]]) blast
  with assms(1) have r: "reachable counter_init counter_run u" by (rule reachable_rtranclp [rotated])
  have v: "counter_step u (Increment_ret True)
      (u\<lparr>word_x := word_x u + 1, refs := refs u + unat (1 :: u32), peak := max (peak u) (refs u + unat (1 :: u32))\<rparr>)"
    (is "counter_step u _ ?v")
    using counter_step.inc_ok [of u t 1] assms(2) u(2,3) by simp
  then have "reachable counter_init counter_run ?v" using reachable_step [OF r] by blast
  then show ?thesis using u v by (intro exI [of _ u] exI [of _ ?v]) simp
qed

lemma failed_increments_revive_witness:
  "\<exists>u v. ((\<lambda>a b. counter_step a (Increment_ret False) b) ^^ (2 ^ 31)) (example_state zero_flag (\<lambda>_. Idle) 0 1) u \<and>
    counter_step u (Increment_ret True) v \<and> word_x v = 1 \<and> zeros v = 1"
  using failed_increments_revive [OF example_claimed, of 0] by auto

end
