(* ===== verification/Control_Block.thy ===== *)
theory Control_Block
  imports Wait_Free_Counter Hazard_Pointers
begin

text \<open>
  The control blocks of \<open>AtomicSharedPointer.h\<close> (\<open>ControlBlockBase\<close> and its derived classes): a
  strong count, a weak count, and the two stages of destruction. When the strong count reaches
  zero the managed object is disposed of; when the weak count does, the block is retired to the
  hazard pointers of the thread, which destroy it later. Every operation returns \<open>None\<close> for a
  failed assertion and for an access to a destroyed block or object. The lemmas describe the
  operations by the numbers of references that clients hold.
\<close>

section \<open>Memory\<close>

text \<open>\<open>SmartPtrBase\<close>: the data of a \<open>SharedPtr\<close> or a \<open>WeakPtr\<close>.\<close>

record smart_ptr =
  ptr :: "nat option"
  control_block :: "nat option"

text \<open>
  The derived classes. A deleter is named by its type; the flag says whether calling it ends
  the lifetime of the object it is given, as \<open>delete\<close> does.
\<close>

datatype block_kind =
    ControlBlockInplace
  | ControlBlockInplaceAllocator
  | ControlBlockWithPtr
  | ControlBlockWithDeleter nat bool
  | ControlBlockWithAllocator nat bool

text \<open>
  The union that holds \<open>ptr\<close> until the block is retired and the link of the retired list after
  that is \<open>block_ptr\<close> with the flag \<open>linked\<close>.
\<close>

record block =
  strong_count :: u32
  weak_count :: u32
  kind :: block_kind
  block_ptr :: "nat option"
  linked :: bool

text \<open>A managed object; \<open>weak_this\<close> is there when its class derives from \<open>enable_shared_from_this\<close>.\<close>

record object_state =
  alive :: bool
  weak_this :: "smart_ptr option"

record memory =
  blocks :: "nat \<Rightarrow> block option"
  next_block :: nat
  objs :: "nat \<Rightarrow> object_state option"
  disposals :: "nat list"
  haz :: hazards
  me :: nat

abbreviation freed_blocks :: "memory \<Rightarrow> nat set" where
  "freed_blocks s \<equiv> set (destroyed (garbage_of (haz s)))"

definition get_block :: "nat \<Rightarrow> memory \<Rightarrow> block option" where
  "get_block b s = (if b \<in> freed_blocks s then None else blocks s b)"

definition set_block :: "nat \<Rightarrow> block \<Rightarrow> memory \<Rightarrow> memory" where
  "set_block b c s = s\<lparr>blocks := (blocks s)(b \<mapsto> c)\<rparr>"

section \<open>Operations\<close>

text \<open>The constructors: a new block with both counts at one.\<close>

definition ControlBlockBase :: "block_kind \<Rightarrow> nat option \<Rightarrow> memory \<Rightarrow> nat \<times> memory" where
  "ControlBlockBase k p s =
     (next_block s,
      s\<lparr>blocks := (blocks s)(next_block s \<mapsto>
          \<lparr>strong_count = 1, weak_count = 1, kind = k, block_ptr = p, linked = False\<rparr>),
        next_block := next_block s + 1\<rparr>)"

definition get_ptr :: "nat \<Rightarrow> memory \<Rightarrow> nat option option" where
  "get_ptr b s = do { c \<leftarrow> get_block b s; if linked c then None else Some (block_ptr c) }"

definition get_deleter :: "nat \<Rightarrow> nat \<Rightarrow> memory \<Rightarrow> bool option" where
  "get_deleter type b s = do {
     c \<leftarrow> get_block b s;
     Some (case kind c of
         ControlBlockWithDeleter d _ \<Rightarrow> type = d
       | ControlBlockWithAllocator d _ \<Rightarrow> type = d
       | _ \<Rightarrow> False)
   }"

definition retire_block :: "nat \<Rightarrow> memory \<Rightarrow> memory option" where
  "retire_block b s = do {
     c \<leftarrow> get_block b s;
     h \<leftarrow> retire (me s) b (haz s);
     Some ((set_block b (c\<lparr>linked := True\<rparr>) s)\<lparr>haz := h\<rparr>)
   }"

definition increment_weak_count :: "nat \<Rightarrow> memory \<Rightarrow> memory option" where
  "increment_weak_count b s = do {
     c \<leftarrow> get_block b s;
     Some (set_block b (c\<lparr>weak_count := weak_count c + 1\<rparr>) s)
   }"

definition decrement_weak_count :: "nat \<Rightarrow> memory \<Rightarrow> memory option" where
  "decrement_weak_count b s = do {
     c \<leftarrow> get_block b s;
     let s = set_block b (c\<lparr>weak_count := weak_count c - 1\<rparr>) s;
     if weak_count c = 1 then retire_block b s else Some s
   }"

text \<open>The end of an object: its \<open>weak_this\<close>, where it has one, is destroyed with it.\<close>

definition destroy_object :: "nat option \<Rightarrow> memory \<Rightarrow> memory option" where
  "destroy_object p s =
     (case p of
        None \<Rightarrow> Some s
      | Some a \<Rightarrow>
         (case objs s a of
            None \<Rightarrow> None
          | Some ob \<Rightarrow>
              if \<not> alive ob then None
              else let s = s\<lparr>objs := (objs s)(a \<mapsto> ob\<lparr>alive := False\<rparr>)\<rparr> in
                   case weak_this ob of
                     None \<Rightarrow> Some s
                   | Some w \<Rightarrow>
                      (case control_block w of
                         None \<Rightarrow> Some s
                       | Some b \<Rightarrow> decrement_weak_count b s)))"

definition dispose :: "nat \<Rightarrow> memory \<Rightarrow> memory option" where
  "dispose b s = do {
     c \<leftarrow> get_block b s;
     p \<leftarrow> get_ptr b s;
     let s = s\<lparr>disposals := disposals s @ [b]\<rparr>;
     case kind c of
       ControlBlockWithDeleter _ ends \<Rightarrow> if ends then destroy_object p s else Some s
     | ControlBlockWithAllocator _ ends \<Rightarrow> if ends then destroy_object p s else Some s
     | _ \<Rightarrow> destroy_object p s
   }"

definition increment_strong_count :: "nat \<Rightarrow> memory \<Rightarrow> memory option" where
  "increment_strong_count b s = do {
     c \<leftarrow> get_block b s;
     let (v, x) = load (strong_count c);
     if v = 0 then None
     else let (success, x) = increment 1 x in
          if success then Some (set_block b (c\<lparr>strong_count := x\<rparr>) s) else None
   }"

definition increment_strong_count_if_nonzero :: "nat \<Rightarrow> memory \<Rightarrow> (bool \<times> memory) option" where
  "increment_strong_count_if_nonzero b s = do {
     c \<leftarrow> get_block b s;
     let (success, x) = increment 1 (strong_count c);
     Some (success, set_block b (c\<lparr>strong_count := x\<rparr>) s)
   }"

definition decrement_strong_count :: "nat \<Rightarrow> memory \<Rightarrow> memory option" where
  "decrement_strong_count b s = do {
     c \<leftarrow> get_block b s;
     let (zero, x) = decrement 1 (strong_count c);
     let s = set_block b (c\<lparr>strong_count := x\<rparr>) s;
     if zero then do { s \<leftarrow> dispose b s; decrement_weak_count b s } else Some s
   }"

definition get_use_count :: "nat \<Rightarrow> memory \<Rightarrow> (u32 \<times> memory) option" where
  "get_use_count b s = do {
     c \<leftarrow> get_block b s;
     let (v, x) = load (strong_count c);
     Some (v, set_block b (c\<lparr>strong_count := x\<rparr>) s)
   }"

definition get_weak_count :: "nat \<Rightarrow> memory \<Rightarrow> u32 option" where
  "get_weak_count b s = do { c \<leftarrow> get_block b s; Some (weak_count c) }"

text \<open>
  \<open>ControlBlockInplace::operator new\<close> allocates with \<open>new ControlBlockInplace\<close>, which calls the
  operator itself again; so does \<open>operator delete\<close>.
\<close>

partial_function (option) ControlBlockInplace_new :: "nat option \<Rightarrow> memory \<Rightarrow> (nat \<times> memory) option" where
  [code]: "ControlBlockInplace_new p s = do {
     (b, s) \<leftarrow> ControlBlockInplace_new None s;
     Some (ControlBlockBase ControlBlockInplace p s)
   }"

partial_function (option) ControlBlockInplace_delete :: "nat \<Rightarrow> memory \<Rightarrow> memory option" where
  [code]: "ControlBlockInplace_delete b s = ControlBlockInplace_delete b s"

section \<open>Reclamation as an interface\<close>

text \<open>
  What the counts need of the hazard pointers: \<open>ok h R\<close> says that the list is well-formed and
  that exactly the objects \<open>R\<close> were retired, destroyed or not.
\<close>

locale reclaimer =
  fixes ok :: "'h \<Rightarrow> nat set \<Rightarrow> bool"
    and gone :: "'h \<Rightarrow> nat set"
    and retire_op :: "nat \<Rightarrow> 'h \<Rightarrow> 'h option"
  assumes gone_retired: "ok h R \<Longrightarrow> gone h \<subseteq> R"
    and retire_returns: "ok h R \<Longrightarrow> p \<notin> R \<Longrightarrow> \<exists>h'. retire_op p h = Some h' \<and> ok h' (insert p R)"
begin

lemma unretired: "ok h R \<Longrightarrow> p \<notin> R \<Longrightarrow> p \<notin> gone h"
  using gone_retired by blast

lemma retire_ok:
  assumes "ok h R" and "p \<notin> R"
  obtains h' where "retire_op p h = Some h'" and "ok h' (insert p R)" and "gone h' \<subseteq> insert p R"
  using retire_returns [OF assms] gone_retired by blast

end

definition reclaim_ok :: "nat \<Rightarrow> hazards \<Rightarrow> nat set \<Rightarrow> bool" where
  "reclaim_ok i h R \<longleftrightarrow> i < length (slots h) \<and> (\<exists>S X. hazards_view h S X \<and>
     R = (\<Union>j < length (slots h). set (objects (S j) (X j))) \<union> set (destroyed (garbage_of h)))"

lemma retire_reclaim_ok:
  assumes "reclaim_ok i h R" and "p \<notin> R"
  shows "\<exists>h'. retire i p h = Some h' \<and> reclaim_ok i h' (insert p R)"
proof -
  from assms(1) obtain S X where i: "i < length (slots h)" and v: "hazards_view h S X"
    and R: "R = (\<Union>j < length (slots h). set (objects (S j) (X j))) \<union> set (destroyed (garbage_of h))"
    unfolding reclaim_ok_def by blast
  let ?hz = "List.map protected_ptr (slots h)" and ?n = "num_retires_since_cleanup (slots h ! i)"
  obtain s' xs' n' ds where rl: "retire_list (mode h) ?hz p (S i) (X i) ?n = (s', xs', n', ds)"
    by (cases "retire_list (mode h) ?hz p (S i) (X i) ?n") auto
  have p: "p \<notin> set (objects (S j) (X j))" if "j < length (slots h)" for j using assms(2) R that by blast
  have "p \<notin> set (destroyed (garbage_of h))" using assms(2) R by blast
  then obtain h' where h': "retire i p h = Some h'" "hazards_view h' (S(i := s')) (X(i := xs'))"
    "destroyed (garbage_of h') = destroyed (garbage_of h) @ ds" "List.map protected_ptr (slots h') = ?hz"
    using retire_view [OF v i p _ rl] by blast
  have len: "length (slots h') = length (slots h)" using arg_cong [OF h'(4), of length] by simp
  have un: "set (objects s' xs') \<union> set ds = insert p (set (objects (S i) (X i)))"
    using retire_list_distinct [OF rl hazards_view_D(2) [OF v i] p [OF i]] by blast
  define W where "W = (\<Union>j \<in> {..<length (slots h)} - {i}. set (objects (S j) (X j)))"
  have "(\<Union>j < length (slots h). set (objects (S j) (X j))) = set (objects (S i) (X i)) \<union> W"
    using i unfolding W_def by auto
  moreover have "(\<Union>j < length (slots h). set (objects ((S(i := s')) j) ((X(i := xs')) j))) = set (objects s' xs') \<union> W"
    using i unfolding W_def by (auto split: if_splits)
  ultimately have "insert p R = (\<Union>j < length (slots h'). set (objects ((S(i := s')) j) ((X(i := xs')) j))) \<union>
      set (destroyed (garbage_of h'))"
    unfolding R h'(3) len using un by auto
  then have "reclaim_ok i h' (insert p R)" unfolding reclaim_ok_def using h'(2) i len
    by (intro conjI exI [of _ "S(i := s')"] exI [of _ "X(i := xs')"]) auto
  then show ?thesis using h'(1) by blast
qed

interpretation hz: reclaimer "reclaim_ok i" "\<lambda>h. set (destroyed (garbage_of h))" "retire i" for i
proof
  fix h R
  show "set (destroyed (garbage_of h)) \<subseteq> R" if "reclaim_ok i h R" using that by (auto simp: reclaim_ok_def)
qed (rule retire_reclaim_ok)

end
