(* ===== verification/Reference_Counts.thy ===== *)
theory Reference_Counts
  imports Control_Block
begin

text \<open>
  The counts of a control block against the references that exist. \<open>N b\<close> is the number of strong
  references to block \<open>b\<close> that clients hold, \<open>M b\<close> the number of weak ones. The lemmas of this
  theory say of each counting operation of \<open>Control_Block\<close> that it returns and what it makes of
  the two numbers; the smart pointers are proved from them alone.
\<close>

section \<open>The invariant\<close>

text \<open>The weak side: every block has the weak count \<open>W b\<close> and is retired exactly when that is zero.\<close>

definition weak_at :: "memory \<Rightarrow> nat set \<Rightarrow> (nat \<Rightarrow> nat) \<Rightarrow> bool" where
  "weak_at s R W \<longleftrightarrow> reclaim_ok (me s) (haz s) R \<and> R \<subseteq> dom (blocks s) \<and>
     (\<forall>b c. blocks s b = Some c \<longrightarrow> unat (weak_count c) = W b \<and> (b \<in> R \<longleftrightarrow> W b = 0) \<and> (linked c \<longleftrightarrow> b \<in> R))"

text \<open>The strong side: the count is that of the references, and dead once the object was disposed of.\<close>

definition strong_at :: "memory \<Rightarrow> (nat \<Rightarrow> nat) \<Rightarrow> bool" where
  "strong_at s N \<longleftrightarrow> distinct (disposals s) \<and> set (disposals s) \<subseteq> dom (blocks s) \<and>
     (\<forall>b c. blocks s b = Some c \<longrightarrow>
        (if 0 < N b then holds (strong_count c) (N b) \<and> b \<notin> set (disposals s)
         else (\<exists>k. dead (strong_count c) k) \<and> b \<in> set (disposals s)))"

definition ends :: "block \<Rightarrow> bool" where
  "ends c \<longleftrightarrow> (case kind c of
     ControlBlockWithDeleter _ e \<Rightarrow> e | ControlBlockWithAllocator _ e \<Rightarrow> e | _ \<Rightarrow> True)"

text \<open>
  The objects: an object belongs to one block; it lives until that block is disposed of; and its
  \<open>weak_this\<close> refers to no other block.
\<close>

definition objs_at :: "memory \<Rightarrow> (nat \<Rightarrow> nat) \<Rightarrow> bool" where
  "objs_at s N \<longleftrightarrow>
     (\<forall>b b' c c' a. blocks s b = Some c \<and> blocks s b' = Some c' \<and> block_ptr c = Some a \<and> block_ptr c' = Some a \<longrightarrow> b = b') \<and>
     (\<forall>b c a. blocks s b = Some c \<and> block_ptr c = Some a \<and> ends c \<longrightarrow>
        (\<exists>ob. objs s a = Some ob \<and> (alive ob \<longleftrightarrow> 0 < N b))) \<and>
     (\<forall>a ob w b. objs s a = Some ob \<and> weak_this ob = Some w \<and> control_block w = Some b \<longrightarrow>
        (\<exists>c. blocks s b = Some c \<and> block_ptr c = Some a \<and> ends c))"

definition esft_ref :: "memory \<Rightarrow> nat \<Rightarrow> nat" where
  "esft_ref s b = (case blocks s b of
     None \<Rightarrow> 0
   | Some c \<Rightarrow> (case block_ptr c of
       None \<Rightarrow> 0
     | Some a \<Rightarrow> (case objs s a of
         None \<Rightarrow> 0
       | Some ob \<Rightarrow> if alive ob \<and> (\<exists>w. weak_this ob = Some w \<and> control_block w = Some b) then 1 else 0)))"

definition weak_total :: "memory \<Rightarrow> (nat \<Rightarrow> nat) \<Rightarrow> (nat \<Rightarrow> nat) \<Rightarrow> nat \<Rightarrow> nat" where
  "weak_total s N M b = M b + esft_ref s b + (if 0 < N b then 1 else 0)"

definition fresh_zero :: "memory \<Rightarrow> (nat \<Rightarrow> nat) \<Rightarrow> (nat \<Rightarrow> nat) \<Rightarrow> bool" where
  "fresh_zero s N M \<longleftrightarrow> (\<forall>b. next_block s \<le> b \<longrightarrow> blocks s b = None) \<and>
     (\<forall>b. blocks s b = None \<longrightarrow> N b = 0 \<and> M b = 0)"

definition refs_ok :: "memory \<Rightarrow> (nat \<Rightarrow> nat) \<Rightarrow> (nat \<Rightarrow> nat) \<Rightarrow> bool" where
  "refs_ok s N M \<longleftrightarrow> (\<exists>R. weak_at s R (weak_total s N M)) \<and> strong_at s N \<and> objs_at s N \<and> fresh_zero s N M"

text \<open>The counters have room for \<open>d\<close> more references; failed attempts to take one count too.\<close>

definition room :: "nat \<Rightarrow> memory \<Rightarrow> nat \<Rightarrow> bool" where
  "room d s b \<longleftrightarrow> (\<forall>c. blocks s b = Some c \<longrightarrow>
     unat (strong_count c) mod 2 ^ 31 + d < 2 ^ 30 \<and> unat (weak_count c) + d < 2 ^ 32)"

lemma room_mono: "room d s b \<Longrightarrow> e \<le> d \<Longrightarrow> room e s b"
  unfolding room_def by (meson add_left_mono le_less_trans)

section \<open>Blocks that are referred to\<close>

lemma weak_at_get:
  assumes "weak_at s R W" and "blocks s b = Some c" and "0 < W b"
  shows "get_block b s = Some c" and "\<not> linked c" and "b \<notin> R"
proof -
  have rk: "reclaim_ok (me s) (haz s) R" using assms(1) unfolding weak_at_def by blast
  have "(b \<in> R \<longleftrightarrow> W b = 0) \<and> (linked c \<longleftrightarrow> b \<in> R)" using assms(1,2) unfolding weak_at_def by blast
  then show nr: "b \<notin> R" and "\<not> linked c" using assms(3) by simp_all
  have "b \<notin> freed_blocks s" by (rule hz.unretired [OF rk nr])
  then show "get_block b s = Some c" using assms(2) by (simp add: get_block_def)
qed

lemma refs_get:
  assumes "refs_ok s N M" and "0 < N b \<or> 0 < M b"
  obtains c where "get_block b s = Some c" and "blocks s b = Some c" and "\<not> linked c"
proof -
  from assms obtain R where w: "weak_at s R (weak_total s N M)" unfolding refs_ok_def by blast
  from assms obtain c where c: "blocks s b = Some c"
    unfolding refs_ok_def fresh_zero_def by (cases "blocks s b") auto
  have "0 < weak_total s N M b" using assms(2) unfolding weak_total_def by auto
  from weak_at_get [OF w c this] c that show thesis by blast
qed

text \<open>Operations on the weak side leave this alone.\<close>

definition strong_view :: "memory \<Rightarrow> nat \<Rightarrow> (u32 \<times> block_kind \<times> nat option) option" where
  "strong_view s b = map_option (\<lambda>c. (strong_count c, kind c, block_ptr c)) (blocks s b)"

definition same_strong :: "memory \<Rightarrow> memory \<Rightarrow> bool" where
  "same_strong s s' \<longleftrightarrow> strong_view s' = strong_view s \<and> objs s' = objs s \<and> disposals s' = disposals s \<and>
     me s' = me s \<and> next_block s' = next_block s"

lemma same_strong_refl [simp]: "same_strong s s"
  by (simp add: same_strong_def)

lemma same_strong_trans: "same_strong s t \<Longrightarrow> same_strong t u \<Longrightarrow> same_strong s u"
  by (simp add: same_strong_def)

lemma strong_view_Some:
  assumes "same_strong s s'" and "blocks s' b = Some c'"
  obtains c where "blocks s b = Some c" and "strong_count c = strong_count c'" and "kind c = kind c'"
    and "block_ptr c = block_ptr c'"
proof -
  have "strong_view s' b = strong_view s b" using assms(1) by (simp add: same_strong_def)
  with assms(2) that show thesis unfolding strong_view_def by (cases "blocks s b") auto
qed

lemma same_strong_sym: "same_strong s t \<Longrightarrow> same_strong t s"
  by (simp add: same_strong_def)

lemma same_strong_None: "same_strong s s' \<Longrightarrow> blocks s' b = None \<longleftrightarrow> blocks s b = None"
proof -
  assume "same_strong s s'"
  then have "strong_view s' b = strong_view s b" by (simp add: same_strong_def)
  then show ?thesis by (cases "blocks s b"; cases "blocks s' b") (simp_all add: strong_view_def)
qed

lemma same_strong_dom: "same_strong s s' \<Longrightarrow> dom (blocks s') = dom (blocks s)"
  by (simp add: dom_def same_strong_None)

lemma same_strong_inv:
  assumes "same_strong s s'"
  shows "strong_at s N \<Longrightarrow> strong_at s' N" and "objs_at s N \<Longrightarrow> objs_at s' N"
    and "esft_ref s' b = esft_ref s b" and "fresh_zero s N M \<Longrightarrow> fresh_zero s' N M"
proof -
  show "strong_at s' N" if "strong_at s N"
    unfolding strong_at_def
  proof (intro conjI allI impI)
    show "distinct (disposals s')" "set (disposals s') \<subseteq> dom (blocks s')"
      using that assms same_strong_dom [OF assms] by (auto simp: strong_at_def same_strong_def)
    fix b c'
    assume "blocks s' b = Some c'"
    then obtain c where "blocks s b = Some c" "strong_count c = strong_count c'"
      using strong_view_Some [OF assms] by metis
    then show "if 0 < N b then holds (strong_count c') (N b) \<and> b \<notin> set (disposals s')
         else (\<exists>k. dead (strong_count c') k) \<and> b \<in> set (disposals s')"
      using that assms unfolding strong_at_def same_strong_def by metis
  qed
  have ends_cong: "kind c = kind c' \<Longrightarrow> ends c = ends c'" for c c' by (simp add: ends_def)
  have o: "objs s' = objs s" using assms by (simp add: same_strong_def)
  show "objs_at s' N" if ob': "objs_at s N"
    unfolding objs_at_def o
  proof (intro conjI allI impI)
    fix b b' c c' a
    assume "blocks s' b = Some c \<and> blocks s' b' = Some c' \<and> block_ptr c = Some a \<and> block_ptr c' = Some a"
    then show "b = b'" using ob' strong_view_Some [OF assms] unfolding objs_at_def by metis
  next
    fix b c a
    assume "blocks s' b = Some c \<and> block_ptr c = Some a \<and> ends c"
    then show "\<exists>ob. objs s a = Some ob \<and> (alive ob \<longleftrightarrow> 0 < N b)"
      using ob' strong_view_Some [OF assms] ends_cong unfolding objs_at_def by metis
  next
    fix a ob w b
    assume "objs s a = Some ob \<and> weak_this ob = Some w \<and> control_block w = Some b"
    then obtain c where "blocks s b = Some c" "block_ptr c = Some a" "ends c"
      using ob' unfolding objs_at_def by blast
    then show "\<exists>c. blocks s' b = Some c \<and> block_ptr c = Some a \<and> ends c"
      using strong_view_Some [OF same_strong_sym [OF assms]] ends_cong by metis
  qed
  have v: "map_option block_ptr (blocks s' b) = map_option block_ptr (blocks s b)"
  proof (cases "blocks s' b")
    case None
    then show ?thesis using same_strong_None [OF assms] by simp
  next
    case (Some c')
    then obtain c where "blocks s b = Some c" "block_ptr c = block_ptr c'" by (rule strong_view_Some [OF assms])
    then show ?thesis using Some by simp
  qed
  then show "esft_ref s' b = esft_ref s b" unfolding esft_ref_def o
    by (cases "blocks s' b"; cases "blocks s b") simp_all
  show "fresh_zero s' N M" if "fresh_zero s N M"
    using that assms same_strong_None [OF assms] by (simp add: fresh_zero_def same_strong_def)
qed

section \<open>The weak count\<close>

definition keeps_room :: "memory \<Rightarrow> memory \<Rightarrow> bool" where
  "keeps_room s s' \<longleftrightarrow> (\<forall>d b. room d s b \<longrightarrow> room d s' b)"

lemma keeps_roomD: "keeps_room s s' \<Longrightarrow> room d s b \<Longrightarrow> room d s' b"
  by (simp add: keeps_room_def)

lemma keeps_room_trans: "keeps_room s t \<Longrightarrow> keeps_room t u \<Longrightarrow> keeps_room s u"
  by (simp add: keeps_room_def)

lemma keeps_room_same: "blocks s' = blocks s \<Longrightarrow> keeps_room s s'"
  by (simp add: keeps_room_def room_def)

lemma keeps_room_set:
  assumes "blocks s b = Some c" and "blocks t = (blocks s)(b \<mapsto> c')"
    and "unat (strong_count c') mod 2 ^ 31 \<le> unat (strong_count c) mod 2 ^ 31"
    and "unat (weak_count c') \<le> unat (weak_count c)"
  shows "keeps_room s t"
  unfolding keeps_room_def
proof (intro allI impI)
  fix d x
  assume rm: "room d s x"
  show "room d t x"
  proof (cases "x = b")
    case True
    with rm assms(1) have "unat (strong_count c) mod 2 ^ 31 + d < 2 ^ 30 \<and> unat (weak_count c) + d < 2 ^ 32"
      unfolding room_def by blast
    then have "unat (strong_count c') mod 2 ^ 31 + d < 2 ^ 30 \<and> unat (weak_count c') + d < 2 ^ 32"
      using assms(3,4) by linarith
    then show ?thesis using True assms(2) by (simp add: room_def)
  next
    case False
    then show ?thesis using rm assms(2) by (simp add: room_def)
  qed
qed

lemma set_block_simps [simp]:
  "blocks (set_block b c s) = (blocks s)(b \<mapsto> c)" "next_block (set_block b c s) = next_block s"
  "objs (set_block b c s) = objs s" "disposals (set_block b c s) = disposals s"
  "haz (set_block b c s) = haz s" "me (set_block b c s) = me s"
  by (simp_all add: set_block_def)

lemma same_strong_set:
  "blocks s b = Some c \<Longrightarrow> strong_count c' = strong_count c \<Longrightarrow> kind c' = kind c \<Longrightarrow> block_ptr c' = block_ptr c \<Longrightarrow>
   same_strong s (set_block b c' s)"
  by (auto simp: same_strong_def strong_view_def)

lemma weak_atD:
  assumes "weak_at s R W" and "blocks s b = Some c"
  shows "unat (weak_count c) = W b" "b \<in> R \<longleftrightarrow> W b = 0" "linked c \<longleftrightarrow> b \<in> R"
  using assms unfolding weak_at_def by blast+

lemma weak_at_set:
  assumes "weak_at s R W" and "reclaim_ok (me s) h R'" and "R' = (if n = 0 then insert b R else R)"
    and "unat (weak_count c') = n" and "b \<in> R' \<longleftrightarrow> n = 0" and "linked c' \<longleftrightarrow> n = 0"
  shows "weak_at ((set_block b c' s)\<lparr>haz := h\<rparr>) R' (W(b := n))"
  unfolding weak_at_def
proof (intro conjI allI impI)
  show "reclaim_ok (me ((set_block b c' s)\<lparr>haz := h\<rparr>)) (haz ((set_block b c' s)\<lparr>haz := h\<rparr>)) R'" using assms(2) by simp
  have "R \<subseteq> dom (blocks s)" using assms(1) unfolding weak_at_def by blast
  then show "R' \<subseteq> dom (blocks ((set_block b c' s)\<lparr>haz := h\<rparr>))" using assms(3) by auto
  fix x y
  assume "blocks ((set_block b c' s)\<lparr>haz := h\<rparr>) x = Some y"
  then have xy: "(if x = b then Some c' else blocks s x) = Some y" by simp
  have "unat (weak_count y) = (W(b := n)) x \<and> (x \<in> R' \<longleftrightarrow> (W(b := n)) x = 0) \<and> (linked y \<longleftrightarrow> x \<in> R')"
  proof (cases "x = b")
    case True
    then show ?thesis using xy assms(4-6) by simp
  next
    case False
    then have "blocks s x = Some y" using xy by simp
    then have "unat (weak_count y) = W x \<and> (x \<in> R \<longleftrightarrow> W x = 0) \<and> (linked y \<longleftrightarrow> x \<in> R)"
      using assms(1) unfolding weak_at_def by blast
    then show ?thesis using False assms(3) by simp
  qed
  then show "unat (weak_count y) = (W(b := n)) x" "x \<in> R' \<longleftrightarrow> (W(b := n)) x = 0" "linked y \<longleftrightarrow> x \<in> R'" by blast+
qed

lemma haz_same: "s\<lparr>haz := haz s\<rparr> = s"
  by simp

lemma increment_weak_at:
  assumes w: "weak_at s R W" and c: "blocks s b = Some c" and p: "0 < W b" and r: "room (Suc d) s b"
  shows "\<exists>s'. increment_weak_count b s = Some s' \<and> weak_at s' R (W(b := W b + 1)) \<and> same_strong s s' \<and>
    room d s' b \<and> (\<forall>x e. x \<noteq> b \<longrightarrow> room e s x \<longrightarrow> room e s' x)"
proof -
  define c' where "c' = c\<lparr>weak_count := weak_count c + 1\<rparr>"
  have "increment_weak_count b s = Some (set_block b c' s)"
    using weak_at_get(1) [OF w c p] by (simp add: increment_weak_count_def c'_def)
  moreover have u: "unat (weak_count c') = W b + 1"
    using weak_atD(1) [OF w c] r c by (simp add: c'_def room_def unat_simps)
  have nr: "b \<notin> R" "\<not> linked c" using weak_at_get [OF w c p] by blast+
  have "reclaim_ok (me s) (haz s) R" using w unfolding weak_at_def by blast
  from weak_at_set [OF w this _ u, of b] nr have "weak_at (set_block b c' s) R (W(b := W b + 1))"
    by (simp add: c'_def set_block_def)
  moreover have "same_strong s (set_block b c' s)" by (rule same_strong_set [OF c]) (simp_all add: c'_def)
  moreover have "room d (set_block b c' s) b"
    using r c u weak_atD(1) [OF w c] by (simp add: room_def c'_def)
  moreover have "room e (set_block b c' s) x" if "x \<noteq> b" "room e s x" for x e using that by (simp add: room_def)
  ultimately show ?thesis by blast
qed

lemma decrement_weak_at:
  assumes w: "weak_at s R W" and c: "blocks s b = Some c" and p: "0 < W b"
  shows "\<exists>s' R'. decrement_weak_count b s = Some s' \<and> weak_at s' R' (W(b := W b - 1)) \<and> same_strong s s' \<and>
    keeps_room s s'"
proof -
  define c' where "c' = c\<lparr>weak_count := weak_count c - 1\<rparr>"
  define s1 where "s1 = set_block b c' s"
  note get = weak_at_get [OF w c p]
  have rk: "reclaim_ok (me s) (haz s) R" using w unfolding weak_at_def by blast
  have wc: "unat (weak_count c) = W b" using weak_atD(1) [OF w c] .
  then have u: "unat (weak_count c') = W b - 1" "weak_count c = 1 \<longleftrightarrow> W b = 1"
    using p by (auto simp: c'_def unat_simps word_unat_eq_iff)
  have ss: "same_strong s s1" unfolding s1_def by (rule same_strong_set [OF c]) (simp_all add: c'_def)
  have "unat (weak_count c') \<le> unat (weak_count c)" using u(1) wc by linarith
  then have kr: "keeps_room s t" if "blocks t = (blocks s)(b \<mapsto> c'\<lparr>linked := l\<rparr>)" for t l
    by (intro keeps_room_set [OF c that]) (simp_all add: c'_def)
  have dec: "decrement_weak_count b s = (if W b = 1 then retire_block b s1 else Some s1)"
    using get(1) u(2) by (simp add: decrement_weak_count_def s1_def c'_def)
  show ?thesis
  proof (cases "W b = 1")
    case False
    then have "W b - 1 \<noteq> 0" using p by simp
    then have "weak_at s1 R (W(b := W b - 1))"
      using weak_at_set [OF w rk _ u(1), of b] get(2,3) by (simp add: s1_def c'_def set_block_def)
    moreover have "keeps_room s s1" by (rule kr [of _ "linked c'"]) (simp add: s1_def)
    ultimately show ?thesis using dec False ss by auto
  next
    case True
    from hz.retire_ok [OF rk get(3)] obtain h where
      h: "retire (me s) b (haz s) = Some h" "reclaim_ok (me s) h (insert b R)" by blast
    define s2 where "s2 = (set_block b (c'\<lparr>linked := True\<rparr>) s1)\<lparr>haz := h\<rparr>"
    have "get_block b s1 = Some c'" using get(1) c by (simp add: get_block_def s1_def split: if_splits)
    then have "retire_block b s1 = Some s2" using h(1) by (simp add: retire_block_def s2_def s1_def)
    moreover have "weak_at s2 (insert b R) (W(b := W b - 1))"
      using weak_at_set [OF w h(2), of 0 b "c'\<lparr>linked := True\<rparr>"] True u(1) by (simp add: s2_def s1_def set_block_def)
    moreover have "same_strong s1 (set_block b (c'\<lparr>linked := True\<rparr>) s1)"
      by (rule same_strong_set) (simp_all add: s1_def)
    then have "same_strong s s2" using ss unfolding same_strong_def s2_def strong_view_def by simp
    moreover have "keeps_room s s2" by (rule kr [of _ True]) (simp add: s2_def s1_def)
    ultimately show ?thesis using dec True by auto
  qed
qed

section \<open>Changing one block\<close>

lemma weak_at_keep:
  assumes "weak_at s R W" and "blocks s b = Some c" and "weak_count c' = weak_count c" and "linked c' = linked c"
  shows "weak_at (set_block b c' s) R W"
  unfolding weak_at_def
proof (intro conjI allI impI)
  show "reclaim_ok (me (set_block b c' s)) (haz (set_block b c' s)) R" "R \<subseteq> dom (blocks (set_block b c' s))"
    using assms(1,2) unfolding weak_at_def by auto
  fix x y
  assume "blocks (set_block b c' s) x = Some y"
  then obtain z where "blocks s x = Some z" "weak_count y = weak_count z" "linked y = linked z"
    using assms(2-4) by (cases "x = b") auto
  then show "unat (weak_count y) = W x" "x \<in> R \<longleftrightarrow> W x = 0" "linked y \<longleftrightarrow> x \<in> R"
    using weak_atD [OF assms(1)] by metis+
qed

lemma strong_at_set:
  assumes "strong_at s N" and "blocks s b = Some c"
    and "if 0 < n then holds (strong_count c') n \<and> b \<notin> set (disposals s)
         else (\<exists>k. dead (strong_count c') k) \<and> b \<in> set (disposals s)"
  shows "strong_at (set_block b c' s) (N(b := n))"
  using assms unfolding strong_at_def by auto

lemma ends_cong: "kind c' = kind c \<Longrightarrow> ends c' = ends c"
  by (simp add: ends_def)

lemma blocks_set_cases:
  assumes "blocks s b = Some c" and "kind c' = kind c" and "block_ptr c' = block_ptr c"
    and "blocks (set_block b c' s) x = Some y"
  obtains z where "blocks s x = Some z" and "block_ptr z = block_ptr y" and "ends z = ends y"
  using assms that ends_cong [OF assms(2)] by (cases "x = b") auto

lemma objs_atD:
  assumes "objs_at s N"
  shows "blocks s b = Some c \<Longrightarrow> blocks s b' = Some c' \<Longrightarrow> block_ptr c = Some a \<Longrightarrow> block_ptr c' = Some a \<Longrightarrow> b = b'"
    and "blocks s b = Some c \<Longrightarrow> block_ptr c = Some a \<Longrightarrow> ends c \<Longrightarrow> \<exists>ob. objs s a = Some ob \<and> (alive ob \<longleftrightarrow> 0 < N b)"
    and "objs s a = Some ob \<Longrightarrow> weak_this ob = Some w \<Longrightarrow> control_block w = Some b \<Longrightarrow>
      \<exists>c. blocks s b = Some c \<and> block_ptr c = Some a \<and> ends c"
  using assms unfolding objs_at_def by (elim conjE, metis)+

lemma objs_at_set:
  assumes o: "objs_at s N" and c: "blocks s b = Some c" "kind c' = kind c" "block_ptr c' = block_ptr c"
    and n: "0 < n \<longleftrightarrow> 0 < N b"
  shows "objs_at (set_block b c' s) (N(b := n))"
  unfolding objs_at_def
proof (intro conjI allI impI)
  fix x x' y y' a
  assume "blocks (set_block b c' s) x = Some y \<and> blocks (set_block b c' s) x' = Some y' \<and> block_ptr y = Some a \<and> block_ptr y' = Some a"
  then show "x = x'" using o blocks_set_cases [OF c] unfolding objs_at_def by metis
next
  fix x y a
  assume "blocks (set_block b c' s) x = Some y \<and> block_ptr y = Some a \<and> ends y"
  then obtain z where "blocks s x = Some z" "block_ptr z = Some a" "ends z" using blocks_set_cases [OF c] by metis
  then obtain ob where "objs s a = Some ob" "alive ob \<longleftrightarrow> 0 < N x" using objs_atD(2) [OF o] by blast
  then show "\<exists>ob. objs (set_block b c' s) a = Some ob \<and> (alive ob \<longleftrightarrow> 0 < (N(b := n)) x)"
    using n by (cases "x = b") auto
next
  fix a ob w x
  assume "objs (set_block b c' s) a = Some ob \<and> weak_this ob = Some w \<and> control_block w = Some x"
  then obtain z where z: "blocks s x = Some z" "block_ptr z = Some a" "ends z"
    using objs_atD(3) [OF o] unfolding set_block_simps by blast
  then show "\<exists>y. blocks (set_block b c' s) x = Some y \<and> block_ptr y = Some a \<and> ends y"
    using c ends_cong [OF c(2)] by (cases "x = b") auto
qed

lemma esft_ref_set:
  "blocks s b = Some c \<Longrightarrow> block_ptr c' = block_ptr c \<Longrightarrow> esft_ref (set_block b c' s) x = esft_ref s x"
  unfolding esft_ref_def set_block_simps by simp

lemma fresh_zero_set:
  "fresh_zero s N M \<Longrightarrow> blocks s b = Some c \<Longrightarrow> fresh_zero (set_block b c' s) (N(b := n)) (M(b := m))"
  unfolding fresh_zero_def by auto

text \<open>The objects and the shape of the blocks, which counting leaves alone.\<close>

abbreviation shape_view :: "memory \<Rightarrow> nat \<Rightarrow> (block_kind \<times> nat option) option" where
  "shape_view s b \<equiv> map_option (\<lambda>c. (kind c, block_ptr c)) (blocks s b)"

definition same_shape :: "memory \<Rightarrow> memory \<Rightarrow> bool" where
  "same_shape s s' \<longleftrightarrow> objs s' = objs s \<and> disposals s' = disposals s \<and> next_block s' = next_block s \<and>
     (\<forall>b. shape_view s' b = shape_view s b)"

lemma same_shape_refl [simp]: "same_shape s s"
  by (simp add: same_shape_def)

lemma same_shape_trans: "same_shape s t \<Longrightarrow> same_shape t u \<Longrightarrow> same_shape s u"
  by (simp add: same_shape_def)

lemma same_shape_set:
  "blocks s b = Some c \<Longrightarrow> kind c' = kind c \<Longrightarrow> block_ptr c' = block_ptr c \<Longrightarrow> same_shape s (set_block b c' s)"
  by (simp add: same_shape_def)

lemma same_strong_shape:
  assumes "same_strong s s'"
  shows "same_shape s s'"
proof -
  have "shape_view s' b = shape_view s b" for b
  proof (cases "blocks s' b")
    case None
    then show ?thesis using same_strong_None [OF assms, of b] by simp
  next
    case (Some c')
    then obtain c where "blocks s b = Some c" "kind c = kind c'" "block_ptr c = block_ptr c'"
      by (rule strong_view_Some [OF assms])
    then show ?thesis using Some by simp
  qed
  then show ?thesis using assms by (simp add: same_shape_def same_strong_def)
qed

definition roomy :: "nat \<Rightarrow> memory \<Rightarrow> bool" where
  "roomy d s \<longleftrightarrow> (\<forall>b. room d s b)"

lemma roomy_keeps: "keeps_room s s' \<Longrightarrow> roomy d s \<Longrightarrow> roomy d s'"
  by (simp add: roomy_def keeps_room_def)

lemma roomy_mono: "roomy d s \<Longrightarrow> e \<le> d \<Longrightarrow> roomy e s"
  unfolding roomy_def using room_mono by blast

lemma roomy_set:
  assumes "roomy (Suc d) s" and "blocks s b = Some c"
    and "unat (strong_count c') mod 2 ^ 31 \<le> unat (strong_count c) mod 2 ^ 31 + 1"
    and "unat (weak_count c') \<le> unat (weak_count c) + 1"
  shows "roomy d (set_block b c' s)"
  unfolding roomy_def
proof
  fix x
  have rm: "room (Suc d) s x" using assms(1) by (simp add: roomy_def)
  show "room d (set_block b c' s) x"
  proof (cases "x = b")
    case True
    with rm assms(2) have "unat (strong_count c) mod 2 ^ 31 + Suc d < 2 ^ 30 \<and> unat (weak_count c) + Suc d < 2 ^ 32"
      unfolding room_def by blast
    then have "unat (strong_count c') mod 2 ^ 31 + d < 2 ^ 30 \<and> unat (weak_count c') + d < 2 ^ 32"
      using assms(3,4) by linarith
    then show ?thesis using True by (simp add: room_def)
  next
    case False
    have "room d s x" using rm by (rule room_mono) simp
    with False show ?thesis by (simp add: room_def)
  qed
qed

section \<open>The operations on references\<close>

lemma refs_okE:
  assumes "refs_ok s N M"
  obtains R where "weak_at s R (weak_total s N M)" and "strong_at s N" and "objs_at s N" and "fresh_zero s N M"
  using assms unfolding refs_ok_def by blast

lemma strong_atD:
  assumes "strong_at s N" and "blocks s b = Some c"
  shows "0 < N b \<Longrightarrow> holds (strong_count c) (N b) \<and> b \<notin> set (disposals s)"
    and "N b = 0 \<Longrightarrow> (\<exists>k. dead (strong_count c) k) \<and> b \<in> set (disposals s)"
  using assms unfolding strong_at_def by (metis not_gr0)+

lemma refs_increment_weak:
  assumes ok: "refs_ok s N M" and b: "0 < N b \<or> 0 < M b" and r: "roomy (Suc d) s"
  shows "\<exists>s'. increment_weak_count b s = Some s' \<and> refs_ok s' N (M(b := M b + 1)) \<and> roomy d s' \<and> same_shape s s'"
proof -
  from ok obtain R where w: "weak_at s R (weak_total s N M)" and st: "strong_at s N" and o: "objs_at s N"
    and f: "fresh_zero s N M" by (rule refs_okE)
  from refs_get [OF ok b] obtain c where c: "blocks s b = Some c" by blast
  have p: "0 < weak_total s N M b" using b by (auto simp: weak_total_def)
  have "room (Suc d) s b" using r by (simp add: roomy_def)
  from increment_weak_at [OF w c p this] obtain s' where
    s': "increment_weak_count b s = Some s'" "weak_at s' R ((weak_total s N M)(b := weak_total s N M b + 1))"
      "same_strong s s'" "room d s' b" "\<forall>x e. x \<noteq> b \<longrightarrow> room e s x \<longrightarrow> room e s' x" by blast
  have "weak_total s' N (M(b := M b + 1)) = (weak_total s N M)(b := weak_total s N M b + 1)"
    using same_strong_inv(3) [OF s'(3)] by (auto simp: weak_total_def fun_eq_iff)
  moreover have "fresh_zero s' N (M(b := M b + 1))"
    using same_strong_inv(4) [OF s'(3) f] same_strong_None [OF s'(3)] c by (auto simp: fresh_zero_def)
  ultimately have "refs_ok s' N (M(b := M b + 1))"
    using s'(2) same_strong_inv(1,2) [OF s'(3)] st o unfolding refs_ok_def by auto
  moreover have "room d s' x" for x
    using s'(4,5) roomy_mono [OF r, of d] unfolding roomy_def by (cases "x = b") auto
  ultimately show ?thesis using s'(1) same_strong_shape [OF s'(3)] by (auto simp: roomy_def)
qed

lemma refs_decrement_weak:
  assumes ok: "refs_ok s N M" and b: "0 < M b"
  shows "\<exists>s'. decrement_weak_count b s = Some s' \<and> refs_ok s' N (M(b := M b - 1)) \<and> keeps_room s s' \<and> same_shape s s'"
proof -
  from ok obtain R where w: "weak_at s R (weak_total s N M)" and st: "strong_at s N" and o: "objs_at s N"
    and f: "fresh_zero s N M" by (rule refs_okE)
  from refs_get [OF ok] b obtain c where c: "blocks s b = Some c" by blast
  have p: "0 < weak_total s N M b" using b by (auto simp: weak_total_def)
  from decrement_weak_at [OF w c p] obtain s' R' where
    s': "decrement_weak_count b s = Some s'" "weak_at s' R' ((weak_total s N M)(b := weak_total s N M b - 1))"
      "same_strong s s'" "keeps_room s s'" by blast
  have "weak_total s' N (M(b := M b - 1)) = (weak_total s N M)(b := weak_total s N M b - 1)"
    using same_strong_inv(3) [OF s'(3)] b by (auto simp: weak_total_def fun_eq_iff)
  moreover have "fresh_zero s' N (M(b := M b - 1))"
    using same_strong_inv(4) [OF s'(3) f] same_strong_None [OF s'(3)] c by (auto simp: fresh_zero_def)
  ultimately have "refs_ok s' N (M(b := M b - 1))"
    using s'(2) same_strong_inv(1,2) [OF s'(3)] st o unfolding refs_ok_def by auto
  then show ?thesis using s'(1,4) same_strong_shape [OF s'(3)] by auto
qed

text \<open>A change of the strong count that keeps the block alive or dead.\<close>

lemma refs_set_strong:
  assumes ok: "refs_ok s N M" and c: "blocks s b = Some c" and n: "0 < n \<longleftrightarrow> 0 < N b"
    and x: "if 0 < n then holds x n else (\<exists>k. dead x k)"
  shows "refs_ok (set_block b (c\<lparr>strong_count := x\<rparr>) s) (N(b := n)) M"
proof -
  let ?c = "c\<lparr>strong_count := x\<rparr>"
  from ok obtain R where w: "weak_at s R (weak_total s N M)" and st: "strong_at s N" and o: "objs_at s N"
    and f: "fresh_zero s N M" by (rule refs_okE)
  have "weak_total (set_block b ?c s) (N(b := n)) M = weak_total s N M"
    using n esft_ref_set [OF c, of ?c] by (auto simp: weak_total_def fun_eq_iff)
  moreover have "weak_at (set_block b ?c s) R (weak_total s N M)" by (rule weak_at_keep [OF w c]) simp_all
  moreover have "strong_at (set_block b ?c s) (N(b := n))"
  proof (rule strong_at_set [OF st c])
    show "if 0 < n then holds (strong_count ?c) n \<and> b \<notin> set (disposals s)
         else (\<exists>k. dead (strong_count ?c) k) \<and> b \<in> set (disposals s)"
      using x n strong_atD [OF st c] by (cases "0 < n") simp_all
  qed
  moreover have "objs_at (set_block b ?c s) (N(b := n))" by (rule objs_at_set [OF o c _ _ n]) simp_all
  moreover have "fresh_zero (set_block b ?c s) (N(b := n)) M"
    using fresh_zero_set [OF f c, of ?c n "M b"] by simp
  ultimately show ?thesis unfolding refs_ok_def by metis
qed

lemma holds_room: "holds x n \<Longrightarrow> unat x mod 2 ^ 31 = n"
  by (auto simp: holds_def)

lemma dead_room: "dead x k \<Longrightarrow> unat x mod 2 ^ 31 = k"
  by (auto simp: dead_def)

lemma roomyD: "roomy d s \<Longrightarrow> blocks s b = Some c \<Longrightarrow> unat (strong_count c) mod 2 ^ 31 + d < 2 ^ 30"
  unfolding roomy_def room_def by blast

lemma refs_increment_strong:
  assumes ok: "refs_ok s N M" and b: "0 < N b" and r: "roomy (Suc d) s"
  shows "\<exists>s'. increment_strong_count b s = Some s' \<and> refs_ok s' (N(b := N b + 1)) M \<and> roomy d s' \<and> same_shape s s'"
proof -
  from refs_get [OF ok] b obtain c where c: "get_block b s = Some c" "blocks s b = Some c" by blast
  from ok have "strong_at s N" by (rule refs_okE)
  from strong_atD(1) [OF this c(2) b] have h: "holds (strong_count c) (N b)" by blast
  have lt: "N b + 1 < 2 ^ 30" using roomyD [OF r c(2)] holds_room [OF h] by linarith
  define x where "x = snd (increment 1 (strong_count c))"
  have x: "fst (increment 1 (strong_count c))" "holds x (N b + 1)"
    using increment_holds [OF h lt] by (auto simp: x_def)
  have "increment_strong_count b s = Some (set_block b (c\<lparr>strong_count := x\<rparr>) s)"
    using c(1) load_holds [OF h] h x(1) by (auto simp: increment_strong_count_def x_def holds_def split: prod.splits)
  moreover have "refs_ok (set_block b (c\<lparr>strong_count := x\<rparr>) s) (N(b := N b + 1)) M"
    by (rule refs_set_strong [OF ok c(2)]) (use b x(2) in simp_all)
  moreover have "roomy d (set_block b (c\<lparr>strong_count := x\<rparr>) s)"
    by (rule roomy_set [OF r c(2)]) (use holds_room [OF h] holds_room [OF x(2)] in simp_all)
  moreover have "same_shape s (set_block b (c\<lparr>strong_count := x\<rparr>) s)" by (rule same_shape_set [OF c(2)]) simp_all
  ultimately show ?thesis by blast
qed

lemma refs_try_strong:
  assumes ok: "refs_ok s N M" and b: "0 < N b \<or> 0 < M b" and r: "roomy (Suc d) s"
  shows "\<exists>s'. increment_strong_count_if_nonzero b s = Some (0 < N b, s') \<and>
    refs_ok s' (if 0 < N b then N(b := N b + 1) else N) M \<and> roomy d s' \<and> same_shape s s'"
proof -
  from refs_get [OF ok b] obtain c where c: "get_block b s = Some c" "blocks s b = Some c" by blast
  from ok have st: "strong_at s N" by (rule refs_okE)
  define x where "x = snd (increment 1 (strong_count c))"
  define n where "n = (if 0 < N b then N b + 1 else 0)"
  have x: "fst (increment 1 (strong_count c)) \<longleftrightarrow> 0 < N b" "if 0 < n then holds x n else (\<exists>k. dead x k)"
    "unat x mod 2 ^ 31 \<le> unat (strong_count c) mod 2 ^ 31 + 1"
  proof (atomize (full), cases "0 < N b")
    case True
    then have h: "holds (strong_count c) (N b)" using strong_atD(1) [OF st c(2)] by blast
    moreover have "N b + 1 < 2 ^ 30" using roomyD [OF r c(2)] holds_room [OF h] by linarith
    ultimately have i: "fst (increment 1 (strong_count c))" "holds x (N b + 1)"
      using increment_holds by (auto simp: x_def)
    then show "(fst (increment 1 (strong_count c)) \<longleftrightarrow> 0 < N b) \<and> (if 0 < n then holds x n else (\<exists>k. dead x k)) \<and>
      unat x mod 2 ^ 31 \<le> unat (strong_count c) mod 2 ^ 31 + 1"
      using True holds_room [OF h] holds_room [OF i(2)] by (simp add: n_def)
  next
    case False
    then obtain k where h: "dead (strong_count c) k" using strong_atD(2) [OF st c(2)] by auto
    moreover have "k + 1 < 2 ^ 30" using roomyD [OF r c(2)] dead_room [OF h] by linarith
    ultimately have i: "\<not> fst (increment 1 (strong_count c))" "dead x (k + 1)"
      using increment_dead by (auto simp: x_def)
    then show "(fst (increment 1 (strong_count c)) \<longleftrightarrow> 0 < N b) \<and> (if 0 < n then holds x n else (\<exists>k. dead x k)) \<and>
      unat x mod 2 ^ 31 \<le> unat (strong_count c) mod 2 ^ 31 + 1"
      using False dead_room [OF h] dead_room [OF i(2)] by (auto simp: n_def)
  qed
  have "increment_strong_count_if_nonzero b s = Some (0 < N b, set_block b (c\<lparr>strong_count := x\<rparr>) s)"
    using c(1) x(1) by (auto simp: increment_strong_count_if_nonzero_def x_def split: prod.splits)
  moreover have "refs_ok (set_block b (c\<lparr>strong_count := x\<rparr>) s) (N(b := n)) M"
    by (rule refs_set_strong [OF ok c(2) _ x(2)]) (simp add: n_def)
  moreover have eq: "(if 0 < N b then N(b := N b + 1) else N) = N(b := n)" by (auto simp: n_def fun_eq_iff)
  moreover have "roomy d (set_block b (c\<lparr>strong_count := x\<rparr>) s)" by (rule roomy_set [OF r c(2)]) (use x(3) in simp_all)
  moreover have "same_shape s (set_block b (c\<lparr>strong_count := x\<rparr>) s)" by (rule same_shape_set [OF c(2)]) simp_all
  ultimately show ?thesis unfolding eq by blast
qed

lemma refs_use_count:
  assumes ok: "refs_ok s N M" and b: "0 < N b \<or> 0 < M b"
  shows "\<exists>v. get_use_count b s = Some (v, s) \<and> unat v = N b"
proof -
  from refs_get [OF ok b] obtain c where c: "get_block b s = Some c" "blocks s b = Some c" by blast
  from ok have st: "strong_at s N" by (rule refs_okE)
  have same: "set_block b (c\<lparr>strong_count := strong_count c\<rparr>) s = s" using c(2) by (simp add: set_block_def map_upd_triv)
  show ?thesis
  proof (cases "0 < N b")
    case True
    then have h: "holds (strong_count c) (N b)" using strong_atD(1) [OF st c(2)] by blast
    then show ?thesis using c(1) load_holds [OF h] same by (simp add: get_use_count_def holds_def)
  next
    case False
    then obtain k where "dead (strong_count c) k" using strong_atD(2) [OF st c(2)] by auto
    then show ?thesis using c(1) load_dead same False by (simp add: get_use_count_def)
  qed
qed

section \<open>The last strong reference\<close>

lemma strong_at_cong:
  assumes "strong_at s N" and "\<And>b. strong_view s' b = strong_view s b" and "disposals s' = disposals s"
  shows "strong_at s' N"
proof -
  have "same_strong s (s'\<lparr>objs := objs s, me := me s, next_block := next_block s\<rparr>)"
    using assms(2,3) by (auto simp: same_strong_def strong_view_def fun_eq_iff)
  from same_strong_inv(1) [OF this assms(1)] show ?thesis by (simp add: strong_at_def cong: if_cong)
qed

lemma shape_view_cases:
  assumes "shape_view s' b = shape_view s b" and "blocks s' b = Some y"
  obtains z where "blocks s b = Some z" and "block_ptr z = block_ptr y" and "ends z = ends y"
proof (cases "blocks s b")
  case None
  then show thesis using assms by simp
next
  case (Some z)
  then have "kind z = kind y" "block_ptr z = block_ptr y" using assms by auto
  then show thesis using that [OF Some] ends_cong by blast
qed

lemma objs_at_kill:
  assumes o: "objs_at s N" and c: "blocks s b = Some c"
    and v: "\<And>x. shape_view s' x = shape_view s x"
    and ob': "objs s' = (case block_ptr c of
        Some a \<Rightarrow> if ends c then (objs s)(a \<mapsto> (the (objs s a))\<lparr>alive := False\<rparr>) else objs s | None \<Rightarrow> objs s)"
  shows "objs_at s' (N(b := 0))"
proof -
  have same: "objs s' a' = objs s a'" if "block_ptr c = Some a' \<longrightarrow> \<not> ends c" for a'
    using ob' that by (auto split: option.splits)
  have wk: "map_option weak_this (objs s' a) = map_option weak_this (objs s a)" if "\<exists>ob. objs s' a = Some ob" for a
  proof (cases "block_ptr c = Some a \<and> ends c")
    case True
    then obtain ob where "objs s a = Some ob" using objs_atD(2) [OF o c] by blast
    then show ?thesis using True ob' by simp
  qed (use same in auto)
  show ?thesis unfolding objs_at_def
  proof (intro conjI allI impI)
    fix x x' y y' a
    assume "blocks s' x = Some y \<and> blocks s' x' = Some y' \<and> block_ptr y = Some a \<and> block_ptr y' = Some a"
    then show "x = x'" using shape_view_cases [OF v] objs_atD(1) [OF o] by metis
  next
    fix x y a
    assume "blocks s' x = Some y \<and> block_ptr y = Some a \<and> ends y"
    then obtain z where z: "blocks s x = Some z" "block_ptr z = Some a" "ends z" using shape_view_cases [OF v] by metis
    then obtain ob where ob: "objs s a = Some ob" "alive ob \<longleftrightarrow> 0 < N x" using objs_atD(2) [OF o] by blast
    show "\<exists>ob. objs s' a = Some ob \<and> (alive ob \<longleftrightarrow> 0 < (N(b := 0)) x)"
    proof (cases "x = b")
      case True
      then show ?thesis using z c ob ob' by simp
    next
      case False
      then have "block_ptr c \<noteq> Some a" using objs_atD(1) [OF o z(1) c z(2)] by blast
      then show ?thesis using same [of a] ob False by simp
    qed
  next
    fix a ob w x
    assume a: "objs s' a = Some ob \<and> weak_this ob = Some w \<and> control_block w = Some x"
    then obtain ob1 where "objs s a = Some ob1" "weak_this ob1 = Some w" using wk [of a]
      by (cases "objs s a") auto
    then obtain z where "blocks s x = Some z" "block_ptr z = Some a" "ends z" using objs_atD(3) [OF o] a by blast
    then show "\<exists>c. blocks s' x = Some c \<and> block_ptr c = Some a \<and> ends c"
      using shape_view_cases [OF v [symmetric]] by metis
  qed
qed

lemma esft_ref_ends:
  assumes "objs_at s N" and "blocks s b = Some c" and "\<not> ends c"
  shows "esft_ref s b = 0"
proof (rule ccontr)
  assume "esft_ref s b \<noteq> 0"
  then obtain a ob w where "block_ptr c = Some a" "objs s a = Some ob" "weak_this ob = Some w" "control_block w = Some b"
    using assms(2) by (auto simp: esft_ref_def split: option.splits if_splits)
  then show False using objs_atD(3) [OF assms(1)] assms(2,3) by fastforce
qed

lemma esft_ref_kill:
  assumes o: "objs_at s N" and c: "blocks s b = Some c"
    and v: "\<And>x. shape_view s' x = shape_view s x"
    and ob': "objs s' = (case block_ptr c of
        Some a \<Rightarrow> if ends c then (objs s)(a \<mapsto> (the (objs s a))\<lparr>alive := False\<rparr>) else objs s | None \<Rightarrow> objs s)"
  shows "esft_ref s' x = (if x = b then 0 else esft_ref s x)"
proof -
  have bp: "map_option block_ptr (blocks s' y) = map_option block_ptr (blocks s y)" for y
    using v [of y] by (cases "blocks s' y"; cases "blocks s y") auto
  have cong: "esft_ref s' y = esft_ref s y"
    if "\<And>z a. blocks s y = Some z \<Longrightarrow> block_ptr z = Some a \<Longrightarrow> objs s' a = objs s a" for y
    using bp [of y] that by (cases "blocks s' y"; cases "blocks s y") (auto simp: esft_ref_def split: option.splits)
  show ?thesis
  proof (cases "x = b")
    case False
    have "esft_ref s' x = esft_ref s x"
    proof (rule cong)
      fix z a assume "blocks s x = Some z" "block_ptr z = Some a"
      then have "block_ptr c \<noteq> Some a" using objs_atD(1) [OF o _ c] False by blast
      then show "objs s' a = objs s a" using ob' by (auto split: option.splits)
    qed
    with False show ?thesis by simp
  next
    case True
    show ?thesis
    proof (cases "ends c")
      case E: True
      then show ?thesis using True bp [of b] c ob'
        by (cases "blocks s' b") (auto simp: esft_ref_def split: option.splits)
    next
      case E: False
      then have "objs s' = objs s" using ob' by (simp split: option.splits)
      then show ?thesis using True cong [of b] esft_ref_ends [OF o c E] by simp
    qed
  qed
qed

text \<open>What disposing of a block does to the objects.\<close>

definition killed :: "memory \<Rightarrow> block \<Rightarrow> nat \<Rightarrow> object_state option" where
  "killed s c = (case block_ptr c of
     Some a \<Rightarrow> if ends c then (objs s)(a \<mapsto> (the (objs s a))\<lparr>alive := False\<rparr>) else objs s | None \<Rightarrow> objs s)"

definition same_but_objs :: "memory \<Rightarrow> memory \<Rightarrow> bool" where
  "same_but_objs s s' \<longleftrightarrow> strong_view s' = strong_view s \<and> disposals s' = disposals s \<and>
     me s' = me s \<and> next_block s' = next_block s"

lemma same_strong_but_objs: "same_strong s s' \<Longrightarrow> same_but_objs s s' \<and> objs s' = objs s"
  by (simp add: same_strong_def same_but_objs_def)

lemma same_but_objs_shape:
  assumes "same_but_objs s s'"
  shows "shape_view s' x = shape_view s x"
proof -
  have "strong_view s' x = strong_view s x" using assms by (simp add: same_but_objs_def)
  then show ?thesis unfolding strong_view_def by (cases "blocks s' x"; cases "blocks s x") auto
qed

lemma weak_at_cong: "blocks s' = blocks s \<Longrightarrow> haz s' = haz s \<Longrightarrow> me s' = me s \<Longrightarrow> weak_at s' R W = weak_at s R W"
  by (simp only: weak_at_def)

lemma objs_at_cong: "blocks s' = blocks s \<Longrightarrow> objs s' = objs s \<Longrightarrow> objs_at s' N = objs_at s N"
  by (simp only: objs_at_def)

lemma destroy_object_at:
  assumes o: "objs_at s N" and c: "blocks s b = Some c" and e: "ends c" and n: "0 < N b"
    and w: "weak_at s R W" and W: "esft_ref s b < W b"
  shows "\<exists>s' R'. destroy_object (block_ptr c) s = Some s' \<and> weak_at s' R' (W(b := W b - esft_ref s b)) \<and>
    keeps_room s s' \<and> same_but_objs s s' \<and> objs s' = killed s c"
proof (cases "block_ptr c")
  case None
  then have "esft_ref s b = 0" using c by (simp add: esft_ref_def)
  then show ?thesis using None w
    by (auto simp: destroy_object_def killed_def keeps_room_def same_but_objs_def)
next
  case (Some a)
  from objs_atD(2) [OF o c Some e] n obtain ob where ob: "objs s a = Some ob" "alive ob" by auto
  define s1 where "s1 = s\<lparr>objs := (objs s)(a \<mapsto> ob\<lparr>alive := False\<rparr>)\<rparr>"
  have k: "objs s1 = killed s c" using Some ob(1) e by (simp add: killed_def s1_def)
  have bl: "blocks s1 = blocks s" "haz s1 = haz s" "me s1 = me s" by (simp_all add: s1_def)
  have s1: "weak_at s1 R W" "blocks s1 = blocks s" "same_but_objs s s1"
    using w weak_at_cong [OF bl] bl by (simp_all add: s1_def same_but_objs_def strong_view_def fun_eq_iff)
  show ?thesis
  proof (cases "\<exists>w x. weak_this ob = Some w \<and> control_block w = Some x")
    case False
    then have "esft_ref s b = 0" using c Some ob by (auto simp: esft_ref_def)
    moreover have "destroy_object (block_ptr c) s = Some s1"
      using Some ob False by (auto simp: destroy_object_def s1_def Let_def split: option.splits)
    ultimately show ?thesis using s1 k keeps_room_same [OF s1(2)] by auto
  next
    case True
    then obtain w' x where w': "weak_this ob = Some w'" "control_block w' = Some x" by blast
    then obtain c' where c': "blocks s x = Some c'" "block_ptr c' = Some a" using objs_atD(3) [OF o ob(1)] by blast
    then have xb: "x = b" using objs_atD(1) [OF o c'(1) c c'(2) Some] by simp
    have e1: "esft_ref s b = 1" using c Some ob w' xb by (simp add: esft_ref_def)
    have "0 < W b" using W by simp
    from decrement_weak_at [OF s1(1) _ this] s1(2) c obtain s' R' where
      s': "decrement_weak_count b s1 = Some s'" "weak_at s' R' (W(b := W b - 1))" "same_strong s1 s'" "keeps_room s1 s'"
      by auto
    have "destroy_object (block_ptr c) s = Some s'"
      using Some ob w' xb s'(1) by (simp add: destroy_object_def s1_def)
    moreover have "keeps_room s s'" using keeps_room_trans [OF keeps_room_same [OF s1(2)] s'(4)] .
    moreover have "same_but_objs s s'" "objs s' = killed s c"
      using s1(3) k same_strong_but_objs [OF s'(3)] by (simp_all add: same_but_objs_def)
    ultimately show ?thesis using s'(2) e1 by auto
  qed
qed

lemma dispose_at:
  assumes o: "objs_at s N" and c: "blocks s b = Some c" and n: "0 < N b"
    and w: "weak_at s R W" and W: "esft_ref s b < W b"
  shows "\<exists>s' R'. dispose b s = Some s' \<and> weak_at s' R' (W(b := W b - esft_ref s b)) \<and> keeps_room s s' \<and>
    same_but_objs (s\<lparr>disposals := disposals s @ [b]\<rparr>) s' \<and> objs s' = killed s c"
proof -
  define s1 where "s1 = s\<lparr>disposals := disposals s @ [b]\<rparr>"
  have g: "get_block b s = Some c" "get_ptr b s = Some (block_ptr c)"
    using weak_at_get(1,2) [OF w c] W by (auto simp: get_ptr_def)
  have d: "dispose b s = (if ends c then destroy_object (block_ptr c) s1 else Some s1)"
    using g by (simp add: dispose_def ends_def s1_def split: block_kind.splits)
  have bl: "blocks s1 = blocks s" "haz s1 = haz s" "me s1 = me s" "objs s1 = objs s" by (simp_all add: s1_def)
  have s1: "objs_at s1 N" "blocks s1 b = Some c" "weak_at s1 R W" "esft_ref s1 b = esft_ref s b" "blocks s1 = blocks s"
    "killed s1 c = killed s c"
    using o c w objs_at_cong [OF bl(1,4)] weak_at_cong [OF bl(1-3)]
    unfolding esft_ref_def killed_def bl by simp_all
  have kr: "keeps_room s s1" by (rule keeps_room_same [OF s1(5)])
  show ?thesis
  proof (cases "ends c")
    case True
    from destroy_object_at [OF s1(1,2) True n s1(3)] W obtain s' R' where
      s': "destroy_object (block_ptr c) s1 = Some s'" "weak_at s' R' (W(b := W b - esft_ref s b))"
        "keeps_room s1 s'" "same_but_objs s1 s'" "objs s' = killed s c" unfolding s1(4,6) by blast
    then show ?thesis using d True keeps_room_trans [OF kr] by (auto simp: s1_def)
  next
    case False
    then have "esft_ref s b = 0" "killed s c = objs s"
      using esft_ref_ends [OF o c] by (simp_all add: killed_def split: option.splits)
    then show ?thesis using d False s1(3) kr by (auto simp: s1_def same_but_objs_def)
  qed
qed

lemma fresh_zero_cong:
  assumes "fresh_zero s N M" and "next_block s' = next_block s" and "\<And>x. shape_view s' x = shape_view s x"
    and "\<And>x. blocks s x = None \<Longrightarrow> N' x = N x \<and> M' x = M x"
  shows "fresh_zero s' N' M'"
proof -
  have "blocks s' x = None \<longleftrightarrow> blocks s x = None" for x
    using assms(3) [of x] by (cases "blocks s' x"; cases "blocks s x") auto
  then show ?thesis using assms(1,2,4) by (auto simp: fresh_zero_def)
qed

text \<open>What disposal keeps: the owners of the objects and the weak pointers inside them.\<close>

definition same_links :: "memory \<Rightarrow> memory \<Rightarrow> bool" where
  "same_links s s' \<longleftrightarrow> (\<forall>x. shape_view s' x = shape_view s x) \<and>
     (\<forall>a. map_option weak_this (objs s' a) = map_option weak_this (objs s a))"

lemma killed_weak_this:
  assumes "objs_at s N" and "blocks s b = Some c"
  shows "map_option weak_this (killed s c a) = map_option weak_this (objs s a)"
proof (cases "block_ptr c = Some a \<and> ends c")
  case True
  then obtain ob where "objs s a = Some ob" using objs_atD(2) [OF assms] by blast
  then show ?thesis using True by (simp add: killed_def)
qed (auto simp: killed_def split: option.splits)

lemma refs_drop_last:
  assumes ok: "refs_ok s N M" and c: "blocks s b = Some c" and n: "N b = 1" and x: "dead x 0"
  shows "\<exists>s1 s'. dispose b (set_block b (c\<lparr>strong_count := x\<rparr>) s) = Some s1 \<and> decrement_weak_count b s1 = Some s' \<and>
    refs_ok s' (N(b := 0)) M \<and> keeps_room s s' \<and> same_links s s'"
proof -
  from ok obtain R where w: "weak_at s R (weak_total s N M)" and st: "strong_at s N" and o: "objs_at s N"
    and f: "fresh_zero s N M" by (rule refs_okE)
  define W where "W = weak_total s N M"
  define c0 where "c0 = c\<lparr>strong_count := x\<rparr>"
  define s0 where "s0 = set_block b c0 s"
  define sd where "sd = s0\<lparr>disposals := disposals s0 @ [b]\<rparr>"
  have c0: "blocks s0 b = Some c0" by (simp add: s0_def)
  have w0: "weak_at s0 R W" unfolding s0_def W_def by (rule weak_at_keep [OF w c]) (simp_all add: c0_def)
  have "objs_at s0 (N(b := N b))" unfolding s0_def by (rule objs_at_set [OF o c]) (simp_all add: c0_def)
  then have o0: "objs_at s0 N" by simp
  have e0: "esft_ref s0 y = esft_ref s y" for y unfolding s0_def by (rule esft_ref_set [OF c]) (simp add: c0_def)
  have Wb: "W b = M b + esft_ref s b + 1" using n by (simp add: W_def weak_total_def)
  have h: "holds (strong_count c) 1" using strong_atD(1) [OF st c] n by auto
  have kr0: "keeps_room s s0" unfolding s0_def
    by (rule keeps_room_set [OF c set_block_simps(1)]) (use holds_room [OF h] dead_room [OF x] in \<open>simp_all add: c0_def\<close>)
  have nb: "0 < N b" using n by simp
  have lt: "esft_ref s0 b < W b" using Wb e0 [of b] by linarith
  from dispose_at [OF o0 c0 nb w0 lt] obtain s1 R1 where
    s1: "dispose b s0 = Some s1" "weak_at s1 R1 (W(b := W b - esft_ref s0 b))" "keeps_room s0 s1"
      "same_but_objs sd s1" "objs s1 = killed s0 c0" unfolding sd_def by blast
  have v1: "shape_view s1 y = shape_view s0 y" for y
    using same_but_objs_shape [OF s1(4), of y] by (simp add: sd_def)
  obtain c1 where c1: "blocks s1 b = Some c1" using v1 [of b] c0 by auto
  have "0 < (W(b := W b - esft_ref s0 b)) b" using lt by simp
  from decrement_weak_at [OF s1(2) c1 this] obtain s' R' where
    s': "decrement_weak_count b s1 = Some s'"
      "weak_at s' R' ((W(b := W b - esft_ref s0 b))(b := (W(b := W b - esft_ref s0 b)) b - 1))"
      "same_strong s1 s'" "keeps_room s1 s'" by blast
  have s'1: "same_but_objs s1 s'" "objs s' = killed s0 c0" using same_strong_but_objs [OF s'(3)] s1(5) by simp_all
  have v': "shape_view s' y = shape_view s0 y" for y using same_but_objs_shape [OF s'1(1), of y] v1 [of y] by simp
  have o': "objs_at s' (N(b := 0))" by (rule objs_at_kill [OF o0 c0 v' s'1(2) [unfolded killed_def]])
  have e': "esft_ref s' y = (if y = b then 0 else esft_ref s y)" for y
    using esft_ref_kill [OF o0 c0 v' s'1(2) [unfolded killed_def]] e0 by simp
  have "(W(b := W b - esft_ref s0 b))(b := (W(b := W b - esft_ref s0 b)) b - 1) = weak_total s' (N(b := 0)) M"
    using e' Wb e0 by (auto simp: fun_eq_iff W_def weak_total_def)
  then have w': "weak_at s' R' (weak_total s' (N(b := 0)) M)" using s'(2) by simp
  have dis: "b \<notin> set (disposals s)" "distinct (disposals s)" "set (disposals s) \<subseteq> dom (blocks s)"
    using st strong_atD(1) [OF st c nb] unfolding strong_at_def by blast+
  have "strong_at sd (N(b := 0))" unfolding strong_at_def
  proof (intro conjI allI impI)
    show "distinct (disposals sd)" "set (disposals sd) \<subseteq> dom (blocks sd)"
      using dis by (auto simp: sd_def s0_def)
    fix y z
    assume yz: "blocks sd y = Some z"
    show "if 0 < (N(b := 0)) y then holds (strong_count z) ((N(b := 0)) y) \<and> y \<notin> set (disposals sd)
        else (\<exists>k. dead (strong_count z) k) \<and> y \<in> set (disposals sd)"
    proof (cases "y = b")
      case True
      then show ?thesis using yz x by (auto simp: sd_def s0_def c0_def)
    next
      case False
      then have "blocks s y = Some z" using yz by (simp add: sd_def s0_def)
      from strong_atD [OF st this] False show ?thesis by (simp add: sd_def s0_def)
    qed
  qed
  then have st': "strong_at s' (N(b := 0))"
    by (rule strong_at_cong) (use s1(4) s'1(1) in \<open>simp_all add: same_but_objs_def\<close>)
  have v: "shape_view s' y = shape_view s y" for y using v' [of y] c by (cases "y = b") (simp_all add: s0_def c0_def)
  have "next_block s' = next_block s" using s1(4) s'1(1) by (simp add: same_but_objs_def sd_def s0_def)
  then have "fresh_zero s' (N(b := 0)) M" by (rule fresh_zero_cong [OF f _ v]) (use c in auto)
  then have "refs_ok s' (N(b := 0)) M" using w' st' o' unfolding refs_ok_def by blast
  moreover have "keeps_room s s'" using keeps_room_trans kr0 s1(3) s'(4) by blast
  moreover have "same_links s s'"
    using v killed_weak_this [OF o0 c0] unfolding same_links_def s'1(2) by (simp add: s0_def)
  ultimately show ?thesis using s1(1) s'(1) unfolding s0_def c0_def by blast
qed

lemma refs_decrement_strong:
  assumes ok: "refs_ok s N M" and b: "0 < N b"
  shows "\<exists>s'. decrement_strong_count b s = Some s' \<and> refs_ok s' (N(b := N b - 1)) M \<and> keeps_room s s' \<and> same_links s s'"
proof -
  from refs_get [OF ok] b obtain c where c: "get_block b s = Some c" "blocks s b = Some c" by blast
  from ok have "strong_at s N" by (rule refs_okE)
  from strong_atD(1) [OF this c(2) b] have h: "holds (strong_count c) (N b)" by blast
  define x where "x = snd (decrement 1 (strong_count c))"
  have dec: "decrement_strong_count b s = (if N b = 1
      then do { s \<leftarrow> dispose b (set_block b (c\<lparr>strong_count := x\<rparr>) s); decrement_weak_count b s }
      else Some (set_block b (c\<lparr>strong_count := x\<rparr>) s))"
    using c(1) decrement_holds(1) [OF h] by (auto simp: decrement_strong_count_def x_def Let_def split: prod.splits)
  show ?thesis
  proof (cases "N b = 1")
    case True
    then have "dead x 0" using decrement_holds(2) [OF h] by (simp add: x_def)
    from refs_drop_last [OF ok c(2) True this] dec True show ?thesis by auto
  next
    case False
    then have hx: "holds x (N b - 1)" using decrement_holds(3) [OF h] by (simp add: x_def)
    have "refs_ok (set_block b (c\<lparr>strong_count := x\<rparr>) s) (N(b := N b - 1)) M"
      by (rule refs_set_strong [OF ok c(2)]) (use False b hx in auto)
    moreover have "keeps_room s (set_block b (c\<lparr>strong_count := x\<rparr>) s)"
      by (rule keeps_room_set [OF c(2) set_block_simps(1)]) (use holds_room [OF h] holds_room [OF hx] in simp_all)
    moreover have "same_links s (set_block b (c\<lparr>strong_count := x\<rparr>) s)" using c(2) by (simp add: same_links_def)
    ultimately show ?thesis using dec False by auto
  qed
qed

section \<open>A new block\<close>

lemma refs_new_block:
  assumes ok: "refs_ok s N M" and new: "ControlBlockBase k p s = (b, s')"
    and own: "\<And>a x c. p = Some a \<Longrightarrow> blocks s x = Some c \<Longrightarrow> block_ptr c \<noteq> Some a"
    and live: "\<And>a. p = Some a \<Longrightarrow> \<exists>ob. objs s a = Some ob \<and> alive ob"
  shows "b = next_block s \<and> refs_ok s' (N(b := 1)) M \<and> objs s' = objs s \<and>
    blocks s' b = Some \<lparr>strong_count = 1, weak_count = 1, kind = k, block_ptr = p, linked = False\<rparr>"
proof -
  let ?c = "\<lparr>strong_count = 1, weak_count = 1, kind = k, block_ptr = p, linked = False\<rparr>"
  from ok obtain R where w: "weak_at s R (weak_total s N M)" and st: "strong_at s N" and o: "objs_at s N"
    and f: "fresh_zero s N M" by (rule refs_okE)
  have b: "b = next_block s" and s': "s' = s\<lparr>blocks := (blocks s)(b \<mapsto> ?c), next_block := next_block s + 1\<rparr>"
    using new by (auto simp: ControlBlockBase_def)
  have nb: "blocks s b = None" "M b = 0" "N b = 0" using f unfolding fresh_zero_def b by auto
  have bl: "blocks s' x = Some y \<longleftrightarrow> (if x = b then y = ?c else blocks s x = Some y)" for x y by (auto simp: s')
  have wk: "control_block w \<noteq> Some b \<and> (p = Some a \<longrightarrow> control_block w = None)"
    if "objs s a = Some ob" "weak_this ob = Some w" for a ob w
  proof -
    have "\<exists>c. blocks s x = Some c \<and> block_ptr c = Some a" if "control_block w = Some x" for x
      using objs_atD(3) [OF o \<open>objs s a = Some ob\<close> \<open>weak_this ob = Some w\<close> that] by blast
    then show ?thesis using nb(1) own by (cases "control_block w") fastforce+
  qed
  have eb: "esft_ref s' b = 0"
    unfolding esft_ref_def using wk by (auto simp: s' split: option.splits)
  have ex: "esft_ref s' x = esft_ref s x" if "x \<noteq> b" for x 
  proof -
    have "blocks s' x = blocks s x" "objs s' = objs s" using that by (simp_all add: s')
    then show ?thesis by (simp only: esft_ref_def)
  qed
  have wt: "weak_total s' (N(b := 1)) M x = (if x = b then 1 else weak_total s N M x)" for x
    using eb ex nb by (simp add: weak_total_def)
  have "weak_at s' R (weak_total s' (N(b := 1)) M)"
    unfolding weak_at_def wt bl
  proof (intro conjI allI impI)
    show "reclaim_ok (me s') (haz s') R" "R \<subseteq> dom (blocks s')" using w unfolding weak_at_def by (auto simp: s')
    have nR: "b \<notin> R" using w nb(1) unfolding weak_at_def by auto
    fix x y
    assume "if x = b then y = ?c else blocks s x = Some y"
    then show "unat (weak_count y) = (if x = b then 1 else weak_total s N M x)"
      "x \<in> R \<longleftrightarrow> (if x = b then 1 else weak_total s N M x) = 0" "linked y \<longleftrightarrow> x \<in> R"
      using weak_atD [OF w] nR by (auto split: if_splits)
  qed
  moreover have "strong_at s' (N(b := 1))" unfolding strong_at_def bl
  proof (intro conjI allI impI)
    show "distinct (disposals s')" "set (disposals s') \<subseteq> dom (blocks s')" using st unfolding strong_at_def by (auto simp: s')
    have nd: "b \<notin> set (disposals s)" using st nb(1) unfolding strong_at_def by auto
    fix x y
    assume xy: "if x = b then y = ?c else blocks s x = Some y"
    then show "if 0 < (N(b := 1)) x then holds (strong_count y) ((N(b := 1)) x) \<and> x \<notin> set (disposals s')
         else (\<exists>k. dead (strong_count y) k) \<and> x \<in> set (disposals s')"
      using strong_atD [OF st, of x y] nd by (auto simp: s' holds_def split: if_splits)
  qed
  moreover have "objs_at s' (N(b := 1))" unfolding objs_at_def bl
  proof (intro conjI allI impI)
    fix x x' y y' a
    assume "(if x = b then y = ?c else blocks s x = Some y) \<and> (if x' = b then y' = ?c else blocks s x' = Some y') \<and>
      block_ptr y = Some a \<and> block_ptr y' = Some a"
    then show "x = x'" using objs_atD(1) [OF o] own by (auto split: if_splits)
  next
    fix x y a
    assume "(if x = b then y = ?c else blocks s x = Some y) \<and> block_ptr y = Some a \<and> ends y"
    then show "\<exists>ob. objs s' a = Some ob \<and> (alive ob \<longleftrightarrow> 0 < (N(b := 1)) x)"
      using objs_atD(2) [OF o, of x y a] live by (cases "x = b") (auto simp: s')
  next
    fix a ob w x
    assume "objs s' a = Some ob \<and> weak_this ob = Some w \<and> control_block w = Some x"
    then show "\<exists>c. (if x = b then c = ?c else blocks s x = Some c) \<and> block_ptr c = Some a \<and> ends c"
      using objs_atD(3) [OF o, of a ob w x] wk [of a ob w] by (auto simp: s')
  qed
  moreover have "fresh_zero s' (N(b := 1)) M" using f unfolding fresh_zero_def b by (auto simp: s' b)
  ultimately show ?thesis using b unfolding refs_ok_def by (auto simp: s')
qed

text \<open>Binding \<open>weak_this\<close> of the object that a block owns.\<close>

lemma refs_bind_weak_this:
  assumes ok: "refs_ok s N (M(b := M b + 1))" and c: "blocks s b = Some c" "block_ptr c = Some a" "ends c"
    and n: "0 < N b" and ob: "objs s a = Some ob" "weak_this ob = Some w" "control_block w = None"
    and w': "control_block w' = Some b"
  shows "refs_ok (s\<lparr>objs := (objs s)(a \<mapsto> ob\<lparr>weak_this := Some w'\<rparr>)\<rparr>) N M"
proof -
  define s' where "s' = s\<lparr>objs := (objs s)(a \<mapsto> ob\<lparr>weak_this := Some w'\<rparr>)\<rparr>"
  from ok obtain R where w: "weak_at s R (weak_total s N (M(b := M b + 1)))" and st: "strong_at s N" and o: "objs_at s N"
    and f: "fresh_zero s N (M(b := M b + 1))" by (rule refs_okE)
  have al: "alive ob" using objs_atD(2) [OF o c] n ob(1) by auto
  have eb: "esft_ref s' b = 1" "esft_ref s b = 0" using c ob al w' by (simp_all add: esft_ref_def s'_def)
  have "esft_ref s' x = esft_ref s x" if "x \<noteq> b" for x
  proof -
    have "block_ptr z \<noteq> Some a" if "blocks s x = Some z" for z
      using objs_atD(1) [OF o that c(1) _ c(2)] \<open>x \<noteq> b\<close> by blast
    then show ?thesis by (auto simp: esft_ref_def s'_def split: option.splits)
  qed
  then have "weak_total s' N M = weak_total s N (M(b := M b + 1))"
    using eb by (auto simp: weak_total_def fun_eq_iff)
  moreover have "weak_at s' R W = weak_at s R W" for W by (rule weak_at_cong) (simp_all add: s'_def)
  moreover have "strong_at s' N" by (rule strong_at_cong [OF st]) (simp_all add: s'_def strong_view_def)
  moreover have "fresh_zero s' N M"
    by (rule fresh_zero_cong [OF f]) (use c(1) in \<open>auto simp: s'_def\<close>)
  moreover have "objs_at s' N" unfolding objs_at_def
  proof (intro conjI allI impI)
    fix x x' y y' a'
    assume "blocks s' x = Some y \<and> blocks s' x' = Some y' \<and> block_ptr y = Some a' \<and> block_ptr y' = Some a'"
    then show "x = x'" using objs_atD(1) [OF o] by (auto simp: s'_def)
  next
    fix x y a'
    assume "blocks s' x = Some y \<and> block_ptr y = Some a' \<and> ends y"
    then show "\<exists>ob. objs s' a' = Some ob \<and> (alive ob \<longleftrightarrow> 0 < N x)"
      using objs_atD(2) [OF o, of x y a'] ob(1) by (cases "a' = a") (auto simp: s'_def)
  next
    fix a' ob' v x
    assume "objs s' a' = Some ob' \<and> weak_this ob' = Some v \<and> control_block v = Some x"
    then show "\<exists>c. blocks s' x = Some c \<and> block_ptr c = Some a' \<and> ends c"
      using objs_atD(3) [OF o, of a' ob' v x] c w' by (cases "a' = a") (auto simp: s'_def)
  qed
  ultimately show ?thesis using w unfolding refs_ok_def s'_def by auto
qed

end
