(* ===== verification/Smart_Pointers.thy ===== *)
theory Smart_Pointers
  imports Reference_Counts
begin

text \<open>
  \<open>SmartPtrBase\<close>, \<open>SharedPtr\<close>, \<open>WeakPtr\<close> and \<open>enable_shared_from_this\<close> of \<open>AtomicSharedPointer.h\<close>.
  A smart pointer is the pair of its pointers; a member function takes the values it works on and
  the memory and returns the new ones, \<open>None\<close> for a failed assertion or an access to something
  destroyed. A move returns the new pointer together with what is left of the old one. The
  destructor of a temporary stands where the language runs it.
\<close>

section \<open>\<open>SmartPtrBase\<close>\<close>

definition null_ptr :: smart_ptr where
  "null_ptr = \<lparr>ptr = None, control_block = None\<rparr>"

definition use_count :: "smart_ptr \<Rightarrow> memory \<Rightarrow> (u32 \<times> memory) option" where
  "use_count p s = (case control_block p of None \<Rightarrow> Some (0, s) | Some b \<Rightarrow> get_use_count b s)"

text \<open>Addresses of blocks are compared, with the null pointer below them.\<close>

definition owner_before :: "smart_ptr \<Rightarrow> smart_ptr \<Rightarrow> bool" where
  "owner_before p q =
     (case (control_block p, control_block q) of
        (None, Some _) \<Rightarrow> True
      | (Some b, Some c) \<Rightarrow> b < c
      | _ \<Rightarrow> False)"

definition SmartPtrBase :: "nat option \<Rightarrow> nat option \<Rightarrow> smart_ptr option" where
  "SmartPtrBase p b = (if b \<noteq> None \<or> p = None then Some \<lparr>ptr = p, control_block = b\<rparr> else None)"

definition SmartPtrBase_copy :: "smart_ptr \<Rightarrow> smart_ptr option" where
  "SmartPtrBase_copy other = SmartPtrBase (ptr other) (control_block other)"

definition SmartPtrBase_move :: "smart_ptr \<Rightarrow> (smart_ptr \<times> smart_ptr) option" where
  "SmartPtrBase_move other = do { this \<leftarrow> SmartPtrBase (ptr other) (control_block other); Some (this, null_ptr) }"

definition swap_ptrs :: "smart_ptr \<Rightarrow> smart_ptr \<Rightarrow> smart_ptr \<times> smart_ptr" where
  "swap_ptrs this other =
     (\<lparr>ptr = ptr other, control_block = control_block other\<rparr>, \<lparr>ptr = ptr this, control_block = control_block this\<rparr>)"

definition increment_strong :: "smart_ptr \<Rightarrow> memory \<Rightarrow> memory option" where
  "increment_strong p s = (case control_block p of None \<Rightarrow> Some s | Some b \<Rightarrow> increment_strong_count b s)"

definition increment_if_nonzero :: "smart_ptr \<Rightarrow> memory \<Rightarrow> (bool \<times> memory) option" where
  "increment_if_nonzero p s =
     (case control_block p of None \<Rightarrow> Some (False, s) | Some b \<Rightarrow> increment_strong_count_if_nonzero b s)"

definition decrement_strong :: "smart_ptr \<Rightarrow> memory \<Rightarrow> memory option" where
  "decrement_strong p s = (case control_block p of None \<Rightarrow> Some s | Some b \<Rightarrow> decrement_strong_count b s)"

definition increment_weak :: "smart_ptr \<Rightarrow> memory \<Rightarrow> memory option" where
  "increment_weak p s = (case control_block p of None \<Rightarrow> Some s | Some b \<Rightarrow> increment_weak_count b s)"

definition decrement_weak :: "smart_ptr \<Rightarrow> memory \<Rightarrow> memory option" where
  "decrement_weak p s = (case control_block p of None \<Rightarrow> Some s | Some b \<Rightarrow> decrement_weak_count b s)"

section \<open>\<open>WeakPtr\<close>: what \<open>SharedPtr\<close> needs of it\<close>

definition WeakPtr_from_shared :: "smart_ptr \<Rightarrow> memory \<Rightarrow> (smart_ptr \<times> memory) option" where
  "WeakPtr_from_shared other s = do {
     this \<leftarrow> SmartPtrBase_copy other;
     s \<leftarrow> increment_weak this s;
     Some (this, s)
   }"

definition WeakPtr_dtor :: "smart_ptr \<Rightarrow> memory \<Rightarrow> memory option" where
  "WeakPtr_dtor = decrement_weak"

definition expired :: "smart_ptr \<Rightarrow> memory \<Rightarrow> (bool \<times> memory) option" where
  "expired p s = do { (n, s) \<leftarrow> use_count p s; Some (n = 0, s) }"

section \<open>\<open>SharedPtr\<close>\<close>

definition SharedPtr_dtor :: "smart_ptr \<Rightarrow> memory \<Rightarrow> memory option" where
  "SharedPtr_dtor = decrement_strong"

definition SharedPtr_alias :: "smart_ptr \<Rightarrow> nat option \<Rightarrow> memory \<Rightarrow> (smart_ptr \<times> memory) option" where
  "SharedPtr_alias other p s = do {
     this \<leftarrow> SmartPtrBase p (control_block other);
     s \<leftarrow> increment_strong this s;
     Some (this, s)
   }"

text \<open>
  \<open>set_ptrs_and_esft\<close>. Where the object has a \<open>weak_this\<close> that is expired, it is assigned from a
  temporary \<open>SharedPtr\<close> (\<open>WeakPtr(other).swap(*this)\<close>): the old weak pointer is destroyed before
  the temporary is.
\<close>

definition bind_weak_this :: "smart_ptr \<Rightarrow> nat \<Rightarrow> object_state \<Rightarrow> smart_ptr \<Rightarrow> memory \<Rightarrow> memory option" where
  "bind_weak_this this a ob w s = do {
     (tmp, s) \<leftarrow> SharedPtr_alias this (Some a) s;
     (w', s) \<leftarrow> WeakPtr_from_shared tmp s;
     let s = s\<lparr>objs := (objs s)(a \<mapsto> ob\<lparr>weak_this := Some w'\<rparr>)\<rparr>;
     s \<leftarrow> WeakPtr_dtor w s;
     SharedPtr_dtor tmp s
   }"

definition set_ptrs_and_esft :: "nat option \<Rightarrow> nat option \<Rightarrow> memory \<Rightarrow> (smart_ptr \<times> memory) option" where
  "set_ptrs_and_esft p b s =
     (let this = \<lparr>ptr = p, control_block = b\<rparr> in
      case p of
        None \<Rightarrow> Some (this, s)
      | Some a \<Rightarrow>
         (case objs s a of
            None \<Rightarrow> Some (this, s)
          | Some ob \<Rightarrow>
             (case weak_this ob of
                None \<Rightarrow> Some (this, s)
              | Some w \<Rightarrow>
                  if \<not> alive ob then None
                  else do {
                    (e, s) \<leftarrow> expired w s;
                    if e then do { s \<leftarrow> bind_weak_this this a ob w s; Some (this, s) } else Some (this, s)
                  })))"

definition SharedPtr_raw :: "nat option \<Rightarrow> memory \<Rightarrow> (smart_ptr \<times> memory) option" where
  "SharedPtr_raw p s = (let (b, s) = ControlBlockBase ControlBlockWithPtr p s in set_ptrs_and_esft p (Some b) s)"

definition SharedPtr_deleter :: "nat option \<Rightarrow> nat \<Rightarrow> bool \<Rightarrow> memory \<Rightarrow> (smart_ptr \<times> memory) option" where
  "SharedPtr_deleter p d e s =
     (let (b, s) = ControlBlockBase (ControlBlockWithDeleter d e) p s in set_ptrs_and_esft p (Some b) s)"

definition SharedPtr_allocator :: "nat option \<Rightarrow> nat \<Rightarrow> bool \<Rightarrow> memory \<Rightarrow> (smart_ptr \<times> memory) option" where
  "SharedPtr_allocator p d e s =
     (let (b, s) = ControlBlockBase (ControlBlockWithAllocator d e) p s in set_ptrs_and_esft p (Some b) s)"

definition SharedPtr_alias_move :: "smart_ptr \<Rightarrow> nat option \<Rightarrow> (smart_ptr \<times> smart_ptr) option" where
  "SharedPtr_alias_move other p = do { this \<leftarrow> SmartPtrBase p (control_block other); Some (this, null_ptr) }"

definition SharedPtr_copy :: "smart_ptr \<Rightarrow> memory \<Rightarrow> (smart_ptr \<times> memory) option" where
  "SharedPtr_copy other s = do {
     this \<leftarrow> SmartPtrBase_copy other;
     s \<leftarrow> increment_strong this s;
     Some (this, s)
   }"

definition SharedPtr_convert :: "smart_ptr \<Rightarrow> memory \<Rightarrow> (smart_ptr \<times> memory) option" where
  "SharedPtr_convert other s = do {
     s \<leftarrow> increment_strong other s;
     set_ptrs_and_esft (ptr other) (control_block other) s
   }"

definition SharedPtr_move :: "smart_ptr \<Rightarrow> memory \<Rightarrow> (smart_ptr \<times> smart_ptr \<times> memory) option" where
  "SharedPtr_move other s = do {
     (this, s) \<leftarrow> set_ptrs_and_esft (ptr other) (control_block other) s;
     Some (this, null_ptr, s)
   }"

text \<open>The constructor from a weak pointer throws \<open>std::bad_weak_ptr\<close>, here \<open>Inl ()\<close>.\<close>

definition SharedPtr_from_weak :: "smart_ptr \<Rightarrow> memory \<Rightarrow> ((unit + smart_ptr) \<times> memory) option" where
  "SharedPtr_from_weak other s = do {
     (ok, s) \<leftarrow> increment_if_nonzero other s;
     if ok then do {
       (this, s) \<leftarrow> set_ptrs_and_esft (ptr other) (control_block other) s;
       Some (Inr this, s)
     }
     else Some (Inl (), s)
   }"

definition SharedPtr_from_unique :: "nat option \<Rightarrow> nat \<Rightarrow> bool \<Rightarrow> memory \<Rightarrow> (smart_ptr \<times> memory) option" where
  "SharedPtr_from_unique p d e s = (if p = None then Some (null_ptr, s) else SharedPtr_deleter p d e s)"

text \<open>The assignments and \<open>reset\<close> make a temporary, swap it with \<open>*this\<close> and destroy it.\<close>

definition swap_and_drop :: "smart_ptr \<Rightarrow> smart_ptr \<Rightarrow> memory \<Rightarrow> (smart_ptr \<times> memory) option" where
  "swap_and_drop tmp this s = do {
     let (tmp, this) = swap_ptrs tmp this;
     s \<leftarrow> SharedPtr_dtor tmp s;
     Some (this, s)
   }"

definition SharedPtr_assign :: "smart_ptr \<Rightarrow> smart_ptr \<Rightarrow> memory \<Rightarrow> (smart_ptr \<times> memory) option" where
  "SharedPtr_assign this other s = do { (tmp, s) \<leftarrow> SharedPtr_copy other s; swap_and_drop tmp this s }"

definition SharedPtr_assign_convert :: "smart_ptr \<Rightarrow> smart_ptr \<Rightarrow> memory \<Rightarrow> (smart_ptr \<times> memory) option" where
  "SharedPtr_assign_convert this other s = do { (tmp, s) \<leftarrow> SharedPtr_convert other s; swap_and_drop tmp this s }"

definition SharedPtr_assign_unique :: "smart_ptr \<Rightarrow> nat option \<Rightarrow> nat \<Rightarrow> bool \<Rightarrow> memory \<Rightarrow> (smart_ptr \<times> memory) option" where
  "SharedPtr_assign_unique this p d e s = do { (tmp, s) \<leftarrow> SharedPtr_from_unique p d e s; swap_and_drop tmp this s }"

definition SharedPtr_reset :: "smart_ptr \<Rightarrow> memory \<Rightarrow> (smart_ptr \<times> memory) option" where
  "SharedPtr_reset this s = swap_and_drop null_ptr this s"

definition SharedPtr_reset_raw :: "smart_ptr \<Rightarrow> nat option \<Rightarrow> memory \<Rightarrow> (smart_ptr \<times> memory) option" where
  "SharedPtr_reset_raw this p s = do { (tmp, s) \<leftarrow> SharedPtr_raw p s; swap_and_drop tmp this s }"

definition SharedPtr_reset_deleter :: "smart_ptr \<Rightarrow> nat option \<Rightarrow> nat \<Rightarrow> bool \<Rightarrow> memory \<Rightarrow> (smart_ptr \<times> memory) option" where
  "SharedPtr_reset_deleter this p d e s = do { (tmp, s) \<leftarrow> SharedPtr_deleter p d e s; swap_and_drop tmp this s }"

definition SharedPtr_reset_allocator :: "smart_ptr \<Rightarrow> nat option \<Rightarrow> nat \<Rightarrow> bool \<Rightarrow> memory \<Rightarrow> (smart_ptr \<times> memory) option" where
  "SharedPtr_reset_allocator this p d e s = do { (tmp, s) \<leftarrow> SharedPtr_allocator p d e s; swap_and_drop tmp this s }"

definition SharedPtr_bool :: "smart_ptr \<Rightarrow> bool" where
  "SharedPtr_bool p = (ptr p \<noteq> None)"

definition release_internals :: "smart_ptr \<Rightarrow> (nat option \<times> nat option) \<times> smart_ptr" where
  "release_internals p = ((ptr p, control_block p), null_ptr)"

definition make_shared :: "nat option \<Rightarrow> memory \<Rightarrow> (smart_ptr \<times> memory) option" where
  "make_shared p s = do {
     (b, s) \<leftarrow> ControlBlockInplace_new p s;
     q \<leftarrow> get_ptr b s;
     this \<leftarrow> SmartPtrBase q (Some b);
     Some (this, s)
   }"

text \<open>The comparisons: of two shared pointers by the addresses they point to, the null pointer below all.\<close>

datatype ordering = Less | Equal | Greater

definition compare_ptrs :: "nat option \<Rightarrow> nat option \<Rightarrow> ordering" where
  "compare_ptrs p q =
     (case (p, q) of
        (None, None) \<Rightarrow> Equal
      | (None, Some _) \<Rightarrow> Less
      | (Some _, None) \<Rightarrow> Greater
      | (Some a, Some b) \<Rightarrow> if a < b then Less else if a = b then Equal else Greater)"

definition SharedPtr_compare :: "smart_ptr \<Rightarrow> smart_ptr \<Rightarrow> ordering" where
  "SharedPtr_compare left right = compare_ptrs (ptr left) (ptr right)"

definition SharedPtr_compare_null :: "smart_ptr \<Rightarrow> ordering" where
  "SharedPtr_compare_null left = compare_ptrs (ptr left) None"

definition SharedPtr_null_compare :: "smart_ptr \<Rightarrow> ordering" where
  "SharedPtr_null_compare right = compare_ptrs None (ptr right)"

definition SharedPtr_equal :: "smart_ptr \<Rightarrow> smart_ptr \<Rightarrow> bool" where
  "SharedPtr_equal left right = (ptr left = ptr right)"

definition SharedPtr_equal_null :: "smart_ptr \<Rightarrow> bool" where
  "SharedPtr_equal_null left = (ptr left = None)"

section \<open>\<open>WeakPtr\<close>\<close>

text \<open>The copy constructor of the class itself does not count the new weak reference.\<close>

definition WeakPtr_copy :: "smart_ptr \<Rightarrow> memory \<Rightarrow> (smart_ptr \<times> memory) option" where
  "WeakPtr_copy other s = do { this \<leftarrow> SmartPtrBase_copy other; Some (this, s) }"

definition WeakPtr_convert :: "smart_ptr \<Rightarrow> memory \<Rightarrow> (smart_ptr \<times> memory) option" where
  "WeakPtr_convert other s = do {
     this \<leftarrow> SmartPtrBase_copy other;
     s \<leftarrow> increment_weak this s;
     Some (this, s)
   }"

text \<open>The conversions that may need the object alive hold a strong reference while they copy the pointer.\<close>

definition WeakPtr_convert_virtual :: "smart_ptr \<Rightarrow> memory \<Rightarrow> (smart_ptr \<times> memory) option" where
  "WeakPtr_convert_virtual other s =
     (case control_block other of
        None \<Rightarrow> Some (null_ptr, s)
      | Some b \<Rightarrow> do {
          let this = \<lparr>ptr = None, control_block = Some b\<rparr>;
          s \<leftarrow> increment_weak_count b s;
          (ok, s) \<leftarrow> increment_if_nonzero this s;
          if ok then do { s \<leftarrow> decrement_strong_count b s; Some (this\<lparr>ptr := ptr other\<rparr>, s) }
          else Some (this, s)
        })"

definition WeakPtr_move :: "smart_ptr \<Rightarrow> (smart_ptr \<times> smart_ptr) option" where
  "WeakPtr_move other = SmartPtrBase_move other"

definition WeakPtr_convert_move_virtual :: "smart_ptr \<Rightarrow> memory \<Rightarrow> (smart_ptr \<times> smart_ptr \<times> memory) option" where
  "WeakPtr_convert_move_virtual other s = do {
     let this = \<lparr>ptr = None, control_block = control_block other\<rparr>;
     (ok, s) \<leftarrow> increment_if_nonzero this s;
     if ok then do { s \<leftarrow> decrement_strong this s; Some (this\<lparr>ptr := ptr other\<rparr>, null_ptr, s) }
     else Some (this, null_ptr, s)
   }"

definition weak_swap_and_drop :: "smart_ptr \<Rightarrow> smart_ptr \<Rightarrow> memory \<Rightarrow> (smart_ptr \<times> memory) option" where
  "weak_swap_and_drop tmp this s = do {
     let (tmp, this) = swap_ptrs tmp this;
     s \<leftarrow> WeakPtr_dtor tmp s;
     Some (this, s)
   }"

definition WeakPtr_assign :: "smart_ptr \<Rightarrow> smart_ptr \<Rightarrow> memory \<Rightarrow> (smart_ptr \<times> memory) option" where
  "WeakPtr_assign this other s = do { (tmp, s) \<leftarrow> WeakPtr_copy other s; weak_swap_and_drop tmp this s }"

definition WeakPtr_assign_convert :: "smart_ptr \<Rightarrow> smart_ptr \<Rightarrow> memory \<Rightarrow> (smart_ptr \<times> memory) option" where
  "WeakPtr_assign_convert this other s = do { (tmp, s) \<leftarrow> WeakPtr_convert other s; weak_swap_and_drop tmp this s }"

definition WeakPtr_assign_shared :: "smart_ptr \<Rightarrow> smart_ptr \<Rightarrow> memory \<Rightarrow> (smart_ptr \<times> memory) option" where
  "WeakPtr_assign_shared this other s = do { (tmp, s) \<leftarrow> WeakPtr_from_shared other s; weak_swap_and_drop tmp this s }"

definition lock :: "smart_ptr \<Rightarrow> memory \<Rightarrow> (smart_ptr \<times> memory) option" where
  "lock this s = do {
     (ok, s) \<leftarrow> increment_if_nonzero this s;
     if ok then do { q \<leftarrow> SmartPtrBase (ptr this) (control_block this); Some (q, s) } else Some (null_ptr, s)
   }"

section \<open>\<open>enable_shared_from_this\<close>\<close>

text \<open>The functions of an object at address \<open>a\<close>.\<close>

definition get_weak_this :: "nat \<Rightarrow> memory \<Rightarrow> smart_ptr option" where
  "get_weak_this a s = do { ob \<leftarrow> objs s a; if alive ob then weak_this ob else None }"

definition weak_from_this :: "nat \<Rightarrow> memory \<Rightarrow> (smart_ptr \<times> memory) option" where
  "weak_from_this a s = do { w \<leftarrow> get_weak_this a s; WeakPtr_copy w s }"

definition weak_from_this_const :: "nat \<Rightarrow> memory \<Rightarrow> (smart_ptr \<times> memory) option" where
  "weak_from_this_const a s = do { w \<leftarrow> get_weak_this a s; WeakPtr_convert w s }"

definition shared_from_this :: "nat \<Rightarrow> memory \<Rightarrow> ((unit + smart_ptr) \<times> memory) option" where
  "shared_from_this a s = do { w \<leftarrow> get_weak_this a s; SharedPtr_from_weak w s }"

section \<open>References held by pointers\<close>

text \<open>One reference more or less to the block of a pointer.\<close>

definition add_ref :: "(nat \<Rightarrow> nat) \<Rightarrow> nat option \<Rightarrow> nat \<Rightarrow> nat" where
  "add_ref N b = (case b of None \<Rightarrow> N | Some x \<Rightarrow> N(x := N x + 1))"

definition sub_ref :: "(nat \<Rightarrow> nat) \<Rightarrow> nat option \<Rightarrow> nat \<Rightarrow> nat" where
  "sub_ref N b = (case b of None \<Rightarrow> N | Some x \<Rightarrow> N(x := N x - 1))"

definition counted :: "(nat \<Rightarrow> nat) \<Rightarrow> smart_ptr \<Rightarrow> bool" where
  "counted N p \<longleftrightarrow> (\<forall>b. control_block p = Some b \<longrightarrow> 0 < N b)"

lemma add_ref_simps [simp]: "add_ref N None = N" "add_ref N (Some b) = N(b := N b + 1)"
  and sub_ref_simps [simp]: "sub_ref N None = N" "sub_ref N (Some b) = N(b := N b - 1)"
  by (simp_all add: add_ref_def sub_ref_def)

lemma sub_add_ref [simp]: "sub_ref (add_ref N b) b = N"
  by (cases b) auto

lemma counted_add [simp]: "counted (add_ref N (control_block p)) p"
  by (auto simp: counted_def)

lemma counted_mono: "counted N p \<Longrightarrow> counted (add_ref N b) p"
  by (cases b) (auto simp: counted_def)

lemma counted_null [simp]: "counted N null_ptr" "control_block null_ptr = None" "ptr null_ptr = None"
  by (simp_all add: counted_def null_ptr_def)

text \<open>
  An object that derives from \<open>enable_shared_from_this\<close> is pointed to only by pointers to the block
  that owns it, so that a pointer never binds the \<open>weak_this\<close> of an object of another block.
\<close>

definition has_weak_this :: "memory \<Rightarrow> nat \<Rightarrow> bool" where
  "has_weak_this s a \<longleftrightarrow> (\<exists>ob. objs s a = Some ob \<and> weak_this ob \<noteq> None)"

definition owns :: "memory \<Rightarrow> nat \<Rightarrow> nat \<Rightarrow> bool" where
  "owns s b a \<longleftrightarrow> (\<exists>c. blocks s b = Some c \<and> block_ptr c = Some a \<and> ends c)"

definition pointer_ok :: "memory \<Rightarrow> smart_ptr \<Rightarrow> bool" where
  "pointer_ok s p \<longleftrightarrow> (control_block p = None \<longrightarrow> ptr p = None) \<and>
     (\<forall>a. ptr p = Some a \<and> has_weak_this s a \<longrightarrow> (\<exists>b. control_block p = Some b \<and> owns s b a))"

text \<open>The \<open>weak_this\<close> of an object is null or points to the object.\<close>

definition weak_this_ok :: "memory \<Rightarrow> bool" where
  "weak_this_ok s \<longleftrightarrow> (\<forall>a ob w. objs s a = Some ob \<and> weak_this ob = Some w \<longrightarrow>
     (ptr w = None \<or> ptr w = Some a) \<and> (control_block w = None \<longrightarrow> ptr w = None))"

text \<open>What every operation keeps: the blocks with their objects and which objects have a \<open>weak_this\<close>.\<close>

definition extends :: "memory \<Rightarrow> memory \<Rightarrow> bool" where
  "extends s s' \<longleftrightarrow> (\<forall>b v. shape_view s b = Some v \<longrightarrow> shape_view s' b = Some v) \<and> has_weak_this s' = has_weak_this s \<and>
     (weak_this_ok s \<longrightarrow> weak_this_ok s')"

lemma extends_refl [simp]: "extends s s"
  by (simp add: extends_def)

lemma extends_trans: "extends s t \<Longrightarrow> extends t u \<Longrightarrow> extends s u"
  by (simp add: extends_def)

lemma owns_shape:
  assumes "shape_view s' b = shape_view s b"
  shows "owns s' b a \<longleftrightarrow> owns s b a"
  unfolding owns_def using shape_view_cases [OF assms] shape_view_cases [OF assms [symmetric]] by metis

lemma extends_owns:
  assumes "extends s s'" and "owns s b a"
  shows "owns s' b a"
proof -
  obtain v where "shape_view s b = Some v" using assms(2) by (auto simp: owns_def)
  moreover from this have "shape_view s' b = Some v" using assms(1) unfolding extends_def by blast
  ultimately have "shape_view s' b = shape_view s b" by (rule trans [OF _ sym, rotated])
  then show ?thesis using owns_shape assms(2) by blast
qed

lemma pointer_ok_extends: "pointer_ok s p \<Longrightarrow> extends s s' \<Longrightarrow> pointer_ok s' p"
  unfolding pointer_ok_def using extends_owns by (metis extends_def)

lemma pointer_ok_null [simp]: "pointer_ok s null_ptr"
  by (simp add: pointer_ok_def)

lemma same_links_extends:
  assumes "same_links s s'"
  shows "extends s s'"
proof -
  have "shape_view s' b = shape_view s b" for b using assms by (simp add: same_links_def)
  moreover have "has_weak_this s' a \<longleftrightarrow> has_weak_this s a" for a
  proof -
    have "map_option weak_this (objs s' a) = map_option weak_this (objs s a)" using assms by (simp add: same_links_def)
    then show ?thesis by (cases "objs s' a"; cases "objs s a") (auto simp: has_weak_this_def)
  qed
  moreover have "weak_this_ok s'" if ok: "weak_this_ok s" unfolding weak_this_ok_def
  proof (intro allI impI)
    fix a ob w assume "objs s' a = Some ob \<and> weak_this ob = Some w"
    moreover have "map_option weak_this (objs s' a) = map_option weak_this (objs s a)" using assms by (simp add: same_links_def)
    ultimately obtain ob' where "objs s a = Some ob'" "weak_this ob' = Some w" by (cases "objs s a") auto
    then show "(ptr w = None \<or> ptr w = Some a) \<and> (control_block w = None \<longrightarrow> ptr w = None)"
      using ok by (auto simp: weak_this_ok_def)
  qed
  ultimately show ?thesis by (simp add: extends_def fun_eq_iff)
qed

lemma same_shape_extends: "same_shape s s' \<Longrightarrow> extends s s'"
  by (rule same_links_extends) (simp add: same_links_def same_shape_def)

section \<open>The counting members\<close>

lemma increment_strong_ok:
  assumes "refs_ok s N M" and "counted N p" and "roomy (Suc d) s"
  shows "\<exists>s'. increment_strong p s = Some s' \<and> refs_ok s' (add_ref N (control_block p)) M \<and> roomy d s' \<and> same_shape s s'"
proof (cases "control_block p")
  case None
  then show ?thesis using assms roomy_mono by (auto simp: increment_strong_def)
next
  case (Some b)
  then show ?thesis using refs_increment_strong [OF assms(1) _ assms(3), of b] assms(2)
    by (auto simp: increment_strong_def counted_def)
qed

lemma increment_weak_ok:
  assumes "refs_ok s N M" and "counted N p \<or> counted M p" and "roomy (Suc d) s"
  shows "\<exists>s'. increment_weak p s = Some s' \<and> refs_ok s' N (add_ref M (control_block p)) \<and> roomy d s' \<and> same_shape s s'"
proof (cases "control_block p")
  case None
  then show ?thesis using assms roomy_mono by (auto simp: increment_weak_def)
next
  case (Some b)
  then show ?thesis using refs_increment_weak [OF assms(1) _ assms(3), of b] assms(2)
    by (auto simp: increment_weak_def counted_def)
qed

lemma decrement_weak_ok:
  assumes "refs_ok s N M" and "counted M p"
  shows "\<exists>s'. decrement_weak p s = Some s' \<and> refs_ok s' N (sub_ref M (control_block p)) \<and> keeps_room s s' \<and> same_shape s s'"
proof (cases "control_block p")
  case None
  then show ?thesis using assms by (auto simp: decrement_weak_def keeps_room_def)
next
  case (Some b)
  then show ?thesis using refs_decrement_weak [OF assms(1), of b] assms(2)
    by (auto simp: decrement_weak_def counted_def)
qed

lemma increment_if_nonzero_ok:
  assumes "refs_ok s N M" and "counted N p \<or> counted M p" and "roomy (Suc d) s"
  shows "\<exists>ok s'. increment_if_nonzero p s = Some (ok, s') \<and>
    (ok \<longleftrightarrow> (\<exists>b. control_block p = Some b \<and> 0 < N b)) \<and>
    refs_ok s' (if ok then add_ref N (control_block p) else N) M \<and> roomy d s' \<and> same_shape s s'"
proof (cases "control_block p")
  case None
  then show ?thesis using assms roomy_mono by (auto simp: increment_if_nonzero_def)
next
  case (Some b)
  then show ?thesis using refs_try_strong [OF assms(1) _ assms(3), of b] assms(2)
    by (auto simp: increment_if_nonzero_def counted_def)
qed

lemma use_count_ok:
  assumes "refs_ok s N M" and "counted N p \<or> counted M p"
  shows "\<exists>v. use_count p s = Some (v, s) \<and> unat v = (case control_block p of None \<Rightarrow> 0 | Some b \<Rightarrow> N b)"
proof (cases "control_block p")
  case None
  then show ?thesis by (simp add: use_count_def)
next
  case (Some b)
  then show ?thesis using refs_use_count [OF assms(1), of b] assms(2) by (auto simp: use_count_def counted_def)
qed

lemma decrement_strong_ok:
  assumes "refs_ok s N M" and "counted N p"
  shows "\<exists>s'. decrement_strong p s = Some s' \<and> refs_ok s' (sub_ref N (control_block p)) M \<and> keeps_room s s' \<and> same_links s s'"
proof (cases "control_block p")
  case None
  then show ?thesis using assms by (auto simp: decrement_strong_def keeps_room_def same_links_def)
next
  case (Some b)
  then show ?thesis using refs_decrement_strong [OF assms(1), of b] assms(2)
    by (auto simp: decrement_strong_def counted_def)
qed

lemma SmartPtrBase_ok: "b \<noteq> None \<or> p = None \<Longrightarrow> SmartPtrBase p b = Some \<lparr>ptr = p, control_block = b\<rparr>"
  by (simp add: SmartPtrBase_def)

lemma SmartPtrBase_copy_ok: "pointer_ok s p \<Longrightarrow> SmartPtrBase_copy p = Some p"
  unfolding SmartPtrBase_copy_def pointer_ok_def by (subst SmartPtrBase_ok) auto

section \<open>Binding \<open>weak_this\<close>\<close>

lemma bind_weak_this_ok:
  assumes ok: "refs_ok s N M" and n: "0 < N b" and own: "owns s b a" and r: "roomy (d + 2) s"
    and ob: "objs s a = Some ob" "weak_this ob = Some w" "control_block w = None"
  shows "\<exists>s' w'. bind_weak_this \<lparr>ptr = Some a, control_block = Some b\<rparr> a ob w s = Some s' \<and>
    refs_ok s' N M \<and> roomy d s' \<and> extends s s' \<and>
    map_option weak_this (objs s' a) = Some (Some w') \<and> control_block w' = Some b"
proof -
  define p where "p = \<lparr>ptr = Some a, control_block = Some b\<rparr>"
  have p: "control_block p = Some b" by (simp add: p_def)
  have "counted N p" using n by (simp add: counted_def p_def)
  moreover have "roomy (Suc (Suc d)) s" using r by simp
  ultimately obtain s1 where s1: "increment_strong p s = Some s1" "refs_ok s1 (N(b := N b + 1)) M" "roomy (Suc d) s1"
    "same_shape s s1" using increment_strong_ok [OF ok] by (fastforce simp: p_def)
  have "counted (N(b := N b + 1)) p" by (simp add: counted_def p_def)
  then obtain s2 where s2: "increment_weak p s1 = Some s2" "refs_ok s2 (N(b := N b + 1)) (M(b := M b + 1))" "roomy d s2"
    "same_shape s1 s2" using increment_weak_ok [OF s1(2) _ s1(3)] by (fastforce simp: p_def)
  define s3 where "s3 = s2\<lparr>objs := (objs s2)(a \<mapsto> ob\<lparr>weak_this := Some p\<rparr>)\<rparr>"
  have s02: "same_shape s s2" using same_shape_trans [OF s1(4) s2(4)] .
  then have "owns s2 b a" using own owns_shape [of s2 b s a] by (simp add: same_shape_def)
  then obtain c where c: "blocks s2 b = Some c" "block_ptr c = Some a" "ends c" by (auto simp: owns_def)
  have ob2: "objs s2 a = Some ob" using s02 ob(1) by (simp add: same_shape_def)
  have ok3: "refs_ok s3 (N(b := N b + 1)) M" unfolding s3_def
    by (rule refs_bind_weak_this [OF s2(2) c _ ob2 ob(2,3) p]) simp
  have "counted (N(b := N b + 1)) p" by (simp add: counted_def p_def)
  from decrement_strong_ok [OF ok3 this] obtain s4 where s4: "decrement_strong p s3 = Some s4" "refs_ok s4 N M"
    "keeps_room s3 s4" "same_links s3 s4" unfolding p by auto
  have "bind_weak_this p a ob w s = Some s4"
    using s1(1) s2(1) s4(1) ob(3)
    by (simp add: bind_weak_this_def SharedPtr_alias_def WeakPtr_from_shared_def SmartPtrBase_copy_def SmartPtrBase_def
        p_def [symmetric] WeakPtr_dtor_def SharedPtr_dtor_def decrement_weak_def s3_def [symmetric])
      (simp add: p_def s3_def)
  moreover have "roomy d s4" by (rule roomy_keeps [OF s4(3)]) (use s2(3) in \<open>simp add: roomy_def room_def s3_def\<close>)
  moreover have "extends s2 s3" using ob2 ob(2)
    by (auto simp: extends_def has_weak_this_def weak_this_ok_def s3_def p_def fun_eq_iff)
  then have "extends s s4"
    using extends_trans same_shape_extends [OF s02] same_links_extends [OF s4(4)] by blast
  moreover have "map_option weak_this (objs s4 a) = Some (Some p)" using s4(4) by (simp add: same_links_def s3_def)
  ultimately show ?thesis using s4(2) p unfolding p_def by blast
qed

lemma set_ptrs_and_esft_ok:
  assumes ok: "refs_ok s N M" and n: "counted N \<lparr>ptr = p, control_block = b\<rparr>"
    and po: "pointer_ok s \<lparr>ptr = p, control_block = b\<rparr>" and r: "roomy (d + 2) s"
  shows "\<exists>s'. set_ptrs_and_esft p b s = Some (\<lparr>ptr = p, control_block = b\<rparr>, s') \<and>
    refs_ok s' N M \<and> roomy d s' \<and> extends s s' \<and>
    (\<forall>a. p = Some a \<and> has_weak_this s a \<longrightarrow> (\<exists>w. get_weak_this a s' = Some w \<and> control_block w = b))"
proof (cases "\<exists>a. p = Some a \<and> has_weak_this s a")
  case False
  then have "set_ptrs_and_esft p b s = Some (\<lparr>ptr = p, control_block = b\<rparr>, s)"
    by (auto simp: set_ptrs_and_esft_def Let_def has_weak_this_def split: option.splits)
  then show ?thesis using False ok roomy_mono [OF r, of d] by auto
next
  case True
  then obtain a ob w where a: "p = Some a" "objs s a = Some ob" "weak_this ob = Some w"
    by (auto simp: has_weak_this_def)
  then obtain x where x: "b = Some x" "owns s x a" using po by (auto simp: pointer_ok_def has_weak_this_def)
  then obtain c where c: "blocks s x = Some c" "block_ptr c = Some a" "ends c" by (auto simp: owns_def)
  have nx: "0 < N x" using n x by (simp add: counted_def)
  from ok have o: "objs_at s N" by (rule refs_okE)
  have al: "alive ob" using objs_atD(2) [OF o c] a nx by auto
  have get: "get_weak_this a s' = Some w'" if g: "map_option weak_this (objs s' a) = Some (Some w')" and that: "objs_at s' N" "extends s s'" for s' w'
  proof -
    obtain ob' where ob': "objs s' a = Some ob'" "weak_this ob' = Some w'" using g by (cases "objs s' a") auto
    have "owns s' x a" using extends_owns [OF that(2) x(2)] .
    then have "alive ob'" using objs_atD(2) [OF that(1)] ob'(1) nx by (fastforce simp: owns_def)
    then show ?thesis using ob' by (simp add: get_weak_this_def)
  qed
  show ?thesis
  proof (cases "control_block w")
    case None
    then have "expired w s = Some (True, s)" by (simp add: expired_def use_count_def)
    moreover obtain s' w' where s': "bind_weak_this \<lparr>ptr = Some a, control_block = Some x\<rparr> a ob w s = Some s'"
      "refs_ok s' N M" "roomy d s'" "extends s s'"
      "map_option weak_this (objs s' a) = Some (Some w')" "control_block w' = Some x"
      using bind_weak_this_ok [OF ok nx x(2) r a(2,3) None] by blast
    moreover have "objs_at s' N" using s'(2) by (rule refs_okE)
    ultimately show ?thesis using a x(1) al get [OF s'(5)]
      by (auto simp: set_ptrs_and_esft_def)
  next
    case (Some y)
    then have "owns s y a" using objs_atD(3) [OF o a(2,3)] by (auto simp: owns_def)
    then have yx: "y = x" using objs_atD(1) [OF o] c by (auto simp: owns_def)
    have "counted N w" using Some yx nx by (simp add: counted_def)
    then obtain v where "use_count w s = Some (v, s)" "unat v = N x" using use_count_ok [OF ok] Some yx by fastforce
    then have "expired w s = Some (False, s)" using nx by (auto simp: expired_def)
    then show ?thesis using a x(1) al ok roomy_mono [OF r, of d] Some yx get [of s w] o
      by (auto simp: set_ptrs_and_esft_def)
  qed
qed

section \<open>The members of \<open>SharedPtr\<close> and \<open>WeakPtr\<close>\<close>

text \<open>
  What an operation makes: a new strong or weak pointer whose reference is counted. \<open>replaces\<close> is
  for the assignments, which give the reference of the old value up.
\<close>

definition makes_shared :: "memory \<Rightarrow> (nat \<Rightarrow> nat) \<Rightarrow> (nat \<Rightarrow> nat) \<Rightarrow> (smart_ptr \<times> memory) option \<Rightarrow> bool" where
  "makes_shared s N M r \<longleftrightarrow> (\<exists>h s'. r = Some (h, s') \<and> refs_ok s' (add_ref N (control_block h)) M \<and>
     pointer_ok s' h \<and> extends s s')"

definition makes_weak :: "memory \<Rightarrow> (nat \<Rightarrow> nat) \<Rightarrow> (nat \<Rightarrow> nat) \<Rightarrow> (smart_ptr \<times> memory) option \<Rightarrow> bool" where
  "makes_weak s N M r \<longleftrightarrow> (\<exists>h s'. r = Some (h, s') \<and> refs_ok s' N (add_ref M (control_block h)) \<and>
     pointer_ok s' h \<and> extends s s')"

definition replaces_shared :: "memory \<Rightarrow> (nat \<Rightarrow> nat) \<Rightarrow> (nat \<Rightarrow> nat) \<Rightarrow> smart_ptr \<Rightarrow> (smart_ptr \<times> memory) option \<Rightarrow> bool" where
  "replaces_shared s N M old r \<longleftrightarrow> (\<exists>h s'. r = Some (h, s') \<and>
     refs_ok s' (sub_ref (add_ref N (control_block h)) (control_block old)) M \<and> pointer_ok s' h \<and> extends s s')"

definition replaces_weak :: "memory \<Rightarrow> (nat \<Rightarrow> nat) \<Rightarrow> (nat \<Rightarrow> nat) \<Rightarrow> smart_ptr \<Rightarrow> (smart_ptr \<times> memory) option \<Rightarrow> bool" where
  "replaces_weak s N M old r \<longleftrightarrow> (\<exists>h s'. r = Some (h, s') \<and>
     refs_ok s' N (sub_ref (add_ref M (control_block h)) (control_block old)) \<and> pointer_ok s' h \<and> extends s s')"

lemma swap_ptrs_eq [simp]: "swap_ptrs p q = (q, p)"
  by (simp add: swap_ptrs_def)

lemma null_makes: "refs_ok s N M \<Longrightarrow> makes_shared s N M (Some (null_ptr, s))"
  and null_makes_weak: "refs_ok s N M \<Longrightarrow> makes_weak s N M (Some (null_ptr, s))"
  by (auto simp: makes_shared_def makes_weak_def)

lemma SharedPtr_copy_makes:
  assumes "refs_ok s N M" and "counted N p" and "pointer_ok s p" and "roomy 1 s"
  shows "makes_shared s N M (SharedPtr_copy p s)"
proof -
  from assms(4) have "roomy (Suc 0) s" by simp
  from increment_strong_ok [OF assms(1,2) this] obtain s' where
    "increment_strong p s = Some s'" "refs_ok s' (add_ref N (control_block p)) M" "same_shape s s'" by blast
  then show ?thesis using SmartPtrBase_copy_ok [OF assms(3)] same_shape_extends pointer_ok_extends [OF assms(3)]
    by (auto simp: makes_shared_def SharedPtr_copy_def)
qed

lemma SharedPtr_alias_makes:
  assumes "refs_ok s N M" and "counted N q" and "roomy 1 s" and "pointer_ok s \<lparr>ptr = p, control_block = control_block q\<rparr>"
  shows "makes_shared s N M (SharedPtr_alias q p s)"
proof -
  let ?h = "\<lparr>ptr = p, control_block = control_block q\<rparr>"
  from assms(3) have "roomy (Suc 0) s" by simp
  moreover have "counted N ?h" using assms(2) by (simp add: counted_def)
  ultimately obtain s' where "increment_strong ?h s = Some s'" "refs_ok s' (add_ref N (control_block ?h)) M" "same_shape s s'"
    using increment_strong_ok [OF assms(1)] by blast
  moreover have "SmartPtrBase p (control_block q) = Some ?h"
    using assms(4) by (intro SmartPtrBase_ok) (auto simp: pointer_ok_def)
  ultimately show ?thesis using same_shape_extends pointer_ok_extends [OF assms(4)]
    by (auto simp: makes_shared_def SharedPtr_alias_def)
qed

lemma smart_ptr_eta: "\<lparr>ptr = ptr p, control_block = control_block p\<rparr> = p"
  by simp

lemma set_ptrs_of_ok:
  assumes "refs_ok s N M" and "counted N p" and "pointer_ok s p" and "roomy 2 s"
  shows "\<exists>s'. set_ptrs_and_esft (ptr p) (control_block p) s = Some (p, s') \<and> refs_ok s' N M \<and> pointer_ok s' p \<and> extends s s'"
proof -
  have "counted N \<lparr>ptr = ptr p, control_block = control_block p\<rparr>" "pointer_ok s \<lparr>ptr = ptr p, control_block = control_block p\<rparr>"
    "roomy (0 + 2) s" using assms unfolding smart_ptr_eta by (simp_all add: numeral_eq_Suc)
  from set_ptrs_and_esft_ok [OF assms(1) this] show ?thesis
    unfolding smart_ptr_eta using pointer_ok_extends [OF assms(3)] by blast
qed

lemma SharedPtr_convert_makes:
  assumes "refs_ok s N M" and "counted N p" and "pointer_ok s p" and "roomy 3 s"
  shows "makes_shared s N M (SharedPtr_convert p s)"
proof -
  from assms(4) have "roomy (Suc 2) s" by simp
  from increment_strong_ok [OF assms(1,2) this] obtain s1 where
    s1: "increment_strong p s = Some s1" "refs_ok s1 (add_ref N (control_block p)) M" "roomy 2 s1" "same_shape s s1" by blast
  have e: "extends s s1" using same_shape_extends [OF s1(4)] .
  from set_ptrs_of_ok [OF s1(2) counted_add pointer_ok_extends [OF assms(3) e] s1(3)] s1(1) show ?thesis
    using extends_trans [OF e] by (auto simp: makes_shared_def SharedPtr_convert_def)
qed

text \<open>A move makes nothing; it may bind \<open>weak_this\<close>.\<close>

lemma SharedPtr_move_ok:
  assumes "refs_ok s N M" and "counted N p" and "pointer_ok s p" and "roomy 2 s"
  shows "\<exists>s'. SharedPtr_move p s = Some (p, null_ptr, s') \<and> refs_ok s' N M \<and> pointer_ok s' p \<and> extends s s'"
  using set_ptrs_of_ok [OF assms] by (auto simp: SharedPtr_move_def)

lemma SharedPtr_from_weak_ok:
  assumes "refs_ok s N M" and "counted N p \<or> counted M p" and "pointer_ok s p" and "roomy 3 s"
  shows "\<exists>r s'. SharedPtr_from_weak p s = Some (r, s') \<and>
    (if \<exists>b. control_block p = Some b \<and> 0 < N b then r = Inr p \<and> refs_ok s' (add_ref N (control_block p)) M
     else r = Inl () \<and> refs_ok s' N M) \<and> pointer_ok s' p \<and> extends s s'"
proof -
  from assms(4) have "roomy (Suc 2) s" by simp
  from increment_if_nonzero_ok [OF assms(1,2) this] obtain ok s1 where
    s1: "increment_if_nonzero p s = Some (ok, s1)" "ok \<longleftrightarrow> (\<exists>b. control_block p = Some b \<and> 0 < N b)"
      "refs_ok s1 (if ok then add_ref N (control_block p) else N) M" "roomy 2 s1" "same_shape s s1" by blast
  have e: "extends s s1" using same_shape_extends [OF s1(5)] .
  note po = pointer_ok_extends [OF assms(3) e]
  show ?thesis
  proof (cases ok)
    case False
    then show ?thesis using s1 e po by (auto simp: SharedPtr_from_weak_def)
  next
    case True
    then have "refs_ok s1 (add_ref N (control_block p)) M" using s1(3) by simp
    from set_ptrs_of_ok [OF this counted_add po s1(4)] obtain s' where
      s': "set_ptrs_and_esft (ptr p) (control_block p) s1 = Some (p, s')"
        "refs_ok s' (add_ref N (control_block p)) M" "pointer_ok s' p" "extends s1 s'" by blast
    then have "SharedPtr_from_weak p s = Some (Inr p, s')" using s1(1) True by (simp add: SharedPtr_from_weak_def)
    then show ?thesis using s' True s1(2) extends_trans [OF e] by auto
  qed
qed

text \<open>The constructors that make a block.\<close>

definition unowned :: "memory \<Rightarrow> nat option \<Rightarrow> bool" where
  "unowned s p \<longleftrightarrow> (\<forall>a. p = Some a \<longrightarrow> (\<exists>ob. objs s a = Some ob \<and> alive ob) \<and>
     (\<forall>x c. blocks s x = Some c \<longrightarrow> block_ptr c \<noteq> Some a))"

lemma new_block_makes:
  assumes ok: "refs_ok s N M" and u: "unowned s p" and r: "roomy 2 s"
    and k: "\<And>a. p = Some a \<Longrightarrow> has_weak_this s a \<Longrightarrow>
      ends \<lparr>strong_count = 1, weak_count = 1, kind = k, block_ptr = p, linked = False\<rparr>"
  shows "makes_shared s N M (let (b, s) = ControlBlockBase k p s in set_ptrs_and_esft p (Some b) s)"
proof -
  obtain b s1 where new: "ControlBlockBase k p s = (b, s1)" by (cases "ControlBlockBase k p s")
  have s1: "b = next_block s" "refs_ok s1 (N(b := 1)) M" "objs s1 = objs s"
    "blocks s1 b = Some \<lparr>strong_count = 1, weak_count = 1, kind = k, block_ptr = p, linked = False\<rparr>"
    using refs_new_block [OF ok new] u by (auto simp: unowned_def)
  have s1_eq: "blocks s1 = (blocks s)(b \<mapsto> \<lparr>strong_count = 1, weak_count = 1, kind = k, block_ptr = p, linked = False\<rparr>)"
    using new s1(1) by (auto simp: ControlBlockBase_def)
  from ok have f: "fresh_zero s N M" by (rule refs_okE)
  have nb: "blocks s b = None" "N b = 0" using f s1(1) by (auto simp: fresh_zero_def)
  have e: "extends s s1" using nb(1) s1(3) s1_eq by (auto simp: extends_def has_weak_this_def weak_this_ok_def)
  have "roomy 2 s1" using r s1_eq by (auto simp: roomy_def room_def)
  then have r1: "roomy (0 + 2) s1" by (simp add: numeral_eq_Suc)
  have "owns s1 b a" if "p = Some a" "has_weak_this s a" for a using s1(4) k that by (auto simp: owns_def)
  then have po: "pointer_ok s1 \<lparr>ptr = p, control_block = Some b\<rparr>"
    using s1(3) by (auto simp: pointer_ok_def has_weak_this_def)
  have "counted (N(b := 1)) \<lparr>ptr = p, control_block = Some b\<rparr>" by (simp add: counted_def)
  from set_ptrs_and_esft_ok [OF s1(2) this po r1] obtain s' where
    s': "set_ptrs_and_esft p (Some b) s1 = Some (\<lparr>ptr = p, control_block = Some b\<rparr>, s')" "refs_ok s' (N(b := 1)) M" "extends s1 s'"
    by blast
  have "N(b := 1) = add_ref N (Some b)" using nb(2) by simp
  then show ?thesis using s' new extends_trans [OF e] pointer_ok_extends [OF po]
    by (auto simp: makes_shared_def)
qed

lemma constructors_make:
  assumes ok: "refs_ok s N M" and u: "unowned s p" and r: "roomy 2 s"
  shows "makes_shared s N M (SharedPtr_raw p s)"
    and "e \<or> (\<forall>a. p = Some a \<longrightarrow> \<not> has_weak_this s a) \<Longrightarrow> makes_shared s N M (SharedPtr_deleter p d e s)"
    and "e \<or> (\<forall>a. p = Some a \<longrightarrow> \<not> has_weak_this s a) \<Longrightarrow> makes_shared s N M (SharedPtr_allocator p d e s)"
    and "e \<or> (\<forall>a. p = Some a \<longrightarrow> \<not> has_weak_this s a) \<Longrightarrow> makes_shared s N M (SharedPtr_from_unique p d e s)"
proof -
  show "makes_shared s N M (SharedPtr_raw p s)" unfolding SharedPtr_raw_def
    by (rule new_block_makes [OF ok u r]) (simp add: ends_def)
  assume c: "e \<or> (\<forall>a. p = Some a \<longrightarrow> \<not> has_weak_this s a)"
  show d: "makes_shared s N M (SharedPtr_deleter p d e s)" unfolding SharedPtr_deleter_def
    by (rule new_block_makes [OF ok u r]) (use c in \<open>auto simp: ends_def\<close>)
  show "makes_shared s N M (SharedPtr_allocator p d e s)" unfolding SharedPtr_allocator_def
    by (rule new_block_makes [OF ok u r]) (use c in \<open>auto simp: ends_def\<close>)
  show "makes_shared s N M (SharedPtr_from_unique p d e s)"
    using d null_makes [OF ok] by (simp add: SharedPtr_from_unique_def)
qed

lemma swap_and_drop_replaces:
  assumes "makes_shared s N M r" and "counted N old"
  shows "replaces_shared s N M old (do { (tmp, s) \<leftarrow> r; swap_and_drop tmp old s })"
proof -
  from assms(1) obtain h s1 where r: "r = Some (h, s1)" and s1: "refs_ok s1 (add_ref N (control_block h)) M" "pointer_ok s1 h"
    "extends s s1" unfolding makes_shared_def by blast
  from decrement_strong_ok [OF s1(1) counted_mono [OF assms(2)]] obtain s' where
    s': "decrement_strong old s1 = Some s'" "refs_ok s' (sub_ref (add_ref N (control_block h)) (control_block old)) M"
      "same_links s1 s'" by blast
  have e: "extends s1 s'" using same_links_extends [OF s'(3)] .
  have "do { (tmp, s) \<leftarrow> r; swap_and_drop tmp old s } = Some (h, s')"
    using r s'(1) by (simp add: swap_and_drop_def SharedPtr_dtor_def)
  then show ?thesis using s'(2) extends_trans [OF s1(3) e] pointer_ok_extends [OF s1(2) e]
    unfolding replaces_shared_def by blast
qed

lemma weak_swap_and_drop_replaces:
  assumes "makes_weak s N M r" and "counted M old"
  shows "replaces_weak s N M old (do { (tmp, s) \<leftarrow> r; weak_swap_and_drop tmp old s })"
proof -
  from assms(1) obtain h s1 where r: "r = Some (h, s1)" and s1: "refs_ok s1 N (add_ref M (control_block h))" "pointer_ok s1 h"
    "extends s s1" unfolding makes_weak_def by blast
  from decrement_weak_ok [OF s1(1) counted_mono [OF assms(2)]] obtain s' where
    s': "decrement_weak old s1 = Some s'" "refs_ok s' N (sub_ref (add_ref M (control_block h)) (control_block old))"
      "same_shape s1 s'" by blast
  have e: "extends s1 s'" using same_shape_extends [OF s'(3)] .
  have "do { (tmp, s) \<leftarrow> r; weak_swap_and_drop tmp old s } = Some (h, s')"
    using r s'(1) by (simp add: weak_swap_and_drop_def WeakPtr_dtor_def)
  then show ?thesis using s'(2) extends_trans [OF s1(3) e] pointer_ok_extends [OF s1(2) e]
    unfolding replaces_weak_def by blast
qed

lemma WeakPtr_from_shared_makes:
  assumes "refs_ok s N M" and "counted N p \<or> counted M p" and "pointer_ok s p" and "roomy 1 s"
  shows "makes_weak s N M (WeakPtr_from_shared p s)" and "makes_weak s N M (WeakPtr_convert p s)"
proof -
  from assms(4) have "roomy (Suc 0) s" by simp
  from increment_weak_ok [OF assms(1,2) this] obtain s' where
    "increment_weak p s = Some s'" "refs_ok s' N (add_ref M (control_block p))" "same_shape s s'" by blast
  then show "makes_weak s N M (WeakPtr_from_shared p s)" "makes_weak s N M (WeakPtr_convert p s)"
    using SmartPtrBase_copy_ok [OF assms(3)] same_shape_extends pointer_ok_extends [OF assms(3)]
    by (auto simp: makes_weak_def WeakPtr_from_shared_def WeakPtr_convert_def)
qed

text \<open>Taking a strong reference for a moment, as the conversions that may need the object do.\<close>

lemma pin_ok:
  assumes "refs_ok s N M" and "counted N p \<or> counted M p" and "roomy 1 s"
  shows "\<exists>ok s1 s2. increment_if_nonzero p s = Some (ok, s1) \<and>
    (if ok then decrement_strong p s1 = Some s2 else s2 = s1) \<and> refs_ok s2 N M \<and> extends s s2"
proof -
  from assms(3) have "roomy (Suc 0) s" by simp
  from increment_if_nonzero_ok [OF assms(1,2) this] obtain ok s1 where
    s1: "increment_if_nonzero p s = Some (ok, s1)"
      "refs_ok s1 (if ok then add_ref N (control_block p) else N) M" "same_shape s s1" by blast
  have e: "extends s s1" using same_shape_extends [OF s1(3)] .
  show ?thesis
  proof (cases ok)
    case False
    then show ?thesis using s1 e by auto
  next
    case True
    then have "refs_ok s1 (add_ref N (control_block p)) M" using s1(2) by simp
    from decrement_strong_ok [OF this counted_add] obtain s2 where
      "decrement_strong p s1 = Some s2" "refs_ok s2 N M" "same_links s1 s2" by auto
    then show ?thesis using s1(1) True extends_trans [OF e same_links_extends] by auto
  qed
qed

lemma pointer_ok_null_ptr: "pointer_ok s p \<Longrightarrow> pointer_ok s (p\<lparr>ptr := None\<rparr>)"
  by (simp add: pointer_ok_def)

lemma WeakPtr_convert_virtual_makes:
  assumes "refs_ok s N M" and "counted M p" and "pointer_ok s p" and "roomy 2 s"
  shows "makes_weak s N M (WeakPtr_convert_virtual p s)"
proof (cases "control_block p")
  case None
  then show ?thesis using null_makes_weak [OF assms(1)] by (simp add: WeakPtr_convert_virtual_def)
next
  case (Some b)
  let ?t = "\<lparr>ptr = None, control_block = Some b\<rparr>"
  from assms(4) have "roomy (Suc 1) s" by (simp add: numeral_2_eq_2)
  from increment_weak_ok [OF assms(1) _ this, of p] assms(2) Some obtain s1 where
    s1: "increment_weak_count b s = Some s1" "refs_ok s1 N (add_ref M (Some b))" "roomy 1 s1" "same_shape s s1"
    by (auto simp: increment_weak_def)
  have "counted (add_ref M (Some b)) ?t" by (simp add: counted_def)
  then obtain ok s2 s3 where pin: "increment_if_nonzero ?t s1 = Some (ok, s2)"
    "if ok then decrement_strong ?t s2 = Some s3 else s3 = s2" "refs_ok s3 N (add_ref M (Some b))" "extends s1 s3"
    using pin_ok [OF s1(2) _ s1(3)] by blast
  have e: "extends s s3" using extends_trans [OF same_shape_extends [OF s1(4)] pin(4)] .
  have "WeakPtr_convert_virtual p s = Some (if ok then ?t\<lparr>ptr := ptr p\<rparr> else ?t, s3)"
    using Some s1(1) pin(1,2) by (cases ok) (simp_all add: WeakPtr_convert_virtual_def decrement_strong_def)
  moreover have "pointer_ok s3 ?t" "pointer_ok s3 (?t\<lparr>ptr := ptr p\<rparr>)"
    using pointer_ok_extends [OF assms(3) e] Some by (simp_all add: pointer_ok_def)
  ultimately show ?thesis using pin(3) e by (auto simp: makes_weak_def)
qed

lemma WeakPtr_convert_move_virtual_ok:
  assumes "refs_ok s N M" and "counted M p" and "pointer_ok s p" and "roomy 1 s"
  shows "\<exists>h s'. WeakPtr_convert_move_virtual p s = Some (h, null_ptr, s') \<and> control_block h = control_block p \<and>
    refs_ok s' N M \<and> pointer_ok s' h \<and> extends s s'"
proof -
  let ?t = "\<lparr>ptr = None, control_block = control_block p\<rparr>"
  have "counted M ?t" using assms(2) by (simp add: counted_def)
  then obtain ok s1 s2 where pin: "increment_if_nonzero ?t s = Some (ok, s1)"
    "if ok then decrement_strong ?t s1 = Some s2 else s2 = s1" "refs_ok s2 N M" "extends s s2"
    using pin_ok [OF assms(1) _ assms(4)] by blast
  have "WeakPtr_convert_move_virtual p s = Some (if ok then ?t\<lparr>ptr := ptr p\<rparr> else ?t, null_ptr, s2)"
    using pin(1,2) by (cases ok) (simp_all add: WeakPtr_convert_move_virtual_def)
  moreover have "pointer_ok s2 ?t" "pointer_ok s2 (?t\<lparr>ptr := ptr p\<rparr>)"
    using pointer_ok_extends [OF assms(3) pin(4)] by (simp_all add: pointer_ok_def)
  ultimately show ?thesis using pin(3,4) by auto
qed

lemma lock_makes:
  assumes "refs_ok s N M" and "counted M p" and "pointer_ok s p" and "roomy 1 s"
  shows "makes_shared s N M (lock p s)"
    and "\<exists>s'. lock p s = Some (if \<exists>b. control_block p = Some b \<and> 0 < N b then p else null_ptr, s')"
proof -
  from assms(4) have "roomy (Suc 0) s" by simp
  from increment_if_nonzero_ok [OF assms(1) _ this] assms(2) obtain ok s1 where
    s1: "increment_if_nonzero p s = Some (ok, s1)" "ok \<longleftrightarrow> (\<exists>b. control_block p = Some b \<and> 0 < N b)"
      "refs_ok s1 (if ok then add_ref N (control_block p) else N) M" "same_shape s s1" by blast
  have e: "extends s s1" using same_shape_extends [OF s1(4)] .
  have "SmartPtrBase (ptr p) (control_block p) = Some p"
    using SmartPtrBase_copy_ok [OF assms(3)] by (simp add: SmartPtrBase_copy_def)
  then have l: "lock p s = Some (if ok then p else null_ptr, s1)" using s1(1) by (simp add: lock_def)
  then show "makes_shared s N M (lock p s)"
    using s1(3) e pointer_ok_extends [OF assms(3) e] by (auto simp: makes_shared_def)
  show "\<exists>s'. lock p s = Some (if \<exists>b. control_block p = Some b \<and> 0 < N b then p else null_ptr, s')"
    using l s1(2) by simp
qed

end
