(* ===== verification/Pointer_Programs.thy ===== *)
theory Pointer_Programs
  imports Smart_Pointers
begin

text \<open>
  Programs over the smart pointers: any sequence of constructions, assignments, moves, swaps,
  resets, locks and destructions of \<open>SharedPtr\<close> and \<open>WeakPtr\<close> variables. The invariant ties the
  counts of every control block to the variables that exist, so that an object is disposed of
  exactly when its last \<open>SharedPtr\<close> goes, a block is retired exactly when nothing refers to it any
  more, and no operation fails. It holds for the programs without the three operations that hand out a
  weak pointer and do not count it, the copy constructor and the copy assignment of \<open>WeakPtr\<close> and
  \<open>weak_from_this\<close>; what these do to the counts is shown at the end.
\<close>

section \<open>Programs\<close>

text \<open>The variables of a program are named by their positions.\<close>

record world =
  mem :: memory
  shared :: "smart_ptr list"
  weaks :: "smart_ptr list"

datatype command =
    New_object nat bool
  | Shared_null
  | Shared_raw "nat option"
  | Shared_deleter "nat option" nat bool
  | Shared_allocator "nat option" nat bool
  | Shared_unique "nat option" nat bool
  | Shared_alias nat "nat option"
  | Shared_alias_move nat "nat option"
  | Shared_copy nat
  | Shared_convert nat
  | Shared_move nat
  | Shared_from_weak nat
  | Shared_dtor nat
  | Shared_assign nat nat
  | Shared_assign_convert nat nat
  | Shared_assign_move nat nat
  | Shared_assign_unique nat "nat option" nat bool
  | Shared_swap nat nat
  | Shared_reset nat
  | Shared_reset_raw nat "nat option"
  | Shared_reset_deleter nat "nat option" nat bool
  | Shared_reset_allocator nat "nat option" nat bool
  | Weak_null
  | Weak_copy nat
  | Weak_from_shared nat
  | Weak_convert nat
  | Weak_convert_virtual nat
  | Weak_move nat
  | Weak_move_virtual nat
  | Weak_dtor nat
  | Weak_assign nat nat
  | Weak_assign_convert nat nat
  | Weak_assign_move nat nat
  | Weak_assign_shared nat nat
  | Weak_swap nat nat
  | Weak_lock nat
  | From_this nat
  | Weak_from_this nat
  | Weak_from_this_const nat

definition remove_nth :: "nat \<Rightarrow> 'a list \<Rightarrow> 'a list" where
  "remove_nth i xs = take i xs @ drop (Suc i) xs"

definition push_shared :: "world \<Rightarrow> (smart_ptr \<times> memory) option \<Rightarrow> world option" where
  "push_shared w r = do { (h, s) \<leftarrow> r; Some (w\<lparr>mem := s, shared := shared w @ [h]\<rparr>) }"

definition push_weak :: "world \<Rightarrow> (smart_ptr \<times> memory) option \<Rightarrow> world option" where
  "push_weak w r = do { (h, s) \<leftarrow> r; Some (w\<lparr>mem := s, weaks := weaks w @ [h]\<rparr>) }"

definition set_shared :: "world \<Rightarrow> nat \<Rightarrow> (smart_ptr \<times> memory) option \<Rightarrow> world option" where
  "set_shared w i r = do { (h, s) \<leftarrow> r; Some (w\<lparr>mem := s, shared := (shared w)[i := h]\<rparr>) }"

definition set_weak :: "world \<Rightarrow> nat \<Rightarrow> (smart_ptr \<times> memory) option \<Rightarrow> world option" where
  "set_weak w i r = do { (h, s) \<leftarrow> r; Some (w\<lparr>mem := s, weaks := (weaks w)[i := h]\<rparr>) }"

fun exec :: "command \<Rightarrow> world \<Rightarrow> world option" where
  "exec (New_object a esft) w =
     Some (w\<lparr>mem := (mem w)\<lparr>objs := (objs (mem w))(a \<mapsto>
       \<lparr>alive = True, weak_this = (if esft then Some null_ptr else None)\<rparr>)\<rparr>\<rparr>)"
| "exec Shared_null w = push_shared w (Some (null_ptr, mem w))"
| "exec (Shared_raw p) w = push_shared w (SharedPtr_raw p (mem w))"
| "exec (Shared_deleter p d e) w = push_shared w (SharedPtr_deleter p d e (mem w))"
| "exec (Shared_allocator p d e) w = push_shared w (SharedPtr_allocator p d e (mem w))"
| "exec (Shared_unique p d e) w = push_shared w (SharedPtr_from_unique p d e (mem w))"
| "exec (Shared_alias i p) w = push_shared w (SharedPtr_alias (shared w ! i) p (mem w))"
| "exec (Shared_alias_move i p) w = do {
     (h, old) \<leftarrow> SharedPtr_alias_move (shared w ! i) p;
     Some (w\<lparr>shared := (shared w)[i := old] @ [h]\<rparr>)
   }"
| "exec (Shared_copy i) w = push_shared w (SharedPtr_copy (shared w ! i) (mem w))"
| "exec (Shared_convert i) w = push_shared w (SharedPtr_convert (shared w ! i) (mem w))"
| "exec (Shared_move i) w = do {
     (h, old, s) \<leftarrow> SharedPtr_move (shared w ! i) (mem w);
     Some (w\<lparr>mem := s, shared := (shared w)[i := old] @ [h]\<rparr>)
   }"
| "exec (Shared_from_weak j) w = do {
     (r, s) \<leftarrow> SharedPtr_from_weak (weaks w ! j) (mem w);
     Some (case r of Inl _ \<Rightarrow> w\<lparr>mem := s\<rparr> | Inr h \<Rightarrow> w\<lparr>mem := s, shared := shared w @ [h]\<rparr>)
   }"
| "exec (Shared_dtor i) w = do {
     s \<leftarrow> SharedPtr_dtor (shared w ! i) (mem w);
     Some (w\<lparr>mem := s, shared := remove_nth i (shared w)\<rparr>)
   }"
| "exec (Shared_assign i j) w = set_shared w i (SharedPtr_assign (shared w ! i) (shared w ! j) (mem w))"
| "exec (Shared_assign_convert i j) w = set_shared w i (SharedPtr_assign_convert (shared w ! i) (shared w ! j) (mem w))"
| "exec (Shared_assign_move i j) w = do {
     (tmp, old, s) \<leftarrow> SharedPtr_move (shared w ! j) (mem w);
     let w = w\<lparr>mem := s, shared := (shared w)[j := old]\<rparr>;
     set_shared w i (swap_and_drop tmp (shared w ! i) (mem w))
   }"
| "exec (Shared_assign_unique i p d e) w = set_shared w i (SharedPtr_assign_unique (shared w ! i) p d e (mem w))"
| "exec (Shared_swap i j) w =
     (let (x, y) = swap_ptrs (shared w ! i) (shared w ! j) in Some (w\<lparr>shared := (shared w)[i := x, j := y]\<rparr>))"
| "exec (Shared_reset i) w = set_shared w i (SharedPtr_reset (shared w ! i) (mem w))"
| "exec (Shared_reset_raw i p) w = set_shared w i (SharedPtr_reset_raw (shared w ! i) p (mem w))"
| "exec (Shared_reset_deleter i p d e) w = set_shared w i (SharedPtr_reset_deleter (shared w ! i) p d e (mem w))"
| "exec (Shared_reset_allocator i p d e) w = set_shared w i (SharedPtr_reset_allocator (shared w ! i) p d e (mem w))"
| "exec Weak_null w = push_weak w (Some (null_ptr, mem w))"
| "exec (Weak_copy j) w = push_weak w (WeakPtr_copy (weaks w ! j) (mem w))"
| "exec (Weak_from_shared i) w = push_weak w (WeakPtr_from_shared (shared w ! i) (mem w))"
| "exec (Weak_convert j) w = push_weak w (WeakPtr_convert (weaks w ! j) (mem w))"
| "exec (Weak_convert_virtual j) w = push_weak w (WeakPtr_convert_virtual (weaks w ! j) (mem w))"
| "exec (Weak_move j) w = do {
     (h, old) \<leftarrow> WeakPtr_move (weaks w ! j);
     Some (w\<lparr>weaks := (weaks w)[j := old] @ [h]\<rparr>)
   }"
| "exec (Weak_move_virtual j) w = do {
     (h, old, s) \<leftarrow> WeakPtr_convert_move_virtual (weaks w ! j) (mem w);
     Some (w\<lparr>mem := s, weaks := (weaks w)[j := old] @ [h]\<rparr>)
   }"
| "exec (Weak_dtor j) w = do {
     s \<leftarrow> WeakPtr_dtor (weaks w ! j) (mem w);
     Some (w\<lparr>mem := s, weaks := remove_nth j (weaks w)\<rparr>)
   }"
| "exec (Weak_assign j k) w = set_weak w j (WeakPtr_assign (weaks w ! j) (weaks w ! k) (mem w))"
| "exec (Weak_assign_convert j k) w = set_weak w j (WeakPtr_assign_convert (weaks w ! j) (weaks w ! k) (mem w))"
| "exec (Weak_assign_move j k) w = do {
     (tmp, old) \<leftarrow> WeakPtr_move (weaks w ! k);
     let w = w\<lparr>weaks := (weaks w)[k := old]\<rparr>;
     set_weak w j (weak_swap_and_drop tmp (weaks w ! j) (mem w))
   }"
| "exec (Weak_assign_shared j i) w = set_weak w j (WeakPtr_assign_shared (weaks w ! j) (shared w ! i) (mem w))"
| "exec (Weak_swap j k) w =
     (let (x, y) = swap_ptrs (weaks w ! j) (weaks w ! k) in Some (w\<lparr>weaks := (weaks w)[j := x, k := y]\<rparr>))"
| "exec (Weak_lock j) w = push_shared w (lock (weaks w ! j) (mem w))"
| "exec (From_this a) w = do {
     (r, s) \<leftarrow> shared_from_this a (mem w);
     Some (case r of Inl _ \<Rightarrow> w\<lparr>mem := s\<rparr> | Inr h \<Rightarrow> w\<lparr>mem := s, shared := shared w @ [h]\<rparr>)
   }"
| "exec (Weak_from_this a) w = push_weak w (weak_from_this a (mem w))"
| "exec (Weak_from_this_const a) w = push_weak w (weak_from_this_const a (mem w))"

text \<open>
  What the language asks of a program: it names variables that exist, gives away only objects that
  nothing owns yet, with a deleter that ends their life if they can hand themselves out, and calls
  members only of objects that are alive.
\<close>

definition giveable :: "memory \<Rightarrow> nat option \<Rightarrow> bool \<Rightarrow> bool" where
  "giveable s p e \<longleftrightarrow> unowned s p \<and> (e \<or> (\<forall>a. p = Some a \<longrightarrow> \<not> has_weak_this s a))"

fun allowed :: "command \<Rightarrow> world \<Rightarrow> bool" where
  "allowed (New_object a esft) w \<longleftrightarrow> objs (mem w) a = None \<and>
     (\<forall>b c. blocks (mem w) b = Some c \<longrightarrow> block_ptr c \<noteq> Some a) \<and>
     (\<forall>h \<in> set (shared w) \<union> set (weaks w). ptr h \<noteq> Some a)"
| "allowed Shared_null w \<longleftrightarrow> True"
| "allowed (Shared_raw p) w \<longleftrightarrow> giveable (mem w) p True"
| "allowed (Shared_deleter p d e) w \<longleftrightarrow> giveable (mem w) p e"
| "allowed (Shared_allocator p d e) w \<longleftrightarrow> giveable (mem w) p e"
| "allowed (Shared_unique p d e) w \<longleftrightarrow> giveable (mem w) p e"
| "allowed (Shared_alias i p) w \<longleftrightarrow> i < length (shared w) \<and>
     pointer_ok (mem w) \<lparr>ptr = p, control_block = control_block (shared w ! i)\<rparr>"
| "allowed (Shared_alias_move i p) w \<longleftrightarrow> i < length (shared w) \<and>
     pointer_ok (mem w) \<lparr>ptr = p, control_block = control_block (shared w ! i)\<rparr>"
| "allowed (Shared_copy i) w \<longleftrightarrow> i < length (shared w)"
| "allowed (Shared_convert i) w \<longleftrightarrow> i < length (shared w)"
| "allowed (Shared_move i) w \<longleftrightarrow> i < length (shared w)"
| "allowed (Shared_from_weak j) w \<longleftrightarrow> j < length (weaks w)"
| "allowed (Shared_dtor i) w \<longleftrightarrow> i < length (shared w)"
| "allowed (Shared_assign i j) w \<longleftrightarrow> i < length (shared w) \<and> j < length (shared w)"
| "allowed (Shared_assign_convert i j) w \<longleftrightarrow> i < length (shared w) \<and> j < length (shared w)"
| "allowed (Shared_assign_move i j) w \<longleftrightarrow> i < length (shared w) \<and> j < length (shared w)"
| "allowed (Shared_assign_unique i p d e) w \<longleftrightarrow> i < length (shared w) \<and> giveable (mem w) p e"
| "allowed (Shared_swap i j) w \<longleftrightarrow> i < length (shared w) \<and> j < length (shared w)"
| "allowed (Shared_reset i) w \<longleftrightarrow> i < length (shared w)"
| "allowed (Shared_reset_raw i p) w \<longleftrightarrow> i < length (shared w) \<and> giveable (mem w) p True"
| "allowed (Shared_reset_deleter i p d e) w \<longleftrightarrow> i < length (shared w) \<and> giveable (mem w) p e"
| "allowed (Shared_reset_allocator i p d e) w \<longleftrightarrow> i < length (shared w) \<and> giveable (mem w) p e"
| "allowed Weak_null w \<longleftrightarrow> True"
| "allowed (Weak_copy j) w \<longleftrightarrow> j < length (weaks w)"
| "allowed (Weak_from_shared i) w \<longleftrightarrow> i < length (shared w)"
| "allowed (Weak_convert j) w \<longleftrightarrow> j < length (weaks w)"
| "allowed (Weak_convert_virtual j) w \<longleftrightarrow> j < length (weaks w)"
| "allowed (Weak_move j) w \<longleftrightarrow> j < length (weaks w)"
| "allowed (Weak_move_virtual j) w \<longleftrightarrow> j < length (weaks w)"
| "allowed (Weak_dtor j) w \<longleftrightarrow> j < length (weaks w)"
| "allowed (Weak_assign j k) w \<longleftrightarrow> j < length (weaks w) \<and> k < length (weaks w)"
| "allowed (Weak_assign_convert j k) w \<longleftrightarrow> j < length (weaks w) \<and> k < length (weaks w)"
| "allowed (Weak_assign_move j k) w \<longleftrightarrow> j < length (weaks w) \<and> k < length (weaks w)"
| "allowed (Weak_assign_shared j i) w \<longleftrightarrow> j < length (weaks w) \<and> i < length (shared w)"
| "allowed (Weak_swap j k) w \<longleftrightarrow> j < length (weaks w) \<and> k < length (weaks w)"
| "allowed (Weak_lock j) w \<longleftrightarrow> j < length (weaks w)"
| "allowed (From_this a) w \<longleftrightarrow> get_weak_this a (mem w) \<noteq> None"
| "allowed (Weak_from_this a) w \<longleftrightarrow> get_weak_this a (mem w) \<noteq> None"
| "allowed (Weak_from_this_const a) w \<longleftrightarrow> get_weak_this a (mem w) \<noteq> None"

text \<open>The operations that make a \<open>WeakPtr\<close> with its copy constructor, which leaves the count as it is.\<close>

fun uncounted :: "command \<Rightarrow> bool" where
  "uncounted (Weak_copy j) \<longleftrightarrow> True"
| "uncounted (Weak_assign j k) \<longleftrightarrow> True"
| "uncounted (Weak_from_this a) \<longleftrightarrow> True"
| "uncounted _ \<longleftrightarrow> False"

section \<open>The invariant\<close>

text \<open>The references to block \<open>b\<close> among the variables.\<close>

definition refs_to :: "smart_ptr list \<Rightarrow> nat \<Rightarrow> nat" where
  "refs_to hs b = count_list (List.map control_block hs) (Some b)"

definition world_ok :: "world \<Rightarrow> bool" where
  "world_ok w \<longleftrightarrow> refs_ok (mem w) (refs_to (shared w)) (refs_to (weaks w)) \<and>
     (\<forall>h \<in> set (shared w) \<union> set (weaks w). pointer_ok (mem w) h) \<and> weak_this_ok (mem w)"

lemma refs_to_simps:
  "refs_to (hs @ [h]) = add_ref (refs_to hs) (control_block h)"
  "i < length hs \<Longrightarrow> refs_to (hs[i := h]) = sub_ref (add_ref (refs_to hs) (control_block h)) (control_block (hs ! i))"
  "i < length hs \<Longrightarrow> refs_to (remove_nth i hs) = sub_ref (refs_to hs) (control_block (hs ! i))"
proof -
  show "refs_to (hs @ [h]) = add_ref (refs_to hs) (control_block h)"
    by (cases "control_block h") (auto simp: refs_to_def fun_eq_iff)
  assume i: "i < length hs"
  have split: "hs = take i hs @ hs ! i # drop (Suc i) hs" using i by (rule id_take_nth_drop)
  have "hs[i := h] = take i hs @ h # drop (Suc i) hs" using i by (rule upd_conv_take_nth_drop)
  then show "refs_to (hs[i := h]) = sub_ref (add_ref (refs_to hs) (control_block h)) (control_block (hs ! i))"
    using arg_cong [OF split, of refs_to]
    by (cases "control_block h"; cases "control_block (hs ! i)") (auto simp: refs_to_def fun_eq_iff)
  show "refs_to (remove_nth i hs) = sub_ref (refs_to hs) (control_block (hs ! i))"
    using arg_cong [OF split, of refs_to]
    by (cases "control_block (hs ! i)") (auto simp: refs_to_def fun_eq_iff remove_nth_def)
qed

lemma counted_nth: "i < length hs \<Longrightarrow> counted (refs_to hs) (hs ! i)"
  unfolding counted_def refs_to_def by (metis count_list_0_iff gr0I length_map nth_map nth_mem)

lemma world_ok_nth:
  assumes "world_ok w"
  shows "i < length (shared w) \<Longrightarrow> pointer_ok (mem w) (shared w ! i)"
    and "i < length (weaks w) \<Longrightarrow> pointer_ok (mem w) (weaks w ! i)"
  using assms unfolding world_ok_def by auto

lemma pointers_extend:
  assumes "world_ok w" and "extends (mem w) s" and "h \<in> set (shared w) \<union> set (weaks w)"
  shows "pointer_ok s h"
  using assms pointer_ok_extends unfolding world_ok_def by blast

lemma weak_this_extend: "world_ok w \<Longrightarrow> extends (mem w) s \<Longrightarrow> weak_this_ok s"
  by (simp add: world_ok_def extends_def)

lemma set_remove_nth: "set (remove_nth i hs) \<subseteq> set hs"
  by (auto simp: remove_nth_def dest: in_set_takeD in_set_dropD)

definition runs :: "world option \<Rightarrow> bool" where
  "runs r \<longleftrightarrow> (\<exists>w. r = Some w \<and> world_ok w)"

lemma runsI: "r = Some w \<Longrightarrow> world_ok w \<Longrightarrow> runs r"
  by (simp add: runs_def)

lemma push_shared_runs:
  assumes w: "world_ok w" and "makes_shared (mem w) (refs_to (shared w)) (refs_to (weaks w)) r"
  shows "runs (push_shared w r)"
proof -
  from assms(2) obtain h s where r: "r = Some (h, s)"
    and s: "refs_ok s (add_ref (refs_to (shared w)) (control_block h)) (refs_to (weaks w))" "pointer_ok s h" "extends (mem w) s"
    unfolding makes_shared_def by blast
  have "world_ok (w\<lparr>mem := s, shared := shared w @ [h]\<rparr>)"
    using s(1,2) pointers_extend [OF w s(3)] weak_this_extend [OF w s(3)] by (auto simp: world_ok_def refs_to_simps)
  then show ?thesis using r by (intro runsI) (simp_all add: push_shared_def)
qed

lemma push_weak_runs:
  assumes w: "world_ok w" and "makes_weak (mem w) (refs_to (shared w)) (refs_to (weaks w)) r"
  shows "runs (push_weak w r)"
proof -
  from assms(2) obtain h s where r: "r = Some (h, s)"
    and s: "refs_ok s (refs_to (shared w)) (add_ref (refs_to (weaks w)) (control_block h))" "pointer_ok s h" "extends (mem w) s"
    unfolding makes_weak_def by blast
  have "world_ok (w\<lparr>mem := s, weaks := weaks w @ [h]\<rparr>)"
    using s(1,2) pointers_extend [OF w s(3)] weak_this_extend [OF w s(3)] by (auto simp: world_ok_def refs_to_simps)
  then show ?thesis using r by (intro runsI) (simp_all add: push_weak_def)
qed

lemma set_shared_runs:
  assumes w: "world_ok w" and i: "i < length (shared w)"
    and "replaces_shared (mem w) (refs_to (shared w)) (refs_to (weaks w)) (shared w ! i) r"
  shows "runs (set_shared w i r)"
proof -
  from assms(3) obtain h s where r: "r = Some (h, s)"
    and s: "refs_ok s (sub_ref (add_ref (refs_to (shared w)) (control_block h)) (control_block (shared w ! i))) (refs_to (weaks w))"
      "pointer_ok s h" "extends (mem w) s"
    unfolding replaces_shared_def by blast
  have "pointer_ok s h'" if "h' \<in> set ((shared w)[i := h]) \<union> set (weaks w)" for h'
    using that s(2) pointers_extend [OF w s(3)] set_update_subset_insert [of "shared w" i h] by blast
  then have "world_ok (w\<lparr>mem := s, shared := (shared w)[i := h]\<rparr>)"
    using s(1) weak_this_extend [OF w s(3)] by (simp add: world_ok_def refs_to_simps(2) [OF i])
  then show ?thesis using r by (intro runsI) (simp_all add: set_shared_def)
qed

lemma set_weak_runs:
  assumes w: "world_ok w" and i: "i < length (weaks w)"
    and "replaces_weak (mem w) (refs_to (shared w)) (refs_to (weaks w)) (weaks w ! i) r"
  shows "runs (set_weak w i r)"
proof -
  from assms(3) obtain h s where r: "r = Some (h, s)"
    and s: "refs_ok s (refs_to (shared w)) (sub_ref (add_ref (refs_to (weaks w)) (control_block h)) (control_block (weaks w ! i)))"
      "pointer_ok s h" "extends (mem w) s"
    unfolding replaces_weak_def by blast
  have "pointer_ok s h'" if "h' \<in> set (shared w) \<union> set ((weaks w)[i := h])" for h'
    using that s(2) pointers_extend [OF w s(3)] set_update_subset_insert [of "weaks w" i h] by blast
  then have "world_ok (w\<lparr>mem := s, weaks := (weaks w)[i := h]\<rparr>)"
    using s(1) weak_this_extend [OF w s(3)] by (simp add: world_ok_def refs_to_simps(2) [OF i])
  then show ?thesis using r by (intro runsI) (simp_all add: set_weak_def)
qed

text \<open>Moving a reference from one variable to another changes no count.\<close>

lemma refs_to_move:
  assumes "i < length hs" and "control_block h = control_block (hs ! i)"
  shows "refs_to (hs[i := null_ptr] @ [h]) = refs_to hs"
  using assms counted_nth [OF assms(1)]
  by (cases "control_block (hs ! i)") (auto simp: refs_to_simps counted_def)

lemma refs_to_swap:
  assumes "i < length hs" and "j < length hs"
  shows "refs_to (hs[i := hs ! j, j := hs ! i]) = refs_to hs"
proof -
  have "mset (hs[i := hs ! j, j := hs ! i]) = mset hs" using assms(2,1) by (rule mset_swap)
  then have "mset (List.map control_block (hs[i := hs ! j, j := hs ! i])) = mset (List.map control_block hs)"
    by (simp only: mset_map)
  then show ?thesis unfolding refs_to_def fun_eq_iff count_mset [symmetric] by simp
qed

lemma move_world_ok:
  assumes w: "world_ok w" and s: "refs_ok s (refs_to (shared w)) (refs_to (weaks w))" "extends (mem w) s" "pointer_ok s h"
  shows "i < length (shared w) \<Longrightarrow> control_block h = control_block (shared w ! i) \<Longrightarrow>
      world_ok (w\<lparr>mem := s, shared := (shared w)[i := null_ptr] @ [h]\<rparr>)"
    and "i < length (weaks w) \<Longrightarrow> control_block h = control_block (weaks w ! i) \<Longrightarrow>
      world_ok (w\<lparr>mem := s, weaks := (weaks w)[i := null_ptr] @ [h]\<rparr>)"
proof -
  have po: "pointer_ok s h'" if "h' \<in> insert null_ptr (insert h (set (shared w) \<union> set (weaks w)))" for h'
    using that s(3) pointers_extend [OF w s(2)] by auto
  show "world_ok (w\<lparr>mem := s, shared := (shared w)[i := null_ptr] @ [h]\<rparr>)"
    if i: "i < length (shared w)" "control_block h = control_block (shared w ! i)"
    using s(1) refs_to_move [OF i] po weak_this_extend [OF w s(2)] set_update_subset_insert [of "shared w" i null_ptr]
    unfolding world_ok_def by auto
  show "world_ok (w\<lparr>mem := s, weaks := (weaks w)[i := null_ptr] @ [h]\<rparr>)"
    if i: "i < length (weaks w)" "control_block h = control_block (weaks w ! i)"
    using s(1) refs_to_move [OF i] po weak_this_extend [OF w s(2)] set_update_subset_insert [of "weaks w" i null_ptr]
    unfolding world_ok_def by auto
qed

lemma world_okD: "world_ok w \<Longrightarrow> refs_ok (mem w) (refs_to (shared w)) (refs_to (weaks w))"
  by (simp add: world_ok_def)

lemma mem_same: "w\<lparr>mem := mem w, shared := xs\<rparr> = w\<lparr>shared := xs\<rparr>" "w\<lparr>mem := mem w, weaks := xs\<rparr> = w\<lparr>weaks := xs\<rparr>"
  by simp_all

section \<open>The commands\<close>

lemma roomy_less: "roomy 4 s \<Longrightarrow> roomy 1 s" "roomy 4 s \<Longrightarrow> roomy 2 s" "roomy 4 s \<Longrightarrow> roomy 3 s"
  by (auto elim: roomy_mono)

lemma shared_constructors_run:
  assumes w: "world_ok w" and r: "roomy 4 (mem w)"
  shows "giveable (mem w) p True \<Longrightarrow> runs (exec (Shared_raw p) w)"
    and "giveable (mem w) p e \<Longrightarrow> runs (exec (Shared_deleter p d e) w)"
    and "giveable (mem w) p e \<Longrightarrow> runs (exec (Shared_allocator p d e) w)"
    and "giveable (mem w) p e \<Longrightarrow> runs (exec (Shared_unique p d e) w)"
    and "i < length (shared w) \<Longrightarrow> runs (exec (Shared_copy i) w)"
    and "i < length (shared w) \<Longrightarrow> runs (exec (Shared_convert i) w)"
    and "i < length (shared w) \<Longrightarrow> pointer_ok (mem w) \<lparr>ptr = p, control_block = control_block (shared w ! i)\<rparr> \<Longrightarrow>
      runs (exec (Shared_alias i p) w)"
    and "j < length (weaks w) \<Longrightarrow> runs (exec (Weak_lock j) w)"
    and "runs (exec Shared_null w)"
  unfolding giveable_def exec.simps
  by (auto intro!: push_shared_runs [OF w] constructors_make [OF world_okD [OF w]] null_makes [OF world_okD [OF w]]
    SharedPtr_copy_makes [OF world_okD [OF w] counted_nth world_ok_nth(1) [OF w]]
    SharedPtr_convert_makes [OF world_okD [OF w] counted_nth world_ok_nth(1) [OF w]]
    SharedPtr_alias_makes [OF world_okD [OF w] counted_nth]
    lock_makes(1) [OF world_okD [OF w] counted_nth world_ok_nth(2) [OF w]] roomy_less [OF r])

lemma weak_constructors_run:
  assumes w: "world_ok w" and r: "roomy 4 (mem w)"
  shows "i < length (shared w) \<Longrightarrow> runs (exec (Weak_from_shared i) w)"
    and "j < length (weaks w) \<Longrightarrow> runs (exec (Weak_convert j) w)"
    and "j < length (weaks w) \<Longrightarrow> runs (exec (Weak_convert_virtual j) w)"
    and "runs (exec Weak_null w)"
  unfolding exec.simps
  by (auto intro!: push_weak_runs [OF w] null_makes_weak [OF world_okD [OF w]]
    WeakPtr_from_shared_makes [OF world_okD [OF w]] world_ok_nth [OF w] counted_nth
    WeakPtr_convert_virtual_makes [OF world_okD [OF w] counted_nth world_ok_nth(2) [OF w]] roomy_less [OF r]
    intro: disjI1 [OF counted_nth] disjI2 [OF counted_nth])

lemma shared_assignments_run:
  assumes w: "world_ok w" and r: "roomy 4 (mem w)" and i: "i < length (shared w)"
  shows "j < length (shared w) \<Longrightarrow> runs (exec (Shared_assign i j) w)"
    and "j < length (shared w) \<Longrightarrow> runs (exec (Shared_assign_convert i j) w)"
    and "giveable (mem w) p e \<Longrightarrow> runs (exec (Shared_assign_unique i p d e) w)"
    and "giveable (mem w) p True \<Longrightarrow> runs (exec (Shared_reset_raw i p) w)"
    and "giveable (mem w) p e \<Longrightarrow> runs (exec (Shared_reset_deleter i p d e) w)"
    and "giveable (mem w) p e \<Longrightarrow> runs (exec (Shared_reset_allocator i p d e) w)"
  unfolding giveable_def exec.simps SharedPtr_assign_def SharedPtr_assign_convert_def SharedPtr_assign_unique_def
    SharedPtr_reset_raw_def SharedPtr_reset_deleter_def SharedPtr_reset_allocator_def
  by (auto intro!: set_shared_runs [OF w i] swap_and_drop_replaces [OF _ counted_nth [OF i]]
    constructors_make [OF world_okD [OF w]] SharedPtr_copy_makes [OF world_okD [OF w] counted_nth world_ok_nth(1) [OF w]]
    SharedPtr_convert_makes [OF world_okD [OF w] counted_nth world_ok_nth(1) [OF w]] roomy_less [OF r])

lemma Shared_reset_runs:
  assumes w: "world_ok w" and i: "i < length (shared w)"
  shows "runs (exec (Shared_reset i) w)"
  using set_shared_runs [OF w i] swap_and_drop_replaces [OF null_makes [OF world_okD [OF w]] counted_nth [OF i]]
  by (simp add: SharedPtr_reset_def)

lemma weak_assignments_run:
  assumes w: "world_ok w" and r: "roomy 4 (mem w)" and j: "j < length (weaks w)"
  shows "k < length (weaks w) \<Longrightarrow> runs (exec (Weak_assign_convert j k) w)"
    and "i < length (shared w) \<Longrightarrow> runs (exec (Weak_assign_shared j i) w)"
  unfolding exec.simps WeakPtr_assign_convert_def WeakPtr_assign_shared_def
  by (auto intro!: set_weak_runs [OF w j] weak_swap_and_drop_replaces [OF _ counted_nth [OF j]]
    WeakPtr_from_shared_makes [OF world_okD [OF w]] world_ok_nth [OF w] roomy_less [OF r] simp: counted_nth)

lemma shared_moves_run:
  assumes w: "world_ok w" and r: "roomy 4 (mem w)" and i: "i < length (shared w)"
  shows "runs (exec (Shared_move i) w)"
    and "pointer_ok (mem w) \<lparr>ptr = p, control_block = control_block (shared w ! i)\<rparr> \<Longrightarrow> runs (exec (Shared_alias_move i p) w)"
    and "k < length (shared w) \<Longrightarrow> runs (exec (Shared_assign_move k i) w)"
proof -
  from SharedPtr_move_ok [OF world_okD [OF w] counted_nth [OF i] world_ok_nth(1) [OF w i] roomy_less(2) [OF r]]
  obtain s where s: "SharedPtr_move (shared w ! i) (mem w) = Some (shared w ! i, null_ptr, s)"
    "refs_ok s (refs_to (shared w)) (refs_to (weaks w))" "pointer_ok s (shared w ! i)" "extends (mem w) s" by blast
  show "runs (exec (Shared_move i) w)"
    using s(1) move_world_ok(1) [OF w s(2,4,3) i] by (intro runsI) simp_all
  show "runs (exec (Shared_alias_move i p) w)"
    if p: "pointer_ok (mem w) \<lparr>ptr = p, control_block = control_block (shared w ! i)\<rparr>"
  proof -
    have "SmartPtrBase p (control_block (shared w ! i)) = Some \<lparr>ptr = p, control_block = control_block (shared w ! i)\<rparr>"
      using p by (intro SmartPtrBase_ok) (auto simp: pointer_ok_def)
    then have "exec (Shared_alias_move i p) w =
        Some (w\<lparr>mem := mem w, shared := (shared w)[i := null_ptr] @ [\<lparr>ptr = p, control_block = control_block (shared w ! i)\<rparr>]\<rparr>)"
      by (simp add: SharedPtr_alias_move_def)
    then show ?thesis using move_world_ok(1) [OF w world_okD [OF w] extends_refl p i] by (intro runsI) simp_all
  qed
  assume k: "k < length (shared w)"
  define w1 where "w1 = w\<lparr>mem := s, shared := (shared w)[i := null_ptr]\<rparr>"
  have add: "add_ref (refs_to (shared w1)) (control_block (shared w ! i)) = refs_to (shared w)"
    using refs_to_move [OF i, of "shared w ! i"] by (simp add: w1_def refs_to_simps(1))
  have po: "pointer_ok s h" if "h \<in> set (shared w1) \<union> set (weaks w)" for h
    using that pointers_extend [OF w s(4)] set_update_subset_insert [of "shared w" i null_ptr] by (auto simp: w1_def)
  have k1: "k < length (shared w1)" using k by (simp add: w1_def)
  have "counted (refs_to (shared w)) (shared w1 ! k)"
    using counted_mono [OF counted_nth [OF k1], of "control_block (shared w ! i)"] unfolding add .
  from decrement_strong_ok [OF s(2) this] obtain s' where
    s': "decrement_strong (shared w1 ! k) s = Some s'"
      "refs_ok s' (sub_ref (refs_to (shared w)) (control_block (shared w1 ! k))) (refs_to (weaks w))" "same_links s s'" by blast
  have e: "extends s s'" using same_links_extends [OF s'(3)] .
  let ?w = "w1\<lparr>mem := s', shared := (shared w1)[k := shared w ! i]\<rparr>"
  have "refs_ok (mem ?w) (refs_to (shared ?w)) (refs_to (weaks ?w))"
    using s'(2) refs_to_simps(2) [OF k1, of "shared w ! i"] unfolding add by (simp add: w1_def)
  moreover have "pointer_ok s' h" if "h \<in> set ((shared w1)[k := shared w ! i]) \<union> set (weaks w)" for h
    using that po s(3) pointer_ok_extends [OF _ e] set_update_subset_insert [of "shared w1" k "shared w ! i"] by blast
  moreover have "weak_this_ok s'" using weak_this_extend [OF w extends_trans [OF s(4) e]] .
  ultimately have "world_ok ?w" unfolding world_ok_def by (simp add: w1_def)
  moreover have "exec (Shared_assign_move k i) w = Some ?w"
    using s(1) s'(1) by (simp add: set_shared_def swap_and_drop_def SharedPtr_dtor_def w1_def)
  ultimately show "runs (exec (Shared_assign_move k i) w)" by (rule runsI [rotated])
qed

lemma weak_moves_run:
  assumes w: "world_ok w" and r: "roomy 4 (mem w)" and i: "i < length (weaks w)"
  shows "runs (exec (Weak_move i) w)"
    and "runs (exec (Weak_move_virtual i) w)"
    and "k < length (weaks w) \<Longrightarrow> runs (exec (Weak_assign_move k i) w)"
proof -
  have base: "WeakPtr_move (weaks w ! i) = Some (weaks w ! i, null_ptr)"
    using SmartPtrBase_copy_ok [OF world_ok_nth(2) [OF w i]]
    by (simp add: WeakPtr_move_def SmartPtrBase_move_def SmartPtrBase_copy_def)
  show "runs (exec (Weak_move i) w)"
    using base move_world_ok(2) [OF w world_okD [OF w] extends_refl world_ok_nth(2) [OF w i] i] by (intro runsI) simp_all
  from WeakPtr_convert_move_virtual_ok [OF world_okD [OF w] counted_nth [OF i] world_ok_nth(2) [OF w i] roomy_less(1) [OF r]]
  obtain h s where s: "WeakPtr_convert_move_virtual (weaks w ! i) (mem w) = Some (h, null_ptr, s)"
    "control_block h = control_block (weaks w ! i)"
    "refs_ok s (refs_to (shared w)) (refs_to (weaks w))" "pointer_ok s h" "extends (mem w) s" by blast
  show "runs (exec (Weak_move_virtual i) w)"
    using s(1) move_world_ok(2) [OF w s(3,5,4) i s(2)] by (intro runsI) simp_all
  assume k: "k < length (weaks w)"
  define w1 where "w1 = w\<lparr>weaks := (weaks w)[i := null_ptr]\<rparr>"
  have add: "add_ref (refs_to (weaks w1)) (control_block (weaks w ! i)) = refs_to (weaks w)"
    using refs_to_move [OF i, of "weaks w ! i"] by (simp add: w1_def refs_to_simps(1))
  have k1: "k < length (weaks w1)" using k by (simp add: w1_def)
  have "counted (refs_to (weaks w)) (weaks w1 ! k)"
    using counted_mono [OF counted_nth [OF k1], of "control_block (weaks w ! i)"] unfolding add .
  from decrement_weak_ok [OF world_okD [OF w] this] obtain s' where
    s': "decrement_weak (weaks w1 ! k) (mem w) = Some s'"
      "refs_ok s' (refs_to (shared w)) (sub_ref (refs_to (weaks w)) (control_block (weaks w1 ! k)))" "same_shape (mem w) s'" by blast
  have e: "extends (mem w) s'" using same_shape_extends [OF s'(3)] .
  let ?w = "w1\<lparr>mem := s', weaks := (weaks w1)[k := weaks w ! i]\<rparr>"
  have "refs_ok (mem ?w) (refs_to (shared ?w)) (refs_to (weaks ?w))"
    using s'(2) refs_to_simps(2) [OF k1, of "weaks w ! i"] unfolding add by (simp add: w1_def)
  moreover have "pointer_ok s' h" if "h \<in> set (shared w) \<union> set ((weaks w1)[k := weaks w ! i])" for h
  proof -
    have "set ((weaks w1)[k := weaks w ! i]) \<subseteq> insert (weaks w ! i) (insert null_ptr (set (weaks w)))"
      using set_update_subset_insert [of "weaks w1" k "weaks w ! i"] set_update_subset_insert [of "weaks w" i null_ptr]
      by (auto simp: w1_def)
    then have "h \<in> set (shared w) \<union> set (weaks w) \<or> h = null_ptr" using that nth_mem [OF i] by blast
    then show ?thesis using pointers_extend [OF w e] by auto
  qed
  moreover have "weak_this_ok s'" using weak_this_extend [OF w e] .
  ultimately have "world_ok ?w" unfolding world_ok_def by (simp add: w1_def)
  moreover have "exec (Weak_assign_move k i) w = Some ?w"
    using base s'(1) by (simp add: set_weak_def weak_swap_and_drop_def WeakPtr_dtor_def w1_def)
  ultimately show "runs (exec (Weak_assign_move k i) w)" by (rule runsI [rotated])
qed

lemma dtors_run:
  assumes w: "world_ok w"
  shows "i < length (shared w) \<Longrightarrow> runs (exec (Shared_dtor i) w)"
    and "i < length (weaks w) \<Longrightarrow> runs (exec (Weak_dtor i) w)"
proof -
  show "runs (exec (Shared_dtor i) w)" if i: "i < length (shared w)"
  proof -
    from decrement_strong_ok [OF world_okD [OF w] counted_nth [OF i]] obtain s where
      s: "decrement_strong (shared w ! i) (mem w) = Some s"
        "refs_ok s (sub_ref (refs_to (shared w)) (control_block (shared w ! i))) (refs_to (weaks w))" "same_links (mem w) s" by blast
    have "world_ok (w\<lparr>mem := s, shared := remove_nth i (shared w)\<rparr>)"
      using s(2) pointers_extend [OF w same_links_extends [OF s(3)]] weak_this_extend [OF w same_links_extends [OF s(3)]] set_remove_nth [of i "shared w"]
      by (auto simp: world_ok_def refs_to_simps(3) [OF i])
    then show ?thesis using s(1) by (intro runsI) (simp_all add: SharedPtr_dtor_def)
  qed
  show "runs (exec (Weak_dtor i) w)" if i: "i < length (weaks w)"
  proof -
    from decrement_weak_ok [OF world_okD [OF w] counted_nth [OF i]] obtain s where
      s: "decrement_weak (weaks w ! i) (mem w) = Some s"
        "refs_ok s (refs_to (shared w)) (sub_ref (refs_to (weaks w)) (control_block (weaks w ! i)))" "same_shape (mem w) s" by blast
    have "world_ok (w\<lparr>mem := s, weaks := remove_nth i (weaks w)\<rparr>)"
      using s(2) pointers_extend [OF w same_shape_extends [OF s(3)]] weak_this_extend [OF w same_shape_extends [OF s(3)]] set_remove_nth [of i "weaks w"]
      by (auto simp: world_ok_def refs_to_simps(3) [OF i])
    then show ?thesis using s(1) by (intro runsI) (simp_all add: WeakPtr_dtor_def)
  qed
qed

lemma swaps_run:
  assumes w: "world_ok w"
  shows "i < length (shared w) \<Longrightarrow> j < length (shared w) \<Longrightarrow> runs (exec (Shared_swap i j) w)"
    and "i < length (weaks w) \<Longrightarrow> j < length (weaks w) \<Longrightarrow> runs (exec (Weak_swap i j) w)"
proof -
  have mem: "set (hs[i := hs ! j, j := hs ! i]) \<subseteq> set hs" if "i < length hs" "j < length hs" for hs :: "smart_ptr list"
    using that by (metis mset_eq_setD mset_swap order_refl)
  show "runs (exec (Shared_swap i j) w)" if ij: "i < length (shared w)" "j < length (shared w)"
  proof (rule runsI)
    show "exec (Shared_swap i j) w = Some (w\<lparr>shared := (shared w)[i := shared w ! j, j := shared w ! i]\<rparr>)" by simp
    show "world_ok (w\<lparr>shared := (shared w)[i := shared w ! j, j := shared w ! i]\<rparr>)"
      using w refs_to_swap [OF ij] mem [OF ij] by (auto simp: world_ok_def)
  qed
  show "runs (exec (Weak_swap i j) w)" if ij: "i < length (weaks w)" "j < length (weaks w)"
  proof (rule runsI)
    show "exec (Weak_swap i j) w = Some (w\<lparr>weaks := (weaks w)[i := weaks w ! j, j := weaks w ! i]\<rparr>)" by simp
    show "world_ok (w\<lparr>weaks := (weaks w)[i := weaks w ! j, j := weaks w ! i]\<rparr>)"
      using w refs_to_swap [OF ij] mem [OF ij] by (auto simp: world_ok_def)
  qed
qed

lemma from_weak_runs:
  assumes w: "world_ok w" and r: "roomy 4 (mem w)"
    and p: "counted (refs_to (shared w)) p \<or> counted (refs_to (weaks w)) p" "pointer_ok (mem w) p"
  shows "runs (do { (r, s) \<leftarrow> SharedPtr_from_weak p (mem w);
    Some (case r of Inl _ \<Rightarrow> w\<lparr>mem := s\<rparr> | Inr h \<Rightarrow> w\<lparr>mem := s, shared := shared w @ [h]\<rparr>) })"
proof -
  from SharedPtr_from_weak_ok [OF world_okD [OF w] p roomy_less(3) [OF r]] obtain x s where
    s: "SharedPtr_from_weak p (mem w) = Some (x, s)" "pointer_ok s p" "extends (mem w) s"
      "x = Inr p \<and> refs_ok s (add_ref (refs_to (shared w)) (control_block p)) (refs_to (weaks w)) \<or>
       x = Inl () \<and> refs_ok s (refs_to (shared w)) (refs_to (weaks w))" by (auto split: if_splits)
  have "world_ok (case x of Inl _ \<Rightarrow> w\<lparr>mem := s\<rparr> | Inr h \<Rightarrow> w\<lparr>mem := s, shared := shared w @ [h]\<rparr>)"
    using s(2,4) pointers_extend [OF w s(3)] weak_this_extend [OF w s(3)] by (auto simp: world_ok_def refs_to_simps(1))
  then show ?thesis using s(1) by (intro runsI) simp_all
qed

lemma New_object_runs:
  assumes w: "world_ok w" and a: "allowed (New_object a esft) w"
  shows "runs (exec (New_object a esft) w)"
proof -
  define s where "s = mem w"
  define s' where "s' = s\<lparr>objs := (objs s)(a \<mapsto> \<lparr>alive = True, weak_this = (if esft then Some null_ptr else None)\<rparr>)\<rparr>"
  have none: "objs s a = None" and nb: "\<And>b c. blocks s b = Some c \<Longrightarrow> block_ptr c \<noteq> Some a"
    using a by (auto simp: s_def)
  from world_okD [OF w] obtain R where wk: "weak_at s R (weak_total s (refs_to (shared w)) (refs_to (weaks w)))"
    and st: "strong_at s (refs_to (shared w))" and o: "objs_at s (refs_to (shared w))"
    and f: "fresh_zero s (refs_to (shared w)) (refs_to (weaks w))" unfolding s_def by (rule refs_okE)
  have "esft_ref s' b = esft_ref s b" for b
    using nb [of b] by (auto simp: esft_ref_def s'_def split: option.splits)
  then have "weak_total s' N M = weak_total s N M" for N M by (simp add: weak_total_def fun_eq_iff)
  moreover have "weak_at s' R W = weak_at s R W" for W by (rule weak_at_cong) (simp_all add: s'_def)
  moreover have "strong_at s' (refs_to (shared w))"
    by (rule strong_at_cong [OF st]) (simp_all add: s'_def strong_view_def)
  moreover have "objs_at s' (refs_to (shared w))" unfolding objs_at_def
  proof (intro conjI allI impI)
    fix x x' y y' z
    assume "blocks s' x = Some y \<and> blocks s' x' = Some y' \<and> block_ptr y = Some z \<and> block_ptr y' = Some z"
    then show "x = x'" using objs_atD(1) [OF o] by (auto simp: s'_def)
  next
    fix x y z
    assume "blocks s' x = Some y \<and> block_ptr y = Some z \<and> ends y"
    then show "\<exists>ob. objs s' z = Some ob \<and> (alive ob \<longleftrightarrow> 0 < refs_to (shared w) x)"
      using objs_atD(2) [OF o, of x y z] nb [of x y] by (auto simp: s'_def)
  next
    fix z ob v x
    assume "objs s' z = Some ob \<and> weak_this ob = Some v \<and> control_block v = Some x"
    then show "\<exists>c. blocks s' x = Some c \<and> block_ptr c = Some z \<and> ends c"
      using objs_atD(3) [OF o, of z ob v x] by (cases "z = a") (auto simp: s'_def split: if_splits)
  qed
  moreover have "fresh_zero s' (refs_to (shared w)) (refs_to (weaks w))"
    by (rule fresh_zero_cong [OF f]) (simp_all add: s'_def)
  ultimately have "refs_ok s' (refs_to (shared w)) (refs_to (weaks w))" using wk unfolding refs_ok_def by auto
  moreover have "pointer_ok s' h" if "h \<in> set (shared w) \<union> set (weaks w)" for h
  proof -
    have "ptr h \<noteq> Some a" "pointer_ok s h" using a w that by (auto simp: world_ok_def s_def)
    then show ?thesis by (auto simp: pointer_ok_def has_weak_this_def owns_def s'_def)
  qed
  moreover have "weak_this_ok s'" using w by (auto simp: world_ok_def weak_this_ok_def s'_def s_def)
  ultimately have "world_ok (w\<lparr>mem := s'\<rparr>)" unfolding world_ok_def by auto
  then show ?thesis by (intro runsI [of _ "w\<lparr>mem := s'\<rparr>"]) (simp_all add: s'_def s_def)
qed

lemma weak_this_counted:
  assumes w: "world_ok w" and "get_weak_this a (mem w) = Some p"
  shows "counted (refs_to (shared w)) p" and "pointer_ok (mem w) p"
proof -
  let ?N = "refs_to (shared w)" and ?s = "mem w"
  from world_okD [OF w] have o: "objs_at ?s ?N" by (rule refs_okE)
  from assms(2) obtain ob where ob: "objs ?s a = Some ob" "alive ob" "weak_this ob = Some p"
    by (auto simp: get_weak_this_def split: option.splits bind_splits if_splits)
  have ow: "owns ?s b a" if "control_block p = Some b" for b
    using objs_atD(3) [OF o ob(1,3) that] by (auto simp: owns_def)
  show "counted ?N p" unfolding counted_def
  proof (intro allI impI)
    fix b assume "control_block p = Some b"
    then obtain c where "blocks ?s b = Some c" "block_ptr c = Some a" "ends c" using ow by (auto simp: owns_def)
    from objs_atD(2) [OF o this] ob show "0 < ?N b" by auto
  qed
  have "(ptr p = None \<or> ptr p = Some a) \<and> (control_block p = None \<longrightarrow> ptr p = None)"
    using w ob unfolding world_ok_def weak_this_ok_def by blast
  then show "pointer_ok ?s p" using ow by (cases "control_block p") (auto simp: pointer_ok_def)
qed

lemma exec_runs:
  assumes w: "world_ok w" and r: "roomy 4 (mem w)" and a: "allowed c w" and u: "\<not> uncounted c"
  shows "runs (exec c w)"
proof (cases c)
  case (New_object x y)
  then show ?thesis using New_object_runs [OF w] a by blast
next
  case (Shared_from_weak j)
  then show ?thesis using from_weak_runs [OF w r _ world_ok_nth(2) [OF w]] a counted_nth by simp
next
  case (From_this x)
  then obtain p where p: "get_weak_this x (mem w) = Some p" using a by auto
  then show ?thesis using From_this from_weak_runs [OF w r _ weak_this_counted(2) [OF w p]] weak_this_counted(1) [OF w p]
    by (simp add: shared_from_this_def)
next
  case (Weak_from_this_const x)
  then obtain p where p: "get_weak_this x (mem w) = Some p" using a by auto
  have "makes_weak (mem w) (refs_to (shared w)) (refs_to (weaks w)) (WeakPtr_convert p (mem w))"
    by (rule WeakPtr_from_shared_makes(2) [OF world_okD [OF w] _ weak_this_counted(2) [OF w p] roomy_less(1) [OF r]])
      (use weak_this_counted(1) [OF w p] in blast)
  then show ?thesis using Weak_from_this_const p push_weak_runs [OF w] by (simp add: weak_from_this_const_def)
qed (use a u shared_constructors_run [OF w r] weak_constructors_run [OF w r] shared_assignments_run [OF w r]
    Shared_reset_runs [OF w] weak_assignments_run [OF w r] shared_moves_run [OF w r] weak_moves_run [OF w r]
    dtors_run [OF w] swaps_run [OF w] in \<open>simp_all del: exec.simps\<close>)

section \<open>What the pointers promise\<close>

definition new_memory :: "u32 \<Rightarrow> memory" where
  "new_memory P = \<lparr>blocks = \<lambda>_. None, next_block = 0, objs = \<lambda>_. None, disposals = [],
     haz = snd (get_slot P (HazardPointers P)), me = fst (get_slot P (HazardPointers P))\<rparr>"

definition new_world :: "u32 \<Rightarrow> world" where
  "new_world P = \<lparr>mem = new_memory P, shared = [], weaks = []\<rparr>"

definition pointer_step :: "world \<Rightarrow> world \<Rightarrow> bool" where
  "pointer_step w w' \<longleftrightarrow> (\<exists>c. allowed c w \<and> \<not> uncounted c \<and> roomy 4 (mem w) \<and> exec c w = Some w')"

lemma new_hazards_view:
  "hazards_view (snd (get_slot P (HazardPointers P))) (\<lambda>_. no_objects) (\<lambda>_. [])"
  by (auto simp: hazards_view_def slot_view_def get_slot_def HazardPointers_def HazardSlot_def no_objects_def objects_def
      rlist_RetiredList nth_Cons split: nat.splits)

lemma new_reclaim_ok: "reclaim_ok (fst (get_slot P (HazardPointers P))) (snd (get_slot P (HazardPointers P))) {}"
proof -
  have "fst (get_slot P (HazardPointers P)) = 0" "0 < length (slots (snd (get_slot P (HazardPointers P))))"
    "destroyed (garbage_of (snd (get_slot P (HazardPointers P)))) = []"
    by (simp_all add: get_slot_def HazardPointers_def HazardSlot_def)
  then show ?thesis using new_hazards_view [of P] unfolding reclaim_ok_def
    by (auto simp: objects_def no_objects_def intro!: exI [of _ "\<lambda>_. no_objects"] exI [of _ "\<lambda>_. []"])
qed

interpretation pp: transition_invariant "\<lambda>w. \<exists>P. w = new_world P" pointer_step world_ok
proof
  fix w assume "\<exists>P. w = new_world P"
  then obtain P where "w = new_world P" ..
  moreover have "weak_at (new_memory P) {} W" for W
    using new_reclaim_ok [of P] by (simp add: weak_at_def new_memory_def)
  ultimately show "world_ok w"
    by (auto simp: world_ok_def refs_ok_def strong_at_def objs_at_def fresh_zero_def weak_this_ok_def new_world_def
        new_memory_def refs_to_def)
next
  fix w w' assume "world_ok w" "pointer_step w w'"
  then obtain c where "allowed c w" "\<not> uncounted c" "roomy 4 (mem w)" "exec c w = Some w'" by (auto simp: pointer_step_def)
  then show "world_ok w'" using exec_runs [OF \<open>world_ok w\<close>, of c] by (simp add: runs_def)
qed

lemma esft_ref_zero:
  assumes "objs_at s N" and "blocks s b = Some c" and "N b = 0"
  shows "esft_ref s b = 0"
proof (cases "ends c")
  case True
  have "\<not> alive ob" if "block_ptr c = Some a" "objs s a = Some ob" for a ob
    using objs_atD(2) [OF assms(1,2) that(1) True] that(2) assms(3) by auto
  then show ?thesis using assms(2) by (auto simp: esft_ref_def split: option.splits)
qed (use esft_ref_ends [OF assms(1,2)] in simp)

text \<open>The state of every block, in terms of the variables.\<close>

lemma block_state:
  assumes w: "world_ok w" and c: "blocks (mem w) b = Some c"
  shows "b \<in> set (disposals (mem w)) \<longleftrightarrow> refs_to (shared w) b = 0"
    and "0 < refs_to (shared w) b \<Longrightarrow> unat (strong_count c) = refs_to (shared w) b"
    and "linked c \<longleftrightarrow> refs_to (shared w) b = 0 \<and> refs_to (weaks w) b = 0"
    and "b \<in> freed_blocks (mem w) \<Longrightarrow> linked c"
proof -
  let ?N = "refs_to (shared w)" and ?M = "refs_to (weaks w)" and ?s = "mem w"
  from world_okD [OF w] obtain R where wk: "weak_at ?s R (weak_total ?s ?N ?M)" and st: "strong_at ?s ?N"
    and o: "objs_at ?s ?N" by (rule refs_okE)
  show "b \<in> set (disposals ?s) \<longleftrightarrow> ?N b = 0" using strong_atD [OF st c] by (cases "0 < ?N b") auto
  show "unat (strong_count c) = ?N b" if "0 < ?N b" using strong_atD(1) [OF st c that] by (auto simp: holds_def)
  have "linked c \<longleftrightarrow> weak_total ?s ?N ?M b = 0" using weak_atD(2,3) [OF wk c] by simp
  then show "linked c \<longleftrightarrow> ?N b = 0 \<and> ?M b = 0" using esft_ref_zero [OF o c] by (auto simp: weak_total_def)
  have "reclaim_ok (me ?s) (haz ?s) R" using wk unfolding weak_at_def by blast
  then have "freed_blocks ?s \<subseteq> R" by (rule hz.gone_retired)
  then show "linked c" if "b \<in> freed_blocks ?s" using that weak_atD(3) [OF wk c] by blast
qed

text \<open>C3. For every program over \<open>SharedPtr\<close> and \<open>WeakPtr\<close>, run by one thread, that follows the rules of the
  language, makes no \<open>WeakPtr\<close> with the copy constructor of \<open>WeakPtr\<close> itself (by a copy, a copy
  assignment or \<open>weak_from_this\<close>, \<open>uncounted\<close>) and before each operation has four references of
  room left in both counts of every block (\<open>roomy 4\<close>): no operation fails an assertion or touches anything
  destroyed; the strong count of a live block is the number of \<open>SharedPtr\<close> variables that share it;
  a managed object is disposed of once, exactly when the last of them is gone; and the block is
  retired exactly when no variable refers to it any more, so never before.\<close>

theorem reference_counts_exact:
  assumes "reachable (\<lambda>w. \<exists>P. w = new_world P) pointer_step w"
  shows "(allowed cmd w \<and> \<not> uncounted cmd \<and> roomy 4 (mem w) \<longrightarrow> exec cmd w \<noteq> None) \<and> distinct (disposals (mem w)) \<and>
    (blocks (mem w) b = Some c \<longrightarrow>
       (b \<in> set (disposals (mem w)) \<longleftrightarrow> refs_to (shared w) b = 0) \<and>
       (0 < refs_to (shared w) b \<longrightarrow> unat (strong_count c) = refs_to (shared w) b) \<and>
       (linked c \<longleftrightarrow> refs_to (shared w) b = 0 \<and> refs_to (weaks w) b = 0) \<and>
       (b \<in> freed_blocks (mem w) \<longrightarrow> linked c))"
proof -
  have w: "world_ok w" using assms by (rule pp.reachable_inv)
  have "distinct (disposals (mem w))" using world_okD [OF w] by (auto simp: refs_ok_def strong_at_def)
  moreover have "exec cmd w \<noteq> None" if "allowed cmd w" "\<not> uncounted cmd" "roomy 4 (mem w)"
    using exec_runs [OF w that(3,1,2)] by (auto simp: runs_def)
  ultimately show ?thesis using block_state [OF w] by blast
qed

lemma run_steps:
  "reachable (\<lambda>w. \<exists>P. w = new_world P) pointer_step w \<Longrightarrow> allowed c w \<Longrightarrow> \<not> uncounted c \<Longrightarrow> roomy 4 (mem w) \<Longrightarrow> exec c w = Some w' \<Longrightarrow>
   reachable (\<lambda>w. \<exists>P. w = new_world P) pointer_step w'"
  by (rule reachable_step) (auto simp: pointer_step_def)

text \<open>A program that makes an object, a pointer to it and a weak pointer.\<close>

lemma example_program:
  "\<exists>w c. reachable (\<lambda>w. \<exists>P. w = new_world P) pointer_step w \<and> roomy 4 (mem w) \<and> blocks (mem w) 0 = Some c \<and> block_ptr c = Some 7 \<and>
     shared w = [\<lparr>ptr = Some 7, control_block = Some 0\<rparr>] \<and> weaks w = [\<lparr>ptr = Some 7, control_block = Some 0\<rparr>]"
proof -
  define w1 where "w1 = (new_world 1)\<lparr>mem := (new_memory 1)\<lparr>objs := [7 \<mapsto> \<lparr>alive = True, weak_this = None\<rparr>]\<rparr>\<rparr>"
  define c where "c = \<lparr>strong_count = 1, weak_count = 1, kind = ControlBlockWithPtr, block_ptr = Some 7, linked = False\<rparr>"
  define w2 where "w2 = w1\<lparr>mem := (mem w1)\<lparr>blocks := [0 \<mapsto> c], next_block := 1\<rparr>,
    shared := [\<lparr>ptr = Some 7, control_block = Some 0\<rparr>]\<rparr>"
  define w3 where "w3 = w2\<lparr>mem := (mem w2)\<lparr>blocks := [0 \<mapsto> c\<lparr>weak_count := 2\<rparr>]\<rparr>,
    weaks := [\<lparr>ptr = Some 7, control_block = Some 0\<rparr>]\<rparr>"
  have fr: "freed_blocks (new_memory 1) = {}" by (simp add: new_memory_def get_slot_def HazardPointers_def HazardSlot_def)
  have "reachable (\<lambda>w. \<exists>P. w = new_world P) pointer_step (new_world 1)" by (rule reachable_init) blast
  then have "reachable (\<lambda>w. \<exists>P. w = new_world P) pointer_step w1"
    by (rule run_steps [where c = "New_object 7 False"])
      (simp_all add: new_world_def new_memory_def w1_def roomy_def room_def)
  then have "reachable (\<lambda>w. \<exists>P. w = new_world P) pointer_step w2"
    by (rule run_steps [where c = "Shared_raw (Some 7)"])
      (simp_all add: new_world_def new_memory_def w1_def w2_def c_def roomy_def room_def giveable_def unowned_def push_shared_def
        SharedPtr_raw_def ControlBlockBase_def set_ptrs_and_esft_def)
  then have "reachable (\<lambda>w. \<exists>P. w = new_world P) pointer_step w3"
    by (rule run_steps [where c = "Weak_from_shared 0"])
      (use fr in \<open>simp_all add: new_world_def w1_def w2_def w3_def c_def roomy_def room_def push_weak_def WeakPtr_from_shared_def
        SmartPtrBase_copy_def SmartPtrBase_def increment_weak_def increment_weak_count_def get_block_def set_block_def\<close>)
  moreover have "roomy 4 (mem w3)" by (simp add: w3_def c_def roomy_def room_def)
  ultimately show ?thesis by (intro exI [of _ w3]) (simp add: w2_def w3_def c_def)
qed

lemma reference_counts_exact_witness:
  "\<exists>w. exec (Shared_dtor 0) w \<noteq> None \<and> refs_to (shared w) 0 = 1 \<and> 0 \<notin> set (disposals (mem w))"
proof -
  from example_program obtain w c where w: "reachable (\<lambda>w. \<exists>P. w = new_world P) pointer_step w" "roomy 4 (mem w)"
    "blocks (mem w) 0 = Some c" "shared w = [\<lparr>ptr = Some 7, control_block = Some 0\<rparr>]" by blast
  have one: "refs_to (shared w) 0 = 1" using w(4) by (simp add: refs_to_def)
  have "allowed (Shared_dtor 0) w" using w(4) by simp
  then have "exec (Shared_dtor 0) w \<noteq> None" "0 \<notin> set (disposals (mem w))"
    using reference_counts_exact [OF w(1), of "Shared_dtor 0" 0 c] w(2,3) one by (simp_all del: exec.simps)
  then show ?thesis using one by blast
qed

text \<open>A weak pointer gives access exactly as long as the object is there: \<open>lock\<close> returns a pointer that shares
  it, \<open>expired\<close> says no and the throwing constructor succeeds if the object was not disposed of;
  otherwise \<open>lock\<close> returns null, \<open>expired\<close> says yes and the constructor throws.\<close>

theorem weak_ptr_access:
  assumes "reachable (\<lambda>w. \<exists>P. w = new_world P) pointer_step w" and "roomy 4 (mem w)" and "j < length (weaks w)"
    and "control_block (weaks w ! j) = Some b"
  shows "\<exists>s s'. if b \<in> set (disposals (mem w))
    then lock (weaks w ! j) (mem w) = Some (null_ptr, s) \<and> expired (weaks w ! j) (mem w) = Some (True, mem w) \<and>
         SharedPtr_from_weak (weaks w ! j) (mem w) = Some (Inl (), s')
    else lock (weaks w ! j) (mem w) = Some (weaks w ! j, s) \<and> expired (weaks w ! j) (mem w) = Some (False, mem w) \<and>
         SharedPtr_from_weak (weaks w ! j) (mem w) = Some (Inr (weaks w ! j), s')"
proof -
  let ?N = "refs_to (shared w)" and ?p = "weaks w ! j"
  have w: "world_ok w" using assms(1) by (rule pp.reachable_inv)
  note ok = world_okD [OF w] and c = counted_nth [OF assms(3)] and po = world_ok_nth(2) [OF w assms(3)]
  have "0 < refs_to (weaks w) b" using c assms(4) by (simp add: counted_def)
  then obtain cb where "blocks (mem w) b = Some cb" using refs_get [OF ok] by blast
  then have d: "b \<in> set (disposals (mem w)) \<longleftrightarrow> ?N b = 0" using block_state(1) [OF w] by blast
  obtain s where s: "lock ?p (mem w) = Some (if 0 < ?N b then ?p else null_ptr, s)"
    using lock_makes(2) [OF ok c po roomy_less(1) [OF assms(2)]] assms(4) by auto
  obtain v where "use_count ?p (mem w) = Some (v, mem w)" "unat v = ?N b"
    using use_count_ok [OF ok disjI2 [OF c]] assms(4) by auto
  then have e: "expired ?p (mem w) = Some (?N b = 0, mem w)" by (auto simp: expired_def unat_eq_0)
  obtain r s' where "SharedPtr_from_weak ?p (mem w) = Some (r, s')" "r = (if 0 < ?N b then Inr ?p else Inl ())"
    using SharedPtr_from_weak_ok [OF ok disjI2 [OF c] po roomy_less(3) [OF assms(2)]] assms(4) by (auto split: if_splits)
  then show ?thesis using s e d by (cases "?N b = 0") auto
qed

lemma weak_ptr_access_witness:
  "\<exists>w s. reachable (\<lambda>w. \<exists>P. w = new_world P) pointer_step w \<and> lock (weaks w ! 0) (mem w) = Some (weaks w ! 0, s)"
proof -
  from example_program obtain w c where w: "reachable (\<lambda>w. \<exists>P. w = new_world P) pointer_step w" "roomy 4 (mem w)"
    "blocks (mem w) 0 = Some c" "shared w = [\<lparr>ptr = Some 7, control_block = Some 0\<rparr>]"
    "weaks w = [\<lparr>ptr = Some 7, control_block = Some 0\<rparr>]" by blast
  have ok: "world_ok w" using w(1) by (rule pp.reachable_inv)
  have "refs_to (shared w) 0 = 1" using w(4) by (simp add: refs_to_def)
  then have "0 \<notin> set (disposals (mem w))" using block_state(1) [OF ok w(3)] by simp
  then show ?thesis using weak_ptr_access [OF w(1,2), of 0 0] w(1,5) by auto
qed

section \<open>Two defects\<close>

text \<open>A memory with one live object at address 7, and a cleanup due at the next retirement.\<close>

definition example_memory :: memory where
  "example_memory = \<lparr>blocks = \<lambda>_. None, next_block = 0, objs = [7 \<mapsto> \<lparr>alive = True, weak_this = None\<rparr>], disposals = [],
     haz = \<lparr>slots = [\<lparr>protected_ptr = None, slot_retired = RetiredList, num_retires_since_cleanup = 1999, in_use = True,
                      deamortized_reclaimer = None\<rparr>],
            mode = amortized_reclamation, protection_order = memory_order_relaxed,
            garbage_of = \<lparr>next_of = \<lambda>_. None, destroyed = []\<rparr>\<rparr>,
     me = 0\<rparr>"

text \<open>Make a \<open>SharedPtr\<close> and a \<open>WeakPtr\<close> to it, copy the weak pointer, and destroy both weak pointers.\<close>

definition weak_copy_program :: "(smart_ptr \<Rightarrow> memory \<Rightarrow> (smart_ptr \<times> memory) option) \<Rightarrow> (smart_ptr \<times> memory) option" where
  "weak_copy_program copy = do {
     (p, s) \<leftarrow> SharedPtr_raw (Some 7) example_memory;
     (w, s) \<leftarrow> WeakPtr_from_shared p s;
     (w', s) \<leftarrow> copy w s;
     s \<leftarrow> WeakPtr_dtor w' s;
     s \<leftarrow> WeakPtr_dtor w s;
     Some (p, s)
   }"

text \<open>
  There the control block is destroyed while the \<open>SharedPtr\<close> still shares it, and the destructor of that
  \<open>SharedPtr\<close> uses it after that. With the converting constructor, which counts, nothing goes wrong.
\<close>

lemma weak_copy_freed_example:
  "map_option (\<lambda>(p, s). (destroyed (garbage_of (haz s)), SharedPtr_dtor p s = None)) (weak_copy_program WeakPtr_copy) =
     Some ([0], True) \<and>
   map_option (\<lambda>(p, s). (destroyed (garbage_of (haz s)), SharedPtr_dtor p s = None)) (weak_copy_program WeakPtr_convert) =
     Some ([], False)"
  by code_simp

text \<open>A program: each command has to be allowed when it is reached.\<close>

fun run_program :: "command list \<Rightarrow> world \<Rightarrow> world option" where
  "run_program [] w = Some w"
| "run_program (c # cs) w = (if allowed c w then exec c w \<bind> run_program cs else None)"

text \<open>Copying a weak pointer and destroying the copy takes one from the weak count and changes no variable.\<close>

lemma copy_and_drop:
  assumes "weak_at (mem w) R W" and "blocks (mem w) b = Some c" and "0 < W b" and "j < length (weaks w)"
    and "weaks w ! j = \<lparr>ptr = p, control_block = Some b\<rparr>"
  shows "\<exists>s R' c'. run_program ([Weak_copy j, Weak_dtor (length (weaks w))] @ cs) w = run_program cs (w\<lparr>mem := s\<rparr>) \<and>
    weak_at s R' (W(b := W b - 1)) \<and> disposals s = disposals (mem w) \<and> blocks s b = Some c'"
proof -
  from decrement_weak_at [OF assms(1-3)] obtain s R' where
    s: "decrement_weak_count b (mem w) = Some s" "weak_at s R' (W(b := W b - 1))" "same_strong (mem w) s" by blast
  have v: "strong_view s = strong_view (mem w)" "disposals s = disposals (mem w)" using s(3) by (simp_all add: same_strong_def)
  then obtain c' where "blocks s b = Some c'" using assms(2) by (auto simp: strong_view_def fun_eq_iff dest!: spec [of _ b] split: option.splits)
  moreover have "remove_nth (length (weaks w)) (weaks w @ [h]) = weaks w" for h by (simp add: remove_nth_def)
  then have "run_program ([Weak_copy j, Weak_dtor (length (weaks w))] @ cs) w = run_program cs (w\<lparr>mem := s\<rparr>)"
    using assms(4,5) s(1)
    by (simp add: push_weak_def WeakPtr_copy_def SmartPtrBase_copy_def SmartPtrBase_def WeakPtr_dtor_def decrement_weak_def)
  ultimately show ?thesis using s(2) v(2) by blast
qed

lemma copy_and_drop_all:
  assumes "weak_at (mem w) R W" and "blocks (mem w) b = Some c" and "j < length (weaks w)"
    and "weaks w ! j = \<lparr>ptr = p, control_block = Some b\<rparr>"
  shows "\<exists>s c'. run_program (concat (replicate (W b) [Weak_copy j, Weak_dtor (length (weaks w))])) w = Some (w\<lparr>mem := s\<rparr>) \<and>
    disposals s = disposals (mem w) \<and> blocks s b = Some c' \<and> linked c'"
  using assms
proof (induction "W b" arbitrary: w R W c)
  case 0
  then have "linked c" using weak_atD(2,3) [OF 0(2,3)] by simp
  then show ?case using 0 by (intro exI [of _ "mem w"]) auto
next
  case (Suc n)
  let ?p = "[Weak_copy j, Weak_dtor (length (weaks w))]"
  obtain s R' c' where s: "run_program (?p @ concat (replicate n ?p)) w = run_program (concat (replicate n ?p)) (w\<lparr>mem := s\<rparr>)"
    "weak_at s R' (W(b := W b - 1))" "disposals s = disposals (mem w)" "blocks s b = Some c'"
    using copy_and_drop [OF Suc.prems(1,2) _ Suc.prems(3,4), of "concat (replicate n ?p)"] Suc.hyps(2) by (metis zero_less_Suc)
  have "\<exists>s' d. run_program (concat (replicate n ?p)) (w\<lparr>mem := s\<rparr>) = Some (w\<lparr>mem := s'\<rparr>) \<and>
      disposals s' = disposals s \<and> blocks s' b = Some d \<and> linked d"
    using Suc.hyps(1) [of "W(b := W b - 1)" "w\<lparr>mem := s\<rparr>" R' c'] s(2,4) Suc.hyps(2) [symmetric] Suc.prems(3,4) by simp
  then show ?case using s(1,3) unfolding Suc.hyps(2) [symmetric] by (simp only: replicate.simps concat.simps)
qed

text \<open>C32. The copy constructor of \<open>WeakPtr\<close> does not count the copy, but its destructor counts down. After any
  program as in C3, for any block that a \<open>SharedPtr\<close> variable shares and a \<open>WeakPtr\<close> variable watches: copying that weak
  pointer and destroying the copy, as often as the weak count says, is possible and leaves the same variables as before
  with the control block retired, though the object it manages was not disposed of and the \<open>SharedPtr\<close>
  variables still use the block.\<close>

theorem weak_copy_retires_shared_block:
  assumes "reachable (\<lambda>w. \<exists>P. w = new_world P) pointer_step w" and "j < length (weaks w)"
    and "control_block (weaks w ! j) = Some b" and "0 < refs_to (shared w) b" and "blocks (mem w) b = Some c"
  shows "\<exists>w' c'. run_program (concat (replicate (unat (weak_count c)) [Weak_copy j, Weak_dtor (length (weaks w))])) w = Some w' \<and>
    shared w' = shared w \<and> weaks w' = weaks w \<and> b \<notin> set (disposals (mem w')) \<and> blocks (mem w') b = Some c' \<and> linked c'"
proof -
  have w: "world_ok w" using assms(1) by (rule pp.reachable_inv)
  obtain R where k: "weak_at (mem w) R (weak_total (mem w) (refs_to (shared w)) (refs_to (weaks w)))"
    using world_okD [OF w] by (rule refs_okE)
  have p: "weaks w ! j = \<lparr>ptr = ptr (weaks w ! j), control_block = Some b\<rparr>" using assms(3) by (cases "weaks w ! j") simp
  from copy_and_drop_all [OF k assms(5,2) p] obtain s c' where
    "run_program (concat (replicate (unat (weak_count c)) [Weak_copy j, Weak_dtor (length (weaks w))])) w = Some (w\<lparr>mem := s\<rparr>)"
    "disposals s = disposals (mem w)" "blocks s b = Some c'" "linked c'" unfolding weak_atD(1) [OF k assms(5), symmetric] by blast
  then show ?thesis using block_state(1) [OF w assms(5)] assms(4) by (intro exI [of _ "w\<lparr>mem := s\<rparr>"] exI [of _ c']) simp
qed

lemma weak_copy_retires_shared_block_witness:
  "\<exists>(w' :: world) c. refs_to (shared w') 0 = 1 \<and> 0 \<notin> set (disposals (mem w')) \<and> blocks (mem w') 0 = Some c \<and> linked c"
proof -
  from example_program obtain w c where w: "reachable (\<lambda>w. \<exists>P. w = new_world P) pointer_step w"
    "blocks (mem w) 0 = Some c" "shared w = [\<lparr>ptr = Some 7, control_block = Some 0\<rparr>]"
    "weaks w = [\<lparr>ptr = Some 7, control_block = Some 0\<rparr>]" by blast
  have one: "refs_to (shared w) 0 = 1" using w(3) by (simp add: refs_to_def)
  have "0 < length (weaks w)" "control_block (weaks w ! 0) = Some 0" "0 < refs_to (shared w) 0" using w(4) one by simp_all
  from weak_copy_retires_shared_block [OF w(1) this w(2)] one show ?thesis by metis
qed

lemma ControlBlockInplace_new_None: "ControlBlockInplace_new p s = None"
proof -
  have False if ret: "ControlBlockInplace_new p s = Some x" for x
    by (rule ControlBlockInplace_new.raw_induct [where P = "\<lambda>_ _ _. False", OF _ ret]) (auto split: bind_splits)
  then show ?thesis by (cases "ControlBlockInplace_new p s") auto
qed

text \<open>\<open>make_shared\<close> never returns: \<open>operator new\<close> of the block it allocates calls itself.\<close>

theorem make_shared_diverges: "make_shared p s = None"
  by (simp add: make_shared_def ControlBlockInplace_new_None)

end
