(* ===== verification/Atomic_Shared_Ptr.thy ===== *)
theory Atomic_Shared_Ptr
  imports Pointer_Programs
begin

text \<open>
  \<open>AtomicSharedPtr\<close> of \<open>AtomicSharedPointer.h\<close>: an atomic cell that owns one strong reference to the
  control block it holds. The operations are those of one thread run alone, with the spurious
  failures that a weak compare-and-swap may have given by its caller. The cell keeps only the
  block, so a pointer that comes out of it points to what the block owns.
\<close>

section \<open>Operations\<close>

fun default_failure_memory_order :: "memory_order \<Rightarrow> memory_order" where
  "default_failure_memory_order memory_order_acq_rel = memory_order_acquire"
| "default_failure_memory_order memory_order_release = memory_order_relaxed"
| "default_failure_memory_order successMode = successMode"

definition make_shared_from_ctrl_block :: "nat option \<Rightarrow> memory \<Rightarrow> smart_ptr option" where
  "make_shared_from_ctrl_block b s =
     (case b of
        None \<Rightarrow> Some null_ptr
      | Some x \<Rightarrow> do { p \<leftarrow> get_ptr x s; SmartPtrBase p (Some x) })"

text \<open>The constructor from a \<open>SharedPtr\<close> takes over its reference.\<close>

definition AtomicSharedPtr :: "smart_ptr \<Rightarrow> nat option \<times> smart_ptr" where
  "AtomicSharedPtr desired = (let ((_, b), desired) = release_internals desired in (b, desired))"

definition store :: "nat option \<Rightarrow> smart_ptr \<Rightarrow> memory \<Rightarrow> (nat option \<times> memory) option" where
  "store cell desired s =
     (let ((_, b), desired) = release_internals desired in
      case cell of
        None \<Rightarrow> Some (b, s)
      | Some old \<Rightarrow> do { s \<leftarrow> decrement_strong_count old s; Some (b, s) })"

definition AtomicSharedPtr_dtor :: "nat option \<Rightarrow> memory \<Rightarrow> memory option" where
  "AtomicSharedPtr_dtor cell s = do { (_, s) \<leftarrow> store cell null_ptr s; Some s }"

partial_function (option) load_cell :: "nat option \<Rightarrow> memory \<Rightarrow> (smart_ptr \<times> memory) option" where
  [code]: "load_cell cell s =
     (let (current, h) = protect (me s) (\<lambda>x. x) cell (haz s); s = s\<lparr>haz := h\<rparr> in
      case current of
        None \<Rightarrow> do { p \<leftarrow> make_shared_from_ctrl_block None s; Some (p, s) }
      | Some b \<Rightarrow> do {
          (success, s) \<leftarrow> increment_strong_count_if_nonzero b s;
          if success then do { p \<leftarrow> make_shared_from_ctrl_block current s; Some (p, s) }
          else load_cell cell s
        })"

definition exchange :: "nat option \<Rightarrow> smart_ptr \<Rightarrow> memory \<Rightarrow> (smart_ptr \<times> nat option) option" where
  "exchange cell desired s =
     (let ((_, b), desired) = release_internals desired in do {
       old \<leftarrow> make_shared_from_ctrl_block cell s;
       Some (old, b)
     })"

text \<open>
  The result of a compare-and-swap: whether it succeeded, the cell, \<open>expected\<close>, \<open>desired\<close> and the
  memory. On failure \<open>expected\<close> is assigned (by move) from a fresh \<open>load\<close>.
\<close>

definition compare_exchange_weak :: "bool \<Rightarrow> nat option \<Rightarrow> smart_ptr \<Rightarrow> smart_ptr \<Rightarrow> memory \<Rightarrow>
    (bool \<times> nat option \<times> smart_ptr \<times> smart_ptr \<times> memory) option" where
  "compare_exchange_weak spurious cell expected desired s =
     (if \<not> spurious \<and> cell = control_block expected then do {
        s \<leftarrow> (case control_block expected of None \<Rightarrow> Some s | Some b \<Rightarrow> decrement_strong_count b s);
        let cell = control_block desired;
        let (_, desired) = release_internals desired;
        Some (True, cell, expected, desired, s)
      }
      else do {
        (tmp, s) \<leftarrow> load_cell cell s;
        (tmp, _, s) \<leftarrow> SharedPtr_move tmp s;
        (expected, s) \<leftarrow> swap_and_drop tmp expected s;
        Some (False, cell, expected, desired, s)
      })"

fun compare_exchange_strong :: "bool list \<Rightarrow> nat option \<Rightarrow> smart_ptr \<Rightarrow> smart_ptr \<Rightarrow> memory \<Rightarrow>
    (bool \<times> nat option \<times> smart_ptr \<times> smart_ptr \<times> memory) option" where
  "compare_exchange_strong [] cell expected desired s = compare_exchange_weak False cell expected desired s"
| "compare_exchange_strong (spurious # rest) cell expected desired s = do {
     (ok, cell, expected', desired, s) \<leftarrow> compare_exchange_weak spurious cell expected desired s;
     if ok then Some (True, cell, expected', desired, s)
     else if control_block expected = control_block expected'
     then compare_exchange_strong rest cell expected' desired s
     else Some (False, cell, expected', desired, s)
   }"

text \<open>The overloads that take \<open>desired\<close> by reference to const work on a copy and destroy it.\<close>

definition compare_exchange_weak_copy :: "bool \<Rightarrow> nat option \<Rightarrow> smart_ptr \<Rightarrow> smart_ptr \<Rightarrow> memory \<Rightarrow>
    (bool \<times> nat option \<times> smart_ptr \<times> memory) option" where
  "compare_exchange_weak_copy spurious cell expected desired s = do {
     (tmp, s) \<leftarrow> SharedPtr_copy desired s;
     (ok, cell, expected, tmp, s) \<leftarrow> compare_exchange_weak spurious cell expected tmp s;
     s \<leftarrow> SharedPtr_dtor tmp s;
     Some (ok, cell, expected, s)
   }"

definition compare_exchange_strong_copy :: "bool list \<Rightarrow> nat option \<Rightarrow> smart_ptr \<Rightarrow> smart_ptr \<Rightarrow> memory \<Rightarrow>
    (bool \<times> nat option \<times> smart_ptr \<times> memory) option" where
  "compare_exchange_strong_copy spurious cell expected desired s = do {
     (tmp, s) \<leftarrow> SharedPtr_copy desired s;
     (ok, cell, expected, tmp, s) \<leftarrow> compare_exchange_strong spurious cell expected tmp s;
     s \<leftarrow> SharedPtr_dtor tmp s;
     Some (ok, cell, expected, s)
   }"

section \<open>The references of a cell\<close>

text \<open>A cell counts as one reference, and what the block owns may be handed out.\<close>

definition cell_ok :: "memory \<Rightarrow> (nat \<Rightarrow> nat) \<Rightarrow> nat option \<Rightarrow> bool" where
  "cell_ok s N cell \<longleftrightarrow> (\<forall>b. cell = Some b \<longrightarrow> 0 < N b \<and>
     (\<exists>c. blocks s b = Some c \<and> pointer_ok s \<lparr>ptr = block_ptr c, control_block = Some b\<rparr>))"

definition cell_ptr :: "memory \<Rightarrow> nat option \<Rightarrow> smart_ptr" where
  "cell_ptr s cell = (case cell of
     None \<Rightarrow> null_ptr
   | Some b \<Rightarrow> \<lparr>ptr = (case blocks s b of None \<Rightarrow> None | Some c \<Rightarrow> block_ptr c), control_block = Some b\<rparr>)"

lemma cell_ptr_block [simp]: "control_block (cell_ptr s cell) = cell"
  by (simp add: cell_ptr_def split: option.split)

lemma cell_ptr_ok: "cell_ok s N cell \<Longrightarrow> pointer_ok s (cell_ptr s cell) \<and> counted N (cell_ptr s cell)"
  by (auto simp: cell_ok_def cell_ptr_def counted_def split: option.split)

lemma cell_ptr_shape:
  assumes "\<And>b. shape_view s' b = shape_view s b"
  shows "cell_ptr s' cell = cell_ptr s cell"
proof (cases cell)
  case (Some b)
  have "(case blocks s' b of None \<Rightarrow> None | Some c \<Rightarrow> block_ptr c) = (case blocks s b of None \<Rightarrow> None | Some c \<Rightarrow> block_ptr c)"
    using assms [of b] by (cases "blocks s' b"; cases "blocks s b") auto
  then show ?thesis using Some by (simp add: cell_ptr_def)
qed (simp add: cell_ptr_def)

lemma make_shared_from_ctrl_block_ok:
  assumes "refs_ok s N M" and "\<And>b. cell = Some b \<Longrightarrow> 0 < N b"
  shows "make_shared_from_ctrl_block cell s = Some (cell_ptr s cell)"
proof (cases cell)
  case (Some b)
  with refs_get [OF assms(1)] assms(2) obtain c where "get_block b s = Some c" "blocks s b = Some c" "\<not> linked c" by blast
  then show ?thesis using Some
    by (simp add: make_shared_from_ctrl_block_def cell_ptr_def get_ptr_def SmartPtrBase_def)
qed (simp add: make_shared_from_ctrl_block_def cell_ptr_def)

text \<open>Announcing a hazard pointer leaves the counts alone.\<close>

lemma hazards_view_protect:
  assumes "hazards_view h S X"
  shows "hazards_view (h\<lparr>slots := (slots h)[i := (slots h ! i)\<lparr>protected_ptr := p\<rparr>]\<rparr>) S X"
proof -
  have "slot_view g (sl\<lparr>protected_ptr := p\<rparr>) s xs = slot_view g sl s xs" for g sl s xs by (simp add: slot_view_def)
  moreover have "xs[i := y] ! k = (if k = i then y else xs ! k)" if "k < length xs" for xs :: "hazard_slot list" and y k
    using that by simp
  ultimately show ?thesis using assms unfolding hazards_view_def by (auto simp del: nth_list_update_neq)
qed

lemma reclaim_ok_protect:
  assumes "reclaim_ok k h R"
  shows "reclaim_ok k (h\<lparr>slots := (slots h)[i := (slots h ! i)\<lparr>protected_ptr := p\<rparr>]\<rparr>) R"
proof -
  from assms obtain S X where "k < length (slots h)" "hazards_view h S X"
    "R = (\<Union>j < length (slots h). set (objects (S j) (X j))) \<union> set (destroyed (garbage_of h))"
    unfolding reclaim_ok_def by blast
  then show ?thesis unfolding reclaim_ok_def using hazards_view_protect [of h S X i p]
    by (intro conjI exI [of _ S] exI [of _ X]) simp_all
qed

lemma protect_refs:
  assumes "refs_ok s N M" and "protect (me s) f src (haz s) = (v, h)"
  shows "v = src \<and> refs_ok (s\<lparr>haz := h\<rparr>) N M"
proof -
  have h: "v = src" "h = haz s \<or> (\<exists>p. h = (haz s)\<lparr>slots := (slots (haz s))[me s := (slots (haz s) ! me s)\<lparr>protected_ptr := p\<rparr>]\<rparr>)"
    using assms(2) by (auto simp: protect_def split: option.splits)
  from assms(1) obtain R where w: "weak_at s R (weak_total s N M)" and st: "strong_at s N" and o: "objs_at s N"
    and f: "fresh_zero s N M" by (rule refs_okE)
  have "reclaim_ok (me s) (haz s) R" using w unfolding weak_at_def by blast
  then have "reclaim_ok (me s) h R" using h(2) reclaim_ok_protect by blast
  moreover have b: "blocks (s\<lparr>haz := h\<rparr>) = blocks s" "haz (s\<lparr>haz := h\<rparr>) = h" "me (s\<lparr>haz := h\<rparr>) = me s"
    "objs (s\<lparr>haz := h\<rparr>) = objs s" by simp_all
  ultimately have "weak_at (s\<lparr>haz := h\<rparr>) R (weak_total s N M)" using w unfolding weak_at_def b by blast
  moreover have "weak_total (s\<lparr>haz := h\<rparr>) N M = weak_total s N M" unfolding weak_total_def esft_ref_def b by (rule refl)
  moreover have "strong_at (s\<lparr>haz := h\<rparr>) N" by (rule strong_at_cong [OF st]) (simp_all add: strong_view_def)
  moreover have "objs_at (s\<lparr>haz := h\<rparr>) N" using o objs_at_cong [of "s\<lparr>haz := h\<rparr>" s] by simp
  moreover have "fresh_zero (s\<lparr>haz := h\<rparr>) N M" by (rule fresh_zero_cong [OF f]) simp_all
  ultimately show ?thesis using h(1) unfolding refs_ok_def by auto
qed

section \<open>What the operations do\<close>

lemma shape_links: "same_shape s s' \<Longrightarrow> same_links s s'"
  by (simp add: same_shape_def same_links_def)

lemma same_links_trans: "same_links s t \<Longrightarrow> same_links t u \<Longrightarrow> same_links s u"
  by (simp add: same_links_def)

lemma load_cell_ok:
  assumes ok: "refs_ok s N M" and c: "cell_ok s N cell" and r: "roomy (Suc d) s"
  shows "\<exists>s'. load_cell cell s = Some (cell_ptr s cell, s') \<and> refs_ok s' (add_ref N cell) M \<and> roomy d s' \<and> same_links s s'"
proof -
  obtain v h where p: "protect (me s) (\<lambda>x. x) cell (haz s) = (v, h)" by (cases "protect (me s) (\<lambda>x. x) cell (haz s)")
  define s1 where "s1 = s\<lparr>haz := h\<rparr>"
  have v: "v = cell" and ok1: "refs_ok s1 N M" using protect_refs [OF ok p] by (auto simp: s1_def)
  have r1: "roomy (Suc d) s1" using r by (simp add: roomy_def room_def s1_def)
  have l1: "same_links s s1" by (simp add: same_links_def s1_def)
  show ?thesis
  proof (cases cell)
    case None
    then have "load_cell cell s = Some (cell_ptr s cell, s1)"
      using p v by (subst load_cell.simps) (simp add: s1_def cell_ptr_def make_shared_from_ctrl_block_def)
    then show ?thesis using None ok1 l1 roomy_mono [OF r1, of d] by auto
  next
    case (Some b)
    have n: "0 < N b" using c Some by (simp add: cell_ok_def)
    from refs_try_strong [OF ok1 disjI1 [OF n] r1] n obtain s2 where
      s2: "increment_strong_count_if_nonzero b s1 = Some (True, s2)" "refs_ok s2 (add_ref N cell) M" "roomy d s2" "same_shape s1 s2"
      using Some by auto
    have l2: "same_links s s2" using same_links_trans [OF l1 shape_links [OF s2(4)]] .
    have "make_shared_from_ctrl_block cell s2 = Some (cell_ptr s2 cell)"
      by (rule make_shared_from_ctrl_block_ok [OF s2(2)]) (use n Some in simp)
    moreover have "cell_ptr s2 cell = cell_ptr s cell" by (rule cell_ptr_shape) (use l2 in \<open>simp add: same_links_def\<close>)
    ultimately have "load_cell cell s = Some (cell_ptr s cell, s2)"
      using p v Some s2(1) by (subst load_cell.simps) (simp add: s1_def)
    then show ?thesis using s2 l2 by auto
  qed
qed

lemma drop_cell_ok:
  assumes ok: "refs_ok s N M" and n: "\<And>b. cell = Some b \<Longrightarrow> 0 < N b"
  shows "\<exists>s'. (case cell of None \<Rightarrow> Some s | Some b \<Rightarrow> decrement_strong_count b s) = Some s' \<and>
    refs_ok s' (sub_ref N cell) M \<and> keeps_room s s' \<and> same_links s s'"
  using decrement_strong_ok [OF ok, of "\<lparr>ptr = None, control_block = cell\<rparr>"] n
  by (auto simp: decrement_strong_def counted_def)

lemma load_into_ok:
  assumes ok: "refs_ok s N M" and c: "cell_ok s N cell" and e: "counted N expected" and r: "roomy (d + 3) s"
  shows "\<exists>s'. (do { (tmp, s) \<leftarrow> load_cell cell s; (tmp, _, s) \<leftarrow> SharedPtr_move tmp s;
      (expected, s) \<leftarrow> swap_and_drop tmp expected s; Some (False, cell, expected, desired, s) }) =
      Some (False, cell, cell_ptr s cell, desired, s') \<and>
    refs_ok s' (sub_ref (add_ref N cell) (control_block expected)) M \<and> roomy d s' \<and> extends s s'"
proof -
  from r have "roomy (Suc (d + 2)) s" by (simp add: numeral_eq_Suc)
  from load_cell_ok [OF ok c this] obtain s1 where
    s1: "load_cell cell s = Some (cell_ptr s cell, s1)" "refs_ok s1 (add_ref N cell) M" "roomy (d + 2) s1" "same_links s s1" by blast
  have x1: "extends s s1" using same_links_extends [OF s1(4)] .
  define p where "p = cell_ptr s cell"
  have "pointer_ok s1 p" using pointer_ok_extends [OF _ x1] cell_ptr_ok [OF c] by (simp add: p_def)
  then have "pointer_ok s1 \<lparr>ptr = ptr p, control_block = control_block p\<rparr>" unfolding smart_ptr_eta .
  moreover have "counted (add_ref N cell) p" using counted_add [of N p] by (simp add: p_def)
  then have "counted (add_ref N cell) \<lparr>ptr = ptr p, control_block = control_block p\<rparr>" unfolding smart_ptr_eta .
  ultimately obtain s2 where s2: "set_ptrs_and_esft (ptr p) (control_block p) s1 = Some (p, s2)"
    "refs_ok s2 (add_ref N cell) M" "roomy d s2" "extends s1 s2"
    using set_ptrs_and_esft_ok [OF s1(2) _ _ s1(3), of "ptr p" "control_block p"] unfolding smart_ptr_eta by blast
  from decrement_strong_ok [OF s2(2) counted_mono [OF e]] obtain s3 where
    s3: "decrement_strong expected s2 = Some s3" "refs_ok s3 (sub_ref (add_ref N cell) (control_block expected)) M"
      "keeps_room s2 s3" "same_links s2 s3" by blast
  have "extends s s3" using extends_trans [OF x1] extends_trans [OF s2(4) same_links_extends [OF s3(4)]] by blast
  then show ?thesis using s1(1) s2(1) s3(1,2) roomy_keeps [OF s3(3) s2(3)]
    by (simp add: SharedPtr_move_def swap_and_drop_def SharedPtr_dtor_def p_def)
qed

lemma cas_weak_ok:
  assumes ok: "refs_ok s N M" and c: "cell_ok s N cell" and e: "counted N expected" and r: "roomy (d + 3) s"
  shows "\<exists>s'. if \<not> spurious \<and> cell = control_block expected
    then compare_exchange_weak spurious cell expected desired s = Some (True, control_block desired, expected, null_ptr, s') \<and>
         refs_ok s' (sub_ref N cell) M
    else compare_exchange_weak spurious cell expected desired s = Some (False, cell, cell_ptr s cell, desired, s') \<and>
         refs_ok s' (sub_ref (add_ref N cell) (control_block expected)) M \<and> roomy d s' \<and> extends s s'"
proof (cases "\<not> spurious \<and> cell = control_block expected")
  case True
  have "0 < N b" if "cell = Some b" for b using c that by (simp add: cell_ok_def)
  then obtain s' where "(case cell of None \<Rightarrow> Some s | Some b \<Rightarrow> decrement_strong_count b s) = Some s'"
    "refs_ok s' (sub_ref N cell) M" using drop_cell_ok [OF ok, of cell] by blast
  then show ?thesis using True by (auto simp: compare_exchange_weak_def release_internals_def)
next
  case False
  then show ?thesis using load_into_ok [OF ok c e r, of desired] by (auto simp: compare_exchange_weak_def)
qed

lemma cell_ok_extends:
  assumes "cell_ok s N cell" and "extends s s'"
  shows "cell_ok s' N cell" and "cell_ptr s' cell = cell_ptr s cell"
proof -
  have "\<exists>c c'. blocks s b = Some c \<and> blocks s' b = Some c' \<and> block_ptr c' = block_ptr c" if cb: "cell = Some b" for b
  proof -
    obtain c where c: "blocks s b = Some c" using assms(1) cb by (auto simp: cell_ok_def)
    then have "shape_view s' b = Some (kind c, block_ptr c)" using assms(2) unfolding extends_def by simp
    then show ?thesis using c by auto
  qed
  then show "cell_ok s' N cell" "cell_ptr s' cell = cell_ptr s cell"
    using assms pointer_ok_extends [OF _ assms(2)] by (fastforce simp: cell_ok_def cell_ptr_def split: option.split)+
qed

lemma cas_strong_ok:
  assumes "refs_ok s N M" and "cell_ok s N cell" and "counted N expected" and "roomy (3 * length sp + 3) s"
  shows "\<exists>expected' s'. if cell = control_block expected
    then compare_exchange_strong sp cell expected desired s = Some (True, control_block desired, expected', null_ptr, s') \<and>
         control_block expected' = cell \<and> refs_ok s' (sub_ref N cell) M
    else compare_exchange_strong sp cell expected desired s = Some (False, cell, cell_ptr s cell, desired, s') \<and>
         refs_ok s' (sub_ref (add_ref N cell) (control_block expected)) M"
  using assms
proof (induction sp arbitrary: expected s)
  case Nil
  then have "roomy (0 + 3) s" by simp
  from cas_weak_ok [OF Nil(1-3) this, of False desired] show ?case by (auto split: if_splits)
next
  case (Cons x sp)
  have "roomy ((3 * length sp + 3) + 3) s" using Cons.prems(4) by (rule roomy_mono) simp
  from cas_weak_ok [OF Cons.prems(1-3) this, of x desired] obtain s' where
    s': "if \<not> x \<and> cell = control_block expected
      then compare_exchange_weak x cell expected desired s = Some (True, control_block desired, expected, null_ptr, s') \<and>
           refs_ok s' (sub_ref N cell) M
      else compare_exchange_weak x cell expected desired s = Some (False, cell, cell_ptr s cell, desired, s') \<and>
           refs_ok s' (sub_ref (add_ref N cell) (control_block expected)) M \<and> roomy (3 * length sp + 3) s' \<and> extends s s'" by blast
  show ?case
  proof (cases "x \<and> cell = control_block expected")
    case True
    then have s1: "compare_exchange_weak x cell expected desired s = Some (False, cell, cell_ptr s cell, desired, s')"
      "refs_ok s' N M" "roomy (3 * length sp + 3) s'" "extends s s'" using s' by auto
    have "counted N (cell_ptr s cell)" using cell_ptr_ok [OF Cons.prems(2)] by blast
    from Cons.IH [OF s1(2) cell_ok_extends(1) [OF Cons.prems(2) s1(4)] this s1(3)] s1(1) True show ?thesis by simp
  next
    case False
    then show ?thesis using s' by (auto split: if_splits)
  qed
qed

section \<open>What a cell promises\<close>

text \<open>C26. An \<open>AtomicSharedPtr\<close> owns one reference to the block it holds, and its operations return and keep the
  counts exact: \<open>load\<close> makes a new reference to the block and points to what the block owns (an
  alias that was stored is not kept); \<open>exchange\<close> passes the old reference out and the new one in;
  \<open>store\<close> gives the old one up; a weak compare-and-swap succeeds only on the expected block; and the
  strong one succeeds exactly then, whatever spurious failures occur on the way.\<close>

theorem atomic_shared_ptr_exact:
  assumes ok: "refs_ok s N M" and c: "cell_ok s N cell" and e: "counted N expected" and r: "roomy (3 * length sp + 4) s"
  shows "(\<exists>s'. load_cell cell s = Some (cell_ptr s cell, s') \<and> refs_ok s' (add_ref N cell) M) \<and>
    exchange cell desired s = Some (cell_ptr s cell, control_block desired) \<and>
    (\<exists>s'. store cell desired s = Some (control_block desired, s') \<and> refs_ok s' (sub_ref N cell) M) \<and>
    (\<exists>s'. compare_exchange_weak False cell expected desired s =
        (if cell = control_block expected then Some (True, control_block desired, expected, null_ptr, s')
         else Some (False, cell, cell_ptr s cell, desired, s')) \<and>
       refs_ok s' (if cell = control_block expected then sub_ref N cell
                   else sub_ref (add_ref N cell) (control_block expected)) M) \<and>
    (\<exists>expected' s'. compare_exchange_strong sp cell expected desired s =
        (if cell = control_block expected then Some (True, control_block desired, expected', null_ptr, s')
         else Some (False, cell, cell_ptr s cell, desired, s')) \<and>
       refs_ok s' (if cell = control_block expected then sub_ref N cell
                   else sub_ref (add_ref N cell) (control_block expected)) M)"
proof (intro conjI)
  have n: "0 < N b" if "cell = Some b" for b using c that by (simp add: cell_ok_def)
  show "\<exists>s'. load_cell cell s = Some (cell_ptr s cell, s') \<and> refs_ok s' (add_ref N cell) M"
    using load_cell_ok [OF ok c, of 0] roomy_mono [OF r, of "Suc 0"] by auto
  show "exchange cell desired s = Some (cell_ptr s cell, control_block desired)"
    using make_shared_from_ctrl_block_ok [OF ok n] by (simp add: exchange_def release_internals_def)
  obtain s' where "(case cell of None \<Rightarrow> Some s | Some b \<Rightarrow> decrement_strong_count b s) = Some s'"
    "refs_ok s' (sub_ref N cell) M" using drop_cell_ok [OF ok n] by blast
  then show "\<exists>s'. store cell desired s = Some (control_block desired, s') \<and> refs_ok s' (sub_ref N cell) M"
    by (cases cell) (auto simp: store_def release_internals_def)
  have "roomy (0 + 3) s" using r by (rule roomy_mono) simp
  from cas_weak_ok [OF ok c e this, of False desired]
  show "\<exists>s'. compare_exchange_weak False cell expected desired s =
        (if cell = control_block expected then Some (True, control_block desired, expected, null_ptr, s')
         else Some (False, cell, cell_ptr s cell, desired, s')) \<and>
       refs_ok s' (if cell = control_block expected then sub_ref N cell
                   else sub_ref (add_ref N cell) (control_block expected)) M" by (auto split: if_splits)
  have "roomy (3 * length sp + 3) s" using r by (rule roomy_mono) simp
  from cas_strong_ok [OF ok c e this, of desired]
  show "\<exists>expected' s'. compare_exchange_strong sp cell expected desired s =
        (if cell = control_block expected then Some (True, control_block desired, expected', null_ptr, s')
         else Some (False, cell, cell_ptr s cell, desired, s')) \<and>
       refs_ok s' (if cell = control_block expected then sub_ref N cell
                   else sub_ref (add_ref N cell) (control_block expected)) M" by (auto split: if_splits)
qed

theorem atomic_shared_ptr_exact_witness:
  "\<exists>w s'. reachable (\<lambda>w. \<exists>P. w = new_world P) pointer_step w \<and>
     load_cell (Some 0) (mem w) = Some (\<lparr>ptr = Some 7, control_block = Some 0\<rparr>, s')"
proof -
  from example_program obtain w c where w: "reachable (\<lambda>w. \<exists>P. w = new_world P) pointer_step w" "roomy 4 (mem w)"
    "blocks (mem w) 0 = Some c" "block_ptr c = Some 7" "shared w = [\<lparr>ptr = Some 7, control_block = Some 0\<rparr>]" by blast
  have ok: "world_ok w" using w(1) by (rule pp.reachable_inv)
  have "pointer_ok (mem w) \<lparr>ptr = Some 7, control_block = Some 0\<rparr>" using ok w(5) by (simp add: world_ok_def)
  then have "cell_ok (mem w) (refs_to (shared w)) (Some 0)" and p: "cell_ptr (mem w) (Some 0) = \<lparr>ptr = Some 7, control_block = Some 0\<rparr>"
    using w(3-5) by (auto simp: cell_ok_def cell_ptr_def refs_to_def)
  moreover have "roomy (3 * length ([] :: bool list) + 4) (mem w)" using w(2) by simp
  moreover have "refs_ok (mem w) (refs_to (shared w)) (refs_to (weaks w))" using ok by (simp add: world_ok_def)
  ultimately have "\<exists>s'. load_cell (Some 0) (mem w) = Some (\<lparr>ptr = Some 7, control_block = Some 0\<rparr>, s')"
    using atomic_shared_ptr_exact [of "mem w" "refs_to (shared w)" "refs_to (weaks w)" "Some 0" null_ptr "[]" null_ptr]
      counted_null(1) [of "refs_to (shared w)"] by (metis (no_types))
  then show ?thesis using w(1) by blast
qed

end
