(* ===== verification/Referenced_Boxes.thy ===== *)
theory Referenced_Boxes
  imports Godby_Prelude "HOL-Library.Monad_Syntax"
begin

text \<open>
  \<open>Referenced\<close> of \<open>AtomicHashmap.h\<close>: heap cells with a reference count, and the accessors that hold
  a reference. A \<open>boxes\<close> is the heap of one type of cell; an address that is not allocated
  is one that was never handed out or was deleted, and every use of it, and an overflow of the
  signed count, is \<open>None\<close>. Address 0 is the null pointer. A heap is \<open>exact\<close> for a function \<open>N\<close> when
  each cell has as many references as \<open>N\<close> says and no other cell is alive.
\<close>

section \<open>Cells and accessors\<close>

record 'a referenced =
  ref_count :: int
  boxed :: 'a

record 'a boxes =
  cells :: "nat \<Rightarrow> 'a referenced option"
  next_box :: nat

definition clone :: "'a \<Rightarrow> 'a boxes \<Rightarrow> nat \<times> 'a boxes" where
  "clone other h =
     (let composed = next_box h in
      (composed, h\<lparr>cells := (cells h)(composed \<mapsto> \<lparr>ref_count = 1, boxed = other\<rparr>), next_box := Suc composed\<rparr>))"

definition Acquire :: "nat \<Rightarrow> 'a boxes \<Rightarrow> (bool \<times> 'a boxes) option" where
  "Acquire a h = do {
     c \<leftarrow> cells h a;
     if ref_count c = 0 then Some (False, h)
     else if ref_count c = 2 ^ 31 - 1 then None
     else Some (True, h\<lparr>cells := (cells h)(a \<mapsto> c\<lparr>ref_count := ref_count c + 1\<rparr>)\<rparr>)
   }"

definition Release :: "nat \<Rightarrow> 'a boxes \<Rightarrow> (bool \<times> 'a boxes) option" where
  "Release a h = do {
     c \<leftarrow> cells h a;
     let h = h\<lparr>cells := (cells h)(a \<mapsto> c\<lparr>ref_count := ref_count c - 1\<rparr>)\<rparr>;
     Some (ref_count c - 1 = 0, h)
   }"

definition delete_box :: "nat \<Rightarrow> 'a boxes \<Rightarrow> 'a boxes option" where
  "delete_box a h = do { _ \<leftarrow> cells h a; Some (h\<lparr>cells := (cells h)(a := None)\<rparr>) }"

definition deallocate :: "nat \<Rightarrow> 'a boxes \<Rightarrow> 'a boxes option" where
  "deallocate composed h =
     (if composed = 0 then Some h
      else do { (last, h) \<leftarrow> Release composed h; if last then delete_box composed h else Some h })"

text \<open>An accessor is its pointer \<open>M_compoesed\<close>.\<close>

definition Accessor :: "nat \<Rightarrow> 'a boxes \<Rightarrow> (nat \<times> 'a boxes) option" where
  "Accessor composed h =
     (if composed = 0 then Some (0, h)
      else do { (ok, h) \<leftarrow> Acquire composed h; Some (if ok then composed else 0, h) })"

definition Accessor_copy :: "nat \<Rightarrow> 'a boxes \<Rightarrow> (nat \<times> 'a boxes) option" where
  "Accessor_copy other h =
     (if other = 0 then Some (0, h)
      else do { (ok, h) \<leftarrow> Acquire other h; Some (if ok then other else 0, h) })"

definition Accessor_move :: "nat \<Rightarrow> nat \<times> nat" where
  "Accessor_move other = (other, 0)"

definition has :: "nat \<Rightarrow> bool" where
  "has acc \<longleftrightarrow> acc \<noteq> 0"

definition value_of :: "nat \<Rightarrow> 'a boxes \<Rightarrow> 'a option" where
  "value_of acc h = map_option boxed (cells h acc)"

definition Accessor_dtor :: "nat \<Rightarrow> 'a boxes \<Rightarrow> 'a boxes option" where
  "Accessor_dtor acc h =
     (if acc = 0 then Some h
      else do { (last, h) \<leftarrow> Release acc h; if last then delete_box acc h else Some h })"

section \<open>Exact reference counts\<close>

definition exact :: "'a boxes \<Rightarrow> (nat \<Rightarrow> nat) \<Rightarrow> bool" where
  "exact h N \<longleftrightarrow>
     (\<forall>a. cells h a = None \<longrightarrow> N a = 0) \<and> (\<forall>a c. cells h a = Some c \<longrightarrow> ref_count c = int (N a) \<and> 0 < N a) \<and>
     N 0 = 0 \<and> 0 < next_box h \<and> (\<forall>a \<ge> next_box h. cells h a = None)"

lemma exactD:
  assumes "exact h N"
  shows "0 < N a \<Longrightarrow> \<exists>c. cells h a = Some c \<and> ref_count c = int (N a)"
    and "N a = 0 \<Longrightarrow> cells h a = None"
    and "N 0 = 0" and "0 < next_box h" and "next_box h \<le> a \<Longrightarrow> cells h a = None"
    and "next_box h \<le> a \<Longrightarrow> N a = 0"
proof -
  show "0 < N a \<Longrightarrow> \<exists>c. cells h a = Some c \<and> ref_count c = int (N a)" "N a = 0 \<Longrightarrow> cells h a = None"
    using assms unfolding exact_def by (metis less_irrefl not_None_eq)+
  show "N 0 = 0" "0 < next_box h" and n: "next_box h \<le> a \<Longrightarrow> cells h a = None"
    using assms by (auto simp: exact_def)
  then show "next_box h \<le> a \<Longrightarrow> N a = 0" using assms by (simp add: exact_def)
qed

lemma exact_value:
  assumes "exact h N" and "0 < N a"
  shows "\<exists>x. value_of a h = Some x"
  using exactD(1) [OF assms] by (auto simp: value_of_def)

lemma exact_null: "exact h N \<Longrightarrow> value_of 0 h = None"
  using exactD(2,3) [of h N] by (auto simp: value_of_def)

lemma exact_update:
  assumes e: "exact h N" and c: "cells h a = Some c" and m: "0 < m" and a: "a \<noteq> 0"
  shows "exact (h\<lparr>cells := (cells h)(a \<mapsto> c\<lparr>ref_count := int m\<rparr>)\<rparr>) (N(a := m))"
  using assms exactD(5) [OF e, of a] by (auto simp: exact_def not_le)

lemma clone_exact:
  assumes "exact h N" and "clone x h = (a, h')"
  shows "exact h' (N(a := 1))" and "a \<noteq> 0" and "N a = 0"
    and "value_of b h' = (if b = a then Some x else value_of b h)"
proof -
  have a: "a = next_box h" and h': "h' = h\<lparr>cells := (cells h)(a \<mapsto> \<lparr>ref_count = 1, boxed = x\<rparr>), next_box := Suc a\<rparr>"
    using assms(2) by (auto simp: clone_def Let_def)
  show z: "a \<noteq> 0" "N a = 0" using a exactD(4,6) [OF assms(1)] by auto
  show "exact h' (N(a := 1))" using assms(1) z a unfolding exact_def h' by auto
  show "value_of b h' = (if b = a then Some x else value_of b h)" by (simp add: value_of_def h')
qed

lemma Acquire_exact:
  assumes e: "exact h N" and n: "0 < N a" "N a < 2 ^ 31 - 1"
  shows "\<exists>h'. Acquire a h = Some (True, h') \<and> exact h' (N(a := Suc (N a))) \<and> value_of b h' = value_of b h"
proof -
  obtain c where c: "cells h a = Some c" "ref_count c = int (N a)" using exactD(1) [OF e n(1)] by blast
  have "a \<noteq> 0" using exactD(3) [OF e] n(1) by (metis less_irrefl)
  then have "exact (h\<lparr>cells := (cells h)(a \<mapsto> c\<lparr>ref_count := int (Suc (N a))\<rparr>)\<rparr>) (N(a := Suc (N a)))"
    using exact_update [OF e c(1)] by blast
  then show ?thesis using c n by (auto simp: Acquire_def value_of_def add.commute)
qed

definition drop_box :: "nat \<Rightarrow> 'a boxes \<Rightarrow> 'a boxes option" where
  "drop_box a h = do { (last, h) \<leftarrow> Release a h; if last then delete_box a h else Some h }"

lemma drop_exact:
  assumes e: "exact h N" and n: "0 < N a"
  shows "\<exists>h'. drop_box a h = Some h' \<and> exact h' (N(a := N a - 1)) \<and>
    value_of b h' = (if b = a \<and> N a = 1 then None else value_of b h)"
proof -
  obtain c where c: "cells h a = Some c" "ref_count c = int (N a)" using exactD(1) [OF e n] by blast
  have a: "a \<noteq> 0" using exactD(3) [OF e] n by (metis less_irrefl)
  show ?thesis
  proof (cases "N a = 1")
    case True
    then have "drop_box a h = Some (h\<lparr>cells := (cells h)(a := None)\<rparr>)" using c by (simp add: drop_box_def Release_def delete_box_def)
    moreover have "exact (h\<lparr>cells := (cells h)(a := None)\<rparr>) (N(a := 0))" using e a by (auto simp: exact_def)
    ultimately show ?thesis using True by (auto simp: value_of_def)
  next
    case False
    have "exact (h\<lparr>cells := (cells h)(a \<mapsto> c\<lparr>ref_count := int (N a - 1)\<rparr>)\<rparr>) (N(a := N a - 1))"
      by (rule exact_update [OF e c(1)]) (use False n a in auto)
    moreover have "int (N a - 1) = int (N a) - 1" using n by (simp add: of_nat_diff)
    ultimately show ?thesis using False c n by (auto simp: drop_box_def Release_def value_of_def)
  qed
qed

lemma deallocate_drop: "deallocate a h = (if a = 0 then Some h else drop_box a h)"
  by (simp add: deallocate_def drop_box_def)

lemma Accessor_dtor_drop: "Accessor_dtor a h = (if a = 0 then Some h else drop_box a h)"
  by (simp add: Accessor_dtor_def drop_box_def)

text \<open>An accessor that is made, read and destroyed at once leaves the heap as it was.\<close>

lemma Accessor_read:
  assumes e: "exact h N" and n: "a \<noteq> 0 \<Longrightarrow> 0 < N a" "N a < 2 ^ 31 - 1"
  shows "\<exists>h'. Accessor a h = Some (a, h') \<and> value_of a h' = value_of a h \<and> Accessor_dtor a h' = Some h"
proof (cases "a = 0")
  case True
  then show ?thesis by (simp add: Accessor_def Accessor_dtor_def)
next
  case False
  then obtain c where c: "cells h a = Some c" "ref_count c = int (N a)" using exactD(1) [OF e] n(1) by blast
  have "c\<lparr>ref_count := int (N a)\<rparr> = c" using c(2) by simp
  then have "h\<lparr>cells := (cells h)(a \<mapsto> c\<lparr>ref_count := int (N a)\<rparr>)\<rparr> = h" using c(1) by (simp add: fun_upd_idem)
  then show ?thesis using c n False
    by (auto simp: Accessor_def Acquire_def Accessor_dtor_def Release_def value_of_def)
qed

end
