(* ===== verification/Atomic_Hashmap.thy ===== *)
theory Atomic_Hashmap
  imports Referenced_Boxes Mathematics Complex_Main "HOL-Library.Log_Nat"
begin

text \<open>
  \<open>AtomicHashmap\<close> of \<open>AtomicHashmap.h\<close>: a table of several levels with one candidate bucket per
  level for each key. A bucket holds the addresses of a key cell and a value cell; the state of
  a map has the buckets and the two heaps. The operations here are run by one thread without
  interference, so a strong compare-and-swap of a value just loaded succeeds. The hasher is an
  argument. An access outside the buckets or to a deleted cell and a division by zero are \<open>None\<close>.
\<close>

section \<open>Buckets\<close>

record bucket =
  bucket_key :: nat
  bucket_value :: nat

definition ConcurrentMapBucket :: bucket where
  "ConcurrentMapBucket = \<lparr>bucket_key = 0, bucket_value = 0\<rparr>"

record ('k, 'v) hashmap =
  M_capacity :: u64
  M_level_size :: u64
  M_level_capacity :: "u64 list"
  M_buckets :: "bucket list"
  key_boxes :: "'k boxes"
  value_boxes :: "'v boxes"

definition bucket_at :: "nat \<Rightarrow> ('k, 'v) hashmap \<Rightarrow> bucket option" where
  "bucket_at i s = (if i < length (M_buckets s) then Some (M_buckets s ! i) else None)"

definition AccessKey :: "nat \<Rightarrow> ('k, 'v) hashmap \<Rightarrow> (nat \<times> ('k, 'v) hashmap) option" where
  "AccessKey i s = do {
     b \<leftarrow> bucket_at i s;
     (acc, h) \<leftarrow> Accessor (bucket_key b) (key_boxes s);
     Some (acc, s\<lparr>key_boxes := h\<rparr>)
   }"

definition AccessValue :: "nat \<Rightarrow> ('k, 'v) hashmap \<Rightarrow> (nat \<times> ('k, 'v) hashmap) option" where
  "AccessValue i s = do {
     b \<leftarrow> bucket_at i s;
     (acc, h) \<leftarrow> Accessor (bucket_value b) (value_boxes s);
     Some (acc, s\<lparr>value_boxes := h\<rparr>)
   }"

text \<open>The result of \<open>ExchangeImpl\<close> is the success, the old pointer and the new state.\<close>

definition ExchangeImpl_key :: "nat \<Rightarrow> nat \<Rightarrow> ('k, 'v) hashmap \<Rightarrow> (bool \<times> nat \<times> ('k, 'v) hashmap) option" where
  "ExchangeImpl_key i composed s = do {
     b \<leftarrow> bucket_at i s;
     Some (True, bucket_key b, s\<lparr>M_buckets := (M_buckets s)[i := b\<lparr>bucket_key := composed\<rparr>]\<rparr>)
   }"

definition ExchangeImpl_value :: "nat \<Rightarrow> nat \<Rightarrow> ('k, 'v) hashmap \<Rightarrow> (bool \<times> nat \<times> ('k, 'v) hashmap) option" where
  "ExchangeImpl_value i composed s = do {
     b \<leftarrow> bucket_at i s;
     Some (True, bucket_value b, s\<lparr>M_buckets := (M_buckets s)[i := b\<lparr>bucket_value := composed\<rparr>]\<rparr>)
   }"

definition Exchange_key :: "nat \<Rightarrow> nat \<Rightarrow> ('k, 'v) hashmap \<Rightarrow> (bool \<times> ('k, 'v) hashmap) option" where
  "Exchange_key i composed s = do {
     (ok, old, s) \<leftarrow> ExchangeImpl_key i composed s;
     if ok then do { h \<leftarrow> deallocate old (key_boxes s); Some (True, s\<lparr>key_boxes := h\<rparr>) }
     else Some (False, s)
   }"

definition Exchange_value :: "nat \<Rightarrow> nat \<Rightarrow> ('k, 'v) hashmap \<Rightarrow> (bool \<times> ('k, 'v) hashmap) option" where
  "Exchange_value i composed s = do {
     (ok, old, s) \<leftarrow> ExchangeImpl_value i composed s;
     if ok then do { h \<leftarrow> deallocate old (value_boxes s); Some (True, s\<lparr>value_boxes := h\<rparr>) }
     else Some (False, s)
   }"

definition Swap :: "bucket \<Rightarrow> bucket \<Rightarrow> bucket \<times> bucket" where
  "Swap b b' = (\<lparr>bucket_key = bucket_key b', bucket_value = bucket_value b'\<rparr>,
                \<lparr>bucket_key = bucket_key b, bucket_value = bucket_value b\<rparr>)"

definition Bucket_Cleanup :: "nat \<Rightarrow> ('k, 'v) hashmap \<Rightarrow> ('k, 'v) hashmap option" where
  "Bucket_Cleanup i s = do {
     (_, s) \<leftarrow> Exchange_key i 0 s;
     (_, s) \<leftarrow> Exchange_value i 0 s;
     Some s
   }"

definition IsOccupied :: "nat \<Rightarrow> ('k, 'v) hashmap \<Rightarrow> bool option" where
  "IsOccupied i s = do { b \<leftarrow> bucket_at i s; Some (bucket_key b \<noteq> 0) }"

definition IsOccupied_key :: "nat \<Rightarrow> 'k \<Rightarrow> ('k, 'v) hashmap \<Rightarrow> (bool \<times> ('k, 'v) hashmap) option" where
  "IsOccupied_key i rhs s = do {
     (accessor, s) \<leftarrow> AccessKey i s;
     r \<leftarrow> (if has accessor then do { k \<leftarrow> value_of accessor (key_boxes s); Some (k = rhs) } else Some False);
     h \<leftarrow> Accessor_dtor accessor (key_boxes s);
     Some (r, s\<lparr>key_boxes := h\<rparr>)
   }"

definition IsAvailable :: "nat \<Rightarrow> 'k \<Rightarrow> ('k, 'v) hashmap \<Rightarrow> (bool \<times> ('k, 'v) hashmap) option" where
  "IsAvailable i rhs s = do {
     (accessor, s) \<leftarrow> AccessKey i s;
     r \<leftarrow> (if \<not> has accessor then Some True else do { k \<leftarrow> value_of accessor (key_boxes s); Some (k = rhs) });
     h \<leftarrow> Accessor_dtor accessor (key_boxes s);
     Some (r, s\<lparr>key_boxes := h\<rparr>)
   }"

section \<open>Sizes of the levels\<close>

text \<open>
  Doubles are the rationals they stand for: \<open>binary64\<close> rounds to 53 bits, ties to even, and a conversion
  to \<open>size_t\<close> truncates (\<open>None\<close> outside the range, which C++ leaves undefined). The logarithm of the
  C library is an argument.
\<close>

definition round_even :: "rat \<Rightarrow> int" where
  "round_even x = (let f = \<lfloor>x\<rfloor>; d = x - of_int f in
     if d < 1 / 2 then f else if d > 1 / 2 then f + 1 else if even f then f else f + 1)"

definition binary64_pos :: "rat \<Rightarrow> rat" where
  "binary64_pos x =
     (let (p, q) = quotient_of x;
          k = int (floorlog 2 (nat p)) - int (floorlog 2 (nat q));
          e = (if x < 2 powi k then k - 53 else k - 52)
      in of_int (round_even (x / 2 powi e)) * 2 powi e)"

definition binary64 :: "rat \<Rightarrow> rat" where
  "binary64 x = (if x = 0 then 0 else if x < 0 then - binary64_pos (- x) else binary64_pos x)"

definition double_of :: "u64 \<Rightarrow> rat" where
  "double_of n = binary64 (of_nat (unat n))"

definition size_of :: "rat \<Rightarrow> u64 option" where
  "size_of x = (let t = (if x \<ge> 0 then \<lfloor>x\<rfloor> else \<lceil>x\<rceil>) in if 0 \<le> t \<and> t < 2 ^ 64 then Some (word_of_int t) else None)"

definition occupied_ratio :: rat where
  "occupied_ratio = binary64 (989 / 1000)"

definition ln_ratio :: "(rat \<Rightarrow> rat) \<Rightarrow> rat" where
  "ln_ratio libm_log = - libm_log (binary64 (1 - occupied_ratio))"

fun gen_levels :: "rat \<Rightarrow> nat \<Rightarrow> u64 \<Rightarrow> u64 list \<Rightarrow> u64 \<Rightarrow> (int \<times> u64 list \<times> u64) option" where
  "gen_levels ratio 0 n capacities all = Some (0, capacities, all)"
| "gen_levels ratio (Suc i) n capacities all = do {
     m \<leftarrow> size_of (binary64 (double_of n / ratio));
     c \<leftarrow> NextPrime m;
     let capacities = capacities @ [c];
     let all = all + c;
     occupied \<leftarrow> size_of (binary64 (double_of c * occupied_ratio));
     if n < occupied then Some (-1, capacities, all)
     else do {
       n \<leftarrow> size_of (binary64 (double_of n - binary64 (double_of c * occupied_ratio)));
       gen_levels ratio i n capacities all
     }
   }"

definition GenMultiLevelSize :: "(rat \<Rightarrow> rat) \<Rightarrow> u64 \<Rightarrow> u64 \<Rightarrow> (int \<times> u64 list \<times> u64) option" where
  "GenMultiLevelSize libm_log n level = gen_levels (ln_ratio libm_log) (unat level) n [] 0"

section \<open>The map\<close>

datatype hashmap_error = Invalid_capacity_or_level_size

definition new_boxes :: "'a boxes" where
  "new_boxes = \<lparr>cells = \<lambda>_. None, next_box = 1\<rparr>"

definition AtomicHashmap :: "(rat \<Rightarrow> rat) \<Rightarrow> u64 \<Rightarrow> u64 \<Rightarrow> (hashmap_error + ('k, 'v) hashmap) option" where
  "AtomicHashmap libm_log expected_capacity level_size = do {
     (r, _, capacity) \<leftarrow> GenMultiLevelSize libm_log expected_capacity level_size;
     if r \<noteq> 0 then Some (Inl Invalid_capacity_or_level_size)
     else if capacity = 0 then None
     else do {
       let n = expected_capacity * expected_capacity div capacity;
       (r, capacities, capacity) \<leftarrow> GenMultiLevelSize libm_log n level_size;
       if r \<noteq> 0 then Some (Inl Invalid_capacity_or_level_size)
       else Some (Inr \<lparr>M_capacity = capacity, M_level_size = level_size, M_level_capacity = capacities,
         M_buckets = replicate (unat capacity) ConcurrentMapBucket, key_boxes = new_boxes, value_boxes = new_boxes\<rparr>)
     }
   }"

text \<open>The destructor frees the buckets, which have no destructor of their own.\<close>

definition AtomicHashmap_dtor :: "('k, 'v) hashmap \<Rightarrow> ('k, 'v) hashmap" where
  "AtomicHashmap_dtor s = s\<lparr>M_buckets := []\<rparr>"

fun lookup_levels :: "u64 list \<Rightarrow> nat \<Rightarrow> u64 \<Rightarrow> 'k \<Rightarrow> ('k, 'v) hashmap \<Rightarrow> (nat option \<times> ('k, 'v) hashmap) option" where
  "lookup_levels [] base hash key s = Some (None, s)"
| "lookup_levels (capacity # rest) base hash key s =
     (if capacity = 0 then None
      else do {
        let bucket = base + unat (hash mod capacity);
        (occupied, s) \<leftarrow> IsOccupied_key bucket key s;
        if occupied then Some (Some bucket, s)
        else lookup_levels rest (base + unat capacity) hash key s
      })"

definition Lookup :: "('k \<Rightarrow> u64) \<Rightarrow> 'k \<Rightarrow> ('k, 'v) hashmap \<Rightarrow> (nat option \<times> ('k, 'v) hashmap) option" where
  "Lookup hasher key s = lookup_levels (M_level_capacity s) 0 (hasher key) key s"

fun occupy_levels :: "u64 list \<Rightarrow> nat \<Rightarrow> u64 \<Rightarrow> 'k \<Rightarrow> nat \<Rightarrow> ('k, 'v) hashmap \<Rightarrow> (nat option \<times> ('k, 'v) hashmap) option" where
  "occupy_levels [] base hash key composed s =
     (if composed \<noteq> 0 then do { h \<leftarrow> deallocate composed (key_boxes s); Some (None, s\<lparr>key_boxes := h\<rparr>) }
      else Some (None, s))"
| "occupy_levels (capacity # rest) base hash key composed s =
     (if capacity = 0 then None
      else do {
        let bucket = base + unat (hash mod capacity);
        (available, s) \<leftarrow> IsAvailable bucket key s;
        if available then do {
          let (composed, h) = (if composed = 0 then clone key (key_boxes s) else (composed, key_boxes s));
          let s = s\<lparr>key_boxes := h\<rparr>;
          if composed = 0 then Some (None, s)
          else do {
            (ok, s) \<leftarrow> Exchange_key bucket composed s;
            if ok then Some (Some bucket, s)
            else occupy_levels rest (base + unat capacity) hash key composed s
          }
        }
        else occupy_levels rest (base + unat capacity) hash key composed s
      })"

definition Occupy :: "('k \<Rightarrow> u64) \<Rightarrow> 'k \<Rightarrow> ('k, 'v) hashmap \<Rightarrow> (nat option \<times> ('k, 'v) hashmap) option" where
  "Occupy hasher key s = occupy_levels (M_level_capacity s) 0 (hasher key) key 0 s"

definition Get :: "('k \<Rightarrow> u64) \<Rightarrow> 'k \<Rightarrow> ('k, 'v) hashmap \<Rightarrow> (nat \<times> ('k, 'v) hashmap) option" where
  "Get hasher key s = do {
     (bucket, s) \<leftarrow> Lookup hasher key s;
     case bucket of Some i \<Rightarrow> AccessValue i s | None \<Rightarrow> Some (0, s)
   }"

definition Set :: "('k \<Rightarrow> u64) \<Rightarrow> 'k \<Rightarrow> 'v \<Rightarrow> ('k, 'v) hashmap \<Rightarrow> (int \<times> ('k, 'v) hashmap) option" where
  "Set hasher key v s = do {
     (bucket, s) \<leftarrow> Occupy hasher key s;
     case bucket of
       None \<Rightarrow> Some (-2, s)
     | Some i \<Rightarrow> do {
         let (composed, h) = clone v (value_boxes s);
         let s = s\<lparr>value_boxes := h\<rparr>;
         if composed = 0 then Some (-12, s)
         else do { (_, s) \<leftarrow> Exchange_value i composed s; Some (0, s) }
       }
   }"

fun walk_if :: "(nat \<Rightarrow> 's \<Rightarrow> (bool \<times> 's) option) \<Rightarrow> (nat \<Rightarrow> 's \<Rightarrow> 's option) \<Rightarrow> nat list \<Rightarrow> 's \<Rightarrow> 's option" where
  "walk_if occupied walker [] s = Some s"
| "walk_if occupied walker (i # rest) s = do {
     (b, s) \<leftarrow> occupied i s;
     s \<leftarrow> (if b then walker i s else Some s);
     walk_if occupied walker rest s
   }"

abbreviation bucket_indices :: "('k, 'v) hashmap \<Rightarrow> nat list" where
  "bucket_indices s \<equiv> [0 ..< unat (M_capacity s)]"

definition WalkAll :: "(nat \<Rightarrow> ('k, 'v) hashmap \<Rightarrow> ('k, 'v) hashmap option) \<Rightarrow> ('k, 'v) hashmap \<Rightarrow> ('k, 'v) hashmap option" where
  "WalkAll walker s = walk_if (\<lambda>i s. do { b \<leftarrow> IsOccupied i s; Some (b, s) }) walker (bucket_indices s) s"

definition WalkKey :: "'k \<Rightarrow> (nat \<Rightarrow> ('k, 'v) hashmap \<Rightarrow> ('k, 'v) hashmap option) \<Rightarrow> ('k, 'v) hashmap \<Rightarrow> ('k, 'v) hashmap option" where
  "WalkKey key walker s = walk_if (\<lambda>i. IsOccupied_key i key) walker (bucket_indices s) s"

text \<open>The walks that pass accessors destroy them when the walker returns; it may have copied them.\<close>

definition with_accessors :: "(nat \<Rightarrow> nat \<Rightarrow> ('k, 'v) hashmap \<Rightarrow> ('k, 'v) hashmap option) \<Rightarrow> nat \<Rightarrow> ('k, 'v) hashmap \<Rightarrow> ('k, 'v) hashmap option" where
  "with_accessors walker i s = do {
     (k, s) \<leftarrow> AccessKey i s;
     (v, s) \<leftarrow> AccessValue i s;
     s \<leftarrow> walker k v s;
     h \<leftarrow> Accessor_dtor v (value_boxes s);
     h' \<leftarrow> Accessor_dtor k (key_boxes s);
     Some (s\<lparr>value_boxes := h, key_boxes := h'\<rparr>)
   }"

definition WalkAll_access :: "(nat \<Rightarrow> nat \<Rightarrow> ('k, 'v) hashmap \<Rightarrow> ('k, 'v) hashmap option) \<Rightarrow> ('k, 'v) hashmap \<Rightarrow> ('k, 'v) hashmap option" where
  "WalkAll_access walker s = WalkAll (with_accessors walker) s"

definition WalkKey_access :: "'k \<Rightarrow> (nat \<Rightarrow> nat \<Rightarrow> ('k, 'v) hashmap \<Rightarrow> ('k, 'v) hashmap option) \<Rightarrow> ('k, 'v) hashmap \<Rightarrow> ('k, 'v) hashmap option" where
  "WalkKey_access key walker s = WalkKey key (with_accessors walker) s"

definition Delete :: "'k \<Rightarrow> ('k, 'v) hashmap \<Rightarrow> (int \<times> ('k, 'v) hashmap) option" where
  "Delete key s = do { s \<leftarrow> WalkKey key Bucket_Cleanup s; Some (0, s) }"

definition Cleanup :: "('k, 'v) hashmap \<Rightarrow> ('k, 'v) hashmap option" where
  "Cleanup s = WalkAll Bucket_Cleanup s"

definition Cleanup_one :: "nat option \<Rightarrow> ('k, 'v) hashmap \<Rightarrow> ('k, 'v) hashmap option" where
  "Cleanup_one bucket s =
     (case bucket of
        None \<Rightarrow> Some s
      | Some i \<Rightarrow> do { b \<leftarrow> IsOccupied i s; if b then Bucket_Cleanup i s else Some s })"

section \<open>Iterators\<close>

text \<open>An iterator is the index of its bucket and the end.\<close>

function advance_to_next_valid :: "nat \<Rightarrow> nat \<Rightarrow> ('k, 'v) hashmap \<Rightarrow> nat option" where
  "advance_to_next_valid current stop s =
     (if current = stop then Some current
      else if length (M_buckets s) \<le> current then None
      else if bucket_key (M_buckets s ! current) \<noteq> 0 then Some current
      else advance_to_next_valid (Suc current) stop s)"
  by pat_completeness auto
termination by (relation "measure (\<lambda>(current, stop, s). length (M_buckets s) - current)") auto

declare advance_to_next_valid.simps [simp del]

definition begin_it :: "('k, 'v) hashmap \<Rightarrow> nat option" where
  "begin_it s = advance_to_next_valid 0 (unat (M_capacity s)) s"

definition end_it :: "('k, 'v) hashmap \<Rightarrow> nat option" where
  "end_it s = advance_to_next_valid (unat (M_capacity s)) (unat (M_capacity s)) s"

definition next_it :: "nat \<Rightarrow> ('k, 'v) hashmap \<Rightarrow> nat option" where
  "next_it current s = advance_to_next_valid (Suc current) (unat (M_capacity s)) s"

definition post_next_it :: "nat \<Rightarrow> ('k, 'v) hashmap \<Rightarrow> (nat \<times> nat) option" where
  "post_next_it current s = do { n \<leftarrow> next_it current s; Some (current, n) }"

definition eq_it :: "nat \<Rightarrow> nat \<Rightarrow> bool" where
  "eq_it it other \<longleftrightarrow> it = other"

definition ne_it :: "nat \<Rightarrow> nat \<Rightarrow> bool" where
  "ne_it it other \<longleftrightarrow> \<not> eq_it it other"

end
