(* ===== verification/Hashmap_Laws.thy ===== *)
theory Hashmap_Laws
  imports Atomic_Hashmap
begin

text \<open>
  What \<open>AtomicHashmap\<close> promises to one thread: the laws of a finite map, with exact reference counts of
  every key and value cell.
\<close>

section \<open>References held by the buckets\<close>

definition ref1 :: "nat \<Rightarrow> nat \<Rightarrow> nat" where
  "ref1 a x = (if x = a \<and> a \<noteq> 0 then 1 else 0)"

definition held :: "(bucket \<Rightarrow> nat) \<Rightarrow> bucket list \<Rightarrow> nat \<Rightarrow> nat" where
  "held f bs x = length (filter (\<lambda>b. f b = x \<and> x \<noteq> 0) bs)"

lemma ref1_0 [simp]: "ref1 0 x = 0" "ref1 a 0 = 0"
  by (auto simp: ref1_def)

lemma held_split:
  assumes "i < length bs"
  shows "held f (bs[i := b]) x = held f (take i bs) x + ref1 (f b) x + held f (drop (Suc i) bs) x"
  unfolding held_def ref1_def upd_conv_take_nth_drop [OF assms] by auto

lemma held_update:
  assumes "i < length bs"
  shows "held f (bs[i := b]) x + ref1 (f (bs ! i)) x = held f bs x + ref1 (f b) x"
  using held_split [OF assms, of f b x] held_split [OF assms, of f "bs ! i" x] by simp

lemma held_same:
  assumes "f b = f (bs ! i)"
  shows "held f (bs[i := b]) = held f bs"
proof (cases "i < length bs")
  case True
  then show ?thesis using held_update [OF True, of f b] assms by (auto simp: fun_eq_iff)
qed (simp add: list_update_beyond)

lemma held_nth: "i < length bs \<Longrightarrow> f (bs ! i) \<noteq> 0 \<Longrightarrow> 0 < held f bs (f (bs ! i))"
  by (auto simp: held_def filter_empty_conv)

lemma held_unique:
  assumes "held f bs (f (bs ! i)) \<le> 1" and "i < length bs" and "j < length bs" and "i \<noteq> j" and "f (bs ! i) \<noteq> 0"
  shows "f (bs ! j) \<noteq> f (bs ! i)"
proof
  assume "f (bs ! j) = f (bs ! i)"
  then have "{i, j} \<subseteq> {m. m < length bs \<and> f (bs ! m) = f (bs ! i) \<and> f (bs ! i) \<noteq> 0}" using assms(2-5) by simp
  then have "card {i, j} \<le> card {m. m < length bs \<and> f (bs ! m) = f (bs ! i) \<and> f (bs ! i) \<noteq> 0}" by (intro card_mono) auto
  then show False using assms(1,4) by (simp add: held_def length_filter_conv_card)
qed

lemma swap_box:
  assumes e: "exact h (\<lambda>x. held f bs x + A x + ref1 a x)" and u: "\<And>x. held f bs x \<le> 1"
    and i: "i < length bs" and b: "f b = a" and new: "held f bs a = 0"
  shows "\<exists>h'. deallocate (f (bs ! i)) h = Some h' \<and> exact h' (\<lambda>x. held f (bs[i := b]) x + A x) \<and>
    (\<forall>x. held f (bs[i := b]) x \<le> 1) \<and> value_of a h' = value_of a h \<and>
    (\<forall>j < length bs. j \<noteq> i \<longrightarrow> value_of (f (bs ! j)) h' = value_of (f (bs ! j)) h) \<and>
    (\<forall>x. 0 < A x \<longrightarrow> value_of x h' = value_of x h)"
proof -
  let ?o = "f (bs ! i)" and ?N = "\<lambda>x. held f bs x + A x + ref1 a x"
  have upd: "held f (bs[i := b]) x + ref1 ?o x = held f bs x + ref1 a x" for x using held_update [OF i, of f b x] b by simp
  have le: "held f (bs[i := b]) x \<le> 1" for x using upd [of x] u [of x] new by (cases "x = a") (auto simp: ref1_def split: if_splits)
  show ?thesis
  proof (cases "?o = 0")
    case True
    then have "(\<lambda>x. held f (bs[i := b]) x + A x) = ?N" using upd by (auto simp: fun_eq_iff)
    then show ?thesis using True e le by (auto simp: deallocate_drop)
  next
    case False
    then have o: "0 < held f bs ?o" using held_nth [OF i] by blast
    then have oa: "?o \<noteq> a" using new by auto
    have n: "(?N(?o := ?N ?o - 1)) = (\<lambda>x. held f (bs[i := b]) x + A x)"
    proof
      fix x show "(?N(?o := ?N ?o - 1)) x = held f (bs[i := b]) x + A x"
        using upd [of x] o oa False by (auto simp: ref1_def)
    qed
    have "0 < ?N ?o" using o by simp
    from drop_exact [OF e this] obtain h' where h': "drop_box ?o h = Some h'" "exact h' (?N(?o := ?N ?o - 1))" by blast
    have v: "value_of x h' = (if x = ?o \<and> ?N ?o = 1 then None else value_of x h)" for x
      using drop_exact [OF e \<open>0 < ?N ?o\<close>, of x] h'(1) by auto
    have "f (bs ! j) \<noteq> ?o" if "j < length bs" "j \<noteq> i" for j
      using held_unique [OF u i that(1) _ False] that(2) by metis
    moreover have "?N ?o \<noteq> 1" if "0 < A ?o" using that o by simp
    ultimately show ?thesis using h' v le oa False unfolding n deallocate_drop by (intro exI [of _ h']) auto
  qed
qed

section \<open>The invariant of a map\<close>

text \<open>\<open>A\<close> and \<open>B\<close> count the accessors to keys and values that the program holds.\<close>

definition table_ok :: "('k, 'v) hashmap \<Rightarrow> (nat \<Rightarrow> nat) \<Rightarrow> (nat \<Rightarrow> nat) \<Rightarrow> bool" where
  "table_ok s A B \<longleftrightarrow>
     unat (M_capacity s) = length (M_buckets s) \<and> sum_list (map unat (M_level_capacity s)) = length (M_buckets s) \<and>
     0 \<notin> set (M_level_capacity s) \<and>
     exact (key_boxes s) (\<lambda>x. held bucket_key (M_buckets s) x + A x) \<and>
     exact (value_boxes s) (\<lambda>x. held bucket_value (M_buckets s) x + B x) \<and>
     (\<forall>x. held bucket_key (M_buckets s) x \<le> 1) \<and> (\<forall>x. held bucket_value (M_buckets s) x \<le> 1)"

definition few :: "(nat \<Rightarrow> nat) \<Rightarrow> bool" where
  "few A \<longleftrightarrow> (\<forall>x. A x < 2 ^ 31 - 3)"

definition key_at :: "('k, 'v) hashmap \<Rightarrow> nat \<Rightarrow> 'k option" where
  "key_at s i = value_of (bucket_key (M_buckets s ! i)) (key_boxes s)"

definition value_at :: "('k, 'v) hashmap \<Rightarrow> nat \<Rightarrow> 'v option" where
  "value_at s i = value_of (bucket_value (M_buckets s ! i)) (value_boxes s)"

lemma table_okD:
  assumes "table_ok s A B"
  shows "unat (M_capacity s) = length (M_buckets s)" "sum_list (map unat (M_level_capacity s)) = length (M_buckets s)"
    "0 \<notin> set (M_level_capacity s)" "exact (key_boxes s) (\<lambda>x. held bucket_key (M_buckets s) x + A x)"
    "exact (value_boxes s) (\<lambda>x. held bucket_value (M_buckets s) x + B x)"
    "held bucket_key (M_buckets s) x \<le> 1" "held bucket_value (M_buckets s) x \<le> 1"
  using assms by (auto simp: table_ok_def)

lemma key_accessor:
  assumes ok: "table_ok s A B" and i: "i < length (M_buckets s)" and A: "few A"
  shows "\<exists>h. AccessKey i s = Some (bucket_key (M_buckets s ! i), s\<lparr>key_boxes := h\<rparr>) \<and>
    value_of (bucket_key (M_buckets s ! i)) h = key_at s i \<and> Accessor_dtor (bucket_key (M_buckets s ! i)) h = Some (key_boxes s) \<and>
    (bucket_key (M_buckets s ! i) = 0 \<longleftrightarrow> key_at s i = None)"
proof -
  let ?a = "bucket_key (M_buckets s ! i)"
  note e = table_okD(4) [OF ok]
  have p: "0 < held bucket_key (M_buckets s) ?a + A ?a" if "?a \<noteq> 0" using held_nth [of i "M_buckets s" bucket_key] i that by simp
  have "held bucket_key (M_buckets s) ?a + A ?a < 2 ^ 31 - 1"
    using table_okD(6) [OF ok, of ?a] A [unfolded few_def, rule_format, of ?a] by linarith
  from Accessor_read [OF e p this] obtain h where "Accessor ?a (key_boxes s) = Some (?a, h)"
    "value_of ?a h = value_of ?a (key_boxes s)" "Accessor_dtor ?a h = Some (key_boxes s)" by blast
  moreover have "?a = 0 \<longleftrightarrow> key_at s i = None"
    using exact_null [OF e] exact_value [OF e p] by (cases "?a = 0") (auto simp: key_at_def)
  ultimately show ?thesis using i by (auto simp: AccessKey_def bucket_at_def key_at_def)
qed

lemma key_reads:
  assumes "table_ok s A B" and "i < length (M_buckets s)" and "few A"
  shows "IsOccupied_key i k s = Some (key_at s i = Some k, s)"
    and "IsAvailable i k s = Some (key_at s i = None \<or> key_at s i = Some k, s)"
  using key_accessor [OF assms] by (auto simp: IsOccupied_key_def IsAvailable_def has_def)

section \<open>The probe sequence\<close>

fun probe :: "('k, 'v) hashmap \<Rightarrow> ('k option \<Rightarrow> bool) \<Rightarrow> u64 \<Rightarrow> u64 list \<Rightarrow> nat \<Rightarrow> nat option" where
  "probe s P hash [] base = None"
| "probe s P hash (c # cs) base =
     (if P (key_at s (base + unat (hash mod c))) then Some (base + unat (hash mod c))
      else probe s P hash cs (base + unat c))"

lemma level_index:
  assumes "c \<noteq> (0 :: u64)" and "base + sum_list (map unat (c # cs)) = n"
  shows "base + unat (hash mod c) < n" and "(base + unat c) + sum_list (map unat cs) = n"
proof -
  have "unat (hash mod c) < unat c" using assms(1) by (simp add: unat_mod unat_gt_0)
  then show "base + unat (hash mod c) < n" "(base + unat c) + sum_list (map unat cs) = n" using assms(2) by simp_all
qed

lemma probe_less:
  assumes "probe s P hash cs base = Some i" and "0 \<notin> set cs" and "base + sum_list (map unat cs) = n"
  shows "i < n" and "P (key_at s i)"
proof -
  have "i < n \<and> P (key_at s i)" using assms
  proof (induction cs arbitrary: base)
    case (Cons c cs)
    then have c: "c \<noteq> 0" by auto
    show ?case
    proof (cases "P (key_at s (base + unat (hash mod c)))")
      case True
      then show ?thesis using Cons.prems level_index(1) [OF c Cons.prems(3), of hash] by simp
    next
      case False
      then show ?thesis using Cons.IH [of "base + unat c"] Cons.prems level_index(2) [OF c Cons.prems(3)] by simp
    qed
  qed simp
  then show "i < n" "P (key_at s i)" by blast+
qed

lemma lookup_levels_probe:
  assumes ok: "table_ok s A B" and A: "few A" and "0 \<notin> set cs" and "base + sum_list (map unat cs) = length (M_buckets s)"
  shows "lookup_levels cs base hash k s = Some (probe s (\<lambda>x. x = Some k) hash cs base, s)"
  using assms(3,4)
proof (induction cs arbitrary: base)
  case (Cons c cs)
  then have c: "c \<noteq> 0" by auto
  show ?case using key_reads(1) [OF ok level_index(1) [OF c Cons.prems(2)] A, of hash k]
      Cons.IH [of "base + unat c"] Cons.prems(1) level_index(2) [OF c Cons.prems(2)] c by simp
qed simp

definition take_bucket :: "nat \<Rightarrow> 'k \<Rightarrow> ('k, 'v) hashmap \<Rightarrow> (nat option \<times> ('k, 'v) hashmap) option" where
  "take_bucket i k s = (let (a, h) = clone k (key_boxes s) in do { (_, s) \<leftarrow> Exchange_key i a (s\<lparr>key_boxes := h\<rparr>); Some (Some i, s) })"

lemma clone_fst: "exact h N \<Longrightarrow> fst (clone x h) \<noteq> 0"
  by (simp add: clone_def Let_def exact_def)

lemma Exchange_key_True: "Exchange_key i a s = Some (r, s') \<Longrightarrow> r"
  by (auto simp: Exchange_key_def ExchangeImpl_key_def bind_eq_Some_conv)

lemma occupy_levels_probe:
  assumes ok: "table_ok s A B" and A: "few A" and "0 \<notin> set cs" and "base + sum_list (map unat cs) = length (M_buckets s)"
  shows "occupy_levels cs base hash k 0 s =
    (case probe s (\<lambda>x. x = None \<or> x = Some k) hash cs base of None \<Rightarrow> Some (None, s) | Some i \<Rightarrow> take_bucket i k s)"
  using assms(3,4)
proof (induction cs arbitrary: base)
  case (Cons c cs)
  then have c: "c \<noteq> 0" by auto
  let ?i = "base + unat (hash mod c)"
  note r = key_reads(2) [OF ok level_index(1) [OF c Cons.prems(2)] A, of hash k]
  note IH = Cons.IH [of "base + unat c"] level_index(2) [OF c Cons.prems(2)]
  show ?case
  proof (cases "key_at s ?i = None \<or> key_at s ?i = Some k")
    case True
    obtain a h where a: "clone k (key_boxes s) = (a, h)" by (cases "clone k (key_boxes s)")
    then have "a \<noteq> 0" using clone_fst [OF table_okD(4) [OF ok], of k] by simp
    then show ?thesis using True r c a
      by (auto simp: take_bucket_def Let_def split: Option.bind_splits dest!: Exchange_key_True)
  next
    case False
    then show ?thesis using r c IH Cons.prems(1) by (auto simp: Let_def)
  qed
qed simp

definition contents :: "('k \<Rightarrow> u64) \<Rightarrow> ('k, 'v) hashmap \<Rightarrow> 'k \<Rightarrow> 'v option" where
  "contents hasher s k =
     (case probe s (\<lambda>x. x = Some k) (hasher k) (M_level_capacity s) 0 of None \<Rightarrow> None | Some i \<Rightarrow> value_at s i)"

lemma probe_cong:
  assumes "\<And>i. i < n \<Longrightarrow> P (key_at s i) = P' (key_at s' i)" and "0 \<notin> set cs" and "base + sum_list (map unat cs) = n"
  shows "probe s P hash cs base = probe s' P' hash cs base"
  using assms(2,3)
proof (induction cs arbitrary: base)
  case (Cons c cs)
  then have c: "c \<noteq> 0" by auto
  show ?case using assms(1) [OF level_index(1) [OF c Cons.prems(2)]] Cons.IH [of "base + unat c"]
    Cons.prems(1) level_index(2) [OF c Cons.prems(2)] by simp
qed simp

section \<open>Writing a bucket\<close>

text \<open>A write keeps the shape of the table and the cells that accessors hold.\<close>

definition same_table :: "(nat \<Rightarrow> nat) \<Rightarrow> (nat \<Rightarrow> nat) \<Rightarrow> ('k, 'v) hashmap \<Rightarrow> ('k, 'v) hashmap \<Rightarrow> bool" where
  "same_table A B s s' \<longleftrightarrow> M_level_capacity s' = M_level_capacity s \<and> M_capacity s' = M_capacity s \<and>
     length (M_buckets s') = length (M_buckets s) \<and>
     (\<forall>x. 0 < A x \<longrightarrow> value_of x (key_boxes s') = value_of x (key_boxes s)) \<and>
     (\<forall>x. 0 < B x \<longrightarrow> value_of x (value_boxes s') = value_of x (value_boxes s))"

lemma same_table_refl: "same_table A B s s"
  by (simp add: same_table_def)

lemma same_table_trans: "same_table A B s t \<Longrightarrow> same_table A B t u \<Longrightarrow> same_table A B s u"
  by (simp add: same_table_def)

lemma Exchange_key_ok:
  assumes ok: "table_ok s A B" and i: "i < length (M_buckets s)"
    and e: "exact h (\<lambda>x. held bucket_key (M_buckets s) x + A x + ref1 a x)" and new: "held bucket_key (M_buckets s) a = 0"
    and fr: "\<And>x. held bucket_key (M_buckets s) x + A x > 0 \<or> x = 0 \<Longrightarrow> value_of x h = value_of x (key_boxes s)"
  shows "\<exists>s'. Exchange_key i a (s\<lparr>key_boxes := h\<rparr>) = Some (True, s') \<and> table_ok s' A B \<and> same_table A B s s' \<and>
    (\<forall>j < length (M_buckets s). key_at s' j = (if j = i then value_of a h else key_at s j) \<and> value_at s' j = value_at s j) \<and>
    M_buckets s' = (M_buckets s)[i := (M_buckets s ! i)\<lparr>bucket_key := a\<rparr>]"
proof -
  let ?bs = "M_buckets s" and ?b = "(M_buckets s ! i)\<lparr>bucket_key := a\<rparr>"
  from swap_box [OF e table_okD(6) [OF ok] i _ new, of ?b] obtain h' where
    h': "deallocate (bucket_key (?bs ! i)) h = Some h'" "exact h' (\<lambda>x. held bucket_key (?bs[i := ?b]) x + A x)"
      "\<forall>x. held bucket_key (?bs[i := ?b]) x \<le> 1" "value_of a h' = value_of a h"
      "\<forall>j < length ?bs. j \<noteq> i \<longrightarrow> value_of (bucket_key (?bs ! j)) h' = value_of (bucket_key (?bs ! j)) h"
      "\<forall>x. 0 < A x \<longrightarrow> value_of x h' = value_of x h" by auto
  define s' where "s' = s\<lparr>M_buckets := ?bs[i := ?b], key_boxes := h'\<rparr>"
  have "Exchange_key i a (s\<lparr>key_boxes := h\<rparr>) = Some (True, s')"
    using i h'(1) by (simp add: Exchange_key_def ExchangeImpl_key_def bucket_at_def s'_def)
  moreover have "held bucket_value (?bs[i := ?b]) = held bucket_value ?bs" by (rule held_same) simp
  then have "table_ok s' A B" using ok h'(2,3) by (simp add: table_ok_def s'_def)
  moreover have "same_table A B s s'" using h'(6) fr by (simp add: same_table_def s'_def)
  moreover have "value_of (bucket_key (?bs ! j)) h = key_at s j" if "j < length ?bs" for j
    using fr [of "bucket_key (?bs ! j)"] held_nth [OF that, of bucket_key] by (auto simp: key_at_def)
  then have "key_at s' j = (if j = i then value_of a h else key_at s j) \<and> value_at s' j = value_at s j" if "j < length ?bs" for j
    using h'(4,5) that by (auto simp: key_at_def value_at_def s'_def nth_list_update)
  moreover have "M_buckets s' = ?bs[i := ?b]" by (simp add: s'_def)
  ultimately show ?thesis by blast
qed

lemma Exchange_value_ok:
  assumes ok: "table_ok s A B" and i: "i < length (M_buckets s)"
    and e: "exact h (\<lambda>x. held bucket_value (M_buckets s) x + B x + ref1 a x)" and new: "held bucket_value (M_buckets s) a = 0"
    and fr: "\<And>x. held bucket_value (M_buckets s) x + B x > 0 \<or> x = 0 \<Longrightarrow> value_of x h = value_of x (value_boxes s)"
  shows "\<exists>s'. Exchange_value i a (s\<lparr>value_boxes := h\<rparr>) = Some (True, s') \<and> table_ok s' A B \<and> same_table A B s s' \<and>
    (\<forall>j < length (M_buckets s). value_at s' j = (if j = i then value_of a h else value_at s j) \<and> key_at s' j = key_at s j) \<and>
    M_buckets s' = (M_buckets s)[i := (M_buckets s ! i)\<lparr>bucket_value := a\<rparr>]"
proof -
  let ?bs = "M_buckets s" and ?b = "(M_buckets s ! i)\<lparr>bucket_value := a\<rparr>"
  from swap_box [OF e table_okD(7) [OF ok] i _ new, of ?b] obtain h' where
    h': "deallocate (bucket_value (?bs ! i)) h = Some h'" "exact h' (\<lambda>x. held bucket_value (?bs[i := ?b]) x + B x)"
      "\<forall>x. held bucket_value (?bs[i := ?b]) x \<le> 1" "value_of a h' = value_of a h"
      "\<forall>j < length ?bs. j \<noteq> i \<longrightarrow> value_of (bucket_value (?bs ! j)) h' = value_of (bucket_value (?bs ! j)) h"
      "\<forall>x. 0 < B x \<longrightarrow> value_of x h' = value_of x h" by auto
  define s' where "s' = s\<lparr>M_buckets := ?bs[i := ?b], value_boxes := h'\<rparr>"
  have "Exchange_value i a (s\<lparr>value_boxes := h\<rparr>) = Some (True, s')"
    using i h'(1) by (simp add: Exchange_value_def ExchangeImpl_value_def bucket_at_def s'_def)
  moreover have "held bucket_key (?bs[i := ?b]) = held bucket_key ?bs" by (rule held_same) simp
  then have "table_ok s' A B" using ok h'(2,3) by (simp add: table_ok_def s'_def)
  moreover have "same_table A B s s'" using h'(6) fr by (simp add: same_table_def s'_def)
  moreover have "value_of (bucket_value (?bs ! j)) h = value_at s j" if "j < length ?bs" for j
    using fr [of "bucket_value (?bs ! j)"] held_nth [OF that, of bucket_value] by (auto simp: value_at_def)
  then have "value_at s' j = (if j = i then value_of a h else value_at s j) \<and> key_at s' j = key_at s j" if "j < length ?bs" for j
    using h'(4,5) that by (auto simp: key_at_def value_at_def s'_def nth_list_update)
  moreover have "M_buckets s' = ?bs[i := ?b]" by (simp add: s'_def)
  ultimately show ?thesis by blast
qed

lemma clone_ref1:
  assumes e: "exact h N" and c: "clone x h = (a, h')"
  shows "exact h' (\<lambda>y. N y + ref1 a y)" and "N a = 0" and "value_of a h' = Some x" and "a \<noteq> 0"
    and "0 < N y \<or> y = 0 \<Longrightarrow> value_of y h' = value_of y h"
proof -
  note cl = clone_exact [OF e c]
  have "(\<lambda>y. N y + ref1 a y) = N(a := 1)" using cl(2,3) by (auto simp: ref1_def)
  then show "exact h' (\<lambda>y. N y + ref1 a y)" using cl(1) by simp
  show "N a = 0" "value_of a h' = Some x" "a \<noteq> 0" using cl by auto
  show "0 < N y \<or> y = 0 \<Longrightarrow> value_of y h' = value_of y h" using cl(2,3,4) by auto
qed

lemma take_bucket_ok:
  assumes ok: "table_ok s A B" and i: "i < length (M_buckets s)"
  shows "\<exists>s'. take_bucket i k s = Some (Some i, s') \<and> table_ok s' A B \<and> same_table A B s s' \<and>
    (\<forall>j < length (M_buckets s). key_at s' j = (if j = i then Some k else key_at s j) \<and> value_at s' j = value_at s j)"
proof -
  obtain a h where c: "clone k (key_boxes s) = (a, h)" by (cases "clone k (key_boxes s)")
  note cl = clone_ref1 [OF table_okD(4) [OF ok] c]
  have "held bucket_key (M_buckets s) a = 0" using cl(2) by simp
  from Exchange_key_ok [OF ok i cl(1) this cl(5)] cl(3) c show ?thesis by (auto simp: take_bucket_def)
qed

lemma put_value_ok:
  assumes ok: "table_ok s A B" and i: "i < length (M_buckets s)" and c: "clone v (value_boxes s) = (a, h)"
  shows "a \<noteq> 0 \<and> (\<exists>s'. Exchange_value i a (s\<lparr>value_boxes := h\<rparr>) = Some (True, s') \<and> table_ok s' A B \<and> same_table A B s s' \<and>
    (\<forall>j < length (M_buckets s). value_at s' j = (if j = i then Some v else value_at s j) \<and> key_at s' j = key_at s j))"
proof -
  note cl = clone_ref1 [OF table_okD(5) [OF ok] c]
  have "held bucket_value (M_buckets s) a = 0" using cl(2) by simp
  from Exchange_value_ok [OF ok i cl(1) this cl(5)] cl(3,4) show ?thesis by auto
qed

lemma Bucket_Cleanup_ok:
  assumes ok: "table_ok s A B" and i: "i < length (M_buckets s)"
  shows "\<exists>s'. Bucket_Cleanup i s = Some s' \<and> table_ok s' A B \<and> same_table A B s s' \<and>
    (\<forall>j < length (M_buckets s). key_at s' j = (if j = i then None else key_at s j) \<and>
       value_at s' j = (if j = i then None else value_at s j)) \<and>
    (\<forall>j < length (M_buckets s). bucket_value (M_buckets s' ! j) = (if j = i then 0 else bucket_value (M_buckets s ! j)))"
proof -
  have "held bucket_key (M_buckets s) 0 = 0" by (simp add: held_def)
  moreover have "exact (key_boxes s) (\<lambda>x. held bucket_key (M_buckets s) x + A x + ref1 0 x)" using table_okD(4) [OF ok] by simp
  ultimately obtain s1 where s1: "Exchange_key i 0 s = Some (True, s1)" "table_ok s1 A B" "same_table A B s s1"
    "\<forall>j < length (M_buckets s). key_at s1 j = (if j = i then None else key_at s j) \<and> value_at s1 j = value_at s j"
    "M_buckets s1 = (M_buckets s)[i := (M_buckets s ! i)\<lparr>bucket_key := 0\<rparr>]"
    using Exchange_key_ok [OF ok i, of "key_boxes s" 0] exact_null [OF table_okD(4) [OF ok]] by auto
  have i1: "i < length (M_buckets s1)" using i s1(3) by (simp add: same_table_def)
  have "held bucket_value (M_buckets s1) 0 = 0" by (simp add: held_def)
  moreover have "exact (value_boxes s1) (\<lambda>x. held bucket_value (M_buckets s1) x + B x + ref1 0 x)" using table_okD(5) [OF s1(2)] by simp
  ultimately obtain s2 where s2: "Exchange_value i 0 s1 = Some (True, s2)" "table_ok s2 A B" "same_table A B s1 s2"
    "\<forall>j < length (M_buckets s1). value_at s2 j = (if j = i then None else value_at s1 j) \<and> key_at s2 j = key_at s1 j"
    "M_buckets s2 = (M_buckets s1)[i := (M_buckets s1 ! i)\<lparr>bucket_value := 0\<rparr>]"
    using Exchange_value_ok [OF s1(2) i1, of "value_boxes s1" 0] exact_null [OF table_okD(5) [OF s1(2)]] by auto
  have "length (M_buckets s1) = length (M_buckets s)" using s1(3) by (simp add: same_table_def)
  moreover have "\<forall>j < length (M_buckets s). bucket_value (M_buckets s2 ! j) = (if j = i then 0 else bucket_value (M_buckets s ! j))"
    unfolding s2(5) s1(5) using i by (simp add: nth_list_update)
  ultimately show ?thesis using s1(1-4) s2(1-4) same_table_trans [OF s1(3) s2(3)] by (auto simp: Bucket_Cleanup_def)
qed

section \<open>The operations as operations of a map\<close>

lemma contents_cong:
  assumes ok: "table_ok s A B" and "M_level_capacity s' = M_level_capacity s"
    and "\<And>j. j < length (M_buckets s) \<Longrightarrow> (key_at s' j = Some k) = (key_at s j = Some k)"
    and "\<And>j. j < length (M_buckets s) \<Longrightarrow> key_at s j = Some k \<Longrightarrow> value_at s' j = value_at s j"
  shows "contents hasher s' k = contents hasher s k"
proof -
  let ?P = "\<lambda>x. x = Some k"
  note l = table_okD(2,3) [OF ok]
  have "probe s' ?P (hasher k) (M_level_capacity s) 0 = probe s ?P (hasher k) (M_level_capacity s) 0"
    by (rule probe_cong [OF _ l(2)]) (use assms(3) l(1) in auto)
  moreover have "value_at s' i = value_at s i" if "probe s ?P (hasher k) (M_level_capacity s) 0 = Some i" for i
    using probe_less [OF that l(2)] l(1) assms(4) by simp
  ultimately show ?thesis unfolding contents_def assms(2) by (auto split: option.split)
qed

lemma Lookup_ok: "table_ok s A B \<Longrightarrow> few A \<Longrightarrow>
    Lookup hasher k s = Some (probe s (\<lambda>x. x = Some k) (hasher k) (M_level_capacity s) 0, s)"
  unfolding Lookup_def by (rule lookup_levels_probe) (auto dest: table_okD)

lemma Get_ok:
  assumes ok: "table_ok s A B" and A: "few A" and B: "few B"
  shows "\<exists>a s'. Get hasher k s = Some (a, s') \<and> value_of a (value_boxes s') = contents hasher s k \<and>
    table_ok s' A (\<lambda>x. B x + ref1 a x) \<and> contents hasher s' = contents hasher s \<and> same_table A B s s'"
proof (cases "probe s (\<lambda>x. x = Some k) (hasher k) (M_level_capacity s) 0")
  case None
  then have "Get hasher k s = Some (0, s)" using Lookup_ok [OF ok A] by (simp add: Get_def)
  then show ?thesis using None ok exact_null [OF table_okD(5) [OF ok]] by (simp add: contents_def same_table_refl)
next
  case (Some i)
  have i: "i < length (M_buckets s)" using probe_less(1) [OF Some table_okD(3) [OF ok]] table_okD(2) [OF ok] by simp
  let ?a = "bucket_value (M_buckets s ! i)"
  have g: "Get hasher k s = do { (acc, h) \<leftarrow> Accessor ?a (value_boxes s); Some (acc, s\<lparr>value_boxes := h\<rparr>) }"
    using Some i Lookup_ok [OF ok A] by (simp add: Get_def AccessValue_def bucket_at_def)
  have c: "contents hasher s k = value_of ?a (value_boxes s)" using Some by (simp add: contents_def value_at_def)
  note e = table_okD(5) [OF ok]
  show ?thesis
  proof (cases "?a = 0")
    case True
    then show ?thesis using g c ok exact_null [OF e] by (simp add: Accessor_def same_table_refl)
  next
    case False
    then have "0 < held bucket_value (M_buckets s) ?a + B ?a" using held_nth [OF i, of bucket_value] by simp
    moreover have "held bucket_value (M_buckets s) ?a + B ?a < 2 ^ 31 - 1"
      using table_okD(7) [OF ok, of ?a] B [unfolded few_def, rule_format, of ?a] by linarith
    ultimately obtain h where h: "Acquire ?a (value_boxes s) = Some (True, h)"
      "exact h ((\<lambda>x. held bucket_value (M_buckets s) x + B x)(?a := Suc (held bucket_value (M_buckets s) ?a + B ?a)))"
      using Acquire_exact [OF e, of ?a] by auto
    have v: "value_of x h = value_of x (value_boxes s)" for x
      using h(1) by (auto simp: Acquire_def value_of_def bind_eq_Some_conv split: if_splits)
    have "(\<lambda>x. held bucket_value (M_buckets s) x + B x)(?a := Suc (held bucket_value (M_buckets s) ?a + B ?a)) =
        (\<lambda>x. held bucket_value (M_buckets s) x + (B x + ref1 ?a x))" using False by (auto simp: ref1_def)
    then have "table_ok (s\<lparr>value_boxes := h\<rparr>) A (\<lambda>x. B x + ref1 ?a x)" using ok h(2) by (simp add: table_ok_def)
    moreover have "contents hasher (s\<lparr>value_boxes := h\<rparr>) k' = contents hasher s k'" for k'
      by (rule contents_cong [OF ok]) (simp_all add: key_at_def value_at_def v)
    moreover have "same_table A B s (s\<lparr>value_boxes := h\<rparr>)" by (simp add: same_table_def v)
    ultimately show ?thesis using g c h(1) False v by (auto simp: Accessor_def)
  qed
qed

definition full_for :: "('k \<Rightarrow> u64) \<Rightarrow> ('k, 'v) hashmap \<Rightarrow> 'k \<Rightarrow> bool" where
  "full_for hasher s k \<longleftrightarrow> probe s (\<lambda>x. x = None \<or> x = Some k) (hasher k) (M_level_capacity s) 0 = None"

text \<open>A key is looked up where it was put, because the buckets before are taken by other keys.\<close>

lemma probe_found:
  assumes "probe s (\<lambda>x. x = None \<or> x = Some k) hash cs base = Some i" and "0 \<notin> set cs"
    and "base + sum_list (map unat cs) = n"
    and "\<And>j. j < n \<Longrightarrow> key_at s' j = (if j = i then Some k else key_at s j)"
  shows "probe s' (\<lambda>x. x = Some k) hash cs base = Some i"
  using assms(1-3)
proof (induction cs arbitrary: base)
  case (Cons c cs)
  then have c: "c \<noteq> 0" by auto
  let ?j = "base + unat (hash mod c)"
  have j: "key_at s' ?j = (if ?j = i then Some k else key_at s ?j)" using assms(4) level_index(1) [OF c Cons.prems(3)] by blast
  show ?case
  proof (cases "key_at s ?j = None \<or> key_at s ?j = Some k")
    case True
    then show ?thesis using Cons.prems(1) j by auto
  next
    case False
    then have p: "probe s (\<lambda>x. x = None \<or> x = Some k) hash cs (base + unat c) = Some i" using Cons.prems(1) by (auto split: if_splits)
    have "0 \<notin> set cs" using Cons.prems(2) by simp
    note IH = Cons.IH [OF p this level_index(2) [OF c Cons.prems(3)]]
    show ?thesis
    proof (cases "?j = i")
      case True
      then show ?thesis using j by simp
    next
      case other: False
      then have "key_at s' ?j \<noteq> Some k" using j False by simp
      then show ?thesis using IH by simp
    qed
  qed
qed simp

lemma Set_ok:
  assumes ok: "table_ok s A B" and A: "few A"
  shows "\<exists>s'. Set hasher k v s = Some (if full_for hasher s k then -2 else 0, s') \<and> table_ok s' A B \<and> same_table A B s s' \<and>
    contents hasher s' = (if full_for hasher s k then contents hasher s else (contents hasher s)(k \<mapsto> v))"
proof -
  note l = table_okD(2,3) [OF ok]
  have o: "Occupy hasher k s = (case probe s (\<lambda>x. x = None \<or> x = Some k) (hasher k) (M_level_capacity s) 0 of
      None \<Rightarrow> Some (None, s) | Some i \<Rightarrow> take_bucket i k s)"
    unfolding Occupy_def by (rule occupy_levels_probe [OF ok A l(2)]) (simp add: l(1))
  show ?thesis
  proof (cases "probe s (\<lambda>x. x = None \<or> x = Some k) (hasher k) (M_level_capacity s) 0")
    case None
    then show ?thesis using o ok by (simp add: Set_def full_for_def same_table_refl)
  next
    case (Some i)
    have z: "0 + sum_list (map unat (M_level_capacity s)) = length (M_buckets s)" using l(1) by simp
    have i: "i < length (M_buckets s)" by (rule probe_less(1) [OF Some l(2) z])
    from take_bucket_ok [OF ok i, of k] obtain s1 where s1: "take_bucket i k s = Some (Some i, s1)" "table_ok s1 A B" "same_table A B s s1"
      "\<forall>j < length (M_buckets s). key_at s1 j = (if j = i then Some k else key_at s j) \<and> value_at s1 j = value_at s j" by blast
    have n: "length (M_buckets s1) = length (M_buckets s)" using s1(3) by (simp add: same_table_def)
    obtain a h where c: "clone v (value_boxes s1) = (a, h)" by (cases "clone v (value_boxes s1)")
    from put_value_ok [OF s1(2) _ c, of i] i n obtain s2 where s2: "a \<noteq> 0" "Exchange_value i a (s1\<lparr>value_boxes := h\<rparr>) = Some (True, s2)"
      "table_ok s2 A B" "same_table A B s1 s2"
      "\<forall>j < length (M_buckets s). value_at s2 j = (if j = i then Some v else value_at s1 j) \<and> key_at s2 j = key_at s1 j" by auto
    have t: "same_table A B s s2" by (rule same_table_trans [OF s1(3) s2(4)])
    then have caps: "M_level_capacity s2 = M_level_capacity s" by (simp add: same_table_def)
    have "probe s2 (\<lambda>x. x = Some k) (hasher k) (M_level_capacity s) 0 = Some i"
      by (rule probe_found [OF Some l(2) z]) (use s1(4) s2(5) in auto)
    then have "contents hasher s2 k = Some v" using s2(5) i by (simp add: contents_def caps)
    moreover have "contents hasher s2 k' = contents hasher s k'" if "k' \<noteq> k" for k'
    proof (rule contents_cong [OF ok caps])
      have "key_at s i = None \<or> key_at s i = Some k" using probe_less(2) [OF Some l(2) z] by simp
      then show "(key_at s2 j = Some k') = (key_at s j = Some k')" if "j < length (M_buckets s)" for j
        using that s1(4) s2(5) \<open>k' \<noteq> k\<close> by auto
      show "value_at s2 j = value_at s j" if "j < length (M_buckets s)" "key_at s j = Some k'" for j
        using that s1(4) s2(5) \<open>k' \<noteq> k\<close> \<open>key_at s i = None \<or> key_at s i = Some k\<close> by auto
    qed
    ultimately have "contents hasher s2 = (contents hasher s)(k \<mapsto> v)" by auto
    then show ?thesis using o Some s1(1) c s2(1-3) t by (simp add: Set_def full_for_def)
  qed
qed

lemma walk_key_ok:
  assumes "table_ok s A B" and "few A" and "\<forall>i \<in> set is. i < length (M_buckets s)" and "distinct is"
  shows "\<exists>s'. walk_if (\<lambda>i. IsOccupied_key i k) Bucket_Cleanup is s = Some s' \<and> table_ok s' A B \<and> same_table A B s s' \<and>
    (\<forall>j < length (M_buckets s). let gone = j \<in> set is \<and> key_at s j = Some k in
       key_at s' j = (if gone then None else key_at s j) \<and> value_at s' j = (if gone then None else value_at s j) \<and>
       bucket_value (M_buckets s' ! j) = (if gone then 0 else bucket_value (M_buckets s ! j)))"
  using assms
proof (induction "is" arbitrary: s)
  case Nil
  then show ?case by (simp add: same_table_refl)
next
  case (Cons i "is")
  have i: "i < length (M_buckets s)" using Cons.prems(3) by simp
  note r = key_reads(1) [OF Cons.prems(1) i Cons.prems(2), of k]
  obtain s1 where s1: "(if key_at s i = Some k then Bucket_Cleanup i s else Some s) = Some s1" "table_ok s1 A B" "same_table A B s s1"
    "\<forall>j < length (M_buckets s). key_at s1 j = (if j = i \<and> key_at s i = Some k then None else key_at s j) \<and>
       value_at s1 j = (if j = i \<and> key_at s i = Some k then None else value_at s j) \<and>
       bucket_value (M_buckets s1 ! j) = (if j = i \<and> key_at s i = Some k then 0 else bucket_value (M_buckets s ! j))"
    using Bucket_Cleanup_ok [OF Cons.prems(1) i] Cons.prems(1) by (cases "key_at s i = Some k") (auto simp: same_table_refl)
  have n: "length (M_buckets s1) = length (M_buckets s)" using s1(3) by (simp add: same_table_def)
  from Cons.IH [OF s1(2) Cons.prems(2)] Cons.prems(3,4) n obtain s2 where
    s2: "walk_if (\<lambda>i. IsOccupied_key i k) Bucket_Cleanup is s1 = Some s2" "table_ok s2 A B" "same_table A B s1 s2"
    "\<forall>j < length (M_buckets s). let gone = j \<in> set is \<and> key_at s1 j = Some k in
       key_at s2 j = (if gone then None else key_at s1 j) \<and> value_at s2 j = (if gone then None else value_at s1 j) \<and>
       bucket_value (M_buckets s2 ! j) = (if gone then 0 else bucket_value (M_buckets s1 ! j))" by auto
  have "walk_if (\<lambda>i. IsOccupied_key i k) Bucket_Cleanup (i # is) s = Some s2" using r s1(1) s2(1) by simp
  then show ?case using s2(2,4) s1(4) same_table_trans [OF s1(3) s2(3)] Cons.prems(4)
    by (intro exI [of _ s2]) (auto simp: Let_def)
qed

lemma Delete_ok:
  assumes ok: "table_ok s A B" and A: "few A"
  shows "\<exists>s'. Delete k s = Some (0, s') \<and> table_ok s' A B \<and> same_table A B s s' \<and> contents hasher s' = (contents hasher s)(k := None) \<and>
    (\<forall>j < length (M_buckets s). bucket_value (M_buckets s' ! j) = (if key_at s j = Some k then 0 else bucket_value (M_buckets s ! j)))"
proof -
  have "\<forall>i \<in> set (bucket_indices s). i < length (M_buckets s)" using table_okD(1) [OF ok] by simp
  from walk_key_ok [OF ok A this, of k] table_okD(1) [OF ok] obtain s' where
    s': "WalkKey k Bucket_Cleanup s = Some s'" "table_ok s' A B" "same_table A B s s'"
    "\<forall>j < length (M_buckets s). key_at s' j = (if key_at s j = Some k then None else key_at s j) \<and>
       value_at s' j = (if key_at s j = Some k then None else value_at s j) \<and>
       bucket_value (M_buckets s' ! j) = (if key_at s j = Some k then 0 else bucket_value (M_buckets s ! j))" by (auto simp: WalkKey_def Let_def)
  have caps: "M_level_capacity s' = M_level_capacity s" using s'(3) by (simp add: same_table_def)
  have "probe s' (\<lambda>x. x = Some k) (hasher k) (M_level_capacity s) 0 = probe s (\<lambda>x. False) (hasher k) (M_level_capacity s) 0"
    by (rule probe_cong [OF _ table_okD(3) [OF ok]]) (use s'(4) table_okD(2) [OF ok] in auto)
  moreover have "probe s (\<lambda>x. False) hash cs base = None" for hash cs base by (induction cs arbitrary: base) auto
  ultimately have "contents hasher s' k = None" by (simp add: contents_def caps)
  moreover have "contents hasher s' k' = contents hasher s k'" if "k' \<noteq> k" for k'
    by (rule contents_cong [OF ok caps]) (use s'(4) that in auto)
  ultimately have "contents hasher s' = (contents hasher s)(k := None)" by auto
  then show ?thesis using s' by (auto simp: Delete_def)
qed

section \<open>Walks over all buckets\<close>

lemma advance_spec:
  assumes "i \<le> n" and "n \<le> length (M_buckets s)"
  shows "\<exists>j. advance_to_next_valid i n s = Some j \<and> i \<le> j \<and> j \<le> n \<and>
    (\<forall>m. i \<le> m \<and> m < j \<longrightarrow> bucket_key (M_buckets s ! m) = 0) \<and> (j < n \<longrightarrow> bucket_key (M_buckets s ! j) \<noteq> 0)"
  using assms
proof (induction i n s rule: advance_to_next_valid.induct)
  case (1 i n s)
  show ?case
  proof (cases "i = n \<or> bucket_key (M_buckets s ! i) \<noteq> 0")
    case True
    then show ?thesis using 1(2,3) by (intro exI [of _ i]) (auto simp: advance_to_next_valid.simps [of i])
  next
    case False
    with 1(2,3) have "i \<noteq> n" "\<not> length (M_buckets s) \<le> i" "\<not> bucket_key (M_buckets s ! i) \<noteq> 0" "Suc i \<le> n" by auto
    from 1(1) [OF this 1(3)] obtain j where "advance_to_next_valid (Suc i) n s = Some j" "Suc i \<le> j" "j \<le> n"
      "\<forall>m. Suc i \<le> m \<and> m < j \<longrightarrow> bucket_key (M_buckets s ! m) = 0" "j < n \<longrightarrow> bucket_key (M_buckets s ! j) \<noteq> 0" by blast
    then show ?thesis using False \<open>\<not> length (M_buckets s) \<le> i\<close>
      by (intro exI [of _ j]) (auto simp: advance_to_next_valid.simps [of i] le_Suc_eq Suc_le_eq dest: le_neq_implies_less)
  qed
qed

lemma walk_all_ok:
  assumes "table_ok s A B" and "\<forall>i \<in> set is. i < length (M_buckets s)"
  shows "\<exists>s'. walk_if (\<lambda>i s. do { b \<leftarrow> IsOccupied i s; Some (b, s) }) Bucket_Cleanup is s = Some s' \<and> table_ok s' A B \<and>
    same_table A B s s' \<and> (\<forall>j < length (M_buckets s). key_at s' j = (if j \<in> set is then None else key_at s j))"
  using assms
proof (induction "is" arbitrary: s)
  case Nil
  then show ?case by (simp add: same_table_refl)
next
  case (Cons i "is")
  have i: "i < length (M_buckets s)" using Cons.prems(2) by simp
  let ?o = "bucket_key (M_buckets s ! i) \<noteq> 0"
  have "key_at s i = None" if "\<not> ?o" using that exact_null [OF table_okD(4) [OF Cons.prems(1)]] by (simp add: key_at_def)
  then obtain s1 where s1: "(if ?o then Bucket_Cleanup i s else Some s) = Some s1" "table_ok s1 A B" "same_table A B s s1"
    "\<forall>j < length (M_buckets s). key_at s1 j = (if j = i then None else key_at s j)"
    using Bucket_Cleanup_ok [OF Cons.prems(1) i] Cons.prems(1) by (cases ?o) (auto simp: same_table_refl)
  have n: "length (M_buckets s1) = length (M_buckets s)" using s1(3) by (simp add: same_table_def)
  from Cons.IH [OF s1(2)] Cons.prems(2) n obtain s2 where
    s2: "walk_if (\<lambda>i s. do { b \<leftarrow> IsOccupied i s; Some (b, s) }) Bucket_Cleanup is s1 = Some s2" "table_ok s2 A B" "same_table A B s1 s2"
    "\<forall>j < length (M_buckets s). key_at s2 j = (if j \<in> set is then None else key_at s1 j)" by auto
  have "walk_if (\<lambda>i s. do { b \<leftarrow> IsOccupied i s; Some (b, s) }) Bucket_Cleanup (i # is) s = Some s2"
    using i s1(1) s2(1) by (simp add: IsOccupied_def bucket_at_def)
  then show ?case using s2(2,4) s1(4) same_table_trans [OF s1(3) s2(3)] by auto
qed

lemma Cleanup_ok:
  assumes ok: "table_ok s A B"
  shows "\<exists>s'. Cleanup s = Some s' \<and> table_ok s' A B \<and> same_table A B s s' \<and> contents hasher s' = Map.empty"
proof -
  have "\<forall>i \<in> set (bucket_indices s). i < length (M_buckets s)" using table_okD(1) [OF ok] by simp
  from walk_all_ok [OF ok this] table_okD(1) [OF ok] obtain s' where
    s': "Cleanup s = Some s'" "table_ok s' A B" "same_table A B s s'" "\<forall>j < length (M_buckets s). key_at s' j = None"
    by (auto simp: Cleanup_def WalkAll_def)
  have n: "length (M_buckets s') = length (M_buckets s)" using s'(3) by (simp add: same_table_def)
  have "contents hasher s' k = None" for k
  proof (cases "probe s' (\<lambda>x. x = Some k) (hasher k) (M_level_capacity s') 0")
    case (Some i)
    then show ?thesis using probe_less [OF Some table_okD(3) [OF s'(2)], of "length (M_buckets s')"] table_okD(2) [OF s'(2)] s'(4) n by simp
  qed (simp add: contents_def)
  then show ?thesis using s' by auto
qed

end
