(* ===== verification/Hashmap_History.thy ===== *)
theory Hashmap_History
  imports Hashmap_Laws
begin

text \<open>
  Whole runs of \<open>AtomicHashmap\<close>: the constructor, sequences of operations through the interface of a
  bounded map, and two interleavings of two threads that break the map.
\<close>

section \<open>A new map\<close>

lemma NextPrime_loop_nonzero:
  assumes "NextPrime_loop n = Some q"
  shows "q \<noteq> 0"
proof (rule NextPrime_loop.raw_induct [where P = "\<lambda>n q. q \<noteq> 0", OF _ assms])
  fix loop :: "u64 \<Rightarrow> u64 option" and n q
  assume "\<And>n q. loop n = Some q \<Longrightarrow> q \<noteq> 0"
    and "IsPrime n \<bind> (\<lambda>b. if b then Some n else loop (n + 2)) = Some q"
  then show "q \<noteq> 0" by (auto simp: bind_eq_Some_conv IsPrime_def split: if_splits)
qed

lemma NextPrime_nonzero: "NextPrime n = Some q \<Longrightarrow> q \<noteq> 0"
  by (auto simp: NextPrime_def dest: NextPrime_loop_nonzero split: if_splits)

lemma gen_levels_ok:
  assumes "gen_levels ratio i n caps all = Some (0, caps', all')" and "0 \<notin> set caps" and "all = of_nat (sum_list (map unat caps))"
  shows "0 \<notin> set caps' \<and> all' = of_nat (sum_list (map unat caps')) \<and> length caps' = length caps + i"
  using assms
proof (induction i arbitrary: n caps all)
  case (Suc i)
  then obtain c n' where c: "NextPrime (n' :: u64) = Some c"
    and r: "\<exists>m. gen_levels ratio i m (caps @ [c]) (all + c) = Some (0, caps', all')"
    by (auto simp: bind_eq_Some_conv Let_def split: if_splits)
  from r obtain m where m: "gen_levels ratio i m (caps @ [c]) (all + c) = Some (0, caps', all')" by blast
  have "0 \<notin> set (caps @ [c])" using Suc.prems(2) NextPrime_nonzero [OF c] by auto
  moreover have "all + c = of_nat (sum_list (map unat (caps @ [c])))" using Suc.prems(3) by simp
  ultimately show ?case using Suc.IH [OF m] by simp
qed simp

lemma held_new: "held f (replicate n ConcurrentMapBucket) x = 0" if "f ConcurrentMapBucket = 0"
  using that by (auto simp: held_def filter_empty_conv)

lemma new_boxes_exact: "exact new_boxes (\<lambda>_. 0)"
  by (simp add: exact_def new_boxes_def)

lemma AtomicHashmap_ok:
  assumes new: "AtomicHashmap libm_log n l = Some (Inr s)" and small: "sum_list (map unat (M_level_capacity s)) < 2 ^ 64"
  shows "table_ok s (\<lambda>_. 0) (\<lambda>_. 0)" and "contents hasher s = Map.empty" and "length (M_level_capacity s) = unat l"
proof -
  from new obtain m caps cap where g: "GenMultiLevelSize libm_log m l = Some (0, caps, cap)"
    and s: "s = \<lparr>M_capacity = cap, M_level_size = l, M_level_capacity = caps,
      M_buckets = replicate (unat cap) ConcurrentMapBucket, key_boxes = new_boxes, value_boxes = new_boxes\<rparr>"
    by (auto simp: AtomicHashmap_def bind_eq_Some_conv Let_def split: if_splits)
  have c: "0 \<notin> set caps" "cap = of_nat (sum_list (map unat caps))" "length caps = unat l"
    using gen_levels_ok [OF g [unfolded GenMultiLevelSize_def]] by auto
  then have n: "unat cap = sum_list (map unat caps)" using small by (simp add: s of_nat_inverse)
  have h: "held bucket_key (M_buckets s) x = 0" "held bucket_value (M_buckets s) x = 0" for x
    using held_new [of bucket_key] held_new [of bucket_value] by (simp_all add: s ConcurrentMapBucket_def)
  show ok: "table_ok s (\<lambda>_. 0) (\<lambda>_. 0)" unfolding table_ok_def h using n c(1) by (simp add: s new_boxes_exact)
  have "key_at s i = None" if "i < length (M_buckets s)" for i
    using that by (simp add: s key_at_def ConcurrentMapBucket_def value_of_def new_boxes_def)
  then have "contents hasher s k = None" for k
    using probe_less [of s "\<lambda>x. x = Some k" "hasher k" "M_level_capacity s" 0 _ "length (M_buckets s)"] table_okD(2,3) [OF ok]
    by (cases "probe s (\<lambda>x. x = Some k) (hasher k) (M_level_capacity s) 0") (auto simp: contents_def)
  then show "contents hasher s = Map.empty" by auto
  show "length (M_level_capacity s) = unat l" using c(3) by (simp add: s)
qed

section \<open>Runs against an abstract map\<close>

datatype ('k, 'v) map_command = Put 'k 'v | Remove 'k | Find 'k

datatype 'v reply = Status int | Found "'v option"

text \<open>The replies a map may give: a \<open>Put\<close> may be refused, and a refused one changes nothing.\<close>

fun accepts :: "('k \<Rightarrow> 'v option) \<Rightarrow> (('k, 'v) map_command \<times> 'v reply) list \<Rightarrow> bool" where
  "accepts m [] \<longleftrightarrow> True"
| "accepts m ((Put k v, Status r) # t) \<longleftrightarrow> r = 0 \<and> accepts (m(k \<mapsto> v)) t \<or> r = -2 \<and> accepts m t"
| "accepts m ((Remove k, Status r) # t) \<longleftrightarrow> r = 0 \<and> accepts (m(k := None)) t"
| "accepts m ((Find k, Found x) # t) \<longleftrightarrow> x = m k \<and> accepts m t"
| "accepts m (_ # t) \<longleftrightarrow> False"

fun run_commands :: "('c \<Rightarrow> 's \<Rightarrow> ('r \<times> 's) option) \<Rightarrow> 'c list \<Rightarrow> 's \<Rightarrow> ('r list \<times> 's) option" where
  "run_commands f [] s = Some ([], s)"
| "run_commands f (c # cs) s = do { (r, s) \<leftarrow> f c s; (rs, s) \<leftarrow> run_commands f cs s; Some (r # rs, s) }"

text \<open>The interface of a map with bounded space.\<close>

locale bounded_map =
  fixes inv :: "'s \<Rightarrow> bool"
    and view :: "'s \<Rightarrow> 'k \<Rightarrow> 'v option"
    and full :: "'s \<Rightarrow> 'k \<Rightarrow> bool"
    and command :: "('k, 'v) map_command \<Rightarrow> 's \<Rightarrow> ('v reply \<times> 's) option"
  assumes put: "inv s \<Longrightarrow> \<exists>s'. command (Put k v) s = Some (Status (if full s k then -2 else 0), s') \<and> inv s' \<and>
      view s' = (if full s k then view s else (view s)(k \<mapsto> v))"
    and remove: "inv s \<Longrightarrow> \<exists>s'. command (Remove k) s = Some (Status 0, s') \<and> inv s' \<and> view s' = (view s)(k := None)"
    and find: "inv s \<Longrightarrow> \<exists>s'. command (Find k) s = Some (Found (view s k), s') \<and> inv s' \<and> view s' = view s"
begin

lemma run_accepted:
  "inv s \<Longrightarrow> \<exists>rs s'. run_commands command cs s = Some (rs, s') \<and> inv s' \<and> length rs = length cs \<and> accepts (view s) (zip cs rs)"
proof (induction cs arbitrary: s)
  case (Cons c cs)
  obtain r s1 where s1: "command c s = Some (r, s1)" "inv s1" "\<And>t. accepts (view s1) t \<Longrightarrow> accepts (view s) ((c, r) # t)"
  proof (cases c)
    case (Put k v)
    then show ?thesis using that put [OF Cons.prems, of k v] by (cases "full s k") auto
  next
    case (Remove k)
    then show ?thesis using that remove [OF Cons.prems, of k] by auto
  next
    case (Find k)
    then show ?thesis using that find [OF Cons.prems, of k] by auto
  qed
  then show ?case using Cons.IH [OF s1(2)] by fastforce
qed simp

end

text \<open>A reader takes an accessor, reads the value and destroys the accessor.\<close>

fun exec_map :: "('k \<Rightarrow> u64) \<Rightarrow> ('k, 'v) map_command \<Rightarrow> ('k, 'v) hashmap \<Rightarrow> ('v reply \<times> ('k, 'v) hashmap) option" where
  "exec_map hasher (Put k v) s = do { (r, s) \<leftarrow> Set hasher k v s; Some (Status r, s) }"
| "exec_map hasher (Remove k) s = do { (r, s) \<leftarrow> Delete k s; Some (Status r, s) }"
| "exec_map hasher (Find k) s = do {
     (a, s) \<leftarrow> Get hasher k s;
     let x = (if has a then value_of a (value_boxes s) else None);
     h \<leftarrow> Accessor_dtor a (value_boxes s);
     Some (Found x, s\<lparr>value_boxes := h\<rparr>)
   }"

lemma Accessor_dtor_ok:
  assumes ok: "table_ok s A (\<lambda>x. B x + ref1 a x)"
  shows "\<exists>h. Accessor_dtor a (value_boxes s) = Some h \<and> table_ok (s\<lparr>value_boxes := h\<rparr>) A B \<and>
    contents hasher (s\<lparr>value_boxes := h\<rparr>) = contents hasher s"
proof (cases "a = 0")
  case True
  then show ?thesis using ok by (simp add: Accessor_dtor_drop)
next
  case False
  let ?H = "held bucket_value (M_buckets s)" let ?N = "\<lambda>x. ?H x + (B x + ref1 a x)"
  note e = table_okD(5) [OF ok]
  have p: "0 < ?N a" using False by (simp add: ref1_def)
  obtain h where h: "drop_box a (value_boxes s) = Some h" "exact h (?N(a := ?N a - 1))"
    using drop_exact [OF e p] by blast
  have v: "value_of b h = (if b = a \<and> ?N a = 1 then None else value_of b (value_boxes s))" for b
    using drop_exact [OF e p, of b] h(1) by auto
  have "?N(a := ?N a - 1) = (\<lambda>x. ?H x + B x)" using False by (auto simp: ref1_def)
  then have ok': "table_ok (s\<lparr>value_boxes := h\<rparr>) A B" using ok h(2) by (simp add: table_ok_def)
  have "value_at (s\<lparr>value_boxes := h\<rparr>) j = value_at s j" if "j < length (M_buckets s)" for j
  proof (cases "bucket_value (M_buckets s ! j) = a")
    case True
    then have "0 < ?H a" using held_nth [OF that, of bucket_value] False by simp
    then have "?N a \<noteq> 1" using False by (simp add: ref1_def)
    then show ?thesis by (simp add: value_at_def v)
  qed (simp add: value_at_def v)
  then have "contents hasher (s\<lparr>value_boxes := h\<rparr>) k = contents hasher s k" for k
    by (intro contents_cong [OF ok]) (simp_all add: key_at_def)
  then show ?thesis using h(1) ok' False by (auto simp: Accessor_dtor_drop)
qed

interpretation hm: bounded_map "\<lambda>s. table_ok s (\<lambda>_. 0) (\<lambda>_. 0)" "contents hasher" "full_for hasher" "exec_map hasher"
  for hasher :: "'k \<Rightarrow> u64"
proof
  fix s :: "('k, 'v) hashmap" and k v
  assume ok: "table_ok s (\<lambda>_. 0) (\<lambda>_. 0)"
  have few: "few (\<lambda>_. 0)" by (simp add: few_def)
  show "\<exists>s'. exec_map hasher (Put k v) s = Some (Status (if full_for hasher s k then -2 else 0), s') \<and>
      table_ok s' (\<lambda>_. 0) (\<lambda>_. 0) \<and>
      contents hasher s' = (if full_for hasher s k then contents hasher s else (contents hasher s)(k \<mapsto> v))"
    using Set_ok [OF ok few, of hasher k v] by auto
  show "\<exists>s'. exec_map hasher (Remove k) s = Some (Status 0, s') \<and> table_ok s' (\<lambda>_. 0) (\<lambda>_. 0) \<and>
      contents hasher s' = (contents hasher s)(k := None)"
    using Delete_ok [OF ok few, of k hasher] by auto
  from Get_ok [OF ok few few, of hasher k] obtain a s1 where s1: "Get hasher k s = Some (a, s1)"
    "value_of a (value_boxes s1) = contents hasher s k" "table_ok s1 (\<lambda>_. 0) (\<lambda>x. 0 + ref1 a x)"
    "contents hasher s1 = contents hasher s" by blast
  from Accessor_dtor_ok [OF s1(3), of hasher] obtain h where h: "Accessor_dtor a (value_boxes s1) = Some h"
    "table_ok (s1\<lparr>value_boxes := h\<rparr>) (\<lambda>_. 0) (\<lambda>_. 0)" "contents hasher (s1\<lparr>value_boxes := h\<rparr>) = contents hasher s1" by auto
  have "(if has a then value_of a (value_boxes s1) else None) = contents hasher s k"
    using s1(2) exact_null [OF table_okD(5) [OF s1(3)]] by (auto simp: has_def)
  then show "\<exists>s'. exec_map hasher (Find k) s = Some (Found (contents hasher s k), s') \<and> table_ok s' (\<lambda>_. 0) (\<lambda>_. 0) \<and>
      contents hasher s' = contents hasher s" using s1(1,4) h by auto
qed

section \<open>Rounding\<close>

lemma floorlog_rat:
  assumes "0 < (p :: int)"
  shows "(2 :: rat) powi (int (floorlog 2 (nat p)) - 1) \<le> of_int p" and "of_int p < (2 :: rat) powi int (floorlog 2 (nat p))"
proof -
  let ?a = "floorlog 2 (nat p)"
  have a: "2 ^ (?a - 1) \<le> nat p" "nat p < 2 ^ ?a" using floorlog_bounds [of "nat p" 2] assms by auto
  have pos: "0 < ?a" using a assms by (auto intro!: Nat.gr0I)
  have n: "of_nat (nat p) = (of_int p :: rat)" using assms by simp
  have "(of_nat (2 ^ (?a - 1)) :: rat) \<le> of_nat (nat p)" using a(1) of_nat_le_iff by blast
  then have "(2 :: rat) ^ (?a - 1) \<le> of_int p" unfolding n by simp
  moreover have "int ?a - 1 = int (?a - 1)" using pos by simp
  ultimately show "(2 :: rat) powi (int ?a - 1) \<le> of_int p" by (simp only: power_int_of_nat)
  have "(of_nat (nat p) :: rat) < of_nat (2 ^ ?a)" using a(2) of_nat_less_iff by blast
  then show "of_int p < (2 :: rat) powi int ?a" unfolding n by simp
qed

lemma binary64_exponent:
  assumes "0 < x" and "quotient_of x = (p, q)"
  defines "k \<equiv> int (floorlog 2 (nat p)) - int (floorlog 2 (nat q))"
  shows "2 powi (k - 1) < x" and "x < 2 powi (k + 1)"
proof -
  have q: "0 < q" and x: "x = of_int p / of_int q" using assms(2) by (auto intro: quotient_of_denom_pos quotient_of_div)
  then have p: "0 < p" using assms(1) by (simp add: zero_less_divide_iff)
  let ?a = "int (floorlog 2 (nat p))" and ?b = "int (floorlog 2 (nat q))"
  have "k - 1 = (?a - 1) - ?b" "k + 1 = ?a - (?b - 1)" by (simp_all add: k_def)
  then have "(2 :: rat) powi (k - 1) = 2 powi (?a - 1) / 2 powi ?b" "(2 :: rat) powi (k + 1) = 2 powi ?a / 2 powi (?b - 1)"
    by (simp_all only: power_int_diff zero_neq_numeral [symmetric] not_False_eq_True disjI1)
  moreover have "(2 :: rat) powi (?a - 1) / 2 powi ?b < of_int p / of_int q"
    using floorlog_rat [OF p] floorlog_rat [OF q] q by (intro frac_less2) auto
  moreover have "of_int p / of_int q < (2 :: rat) powi ?a / 2 powi (?b - 1)"
    using floorlog_rat [OF p] floorlog_rat [OF q] p by (intro frac_less) auto
  ultimately show "2 powi (k - 1) < x" "x < 2 powi (k + 1)" using x by simp_all
qed

lemma binary64_eq:
  assumes "2 powi (e + 52) \<le> x" and "x < 2 powi (e + 53)"
  shows "binary64 x = of_int (round_even (x / 2 powi e)) * 2 powi e"
proof -
  have x: "0 < x" using assms(1) by (rule less_le_trans [rotated]) simp
  obtain p q where pq: "quotient_of x = (p, q)" by (cases "quotient_of x")
  define k where "k = int (floorlog 2 (nat p)) - int (floorlog 2 (nat q))"
  note b = binary64_exponent [OF x pq, folded k_def]
  have less: "i < j" if "(2 :: rat) powi i < 2 powi j" for i j :: int using that power_int_increasing [of j i "2 :: rat"] by force
  have "e = (if x < 2 powi k then k - 53 else k - 52)"
  proof (cases "x < 2 powi k")
    case True
    have "k - 1 < e + 53" "e + 52 < k" using less b(1) True assms by (meson le_less_trans less_trans)+
    then show ?thesis using True by simp
  next
    case False
    have "k < e + 53" "e + 52 < k + 1" using less b(2) False assms by (meson le_less_trans not_less)+
    then show ?thesis using False by simp
  qed
  then show ?thesis using x pq by (simp add: binary64_def binary64_pos_def k_def Let_def)
qed


lemma round_even_near:
  assumes "\<bar>y - of_int m\<bar> < 1 / 2 \<or> \<bar>y - of_int m\<bar> = 1 / 2 \<and> even m"
  shows "round_even y = m"
proof (cases "of_int m \<le> y")
  case True
  then have "\<lfloor>y\<rfloor> = m" using assms by (simp add: floor_eq_iff) linarith
  then show ?thesis using assms True by (auto simp: round_even_def)
next
  case False
  then have "\<lfloor>y\<rfloor> = m - 1" using assms by (simp add: floor_eq_iff) linarith
  then show ?thesis using assms False by (auto simp: round_even_def)
qed

lemma binary64_near:
  assumes "2 powi (e + 52) \<le> x" and "x < 2 powi (e + 53)"
    and "\<bar>x / 2 powi e - of_int m\<bar> < 1 / 2 \<or> \<bar>x / 2 powi e - of_int m\<bar> = 1 / 2 \<and> even m"
  shows "binary64 x = of_int m * 2 powi e"
  using binary64_eq [OF assms(1,2)] round_even_near [OF assms(3)] by simp

lemma size_of_floor:
  assumes "of_int k \<le> x" and "x < of_int k + 1" and "0 \<le> k" and "k < 2 ^ 64"
  shows "size_of x = Some (word_of_int k)"
proof -
  have "\<lfloor>x\<rfloor> = k" using assms(1,2) by (simp add: floor_eq_iff)
  moreover have "0 \<le> x" using assms(1,3) by (meson of_int_0_le_iff order_trans)
  ultimately show ?thesis using assms(3,4) by (simp add: size_of_def)
qed

section \<open>Properties\<close>

text \<open>C5. Run by one thread, the operations are those of a map, on every state whose reference counts are
  exact: \<open>Get\<close> returns an accessor to the value of the key, or the null accessor when there is none; \<open>Set\<close>
  stores the value, or returns \<open>-ENOENT\<close> and changes nothing when every bucket of the key is taken by
  another key; \<open>Delete\<close> removes the key and \<open>Cleanup\<close> every key. They return, keep the counts exact (so no cell
  leaks and none is used after it was deleted), and keep the cells that accessors hold.\<close>

theorem hashmap_operations:
  assumes "table_ok s A B" and "few A" and "few B"
  shows "(\<exists>a s'. Get hasher k s = Some (a, s') \<and> value_of a (value_boxes s') = contents hasher s k \<and>
      table_ok s' A (\<lambda>x. B x + ref1 a x) \<and> contents hasher s' = contents hasher s \<and> same_table A B s s') \<and>
    (\<exists>s'. Set hasher k v s = Some (if full_for hasher s k then -2 else 0, s') \<and> table_ok s' A B \<and> same_table A B s s' \<and>
      contents hasher s' = (if full_for hasher s k then contents hasher s else (contents hasher s)(k \<mapsto> v))) \<and>
    (\<exists>s'. Delete k s = Some (0, s') \<and> table_ok s' A B \<and> same_table A B s s' \<and>
      contents hasher s' = (contents hasher s)(k := None)) \<and>
    (\<exists>s'. Cleanup s = Some s' \<and> table_ok s' A B \<and> same_table A B s s' \<and> contents hasher s' = Map.empty)"
  using Cleanup_ok [OF assms(1), of hasher] Get_ok [OF assms, of hasher k] Set_ok [OF assms(1,2), of hasher k v] Delete_ok [OF assms(1,2), of k hasher] by blast

text \<open>A map made with one level of two buckets, and a hasher.\<close>

definition example_log :: "rat \<Rightarrow> rat" where
  "example_log x = - 5077650960835577 / 1125899906842624"

definition example_map :: "(nat, nat) hashmap" where
  "example_map = \<lparr>M_capacity = 2, M_level_size = 1, M_level_capacity = [2],
     M_buckets = replicate 2 ConcurrentMapBucket, key_boxes = new_boxes, value_boxes = new_boxes\<rparr>"

lemma occupied_ratio_eq: "occupied_ratio = 8908120062938841 / 9007199254740992"
  unfolding occupied_ratio_def by (subst binary64_near [of "-53" _ 8908120062938841]) (simp_all add: power_int_def power_divide)

lemma example_roundings:
  "binary64 (5) = 5"
  "binary64 (2) = 2"
  "binary64 (12) = 12"
  "binary64 (5629499534213120 / 5077650960835577) = 4993059231545231 / 4503599627370496"
  "binary64 (13510798882111488 / 5077650960835577) = 5991671077854277 / 2251799813685248"
  "binary64 (8908120062938841 / 4503599627370496) = 8908120062938841 / 4503599627370496"
  "binary64 (13609878073913639 / 4503599627370496) = 1701234759239205 / 562949953421312"
  "binary64 (45135075465507111 / 4503599627370496) = 5641884433188389 / 562949953421312"
  subgoal by (subst binary64_near [of "-50" _ 5629499534213120]) (simp_all add: power_int_def power_divide)
  subgoal by (subst binary64_near [of "-51" _ 4503599627370496]) (simp_all add: power_int_def power_divide)
  subgoal by (subst binary64_near [of "-49" _ 6755399441055744]) (simp_all add: power_int_def power_divide)
  subgoal by (subst binary64_near [of "-52" _ 4993059231545231]) (simp_all add: power_int_def power_divide)
  subgoal by (subst binary64_near [of "-51" _ 5991671077854277]) (simp_all add: power_int_def power_divide)
  subgoal by (subst binary64_near [of "-52" _ 8908120062938841]) (simp_all add: power_int_def power_divide)
  subgoal by (subst binary64_near [of "-51" _ 6804939036956820]) (simp_all add: power_int_def power_divide)
  subgoal by (subst binary64_near [of "-49" _ 5641884433188389]) (simp_all add: power_int_def power_divide)
  done

lemma example_sizes:
  "size_of (4993059231545231 / 4503599627370496) = Some 1"
  "size_of (5991671077854277 / 2251799813685248) = Some 2"
  "size_of (8908120062938841 / 4503599627370496) = Some 1"
  "size_of (1701234759239205 / 562949953421312) = Some 3"
  "size_of (5641884433188389 / 562949953421312) = Some 10"
  subgoal using size_of_floor [of 1 "4993059231545231 / 4503599627370496"] by simp
  subgoal using size_of_floor [of 2 "5991671077854277 / 2251799813685248"] by simp
  subgoal using size_of_floor [of 1 "8908120062938841 / 4503599627370496"] by simp
  subgoal using size_of_floor [of 3 "1701234759239205 / 562949953421312"] by simp
  subgoal using size_of_floor [of 10 "5641884433188389 / 562949953421312"] by simp
  done

lemma example_map_new: "AtomicHashmap example_log 5 1 = Some (Inr example_map)"
proof -
  have d: "double_of 5 = 5" "double_of 2 = 2" "double_of 12 = 12" by (simp_all add: double_of_def example_roundings)
  have r: "ln_ratio example_log = 5077650960835577 / 1125899906842624" by (simp add: ln_ratio_def example_log_def)
  have "GenMultiLevelSize example_log 5 1 = Some (0, [2], 2)" "GenMultiLevelSize example_log 12 1 = Some (0, [2], 2)"
    by (simp_all add: GenMultiLevelSize_def r d occupied_ratio_eq example_roundings example_sizes NextPrime_def)
  then show ?thesis by (simp add: AtomicHashmap_def example_map_def)
qed

lemma example_map_ok: "table_ok example_map (\<lambda>_. 0) (\<lambda>_. 0)"
  by (rule AtomicHashmap_ok(1) [OF example_map_new]) (simp add: example_map_def)

theorem hashmap_operations_witness:
  "\<exists>s'. Set (\<lambda>k. of_nat k) (1 :: nat) (7 :: nat) example_map = Some (0, s') \<and> contents (\<lambda>k. of_nat k) s' 1 = Some 7"
proof -
  have f: "few (\<lambda>_. 0)" by (simp add: few_def)
  have "\<not> full_for (\<lambda>k. of_nat k) example_map 1"
    by (simp add: full_for_def example_map_def key_at_def ConcurrentMapBucket_def value_of_def new_boxes_def nth_Cons')
  then show ?thesis using hashmap_operations [OF example_map_ok f f, of "\<lambda>k. of_nat k" 1 7] by auto
qed

text \<open>C20. From a new map, every sequence of operations returns, and the replies are those of an abstract map
  that may refuse to store a key: what is found is what was stored last and not removed
  since. The counts stay exact.\<close>

theorem hashmap_history:
  assumes "AtomicHashmap libm_log n l = Some (Inr s)" and "sum_list (map unat (M_level_capacity s)) < 2 ^ 64"
  shows "\<exists>rs s'. run_commands (exec_map hasher) cs s = Some (rs, s') \<and> length rs = length cs \<and>
    accepts Map.empty (zip cs rs) \<and> table_ok s' (\<lambda>_. 0) (\<lambda>_. 0)"
  using hm.run_accepted [OF AtomicHashmap_ok(1) [OF assms], of hasher cs] AtomicHashmap_ok(2) [OF assms, of hasher] by auto

theorem hashmap_history_witness:
  "\<exists>rs s'. run_commands (exec_map (\<lambda>k. of_nat k)) [Put 1 7, Find (1 :: nat)] example_map = Some (rs, s') \<and>
     accepts Map.empty (zip [Put 1 7, Find (1 :: nat)] rs)"
proof -
  have "sum_list (map unat (M_level_capacity example_map)) < 2 ^ 64" by (simp add: example_map_def)
  from hashmap_history [OF example_map_new this, of "\<lambda>k. of_nat k" "[Put 1 7, Find 1]"] show ?thesis by blast
qed

text \<open>Two threads: a reader that has found the bucket of a key and loaded the address of the value has no
  reference to it yet. When another thread deletes the key before the reader acquires the cell,
  the cell is deleted and the reader uses it after that.\<close>

theorem get_races_with_delete:
  assumes ok: "table_ok s (\<lambda>_. 0) (\<lambda>_. 0)" and k: "contents hasher s k = Some v"
  shows "\<exists>i s'. Lookup hasher k s = Some (Some i, s) \<and> Delete k s = Some (0, s') \<and>
    Accessor (bucket_value (M_buckets s ! i)) (value_boxes s') = None"
proof -
  have f: "few (\<lambda>_. 0)" by (simp add: few_def)
  obtain i where i: "probe s (\<lambda>x. x = Some k) (hasher k) (M_level_capacity s) 0 = Some i" "value_at s i = Some v"
    using k by (auto simp: contents_def split: option.splits)
  have b: "i < length (M_buckets s)" "key_at s i = Some k"
    using probe_less [OF i(1) table_okD(3) [OF ok]] table_okD(2) [OF ok] by auto
  let ?a = "bucket_value (M_buckets s ! i)"
  from Delete_ok [OF ok f, of k hasher] obtain s' where d: "Delete k s = Some (0, s')" "table_ok s' (\<lambda>_. 0) (\<lambda>_. 0)"
    "same_table (\<lambda>_. 0) (\<lambda>_. 0) s s'"
    "\<forall>j < length (M_buckets s). bucket_value (M_buckets s' ! j) = (if key_at s j = Some k then 0 else bucket_value (M_buckets s ! j))"
    by blast
  have "?a \<noteq> 0" using i(2) exact_null [OF table_okD(5) [OF ok]] unfolding value_at_def by (metis option.distinct(1))
  moreover have "bucket_value (M_buckets s' ! j) \<noteq> ?a" if "j < length (M_buckets s)" for j
    using held_unique [where f = bucket_value, OF table_okD(7) [OF ok] b(1) that] d(4) that b(2) \<open>?a \<noteq> 0\<close> by (cases "j = i") auto
  then have "held bucket_value (M_buckets s') ?a = 0"
    using d(3) by (auto simp: held_def filter_empty_conv same_table_def in_set_conv_nth)
  then have "cells (value_boxes s') ?a = None" using exactD(2) [OF table_okD(5) [OF d(2)]] by simp
  ultimately have "Accessor ?a (value_boxes s') = None" by (simp add: Accessor_def Acquire_def)
  then show ?thesis using Lookup_ok [OF ok f, of hasher k] i(1) d(1) by auto
qed

theorem get_races_with_delete_witness:
  "\<exists>s i s'. contents (\<lambda>_. 0) s (1 :: nat) = Some (7 :: nat) \<and> Delete 1 s = Some (0, s') \<and>
     Accessor (bucket_value (M_buckets s ! i)) (value_boxes s') = None"
proof -
  have f: "few (\<lambda>_. 0)" by (simp add: few_def)
  have "\<not> full_for (\<lambda>_. 0) example_map 1"
    by (simp add: full_for_def example_map_def key_at_def ConcurrentMapBucket_def value_of_def new_boxes_def)
  then obtain s :: "(nat, nat) hashmap" where "table_ok s (\<lambda>_. 0) (\<lambda>_. 0)" "contents (\<lambda>_. 0) s 1 = Some 7"
    using Set_ok [OF example_map_ok f, of "\<lambda>_. 0" 1 7] by auto
  then show ?thesis using get_races_with_delete [of s "\<lambda>_. 0" 1 7] by blast
qed

text \<open>Two threads: a writer that has tested that a bucket is free may be overtaken by another writer that stores a
  different key there and reports success. When the first continues, its exchange replaces
  the other key: the stored key is lost, and the first key is found with the value of the other.\<close>

theorem set_races_with_set:
  "IsAvailable 0 1 example_map = Some (True, example_map) \<and>
   (\<exists>s1 a h s2. Set (\<lambda>_. 0) 2 20 example_map = Some (0, s1) \<and> contents (\<lambda>_. 0) s1 2 = Some 20 \<and>
      clone 1 (key_boxes s1) = (a, h) \<and> Exchange_key 0 a (s1\<lparr>key_boxes := h\<rparr>) = Some (True, s2) \<and>
      contents (\<lambda>_. 0) s2 2 = None \<and> contents (\<lambda>_. 0) s2 1 = Some 20)"
  by (simp add: example_map_def IsAvailable_def AccessKey_def bucket_at_def Accessor_def has_def Accessor_dtor_def
    ConcurrentMapBucket_def Set_def Occupy_def clone_def Let_def new_boxes_def Exchange_key_def ExchangeImpl_key_def deallocate_def
    Exchange_value_def ExchangeImpl_value_def contents_def key_at_def value_at_def value_of_def Release_def delete_box_def numeral_2_eq_2)

end
