(* ===== verification/Type_Names.thy ===== *)
theory Type_Names
  imports Godby_Prelude "HOL-Library.Monad_Syntax"
begin

text \<open>
  The names of types and the keys of \<open>SharedStorage.h\<close>. The name of a type is cut out of the text of
  \<open>__PRETTY_FUNCTION__\<close>, which the model takes in the form GCC prints it; a key is the name followed by
  the printed tags.
\<close>

section \<open>Definitions\<close>

definition ConstexprIsSpace :: "char \<Rightarrow> bool" where
  "ConstexprIsSpace c \<longleftrightarrow> c = CHR '' '' \<or> c = CHR 0x09 \<or> c = CHR 0x0A \<or> c = CHR 0x0D \<or> c = CHR 0x0C \<or> c = CHR 0x0B"

text \<open>The loop: the first \<open>=\<close>, the last \<open>;\<close> and the first \<open>]\<close>, which ends it. Index 0 counts as not found.\<close>

fun scan :: "string \<Rightarrow> nat \<Rightarrow> nat \<Rightarrow> nat \<Rightarrow> nat \<times> nat \<times> nat" where
  "scan [] i equals semicolon = (equals, semicolon, 0)"
| "scan (c # cs) i equals semicolon =
     (if c = CHR ''='' then scan cs (Suc i) (if equals = 0 then i else equals) semicolon
      else if c = CHR '';'' then scan cs (Suc i) equals i
      else if c = CHR '']'' \<and> i \<noteq> 0 then (equals, semicolon, i)
      else scan cs (Suc i) equals semicolon)"

text \<open>The text between two positions without the spaces at its ends; positions in the wrong order make a view of a negative length.\<close>

definition trimmed :: "string \<Rightarrow> nat \<Rightarrow> nat \<Rightarrow> string option" where
  "trimmed info start stop =
     (if stop < start then None
      else Some (rev (dropWhile ConstexprIsSpace (rev (dropWhile ConstexprIsSpace (take (stop - start) (drop start info)))))))"

definition ConstexprGetType_of :: "string \<Rightarrow> string option" where
  "ConstexprGetType_of info =
     (let (equals, semicolon, stop) = scan info 0 0 0 in
      if equals \<noteq> 0 \<and> semicolon \<noteq> 0 \<and> stop \<noteq> 0 then trimmed info (equals + 1) semicolon else Some [])"

definition pretty_function :: "string \<Rightarrow> string" where
  "pretty_function T = ''constexpr std::string_view godby::ConstexprGetType() [with T = '' @ T @
     ''; std::string_view = std::basic_string_view<char>]''"

definition ConstexprGetType :: "string \<Rightarrow> string option" where
  "ConstexprGetType T = ConstexprGetType_of (pretty_function T)"

definition key_text :: "string \<Rightarrow> string list \<Rightarrow> string" where
  "key_text name tags =
     (let key = name @ ''::'' @ concat (map (\<lambda>tag. tag @ ''.'') tags) in
      if key \<noteq> [] \<and> last key = CHR ''.'' then butlast key else key)"

definition MakeKey :: "string \<Rightarrow> string list \<Rightarrow> string option" where
  "MakeKey T tags = do { name \<leftarrow> ConstexprGetType T; Some (key_text name tags) }"

section \<open>The name of a type\<close>

lemma scan_skip:
  assumes "\<forall>c \<in> set xs. c \<noteq> CHR ''='' \<and> c \<noteq> CHR '';'' \<and> c \<noteq> CHR '']''"
  shows "scan (xs @ ys) i e s = scan ys (i + length xs) e s"
  using assms by (induction xs arbitrary: i) auto

lemma scan_skip_equals:
  assumes "\<forall>c \<in> set xs. c \<noteq> CHR '';'' \<and> c \<noteq> CHR '']''" and "e \<noteq> 0"
  shows "scan (xs @ ys) i e s = scan ys (i + length xs) e s"
  using assms by (induction xs arbitrary: i) auto

abbreviation (input) head_text :: string where
  "head_text \<equiv> ''constexpr std::string_view godby::ConstexprGetType() [with T ''"

lemma scan_head: "scan (pretty_function T) 0 0 0 =
    scan ('' '' @ T @ ''; std::string_view = std::basic_string_view<char>]'') (Suc (length head_text)) (length head_text) 0"
  by (simp add: pretty_function_def)

lemma ConstexprGetType_name:
  assumes "\<forall>c \<in> set T. c \<noteq> CHR '';'' \<and> c \<noteq> CHR '']''" and "T \<noteq> []"
    and "\<not> ConstexprIsSpace (hd T)" and "\<not> ConstexprIsSpace (last T)"
  shows "ConstexprGetType T = Some T"
proof -
  let ?h = "length head_text" and ?t = "''; std::string_view = std::basic_string_view<char>]''"
  have "scan ('' '' @ T @ ?t) (Suc ?h) ?h 0 = scan (T @ ?t) (Suc (Suc ?h)) ?h 0" by simp
  also have "\<dots> = scan ?t (Suc (Suc ?h) + length T) ?h 0" by (rule scan_skip_equals [OF assms(1)]) simp
  also have "\<dots> = (?h, Suc (Suc ?h) + length T, Suc (Suc ?h) + length T + 49)" by simp
  finally have s: "scan (pretty_function T) 0 0 0 = (?h, Suc (Suc ?h) + length T, Suc (Suc ?h) + length T + 49)"
    unfolding scan_head .
  have "take (Suc (length T)) (drop (Suc ?h) (pretty_function T)) = '' '' @ T"
    by (simp add: pretty_function_def)
  moreover have "dropWhile ConstexprIsSpace ('' '' @ T) = T"
    using assms(2,3) by (cases T) (auto simp: ConstexprIsSpace_def)
  moreover have "rev (dropWhile ConstexprIsSpace (rev T)) = T"
    using assms(2,4) by (cases T rule: rev_cases) auto
  moreover have "Suc (Suc ?h) + length T - (?h + 1) = Suc (length T)" by simp
  ultimately show ?thesis unfolding ConstexprGetType_def ConstexprGetType_of_def s trimmed_def by simp
qed

text \<open>The bracket of an array type ends the scan before the semicolon: every array type has the empty name.\<close>

lemma ConstexprGetType_array:
  assumes "\<forall>c \<in> set T. c \<noteq> CHR '';'' \<and> c \<noteq> CHR '']''"
    and "\<forall>c \<in> set n. c \<noteq> CHR '';'' \<and> c \<noteq> CHR '']''"
  shows "ConstexprGetType (T @ '' ['' @ n @ '']'') = Some []"
proof -
  let ?h = "length head_text" and ?t = "'']; std::string_view = std::basic_string_view<char>]''"
  have "scan ('' '' @ T @ '' ['' @ n @ ?t) (Suc ?h) ?h 0 = scan (T @ '' ['' @ n @ ?t) (Suc (Suc ?h)) ?h 0" by simp
  also have "\<dots> = scan ('' ['' @ n @ ?t) (Suc (Suc ?h) + length T) ?h 0" by (rule scan_skip_equals [OF assms(1)]) simp
  also have "\<dots> = scan (n @ ?t) (Suc (Suc ?h) + length T + 2) ?h 0" by simp
  also have "\<dots> = scan ?t (Suc (Suc ?h) + length T + 2 + length n) ?h 0" by (rule scan_skip_equals [OF assms(2)]) simp
  also have "\<dots> = (?h, 0, Suc (Suc ?h) + length T + 2 + length n)" by simp
  finally have "scan (pretty_function (T @ '' ['' @ n @ '']'')) 0 0 0 = (?h, 0, Suc (Suc ?h) + length T + 2 + length n)"
    unfolding scan_head by simp
  then show ?thesis by (simp add: ConstexprGetType_def ConstexprGetType_of_def)
qed

section \<open>Keys\<close>

lemma key_text_Nil: "key_text name [] = name @ ''::''"
  by (simp add: key_text_def)

lemma key_text_tags: "tags \<noteq> [] \<Longrightarrow> key_text name tags = name @ ''::'' @ butlast (concat (map (\<lambda>tag. tag @ ''.'') tags))"
  by (cases tags rule: rev_cases) (auto simp: key_text_def butlast_append)

lemma dotted_inj:
  assumes "concat (map (\<lambda>tag. tag @ ''.'') ts) = concat (map (\<lambda>tag. tag @ ''.'') us)"
    and "\<forall>t \<in> set ts \<union> set us. CHR ''.'' \<notin> set t"
  shows "ts = us"
  using assms
proof (induction ts arbitrary: us)
  case Nil
  then show ?case by (cases us) auto
next
  case (Cons t ts)
  then obtain u us' where us: "us = u # us'" by (cases us) auto
  have "takeWhile (\<lambda>c. c \<noteq> CHR ''.'') (t @ CHR ''.'' # a) = t" if "CHR ''.'' \<notin> set t" for t a :: string
    using that by (induction t) auto
  then have "t = u" using Cons.prems us by (metis (no_types, lifting) append.assoc append_Cons append_Nil concat.simps(2)
        list.set_intros(1) list.simps(9) UnCI)
  then show ?case using Cons us by auto
qed

lemma key_text_inj:
  assumes "key_text name ts = key_text name us" and "ts \<noteq> []" and "us \<noteq> []"
    and "\<forall>t \<in> set ts \<union> set us. CHR ''.'' \<notin> set t"
  shows "ts = us"
proof (rule dotted_inj [OF _ assms(4)])
  let ?f = "\<lambda>ts. concat (map (\<lambda>tag. tag @ ''.'') ts)"
  have e: "?f xs = butlast (?f xs) @ ''.''" if "xs \<noteq> []" for xs :: "string list"
    using that by (cases xs rule: rev_cases) (auto simp: butlast_append)
  have "butlast (?f ts) = butlast (?f us)" using assms(1) by (simp add: key_text_tags assms(2,3))
  then show "?f ts = ?f us" using e [OF assms(2)] e [OF assms(3)] by metis
qed

end
