(* ===== verification/Reload_Timer.thy ===== *)
theory Reload_Timer
  imports Timer_Queries "HOL-Library.Monad_Syntax"
begin

text \<open>
  \<open>Reloadable\<close>, \<open>ReloadableTimerEvent\<close> and \<open>ReloadableManager\<close> of \<open>SharedStorage.h\<close>: values with two buffers that
  a timer wheel swaps at a fixed interval. An event has the number of its reloadable value; the state of the
  wheel carries the current buffer of each value. The interval is set by the constructor
  and never written again, so it is an argument.
\<close>

section \<open>Definitions\<close>

datatype buffer = Ping | Pong

definition Reloadable :: buffer where "Reloadable = Ping"

definition which :: "buffer \<Rightarrow> buffer" where "which current = current"

definition reload :: "buffer \<Rightarrow> bool \<times> buffer" where
  "reload current = (True, if current = Ping then Pong else Ping)"

type_synonym reload_wheel = "(nat \<Rightarrow> buffer) wheel"

definition reload_execute :: "(nat \<Rightarrow> u32) \<Rightarrow> (nat \<Rightarrow> buffer) execute" where
  "reload_execute interval e w =
     (let (_, b) = reload (world w e) in
      schedule e (ucast (interval e)) (w\<lparr>world := (world w)(e := b)\<rparr>))"

definition AddReloadable :: "(nat \<Rightarrow> u32) \<Rightarrow> nat \<Rightarrow> reload_wheel \<Rightarrow> reload_wheel option" where
  "AddReloadable interval e w = schedule e (ucast (interval e)) w"

text \<open>
  One round of the worker: advance by the ticks slept, ask for the next wakeup and sleep. The
  result is the number of ticks, the argument of \<open>sleep\<close>, which is an \<open>unsigned int\<close>, and the wheel.
\<close>

definition manager_round :: "nat \<Rightarrow> (nat \<Rightarrow> u32) \<Rightarrow> u64 \<Rightarrow> reload_wheel \<Rightarrow> (u64 \<times> u32 \<times> reload_wheel) option" where
  "manager_round fuel interval seconds w = do {
     w \<leftarrow> (if seconds > 0
           then do { (_, w) \<leftarrow> advance fuel (reload_execute interval) seconds (- 1) 0 w; Some w }
           else Some w);
     seconds \<leftarrow> ticks_to_wakeup w (- 1) 0;
     Some (seconds, ucast seconds, w)
   }"

section \<open>Periodic reloads\<close>

definition flips :: "nat \<Rightarrow> buffer \<Rightarrow> buffer" where
  "flips k b = ((snd \<circ> reload) ^^ k) b"

text \<open>Up to tick \<open>n\<close> an event fires \<open>k\<close> times, each time one interval later.\<close>

definition fired :: "(nat \<Rightarrow> u32) \<Rightarrow> nat \<Rightarrow> reload_wheel \<Rightarrow> reload_wheel \<Rightarrow> nat \<Rightarrow> nat \<Rightarrow> bool" where
  "fired interval n w w' e k \<longleftrightarrow> scheduled e w' = scheduled e w \<and> world w' e = flips k (world w e) \<and>
     unat (scheduled_at e w') = unat (scheduled_at e w) + k * unat (interval e) \<and>
     (0 < k \<longrightarrow> unat (scheduled_at e w) + (k - 1) * unat (interval e) \<le> n)"

definition reloads :: "(nat \<Rightarrow> u32) \<Rightarrow> nat \<Rightarrow> reload_wheel \<Rightarrow> reload_wheel \<Rightarrow> bool" where
  "reloads interval n w w' \<longleftrightarrow> (\<forall>e. \<exists>k. fired interval n w w' e k)"

definition reload_events :: "(nat \<Rightarrow> u32) \<Rightarrow> nat \<Rightarrow> nat set" where
  "reload_events interval K = {e. e < K \<and> interval e \<noteq> 0}"

text \<open>An upper bound of the executions up to tick \<open>B\<close>.\<close>

definition executions :: "(nat \<Rightarrow> u32) \<Rightarrow> nat \<Rightarrow> nat \<Rightarrow> reload_wheel \<Rightarrow> nat" where
  "executions interval K B w = (\<Sum>e \<in> reload_events interval K. Suc B - unat (scheduled_at e w))"

lemma flips_simps [simp]: "flips 0 b = b" "flips (Suc 0) b = snd (reload b)"
  by (simp_all add: flips_def)

lemma flips_add: "flips j (flips i b) = flips (i + j) b"
  unfolding flips_def add.commute [of i] by (simp add: funpow_add)

lemma fired_trans:
  assumes "fired interval n w1 w2 e i" and "fired interval n w2 w3 e j"
  shows "fired interval n w1 w3 e (i + j)"
proof -
  have "unat (scheduled_at e w1) + (i + j - 1) * unat (interval e) \<le> n" if "0 < i + j"
  proof (cases "j = 0")
    case False
    then have "(i + j - 1) * unat (interval e) = i * unat (interval e) + (j - 1) * unat (interval e)"
      by (cases j) (simp_all add: algebra_simps)
    then show ?thesis using assms False by (simp add: fired_def)
  qed (use assms that in \<open>simp add: fired_def\<close>)
  then show ?thesis using assms by (simp add: fired_def flips_add algebra_simps)
qed

lemma reloads_trans: "reloads interval n w1 w2 \<Longrightarrow> reloads interval n w2 w3 \<Longrightarrow> reloads interval n w1 w3"
  unfolding reloads_def using fired_trans by blast

lemma reloads_same:
  assumes "\<And>e. scheduled e w' = scheduled e w" and "\<And>e. world w' e = world w e" and "\<And>e. scheduled_at e w' = scheduled_at e w"
  shows "reloads interval n w w'"
  unfolding reloads_def fired_def using assms by (intro allI exI [of _ 0]) simp

lemma reloads_mono: "reloads interval n w w' \<Longrightarrow> n \<le> m \<Longrightarrow> reloads interval m w w'"
  unfolding reloads_def fired_def by (meson order_trans)

lemma tick_run_reloads: "tick_run (reloads interval) a b w w' \<Longrightarrow> reloads interval b w w'"
proof (induction rule: tick_run.induct)
  case (tick_run_refl a w)
  show ?case by (rule reloads_same) simp_all
next
  case (tick_run_step a w w1 b w2)
  then show ?case using reloads_trans [OF reloads_mono [OF tick_run_step(1) tick_run_mono [OF tick_run_step(2)]]] by blast
qed

lemma executions_mono:
  assumes "reloads interval n w w'"
  shows "executions interval K B w' \<le> executions interval K B w"
  unfolding executions_def
proof (rule sum_mono)
  fix e
  obtain k where "fired interval n w w' e k" using assms by (auto simp: reloads_def)
  then show "Suc B - unat (scheduled_at e w') \<le> Suc B - unat (scheduled_at e w)" by (simp add: fired_def)
qed

lemma world_frame:
  "clock_ok (w\<lparr>world := u\<rparr>) = clock_ok w" "slots_ok (w\<lparr>world := u\<rparr>) = slots_ok w" "scheduled e (w\<lparr>world := u\<rparr>) = scheduled e w"
  "scheduled_at e (w\<lparr>world := u\<rparr>) = scheduled_at e w" "later (w\<lparr>world := u\<rparr>) w' = later w w'"
  by (simp_all add: clock_ok_def slots_ok_def slots_abs_def links_def scheduled_def scheduled_at_def later_def)

lemma reload_execute_ok:
  assumes "clock_ok w" and "slots_ok w" and "interval e \<noteq> 0" and "unat (M_now w 0) + 2 ^ 32 < 2 ^ 64"
  shows "\<exists>w'. reload_execute interval e w = Some w' \<and> slots_ok w' \<and> later w w' \<and> M_now w' = M_now w \<and>
    M_ticks_pending w' = M_ticks_pending w \<and> world w' = (world w)(e := snd (reload (world w e))) \<and> scheduled e w' \<and>
    unat (scheduled_at e w') = unat (M_now w 0) + unat (interval e) \<and>
    (\<forall>a. a \<noteq> e \<longrightarrow> scheduled a w' = scheduled a w \<and> scheduled_at a w' = scheduled_at a w)"
proof -
  let ?w = "w\<lparr>world := (world w)(e := snd (reload (world w e)))\<rparr>" and ?d = "ucast (interval e) :: u64"
  have d: "unat ?d = unat (interval e)" by (simp add: unat_ucast_up)
  then have "?d \<noteq> 0" using assms(3) by (metis unat_0 unat_eq_0)
  moreover have "unat (M_now w 0) + unat ?d < 2 ^ 64" proof -
    have "(2 :: nat) ^ 32 = 4294967296" by simp
    then show ?thesis using assms(4) unat_lt32 [of "interval e"] unfolding d by linarith
  qed
  then have "unat (M_now ?w 0) + unat ?d < 2 ^ 64" by simp
  ultimately obtain w' where "schedule e ?d ?w = Some w'" "slots_ok w'" "later ?w w'" "M_now w' = M_now ?w"
    "M_ticks_pending w' = M_ticks_pending ?w" "world w' = world ?w" "scheduled e w'"
    "unat (scheduled_at e w') = unat (M_now ?w 0) + unat ?d"
    "\<forall>a. a \<noteq> e \<longrightarrow> scheduled a w' = scheduled a ?w \<and> scheduled_at a w' = scheduled_at a ?w"
    using schedule_later [of ?w ?d e] assms(1,2) by (auto simp: world_frame)
  then show ?thesis by (simp add: reload_execute_def d world_frame case_prod_beta)
qed

text \<open>The ticks the worker may reach: an interval after the last one still fits into 64 bits.\<close>

definition reload_horizon :: "nat \<Rightarrow> nat" where
  "reload_horizon B = min B (2 ^ 64 - 2 ^ 32 - 2)"

lemma reload_run:
  assumes ok: "clock_ok w" "slots_ok w" and U: "sched_in (reload_events interval K) w" and p: "pop t w = Some (e, w1)"
    and n: "unat (scheduled_at e w) = n" "unat (M_now w 0) = n" "n \<le> reload_horizon B"
    and x: "reload_execute interval e w1 = Some w2"
  shows "fired interval n w w2 e 1" and "reloads interval n w w2" and "e \<in> reload_events interval K"
    and "executions interval K (reload_horizon B) w2 < executions interval K (reload_horizon B) w"
proof -
  have e: "scheduled e w" using pop_scheduled(1) [OF ok(2) p] by (simp add: scheduled_set_def)
  then show eU: "e \<in> reload_events interval K" using U by (simp add: sched_in_def)
  then have i: "interval e \<noteq> 0" by (simp add: reload_events_def)
  have "clock_ok w1" "slots_ok w1" using ok clock_ok_cong [OF pop_frame(1) [OF p]] pop_slots(2) [OF ok(2) p] by auto
  moreover have "unat (M_now w1 0) + 2 ^ 32 < 2 ^ 64" using n(2,3) pop_frame(1) [OF p] by (simp add: reload_horizon_def)
  ultimately have w2: "world w2 = (world w1)(e := snd (reload (world w1 e)))" "scheduled e w2"
      "unat (scheduled_at e w2) = unat (M_now w1 0) + unat (interval e)"
      "\<forall>a. a \<noteq> e \<longrightarrow> scheduled a w2 = scheduled a w1 \<and> scheduled_at a w2 = scheduled_at a w1"
    using reload_execute_ok [of w1 interval e, OF _ _ i] x by auto
  show f: "fired interval n w w2 e 1"
    using e w2 n pop_frame(1,3) [OF p] by (simp add: fired_def)
  have "fired interval n w w2 a 0" if "a \<noteq> e" for a
    using that w2 pop_frame(3) [OF p] scheduled_at_pop [OF p, of a] pop_slots(2) [OF ok(2) p]
    by (simp add: fired_def scheduled_def)
  then show r: "reloads interval n w w2" using f unfolding reloads_def by metis
  have "finite (reload_events interval K)" by (simp add: reload_events_def)
  then show "executions interval K (reload_horizon B) w2 < executions interval K (reload_horizon B) w"
    unfolding executions_def
  proof (rule sum_strict_mono_ex1)
    show "\<forall>a \<in> reload_events interval K. Suc (reload_horizon B) - unat (scheduled_at a w2) \<le> Suc (reload_horizon B) - unat (scheduled_at a w)"
      using r unfolding reloads_def fired_def by (metis diff_le_mono2 le_add1)
    have "0 < unat (interval e)" using i by (simp add: unat_gt_0)
    then show "\<exists>a \<in> reload_events interval K. Suc (reload_horizon B) - unat (scheduled_at a w2) < Suc (reload_horizon B) - unat (scheduled_at a w)"
      using eU f n by (intro bexI [of _ e]) (auto simp: fired_def)
  qed
qed

definition reload_limit :: "(nat \<Rightarrow> u32) \<Rightarrow> nat \<Rightarrow> nat \<Rightarrow> u64 \<Rightarrow> reload_wheel \<Rightarrow> bool" where
  "reload_limit interval K B m w \<longleftrightarrow> executions interval K (reload_horizon B) w < unat m"

interpretation rl: timer_run "reload_execute interval" "reload_events interval K" "reload_horizon B" "reloads interval"
    "reload_limit interval K B"
proof unfold_locales
  show "finite (reload_events interval K)" by (simp add: reload_events_def)
  show "\<exists>w'. reload_execute interval e w = Some w' \<and> slots_ok w' \<and> sched_in (reload_events interval K) w' \<and> later w w' \<and>
      M_now w' = M_now w \<and> M_ticks_pending w' = M_ticks_pending w"
    if "clock_ok w" "slots_ok w" "sched_in (reload_events interval K) w" "e \<in> reload_events interval K"
      "unat (M_now w 0) \<le> reload_horizon B" for w :: reload_wheel and e
  proof -
    have "interval e \<noteq> 0" "unat (M_now w 0) + 2 ^ 32 < 2 ^ 64" using that(4,5) by (simp_all add: reload_events_def reload_horizon_def)
    from reload_execute_ok [of w interval e, OF that(1,2) this] that(3,4) show ?thesis unfolding sched_in_def by metis
  qed
  show "reloads interval n w (w\<lparr>M_now := f\<rparr>)" "reloads interval n w (w\<lparr>M_ticks_pending := p\<rparr>)" "reloads interval n w w" for n w f p
    by (rule reloads_same; simp add: scheduled_def scheduled_at_def)+
  show "reloads interval n w1 w3" if "reloads interval n w1 w2" "reloads interval n w2 w3" for n w1 w2 w3
    using that by (rule reloads_trans)
  show "reloads interval n w w2" if "slots_ok w" "pop t w = Some (e, w1)" "w2 = relink e (Some t') (set_scheduled_at e (scheduled_at e w1) w1)"
    for n w t e w1 w2 t'
  proof (rule reloads_same)
    show "scheduled a w2 = scheduled a w" for a
      using fires_move [OF that, of "\<lambda>_ u. u" "{}"] by (auto simp: fires_def scheduled_set_def)
  qed (simp_all add: that(3) pop_frame [OF that(2)] scheduled_at_pop [OF that(2)])
  show "reload_limit interval K B m w'" if "reloads interval n w w'" "reload_limit interval K B m w" for n w w' m
    using executions_mono [OF that(1), of K "reload_horizon B"] that(2) by (simp add: reload_limit_def)
  show "m - 1 \<noteq> 0 \<and> reload_limit interval K B (m - 1) w2"
    if "clock_ok w" "slots_ok w" "sched_in (reload_events interval K) w" "pop t w = Some (e, w1)" "unat (scheduled_at e w) = n"
      "unat (M_now w 0) = n" "n \<le> reload_horizon B" "reload_execute interval e w1 = Some w2" "reload_limit interval K B m w" for w t e w1 n w2 m
  proof -
    have l: "executions interval K (reload_horizon B) w2 < executions interval K (reload_horizon B) w" by (rule reload_run(4) [OF that(1-8)])
    have "m \<noteq> 0" using that(9) by (auto simp: reload_limit_def)
    then have "unat (m - 1) = unat m - 1" by (rule unat_pred)
    then have "executions interval K (reload_horizon B) w2 < unat (m - 1)" using l that(9) unfolding reload_limit_def by linarith
    then show ?thesis by (auto simp: reload_limit_def)
  qed
qed (rule reload_run(2))

section \<open>Properties\<close>

lemma fired_count:
  assumes "fired interval b w w' e k" and "b < unat (scheduled_at e w')" and "interval e \<noteq> 0"
  shows "k = (if unat (scheduled_at e w) \<le> b then (b - unat (scheduled_at e w)) div unat (interval e) + 1 else 0)"
proof -
  define s i where "s = unat (scheduled_at e w)" and "i = unat (interval e)"
  have i: "0 < i" using assms(3) by (simp add: i_def unat_gt_0)
  have f: "b < s + k * i" "0 < k \<longrightarrow> s + (k - 1) * i \<le> b" using assms(1,2) by (auto simp: fired_def s_def i_def)
  have "k = (if s \<le> b then (b - s) div i + 1 else 0)"
  proof (cases k)
    case 0
    then show ?thesis using f(1) by simp
  next
    case (Suc j)
    then have "s + j * i \<le> b" "b < s + j * i + i" using f by simp_all
    then have "j * i \<le> b - s" "b - s < Suc j * i" "s \<le> b" by (simp_all add: add.commute)
    then have "(b - s) div i = j" using i by (intro div_nat_eqI) (simp_all add: mult.commute)
    then show ?thesis using Suc \<open>s \<le> b\<close> by simp
  qed
  then show ?thesis by (simp only: s_def i_def)
qed

text \<open>C27. A \<open>ReloadableTimerEvent\<close> swaps the buffers of its value with its period: when the worker advances the
  wheel, no matter by how many ticks at once, each scheduled event has run at its tick and
  at every interval after that up to the new time, and is scheduled for the next one.\<close>

theorem reload_period:
  assumes inv: "wheel_inv w" "M_ticks_pending w = 0" and K: "\<And>e. scheduled e w \<Longrightarrow> e < K \<and> interval e \<noteq> 0"
    and d: "delta \<noteq> 0" and b: "b = unat (now w) + unat delta" "b + 2 ^ 32 + 2 \<le> 2 ^ 64" and fuel: "K < fuel"
    and m: "executions interval K b w < unat m"
  shows "\<exists>w'. advance fuel (reload_execute interval) delta m 0 w = Some (True, w') \<and> wheel_inv w' \<and> unat (now w') = b \<and>
    (\<forall>e. scheduled e w \<longrightarrow> scheduled e w' \<and>
       (let s = unat (scheduled_at e w); k = (if s \<le> b then (b - s) div unat (interval e) + 1 else 0) in
          world w' e = flips k (world w e) \<and> unat (scheduled_at e w') = s + k * unat (interval e)))"
proof -
  let ?U = "reload_events interval K"
  have h: "reload_horizon b = b" using b(2) by (simp add: reload_horizon_def)
  have U: "sched_in ?U w" using K by (simp add: sched_in_def reload_events_def)
  have "card ?U \<le> card {..<K}" by (rule card_mono) (auto simp: reload_events_def)
  then have c: "card ?U < fuel" using fuel by simp
  have t: "target w + unat delta \<le> reload_horizon b" unfolding h using inv(2) b(1) by (simp add: target_def now_def)
  have z: "Suc (reload_horizon b) < 2 ^ 64" using b(2) by (simp add: h)
  have "reload_limit interval K b m w" using m by (simp add: reload_limit_def h)
  then obtain w' v where w': "advance fuel (reload_execute interval) delta m 0 w = Some (True, w')" "wheel_inv w'"
      "M_ticks_pending w' = 0" "target w' = target w + unat delta" "reloads interval (unat (M_now w 0)) w v"
      "tick_run (reloads interval) (unat (M_now w 0)) (unat (M_now w' 0)) v w'"
    using rl.advance_ok [OF inv(1) U disjI1 [OF d] t z c, of m] by auto
  have n: "unat (now w') = b" using w'(3,4) inv(2) b(1) by (simp add: target_def now_def)
  then have "reloads interval b w w'"
    using reloads_trans [OF reloads_mono [OF w'(5)] tick_run_reloads [OF w'(6)]] tick_run_mono [OF w'(6)] by (simp add: now_def)
  then have f: "\<exists>k. fired interval b w w' e k" for e by (simp add: reloads_def)
  have "scheduled e w' \<and> (let s = unat (scheduled_at e w); k = (if s \<le> b then (b - s) div unat (interval e) + 1 else 0) in
          world w' e = flips k (world w e) \<and> unat (scheduled_at e w') = s + k * unat (interval e))" if e: "scheduled e w" for e
  proof -
    obtain k where k: "fired interval b w w' e k" using f by blast
    then have se: "scheduled e w'" using e by (simp add: fired_def)
    then have "b < unat (scheduled_at e w')" using scheduled_ahead [OF w'(2,3) se] n by (simp add: now_def)
    then have c: "k = (if unat (scheduled_at e w) \<le> b then (b - unat (scheduled_at e w)) div unat (interval e) + 1 else 0)"
      using fired_count [OF k] K [OF e] by blast
    have "world w' e = flips k (world w e)" "unat (scheduled_at e w') = unat (scheduled_at e w) + k * unat (interval e)"
      using k by (simp_all only: fired_def)
    then show ?thesis unfolding c [symmetric] Let_def using se by (simp only: simp_thms)
  qed
  then show ?thesis using w'(1,2) n by blast
qed

text \<open>A value reloaded every second, added to a new wheel.\<close>

lemma example_reload:
  "\<exists>w. AddReloadable (\<lambda>_. 1) 0 (TimerWheelTpl 0 (\<lambda>_. TimerEventTpl) (\<lambda>_. Ping)) = Some w \<and> wheel_inv w \<and> M_ticks_pending w = 0 \<and>
     now w = 0 \<and> scheduled 0 w \<and> unat (scheduled_at 0 w) = 1 \<and> (\<forall>a. a \<noteq> 0 \<longrightarrow> \<not> scheduled a w) \<and> world w = (\<lambda>_. Ping)"
proof -
  let ?w = "TimerWheelTpl 0 (\<lambda>_. TimerEventTpl) (\<lambda>_. Ping) :: reload_wheel"
  note i = TimerWheelTpl_inv [where evs = "\<lambda>_. TimerEventTpl" and start = 0 and u = "\<lambda>_ :: nat. Ping", OF TimerEventTpl_slot]
  have "\<not> scheduled a ?w" "world ?w = (\<lambda>_. Ping)" for a by (simp_all add: TimerWheelTpl_def scheduled_def)
  moreover have l: "unat (M_now ?w 0) + unat (1 :: u64) < 2 ^ 64" using i(4) by simp
  ultimately show ?thesis using schedule_wheel_inv [OF i(1) _ l, of 0] i(3,4) by (auto simp: AddReloadable_def now_def)
qed

theorem reload_period_witness:
  "\<exists>w w'. AddReloadable (\<lambda>_. 1) 0 (TimerWheelTpl 0 (\<lambda>_. TimerEventTpl) (\<lambda>_. Ping)) = Some w \<and>
     advance 2 (reload_execute (\<lambda>_. 1)) 5 (- 1) 0 w = Some (True, w') \<and> world w' 0 = Pong \<and> unat (scheduled_at 0 w') = 6"
proof -
  from example_reload obtain w where w: "AddReloadable (\<lambda>_. 1) 0 (TimerWheelTpl 0 (\<lambda>_. TimerEventTpl) (\<lambda>_. Ping)) = Some w"
    "wheel_inv w" "M_ticks_pending w = 0" "now w = 0" "scheduled 0 w" "unat (scheduled_at 0 w) = 1"
    "\<forall>a. a \<noteq> 0 \<longrightarrow> \<not> scheduled a w" "world w = (\<lambda>_. Ping)" by blast
  have "executions (\<lambda>_. 1) 1 5 w = 5" using w(6) by (simp add: executions_def reload_events_def)
  moreover have "unat (- 1 :: u64) = 18446744073709551615" by (simp add: unsigned_minus_1_eq_mask mask_eq_exp_minus_1)
  moreover have "e < 1 \<and> (1 :: u32) \<noteq> 0" if "scheduled e w" for e using w(7) that by (cases "e = 0") auto
  ultimately obtain w' where w': "advance 2 (reload_execute (\<lambda>_. 1)) 5 (- 1) 0 w = Some (True, w')"
    "world w' 0 = flips 5 Ping" "unat (scheduled_at 0 w') = 6"
    using reload_period [OF w(2,3), of 1 "\<lambda>_. 1" 5 5 2 "- 1"] w(4-6,8) by (auto simp: Let_def)
  have "flips 5 Ping = Pong" by (simp add: flips_def reload_def numeral_eq_Suc)
  then show ?thesis using w(1) w' by auto
qed

text \<open>The worker that asks for the next wakeup while no event is scheduled, as it does when it starts before
  the first value is added, sleeps for the greatest number of seconds that fits: a value
  added after that is not reloaded for 136 years.\<close>

theorem manager_oversleeps:
  "\<exists>w. manager_round fuel interval 0 (TimerWheelTpl 0 (\<lambda>_. TimerEventTpl) buffers) = Some (- 1, 4294967295, w)"
proof -
  have "ticks_to_wakeup (TimerWheelTpl 0 (\<lambda>_. TimerEventTpl) buffers) (- 1) 0 = Some (- 1)"
    by (rule empty_wakeup) (simp_all add: TimerWheelTpl_def)
  moreover have "(ucast (- 1 :: u64) :: u32) = 4294967295" by (simp add: word_unat_eq_iff unat_ucast_mod unsigned_minus_1_eq_mask mask_eq_exp_minus_1)
  ultimately show ?thesis by (simp add: manager_round_def)
qed

end
