(* ===== verification/Shared_Storage.thy ===== *)
theory Shared_Storage
  imports Type_Names Reload_Timer
begin

text \<open>
  \<open>ThreadLocalCache\<close> and \<open>SharedStorage\<close> of \<open>SharedStorage.h\<close>. A C++ type is the text the compiler prints for it; every
  object has a number and the type it was made with. Each operation of the storage holds the lock
  from its first look at the map to its end, and a thread's cache is its own, so operations
  of different threads are steps on one state. A thrown exception is \<open>Inl\<close>; \<open>None\<close> is a comparison with
  a dangling string view, or an assertion of the timer wheel that fails.
\<close>

section \<open>State\<close>

datatype type_view = Name string | Dangling

record entry =
  entry_type :: type_view
  entry_value :: "nat option"
  deletable :: bool
  reloadable :: bool

definition Entry :: entry where
  "Entry = \<lparr>entry_type = Name [], entry_value = None, deletable = False, reloadable = False\<rparr>"

record storage =
  M_storage :: "string \<Rightarrow> entry option"
  cached :: "nat \<Rightarrow> string \<Rightarrow> string \<Rightarrow> nat option"
  object_type :: "nat \<Rightarrow> string option"
  next_object :: nat
  intervals :: "nat \<Rightarrow> u32"
  timer :: reload_wheel
  local_hits :: u64
  local_misses :: u64
  shared_hits :: u64
  shared_misses :: u64

datatype storage_error = Type_mismatch string | Not_deletable string

type_synonym 'a outcome = "((storage_error + 'a) \<times> storage) option"

section \<open>The cache of a thread\<close>

definition Cache_Get :: "nat \<Rightarrow> string \<Rightarrow> string \<Rightarrow> storage \<Rightarrow> nat option \<times> storage" where
  "Cache_Get t T key s =
     (case cached s t T key of
        Some v \<Rightarrow> (Some v, s\<lparr>local_hits := local_hits s + 1\<rparr>)
      | None \<Rightarrow> (None, s\<lparr>local_misses := local_misses s + 1\<rparr>))"

definition Cache_Set :: "nat \<Rightarrow> string \<Rightarrow> string \<Rightarrow> nat \<Rightarrow> storage \<Rightarrow> storage" where
  "Cache_Set t T key v s = s\<lparr>cached := (cached s)(t := (cached s t)(T := (cached s t T)(key \<mapsto> v)))\<rparr>"

definition Cache_Has :: "nat \<Rightarrow> string \<Rightarrow> string \<Rightarrow> storage \<Rightarrow> bool" where
  "Cache_Has t T key s \<longleftrightarrow> cached s t T key \<noteq> None"

section \<open>The storage\<close>

definition type_differs :: "type_view \<Rightarrow> string \<Rightarrow> bool option" where
  "type_differs view name = (case view of Name n \<Rightarrow> Some (n \<noteq> name) | Dangling \<Rightarrow> None)"

definition GetOrNull :: "nat \<Rightarrow> string \<Rightarrow> string list \<Rightarrow> storage \<Rightarrow> nat option outcome" where
  "GetOrNull t T tags s = do {
     key \<leftarrow> MakeKey T tags;
     let (hit, s) = Cache_Get t T key s;
     case hit of
       Some v \<Rightarrow> Some (Inr (Some v), s)
     | None \<Rightarrow>
         (case M_storage s key of
            Some it \<Rightarrow> do {
              name \<leftarrow> ConstexprGetType T;
              differs \<leftarrow> type_differs (entry_type it) name;
              if differs then Some (Inl (Type_mismatch key), s) else Some (Inr (entry_value it), s)
            }
          | None \<Rightarrow> Some (Inr None, s))
   }"

definition entry_ref :: "string \<Rightarrow> storage \<Rightarrow> entry" where
  "entry_ref key s = (case M_storage s key of Some e \<Rightarrow> e | None \<Rightarrow> Entry)"

definition make_object :: "string \<Rightarrow> storage \<Rightarrow> nat \<times> storage" where
  "make_object T s = (next_object s, s\<lparr>object_type := (object_type s)(next_object s \<mapsto> T), next_object := Suc (next_object s)\<rparr>)"

definition GetOrCreate :: "nat \<Rightarrow> string \<Rightarrow> string list \<Rightarrow> storage \<Rightarrow> nat outcome" where
  "GetOrCreate t T tags s = do {
     key \<leftarrow> MakeKey T tags;
     name \<leftarrow> ConstexprGetType T;
     let (hit, s) = Cache_Get t T key s;
     case hit of
       Some v \<Rightarrow> Some (Inr v, s)
     | None \<Rightarrow> do {
         let entry = entry_ref key s;
         let s = s\<lparr>M_storage := (M_storage s)(key \<mapsto> entry)\<rparr>;
         case entry_value entry of
           None \<Rightarrow> do {
             let s = s\<lparr>shared_misses := shared_misses s + 1\<rparr>;
             let (v, s) = make_object T s;
             let entry = entry\<lparr>entry_type := Name name, entry_value := Some v\<rparr>;
             let s = s\<lparr>M_storage := (M_storage s)(key \<mapsto> entry)\<rparr>;
             let s = (if \<not> deletable entry then Cache_Set t T key v s else s);
             Some (Inr v, s)
           }
         | Some v \<Rightarrow> do {
             let s = s\<lparr>shared_hits := shared_hits s + 1\<rparr>;
             differs \<leftarrow> type_differs (entry_type entry) name;
             if differs then Some (Inl (Type_mismatch key), s)
             else do {
               let s = (if \<not> deletable entry then Cache_Set t T key v s else s);
               Some (Inr v, s)
             }
           }
       }
   }"

definition Has :: "nat \<Rightarrow> string \<Rightarrow> string list \<Rightarrow> storage \<Rightarrow> bool option" where
  "Has t T tags s = do {
     key \<leftarrow> MakeKey T tags;
     name \<leftarrow> ConstexprGetType T;
     if Cache_Has t T key s then Some True
     else case M_storage s key of
            None \<Rightarrow> Some False
          | Some it \<Rightarrow> do { differs \<leftarrow> type_differs (entry_type it) name; Some (\<not> differs) }
   }"

definition Delete :: "string \<Rightarrow> string list \<Rightarrow> storage \<Rightarrow> bool outcome" where
  "Delete T tags s = do {
     key \<leftarrow> MakeKey T tags;
     name \<leftarrow> ConstexprGetType T;
     case M_storage s key of
       Some it \<Rightarrow> do {
         differs \<leftarrow> type_differs (entry_type it) name;
         if differs then Some (Inl (Type_mismatch key), s)
         else if deletable it then Some (Inr True, s\<lparr>M_storage := (M_storage s)(key := None)\<rparr>)
         else Some (Inl (Not_deletable key), s)
       }
     | None \<Rightarrow> Some (Inr False, s)
   }"

text \<open>\<open>entry.type = key\<close> makes a view of a string that is destroyed when the function returns.\<close>

definition Deletable :: "string \<Rightarrow> string list \<Rightarrow> storage \<Rightarrow> unit outcome" where
  "Deletable T tags s = do {
     key \<leftarrow> MakeKey T tags;
     name \<leftarrow> ConstexprGetType T;
     case M_storage s key of
       Some it \<Rightarrow> do {
         differs \<leftarrow> type_differs (entry_type it) name;
         if differs then Some (Inl (Type_mismatch key), s)
         else Some (Inr (), s\<lparr>M_storage := (M_storage s)(key \<mapsto> it\<lparr>deletable := True\<rparr>)\<rparr>)
       }
     | None \<Rightarrow> Some (Inr (), s\<lparr>M_storage := (M_storage s)(key \<mapsto> Entry\<lparr>entry_type := Dangling, deletable := True\<rparr>)\<rparr>)
   }"

section \<open>Reloadable values\<close>

definition reloadable_type :: "string \<Rightarrow> string" where
  "reloadable_type T = ''godby::Reloadable<'' @ T @ (if T \<noteq> [] \<and> last T = CHR ''>'' then '' >'' else ''>'')"

text \<open>The result is the object and the buffer that \<open>which\<close> points to. The interval is narrowed to \<open>unsigned int\<close>.\<close>

definition GetOrCreate_Reloadable :: "nat \<Rightarrow> string \<Rightarrow> u64 \<Rightarrow> string list \<Rightarrow> storage \<Rightarrow> (nat \<times> buffer) outcome" where
  "GetOrCreate_Reloadable t T interval tags s = do {
     let U = reloadable_type T;
     key \<leftarrow> MakeKey U tags;
     name \<leftarrow> ConstexprGetType U;
     let (hit, s) = Cache_Get t U key s;
     case hit of
       Some v \<Rightarrow> Some (Inr (v, which (world (timer s) v)), s)
     | None \<Rightarrow> do {
         let s = s\<lparr>shared_hits := shared_hits s + 1\<rparr>;
         let entry = entry_ref key s;
         let s = s\<lparr>M_storage := (M_storage s)(key \<mapsto> entry)\<rparr>;
         case entry_value entry of
           None \<Rightarrow> do {
             let (v, s) = make_object U s;
             let s = s\<lparr>intervals := (intervals s)(v := ucast interval),
                       timer := (timer s)\<lparr>world := (world (timer s))(v := Reloadable)\<rparr>\<rparr>;
             let entry = entry\<lparr>entry_type := Name name, entry_value := Some v, reloadable := True\<rparr>;
             let s = s\<lparr>M_storage := (M_storage s)(key \<mapsto> entry)\<rparr>;
             w \<leftarrow> AddReloadable (intervals s) v (timer s);
             let s = s\<lparr>timer := w\<rparr>;
             let s = (if \<not> deletable entry then Cache_Set t U key v s else s);
             Some (Inr (v, which (world (timer s) v)), s)
           }
         | Some v \<Rightarrow> do {
             let s = s\<lparr>shared_hits := shared_hits s + 1\<rparr>;
             differs \<leftarrow> type_differs (entry_type entry) name;
             if differs then Some (Inl (Type_mismatch key), s)
             else do {
               let s = (if \<not> deletable entry then Cache_Set t U key v s else s);
               Some (Inr (v, which (world (timer s) v)), s)
             }
           }
       }
   }"

definition Has_Reloadable :: "nat \<Rightarrow> string \<Rightarrow> string list \<Rightarrow> storage \<Rightarrow> bool option" where
  "Has_Reloadable t T tags s = do {
     let U = reloadable_type T;
     key \<leftarrow> MakeKey U tags;
     name \<leftarrow> ConstexprGetType U;
     if Cache_Has t U key s then Some True
     else case M_storage s key of
            None \<Rightarrow> Some False
          | Some it \<Rightarrow> do { differs \<leftarrow> type_differs (entry_type it) name; Some (\<not> differs) }
   }"

section \<open>What is stored\<close>

definition stored :: "storage \<Rightarrow> string \<Rightarrow> (string \<times> nat) option" where
  "stored s key = (case M_storage s key of
      Some e \<Rightarrow> (case (entry_type e, entry_value e) of (Name n, Some v) \<Rightarrow> Some (n, v) | _ \<Rightarrow> None)
    | None \<Rightarrow> None)"

text \<open>A key that was declared deletable and has no value yet.\<close>

definition declared :: "storage \<Rightarrow> string \<Rightarrow> bool" where
  "declared s key \<longleftrightarrow> (\<exists>e. M_storage s key = Some e \<and> entry_value e = None)"

definition coherent :: "storage \<Rightarrow> bool" where
  "coherent s \<longleftrightarrow>
     (\<forall>t T key v. cached s t T key = Some v \<longrightarrow> (\<exists>e name. ConstexprGetType T = Some name \<and> M_storage s key = Some e \<and>
        entry_type e = Name name \<and> entry_value e = Some v \<and> \<not> deletable e)) \<and>
     (\<forall>key e v. M_storage s key = Some e \<and> entry_value e = Some v \<longrightarrow>
        v < next_object s \<and> (\<exists>T name. object_type s v = Some T \<and> ConstexprGetType T = Some name \<and> entry_type e = Name name)) \<and>
     (\<forall>key e. M_storage s key = Some e \<and> entry_value e = None \<longrightarrow> entry_type e = Dangling \<and> deletable e) \<and>
     (\<forall>k k' e e' v. M_storage s k = Some e \<and> entry_value e = Some v \<and> M_storage s k' = Some e' \<and> entry_value e' = Some v \<longrightarrow> k = k')"

section \<open>The operations on coherent states\<close>

lemma scan_semicolon: "scan cs i e s = (e', s', f) \<Longrightarrow> s' = s \<or> i \<le> s'"
  by (induction cs i e s rule: scan.induct) (auto split: if_splits)

lemma scan_equals: "scan cs i e s = (e', s', f) \<Longrightarrow> e \<noteq> 0 \<Longrightarrow> e' = e"
  by (induction cs i e s rule: scan.induct) (auto split: if_splits)

lemma ConstexprGetType_total: "\<exists>name. ConstexprGetType T = Some name"
proof -
  obtain e sc f where r: "scan (pretty_function T) 0 0 0 = (e, sc, f)" by (cases "scan (pretty_function T) 0 0 0") auto
  have h: "length head_text \<noteq> 0" by simp
  have e: "e = length head_text" using scan_equals [OF r [unfolded scan_head] h] .
  moreover have "sc = 0 \<or> Suc (length head_text) \<le> sc" using scan_semicolon [OF r [unfolded scan_head]] .
  ultimately show ?thesis by (auto simp: ConstexprGetType_def ConstexprGetType_of_def r trimmed_def)
qed

lemma coherentD:
  assumes "coherent s"
  shows "cached s t T key = Some v \<Longrightarrow> \<exists>e name. ConstexprGetType T = Some name \<and> M_storage s key = Some e \<and>
      entry_type e = Name name \<and> entry_value e = Some v \<and> \<not> deletable e"
    and "M_storage s key = Some e \<Longrightarrow> entry_value e = Some v \<Longrightarrow>
      v < next_object s \<and> (\<exists>T name. object_type s v = Some T \<and> ConstexprGetType T = Some name \<and> entry_type e = Name name)"
    and "M_storage s key = Some e \<Longrightarrow> entry_value e = None \<Longrightarrow> entry_type e = Dangling \<and> deletable e"
    and "M_storage s k = Some e \<Longrightarrow> entry_value e = Some v \<Longrightarrow> M_storage s k' = Some e' \<Longrightarrow> entry_value e' = Some v \<Longrightarrow> k = k'"
  using assms unfolding coherent_def by blast+

lemma coherent_cong:
  assumes "coherent s" and "M_storage s' = M_storage s" and "cached s' = cached s" and "object_type s' = object_type s"
    and "next_object s' = next_object s"
  shows "coherent s'"
  using assms(1) unfolding coherent_def assms(2-5) .

lemma coherent_put:
  assumes ok: "coherent s" and no: "stored s key = None" and e: "entry_type e = Name name" "entry_value e = Some (next_object s)"
    and T: "ConstexprGetType T = Some name"
    and s': "M_storage s' = (M_storage s)(key \<mapsto> e)" "object_type s' = (object_type s)(next_object s \<mapsto> T)"
      "next_object s' = Suc (next_object s)"
      "cached s' = (if deletable e then cached s else (cached s)(t := (cached s t)(T := (cached s t T)(key \<mapsto> next_object s))))"
  shows "coherent s'"
proof -
  have v: "entry_value x = None" if "M_storage s key = Some x" for x
    using no that coherentD(2) [OF ok that] by (cases "entry_value x") (auto simp: stored_def)
  have c: "cached s t' T' key = None" for t' T'
  proof (cases "cached s t' T' key")
    case (Some u)
    then show ?thesis using coherentD(1) [OF ok Some] v by auto
  qed
  note D = coherentD [OF ok]
  have 1: "\<exists>x n. ConstexprGetType T' = Some n \<and> M_storage s' k = Some x \<and> entry_type x = Name n \<and> entry_value x = Some u \<and> \<not> deletable x"
    if "cached s' t' T' k = Some u" for t' T' k u
  proof (cases "k = key")
    case True
    then have "\<not> deletable e" "t' = t" "T' = T" "u = next_object s" using that c by (auto simp: s'(4) split: if_splits)
    then show ?thesis using True e T by (simp add: s'(1))
  next
    case False
    then have "cached s t' T' k = Some u" using that by (auto simp: s'(4) split: if_splits)
    then show ?thesis using D(1) False by (simp add: s'(1))
  qed
  have 2: "u < next_object s' \<and> (\<exists>T n. object_type s' u = Some T \<and> ConstexprGetType T = Some n \<and> entry_type x = Name n)"
    if "M_storage s' k = Some x" "entry_value x = Some u" for k x u
  proof (cases "k = key")
    case True
    then show ?thesis using that e T by (simp add: s'(1-3))
  next
    case False
    then show ?thesis using that D(2) [of k x u] by (auto simp: s'(1-3))
  qed
  have 3: "entry_type x = Dangling \<and> deletable x" if "M_storage s' k = Some x" "entry_value x = None" for k x
    using that e D(3) [of k x] by (cases "k = key") (auto simp: s'(1))
  have 4: "k = k'" if "M_storage s' k = Some x" "entry_value x = Some u" "M_storage s' k' = Some x'" "entry_value x' = Some u" for k k' x x' u
    using that e D(2) [of k x u] D(2) [of k' x' u] D(4) [of k x u k' x'] by (cases "k = key"; cases "k' = key") (auto simp: s'(1))
  show ?thesis unfolding coherent_def using 1 2 3 4 by blast
qed

lemma coherent_cache:
  assumes ok: "coherent s" and e: "M_storage s key = Some e" "entry_type e = Name name" "entry_value e = Some v" "\<not> deletable e"
    and T: "ConstexprGetType T = Some name"
  shows "coherent (Cache_Set t T key v s)"
proof -
  have "\<exists>x n. ConstexprGetType T' = Some n \<and> M_storage s k = Some x \<and> entry_type x = Name n \<and> entry_value x = Some u \<and> \<not> deletable x"
    if "cached (Cache_Set t T key v s) t' T' k = Some u" for t' T' k u
  proof (cases "t' = t \<and> T' = T \<and> k = key")
    case True
    then show ?thesis using that e T by (simp add: Cache_Set_def)
  next
    case False
    then have "cached s t' T' k = Some u" using that by (auto simp: Cache_Set_def split: if_splits)
    then show ?thesis by (rule coherentD(1) [OF ok])
  qed
  moreover have "M_storage (Cache_Set t T key v s) = M_storage s" "object_type (Cache_Set t T key v s) = object_type s"
    "next_object (Cache_Set t T key v s) = next_object s" by (simp_all add: Cache_Set_def)
  ultimately show ?thesis using ok unfolding coherent_def by (simp (no_asm_simp)) blast
qed

lemma stored_Some:
  "stored s key = Some (n, v) \<longleftrightarrow> (\<exists>e. M_storage s key = Some e \<and> entry_type e = Name n \<and> entry_value e = Some v)"
  by (auto simp: stored_def split: option.splits type_view.splits)

lemma stored_entry:
  assumes "coherent s"
  obtains "M_storage s key = None" "stored s key = None" "\<not> declared s key"
  | e where "M_storage s key = Some e" "stored s key = None" "declared s key" "entry_value e = None" "deletable e"
  | e n v where "M_storage s key = Some e" "stored s key = Some (n, v)" "\<not> declared s key" "entry_type e = Name n" "entry_value e = Some v"
proof (cases "M_storage s key")
  case None
  then show ?thesis using that(1) by (simp add: stored_def declared_def)
next
  case (Some e)
  show ?thesis
  proof (cases "entry_value e")
    case None
    then show ?thesis using that(2) [OF Some] coherentD(3) [OF assms Some] Some by (simp add: stored_def declared_def)
  next
    case v: (Some v)
    then obtain n where "entry_type e = Name n" using coherentD(2) [OF assms Some] by blast
    then show ?thesis using that(3) [OF Some] v Some by (simp add: stored_def declared_def)
  qed
qed

lemma cached_stored:
  assumes "coherent s" and "cached s t T key = Some v" and "ConstexprGetType T = Some name"
  shows "stored s key = Some (name, v)" and "\<not> declared s key"
  using coherentD(1) [OF assms(1,2)] assms(3) by (auto simp: stored_def declared_def)

definition created :: "string \<Rightarrow> string \<Rightarrow> storage \<Rightarrow> storage_error + nat" where
  "created name key s = (case stored s key of
      None \<Rightarrow> Inr (next_object s)
    | Some (n, v) \<Rightarrow> if n = name then Inr v else Inl (Type_mismatch key))"

lemma GetOrCreate_ok:
  assumes ok: "coherent s" and T: "ConstexprGetType T = Some name" and key: "key = key_text name tags"
  shows "\<exists>s'. GetOrCreate t T tags s = Some (created name key s, s') \<and> coherent s' \<and>
    stored s' = (if stored s key = None then (stored s)(key \<mapsto> (name, next_object s)) else stored s) \<and>
    object_type s' = (if stored s key = None then (object_type s)(next_object s \<mapsto> T) else object_type s)"
proof (cases "cached s t T key")
  case (Some v)
  note c = cached_stored [OF ok Some T]
  have "GetOrCreate t T tags s = Some (Inr v, s\<lparr>local_hits := local_hits s + 1\<rparr>)"
    using Some T key by (simp add: GetOrCreate_def MakeKey_def Cache_Get_def)
  moreover have "coherent (s\<lparr>local_hits := local_hits s + 1\<rparr>)" by (rule coherent_cong [OF ok]) simp_all
  moreover have "stored (s\<lparr>local_hits := local_hits s + 1\<rparr>) = stored s" by (simp add: stored_def fun_eq_iff)
  ultimately show ?thesis using c(1) by (simp add: created_def)
next
  case None
  define s1 where "s1 = s\<lparr>local_misses := local_misses s + 1\<rparr>"
  have s1: "M_storage s1 = M_storage s" "cached s1 = cached s" "object_type s1 = object_type s" "next_object s1 = next_object s"
    by (simp_all add: s1_def)
  have cg: "Cache_Get t T key s = (None, s1)" using None by (simp add: Cache_Get_def s1_def)
  have mk: "MakeKey T tags = Some key" using T key by (simp add: MakeKey_def)
  have G: "GetOrCreate t T tags s = (let entry = entry_ref key s1; s = s1\<lparr>M_storage := (M_storage s1)(key \<mapsto> entry)\<rparr> in
     case entry_value entry of
       None \<Rightarrow> (let s = s\<lparr>shared_misses := shared_misses s + 1\<rparr>; (v, s) = make_object T s;
             entry = entry\<lparr>entry_type := Name name, entry_value := Some v\<rparr>;
             s = s\<lparr>M_storage := (M_storage s)(key \<mapsto> entry)\<rparr>;
             s = (if \<not> deletable entry then Cache_Set t T key v s else s) in Some (Inr v, s))
     | Some v \<Rightarrow> (let s = s\<lparr>shared_hits := shared_hits s + 1\<rparr> in do {
             differs \<leftarrow> type_differs (entry_type entry) name;
             if differs then Some (Inl (Type_mismatch key), s)
             else (let s = (if \<not> deletable entry then Cache_Set t T key v s else s) in Some (Inr v, s)) }))"
    by (simp add: GetOrCreate_def mk T cg Let_def)
  show ?thesis
  proof (cases "stored s key")
    case no: None
    define e where "e = (entry_ref key s1)\<lparr>entry_type := Name name, entry_value := Some (next_object s)\<rparr>"
    have ev: "entry_value (entry_ref key s1) = None"
      using stored_entry [OF ok, of key] no by (metis Entry_def entry.select_convs(2) entry_ref_def option.case s1(1) option.distinct(1))
    obtain s' where s': "GetOrCreate t T tags s = Some (Inr (next_object s), s')"
      "M_storage s' = (M_storage s)(key \<mapsto> e)" "object_type s' = (object_type s)(next_object s \<mapsto> T)" "next_object s' = Suc (next_object s)"
      "cached s' = (if deletable e then cached s else (cached s)(t := (cached s t)(T := (cached s t T)(key \<mapsto> next_object s))))"
      using G ev by (auto simp: Let_def make_object_def e_def s1 Cache_Set_def)
    have c: "coherent s'" by (rule coherent_put [OF ok no _ _ T s'(2-5)]) (simp_all add: e_def)
    moreover have "stored s' = (stored s)(key \<mapsto> (name, next_object s))"
      by (auto simp: stored_def s'(2) e_def fun_eq_iff)
    ultimately show ?thesis using s' no by (simp add: created_def)
  next
    case (Some nv)
    then obtain n v e where e: "stored s key = Some (n, v)" "M_storage s key = Some e" "entry_type e = Name n" "entry_value e = Some v"
      by (cases nv) (auto simp: stored_Some)
    have er: "entry_ref key s1 = e" using e(2) by (simp add: entry_ref_def s1)
    define s2 where "s2 = s1\<lparr>M_storage := (M_storage s1)(key \<mapsto> e), shared_hits := shared_hits s1 + 1\<rparr>"
    have s2: "M_storage s2 = M_storage s" "cached s2 = cached s" "object_type s2 = object_type s" "next_object s2 = next_object s"
      using e(2) by (auto simp: s2_def s1)
    then have c2: "coherent s2" by (intro coherent_cong [OF ok])
    let ?s' = "if n = name \<and> \<not> deletable e then Cache_Set t T key v s2 else s2"
    have "GetOrCreate t T tags s = Some (created name key s, ?s')"
      using G e er by (simp add: Let_def created_def type_differs_def s2_def)
    moreover have "coherent ?s'" using c2 coherent_cache [OF c2, of key e name v T t] s2 e T by simp
    moreover have "stored ?s' = stored s" "object_type ?s' = object_type s" using s2 by (auto simp: stored_def fun_eq_iff Cache_Set_def)
    ultimately show ?thesis using Some by auto
  qed
qed

definition looked_up :: "string \<Rightarrow> string \<Rightarrow> storage \<Rightarrow> storage_error + nat option" where
  "looked_up name key s = (case stored s key of
      None \<Rightarrow> Inr None
    | Some (n, v) \<Rightarrow> if n = name then Inr (Some v) else Inl (Type_mismatch key))"

lemma GetOrNull_ok:
  assumes ok: "coherent s" and T: "ConstexprGetType T = Some name" and key: "key = key_text name tags" and d: "\<not> declared s key"
  shows "\<exists>s'. GetOrNull t T tags s = Some (looked_up name key s, s') \<and> coherent s' \<and> stored s' = stored s"
proof -
  obtain hit s1 where c: "Cache_Get t T key s = (hit, s1)" by (cases "Cache_Get t T key s")
  have h: "hit = cached s t T key" and s1: "M_storage s1 = M_storage s" "coherent s1" "stored s1 = stored s"
    using c by (auto simp: Cache_Get_def stored_def fun_eq_iff split: option.splits intro!: coherent_cong [OF ok])
  have "fst (the (GetOrNull t T tags s)) = looked_up name key s \<and> (\<exists>r. GetOrNull t T tags s = Some (r, s1))"
  proof (cases "cached s t T key")
    case (Some v)
    then show ?thesis using cached_stored [OF ok Some T] c h T key by (simp add: GetOrNull_def MakeKey_def looked_up_def)
  next
    case None
    show ?thesis
      by (rule stored_entry [OF ok, of key])
        (use None c h T key d s1(1) in \<open>auto simp: GetOrNull_def MakeKey_def looked_up_def type_differs_def\<close>)
  qed
  then show ?thesis using s1 by auto
qed

lemma Has_ok:
  assumes ok: "coherent s" and T: "ConstexprGetType T = Some name" and key: "key = key_text name tags" and d: "\<not> declared s key"
  shows "Has t T tags s = Some (\<exists>v. stored s key = Some (name, v))"
proof (cases "cached s t T key")
  case (Some v)
  then show ?thesis using cached_stored [OF ok Some T] T key by (simp add: Has_def MakeKey_def Cache_Has_def)
next
  case None
  show ?thesis
    by (rule stored_entry [OF ok, of key]) (use None T key d in \<open>auto simp: Has_def MakeKey_def Cache_Has_def type_differs_def\<close>)
qed

text \<open>Whether the entry of a key may be deleted.\<close>

definition may_delete :: "storage \<Rightarrow> string \<Rightarrow> bool" where
  "may_delete s key \<longleftrightarrow> (case M_storage s key of Some e \<Rightarrow> deletable e | None \<Rightarrow> False)"

lemma coherent_delete:
  assumes ok: "coherent s" and d: "may_delete s key"
  shows "coherent (s\<lparr>M_storage := (M_storage s)(key := None)\<rparr>)"
proof -
  have c: "cached s t T key = None" for t T
    using coherentD(1) [OF ok, of t T key] d by (cases "cached s t T key") (auto simp: may_delete_def)
  have "\<exists>e name. ConstexprGetType T = Some name \<and> ((M_storage s)(key := None)) k = Some e \<and>
        entry_type e = Name name \<and> entry_value e = Some v \<and> \<not> deletable e" if "cached s t T k = Some v" for t T k v
    using coherentD(1) [OF ok that] that c by (cases "k = key") auto
  then show ?thesis using coherentD(2-4) [OF ok] unfolding coherent_def by (auto split: if_splits)
qed

lemma storage_Delete_ok:
  assumes ok: "coherent s" and T: "ConstexprGetType T = Some name" and key: "key = key_text name tags" and d: "\<not> declared s key"
  shows "Delete T tags s = Some (case stored s key of
      None \<Rightarrow> (Inr False, s)
    | Some (n, v) \<Rightarrow>
        if n \<noteq> name then (Inl (Type_mismatch key), s)
        else if may_delete s key then (Inr True, s\<lparr>M_storage := (M_storage s)(key := None)\<rparr>)
        else (Inl (Not_deletable key), s))"
  by (rule stored_entry [OF ok, of key]) (use T key d in \<open>auto simp: Delete_def MakeKey_def type_differs_def may_delete_def\<close>)

lemma Deletable_ok:
  assumes ok: "coherent s" and T: "ConstexprGetType T = Some name" and key: "key = key_text name tags" and new: "M_storage s key = None"
  shows "\<exists>s'. Deletable T tags s = Some (Inr (), s') \<and> coherent s' \<and> stored s' = stored s \<and> declared s' key"
proof -
  define e where "e = Entry\<lparr>entry_type := Dangling, deletable := True\<rparr>"
  have e: "entry_value e = None" "entry_type e = Dangling" "deletable e" by (simp_all add: e_def Entry_def)
  define s' where "s' = s\<lparr>M_storage := (M_storage s)(key \<mapsto> e)\<rparr>"
  have c: "cached s t T key = None" for t T
    using coherentD(1) [OF ok, of t T key] new by (cases "cached s t T key") auto
  have 1: "\<exists>e name. ConstexprGetType T = Some name \<and> M_storage s' k = Some e \<and>
        entry_type e = Name name \<and> entry_value e = Some v \<and> \<not> deletable e" if "cached s' t T k = Some v" for t T k v
    using coherentD(1) [OF ok, of t T k v] that c by (cases "k = key") (auto simp: s'_def)
  have "coherent s'" unfolding coherent_def using 1 coherentD(2-4) [OF ok] e by (auto simp: s'_def split: if_splits)
  moreover have "stored s' = stored s" "declared s' key" using new e by (auto simp: s'_def stored_def declared_def fun_eq_iff)
  moreover have "Deletable T tags s = Some (Inr (), s')" using T key new by (simp add: Deletable_def MakeKey_def s'_def e_def)
  ultimately show ?thesis by blast
qed

section \<open>Type safety\<close>

definition ordinary :: "string \<Rightarrow> bool" where
  "ordinary T \<longleftrightarrow> T \<noteq> [] \<and> \<not> ConstexprIsSpace (hd T) \<and> \<not> ConstexprIsSpace (last T) \<and> (\<forall>c \<in> set T. c \<noteq> CHR '';'' \<and> c \<noteq> CHR '']'')"

lemma ordinary_type: "ordinary T \<Longrightarrow> ConstexprGetType T = Some T"
  by (simp add: ordinary_def ConstexprGetType_name)

lemma ordinary_reloadable: "ordinary T \<Longrightarrow> ordinary (reloadable_type T)"
  by (auto simp: ordinary_def reloadable_type_def ConstexprIsSpace_def)

definition typed :: "storage \<Rightarrow> bool" where
  "typed s \<longleftrightarrow>
     (\<forall>t T key v. cached s t T key = Some v \<longrightarrow> object_type s v = Some T) \<and>
     (\<forall>key e v. M_storage s key = Some e \<and> entry_value e = Some v \<longrightarrow> (\<exists>T. object_type s v = Some T \<and> entry_type e = Name T)) \<and>
     (\<forall>v T. object_type s v = Some T \<longrightarrow> v < next_object s)"

lemma typedD:
  assumes "typed s"
  shows "cached s t T key = Some v \<Longrightarrow> object_type s v = Some T"
    and "M_storage s key = Some e \<Longrightarrow> entry_value e = Some v \<Longrightarrow> \<exists>T. object_type s v = Some T \<and> entry_type e = Name T"
    and "object_type s v = Some T \<Longrightarrow> v < next_object s"
  using assms unfolding typed_def by blast+

lemma typed_cong:
  assumes "typed s" and "M_storage s' = M_storage s" and "cached s' = cached s" and "object_type s' = object_type s"
    and "next_object s' = next_object s"
  shows "typed s'"
  using assms(1) unfolding typed_def assms(2-5) .

lemma typed_put:
  assumes s: "typed s" and e: "\<forall>v. entry_value e = Some v \<longrightarrow> (\<exists>T. object_type s v = Some T \<and> entry_type e = Name T)"
    and s': "M_storage s' = (M_storage s)(key \<mapsto> e)" "cached s' = cached s" "object_type s' = object_type s" "next_object s' = next_object s"
  shows "typed s'"
  unfolding typed_def s'(2-4) using typedD [OF s] e by (auto simp: s'(1) split: if_splits)

lemma typed_remove: "typed s \<Longrightarrow> typed (s\<lparr>M_storage := (M_storage s)(key := None)\<rparr>)"
  unfolding typed_def by (auto split: if_splits)

lemma typed_fresh:
  assumes s: "typed s" and s': "M_storage s' = M_storage s" "cached s' = cached s" "object_type s' = (object_type s)(next_object s \<mapsto> T)"
    "next_object s' = Suc (next_object s)"
  shows "typed s'" and "object_type s \<subseteq>\<^sub>m object_type s'"
proof -
  have old: "object_type s v = Some U \<Longrightarrow> v \<noteq> next_object s" for v U using typedD(3) [OF s, of v U] by auto
  then show "typed s'" unfolding typed_def s' using typedD [OF s] by (auto simp: less_Suc_eq) blast
  show "object_type s \<subseteq>\<^sub>m object_type s'" unfolding s' using old by (auto simp: map_le_def)
qed

lemma typed_cache: "typed s \<Longrightarrow> object_type s v = Some T \<Longrightarrow> typed (Cache_Set t T key v s)"
  unfolding typed_def Cache_Set_def by auto

lemma Cache_Get_typed:
  assumes "typed s" and "Cache_Get t T key s = (hit, s')"
  shows "typed s'" and "object_type s' = object_type s" and "M_storage s' = M_storage s" and "timer s' = timer s"
    and "\<And>v. hit = Some v \<Longrightarrow> object_type s v = Some T"
  using assms typedD(1) [OF assms(1), of t T key]
  by (auto simp: Cache_Get_def split: option.splits elim!: typed_cong)

definition answers :: "storage \<Rightarrow> string \<Rightarrow> nat option \<Rightarrow> storage \<Rightarrow> bool" where
  "answers s T r s' \<longleftrightarrow> typed s' \<and> object_type s \<subseteq>\<^sub>m object_type s' \<and> (\<forall>v. r = Some v \<longrightarrow> object_type s' v = Some T)"

definition object_of :: "storage_error + nat option \<Rightarrow> nat option" where
  "object_of r = (case r of Inl _ \<Rightarrow> None | Inr v \<Rightarrow> v)"

lemma type_differs_typed: "type_differs (Name n) name = Some (n \<noteq> name)"
  by (simp add: type_differs_def)

lemma GetOrNull_typed:
  assumes s: "typed s" and T: "ordinary T" and r: "GetOrNull t T tags s = Some (r, s')"
  shows "answers s T (object_of r) s'"
proof -
  obtain hit s1 where c: "Cache_Get t T (key_text T tags) s = (hit, s1)" by (cases "Cache_Get t T (key_text T tags) s")
  note C = Cache_Get_typed [OF s c]
  show ?thesis using r C(1,2,5) typedD(2) [OF C(1), of "key_text T tags"]
    by (auto simp: GetOrNull_def MakeKey_def ordinary_type [OF T] c answers_def object_of_def type_differs_typed map_le_def
        split: option.splits bind_splits if_splits) (force simp: type_differs_typed)+
qed

text \<open>The end of a successful lookup: the object goes to the cache of the thread unless it is deletable.\<close>

lemma keep_typed:
  assumes "typed s" and "object_type s v = Some T"
  shows "typed (if \<not> d then Cache_Set t T key v s else s)"
    and "object_type (if \<not> d then Cache_Set t T key v s else s) = object_type s"
    and "timer (if \<not> d then Cache_Set t T key v s else s) = timer s"
  using assms typed_cache by (auto simp: Cache_Set_def)

lemma entry_ref_value: "entry_value (entry_ref key s) = Some v \<Longrightarrow> M_storage s key = Some (entry_ref key s)"
  by (auto simp: entry_ref_def Entry_def split: option.splits)

lemma touch_typed:
  assumes s: "typed s" and e: "entry_value (entry_ref key s) = r"
    and s': "M_storage s' = (M_storage s)(key \<mapsto> entry_ref key s)" "cached s' = cached s" "object_type s' = object_type s"
      "next_object s' = next_object s"
  shows "typed s'"
  using typedD(2) [OF s entry_ref_value] by (intro typed_put [OF s _ s']) auto

lemma made_typed:
  assumes s: "typed s" and v: "v = next_object s" and e: "entry_type e = Name T" "entry_value e = Some v"
    and s': "M_storage s' = (M_storage s)(key \<mapsto> e)" "cached s' = cached s" "object_type s' = (object_type s)(v \<mapsto> T)"
      "next_object s' = Suc v"
  shows "typed s'" and "object_type s \<subseteq>\<^sub>m object_type s'" and "object_type s' v = Some T"
proof -
  let ?s = "snd (make_object T s)"
  have f: "typed ?s" "object_type s \<subseteq>\<^sub>m object_type ?s" by (rule typed_fresh [OF s, where T = T]; simp add: make_object_def)+
  have o: "object_type ?s = object_type s'" using v s'(3) by (simp add: make_object_def)
  show "typed s'" by (rule typed_put [OF f(1), of e s' key]) (use e v s' in \<open>simp_all add: make_object_def\<close>)
  show "object_type s \<subseteq>\<^sub>m object_type s'" using f(2) o by simp
  show "object_type s' v = Some T" by (simp add: s'(3))
qed

lemma GetOrCreate_typed:
  assumes s: "typed s" and T: "ordinary T" and r: "GetOrCreate t T tags s = Some (r, s')"
  shows "answers s T (object_of (map_sum id Some r)) s'"
proof -
  let ?key = "key_text T tags"
  obtain hit s1 where c: "Cache_Get t T ?key s = (hit, s1)" by (cases "Cache_Get t T ?key s")
  note C = Cache_Get_typed [OF s c]
  note r' = r [unfolded GetOrCreate_def MakeKey_def ordinary_type [OF T], simplified, unfolded c, simplified]
  show ?thesis
  proof (cases hit)
    case (Some v)
    then show ?thesis using r' C by (auto simp: answers_def object_of_def)
  next
    case None
    let ?e = "entry_ref ?key s1"
    show ?thesis
    proof (cases "entry_value ?e")
      case e: None
      let ?e' = "?e\<lparr>entry_type := Name T, entry_value := Some (next_object s1)\<rparr>"
      define s2 where "s2 = (snd (make_object T (s1\<lparr>shared_misses := shared_misses s1 + 1\<rparr>)))\<lparr>M_storage := (M_storage s1)(?key \<mapsto> ?e')\<rparr>"
      have "typed s2" "object_type s1 \<subseteq>\<^sub>m object_type s2" "object_type s2 (next_object s1) = Some T"
        by (rule made_typed [OF C(1), of _ ?e' T s2 ?key]; simp add: s2_def make_object_def)+
      moreover have "r = Inr (next_object s1)" "s' = (if \<not> deletable ?e then Cache_Set t T ?key (next_object s1) s2 else s2)"
        using r' None e by (auto simp: s2_def make_object_def Let_def)
      ultimately show ?thesis using keep_typed [of s2 "next_object s1" T] C(2) by (simp add: answers_def object_of_def)
    next
      case e: (Some v)
      note m = entry_ref_value [OF e]
      obtain U where U: "object_type s1 v = Some U" "entry_type ?e = Name U" using typedD(2) [OF C(1) m e] by blast
      define s2 where "s2 = s1\<lparr>M_storage := (M_storage s1)(?key \<mapsto> ?e), shared_hits := shared_hits s1 + 1\<rparr>"
      have s2: "typed s2" "object_type s2 = object_type s1" by (rule touch_typed [OF C(1) refl, of s2 ?key]; simp add: s2_def) (simp add: s2_def)
      have "(r, s') = (if U = T then (Inr v, if \<not> deletable ?e then Cache_Set t T ?key v s2 else s2) else (Inl (Type_mismatch ?key), s2))"
        using r' None e U by (auto simp: s2_def type_differs_typed Let_def)
      then show ?thesis using keep_typed [OF s2(1), of v T] s2 C(2) U(1) by (auto simp: answers_def object_of_def map_le_def split: if_splits)
    qed
  qed
qed

lemma GetOrCreate_Reloadable_typed:
  assumes s: "typed s" and T: "ordinary T" and r: "GetOrCreate_Reloadable t T interval tags s = Some (r, s')"
  shows "answers s (reloadable_type T) (object_of (map_sum id (Some \<circ> fst) r)) s'"
proof -
  define U where "U = reloadable_type T"
  have oU: "ordinary U" using T by (simp add: U_def ordinary_reloadable)
  let ?key = "key_text U tags"
  obtain hit s1 where c: "Cache_Get t U ?key s = (hit, s1)" by (cases "Cache_Get t U ?key s")
  note C = Cache_Get_typed [OF s c]
  note r' = r [unfolded GetOrCreate_Reloadable_def U_def [symmetric] MakeKey_def Let_def ordinary_type [OF oU], simplified, unfolded c, simplified]
  show ?thesis unfolding U_def [symmetric]
  proof (cases hit)
    case (Some v)
    then show "answers s U (object_of (map_sum id (Some \<circ> fst) r)) s'" using r' C by (auto simp: answers_def object_of_def)
  next
    case None
    let ?e = "entry_ref ?key s1"
    have er: "entry_ref ?key (s1\<lparr>shared_hits := n\<rparr>) = ?e" for n by (simp add: entry_ref_def)
    show "answers s U (object_of (map_sum id (Some \<circ> fst) r)) s'"
    proof (cases "entry_value ?e")
      case e: None
      let ?e' = "?e\<lparr>entry_type := Name U, entry_value := Some (next_object s1), reloadable := True\<rparr>"
      have f: "\<exists>b. r = Inr (next_object s1, b)" "M_storage s' = (M_storage s1)(?key \<mapsto> ?e')"
        "object_type s' = (object_type s1)(next_object s1 \<mapsto> U)" "next_object s' = Suc (next_object s1)"
        "cached s' = cached (if \<not> deletable ?e then Cache_Set t U ?key (next_object s1) s1 else s1)"
        using r' None e by (auto simp: make_object_def Let_def er Cache_Set_def split: bind_splits)
      let ?s2 = "s'\<lparr>cached := cached s1\<rparr>"
      have m: "typed ?s2" "object_type s1 \<subseteq>\<^sub>m object_type ?s2" "object_type ?s2 (next_object s1) = Some U"
        by (rule made_typed [OF C(1) refl, of ?e' U ?s2 ?key]; simp add: f)+
      have "typed s'" by (rule typed_cong [OF keep_typed(1) [OF m(1,3), of "deletable ?e" t ?key]]) (simp_all add: Cache_Set_def f)
      then show ?thesis using m C(2) f(1) by (auto simp: answers_def object_of_def)
    next
      case e: (Some v)
      note m = entry_ref_value [OF e]
      obtain V where V: "object_type s1 v = Some V" "entry_type ?e = Name V" using typedD(2) [OF C(1) m e] by blast
      define s2 where "s2 = s1\<lparr>M_storage := (M_storage s1)(?key \<mapsto> ?e), shared_hits := shared_hits s1 + 1 + 1\<rparr>"
      have s2: "typed s2" "object_type s2 = object_type s1" by (rule touch_typed [OF C(1) refl, of s2 ?key]; simp add: s2_def) (simp add: s2_def)
      have "(\<exists>b. r = Inr (v, b)) \<and> V = U \<and> s' = (if \<not> deletable ?e then Cache_Set t U ?key v s2 else s2) \<or> (\<exists>x. r = Inl x) \<and> s' = s2"
        using r' None e V by (auto simp: s2_def type_differs_typed Let_def er split: if_splits)
      then show ?thesis using typed_cache [OF s2(1), of v U] s2 C(2) V(1)
        by (auto simp: answers_def object_of_def map_le_def Cache_Set_def split: if_splits)
    qed
  qed
qed

lemma Delete_typed:
  assumes "typed s" and "Delete T tags s = Some (r, s')"
  shows "typed s' \<and> object_type s' = object_type s"
  using assms typed_remove by (auto simp: Delete_def split: bind_splits option.splits if_splits)

lemma Deletable_typed:
  assumes s: "typed s" and r: "Deletable T tags s = Some (r, s')"
  shows "typed s' \<and> object_type s' = object_type s"
proof -
  have "typed (s\<lparr>M_storage := (M_storage s)(key \<mapsto> e\<lparr>deletable := True\<rparr>)\<rparr>)" if "M_storage s key = Some e" for key e
    by (rule typed_put [OF s, of "e\<lparr>deletable := True\<rparr>" _ key]) (use typedD(2) [OF s that] in simp_all)
  moreover have "typed (s\<lparr>M_storage := (M_storage s)(key \<mapsto> Entry\<lparr>entry_type := Dangling, deletable := True\<rparr>)\<rparr>)" for key
    by (rule typed_put [OF s, of "Entry\<lparr>entry_type := Dangling, deletable := True\<rparr>" _ key]) (simp_all add: Entry_def)
  ultimately show ?thesis using s r by (auto simp: Deletable_def split: bind_splits option.splits if_splits)
qed

datatype storage_call =
  Call_Get nat string "string list"
| Call_Create nat string "string list"
| Call_Create_Reloadable nat string u64 "string list"
| Call_Delete string "string list"
| Call_Deletable string "string list"

fun call_type :: "storage_call \<Rightarrow> string" where
  "call_type (Call_Get t T tags) = T"
| "call_type (Call_Create t T tags) = T"
| "call_type (Call_Create_Reloadable t T interval tags) = T"
| "call_type (Call_Delete T tags) = T"
| "call_type (Call_Deletable T tags) = T"

text \<open>The type of the object that a call hands out.\<close>

fun answer_type :: "storage_call \<Rightarrow> string" where
  "answer_type (Call_Create_Reloadable t T interval tags) = reloadable_type T"
| "answer_type c = call_type c"

fun perform :: "storage_call \<Rightarrow> storage \<Rightarrow> nat option outcome" where
  "perform (Call_Get t T tags) s = GetOrNull t T tags s"
| "perform (Call_Create t T tags) s = map_option (apfst (map_sum id Some)) (GetOrCreate t T tags s)"
| "perform (Call_Create_Reloadable t T interval tags) s =
     map_option (apfst (map_sum id (Some \<circ> fst))) (GetOrCreate_Reloadable t T interval tags s)"
| "perform (Call_Delete T tags) s = map_option (apfst (map_sum id (\<lambda>_. None))) (Delete T tags s)"
| "perform (Call_Deletable T tags) s = map_option (apfst (map_sum id (\<lambda>_. None))) (Deletable T tags s)"

fun history :: "storage_call list \<Rightarrow> storage \<Rightarrow> ((storage_call \<times> nat option) list \<times> storage) option" where
  "history [] s = Some ([], s)"
| "history (c # cs) s = do {
     (r, s) \<leftarrow> perform c s;
     (trace, s) \<leftarrow> history cs s;
     Some ((c, object_of r) # trace, s)
   }"

definition SharedStorage :: "reload_wheel \<Rightarrow> storage" where
  "SharedStorage w = \<lparr>M_storage = Map.empty, cached = (\<lambda>_ _. Map.empty), object_type = Map.empty, next_object = 0, intervals = (\<lambda>_. 0),
     timer = w, local_hits = 0, local_misses = 0, shared_hits = 0, shared_misses = 0\<rparr>"

lemma perform_typed:
  assumes "typed s" and "ordinary (call_type c)" and "perform c s = Some (r, s')"
  shows "answers s (answer_type c) (object_of r) s'"
proof -
  have none: "object_of (map_sum id (\<lambda>_. None) q) = None" for q :: "storage_error + 'b" by (cases q) (simp_all add: object_of_def)
  show ?thesis
  proof (cases c)
    case (Call_Delete T tags)
    then obtain q where "Delete T tags s = Some (q, s')" "r = map_sum id (\<lambda>_. None) q" using assms(3) by auto
    then show ?thesis using Delete_typed [OF assms(1)] by (auto simp: answers_def none)
  next
    case (Call_Deletable T tags)
    then obtain q where "Deletable T tags s = Some (q, s')" "r = map_sum id (\<lambda>_. None) q" using assms(3) by auto
    then show ?thesis using Deletable_typed [OF assms(1)] by (auto simp: answers_def none)
  qed (use assms GetOrNull_typed GetOrCreate_typed GetOrCreate_Reloadable_typed in auto)
qed

lemma history_typed:
  assumes "typed s" and "\<forall>c \<in> set cs. ordinary (call_type c)" and "history cs s = Some (trace, s')"
  shows "object_type s \<subseteq>\<^sub>m object_type s' \<and> (\<forall>(c, r) \<in> set trace. \<forall>v. r = Some v \<longrightarrow> object_type s' v = Some (answer_type c))"
  using assms
proof (induction cs arbitrary: s trace)
  case (Cons c cs)
  then obtain r s1 tr where p: "perform c s = Some (r, s1)" "history cs s1 = Some (tr, s')" "trace = (c, object_of r) # tr"
    by (auto split: bind_splits)
  have a: "answers s (answer_type c) (object_of r) s1" using perform_typed [OF Cons.prems(1) _ p(1)] Cons.prems(2) by simp
  then have "object_type s1 \<subseteq>\<^sub>m object_type s' \<and> (\<forall>(c, r) \<in> set tr. \<forall>v. r = Some v \<longrightarrow> object_type s' v = Some (answer_type c))"
    using Cons.IH [OF _ _ p(2)] Cons.prems(2) by (simp add: answers_def)
  then show ?case using a p(3) by (auto simp: answers_def map_le_def dom_def)
qed auto

lemma SharedStorage_typed: "typed (SharedStorage w)"
  by (simp add: typed_def SharedStorage_def)

lemma SharedStorage_coherent: "coherent (SharedStorage w)"
  by (simp add: coherent_def SharedStorage_def)

section \<open>Properties\<close>

text \<open>
  C11. On a storage whose thread caches agree with its map, every operation does what the table of
  stored objects says. \<open>GetOrCreate\<close> returns the object of its key, or makes one of the requested type, enters it and returns
  it, or reports that the key holds another type; \<open>GetOrNull\<close>, \<open>Has\<close> and \<open>Delete\<close> find exactly the objects that are stored, and
  \<open>Delete\<close> removes only objects that were declared deletable before they were made, so that the caches still
  agree afterwards. For the last three the key must not be declared and still unused.
\<close>

theorem storage_contract:
  assumes "coherent s" and "MakeKey T tags = Some key" and "ConstexprGetType T = Some name"
  shows "(\<exists>s'. GetOrCreate t T tags s = Some (created name key s, s') \<and> coherent s' \<and>
       stored s' = (if stored s key = None then (stored s)(key \<mapsto> (name, next_object s)) else stored s)) \<and>
     (\<not> declared s key \<longrightarrow> (\<exists>s'. GetOrNull t T tags s = Some (looked_up name key s, s') \<and> coherent s' \<and> stored s' = stored s)) \<and>
     (\<not> declared s key \<longrightarrow> Has t T tags s = Some (\<exists>v. stored s key = Some (name, v))) \<and>
     (\<not> declared s key \<longrightarrow> (case stored s key of
         None \<Rightarrow> Delete T tags s = Some (Inr False, s)
       | Some (n, v) \<Rightarrow>
           if n \<noteq> name then Delete T tags s = Some (Inl (Type_mismatch key), s)
           else if \<not> may_delete s key then Delete T tags s = Some (Inl (Not_deletable key), s)
           else (\<exists>s'. Delete T tags s = Some (Inr True, s') \<and> coherent s' \<and> stored s' = (stored s)(key := None)))) \<and>
     (M_storage s key = None \<longrightarrow> (\<exists>s'. Deletable T tags s = Some (Inr (), s') \<and> coherent s' \<and> stored s' = stored s \<and> declared s' key))"
proof -
  have key: "key = key_text name tags" using assms(2,3) by (simp add: MakeKey_def)
  have "\<exists>s'. GetOrCreate t T tags s = Some (created name key s, s') \<and> coherent s' \<and>
       stored s' = (if stored s key = None then (stored s)(key \<mapsto> (name, next_object s)) else stored s)"
    using GetOrCreate_ok [OF assms(1,3) key] by blast
  moreover have "stored (s\<lparr>M_storage := (M_storage s)(key := None)\<rparr>) = (stored s)(key := None)" by (simp add: stored_def fun_eq_iff)
  ultimately show ?thesis
    using GetOrNull_ok [OF assms(1,3) key] Has_ok [OF assms(1,3) key] storage_Delete_ok [OF assms(1,3) key] Deletable_ok [OF assms(1,3) key]
      coherent_delete [OF assms(1), of key]
    by (cases "stored s key") (auto split: prod.splits)
qed

theorem storage_contract_witness:
  "\<forall>w. \<exists>s'. GetOrCreate 3 ''int'' [''a'', ''b''] (SharedStorage w) = Some (Inr 0, s') \<and> coherent s' \<and> stored s' = [''int::a.b'' \<mapsto> (''int'', 0)]"
proof
  fix w
  have T: "ConstexprGetType ''int'' = Some ''int''" "MakeKey ''int'' [''a'', ''b''] = Some ''int::a.b''"
    by (simp_all add: MakeKey_def key_text_def ConstexprGetType_name ConstexprIsSpace_def)
  have "stored (SharedStorage w) = Map.empty" by (simp add: stored_def SharedStorage_def fun_eq_iff)
  then show "\<exists>s'. GetOrCreate 3 ''int'' [''a'', ''b''] (SharedStorage w) = Some (Inr 0, s') \<and> coherent s' \<and> stored s' = [''int::a.b'' \<mapsto> (''int'', 0)]"
    using storage_contract [OF SharedStorage_coherent [of w] T(2,1), of 3] by (simp add: created_def SharedStorage_def)
qed

text \<open>
  C24. Whatever the order of the calls of different threads, an object that a call returns was made
  with the type the call asks for, if every type in use has a printed name without a semicolon or a closing
  bracket: the unchecked cast from the stored pointer is right.
\<close>

theorem storage_type_safe:
  assumes "\<forall>c \<in> set cs. ordinary (call_type c)" and "history cs (SharedStorage w) = Some (trace, s)"
  shows "\<forall>(c, r) \<in> set trace. \<forall>v. r = Some v \<longrightarrow> object_type s v = Some (answer_type c)"
  using history_typed [OF SharedStorage_typed assms] by blast

lemma example_types:
  "ordinary ''int''" "ordinary ''long''" "ConstexprGetType ''int'' = Some ''int''" "ConstexprGetType ''long'' = Some ''long''"
  by (auto simp: ordinary_def ConstexprIsSpace_def intro!: ConstexprGetType_name)

theorem storage_type_safe_witness:
  "\<forall>w. \<exists>s. history [Call_Create 0 ''int'' [''a''], Call_Create 1 ''long'' [''a''], Call_Get 1 ''int'' [''a'']] (SharedStorage w) =
       Some ([(Call_Create 0 ''int'' [''a''], Some 0), (Call_Create 1 ''long'' [''a''], Some 1), (Call_Get 1 ''int'' [''a''], Some 0)], s) \<and>
     object_type s 0 = Some ''int'' \<and> object_type s 1 = Some ''long''"
proof
  fix w
  let ?cs = "[Call_Create 0 ''int'' [''a''], Call_Create 1 ''long'' [''a''], Call_Get 1 ''int'' [''a'']]"
  let ?tr = "[(Call_Create 0 ''int'' [''a''], Some 0), (Call_Create 1 ''long'' [''a''], Some 1), (Call_Get 1 ''int'' [''a''], Some 0)]"
  obtain s where s: "history ?cs (SharedStorage w) = Some (?tr, s)"
    by (simp add: GetOrCreate_def GetOrNull_def example_types MakeKey_def key_text_def SharedStorage_def Cache_Get_def Cache_Set_def
        entry_ref_def Entry_def make_object_def type_differs_def object_of_def)
  have "\<forall>c \<in> set ?cs. ordinary (call_type c)" by (simp add: example_types)
  from storage_type_safe [OF this s] s
  show "\<exists>s. history ?cs (SharedStorage w) = Some (?tr, s) \<and> object_type s 0 = Some ''int'' \<and> object_type s 1 = Some ''long''" by auto
qed

text \<open>
  \<open>Deletable\<close> may be called for an object that exists, and \<open>Delete\<close> then reports that it removed it. The
  caches of the threads that have used the object are not told: thread 0 still finds the first object under its key, while
  thread 1 makes a second one under the same key.
\<close>

theorem deleted_value_still_found:
  "\<exists>s1 s2 s3 s4 s5. GetOrCreate 0 ''int'' [''a''] (SharedStorage w) = Some (Inr 0, s1) \<and>
     Deletable ''int'' [''a''] s1 = Some (Inr (), s2) \<and> Delete ''int'' [''a''] s2 = Some (Inr True, s3) \<and>
     GetOrNull 0 ''int'' [''a''] s3 = Some (Inr (Some 0), s4) \<and> GetOrCreate 1 ''int'' [''a''] s4 = Some (Inr 1, s5) \<and>
     Has 0 ''int'' [''a''] s3 = Some True \<and> Has 1 ''int'' [''a''] s3 = Some False"
  by (simp add: GetOrCreate_def GetOrNull_def Deletable_def Delete_def Has_def example_types MakeKey_def key_text_def SharedStorage_def
      Cache_Get_def Cache_Set_def Cache_Has_def entry_ref_def Entry_def make_object_def type_differs_def)

end
