(* ===== verification/Locks.thy ===== *)
theory Locks
  imports Godby_Prelude
begin

text \<open>
  \<open>Spinlock.h\<close>, \<open>Barrier.h\<close> and \<open>Seqlock.h\<close>. Every access to an atomic variable is one step; the threads take their steps in any
  order (sequential consistency). The value under a \<open>Seqlock\<close> is copied part by part, so that readers and writers
  can overlap, and two writers can as well, since nothing in \<open>store\<close> keeps a second one out.
\<close>

section \<open>Spinlock\<close>

text \<open>\<open>compare_exchange_strong(expected, true)\<close> with \<open>expected = false\<close>, and \<open>store(false)\<close>.\<close>

definition lock_attempt :: "bool \<Rightarrow> bool \<times> bool" where
  "lock_attempt M_locked = (if M_locked = False then (True, True) else (False, M_locked))"

definition unlock :: "bool \<Rightarrow> bool" where
  "unlock M_locked = False"

datatype spin_pc = Outside | Locking | Inside

record spinlock =
  M_locked :: bool
  spin_pc :: "nat \<Rightarrow> spin_pc"

definition Spinlock :: spinlock where
  "Spinlock = \<lparr>M_locked = False, spin_pc = (\<lambda>_. Outside)\<rparr>"

inductive spin_step :: "spinlock \<Rightarrow> spinlock \<Rightarrow> bool" where
  spin_call: "spin_pc s t = Outside \<Longrightarrow> spin_step s (s\<lparr>spin_pc := (spin_pc s)(t := Locking)\<rparr>)"
| spin_try: "spin_pc s t = Locking \<Longrightarrow> lock_attempt (M_locked s) = (ok, l) \<Longrightarrow>
    spin_step s (s\<lparr>M_locked := l, spin_pc := (spin_pc s)(t := if ok then Inside else Locking)\<rparr>)"
| spin_unlock: "spin_pc s t = Inside \<Longrightarrow> spin_step s (s\<lparr>M_locked := unlock (M_locked s), spin_pc := (spin_pc s)(t := Outside)\<rparr>)"

definition spin_inv :: "spinlock \<Rightarrow> bool" where
  "spin_inv s \<longleftrightarrow> (if M_locked s then (\<exists>t. \<forall>u. spin_pc s u = Inside \<longleftrightarrow> u = t) else (\<forall>u. spin_pc s u \<noteq> Inside))"

lemma spin_inv_step: "spin_step s s' \<Longrightarrow> spin_inv s \<Longrightarrow> spin_inv s'"
proof (induction rule: spin_step.induct)
  case (spin_try s t ok l)
  then show ?case
  proof (cases "M_locked s")
    case False
    then show ?thesis using spin_try by (auto simp: spin_inv_def lock_attempt_def)
  next
    case True
    then have "(spin_pc s)(t := Locking) = spin_pc s" using spin_try by auto
    then show ?thesis using spin_try True by (auto simp: spin_inv_def lock_attempt_def)
  qed
next
  case (spin_unlock s t)
  then have "M_locked s" by (auto simp: spin_inv_def split: if_splits)
  then show ?case using spin_unlock by (auto simp: spin_inv_def unlock_def)
next
  case (spin_call s t)
  then have "((spin_pc s)(t := Locking)) u = Inside \<longleftrightarrow> spin_pc s u = Inside" for u by auto
  then show ?case using spin_call by (simp add: spin_inv_def)
qed

interpretation spin: transition_invariant "\<lambda>s. s = Spinlock" spin_step spin_inv
  using spin_inv_step by unfold_locales (auto simp: Spinlock_def spin_inv_def)

section \<open>Barrier\<close>

text \<open>\<open>wait\<close> adds one and spins until it reads zero; \<open>release\<close> spins until it reads the expected number and stores zero.\<close>

definition wait_arrive :: "u32 \<Rightarrow> u32" where
  "wait_arrive counter = counter + 1"

definition wait_passes :: "u32 \<Rightarrow> bool" where
  "wait_passes counter \<longleftrightarrow> counter = 0"

definition release_attempt :: "u32 \<Rightarrow> u32 \<Rightarrow> bool \<times> u32" where
  "release_attempt expected_counter counter = (if expected_counter = counter then (True, 0) else (False, counter))"

datatype barrier_pc = Working | Spinning | Passed

record barrier =
  counter :: u32
  wait_pc :: "nat \<Rightarrow> barrier_pc"
  released :: bool

definition Barrier :: barrier where
  "Barrier = \<lparr>counter = 0, wait_pc = (\<lambda>_. Working), released = False\<rparr>"

text \<open>Threads below \<open>n\<close> wait once; one more thread releases them.\<close>

inductive barrier_step :: "nat \<Rightarrow> barrier \<Rightarrow> barrier \<Rightarrow> bool" for n where
  barrier_arrive: "t < n \<Longrightarrow> wait_pc s t = Working \<Longrightarrow>
    barrier_step n s (s\<lparr>counter := wait_arrive (counter s), wait_pc := (wait_pc s)(t := Spinning)\<rparr>)"
| barrier_spin: "wait_pc s t = Spinning \<Longrightarrow>
    barrier_step n s (s\<lparr>wait_pc := (wait_pc s)(t := if wait_passes (counter s) then Passed else Spinning)\<rparr>)"
| barrier_release: "\<not> released s \<Longrightarrow> release_attempt (of_nat n) (counter s) = (ok, c) \<Longrightarrow>
    barrier_step n s (s\<lparr>counter := c, released := ok\<rparr>)"

definition arrived :: "nat \<Rightarrow> barrier \<Rightarrow> nat set" where
  "arrived n s = {t. t < n \<and> wait_pc s t \<noteq> Working}"

definition barrier_inv :: "nat \<Rightarrow> barrier \<Rightarrow> bool" where
  "barrier_inv n s \<longleftrightarrow> (\<forall>t. wait_pc s t \<noteq> Working \<longrightarrow> t < n) \<and>
     (if released s then counter s = 0 \<and> arrived n s = {..<n}
      else unat (counter s) = card (arrived n s) \<and> (\<forall>t. wait_pc s t \<noteq> Passed))"

lemma finite_arrived [simp]: "finite (arrived n s)"
  by (simp add: arrived_def)

lemma card_arrived: "card (arrived n s) \<le> n"
  using card_mono [of "{..<n}" "arrived n s"] by (auto simp: arrived_def)

lemma barrier_inv_step: "barrier_step n s s' \<Longrightarrow> n < 2 ^ 32 \<Longrightarrow> barrier_inv n s \<Longrightarrow> barrier_inv n s'"
proof (induction rule: barrier_step.induct)
  case (barrier_arrive t s)
  have a: "arrived n (s\<lparr>counter := wait_arrive (counter s), wait_pc := (wait_pc s)(t := Spinning)\<rparr>) = insert t (arrived n s)"
    using barrier_arrive by (auto simp: arrived_def)
  have t: "t \<notin> arrived n s" using barrier_arrive by (simp add: arrived_def)
  then have "\<not> released s" using barrier_arrive by (auto simp: barrier_inv_def)
  moreover have "card (arrived n s) < n"
    using psubset_card_mono [of "{..<n}" "arrived n s"] t barrier_arrive(1) by (auto simp: arrived_def)
  ultimately have "unat (counter s + 1) = Suc (card (arrived n s))"
    using barrier_arrive unat_add_small [of "counter s" 1] by (auto simp: barrier_inv_def)
  then show ?case using \<open>\<not> released s\<close> barrier_arrive t by (auto simp: barrier_inv_def a [unfolded wait_arrive_def] wait_arrive_def)
next
  case (barrier_spin s t)
  have a: "arrived n (s\<lparr>wait_pc := (wait_pc s)(t := pc)\<rparr>) = arrived n s" if "pc \<noteq> Working" for pc
    using barrier_spin that by (auto simp: arrived_def barrier_inv_def)
  have "counter s \<noteq> 0" if "\<not> released s"
  proof -
    have "t \<in> arrived n s" using barrier_spin by (auto simp: arrived_def barrier_inv_def)
    then show ?thesis using that barrier_spin by (auto simp: barrier_inv_def)
  qed
  then show ?case using barrier_spin a by (auto simp: barrier_inv_def wait_passes_def)
next
  case (barrier_release s ok c)
  have a: "arrived n (s\<lparr>counter := c, released := ok\<rparr>) = arrived n s" by (simp add: arrived_def)
  show ?case
  proof (cases "of_nat n = counter s")
    case True
    then have "n = card (arrived n s)"
      using barrier_release by (auto simp: barrier_inv_def unsigned_of_nat take_bit_nat_eq_self dest!: arg_cong [where f = unat])
    then have "arrived n s = {..<n}" by (intro card_subset_eq) (auto simp: arrived_def)
    then show ?thesis using True barrier_release a by (auto simp: barrier_inv_def release_attempt_def)
  next
    case False
    then have "ok = False" "c = counter s" using barrier_release by (auto simp: release_attempt_def)
    then show ?thesis using barrier_release a by (auto simp: barrier_inv_def)
  qed
qed

section \<open>Seqlock\<close>

text \<open>The conditions and new values of the accesses to the sequence number.\<close>

definition store_begin :: "u64 \<Rightarrow> u64" where
  "store_begin seq0 = seq0 + 1"

definition store_end :: "u64 \<Rightarrow> u64" where
  "store_end seq0 = seq0 + 2"

definition load_again :: "u64 \<Rightarrow> u64 \<Rightarrow> bool" where
  "load_again seq0 seq1 \<longleftrightarrow> seq0 \<noteq> seq1 \<or> seq0 AND 1 \<noteq> 0"

datatype 'a writer_pc = Store_idle | Store_read u64 "'a list" | Store_write u64 "'a list" nat

text \<open>
  A reader remembers the sequence number, the parts copied so far and, for the specification, how many stores had ended when
  the load began. The state records the values whose store has ended and whether a store was called during another one.
\<close>

datatype 'a reader_pc = Load_idle | Load_start nat | Load_copy nat u64 "'a list" | Load_done nat "'a list"

record 'a seqlock =
  M_value :: "'a list"
  M_seq :: u64
  writer :: "nat \<Rightarrow> 'a writer_pc"
  reader :: "nat \<Rightarrow> 'a reader_pc"
  ended :: "'a list list"
  overlapped :: bool

definition Seqlock :: "'a list \<Rightarrow> 'a seqlock" where
  "Seqlock v = \<lparr>M_value = v, M_seq = 0, writer = (\<lambda>_. Store_idle), reader = (\<lambda>_. Load_idle), ended = [v], overlapped = False\<rparr>"

inductive seq_step :: "nat \<Rightarrow> 'a seqlock \<Rightarrow> 'a seqlock \<Rightarrow> bool" for n where
  store_read: "writer s w = Store_idle \<Longrightarrow> length desired = n \<Longrightarrow>
    seq_step n s (s\<lparr>writer := (writer s)(w := Store_read (M_seq s) desired),
      overlapped := (overlapped s \<or> (\<exists>u. writer s u \<noteq> Store_idle))\<rparr>)"
| store_odd: "writer s w = Store_read seq0 desired \<Longrightarrow>
    seq_step n s (s\<lparr>M_seq := store_begin seq0, writer := (writer s)(w := Store_write seq0 desired 0)\<rparr>)"
| store_part: "writer s w = Store_write seq0 desired i \<Longrightarrow> i < n \<Longrightarrow>
    seq_step n s (s\<lparr>M_value := (M_value s)[i := desired ! i], writer := (writer s)(w := Store_write seq0 desired (Suc i))\<rparr>)"
| store_even: "writer s w = Store_write seq0 desired n \<Longrightarrow>
    seq_step n s (s\<lparr>M_seq := store_end seq0, writer := (writer s)(w := Store_idle), ended := ended s @ [desired]\<rparr>)"
| load_call: "reader s r = Load_idle \<Longrightarrow> seq_step n s (s\<lparr>reader := (reader s)(r := Load_start (length (ended s)))\<rparr>)"
| load_seq0: "reader s r = Load_start k \<Longrightarrow> seq_step n s (s\<lparr>reader := (reader s)(r := Load_copy k (M_seq s) [])\<rparr>)"
| load_part: "reader s r = Load_copy k seq0 copied \<Longrightarrow> length copied < n \<Longrightarrow>
    seq_step n s (s\<lparr>reader := (reader s)(r := Load_copy k seq0 (copied @ [M_value s ! length copied]))\<rparr>)"
| load_seq1: "reader s r = Load_copy k seq0 copied \<Longrightarrow> length copied = n \<Longrightarrow>
    seq_step n s (s\<lparr>reader := (reader s)(r := if load_again seq0 (M_seq s) then Load_start k else Load_done k copied)\<rparr>)"

text \<open>
  Where the only thread that may be inside \<open>store\<close> is: what the sequence number and the value are then.
\<close>

definition writer_ok :: "nat \<Rightarrow> 'a seqlock \<Rightarrow> 'a writer_pc \<Rightarrow> bool" where
  "writer_ok n s p \<longleftrightarrow> ended s \<noteq> [] \<and> length (M_value s) = n \<and> (case p of
      Store_idle \<Rightarrow> unat (M_seq s) + 2 = 2 * length (ended s) \<and> M_value s = last (ended s)
    | Store_read seq0 d \<Rightarrow> seq0 = M_seq s \<and> length d = n \<and> unat (M_seq s) + 2 = 2 * length (ended s) \<and> M_value s = last (ended s)
    | Store_write seq0 d i \<Rightarrow> length d = n \<and> i \<le> n \<and> unat seq0 + 2 = 2 * length (ended s) \<and> M_seq s = seq0 + 1 \<and>
        take i (M_value s) = take i d)"

definition reader_ok :: "'a seqlock \<Rightarrow> 'a reader_pc \<Rightarrow> bool" where
  "reader_ok s p = (case p of
      Load_idle \<Rightarrow> True
    | Load_start k \<Rightarrow> k \<le> length (ended s)
    | Load_copy k seq0 copied \<Rightarrow> k \<le> length (ended s) \<and> length copied \<le> length (M_value s) \<and> unat seq0 \<le> unat (M_seq s) \<and>
        (seq0 = M_seq s \<and> even (unat seq0) \<longrightarrow> copied = take (length copied) (M_value s))
    | Load_done k copied \<Rightarrow> (\<exists>j. k \<le> Suc j \<and> j < length (ended s) \<and> copied = ended s ! j))"

definition alone :: "'a seqlock \<Rightarrow> nat \<Rightarrow> bool" where
  "alone s w \<longleftrightarrow> (\<forall>u. u \<noteq> w \<longrightarrow> writer s u = Store_idle)"

definition calm :: "'a seqlock \<Rightarrow> bool" where
  "calm s \<longleftrightarrow> length (ended s) < 2 ^ 62 \<and> \<not> overlapped s"

definition seq_inv :: "nat \<Rightarrow> 'a seqlock \<Rightarrow> bool" where
  "seq_inv n s \<longleftrightarrow> (calm s \<longrightarrow> (\<exists>w. alone s w \<and> writer_ok n s (writer s w)) \<and> (\<forall>r. reader_ok s (reader s r)))"

lemma seq_invD:
  assumes "seq_inv n s" and "calm s" and "writer s w \<noteq> Store_idle"
  shows "alone s w" "writer_ok n s (writer s w)" "reader_ok s (reader s r)"
  using assms unfolding seq_inv_def alone_def by metis+

lemma seq_invI:
  assumes "calm s \<Longrightarrow> alone s w" "calm s \<Longrightarrow> writer_ok n s (writer s w)" "\<And>r. calm s \<Longrightarrow> reader_ok s (reader s r)"
  shows "seq_inv n s"
  using assms unfolding seq_inv_def by blast

lemma seq_even: "writer_ok n s p \<Longrightarrow> length (ended s) < 2 ^ 62 \<Longrightarrow> even (unat (M_seq s)) \<Longrightarrow> M_value s = last (ended s)"
proof (cases p)
  case (Store_write seq0 d i)
  assume "writer_ok n s p" "length (ended s) < 2 ^ 62" "even (unat (M_seq s))"
  then have "unat seq0 + 2 = 2 * length (ended s)" "M_seq s = seq0 + 1" "unat seq0 + 1 < 2 ^ 64" using Store_write by (auto simp: writer_ok_def)
  then have "unat (M_seq s) = unat seq0 + 1" "even (unat seq0 + 2)" using unat_add_small [of seq0 1] by simp_all
  then show ?thesis using \<open>even (unat (M_seq s))\<close> by simp
qed (auto simp: writer_ok_def)

lemma reader_ok_same:
  assumes "reader_ok s p" and "M_seq s' = M_seq s" and "M_value s' = M_value s" and "ended s' = ended s"
  shows "reader_ok s' p"
  using assms(1) unfolding reader_ok_def assms(2-4) .

text \<open>A writer that moves on leaves every reader with a sequence number that is odd or behind.\<close>

lemma reader_ok_store:
  assumes "reader_ok s p" and "unat (M_seq s) \<le> unat (M_seq s')" and "length (M_value s') = length (M_value s)"
    and "ended s' = ended s @ xs"
    and "unat (M_seq s) < unat (M_seq s') \<or> odd (unat (M_seq s))"
  shows "reader_ok s' p"
proof (cases p)
  case (Load_copy k seq0 copied)
  then have "\<not> (seq0 = M_seq s' \<and> even (unat seq0))"
    using assms(1,2,5) by (auto simp: reader_ok_def word_unat_eq_iff)
  then show ?thesis using assms Load_copy by (auto simp: reader_ok_def)
next
  case (Load_done k copied)
  then obtain j where "k \<le> Suc j" "j < length (ended s)" "copied = ended s ! j" using assms(1) by (auto simp: reader_ok_def)
  then have "k \<le> Suc j \<and> j < length (ended s') \<and> copied = ended s' ! j" using assms(4) by (simp add: nth_append)
  then show ?thesis using Load_done by (auto simp: reader_ok_def)
qed (use assms in \<open>auto simp: reader_ok_def\<close>)

lemma seq_inv_reader:
  assumes "seq_inv n s"
    and "\<And>w. length (ended s) < 2 ^ 62 \<Longrightarrow> writer_ok n s (writer s w) \<Longrightarrow> reader_ok s (reader s r) \<Longrightarrow> reader_ok s p"
  shows "seq_inv n (s\<lparr>reader := (reader s)(r := p)\<rparr>)"
proof -
  have "writer_ok n (s\<lparr>reader := (reader s)(r := p)\<rparr>) q = writer_ok n s q" for q by (cases q) (simp_all add: writer_ok_def)
  moreover have "reader_ok (s\<lparr>reader := (reader s)(r := p)\<rparr>) q = reader_ok s q" for q by (cases q) (simp_all add: reader_ok_def)
  ultimately show ?thesis using assms by (auto simp: seq_inv_def calm_def alone_def)
qed

lemma store_seqs:
  assumes "unat seq0 + 2 = 2 * k" and "k < 2 ^ 62"
  shows "unat (store_begin seq0) = unat seq0 + 1" and "unat (store_end seq0) = unat seq0 + 2"
  using assms unat_add_small [of seq0 1] unat_add_small [of seq0 2] by (simp_all add: store_begin_def store_end_def)

lemma seq_inv_step: "seq_step n s s' \<Longrightarrow> seq_inv n s \<Longrightarrow> seq_inv n s'"
proof (induction rule: seq_step.induct)
  case (store_read s w d)
  let ?s = "s\<lparr>writer := (writer s)(w := Store_read (M_seq s) d), overlapped := (overlapped s \<or> (\<exists>u. writer s u \<noteq> Store_idle))\<rparr>"
  have "alone ?s w \<and> writer_ok n ?s (writer ?s w) \<and> (\<forall>r. reader_ok ?s (reader ?s r))" if c: "calm ?s"
  proof -
    have "calm s" and i: "\<forall>u. writer s u = Store_idle" using c by (auto simp: calm_def)
    then have "writer_ok n s Store_idle" and "\<forall>r. reader_ok s (reader s r)" using store_read(3) by (auto simp: seq_inv_def)
    then show ?thesis using i store_read(2) by (auto simp: alone_def writer_ok_def intro: reader_ok_same)
  qed
  then show ?case unfolding seq_inv_def by blast
next
  case (store_odd s w seq0 d)
  show ?case
  proof (rule seq_invI [where w = w])
    let ?s = "s\<lparr>M_seq := store_begin seq0, writer := (writer s)(w := Store_write seq0 d 0)\<rparr>"
    assume "calm ?s"
    then have c: "calm s" and l: "length (ended s) < 2 ^ 62" by (auto simp: calm_def)
    note i = seq_invD [OF store_odd(2) c, of w, unfolded store_odd(1), OF writer_pc.distinct(2)]
    have q: "seq0 = M_seq s" "unat seq0 + 2 = 2 * length (ended s)" "length d = n" using i(2) by (auto simp: writer_ok_def)
    note e = store_seqs [OF q(2) l]
    show "alone ?s w" using i(1) by (simp add: alone_def)
    show "writer_ok n ?s (writer ?s w)" using i(2) q by (auto simp: writer_ok_def store_begin_def)
    show "reader_ok ?s (reader ?s r)" for r
      using reader_ok_store [OF i(3) [of r], of ?s "[]"] e q by auto
  qed
next
  case (store_part s w seq0 d i)
  show ?case
  proof (rule seq_invI [where w = w])
    let ?s = "s\<lparr>M_value := (M_value s)[i := d ! i], writer := (writer s)(w := Store_write seq0 d (Suc i))\<rparr>"
    assume "calm ?s"
    then have c: "calm s" and l: "length (ended s) < 2 ^ 62" by (auto simp: calm_def)
    note v = seq_invD [OF store_part(3) c, of w, unfolded store_part(1), OF writer_pc.distinct(4)]
    have q: "M_seq s = seq0 + 1" "unat seq0 + 2 = 2 * length (ended s)" "length d = n" "length (M_value s) = n"
      "take i (M_value s) = take i d" using v(2) by (simp_all add: writer_ok_def)
    have "unat (M_seq s) = unat seq0 + 1" using store_seqs(1) [OF q(2) l] q(1) by (simp add: store_begin_def)
    moreover have "even (unat seq0 + 2)" unfolding q(2) by simp
    ultimately have "odd (unat (M_seq s))" by simp
    then show "reader_ok ?s (reader ?s r)" for r using reader_ok_store [OF v(3) [of r], of ?s "[]"] by auto
    have "take (Suc i) ((M_value s)[i := d ! i]) = take (Suc i) d"
      using q store_part by (simp add: take_Suc_conv_app_nth)
    then show "writer_ok n ?s (writer ?s w)" using v(2) store_part(2) q by (simp add: writer_ok_def)
    show "alone ?s w" using v(1) by (simp add: alone_def)
  qed
next
  case (store_even s w seq0 d)
  show ?case
  proof (rule seq_invI [where w = w])
    let ?s = "s\<lparr>M_seq := store_end seq0, writer := (writer s)(w := Store_idle), ended := ended s @ [d]\<rparr>"
    assume "calm ?s"
    then have c: "calm s" and l: "length (ended s) < 2 ^ 62" by (auto simp: calm_def)
    note v = seq_invD [OF store_even(2) c, of w, unfolded store_even(1), OF writer_pc.distinct(4)]
    have q: "M_seq s = seq0 + 1" "unat seq0 + 2 = 2 * length (ended s)" "length d = n" "length (M_value s) = n"
      "take n (M_value s) = take n d" using v(2) by (simp_all add: writer_ok_def)
    note e = store_seqs [OF q(2) l]
    show "reader_ok ?s (reader ?s r)" for r
      using reader_ok_store [OF v(3) [of r], of ?s "[d]"] e q by (auto simp: store_begin_def)
    have "M_value s = d" using q(3-5) by simp
    then show "writer_ok n ?s (writer ?s w)" using v(2) e q by (auto simp: writer_ok_def)
    show "alone ?s w" using v(1) by (simp add: alone_def)
  qed
next
  case (load_call s r)
  show ?case by (rule seq_inv_reader [OF load_call(2)]) (simp add: reader_ok_def)
next
  case (load_seq0 s r k)
  show ?case by (rule seq_inv_reader [OF load_seq0(2)]) (use load_seq0(1) in \<open>simp add: reader_ok_def\<close>)
next
  case (load_part s r k seq0 c)
  show ?case
  proof (rule seq_inv_reader [OF load_part(3)])
    fix w assume w: "writer_ok n s (writer s w)" and r: "reader_ok s (reader s r)"
    have "length (M_value s) = n" using w by (simp add: writer_ok_def)
    then show "reader_ok s (Load_copy k seq0 (c @ [M_value s ! length c]))"
      using r load_part(1,2) by (auto simp: reader_ok_def take_Suc_conv_app_nth)
  qed
next
  case (load_seq1 s r k seq0 c)
  show ?case
  proof (rule seq_inv_reader [OF load_seq1(3)])
    fix w assume l: "length (ended s) < 2 ^ 62" and w: "writer_ok n s (writer s w)" and r: "reader_ok s (reader s r)"
    have n: "length (M_value s) = n" "ended s \<noteq> []" using w by (simp_all add: writer_ok_def)
    have "c = last (ended s)" if "\<not> load_again seq0 (M_seq s)"
    proof -
      have e: "seq0 = M_seq s" "even (unat seq0)" using that by (auto simp: load_again_def and_1_eq_0_iff)
      then have "c = M_value s" using r load_seq1(1,2) n by (simp add: reader_ok_def)
      then show ?thesis using seq_even [OF w l] e by simp
    qed
    then have "\<exists>j. k \<le> Suc j \<and> j < length (ended s) \<and> c = ended s ! j" if "\<not> load_again seq0 (M_seq s)"
      using that r load_seq1(1) n(2) by (intro exI [of _ "length (ended s) - 1"]) (simp add: reader_ok_def last_conv_nth)
    then show "reader_ok s (if load_again seq0 (M_seq s) then Load_start k else Load_done k c)"
      using r load_seq1(1) by (auto simp: reader_ok_def)
  qed
qed

interpretation sl: transition_invariant "\<lambda>s. \<exists>v. length v = n \<and> s = Seqlock v" "seq_step n" "seq_inv n" for n
proof unfold_locales
  show "seq_inv n s" if "\<exists>v. length v = n \<and> s = Seqlock v" for s :: "'a seqlock"
    using that by (auto simp: seq_inv_def alone_def writer_ok_def reader_ok_def Seqlock_def)
  show "seq_inv n t" if "seq_inv n s" and "seq_step n s t" for s t :: "'a seqlock" using that seq_inv_step by blast
qed

interpretation bar: transition_invariant "\<lambda>s. s = Barrier" "\<lambda>s s'. barrier_step n s s' \<and> n < 2 ^ 32" "barrier_inv n" for n
proof unfold_locales
  show "barrier_inv n s" if "s = Barrier" for s using that by (simp add: barrier_inv_def arrived_def Barrier_def)
  show "barrier_inv n t" if "barrier_inv n s" and "barrier_step n s t \<and> n < 2 ^ 32" for s t using that barrier_inv_step by blast
qed

section \<open>Properties\<close>

text \<open>
  C17. As long as no two stores overlap, each writer finishing before the next begins (\<open>\<not> overlapped\<close>), a \<open>load\<close> of a
  \<open>Seqlock\<close> that runs during any number of stores returns one of the values that were stored as a whole, never a mixture
  of two, and not an older one than that of the last store that had ended when the load began. Fewer than \<open>2 ^ 62\<close> stores
  are made, so that the sequence number does not come back.
\<close>

theorem seqlock_not_torn:
  assumes "reachable (\<lambda>s. \<exists>v. length v = n \<and> s = Seqlock v) (seq_step n) s" and "\<not> overlapped s"
    and "length (ended s) < 2 ^ 62" and "reader s r = Load_done k v"
  shows "\<exists>j. k \<le> Suc j \<and> j < length (ended s) \<and> v = ended s ! j"
proof -
  have "reader_ok s (reader s r)" using sl.reachable_inv [OF assms(1)] assms(2,3) unfolding seq_inv_def calm_def by blast
  then show ?thesis using assms(4) by (simp add: reader_ok_def)
qed

text \<open>The steps as a function, for runs on concrete values: what the writer or the reader does next.\<close>

datatype 'a seq_action = Call_store nat "'a list" | Writer nat | Call_load nat | Reader nat

fun seq_move :: "nat \<Rightarrow> 'a seq_action \<Rightarrow> 'a seqlock \<Rightarrow> 'a seqlock" where
  "seq_move n (Call_store w d) s = (if writer s w = Store_idle \<and> length d = n
     then s\<lparr>writer := (writer s)(w := Store_read (M_seq s) d), overlapped := (overlapped s \<or> (\<exists>u. writer s u \<noteq> Store_idle))\<rparr> else s)"
| "seq_move n (Writer w) s = (case writer s w of Store_idle \<Rightarrow> s
     | Store_read q d \<Rightarrow> s\<lparr>M_seq := store_begin q, writer := (writer s)(w := Store_write q d 0)\<rparr>
     | Store_write q d i \<Rightarrow> if i < n then s\<lparr>M_value := (M_value s)[i := d ! i], writer := (writer s)(w := Store_write q d (Suc i))\<rparr>
         else if i = n then s\<lparr>M_seq := store_end q, writer := (writer s)(w := Store_idle), ended := ended s @ [d]\<rparr> else s)"
| "seq_move n (Call_load r) s = (if reader s r = Load_idle then s\<lparr>reader := (reader s)(r := Load_start (length (ended s)))\<rparr> else s)"
| "seq_move n (Reader r) s = (case reader s r of Load_idle \<Rightarrow> s
     | Load_start k \<Rightarrow> s\<lparr>reader := (reader s)(r := Load_copy k (M_seq s) [])\<rparr>
     | Load_copy k q c \<Rightarrow> if length c < n then s\<lparr>reader := (reader s)(r := Load_copy k q (c @ [M_value s ! length c]))\<rparr>
         else if length c = n then s\<lparr>reader := (reader s)(r := if load_again q (M_seq s) then Load_start k else Load_done k c)\<rparr> else s
     | Load_done k c \<Rightarrow> s)"

lemma seq_move_step: "seq_move n m s = s \<or> seq_step n s (seq_move n m s)"
proof (cases m)
  case (Call_store w d)
  then show ?thesis using store_read [of s w d n] by simp
next
  case (Writer w)
  then show ?thesis using store_odd [of s w _ _ n] store_part [of s w _ _ _ n] store_even [of s w _ _ n]
    by (cases "writer s w") auto
next
  case (Call_load r)
  then show ?thesis using load_call [of s r n] by simp
next
  case (Reader r)
  then show ?thesis using load_seq0 [of s r _ n] load_part [of s r _ _ _ n] load_seq1 [of s r _ _ _ n]
    by (cases "reader s r") auto
qed

lemma seq_moves_reachable:
  "reachable I (seq_step n) s \<Longrightarrow> reachable I (seq_step n) (fold (seq_move n) ms s)"
proof (induction ms arbitrary: s)
  case (Cons m ms)
  then show ?case using seq_move_step [of n m s] reachable_step [of I "seq_step n" s "seq_move n m s"] by auto
qed simp

text \<open>
  A load that begins before a store of \<open>[9, 6]\<close>, reads the first part during it, is turned back and returns the new value.
\<close>

definition example_run :: "nat seq_action list" where
  "example_run = [Call_load 0, Reader 0, Reader 0, Call_store 4 [9, 6], Writer 4, Writer 4, Reader 0, Reader 0, Reader 0,
     Writer 4, Writer 4, Reader 0, Reader 0, Reader 0, Reader 0, Reader 0, Reader 0, Reader 0]"

lemma example_seqlock:
  "fold (seq_move 2) example_run (Seqlock [7, 8]) =
     \<lparr>M_value = [9, 6], M_seq = 2, writer = (\<lambda>_. Store_idle), reader = (\<lambda>_. Load_idle)(0 := Load_done 1 [9, 6]),
      ended = [[7, 8], [9, 6]], overlapped = False\<rparr>"
  by (simp add: example_run_def Seqlock_def load_again_def store_begin_def store_end_def fun_upd_idem)

theorem seqlock_not_torn_witness:
  "\<exists>s. reachable (\<lambda>s. \<exists>v. length v = 2 \<and> s = Seqlock v) (seq_step 2) s \<and> reader s 0 = Load_done 1 [9 :: nat, 6] \<and>
     ended s = [[7, 8], [9, 6]] \<and> (\<exists>j < length (ended s). [9, 6] = ended s ! j)"
proof (rule exI, intro conjI)
  let ?s = "fold (seq_move 2) example_run (Seqlock [7, 8])"
  show r: "reachable (\<lambda>s. \<exists>v. length v = 2 \<and> s = Seqlock v) (seq_step 2) ?s"
    by (rule seq_moves_reachable, rule reachable_init, rule exI [of _ "[7, 8]"]) simp
  show d: "reader ?s 0 = Load_done 1 [9, 6]" and "ended ?s = [[7, 8], [9, 6]]" by (simp_all add: example_seqlock)
  have "\<not> overlapped ?s" "length (ended ?s) < 2 ^ 62" by (simp_all add: example_seqlock)
  from seqlock_not_torn [OF r this d] show "\<exists>j < length (ended ?s). [9, 6] = ended ?s ! j" by blast
qed

text \<open>The copying loops of a store and of a load, run to their end.\<close>

lemma writer_copies:
  assumes "writer s w = Store_write q d i" and "i \<le> n" and "length d = n" and "length (M_value s) = n"
  shows "fold (seq_move n) (replicate (n - i) (Writer w)) s =
    s\<lparr>M_value := take i (M_value s) @ drop i d, writer := (writer s)(w := Store_write q d n)\<rparr>"
  using assms
proof (induction "n - i" arbitrary: i s)
  case 0
  then show ?case by (simp add: fun_upd_idem)
next
  case (Suc m)
  have e: "n - i = Suc (n - Suc i)" and m: "m = n - Suc i" and i: "i < n" using Suc.hyps(2) by auto
  let ?t = "s\<lparr>M_value := (M_value s)[i := d ! i], writer := (writer s)(w := Store_write q d (Suc i))\<rparr>"
  have "take (Suc i) ((M_value s)[i := d ! i]) @ drop (Suc i) d = take i (M_value s) @ drop i d"
    using i Suc.prems by (simp add: take_Suc_conv_app_nth Cons_nth_drop_Suc)
  moreover have "seq_move n (Writer w) s = ?t" using Suc.prems i by simp
  ultimately show ?case unfolding e using Suc.hyps(1) [OF m, of ?t] Suc.prems i by simp
qed

lemma reader_copies:
  assumes "reader s r = Load_copy k q (take i (M_value s))" and "i \<le> n" and "length (M_value s) = n"
  shows "fold (seq_move n) (replicate (n - i) (Reader r)) s = s\<lparr>reader := (reader s)(r := Load_copy k q (M_value s))\<rparr>"
  using assms
proof (induction "n - i" arbitrary: i s)
  case 0
  then show ?case by (simp add: fun_upd_idem)
next
  case (Suc m)
  have e: "n - i = Suc (n - Suc i)" and m: "m = n - Suc i" and i: "i < n" using Suc.hyps(2) by auto
  let ?t = "s\<lparr>reader := (reader s)(r := Load_copy k q (take (Suc i) (M_value s)))\<rparr>"
  have "seq_move n (Reader r) s = ?t" using Suc.prems i by (simp add: take_Suc_conv_app_nth)
  then show ?case unfolding e using Suc.hyps(1) [OF m, of ?t] Suc.prems i by simp
qed

text \<open>
  Two stores called together: both take the same sequence number, the second writes all of its value after the first has
  written the first part, and then a load.
\<close>

definition tearing_run :: "nat \<Rightarrow> 'a list \<Rightarrow> 'a list \<Rightarrow> 'a seq_action list" where
  "tearing_run n a b =
     [Call_store 0 a, Call_store 1 b, Writer 0, Writer 1, Writer 0] @ replicate n (Writer 1) @
     replicate (n - 1) (Writer 0) @ [Writer 0, Writer 1, Call_load 0, Reader 0] @ replicate n (Reader 0) @ [Reader 0]"

abbreviation two_writers :: "'a list \<Rightarrow> u64 \<Rightarrow> 'a writer_pc \<Rightarrow> 'a writer_pc \<Rightarrow> 'a reader_pc \<Rightarrow> 'a list list \<Rightarrow> 'a seqlock" where
  "two_writers m q w u r e \<equiv> \<lparr>M_value = m, M_seq = q, writer = (\<lambda>_. Store_idle)(0 := w, 1 := u),
     reader = (\<lambda>_. Load_idle)(0 := r), ended = e, overlapped = True\<rparr>"

lemma tearing_prefix:
  assumes "0 < n" and "length a = n" and "length b = n"
  shows "fold (seq_move n) [Call_store 0 a, Call_store 1 b, Writer 0, Writer 1, Writer 0] (Seqlock v) =
    two_writers (v[0 := a ! 0]) 1 (Store_write 0 a 1) (Store_write 0 b 0) Load_idle [v]"
proof -
  have "\<exists>u. ((\<lambda>_. Store_idle)(0 := Store_read 0 a)) u \<noteq> Store_idle" by (rule exI [of _ 0]) simp
  then show ?thesis using assms by (simp add: Seqlock_def store_begin_def fun_upd_twist fun_upd_idem)
qed

lemma tearing_end:
  assumes "length m = n"
  shows "fold (seq_move n) ([Writer 0, Writer 1, Call_load 0, Reader 0] @ replicate n (Reader 0) @ [Reader 0])
      (two_writers m 1 (Store_write 0 a n) (Store_write 0 b n) Load_idle [v]) =
    two_writers m 2 Store_idle Store_idle (Load_done 3 m) [v, a, b]"
proof -
  have "fold (seq_move n) [Writer 0, Writer 1, Call_load 0, Reader 0]
      (two_writers m 1 (Store_write 0 a n) (Store_write 0 b n) Load_idle [v]) =
    two_writers m 2 Store_idle Store_idle (Load_copy 3 2 []) [v, a, b]"
    by (simp add: store_end_def fun_upd_twist numeral_3_eq_3)
  moreover have "fold (seq_move n) (replicate n (Reader 0)) (two_writers m 2 Store_idle Store_idle (Load_copy 3 2 []) [v, a, b]) =
    two_writers m 2 Store_idle Store_idle (Load_copy 3 2 m) [v, a, b]"
    using reader_copies [of "two_writers m 2 Store_idle Store_idle (Load_copy 3 2 []) [v, a, b]" 0 3 2 0 n] assms by simp
  moreover have "fold (seq_move n) [Reader 0] (two_writers m 2 Store_idle Store_idle (Load_copy 3 2 m) [v, a, b]) =
    two_writers m 2 Store_idle Store_idle (Load_done 3 m) [v, a, b]"
    using assms by (simp add: load_again_def)
  ultimately show ?thesis by (simp only: fold_append comp_apply)
qed

lemma tearing_run_result:
  assumes "0 < n" and "length v = n" and "length a = n" and "length b = n"
  shows "fold (seq_move n) (tearing_run n a b) (Seqlock v) =
    two_writers (take 1 b @ drop 1 a) 2 Store_idle Store_idle (Load_done 3 (take 1 b @ drop 1 a)) [v, a, b]"
proof -
  have "fold (seq_move n) (replicate n (Writer 1)) (two_writers (v[0 := a ! 0]) 1 (Store_write 0 a 1) (Store_write 0 b 0) Load_idle [v]) =
    two_writers b 1 (Store_write 0 a 1) (Store_write 0 b n) Load_idle [v]"
    using writer_copies [of "two_writers (v[0 := a ! 0]) 1 (Store_write 0 a 1) (Store_write 0 b 0) Load_idle [v]" 1 0 b 0 n] assms
    by simp
  moreover have "fold (seq_move n) (replicate (n - 1) (Writer 0)) (two_writers b 1 (Store_write 0 a 1) (Store_write 0 b n) Load_idle [v]) =
    two_writers (take 1 b @ drop 1 a) 1 (Store_write 0 a n) (Store_write 0 b n) Load_idle [v]"
    using writer_copies [of "two_writers b 1 (Store_write 0 a 1) (Store_write 0 b n) Load_idle [v]" 0 0 a 1 n] assms
    by (simp add: fun_upd_twist)
  moreover have "length (take 1 b @ drop 1 a) = n" using assms by auto
  ultimately show ?thesis
    unfolding tearing_run_def fold_append comp_apply tearing_prefix [OF assms(1,3,4)]
    using tearing_end [of "take 1 b @ drop 1 a" n a b v] by (simp only: fold_append comp_apply)
qed

text \<open>
  That the stores do not overlap is the caller's duty: \<open>store\<close> excludes nobody. For every two values of the same length
  \<open>n > 0\<close> there is a run of two overlapping stores that leaves a mixture of them under an even sequence number, with no
  store under way: the first part of the second and the rest of the first. A load returns it.
\<close>

theorem overlapping_stores_tear:
  assumes "0 < n" and "length v = n" and "length a = n" and "length b = n"
  shows "\<exists>s. reachable (\<lambda>s. \<exists>v. length v = n \<and> s = Seqlock v) (seq_step n) s \<and> (\<forall>w. writer s w = Store_idle) \<and>
    ended s = [v, a, b] \<and> M_seq s = 2 \<and> M_value s = take 1 b @ drop 1 a \<and> reader s 0 = Load_done 3 (take 1 b @ drop 1 a)"
proof -
  have "reachable (\<lambda>s. \<exists>v. length v = n \<and> s = Seqlock v) (seq_step n) (fold (seq_move n) (tearing_run n a b) (Seqlock v))"
    by (rule seq_moves_reachable, rule reachable_init) (use assms in auto)
  then show ?thesis unfolding tearing_run_result [OF assms] by (intro exI conjI) auto
qed

theorem overlapping_stores_tear_witness:
  "\<exists>s. reachable (\<lambda>s. \<exists>v. length v = 2 \<and> s = Seqlock v) (seq_step 2) s \<and> ended s = [[1 :: nat, 2], [3, 4], [5, 6]] \<and>
     (\<forall>w. writer s w = Store_idle) \<and> reader s 0 = Load_done 3 [5, 4]"
  using overlapping_stores_tear [of 2 "[1 :: nat, 2]" "[3, 4]" "[5, 6]"] by auto

text \<open>
  At most one thread is between the \<open>lock\<close> and the \<open>unlock\<close> of a \<open>Spinlock\<close>; while one is, every attempt
  to lock fails, and when none is, the next attempt succeeds.
\<close>

theorem spin_mutual_exclusion:
  assumes "reachable (\<lambda>s. s = Spinlock) spin_step s"
  shows "(\<forall>t u. spin_pc s t = Inside \<and> spin_pc s u = Inside \<longrightarrow> t = u) \<and>
    (fst (lock_attempt (M_locked s)) \<longleftrightarrow> (\<forall>t. spin_pc s t \<noteq> Inside))"
  using spin.reachable_inv [OF assms] by (auto simp: spin_inv_def lock_attempt_def split: if_splits)

lemma example_spin: "reachable (\<lambda>s. s = Spinlock) spin_step (Spinlock\<lparr>M_locked := True, spin_pc := (\<lambda>_. Outside)(3 := Inside)\<rparr>)"
proof -
  have r0: "reachable (\<lambda>s. s = Spinlock) spin_step Spinlock" by (rule reachable_init) simp
  have r1: "spin_step Spinlock (Spinlock\<lparr>spin_pc := (\<lambda>_. Outside)(3 := Locking)\<rparr>)"
    using spin_call [of Spinlock 3] by (simp add: Spinlock_def)
  have r2: "spin_step (Spinlock\<lparr>spin_pc := (\<lambda>_. Outside)(3 := Locking)\<rparr>) (Spinlock\<lparr>M_locked := True, spin_pc := (\<lambda>_. Outside)(3 := Inside)\<rparr>)"
    using spin_try [of "Spinlock\<lparr>spin_pc := (\<lambda>_. Outside)(3 := Locking)\<rparr>" 3 True True] by (simp add: Spinlock_def lock_attempt_def)
  show ?thesis by (rule reachable_step [OF reachable_step [OF r0 r1] r2])
qed

theorem spin_mutual_exclusion_witness:
  "\<exists>s. reachable (\<lambda>s. s = Spinlock) spin_step s \<and> spin_pc s 3 = Inside \<and> (\<forall>u. spin_pc s u = Inside \<longrightarrow> 3 = u) \<and> \<not> fst (lock_attempt (M_locked s))"
proof (rule exI, intro conjI)
  let ?s = "Spinlock\<lparr>M_locked := True, spin_pc := (\<lambda>_. Outside)(3 := Inside)\<rparr>"
  show "reachable (\<lambda>s. s = Spinlock) spin_step ?s" by (rule example_spin)
  show "spin_pc ?s 3 = Inside" by simp
  then show "\<forall>u. spin_pc ?s u = Inside \<longrightarrow> 3 = u" "\<not> fst (lock_attempt (M_locked ?s))" using spin_mutual_exclusion [OF example_spin] by blast+
qed

text \<open>
  A thread that has passed a \<open>Barrier\<close> of \<open>n\<close> threads has passed it after all of them arrived and
  the releasing thread saw them. The barrier serves once: if a thread that was released has not looked at the counter before
  another thread arrives for the next round, it goes on spinning.
\<close>

theorem barrier_waits_for_all:
  assumes "reachable (\<lambda>s. s = Barrier) (\<lambda>s s'. barrier_step n s s' \<and> n < 2 ^ 32) s" and "wait_pc s t = Passed"
  shows "released s \<and> (\<forall>u < n. wait_pc s u \<noteq> Working) \<and>
    (\<forall>u. wait_pc s u = Spinning \<longrightarrow> wait_passes (counter s) \<and> \<not> wait_passes (wait_arrive (counter s)))"
proof -
  have "barrier_inv n s" by (rule bar.reachable_inv [OF assms(1)])
  then have r: "released s" and c: "counter s = 0" and a: "arrived n s = {..<n}" using assms(2) by (auto simp: barrier_inv_def split: if_splits)
  have "\<forall>u < n. wait_pc s u \<noteq> Working" using a unfolding arrived_def by blast
  then show ?thesis using r c by (simp add: wait_passes_def wait_arrive_def)
qed

lemma example_barrier: "reachable (\<lambda>s. s = Barrier) (\<lambda>s s'. barrier_step 1 s s' \<and> 1 < (2 :: nat) ^ 32)
    (Barrier\<lparr>wait_pc := (\<lambda>_. Working)(0 := Passed), released := True\<rparr>)"
proof -
  let ?s = "\<lambda>c p r. Barrier\<lparr>counter := c, wait_pc := (\<lambda>_. Working)(0 := p), released := r\<rparr>"
  have r0: "reachable (\<lambda>s. s = Barrier) (\<lambda>s s'. barrier_step 1 s s' \<and> 1 < (2 :: nat) ^ 32) Barrier" by (rule reachable_init) simp
  have r1: "barrier_step 1 Barrier (?s 1 Spinning False)"
    using barrier_arrive [of 0 1 Barrier] by (simp add: Barrier_def wait_arrive_def)
  have r2: "barrier_step 1 (?s 1 Spinning False) (?s 0 Spinning True)"
    using barrier_release [of "?s 1 Spinning False" 1 True 0] by (simp add: Barrier_def release_attempt_def)
  have r3: "barrier_step 1 (?s 0 Spinning True) (Barrier\<lparr>wait_pc := (\<lambda>_. Working)(0 := Passed), released := True\<rparr>)"
    using barrier_spin [of "?s 0 Spinning True" 0 1] by (simp add: Barrier_def wait_passes_def)
  have b: "1 < (2 :: nat) ^ 32" by simp
  show ?thesis by (rule reachable_step [OF reachable_step [OF reachable_step [OF r0 conjI [OF r1 b]] conjI [OF r2 b]] conjI [OF r3 b]])
qed

theorem barrier_waits_for_all_witness:
  "\<exists>s. reachable (\<lambda>s. s = Barrier) (\<lambda>s s'. barrier_step 1 s s' \<and> 1 < (2 :: nat) ^ 32) s \<and> wait_pc s 0 = Passed \<and> released s"
proof (rule exI, intro conjI)
  let ?s = "Barrier\<lparr>wait_pc := (\<lambda>_. Working)(0 := Passed), released := True\<rparr>"
  show "reachable (\<lambda>s. s = Barrier) (\<lambda>s s'. barrier_step 1 s s' \<and> 1 < (2 :: nat) ^ 32) ?s" by (rule example_barrier)
  show "wait_pc ?s 0 = Passed" by simp
  then show "released ?s" using barrier_waits_for_all [OF example_barrier, of 0] by blast
qed

end
