(* ===== verification/Atomic_Values.thy ===== *)
theory Atomic_Values
  imports Godby_Prelude "HOL-Library.Monad_Syntax"
begin

text \<open>
  \<open>Atomic.h\<close> and \<open>AtomicOptional.h\<close>. An \<open>Atomic\<close> of a class type is an atomic pointer to an object on the heap; a null
  pointer is \<open>None\<close>, and an access to an object that is not alive has no result. For an arithmetic type \<open>Atomic\<close> is
  \<open>std::atomic\<close> itself, on which \<open>RelaxedAtomic\<close> defines its operators.
\<close>

section \<open>Atomic objects on the heap\<close>

record 'a atomic =
  pointer :: "nat option"
  objects :: "nat \<Rightarrow> 'a option"
  next_object :: nat

definition new_object :: "'a \<Rightarrow> 'a atomic \<Rightarrow> nat \<times> 'a atomic" where
  "new_object x s = (next_object s, s\<lparr>objects := (objects s)(next_object s \<mapsto> x), next_object := Suc (next_object s)\<rparr>)"

definition deref :: "nat option \<Rightarrow> 'a atomic \<Rightarrow> 'a option" where
  "deref p s = do { a \<leftarrow> p; objects s a }"

text \<open>\<open>delete\<close> of a null pointer does nothing.\<close>

definition delete_object :: "nat option \<Rightarrow> 'a atomic \<Rightarrow> 'a atomic option" where
  "delete_object p s = (case p of
      None \<Rightarrow> Some s
    | Some a \<Rightarrow> do { _ \<leftarrow> objects s a; Some (s\<lparr>objects := (objects s)(a := None)\<rparr>) })"

definition Atomic :: "'a \<Rightarrow> 'a atomic" where
  "Atomic initial =
     (let (p, s) = new_object initial \<lparr>pointer = None, objects = Map.empty, next_object = 0\<rparr> in s\<lparr>pointer := Some p\<rparr>)"

definition Atomic_dtor :: "'a atomic \<Rightarrow> 'a atomic option" where
  "Atomic_dtor s = delete_object (pointer s) s"

definition load :: "'a atomic \<Rightarrow> 'a option" where
  "load s = deref (pointer s) s"

definition exchange_pointer :: "nat option \<Rightarrow> 'a atomic \<Rightarrow> nat option \<times> 'a atomic" where
  "exchange_pointer p s = (pointer s, s\<lparr>pointer := p\<rparr>)"

definition store_unique :: "nat option \<Rightarrow> 'a atomic \<Rightarrow> 'a atomic option" where
  "store_unique desired s = (let (old, s) = exchange_pointer desired s in delete_object old s)"

definition store :: "'a \<Rightarrow> 'a atomic \<Rightarrow> 'a atomic option" where
  "store desired s =
     (let (new_value, s) = new_object desired s; (old, s) = exchange_pointer (Some new_value) s in delete_object old s)"

definition exchange :: "'a \<Rightarrow> 'a atomic \<Rightarrow> ('a \<times> 'a atomic) option" where
  "exchange desired s =
     (let (new_value, s) = new_object desired s; (old_value, s) = exchange_pointer (Some new_value) s in do {
        result \<leftarrow> deref old_value s;
        s \<leftarrow> delete_object old_value s;
        Some (result, s) })"

definition operator_T :: "'a atomic \<Rightarrow> 'a option" where
  "operator_T s = load s"

definition assign :: "'a \<Rightarrow> 'a atomic \<Rightarrow> 'a atomic option" where
  "assign desired s = store desired s"

definition assign_unique :: "nat option \<Rightarrow> 'a atomic \<Rightarrow> 'a atomic option" where
  "assign_unique desired s = store_unique desired s"

section \<open>Relaxed atomic integers\<close>

text \<open>
  The operators on unsigned types, where all arithmetic wraps. On a signed type \<open>fetch_add\<close> and \<open>fetch_sub\<close> wrap as well, but
  the prefix operators then apply \<open>++\<close> or \<open>--\<close> to the fetched value, which is undefined at the end of the range.
\<close>

definition fetch_add :: "'w::len word \<Rightarrow> 'w word \<Rightarrow> 'w word \<times> 'w word" where
  "fetch_add val x = (x, x + val)"

definition fetch_sub :: "'w::len word \<Rightarrow> 'w word \<Rightarrow> 'w word \<times> 'w word" where
  "fetch_sub val x = (x, x - val)"

definition post_increment :: "'w::len word \<Rightarrow> 'w word \<times> 'w word" where
  "post_increment x = fetch_add 1 x"

definition pre_increment :: "'w::len word \<Rightarrow> 'w word \<times> 'w word" where
  "pre_increment x = (let (tmp, x) = fetch_add 1 x in (tmp + 1, x))"

definition post_decrement :: "'w::len word \<Rightarrow> 'w word \<times> 'w word" where
  "post_decrement x = fetch_sub 1 x"

definition pre_decrement :: "'w::len word \<Rightarrow> 'w word \<times> 'w word" where
  "pre_decrement x = (let (tmp, x) = fetch_sub 1 x in (tmp - 1, x))"

definition add_assign :: "'w::len word \<Rightarrow> 'w word \<Rightarrow> 'w word \<times> 'w word" where
  "add_assign val x = fetch_add val x"

definition sub_assign :: "'w::len word \<Rightarrow> 'w word \<Rightarrow> 'w word \<times> 'w word" where
  "sub_assign val x = fetch_sub val x"

text \<open>The bitwise operators apply the operation again to the value that was fetched.\<close>

definition and_assign :: "'w::len word \<Rightarrow> 'w word \<Rightarrow> 'w word \<times> 'w word" where
  "and_assign arg x = (let (fetched, x) = (x, x AND arg) in (fetched AND arg, x))"

definition or_assign :: "'w::len word \<Rightarrow> 'w word \<Rightarrow> 'w word \<times> 'w word" where
  "or_assign arg x = (let (fetched, x) = (x, x OR arg) in (fetched OR arg, x))"

definition xor_assign :: "'w::len word \<Rightarrow> 'w word \<Rightarrow> 'w word \<times> 'w word" where
  "xor_assign arg x = (let (fetched, x) = (x, x XOR arg) in (fetched XOR arg, x))"

definition relaxed_load :: "'w::len word \<Rightarrow> 'w word" where
  "relaxed_load x = x"

definition relaxed_store :: "'w::len word \<Rightarrow> 'w word \<Rightarrow> 'w word" where
  "relaxed_store desired x = desired"

definition relaxed_assign :: "'w::len word \<Rightarrow> 'w word \<Rightarrow> 'w word" where
  "relaxed_assign desired x = relaxed_store desired x"

definition relaxed_operator_T :: "'w::len word \<Rightarrow> 'w word" where
  "relaxed_operator_T x = relaxed_load x"

section \<open>Optional values\<close>

record 'a optional =
  M_value :: 'a
  M_has :: bool

definition AtomicOptional :: "'a \<Rightarrow> 'a optional" where
  "AtomicOptional val = \<lparr>M_value = val, M_has = True\<rparr>"

definition AtomicOptional_empty :: "'a \<Rightarrow> 'a optional" where
  "AtomicOptional_empty T0 = \<lparr>M_value = T0, M_has = False\<rparr>"

definition has :: "'a optional \<Rightarrow> bool" where
  "has s = M_has s"

definition optional_value :: "'a optional \<Rightarrow> 'a" where
  "optional_value s = M_value s"

definition optional_load :: "'a optional \<Rightarrow> 'a option" where
  "optional_load s = (if M_has s then Some (M_value s) else None)"

definition optional_store :: "'a \<Rightarrow> 'a optional \<Rightarrow> 'a optional" where
  "optional_store val s = (let s = s\<lparr>M_value := val\<rparr> in s\<lparr>M_has := True\<rparr>)"

text \<open>\<open>T0\<close> is the value of \<open>T{}\<close>.\<close>

definition optional_reset :: "'a \<Rightarrow> 'a optional \<Rightarrow> 'a optional" where
  "optional_reset T0 s = (let s = s\<lparr>M_value := T0\<rparr> in s\<lparr>M_has := False\<rparr>)"

definition optional_assign :: "'a \<Rightarrow> 'a option \<Rightarrow> 'a optional \<Rightarrow> 'a optional" where
  "optional_assign T0 desired s = (case desired of Some val \<Rightarrow> optional_store val s | None \<Rightarrow> optional_reset T0 s)"

definition optional_operator_T :: "'a optional \<Rightarrow> 'a" where
  "optional_operator_T s = M_value s"

section \<open>Several threads that store and exchange\<close>

datatype kind = Store | Exchange

text \<open>A thread has made the object it will store, or has taken the old pointer out and will delete the object.
  The number counts the exchanges of the pointer that came before its own.\<close>

datatype swap_pc = Idle | Made kind nat | Taken kind nat "nat option"

record 'a swaps =
  box :: "'a atomic"
  swap_pc :: "nat \<Rightarrow> swap_pc"
  written :: "'a list"
  returned :: "(nat \<times> 'a) list"

text \<open>The exchange appends the value of the new object to \<open>written\<close>, in which the initial value comes first.\<close>

inductive swap_step :: "'a swaps \<Rightarrow> 'a swaps \<Rightarrow> bool" where
  swap_make: "swap_pc s t = Idle \<Longrightarrow> new_object x (box s) = (p, b) \<Longrightarrow>
    swap_step s (s\<lparr>box := b, swap_pc := (swap_pc s)(t := Made k p)\<rparr>)"
| swap_pointer: "swap_pc s t = Made k p \<Longrightarrow> exchange_pointer (Some p) (box s) = (old, b) \<Longrightarrow> deref (Some p) b = Some x \<Longrightarrow>
    swap_step s (s\<lparr>box := b, swap_pc := (swap_pc s)(t := Taken k (length (written s) - 1) old), written := written s @ [x]\<rparr>)"
| swap_delete: "swap_pc s t = Taken Store i old \<Longrightarrow> delete_object old (box s) = Some b \<Longrightarrow>
    swap_step s (s\<lparr>box := b, swap_pc := (swap_pc s)(t := Idle)\<rparr>)"
| swap_return: "swap_pc s t = Taken Exchange i old \<Longrightarrow> deref old (box s) = Some x \<Longrightarrow> delete_object old (box s) = Some b \<Longrightarrow>
    swap_step s (s\<lparr>box := b, swap_pc := (swap_pc s)(t := Idle), returned := returned s @ [(i, x)]\<rparr>)"

definition swap_init :: "'a \<Rightarrow> 'a swaps" where
  "swap_init x = \<lparr>box = Atomic x, swap_pc = (\<lambda>_. Idle), written = [x], returned = []\<rparr>"

text \<open>The object a thread is about to store or to delete.\<close>

fun in_hand :: "swap_pc \<Rightarrow> nat option" where
  "in_hand Idle = None"
| "in_hand (Made k p) = Some p"
| "in_hand (Taken k i old) = old"

definition swap_inv :: "'a swaps \<Rightarrow> bool" where
  "swap_inv s \<longleftrightarrow>
     (written s \<noteq> []) \<and>
     (\<exists>p. pointer (box s) = Some p \<and> objects (box s) p = Some (last (written s)) \<and> (\<forall>t. in_hand (swap_pc s t) \<noteq> Some p)) \<and>
     (\<forall>a. objects (box s) a \<noteq> None \<longleftrightarrow> pointer (box s) = Some a \<or> (\<exists>t. in_hand (swap_pc s t) = Some a)) \<and>
     (\<forall>t u a. in_hand (swap_pc s t) = Some a \<longrightarrow> in_hand (swap_pc s u) = Some a \<longrightarrow> t = u) \<and>
     (\<forall>t k i old. swap_pc s t = Taken k i old \<longrightarrow>
       (\<exists>a. old = Some a \<and> Suc i < length (written s) \<and> objects (box s) a = Some (written s ! i))) \<and>
     (\<forall>a. objects (box s) a \<noteq> None \<longrightarrow> a < next_object (box s)) \<and>
     (\<forall>i x. (i, x) \<in> set (returned s) \<longrightarrow> Suc i < length (written s) \<and> x = written s ! i) \<and>
     (\<forall>t k i old. swap_pc s t = Taken k i old \<longrightarrow> i \<notin> fst ` set (returned s)) \<and>
     (\<forall>t u k k' i old old'. swap_pc s t = Taken k i old \<longrightarrow> swap_pc s u = Taken k' i old' \<longrightarrow> t = u) \<and>
     (distinct (map fst (returned s)))"

lemma swap_invD:
  assumes "swap_inv s"
  shows "written s \<noteq> []"
    and "\<exists>p. pointer (box s) = Some p \<and> objects (box s) p = Some (last (written s)) \<and> (\<forall>t. in_hand (swap_pc s t) \<noteq> Some p)"
    and "\<forall>a. objects (box s) a \<noteq> None \<longleftrightarrow> pointer (box s) = Some a \<or> (\<exists>t. in_hand (swap_pc s t) = Some a)"
    and "\<forall>t u a. in_hand (swap_pc s t) = Some a \<longrightarrow> in_hand (swap_pc s u) = Some a \<longrightarrow> t = u"
    and "\<forall>t k i old. swap_pc s t = Taken k i old \<longrightarrow>
       (\<exists>a. old = Some a \<and> Suc i < length (written s) \<and> objects (box s) a = Some (written s ! i))"
    and "\<forall>a. objects (box s) a \<noteq> None \<longrightarrow> a < next_object (box s)"
    and "\<forall>i x. (i, x) \<in> set (returned s) \<longrightarrow> Suc i < length (written s) \<and> x = written s ! i"
    and "\<forall>t k i old. swap_pc s t = Taken k i old \<longrightarrow> i \<notin> fst ` set (returned s)"
    and "\<forall>t u k k' i old old'. swap_pc s t = Taken k i old \<longrightarrow> swap_pc s u = Taken k' i old' \<longrightarrow> t = u"
    and "distinct (map fst (returned s))"
  using assms unfolding swap_inv_def by - (elim conjE, assumption)+

lemma swap_invI:
  assumes "written s \<noteq> []"
    and "\<exists>p. pointer (box s) = Some p \<and> objects (box s) p = Some (last (written s)) \<and> (\<forall>t. in_hand (swap_pc s t) \<noteq> Some p)"
    and "\<forall>a. objects (box s) a \<noteq> None \<longleftrightarrow> pointer (box s) = Some a \<or> (\<exists>t. in_hand (swap_pc s t) = Some a)"
    and "\<forall>t u a. in_hand (swap_pc s t) = Some a \<longrightarrow> in_hand (swap_pc s u) = Some a \<longrightarrow> t = u"
    and "\<forall>t k i old. swap_pc s t = Taken k i old \<longrightarrow>
       (\<exists>a. old = Some a \<and> Suc i < length (written s) \<and> objects (box s) a = Some (written s ! i))"
    and "\<forall>a. objects (box s) a \<noteq> None \<longrightarrow> a < next_object (box s)"
    and "\<forall>i x. (i, x) \<in> set (returned s) \<longrightarrow> Suc i < length (written s) \<and> x = written s ! i"
    and "\<forall>t k i old. swap_pc s t = Taken k i old \<longrightarrow> i \<notin> fst ` set (returned s)"
    and "\<forall>t u k k' i old old'. swap_pc s t = Taken k i old \<longrightarrow> swap_pc s u = Taken k' i old' \<longrightarrow> t = u"
    and "distinct (map fst (returned s))"
  shows "swap_inv s"
  unfolding swap_inv_def by (intro conjI assms)

lemma swap_make_inv:
  assumes I: "swap_inv s" and t: "swap_pc s t = Idle" and n: "new_object x (box s) = (p, b)"
  shows "swap_inv (s\<lparr>box := b, swap_pc := (swap_pc s)(t := Made k p)\<rparr>)" (is "swap_inv ?s")
proof -
  note D = swap_invD [OF I, rule_format]
  have b: "p = next_object (box s)" "b = (box s)\<lparr>objects := (objects (box s))(p \<mapsto> x), next_object := Suc p\<rparr>"
    using n by (auto simp: new_object_def)
  have fresh: "objects (box s) p = None" using D(6) [of p] b(1) by (cases "objects (box s) p") auto
  then have hand: "in_hand (swap_pc s u) \<noteq> Some p" "pointer (box s) \<noteq> Some p" for u using D(3) [of p] by auto
  have h: "in_hand (swap_pc ?s u) = (if u = t then Some p else in_hand (swap_pc s u))" for u by simp
  have tk: "swap_pc ?s u = Taken k' i old \<longleftrightarrow> swap_pc s u = Taken k' i old" for u k' i old using t by auto
  have t0: "in_hand (swap_pc s t) = None" using t by simp
  show ?thesis
  proof (rule swap_invI [rule_format])
    show "\<exists>q. pointer (box ?s) = Some q \<and> objects (box ?s) q = Some (last (written ?s)) \<and> (\<forall>u. in_hand (swap_pc ?s u) \<noteq> Some q)"
      using D(2) hand fresh unfolding h by (auto simp: b(2))
    show "objects (box ?s) a \<noteq> None \<longleftrightarrow> pointer (box ?s) = Some a \<or> (\<exists>u. in_hand (swap_pc ?s u) = Some a)" for a
      unfolding h using D(3) [of a] t0 by (auto simp: b(2)) (metis option.distinct(1))
    show "u = v" if "in_hand (swap_pc ?s u) = Some a" "in_hand (swap_pc ?s v) = Some a" for u v a
      using that hand D(4) [of u a v] unfolding h by (auto split: if_splits)
    show "\<exists>a. old = Some a \<and> Suc i < length (written ?s) \<and> objects (box ?s) a = Some (written ?s ! i)"
      if "swap_pc ?s u = Taken k' i old" for u k' i old
      using D(5) [OF that [unfolded tk]] fresh by (auto simp: b(2))
    show "a < next_object (box ?s)" if "objects (box ?s) a \<noteq> None" for a
      using D(6) [of a] that b(1) by (auto simp: b(2) less_Suc_eq split: if_splits)
    show "i \<notin> fst ` set (returned ?s)" if "swap_pc ?s u = Taken k' i old" for u k' i old using D(8) [OF that [unfolded tk]] by simp
    show "u = v" if "swap_pc ?s u = Taken k1 i old" "swap_pc ?s v = Taken k2 i old'" for u v k1 k2 i old old'
      using D(9) that unfolding tk by blast
  qed (use D(1,7,10) in simp_all)
qed

lemma swap_pointer_inv:
  assumes I: "swap_inv s" and t: "swap_pc s t = Made k p" and n: "exchange_pointer (Some p) (box s) = (old, b)" and x: "deref (Some p) b = Some x"
  shows "swap_inv (s\<lparr>box := b, swap_pc := (swap_pc s)(t := Taken k (length (written s) - 1) old), written := written s @ [x]\<rparr>)" (is "swap_inv ?s")
proof -
  note D = swap_invD [OF I, rule_format]
  have b: "old = pointer (box s)" "b = (box s)\<lparr>pointer := Some p\<rparr>" using n by (auto simp: exchange_pointer_def)
  obtain q where q: "pointer (box s) = Some q" "objects (box s) q = Some (last (written s))" "\<And>u. in_hand (swap_pc s u) \<noteq> Some q" using D(2) by blast
  have px: "objects (box s) p = Some x" using x by (simp add: deref_def b(2))
  have h: "in_hand (swap_pc ?s u) = (if u = t then Some q else in_hand (swap_pc s u))" for u by (simp add: b(1) q(1))
  have tp: "in_hand (swap_pc s t) = Some p" using t by simp
  then have pq: "p \<noteq> q" using q(3) by metis
  have tk: "swap_pc ?s u = Taken k' i o' \<longleftrightarrow> (if u = t then k' = k \<and> i = length (written s) - 1 \<and> o' = Some q else swap_pc s u = Taken k' i o')" for u k' i o'
    by (auto simp: b(1) q(1))
  have l: "length (written s) - 1 < length (written s)" using D(1) by simp
  have older: "i < length (written s) - 1" if "swap_pc s u = Taken k' i o'" for u k' i o' using D(5) [OF that] by auto
  show ?thesis
  proof (rule swap_invI [rule_format])
    show "\<exists>a. pointer (box ?s) = Some a \<and> objects (box ?s) a = Some (last (written ?s)) \<and> (\<forall>u. in_hand (swap_pc ?s u) \<noteq> Some a)"
      unfolding h using px D(4) [OF tp] pq by (auto simp: b(2))
    show "objects (box ?s) a \<noteq> None \<longleftrightarrow> pointer (box ?s) = Some a \<or> (\<exists>u. in_hand (swap_pc ?s u) = Some a)" for a
      unfolding h using D(3) [of a] q(1) tp D(4) [of t a] by (auto simp: b(2)) (metis option.inject)+
    show "u = v" if "in_hand (swap_pc ?s u) = Some a" "in_hand (swap_pc ?s v) = Some a" for u v a
      using that q(3) D(4) [of u a v] unfolding h by (auto split: if_splits)
    show "\<exists>a. o' = Some a \<and> Suc i < length (written ?s) \<and> objects (box ?s) a = Some (written ?s ! i)"
      if "swap_pc ?s u = Taken k' i o'" for u k' i o'
    proof (cases "u = t")
      case True
      then have "i = length (written s) - 1" "o' = Some q" using that unfolding tk by auto
      then show ?thesis using q(2) l D(1) by (auto simp: b(2) nth_append last_conv_nth)
    next
      case False
      then have "swap_pc s u = Taken k' i o'" using that unfolding tk by simp
      from D(5) [OF this] show ?thesis by (auto simp: b(2) nth_append)
    qed
    show "a < next_object (box ?s)" if "objects (box ?s) a \<noteq> None" for a using D(6) [of a] that by (simp add: b(2))
    show "Suc i < length (written ?s) \<and> y = written ?s ! i" if "(i, y) \<in> set (returned ?s)" for i y
      using D(7) [of i y] that by (simp add: nth_append)
    show "i \<notin> fst ` set (returned ?s)" if "swap_pc ?s u = Taken k' i o'" for u k' i o'
    proof (cases "u = t")
      case True
      then have "i = length (written s) - 1" using that unfolding tk by auto
      then show ?thesis using D(7) l by fastforce
    next
      case False
      then have "swap_pc s u = Taken k' i o'" using that unfolding tk by simp
      from D(8) [OF this] show ?thesis by simp
    qed
    show "u = v" if "swap_pc ?s u = Taken k1 i o1" "swap_pc ?s v = Taken k2 i o2" for u v k1 k2 i o1 o2
      using that D(9) [of u k1 i o1 v k2 o2] older [of u k1 i o1] older [of v k2 i o2] unfolding tk by (auto split: if_splits)
  qed (use D(1,10) in simp_all)
qed

lemma swap_delete_inv:
  assumes I: "swap_inv s" and t: "swap_pc s t = Taken k i old" and b: "delete_object old (box s) = Some b"
    and r: "r = [] \<or> (\<exists>x. r = [(i, x)] \<and> deref old (box s) = Some x)"
  shows "swap_inv (s\<lparr>box := b, swap_pc := (swap_pc s)(t := Idle), returned := returned s @ r\<rparr>)" (is "swap_inv ?s")
proof -
  note D = swap_invD [OF I, rule_format]
  obtain a where a: "old = Some a" "Suc i < length (written s)" "objects (box s) a = Some (written s ! i)" using D(5) [OF t] by blast
  have b: "b = (box s)\<lparr>objects := (objects (box s))(a := None)\<rparr>" using b a by (simp add: delete_object_def)
  have ta: "in_hand (swap_pc s t) = Some a" using t a by simp
  then have pa: "pointer (box s) \<noteq> Some a" using D(2) by force
  have h: "in_hand (swap_pc ?s u) = (if u = t then None else in_hand (swap_pc s u))" for u by simp
  have tk: "swap_pc ?s u = Taken k' j o' \<longleftrightarrow> u \<noteq> t \<and> swap_pc s u = Taken k' j o'" for u k' j o' by simp
  have r': "(j, x) \<in> set r \<Longrightarrow> j = i \<and> x = written s ! i" for j x using r a by (auto simp: deref_def)
  show ?thesis
  proof (rule swap_invI [rule_format])
    show "\<exists>q. pointer (box ?s) = Some q \<and> objects (box ?s) q = Some (last (written ?s)) \<and> (\<forall>u. in_hand (swap_pc ?s u) \<noteq> Some q)"
      using D(2) pa unfolding h by (auto simp: b)
    show "objects (box ?s) c \<noteq> None \<longleftrightarrow> pointer (box ?s) = Some c \<or> (\<exists>u. in_hand (swap_pc ?s u) = Some c)" for c
    proof (cases "c = a")
      case True
      then show ?thesis unfolding h using pa D(4) [OF ta] by (auto simp: b)
    next
      case False
      have "(\<exists>u. in_hand (swap_pc ?s u) = Some c) \<longleftrightarrow> (\<exists>u. in_hand (swap_pc s u) = Some c)" unfolding h using ta False by (metis option.inject option.distinct(1))
      then show ?thesis using D(3) [of c] False by (simp add: b)
    qed
    show "u = v" if "in_hand (swap_pc ?s u) = Some c" "in_hand (swap_pc ?s v) = Some c" for u v c
      using that D(4) [of u c v] unfolding h by (auto split: if_splits)
    show "\<exists>c. o' = Some c \<and> Suc j < length (written ?s) \<and> objects (box ?s) c = Some (written ?s ! j)"
      if "swap_pc ?s u = Taken k' j o'" for u k' j o'
    proof -
      have u: "u \<noteq> t" "swap_pc s u = Taken k' j o'" using that unfolding tk by auto
      then obtain c where c: "o' = Some c" "Suc j < length (written s)" "objects (box s) c = Some (written s ! j)" using D(5) by blast
      then have "c \<noteq> a" using D(4) [OF ta, of u] u by auto
      then show ?thesis using c by (simp add: b)
    qed
    show "c < next_object (box ?s)" if "objects (box ?s) c \<noteq> None" for c using D(6) [of c] that by (auto simp: b split: if_splits)
    show "Suc j < length (written ?s) \<and> x = written ?s ! j" if "(j, x) \<in> set (returned ?s)" for j x
      using that D(7) [of j x] r' [of j x] a(2) by auto
    show "j \<notin> fst ` set (returned ?s)" if "swap_pc ?s u = Taken k' j o'" for u k' j o'
    proof -
      have u: "u \<noteq> t" "swap_pc s u = Taken k' j o'" using that unfolding tk by auto
      then have "j \<noteq> i" using D(9) [OF t, of u] by blast
      then show ?thesis using D(8) [OF u(2)] r' by auto
    qed
    show "u = v" if "swap_pc ?s u = Taken k1 j o1" "swap_pc ?s v = Taken k2 j o2" for u v k1 k2 j o1 o2
      using that D(9) unfolding tk by blast
    show "distinct (map fst (returned ?s))" using D(10) D(8) [OF t] r by (auto simp: image_iff)
  qed (use D(1) in simp_all)
qed

lemma swap_inv_step: "swap_step s s' \<Longrightarrow> swap_inv s \<Longrightarrow> swap_inv s'"
proof (induction rule: swap_step.induct)
  case (swap_make s t x p b k)
  then show ?case by (intro swap_make_inv)
next
  case (swap_pointer s t k p old b x)
  then show ?case by (intro swap_pointer_inv)
next
  case (swap_delete s t i old b)
  then show ?case using swap_delete_inv [of s t Store i old b "[]"] by simp
next
  case (swap_return s t i old x b)
  then show ?case using swap_delete_inv [of s t Exchange i old b "[(i, x)]"] by simp
qed

lemma swap_inv_init: "swap_inv (swap_init x)"
  by (rule swap_invI [rule_format]) (simp_all add: swap_init_def Atomic_def new_object_def split: if_splits)

interpretation sw: transition_invariant "\<lambda>s. \<exists>x. s = swap_init x" swap_step swap_inv
proof unfold_locales
  show "swap_inv s" if "\<exists>x. s = swap_init x" for s :: "'a swaps" using that swap_inv_init by auto
  show "swap_inv s'" if "swap_inv s" and "swap_step s s'" for s s' :: "'a swaps" by (rule swap_inv_step [OF that(2,1)])
qed

section \<open>Properties\<close>

text \<open>
  C19. Any number of threads may \<open>store\<close> into and \<open>exchange\<close> the value of an \<open>Atomic\<close> object at the same time. No thread deletes or
  reads an object that is gone: each can take its next step. \<open>exchange\<close> returns the value that was written immediately before
  its own, no two calls return the same one, and when all threads are done one object is left, with the last value written.
\<close>

theorem atomic_swaps:
  assumes "reachable (\<lambda>s. \<exists>x. s = swap_init x) swap_step s"
  shows "(\<forall>t. \<exists>s'. swap_step s s' \<and> swap_pc s' t \<noteq> swap_pc s t) \<and>
    (\<forall>(i, x) \<in> set (returned s). Suc i < length (written s) \<and> x = written s ! i) \<and> distinct (map fst (returned s)) \<and>
    load (box s) = Some (last (written s)) \<and>
    ((\<forall>t. swap_pc s t = Idle) \<longrightarrow> (\<exists>p. objects (box s) = [p \<mapsto> last (written s)]))"
proof -
  have I: "swap_inv s" by (rule sw.reachable_inv [OF assms])
  note D = swap_invD [OF I, rule_format]
  obtain p where p: "pointer (box s) = Some p" "objects (box s) p = Some (last (written s))" using D(2) by blast
  have steps: "\<exists>s'. swap_step s s' \<and> swap_pc s' t \<noteq> swap_pc s t" for t
  proof (cases "swap_pc s t")
    case Idle
    obtain q b where "new_object (last (written s)) (box s) = (q, b)" by fastforce
    from swap_make [OF Idle this, of Store] Idle show ?thesis by (intro exI conjI) auto
  next
    case (Made k q)
    then have "in_hand (swap_pc s t) = Some q" by simp
    then obtain x where "objects (box s) q = Some x" using D(3) [of q] by blast
    then have "deref (Some q) (snd (exchange_pointer (Some q) (box s))) = Some x" by (simp add: exchange_pointer_def deref_def)
    from swap_pointer [OF Made prod.collapse [symmetric] this] Made show ?thesis by (intro exI conjI) auto
  next
    case (Taken k i old)
    then obtain a where a: "old = Some a" "objects (box s) a = Some (written s ! i)" using D(5) by blast
    then have d: "delete_object old (box s) = Some ((box s)\<lparr>objects := (objects (box s))(a := None)\<rparr>)" "deref old (box s) = Some (written s ! i)"
      by (simp_all add: delete_object_def deref_def)
    show ?thesis
    proof (cases k)
      case Store
      from swap_delete [OF Taken [unfolded Store] d(1)] Taken show ?thesis by (intro exI conjI) auto
    next
      case Exchange
      from swap_return [OF Taken [unfolded Exchange] d(2,1)] Taken show ?thesis by (intro exI conjI) auto
    qed
  qed
  have "objects (box s) = [p \<mapsto> last (written s)]" if "\<forall>t. swap_pc s t = Idle"
  proof
    fix a
    have "a = p" if "objects (box s) a \<noteq> None" using D(3) [of a] that p(1) \<open>\<forall>t. swap_pc s t = Idle\<close> by auto
    then show "objects (box s) a = [p \<mapsto> last (written s)] a" using p(2) by (cases "objects (box s) a") auto
  qed
  then show ?thesis using steps D(7,10) p by (auto simp: load_def deref_def)
qed

text \<open>
  Thread 1 exchanges the 3 for a 5 and returns; thread 2 has exchanged the 5 for a 9 in a \<open>store\<close> and has yet to delete it.
\<close>

abbreviation swap_state :: "nat option \<Rightarrow> (nat \<rightharpoonup> nat) \<Rightarrow> nat \<Rightarrow> swap_pc \<Rightarrow> swap_pc \<Rightarrow> nat list \<Rightarrow> (nat \<times> nat) list \<Rightarrow> nat swaps" where
  "swap_state p m n u v w r \<equiv> \<lparr>box = \<lparr>pointer = p, objects = m, next_object = n\<rparr>,
     swap_pc = (\<lambda>_. Idle)(1 := u, 2 := v), written = w, returned = r\<rparr>"

lemma example_swaps:
  "reachable (\<lambda>s. \<exists>x. s = swap_init x) swap_step
     (swap_state (Some 2) [1 \<mapsto> 5, 2 \<mapsto> 9] 3 Idle (Taken Store 1 (Some 1)) [3, 5, 9] [(0, 3)])"
proof -
  let ?s0 = "swap_state (Some 0) [0 \<mapsto> 3] 1 Idle Idle [3] []"
  let ?s1 = "swap_state (Some 0) [0 \<mapsto> 3, 1 \<mapsto> 5] 2 (Made Exchange 1) Idle [3] []"
  let ?s2 = "swap_state (Some 1) [0 \<mapsto> 3, 1 \<mapsto> 5] 2 (Taken Exchange 0 (Some 0)) Idle [3, 5] []"
  let ?s3 = "swap_state (Some 1) [1 \<mapsto> 5] 2 Idle Idle [3, 5] [(0, 3)]"
  let ?s4 = "swap_state (Some 1) [1 \<mapsto> 5, 2 \<mapsto> 9] 3 Idle (Made Store 2) [3, 5] [(0, 3)]"
  let ?s5 = "swap_state (Some 2) [1 \<mapsto> 5, 2 \<mapsto> 9] 3 Idle (Taken Store 1 (Some 1)) [3, 5, 9] [(0, 3)]"
  have r0: "reachable (\<lambda>s. \<exists>x. s = swap_init x) swap_step ?s0"
    by (rule reachable_init, rule exI [of _ 3]) (simp add: swap_init_def Atomic_def new_object_def fun_upd_idem)
  have r1: "swap_step ?s0 ?s1"
    using swap_make [of ?s0 1 5 1 "box ?s1" Exchange] by (simp add: new_object_def fun_upd_twist)
  have r2: "swap_step ?s1 ?s2"
    using swap_pointer [of ?s1 1 Exchange 1 "Some 0" "box ?s2" 5] by (simp add: exchange_pointer_def deref_def fun_upd_twist)
  have m: "([0 \<mapsto> 3, 1 \<mapsto> 5] :: nat \<rightharpoonup> nat)(0 := None) = [1 \<mapsto> 5]" by (auto simp: fun_eq_iff)
  have r3: "swap_step ?s2 ?s3"
    using swap_return [of ?s2 1 0 "Some 0" 3 "box ?s3"] m by (simp add: deref_def delete_object_def fun_upd_twist)
  have r4: "swap_step ?s3 ?s4"
    using swap_make [of ?s3 2 9 2 "box ?s4" Store] by (simp add: new_object_def)
  have r5: "swap_step ?s4 ?s5"
    using swap_pointer [of ?s4 2 Store 2 "Some 1" "box ?s5" 9] by (simp add: exchange_pointer_def deref_def)
  have "swap_step\<^sup>*\<^sup>* ?s0 ?s5" using r1 r2 r3 r4 r5 by (meson rtranclp.rtrancl_into_rtrancl rtranclp.rtrancl_refl)
  then show ?thesis using r0 by (rule reachable_rtranclp)
qed

theorem atomic_swaps_witness:
  "\<exists>s. reachable (\<lambda>s. \<exists>x. s = swap_init x) swap_step s \<and> returned s = [(0, 3 :: nat)] \<and> written s = [3, 5, 9] \<and>
     swap_pc s 2 = Taken Store 1 (Some 1) \<and> (\<forall>(i, x) \<in> set (returned s). x = written s ! i) \<and> load (box s) = Some 9"
proof (rule exI, intro conjI)
  let ?s = "swap_state (Some 2) [1 \<mapsto> 5, 2 \<mapsto> 9] 3 Idle (Taken Store 1 (Some 1)) [3, 5, 9] [(0, 3)]"
  show "reachable (\<lambda>s. \<exists>x. s = swap_init x) swap_step ?s" by (rule example_swaps)
  note facts = atomic_swaps [OF example_swaps, THEN conjunct2]
  show "\<forall>(i, x) \<in> set (returned ?s). x = written ?s ! i" using facts [THEN conjunct1] by auto
  show "load (box ?s) = Some 9" using facts [THEN conjunct2, THEN conjunct2, THEN conjunct1] by simp
qed simp_all

text \<open>
  \<open>load\<close> reads the pointer and then the object. When another thread stores between the two, the object is
  deleted, and the load reads freed memory.
\<close>

theorem load_races_with_store:
  "\<exists>s'. store y (Atomic x) = Some s' \<and> load s' = Some y \<and> deref (pointer (Atomic x)) s' = None"
  by (simp add: store_def Atomic_def new_object_def exchange_pointer_def delete_object_def deref_def load_def)

text \<open>
  What the operators of a \<open>RelaxedAtomic\<close> return: the prefix forms of \<open>++\<close> and \<open>--\<close> and the bitwise operators the new
  value, the postfix forms the old one, and \<open>+=\<close> and \<open>-=\<close> the old one too.
\<close>

lemma arithmetic_results:
  "fst (pre_increment x) = snd (pre_increment x)" "fst (pre_decrement x) = snd (pre_decrement x)"
  "fst (post_increment x) = x" "fst (post_decrement x) = x" "fst (add_assign val x) = x" "fst (sub_assign val x) = x"
  by (simp_all add: pre_increment_def pre_decrement_def post_increment_def post_decrement_def add_assign_def sub_assign_def
      fetch_add_def fetch_sub_def)

lemma bitwise_results:
  "fst (and_assign arg x) = snd (and_assign arg x)" "fst (or_assign arg x) = snd (or_assign arg x)" "fst (xor_assign arg x) = snd (xor_assign arg x)"
  by (simp_all add: and_assign_def or_assign_def xor_assign_def)

text \<open>
  Run alone, \<open>AtomicOptional\<close> holds the value stored last or nothing. \<open>load\<close> reads the flag and then the
  value: when another thread stores \<open>nullopt\<close> between the two, it returns \<open>T{}\<close>, which was never stored.
\<close>

theorem optional_load_mixes:
  "optional_load (optional_assign T0 desired s) = desired \<and> has (optional_assign T0 desired s) = (desired \<noteq> None) \<and>
   (let s1 = optional_store x s; flag = M_has s1; s2 = optional_reset T0 s1 in
      optional_load s1 = Some x \<and> optional_load s2 = None \<and> (if flag then Some (M_value s2) else None) = Some T0)"
  by (cases desired) (simp_all add: optional_load_def optional_assign_def optional_store_def optional_reset_def has_def Let_def)

end
