(* ===== verification/Signals.thy ===== *)
theory Signals
  imports Godby_Prelude "HOL-Library.Monad_Syntax" "HOL-Library.Multiset"
begin

text \<open>
  \<open>Signal.cc\<close>. A handler is a \<open>std::function\<close> with or without the number of the signal as its argument, \<open>None\<close> when it is
  empty. Every operation holds the lock of the only instance, so an operation is one step. \<open>sigaction\<close> is an
  argument, and so is the order in which a hash map is iterated. \<open>None\<close> as a result is the overflow of the signed
  counter of handlers.
\<close>

section \<open>Definitions\<close>

datatype 'f handler = Plain "'f option" | With_signal "'f option"

record 'f signal =
  last_id :: int
  handlers_by_sig :: "int \<Rightarrow> int list option"
  id_to_handler :: "int \<Rightarrow> 'f handler option"

definition Signal :: "'f signal" where
  "Signal = \<lparr>last_id = 0, handlers_by_sig = Map.empty, id_to_handler = Map.empty\<rparr>"

definition increment_id :: "'f signal \<Rightarrow> (int \<times> 'f signal) option" where
  "increment_id s = (if last_id s + 1 < 2 ^ 31 then Some (last_id s + 1, s\<lparr>last_id := last_id s + 1\<rparr>) else None)"

definition Add :: "'f option \<Rightarrow> 'f signal \<Rightarrow> (int \<times> 'f signal) option" where
  "Add handler s = do {
     (hid, s) \<leftarrow> increment_id s;
     Some (hid, s\<lparr>id_to_handler := (id_to_handler s)(hid \<mapsto> With_signal handler)\<rparr>)
   }"

definition Add_sig :: "int \<Rightarrow> 'f option \<Rightarrow> 'f signal \<Rightarrow> (int \<times> 'f signal) option" where
  "Add_sig sig handler s = do {
     (hid, s) \<leftarrow> increment_id s;
     let s = s\<lparr>id_to_handler := (id_to_handler s)(hid \<mapsto> Plain handler)\<rparr>;
     let ids = (case handlers_by_sig s sig of None \<Rightarrow> [] | Some ids \<Rightarrow> ids);
     Some (hid, s\<lparr>handlers_by_sig := (handlers_by_sig s)(sig \<mapsto> ids @ [hid])\<rparr>)
   }"

text \<open>Both branches of the test of the alternative erase the number from every list.\<close>

definition erase_everywhere :: "int \<Rightarrow> 'f signal \<Rightarrow> 'f signal" where
  "erase_everywhere hid s = s\<lparr>handlers_by_sig := (\<lambda>sig. map_option (filter (\<lambda>i. i \<noteq> hid)) (handlers_by_sig s sig))\<rparr>"

definition Remove :: "int \<Rightarrow> 'f signal \<Rightarrow> int \<times> 'f signal" where
  "Remove hid s =
     (case id_to_handler s hid of
        Some h \<Rightarrow>
          (let s = (case h of Plain _ \<Rightarrow> erase_everywhere hid s | With_signal _ \<Rightarrow> erase_everywhere hid s) in
           (0, s\<lparr>id_to_handler := (id_to_handler s)(hid := None)\<rparr>))
      | None \<Rightarrow> (0, s))"

definition Register :: "'f option \<Rightarrow> 'f signal \<Rightarrow> (int \<times> 'f signal) option" where
  "Register handler s = Add handler s"

definition Register_sig :: "int \<Rightarrow> 'f option \<Rightarrow> 'f signal \<Rightarrow> (int \<times> 'f signal) option" where
  "Register_sig sig handler s = Add_sig sig handler s"

definition Unregister :: "int \<Rightarrow> 'f signal \<Rightarrow> int \<times> 'f signal" where
  "Unregister hid s = Remove hid s"

text \<open>The first argument of \<open>sigaction\<close> is whether the handler of the library or the default is set; it gives the result and the next state of
  the system.\<close>

definition Install :: "(int \<Rightarrow> bool \<Rightarrow> 'o \<Rightarrow> int \<times> 'o) \<Rightarrow> ('o \<Rightarrow> int) \<Rightarrow> int \<Rightarrow> 'o \<Rightarrow> int \<times> 'o" where
  "Install sigaction errno sig s =
     (let (r, s) = sigaction sig True s in
      if r \<noteq> 0 then (let (_, s) = sigaction sig False s in (- errno s, s)) else (0, s))"

text \<open>\<open>operator[]\<close> of the map enters an empty function under a number it does not have.\<close>

definition at_id :: "int \<Rightarrow> 'f signal \<Rightarrow> 'f handler \<times> 'f signal" where
  "at_id hid s = (case id_to_handler s hid of
      Some h \<Rightarrow> (h, s)
    | None \<Rightarrow> (Plain None, s\<lparr>id_to_handler := (id_to_handler s)(hid \<mapsto> Plain None)\<rparr>))"

text \<open>The calls that are made, and whether the call of an empty function threw an exception.\<close>

fun call_plain :: "int list \<Rightarrow> 'f signal \<Rightarrow> ('f \<times> int option) list \<times> bool \<times> 'f signal" where
  "call_plain [] s = ([], False, s)"
| "call_plain (hid # ids) s =
     (let (h, s) = at_id hid s in
      case h of
        Plain (Some f) \<Rightarrow> (let (calls, thrown, s) = call_plain ids s in ((f, None) # calls, thrown, s))
      | Plain None \<Rightarrow> ([], True, s)
      | With_signal _ \<Rightarrow> call_plain ids s)"

fun call_with_signal :: "int \<Rightarrow> (int \<times> 'f handler) list \<Rightarrow> ('f \<times> int option) list \<times> bool" where
  "call_with_signal sig [] = ([], False)"
| "call_with_signal sig ((hid, h) # hs) =
     (case h of
        With_signal (Some f) \<Rightarrow> (let (calls, thrown) = call_with_signal sig hs in ((f, Some sig) # calls, thrown))
      | With_signal None \<Rightarrow> ([], True)
      | Plain _ \<Rightarrow> call_with_signal sig hs)"

definition OnSignal :: "((int \<Rightarrow> 'f handler option) \<Rightarrow> (int \<times> 'f handler) list) \<Rightarrow> int \<Rightarrow> 'f signal \<Rightarrow> ('f \<times> int option) list \<times> bool \<times> 'f signal" where
  "OnSignal iterate sig s =
     (let (calls, thrown, s) = (case handlers_by_sig s sig of Some ids \<Rightarrow> call_plain ids s | None \<Rightarrow> ([], False, s)) in
      if thrown then (calls, True, s)
      else (let (calls', thrown) = call_with_signal sig (iterate (id_to_handler s)) in (calls @ calls', thrown, s)))"

definition sig_handler :: "((int \<Rightarrow> 'f handler option) \<Rightarrow> (int \<times> 'f handler) list) \<Rightarrow> int \<Rightarrow> 'f signal \<Rightarrow> ('f \<times> int option) list \<times> bool \<times> 'f signal" where
  "sig_handler iterate sig s = OnSignal iterate sig s"

section \<open>Registrations\<close>

text \<open>A registration is a number, the signal it is for (or every one) and the function.\<close>

type_synonym 'f registration = "int \<times> int option \<times> 'f"

fun handler_of :: "int option \<times> 'f \<Rightarrow> 'f handler" where
  "handler_of (Some sig, f) = Plain (Some f)"
| "handler_of (None, f) = With_signal (Some f)"

definition handlers_ok :: "'f signal \<Rightarrow> 'f registration list \<Rightarrow> bool" where
  "handlers_ok s regs \<longleftrightarrow>
     distinct (map fst regs) \<and> (\<forall>(i, _) \<in> set regs. 0 < i \<and> i \<le> last_id s) \<and> 0 \<le> last_id s \<and>
     id_to_handler s = map_of (map (\<lambda>(i, r). (i, handler_of r)) regs) \<and>
     (\<forall>sig. (case handlers_by_sig s sig of None \<Rightarrow> [] | Some ids \<Rightarrow> ids) = map fst (filter (\<lambda>(_, g, _). g = Some sig) regs))"

lemma handlers_okD:
  assumes "handlers_ok s regs"
  shows "distinct (map fst regs)" and "\<forall>(i, _) \<in> set regs. 0 < i \<and> i \<le> last_id s" and "0 \<le> last_id s"
    and "id_to_handler s = map_of (map (\<lambda>(i, r). (i, handler_of r)) regs)"
    and "\<forall>sig. (case handlers_by_sig s sig of None \<Rightarrow> [] | Some ids \<Rightarrow> ids) = map fst (filter (\<lambda>(_, g, _). g = Some sig) regs)"
  using assms unfolding handlers_ok_def by - (elim conjE, assumption)+

lemma map_of_last: "i \<notin> fst ` set xs \<Longrightarrow> [i \<mapsto> y] ++ map_of xs = (map_of xs)(i \<mapsto> y)"
proof -
  assume "i \<notin> fst ` set xs"
  then have "map_of xs i = None" by (simp add: map_of_eq_None_iff)
  then show ?thesis by (auto simp: fun_eq_iff map_add_def split: option.split)
qed

lemma add_ok:
  assumes "handlers_ok s regs" and "last_id s + 1 < 2 ^ 31"
  shows "\<exists>s'. Add (Some f) s = Some (last_id s + 1, s') \<and> handlers_ok s' (regs @ [(last_id s + 1, None, f)])"
    and "\<exists>s'. Add_sig sig (Some f) s = Some (last_id s + 1, s') \<and> handlers_ok s' (regs @ [(last_id s + 1, Some sig, f)])"
proof -
  note D = handlers_okD [OF assms(1)]
  have new: "last_id s + 1 \<notin> fst ` set regs" using D(2) by fastforce
  then have new': "last_id s + 1 \<notin> fst ` set (map (\<lambda>(i, r). (i, handler_of r)) regs)" by force
  have old: "\<forall>(i, _) \<in> set regs. 0 < i \<and> i \<le> last_id s + 1" using D(2) by fastforce
  show "\<exists>s'. Add (Some f) s = Some (last_id s + 1, s') \<and> handlers_ok s' (regs @ [(last_id s + 1, None, f)])"
    using D new new' old assms(2) by (simp add: Add_def increment_id_def handlers_ok_def map_of_last)
  show "\<exists>s'. Add_sig sig (Some f) s = Some (last_id s + 1, s') \<and> handlers_ok s' (regs @ [(last_id s + 1, Some sig, f)])"
    using D new new' old assms(2) by (simp add: Add_sig_def increment_id_def handlers_ok_def map_of_last Let_def)
qed

lemma map_of_drop: "map_of (filter (\<lambda>(i, _). i \<noteq> k) xs) = (map_of xs)(k := None)"
  by (induction xs) auto

lemma remove_ok:
  assumes "handlers_ok s regs"
  shows "\<exists>s'. Remove hid s = (0, s') \<and> handlers_ok s' (filter (\<lambda>(i, _). i \<noteq> hid) regs) \<and> last_id s' = last_id s"
proof -
  note D = handlers_okD [OF assms]
  let ?regs = "filter (\<lambda>(i, _). i \<noteq> hid) regs"
  show ?thesis
  proof (cases "id_to_handler s hid")
    case None
    then have "hid \<notin> fst ` set regs" using D(4) by (auto simp: map_of_eq_None_iff image_image case_prod_unfold)
    then have "?regs = regs" by (induction regs) auto
    then show ?thesis using None assms by (simp add: Remove_def)
  next
    case (Some h)
    define s' where "s' = (erase_everywhere hid s)\<lparr>id_to_handler := (id_to_handler s)(hid := None)\<rparr>"
    have r: "Remove hid s = (0, s')" using Some by (simp add: Remove_def s'_def erase_everywhere_def split: handler.split)
    have m: "id_to_handler s' = map_of (map (\<lambda>(i, r). (i, handler_of r)) ?regs)"
      using D(4) map_of_drop [of hid "map (\<lambda>(i, r). (i, handler_of r)) regs"] by (simp add: s'_def filter_map comp_def case_prod_unfold)
    have "(case handlers_by_sig s' sig of None \<Rightarrow> [] | Some ids \<Rightarrow> ids) = map fst (filter (\<lambda>(_, g, _). g = Some sig) ?regs)" for sig
    proof -
      have "(case handlers_by_sig s' sig of None \<Rightarrow> [] | Some ids \<Rightarrow> ids) =
          filter (\<lambda>i. i \<noteq> hid) (case handlers_by_sig s sig of None \<Rightarrow> [] | Some ids \<Rightarrow> ids)"
        by (simp add: s'_def erase_everywhere_def split: option.split)
      also have "\<dots> = map fst (filter (\<lambda>(_, g, _). g = Some sig) ?regs)"
        unfolding D(5) [rule_format] by (induction regs) auto
      finally show ?thesis .
    qed
    moreover have "last_id s' = last_id s" by (simp add: s'_def erase_everywhere_def)
    moreover have "distinct (map fst ?regs)" using D(1) by (induction regs) auto
    ultimately have "handlers_ok s' ?regs" using D(2,3) m unfolding handlers_ok_def by auto
    then show ?thesis using r \<open>last_id s' = last_id s\<close> by auto
  qed
qed

section \<open>Histories\<close>

datatype 'f sig_op = Op_register 'f | Op_register_sig int 'f | Op_unregister int

fun sig_exec :: "'f sig_op \<Rightarrow> 'f signal \<Rightarrow> 'f signal option" where
  "sig_exec (Op_register f) s = map_option snd (Register (Some f) s)"
| "sig_exec (Op_register_sig sig f) s = map_option snd (Register_sig sig (Some f) s)"
| "sig_exec (Op_unregister hid) s = Some (snd (Unregister hid s))"

fun sig_run :: "'f sig_op list \<Rightarrow> 'f signal \<Rightarrow> 'f signal option" where
  "sig_run [] s = Some s"
| "sig_run (c # cs) s = do { s \<leftarrow> sig_exec c s; sig_run cs s }"

text \<open>The registrations that are left: the numbers count up from one.\<close>

fun registered :: "'f sig_op list \<Rightarrow> int \<Rightarrow> 'f registration list \<Rightarrow> 'f registration list" where
  "registered [] n regs = regs"
| "registered (Op_register f # cs) n regs = registered cs (n + 1) (regs @ [(n + 1, None, f)])"
| "registered (Op_register_sig sig f # cs) n regs = registered cs (n + 1) (regs @ [(n + 1, Some sig, f)])"
| "registered (Op_unregister hid # cs) n regs = registered cs n (filter (\<lambda>(i, _). i \<noteq> hid) regs)"

lemma add_last_id:
  "Add f s = Some (i, s') \<Longrightarrow> last_id s' = last_id s + 1" "Add_sig sig f s = Some (i, s') \<Longrightarrow> last_id s' = last_id s + 1"
  by (auto simp: Add_def Add_sig_def increment_id_def Let_def split: if_splits)

lemma sig_run_ok:
  "handlers_ok s regs \<Longrightarrow> last_id s + int (length cs) < 2 ^ 31 \<Longrightarrow>
    \<exists>s'. sig_run cs s = Some s' \<and> handlers_ok s' (registered cs (last_id s) regs)"
proof (induction cs arbitrary: s regs)
  case (Cons c cs)
  have l: "last_id s + 1 < 2 ^ 31" using Cons.prems(2) by simp
  show ?case
  proof (cases c)
    case (Op_register f)
    obtain s' where s': "Add (Some f) s = Some (last_id s + 1, s')" "handlers_ok s' (regs @ [(last_id s + 1, None, f)])"
      using add_ok(1) [OF Cons.prems(1) l] by blast
    note n = add_last_id(1) [OF s'(1)]
    show ?thesis using Cons.IH [OF s'(2)] Cons.prems(2) s'(1) Op_register unfolding n by (simp add: Register_def)
  next
    case (Op_register_sig sig f)
    obtain s' where s': "Add_sig sig (Some f) s = Some (last_id s + 1, s')" "handlers_ok s' (regs @ [(last_id s + 1, Some sig, f)])"
      using add_ok(2) [OF Cons.prems(1) l] by blast
    note n = add_last_id(2) [OF s'(1)]
    show ?thesis using Cons.IH [OF s'(2)] Cons.prems(2) s'(1) Op_register_sig unfolding n by (simp add: Register_sig_def)
  next
    case (Op_unregister hid)
    obtain s' where s': "Remove hid s = (0, s')" "handlers_ok s' (filter (\<lambda>(i, _). i \<noteq> hid) regs)" and n: "last_id s' = last_id s"
      using remove_ok [OF Cons.prems(1)] by blast
    show ?thesis using Cons.IH [OF s'(2)] Cons.prems(2) s'(1) Op_unregister unfolding n by (simp add: Unregister_def)
  qed
qed simp

lemma call_plain_ok:
  assumes "\<forall>(i, g, f) \<in> set rs. id_to_handler s i = Some (Plain (Some f))"
  shows "call_plain (map fst rs) s = (map (\<lambda>(_, _, f). (f, None)) rs, False, s)"
  using assms by (induction rs) (auto simp: at_id_def)

lemma call_with_signal_ok:
  assumes "\<forall>(i, h) \<in> set hs. h \<noteq> With_signal None"
  shows "call_with_signal sig hs = (concat (map (\<lambda>(_, h). case h of With_signal (Some f) \<Rightarrow> [(f, Some sig)] | _ \<Rightarrow> []) hs), False)"
  using assms by (induction hs) (auto split: handler.splits option.splits)

lemma mset_concat_map: "mset (concat (map f xs)) = (\<Sum>x \<in># mset xs. mset (f x))"
  by (induction xs) simp_all

lemma OnSignal_ok:
  assumes ok: "handlers_ok s regs" and it: "\<forall>m. finite (dom m) \<longrightarrow> map_of (iterate m) = m \<and> distinct (map fst (iterate m))"
  shows "\<exists>calls. OnSignal iterate sig s = (map (\<lambda>(_, _, f). (f, None)) (filter (\<lambda>(_, g, _). g = Some sig) regs) @ calls, False, s) \<and>
    mset calls = mset (map (\<lambda>(_, _, f). (f, Some sig)) (filter (\<lambda>(_, g, _). g = None) regs))"
proof -
  note D = handlers_okD [OF ok]
  let ?rs = "filter (\<lambda>(_, g, _). g = Some sig) regs" and ?hs = "map (\<lambda>(i, r). (i, handler_of r)) regs"
  have ds: "distinct (map fst ?hs)" using D(1) by (simp add: comp_def case_prod_unfold)
  have "id_to_handler s i = Some (Plain (Some f))" if "(i, g, f) \<in> set ?rs" for i g f
  proof -
    have "(i, handler_of (g, f)) \<in> set ?hs" "g = Some sig" using that by (auto intro!: image_eqI [of _ _ "(i, g, f)"])
    then show ?thesis using map_of_is_SomeI [OF ds] D(4) by auto
  qed
  then have p: "call_plain (map fst ?rs) s = (map (\<lambda>(_, _, f). (f, None)) ?rs, False, s)" by (intro call_plain_ok) blast
  have first: "(case handlers_by_sig s sig of Some ids \<Rightarrow> call_plain ids s | None \<Rightarrow> ([], False, s)) = call_plain (map fst ?rs) s"
    using D(5) [rule_format, of sig] by (cases "handlers_by_sig s sig") auto
  define hs where "hs = iterate (id_to_handler s)"
  have hs: "map_of hs = map_of ?hs" "distinct (map fst hs)" using it D(4) finite_dom_map_of unfolding hs_def by metis+
  have eq: "mset hs = mset ?hs"
    by (rule set_eq_iff_mset_eq_distinct [THEN iffD1, OF distinct_map [THEN iffD1, THEN conjunct1, OF hs(2)]
          distinct_map [THEN iffD1, THEN conjunct1, OF ds]])
      (use map_of_inject_set [OF hs(2) ds] hs(1) in blast)
  then have "set hs = set ?hs" by (metis set_mset_mset)
  then have "\<forall>(i, h) \<in> set hs. h \<noteq> With_signal None" by (auto elim!: handler_of.elims)
  note c = call_with_signal_ok [OF this, of sig]
  let ?f = "\<lambda>(_ :: int, h). case h of With_signal (Some f) \<Rightarrow> [(f, Some sig)] | _ \<Rightarrow> []"
  have "mset (concat (map ?f hs)) = mset (concat (map ?f ?hs))" by (simp only: mset_concat_map eq)
  also have "concat (map ?f ?hs) = map (\<lambda>(_, _, f). (f, Some sig)) (filter (\<lambda>(_, g, _). g = None) regs)"
    by (induction regs) (auto split: option.splits elim!: handler_of.elims)
  finally show ?thesis using c p first by (simp add: OnSignal_def hs_def)
qed

section \<open>Properties\<close>

text \<open>
  C18. After any sequence of fewer than \<open>2 ^ 31\<close> registrations and removals, a signal calls the handlers that were
  registered for it and not removed, in the order of their registration, and then each handler for all signals once, with the
  number of the signal; no other function is called, no empty one, and the registrations stay as they are.
\<close>

theorem signal_dispatch:
  fixes cs :: "'f sig_op list"
  assumes "length cs < 2 ^ 31" and "\<forall>m. finite (dom m) \<longrightarrow> map_of (iterate m) = m \<and> distinct (map fst (iterate m))"
  shows "\<exists>s calls. sig_run cs Signal = Some s \<and>
    sig_handler iterate sig s =
      (map (\<lambda>(_, _, f). (f, None)) (filter (\<lambda>(_, g, _). g = Some sig) (registered cs 0 [])) @ calls, False, s) \<and>
    mset calls = mset (map (\<lambda>(_, _, f). (f, Some sig)) (filter (\<lambda>(_, g, _). g = None) (registered cs 0 [])))"
proof -
  have "handlers_ok (Signal :: 'f signal) []" "last_id (Signal :: 'f signal) = 0" by (simp_all add: handlers_ok_def Signal_def)
  then obtain s where s: "sig_run cs Signal = Some s" "handlers_ok s (registered cs 0 [])"
    using sig_run_ok [of Signal "[]" cs] assms(1) by auto
  from OnSignal_ok [OF s(2) assms(2), of sig] s(1) show ?thesis unfolding sig_handler_def by blast
qed

text \<open>An order of iteration: by the number.\<close>

definition by_number :: "(int \<Rightarrow> 'f handler option) \<Rightarrow> (int \<times> 'f handler) list" where
  "by_number m = map (\<lambda>i. (i, the (m i))) (sorted_list_of_set (dom m))"

lemma by_number_ok: "finite (dom m) \<Longrightarrow> map_of (by_number m) = m \<and> distinct (map fst (by_number m))"
  by (auto simp: by_number_def comp_def map_of_map_keys fun_eq_iff map_of_eq_None_iff dom_def
      split: option.splits intro!: map_of_is_SomeI)

theorem signal_dispatch_witness:
  "\<exists>s. sig_run [Op_register_sig 2 ''a'', Op_register ''b'', Op_register_sig 2 ''c'', Op_unregister 1] Signal = Some s \<and>
     sig_handler by_number 2 s = ([(''c'', None), (''b'', Some 2)], False, s)"
proof -
  let ?cs = "[Op_register_sig 2 ''a'', Op_register ''b'', Op_register_sig 2 ''c'', Op_unregister 1]"
  have "length ?cs < 2 ^ 31" by simp
  from signal_dispatch [OF this, of by_number 2] by_number_ok obtain s calls where
    "sig_run ?cs Signal = Some s" "sig_handler by_number 2 s = ([(''c'', None)] @ calls, False, s)" "mset calls = {#(''b'', Some 2)#}"
    by auto
  then show ?thesis by (auto simp: mset_single_iff)
qed

end
