(* ===== verification/Stealing_Executor.thy ===== *)
theory Stealing_Executor
  imports Signals
begin

text \<open>
  \<open>StealingExecutor.h\<close>: worker threads that take items from one queue, and the thread that owns the
  executor. Every access to an atomic variable, a lock or a condition variable is one step of a thread, and
  the threads take their steps in any order. The queue is given by its contents: \<open>push\<close> appends, \<open>steal\<close>
  takes the first item or fails, as the deque of the theory \<open>Stealing_Queue\<close> does under every interleaving. A worker's test for an empty queue
  reads two indices, so it may also answer that the queue is empty when it is not. The callbacks of subclasses have
  no effect on the executor apart from \<open>Callback_IsLimited\<close>, which is an argument.
\<close>

section \<open>State\<close>

type_synonym 'a item = "nat option \<times> 'a"

datatype thread = Owner | Worker nat

datatype 'a worker_pc =
  W_none | W_start | W_lock | W_enter | W_check | W_check_shutdown | W_wait | W_sleep | W_unlock | W_leave | W_exit
| W_first | W_got "'a item" | W_run bool u64 "'a item" | W_waiter nat bool u64 | W_limits u64 | W_pause u64 | W_limited u64 | W_steal u64 | W_done
| W_suspend | W_idle | W_notify | W_notify_spin | W_notify_work | W_notify_queue | W_teardown | W_gone

datatype 'a owner_pc =
  O_idle | O_spawn nat nat | O_spawn_wait nat
| O_resume_pause | O_resume_flag | O_resume_size | O_notify "nat option" "bool option"
| O_wait_flag bool | O_wait_size bool | O_wait_pause bool | O_wait_empty bool | O_wait_work bool | O_wait_sleep bool
| O_wait_done bool | O_wait_spin bool | O_wait_reset bool
| O_shut | O_shut_wait | O_shut_set | O_shut_init | O_shut_join | O_shut_reset
| O_submit_pause "(nat \<times> 'a list) option" | O_submit_count "(nat \<times> 'a list) option" | O_submit_lock "(nat \<times> 'a list) option"
| O_submit_notify "(nat \<times> 'a list) option"
| O_parallelize nat "'a list" | O_waiter nat
| O_purge

text \<open>The last four fields only serve the specification: the items submitted, finished and purged, and the initial counts of the
  wait groups.\<close>

record 'a exec =
  M_pause :: bool
  M_shutdown :: bool
  M_should_notify :: bool
  M_done_spinlock :: bool
  M_working_size :: u64
  M_waiting_size :: u64
  M_initialized_size :: u64
  M_threads :: nat
  M_queue :: "'a item list"
  wakeup_mutex :: "thread option"
  woken :: "nat \<Rightarrow> bool"
  owner_woken :: bool
  M_cancelled :: bool
  M_count :: "nat \<Rightarrow> u32"
  waiters :: nat
  cid :: "nat \<Rightarrow> nat"
  wpc :: "nat \<Rightarrow> 'a worker_pc"
  opc :: "'a owner_pc"
  submitted :: "'a item list"
  finished :: "(bool \<times> 'a item) list"
  purged :: "'a item list"
  initial_count :: "nat \<Rightarrow> u32"

definition StealingExecutor :: "'a exec" where
  "StealingExecutor = \<lparr>M_pause = False, M_shutdown = False, M_should_notify = True, M_done_spinlock = False, M_working_size = 0,
     M_waiting_size = 0, M_initialized_size = 0, M_threads = 0, M_queue = [], wakeup_mutex = None, woken = (\<lambda>_. False), owner_woken = False,
     M_cancelled = False, M_count = (\<lambda>_. 0), waiters = 0, cid = (\<lambda>_. 0), wpc = (\<lambda>_. W_none), opc = O_idle, submitted = [], finished = [],
     purged = [], initial_count = (\<lambda>_. 0)\<rparr>"

section \<open>Wait groups\<close>

definition WaitGroup :: "u32 \<Rightarrow> 'a exec \<Rightarrow> nat \<times> 'a exec" where
  "WaitGroup initialCount s =
     (waiters s, s\<lparr>M_count := (M_count s)(waiters s := initialCount), waiters := Suc (waiters s),
        initial_count := (initial_count s)(waiters s := initialCount)\<rparr>)"

definition add :: "nat \<Rightarrow> u32 \<Rightarrow> 'a exec \<Rightarrow> 'a exec" where
  "add w n s = s\<lparr>M_count := (M_count s)(w := M_count s w + n)\<rparr>"

text \<open>\<open>done\<close> asserts that the count, an \<open>int\<close>, is positive.\<close>

definition done_waiter :: "nat \<Rightarrow> 'a exec \<Rightarrow> (bool \<times> 'a exec) option" where
  "done_waiter w s =
     (if 0 < sint (M_count s w)
      then (let c = M_count s w - 1 in Some (c = 0, s\<lparr>M_count := (M_count s)(w := c)\<rparr>))
      else None)"

definition wait_over :: "nat \<Rightarrow> 'a exec \<Rightarrow> bool" where
  "wait_over w s \<longleftrightarrow> M_count s w = 0"

section \<open>Condition variables\<close>

definition sleepers :: "'a exec \<Rightarrow> nat list" where
  "sleepers s = filter (\<lambda>c. wpc s c = W_sleep \<and> \<not> woken s c) [0..<M_threads s]"

definition notify_all :: "'a exec \<Rightarrow> 'a exec" where
  "notify_all s = s\<lparr>woken := (\<lambda>c. woken s c \<or> c \<in> set (sleepers s))\<rparr>"

text \<open>\<open>notify_one\<close> wakes one of the sleeping threads, if there is one.\<close>

definition notify_one :: "nat \<Rightarrow> 'a exec \<Rightarrow> 'a exec option" where
  "notify_one c s =
     (if sleepers s = [] then Some s else if c \<in> set (sleepers s) then Some (s\<lparr>woken := (woken s)(c := True)\<rparr>) else None)"

definition notify_owner :: "'a exec \<Rightarrow> 'a exec" where
  "notify_owner s = (case opc s of O_wait_sleep _ \<Rightarrow> s\<lparr>owner_woken := True\<rparr> | _ \<Rightarrow> s)"

section \<open>Workers\<close>

definition go :: "nat \<Rightarrow> 'a worker_pc \<Rightarrow> 'a exec \<Rightarrow> 'a exec" where
  "go c p s = s\<lparr>wpc := (wpc s)(c := p)\<rparr>"

text \<open>\<open>Callback_Consume\<close> or \<open>Callback_Cleanup\<close> of an item; its wait group is told afterwards.\<close>

definition finish :: "nat \<Rightarrow> bool \<Rightarrow> u64 \<Rightarrow> 'a item \<Rightarrow> 'a exec \<Rightarrow> 'a exec" where
  "finish c first k x s =
     (let check = (\<not> first \<and> \<not> M_cancelled s);
          next_pc = (case fst x of Some w \<Rightarrow> W_waiter w check k | None \<Rightarrow> if check then W_limits k else W_steal k) in
      go c next_pc (s\<lparr>finished := finished s @ [(\<not> M_cancelled s, x)]\<rparr>))"

text \<open>\<open>lost\<close> says that a steal loses the race for the first item. \<open>max_steal_size\<close> is 10 and \<open>pause_check_mask\<close> is 3.\<close>

definition Callback_Execute :: "(nat \<Rightarrow> u64 \<Rightarrow> bool) \<Rightarrow> nat \<Rightarrow> bool \<Rightarrow> 'a exec \<Rightarrow> 'a exec option" where
  "Callback_Execute limited c lost s = (case wpc s c of
      W_first \<Rightarrow>
        (case M_queue s of
           x # q \<Rightarrow> if lost then Some (go c W_suspend s) else Some (go c (W_got x) (s\<lparr>M_queue := q\<rparr>))
         | [] \<Rightarrow> Some (go c W_suspend s))
    | W_got x \<Rightarrow> Some (go c (W_run True 1 x) (s\<lparr>M_working_size := M_working_size s + 1\<rparr>))
    | W_run first k x \<Rightarrow> Some (finish c first k x s)
    | W_waiter w check k \<Rightarrow> do {
        (_, s) \<leftarrow> done_waiter w s;
        Some (go c (if check then W_limits k else W_steal k) s)
      }
    | W_limits k \<Rightarrow>
        Some (go c (if 10 \<le> k then W_done else if k AND 3 = 0 then W_pause k else W_limited k) s)
    | W_pause k \<Rightarrow> Some (go c (if M_pause s then W_done else W_limited k) s)
    | W_limited k \<Rightarrow> Some (go c (if limited (cid s c) k then W_done else W_steal k) s)
    | W_steal k \<Rightarrow>
        (case M_queue s of
           x # q \<Rightarrow> if lost then Some (go c W_done s) else Some (go c (W_run False (k + 1) x) (s\<lparr>M_queue := q\<rparr>))
         | [] \<Rightarrow> Some (go c W_done s))
    | W_done \<Rightarrow> Some (go c W_suspend (s\<lparr>M_working_size := M_working_size s - 1\<rparr>))
    | _ \<Rightarrow> None)"

text \<open>\<open>luck\<close> stands for a stale test for an empty queue and for a spurious wakeup.\<close>

definition Consumer :: "nat \<Rightarrow> bool \<Rightarrow> 'a exec \<Rightarrow> 'a exec option" where
  "Consumer c luck s = (case wpc s c of
      W_start \<Rightarrow> Some (go c W_lock (s\<lparr>M_initialized_size := M_initialized_size s + 1\<rparr>))
    | W_lock \<Rightarrow> if wakeup_mutex s = None then Some (go c W_enter (s\<lparr>wakeup_mutex := Some (Worker c)\<rparr>)) else None
    | W_enter \<Rightarrow> Some (go c W_check (s\<lparr>M_waiting_size := M_waiting_size s + 1\<rparr>))
    | W_check \<Rightarrow> Some (go c (if M_queue s = [] \<or> luck then W_check_shutdown else W_unlock) s)
    | W_check_shutdown \<Rightarrow> Some (go c (if M_shutdown s then W_unlock else W_wait) s)
    | W_wait \<Rightarrow> Some (go c W_sleep (s\<lparr>wakeup_mutex := None, woken := (woken s)(c := False)\<rparr>))
    | W_sleep \<Rightarrow>
        if (woken s c \<or> luck) \<and> wakeup_mutex s = None
        then Some (go c W_check (s\<lparr>wakeup_mutex := Some (Worker c)\<rparr>)) else None
    | W_unlock \<Rightarrow> Some (go c W_leave (s\<lparr>wakeup_mutex := None\<rparr>))
    | W_leave \<Rightarrow> Some (go c W_exit (s\<lparr>M_waiting_size := M_waiting_size s - 1\<rparr>))
    | W_exit \<Rightarrow> Some (go c (if M_shutdown s then W_teardown else W_first) s)
    | W_suspend \<Rightarrow> Some (go c (if M_queue s = [] \<or> luck then W_idle else W_lock) s)
    | W_idle \<Rightarrow> Some (go c (if M_working_size s = 0 then W_notify else W_lock) s)
    | W_notify \<Rightarrow> Some (go c (if M_should_notify s then W_notify_spin else W_lock) s)
    | W_notify_spin \<Rightarrow> Some (go c (if \<not> M_done_spinlock s then W_notify_work else W_lock) s)
    | W_notify_work \<Rightarrow> Some (go c (if M_working_size s = 0 then W_notify_queue else W_lock) s)
    | W_notify_queue \<Rightarrow>
        if M_queue s = [] \<or> luck then Some (go c W_notify (notify_owner s)) else Some (go c W_lock s)
    | W_teardown \<Rightarrow> Some (go c W_gone (s\<lparr>M_initialized_size := M_initialized_size s - 1\<rparr>))
    | _ \<Rightarrow> None)"

section \<open>The owner\<close>

definition at_owner :: "'a owner_pc \<Rightarrow> 'a exec \<Rightarrow> 'a exec" where
  "at_owner p s = s\<lparr>opc := p\<rparr>"

definition push :: "'a item \<Rightarrow> 'a exec \<Rightarrow> 'a exec" where
  "push x s = s\<lparr>M_queue := M_queue s @ [x], submitted := submitted s @ [x]\<rparr>"

datatype 'a request =
  Spawn nat | Pause | Resume | WaitAll | Shutdown | Submit 'a | New_waiter u32 | Submit_waiter nat 'a | Wait nat | Parallelize "'a list" | Purge

text \<open>The start of a call, up to the first access that other threads can see. The lock of the owner is the empty one unless the executor
  is shared; only the owner submits.\<close>

fun call :: "'a request \<Rightarrow> 'a exec \<Rightarrow> 'a exec option" where
  "call (Spawn concurrency) s = Some (at_owner (O_spawn 0 concurrency) s)"
| "call Pause s = Some (s\<lparr>M_pause := True\<rparr>)"
| "call Resume s = Some (at_owner O_resume_pause s)"
| "call WaitAll s = Some (at_owner (O_wait_flag False) s)"
| "call Shutdown s = Some (at_owner O_shut s)"
| "call (Submit v) s = Some (at_owner (O_submit_pause None) (push (None, v) s))"
| "call (New_waiter n) s = Some (snd (WaitGroup n s))"
| "call (Submit_waiter w v) s =
     (if w < waiters s then Some (at_owner (O_submit_pause None) (push (Some w, v) (add w 1 s))) else None)"
| "call (Wait w) s = (if w < waiters s then Some (at_owner (O_waiter w) s) else None)"
| "call (Parallelize vs) s = (let (w, s) = WaitGroup 0 s in Some (at_owner (O_parallelize w vs) s))"
| "call Purge s = Some (at_owner O_purge s)"

definition spawn_worker :: "nat \<Rightarrow> 'a exec \<Rightarrow> 'a exec" where
  "spawn_worker i s = s\<lparr>M_threads := Suc (M_threads s), cid := (cid s)(M_threads s := i), wpc := (wpc s)(M_threads s := W_start)\<rparr>"

definition Spawn_step :: "'a exec \<Rightarrow> 'a exec option" where
  "Spawn_step s = (case opc s of
      O_spawn i concurrency \<Rightarrow>
        Some (if i < concurrency then at_owner (O_spawn (Suc i) concurrency) (spawn_worker i s) else at_owner (O_spawn_wait concurrency) s)
    | O_spawn_wait concurrency \<Rightarrow>
        if M_waiting_size s = of_nat concurrency then Some (at_owner O_resume_pause s) else None
    | _ \<Rightarrow> None)"

text \<open>\<open>O_notify\<close>: all threads, or so many times one; then the call returns, or \<open>WaitAll\<close> goes on.\<close>

definition notify_plan :: "'a exec \<Rightarrow> nat option" where
  "notify_plan s = (let wqsize = length (M_queue s) in if M_threads s \<le> wqsize then None else Some wqsize)"

definition Notify_step :: "nat \<Rightarrow> 'a exec \<Rightarrow> 'a exec option" where
  "Notify_step c s = (case opc s of
      O_notify None k \<Rightarrow> Some (at_owner (case k of None \<Rightarrow> O_idle | Some shut \<Rightarrow> O_wait_pause shut) (notify_all s))
    | O_notify (Some 0) k \<Rightarrow> Some (at_owner (case k of None \<Rightarrow> O_idle | Some shut \<Rightarrow> O_wait_pause shut) s)
    | O_notify (Some (Suc n)) k \<Rightarrow> map_option (at_owner (O_notify (Some n) k)) (notify_one c s)
    | _ \<Rightarrow> None)"

definition Resume_step :: "'a exec \<Rightarrow> 'a exec option" where
  "Resume_step s = (case opc s of
      O_resume_pause \<Rightarrow> Some (at_owner O_resume_flag (s\<lparr>M_pause := False\<rparr>))
    | O_resume_flag \<Rightarrow> Some (at_owner O_resume_size (s\<lparr>M_should_notify := False\<rparr>))
    | O_resume_size \<Rightarrow> Some (at_owner (O_notify (notify_plan s) None) s)
    | _ \<Rightarrow> None)"

text \<open>No other thread takes \<open>M_suspend_mutex\<close>. The argument of the program points says whether \<open>Shutdown\<close> has called.\<close>

definition WaitAll_step :: "bool \<Rightarrow> 'a exec \<Rightarrow> 'a exec option" where
  "WaitAll_step luck s = (case opc s of
      O_wait_flag shut \<Rightarrow> Some (at_owner (O_wait_size shut) (s\<lparr>M_should_notify := True\<rparr>))
    | O_wait_size shut \<Rightarrow> Some (at_owner (O_notify (notify_plan s) (Some shut)) s)
    | O_wait_pause shut \<Rightarrow> Some (at_owner (if M_pause s then O_wait_work shut else O_wait_empty shut) s)
    | O_wait_empty shut \<Rightarrow>
        Some (if M_queue s \<noteq> [] then at_owner (O_wait_sleep shut) (s\<lparr>owner_woken := False\<rparr>) else at_owner (O_wait_work shut) s)
    | O_wait_work shut \<Rightarrow>
        Some (if M_working_size s \<noteq> 0 then at_owner (O_wait_sleep shut) (s\<lparr>owner_woken := False\<rparr>) else at_owner (O_wait_done shut) s)
    | O_wait_sleep shut \<Rightarrow> if owner_woken s \<or> luck then Some (at_owner (O_wait_pause shut) s) else None
    | O_wait_done shut \<Rightarrow> Some (at_owner (O_wait_spin shut) (s\<lparr>M_done_spinlock := True\<rparr>))
    | O_wait_spin shut \<Rightarrow> if M_waiting_size s = of_nat (M_threads s) then Some (at_owner (O_wait_reset shut) s) else None
    | O_wait_reset shut \<Rightarrow> Some (at_owner (if shut then O_shut_wait else O_idle) (s\<lparr>M_done_spinlock := False\<rparr>))
    | _ \<Rightarrow> None)"

definition Shutdown_step :: "'a exec \<Rightarrow> 'a exec option" where
  "Shutdown_step s = (case opc s of
      O_shut \<Rightarrow> Some (at_owner (if M_shutdown s then O_idle else O_wait_flag True) s)
    | O_shut_wait \<Rightarrow> if M_waiting_size s = of_nat (M_threads s) then Some (at_owner O_shut_set s) else None
    | O_shut_set \<Rightarrow> Some (at_owner O_shut_init (s\<lparr>M_shutdown := True\<rparr>))
    | O_shut_init \<Rightarrow> Some (if M_initialized_size s \<noteq> 0 then notify_all s else at_owner O_shut_join s)
    | O_shut_join \<Rightarrow>
        if list_all (\<lambda>c. wpc s c = W_gone) [0..<M_threads s]
        then Some (at_owner O_shut_reset (s\<lparr>M_threads := 0, wpc := (\<lambda>_. W_none)\<rparr>)) else None
    | O_shut_reset \<Rightarrow> Some (at_owner O_idle (s\<lparr>M_shutdown := False\<rparr>))
    | _ \<Rightarrow> None)"

text \<open>The end of \<open>Submit\<close>; \<open>Parallelize\<close> goes on with the rest of its values. \<open>M_min_active_consumer\<close> is 3.\<close>

definition submitted_pc :: "(nat \<times> 'a list) option \<Rightarrow> 'a owner_pc" where
  "submitted_pc rest = (case rest of None \<Rightarrow> O_idle | Some (w, vs) \<Rightarrow> O_parallelize w vs)"

definition Submit_step :: "nat \<Rightarrow> 'a exec \<Rightarrow> 'a exec option" where
  "Submit_step c s = (case opc s of
      O_submit_pause rest \<Rightarrow> Some (at_owner (if M_pause s then submitted_pc rest else O_submit_count rest) s)
    | O_submit_count rest \<Rightarrow>
        Some (at_owner (if of_nat (M_threads s) - M_waiting_size s \<le> 3 then O_submit_lock rest else submitted_pc rest) s)
    | O_submit_lock rest \<Rightarrow>
        if wakeup_mutex s = None then Some (at_owner (O_submit_notify rest) (s\<lparr>wakeup_mutex := Some Owner\<rparr>)) else None
    | O_submit_notify rest \<Rightarrow>
        map_option (\<lambda>s. at_owner (submitted_pc rest) (s\<lparr>wakeup_mutex := None\<rparr>)) (notify_one c s)
    | _ \<Rightarrow> None)"

definition Parallelize_step :: "'a exec \<Rightarrow> 'a exec option" where
  "Parallelize_step s = (case opc s of
      O_parallelize w (v # vs) \<Rightarrow> Some (at_owner (O_submit_pause (Some (w, vs))) (push (Some w, v) (add w 1 s)))
    | O_parallelize w [] \<Rightarrow> Some (at_owner (O_waiter w) s)
    | O_waiter w \<Rightarrow> if wait_over w s then Some (at_owner O_idle s) else None
    | _ \<Rightarrow> None)"

definition Purge_step :: "'a exec \<Rightarrow> 'a exec option" where
  "Purge_step s = (case opc s of
      O_purge \<Rightarrow>
        Some (if M_queue s = [] then at_owner O_idle s
              else s\<lparr>M_queue := butlast (M_queue s), purged := purged s @ [last (M_queue s)]\<rparr>)
    | _ \<Rightarrow> None)"

definition IsEmpty :: "'a exec \<Rightarrow> bool" where
  "IsEmpty s \<longleftrightarrow> M_queue s = [] \<and> M_working_size s = 0"

definition QueueSize :: "'a exec \<Rightarrow> nat" where
  "QueueSize s = length (M_queue s)"

section \<open>Cancellation by a signal\<close>

record controller =
  M_sigid :: int
  controller_cancelled :: bool

definition Controller :: controller where
  "Controller = \<lparr>M_sigid = - 1, controller_cancelled = False\<rparr>"

text \<open>The handler that is registered sets \<open>M_cancelled\<close>. \<open>install\<close> is the result of \<open>Signal::Install(SIGINT)\<close>.\<close>

definition unregister_sigid :: "controller \<Rightarrow> 'f signal \<Rightarrow> controller \<times> 'f signal" where
  "unregister_sigid k sg = (if 0 \<le> M_sigid k then (k\<lparr>M_sigid := - 1\<rparr>, snd (Unregister (M_sigid k) sg)) else (k, sg))"

definition Controller_dtor :: "controller \<Rightarrow> 'f signal \<Rightarrow> controller \<times> 'f signal" where
  "Controller_dtor k sg = unregister_sigid k sg"

definition Cancellable :: "int \<Rightarrow> 'f \<Rightarrow> controller \<Rightarrow> 'f signal \<Rightarrow> (bool \<times> controller \<times> 'f signal) option" where
  "Cancellable install handler k sg =
     (let (k, sg) = unregister_sigid k sg in do {
        (hid, sg) \<leftarrow> Register_sig 2 (Some handler) sg;
        Some (install = 0, k\<lparr>M_sigid := hid\<rparr>, sg) })"

section \<open>All threads\<close>

datatype 'a event = Work nat bool | Consume nat bool | Call "'a request" | Own nat bool | Cancel

primrec first_some :: "'a option list \<Rightarrow> 'a option" where
  "first_some [] = None"
| "first_some (r # rs) = (case r of Some x \<Rightarrow> Some x | None \<Rightarrow> first_some rs)"

definition owner_step :: "nat \<Rightarrow> bool \<Rightarrow> 'a exec \<Rightarrow> 'a exec option" where
  "owner_step c luck s = first_some
     [Spawn_step s, Notify_step c s, Resume_step s, WaitAll_step luck s, Shutdown_step s, Submit_step c s, Parallelize_step s, Purge_step s]"

fun happens :: "(nat \<Rightarrow> u64 \<Rightarrow> bool) \<Rightarrow> 'a event \<Rightarrow> 'a exec \<Rightarrow> 'a exec option" where
  "happens limited (Work c lost) s = (if c < M_threads s then Callback_Execute limited c lost s else None)"
| "happens limited (Consume c luck) s = (if c < M_threads s then Consumer c luck s else None)"
| "happens limited (Call f) s = (if opc s = O_idle then call f s else None)"
| "happens limited (Own c luck) s = owner_step c luck s"
| "happens limited Cancel s = Some (s\<lparr>M_cancelled := True\<rparr>)"

definition exec_step :: "(nat \<Rightarrow> u64 \<Rightarrow> bool) \<Rightarrow> 'a exec \<Rightarrow> 'a exec \<Rightarrow> bool" where
  "exec_step limited s s' \<longleftrightarrow> (\<exists>e. happens limited e s = Some s')"

end
