(* ===== verification/Executor_Safety.thy ===== *)
theory Executor_Safety
  imports Stealing_Executor
begin

text \<open>
  What holds of the executor in every order of the steps of its threads: the three counters are exact, no item is lost or
  taken twice, and a wait group counts the items that are not finished. From this follows what a caller of \<open>WaitAll\<close> and of
  \<open>Parallelize\<close> relies on.
\<close>

section \<open>The invariant\<close>

fun hand :: "'a worker_pc \<Rightarrow> 'a item multiset" where
  "hand (W_got x) = {#x#}"
| "hand (W_run first k x) = {#x#}"
| "hand _ = {#}"

fun owes :: "'a worker_pc \<Rightarrow> nat option multiset" where
  "owes (W_waiter w check k) = {#Some w#}"
| "owes _ = {#}"

fun is_working :: "'a worker_pc \<Rightarrow> bool" where
  "is_working (W_run first k x) = True"
| "is_working (W_waiter w check k) = True"
| "is_working (W_limits k) = True"
| "is_working (W_pause k) = True"
| "is_working (W_limited k) = True"
| "is_working (W_steal k) = True"
| "is_working W_done = True"
| "is_working _ = False"

definition is_waiting :: "'a worker_pc \<Rightarrow> bool" where
  "is_waiting p \<longleftrightarrow> p = W_check \<or> p = W_check_shutdown \<or> p = W_wait \<or> p = W_sleep \<or> p = W_unlock \<or> p = W_leave"

definition is_live :: "'a worker_pc \<Rightarrow> bool" where
  "is_live p \<longleftrightarrow> p \<noteq> W_none \<and> p \<noteq> W_start \<and> p \<noteq> W_gone"

definition hands :: "'a exec \<Rightarrow> 'a item multiset" where
  "hands s = (\<Sum>c<M_threads s. hand (wpc s c))"

text \<open>What every wait group still waits for.\<close>

definition pending :: "'a exec \<Rightarrow> nat option multiset" where
  "pending s = image_mset fst (mset (M_queue s) + mset (purged s)) + (\<Sum>c<M_threads s. image_mset fst (hand (wpc s c)) + owes (wpc s c))"

definition counters_ok :: "'a exec \<Rightarrow> bool" where
  "counters_ok s \<longleftrightarrow>
     M_working_size s = (\<Sum>c<M_threads s. of_bool (is_working (wpc s c))) \<and>
     M_waiting_size s = (\<Sum>c<M_threads s. of_bool (is_waiting (wpc s c))) \<and>
     M_initialized_size s = (\<Sum>c<M_threads s. of_bool (is_live (wpc s c)))"

definition items_ok :: "'a exec \<Rightarrow> bool" where
  "items_ok s \<longleftrightarrow> mset (submitted s) = mset (M_queue s) + hands s + mset (map snd (finished s)) + mset (purged s)"

definition waiters_ok :: "'a exec \<Rightarrow> bool" where
  "waiters_ok s \<longleftrightarrow> (\<forall>w. M_count s w = initial_count s w + of_nat (Multiset.count (pending s) (Some w))) \<and>
     (\<forall>w. Some w \<in># pending s \<longrightarrow> w < waiters s)"

fun owner_waiter :: "'a owner_pc \<Rightarrow> nat option" where
  "owner_waiter (O_parallelize w vs) = Some w"
| "owner_waiter (O_submit_pause rest) = map_option fst rest"
| "owner_waiter (O_submit_count rest) = map_option fst rest"
| "owner_waiter (O_submit_lock rest) = map_option fst rest"
| "owner_waiter (O_submit_notify rest) = map_option fst rest"
| "owner_waiter _ = None"

text \<open>The owner has seen the queue empty, and later every worker waiting.\<close>

fun saw_empty :: "'a owner_pc \<Rightarrow> bool" where
  "saw_empty (O_wait_work shut) = True"
| "saw_empty (O_wait_done shut) = True"
| "saw_empty (O_wait_spin shut) = True"
| "saw_empty (O_wait_reset shut) = True"
| "saw_empty _ = False"

fun saw_waiting :: "'a owner_pc \<Rightarrow> bool" where
  "saw_waiting (O_wait_reset shut) = True"
| "saw_waiting _ = False"

definition owner_ok :: "'a exec \<Rightarrow> bool" where
  "owner_ok s \<longleftrightarrow> (\<forall>w. owner_waiter (opc s) = Some w \<longrightarrow> w < waiters s) \<and>
     (saw_empty (opc s) \<and> \<not> M_pause s \<longrightarrow> M_queue s = []) \<and>
     (saw_waiting (opc s) \<and> \<not> M_pause s \<and> M_threads s < 2 ^ 64 \<longrightarrow> (\<forall>c < M_threads s. hand (wpc s c) = {#}))"

definition exec_inv :: "'a exec \<Rightarrow> bool" where
  "exec_inv s \<longleftrightarrow> counters_ok s \<and> items_ok s \<and> waiters_ok s \<and> owner_ok s"

section \<open>Sums over the workers\<close>

lemma sum_worker:
  fixes f :: "'b \<Rightarrow> 'c::comm_monoid_add" and n :: nat
  assumes "c < n"
  shows "(\<Sum>i<n. f ((g(c := p)) i)) + f (g c) = (\<Sum>i<n. f (g i)) + f p"
proof -
  have "(\<Sum>i<n. f ((g(c := p)) i)) = f p + (\<Sum>i \<in> {..<n} - {c}. f (g i))"
    using assms by (subst sum.remove [of _ c]) auto
  moreover have "(\<Sum>i<n. f (g i)) = f (g c) + (\<Sum>i \<in> {..<n} - {c}. f (g i))"
    using assms by (subst sum.remove [of _ c]) auto
  ultimately show ?thesis by (simp add: ac_simps)
qed

lemma sum_of_bool_all:
  assumes "(\<Sum>c<n. of_bool (P c)) = (of_nat n :: u64)" and "n < 2 ^ 64" and "c < n"
  shows "P c"
proof -
  have "(\<Sum>c<n. of_bool (P c)) = (of_nat (card {c. c < n \<and> P c}) :: u64)"
    by (simp add: Int_def lessThan_def)
  then have "unat (of_nat (card {c. c < n \<and> P c}) :: u64) = unat (of_nat n :: u64)" using assms(1) by simp
  moreover have le: "card {c. c < n \<and> P c} \<le> n" using card_mono [of "{..<n}" "{c. c < n \<and> P c}"] by auto
  ultimately have "card {c. c < n \<and> P c} = card {..<n}" using assms(2) by (simp add: unsigned_of_nat take_bit_nat_eq_self)
  then have "{c. c < n \<and> P c} = {..<n}" by (intro card_subset_eq) auto
  then show ?thesis using assms(3) by blast
qed

lemma counter_worker:
  fixes m m' :: u64 and n :: nat
  assumes "c < n" and "m = (\<Sum>i<n. of_bool (P (g i)))" and "m' + of_bool (P (g c)) = m + of_bool (P p)"
  shows "m' = (\<Sum>i<n. of_bool (P ((g(c := p)) i)))"
proof -
  have "m' + of_bool (P (g c)) = (\<Sum>i<n. of_bool (P ((g(c := p)) i))) + of_bool (P (g c))"
    using sum_worker [OF assms(1), of "\<lambda>p. of_bool (P p)" g p] assms(2,3) by metis
  then show ?thesis by (rule add_right_imp_eq)
qed

section \<open>Steps of a worker\<close>

lemma waiting_hand: "is_waiting p \<Longrightarrow> hand p = {#}"
  by (auto simp: is_waiting_def)

lemma saw_waiting_empty: "saw_waiting p \<Longrightarrow> saw_empty p"
  by (cases p) auto

text \<open>A step of worker \<open>c\<close> to the point \<open>p\<close> balances the counters, the items and the wait groups.\<close>

lemma worker_inv:
  assumes I: "exec_inv s" and c: "c < M_threads s" and "M_threads s' = M_threads s" and "wpc s' = (wpc s)(c := p)"
    and "submitted s' = submitted s" and "initial_count s' = initial_count s" and "waiters s' = waiters s" and "opc s' = opc s"
    and "M_pause s' = M_pause s" and "purged s' = purged s"
    and w: "M_working_size s' + of_bool (is_working (wpc s c)) = M_working_size s + of_bool (is_working p)"
    and v: "M_waiting_size s' + of_bool (is_waiting (wpc s c)) = M_waiting_size s + of_bool (is_waiting p)"
    and l: "M_initialized_size s' + of_bool (is_live (wpc s c)) = M_initialized_size s + of_bool (is_live p)"
    and x: "mset (M_queue s') + hand p + mset (map snd (finished s')) = mset (M_queue s) + hand (wpc s c) + mset (map snd (finished s))"
    and k: "\<And>u. M_count s' u + of_nat (Multiset.count (image_mset fst (mset (M_queue s) + hand (wpc s c)) + owes (wpc s c)) (Some u)) =
        M_count s u + of_nat (Multiset.count (image_mset fst (mset (M_queue s') + hand p) + owes p) (Some u))"
    and y: "image_mset fst (mset (M_queue s') + hand p) + owes p \<subseteq># image_mset fst (mset (M_queue s) + hand (wpc s c)) + owes (wpc s c)"
    and q: "M_queue s = [] \<Longrightarrow> M_queue s' = [] \<and> hand p \<subseteq># hand (wpc s c)"
  shows "exec_inv s'"
proof -
  note same = assms(3-10)
  have cs: "counters_ok s" and its: "items_ok s" and ws: "waiters_ok s" and os: "owner_ok s" using I by (simp_all add: exec_inv_def)
  have "counters_ok s'"
    unfolding counters_ok_def same(1,2)
  proof (intro conjI)
    show "M_working_size s' = (\<Sum>i<M_threads s. of_bool (is_working (((wpc s)(c := p)) i)))"
      by (rule counter_worker [where P = is_working and g = "wpc s" and p = p, OF c _ w]) (use cs in \<open>simp only: counters_ok_def\<close>)
    show "M_waiting_size s' = (\<Sum>i<M_threads s. of_bool (is_waiting (((wpc s)(c := p)) i)))"
      by (rule counter_worker [where P = is_waiting and g = "wpc s" and p = p, OF c _ v]) (use cs in \<open>simp only: counters_ok_def\<close>)
    show "M_initialized_size s' = (\<Sum>i<M_threads s. of_bool (is_live (((wpc s)(c := p)) i)))"
      by (rule counter_worker [where P = is_live and g = "wpc s" and p = p, OF c _ l]) (use cs in \<open>simp only: counters_ok_def\<close>)
  qed
  moreover have h: "hands s' + hand (wpc s c) = hands s + hand p"
    unfolding hands_def same(1,2) by (rule sum_worker [OF c])
  have "items_ok s'"
  proof -
    have "mset (submitted s') + hand (wpc s c) + hand p = mset (M_queue s) + hands s + mset (map snd (finished s)) + mset (purged s) + hand (wpc s c) + hand p"
      using its unfolding items_ok_def same(3) by simp
    also have "\<dots> = (mset (M_queue s) + hand (wpc s c) + mset (map snd (finished s))) + (hands s + hand p) + mset (purged s)" by (simp add: ac_simps)
    also have "\<dots> = mset (M_queue s') + hands s' + mset (map snd (finished s')) + mset (purged s') + hand (wpc s c) + hand p"
      unfolding x [symmetric] h [symmetric] same(8) by (simp add: ac_simps)
    finally show ?thesis by (simp add: items_ok_def)
  qed
  moreover have pend: "pending s' + (image_mset fst (mset (M_queue s) + hand (wpc s c)) + owes (wpc s c)) =
      pending s + (image_mset fst (mset (M_queue s') + hand p) + owes p)"
    using sum_worker [OF c, of "\<lambda>p. image_mset fst (hand p) + owes p" "wpc s" p] unfolding pending_def same(1,2,8)
    by (simp add: ac_simps)
  have "waiters_ok s'"
    unfolding waiters_ok_def
  proof (intro conjI allI impI)
    fix u
    let ?old = "image_mset fst (mset (M_queue s) + hand (wpc s c)) + owes (wpc s c)"
    let ?new = "image_mset fst (mset (M_queue s') + hand p) + owes p"
    have e: "Multiset.count (pending s') (Some u) + Multiset.count ?old (Some u) = Multiset.count (pending s) (Some u) + Multiset.count ?new (Some u)"
      using arg_cong [OF pend, of "\<lambda>M. Multiset.count M (Some u)"] by (simp only: count_union)
    have "M_count s' u + of_nat (Multiset.count ?old (Some u)) = initial_count s u + of_nat (Multiset.count (pending s) (Some u) + Multiset.count ?new (Some u))"
      using k [of u] ws unfolding waiters_ok_def by (simp add: algebra_simps)
    then show "M_count s' u = initial_count s' u + of_nat (Multiset.count (pending s') (Some u))"
      unfolding e [symmetric] same(4) by (simp add: algebra_simps)
  next
    fix u
    assume "Some u \<in># pending s'"
    moreover have "pending s' \<subseteq># pending s" using pend y by (metis mset_subset_eq_add_right mset_subset_eq_mono_add_right_cancel subset_mset.add_le_cancel_left add.commute subset_mset.add_left_mono)
    ultimately show "u < waiters s'" using ws same(5) unfolding waiters_ok_def by (metis mset_subset_eqD)
  qed
  moreover have "owner_ok s'"
    using os q saw_waiting_empty unfolding owner_ok_def same(1,2,5-7) by (auto simp: fun_upd_def)
  ultimately show ?thesis by (simp add: exec_inv_def)
qed

lemmas go_simps = go_def is_waiting_def is_live_def

lemma notify_owner_frame [simp]:
  "M_threads (notify_owner s) = M_threads s" "wpc (notify_owner s) = wpc s" "submitted (notify_owner s) = submitted s"
  "initial_count (notify_owner s) = initial_count s" "waiters (notify_owner s) = waiters s" "opc (notify_owner s) = opc s"
  "M_pause (notify_owner s) = M_pause s" "purged (notify_owner s) = purged s" "M_working_size (notify_owner s) = M_working_size s"
  "M_waiting_size (notify_owner s) = M_waiting_size s" "M_initialized_size (notify_owner s) = M_initialized_size s"
  "M_queue (notify_owner s) = M_queue s" "finished (notify_owner s) = finished s" "M_count (notify_owner s) = M_count s"
  by (cases "opc s"; simp add: notify_owner_def)+

lemma Consumer_inv:
  assumes I: "exec_inv s" and c: "c < M_threads s" and r: "Consumer c luck s = Some s'"
  shows "exec_inv s'"
  by (cases "wpc s c"; rule worker_inv [OF I c, where p = "wpc s' c"]; insert r; auto simp: Consumer_def go_simps split: if_splits)

lemma Callback_Execute_inv:
  assumes I: "exec_inv s" and c: "c < M_threads s" and r: "Callback_Execute limited c lost s = Some s'"
  shows "exec_inv s'"
proof (cases "wpc s c")
  case W_first
  then have "s' = go c W_suspend s \<or> (\<exists>x q. M_queue s = x # q \<and> s' = go c (W_got x) (s\<lparr>M_queue := q\<rparr>))"
    using r by (auto simp: Callback_Execute_def split: list.splits if_splits)
  then show ?thesis
  proof (elim disjE exE conjE)
    assume s': "s' = go c W_suspend s"
    show ?thesis unfolding s' by (rule worker_inv [OF I c, where p = W_suspend]) (use W_first in \<open>auto simp: go_simps\<close>)
  next
    fix x q
    assume q: "M_queue s = x # q" and s': "s' = go c (W_got x) (s\<lparr>M_queue := q\<rparr>)"
    show ?thesis unfolding s' by (rule worker_inv [OF I c, where p = "W_got x"]) (use W_first q in \<open>auto simp: go_simps\<close>)
  qed
next
  case (W_steal k)
  then have "s' = go c W_done s \<or> (\<exists>x q. M_queue s = x # q \<and> s' = go c (W_run False (k + 1) x) (s\<lparr>M_queue := q\<rparr>))"
    using r by (auto simp: Callback_Execute_def split: list.splits if_splits)
  then show ?thesis
  proof (elim disjE exE conjE)
    assume s': "s' = go c W_done s"
    show ?thesis unfolding s' by (rule worker_inv [OF I c, where p = W_done]) (use W_steal in \<open>auto simp: go_simps\<close>)
  next
    fix x q
    assume q: "M_queue s = x # q" and s': "s' = go c (W_run False (k + 1) x) (s\<lparr>M_queue := q\<rparr>)"
    show ?thesis unfolding s' by (rule worker_inv [OF I c, where p = "W_run False (k + 1) x"]) (use W_steal q in \<open>auto simp: go_simps\<close>)
  qed
next
  case (W_run first k x)
  let ?p = "case fst x of Some w \<Rightarrow> W_waiter w (\<not> first \<and> \<not> M_cancelled s) k | None \<Rightarrow> if \<not> first \<and> \<not> M_cancelled s then W_limits k else W_steal k"
  have s': "s' = go c ?p (s\<lparr>finished := finished s @ [(\<not> M_cancelled s, x)]\<rparr>)"
    using r W_run by (simp add: Callback_Execute_def finish_def Let_def)
  show ?thesis unfolding s' by (rule worker_inv [OF I c, where p = ?p]) (use W_run in \<open>cases "fst x"; auto simp: go_simps\<close>)+
next
  case (W_waiter w check k)
  then have s': "s' = go c (if check then W_limits k else W_steal k) (s\<lparr>M_count := (M_count s)(w := M_count s w - 1)\<rparr>)"
    using r by (auto simp: Callback_Execute_def done_waiter_def Let_def split: if_splits)
  show ?thesis unfolding s'
    by (rule worker_inv [OF I c, where p = "if check then W_limits k else W_steal k"]) (use W_waiter in \<open>auto simp: go_simps\<close>)
qed (intro worker_inv [OF I c, where p = "wpc s' c"]; insert r; auto simp: Callback_Execute_def go_simps split: if_splits)+

section \<open>Steps of the owner\<close>

text \<open>Most of them change neither the workers nor the items.\<close>

definition same_work :: "'a exec \<Rightarrow> 'a exec \<Rightarrow> bool" where
  "same_work s s' \<longleftrightarrow> M_working_size s' = M_working_size s \<and> M_waiting_size s' = M_waiting_size s \<and> M_initialized_size s' = M_initialized_size s \<and>
     M_threads s' = M_threads s \<and> wpc s' = wpc s \<and> submitted s' = submitted s \<and> finished s' = finished s \<and> purged s' = purged s \<and>
     M_queue s' = M_queue s \<and> M_count s' = M_count s \<and> initial_count s' = initial_count s \<and> waiters s' = waiters s"

lemma same_work_inv:
  assumes "exec_inv s" and "same_work s s'" and "owner_ok s \<Longrightarrow> owner_ok s'"
  shows "exec_inv s'"
  using assms by (simp add: exec_inv_def same_work_def counters_ok_def items_ok_def waiters_ok_def hands_def pending_def)

lemma notify_all_same: "same_work s (notify_all s)" "opc (notify_all s) = opc s" "M_pause (notify_all s) = M_pause s"
  by (simp_all add: notify_all_def same_work_def)

lemma notify_one_same: "notify_one c s = Some s' \<Longrightarrow> \<exists>f. s' = s\<lparr>woken := f\<rparr>"
  by (auto simp: notify_one_def split: if_splits intro: exI [of _ "woken s"])

lemma Notify_step_inv: "exec_inv s \<Longrightarrow> Notify_step c s = Some s' \<Longrightarrow> exec_inv s'"
  by (rule same_work_inv [of s]; cases "opc s")
    (auto simp: Notify_step_def at_owner_def owner_ok_def same_work_def notify_all_def dest!: notify_one_same split: option.splits nat.splits)

lemma Resume_step_inv: "exec_inv s \<Longrightarrow> Resume_step s = Some s' \<Longrightarrow> exec_inv s'"
  by (rule same_work_inv [of s]; cases "opc s") (auto simp: Resume_step_def at_owner_def owner_ok_def same_work_def)

lemma Submit_step_inv: "exec_inv s \<Longrightarrow> Submit_step c s = Some s' \<Longrightarrow> exec_inv s'"
  by (rule same_work_inv [of s]; cases "opc s")
    (auto simp: Submit_step_def at_owner_def owner_ok_def same_work_def submitted_pc_def dest!: notify_one_same split: option.splits if_splits)

lemma WaitAll_step_inv:
  assumes I: "exec_inv s" and r: "WaitAll_step luck s = Some s'"
  shows "exec_inv s'"
proof (cases "opc s")
  case (O_wait_spin shut)
  have a: "M_waiting_size s = (\<Sum>c<M_threads s. of_bool (is_waiting (wpc s c)))" using I by (simp only: exec_inv_def counters_ok_def)
  have m: "M_waiting_size s = of_nat (M_threads s)" using r O_wait_spin by (auto simp: WaitAll_step_def split: if_splits)
  have "is_waiting (wpc s c)" if "M_threads s < 2 ^ 64" "c < M_threads s" for c by (rule sum_of_bool_all [OF trans [OF a [symmetric] m] that])
  then have "hand (wpc s c) = {#}" if "M_threads s < 2 ^ 64" "c < M_threads s" for c using that waiting_hand by blast
  then show ?thesis using r O_wait_spin m
    by (intro same_work_inv [OF I]) (auto simp: WaitAll_step_def at_owner_def owner_ok_def same_work_def)
qed (rule same_work_inv [OF I]; insert r; auto simp: WaitAll_step_def at_owner_def owner_ok_def same_work_def split: if_splits)+

lemma Spawn_step_inv:
  assumes I: "exec_inv s" and r: "Spawn_step s = Some s'"
  shows "exec_inv s'"
proof -
  have "exec_inv (at_owner (O_spawn (Suc i) n) (spawn_worker j s))" for i n j
  proof -
    have z: "hand W_start = {#}" "owes W_start = {#}" "\<not> is_working W_start" "\<not> is_waiting W_start" "\<not> is_live W_start"
      by (simp_all add: is_waiting_def is_live_def)
    have e: "(\<Sum>c<Suc (M_threads s). f (((wpc s)(M_threads s := W_start)) c)) = (\<Sum>c<M_threads s. f (wpc s c)) + f W_start"
      for f :: "'a worker_pc \<Rightarrow> 'c::comm_monoid_add"
      by (simp add: sum.lessThan_Suc)
    note sums = e [of "\<lambda>p. of_bool (is_working p) :: u64"] e [of "\<lambda>p. of_bool (is_waiting p) :: u64"] e [of "\<lambda>p. of_bool (is_live p) :: u64"]
      e [of hand] e [of "\<lambda>p. image_mset fst (hand p) + owes p"]
    show ?thesis using I unfolding exec_inv_def counters_ok_def items_ok_def waiters_ok_def hands_def pending_def owner_ok_def
      by (simp add: at_owner_def spawn_worker_def sums z del: sum.lessThan_Suc sum_of_bool_eq fun_upd_apply)
  qed
  moreover have "exec_inv (at_owner p s)" if "\<not> saw_empty p" "owner_waiter p = None" for p
    by (rule same_work_inv [OF I]) (use that saw_waiting_empty in \<open>auto simp: same_work_def at_owner_def owner_ok_def\<close>)
  ultimately show ?thesis using r by (cases "opc s") (auto simp: Spawn_step_def split: if_splits)
qed

lemma Shutdown_step_inv:
  assumes I: "exec_inv s" and r: "Shutdown_step s = Some s'"
  shows "exec_inv s'"
proof (cases "opc s")
  case O_shut_join
  then have gone: "\<forall>c < M_threads s. wpc s c = W_gone" and s': "s' = at_owner O_shut_reset (s\<lparr>M_threads := 0, wpc := (\<lambda>_. W_none)\<rparr>)"
    using r by (auto simp: Shutdown_step_def list_all_iff split: if_splits)
  have z: "(\<Sum>c<M_threads s. f (wpc s c)) = 0" if "f W_gone = 0" for f :: "'a worker_pc \<Rightarrow> 'c::comm_monoid_add"
    using gone that by (intro sum.neutral) auto
  have "(\<Sum>c<M_threads s. of_bool (is_working (wpc s c))) = (0 :: u64)" "(\<Sum>c<M_threads s. of_bool (is_waiting (wpc s c))) = (0 :: u64)"
    "(\<Sum>c<M_threads s. of_bool (is_live (wpc s c))) = (0 :: u64)" "hands s = {#}"
    "(\<Sum>c<M_threads s. image_mset fst (hand (wpc s c)) + owes (wpc s c)) = {#}"
    unfolding hands_def by (rule z; simp add: is_waiting_def is_live_def)+
  then show ?thesis using I unfolding s' exec_inv_def counters_ok_def items_ok_def waiters_ok_def pending_def owner_ok_def
    by (simp add: at_owner_def hands_def del: sum_of_bool_eq)
qed (rule same_work_inv [OF I]; insert r; auto simp: Shutdown_step_def at_owner_def owner_ok_def same_work_def notify_all_def split: if_splits)+

text \<open>A new item.\<close>

lemma push_inv:
  assumes I: "exec_inv s" and x: "x = (None, v) \<and> s1 = s \<or> (\<exists>w < waiters s. x = (Some w, v) \<and> s1 = add w 1 s)"
    and p: "\<not> saw_empty p" "\<And>u. owner_waiter p = Some u \<Longrightarrow> u < waiters s"
  shows "exec_inv (at_owner p (push x s1))"
proof -
  have f: "M_working_size s1 = M_working_size s" "M_waiting_size s1 = M_waiting_size s" "M_initialized_size s1 = M_initialized_size s"
    "M_threads s1 = M_threads s" "wpc s1 = wpc s" "submitted s1 = submitted s" "finished s1 = finished s" "purged s1 = purged s"
    "M_queue s1 = M_queue s" "initial_count s1 = initial_count s" "waiters s1 = waiters s"
    using x by (auto simp: add_def)
  let ?s = "at_owner p (push x s1)"
  have pend: "pending ?s = add_mset (fst x) (pending s)" by (simp add: pending_def at_owner_def push_def f)
  have "M_count ?s u = initial_count s u + of_nat (Multiset.count (add_mset (fst x) (pending s)) (Some u))" for u
    using I x by (auto simp: exec_inv_def waiters_ok_def at_owner_def push_def add_def)
  moreover have "u < waiters s" if "Some u \<in># add_mset (fst x) (pending s)" for u
    using that x I by (auto simp: exec_inv_def waiters_ok_def)
  ultimately have "waiters_ok ?s" unfolding waiters_ok_def pend by (simp add: at_owner_def push_def f)
  moreover have "counters_ok ?s" using I unfolding exec_inv_def counters_ok_def by (simp add: at_owner_def push_def f del: sum_of_bool_eq)
  moreover have "items_ok ?s" using I unfolding exec_inv_def items_ok_def by (simp add: at_owner_def push_def f hands_def)
  moreover have "owner_ok ?s" using p saw_waiting_empty [of p] unfolding owner_ok_def by (auto simp: at_owner_def push_def f)
  ultimately show ?thesis by (simp add: exec_inv_def)
qed

lemma at_owner_inv: "exec_inv s \<Longrightarrow> \<not> saw_empty p \<Longrightarrow> (\<And>w. owner_waiter p = Some w \<Longrightarrow> w < waiters s) \<Longrightarrow> exec_inv (at_owner p s)"
  by (rule same_work_inv) (use saw_waiting_empty in \<open>auto simp: same_work_def at_owner_def owner_ok_def\<close>)

lemma Parallelize_step_inv:
  assumes I: "exec_inv s" and r: "Parallelize_step s = Some s'"
  shows "exec_inv s'"
proof (cases "opc s")
  case (O_parallelize w vs)
  then have w: "w < waiters s" using I by (auto simp: exec_inv_def owner_ok_def)
  show ?thesis
  proof (cases vs)
    case Nil
    then show ?thesis using r O_parallelize by (auto simp: Parallelize_step_def intro!: at_owner_inv [OF I])
  next
    case (Cons v us)
    then have "s' = at_owner (O_submit_pause (Some (w, us))) (push (Some w, v) (add w 1 s))" using r O_parallelize by (simp add: Parallelize_step_def)
    then show ?thesis using push_inv [OF I, where x = "(Some w, v)" and v = v and p = "O_submit_pause (Some (w, us))"] w by auto
  qed
qed (use r in \<open>auto simp: Parallelize_step_def split: if_splits intro!: at_owner_inv [OF I]\<close>)

lemma Purge_step_inv:
  assumes I: "exec_inv s" and r: "Purge_step s = Some s'"
  shows "exec_inv s'"
proof -
  have o: "opc s = O_purge" using r by (cases "opc s") (auto simp: Purge_step_def)
  show ?thesis
  proof (cases "M_queue s = []")
    case True
    then show ?thesis using r o by (auto simp: Purge_step_def intro!: at_owner_inv [OF I])
  next
    case False
    let ?s = "s\<lparr>M_queue := butlast (M_queue s), purged := purged s @ [last (M_queue s)]\<rparr>"
    have s': "s' = ?s" using r o False by (simp add: Purge_step_def)
    have m: "mset (M_queue s) = add_mset (last (M_queue s)) (mset (butlast (M_queue s)))"
      using arg_cong [OF append_butlast_last_id [OF False], of mset] by simp
    have "pending ?s = pending s" unfolding pending_def by (simp add: m)
    then have "waiters_ok ?s" using I by (simp add: exec_inv_def waiters_ok_def)
    moreover have "items_ok ?s" using I unfolding exec_inv_def items_ok_def hands_def by (simp add: m)
    moreover have "counters_ok ?s" using I unfolding exec_inv_def counters_ok_def by (simp del: sum_of_bool_eq)
    moreover have "owner_ok ?s" using o by (simp add: owner_ok_def)
    ultimately show ?thesis unfolding s' exec_inv_def by blast
  qed
qed

lemma WaitGroup_inv:
  assumes I: "exec_inv s" and r: "WaitGroup n s = (w, s')"
  shows "exec_inv s'" and "w < waiters s'"
proof -
  have w: "w = waiters s" and s': "s' = s\<lparr>M_count := (M_count s)(w := n), waiters := Suc w, initial_count := (initial_count s)(w := n)\<rparr>"
    using r by (auto simp: WaitGroup_def)
  have "Some w \<notin># pending s" using I w by (auto simp: exec_inv_def waiters_ok_def)
  then have "Multiset.count (pending s) (Some w) = 0" by (simp add: not_in_iff)
  moreover have "pending s' = pending s" by (simp add: s' pending_def)
  ultimately have "waiters_ok s'" using I w by (auto simp: exec_inv_def waiters_ok_def s')
  moreover have "items_ok s'" using I unfolding exec_inv_def items_ok_def hands_def by (simp add: s')
  moreover have "counters_ok s'" using I unfolding exec_inv_def counters_ok_def by (simp add: s' del: sum_of_bool_eq)
  moreover have "owner_ok s'" using I w unfolding exec_inv_def owner_ok_def by (auto simp: s')
  ultimately show "exec_inv s'" unfolding exec_inv_def by blast
  show "w < waiters s'" by (simp add: s')
qed

lemma call_inv:
  assumes I: "exec_inv s" and o: "opc s = O_idle" and r: "call f s = Some s'"
  shows "exec_inv s'"
proof (cases f)
  case Pause
  then show ?thesis using r o by (auto intro!: same_work_inv [OF I] simp: same_work_def owner_ok_def)
next
  case (Submit v)
  then show ?thesis using r by (auto intro!: push_inv [OF I, where x = "(None, v)" and v = v])
next
  case (New_waiter n)
  then show ?thesis using r WaitGroup_inv(1) [OF I] by (metis call.simps(7) option.inject prod.collapse)
next
  case (Submit_waiter w v)
  then show ?thesis using r by (auto split: if_splits intro!: push_inv [OF I, where x = "(Some w, v)" and v = v])
next
  case (Parallelize vs)
  obtain w s1 where w: "WaitGroup 0 s = (w, s1)" by fastforce
  then show ?thesis using r Parallelize WaitGroup_inv(2) [OF I w] by (auto intro!: at_owner_inv [OF WaitGroup_inv(1) [OF I w]])
qed (use r in \<open>auto split: if_splits intro!: at_owner_inv [OF I]\<close>)

lemma exec_inv_step:
  assumes "exec_inv s" and "exec_step limited s s'"
  shows "exec_inv s'"
proof -
  obtain e where e: "happens limited e s = Some s'" using assms(2) by (auto simp: exec_step_def)
  show ?thesis
  proof (cases e)
    case (Own c luck)
    then show ?thesis using e Spawn_step_inv [OF assms(1)] Notify_step_inv [OF assms(1)] Resume_step_inv [OF assms(1)] WaitAll_step_inv [OF assms(1)]
        Shutdown_step_inv [OF assms(1)] Submit_step_inv [OF assms(1)] Parallelize_step_inv [OF assms(1)] Purge_step_inv [OF assms(1)]
      by (auto simp: owner_step_def split: option.splits)
  next
    case Cancel
    then show ?thesis using e by (auto intro!: same_work_inv [OF assms(1)] simp: same_work_def owner_ok_def)
  qed (use e Callback_Execute_inv [OF assms(1)] Consumer_inv [OF assms(1)] call_inv [OF assms(1)] in \<open>auto split: if_splits\<close>)
qed

interpretation ex: transition_invariant "\<lambda>s. s = StealingExecutor" "exec_step limited" exec_inv for limited
proof unfold_locales
  show "exec_inv s" if "s = StealingExecutor" for s :: "'a exec"
    using that by (simp add: exec_inv_def counters_ok_def items_ok_def waiters_ok_def owner_ok_def hands_def pending_def StealingExecutor_def)
  show "exec_inv s'" if "exec_inv s" and "exec_step limited s s'" for s s' :: "'a exec" by (rule exec_inv_step [OF that])
qed

end
