(* ===== verification/Executor_Properties.thy ===== *)
theory Executor_Properties
  imports Executor_Safety
begin

text \<open>Properties of the executor, and the interleaving in which a wakeup is lost.\<close>

section \<open>Runs\<close>

fun happen :: "(nat \<Rightarrow> u64 \<Rightarrow> bool) \<Rightarrow> 'a event list \<Rightarrow> 'a exec \<Rightarrow> 'a exec option" where
  "happen limited [] s = Some s"
| "happen limited (e # es) s = do { s \<leftarrow> happens limited e s; happen limited es s }"

lemma happen_reachable:
  "happen limited es s = Some s' \<Longrightarrow> reachable I (exec_step limited) s \<Longrightarrow> reachable I (exec_step limited) s'"
proof (induction es arbitrary: s)
  case (Cons e es)
  then obtain s1 where "happens limited e s = Some s1" "happen limited es s1 = Some s'" by (auto split: bind_splits)
  then show ?case using Cons.IH Cons.prems(2) by (metis exec_step_def reachable_step)
qed simp

definition lost_wakeup :: "'a \<Rightarrow> 'a event list" where
  "lost_wakeup v =
     [Call (Spawn 1), Own 0 False, Own 0 False] @
     [Consume 0 False, Consume 0 False, Consume 0 False, Consume 0 False, Consume 0 False] @
     [Own 0 False, Own 0 False, Own 0 False, Own 0 False, Own 0 False] @
     [Call Pause, Call (Submit v), Own 0 False] @
     [Call Resume, Own 0 False, Own 0 False, Own 0 False, Own 0 False] @
     [Call WaitAll, Own 0 False, Own 0 False, Own 0 False, Own 0 False, Own 0 False] @
     [Consume 0 False]"

definition stuck_state :: "'a \<Rightarrow> 'a exec" where
  "stuck_state v = StealingExecutor\<lparr>M_pause := False, M_should_notify := True, M_waiting_size := 1, M_initialized_size := 1, M_threads := 1,
     M_queue := [(None, v)], wpc := (\<lambda>_. W_none)(0 := W_sleep), opc := O_wait_sleep False, submitted := [(None, v)]\<rparr>"

lemmas step_simps = go_def at_owner_def owner_step_def Spawn_step_def Notify_step_def Resume_step_def WaitAll_step_def Shutdown_step_def
  Submit_step_def Parallelize_step_def Purge_step_def Consumer_def Callback_Execute_def

lemma lost_wakeup_run: "happen limited (lost_wakeup v) StealingExecutor = Some (stuck_state v)"
  by (simp add: lost_wakeup_def StealingExecutor_def stuck_state_def step_simps spawn_worker_def notify_plan_def notify_all_def sleepers_def
      push_def submitted_pc_def) (simp add: fun_eq_iff)

lemma start_reachable: "reachable (\<lambda>s. s = StealingExecutor) (exec_step limited) StealingExecutor"
  by (rule reachable_init) simp

section \<open>Pending items\<close>

lemma sum_size_hands: "size (\<Sum>c<n. image_mset fst (hand (f c)) + owes (f c)) \<le> (n :: nat)"
proof (induction n)
  case (Suc n)
  have "size (hand p) + size (owes p) \<le> 1" for p :: "'a worker_pc" by (cases p) auto
  then show ?case using Suc [THEN add_le_mono, of "size (hand (f n)) + size (owes (f n))" 1] by simp
qed simp

lemma size_pending:
  assumes "items_ok s"
  shows "size (pending s) \<le> length (submitted s) + M_threads s"
proof -
  have "size (mset (submitted s)) = size (mset (M_queue s)) + size (hands s) + length (finished s) + size (mset (purged s))"
    using arg_cong [OF assms [unfolded items_ok_def], of size] by simp
  moreover have "size (pending s) = length (M_queue s) + length (purged s) + size (\<Sum>c<M_threads s. image_mset fst (hand (wpc s c)) + owes (wpc s c))"
    by (simp add: pending_def)
  ultimately show ?thesis using sum_size_hands [of "wpc s" "M_threads s"] by simp
qed

lemma count_word:
  assumes "waiters_ok s" and "items_ok s" and "initial_count s w = 0" and "length (submitted s) + M_threads s < 2 ^ 31"
  shows "unat (M_count s w) = Multiset.count (pending s) (Some w)" and "Multiset.count (pending s) (Some w) < 2 ^ 31"
proof -
  show lt: "Multiset.count (pending s) (Some w) < 2 ^ 31"
    using count_le_size [of "pending s" "Some w"] size_pending [OF assms(2)] assms(4) by linarith
  have "M_count s w = of_nat (Multiset.count (pending s) (Some w))" using assms(1,3) by (simp add: waiters_ok_def)
  then show "unat (M_count s w) = Multiset.count (pending s) (Some w)" using lt by (simp add: unsigned_of_nat take_bit_nat_eq_self)
qed

lemma positive_sint: "0 < unat (x :: u32) \<Longrightarrow> unat x < 2 ^ 31 \<Longrightarrow> 0 < sint x"
proof -
  assume p: "0 < unat x" and l: "unat x < 2 ^ 31"
  have g: "sint (of_nat n :: u32) = int n" if "n < 2 ^ 31" for n using that by (simp add: signed_of_nat signed_take_bit_int_eq_self)
  have e: "of_nat (unat x) = x" by simp
  show ?thesis using g [OF l, unfolded e] p by linarith
qed

lemma pending_none:
  assumes "Multiset.count (pending s) (Some w) = 0"
  shows "filter_mset (\<lambda>x. fst x = Some w) (mset (M_queue s) + hands s + mset (purged s)) = {#}"
proof -
  have no: "Some w \<notin># pending s" using assms by (simp add: not_in_iff)
  have "fst x \<noteq> Some w" if "x \<in># mset (M_queue s) + hands s + mset (purged s)" for x
  proof (cases "x \<in># hands s")
    case True
    then obtain c where "c < M_threads s" "x \<in># hand (wpc s c)" by (auto simp: hands_def set_mset_sum)
    then have "fst x \<in># pending s" by (auto simp: pending_def set_mset_sum)
    then show ?thesis using no by auto
  next
    case False
    then have "fst x \<in># pending s" using that by (auto simp: pending_def)
    then show ?thesis using no by auto
  qed
  then show ?thesis unfolding filter_mset_eq_mempty_iff by blast
qed

section \<open>Properties\<close>

text \<open>
  C7. In every order of the steps of the owner and the workers, each submitted item is in the queue, in the hands of exactly one worker,
  finished once or purged, and the three counters are the numbers of workers that are working, waiting and alive.
\<close>

theorem executor_conserves:
  assumes "reachable (\<lambda>s. s = StealingExecutor) (exec_step limited) s"
  shows "mset (submitted s) = mset (M_queue s) + (\<Sum>c<M_threads s. hand (wpc s c)) + mset (map snd (finished s)) + mset (purged s) \<and>
    M_working_size s = of_nat (card {c. c < M_threads s \<and> is_working (wpc s c)}) \<and>
    M_waiting_size s = of_nat (card {c. c < M_threads s \<and> is_waiting (wpc s c)}) \<and>
    M_initialized_size s = of_nat (card {c. c < M_threads s \<and> is_live (wpc s c)})"
proof -
  have I: "exec_inv s" by (rule ex.reachable_inv [OF assms])
  have e: "(\<Sum>c<M_threads s. of_bool (P (wpc s c))) = (of_nat (card {c. c < M_threads s \<and> P (wpc s c)}) :: u64)" for P
    by (simp add: Int_def lessThan_def)
  show ?thesis using I unfolding exec_inv_def items_ok_def counters_ok_def hands_def e by blast
qed

theorem executor_conserves_witness:
  "\<exists>s. reachable (\<lambda>s. s = StealingExecutor) (exec_step (\<lambda>_ _. False)) s \<and> M_threads s = 1 \<and> M_waiting_size s = of_nat (card {c. c < 1 \<and> is_waiting (wpc s c)}) \<and>
     mset (submitted s) = {#(None, 7 :: nat)#} + (\<Sum>c<1. hand (wpc s c))"
proof (rule exI, intro conjI)
  let ?s = "stuck_state (7 :: nat)"
  have r: "reachable (\<lambda>s. s = StealingExecutor) (exec_step (\<lambda>_ _. False)) ?s"
    by (rule happen_reachable [OF lost_wakeup_run start_reachable])
  show "reachable (\<lambda>s. s = StealingExecutor) (exec_step (\<lambda>_ _. False)) ?s" by (rule r)
  show t: "M_threads ?s = 1" by (simp add: stuck_state_def)
  show "M_waiting_size ?s = of_nat (card {c. c < 1 \<and> is_waiting (wpc ?s c)})" using executor_conserves [OF r] unfolding t by blast
  have "finished ?s = []" "purged ?s = []" "M_queue ?s = [(None, 7)]" by (simp_all add: stuck_state_def StealingExecutor_def)
  then show "mset (submitted ?s) = {#(None, 7 :: nat)#} + (\<Sum>c<1. hand (wpc ?s c))" using executor_conserves [OF r] unfolding t by simp
qed

text \<open>
  C4. When \<open>WaitAll\<close> returns and the executor is not paused, every item submitted so far is finished (or was purged): the queue is empty and
  no worker holds an item, although a worker counts itself as working only after it has taken its first item.
\<close>

theorem wait_all_complete:
  assumes "reachable (\<lambda>s. s = StealingExecutor) (exec_step limited) s" and "M_threads s < 2 ^ 64"
    and "opc s = O_wait_reset shut" and "\<not> M_pause s"
  shows "M_queue s = [] \<and> (\<forall>c < M_threads s. hand (wpc s c) = {#}) \<and> mset (submitted s) = mset (map snd (finished s)) + mset (purged s)"
proof -
  have I: "items_ok s" "owner_ok s" using ex.reachable_inv [OF assms(1)] by (simp_all add: exec_inv_def)
  then have "M_queue s = []" "\<forall>c < M_threads s. hand (wpc s c) = {#}" using assms(2-4) by (auto simp: owner_ok_def)
  then show ?thesis using I(1) by (simp add: items_ok_def hands_def)
qed

text \<open>A run in which one worker executes one item of a wait group, and \<open>WaitAll\<close> is about to return.\<close>

definition one_item :: "'a \<Rightarrow> 'a event list" where
  "one_item v =
     [Call (Spawn 1), Own 0 False, Own 0 False] @ replicate 6 (Consume 0 False) @ replicate 5 (Own 0 False) @
     [Call (New_waiter 0), Call (Submit_waiter 0 v), Own 0 False, Own 0 False, Own 0 False, Own 0 False] @
     replicate 5 (Consume 0 False) @ replicate 6 (Work 0 False) @ replicate 3 (Consume 0 False) @ replicate 4 (Consume 0 False) @
     [Call WaitAll] @ replicate 8 (Own 0 False)"

lemma one_item_run: "\<exists>s. happen (\<lambda>_ _. False) (one_item v) StealingExecutor = Some s \<and> opc s = O_wait_reset False \<and> \<not> M_pause s \<and> M_threads s = 1 \<and>
    M_count s 0 = 0 \<and> initial_count s 0 = 0 \<and> submitted s = [(Some 0, v)] \<and> purged s = []"
  by (simp add: one_item_def StealingExecutor_def step_simps spawn_worker_def notify_plan_def notify_all_def notify_one_def sleepers_def
      push_def submitted_pc_def WaitGroup_def add_def done_waiter_def finish_def numeral_eq_Suc)

theorem wait_all_complete_witness:
  "\<exists>s. reachable (\<lambda>s. s = StealingExecutor) (exec_step (\<lambda>_ _. False)) s \<and> opc s = O_wait_reset False \<and> \<not> M_pause s \<and>
     mset (map snd (finished s)) = {#(Some 0, 7 :: nat)#}"
proof -
  obtain s where s: "happen (\<lambda>_ _. False) (one_item (7 :: nat)) StealingExecutor = Some s" "opc s = O_wait_reset False" "\<not> M_pause s"
    "M_threads s = 1" "submitted s = [(Some 0, 7)]" "purged s = []" using one_item_run [of 7] by (elim exE conjE) (rule that, assumption+)
  have r: "reachable (\<lambda>s. s = StealingExecutor) (exec_step (\<lambda>_ _. False)) s" by (rule happen_reachable [OF s(1) start_reachable])
  have t: "M_threads s < 2 ^ 64" using s(4) by simp
  have "mset (submitted s) = mset (map snd (finished s)) + mset (purged s)" using wait_all_complete [OF r t s(2,3)] by blast
  then have "mset (map snd (finished s)) = {#(Some 0, 7)#}" unfolding s(5,6) by (simp only: mset.simps add_0_right)
  then show ?thesis using r s(2,3) by (intro exI [of _ s] conjI)
qed

text \<open>
  C21. When the count of a wait group that began with zero is zero again, every item submitted with it is finished: then
  \<open>Parallelize\<close> returns. While a worker is about to report an item, the count is positive, so the assertion of \<open>done\<close> holds. The number of
  items and workers must stay below \<open>2 ^ 31\<close>.
\<close>

theorem wait_group_exact:
  assumes "reachable (\<lambda>s. s = StealingExecutor) (exec_step limited) s" and "length (submitted s) + M_threads s < 2 ^ 31"
    and "initial_count s w = 0"
  shows "(wait_over w s \<longrightarrow>
      filter_mset (\<lambda>x. fst x = Some w) (mset (submitted s)) = filter_mset (\<lambda>x. fst x = Some w) (mset (map snd (finished s)))) \<and>
    (\<forall>c < M_threads s. \<forall>check k. wpc s c = W_waiter w check k \<longrightarrow> done_waiter w s \<noteq> None)"
proof -
  have I: "waiters_ok s" "items_ok s" using ex.reachable_inv [OF assms(1)] by (simp_all add: exec_inv_def)
  note c = count_word [OF I assms(3,2)]
  have "filter_mset (\<lambda>x. fst x = Some w) (mset (submitted s)) = filter_mset (\<lambda>x. fst x = Some w) (mset (map snd (finished s)))" if "wait_over w s"
  proof -
    have "Multiset.count (pending s) (Some w) = 0" using c(1) that by (simp add: wait_over_def)
    from pending_none [OF this] have "filter_mset (\<lambda>x. fst x = Some w) (mset (M_queue s) + hands s + mset (purged s)) = {#}" .
    moreover have "mset (submitted s) = (mset (M_queue s) + hands s + mset (purged s)) + mset (map snd (finished s))"
      using I(2) by (simp add: items_ok_def ac_simps)
    ultimately show ?thesis by simp
  qed
  moreover have "done_waiter w s \<noteq> None" if "i < M_threads s" "wpc s i = W_waiter w check k" for i check k
  proof -
    have "Some w \<in># pending s" using that by (auto simp: pending_def set_mset_sum intro!: bexI [of _ i])
    then have "0 < Multiset.count (pending s) (Some w)" by (simp add: count_greater_zero_iff)
    then have "0 < unat (M_count s w)" "unat (M_count s w) < 2 ^ 31" using c by simp_all
    then have "0 < sint (M_count s w)" by (rule positive_sint)
    then show ?thesis by (simp add: done_waiter_def)
  qed
  ultimately show ?thesis by blast
qed

theorem wait_group_exact_witness:
  "\<exists>s. reachable (\<lambda>s. s = StealingExecutor) (exec_step (\<lambda>_ _. False)) s \<and> wait_over 0 s \<and>
     filter_mset (\<lambda>x. fst x = Some 0) (mset (map snd (finished s))) = {#(Some 0, 7 :: nat)#}"
proof -
  obtain s where s: "happen (\<lambda>_ _. False) (one_item (7 :: nat)) StealingExecutor = Some s" "M_threads s = 1" "M_count s 0 = 0"
    "initial_count s 0 = 0" "submitted s = [(Some 0, 7)]" using one_item_run [of 7] by (elim exE conjE) (rule that, assumption+)
  have r: "reachable (\<lambda>s. s = StealingExecutor) (exec_step (\<lambda>_ _. False)) s" by (rule happen_reachable [OF s(1) start_reachable])
  have b: "length (submitted s) + M_threads s < 2 ^ 31" using s by simp
  have "wait_over 0 s" using s(3) by (simp add: wait_over_def)
  moreover have "filter_mset (\<lambda>x. fst x = Some 0) (mset (submitted s)) = {#(Some 0, 7)#}" using s(5) by simp
  ultimately have "filter_mset (\<lambda>x. fst x = Some 0) (mset (map snd (finished s))) = {#(Some 0, 7)#}" using wait_group_exact [OF r b s(4)] by metis
  then show ?thesis using r \<open>wait_over 0 s\<close> by (intro exI [of _ s] conjI)
qed

text \<open>Events without a spurious wakeup and without a stale test.\<close>

definition plain :: "'a event \<Rightarrow> bool" where
  "plain e = (case e of Consume c luck \<Rightarrow> \<not> luck | Own c luck \<Rightarrow> \<not> luck | _ \<Rightarrow> True)"

text \<open>
  C34. \<open>Resume\<close> and \<open>WaitAll\<close> notify the workers without taking the lock under which they decide to sleep. When an item is submitted while
  the executor is paused, a worker that has found the queue empty before that and falls asleep after both notifications is not woken: the worker sleeps with an
  item in the queue, \<open>WaitAll\<close> sleeps, and no thread can take a step any more.
\<close>

theorem paused_submit_deadlock:
  "\<exists>s. reachable (\<lambda>s. s = StealingExecutor) (exec_step limited) s \<and> M_queue s = [(None, v)] \<and> opc s = O_wait_sleep False \<and> wpc s 0 = W_sleep \<and>
     {s'. \<exists>e b. plain e \<and> happens limited e (s\<lparr>M_cancelled := b\<rparr>) = Some s'} \<subseteq> {s\<lparr>M_cancelled := True\<rparr>}"
proof (rule exI, intro conjI)
  let ?s = "stuck_state v"
  show "reachable (\<lambda>s. s = StealingExecutor) (exec_step limited) ?s" by (rule happen_reachable [OF lost_wakeup_run start_reachable])
  show "{s'. \<exists>e b. plain e \<and> happens limited e (?s\<lparr>M_cancelled := b\<rparr>) = Some s'} \<subseteq> {?s\<lparr>M_cancelled := True\<rparr>}"
  proof
    fix s'
    assume "s' \<in> {s'. \<exists>e b. plain e \<and> happens limited e (?s\<lparr>M_cancelled := b\<rparr>) = Some s'}"
    then obtain e b where "plain e" "happens limited e (?s\<lparr>M_cancelled := b\<rparr>) = Some s'" by blast
    then show "s' \<in> {?s\<lparr>M_cancelled := True\<rparr>}"
      by (cases e) (auto simp: plain_def stuck_state_def StealingExecutor_def step_simps split: if_splits)
  qed
qed (simp_all add: stuck_state_def)

end
