(* ===== verification/Lru_Cache.thy ===== *)
theory Lru_Cache
  imports Godby_Prelude "HOL-Library.Monad_Syntax" "HOL-Library.AList"
begin

text \<open>
  \<open>ExpiringLruCache\<close> of \<open>expiring_lru_cache.h\<close>. The list of used keys is a list of nodes with numbers, and an iterator is
  the number of a node, which stays the same when the node moves. The hash map is an association list with one entry for each key. Points of time are
  nanoseconds; each call of the clock is an argument.
\<close>

section \<open>Definitions\<close>

record ('k, 'v) lru =
  m_cache :: "('k \<times> ('v \<times> nat \<times> int)) list"
  m_used :: "(nat \<times> 'k) list"
  m_capacity :: nat
  m_ttl :: int
  next_node :: nat

definition ExpiringLruCache :: "nat \<Rightarrow> int \<Rightarrow> ('k, 'v) lru" where
  "ExpiringLruCache capacity ttl = \<lparr>m_cache = [], m_used = [], m_capacity = capacity, m_ttl = ttl, next_node = 0\<rparr>"

text \<open>\<open>splice\<close> moves the node of an iterator to the front.\<close>

definition splice_front :: "nat \<Rightarrow> (nat \<times> 'k) list \<Rightarrow> (nat \<times> 'k) list" where
  "splice_front i xs = filter (\<lambda>(j, _). j = i) xs @ filter (\<lambda>(j, _). j \<noteq> i) xs"

definition begin_node :: "('k, 'v) lru \<Rightarrow> nat option" where
  "begin_node s = (case m_used s of (i, _) # _ \<Rightarrow> Some i | [] \<Rightarrow> None)"

definition touch :: "'k \<Rightarrow> int \<Rightarrow> ('k, 'v) lru \<Rightarrow> ('k, 'v) lru option" where
  "touch key now s = do {
     (v, i, _) \<leftarrow> map_of (m_cache s) key;
     let s = s\<lparr>m_used := splice_front i (m_used s)\<rparr>;
     b \<leftarrow> begin_node s;
     Some (s\<lparr>m_cache := AList.update key (v, b, now) (m_cache s)\<rparr>)
   }"

text \<open>The seconds between two points of time; the clock does not go back.\<close>

definition seconds :: "int \<Rightarrow> int" where
  "seconds d = d div 1000000000"

text \<open>\<open>None\<close> inside the result is the end iterator.\<close>

definition lru_find :: "'k \<Rightarrow> int \<Rightarrow> int \<Rightarrow> ('k, 'v) lru \<Rightarrow> ('v option \<times> ('k, 'v) lru) option" where
  "lru_find key now now' s =
     (case map_of (m_cache s) key of
        Some (v, i, t) \<Rightarrow>
          if seconds (now - t) > m_ttl s
          then Some (None, s\<lparr>m_used := filter (\<lambda>(j, _). j \<noteq> i) (m_used s), m_cache := AList.delete key (m_cache s)\<rparr>)
          else do { s \<leftarrow> touch key now' s; Some (Some v, s) }
      | None \<Rightarrow> Some (None, s))"

text \<open>\<open>Inl\<close> is the exception \<open>std::out_of_range\<close>.\<close>

definition at :: "'k \<Rightarrow> int \<Rightarrow> int \<Rightarrow> ('k, 'v) lru \<Rightarrow> ((unit + 'v) \<times> ('k, 'v) lru) option" where
  "at key now now' s = do {
     (it, s) \<leftarrow> lru_find key now now' s;
     case it of None \<Rightarrow> Some (Inl (), s) | Some v \<Rightarrow> Some (Inr v, s)
   }"

text \<open>\<open>back\<close> of an empty list is undefined.\<close>

definition evict :: "('k, 'v) lru \<Rightarrow> ('k, 'v) lru option" where
  "evict s = (if m_used s = [] then None
     else Some (s\<lparr>m_cache := AList.delete (snd (last (m_used s))) (m_cache s), m_used := butlast (m_used s)\<rparr>))"

definition emplace :: "'k \<Rightarrow> 'v \<Rightarrow> int \<Rightarrow> int \<Rightarrow> ('k, 'v) lru \<Rightarrow> ('k, 'v) lru option" where
  "emplace key x now now' s = do {
     s \<leftarrow> (case map_of (m_cache s) key of
        Some _ \<Rightarrow> touch key now s
      | None \<Rightarrow> do {
          s \<leftarrow> (if length (m_cache s) = m_capacity s then evict s else Some s);
          Some (s\<lparr>m_used := (next_node s, key) # m_used s, next_node := Suc (next_node s)\<rparr>)
        });
     b \<leftarrow> begin_node s;
     Some (s\<lparr>m_cache := AList.update key (x, b, now') (m_cache s)\<rparr>)
   }"

definition lru_size :: "('k, 'v) lru \<Rightarrow> nat" where
  "lru_size s = length (m_cache s)"

definition listSize :: "('k, 'v) lru \<Rightarrow> nat" where
  "listSize s = length (m_used s)"

section \<open>The cache as one list\<close>

text \<open>The entries, the most recently used one first.\<close>

definition entry :: "('k \<times> ('v \<times> nat \<times> int)) list \<Rightarrow> nat \<times> 'k \<Rightarrow> 'k \<times> 'v \<times> int" where
  "entry c n = (let (v, _, t) = the (map_of c (snd n)) in (snd n, v, t))"

definition entries :: "('k, 'v) lru \<Rightarrow> ('k \<times> 'v \<times> int) list" where
  "entries s = map (entry (m_cache s)) (m_used s)"

definition lru_inv :: "('k, 'v) lru \<Rightarrow> bool" where
  "lru_inv s \<longleftrightarrow> distinct (map fst (m_cache s)) \<and> distinct (map fst (m_used s)) \<and> distinct (map snd (m_used s)) \<and>
     (\<forall>k. k \<in> snd ` set (m_used s) \<longleftrightarrow> map_of (m_cache s) k \<noteq> None) \<and>
     (\<forall>i k v j t. (i, k) \<in> set (m_used s) \<longrightarrow> map_of (m_cache s) k = Some (v, j, t) \<longrightarrow> j = i) \<and>
     (\<forall>i k. (i, k) \<in> set (m_used s) \<longrightarrow> i < next_node s) \<and> length (m_used s) \<le> m_capacity s"

lemma lru_invD:
  assumes "lru_inv s"
  shows "distinct (map fst (m_cache s))" and "distinct (map fst (m_used s))" and "distinct (map snd (m_used s))"
    and "\<forall>k. k \<in> snd ` set (m_used s) \<longleftrightarrow> map_of (m_cache s) k \<noteq> None"
    and "\<forall>i k v j t. (i, k) \<in> set (m_used s) \<longrightarrow> map_of (m_cache s) k = Some (v, j, t) \<longrightarrow> j = i"
    and "\<forall>i k. (i, k) \<in> set (m_used s) \<longrightarrow> i < next_node s" and "length (m_used s) \<le> m_capacity s"
  using assms unfolding lru_inv_def by - (elim conjE, assumption)+

lemma lru_invI:
  assumes "distinct (map fst (m_cache s))" and "distinct (map fst (m_used s))" and "distinct (map snd (m_used s))"
    and "\<forall>k. k \<in> snd ` set (m_used s) \<longleftrightarrow> map_of (m_cache s) k \<noteq> None"
    and "\<forall>i k v j t. (i, k) \<in> set (m_used s) \<longrightarrow> map_of (m_cache s) k = Some (v, j, t) \<longrightarrow> j = i"
    and "\<forall>i k. (i, k) \<in> set (m_used s) \<longrightarrow> i < next_node s" and "length (m_used s) \<le> m_capacity s"
  shows "lru_inv s"
  unfolding lru_inv_def by (intro conjI assms)

lemma length_cache: "lru_inv s \<Longrightarrow> length (m_cache s) = length (m_used s)"
proof -
  assume I: "lru_inv s"
  note D = lru_invD [OF I]
  have "fst ` set (m_cache s) = snd ` set (m_used s)" using D(4) by (auto simp: map_of_eq_None_iff)
  then have "card (set (map fst (m_cache s))) = card (set (map snd (m_used s)))" by simp
  then show ?thesis using D(1,3) by (simp only: distinct_card length_map)
qed

lemma entry_other: "key \<notin> snd ` set xs \<Longrightarrow> map (entry (AList.update key z c)) xs = map (entry c) xs"
  "key \<notin> snd ` set xs \<Longrightarrow> map (entry (AList.delete key c)) xs = map (entry c) xs"
  by (auto simp: entry_def update_conv' delete_conv' image_iff)

lemma map_of_entries:
  assumes "lru_inv s"
  shows "map_of (entries s) key = map_option (\<lambda>(v, _, t). (v, t)) (map_of (m_cache s) key)"
proof -
  have "map_of (map (entry c) xs) key = (if key \<in> snd ` set xs then Some (snd (entry c (0, key))) else None)" for c :: "('a \<times> ('b \<times> nat \<times> int)) list" and xs
    by (induction xs) (auto simp: entry_def case_prod_unfold Let_def)
  then show ?thesis using lru_invD(4) [OF assms, rule_format, of key]
    by (cases "map_of (m_cache s) key") (simp_all add: entries_def entry_def case_prod_unfold Let_def)
qed

text \<open>Where a key is in the list.\<close>

lemma used_split:
  assumes I: "lru_inv s" and k: "map_of (m_cache s) key = Some (v, i, t)"
  obtains xs ys where "m_used s = xs @ (i, key) # ys" and "key \<notin> snd ` set (xs @ ys)" and "i \<notin> fst ` set (xs @ ys)"
proof -
  note D = lru_invD [OF I]
  obtain j where j: "(j, key) \<in> set (m_used s)" using D(4) k by force
  then have "j = i" using D(5) k by blast
  then obtain xs ys where u: "m_used s = xs @ (i, key) # ys" using j split_list by metis
  then have "key \<notin> snd ` set (xs @ ys)" "i \<notin> fst ` set (xs @ ys)" using D(2,3) by auto
  then show ?thesis using that u by blast
qed

lemma entries_filter:
  assumes "m_used s = xs @ (i, key) # ys" and "key \<notin> snd ` set (xs @ ys)"
  shows "filter (\<lambda>(k, _). k \<noteq> key) (entries s) = map (entry (m_cache s)) (xs @ ys)"
proof -
  have f: "filter (\<lambda>(k, _). k \<noteq> key) (map (entry c) zs) = map (entry c) zs" if "key \<notin> snd ` set zs" for c :: "('a \<times> ('b \<times> nat \<times> int)) list" and zs
    using that by (induction zs) (auto simp: entry_def case_prod_unfold Let_def)
  have "fst (entry (m_cache s) (i, key)) = key" by (simp add: entry_def case_prod_unfold Let_def)
  then show ?thesis using f [of xs] f [of ys] assms by (auto simp: entries_def case_prod_unfold image_Un)
qed

text \<open>A key that is in the cache moves to the front.\<close>

lemma to_front_ok:
  assumes I: "lru_inv s" and k: "map_of (m_cache s) key = Some (v, i, t)"
    and s': "s' = s\<lparr>m_used := splice_front i (m_used s), m_cache := AList.update key (w, i, now) (m_cache s)\<rparr>"
  shows "lru_inv s'" and "entries s' = (key, w, now) # filter (\<lambda>(k, _). k \<noteq> key) (entries s)" and "begin_node (s\<lparr>m_used := splice_front i (m_used s)\<rparr>) = Some i"
proof -
  note D = lru_invD [OF I]
  obtain xs ys where u: "m_used s = xs @ (i, key) # ys" "key \<notin> snd ` set (xs @ ys)" "i \<notin> fst ` set (xs @ ys)" by (rule used_split [OF I k])
  have f: "filter (\<lambda>(j, _). j = i) zs = []" "filter (\<lambda>(j, _). j \<noteq> i) zs = zs" if "i \<notin> fst ` set zs" for zs :: "(nat \<times> 'a) list"
    using that by (induction zs) auto
  have sp: "splice_front i (m_used s) = (i, key) # xs @ ys" using u f [of xs] f [of ys] by (simp add: splice_front_def image_Un)
  show "begin_node (s\<lparr>m_used := splice_front i (m_used s)\<rparr>) = Some i" by (simp add: begin_node_def sp)
  have e: "entry (AList.update key (w, i, now) (m_cache s)) (i, key) = (key, w, now)" by (simp add: entry_def update_conv')
  show "entries s' = (key, w, now) # filter (\<lambda>(k, _). k \<noteq> key) (entries s)"
    unfolding entries_filter [OF u(1,2)] using entry_other(1) [OF u(2), of "(w, i, now)" "m_cache s"] e by (simp add: entries_def s' sp)
  have m: "m_used s' = (i, key) # xs @ ys" "map_of (m_cache s') = (map_of (m_cache s))(key \<mapsto> (w, i, now))"
    by (simp_all add: s' sp update_conv')
  have st: "set (m_used s') = set (m_used s)" using u(1) m(1) by auto
  show "lru_inv s'"
  proof (rule lru_invI)
    show "distinct (map fst (m_cache s'))" using D(1) by (simp add: s' distinct_update)
    show "distinct (map fst (m_used s'))" "distinct (map snd (m_used s'))" using D(2,3) u(1) m(1) by auto
    show "\<forall>k. k \<in> snd ` set (m_used s') \<longleftrightarrow> map_of (m_cache s') k \<noteq> None" unfolding st m(2) using D(4) k by (metis fun_upd_apply option.distinct(1))
    show "\<forall>j k v' j' t'. (j, k) \<in> set (m_used s') \<longrightarrow> map_of (m_cache s') k = Some (v', j', t') \<longrightarrow> j' = j"
    proof (intro allI impI)
      fix j k v' j' t'
      assume a: "(j, k) \<in> set (m_used s')" "map_of (m_cache s') k = Some (v', j', t')"
      show "j' = j"
      proof (cases "k = key")
        case True
        then have "(j, key) \<notin> set (xs @ ys)" using u(2) by force
        then show ?thesis using a True unfolding m by auto
      next
        case False
        then show ?thesis using a D(5) st unfolding m(2) by auto
      qed
    qed
    show "\<forall>j k. (j, k) \<in> set (m_used s') \<longrightarrow> j < next_node s'" unfolding st using D(6) by (simp add: s')
    show "length (m_used s') \<le> m_capacity s'" using D(7) u(1) m(1) by (simp add: s')
  qed
qed

lemma touch_ok:
  assumes I: "lru_inv s" and k: "map_of (m_cache s) key = Some (v, i, t)"
  shows "\<exists>s'. touch key now s = Some s' \<and> lru_inv s' \<and> entries s' = (key, v, now) # filter (\<lambda>(k, _). k \<noteq> key) (entries s) \<and>
    map_of (m_cache s') key = Some (v, i, now) \<and> begin_node s' = Some i \<and> m_capacity s' = m_capacity s \<and> m_ttl s' = m_ttl s"
proof -
  let ?s = "s\<lparr>m_used := splice_front i (m_used s), m_cache := AList.update key (v, i, now) (m_cache s)\<rparr>"
  note F = to_front_ok [OF I k, of ?s v now, OF refl]
  have "touch key now s = Some ?s" using k F(3) by (simp add: touch_def)
  moreover have "begin_node ?s = Some i" using F(3) by (simp add: begin_node_def)
  ultimately show ?thesis using F by (auto simp: update_conv')
qed

lemma drop_ok:
  assumes I: "lru_inv s" and u: "m_used s = xs @ (i, key) # ys"
    and s': "s' = s\<lparr>m_used := xs @ ys, m_cache := AList.delete key (m_cache s)\<rparr>"
  shows "lru_inv s'" and "entries s' = map (entry (m_cache s)) (xs @ ys)"
proof -
  note D = lru_invD [OF I]
  have n: "key \<notin> snd ` set (xs @ ys)" using D(3) u by auto
  show "entries s' = map (entry (m_cache s)) (xs @ ys)" using entry_other(2) [OF n] by (simp add: entries_def s')
  have m: "m_used s' = xs @ ys" "map_of (m_cache s') = (map_of (m_cache s))(key := None)" by (simp_all add: s' delete_conv')
  have sub: "set (xs @ ys) \<subseteq> set (m_used s)" using u by auto
  show "lru_inv s'"
  proof (rule lru_invI)
    show "distinct (map fst (m_cache s'))" using D(1) by (simp add: s' distinct_delete)
    show "distinct (map fst (m_used s'))" "distinct (map snd (m_used s'))" using D(2,3) u m(1) by auto
    have "k \<in> snd ` set (xs @ ys) \<longleftrightarrow> k \<in> snd ` set (m_used s) \<and> k \<noteq> key" for k using u n by auto
    then show "\<forall>k. k \<in> snd ` set (m_used s') \<longleftrightarrow> map_of (m_cache s') k \<noteq> None" unfolding m using D(4) by auto
    show "\<forall>j k v' j' t'. (j, k) \<in> set (m_used s') \<longrightarrow> map_of (m_cache s') k = Some (v', j', t') \<longrightarrow> j' = j"
      unfolding m using D(5) sub by (auto split: if_splits)
    show "\<forall>j k. (j, k) \<in> set (m_used s') \<longrightarrow> j < next_node s'" unfolding m(1) using D(6) sub by (auto simp: s')
    show "length (m_used s') \<le> m_capacity s'" using D(7) u by (simp add: s')
  qed
qed

lemma fresh_ok:
  assumes I: "lru_inv s" and k: "map_of (m_cache s) key = None" and l: "length (m_used s) < m_capacity s"
    and s': "s' = s\<lparr>m_used := (next_node s, key) # m_used s, next_node := Suc (next_node s), m_cache := AList.update key (v, next_node s, now) (m_cache s)\<rparr>"
  shows "lru_inv s'" and "entries s' = (key, v, now) # entries s"
proof -
  note D = lru_invD [OF I]
  have n: "key \<notin> snd ` set (m_used s)" using D(4) k by simp
  have e: "entry (AList.update key (v, next_node s, now) (m_cache s)) (next_node s, key) = (key, v, now)" by (simp add: entry_def update_conv')
  show "entries s' = (key, v, now) # entries s" using entry_other(1) [OF n, of "(v, next_node s, now)" "m_cache s"] e by (simp add: entries_def s')
  have m: "m_used s' = (next_node s, key) # m_used s" "map_of (m_cache s') = (map_of (m_cache s))(key \<mapsto> (v, next_node s, now))"
    by (simp_all add: s' update_conv')
  show "lru_inv s'"
  proof (rule lru_invI)
    show "distinct (map fst (m_cache s'))" using D(1) by (simp add: s' distinct_update)
    have "next_node s \<notin> fst ` set (m_used s)" using D(6) by force
    then show "distinct (map fst (m_used s'))" "distinct (map snd (m_used s'))" using D(2,3) n m(1) by auto
    show "\<forall>k. k \<in> snd ` set (m_used s') \<longleftrightarrow> map_of (m_cache s') k \<noteq> None" unfolding m using D(4) by auto
    show "\<forall>j k v' j' t'. (j, k) \<in> set (m_used s') \<longrightarrow> map_of (m_cache s') k = Some (v', j', t') \<longrightarrow> j' = j"
      unfolding m using D(5) n by (auto split: if_splits) (metis image_eqI snd_conv)
    show "\<forall>j k. (j, k) \<in> set (m_used s') \<longrightarrow> j < next_node s'" using D(6) m(1) by (auto simp: s' less_Suc_eq)
    show "length (m_used s') \<le> m_capacity s'" using l by (simp add: s')
  qed
qed

section \<open>Operations\<close>

lemma filter_node: "i \<notin> fst ` set zs \<Longrightarrow> filter (\<lambda>(j, _). j \<noteq> i) zs = zs"
  by (induction zs) auto

lemma find_ok:
  assumes I: "lru_inv s"
  shows "case map_of (entries s) key of
      None \<Rightarrow> lru_find key now now' s = Some (None, s)
    | Some (v, t) \<Rightarrow>
        if seconds (now - t) > m_ttl s
        then (\<exists>s'. lru_find key now now' s = Some (None, s') \<and> lru_inv s' \<and> entries s' = filter (\<lambda>(k, _). k \<noteq> key) (entries s))
        else (\<exists>s'. lru_find key now now' s = Some (Some v, s') \<and> lru_inv s' \<and>
                entries s' = (key, v, now') # filter (\<lambda>(k, _). k \<noteq> key) (entries s))"
proof (cases "map_of (m_cache s) key")
  case None
  then show ?thesis by (simp add: map_of_entries [OF I] lru_find_def)
next
  case (Some vit)
  then obtain v i t where k: "map_of (m_cache s) key = Some (v, i, t)" by (cases vit) auto
  obtain xs ys where u: "m_used s = xs @ (i, key) # ys" "key \<notin> snd ` set (xs @ ys)" "i \<notin> fst ` set (xs @ ys)" by (rule used_split [OF I k])
  let ?d = "s\<lparr>m_used := xs @ ys, m_cache := AList.delete key (m_cache s)\<rparr>"
  have "filter (\<lambda>(j, _). j \<noteq> i) (m_used s) = xs @ ys" using u filter_node [of i xs] filter_node [of i ys] by (simp add: image_Un)
  then have gone: "seconds (now - t) > m_ttl s \<Longrightarrow> lru_find key now now' s = Some (None, ?d)" using k by (simp add: lru_find_def)
  have d: "lru_inv ?d" "entries ?d = filter (\<lambda>(k, _). k \<noteq> key) (entries s)"
    using drop_ok [OF I u(1) refl] entries_filter [OF u(1,2)] by simp_all
  obtain s1 where s1: "touch key now' s = Some s1" "lru_inv s1" "entries s1 = (key, v, now') # filter (\<lambda>(k, _). k \<noteq> key) (entries s)"
    using touch_ok [OF I k] by blast
  then have "\<not> seconds (now - t) > m_ttl s \<Longrightarrow> lru_find key now now' s = Some (Some v, s1)" using k by (simp add: lru_find_def)
  then show ?thesis using gone d s1(2,3) k by (simp add: map_of_entries [OF I])
qed

lemma emplace_known:
  assumes I: "lru_inv s" and k: "map_of (m_cache s) key = Some (v, i, t)"
  shows "\<exists>s'. emplace key x now now' s = Some s' \<and> lru_inv s' \<and> entries s' = (key, x, now') # filter (\<lambda>(k, _). k \<noteq> key) (entries s)"
proof -
  obtain s2 where s2: "touch key now s = Some s2" "lru_inv s2" "entries s2 = (key, v, now) # filter (\<lambda>(k, _). k \<noteq> key) (entries s)"
    "map_of (m_cache s2) key = Some (v, i, now)" "begin_node s2 = Some i" using touch_ok [OF I k] by blast
  let ?s = "s2\<lparr>m_used := splice_front i (m_used s2), m_cache := AList.update key (x, i, now') (m_cache s2)\<rparr>"
  obtain k' us where us: "m_used s2 = (i, k') # us" using s2(5) by (auto simp: begin_node_def split: list.splits)
  then have n: "i \<notin> fst ` set us" using lru_invD(2) [OF s2(2)] by simp
  then have "filter (\<lambda>(j, _). j = i) us = []" by (induction us) auto
  then have "splice_front i (m_used s2) = m_used s2" using us filter_node [OF n] by (simp add: splice_front_def)
  then have "emplace key x now now' s = Some ?s" using k s2(1,5) by (simp add: emplace_def)
  moreover have "filter (\<lambda>(k, _). k \<noteq> key) (entries s2) = filter (\<lambda>(k, _). k \<noteq> key) (entries s)" by (simp add: s2(3))
  ultimately show ?thesis using to_front_ok(1,2) [OF s2(2,4), of ?s x now', OF refl] by auto
qed

lemma emplace_new:
  assumes I: "lru_inv s" and k: "map_of (m_cache s) key = None" and c: "0 < m_capacity s"
  shows "\<exists>s'. emplace key x now now' s = Some s' \<and> lru_inv s' \<and>
    entries s' = (key, x, now') # (if length (entries s) = m_capacity s then butlast (entries s) else entries s)"
proof (cases "length (m_used s) = m_capacity s")
  case False
  have l: "length (m_used s) < m_capacity s" using False lru_invD(7) [OF I] by simp
  note F = fresh_ok [OF I k l refl, of x now']
  have "emplace key x now now' s = Some (s\<lparr>m_used := (next_node s, key) # m_used s, next_node := Suc (next_node s),
      m_cache := AList.update key (x, next_node s, now') (m_cache s)\<rparr>)"
    using k False length_cache [OF I] by (simp add: emplace_def begin_node_def)
  then show ?thesis using F False by (simp add: entries_def)
next
  case True
  then have "m_used s \<noteq> []" using c by auto
  then obtain xs i old where u: "m_used s = xs @ [(i, old)]" by (cases "m_used s" rule: rev_cases) auto
  define s1 where "s1 = s\<lparr>m_used := xs @ [], m_cache := AList.delete old (m_cache s)\<rparr>"
  note E = drop_ok [OF I u s1_def]
  have ev: "evict s = Some s1" using u by (simp add: evict_def s1_def)
  have k1: "map_of (m_cache s1) key = None" using k by (simp add: s1_def delete_conv')
  have l: "length (m_used s1) < m_capacity s1" using True u by (simp add: s1_def)
  note F = fresh_ok [OF E(1) k1 l refl, of x now']
  have "emplace key x now now' s = Some (s1\<lparr>m_used := (next_node s1, key) # m_used s1, next_node := Suc (next_node s1),
      m_cache := AList.update key (x, next_node s1, now') (m_cache s1)\<rparr>)"
    using k True length_cache [OF I] ev by (simp add: emplace_def begin_node_def)
  moreover have "entries s1 = butlast (entries s)" using E(2) u by (simp add: entries_def)
  moreover have "length (entries s) = m_capacity s" using True by (simp add: entries_def)
  ultimately show ?thesis using F by simp
qed

section \<open>Properties\<close>

text \<open>
  C35. The cache is a list of at most \<open>m_capacity\<close> entries, the most recently used one first. \<open>find\<close> returns the value of a key and
  moves its entry to the front with a new time, or removes the entry when its time to live is over; \<open>emplace\<close> puts the entry to the
  front, in place of the entry of the same key or, in a full cache, of the last one. Both sizes are the length of the list.
\<close>

theorem lru_refines:
  assumes "lru_inv s" and "0 < m_capacity s"
  shows "(case map_of (entries s) key of
        None \<Rightarrow> lru_find key now now' s = Some (None, s)
      | Some (v, t) \<Rightarrow>
          if seconds (now - t) > m_ttl s
          then (\<exists>s'. lru_find key now now' s = Some (None, s') \<and> lru_inv s' \<and> entries s' = filter (\<lambda>(k, _). k \<noteq> key) (entries s))
          else (\<exists>s'. lru_find key now now' s = Some (Some v, s') \<and> lru_inv s' \<and>
                  entries s' = (key, v, now') # filter (\<lambda>(k, _). k \<noteq> key) (entries s))) \<and>
    (\<exists>s'. emplace key x now now' s = Some s' \<and> lru_inv s' \<and>
       entries s' = (key, x, now') #
         (if map_of (entries s) key \<noteq> None then filter (\<lambda>(k, _). k \<noteq> key) (entries s)
          else if length (entries s) = m_capacity s then butlast (entries s) else entries s)) \<and>
    lru_size s = length (entries s) \<and> listSize s = length (entries s) \<and> length (entries s) \<le> m_capacity s"
proof (intro conjI)
  show "\<exists>s'. emplace key x now now' s = Some s' \<and> lru_inv s' \<and>
     entries s' = (key, x, now') #
       (if map_of (entries s) key \<noteq> None then filter (\<lambda>(k, _). k \<noteq> key) (entries s)
        else if length (entries s) = m_capacity s then butlast (entries s) else entries s)"
  proof (cases "map_of (m_cache s) key")
    case None
    then show ?thesis using emplace_new [OF assms(1) None assms(2)] by (simp add: map_of_entries [OF assms(1)])
  next
    case (Some vit)
    then show ?thesis using emplace_known [OF assms(1)] by (cases vit) (simp add: map_of_entries [OF assms(1)])
  qed
qed (use find_ok [OF assms(1)] length_cache [OF assms(1)] lru_invD(7) [OF assms(1)] in \<open>simp_all add: lru_size_def listSize_def entries_def\<close>)

theorem lru_refines_witness:
  "\<exists>s :: (nat, nat) lru. emplace 1 7 0 0 (ExpiringLruCache 2 10) = Some s \<and> lru_inv s \<and> entries s = [(1, 7, 0)]"
proof -
  have "lru_inv (ExpiringLruCache 2 10 :: (nat, nat) lru)" "0 < m_capacity (ExpiringLruCache 2 10 :: (nat, nat) lru)"
    by (auto simp: lru_inv_def ExpiringLruCache_def)
  from lru_refines [OF this, of 1 0 0 7] show ?thesis by (auto simp: entries_def ExpiringLruCache_def)
qed

end
