(* ===== verification/Work_Queues.thy ===== *)
theory Work_Queues
  imports Godby_Prelude "HOL-Library.Monad_Syntax"
begin

text \<open>
  The queues of \<^verbatim>\<open>samples/io_service.h\<close>: the array both are built on, the first-in first-out queue between
  one producer and one consumer, and the work-stealing queue of the coroutine scheduler. The arrays live in a heap,
  because a reader may still hold one that was replaced; an access to an array that was deleted has no result. The
  indices are 64-bit words that wrap around. The operations are functions, run without interference, and the steps of
  concurrent threads.
\<close>

section \<open>The circular array\<close>

record 'a circular_array =
  M_capacity :: u64
  M_mask :: u64
  cells :: "'a list"

definition circular_array :: "'a \<Rightarrow> u64 \<Rightarrow> 'a circular_array" where
  "circular_array dflt n = \<lparr>M_capacity = n, M_mask = n - 1, cells = replicate (unat n) dflt\<rparr>"

definition array_push :: "u64 \<Rightarrow> 'a \<Rightarrow> 'a circular_array \<Rightarrow> 'a circular_array" where
  "array_push i x a = a\<lparr>cells := (cells a)[unat (i AND M_mask a) := x]\<rparr>"

definition array_pop :: "u64 \<Rightarrow> 'a circular_array \<Rightarrow> 'a" where
  "array_pop i a = cells a ! unat (i AND M_mask a)"

text \<open>The loop of \<open>resize\<close>, which counts up modulo the word size.\<close>

function copy_range :: "'a circular_array \<Rightarrow> u64 \<Rightarrow> u64 \<Rightarrow> 'a circular_array \<Rightarrow> 'a circular_array" where
  "copy_range a back i ptr =
     (if i \<noteq> back then copy_range a back (i + 1) (array_push i (array_pop i a) ptr) else ptr)"
  by pat_completeness auto
termination
proof (relation "measure (\<lambda>(a, back, i, ptr). unat (back - i))", goal_cases)
  case (2 a b i ptr)
  then have "b - i \<noteq> 0" by simp
  then have "unat (b - i - 1) < unat (b - i)" by (rule unat_pred_less)
  moreover have "b - (i + 1) = b - i - 1" by (simp add: diff_diff_eq)
  ultimately have "unat (b - (i + 1)) < unat (b - i)" by (simp only:)
  then show ?case by simp
qed simp

declare copy_range.simps [simp del]

definition array_resize :: "'a \<Rightarrow> u64 \<Rightarrow> u64 \<Rightarrow> 'a circular_array \<Rightarrow> 'a circular_array" where
  "array_resize dflt back front a = copy_range a back front (circular_array dflt (2 * M_capacity a))"

section \<open>The queue between one producer and one consumer\<close>

record 'a work_queue =
  M_front :: u64
  M_back :: u64
  M_data :: nat
  M_old :: "nat option"
  heap :: "'a circular_array option list"

definition array_at :: "nat \<Rightarrow> 'a work_queue \<Rightarrow> 'a circular_array option" where
  "array_at p q = (if p < length (heap q) then heap q ! p else None)"

definition io_work_queue :: "'a \<Rightarrow> u64 \<Rightarrow> 'a work_queue" where
  "io_work_queue dflt n =
     \<lparr>M_front = 0, M_back = 0, M_data = 0, M_old = None, heap = [Some (circular_array dflt n)]\<rparr>"

definition empty :: "'a work_queue \<Rightarrow> bool" where
  "empty q \<longleftrightarrow> M_back q = M_front q"

definition delete_array :: "nat option \<Rightarrow> 'a work_queue \<Rightarrow> 'a work_queue option" where
  "delete_array p q = (case p of
      None \<Rightarrow> Some q
    | Some p \<Rightarrow> do { _ \<leftarrow> array_at p q; Some (q\<lparr>heap := (heap q)[p := None]\<rparr>) })"

text \<open>\<open>resize\<close> up to the store of \<open>M_data\<close>, and with it.\<close>

definition resize_copy :: "'a \<Rightarrow> nat \<Rightarrow> u64 \<Rightarrow> u64 \<Rightarrow> 'a work_queue \<Rightarrow> (nat \<times> 'a work_queue) option" where
  "resize_copy dflt data back front q = do {
     a \<leftarrow> array_at data q;
     let new_data = length (heap q);
     let q = q\<lparr>heap := heap q @ [Some (array_resize dflt back front a)]\<rparr>;
     q \<leftarrow> delete_array (M_old q) q;
     Some (new_data, q\<lparr>M_old := Some data\<rparr>) }"

definition resize :: "'a \<Rightarrow> nat \<Rightarrow> u64 \<Rightarrow> u64 \<Rightarrow> 'a work_queue \<Rightarrow> (nat \<times> 'a work_queue) option" where
  "resize dflt data back front q = do {
     (new_data, q) \<leftarrow> resize_copy dflt data back front q;
     Some (new_data, q\<lparr>M_data := new_data\<rparr>) }"

definition write_cell :: "nat \<Rightarrow> u64 \<Rightarrow> 'a \<Rightarrow> 'a work_queue \<Rightarrow> 'a work_queue option" where
  "write_cell data i x q = do {
     a \<leftarrow> array_at data q;
     Some (q\<lparr>heap := (heap q)[data := Some (array_push i x a)]\<rparr>) }"

text \<open>The tests of \<open>enqueue\<close> and of \<open>bulk_enqueue\<close>.\<close>

definition enqueue_full :: "u64 \<Rightarrow> u64 \<Rightarrow> u64 \<Rightarrow> bool" where
  "enqueue_full sz back front \<longleftrightarrow>
     sz - 1 < back - front \<and>
     (if back < front then sz - 1 < (back + ((0 - 1) - front)) + 1 else True)"

definition bulk_full :: "u64 \<Rightarrow> u64 \<Rightarrow> u64 \<Rightarrow> u64 \<Rightarrow> bool" where
  "bulk_full sz items_count back front \<longleftrightarrow>
     sz - 1 - items_count < back - front \<and>
     (if back < front then sz - 1 - items_count < (back + ((0 - 1) - front)) + 1 else True)"

definition enqueue :: "'a \<Rightarrow> 'a \<Rightarrow> 'a work_queue \<Rightarrow> 'a work_queue option" where
  "enqueue dflt item q = do {
     let back = M_back q;
     let front = M_front q;
     let data = M_data q;
     a \<leftarrow> array_at data q;
     (data, q) \<leftarrow> (if enqueue_full (M_capacity a) back front then resize dflt data back front q else Some (data, q));
     q \<leftarrow> write_cell data back item q;
     Some (q\<lparr>M_back := back + 1\<rparr>) }"

fun push_items :: "nat \<Rightarrow> u64 \<Rightarrow> 'a list \<Rightarrow> 'a work_queue \<Rightarrow> 'a work_queue option" where
  "push_items data i [] q = Some q"
| "push_items data i (x # xs) q = do { q \<leftarrow> write_cell data i x q; push_items data (i + 1) xs q }"

definition bulk_enqueue :: "'a \<Rightarrow> 'a list \<Rightarrow> 'a work_queue \<Rightarrow> 'a work_queue option" where
  "bulk_enqueue dflt items q = do {
     let items_count = of_nat (length items);
     let back = M_back q;
     let front = M_front q;
     let data = M_data q;
     a \<leftarrow> array_at data q;
     (data, q) \<leftarrow>
       (if bulk_full (M_capacity a) items_count back front then resize dflt data back front q else Some (data, q));
     q \<leftarrow> push_items data back items q;
     Some (q\<lparr>M_back := back + items_count\<rparr>) }"

definition dequeue :: "'a work_queue \<Rightarrow> ('a option \<times> 'a work_queue) option" where
  "dequeue q =
     (let back = M_back q; front = M_front q in
      if back = front then Some (None, q)
      else do {
        a \<leftarrow> array_at (M_data q) q;
        Some (Some (array_pop front a), q\<lparr>M_front := M_front q + 1\<rparr>) })"

section \<open>The work-stealing queue\<close>

definition work_stealing_queue :: "'a \<Rightarrow> u64 \<Rightarrow> 'a work_queue" where
  "work_stealing_queue dflt n =
     \<lparr>M_front = 0, M_back = 0, M_data = 0, M_old = None, heap = [Some (circular_array dflt n)]\<rparr>"

definition stealing_empty :: "'a work_queue \<Rightarrow> bool" where
  "stealing_empty q \<longleftrightarrow> M_back q = M_front q"

definition stealing_full :: "u64 \<Rightarrow> u64 \<Rightarrow> u64 \<Rightarrow> bool" where
  "stealing_full sz back front \<longleftrightarrow>
     sz - 1 < back - front \<and> front - 1 \<noteq> back \<and>
     (if back < front - 1 then sz - 1 < (back + ((0 - 1) - front)) + 1 else True)"

definition stealing_enqueue :: "'a \<Rightarrow> 'a \<Rightarrow> 'a work_queue \<Rightarrow> 'a work_queue option" where
  "stealing_enqueue dflt item q = do {
     let back = M_back q;
     let front = M_front q;
     let data = M_data q;
     a \<leftarrow> array_at data q;
     (data, q) \<leftarrow> (if stealing_full (M_capacity a) back front then resize dflt data back front q else Some (data, q));
     q \<leftarrow> write_cell data back item q;
     Some (q\<lparr>M_back := back + 1\<rparr>) }"

text \<open>Run alone, the compare-and-exchange succeeds.\<close>

definition stealing_dequeue :: "'a work_queue \<Rightarrow> ('a option \<times> 'a work_queue) option" where
  "stealing_dequeue q =
     (let back = M_back q; data = M_data q; front = M_front q in
      if front = back \<or> front = back + 1 then Some (None, q)
      else let back = back - 1; q = q\<lparr>M_back := back\<rparr> in do {
        a \<leftarrow> array_at data q;
        let item = array_pop back a;
        Some (Some item, if front = back then q\<lparr>M_back := back + 1, M_front := front + 1\<rparr> else q) })"

definition steal :: "'a work_queue \<Rightarrow> ('a option \<times> 'a work_queue) option" where
  "steal q =
     (let front = M_front q; back = M_back q in
      if back = front \<or> back + 1 = front then Some (None, q)
      else do {
        a \<leftarrow> array_at (M_data q) q;
        Some (Some (array_pop front a), q\<lparr>M_front := front + 1\<rparr>) })"

section \<open>A producer and a consumer\<close>

text \<open>
  One thread enqueues and one dequeues. The producer alone writes \<open>M_back\<close>, \<open>M_data\<close>, \<open>M_old\<close> and the cells, the
  consumer alone writes \<open>M_front\<close>, so that each step has at most one access to memory the other thread writes.
\<close>

datatype 'a request = Enqueue 'a | Bulk_enqueue "'a list"

fun request_items :: "'a request \<Rightarrow> 'a list" where
  "request_items (Enqueue x) = [x]"
| "request_items (Bulk_enqueue xs) = xs"

fun request_full :: "'a request \<Rightarrow> u64 \<Rightarrow> u64 \<Rightarrow> u64 \<Rightarrow> bool" where
  "request_full (Enqueue x) sz back front = enqueue_full sz back front"
| "request_full (Bulk_enqueue xs) sz back front = bulk_full sz (of_nat (length xs)) back front"

datatype 'a producer_pc =
    P_idle
  | P_resize u64 u64 "'a list"
  | P_store nat u64 "'a list"
  | P_write u64 "'a list" "'a list"

datatype 'a consumer_pc =
    C_idle
  | C_front u64
  | C_array u64 nat
  | C_item 'a

record 'a spsc =
  queue :: "'a work_queue"
  producer :: "'a producer_pc"
  consumer :: "'a consumer_pc"

datatype 'a spsc_label =
  Silent | Started "'a request" | Copied | Grown | Enqueued "'a list" | Loaded | Dequeued "'a option" | Fault

text \<open>A step that uses a deleted array is labelled \<open>Fault\<close>.\<close>

inductive spsc_step :: "'a \<Rightarrow> 'a spsc \<Rightarrow> 'a spsc_label \<Rightarrow> 'a spsc \<Rightarrow> bool" for dflt where
  enqueue_start: "producer s = P_idle \<Longrightarrow> array_at (M_data (queue s)) (queue s) = Some a \<Longrightarrow>
    spsc_step dflt s (Started r)
      (s\<lparr>producer := if request_full r (M_capacity a) (M_back (queue s)) (M_front (queue s))
         then P_resize (M_back (queue s)) (M_front (queue s)) (request_items r)
         else P_write (M_back (queue s)) [] (request_items r)\<rparr>)"
| enqueue_copy: "producer s = P_resize b f items \<Longrightarrow> resize_copy dflt (M_data (queue s)) b f (queue s) = Some (n, q) \<Longrightarrow>
    spsc_step dflt s Copied (s\<lparr>queue := q, producer := P_store n b items\<rparr>)"
| enqueue_copy_fault: "producer s = P_resize b f items \<Longrightarrow> resize_copy dflt (M_data (queue s)) b f (queue s) = None \<Longrightarrow>
    spsc_step dflt s Fault (s\<lparr>producer := P_idle\<rparr>)"
| enqueue_grow: "producer s = P_store n b items \<Longrightarrow>
    spsc_step dflt s Grown (s\<lparr>queue := (queue s)\<lparr>M_data := n\<rparr>, producer := P_write b [] items\<rparr>)"
| enqueue_write: "producer s = P_write b ws (x # xs) \<Longrightarrow>
    write_cell (M_data (queue s)) (b + of_nat (length ws)) x (queue s) = Some q \<Longrightarrow>
    spsc_step dflt s Silent (s\<lparr>queue := q, producer := P_write b (ws @ [x]) xs\<rparr>)"
| enqueue_write_fault: "producer s = P_write b ws (x # xs) \<Longrightarrow>
    write_cell (M_data (queue s)) (b + of_nat (length ws)) x (queue s) = None \<Longrightarrow>
    spsc_step dflt s Fault (s\<lparr>producer := P_idle\<rparr>)"
| enqueue_publish: "producer s = P_write b ws [] \<Longrightarrow>
    spsc_step dflt s (Enqueued ws)
      (s\<lparr>queue := (queue s)\<lparr>M_back := b + of_nat (length ws)\<rparr>, producer := P_idle\<rparr>)"
| dequeue_empty: "consumer s = C_idle \<Longrightarrow> M_back (queue s) = M_front (queue s) \<Longrightarrow>
    spsc_step dflt s (Dequeued None) s"
| dequeue_load: "consumer s = C_idle \<Longrightarrow> M_back (queue s) \<noteq> M_front (queue s) \<Longrightarrow>
    spsc_step dflt s Silent (s\<lparr>consumer := C_front (M_front (queue s))\<rparr>)"
| dequeue_array: "consumer s = C_front f \<Longrightarrow>
    spsc_step dflt s Loaded (s\<lparr>consumer := C_array f (M_data (queue s))\<rparr>)"
| dequeue_item: "consumer s = C_array f p \<Longrightarrow> array_at p (queue s) = Some a \<Longrightarrow>
    spsc_step dflt s Silent (s\<lparr>consumer := C_item (array_pop f a)\<rparr>)"
| dequeue_fault: "consumer s = C_array f p \<Longrightarrow> array_at p (queue s) = None \<Longrightarrow>
    spsc_step dflt s Fault (s\<lparr>consumer := C_idle\<rparr>)"
| dequeue_store: "consumer s = C_item x \<Longrightarrow>
    spsc_step dflt s (Dequeued (Some x))
      (s\<lparr>queue := (queue s)\<lparr>M_front := M_front (queue s) + 1\<rparr>, consumer := C_idle\<rparr>)"

inductive spsc_run :: "'a \<Rightarrow> 'a spsc \<Rightarrow> 'a spsc_label list \<Rightarrow> 'a spsc \<Rightarrow> bool" for dflt where
  spsc_Nil: "spsc_run dflt s [] s"
| spsc_snoc: "spsc_run dflt s ls s1 \<Longrightarrow> spsc_step dflt s1 l s2 \<Longrightarrow> spsc_run dflt s (ls @ [l]) s2"

definition spsc_init :: "'a \<Rightarrow> u64 \<Rightarrow> 'a spsc" where
  "spsc_init dflt n = \<lparr>queue = io_work_queue dflt n, producer = P_idle, consumer = C_idle\<rparr>"

text \<open>The specification: a list, at the end of which items are added and at the head of which they are taken.\<close>

inductive fifo_step :: "'a list \<Rightarrow> 'a spsc_label \<Rightarrow> 'a list \<Rightarrow> bool" where
  fifo_Enqueued: "fifo_step xs (Enqueued ys) (xs @ ys)"
| fifo_Dequeued: "fifo_step (x # xs) (Dequeued (Some x)) xs"
| fifo_None: "fifo_step [] (Dequeued None) []"
| fifo_silent: "l \<in> {Silent, Copied, Grown, Loaded} \<union> range Started \<Longrightarrow> fifo_step xs l xs"

inductive fifo_run :: "'a list \<Rightarrow> 'a spsc_label list \<Rightarrow> 'a list \<Rightarrow> bool" where
  fifo_Nil: "fifo_run xs [] xs"
| fifo_snoc: "fifo_run xs ls ys \<Longrightarrow> fifo_step ys l zs \<Longrightarrow> fifo_run xs (ls @ [l]) zs"

fun started_items :: "'a spsc_label list \<Rightarrow> 'a list" where
  "started_items [] = []"
| "started_items (Started r # ls) = request_items r @ started_items ls"
| "started_items (_ # ls) = started_items ls"

fun enqueued_items :: "'a spsc_label list \<Rightarrow> 'a list" where
  "enqueued_items [] = []"
| "enqueued_items (Enqueued xs # ls) = xs @ enqueued_items ls"
| "enqueued_items (_ # ls) = enqueued_items ls"

fun dequeued_items :: "'a spsc_label list \<Rightarrow> 'a list" where
  "dequeued_items [] = []"
| "dequeued_items (Dequeued (Some x) # ls) = x # dequeued_items ls"
| "dequeued_items (_ # ls) = dequeued_items ls"

text \<open>
  How far the consumer was overtaken since it loaded the address of the array: 1 when it has it, 2 when the array was
  replaced since then, 3 when the next resize has deleted it.
\<close>

fun lag_step :: "nat \<Rightarrow> 'a spsc_label \<Rightarrow> nat" where
  "lag_step n Loaded = 1"
| "lag_step n (Dequeued _) = 0"
| "lag_step n Grown = (if n = 1 then 2 else n)"
| "lag_step n Copied = (if n = 2 then 3 else n)"
| "lag_step n _ = n"

definition lag :: "'a spsc_label list \<Rightarrow> nat" where
  "lag ls = foldl lag_step 0 ls"

text \<open>A schedule of the two threads, each of which takes its next step; the producer is told what to enqueue next.\<close>

datatype 'a spsc_turn = Producer "'a request" | Consumer

fun spsc_move :: "'a \<Rightarrow> 'a spsc_turn \<Rightarrow> 'a spsc \<Rightarrow> ('a spsc_label \<times> 'a spsc) option" where
  "spsc_move dflt (Producer r) s = (case producer s of
      P_idle \<Rightarrow> (case array_at (M_data (queue s)) (queue s) of None \<Rightarrow> None | Some a \<Rightarrow>
        Some (Started r, s\<lparr>producer := if request_full r (M_capacity a) (M_back (queue s)) (M_front (queue s))
          then P_resize (M_back (queue s)) (M_front (queue s)) (request_items r)
          else P_write (M_back (queue s)) [] (request_items r)\<rparr>))
    | P_resize b f items \<Rightarrow> (case resize_copy dflt (M_data (queue s)) b f (queue s) of
        None \<Rightarrow> Some (Fault, s\<lparr>producer := P_idle\<rparr>)
      | Some (n, q) \<Rightarrow> Some (Copied, s\<lparr>queue := q, producer := P_store n b items\<rparr>))
    | P_store n b items \<Rightarrow> Some (Grown, s\<lparr>queue := (queue s)\<lparr>M_data := n\<rparr>, producer := P_write b [] items\<rparr>)
    | P_write b ws (x # xs) \<Rightarrow> (case write_cell (M_data (queue s)) (b + of_nat (length ws)) x (queue s) of
        None \<Rightarrow> Some (Fault, s\<lparr>producer := P_idle\<rparr>)
      | Some q \<Rightarrow> Some (Silent, s\<lparr>queue := q, producer := P_write b (ws @ [x]) xs\<rparr>))
    | P_write b ws [] \<Rightarrow>
        Some (Enqueued ws, s\<lparr>queue := (queue s)\<lparr>M_back := b + of_nat (length ws)\<rparr>, producer := P_idle\<rparr>))"
| "spsc_move dflt Consumer s = (case consumer s of
      C_idle \<Rightarrow> if M_back (queue s) = M_front (queue s) then Some (Dequeued None, s)
        else Some (Silent, s\<lparr>consumer := C_front (M_front (queue s))\<rparr>)
    | C_front f \<Rightarrow> Some (Loaded, s\<lparr>consumer := C_array f (M_data (queue s))\<rparr>)
    | C_array f p \<Rightarrow> (case array_at p (queue s) of
        None \<Rightarrow> Some (Fault, s\<lparr>consumer := C_idle\<rparr>)
      | Some a \<Rightarrow> Some (Silent, s\<lparr>consumer := C_item (array_pop f a)\<rparr>))
    | C_item x \<Rightarrow>
        Some (Dequeued (Some x), s\<lparr>queue := (queue s)\<lparr>M_front := M_front (queue s) + 1\<rparr>, consumer := C_idle\<rparr>))"

fun spsc_exec :: "'a \<Rightarrow> 'a spsc_turn list \<Rightarrow> 'a spsc \<Rightarrow> ('a spsc_label list \<times> 'a spsc) option" where
  "spsc_exec dflt [] s = Some ([], s)"
| "spsc_exec dflt (c # cs) s = do {
     (l, s) \<leftarrow> spsc_move dflt c s;
     (ls, s) \<leftarrow> spsc_exec dflt cs s;
     Some (l # ls, s) }"

section \<open>An owner and thieves\<close>

datatype 'a owner_pc =
    O_idle
  | E_resize u64 u64 'a
  | E_store nat u64 'a
  | E_write u64 'a
  | E_publish u64
  | D_loaded u64 nat u64
  | D_claimed u64 nat u64
  | D_restore u64 'a
  | D_cas u64 'a

datatype 'a thief_pc =
    T_idle
  | T_front u64
  | T_nonempty u64
  | T_array u64 nat
  | T_item u64 'a

record 'a stealing =
  squeue :: "'a work_queue"
  owner :: "'a owner_pc"
  thief :: "nat \<Rightarrow> 'a thief_pc"

datatype 'a stealing_label = Quiet | Enqueued_item 'a | Taken "'a option" | Stolen nat "'a option" | Use_after_free

datatype 'a owner_call = Call_enqueue 'a | Call_dequeue

text \<open>
  The next step of the owner, which is told what to call when it is idle. The results of \<open>dequeue\<close> and \<open>steal\<close> that
  report failure are \<open>Taken None\<close> and \<open>Stolen i None\<close>.
\<close>

fun owner_move :: "'a \<Rightarrow> 'a owner_call \<Rightarrow> 'a stealing \<Rightarrow> 'a stealing_label \<times> 'a stealing" where
  "owner_move dflt c s = (let q = squeue s in case owner s of
      O_idle \<Rightarrow> (case c of
        Call_enqueue x \<Rightarrow> (case array_at (M_data q) q of
            None \<Rightarrow> (Use_after_free, s)
          | Some a \<Rightarrow> (Quiet, s\<lparr>owner := if stealing_full (M_capacity a) (M_back q) (M_front q)
              then E_resize (M_back q) (M_front q) x else E_write (M_back q) x\<rparr>))
      | Call_dequeue \<Rightarrow> if M_front q = M_back q \<or> M_front q = M_back q + 1 then (Taken None, s)
          else (Quiet, s\<lparr>owner := D_loaded (M_back q) (M_data q) (M_front q)\<rparr>))
    | E_resize b f x \<Rightarrow> (case resize_copy dflt (M_data q) b f q of
        None \<Rightarrow> (Use_after_free, s\<lparr>owner := O_idle\<rparr>)
      | Some (n, q) \<Rightarrow> (Quiet, s\<lparr>squeue := q, owner := E_store n b x\<rparr>))
    | E_store n b x \<Rightarrow> (Quiet, s\<lparr>squeue := q\<lparr>M_data := n\<rparr>, owner := E_write b x\<rparr>)
    | E_write b x \<Rightarrow> (case write_cell (M_data q) b x q of
        None \<Rightarrow> (Use_after_free, s\<lparr>owner := O_idle\<rparr>)
      | Some q \<Rightarrow> (Enqueued_item x, s\<lparr>squeue := q, owner := E_publish b\<rparr>))
    | E_publish b \<Rightarrow> (Quiet, s\<lparr>squeue := q\<lparr>M_back := b + 1\<rparr>, owner := O_idle\<rparr>)
    | D_loaded b p f \<Rightarrow> (Quiet, s\<lparr>squeue := q\<lparr>M_back := b - 1\<rparr>, owner := D_claimed (b - 1) p f\<rparr>)
    | D_claimed b p f \<Rightarrow> (case array_at p q of
        None \<Rightarrow> (Use_after_free, s\<lparr>owner := O_idle\<rparr>)
      | Some a \<Rightarrow> if f = b then (Quiet, s\<lparr>owner := D_restore b (array_pop b a)\<rparr>)
          else (Taken (Some (array_pop b a)), s\<lparr>owner := O_idle\<rparr>))
    | D_restore b x \<Rightarrow> (Quiet, s\<lparr>squeue := q\<lparr>M_back := b + 1\<rparr>, owner := D_cas b x\<rparr>)
    | D_cas f x \<Rightarrow> if M_front q = f
        then (Taken (Some x), s\<lparr>squeue := q\<lparr>M_front := f + 1\<rparr>, owner := O_idle\<rparr>)
        else (Taken None, s\<lparr>owner := O_idle\<rparr>))"

fun thief_move :: "nat \<Rightarrow> 'a stealing \<Rightarrow> 'a stealing_label \<times> 'a stealing" where
  "thief_move i s = (let q = squeue s; go = (\<lambda>pc. s\<lparr>thief := (thief s)(i := pc)\<rparr>) in case thief s i of
      T_idle \<Rightarrow> (Quiet, go (T_front (M_front q)))
    | T_front f \<Rightarrow> if M_back q = f \<or> M_back q + 1 = f then (Stolen i None, go T_idle) else (Quiet, go (T_nonempty f))
    | T_nonempty f \<Rightarrow> (Quiet, go (T_array f (M_data q)))
    | T_array f p \<Rightarrow> (case array_at p q of
        None \<Rightarrow> (Use_after_free, go T_idle)
      | Some a \<Rightarrow> (Quiet, go (T_item f (array_pop f a))))
    | T_item f x \<Rightarrow> if M_front q = f then (Stolen i (Some x), (go T_idle)\<lparr>squeue := q\<lparr>M_front := f + 1\<rparr>\<rparr>)
        else (Stolen i None, go T_idle))"

definition stealing_init :: "'a \<Rightarrow> u64 \<Rightarrow> 'a stealing" where
  "stealing_init dflt n = \<lparr>squeue = work_stealing_queue dflt n, owner = O_idle, thief = (\<lambda>_. T_idle)\<rparr>"

datatype 'a stealing_turn = Owner "'a owner_call" | Thief nat

fun stealing_exec :: "'a \<Rightarrow> 'a stealing_turn list \<Rightarrow> 'a stealing \<Rightarrow> 'a stealing_label list \<times> 'a stealing" where
  "stealing_exec dflt [] s = ([], s)"
| "stealing_exec dflt (c # cs) s =
     (let (l, s) = (case c of Owner call \<Rightarrow> owner_move dflt call s | Thief i \<Rightarrow> thief_move i s);
          (ls, s) = stealing_exec dflt cs s
      in (l # ls, s))"

section \<open>Cells of an array\<close>

definition ring_ok :: "'a circular_array \<Rightarrow> bool" where
  "ring_ok a \<longleftrightarrow> (\<exists>k\<le>62. M_capacity a = 2 ^ k \<and> M_mask a = M_capacity a - 1 \<and> length (cells a) = 2 ^ k)"

abbreviation cap :: "'a circular_array \<Rightarrow> nat" where
  "cap a \<equiv> length (cells a)"

definition items_from :: "'a circular_array \<Rightarrow> u64 \<Rightarrow> nat \<Rightarrow> 'a list" where
  "items_from a i n = map (\<lambda>j. array_pop (i + of_nat j) a) [0..<n]"

lemma ring_okD:
  assumes "ring_ok a"
  shows "unat (M_capacity a) = cap a" and "0 < cap a" and "cap a \<le> 2 ^ 62"
    and "unat (i AND M_mask a) = unat i mod cap a" and "cap a dvd 2 ^ 64"
proof -
  obtain k where k: "k \<le> 62" "M_capacity a = 2 ^ k" "M_mask a = 2 ^ k - 1" "cap a = 2 ^ k"
    using assms by (auto simp: ring_ok_def)
  then have "M_mask a = mask k" by (simp add: mask_eq_exp_minus_1)
  then show "unat (i AND M_mask a) = unat i mod cap a" using k(4) by (simp add: unat_and_mask_nat)
  show "unat (M_capacity a) = cap a" "0 < cap a" using k by (simp_all add: unat_two_power)
  show "cap a \<le> 2 ^ 62" unfolding k(4) using k(1) by (intro power_increasing) simp_all
  show "cap a dvd 2 ^ 64" unfolding k(4) using k(1) by (intro le_imp_power_dvd) simp
qed

lemma slot_add:
  assumes "ring_ok a"
  shows "unat ((i + of_nat k) AND M_mask a) = (unat i + k) mod cap a"
proof -
  have "unat (i + of_nat k) mod cap a = (unat i + k) mod 2 ^ 64 mod cap a"
    by (simp add: unat_word_ariths unsigned_of_nat take_bit_eq_mod mod_simps)
  also have "\<dots> = (unat i + k) mod cap a" using ring_okD(5) [OF assms] by (rule mod_mod_cancel)
  finally show ?thesis using ring_okD(4) [OF assms] by simp
qed

lemma ring_push_ok [simp]:
  "ring_ok (array_push i x a) = ring_ok a" "cap (array_push i x a) = cap a" "M_mask (array_push i x a) = M_mask a"
  "M_capacity (array_push i x a) = M_capacity a"
  by (simp_all add: array_push_def ring_ok_def)

lemma pop_push:
  assumes "ring_ok a" and "j < cap a" and "k < cap a"
  shows "array_pop (i + of_nat j) (array_push (i + of_nat k) x a) = (if j = k then x else array_pop (i + of_nat j) a)"
proof -
  have "(unat i + k) mod cap a = (unat i + j) mod cap a \<longleftrightarrow> j = k"
    using assms ring_offset [of k "cap a" j "unat i"] by auto
  moreover have "(unat i + k) mod cap a < cap a" using ring_okD(2) [OF assms(1)] by simp
  ultimately show ?thesis
    by (auto simp: array_pop_def array_push_def slot_add [OF assms(1)] nth_list_update)
qed

lemma circular_array_ok:
  assumes "k \<le> 62"
  shows "ring_ok (circular_array dflt (2 ^ k))" and "cap (circular_array dflt (2 ^ k)) = 2 ^ k"
  using assms by (auto simp: ring_ok_def circular_array_def unat_two_power)

lemma offset_eq_iff: "m < 2 ^ 64 \<Longrightarrow> n < 2 ^ 64 \<Longrightarrow> (f :: u64) + of_nat m = f + of_nat n \<longleftrightarrow> m = n"
  by (simp add: of_nat_eq_iff [symmetric] word_of_nat_eq_iff take_bit_nat_eq_self)

lemma copy_range_items:
  assumes "ring_ok a" and "n \<le> cap a" and "n \<le> cap ptr" and "m \<le> n" and "ring_ok ptr"
  shows "ring_ok (copy_range a (f + of_nat n) (f + of_nat m) ptr) \<and>
    cap (copy_range a (f + of_nat n) (f + of_nat m) ptr) = cap ptr \<and>
    (\<forall>j<n. array_pop (f + of_nat j) (copy_range a (f + of_nat n) (f + of_nat m) ptr) =
      array_pop (f + of_nat j) (if m \<le> j then a else ptr))"
  using assms(4,3,5)
proof (induction m arbitrary: ptr rule: inc_induct)
  case base
  then show ?case by (simp add: copy_range.simps)
next
  case (step m)
  have big: "n < 2 ^ 64" using assms(2) ring_okD(3) [OF assms(1)] by simp
  then have ne: "f + of_nat m \<noteq> f + of_nat n" using step.hyps offset_eq_iff [of m n f] by simp
  let ?ptr = "array_push (f + of_nat m) (array_pop (f + of_nat m) a) ptr"
  have suc: "f + of_nat m + 1 = f + of_nat (Suc m)" by (simp add: algebra_simps)
  have eq: "copy_range a (f + of_nat n) (f + of_nat m) ptr = copy_range a (f + of_nat n) (f + of_nat (Suc m)) ?ptr"
    using ne by (subst copy_range.simps) (simp only: suc if_True not_False_eq_True)
  have push: "array_pop (f + of_nat j) ?ptr = (if j = m then array_pop (f + of_nat m) a else array_pop (f + of_nat j) ptr)"
    if "j < n" for j using that step.hyps step.prems by (intro pop_push) simp_all
  have pop: "array_pop (f + of_nat j) (if Suc m \<le> j then a else ?ptr) = array_pop (f + of_nat j) (if m \<le> j then a else ptr)"
    if "j < n" for j using push [OF that] by (cases "j = m") (auto simp: not_le less_Suc_eq)
  have "n \<le> cap ?ptr" "ring_ok ?ptr" using step.prems by simp_all
  from step.IH [OF this] show ?case unfolding eq using pop step.prems by simp
qed

lemma array_resize_ok:
  assumes "ring_ok a" and "cap a \<le> 2 ^ 61" and "n \<le> cap a"
  shows "ring_ok (array_resize dflt (f + of_nat n) f a)" and "cap (array_resize dflt (f + of_nat n) f a) = 2 * cap a"
    and "items_from (array_resize dflt (f + of_nat n) f a) f n = items_from a f n"
proof -
  obtain k where k: "M_capacity a = 2 ^ k" "cap a = 2 ^ k" using assms(1) by (auto simp: ring_ok_def)
  have "(2 :: nat) ^ k \<le> 2 ^ 61" using assms(2) k(2) by simp
  then have "k \<le> 61" by (rule power_le_imp_le_exp [rotated]) simp
  then have "Suc k \<le> 62" by simp
  note new = circular_array_ok [OF this, of dflt]
  have r: "array_resize dflt (f + of_nat n) f a =
      copy_range a (f + of_nat n) (f + of_nat 0) (circular_array dflt (2 ^ Suc k))"
    by (simp add: array_resize_def k(1))
  have "n \<le> cap (circular_array dflt (2 ^ Suc k))" using new(2) assms(3) k(2) by simp
  note c = copy_range_items [OF assms(1,3) this le0 new(1), of f]
  show "ring_ok (array_resize dflt (f + of_nat n) f a)" unfolding r using c by blast
  show "cap (array_resize dflt (f + of_nat n) f a) = 2 * cap a" unfolding r using c new(2) k(2) by simp
  show "items_from (array_resize dflt (f + of_nat n) f a) f n = items_from a f n"
    unfolding r using c by (simp add: items_from_def)
qed

lemma items_from_Suc: "items_from a f (Suc n) = array_pop f a # items_from a (f + 1) n"
proof -
  have "map (\<lambda>j. array_pop (f + of_nat j) a) [0..<Suc n] = array_pop (f + of_nat 0) a # map (\<lambda>j. array_pop (f + of_nat (Suc j)) a) [0..<n]"
    by (simp only: map_upt_Suc)
  then show ?thesis by (simp add: items_from_def add.assoc)
qed

lemma items_from_snoc: "items_from a f (Suc n) = items_from a f n @ [array_pop (f + of_nat n) a]"
  by (simp add: items_from_def)

lemma items_from_push:
  assumes "ring_ok a" and "n < cap a"
  shows "items_from (array_push (f + of_nat n) x a) f (Suc n) = items_from a f n @ [x]"
    and "items_from (array_push (f + of_nat n) x a) f n = items_from a f n"
  using assms by (auto simp: items_from_def pop_push)

lemma length_items_from [simp]: "length (items_from a f n) = n"
  by (simp add: items_from_def)

section \<open>The tests for a full array\<close>

lemma wrap_distance: "(b + ((0 - 1) - f)) + 1 = b - (f :: u64)"
  by simp

lemma less_pred_iff: "(c :: u64) \<noteq> 0 \<Longrightarrow> c - 1 < d \<longleftrightarrow> unat c \<le> unat d"
  by (metis One_nat_def Suc_le_eq Suc_pred unat_gt_0 unat_pred word_less_nat_alt)

lemma enqueue_full_iff: "c \<noteq> 0 \<Longrightarrow> enqueue_full c b f \<longleftrightarrow> unat c \<le> unat (b - f)"
  unfolding enqueue_full_def wrap_distance by (simp add: less_pred_iff)

lemma stealing_full_iff:
  "c \<noteq> 0 \<Longrightarrow> stealing_full c b f \<longleftrightarrow> unat c \<le> unat (b - f) \<and> b + 1 \<noteq> f"
  unfolding stealing_full_def wrap_distance by (auto simp: less_pred_iff algebra_simps)

lemma bulk_full_iff:
  assumes "unat n < unat c"
  shows "bulk_full c n b f \<longleftrightarrow> unat c \<le> unat n + unat (b - f)"
proof -
  have "unat (c - 1) = unat c - 1" using assms by (intro unat_pred) auto
  moreover from this have "unat (c - 1 - n) = unat (c - 1) - unat n" using assms by (intro unat_sub_small) simp
  ultimately have "c - 1 - n < b - f \<longleftrightarrow> unat c \<le> unat n + unat (b - f)"
    using assms by (auto simp: word_less_nat_alt)
  then show ?thesis unfolding bulk_full_def wrap_distance by simp
qed

section \<open>The parts of an operation\<close>

definition core :: "'a work_queue \<Rightarrow> 'a circular_array \<Rightarrow> 'a list \<Rightarrow> bool" where
  "core q a xs \<longleftrightarrow> array_at (M_data q) q = Some a \<and> ring_ok a \<and> length xs = unat (M_back q - M_front q) \<and>
     length xs \<le> cap a \<and> items_from a (M_front q) (length xs) = xs"

definition old_ok :: "'a work_queue \<Rightarrow> bool" where
  "old_ok q \<longleftrightarrow> (\<forall>p. M_old q = Some p \<longrightarrow> p \<noteq> M_data q \<and> array_at p q \<noteq> None)"

lemma coreD:
  assumes "core q a xs"
  shows "array_at (M_data q) q = Some a" and "ring_ok a" and "length xs = unat (M_back q - M_front q)"
    and "length xs \<le> cap a" and "items_from a (M_front q) (length xs) = xs"
  using assms unfolding core_def by - (elim conjE, assumption)+

lemma coreI:
  assumes "array_at (M_data q) q = Some a" and "ring_ok a" and "length xs = unat (M_back q - M_front q)"
    and "length xs \<le> cap a" and "items_from a (M_front q) (length xs) = xs"
  shows "core q a xs"
  unfolding core_def by (intro conjI assms)

lemma array_at_length: "array_at p q = Some a \<Longrightarrow> p < length (heap q)"
  by (auto simp: array_at_def split: if_splits)

lemma array_at_cong: "heap q = heap q' \<Longrightarrow> array_at p q = array_at p q'"
  by (simp add: array_at_def)

lemma array_at_frame [simp]:
  "array_at p (q\<lparr>M_front := x\<rparr>) = array_at p q" "array_at p (q\<lparr>M_back := x\<rparr>) = array_at p q"
  "array_at p (q\<lparr>M_data := n\<rparr>) = array_at p q" "array_at p (q\<lparr>M_old := r\<rparr>) = array_at p q"
  by (simp_all add: array_at_def)

lemma array_at_append:
  "array_at p (q\<lparr>heap := heap q @ [x]\<rparr>) = (if p = length (heap q) then x else array_at p q)"
  by (simp add: array_at_def nth_append)

lemma array_at_update:
  "array_at p (q\<lparr>heap := (heap q)[p' := x]\<rparr>) = (if p = p' \<and> p < length (heap q) then x else array_at p q)"
  by (simp add: array_at_def nth_list_update)

lemma distance_offset: "length xs = unat (b - f) \<Longrightarrow> (b :: u64) = f + of_nat (length xs)"
  by simp

lemma items_from_drop: "items_from a (f + of_nat d) n = drop d (items_from a f (d + n))"
  by (rule nth_equalityI) (simp_all add: items_from_def algebra_simps)

lemma resize_copy_ok:
  assumes "core q a xs" and "old_ok q" and "cap a \<le> 2 ^ 61" and "M_front q = f + of_nat d" and "d + length xs \<le> cap a"
  obtains q' r where "resize_copy dflt (M_data q) (M_back q) f q = Some (length (heap q), q')"
    and "array_at (length (heap q)) q' = Some r" and "ring_ok r" and "cap r = 2 * cap a"
    and "items_from r (M_front q) (length xs) = xs"
    and "M_front q' = M_front q" and "M_back q' = M_back q" and "M_data q' = M_data q" and "M_old q' = Some (M_data q)"
    and "\<And>p. p < length (heap q) \<Longrightarrow> M_old q \<noteq> Some p \<Longrightarrow> array_at p q' = array_at p q"
    and "M_data q < length (heap q)" and "length (heap q') = Suc (length (heap q))"
proof -
  note a = coreD [OF assms(1)]
  define r where "r = array_resize dflt (M_back q) f a"
  define q1 where "q1 = q\<lparr>heap := heap q @ [Some r]\<rparr>"
  define q2 where "q2 = (case M_old q of None \<Rightarrow> q1 | Some p \<Rightarrow> q1\<lparr>heap := (heap q1)[p := None]\<rparr>)"
  have old: "p < length (heap q)" "array_at p q \<noteq> None" if "M_old q = Some p" for p
    using assms(2) that array_at_length [of p q] by (auto simp: old_ok_def)
  have del: "delete_array (M_old q) q1 = Some q2"
    using old by (auto simp: delete_array_def q2_def q1_def array_at_append split: option.splits)
  have res: "resize_copy dflt (M_data q) (M_back q) f q = Some (length (heap q), q2\<lparr>M_old := Some (M_data q)\<rparr>)"
    using a(1) del by (simp add: resize_copy_def q1_def [symmetric] r_def [symmetric])
  have b: "M_back q = f + of_nat (d + length xs)"
    using distance_offset [OF a(3)] assms(4) by (simp add: algebra_simps)
  note r = array_resize_ok [OF a(2) assms(3,5), where f = f and dflt = dflt, folded b, folded r_def]
  have it: "items_from r (M_front q) (length xs) = xs"
    using r(3) a(5) unfolding assms(4) items_from_drop by simp
  have new: "array_at (length (heap q)) q2 = Some r"
    using old by (auto simp: q2_def q1_def array_at_def nth_append split: option.splits)
  have frame: "array_at p (q2\<lparr>M_old := Some (M_data q)\<rparr>) = array_at p q"
    if "p < length (heap q)" "M_old q \<noteq> Some p" for p
    using that by (auto simp: q2_def q1_def array_at_def nth_append nth_list_update split: option.splits)
  have sel: "M_front q2 = M_front q" "M_back q2 = M_back q" "M_data q2 = M_data q" "length (heap q2) = Suc (length (heap q))"
    by (simp_all add: q2_def q1_def split: option.splits)
  show thesis
    by (rule that [OF res]) (use new r(1,2) it frame sel array_at_length [OF a(1)] in simp_all)
qed

lemma write_cell_core:
  assumes "array_at p q = Some a"
  shows "write_cell p i x q = Some (q\<lparr>heap := (heap q)[p := Some (array_push i x a)]\<rparr>)"
    and "array_at p (q\<lparr>heap := (heap q)[p := Some (array_push i x a)]\<rparr>) = Some (array_push i x a)"
  using assms array_at_length [OF assms] by (simp_all add: write_cell_def array_at_update)

text \<open>The items in the queue, and those the producer has written behind them.\<close>

definition ahead :: "'a work_queue \<Rightarrow> 'a circular_array \<Rightarrow> 'a list \<Rightarrow> 'a list \<Rightarrow> bool" where
  "ahead q a xs ws \<longleftrightarrow> array_at (M_data q) q = Some a \<and> ring_ok a \<and> length xs = unat (M_back q - M_front q) \<and>
     length (xs @ ws) \<le> cap a \<and> items_from a (M_front q) (length (xs @ ws)) = xs @ ws"

lemma aheadD:
  assumes "ahead q a xs ws"
  shows "array_at (M_data q) q = Some a" and "ring_ok a" and "length xs = unat (M_back q - M_front q)"
    and "length (xs @ ws) \<le> cap a" and "items_from a (M_front q) (length (xs @ ws)) = xs @ ws"
  using assms unfolding ahead_def by - (elim conjE, assumption)+

lemma aheadI:
  assumes "array_at (M_data q) q = Some a" and "ring_ok a" and "length xs = unat (M_back q - M_front q)"
    and "length (xs @ ws) \<le> cap a" and "items_from a (M_front q) (length (xs @ ws)) = xs @ ws"
  shows "ahead q a xs ws"
  unfolding ahead_def by (intro conjI assms)

lemma ahead_Nil: "ahead q a xs [] \<longleftrightarrow> core q a xs"
  by (simp add: ahead_def core_def)

lemma items_from_take: "m \<le> n \<Longrightarrow> items_from a f m = take m (items_from a f n)"
  by (simp add: items_from_def take_map)

lemma ahead_core:
  assumes "ahead q a xs ws"
  shows "core q a xs"
proof (rule coreI)
  note a = aheadD [OF assms]
  have "items_from a (M_front q) (length xs) = take (length xs) (items_from a (M_front q) (length (xs @ ws)))"
    by (rule items_from_take) simp
  then show "items_from a (M_front q) (length xs) = xs" using a(5) by simp
qed (use aheadD [OF assms] in simp_all)

lemma ahead_write:
  fixes x :: 'a
  assumes "ahead q a xs ws" and "length (xs @ ws) < cap a"
  defines "a' \<equiv> array_push (M_back q + of_nat (length ws)) x a"
  shows "ahead (q\<lparr>heap := (heap q)[M_data q := Some a']\<rparr>) a' xs (ws @ [x])"
proof (rule aheadI)
  note a = aheadD [OF assms(1)]
  have i: "M_back q + of_nat (length ws) = M_front q + of_nat (length (xs @ ws))"
    using distance_offset [OF a(3)] by (simp add: algebra_simps)
  have it: "items_from a' (M_front q) (Suc (length (xs @ ws))) = (xs @ ws) @ [x]"
    unfolding a'_def i using items_from_push(1) [OF a(2) assms(2)] a(5) by simp
  then show "items_from a' (M_front (q\<lparr>heap := (heap q)[M_data q := Some a']\<rparr>)) (length (xs @ ws @ [x])) = xs @ ws @ [x]"
    by simp
  show "array_at (M_data (q\<lparr>heap := (heap q)[M_data q := Some a']\<rparr>)) (q\<lparr>heap := (heap q)[M_data q := Some a']\<rparr>) = Some a'"
    using array_at_length [OF a(1)] by (simp add: array_at_update)
qed (use aheadD [OF assms(1)] assms(2) in \<open>simp_all add: a'_def\<close>)

lemma ahead_publish:
  assumes "ahead q a xs ws"
  shows "core (q\<lparr>M_back := M_back q + of_nat (length ws)\<rparr>) a (xs @ ws)"
proof (rule coreI)
  note a = aheadD [OF assms]
  have "M_back q + of_nat (length ws) - M_front q = of_nat (length (xs @ ws))"
    using distance_offset [OF a(3)] by (simp add: algebra_simps)
  moreover have "length (xs @ ws) < 2 ^ 64" using a(4) ring_okD(3) [OF a(2)] by simp
  ultimately have "unat (M_back q + of_nat (length ws) - M_front q) = length (xs @ ws)"
    by (simp only: unsigned_of_nat take_bit_nat_eq_self_iff) (simp add: take_bit_nat_eq_self)
  then show "length (xs @ ws) = unat (M_back (q\<lparr>M_back := M_back q + of_nat (length ws)\<rparr>) - M_front (q\<lparr>M_back := M_back q + of_nat (length ws)\<rparr>))"
    by simp
qed (use aheadD [OF assms] in simp_all)

lemma ahead_take:
  assumes "ahead q a (x # xs) ws"
  shows "ahead (q\<lparr>M_front := M_front q + 1\<rparr>) a xs ws" and "array_pop (M_front q) a = x"
proof -
  note a = aheadD [OF assms]
  have it: "array_pop (M_front q) a = x" "items_from a (M_front q + 1) (length (xs @ ws)) = xs @ ws"
    using a(5) by (simp_all add: items_from_Suc)
  have "M_back q - M_front q \<noteq> 0" using a(3) by auto
  then have "unat (M_back q - M_front q - 1) = length xs" using a(3) by (simp add: unat_pred)
  then have "length xs = unat (M_back q - (M_front q + 1))" by (simp add: diff_diff_eq)
  with a it show "ahead (q\<lparr>M_front := M_front q + 1\<rparr>) a xs ws" by (intro aheadI) simp_all
  show "array_pop (M_front q) a = x" by (rule it)
qed

section \<open>The operations, run alone\<close>

definition holds :: "'a work_queue \<Rightarrow> nat \<Rightarrow> 'a list \<Rightarrow> bool" where
  "holds q c xs \<longleftrightarrow> (\<exists>a. core q a xs \<and> cap a = c) \<and> old_ok q"

lemma resize_core:
  assumes "core q a xs" and "old_ok q" and "cap a \<le> 2 ^ 61"
  obtains q' r where "resize dflt (M_data q) (M_back q) (M_front q) q = Some (M_data q', q')" and "core q' r xs"
    and "old_ok q'" and "cap r = 2 * cap a" and "M_front q' = M_front q" and "M_back q' = M_back q"
proof -
  have "M_front q = M_front q + of_nat 0" "0 + length xs \<le> cap a" using coreD(4) [OF assms(1)] by simp_all
  then obtain q1 r where q1: "resize_copy dflt (M_data q) (M_back q) (M_front q) q = Some (length (heap q), q1)"
      "array_at (length (heap q)) q1 = Some r" "ring_ok r" "cap r = 2 * cap a" "items_from r (M_front q) (length xs) = xs"
      "M_front q1 = M_front q" "M_back q1 = M_back q" "M_old q1 = Some (M_data q)" "M_data q < length (heap q)"
      and fr: "\<And>p. p < length (heap q) \<Longrightarrow> M_old q \<noteq> Some p \<Longrightarrow> array_at p q1 = array_at p q"
    by (rule resize_copy_ok [OF assms]) blast
  have old: "array_at (M_data q) q1 = Some a"
    using fr [OF q1(9)] assms(2) coreD(1) [OF assms(1)] by (auto simp: old_ok_def)
  have "core (q1\<lparr>M_data := length (heap q)\<rparr>) r xs" "old_ok (q1\<lparr>M_data := length (heap q)\<rparr>)"
    using q1 coreD [OF assms(1)] old by (auto simp: core_def old_ok_def)
  then show thesis using q1 by (intro that [of "q1\<lparr>M_data := length (heap q)\<rparr>" r]) (simp_all add: resize_def)
qed

lemma old_ok_write: "old_ok q \<Longrightarrow> old_ok (q\<lparr>heap := (heap q)[M_data q := x]\<rparr>)"
  by (auto simp: old_ok_def array_at_update)

lemma push_items_ok:
  "ahead q a xs ws \<Longrightarrow> old_ok q \<Longrightarrow> length (xs @ ws @ ys) \<le> cap a \<Longrightarrow>
    \<exists>q' a'. push_items (M_data q) (M_back q + of_nat (length ws)) ys q = Some q' \<and> ahead q' a' xs (ws @ ys) \<and>
      old_ok q' \<and> cap a' = cap a \<and> M_back q' = M_back q"
proof (induction ys arbitrary: q a ws)
  case (Cons y ys)
  let ?a = "array_push (M_back q + of_nat (length ws)) y a"
  let ?q = "q\<lparr>heap := (heap q)[M_data q := Some ?a]\<rparr>"
  have "length (xs @ ws) < cap a" using Cons.prems(3) by simp
  then have "ahead ?q ?a xs (ws @ [y])" by (rule ahead_write [OF Cons.prems(1)])
  moreover have "old_ok ?q" using Cons.prems(2) by (rule old_ok_write)
  moreover have "length (xs @ (ws @ [y]) @ ys) \<le> cap ?a" using Cons.prems(3) by simp
  ultimately have "\<exists>q' a'. push_items (M_data ?q) (M_back ?q + of_nat (length (ws @ [y]))) ys ?q = Some q' \<and>
      ahead q' a' xs ((ws @ [y]) @ ys) \<and> old_ok q' \<and> cap a' = cap ?a \<and> M_back q' = M_back ?q"
    by (rule Cons.IH)
  then show ?case
    using write_cell_core(1) [OF aheadD(1) [OF Cons.prems(1)]] by (simp add: ac_simps)
qed (auto intro: exI [of _ a])

lemma enqueue_write:
  assumes "core q a xs" and "old_ok q" and "length xs < cap a"
  obtains q' where "write_cell (M_data q) (M_back q) x q = Some q'" and "holds (q'\<lparr>M_back := M_back q + 1\<rparr>) (cap a) (xs @ [x])"
proof -
  have ah: "ahead q a xs []" using assms(1) by (simp only: ahead_Nil)
  let ?a = "array_push (M_back q + of_nat (length ([] :: 'a list))) x a"
  let ?q = "q\<lparr>heap := (heap q)[M_data q := Some ?a]\<rparr>"
  have w: "ahead ?q ?a xs ([] @ [x])" by (rule ahead_write [OF ah]) (use assms(3) in simp)
  have "core (?q\<lparr>M_back := M_back ?q + of_nat (length [x])\<rparr>) ?a (xs @ [x])"
    using ahead_publish [OF w] by (simp only: append_Nil)
  moreover have "old_ok (?q\<lparr>M_back := M_back q + 1\<rparr>)"
    using old_ok_write [OF assms(2)] by (simp add: old_ok_def)
  ultimately have "holds (?q\<lparr>M_back := M_back q + 1\<rparr>) (cap a) (xs @ [x])"
    unfolding holds_def by (intro conjI exI [of _ ?a]) simp_all
  then show thesis using write_cell_core(1) [OF coreD(1) [OF assms(1)]] by (intro that [of ?q]) simp_all
qed

lemma core_capacity: "core q a xs \<Longrightarrow> M_capacity a \<noteq> 0" "core q a xs \<Longrightarrow> unat (M_capacity a) = cap a"
  using ring_okD(1,2) [OF coreD(2)] by (metis less_irrefl unat_0)+

lemma enqueue_ok:
  assumes "holds q c xs" and "length xs < 2 ^ 61"
  obtains q' c' where "enqueue dflt x q = Some q'" and "holds q' c' (xs @ [x])" and "c \<le> c'"
proof -
  obtain a where a: "core q a xs" "cap a = c" "old_ok q" using assms(1) by (auto simp: holds_def)
  have full: "enqueue_full (M_capacity a) (M_back q) (M_front q) \<longleftrightarrow> length xs = cap a"
    using core_capacity [OF a(1)] coreD(3,4) [OF a(1)] by (auto simp: enqueue_full_iff)
  show thesis
  proof (cases "length xs = cap a")
    case True
    then have "cap a \<le> 2 ^ 61" using assms(2) by simp
    then obtain q1 r where q1: "resize dflt (M_data q) (M_back q) (M_front q) q = Some (M_data q1, q1)" "core q1 r xs"
        "old_ok q1" "cap r = 2 * cap a" "M_back q1 = M_back q"
      by (rule resize_core [OF a(1,3)])
    have "length xs < cap r" using True q1(4) ring_okD(2) [OF coreD(2) [OF a(1)]] by simp
    then obtain q2 where "write_cell (M_data q1) (M_back q1) x q1 = Some q2" "holds (q2\<lparr>M_back := M_back q1 + 1\<rparr>) (cap r) (xs @ [x])"
      by (rule enqueue_write [OF q1(2,3)])
    then show thesis using q1 a full True coreD(1) [OF a(1)]
      by (intro that [of "q2\<lparr>M_back := M_back q1 + 1\<rparr>" "cap r"]) (simp_all add: enqueue_def)
  next
    case False
    then have "length xs < cap a" using coreD(4) [OF a(1)] by simp
    then obtain q2 where "write_cell (M_data q) (M_back q) x q = Some q2" "holds (q2\<lparr>M_back := M_back q + 1\<rparr>) (cap a) (xs @ [x])"
      by (rule enqueue_write [OF a(1,3)])
    then show thesis using a full False coreD(1) [OF a(1)]
      by (intro that [of "q2\<lparr>M_back := M_back q + 1\<rparr>" "cap a"]) (simp_all add: enqueue_def)
  qed
qed

lemma bulk_write:
  assumes "core q a xs" and "old_ok q" and "length (xs @ ys) \<le> cap a"
  obtains q' where "push_items (M_data q) (M_back q) ys q = Some q'"
    and "holds (q'\<lparr>M_back := M_back q + of_nat (length ys)\<rparr>) (cap a) (xs @ ys)"
proof -
  have ah: "ahead q a xs []" using assms(1) by (simp only: ahead_Nil)
  have len: "length (xs @ [] @ ys) \<le> cap a" using assms(3) by simp
  obtain q' a' where q': "push_items (M_data q) (M_back q) ys q = Some q'" "ahead q' a' xs ys" "old_ok q'" "cap a' = cap a"
      "M_back q' = M_back q"
    using push_items_ok [OF ah assms(2) len] by auto
  have "core (q'\<lparr>M_back := M_back q + of_nat (length ys)\<rparr>) a' (xs @ ys)" using ahead_publish [OF q'(2)] q'(5) by simp
  moreover have "old_ok (q'\<lparr>M_back := M_back q + of_nat (length ys)\<rparr>)" using q'(3) by (simp add: old_ok_def)
  ultimately show thesis using q'(1,4) by (intro that [of q']) (auto simp: holds_def)
qed

lemma bulk_enqueue_ok:
  assumes "holds q c xs" and "length ys < c" and "length xs + length ys < 2 ^ 61"
  obtains q' c' where "bulk_enqueue dflt ys q = Some q'" and "holds q' c' (xs @ ys)" and "c \<le> c'"
proof -
  obtain a where a: "core q a xs" "cap a = c" "old_ok q" using assms(1) by (auto simp: holds_def)
  have n: "unat (of_nat (length ys) :: u64) = length ys"
    using assms(3) by (simp add: unsigned_of_nat take_bit_nat_eq_self)
  have full: "bulk_full (M_capacity a) (of_nat (length ys)) (M_back q) (M_front q) \<longleftrightarrow> cap a \<le> length ys + length xs"
    using bulk_full_iff [of "of_nat (length ys)" "M_capacity a"] core_capacity(2) [OF a(1)] a(2) assms(2) coreD(3) [OF a(1)] n
    by simp
  show thesis
  proof (cases "cap a \<le> length ys + length xs")
    case True
    then have "cap a \<le> 2 ^ 61" using assms(3) by simp
    then obtain q1 r where q1: "resize dflt (M_data q) (M_back q) (M_front q) q = Some (M_data q1, q1)" "core q1 r xs"
        "old_ok q1" "cap r = 2 * cap a" "M_back q1 = M_back q"
      by (rule resize_core [OF a(1,3)])
    have "length (xs @ ys) \<le> cap r" using assms(2) a(2) q1(4) coreD(4) [OF a(1)] by simp
    then obtain q2 where "push_items (M_data q1) (M_back q1) ys q1 = Some q2"
        "holds (q2\<lparr>M_back := M_back q1 + of_nat (length ys)\<rparr>) (cap r) (xs @ ys)"
      by (rule bulk_write [OF q1(2,3)])
    then show thesis using q1 a full True coreD(1) [OF a(1)]
      by (intro that [of "q2\<lparr>M_back := M_back q1 + of_nat (length ys)\<rparr>" "cap r"]) (simp_all add: bulk_enqueue_def)
  next
    case False
    then have "length (xs @ ys) \<le> cap a" by simp
    then obtain q2 where "push_items (M_data q) (M_back q) ys q = Some q2"
        "holds (q2\<lparr>M_back := M_back q + of_nat (length ys)\<rparr>) (cap a) (xs @ ys)"
      by (rule bulk_write [OF a(1,3)])
    then show thesis using a full False coreD(1) [OF a(1)]
      by (intro that [of "q2\<lparr>M_back := M_back q + of_nat (length ys)\<rparr>" "cap a"]) (simp_all add: bulk_enqueue_def)
  qed
qed

lemma holds_empty: "holds q c xs \<Longrightarrow> empty q \<longleftrightarrow> xs = []"
proof -
  assume "holds q c xs"
  then obtain a where "core q a xs" by (auto simp: holds_def)
  then have "length xs = unat (M_back q - M_front q)" by (rule coreD)
  then have "xs = [] \<longleftrightarrow> M_back q - M_front q = 0" by (metis length_0_conv unat_eq_0)
  then show ?thesis by (simp add: empty_def)
qed

lemma dequeue_none: "holds q c [] \<Longrightarrow> dequeue q = Some (None, q)"
  using holds_empty [of q c "[]"] by (simp add: dequeue_def empty_def)

lemma dequeue_some:
  assumes "holds q c (x # xs)"
  obtains q' where "dequeue q = Some (Some x, q')" and "holds q' c xs"
proof -
  obtain a where a: "core q a (x # xs)" "cap a = c" "old_ok q" using assms by (auto simp: holds_def)
  then have "ahead q a (x # xs) []" by (simp only: ahead_Nil)
  note t = ahead_take [OF this, unfolded ahead_Nil]
  have "M_back q \<noteq> M_front q" using holds_empty [OF assms] by (simp add: empty_def)
  moreover have "old_ok (q\<lparr>M_front := M_front q + 1\<rparr>)" using a(3) by (simp add: old_ok_def)
  ultimately show thesis using t a(2) coreD(1) [OF a(1)]
    by (intro that [of "q\<lparr>M_front := M_front q + 1\<rparr>"]) (auto simp: dequeue_def holds_def)
qed

lemma io_work_queue_holds: "k \<le> 62 \<Longrightarrow> holds (io_work_queue dflt (2 ^ k)) (2 ^ k) []"
  using circular_array_ok [of k dflt]
  by (auto simp: holds_def core_def old_ok_def io_work_queue_def array_at_def items_from_def)

section \<open>The invariant of producer and consumer\<close>

text \<open>\<open>n\<close> bounds the number of items that were ever handed to the producer.\<close>

fun producer_ok :: "'a work_queue \<Rightarrow> 'a circular_array \<Rightarrow> nat \<Rightarrow> 'a list \<Rightarrow> 'a producer_pc \<Rightarrow> bool" where
  "producer_ok q a n xs P_idle \<longleftrightarrow> core q a xs \<and> old_ok q \<and> length xs \<le> n"
| "producer_ok q a n xs (P_resize b f ys) \<longleftrightarrow> core q a xs \<and> old_ok q \<and> b = M_back q \<and> cap a \<le> n \<and> length ys \<le> cap a \<and>
     (\<exists>d. M_front q = f + of_nat d \<and> d + length xs \<le> cap a) \<and> length xs + length ys \<le> n"
| "producer_ok q a n xs (P_store p b ys) \<longleftrightarrow> core q a xs \<and> b = M_back q \<and> M_old q = Some (M_data q) \<and> p \<noteq> M_data q \<and>
     (\<exists>r. array_at p q = Some r \<and> ring_ok r \<and> length xs + length ys \<le> cap r \<and>
       items_from r (M_front q) (length xs) = xs \<and> cap a \<le> cap r \<and> cap r \<le> 2 * n) \<and> length xs + length ys \<le> n"
| "producer_ok q a n xs (P_write b ws ys) \<longleftrightarrow> ahead q a xs ws \<and> old_ok q \<and> b = M_back q \<and>
     length xs + length ws + length ys \<le> cap a \<and> length xs + length ws + length ys \<le> n"

fun consumer_ok :: "'a work_queue \<Rightarrow> nat \<Rightarrow> 'a list \<Rightarrow> 'a consumer_pc \<Rightarrow> bool" where
  "consumer_ok q m xs C_idle \<longleftrightarrow> True"
| "consumer_ok q m xs (C_front f) \<longleftrightarrow> f = M_front q \<and> xs \<noteq> []"
| "consumer_ok q m xs (C_array f p) \<longleftrightarrow> f = M_front q \<and> xs \<noteq> [] \<and>
     (m = 1 \<and> p = M_data q \<or>
      m = 2 \<and> M_old q = Some p \<and> p \<noteq> M_data q \<and> (\<exists>a. array_at p q = Some a \<and> array_pop f a = hd xs))"
| "consumer_ok q m xs (C_item x) \<longleftrightarrow> xs \<noteq> [] \<and> x = hd xs"

definition spsc_inv :: "nat \<Rightarrow> nat \<Rightarrow> nat \<Rightarrow> 'a spsc \<Rightarrow> 'a list \<Rightarrow> bool" where
  "spsc_inv c n m s xs \<longleftrightarrow> (\<exists>a. producer_ok (queue s) a n xs (producer s) \<and> c \<le> cap a \<and> cap a \<le> max c (2 * n)) \<and>
     consumer_ok (queue s) m xs (consumer s)"

lemma spsc_invI:
  "producer_ok (queue s) a n xs (producer s) \<Longrightarrow> c \<le> cap a \<Longrightarrow> cap a \<le> max c (2 * n) \<Longrightarrow>
    consumer_ok (queue s) m xs (consumer s) \<Longrightarrow> spsc_inv c n m s xs"
  unfolding spsc_inv_def by blast

lemma producer_core: "producer_ok q a n xs pc \<Longrightarrow> core q a xs"
  by (cases pc) (auto dest: ahead_core)

lemma core_hd: "core q a xs \<Longrightarrow> xs \<noteq> [] \<Longrightarrow> array_pop (M_front q) a = hd xs"
  by (cases xs) (auto simp: core_def items_from_Suc)

lemma core_empty: "core q a xs \<Longrightarrow> M_back q = M_front q \<longleftrightarrow> xs = []"
  using coreD(3) [of q a xs] by (metis length_0_conv right_minus_eq unat_eq_0)

lemma consumer_frame:
  assumes "consumer_ok q m xs pc" and "M_front q' = M_front q" and "M_data q' = M_data q" and "M_old q' = M_old q"
    and "\<And>p. p \<noteq> M_data q \<Longrightarrow> array_at p q' = array_at p q"
  shows "consumer_ok q' m xs pc"
  using assms by (cases pc) auto

lemma request_room:
  assumes "core q a xs" and "length xs + length (request_items r) \<le> n" and "c \<le> cap a" and "0 < c"
    and "n < 2 ^ 61" and "\<And>ys. r = Bulk_enqueue ys \<Longrightarrow> length ys < c"
  shows "if request_full r (M_capacity a) (M_back q) (M_front q)
    then cap a \<le> n \<and> length (request_items r) \<le> cap a else length xs + length (request_items r) \<le> cap a"
proof (cases r)
  case (Enqueue x)
  then show ?thesis using assms core_capacity [OF assms(1)] coreD(3,4) [OF assms(1)]
    by (auto simp: enqueue_full_iff)
next
  case (Bulk_enqueue ys)
  then have ys: "length ys < c" using assms(6) by simp
  have "unat (of_nat (length ys) :: u64) = length ys"
    using assms(2,5) Bulk_enqueue by (simp add: unsigned_of_nat take_bit_nat_eq_self)
  then have "bulk_full (M_capacity a) (of_nat (length ys)) (M_back q) (M_front q) \<longleftrightarrow> cap a \<le> length ys + length xs"
    using bulk_full_iff [of "of_nat (length ys)" "M_capacity a"] core_capacity(2) [OF assms(1)] assms(3) ys coreD(3) [OF assms(1)]
    by simp
  then show ?thesis using Bulk_enqueue assms ys by auto
qed

lemma inv_start:
  assumes "spsc_inv c n m s xs" and "producer s = P_idle" and "array_at (M_data (queue s)) (queue s) = Some a"
    and "0 < c" and "n + length (request_items r) < 2 ^ 61" and "\<And>ys. r = Bulk_enqueue ys \<Longrightarrow> length ys < c"
  shows "spsc_inv c (n + length (request_items r)) m (s\<lparr>producer := if request_full r (M_capacity a) (M_back (queue s)) (M_front (queue s))
         then P_resize (M_back (queue s)) (M_front (queue s)) (request_items r)
         else P_write (M_back (queue s)) [] (request_items r)\<rparr>) xs"
proof -
  obtain a' where a': "core (queue s) a' xs" "old_ok (queue s)" "length xs \<le> n" "c \<le> cap a'" "cap a' \<le> max c (2 * n)"
      "consumer_ok (queue s) m xs (consumer s)"
    using assms(1,2) by (auto simp: spsc_inv_def)
  then have [simp]: "a' = a" using coreD(1) [OF a'(1)] assms(3) by simp
  have "\<exists>d. M_front (queue s) = M_front (queue s) + of_nat d \<and> d + length xs \<le> cap a"
    using coreD(4) [OF a'(1)] by (intro exI [of _ 0]) simp
  moreover have "length xs + length (request_items r) \<le> n + length (request_items r)" using a'(3) by simp
  note request_room [OF a'(1)[simplified] this a'(4)[simplified] assms(4,5,6)]
  ultimately show ?thesis using a' ahead_Nil [of "queue s" a xs]
    by (intro spsc_invI [of _ a]) (auto split: if_splits)
qed

lemma inv_copy:
  assumes "spsc_inv c n m s xs" and "producer s = P_resize b f ys" and "n \<le> 2 ^ 61"
  obtains p q where "resize_copy dflt (M_data (queue s)) b f (queue s) = Some (p, q)"
    and "m \<noteq> 2 \<Longrightarrow> spsc_inv c n m (s\<lparr>queue := q, producer := P_store p b ys\<rparr>) xs"
proof -
  let ?q = "queue s"
  obtain a where a: "core ?q a xs" "old_ok ?q" "b = M_back ?q" "cap a \<le> n" "length ys \<le> cap a"
      "length xs + length ys \<le> n" "c \<le> cap a" "cap a \<le> max c (2 * n)" and co: "consumer_ok ?q m xs (consumer s)"
      and ex: "\<exists>d. M_front ?q = f + of_nat d \<and> d + length xs \<le> cap a"
    using assms(1,2) by (auto simp: spsc_inv_def)
  obtain d where d: "M_front ?q = f + of_nat d" "d + length xs \<le> cap a" using ex by blast
  have "cap a \<le> 2 ^ 61" using a(4) assms(3) by simp
  then obtain q r where q: "resize_copy dflt (M_data ?q) (M_back ?q) f ?q = Some (length (heap ?q), q)"
      "array_at (length (heap ?q)) q = Some r" "ring_ok r" "cap r = 2 * cap a" "items_from r (M_front ?q) (length xs) = xs"
      "M_front q = M_front ?q" "M_back q = M_back ?q" "M_data q = M_data ?q" "M_old q = Some (M_data ?q)"
      "M_data ?q < length (heap ?q)"
      and fr: "\<And>p. p < length (heap ?q) \<Longrightarrow> M_old ?q \<noteq> Some p \<Longrightarrow> array_at p q = array_at p ?q"
    by (rule resize_copy_ok [OF a(1,2) _ d]) blast
  have "array_at (M_data ?q) q = Some a"
    using fr [OF q(10)] a(2) coreD(1) [OF a(1)] by (auto simp: old_ok_def)
  then have "core q a xs" using coreD [OF a(1)] q by (intro coreI) simp_all
  then have po: "producer_ok q a n xs (P_store (length (heap ?q)) b ys)"
    using q a coreD(4) [OF a(1)] by auto
  have "consumer_ok q m xs (consumer s)" if "m \<noteq> 2" using co that q(6,8) by (cases "consumer s") auto
  then have "spsc_inv c n m (s\<lparr>queue := q, producer := P_store (length (heap ?q)) b ys\<rparr>) xs" if "m \<noteq> 2"
    using po a that by (intro spsc_invI [of _ a]) simp_all
  with q(1) a(3) show thesis by (intro that) simp_all
qed

lemma inv_grow:
  assumes "spsc_inv c n m s xs" and "producer s = P_store p b ys"
  shows "spsc_inv c n (if m = 1 then 2 else m) (s\<lparr>queue := (queue s)\<lparr>M_data := p\<rparr>, producer := P_write b [] ys\<rparr>) xs"
proof -
  let ?q = "queue s"
  obtain a r where a: "core ?q a xs" "b = M_back ?q" "M_old ?q = Some (M_data ?q)" "p \<noteq> M_data ?q"
      "array_at p ?q = Some r" "ring_ok r" "length xs + length ys \<le> cap r" "items_from r (M_front ?q) (length xs) = xs"
      "cap a \<le> cap r" "cap r \<le> 2 * n" "length xs + length ys \<le> n" "c \<le> cap a"
      and co: "consumer_ok ?q m xs (consumer s)"
    using assms by (auto simp: spsc_inv_def)
  have "core (?q\<lparr>M_data := p\<rparr>) r xs" using a coreD [OF a(1)] by (intro coreI) simp_all
  then have "ahead (?q\<lparr>M_data := p\<rparr>) r xs []" by (simp only: ahead_Nil)
  moreover have "old_ok (?q\<lparr>M_data := p\<rparr>)" using a coreD(1) [OF a(1)] by (simp add: old_ok_def)
  moreover have "consumer_ok (?q\<lparr>M_data := p\<rparr>) (if m = 1 then 2 else m) xs (consumer s)"
    using co a(3,4) coreD(1) [OF a(1)] core_hd [OF a(1)] by (cases "consumer s") auto
  ultimately show ?thesis using a by (intro spsc_invI [of _ r]) simp_all
qed

lemma spsc_inv_write:
  assumes "spsc_inv c n m s xs" and "producer s = P_write b ws (x # ys)"
  obtains q where "write_cell (M_data (queue s)) (b + of_nat (length ws)) x (queue s) = Some q"
    and "spsc_inv c n m (s\<lparr>queue := q, producer := P_write b (ws @ [x]) ys\<rparr>) xs"
proof -
  let ?q = "queue s"
  obtain a where a: "ahead ?q a xs ws" "old_ok ?q" "b = M_back ?q" "length xs + length ws + length (x # ys) \<le> cap a"
      "length xs + length ws + length (x # ys) \<le> n" "c \<le> cap a" "cap a \<le> max c (2 * n)"
      and co: "consumer_ok ?q m xs (consumer s)"
    using assms by (auto simp: spsc_inv_def)
  let ?a = "array_push (M_back ?q + of_nat (length ws)) x a"
  let ?q' = "?q\<lparr>heap := (heap ?q)[M_data ?q := Some ?a]\<rparr>"
  have "length (xs @ ws) < cap a" using a(4) by simp
  then have "ahead ?q' ?a xs (ws @ [x])" by (rule ahead_write [OF a(1)])
  moreover have "old_ok ?q'" using a(2) by (rule old_ok_write)
  moreover have "consumer_ok ?q' m xs (consumer s)" by (rule consumer_frame [OF co]) (simp_all add: array_at_update)
  ultimately have "spsc_inv c n m (s\<lparr>queue := ?q', producer := P_write b (ws @ [x]) ys\<rparr>) xs"
    using a(3-7) by (intro spsc_invI [of _ ?a]) simp_all
  then show thesis using write_cell_core(1) [OF aheadD(1) [OF a(1)]] a(3) by (intro that) simp_all
qed

lemma inv_publish:
  assumes "spsc_inv c n m s xs" and "producer s = P_write b ws []"
  shows "spsc_inv c n m (s\<lparr>queue := (queue s)\<lparr>M_back := b + of_nat (length ws)\<rparr>, producer := P_idle\<rparr>) (xs @ ws)"
proof -
  let ?q = "queue s"
  obtain a where a: "ahead ?q a xs ws" "old_ok ?q" "b = M_back ?q" "length xs + length ws \<le> n" "c \<le> cap a"
      "cap a \<le> max c (2 * n)" and co: "consumer_ok ?q m xs (consumer s)"
    using assms by (auto simp: spsc_inv_def)
  have "core (?q\<lparr>M_back := b + of_nat (length ws)\<rparr>) a (xs @ ws)" using ahead_publish [OF a(1)] a(3) by simp
  moreover have "old_ok (?q\<lparr>M_back := b + of_nat (length ws)\<rparr>)" using a(2) by (simp add: old_ok_def)
  moreover have "consumer_ok (?q\<lparr>M_back := b + of_nat (length ws)\<rparr>) m (xs @ ws) (consumer s)"
    using co by (cases "consumer s") auto
  ultimately show ?thesis using a by (intro spsc_invI [of _ a]) simp_all
qed

lemma producer_take:
  assumes "producer_ok q a n (x # xs) pc"
  shows "producer_ok (q\<lparr>M_front := M_front q + 1\<rparr>) a n xs pc"
proof -
  have c: "core q a (x # xs) \<Longrightarrow> core (q\<lparr>M_front := M_front q + 1\<rparr>) a xs"
    using ahead_take(1) [of q a x xs "[]"] by (simp only: ahead_Nil)
  have o: "old_ok (q\<lparr>M_front := M_front q + 1\<rparr>) = old_ok q" by (simp add: old_ok_def)
  show ?thesis
  proof (cases pc)
    case (P_resize b f ys)
    with assms obtain d where "M_front q = f + of_nat d" "d + length (x # xs) \<le> cap a" by auto
    then have "M_front q + 1 = f + of_nat (Suc d) \<and> Suc d + length xs \<le> cap a" by simp
    then have "\<exists>d. M_front q + 1 = f + of_nat d \<and> d + length xs \<le> cap a" by (rule exI)
    then show ?thesis using assms P_resize c o by (simp del: of_nat_Suc)
  next
    case (P_store p b ys)
    then show ?thesis using assms c by (auto simp: items_from_Suc)
  next
    case (P_write b ws ys)
    then show ?thesis using assms ahead_take(1) o by auto
  qed (use assms c o in auto)
qed

lemma inv_take:
  assumes "spsc_inv c n m s xs" and "consumer s = C_item x"
  shows "\<exists>ys. xs = x # ys \<and> spsc_inv c n 0 (s\<lparr>queue := (queue s)\<lparr>M_front := M_front (queue s) + 1\<rparr>, consumer := C_idle\<rparr>) ys"
proof -
  obtain a where a: "producer_ok (queue s) a n xs (producer s)" "c \<le> cap a" "cap a \<le> max c (2 * n)" "xs \<noteq> []" "x = hd xs"
    using assms by (auto simp: spsc_inv_def)
  then obtain ys where ys: "xs = x # ys" by (cases xs) auto
  have "producer_ok ((queue s)\<lparr>M_front := M_front (queue s) + 1\<rparr>) a n ys (producer s)"
    using a(1) unfolding ys by (rule producer_take)
  then have "spsc_inv c n 0 (s\<lparr>queue := (queue s)\<lparr>M_front := M_front (queue s) + 1\<rparr>, consumer := C_idle\<rparr>) ys"
    using a by (intro spsc_invI [of _ a]) simp_all
  with ys show ?thesis by blast
qed

lemma inv_empty:
  assumes "spsc_inv c n m s xs"
  shows "M_back (queue s) = M_front (queue s) \<longleftrightarrow> xs = []"
proof -
  obtain a where "producer_ok (queue s) a n xs (producer s)" using assms by (auto simp: spsc_inv_def)
  then show ?thesis by (rule core_empty [OF producer_core])
qed

lemma inv_item:
  assumes "spsc_inv c n m s xs" and "consumer s = C_array f p"
  obtains a where "array_at p (queue s) = Some a" and "array_pop f a = hd xs" and "xs \<noteq> []"
proof -
  obtain a where "producer_ok (queue s) a n xs (producer s)" and co: "consumer_ok (queue s) m xs (C_array f p)"
    using assms by (auto simp: spsc_inv_def)
  then have "core (queue s) a xs" by (intro producer_core)
  from coreD(1) [OF this] core_hd [OF this] co that show thesis by auto
qed

lemma spsc_step_refines:
  assumes "spsc_step dflt s l t" and "spsc_inv c n m s xs" and "0 < c"
    and "n + length (started_items [l]) < 2 ^ 61" and "\<And>ys. l = Started (Bulk_enqueue ys) \<Longrightarrow> length ys < c"
    and "lag_step m l \<noteq> 3"
  shows "\<exists>ys. fifo_step xs l ys \<and> spsc_inv c (n + length (started_items [l])) (lag_step m l) t ys"
  using assms(1)
proof cases
  case (enqueue_start a r)
  then show ?thesis using inv_start [OF assms(2) enqueue_start(3,4) assms(3), of r] assms(4,5)
    by (intro exI [of _ xs] conjI) (auto intro: fifo_silent)
next
  case (enqueue_copy b f items p q)
  then have "m \<noteq> 2" "n \<le> 2 ^ 61" using assms(4,6) by auto
  from inv_copy [OF assms(2) enqueue_copy(3) this(2), of dflt] enqueue_copy this show ?thesis
    by (intro exI [of _ xs] conjI) (auto intro: fifo_silent)
next
  case (enqueue_copy_fault b f items)
  then have "n \<le> 2 ^ 61" using assms(4) by auto
  from inv_copy [OF assms(2) enqueue_copy_fault(3) this, of dflt] enqueue_copy_fault show ?thesis by auto
next
  case (enqueue_grow p b items)
  then show ?thesis using inv_grow [OF assms(2)] by (intro exI [of _ xs] conjI) (auto intro: fifo_silent)
next
  case (enqueue_write b ws x ys q)
  from spsc_inv_write [OF assms(2) enqueue_write(3)] enqueue_write show ?thesis
    by (intro exI [of _ xs] conjI) (auto intro: fifo_silent)
next
  case (enqueue_write_fault b ws x ys)
  from spsc_inv_write [OF assms(2) enqueue_write_fault(3)] enqueue_write_fault show ?thesis by auto
next
  case (enqueue_publish b ws)
  then show ?thesis using inv_publish [OF assms(2)] by (intro exI [of _ "xs @ ws"] conjI) (auto intro: fifo_Enqueued)
next
  case dequeue_empty
  then have "xs = []" using inv_empty [OF assms(2)] by simp
  then show ?thesis using dequeue_empty assms(2) by (intro exI [of _ "[]"] conjI) (auto intro: fifo_None simp: spsc_inv_def)
next
  case dequeue_load
  then have "xs \<noteq> []" using inv_empty [OF assms(2)] by simp
  then show ?thesis using dequeue_load assms(2) by (intro exI [of _ xs] conjI) (auto intro: fifo_silent simp: spsc_inv_def)
next
  case (dequeue_array f)
  then show ?thesis using assms(2) by (intro exI [of _ xs] conjI) (auto intro: fifo_silent simp: spsc_inv_def)
next
  case (dequeue_item f p a)
  then have "array_pop f a = hd xs" "xs \<noteq> []" using inv_item [OF assms(2) dequeue_item(3)] by auto
  then show ?thesis using dequeue_item assms(2) by (intro exI [of _ xs] conjI) (auto intro: fifo_silent simp: spsc_inv_def)
next
  case (dequeue_fault f p)
  then show ?thesis using inv_item [OF assms(2) dequeue_fault(3)] by auto
next
  case (dequeue_store x)
  then obtain ys where "xs = x # ys" "spsc_inv c n 0 t ys" using inv_take [OF assms(2)] by blast
  then show ?thesis using dequeue_store by (intro exI [of _ ys] conjI) (auto intro: fifo_Dequeued)
qed

section \<open>Runs\<close>

lemma enqueued_items_snoc: "enqueued_items (ls @ [l]) = enqueued_items ls @ enqueued_items [l]"
  by (induction ls rule: enqueued_items.induct) simp_all

lemma dequeued_items_snoc: "dequeued_items (ls @ [l]) = dequeued_items ls @ dequeued_items [l]"
  by (induction ls rule: dequeued_items.induct) simp_all

lemma started_items_snoc: "started_items (ls @ [l]) = started_items ls @ started_items [l]"
  by (induction ls rule: started_items.induct) simp_all

lemmas fifo_items_snoc = enqueued_items_snoc dequeued_items_snoc started_items_snoc

lemma fifo_run_items: "fifo_run xs ls ys \<Longrightarrow> xs @ enqueued_items ls = dequeued_items ls @ ys"
proof (induction rule: fifo_run.induct)
  case (fifo_snoc xs ls ys l zs)
  from fifo_snoc(2) show ?case by cases (use fifo_snoc.IH in \<open>auto simp: fifo_items_snoc\<close>)
qed simp

lemma spsc_run_refines:
  assumes "spsc_run dflt (spsc_init dflt (2 ^ k)) ls s" and "k \<le> 60" and "length (started_items ls) < 2 ^ 61"
    and "\<forall>ys. Started (Bulk_enqueue ys) \<in> set ls \<longrightarrow> length ys < 2 ^ k" and "\<forall>ls1 ls2. ls = ls1 @ ls2 \<longrightarrow> lag ls1 \<noteq> 3"
  shows "\<exists>xs. fifo_run [] ls xs \<and> spsc_inv (2 ^ k) (length (started_items ls)) (lag ls) s xs"
  using assms
proof (induction "spsc_init dflt (2 ^ k)" ls s rule: spsc_run.induct)
  case spsc_Nil
  have "holds (io_work_queue dflt (2 ^ k)) (2 ^ k) []" using assms(2) by (intro io_work_queue_holds) simp
  then have "spsc_inv (2 ^ k) 0 0 (spsc_init dflt (2 ^ k)) []"
    by (auto simp: holds_def spsc_init_def intro!: spsc_invI)
  then show ?case by (intro exI [of _ "[]"]) (simp add: fifo_Nil lag_def)
next
  case (spsc_snoc ls s1 l s2)
  have st: "length (started_items ls) + length (started_items [l]) < 2 ^ 61" using spsc_snoc.prems(2) by (simp add: fifo_items_snoc)
  have "\<exists>xs. fifo_run [] ls xs \<and> spsc_inv (2 ^ k) (length (started_items ls)) (lag ls) s1 xs"
    by (rule spsc_snoc.hyps(2)) (use spsc_snoc.prems st in auto)
  then obtain xs where xs: "fifo_run [] ls xs" "spsc_inv (2 ^ k) (length (started_items ls)) (lag ls) s1 xs" by blast
  have "lag (ls @ [l]) \<noteq> 3" using spsc_snoc.prems(4) by simp
  then have "lag_step (lag ls) l \<noteq> 3" by (simp add: lag_def)
  then have "\<exists>ys. fifo_step xs l ys \<and> spsc_inv (2 ^ k) (length (started_items ls) + length (started_items [l])) (lag_step (lag ls) l) s2 ys"
    by (intro spsc_step_refines [OF spsc_snoc.hyps(3) xs(2) _ st]) (use spsc_snoc.prems(3) in auto)
  then obtain ys where "fifo_step xs l ys" "spsc_inv (2 ^ k) (length (started_items (ls @ [l]))) (lag (ls @ [l])) s2 ys"
    by (auto simp: fifo_items_snoc lag_def)
  then show ?case using fifo_snoc [OF xs(1)] by blast
qed

lemma spsc_move_step:
  assumes "spsc_move dflt c s = Some (l, t)"
  shows "spsc_step dflt s l t"
proof (cases c)
  case (Producer r)
  then show ?thesis
  proof (cases "producer s")
    case P_idle
    then obtain a where "array_at (M_data (queue s)) (queue s) = Some a" using assms Producer by (auto split: option.splits)
    from enqueue_start [OF P_idle this, of dflt r] this show ?thesis using assms Producer P_idle by auto
  qed (use assms in \<open>auto split: option.splits list.splits intro: spsc_step.intros\<close>)
next
  case Consumer
  then show ?thesis using assms
    by (auto split: consumer_pc.splits option.splits if_splits intro: spsc_step.intros)
qed

lemma spsc_exec_run:
  "spsc_exec dflt cs s = Some (ls, t) \<Longrightarrow> spsc_run dflt s0 ls0 s \<Longrightarrow> spsc_run dflt s0 (ls0 @ ls) t"
proof (induction cs arbitrary: s ls ls0)
  case (Cons c cs)
  then obtain l s1 ls1 where l: "spsc_move dflt c s = Some (l, s1)" "spsc_exec dflt cs s1 = Some (ls1, t)" "ls = l # ls1"
    by (auto split: Option.bind_splits)
  have "spsc_run dflt s0 (ls0 @ [l]) s1" by (rule spsc_snoc [OF Cons.prems(2) spsc_move_step [OF l(1)]])
  from Cons.IH [OF l(2) this] show ?case using l(3) by simp
qed simp

section \<open>The work-stealing queue, run alone\<close>

lemma core_not_wrapped:
  assumes "core q a xs"
  shows "M_back q + 1 \<noteq> M_front q"
proof
  assume "M_back q + 1 = M_front q"
  then have "M_back q - M_front q = - 1" by (metis add_diff_cancel_left' diff_add_cancel minus_diff_eq)
  then have "length xs = 2 ^ 64 - 1" using coreD(3) [OF assms] by (simp add: unsigned_minus_1_eq_mask mask_eq_exp_minus_1)
  then show False using coreD(4) [OF assms] ring_okD(3) [OF coreD(2) [OF assms]] by simp
qed

lemma stealing_enqueue_ok:
  assumes "holds q c xs" and "length xs < 2 ^ 61"
  obtains q' c' where "stealing_enqueue dflt x q = Some q'" and "holds q' c' (xs @ [x])" and "c \<le> c'"
proof -
  obtain a where a: "core q a xs" "cap a = c" "old_ok q" using assms(1) by (auto simp: holds_def)
  have "stealing_full (M_capacity a) (M_back q) (M_front q) = enqueue_full (M_capacity a) (M_back q) (M_front q)"
    using core_capacity(1) [OF a(1)] core_not_wrapped [OF a(1)] by (simp add: enqueue_full_iff stealing_full_iff)
  then have "stealing_enqueue dflt x q = enqueue dflt x q"
    using coreD(1) [OF a(1)] by (simp add: stealing_enqueue_def enqueue_def)
  with enqueue_ok [OF assms, of dflt x] that show thesis by metis
qed

lemma stealing_dequeue_last:
  assumes "holds q c (xs @ [x])"
  obtains q' where "stealing_dequeue q = Some (Some x, q')" and "holds q' c xs"
proof -
  obtain a where a: "core q a (xs @ [x])" "cap a = c" "old_ok q" using assms by (auto simp: holds_def)
  note A = coreD [OF a(1)]
  have ne: "M_front q \<noteq> M_back q" "M_front q \<noteq> M_back q + 1" using core_empty [OF a(1)] core_not_wrapped [OF a(1)] by auto
  have b: "M_back q - 1 = M_front q + of_nat (length xs)" using distance_offset [OF A(3)] by (simp add: algebra_simps)
  have it: "items_from a (M_front q) (length xs) = xs" "array_pop (M_back q - 1) a = x"
    using A(5) unfolding b by (simp_all add: items_from_snoc)
  have "M_back q - M_front q \<noteq> 0" using ne by auto
  then have "unat (M_back q - M_front q - 1) = length xs" using A(3) by (simp add: unat_pred)
  moreover have "M_back q - 1 - M_front q = M_back q - M_front q - 1" by (simp add: algebra_simps)
  ultimately have d: "length xs = unat (M_back q - 1 - M_front q)" by (simp only:)
  show thesis
  proof (cases "M_front q = M_back q - 1")
    case True
    then have xs: "xs = []" using d by simp
    have "core (q\<lparr>M_back := M_back q, M_front := M_front q + 1\<rparr>) a []" using A True by (simp add: core_def items_from_def)
    moreover have "old_ok (q\<lparr>M_back := M_back q, M_front := M_front q + 1\<rparr>)" using a(3) by (simp add: old_ok_def)
    ultimately show thesis using ne it(2) A(1) a(2) True xs
      by (intro that [of "q\<lparr>M_back := M_back q, M_front := M_front q + 1\<rparr>"]) (auto simp: stealing_dequeue_def holds_def)
  next
    case False
    have "core (q\<lparr>M_back := M_back q - 1\<rparr>) a xs" using A it(1) d by (intro coreI) simp_all
    moreover have "old_ok (q\<lparr>M_back := M_back q - 1\<rparr>)" using a(3) by (simp add: old_ok_def)
    ultimately show thesis using ne it(2) A(1) a(2) False
      by (intro that [of "q\<lparr>M_back := M_back q - 1\<rparr>"]) (auto simp: stealing_dequeue_def holds_def)
  qed
qed

lemma steal_first:
  assumes "holds q c (x # xs)"
  obtains q' where "steal q = Some (Some x, q')" and "holds q' c xs"
proof -
  obtain q' where d: "dequeue q = Some (Some x, q')" "holds q' c xs" using dequeue_some [OF assms] .
  obtain a where a: "core q a (x # xs)" using assms by (auto simp: holds_def)
  have "steal q = dequeue q"
    using core_empty [OF a] core_not_wrapped [OF a] by (simp add: steal_def dequeue_def)
  with d that show thesis by simp
qed

lemma stealing_none: "holds q c [] \<Longrightarrow> stealing_dequeue q = Some (None, q) \<and> steal q = Some (None, q)"
  using holds_empty [of q c "[]"] by (simp add: stealing_dequeue_def steal_def empty_def)

section \<open>Properties\<close>

text \<open>
  C8. The queue between one producer and one consumer. Let the two threads interleave in any way, with single and bulk
  enqueues, each bulk of fewer items than the initial capacity \<open>2 ^ k\<close>, \<open>k \<le> 60\<close>, fewer than \<open>2 ^ 61\<close> items in all, and
  indices that wrap around. As long as no dequeue is overtaken by the end of one resize and the copy of the next (\<open>lag\<close>), no
  deleted array is used and the items come out in the order in which they were enqueued; a dequeue fails only when the queue is
  empty. Without the two conditions it goes wrong: \<open>dequeue_overtaken_twice\<close> and \<open>bulk_enqueue_loses_items\<close>.
\<close>

theorem io_work_queue_linearizable:
  assumes "spsc_run dflt (spsc_init dflt (2 ^ k)) ls s" and "k \<le> 60" and "length (started_items ls) < 2 ^ 61"
    and "\<forall>ys. Started (Bulk_enqueue ys) \<in> set ls \<longrightarrow> length ys < 2 ^ k"
    and "\<forall>ls1 ls2. ls = ls1 @ ls2 \<longrightarrow> lag ls1 \<noteq> 3"
  shows "\<exists>xs. fifo_run [] ls xs \<and> enqueued_items ls = dequeued_items ls @ xs \<and> Fault \<notin> set ls"
proof -
  obtain xs where xs: "fifo_run [] ls xs" using spsc_run_refines [OF assms] by blast
  then have "Fault \<notin> set ls"
    by (induction rule: fifo_run.induct) (auto elim: fifo_step.cases)
  with xs fifo_run_items [OF xs] show ?thesis by auto
qed

theorem io_work_queue_linearizable_witness:
  "\<exists>ls s xs. spsc_run 0 (spsc_init (0 :: nat) (2 ^ 1)) ls s \<and> fifo_run [] ls xs \<and>
    enqueued_items ls = [5, 6, 7] \<and> dequeued_items ls = [5] \<and> xs = [6, 7]"
proof -
  define turns :: "nat spsc_turn list" where "turns =
    [Producer (Enqueue 5), Producer (Enqueue 5), Producer (Enqueue 5), Consumer, Consumer,
     Producer (Enqueue 6), Producer (Enqueue 6), Producer (Enqueue 6),
     Producer (Enqueue 7), Producer (Enqueue 7), Producer (Enqueue 7), Consumer, Producer (Enqueue 7), Producer (Enqueue 7), Consumer]"
  define ls :: "nat spsc_label list" where "ls =
    [Started (Enqueue 5), Silent, Enqueued [5], Silent, Loaded, Started (Enqueue 6), Silent, Enqueued [6],
     Started (Enqueue 7), Copied, Grown, Silent, Silent, Enqueued [7], Dequeued (Some 5)]"
  have "map_option fst (spsc_exec 0 turns (spsc_init (0 :: nat) (2 ^ 1))) = Some ls" unfolding turns_def ls_def by code_simp
  then obtain s where "spsc_exec 0 turns (spsc_init (0 :: nat) (2 ^ 1)) = Some (ls, s)" by auto
  from spsc_exec_run [OF this spsc_Nil] have run: "spsc_run 0 (spsc_init (0 :: nat) (2 ^ 1)) ls s" by simp
  have "list_all (\<lambda>n. lag (take n ls) \<noteq> 3) [0..<16]" unfolding ls_def by code_simp
  moreover have "length ls = 15" by (simp add: ls_def)
  ultimately have "lag ls1 \<noteq> 3" if "ls = ls1 @ ls2" for ls1 ls2
    using that unfolding list_all_iff by (metis append_eq_conv_conj atLeastLessThan_iff le0 length_append less_Suc_eq_le numeral_eq_Suc pred_numeral_simps(2) semiring_norm(26,27,28) le_add1 set_upt)
  then obtain xs where xs: "fifo_run [] ls xs" "enqueued_items ls = dequeued_items ls @ xs"
    using io_work_queue_linearizable [OF run] by (auto simp: ls_def)
  moreover have "enqueued_items ls = [5, 6, 7]" "dequeued_items ls = [5]" by (simp_all add: ls_def)
  ultimately show ?thesis using run by (intro exI [of _ ls] exI [of _ s] exI [of _ xs] conjI) simp_all
qed

text \<open>
  A consumer that is overtaken twice. It has loaded the address of the array when the producer replaces the array, which
  keeps the old one, and then replaces it again, which deletes the old one: the consumer reads an array that was deleted.
\<close>

theorem dequeue_overtaken_twice:
  "\<exists>ls s. spsc_run 0 (spsc_init (0 :: nat) 1) (ls @ [Fault]) s \<and> started_items ls = [1, 2, 3] \<and> dequeued_items ls = []"
proof -
  define ls :: "nat spsc_label list" where "ls = [Started (Enqueue 1), Silent, Enqueued [1], Silent, Loaded,
    Started (Enqueue 2), Copied, Grown, Silent, Enqueued [2], Started (Enqueue 3), Copied]"
  define turns :: "nat spsc_turn list" where "turns = replicate 3 (Producer (Enqueue 1)) @ [Consumer, Consumer] @
    replicate 5 (Producer (Enqueue 2)) @ replicate 2 (Producer (Enqueue 3)) @ [Consumer]"
  have "map_option fst (spsc_exec 0 turns (spsc_init 0 1)) = Some (ls @ [Fault])" unfolding turns_def ls_def by code_simp
  then obtain s where "spsc_exec 0 turns (spsc_init 0 1) = Some (ls @ [Fault], s)" by auto
  from spsc_exec_run [OF this spsc_Nil] have "spsc_run 0 (spsc_init (0 :: nat) 1) (ls @ [Fault]) s" by simp
  then show ?thesis by (intro exI [of _ ls] exI [of _ s] conjI) (simp_all add: ls_def)
qed

text \<open>
  A bulk enqueue of at least as many items as the array has cells does not see that they do not fit, because the size minus
  one minus the number of items wraps around: the array is not replaced and the items overwrite each other. Of three
  items enqueued into an array of two cells, the first is lost and the last comes out twice.
\<close>

theorem bulk_enqueue_overflow:
  assumes "holds q c xs" and "c \<le> length ys" and "length ys < 2 ^ 62"
  shows "\<exists>a. array_at (M_data q) q = Some a \<and> \<not> bulk_full (M_capacity a) (of_nat (length ys)) (M_back q) (M_front q)"
proof -
  obtain a where a: "core q a xs" "cap a = c" using assms(1) by (auto simp: holds_def)
  define n :: u64 where "n = of_nat (length ys)"
  have n: "unat n = length ys" using assms(3) by (simp add: n_def unsigned_of_nat take_bit_nat_eq_self)
  have c: "unat (M_capacity a) = c" "M_capacity a \<noteq> 0" using core_capacity [OF a(1)] a(2) by simp_all
  then have p: "unat (M_capacity a - 1) = c - 1" by (simp add: unat_pred)
  then have "unat (M_capacity a - 1 - n) = 2 ^ 64 + (c - 1) - length ys"
    using n assms(2,3) c by (subst unat_sub_if') (auto simp: unat_gt_0 [symmetric] simp del: unat_gt_0)
  moreover have "unat (M_back q - M_front q) \<le> c" "c \<le> 2 ^ 62"
    using coreD(3,4) [OF a(1)] a(2) ring_okD(3) [OF coreD(2) [OF a(1)]] by simp_all
  ultimately have "\<not> M_capacity a - 1 - n < M_back q - M_front q" using assms(3) by (simp add: word_less_nat_alt)
  then show ?thesis using coreD(1) [OF a(1)] by (simp add: bulk_full_def n_def)
qed

theorem bulk_enqueue_loses_items:
  "(do { q \<leftarrow> bulk_enqueue 0 [1, 2, 3] (io_work_queue (0 :: nat) 2);
         (x, q) \<leftarrow> dequeue q; (y, q) \<leftarrow> dequeue q; (z, q) \<leftarrow> dequeue q; (e, q) \<leftarrow> dequeue q; Some [x, y, z, e] }) =
    Some [Some 3, Some 2, Some 3, None]"
  by code_simp

text \<open>
  The work-stealing queue run alone: \<open>enqueue\<close> appends, growing the array when it is full, \<open>dequeue\<close> takes the last item
  and \<open>steal\<close> the first, and both report an empty queue.
\<close>

theorem work_stealing_queue_alone:
  assumes "holds q c xs" and "length xs < 2 ^ 61"
  shows "(\<exists>q' c'. stealing_enqueue dflt x q = Some q' \<and> holds q' c' (xs @ [x])) \<and>
    (\<exists>q'. stealing_dequeue q = Some (if xs = [] then None else Some (last xs), q') \<and> holds q' c (butlast xs)) \<and>
    (\<exists>q'. steal q = Some (if xs = [] then None else Some (hd xs), q') \<and> holds q' c (tl xs)) \<and>
    (stealing_empty q \<longleftrightarrow> xs = [])"
proof (intro conjI)
  show "\<exists>q' c'. stealing_enqueue dflt x q = Some q' \<and> holds q' c' (xs @ [x])"
    using stealing_enqueue_ok [OF assms, of dflt x] by metis
  show "\<exists>q'. stealing_dequeue q = Some (if xs = [] then None else Some (last xs), q') \<and> holds q' c (butlast xs)"
  proof (cases xs rule: rev_cases)
    case Nil
    then show ?thesis using stealing_none [of q c] assms(1) by simp
  next
    case (snoc ys y)
    then show ?thesis using stealing_dequeue_last [of q c ys y] assms(1) by auto
  qed
  show "\<exists>q'. steal q = Some (if xs = [] then None else Some (hd xs), q') \<and> holds q' c (tl xs)"
  proof (cases xs)
    case Nil
    then show ?thesis using stealing_none [of q c] assms(1) by simp
  next
    case (Cons y ys)
    then show ?thesis using steal_first [of q c y ys] assms(1) by auto
  qed
  show "stealing_empty q \<longleftrightarrow> xs = []" using holds_empty [OF assms(1)] by (simp add: empty_def stealing_empty_def)
qed

text \<open>What was stolen and what the owner took and enqueued, among the labels of a run.\<close>

fun stolen_of :: "'a stealing_label list \<Rightarrow> 'a list" where
  "stolen_of [] = []"
| "stolen_of (Stolen i (Some x) # ls) = x # stolen_of ls"
| "stolen_of (_ # ls) = stolen_of ls"

fun taken_of :: "'a stealing_label list \<Rightarrow> 'a list" where
  "taken_of [] = []"
| "taken_of (Taken (Some x) # ls) = x # taken_of ls"
| "taken_of (_ # ls) = taken_of ls"

lemma labels_append [simp]:
  "stolen_of (ls @ ks) = stolen_of ls @ stolen_of ks" "taken_of (ls @ ks) = taken_of ls @ taken_of ks"
proof -
  show "stolen_of (ls @ ks) = stolen_of ls @ stolen_of ks" by (induction ls rule: stolen_of.induct) auto
  show "taken_of (ls @ ks) = taken_of ls @ taken_of ks" by (induction ls rule: taken_of.induct) auto
qed

lemma stealing_exec_append:
  "stealing_exec dflt cs s = (ls, t) \<Longrightarrow> stealing_exec dflt ds t = (ks, u) \<Longrightarrow> stealing_exec dflt (cs @ ds) s = (ls @ ks, u)"
  by (induction cs arbitrary: s ls) (auto simp: Let_def split: prod.splits)

lemma array_at_indices [simp]:
  "array_at p (q\<lparr>M_front := f\<rparr>) = array_at p q" "array_at p (q\<lparr>M_back := b\<rparr>) = array_at p q"
  by (simp_all add: array_at_def)

text \<open>A thief that runs alone steals the first item, whatever the owner is about to do.\<close>

lemma thief_steals:
  assumes "core (squeue s) a (x # xs)" and "thief s i = T_idle"
  shows "stealing_exec dflt (replicate 5 (Thief i)) s =
      ([Quiet, Quiet, Quiet, Quiet, Stolen i (Some x)], s\<lparr>squeue := (squeue s)\<lparr>M_front := M_front (squeue s) + 1\<rparr>\<rparr>)"
    and "core ((squeue s)\<lparr>M_front := M_front (squeue s) + 1\<rparr>) a xs"
proof -
  let ?q = "squeue s"
  have ne: "M_back ?q \<noteq> M_front ?q" "M_back ?q + 1 \<noteq> M_front ?q"
    using core_empty [OF assms(1)] core_not_wrapped [OF assms(1)] by auto
  have "ahead ?q a (x # xs) []" using assms(1) by (simp only: ahead_Nil)
  note t = ahead_take [OF this, unfolded ahead_Nil]
  show "core (?q\<lparr>M_front := M_front ?q + 1\<rparr>) a xs" by (rule t(1))
  have i: "(thief s)(i := T_idle) = thief s" using assms(2) by (simp add: fun_upd_idem)
  show "stealing_exec dflt (replicate 5 (Thief i)) s =
      ([Quiet, Quiet, Quiet, Quiet, Stolen i (Some x)], s\<lparr>squeue := ?q\<lparr>M_front := M_front ?q + 1\<rparr>\<rparr>)"
    using ne t(2) assms(2) coreD(1) [OF assms(1)] i by (simp add: eval_nat_numeral Let_def)
qed

lemma thief_steals_all:
  assumes "core (squeue s) a xs" and "thief s i = T_idle"
  shows "\<exists>ls. stealing_exec dflt (concat (replicate (length xs) (replicate 5 (Thief i)))) s =
      (ls, s\<lparr>squeue := (squeue s)\<lparr>M_front := M_back (squeue s)\<rparr>\<rparr>) \<and> stolen_of ls = xs \<and> taken_of ls = []"
  using assms
proof (induction xs arbitrary: s)
  case Nil
  then have "M_back (squeue s) = M_front (squeue s)" using core_empty by auto
  then show ?case by simp
next
  case (Cons x xs)
  let ?s = "s\<lparr>squeue := (squeue s)\<lparr>M_front := M_front (squeue s) + 1\<rparr>\<rparr>"
  note t = thief_steals [OF Cons.prems]
  obtain ls where ls: "stealing_exec dflt (concat (replicate (length xs) (replicate 5 (Thief i)))) ?s =
      (ls, s\<lparr>squeue := (squeue s)\<lparr>M_front := M_back (squeue s)\<rparr>\<rparr>)" "stolen_of ls = xs" "taken_of ls = []"
    using Cons.IH [of ?s] t(2) Cons.prems(2) by auto
  have c: "concat (replicate (length (x # xs)) (replicate 5 (Thief i))) =
      replicate 5 (Thief i) @ concat (replicate (length xs) (replicate 5 (Thief i)))" by simp
  show ?case unfolding c by (intro exI conjI, rule stealing_exec_append [OF t(1) ls(1)]) (use ls(2,3) in simp_all)
qed

text \<open>
  The owner reads the indices in \<open>dequeue\<close>; a thief steals everything; the owner goes on; then it enqueues another item.
\<close>

definition overtaken_dequeue :: "nat \<Rightarrow> nat \<Rightarrow> 'a stealing_turn list" where
  "overtaken_dequeue n i = [Owner Call_dequeue] @ concat (replicate n (replicate 5 (Thief i))) @ replicate 2 (Owner Call_dequeue)"

lemma overtaken_dequeue_ok:
  assumes "core (squeue s) a (xs @ [y])" and "xs \<noteq> []" and "owner s = O_idle" and "thief s i = T_idle"
  shows "\<exists>ls. stealing_exec dflt (overtaken_dequeue (Suc (length xs)) i) s =
      (ls, s\<lparr>squeue := (squeue s)\<lparr>M_front := M_back (squeue s), M_back := M_back (squeue s) - 1\<rparr>\<rparr>) \<and>
    stolen_of ls = xs @ [y] \<and> taken_of ls = [y]"
proof -
  let ?q = "squeue s" and ?n = "concat (replicate (Suc (length xs)) (replicate 5 (Thief i)))"
  let ?t = "s\<lparr>owner := D_loaded (M_back ?q) (M_data ?q) (M_front ?q)\<rparr>"
  note A = coreD [OF assms(1)]
  have ne: "M_front ?q \<noteq> M_back ?q" "M_front ?q \<noteq> M_back ?q + 1"
    using core_empty [OF assms(1)] core_not_wrapped [OF assms(1)] by auto
  have b: "M_back ?q - 1 = M_front ?q + of_nat (length xs)" using distance_offset [OF A(3)] by (simp add: algebra_simps)
  have y: "array_pop (M_back ?q - 1) a = y" using A(5) unfolding b by (simp add: items_from_snoc)
  have "M_back ?q - M_front ?q \<noteq> 1" using A(3) assms(2) by auto
  then have f: "M_front ?q \<noteq> M_back ?q - 1" by (metis add_diff_cancel_left' diff_add_cancel)
  obtain ls where ls: "stealing_exec dflt ?n ?t = (ls, ?t\<lparr>squeue := ?q\<lparr>M_front := M_back ?q\<rparr>\<rparr>)"
    "stolen_of ls = xs @ [y]" "taken_of ls = []"
    using thief_steals_all [of ?t a "xs @ [y]" i dflt] assms(1,4) by auto
  have o: "stealing_exec dflt [Owner Call_dequeue] s = ([Quiet], ?t)" using assms(3) ne by (simp add: Let_def)
  have d: "stealing_exec dflt (replicate 2 (Owner Call_dequeue)) (?t\<lparr>squeue := ?q\<lparr>M_front := M_back ?q\<rparr>\<rparr>) =
      ([Quiet, Taken (Some y)], s\<lparr>squeue := ?q\<lparr>M_front := M_back ?q, M_back := M_back ?q - 1\<rparr>\<rparr>)"
    using A(1) f y assms(3) by (simp add: eval_nat_numeral Let_def)
  show ?thesis unfolding overtaken_dequeue_def
    by (intro exI conjI, rule stealing_exec_append [OF o stealing_exec_append [OF ls(1) d]]) (use ls(2,3) in simp_all)
qed

text \<open>
  C37. A task can be taken twice, and the next one lost. \<open>dequeue\<close> reads \<open>M_front\<close> before it claims the last item by lowering
  \<open>M_back\<close>, and looks at \<open>M_front\<close> again only when it read one item. For every work-stealing queue that holds two or more
  items, wherever its indices are: if a thief steals all of them between the owner's reads and its store, the owner still takes the
  last item, which was stolen too, and leaves \<open>M_front\<close> one above \<open>M_back\<close>. The next item the owner enqueues makes the two
  equal: the queue is empty, and the item was neither stolen nor taken.
\<close>

theorem task_taken_twice:
  assumes "holds (squeue s) c (xs @ [y])" and "xs \<noteq> []" and "owner s = O_idle" and "thief s i = T_idle"
  shows "\<exists>ls s' ks t. stealing_exec dflt (overtaken_dequeue (Suc (length xs)) i) s = (ls, s') \<and>
    stolen_of ls = xs @ [y] \<and> taken_of ls = [y] \<and> M_front (squeue s') = M_back (squeue s') + 1 \<and>
    stealing_exec dflt (replicate 3 (Owner (Call_enqueue z))) s' = (ks, t) \<and>
    Enqueued_item z \<in> set ks \<and> stolen_of ks = [] \<and> taken_of ks = [] \<and> stealing_empty (squeue t)"
proof -
  obtain a where a: "core (squeue s) a (xs @ [y])" using assms(1) by (auto simp: holds_def)
  let ?q = "(squeue s)\<lparr>M_front := M_back (squeue s), M_back := M_back (squeue s) - 1\<rparr>"
  obtain ls where ls: "stealing_exec dflt (overtaken_dequeue (Suc (length xs)) i) s = (ls, s\<lparr>squeue := ?q\<rparr>)"
    "stolen_of ls = xs @ [y]" "taken_of ls = [y]" using overtaken_dequeue_ok [OF a assms(2-4)] by blast
  have at: "array_at (M_data ?q) ?q = Some a" using coreD(1) [OF a] by simp
  let ?r = "?q\<lparr>heap := (heap ?q)[M_data ?q := Some (array_push (M_back ?q) z a)]\<rparr>"
  have w: "write_cell (M_data ?q) (M_back ?q) z ?q = Some ?r" using write_cell_core(1) [OF at] .
  have "stealing_exec dflt (replicate 3 (Owner (Call_enqueue z))) (s\<lparr>squeue := ?q\<rparr>) =
      ([Quiet, Enqueued_item z, Quiet], s\<lparr>squeue := ?r\<lparr>M_back := M_back (squeue s)\<rparr>\<rparr>)"
    using at w assms(3) by (simp add: eval_nat_numeral Let_def stealing_full_def)
  moreover have "stealing_empty (?r\<lparr>M_back := M_back (squeue s)\<rparr>)" by (simp add: stealing_empty_def)
  ultimately show ?thesis using ls by (intro exI conjI) auto
qed

theorem task_taken_twice_witness:
  "\<exists>q1 q ls s'. stealing_enqueue 0 1 (work_stealing_queue (0 :: nat) 64) = Some q1 \<and> stealing_enqueue 0 2 q1 = Some q \<and>
     stealing_exec 0 (overtaken_dequeue 2 7) \<lparr>squeue = q, owner = O_idle, thief = (\<lambda>_. T_idle)\<rparr> = (ls, s') \<and>
     stolen_of ls = [1, 2] \<and> taken_of ls = [2]"
proof -
  have h: "holds (work_stealing_queue (0 :: nat) 64) 64 []" 
    by (auto simp: holds_def core_def old_ok_def work_stealing_queue_def circular_array_def array_at_def ring_ok_def items_from_def intro!: exI [of _ 6])
  obtain q1 c1 where q1: "stealing_enqueue 0 1 (work_stealing_queue (0 :: nat) 64) = Some q1" "holds q1 c1 ([] @ [1])"
    by (rule stealing_enqueue_ok [OF h, of 0 1]) auto
  obtain q c2 where q: "stealing_enqueue 0 2 q1 = Some q" "holds q c2 (([] @ [1]) @ [2])"
    by (rule stealing_enqueue_ok [OF q1(2), of 0 2]) auto
  let ?s = "\<lparr>squeue = q, owner = O_idle, thief = (\<lambda>_. T_idle)\<rparr>"
  have "holds (squeue ?s) c2 ([1] @ [2])" "[1 :: nat] \<noteq> []" "owner ?s = O_idle" "thief ?s 7 = T_idle" using q(2) by simp_all
  from task_taken_twice [OF this, of 0 0] q1(1) q(1) show ?thesis by (auto simp: numeral_2_eq_2)
qed
end
