(* ===== verification/Uring_Operations.thy ===== *)
theory Uring_Operations
  imports Work_Queues
begin

text \<open>
  The requests of \<^verbatim>\<open>samples/io_service.h\<close> and their way into the submission ring: the twenty operations and what each
  writes into its submission entry, the interface that makes them, and the pipeline of a thread, which hands its queue
  of operations to the ring. The ring belongs to liburing, whose functions are the fields of a record: they fetch the next
  free entry, write to the entry fetched last, and submit. Pointers are numbers.
\<close>

section \<open>The ring\<close>

type_synonym c_int = u32
type_synonym c_uint = u32
type_synonym off_t = u64
type_synonym size_t = u64
type_synonym pointer = nat

text \<open>A request is a chunk of one of the allocators.\<close>

type_synonym request = "nat \<times> nat"

text \<open>The calls of \<open>io_uring_prep_\<dots>\<close> with their arguments.\<close>

datatype prep =
    Prep_nop
  | Prep_poll_add c_int c_uint
  | Prep_cancel request c_int
  | Prep_openat c_int pointer c_int c_uint
  | Prep_read c_int pointer c_uint off_t
  | Prep_readv c_int pointer c_uint off_t
  | Prep_read_fixed c_int pointer c_uint off_t c_int
  | Prep_write c_int pointer c_uint off_t
  | Prep_writev c_int pointer c_uint off_t
  | Prep_write_fixed c_int pointer c_uint off_t c_int
  | Prep_timeout pointer c_uint c_uint
  | Prep_link_timeout pointer c_uint
  | Prep_recv c_int pointer size_t c_int
  | Prep_accept c_int pointer pointer c_int
  | Prep_send c_int pointer size_t c_int
  | Prep_close c_int
  | Prep_statx c_int pointer c_int c_uint pointer
  | Prep_provide_buffers pointer c_int c_int c_int c_int

datatype sqe_write = Prep prep | Or_flags u8 | Set_flags u8 | Set_buf_group c_int | Set_data request

text \<open>\<open>io_uring_get_sqe\<close> returns nothing when the ring is full; the flags are those of the kernel interface.\<close>

record 'u liburing =
  io_uring_get_sqe :: "'u \<Rightarrow> 'u option"
  sqe_write :: "sqe_write \<Rightarrow> 'u \<Rightarrow> 'u"
  io_uring_submit :: "'u \<Rightarrow> 'u"
  IOSQE_BUFFER_SELECT :: u8
  IOSQE_IO_LINK :: u8
  IOSQE_IO_HARDLINK :: u8

definition with_sqe :: "'u liburing \<Rightarrow> sqe_write list \<Rightarrow> 'u \<Rightarrow> 'u option" where
  "with_sqe L ws u = do { u \<leftarrow> io_uring_get_sqe L u; Some (fold (sqe_write L) ws u) }"

section \<open>The operations\<close>

text \<open>What the members \<open>run\<close> write, with the common members \<open>M_sqe_flags\<close> and \<open>M_data\<close> first.\<close>

definition run_nop :: "'u liburing \<Rightarrow> u8 \<Rightarrow> request \<Rightarrow> 'u \<Rightarrow> 'u option" where
  "run_nop L sqe_flags data = with_sqe L [Prep Prep_nop, Or_flags sqe_flags, Set_data data]"

definition run_poll_add :: "'u liburing \<Rightarrow> u8 \<Rightarrow> request \<Rightarrow> c_int \<Rightarrow> c_uint \<Rightarrow> 'u \<Rightarrow> 'u option" where
  "run_poll_add L sqe_flags data fd poll_mask =
     with_sqe L [Prep (Prep_poll_add fd poll_mask), Or_flags sqe_flags, Set_data data]"

definition run_cancel :: "'u liburing \<Rightarrow> u8 \<Rightarrow> request \<Rightarrow> request \<Rightarrow> c_int \<Rightarrow> 'u \<Rightarrow> 'u option" where
  "run_cancel L sqe_flags data user_data flags =
     with_sqe L [Prep (Prep_cancel user_data flags), Or_flags sqe_flags, Set_data data]"

definition run_openat :: "'u liburing \<Rightarrow> u8 \<Rightarrow> request \<Rightarrow> c_int \<Rightarrow> pointer \<Rightarrow> c_int \<Rightarrow> c_uint \<Rightarrow> 'u \<Rightarrow> 'u option" where
  "run_openat L sqe_flags data dir filename flags mode =
     with_sqe L [Prep (Prep_openat dir filename flags mode), Or_flags sqe_flags, Set_data data]"

definition run_read :: "'u liburing \<Rightarrow> u8 \<Rightarrow> request \<Rightarrow> c_int \<Rightarrow> pointer \<Rightarrow> c_uint \<Rightarrow> off_t \<Rightarrow> 'u \<Rightarrow> 'u option" where
  "run_read L sqe_flags data fd buffer bytes offset =
     with_sqe L [Prep (Prep_read fd buffer bytes offset), Or_flags sqe_flags, Set_data data]"

definition run_readv :: "'u liburing \<Rightarrow> u8 \<Rightarrow> request \<Rightarrow> c_int \<Rightarrow> pointer \<Rightarrow> c_uint \<Rightarrow> off_t \<Rightarrow> 'u \<Rightarrow> 'u option" where
  "run_readv L sqe_flags data fd iovecs n offset =
     with_sqe L [Prep (Prep_readv fd iovecs n offset), Or_flags sqe_flags, Set_data data]"

text \<open>Zero stands for the null pointer.\<close>

definition run_read_provide_buffer :: "'u liburing \<Rightarrow> u8 \<Rightarrow> request \<Rightarrow> c_int \<Rightarrow> c_int \<Rightarrow> c_uint \<Rightarrow> off_t \<Rightarrow> 'u \<Rightarrow> 'u option" where
  "run_read_provide_buffer L sqe_flags data fd gbid bytes offset =
     with_sqe L [Prep (Prep_read fd 0 bytes offset), Or_flags (sqe_flags OR IOSQE_BUFFER_SELECT L), Set_buf_group gbid, Set_data data]"

definition run_read_fixed :: "'u liburing \<Rightarrow> u8 \<Rightarrow> request \<Rightarrow> c_int \<Rightarrow> pointer \<Rightarrow> c_uint \<Rightarrow> off_t \<Rightarrow> c_int \<Rightarrow> 'u \<Rightarrow> 'u option" where
  "run_read_fixed L sqe_flags data fd buffer bytes offset buf_index =
     with_sqe L [Prep (Prep_read_fixed fd buffer bytes offset buf_index), Or_flags sqe_flags, Set_data data]"

definition run_write :: "'u liburing \<Rightarrow> u8 \<Rightarrow> request \<Rightarrow> c_int \<Rightarrow> pointer \<Rightarrow> c_uint \<Rightarrow> off_t \<Rightarrow> 'u \<Rightarrow> 'u option" where
  "run_write L sqe_flags data fd buffer bytes offset =
     with_sqe L [Prep (Prep_write fd buffer bytes offset), Or_flags sqe_flags, Set_data data]"

definition run_writev :: "'u liburing \<Rightarrow> u8 \<Rightarrow> request \<Rightarrow> c_int \<Rightarrow> pointer \<Rightarrow> c_uint \<Rightarrow> off_t \<Rightarrow> 'u \<Rightarrow> 'u option" where
  "run_writev L sqe_flags data fd iovecs n offset =
     with_sqe L [Prep (Prep_writev fd iovecs n offset), Or_flags sqe_flags, Set_data data]"

definition run_write_fixed :: "'u liburing \<Rightarrow> u8 \<Rightarrow> request \<Rightarrow> c_int \<Rightarrow> pointer \<Rightarrow> c_uint \<Rightarrow> off_t \<Rightarrow> c_int \<Rightarrow> 'u \<Rightarrow> 'u option" where
  "run_write_fixed L sqe_flags data fd buffer bytes offset buf_index =
     with_sqe L [Prep (Prep_write_fixed fd buffer bytes offset buf_index), Or_flags sqe_flags, Set_data data]"

definition run_timeout :: "'u liburing \<Rightarrow> u8 \<Rightarrow> request \<Rightarrow> pointer \<Rightarrow> 'u \<Rightarrow> 'u option" where
  "run_timeout L sqe_flags data t = with_sqe L [Prep (Prep_timeout t 0 0), Or_flags sqe_flags, Set_data data]"

definition run_link_timeout :: "'u liburing \<Rightarrow> u8 \<Rightarrow> request \<Rightarrow> pointer \<Rightarrow> c_uint \<Rightarrow> 'u \<Rightarrow> 'u option" where
  "run_link_timeout L sqe_flags data t flags =
     with_sqe L [Prep (Prep_link_timeout t flags), Or_flags sqe_flags, Set_data data]"

definition run_recv :: "'u liburing \<Rightarrow> u8 \<Rightarrow> request \<Rightarrow> c_int \<Rightarrow> pointer \<Rightarrow> size_t \<Rightarrow> c_int \<Rightarrow> 'u \<Rightarrow> 'u option" where
  "run_recv L sqe_flags data fd buffer len flags =
     with_sqe L [Prep (Prep_recv fd buffer len flags), Or_flags sqe_flags, Set_data data]"

text \<open>Here the flags are set and not added to those of the entry.\<close>

definition run_recv_provide_buffer :: "'u liburing \<Rightarrow> u8 \<Rightarrow> request \<Rightarrow> c_int \<Rightarrow> c_int \<Rightarrow> size_t \<Rightarrow> c_int \<Rightarrow> 'u \<Rightarrow> 'u option" where
  "run_recv_provide_buffer L sqe_flags data fd gbid len flags =
     with_sqe L [Prep (Prep_recv fd 0 len flags), Set_flags (sqe_flags OR IOSQE_BUFFER_SELECT L), Set_buf_group gbid, Set_data data]"

text \<open>The flags of \<open>accept\<close> are ignored: the code passes 0.\<close>

definition run_accept :: "'u liburing \<Rightarrow> u8 \<Rightarrow> request \<Rightarrow> c_int \<Rightarrow> pointer \<Rightarrow> pointer \<Rightarrow> c_int \<Rightarrow> 'u \<Rightarrow> 'u option" where
  "run_accept L sqe_flags data fd client_info socklen flags =
     with_sqe L [Prep (Prep_accept fd client_info socklen 0), Or_flags sqe_flags, Set_data data]"

definition run_send :: "'u liburing \<Rightarrow> u8 \<Rightarrow> request \<Rightarrow> c_int \<Rightarrow> pointer \<Rightarrow> size_t \<Rightarrow> c_int \<Rightarrow> 'u \<Rightarrow> 'u option" where
  "run_send L sqe_flags data fd buffer len flags =
     with_sqe L [Prep (Prep_send fd buffer len flags), Or_flags sqe_flags, Set_data data]"

definition run_close :: "'u liburing \<Rightarrow> u8 \<Rightarrow> request \<Rightarrow> c_int \<Rightarrow> 'u \<Rightarrow> 'u option" where
  "run_close L sqe_flags data fd = with_sqe L [Prep (Prep_close fd), Or_flags sqe_flags, Set_data data]"

definition run_statx :: "'u liburing \<Rightarrow> u8 \<Rightarrow> request \<Rightarrow> c_int \<Rightarrow> pointer \<Rightarrow> c_int \<Rightarrow> c_uint \<Rightarrow> pointer \<Rightarrow> 'u \<Rightarrow> 'u option" where
  "run_statx L sqe_flags data dfd path flags msk statxbuf =
     with_sqe L [Prep (Prep_statx dfd path flags msk statxbuf), Or_flags sqe_flags, Set_data data]"

definition run_provide_buffer ::
    "'u liburing \<Rightarrow> u8 \<Rightarrow> request \<Rightarrow> pointer \<Rightarrow> c_int \<Rightarrow> c_int \<Rightarrow> c_int \<Rightarrow> c_int \<Rightarrow> 'u \<Rightarrow> 'u option" where
  "run_provide_buffer L sqe_flags data addr buffer_length buffer_count bgid bid =
     with_sqe L [Prep (Prep_provide_buffers addr buffer_length buffer_count bgid bid), Or_flags sqe_flags, Set_data data]"

text \<open>The variant, without the common members, and with them. \<open>M_data\<close> is not set before \<open>get_future\<close>.\<close>

datatype op_body =
    Op_timeout pointer
  | Op_openat c_int pointer c_int c_uint
  | Op_read c_int pointer c_uint off_t
  | Op_close c_int
  | Op_cancel request c_int
  | Op_statx c_int pointer c_int c_uint pointer
  | Op_write c_int pointer c_uint off_t
  | Op_recv c_int pointer size_t c_int
  | Op_accept c_int pointer pointer c_int
  | Op_read_provide_buffer c_int c_int c_uint off_t
  | Op_write_fixed c_int pointer c_uint off_t c_int
  | Op_writev c_int pointer c_uint off_t
  | Op_nop
  | Op_send c_int pointer size_t c_int
  | Op_recv_provide_buffer c_int c_int size_t c_int
  | Op_poll_add c_int c_uint
  | Op_provide_buffer pointer c_int c_int c_int c_int
  | Op_read_fixed c_int pointer c_uint off_t c_int
  | Op_readv c_int pointer c_uint off_t
  | Op_link_timeout pointer c_uint

record io_uring_op =
  body :: op_body
  M_sqe_flags :: u8
  M_request :: request

text \<open>\<open>std::visit\<close> of \<open>run\<close>.\<close>

fun run_body :: "'u liburing \<Rightarrow> u8 \<Rightarrow> request \<Rightarrow> op_body \<Rightarrow> 'u \<Rightarrow> 'u option" where
  "run_body L f d (Op_timeout t) = run_timeout L f d t"
| "run_body L f d (Op_openat dir filename flags mode) = run_openat L f d dir filename flags mode"
| "run_body L f d (Op_read fd buffer bytes offset) = run_read L f d fd buffer bytes offset"
| "run_body L f d (Op_close fd) = run_close L f d fd"
| "run_body L f d (Op_cancel user_data flags) = run_cancel L f d user_data flags"
| "run_body L f d (Op_statx dfd path flags msk statxbuf) = run_statx L f d dfd path flags msk statxbuf"
| "run_body L f d (Op_write fd buffer bytes offset) = run_write L f d fd buffer bytes offset"
| "run_body L f d (Op_recv fd buffer len flags) = run_recv L f d fd buffer len flags"
| "run_body L f d (Op_accept fd client_info socklen flags) = run_accept L f d fd client_info socklen flags"
| "run_body L f d (Op_read_provide_buffer fd gbid bytes offset) = run_read_provide_buffer L f d fd gbid bytes offset"
| "run_body L f d (Op_write_fixed fd buffer bytes offset buf_index) = run_write_fixed L f d fd buffer bytes offset buf_index"
| "run_body L f d (Op_writev fd iovecs n offset) = run_writev L f d fd iovecs n offset"
| "run_body L f d Op_nop = run_nop L f d"
| "run_body L f d (Op_send fd buffer len flags) = run_send L f d fd buffer len flags"
| "run_body L f d (Op_recv_provide_buffer fd gbid len flags) = run_recv_provide_buffer L f d fd gbid len flags"
| "run_body L f d (Op_poll_add fd poll_mask) = run_poll_add L f d fd poll_mask"
| "run_body L f d (Op_provide_buffer addr len n bgid bid) = run_provide_buffer L f d addr len n bgid bid"
| "run_body L f d (Op_read_fixed fd buffer bytes offset buf_index) = run_read_fixed L f d fd buffer bytes offset buf_index"
| "run_body L f d (Op_readv fd iovecs n offset) = run_readv L f d fd iovecs n offset"
| "run_body L f d (Op_link_timeout t flags) = run_link_timeout L f d t flags"

definition run_op :: "'u liburing \<Rightarrow> io_uring_op \<Rightarrow> 'u \<Rightarrow> 'u option" where
  "run_op L op u = run_body L (M_sqe_flags op) (M_request op) (body op) u"

section \<open>The interface that makes operations\<close>

text \<open>
  \<open>io_operation\<close> is a template over the service, of which it uses \<open>submit_io\<close>: a function from the operation and its flags
  that returns the address of the request the caller can await. The system calls that make a timer, and the constants of \<open>poll\<close>, are arguments.
\<close>

type_synonym 's submitter = "op_body \<Rightarrow> u8 \<Rightarrow> 's \<Rightarrow> (request \<times> 's) option"

definition nop :: "'s submitter \<Rightarrow> u8 \<Rightarrow> 's \<Rightarrow> (request \<times> 's) option" where
  "nop submit_io sqe_flags = submit_io Op_nop sqe_flags"

definition poll_add :: "'s submitter \<Rightarrow> c_int \<Rightarrow> c_uint \<Rightarrow> u8 \<Rightarrow> 's \<Rightarrow> (request \<times> 's) option" where
  "poll_add submit_io fd poll_mask sqe_flags = submit_io (Op_poll_add fd poll_mask) sqe_flags"

definition cancel :: "'s submitter \<Rightarrow> request \<Rightarrow> c_int \<Rightarrow> u8 \<Rightarrow> 's \<Rightarrow> (request \<times> 's) option" where
  "cancel submit_io awaiter flags sqe_flags = submit_io (Op_cancel awaiter flags) sqe_flags"

definition openat :: "'s submitter \<Rightarrow> c_int \<Rightarrow> pointer \<Rightarrow> c_int \<Rightarrow> c_uint \<Rightarrow> u8 \<Rightarrow> 's \<Rightarrow> (request \<times> 's) option" where
  "openat submit_io dfd filename flags mode sqe_flags = submit_io (Op_openat dfd filename flags mode) sqe_flags"

definition read :: "'s submitter \<Rightarrow> c_int \<Rightarrow> pointer \<Rightarrow> c_uint \<Rightarrow> off_t \<Rightarrow> u8 \<Rightarrow> 's \<Rightarrow> (request \<times> 's) option" where
  "read submit_io fd buffer bytes offset sqe_flags = submit_io (Op_read fd buffer bytes offset) sqe_flags"

definition read_provided :: "'s submitter \<Rightarrow> c_int \<Rightarrow> c_int \<Rightarrow> c_uint \<Rightarrow> off_t \<Rightarrow> u8 \<Rightarrow> 's \<Rightarrow> (request \<times> 's) option" where
  "read_provided submit_io fd gbid bytes offset sqe_flags = submit_io (Op_read_provide_buffer fd gbid bytes offset) sqe_flags"

definition readv :: "'s submitter \<Rightarrow> c_int \<Rightarrow> pointer \<Rightarrow> c_uint \<Rightarrow> off_t \<Rightarrow> u8 \<Rightarrow> 's \<Rightarrow> (request \<times> 's) option" where
  "readv submit_io fd iovecs n offset sqe_flags = submit_io (Op_readv fd iovecs n offset) sqe_flags"

definition read_fixed :: "'s submitter \<Rightarrow> c_int \<Rightarrow> pointer \<Rightarrow> c_uint \<Rightarrow> off_t \<Rightarrow> c_int \<Rightarrow> u8 \<Rightarrow> 's \<Rightarrow> (request \<times> 's) option" where
  "read_fixed submit_io fd buffer bytes offset buf_index sqe_flags = submit_io (Op_read_fixed fd buffer bytes offset buf_index) sqe_flags"

definition write_op :: "'s submitter \<Rightarrow> c_int \<Rightarrow> pointer \<Rightarrow> c_uint \<Rightarrow> off_t \<Rightarrow> u8 \<Rightarrow> 's \<Rightarrow> (request \<times> 's) option" where
  "write_op submit_io fd buffer bytes offset sqe_flags = submit_io (Op_write fd buffer bytes offset) sqe_flags"

definition writev :: "'s submitter \<Rightarrow> c_int \<Rightarrow> pointer \<Rightarrow> c_uint \<Rightarrow> off_t \<Rightarrow> u8 \<Rightarrow> 's \<Rightarrow> (request \<times> 's) option" where
  "writev submit_io fd iovecs n offset sqe_flags = submit_io (Op_writev fd iovecs n offset) sqe_flags"

definition write_fixed :: "'s submitter \<Rightarrow> c_int \<Rightarrow> pointer \<Rightarrow> c_uint \<Rightarrow> off_t \<Rightarrow> c_int \<Rightarrow> u8 \<Rightarrow> 's \<Rightarrow> (request \<times> 's) option" where
  "write_fixed submit_io fd buffer bytes offset buf_index sqe_flags = submit_io (Op_write_fixed fd buffer bytes offset buf_index) sqe_flags"

definition recv :: "'s submitter \<Rightarrow> c_int \<Rightarrow> pointer \<Rightarrow> size_t \<Rightarrow> c_int \<Rightarrow> u8 \<Rightarrow> 's \<Rightarrow> (request \<times> 's) option" where
  "recv submit_io fd buffer len flags sqe_flags = submit_io (Op_recv fd buffer len flags) sqe_flags"

definition recv_provided :: "'s submitter \<Rightarrow> c_int \<Rightarrow> c_int \<Rightarrow> size_t \<Rightarrow> c_int \<Rightarrow> u8 \<Rightarrow> 's \<Rightarrow> (request \<times> 's) option" where
  "recv_provided submit_io fd gbid len flags sqe_flags = submit_io (Op_recv_provide_buffer fd gbid len flags) sqe_flags"

definition accept :: "'s submitter \<Rightarrow> c_int \<Rightarrow> pointer \<Rightarrow> pointer \<Rightarrow> c_int \<Rightarrow> u8 \<Rightarrow> 's \<Rightarrow> (request \<times> 's) option" where
  "accept submit_io fd client_info socklen flags sqe_flags = submit_io (Op_accept fd client_info socklen flags) sqe_flags"

definition send :: "'s submitter \<Rightarrow> c_int \<Rightarrow> pointer \<Rightarrow> size_t \<Rightarrow> c_int \<Rightarrow> u8 \<Rightarrow> 's \<Rightarrow> (request \<times> 's) option" where
  "send submit_io fd buffer len flags sqe_flags = submit_io (Op_send fd buffer len flags) sqe_flags"

definition close :: "'s submitter \<Rightarrow> c_int \<Rightarrow> u8 \<Rightarrow> 's \<Rightarrow> (request \<times> 's) option" where
  "close submit_io fd sqe_flags = submit_io (Op_close fd) sqe_flags"

definition statx :: "'s submitter \<Rightarrow> c_int \<Rightarrow> pointer \<Rightarrow> c_int \<Rightarrow> c_uint \<Rightarrow> pointer \<Rightarrow> u8 \<Rightarrow> 's \<Rightarrow> (request \<times> 's) option" where
  "statx submit_io dfd path flags msk statxbuf sqe_flags = submit_io (Op_statx dfd path flags msk statxbuf) sqe_flags"

definition timeout :: "'s submitter \<Rightarrow> pointer \<Rightarrow> u8 \<Rightarrow> 's \<Rightarrow> (request \<times> 's) option" where
  "timeout submit_io t sqe_flags = submit_io (Op_timeout t) sqe_flags"

definition link_timeout :: "'s submitter \<Rightarrow> pointer \<Rightarrow> c_uint \<Rightarrow> u8 \<Rightarrow> 's \<Rightarrow> (request \<times> 's) option" where
  "link_timeout submit_io t flags sqe_flags = submit_io (Op_link_timeout t flags) sqe_flags"

definition provide_buffer :: "'s submitter \<Rightarrow> pointer \<Rightarrow> c_int \<Rightarrow> c_int \<Rightarrow> c_int \<Rightarrow> c_int \<Rightarrow> u8 \<Rightarrow> 's \<Rightarrow> (request \<times> 's) option" where
  "provide_buffer submit_io addr buffer_length buffer_count bgid bid sqe_flags =
     submit_io (Op_provide_buffer addr buffer_length buffer_count bgid bid) sqe_flags"

text \<open>A timer that expires once, a poll on it, and the linked close; the caller awaits the close.\<close>

definition sleep ::
    "'u liburing \<Rightarrow> c_uint \<Rightarrow> (u64 \<Rightarrow> u64 \<Rightarrow> 's \<Rightarrow> c_int \<times> 's) \<Rightarrow> 's submitter \<Rightarrow> u64 \<Rightarrow> u64 \<Rightarrow> u8 \<Rightarrow> 's \<Rightarrow> (request \<times> 's) option" where
  "sleep L POLL_IN timerfd submit_io sec nsec sqe_flags s = do {
     let (tfd, s) = timerfd sec nsec s;
     (_, s) \<leftarrow> poll_add submit_io tfd POLL_IN (sqe_flags OR IOSQE_IO_HARDLINK L) s;
     close submit_io tfd sqe_flags s }"

text \<open>A duration in nanoseconds. The flags are not passed on.\<close>

definition sleep_duration ::
    "'u liburing \<Rightarrow> c_uint \<Rightarrow> (u64 \<Rightarrow> u64 \<Rightarrow> 's \<Rightarrow> c_int \<times> 's) \<Rightarrow> 's submitter \<Rightarrow> int \<Rightarrow> u8 \<Rightarrow> 's \<Rightarrow> (request \<times> 's) option" where
  "sleep_duration L POLL_IN timerfd submit_io delay sqe_flags s =
     (let secs = (if 0 \<le> delay then delay div 1000000000 else - (- delay div 1000000000))
      in sleep L POLL_IN timerfd submit_io (word_of_int secs) (word_of_int (delay - 1000000000 * secs)) 0 s)"

section \<open>Detached operations\<close>

text \<open>\<open>io_operation_detached\<close> collects operations; \<open>get_future\<close> takes a request from the allocator of the thread.\<close>

definition detached_submit_io :: "('s \<Rightarrow> (request \<times> 's) option) \<Rightarrow> (io_uring_op list \<times> 's) submitter" where
  "detached_submit_io get_future operation sqe_flags = (\<lambda>(ops, s). do {
     (future, s) \<leftarrow> get_future s;
     Some (future, (ops @ [\<lparr>body = operation, M_sqe_flags = sqe_flags, M_request = future\<rparr>], s)) })"

section \<open>The pipeline of a thread\<close>

record pipeline =
  M_io_work_queue :: "io_uring_op work_queue"
  M_overflow_work :: io_uring_op
  M_has_overflow_work :: bool

text \<open>An operation of which nothing is initialised.\<close>

definition op0 :: io_uring_op where
  "op0 = \<lparr>body = Op_timeout 0, M_sqe_flags = 0, M_request = (0, 0)\<rparr>"

definition io_op_pipeline :: "u64 \<Rightarrow> pipeline" where
  "io_op_pipeline n = \<lparr>M_io_work_queue = io_work_queue op0 n, M_overflow_work = op0, M_has_overflow_work = False\<rparr>"

definition pipeline_enqueue :: "io_uring_op \<Rightarrow> pipeline \<Rightarrow> pipeline option" where
  "pipeline_enqueue val p = do { q \<leftarrow> enqueue op0 val (M_io_work_queue p); Some (p\<lparr>M_io_work_queue := q\<rparr>) }"

definition pipeline_enqueue_all :: "io_uring_op list \<Rightarrow> pipeline \<Rightarrow> pipeline option" where
  "pipeline_enqueue_all items p = do { q \<leftarrow> bulk_enqueue op0 items (M_io_work_queue p); Some (p\<lparr>M_io_work_queue := q\<rparr>) }"

definition pipeline_empty :: "pipeline \<Rightarrow> bool" where
  "pipeline_empty p = Work_Queues.empty (M_io_work_queue p)"

text \<open>
  The loop of \<open>init_io_uring_ops\<close>. When the ring has no entry left, the operation that was taken out of the queue is
  dropped: the lines that would keep it come after the return.
\<close>

lemma dequeue_less:
  assumes "dequeue q = Some (Some x, q')"
  shows "unat (M_back q' - M_front q') < unat (M_back q - M_front q)"
proof -
  have ne: "M_back q - M_front q \<noteq> 0" and q': "M_back q' = M_back q" "M_front q' = M_front q + 1"
    using assms by (auto simp: dequeue_def Let_def split: if_splits Option.bind_splits)
  have "M_back q' - M_front q' = M_back q - M_front q - 1" using q' by (simp add: diff_diff_eq)
  then show ?thesis using unat_pred_less [OF ne] by (simp only:)
qed

function drain_queue :: "'u liburing \<Rightarrow> pipeline \<Rightarrow> 'u \<Rightarrow> u32 \<Rightarrow> (int \<times> pipeline \<times> 'u) option" where
  "drain_queue L p u completed = (case dequeue (M_io_work_queue p) of
      None \<Rightarrow> None
    | Some (None, q) \<Rightarrow> Some (sint completed, p\<lparr>M_io_work_queue := q\<rparr>, u)
    | Some (Some op, q) \<Rightarrow> (case run_op L op u of
        None \<Rightarrow> Some (- 1, p\<lparr>M_io_work_queue := q\<rparr>, u)
      | Some u' \<Rightarrow> drain_queue L (p\<lparr>M_io_work_queue := q\<rparr>) u' (completed + 1)))"
  by pat_completeness auto
termination
  by (relation "measure (\<lambda>(L, p, u, completed). unat (M_back (M_io_work_queue p) - M_front (M_io_work_queue p)))")
     (auto dest: dequeue_less)

declare drain_queue.simps [simp del]

definition init_io_uring_ops :: "'u liburing \<Rightarrow> pipeline \<Rightarrow> 'u \<Rightarrow> (int \<times> pipeline \<times> 'u) option" where
  "init_io_uring_ops L p u =
     (if M_has_overflow_work p then
        (case run_op L (M_overflow_work p) u of
          None \<Rightarrow> Some (- 1, p, u)
        | Some u \<Rightarrow> drain_queue L (p\<lparr>M_has_overflow_work := False\<rparr>) u 1)
      else drain_queue L p u 0)"

section \<open>What reaches the ring\<close>

text \<open>The call, the flags, the buffer group and the request that the writes to an entry leave in it.\<close>

definition entry_prep :: "sqe_write list \<Rightarrow> prep option" where
  "entry_prep ws = foldl (\<lambda>x w. case w of Prep p \<Rightarrow> Some p | _ \<Rightarrow> x) None ws"

definition entry_flags :: "sqe_write list \<Rightarrow> u8" where
  "entry_flags ws = foldl (\<lambda>x w. case w of Or_flags f \<Rightarrow> x OR f | Set_flags f \<Rightarrow> f | _ \<Rightarrow> x) 0 ws"

definition entry_group :: "sqe_write list \<Rightarrow> c_int option" where
  "entry_group ws = foldl (\<lambda>x w. case w of Set_buf_group g \<Rightarrow> Some g | _ \<Rightarrow> x) None ws"

definition entry_data :: "sqe_write list \<Rightarrow> request option" where
  "entry_data ws = foldl (\<lambda>x w. case w of Set_data d \<Rightarrow> Some d | _ \<Rightarrow> x) None ws"

fun op_prep :: "op_body \<Rightarrow> prep" where
  "op_prep (Op_timeout t) = Prep_timeout t 0 0"
| "op_prep (Op_openat dir filename flags mode) = Prep_openat dir filename flags mode"
| "op_prep (Op_read fd buffer bytes offset) = Prep_read fd buffer bytes offset"
| "op_prep (Op_close fd) = Prep_close fd"
| "op_prep (Op_cancel user_data flags) = Prep_cancel user_data flags"
| "op_prep (Op_statx dfd path flags msk statxbuf) = Prep_statx dfd path flags msk statxbuf"
| "op_prep (Op_write fd buffer bytes offset) = Prep_write fd buffer bytes offset"
| "op_prep (Op_recv fd buffer len flags) = Prep_recv fd buffer len flags"
| "op_prep (Op_accept fd client_info socklen flags) = Prep_accept fd client_info socklen 0"
| "op_prep (Op_read_provide_buffer fd gbid bytes offset) = Prep_read fd 0 bytes offset"
| "op_prep (Op_write_fixed fd buffer bytes offset buf_index) = Prep_write_fixed fd buffer bytes offset buf_index"
| "op_prep (Op_writev fd iovecs n offset) = Prep_writev fd iovecs n offset"
| "op_prep Op_nop = Prep_nop"
| "op_prep (Op_send fd buffer len flags) = Prep_send fd buffer len flags"
| "op_prep (Op_recv_provide_buffer fd gbid len flags) = Prep_recv fd 0 len flags"
| "op_prep (Op_poll_add fd poll_mask) = Prep_poll_add fd poll_mask"
| "op_prep (Op_provide_buffer addr len n bgid bid) = Prep_provide_buffers addr len n bgid bid"
| "op_prep (Op_read_fixed fd buffer bytes offset buf_index) = Prep_read_fixed fd buffer bytes offset buf_index"
| "op_prep (Op_readv fd iovecs n offset) = Prep_readv fd iovecs n offset"
| "op_prep (Op_link_timeout t flags) = Prep_link_timeout t flags"

text \<open>The operations that let the kernel choose a buffer name the group of buffers.\<close>

fun op_group :: "op_body \<Rightarrow> c_int option" where
  "op_group (Op_read_provide_buffer fd gbid bytes offset) = Some gbid"
| "op_group (Op_recv_provide_buffer fd gbid len flags) = Some gbid"
| "op_group _ = None"

definition entry_ok :: "'u liburing \<Rightarrow> io_uring_op \<Rightarrow> sqe_write list \<Rightarrow> bool" where
  "entry_ok L op e \<longleftrightarrow> entry_prep e = Some (op_prep (body op)) \<and> entry_data e = Some (M_request op) \<and>
     entry_group e = op_group (body op) \<and>
     entry_flags e = (if op_group (body op) = None then M_sqe_flags op else M_sqe_flags op OR IOSQE_BUFFER_SELECT L)"

text \<open>
  What the code relies on of liburing: \<open>room\<close> is the number of free entries of the ring and \<open>entries\<close> are the writes to
  those that were fetched. An entry can be fetched exactly when one is free, and a write goes to the entry fetched last.
\<close>

definition ring_view :: "'u liburing \<Rightarrow> ('u \<Rightarrow> nat) \<Rightarrow> ('u \<Rightarrow> sqe_write list list) \<Rightarrow> bool" where
  "ring_view L room entries \<longleftrightarrow>
     (\<forall>u. io_uring_get_sqe L u = None \<longleftrightarrow> room u = 0) \<and>
     (\<forall>u u'. io_uring_get_sqe L u = Some u' \<longrightarrow> room u' = room u - 1 \<and> entries u' = entries u @ [[]]) \<and>
     (\<forall>w u es e. entries u = es @ [e] \<longrightarrow> entries (sqe_write L w u) = es @ [e @ [w]] \<and> room (sqe_write L w u) = room u)"

lemma fold_writes:
  assumes "ring_view L room entries" and "entries u = es @ [e]"
  shows "entries (fold (sqe_write L) ws u) = es @ [e @ ws] \<and> room (fold (sqe_write L) ws u) = room u"
  using assms(2)
proof (induction ws arbitrary: u e)
  case (Cons w ws)
  have "entries (sqe_write L w u) = es @ [e @ [w]]" "room (sqe_write L w u) = room u"
    using assms(1) Cons.prems by (auto simp: ring_view_def)
  with Cons.IH [OF this(1)] show ?case by simp
qed simp

lemma with_sqe_view:
  assumes "ring_view L room entries"
  shows "with_sqe L ws u = None \<longleftrightarrow> room u = (0 :: nat)"
    and "with_sqe L ws u = Some u' \<Longrightarrow> entries u' = entries u @ [ws] \<and> room u' = room u - 1"
proof -
  show "with_sqe L ws u = None \<longleftrightarrow> room u = 0"
  proof -
    have "io_uring_get_sqe L u = None \<longleftrightarrow> room u = 0" using assms unfolding ring_view_def by blast
    moreover have "with_sqe L ws u = None \<longleftrightarrow> io_uring_get_sqe L u = None"
      by (cases "io_uring_get_sqe L u") (simp_all add: with_sqe_def)
    ultimately show ?thesis by simp
  qed
  assume "with_sqe L ws u = Some u'"
  then obtain u1 where u1: "io_uring_get_sqe L u = Some u1" "u' = fold (sqe_write L) ws u1"
    by (auto simp: with_sqe_def split: Option.bind_splits)
  then have "entries u1 = entries u @ [[]]" "room u1 = room u - 1" using assms by (auto simp: ring_view_def)
  with fold_writes [OF assms, of u1 "entries u" "[]" ws] u1(2) show "entries u' = entries u @ [ws] \<and> room u' = room u - 1" by simp
qed

lemmas run_defs = run_nop_def run_poll_add_def run_cancel_def run_openat_def run_read_def run_readv_def
  run_read_provide_buffer_def run_read_fixed_def run_write_def run_writev_def run_write_fixed_def run_timeout_def
  run_link_timeout_def run_recv_def run_recv_provide_buffer_def run_accept_def run_send_def run_close_def run_statx_def
  run_provide_buffer_def

lemma run_body_with_sqe:
  "\<exists>ws. run_body L f d b = with_sqe L ws \<and> entry_ok L \<lparr>body = b, M_sqe_flags = f, M_request = d\<rparr> ws"
  by (cases b) (auto simp: run_defs entry_ok_def entry_prep_def entry_data_def entry_group_def entry_flags_def)

lemma run_op_with_sqe: "\<exists>ws. run_op L op = with_sqe L ws \<and> entry_ok L op ws"
proof (cases op)
  case (fields b f d)
  then show ?thesis using run_body_with_sqe [of L f d b] by (simp add: run_op_def [abs_def])
qed

lemma run_op_view:
  assumes "ring_view L room entries"
  shows "run_op L op u = None \<longleftrightarrow> room u = 0"
    and "run_op L op u = Some u' \<Longrightarrow> \<exists>e. entry_ok L op e \<and> entries u' = entries u @ [e] \<and> room u' = room u - 1"
  using run_op_with_sqe [of L op] with_sqe_view [OF assms, of _ u] by metis+

section \<open>Pipelines\<close>

definition pipeline_holds :: "pipeline \<Rightarrow> nat \<Rightarrow> io_uring_op list \<Rightarrow> bool" where
  "pipeline_holds p c ops \<longleftrightarrow> holds (M_io_work_queue p) c ops \<and> \<not> M_has_overflow_work p"

lemma pipeline_empty_iff: "pipeline_holds p c ops \<Longrightarrow> pipeline_empty p \<longleftrightarrow> ops = []"
  unfolding pipeline_holds_def pipeline_empty_def by (elim conjE) (rule holds_empty)

lemma io_op_pipeline_holds: "k \<le> 62 \<Longrightarrow> pipeline_holds (io_op_pipeline (2 ^ k)) (2 ^ k) []"
  by (simp add: pipeline_holds_def io_op_pipeline_def io_work_queue_holds)

lemma pipeline_enqueue_holds:
  assumes "pipeline_holds p c ops" and "length ops < 2 ^ 61"
  obtains p' c' where "pipeline_enqueue op p = Some p'" and "pipeline_holds p' c' (ops @ [op])" and "c \<le> c'"
proof -
  obtain q' c' where "enqueue op0 op (M_io_work_queue p) = Some q'" "holds q' c' (ops @ [op])" "c \<le> c'"
    using enqueue_ok [of "M_io_work_queue p" c ops op0 op] assms by (auto simp: pipeline_holds_def)
  then show thesis using assms(1) 
    by (intro that [of "p\<lparr>M_io_work_queue := q'\<rparr>" c']) (simp_all add: pipeline_enqueue_def pipeline_holds_def)
qed

text \<open>With room for all operations the loop empties the queue into the ring, in order.\<close>

lemma drain_queue_all:
  assumes "ring_view L room entries" and "pipeline_holds p c ops" and "length ops \<le> room u"
  shows "\<exists>p' u' es. drain_queue L p u n = Some (sint (n + of_nat (length ops)), p', u') \<and> pipeline_holds p' c [] \<and>
    list_all2 (entry_ok L) ops es \<and> entries u' = entries u @ es \<and> room u' = room u - length ops"
  using assms(2,3)
proof (induction ops arbitrary: p u n)
  case Nil
  then show ?case using dequeue_none [of "M_io_work_queue p" c]
    by (subst drain_queue.simps) (simp add: pipeline_holds_def)
next
  case (Cons op ops)
  then have "holds (M_io_work_queue p) c (op # ops)" by (simp add: pipeline_holds_def)
  then obtain q where q: "dequeue (M_io_work_queue p) = Some (Some op, q)" "holds q c ops" by (rule dequeue_some)
  obtain u1 e where u1: "run_op L op u = Some u1" "entry_ok L op e" "entries u1 = entries u @ [e]" "room u1 = room u - 1"
    using run_op_view [OF assms(1), of op u] Cons.prems(2) by (cases "run_op L op u") auto
  have "pipeline_holds (p\<lparr>M_io_work_queue := q\<rparr>) c ops" using q(2) Cons.prems(1) by (simp add: pipeline_holds_def)
  moreover have "length ops \<le> room u1" using u1(4) Cons.prems(2) by simp
  ultimately obtain p' u' es where IH: "drain_queue L (p\<lparr>M_io_work_queue := q\<rparr>) u1 (n + 1) = Some (sint (n + 1 + of_nat (length ops)), p', u')"
      "pipeline_holds p' c []" "list_all2 (entry_ok L) ops es" "entries u' = entries u1 @ es" "room u' = room u1 - length ops"
    using Cons.IH [of "p\<lparr>M_io_work_queue := q\<rparr>" u1 "n + 1"] by blast
  have "drain_queue L p u n = Some (sint (n + of_nat (length (op # ops))), p', u')"
    using q(1) u1(1) IH(1) by (subst drain_queue.simps) (simp add: add.assoc)
  then show ?case using IH u1 by (intro exI [of _ p'] exI [of _ u'] exI [of _ "e # es"]) simp
qed

text \<open>Without, the first operation that finds no entry is dropped.\<close>

lemma drain_queue_full:
  assumes "ring_view L room entries" and "pipeline_holds p c (ops @ op # rest)" and "length ops = room u"
  shows "\<exists>p' u' es. drain_queue L p u n = Some (- 1, p', u') \<and> pipeline_holds p' c rest \<and>
    list_all2 (entry_ok L) ops es \<and> entries u' = entries u @ es \<and> room u' = 0"
  using assms(2,3)
proof (induction ops arbitrary: p u n)
  case Nil
  then have "holds (M_io_work_queue p) c (op # rest)" by (simp add: pipeline_holds_def)
  then obtain q where q: "dequeue (M_io_work_queue p) = Some (Some op, q)" "holds q c rest" by (rule dequeue_some)
  have "run_op L op u = None" using run_op_view(1) [OF assms(1)] Nil.prems(2) by simp
  then show ?case using q Nil.prems by (subst drain_queue.simps) (simp add: pipeline_holds_def)
next
  case (Cons o1 ops)
  then have "holds (M_io_work_queue p) c (o1 # ops @ op # rest)" by (simp add: pipeline_holds_def)
  then obtain q where q: "dequeue (M_io_work_queue p) = Some (Some o1, q)" "holds q c (ops @ op # rest)" by (rule dequeue_some)
  obtain u1 e where u1: "run_op L o1 u = Some u1" "entry_ok L o1 e" "entries u1 = entries u @ [e]" "room u1 = room u - 1"
    using run_op_view [OF assms(1), of o1 u] Cons.prems(2) by (cases "run_op L o1 u") auto
  have "pipeline_holds (p\<lparr>M_io_work_queue := q\<rparr>) c (ops @ op # rest)" using q(2) Cons.prems(1) by (simp add: pipeline_holds_def)
  moreover have "length ops = room u1" using u1(4) Cons.prems(2) by simp
  ultimately obtain p' u' es where IH: "drain_queue L (p\<lparr>M_io_work_queue := q\<rparr>) u1 (n + 1) = Some (- 1, p', u')"
      "pipeline_holds p' c rest" "list_all2 (entry_ok L) ops es" "entries u' = entries u1 @ es" "room u' = 0"
    using Cons.IH [of "p\<lparr>M_io_work_queue := q\<rparr>" u1 "n + 1"] by blast
  have "drain_queue L p u n = Some (- 1, p', u')"
    using q(1) u1(1) IH(1) by (subst drain_queue.simps) simp
  then show ?case using IH u1 by (intro exI [of _ p'] exI [of _ u'] exI [of _ "e # es"]) simp
qed

lemma init_io_uring_ops_eq: "pipeline_holds p c ops \<Longrightarrow> init_io_uring_ops L p u = drain_queue L p u 0"
  by (simp add: init_io_uring_ops_def pipeline_holds_def)

end
