(* ===== verification/Chunk_Pool.thy ===== *)
theory Chunk_Pool
  imports Godby_Prelude "HOL-Library.Monad_Syntax"
begin

text \<open>
  The \<open>pool_allocator\<close> of \<^verbatim>\<open>samples/io_service.h\<close>: a stack of free chunks in one atomic word of a pointer and a
  32-bit tag, filled block by block. A chunk is a union of the object and the link to the next free chunk, so while a
  chunk is in use its link holds whatever its user writes there. Chunks are numbered in the order of their addresses
  within a block, and blocks do not overlap.
\<close>

section \<open>The pool\<close>

record pool =
  M_ptr :: "nat option"
  M_tag :: u32
  M_next :: "nat \<Rightarrow> nat option"
  M_allocated_blocks :: "nat option list"
  M_block_allocating :: bool
  fresh :: nat

text \<open>\<open>new chunk[block_size]\<close>, whose links are null, and the loop that links the chunks of the block.\<close>

definition new_block :: "nat \<Rightarrow> pool \<Rightarrow> nat \<times> pool" where
  "new_block n s = (fresh s,
     s\<lparr>M_next := (\<lambda>c. if c \<in> {fresh s..<fresh s + n} then if c + 1 < fresh s + n then Some (c + 1) else None else M_next s c),
       M_allocated_blocks := M_allocated_blocks s @ [Some (fresh s)], fresh := fresh s + n\<rparr>)"

definition set_next :: "nat \<Rightarrow> nat option \<Rightarrow> pool \<Rightarrow> pool" where
  "set_next c p s = s\<lparr>M_next := (M_next s)(c := p)\<rparr>"

text \<open>\<open>compare_exchange_strong\<close> on the head.\<close>

definition cas_head :: "nat option \<times> u32 \<Rightarrow> nat option \<times> u32 \<Rightarrow> pool \<Rightarrow> bool \<times> pool" where
  "cas_head old_head new_head s =
     (if (M_ptr s, M_tag s) = old_head then (True, s\<lparr>M_ptr := fst new_head, M_tag := snd new_head\<rparr>) else (False, s))"

text \<open>The operations run alone, where the compare-and-exchange succeeds.\<close>

definition allocate_block :: "nat \<Rightarrow> pool \<Rightarrow> pool" where
  "allocate_block n s =
     (if M_block_allocating s then s
      else
        let (base, s) = new_block n (s\<lparr>M_block_allocating := True\<rparr>);
            curr = (M_ptr s, M_tag s);
            s = set_next (base + n - 1) (fst curr) s;
            (_, s) = cas_head curr (Some base, snd curr + 1) s
        in s\<lparr>M_block_allocating := False\<rparr>)"

definition pool_allocator :: "nat \<Rightarrow> pool" where
  "pool_allocator n = allocate_block n \<lparr>M_ptr = None, M_tag = 0, M_next = (\<lambda>_. None),
     M_allocated_blocks = [None], M_block_allocating = False, fresh = 0\<rparr>"

text \<open>
  \<open>allocate\<close> up to the construction of the object. When the head is still null after \<open>allocate_block\<close>, nothing has changed and the
  loop does not end.
\<close>

definition allocate :: "nat \<Rightarrow> pool \<Rightarrow> (nat \<times> pool) option" where
  "allocate n s = (let s = (if M_ptr s = None then allocate_block n s else s) in do {
     p \<leftarrow> M_ptr s;
     let (_, s) = cas_head (Some p, M_tag s) (M_next s p, M_tag s + 1) s;
     Some (p, s) })"

definition deallocate :: "nat \<Rightarrow> pool \<Rightarrow> pool" where
  "deallocate p s =
     (let head = (M_ptr s, M_tag s);
          s = set_next p (fst head) s;
          (_, s) = cas_head head (Some p, snd head + 1) s
      in s)"

section \<open>Several threads\<close>

text \<open>
  Where a thread is in \<open>allocate\<close> (with the head it has loaded and the link it has read), in the \<open>allocate_block\<close> that
  \<open>allocate\<close> calls, or in \<open>deallocate\<close>.
\<close>

datatype pool_pc =
    Idle
  | A_loaded "nat option" u32
  | A_next nat u32 "nat option"
  | A_reload
  | B_made nat
  | B_loaded nat "nat option" u32
  | B_linked nat "nat option" u32
  | B_done
  | D_loaded nat "nat option" u32
  | D_linked nat "nat option" u32

text \<open>\<open>live\<close> are the chunks that were handed out and not yet returned.\<close>

record pool_sys =
  pool :: pool
  pc :: "nat \<Rightarrow> pool_pc"
  live :: "nat set"

datatype pool_label = Silent | Allocated nat | Returned nat | Freed nat | Block_added

abbreviation goto :: "nat \<Rightarrow> pool_pc \<Rightarrow> pool_sys \<Rightarrow> pool_sys" where
  "goto t c s \<equiv> s\<lparr>pc := (pc s)(t := c)\<rparr>"

inductive pool_step :: "nat \<Rightarrow> pool_sys \<Rightarrow> pool_label \<Rightarrow> pool_sys \<Rightarrow> bool" for n where
  allocate_load: "pc s t \<in> {Idle, A_reload} \<Longrightarrow>
    pool_step n s Silent (goto t (A_loaded (M_ptr (pool s)) (M_tag (pool s))) s)"
| allocate_busy: "pc s t = A_loaded None g \<Longrightarrow> M_block_allocating (pool s) \<Longrightarrow>
    pool_step n s Silent (goto t A_reload s)"
| allocate_block: "pc s t = A_loaded None g \<Longrightarrow> \<not> M_block_allocating (pool s) \<Longrightarrow>
    new_block n ((pool s)\<lparr>M_block_allocating := True\<rparr>) = (base, p) \<Longrightarrow>
    pool_step n s Silent (goto t (B_made base) (s\<lparr>pool := p\<rparr>))"
| block_load: "pc s t = B_made base \<Longrightarrow>
    pool_step n s Silent (goto t (B_loaded base (M_ptr (pool s)) (M_tag (pool s))) s)"
| block_link: "pc s t = B_loaded base h g \<Longrightarrow>
    pool_step n s Silent (goto t (B_linked base h g) (s\<lparr>pool := set_next (base + n - 1) h (pool s)\<rparr>))"
| block_cas: "pc s t = B_linked base h g \<Longrightarrow> cas_head (h, g) (Some base, g + 1) (pool s) = (True, p) \<Longrightarrow>
    pool_step n s Block_added (goto t B_done (s\<lparr>pool := p\<rparr>))"
| block_retry: "pc s t = B_linked base h g \<Longrightarrow> cas_head (h, g) (Some base, g + 1) (pool s) = (False, p) \<Longrightarrow>
    pool_step n s Silent (goto t (B_loaded base (M_ptr (pool s)) (M_tag (pool s))) s)"
| block_done: "pc s t = B_done \<Longrightarrow>
    pool_step n s Silent (goto t A_reload (s\<lparr>pool := (pool s)\<lparr>M_block_allocating := False\<rparr>\<rparr>))"
| allocate_next: "pc s t = A_loaded (Some c) g \<Longrightarrow>
    pool_step n s Silent (goto t (A_next c g (M_next (pool s) c)) s)"
| allocate_cas: "pc s t = A_next c g h \<Longrightarrow> cas_head (Some c, g) (h, g + 1) (pool s) = (True, p) \<Longrightarrow>
    pool_step n s (Allocated c) (goto t Idle (s\<lparr>pool := p, live := insert c (live s)\<rparr>))"
| allocate_retry: "pc s t = A_next c g h \<Longrightarrow> cas_head (Some c, g) (h, g + 1) (pool s) = (False, p) \<Longrightarrow>
    pool_step n s Silent (goto t (A_loaded (M_ptr (pool s)) (M_tag (pool s))) s)"
| deallocate_load: "pc s t = Idle \<Longrightarrow> c \<in> live s \<Longrightarrow>
    pool_step n s (Returned c) (goto t (D_loaded c (M_ptr (pool s)) (M_tag (pool s))) (s\<lparr>live := live s - {c}\<rparr>))"
| deallocate_link: "pc s t = D_loaded c h g \<Longrightarrow>
    pool_step n s Silent (goto t (D_linked c h g) (s\<lparr>pool := set_next c h (pool s)\<rparr>))"
| deallocate_cas: "pc s t = D_linked c h g \<Longrightarrow> cas_head (h, g) (Some c, g + 1) (pool s) = (True, p) \<Longrightarrow>
    pool_step n s (Freed c) (goto t Idle (s\<lparr>pool := p\<rparr>))"
| deallocate_retry: "pc s t = D_linked c h g \<Longrightarrow> cas_head (h, g) (Some c, g + 1) (pool s) = (False, p) \<Longrightarrow>
    pool_step n s Silent (goto t (D_loaded c (M_ptr (pool s)) (M_tag (pool s))) s)"
| user_write: "c \<in> live s \<Longrightarrow>
    pool_step n s Silent (s\<lparr>pool := set_next c x (pool s)\<rparr>)"

inductive pool_run :: "nat \<Rightarrow> pool_sys \<Rightarrow> pool_label list \<Rightarrow> pool_sys \<Rightarrow> bool" for n where
  pool_Nil: "pool_run n s [] s"
| pool_snoc: "pool_run n s ls s1 \<Longrightarrow> pool_step n s1 l s2 \<Longrightarrow> pool_run n s (ls @ [l]) s2"

definition pool_init :: "nat \<Rightarrow> pool_sys" where
  "pool_init n = \<lparr>pool = pool_allocator n, pc = (\<lambda>_. Idle), live = {}\<rparr>"

text \<open>The specification: chunks in use. A chunk is handed out only when it is not in use, and only chunks in use come back.\<close>

fun use_step :: "pool_label \<Rightarrow> nat set \<Rightarrow> nat set option" where
  "use_step (Allocated c) L = (if c \<in> L then None else Some (insert c L))"
| "use_step (Returned c) L = (if c \<in> L then Some (L - {c}) else None)"
| "use_step _ L = Some L"

fun in_use :: "pool_label list \<Rightarrow> nat set \<Rightarrow> nat set option" where
  "in_use [] L = Some L"
| "in_use (l # ls) L = do { L \<leftarrow> use_step l L; in_use ls L }"

text \<open>The changes of the head.\<close>

fun head_change :: "pool_label \<Rightarrow> bool" where
  "head_change (Allocated c) = True"
| "head_change (Freed c) = True"
| "head_change Block_added = True"
| "head_change _ = False"

definition head_changes :: "pool_label list \<Rightarrow> nat" where
  "head_changes ls = length (filter head_change ls)"

section \<open>The free list\<close>

fun chain :: "(nat \<Rightarrow> nat option) \<Rightarrow> nat option \<Rightarrow> nat list \<Rightarrow> bool" where
  "chain nx h [] \<longleftrightarrow> h = None"
| "chain nx h (c # cs) \<longleftrightarrow> h = Some c \<and> chain nx (nx c) cs"

lemma chain_cong: "\<forall>c \<in> set cs. nx c = nx' c \<Longrightarrow> chain nx h cs = chain nx' h cs"
  by (induction cs arbitrary: h) auto

lemma chain_upd: "c \<notin> set cs \<Longrightarrow> chain (nx(c := x)) h cs = chain nx h cs"
  by (rule chain_cong) auto

lemma chain_block:
  assumes "\<forall>c \<in> {b..<b + n}. nx c = (if c + 1 < b + n then Some (c + 1) else h)" and "0 < n" and "chain nx h cs"
  shows "chain nx (Some b) ([b..<b + n] @ cs)"
  using assms
proof (induction n arbitrary: b)
  case (Suc n)
  show ?case
  proof (cases "n = 0")
    case False
    have "chain nx (Some (Suc b)) ([Suc b..<Suc b + n] @ cs)"
      by (rule Suc.IH) (use Suc.prems False in auto)
    moreover have "nx b = Some (Suc b)" using Suc.prems(1) False by auto
    moreover have "[b..<b + Suc n] = b # [Suc b..<Suc b + n]" using upt_conv_Cons [of b "b + Suc n"] by simp
    ultimately show ?thesis by (simp only: append_Cons chain.simps)
  qed (use Suc.prems in auto)
qed simp

text \<open>The chunks a thread holds in the middle of an operation.\<close>

fun in_flight :: "nat \<Rightarrow> pool_pc \<Rightarrow> nat set" where
  "in_flight n (B_made b) = {b..<b + n}"
| "in_flight n (B_loaded b h g) = {b..<b + n}"
| "in_flight n (B_linked b h g) = {b..<b + n}"
| "in_flight n (D_loaded c h g) = {c}"
| "in_flight n (D_linked c h g) = {c}"
| "in_flight n _ = {}"

text \<open>What a thread knows: a link it has read is still right when the head has not changed since.\<close>

fun pc_ok :: "nat \<Rightarrow> pool \<Rightarrow> pool_pc \<Rightarrow> bool" where
  "pc_ok n p (A_loaded h g) \<longleftrightarrow> g \<le> M_tag p"
| "pc_ok n p (A_next c g h) \<longleftrightarrow> g \<le> M_tag p \<and> (M_ptr p = Some c \<and> M_tag p = g \<longrightarrow> M_next p c = h)"
| "pc_ok n p (B_made b) \<longleftrightarrow> (\<forall>c \<in> {b..<b + n}. c + 1 < b + n \<longrightarrow> M_next p c = Some (c + 1))"
| "pc_ok n p (B_loaded b h g) \<longleftrightarrow> (\<forall>c \<in> {b..<b + n}. c + 1 < b + n \<longrightarrow> M_next p c = Some (c + 1))"
| "pc_ok n p (B_linked b h g) \<longleftrightarrow> (\<forall>c \<in> {b..<b + n}. M_next p c = (if c + 1 < b + n then Some (c + 1) else h))"
| "pc_ok n p (D_linked c h g) \<longleftrightarrow> M_next p c = h"
| "pc_ok n p _ \<longleftrightarrow> True"

text \<open>Every chunk is free, in use, or held by exactly one thread.\<close>

definition pool_inv :: "nat \<Rightarrow> nat \<Rightarrow> pool_sys \<Rightarrow> nat list \<Rightarrow> bool" where
  "pool_inv n k s fl \<longleftrightarrow>
     chain (M_next (pool s)) (M_ptr (pool s)) fl \<and> distinct fl \<and> unat (M_tag (pool s)) = k \<and>
     set fl \<inter> live s = {} \<and>
     (\<forall>t. in_flight n (pc s t) \<inter> (set fl \<union> live s) = {}) \<and>
     (\<forall>t u. t \<noteq> u \<longrightarrow> in_flight n (pc s t) \<inter> in_flight n (pc s u) = {}) \<and>
     set fl \<union> live s \<union> (\<Union>t. in_flight n (pc s t)) = {..<fresh (pool s)} \<and>
     (\<forall>t. pc_ok n (pool s) (pc s t))"

lemma pool_invD:
  assumes "pool_inv n k s fl"
  shows "chain (M_next (pool s)) (M_ptr (pool s)) fl" and "distinct fl" and "unat (M_tag (pool s)) = k"
    and "set fl \<inter> live s = {}" and "\<forall>t. in_flight n (pc s t) \<inter> (set fl \<union> live s) = {}"
    and "\<forall>t u. t \<noteq> u \<longrightarrow> in_flight n (pc s t) \<inter> in_flight n (pc s u) = {}"
    and "set fl \<union> live s \<union> (\<Union>t. in_flight n (pc s t)) = {..<fresh (pool s)}" and "\<forall>t. pc_ok n (pool s) (pc s t)"
  using assms unfolding pool_inv_def by - (elim conjE, assumption)+

lemma pool_invI:
  assumes "chain (M_next (pool s)) (M_ptr (pool s)) fl" and "distinct fl" and "unat (M_tag (pool s)) = k"
    and "set fl \<inter> live s = {}" and "\<forall>t. in_flight n (pc s t) \<inter> (set fl \<union> live s) = {}"
    and "\<forall>t u. t \<noteq> u \<longrightarrow> in_flight n (pc s t) \<inter> in_flight n (pc s u) = {}"
    and "set fl \<union> live s \<union> (\<Union>t. in_flight n (pc s t)) = {..<fresh (pool s)}" and "\<forall>t. pc_ok n (pool s) (pc s t)"
  shows "pool_inv n k s fl"
  unfolding pool_inv_def by (intro conjI assms)

text \<open>A step that changes the place of one thread only.\<close>

lemma inv_goto:
  assumes "pool_inv n k s fl" and "in_flight n c = in_flight n (pc s t)" and "pc_ok n (pool s) c"
  shows "pool_inv n k (goto t c s) fl"
proof -
  have e: "in_flight n (((pc s)(t := c)) u) = in_flight n (pc s u)" for u using assms(2) by simp
  show ?thesis
    by (rule pool_invI) (use pool_invD [OF assms(1)] assms(3) in \<open>simp_all add: e del: fun_upd_apply\<close>, simp)
qed

text \<open>A write to the link of a chunk that is in use or held by the thread that writes.\<close>

lemma pc_ok_write:
  assumes "pc_ok n p c" and "x \<notin> in_flight n c" and "M_ptr p \<noteq> Some x"
  shows "pc_ok n (set_next x h p) c"
  using assms by (cases c) (auto simp: set_next_def)

lemma head_in_chain: "chain nx h fl \<Longrightarrow> h = Some c \<Longrightarrow> c \<in> set fl"
  by (cases fl) auto

lemma inv_write:
  assumes "pool_inv n k s fl" and "x \<in> live s \<or> x \<in> in_flight n (pc s t)" and "in_flight n c = in_flight n (pc s t)"
    and "pc_ok n (set_next x h (pool s)) c"
  shows "pool_inv n k (goto t c (s\<lparr>pool := set_next x h (pool s)\<rparr>)) fl"
proof -
  note i = pool_invD [OF assms(1)]
  have e: "in_flight n (((pc s)(t := c)) u) = in_flight n (pc s u)" for u using assms(3) by simp
  have x: "x \<notin> set fl" using assms(2) i(4,5) by blast
  then have "M_ptr (pool s) \<noteq> Some x" using head_in_chain [OF i(1)] by blast
  moreover have "x \<notin> in_flight n (pc s u)" if "u \<noteq> t" for u using assms(2) i(5,6) that by blast
  ultimately have ok: "\<forall>u. pc_ok n (set_next x h (pool s)) (((pc s)(t := c)) u)"
    using assms(4) i(8) pc_ok_write by (metis fun_upd_apply)
  show ?thesis
    by (rule pool_invI)
      (use i(2-7) ok x chain_upd [of x fl "M_next (pool s)" h "M_ptr (pool s)"] i(1) in
        \<open>simp_all add: e set_next_def del: fun_upd_apply\<close>)
qed

section \<open>Changes of the head\<close>

lemma tag_Suc: "unat (g :: u32) + 1 < 2 ^ 32 \<Longrightarrow> unat (g + 1) = unat g + 1"
  using unat_add_small [of g 1] by simp

lemma pc_ok_head:
  assumes "pc_ok n p c" and "unat (M_tag p) + 1 < 2 ^ 32"
  shows "pc_ok n (p\<lparr>M_ptr := h, M_tag := M_tag p + 1\<rparr>) c"
proof -
  have t: "unat (M_tag p + 1) = unat (M_tag p) + 1" using assms(2) by (rule tag_Suc)
  have le: "g \<le> M_tag p + 1 \<and> M_tag p + 1 \<noteq> g" if "g \<le> M_tag p" for g
    using that t by (auto simp: word_le_nat_alt)
  show ?thesis using assms(1) le by (cases c) auto
qed

lemma cas_headD:
  "cas_head (h, g) new_head p = (True, p') \<Longrightarrow> M_ptr p = h \<and> M_tag p = g \<and> p' = p\<lparr>M_ptr := fst new_head, M_tag := snd new_head\<rparr>"
  by (auto simp: cas_head_def split: if_splits)

text \<open>The chunks that a thread holds become the first of the free list.\<close>

lemma inv_push:
  assumes "pool_inv n k s fl" and "k + 1 < 2 ^ 32" and "in_flight n (pc s t) = set cs" and "distinct cs" and "cs \<noteq> []"
    and "chain (M_next (pool s)) (Some (hd cs)) (cs @ fl)" and "in_flight n c = {}" and "pc_ok n (pool s) c"
  shows "pool_inv n (k + 1) (goto t c (s\<lparr>pool := (pool s)\<lparr>M_ptr := Some (hd cs), M_tag := M_tag (pool s) + 1\<rparr>\<rparr>)) (cs @ fl)"
proof -
  note i = pool_invD [OF assms(1)]
  have tag: "unat (M_tag (pool s)) + 1 < 2 ^ 32" using i(3) assms(2) by simp
  have e: "in_flight n (((pc s)(t := c)) u) = (if u = t then {} else in_flight n (pc s u))" for u using assms(7) by simp
  have U: "set cs \<union> (\<Union>u. if u = t then {} else in_flight n (pc s u)) = (\<Union>u. in_flight n (pc s u))"
    using assms(3) by (auto split: if_splits)
  have own: "set cs \<inter> (set fl \<union> live s) = {}" using i(5) assms(3) by metis
  have others: "in_flight n (pc s u) \<inter> set cs = {}" if "u \<noteq> t" for u using i(6) assms(3) that by metis
  have ok: "\<forall>u. pc_ok n ((pool s)\<lparr>M_ptr := Some (hd cs), M_tag := M_tag (pool s) + 1\<rparr>) (((pc s)(t := c)) u)"
    using i(8) assms(8) pc_ok_head [OF _ tag] by simp
  show ?thesis
  proof (rule pool_invI)
    show "set (cs @ fl) \<union> live (goto t c (s\<lparr>pool := (pool s)\<lparr>M_ptr := Some (hd cs), M_tag := M_tag (pool s) + 1\<rparr>\<rparr>)) \<union>
      (\<Union>u. in_flight n (pc (goto t c (s\<lparr>pool := (pool s)\<lparr>M_ptr := Some (hd cs), M_tag := M_tag (pool s) + 1\<rparr>\<rparr>)) u)) =
      {..<fresh (pool (goto t c (s\<lparr>pool := (pool s)\<lparr>M_ptr := Some (hd cs), M_tag := M_tag (pool s) + 1\<rparr>\<rparr>)))}"
      using i(7) U by (simp add: e del: fun_upd_apply) blast
    show "\<forall>u. in_flight n (pc (goto t c (s\<lparr>pool := (pool s)\<lparr>M_ptr := Some (hd cs), M_tag := M_tag (pool s) + 1\<rparr>\<rparr>)) u) \<inter>
      (set (cs @ fl) \<union> live (goto t c (s\<lparr>pool := (pool s)\<lparr>M_ptr := Some (hd cs), M_tag := M_tag (pool s) + 1\<rparr>\<rparr>))) = {}"
      using i(5) others by (simp add: e del: fun_upd_apply) blast
    show "\<forall>u v. u \<noteq> v \<longrightarrow> in_flight n (pc (goto t c (s\<lparr>pool := (pool s)\<lparr>M_ptr := Some (hd cs), M_tag := M_tag (pool s) + 1\<rparr>\<rparr>)) u) \<inter>
      in_flight n (pc (goto t c (s\<lparr>pool := (pool s)\<lparr>M_ptr := Some (hd cs), M_tag := M_tag (pool s) + 1\<rparr>\<rparr>)) v) = {}"
      using i(6) by (simp add: e del: fun_upd_apply)
  qed (use i assms(4-6) own ok tag_Suc [OF tag] in \<open>auto simp del: fun_upd_apply\<close>)
qed

text \<open>The first chunk of the free list is handed out.\<close>

lemma inv_pop:
  assumes "pool_inv n k s fl" and "k + 1 < 2 ^ 32" and "M_ptr (pool s) = Some c" and "in_flight n (pc s t) = {}"
    and "in_flight n d = {}" and "pc_ok n (pool s) d"
  shows "\<exists>fl'. fl = c # fl' \<and>
    pool_inv n (k + 1) (goto t d (s\<lparr>pool := (pool s)\<lparr>M_ptr := M_next (pool s) c, M_tag := M_tag (pool s) + 1\<rparr>, live := insert c (live s)\<rparr>)) fl'"
proof -
  note i = pool_invD [OF assms(1)]
  obtain fl' where fl: "fl = c # fl'" using i(1) assms(3) by (cases fl) auto
  have tag: "unat (M_tag (pool s)) + 1 < 2 ^ 32" using i(3) assms(2) by simp
  have e: "in_flight n (((pc s)(t := d)) u) = in_flight n (pc s u)" for u using assms(4,5) by simp
  have ok: "\<forall>u. pc_ok n ((pool s)\<lparr>M_ptr := M_next (pool s) c, M_tag := M_tag (pool s) + 1\<rparr>) (((pc s)(t := d)) u)"
    using i(8) assms(6) pc_ok_head [OF _ tag] by simp
  have "pool_inv n (k + 1) (goto t d (s\<lparr>pool := (pool s)\<lparr>M_ptr := M_next (pool s) c, M_tag := M_tag (pool s) + 1\<rparr>, live := insert c (live s)\<rparr>)) fl'"
    by (rule pool_invI) (use i ok tag_Suc [OF tag] fl in \<open>auto simp: e simp del: fun_upd_apply\<close>)
  with fl show ?thesis by blast
qed

lemma Union_upd:
  assumes "h (f t) = {}"
  shows "(\<Union>u. h ((f(t := c)) u)) = h c \<union> (\<Union>u. h (f u))"
proof -
  have "(\<Union>u. h ((f(t := c)) u)) = h c \<union> (\<Union>u \<in> UNIV - {t}. h (f u))" by (auto split: if_splits)
  moreover have "(\<Union>u. h (f u)) = (\<Union>u \<in> UNIV - {t}. h (f u))" using assms by force
  ultimately show ?thesis by (simp only:)
qed

text \<open>A new block.\<close>

lemma inv_block:
  assumes "pool_inv n k s fl" and "in_flight n (pc s t) = {}" and "new_block n ((pool s)\<lparr>M_block_allocating := True\<rparr>) = (b, p)"
  shows "pool_inv n k (goto t (B_made b) (s\<lparr>pool := p\<rparr>)) fl"
proof -
  note i = pool_invD [OF assms(1)]
  have b: "b = fresh (pool s)" and sel: "M_ptr p = M_ptr (pool s)" "M_tag p = M_tag (pool s)" "fresh p = fresh (pool s) + n"
    and nx: "M_next p c = (if c \<in> {b..<b + n} then if c + 1 < b + n then Some (c + 1) else None else M_next (pool s) c)" for c
    using assms(3) by (auto simp: new_block_def)
  have old: "c < b" if "c \<in> set fl \<union> live s \<union> (\<Union>u. in_flight n (pc s u))" for c using i(7) that b by blast
  have nx_old: "M_next p c = M_next (pool s) c" if "c < b" for c using that by (simp add: nx)
  have e: "in_flight n (((pc s)(t := B_made b)) u) = (if u = t then {b..<b + n} else in_flight n (pc s u))" for u by simp
  have ok: "pc_ok n p (pc s u)" for u
  proof -
    have "in_flight n (pc s u) \<subseteq> {..<b}" using old by blast
    moreover have "\<forall>c. M_ptr (pool s) = Some c \<longrightarrow> c < b" using head_in_chain [OF i(1)] old by blast
    ultimately show ?thesis using i(8) [rule_format, of u] nx_old sel by (cases "pc s u") (auto simp: subset_iff)
  qed
  have U: "(\<Union>u. in_flight n (((pc s)(t := B_made b)) u)) = {b..<b + n} \<union> (\<Union>u. in_flight n (pc s u))"
    using Union_upd [of "in_flight n" "pc s" t "B_made b"] assms(2) by (simp del: fun_upd_apply)
  have "set fl \<union> live s \<union> ({b..<b + n} \<union> (\<Union>u. in_flight n (pc s u))) = {..<b} \<union> {b..<b + n}" using i(7) b by blast
  also have "\<dots> = {..<b + n}" by auto
  finally have all: "set fl \<union> live s \<union> ({b..<b + n} \<union> (\<Union>u. in_flight n (pc s u))) = {..<b + n}" .
  have below: "set fl \<union> live s \<subseteq> {..<b}" "in_flight n (pc s u) \<subseteq> {..<b}" for u using i(7) b by auto
  have new: "{b..<b + n} \<inter> A = {}" if "A \<subseteq> {..<b}" for A using that by auto
  show ?thesis
  proof (rule pool_invI)
    show "set fl \<union> live (goto t (B_made b) (s\<lparr>pool := p\<rparr>)) \<union> (\<Union>u. in_flight n (pc (goto t (B_made b) (s\<lparr>pool := p\<rparr>)) u)) =
      {..<fresh (pool (goto t (B_made b) (s\<lparr>pool := p\<rparr>)))}"
      using all by (simp add: U sel b [symmetric] del: fun_upd_apply)
    show "chain (M_next (pool (goto t (B_made b) (s\<lparr>pool := p\<rparr>)))) (M_ptr (pool (goto t (B_made b) (s\<lparr>pool := p\<rparr>)))) fl"
      using i(1) old nx_old sel chain_cong [of fl "M_next p" "M_next (pool s)"] by auto
    show "\<forall>u. in_flight n (pc (goto t (B_made b) (s\<lparr>pool := p\<rparr>)) u) \<inter> (set fl \<union> live (goto t (B_made b) (s\<lparr>pool := p\<rparr>))) = {}"
      using i(5) new [OF below(1)] by (simp add: e del: fun_upd_apply)
    show "\<forall>u v. u \<noteq> v \<longrightarrow> in_flight n (pc (goto t (B_made b) (s\<lparr>pool := p\<rparr>)) u) \<inter> in_flight n (pc (goto t (B_made b) (s\<lparr>pool := p\<rparr>)) v) = {}"
      using i(6) new [OF below(2)] by (simp add: e Int_commute del: fun_upd_apply)
  qed (use i ok sel nx in auto)
qed

section \<open>Every step keeps the invariant\<close>

lemma head_changes_snoc: "head_changes (ls @ [l]) = head_changes ls + (if head_change l then 1 else 0)"
  by (simp add: head_changes_def)

lemma in_use_snoc: "in_use (ls @ [l]) L = do { L \<leftarrow> in_use ls L; use_step l L }"
  by (induction ls arbitrary: L) (simp_all split: Option.bind_splits)

lemma inv_idle: "pool_inv n k s fl \<Longrightarrow> in_flight n (pc s t) = {} \<Longrightarrow> in_flight n c = {} \<Longrightarrow> pc_ok n (pool s) c \<Longrightarrow>
    pool_inv n k (goto t c s) fl"
  by (rule inv_goto) simp_all

lemma inv_allocating: "pool_inv n k s fl \<Longrightarrow> pool_inv n k (s\<lparr>pool := (pool s)\<lparr>M_block_allocating := x\<rparr>\<rparr>) fl"
proof -
  assume i: "pool_inv n k s fl"
  have "pc_ok n ((pool s)\<lparr>M_block_allocating := x\<rparr>) c = pc_ok n (pool s) c" for c by (cases c) simp_all
  with i show ?thesis by (simp add: pool_inv_def)
qed

lemma inv_return:
  assumes "pool_inv n k s fl" and "in_flight n (pc s t) = {}" and "c \<in> live s" and "in_flight n d = {c}" and "pc_ok n (pool s) d"
  shows "pool_inv n k (goto t d (s\<lparr>live := live s - {c}\<rparr>)) fl"
proof -
  note i = pool_invD [OF assms(1)]
  have e: "in_flight n (((pc s)(t := d)) u) = (if u = t then {c} else in_flight n (pc s u))" for u using assms(4) by simp
  have "(\<Union>u. in_flight n (((pc s)(t := d)) u)) = {c} \<union> (\<Union>u. in_flight n (pc s u))"
    using Union_upd [of "in_flight n" "pc s" t d] assms(2,4) by (simp del: fun_upd_apply)
  then have all: "set fl \<union> (live s - {c}) \<union> (\<Union>u. in_flight n (((pc s)(t := d)) u)) = {..<fresh (pool s)}"
    using i(7) assms(3) by auto
  have c: "c \<notin> set fl" "c \<notin> in_flight n (pc s u)" for u using assms(3) i(4,5) by auto
  show ?thesis
  proof (rule pool_invI)
    show "\<forall>u. in_flight n (pc (goto t d (s\<lparr>live := live s - {c}\<rparr>)) u) \<inter> (set fl \<union> live (goto t d (s\<lparr>live := live s - {c}\<rparr>))) = {}"
      using i(5) c by (auto simp: e simp del: fun_upd_apply)
    show "\<forall>u v. u \<noteq> v \<longrightarrow> in_flight n (pc (goto t d (s\<lparr>live := live s - {c}\<rparr>)) u) \<inter> in_flight n (pc (goto t d (s\<lparr>live := live s - {c}\<rparr>)) v) = {}"
      using i(6) c by (simp add: e del: fun_upd_apply)
  qed (use i all assms(5) in \<open>auto simp del: Union_iff UN_iff\<close>)
qed

text \<open>The invariant after a step: the free list, the number of changes of the head, and the chunks in use.\<close>

lemma pool_step_inv:
  assumes "pool_step n s l s'" and "pool_inv n k s fl" and "0 < n" and "k + (if head_change l then 1 else 0) < 2 ^ 32"
  shows "\<exists>fl'. pool_inv n (k + (if head_change l then 1 else 0)) s' fl' \<and> use_step l (live s) = Some (live s')"
  using assms(1)
proof cases
  case (allocate_load t)
  then have "pool_inv n k s' fl" unfolding allocate_load(2) by (intro inv_idle [OF assms(2)]) auto
  with allocate_load show ?thesis by auto
next
  case (allocate_busy t g)
  then have "pool_inv n k s' fl" by (auto intro: inv_idle [OF assms(2)])
  with allocate_busy show ?thesis by auto
next
  case (allocate_block t g b p)
  then have "pool_inv n k s' fl" unfolding allocate_block(2) by (intro inv_block [OF assms(2)]) simp_all
  with allocate_block show ?thesis by auto
next
  case (block_load t b)
  then have "pc_ok n (pool s) (pc s t)" using pool_invD(8) [OF assms(2)] by blast
  then have "pool_inv n k s' fl" unfolding block_load(2) using block_load by (intro inv_goto [OF assms(2)]) simp_all
  with block_load show ?thesis by auto
next
  case (block_link t b h g)
  have "pc_ok n (pool s) (pc s t)" using pool_invD(8) [OF assms(2)] by blast
  then have "pool_inv n k s' fl" unfolding block_link(2)
    using block_link(3) assms(3) by (intro inv_write [OF assms(2)]) (auto simp: set_next_def)
  with block_link show ?thesis by auto
next
  case (block_cas t b h g p)
  have "pc_ok n (pool s) (pc s t)" using pool_invD(8) [OF assms(2)] by blast
  moreover have h: "M_ptr (pool s) = h" "M_tag (pool s) = g" "p = (pool s)\<lparr>M_ptr := Some b, M_tag := M_tag (pool s) + 1\<rparr>"
    using cas_headD [OF block_cas(4)] by simp_all
  ultimately have "chain (M_next (pool s)) (Some b) ([b..<b + n] @ fl)"
    using block_cas(3) pool_invD(1) [OF assms(2)] assms(3) by (intro chain_block [of b n _ h]) auto
  moreover have "hd [b..<b + n] = b" using assms(3) by simp
  moreover have "k + 1 < 2 ^ 32" using assms(4) block_cas by simp
  ultimately have "pool_inv n (k + 1) (goto t B_done (s\<lparr>pool := (pool s)\<lparr>M_ptr := Some (hd [b..<b + n]), M_tag := M_tag (pool s) + 1\<rparr>\<rparr>)) ([b..<b + n] @ fl)"
    using block_cas(3) assms(3) by (intro inv_push [OF assms(2)]) simp_all
  with block_cas h \<open>hd [b..<b + n] = b\<close> show ?thesis by auto
next
  case (block_retry t b h g p)
  then have "pc_ok n (pool s) (pc s t)" using pool_invD(8) [OF assms(2)] by blast
  then have "pool_inv n k s' fl" unfolding block_retry(2) using block_retry by (intro inv_goto [OF assms(2)]) auto
  with block_retry show ?thesis by auto
next
  case (block_done t)
  then have "pool_inv n k s' fl" using inv_idle [OF inv_allocating [OF assms(2), of False], of t A_reload] by simp
  with block_done show ?thesis by auto
next
  case (allocate_next t c g)
  then have "pc_ok n (pool s) (pc s t)" using pool_invD(8) [OF assms(2)] by blast
  then have "pool_inv n k s' fl" unfolding allocate_next(2) using allocate_next by (intro inv_idle [OF assms(2)]) auto
  with allocate_next show ?thesis by auto
next
  case (allocate_cas t c g h p)
  have ok: "pc_ok n (pool s) (pc s t)" using pool_invD(8) [OF assms(2)] by blast
  have h: "M_ptr (pool s) = Some c" "M_tag (pool s) = g" "p = (pool s)\<lparr>M_ptr := h, M_tag := M_tag (pool s) + 1\<rparr>"
    using cas_headD [OF allocate_cas(4)] by simp_all
  with ok allocate_cas(3) have nx: "M_next (pool s) c = h" by simp
  have "k + 1 < 2 ^ 32" using assms(4) allocate_cas by simp
  from inv_pop [OF assms(2) this h(1), of t Idle] allocate_cas(3) obtain fl' where fl': "fl = c # fl'" "pool_inv n (k + 1) s' fl'"
    unfolding allocate_cas(2) h(3) nx by auto
  then have "c \<notin> live s" using pool_invD(4) [OF assms(2)] by simp
  with fl' allocate_cas show ?thesis by auto
next
  case (allocate_retry t c g h p)
  then have "pool_inv n k s' fl" unfolding allocate_retry(2) by (intro inv_idle [OF assms(2)]) auto
  with allocate_retry show ?thesis by auto
next
  case (deallocate_load t c)
  then have "pool_inv n k s' fl" unfolding deallocate_load(2) by (intro inv_return [OF assms(2)]) auto
  with deallocate_load show ?thesis by auto
next
  case (deallocate_link t c h g)
  then have "pool_inv n k s' fl" unfolding deallocate_link(2) by (intro inv_write [OF assms(2)]) (auto simp: set_next_def)
  with deallocate_link show ?thesis by auto
next
  case (deallocate_cas t c h g p)
  have ok: "pc_ok n (pool s) (pc s t)" using pool_invD(8) [OF assms(2)] by blast
  have h: "M_ptr (pool s) = h" "M_tag (pool s) = g" "p = (pool s)\<lparr>M_ptr := Some c, M_tag := M_tag (pool s) + 1\<rparr>"
    using cas_headD [OF deallocate_cas(4)] by simp_all
  then have "chain (M_next (pool s)) (Some (hd [c])) ([c] @ fl)" using ok deallocate_cas(3) pool_invD(1) [OF assms(2)] by simp
  moreover have "k + 1 < 2 ^ 32" using assms(4) deallocate_cas by simp
  ultimately have "pool_inv n (k + 1) (goto t Idle (s\<lparr>pool := (pool s)\<lparr>M_ptr := Some (hd [c]), M_tag := M_tag (pool s) + 1\<rparr>\<rparr>)) ([c] @ fl)"
    using deallocate_cas(3) by (intro inv_push [OF assms(2)]) simp_all
  with deallocate_cas h show ?thesis by auto
next
  case (deallocate_retry t c h g p)
  then have "pool_inv n k s' fl" unfolding deallocate_retry(2) by (intro inv_goto [OF assms(2)]) auto
  with deallocate_retry show ?thesis by auto
next
  case (user_write c x)
  have e: "goto 0 (pc s 0) (s\<lparr>pool := set_next c x (pool s)\<rparr>) = s\<lparr>pool := set_next c x (pool s)\<rparr>" by simp
  have "pc_ok n (set_next c x (pool s)) (pc s 0)"
  proof (rule pc_ok_write)
    show "pc_ok n (pool s) (pc s 0)" using pool_invD(8) [OF assms(2)] by blast
    show "c \<notin> in_flight n (pc s 0)" using pool_invD(5) [OF assms(2)] user_write(3) by blast
    show "M_ptr (pool s) \<noteq> Some c" using head_in_chain [OF pool_invD(1) [OF assms(2)]] pool_invD(4) [OF assms(2)] user_write(3) by blast
  qed
  then have "pool_inv n k s' fl"
    using inv_write [OF assms(2), of c 0 "pc s 0" x] user_write unfolding e by simp
  with user_write show ?thesis by auto
qed

lemma pool_allocator_simps:
  assumes "0 < n"
  shows "M_ptr (pool_allocator n) = Some 0" and "M_tag (pool_allocator n) = 1" and "fresh (pool_allocator n) = n"
    and "\<not> M_block_allocating (pool_allocator n)"
    and "M_next (pool_allocator n) c = (if c + 1 < n then Some (c + 1) else None)"
  using assms by (auto simp: pool_allocator_def allocate_block_def new_block_def set_next_def cas_head_def)

lemma pool_init_inv:
  assumes "0 < n"
  shows "pool_inv n 1 (pool_init n) [0..<n]"
proof (rule pool_invI)
  have "chain (M_next (pool_allocator n)) (Some 0) ([0..<0 + n] @ [])"
    by (rule chain_block [of 0 n _ None]) (use assms pool_allocator_simps in auto)
  then show "chain (M_next (pool (pool_init n))) (M_ptr (pool (pool_init n))) [0..<n]"
    using pool_allocator_simps(1) [OF assms] by (simp add: pool_init_def)
qed (use pool_allocator_simps [OF assms] in \<open>auto simp: pool_init_def\<close>)

lemma pool_run_inv:
  assumes "pool_run n (pool_init n) ls s" and "0 < n" and "head_changes ls + 1 < 2 ^ 32"
  shows "\<exists>fl. pool_inv n (head_changes ls + 1) s fl \<and> in_use ls {} = Some (live s)"
  using assms
proof (induction "pool_init n" ls s rule: pool_run.induct)
  case pool_Nil
  then show ?case using pool_init_inv [OF assms(2)] by (auto simp: head_changes_def pool_init_def)
next
  case (pool_snoc ls s1 l s2)
  then obtain fl where "pool_inv n (head_changes ls + 1) s1 fl" and use: "in_use ls {} = Some (live s1)"
    by (auto simp: head_changes_snoc split: if_splits)
  moreover have "head_changes ls + 1 + (if head_change l then 1 else 0) < 2 ^ 32"
    using pool_snoc.prems by (simp add: head_changes_snoc)
  ultimately obtain fl' where "pool_inv n (head_changes ls + 1 + (if head_change l then 1 else 0)) s2 fl'"
      "use_step l (live s1) = Some (live s2)"
    using pool_step_inv [OF pool_snoc.hyps(3) _ assms(2)] by blast
  moreover have "head_changes ls + 1 + (if head_change l then 1 else 0) = head_changes (ls @ [l]) + 1"
    by (simp add: head_changes_snoc)
  ultimately show ?case using use by (auto simp: in_use_snoc)
qed

section \<open>Run alone\<close>

lemma goto_self: "goto t (pc s t) s = s"
  by simp

lemma pool_inv_sel:
  assumes "\<forall>t. pc s t = Idle"
  shows "in_flight n (pc s t) = {}" and "goto t Idle s = s"
  using assms by (simp_all add: fun_upd_idem)

lemma allocate_block_alone:
  assumes "pool_inv n k s fl" and "\<forall>t. pc s t = Idle" and "\<not> M_block_allocating (pool s)" and "0 < n" and "k + 1 < 2 ^ 32"
  shows "\<exists>fl'. pool_inv n (k + 1) (s\<lparr>pool := allocate_block n (pool s)\<rparr>) fl' \<and> M_ptr (allocate_block n (pool s)) \<noteq> None"
proof -
  obtain b p where b: "new_block n ((pool s)\<lparr>M_block_allocating := True\<rparr>) = (b, p)" by fastforce
  let ?s1 = "goto 0 (B_made b) (s\<lparr>pool := p\<rparr>)"
  let ?s2 = "goto 0 (B_linked b (M_ptr p) (M_tag p)) (?s1\<lparr>pool := set_next (b + n - 1) (M_ptr p) p\<rparr>)"
  have i1: "pool_inv n k ?s1 fl" by (rule inv_block [OF assms(1) pool_inv_sel(1) [OF assms(2)] b])
  have ok: "pc_ok n p (B_made b)" using pool_invD(8) [OF i1, rule_format, of 0] by simp
  have "pc_ok n (set_next (b + n - 1) (M_ptr p) p) (B_linked b (M_ptr p) (M_tag p))" using ok by (auto simp: set_next_def)
  moreover have "b \<le> b + n - Suc 0" using assms(4) by linarith
  ultimately have i2: "pool_inv n k ?s2 fl"
    using inv_write [OF i1, of "b + n - 1" 0 "B_linked b (M_ptr p) (M_tag p)" "M_ptr p"] assms(4) by simp
  let ?s3 = "goto 0 Idle (?s2\<lparr>pool := (pool ?s2)\<lparr>M_ptr := Some (hd [b..<b + n]), M_tag := M_tag (pool ?s2) + 1\<rparr>\<rparr>)"
  have "chain (M_next (pool ?s2)) (Some b) ([b..<b + n] @ fl)"
    using pool_invD(8) [OF i2, rule_format, of 0] pool_invD(1) [OF i2] assms(4)
    by (intro chain_block [of b n _ "M_ptr p"]) (auto simp: set_next_def)
  moreover have h: "hd [b..<b + n] = b" using assms(4) by simp
  ultimately have "pool_inv n (k + 1) ?s3 ([b..<b + n] @ fl)"
    using assms(4,5) by (intro inv_push [OF i2]) simp_all
  then have "pool_inv n (k + 1) (?s3\<lparr>pool := (pool ?s3)\<lparr>M_block_allocating := False\<rparr>\<rparr>) ([b..<b + n] @ fl)"
    by (rule inv_allocating)
  moreover have "?s3\<lparr>pool := (pool ?s3)\<lparr>M_block_allocating := False\<rparr>\<rparr> = s\<lparr>pool := allocate_block n (pool s)\<rparr>"
    using assms(2,3) b h by (simp add: Chunk_Pool.allocate_block_def cas_head_def set_next_def fun_upd_idem)
  moreover have "M_ptr (allocate_block n (pool s)) = Some b"
    using assms(3) b by (simp add: Chunk_Pool.allocate_block_def cas_head_def set_next_def)
  ultimately show ?thesis by auto
qed

lemma allocate_pop:
  assumes "pool_inv n k s fl" and "\<forall>t. pc s t = Idle" and "M_ptr (pool s) = Some c" and "k + 1 < 2 ^ 32"
  shows "\<exists>p fl'. allocate n (pool s) = Some (c, p) \<and> c \<notin> live s \<and> pool_inv n (k + 1) (s\<lparr>pool := p, live := insert c (live s)\<rparr>) fl'"
proof -
  from inv_pop [OF assms(1,4,3) pool_inv_sel(1) [OF assms(2)], of Idle 0] obtain fl' where fl': "fl = c # fl'"
      "pool_inv n (k + 1) (goto 0 Idle (s\<lparr>pool := (pool s)\<lparr>M_ptr := M_next (pool s) c, M_tag := M_tag (pool s) + 1\<rparr>, live := insert c (live s)\<rparr>)) fl'"
    by auto
  moreover have "goto 0 Idle (s\<lparr>pool := x, live := y\<rparr>) = s\<lparr>pool := x, live := y\<rparr>" for x y
    using assms(2) by (simp add: fun_upd_idem)
  moreover have "c \<notin> live s" using fl'(1) pool_invD(4) [OF assms(1)] by simp
  ultimately show ?thesis using assms(3) by (auto simp: allocate_def cas_head_def Let_def)
qed

section \<open>Properties\<close>

text \<open>
  C9. The pool of chunks. Under every interleaving of threads that allocate, link new blocks and return chunks, while users
  write what they like into the chunks they hold, a chunk is handed out only while nobody uses it, and none is lost:
  the free list has no duplicates, is disjoint from the chunks in use, and together they are all chunks when no
  operation is under way. The tag, which keeps a stale link from being installed, is right for \<open>2 ^ 32 - 2\<close> changes of the head.
\<close>

theorem pool_allocator_exclusive:
  assumes "pool_run n (pool_init n) ls s" and "0 < n" and "head_changes ls + 1 < 2 ^ 32"
  shows "in_use ls {} = Some (live s) \<and>
    (\<exists>fl. chain (M_next (pool s)) (M_ptr (pool s)) fl \<and> distinct fl \<and> set fl \<inter> live s = {} \<and>
      ((\<forall>t. in_flight n (pc s t) = {}) \<longrightarrow> set fl \<union> live s = {..<fresh (pool s)}))"
proof -
  obtain fl where fl: "pool_inv n (head_changes ls + 1) s fl" "in_use ls {} = Some (live s)"
    using pool_run_inv [OF assms] by blast
  note i = pool_invD [OF fl(1)]
  have "set fl \<union> live s = {..<fresh (pool s)}" if "\<forall>t. in_flight n (pc s t) = {}" using i(7) that by simp
  with i fl(2) show ?thesis by blast
qed

theorem pool_allocator_exclusive_witness:
  "\<exists>s fl. pool_run 2 (pool_init 2) [Silent, Silent, Allocated 0] s \<and> live s = {0} \<and>
    chain (M_next (pool s)) (M_ptr (pool s)) fl \<and> distinct fl \<and> set fl \<inter> {0} = {}"
proof -
  let ?s0 = "pool_init 2"
  let ?s1 = "goto 0 (A_loaded (Some 0) 1) ?s0"
  let ?s2 = "goto 0 (A_next 0 1 (Some 1)) ?s1"
  let ?p = "(pool ?s2)\<lparr>M_ptr := Some 1, M_tag := 1 + 1\<rparr>"
  let ?s3 = "goto 0 Idle (?s2\<lparr>pool := ?p, live := insert 0 (live ?s2)\<rparr>)"
  note p = pool_allocator_simps [of 2, simplified]
  have "pool_step 2 ?s0 Silent ?s1" using allocate_load [of ?s0 0 2] p by (simp add: pool_init_def)
  moreover have "pool_step 2 ?s1 Silent ?s2" using allocate_next [of ?s1 0 0 1 2] p by (simp add: pool_init_def)
  moreover have "pool_step 2 ?s2 (Allocated 0) ?s3"
    by (rule allocate_cas [of _ _ _ 1 "Some 1"]) (use p in \<open>simp_all add: pool_init_def cas_head_def\<close>)
  ultimately have "pool_run 2 ?s0 ((([] @ [Silent]) @ [Silent]) @ [Allocated 0]) ?s3"
    by (intro pool_snoc [OF pool_snoc [OF pool_snoc [OF pool_Nil]]])
  then have run: "pool_run 2 ?s0 [Silent, Silent, Allocated 0] ?s3" by simp
  moreover have "live ?s3 = {0}" by (simp add: pool_init_def)
  moreover have "in_use [Silent, Silent, Allocated 0] {} = Some (live ?s3) \<and>
    (\<exists>fl. chain (M_next (pool ?s3)) (M_ptr (pool ?s3)) fl \<and> distinct fl \<and> set fl \<inter> live ?s3 = {} \<and>
      ((\<forall>t. in_flight 2 (pc ?s3 t) = {}) \<longrightarrow> set fl \<union> live ?s3 = {..<fresh (pool ?s3)}))"
    by (rule pool_allocator_exclusive [OF run]) (simp_all add: head_changes_def)
  ultimately have "\<exists>fl. chain (M_next (pool ?s3)) (M_ptr (pool ?s3)) fl \<and> distinct fl \<and> set fl \<inter> {0} = {}" by metis
  with run \<open>live ?s3 = {0}\<close> show ?thesis by (intro exI [of _ ?s3]) blast
qed

text \<open>
  Run alone on a pool with no operation under way, \<open>allocate\<close> returns a chunk that is not in use, taking a new block
  when the free list is empty, and \<open>deallocate\<close> makes a chunk in use the first of the free list.
\<close>

theorem pool_alone:
  assumes "pool_inv n k s fl" and "\<forall>t. pc s t = Idle" and "\<not> M_block_allocating (pool s)" and "0 < n" and "k + 2 < 2 ^ 32"
  shows "(\<exists>c p k' fl'. allocate n (pool s) = Some (c, p) \<and> c \<notin> live s \<and> pool_inv n k' (s\<lparr>pool := p, live := insert c (live s)\<rparr>) fl') \<and>
    (\<forall>c \<in> live s. pool_inv n (k + 1) (s\<lparr>pool := deallocate c (pool s), live := live s - {c}\<rparr>) (c # fl))"
proof
  show "\<exists>c p k' fl'. allocate n (pool s) = Some (c, p) \<and> c \<notin> live s \<and> pool_inv n k' (s\<lparr>pool := p, live := insert c (live s)\<rparr>) fl'"
  proof (cases "M_ptr (pool s)")
    case None
    have k: "k + 1 < 2 ^ 32" "k + 1 + 1 < 2 ^ 32" using assms(5) by simp_all
    from allocate_block_alone [OF assms(1-4) k(1)] obtain fl1 c where fl1:
        "pool_inv n (k + 1) (s\<lparr>pool := allocate_block n (pool s)\<rparr>) fl1" "M_ptr (allocate_block n (pool s)) = Some c" by auto
    have "allocate n (pool s) = allocate n (allocate_block n (pool s))" using None fl1(2) by (simp add: allocate_def)
    then show ?thesis using allocate_pop [OF fl1(1), of c] fl1(2) assms(2) k(2) by auto
  next
    case (Some c)
    then show ?thesis using allocate_pop [OF assms(1,2)] assms(5) by fastforce
  qed
  show "\<forall>c \<in> live s. pool_inv n (k + 1) (s\<lparr>pool := deallocate c (pool s), live := live s - {c}\<rparr>) (c # fl)"
  proof
    fix c
    assume c: "c \<in> live s"
    let ?h = "M_ptr (pool s)" and ?g = "M_tag (pool s)"
    let ?s1 = "goto 0 (D_loaded c ?h ?g) (s\<lparr>live := live s - {c}\<rparr>)"
    let ?s2 = "goto 0 (D_linked c ?h ?g) (?s1\<lparr>pool := set_next c ?h (pool s)\<rparr>)"
    have i1: "pool_inv n k ?s1 fl" by (rule inv_return [OF assms(1) _ c]) (use assms(2) in simp_all)
    have i2: "pool_inv n k ?s2 fl"
      using inv_write [OF i1, of c 0 "D_linked c ?h ?g" ?h] by (simp add: set_next_def)
    have "pool_inv n (k + 1) (goto 0 Idle (?s2\<lparr>pool := (pool ?s2)\<lparr>M_ptr := Some (hd [c]), M_tag := M_tag (pool ?s2) + 1\<rparr>\<rparr>)) ([c] @ fl)"
      by (rule inv_push [OF i2]) (use assms(5) pool_invD(1) [OF i2] in \<open>simp_all add: set_next_def\<close>)
    moreover have "goto 0 Idle (?s2\<lparr>pool := (pool ?s2)\<lparr>M_ptr := Some (hd [c]), M_tag := M_tag (pool ?s2) + 1\<rparr>\<rparr>) =
        s\<lparr>pool := deallocate c (pool s), live := live s - {c}\<rparr>"
      using assms(2) by (simp add: deallocate_def cas_head_def set_next_def fun_upd_idem)
    ultimately show "pool_inv n (k + 1) (s\<lparr>pool := deallocate c (pool s), live := live s - {c}\<rparr>) (c # fl)" by simp
  qed
qed

end
