(* ===== verification/Uring_Service.thy ===== *)
theory Uring_Service
  imports Uring_Operations Chunk_Pool
begin

text \<open>
  The \<open>io_service\<close> of \<^verbatim>\<open>samples/io_service.h\<close> and \<^verbatim>\<open>samples/io_service.cc\<close>. Each thread has a pipeline and an allocator of
  requests, in thread-local variables that all services share; a service knows the pipelines that were made for it.
  \<open>submit\<close> hands the operations of all pipelines to the ring, under a flag that one thread at a time holds. Services,
  pipelines and allocators are numbered; a null pointer that is used, and an access out of range, have no result.
\<close>

section \<open>The state\<close>

record 'u io_service =
  M_io_queues :: "nat list"
  M_uio_data_allocators :: "nat list"
  M_io_queue_overflow :: "nat option"
  M_uring :: 'u
  M_io_sq_running :: bool
  M_threads :: nat

text \<open>The thread-local variables: before the first call the number is 0 and the pointers are null.\<close>

record io_thread =
  M_thread_id :: nat
  M_uio_data_allocator :: "nat option"
  M_io_queue :: "nat option"

record 'u io_world =
  services :: "nat \<Rightarrow> 'u io_service"
  pipelines :: "pipeline list"
  allocators :: "pool list"
  threads :: "nat \<Rightarrow> io_thread"

definition io_service_new :: "'u \<Rightarrow> 'u io_service" where
  "io_service_new u = \<lparr>M_io_queues = [], M_uio_data_allocators = [], M_io_queue_overflow = None, M_uring = u,
     M_io_sq_running = False, M_threads = 0\<rparr>"

abbreviation update_service :: "nat \<Rightarrow> ('u io_service \<Rightarrow> 'u io_service) \<Rightarrow> 'u io_world \<Rightarrow> 'u io_world" where
  "update_service i f w \<equiv> w\<lparr>services := (services w)(i := f (services w i))\<rparr>"

definition setup_thread_context :: "nat \<Rightarrow> nat \<Rightarrow> 'u io_world \<Rightarrow> 'u io_world" where
  "setup_thread_context i t w =
     (if M_thread_id (threads w t) = 0 then
        let n = M_threads (services w i) + 1;
            a = length (allocators w);
            q = length (pipelines w);
            w = w\<lparr>allocators := allocators w @ [pool_allocator 128], pipelines := pipelines w @ [io_op_pipeline 128],
                  threads := (threads w)(t := \<lparr>M_thread_id = n, M_uio_data_allocator = Some a, M_io_queue = Some q\<rparr>)\<rparr>
        in update_service i (\<lambda>s. s\<lparr>M_threads := n, M_uio_data_allocators := M_uio_data_allocators s @ [a],
             M_io_queues := M_io_queues s @ [q]\<rparr>) w
      else w)"

text \<open>\<open>get_future\<close> of an operation with the allocator of the thread.\<close>

definition get_future :: "nat \<Rightarrow> 'u io_world \<Rightarrow> (request \<times> 'u io_world) option" where
  "get_future t w = do {
     a \<leftarrow> M_uio_data_allocator (threads w t);
     (c, p) \<leftarrow> allocate 128 (allocators w ! a);
     Some ((a, c), w\<lparr>allocators := (allocators w)[a := p]\<rparr>) }"

definition get_awaiter_allocator :: "nat \<Rightarrow> nat \<Rightarrow> 'u io_world \<Rightarrow> nat option \<times> 'u io_world" where
  "get_awaiter_allocator i t w = (let w = setup_thread_context i t w in (M_uio_data_allocator (threads w t), w))"

definition get_buffer_index :: "u32 \<Rightarrow> u32" where
  "get_buffer_index flag = drop_bit 16 flag"

section \<open>Submission\<close>

definition pipelines_empty :: "nat list \<Rightarrow> pipeline list \<Rightarrow> bool" where
  "pipelines_empty qs ps = foldl (\<lambda>is_empty q. is_empty \<and> pipeline_empty (ps ! q)) True qs"

definition io_queue_empty :: "nat \<Rightarrow> 'u io_world \<Rightarrow> bool" where
  "io_queue_empty i w = pipelines_empty (M_io_queues (services w i)) (pipelines w)"

text \<open>
  The loop over the pipelines, on the pipelines and the ring. The first result is the pipeline at which the ring
  was full, where \<open>submit\<close> returns.
\<close>

fun submit_pass :: "'u liburing \<Rightarrow> nat list \<Rightarrow> u32 \<Rightarrow> pipeline list \<Rightarrow> 'u \<Rightarrow> (nat option \<times> u32 \<times> pipeline list \<times> 'u) option" where
  "submit_pass L [] completed ps u = Some (None, completed, ps, u)"
| "submit_pass L (q # qs) completed ps u = do {
     (res, p, u) \<leftarrow> init_io_uring_ops L (ps ! q) u;
     let ps = ps[q := p];
     if res < 0 then Some (Some q, completed, ps, u) else submit_pass L qs (completed + word_of_int res) ps u }"

partial_function (option) submit_drain ::
    "'u liburing \<Rightarrow> nat list \<Rightarrow> u32 \<Rightarrow> pipeline list \<Rightarrow> 'u \<Rightarrow> (nat option \<times> u32 \<times> pipeline list \<times> 'u) option" where
  [code]: "submit_drain L qs completed ps u =
     (if pipelines_empty qs ps then Some (None, completed, ps, u)
      else do {
        (full, completed, ps, u) \<leftarrow> submit_pass L qs completed ps u;
        if full = None then submit_drain L qs completed ps u else Some (full, completed, ps, u) })"

text \<open>The part of the loop of \<open>submit\<close> that deals with a pipeline that did not fit before; the result is false when \<open>submit\<close> returns.\<close>

definition submit_overflow :: "'u liburing \<Rightarrow> nat \<Rightarrow> 'u io_world \<Rightarrow> (bool \<times> 'u io_world) option" where
  "submit_overflow L i w = (case M_io_queue_overflow (services w i) of
      None \<Rightarrow> Some (True, w)
    | Some q \<Rightarrow> do {
        (res, p, u) \<leftarrow> init_io_uring_ops L (pipelines w ! q) (M_uring (services w i));
        let w = update_service i (\<lambda>s. s\<lparr>M_uring := u\<rparr>) (w\<lparr>pipelines := (pipelines w)[q := p]\<rparr>);
        if 0 \<le> res then Some (True, update_service i (\<lambda>s. s\<lparr>M_io_queue_overflow := None\<rparr>) w) else Some (False, w) })"

partial_function (option) submit :: "'u liburing \<Rightarrow> nat \<Rightarrow> 'u io_world \<Rightarrow> 'u io_world option" where
  [code]: "submit L i w =
     (if io_queue_empty i w then Some w
      else if M_io_sq_running (services w i) then Some w
      else do {
        let w = update_service i (\<lambda>s. s\<lparr>M_io_sq_running := True\<rparr>) w;
        (go, w) \<leftarrow> submit_overflow L i w;
        if \<not> go then Some w
        else do {
          (full, completed, ps, u) \<leftarrow> submit_drain L (M_io_queues (services w i)) 0 (pipelines w) (M_uring (services w i));
          let w = update_service i (\<lambda>s. s\<lparr>M_uring := u\<rparr>) (w\<lparr>pipelines := ps\<rparr>);
          if full \<noteq> None then Some (update_service i (\<lambda>s. s\<lparr>M_io_queue_overflow := full\<rparr>) w)
          else do {
            let w = (if completed \<noteq> 0 then update_service i (\<lambda>s. s\<lparr>M_uring := io_uring_submit L (M_uring s)\<rparr>) w else w);
            submit L i (update_service i (\<lambda>s. s\<lparr>M_io_sq_running := False\<rparr>) w) } } })"

definition submit_io :: "'u liburing \<Rightarrow> nat \<Rightarrow> nat \<Rightarrow> 'u io_world submitter" where
  "submit_io L i t operation sqe_flags w = (let w = setup_thread_context i t w in do {
     (future, w) \<leftarrow> get_future t w;
     q \<leftarrow> M_io_queue (threads w t);
     p \<leftarrow> pipeline_enqueue \<lparr>body = operation, M_sqe_flags = sqe_flags, M_request = future\<rparr> (pipelines w ! q);
     let w = w\<lparr>pipelines := (pipelines w)[q := p]\<rparr>;
     w \<leftarrow> (if sqe_flags AND (IOSQE_IO_HARDLINK L OR IOSQE_IO_LINK L) = 0 then submit L i w else Some w);
     Some (future, w) })"

definition submit_batch :: "'u liburing \<Rightarrow> nat \<Rightarrow> nat \<Rightarrow> io_uring_op list \<Rightarrow> 'u io_world \<Rightarrow> 'u io_world option" where
  "submit_batch L i t ops w = do {
     q \<leftarrow> M_io_queue (threads w t);
     p \<leftarrow> pipeline_enqueue_all ops (pipelines w ! q);
     submit L i (w\<lparr>pipelines := (pipelines w)[q := p]\<rparr>) }"

text \<open>The loop that links all operations but the last; the number of operations minus one is a word.\<close>

definition link_operations :: "'u liburing \<Rightarrow> io_uring_op list \<Rightarrow> io_uring_op list option" where
  "link_operations L ops =
     (let op_count = of_nat (length ops) - 1 :: u64 in
      if unat op_count \<le> length ops
      then Some (map (\<lambda>op. op\<lparr>M_sqe_flags := M_sqe_flags op OR IOSQE_IO_HARDLINK L\<rparr>) (take (unat op_count) ops) @ drop (unat op_count) ops)
      else None)"

definition submit_link :: "'u liburing \<Rightarrow> nat \<Rightarrow> nat \<Rightarrow> io_uring_op list \<Rightarrow> 'u io_world \<Rightarrow> 'u io_world option" where
  "submit_link L i t ops w = do { ops \<leftarrow> link_operations L ops; submit_batch L i t ops w }"

section \<open>Submission, run alone\<close>

definition pipelines_hold :: "nat list \<Rightarrow> pipeline list \<Rightarrow> (nat \<Rightarrow> nat) \<Rightarrow> (nat \<Rightarrow> io_uring_op list) \<Rightarrow> bool" where
  "pipelines_hold qs ps c ops \<longleftrightarrow> distinct qs \<and> (\<forall>q \<in> set qs. q < length ps \<and> pipeline_holds (ps ! q) (c q) (ops q))"

lemma foldl_and: "foldl (\<lambda>b x. b \<and> P x) b xs \<longleftrightarrow> b \<and> (\<forall>x \<in> set xs. P x)"
  by (induction xs arbitrary: b) auto

lemma pipelines_empty_iff:
  assumes "pipelines_hold qs ps c ops"
  shows "pipelines_empty qs ps \<longleftrightarrow> concat (map ops qs) = []"
proof -
  have "pipeline_empty (ps ! q) \<longleftrightarrow> ops q = []" if "q \<in> set qs" for q
    using assms that pipeline_empty_iff [of "ps ! q" "c q" "ops q"] by (auto simp: pipelines_hold_def)
  then show ?thesis by (auto simp: pipelines_empty_def foldl_and)
qed

lemma sint_completed: "n < 2 ^ 31 \<Longrightarrow> sint (of_nat n :: u32) = int n"
  by (simp add: signed_of_nat signed_take_bit_int_eq_self)

text \<open>One pipeline for which there is room.\<close>

lemma pass_one:
  assumes "ring_view L room entries" and "pipelines_hold (q # qs) ps c ops" and "length (ops q) \<le> room u" and "length (ops q) < 2 ^ 31"
  obtains p u' es where "submit_pass L (q # qs) n ps u = submit_pass L qs (n + of_nat (length (ops q))) (ps[q := p]) u'"
    and "pipelines_hold qs (ps[q := p]) c ops" and "pipeline_holds p (c q) []" and "q < length ps"
    and "list_all2 (entry_ok L) (ops q) es" and "entries u' = entries u @ es" and "room u' = room u - length (ops q)"
proof -
  have h: "q < length ps" "pipeline_holds (ps ! q) (c q) (ops q)" using assms(2) by (auto simp: pipelines_hold_def)
  obtain p u' es where p: "drain_queue L (ps ! q) u 0 = Some (sint (0 + of_nat (length (ops q)) :: u32), p, u')"
      "pipeline_holds p (c q) []" "list_all2 (entry_ok L) (ops q) es" "entries u' = entries u @ es" "room u' = room u - length (ops q)"
    using drain_queue_all [OF assms(1) h(2) assms(3)] by blast
  have "init_io_uring_ops L (ps ! q) u = Some (int (length (ops q)), p, u')"
    using p(1) sint_completed [OF assms(4)] init_io_uring_ops_eq [OF h(2), of L u] by simp
  moreover have "pipelines_hold qs (ps[q := p]) c ops" using assms(2) by (auto simp: pipelines_hold_def nth_list_update)
  ultimately show thesis using p h(1) by (intro that) simp_all
qed

lemma submit_pass_all:
  assumes "ring_view L room entries" and "pipelines_hold qs ps c ops" and "length (concat (map ops qs)) \<le> room u"
    and "length (concat (map ops qs)) < 2 ^ 31"
  shows "\<exists>ps' u' es. submit_pass L qs n ps u = Some (None, n + of_nat (length (concat (map ops qs))), ps', u') \<and>
    length ps' = length ps \<and> (\<forall>q \<in> set qs. pipeline_holds (ps' ! q) (c q) []) \<and> (\<forall>q. q \<notin> set qs \<longrightarrow> ps' ! q = ps ! q) \<and>
    list_all2 (entry_ok L) (concat (map ops qs)) es \<and> entries u' = entries u @ es"
  using assms(2-4)
proof (induction qs arbitrary: n ps u)
  case (Cons q qs)
  have le: "length (ops q) \<le> room u" "length (ops q) < 2 ^ 31" using Cons.prems by simp_all
  obtain p u1 es1 where p: "submit_pass L (q # qs) n ps u = submit_pass L qs (n + of_nat (length (ops q))) (ps[q := p]) u1"
      "pipelines_hold qs (ps[q := p]) c ops" "pipeline_holds p (c q) []" "q < length ps"
      "list_all2 (entry_ok L) (ops q) es1" "entries u1 = entries u @ es1" "room u1 = room u - length (ops q)"
    by (rule pass_one [OF assms(1) Cons.prems(1) le])
  have "length (concat (map ops qs)) \<le> room u1" "length (concat (map ops qs)) < 2 ^ 31" using Cons.prems(2,3) p(7) by simp_all
  from Cons.IH [OF p(2) this, of "n + of_nat (length (ops q))"] obtain ps' u' es where
      IH: "submit_pass L qs (n + of_nat (length (ops q))) (ps[q := p]) u1 =
        Some (None, n + of_nat (length (ops q)) + of_nat (length (concat (map ops qs))), ps', u')"
      "length ps' = length ps" "\<forall>q \<in> set qs. pipeline_holds (ps' ! q) (c q) []" "\<forall>r. r \<notin> set qs \<longrightarrow> ps' ! r = ps[q := p] ! r"
      "list_all2 (entry_ok L) (concat (map ops qs)) es" "entries u' = entries u1 @ es"
    by auto
  have "q \<notin> set qs" using Cons.prems(1) by (simp add: pipelines_hold_def)
  then have "ps' ! q = p" using IH(4) p(4) by simp
  then have "\<forall>r \<in> set (q # qs). pipeline_holds (ps' ! r) (c r) []" using IH(3) p(3) by simp
  moreover have "\<forall>r. r \<notin> set (q # qs) \<longrightarrow> ps' ! r = ps ! r" using IH(4) by simp
  moreover have "list_all2 (entry_ok L) (concat (map ops (q # qs))) (es1 @ es)" using p(5) IH(5) by (simp add: list_all2_appendI)
  ultimately show ?case using IH(1,2,6) p(1,6)
    by (intro exI [of _ ps'] exI [of _ u'] exI [of _ "es1 @ es"]) (simp add: add.assoc)
qed simp

lemma submit_pass_full:
  assumes "ring_view L room entries" and "pipelines_hold (qs @ q # rs) ps c ops" and "ops q = ins @ op # rest"
    and "length (concat (map ops qs) @ ins) = room u" and "length (concat (map ops qs)) < 2 ^ 31"
  shows "\<exists>m ps' u' es. submit_pass L (qs @ q # rs) n ps u = Some (Some q, m, ps', u') \<and> length ps' = length ps \<and>
    (\<forall>r \<in> set qs. pipeline_holds (ps' ! r) (c r) []) \<and> pipeline_holds (ps' ! q) (c q) rest \<and>
    (\<forall>r. r \<notin> set qs \<and> r \<noteq> q \<longrightarrow> ps' ! r = ps ! r) \<and>
    list_all2 (entry_ok L) (concat (map ops qs) @ ins) es \<and> entries u' = entries u @ es"
  using assms(2,4,5)
proof (induction qs arbitrary: n ps u)
  case Nil
  have h: "q < length ps" "pipeline_holds (ps ! q) (c q) (ins @ op # rest)" and eq: "length ins = room u"
    using Nil.prems assms(3) by (auto simp: pipelines_hold_def)
  obtain p u' es where p: "drain_queue L (ps ! q) u 0 = Some (- 1, p, u')" "pipeline_holds p (c q) rest"
      "list_all2 (entry_ok L) ins es" "entries u' = entries u @ es"
    using drain_queue_full [OF assms(1) h(2) eq] by blast
  have "submit_pass L (q # rs) n ps u = Some (Some q, n, ps[q := p], u')"
    using p(1) init_io_uring_ops_eq [OF h(2), of L u] by simp
  then show ?case using p h(1) by (intro exI [of _ n] exI [of _ "ps[q := p]"] exI [of _ u'] exI [of _ es]) simp
next
  case (Cons r qs)
  have le: "length (ops r) \<le> room u" "length (ops r) < 2 ^ 31" using Cons.prems by simp_all
  have pre: "pipelines_hold (r # (qs @ q # rs)) ps c ops" using Cons.prems(1) by simp
  obtain p u1 es1 where p: "submit_pass L (r # qs @ q # rs) n ps u = submit_pass L (qs @ q # rs) (n + of_nat (length (ops r))) (ps[r := p]) u1"
      "pipelines_hold (qs @ q # rs) (ps[r := p]) c ops" "pipeline_holds p (c r) []" "r < length ps"
      "list_all2 (entry_ok L) (ops r) es1" "entries u1 = entries u @ es1" "room u1 = room u - length (ops r)"
    by (rule pass_one [OF assms(1) pre le])
  have "length (concat (map ops qs) @ ins) = room u1" "length (concat (map ops qs)) < 2 ^ 31" using Cons.prems(2,3) p(7) by simp_all
  from Cons.IH [OF p(2) this, of "n + of_nat (length (ops r))"] obtain m ps' u' es where
      IH: "submit_pass L (qs @ q # rs) (n + of_nat (length (ops r))) (ps[r := p]) u1 = Some (Some q, m, ps', u')"
      "length ps' = length ps" "\<forall>x \<in> set qs. pipeline_holds (ps' ! x) (c x) []" "pipeline_holds (ps' ! q) (c q) rest"
      "\<forall>x. x \<notin> set qs \<and> x \<noteq> q \<longrightarrow> ps' ! x = ps[r := p] ! x"
      "list_all2 (entry_ok L) (concat (map ops qs) @ ins) es" "entries u' = entries u1 @ es"
    by auto
  have "r \<notin> set qs" "r \<noteq> q" using pre by (auto simp: pipelines_hold_def)
  then have "ps' ! r = p" using IH(5) p(4) by simp
  then have "\<forall>x \<in> set (r # qs). pipeline_holds (ps' ! x) (c x) []" using IH(3) p(3) by simp
  moreover have "\<forall>x. x \<notin> set (r # qs) \<and> x \<noteq> q \<longrightarrow> ps' ! x = ps ! x" using IH(5) by simp
  moreover have "list_all2 (entry_ok L) (concat (map ops (r # qs)) @ ins) (es1 @ es)" using p(5) IH(6) by (simp add: list_all2_appendI)
  ultimately show ?case using IH(1,2,4,7) p(1,6)
    by (intro exI [of _ m] exI [of _ ps'] exI [of _ u'] exI [of _ "es1 @ es"]) simp
qed

lemma submit_drain_all:
  assumes "ring_view L room entries" and "pipelines_hold qs ps c ops" and "length (concat (map ops qs)) \<le> room u"
    and "length (concat (map ops qs)) < 2 ^ 31" and "concat (map ops qs) \<noteq> []"
  shows "\<exists>ps' u' es. submit_drain L qs 0 ps u = Some (None, of_nat (length (concat (map ops qs))), ps', u') \<and>
    pipelines_hold qs ps' c (\<lambda>_. []) \<and> (\<forall>q. q \<notin> set qs \<longrightarrow> ps' ! q = ps ! q) \<and> length ps' = length ps \<and>
    list_all2 (entry_ok L) (concat (map ops qs)) es \<and> entries u' = entries u @ es"
proof -
  obtain ps' u' es where p: "submit_pass L qs 0 ps u = Some (None, 0 + of_nat (length (concat (map ops qs))), ps', u')"
      "length ps' = length ps" "\<forall>q \<in> set qs. pipeline_holds (ps' ! q) (c q) []" "\<forall>q. q \<notin> set qs \<longrightarrow> ps' ! q = ps ! q"
      "list_all2 (entry_ok L) (concat (map ops qs)) es" "entries u' = entries u @ es"
    using submit_pass_all [OF assms(1-4)] by blast
  have h: "pipelines_hold qs ps' c (\<lambda>_. [])" using p(2,3) assms(2) by (simp add: pipelines_hold_def)
  then have e: "pipelines_empty qs ps'" using pipelines_empty_iff [OF h] by simp
  have "\<not> pipelines_empty qs ps" using pipelines_empty_iff [OF assms(2)] assms(5) by simp
  then have "submit_drain L qs 0 ps u = submit_drain L qs (of_nat (length (concat (map ops qs)))) ps' u'"
    using p(1) by (subst submit_drain.simps) simp
  also have "\<dots> = Some (None, of_nat (length (concat (map ops qs))), ps', u')" using e by (subst submit_drain.simps) simp
  finally show ?thesis using h p by blast
qed

text \<open>
  A service on which \<open>submit\<close> is not running, with the operations that wait in its pipelines.
\<close>

definition service_ready :: "nat \<Rightarrow> 'u io_world \<Rightarrow> (nat \<Rightarrow> nat) \<Rightarrow> (nat \<Rightarrow> io_uring_op list) \<Rightarrow> bool" where
  "service_ready i w c ops \<longleftrightarrow> pipelines_hold (M_io_queues (services w i)) (pipelines w) c ops \<and>
     \<not> M_io_sq_running (services w i) \<and> M_io_queue_overflow (services w i) = None"

abbreviation queued :: "nat \<Rightarrow> 'u io_world \<Rightarrow> (nat \<Rightarrow> io_uring_op list) \<Rightarrow> io_uring_op list" where
  "queued i w ops \<equiv> concat (map ops (M_io_queues (services w i)))"

lemma submit_running: "M_io_sq_running (services w i) \<Longrightarrow> submit L i w = Some w"
  by (subst submit.simps) simp

lemma submit_empty: "io_queue_empty i w \<Longrightarrow> submit L i w = Some w"
  by (subst submit.simps) simp

lemma submit_all:
  assumes "ring_view L room entries" and "service_ready i w c ops" and "queued i w ops \<noteq> []"
    and "length (queued i w ops) \<le> room (M_uring (services w i))" and "length (queued i w ops) < 2 ^ 31"
  shows "\<exists>ps u es. submit L i w = Some (update_service i (\<lambda>s. s\<lparr>M_uring := io_uring_submit L u\<rparr>) (w\<lparr>pipelines := ps\<rparr>)) \<and>
    pipelines_hold (M_io_queues (services w i)) ps c (\<lambda>_. []) \<and> (\<forall>q. q \<notin> set (M_io_queues (services w i)) \<longrightarrow> ps ! q = pipelines w ! q) \<and>
    list_all2 (entry_ok L) (queued i w ops) es \<and> entries u = entries (M_uring (services w i)) @ es"
proof -
  let ?s = "services w i"
  have r: "pipelines_hold (M_io_queues ?s) (pipelines w) c ops" "\<not> M_io_sq_running ?s" "M_io_queue_overflow ?s = None"
    using assms(2) by (auto simp: service_ready_def)
  obtain ps u es where d: "submit_drain L (M_io_queues ?s) 0 (pipelines w) (M_uring ?s) = Some (None, of_nat (length (queued i w ops)), ps, u)"
      "pipelines_hold (M_io_queues ?s) ps c (\<lambda>_. [])" "\<forall>q. q \<notin> set (M_io_queues ?s) \<longrightarrow> ps ! q = pipelines w ! q"
      "list_all2 (entry_ok L) (queued i w ops) es" "entries u = entries (M_uring ?s) @ es"
    using submit_drain_all [OF assms(1) r(1) assms(4,5,3)] by blast
  have n: "(of_nat (length (queued i w ops)) :: u32) \<noteq> 0"
  proof -
    have "unat (of_nat (length (queued i w ops)) :: u32) = length (queued i w ops)"
      using assms(5) by (simp add: unsigned_of_nat take_bit_nat_eq_self)
    then show ?thesis using assms(3) by (metis length_0_conv unat_0)
  qed
  let ?w = "update_service i (\<lambda>s. s\<lparr>M_uring := io_uring_submit L u\<rparr>) (w\<lparr>pipelines := ps\<rparr>)"
  have "\<not> io_queue_empty i w" using pipelines_empty_iff [OF r(1)] assms(3) by (simp add: io_queue_empty_def)
  moreover have keep: "?s\<lparr>M_uring := x, M_io_sq_running := False\<rparr> = ?s\<lparr>M_uring := x\<rparr>" for x using r(2) by (cases ?s) simp
  ultimately have "submit L i w = submit L i ?w"
    using d(1) r(2,3) n by (subst submit.simps) (simp add: submit_overflow_def keep)
  also have "\<dots> = Some ?w"
    by (rule submit_empty) (use pipelines_empty_iff [OF d(2)] in \<open>simp add: io_queue_empty_def\<close>)
  finally show ?thesis using d by blast
qed

lemma concat_split:
  "k < length (concat (map f qs)) \<Longrightarrow>
    \<exists>qs1 q qs2 xs y ys. qs = qs1 @ q # qs2 \<and> f q = xs @ y # ys \<and> length (concat (map f qs1) @ xs) = k"
proof (induction qs arbitrary: k)
  case (Cons q qs)
  show ?case
  proof (cases "k < length (f q)")
    case True
    then have "f q = take k (f q) @ f q ! k # drop (Suc k) (f q)" by (simp add: id_take_nth_drop)
    then show ?thesis using True
      by (intro exI [of _ "[]"] exI [of _ q] exI [of _ qs] exI [of _ "take k (f q)"] exI [of _ "f q ! k"] exI [of _ "drop (Suc k) (f q)"]) simp
  next
    case False
    then have "k - length (f q) < length (concat (map f qs))" using Cons.prems by simp
    then obtain qs1 r qs2 xs y ys where "qs = qs1 @ r # qs2" "f r = xs @ y # ys" "length (concat (map f qs1) @ xs) = k - length (f q)"
      using Cons.IH by blast
    then show ?thesis using False
      by (intro exI [of _ "q # qs1"] exI [of _ r] exI [of _ qs2] exI [of _ xs] exI [of _ y] exI [of _ ys]) simp
  qed
qed simp

lemma submit_full:
  assumes "ring_view L room entries" and "service_ready i w c ops" and "room (M_uring (services w i)) < length (queued i w ops)"
    and "length (queued i w ops) < 2 ^ 31"
  shows "\<exists>q ps u es ops'. submit L i w =
      Some (update_service i (\<lambda>s. s\<lparr>M_io_sq_running := True, M_uring := u, M_io_queue_overflow := Some q\<rparr>) (w\<lparr>pipelines := ps\<rparr>)) \<and>
    pipelines_hold (M_io_queues (services w i)) ps c ops' \<and> queued i w ops' = drop (Suc (room (M_uring (services w i)))) (queued i w ops) \<and>
    list_all2 (entry_ok L) (take (room (M_uring (services w i))) (queued i w ops)) es \<and>
    entries u = entries (M_uring (services w i)) @ es"
proof -
  let ?s = "services w i"
  have r: "pipelines_hold (M_io_queues ?s) (pipelines w) c ops" "\<not> M_io_sq_running ?s" "M_io_queue_overflow ?s = None"
    using assms(2) by (auto simp: service_ready_def)
  obtain qs q rs ins op rest where sp: "M_io_queues ?s = qs @ q # rs" "ops q = ins @ op # rest"
      "length (concat (map ops qs) @ ins) = room (M_uring ?s)"
    using concat_split [OF assms(3)] by blast
  have "length (concat (map ops qs)) < 2 ^ 31" using assms(4) sp(1) by simp
  then obtain m ps u es where p: "submit_pass L (M_io_queues ?s) 0 (pipelines w) (M_uring ?s) = Some (Some q, m, ps, u)"
      "length ps = length (pipelines w)" "\<forall>r \<in> set qs. pipeline_holds (ps ! r) (c r) []" "pipeline_holds (ps ! q) (c q) rest"
      "\<forall>r. r \<notin> set qs \<and> r \<noteq> q \<longrightarrow> ps ! r = pipelines w ! r" "list_all2 (entry_ok L) (concat (map ops qs) @ ins) es"
      "entries u = entries (M_uring ?s) @ es"
    using submit_pass_full [OF assms(1) r(1) [unfolded sp(1)] sp(2,3)] unfolding sp(1) by blast
  have "queued i w ops \<noteq> []" using assms(3) by (metis list.size(3) not_less_zero)
  then have ne: "\<not> pipelines_empty (M_io_queues ?s) (pipelines w)" using pipelines_empty_iff [OF r(1)] by simp
  then have d: "submit_drain L (M_io_queues ?s) 0 (pipelines w) (M_uring ?s) = Some (Some q, m, ps, u)"
    using p(1) by (subst submit_drain.simps) simp
  have s: "submit L i w = Some (update_service i (\<lambda>s. s\<lparr>M_io_sq_running := True, M_uring := u, M_io_queue_overflow := Some q\<rparr>) (w\<lparr>pipelines := ps\<rparr>))"
    using ne d r(2,3) by (subst submit.simps) (simp add: submit_overflow_def io_queue_empty_def)
  define ops' where "ops' = (\<lambda>r. if r \<in> set qs then [] else if r = q then rest else ops r)"
  have D: "distinct (qs @ q # rs)" using r(1) sp(1) by (simp add: pipelines_hold_def)
  have h: "pipelines_hold (M_io_queues ?s) ps c ops'"
    using r(1) p(2-5) sp(1) D by (auto simp: pipelines_hold_def ops'_def)
  have "map ops' rs = map ops rs" using D by (auto simp: ops'_def)
  moreover have "concat (map ops' qs) = []" "ops' q = rest" using D by (auto simp: ops'_def)
  ultimately have "queued i w ops' = rest @ concat (map ops rs)" unfolding sp(1) by (simp only: map_append list.map concat_append concat.simps append_Nil)
  moreover have all: "queued i w ops = (concat (map ops qs) @ ins) @ op # rest @ concat (map ops rs)" unfolding sp(1) using sp(2) by simp
  ultimately have "queued i w ops' = drop (Suc (room (M_uring ?s))) (queued i w ops)" "take (room (M_uring ?s)) (queued i w ops) = concat (map ops qs) @ ins"
    using sp(3) by (simp_all del: append_assoc add: append_assoc [symmetric])
  with s h p(6,7) show ?thesis
    by (intro exI [of _ q] exI [of _ ps] exI [of _ u] exI [of _ es] exI [of _ ops'] conjI) (simp_all only:)
qed

section \<open>A ring\<close>

text \<open>A ring of a given size, to run the functions with: the free entries, those in preparation, and those submitted.\<close>

definition list_ring :: "(nat \<times> sqe_write list list \<times> sqe_write list list) liburing" where
  "list_ring = \<lparr>io_uring_get_sqe = (\<lambda>(n, es, ds). if n = 0 then None else Some (n - 1, es @ [[]], ds)),
     sqe_write = (\<lambda>w (n, es, ds). (n, if es = [] then [] else butlast es @ [last es @ [w]], ds)),
     io_uring_submit = (\<lambda>(n, es, ds). (n + length es, [], ds @ es)),
     IOSQE_BUFFER_SELECT = 32, IOSQE_IO_LINK = 4, IOSQE_IO_HARDLINK = 8\<rparr>"

lemma list_ring_view: "ring_view list_ring fst (\<lambda>u. fst (snd u))"
  by (auto simp: ring_view_def list_ring_def)

text \<open>A service with one thread that has enqueued operations, before it submits.\<close>

definition example_world :: "nat \<Rightarrow> io_uring_op list \<Rightarrow> (nat \<times> sqe_write list list \<times> sqe_write list list) io_world option" where
  "example_world n ops = do {
     let w = setup_thread_context 0 1 \<lparr>services = (\<lambda>_. io_service_new (n, [], [])), pipelines = [], allocators = [],
       threads = (\<lambda>_. \<lparr>M_thread_id = 0, M_uio_data_allocator = None, M_io_queue = None\<rparr>)\<rparr>;
     p \<leftarrow> pipeline_enqueue_all ops (pipelines w ! 0);
     Some (w\<lparr>pipelines := [p]\<rparr>) }"

lemma example_ready:
  assumes "length ops < 128"
  obtains w c where "example_world n ops = Some w" and "service_ready 0 w c (\<lambda>_. ops)" and "queued 0 w (\<lambda>_. ops) = ops"
    and "M_uring (services w 0) = (n, [], [])"
proof -
  have p: "pipeline_holds (io_op_pipeline 128) 128 []" using io_op_pipeline_holds [of 7] by simp
  then have "holds (M_io_work_queue (io_op_pipeline 128)) 128 []" by (simp add: pipeline_holds_def)
  moreover have "length ([] :: io_uring_op list) + length ops < 2 ^ 61" using assms by simp
  ultimately obtain q c where q: "bulk_enqueue op0 ops (M_io_work_queue (io_op_pipeline 128)) = Some q" "holds q c ([] @ ops)"
    using bulk_enqueue_ok [where dflt = op0] assms by metis
  let ?p = "(io_op_pipeline 128)\<lparr>M_io_work_queue := q\<rparr>"
  have "pipeline_enqueue_all ops (io_op_pipeline 128) = Some ?p" using q(1) by (simp add: pipeline_enqueue_all_def)
  moreover have "pipeline_holds ?p c ops" using q(2) p by (simp add: pipeline_holds_def)
  ultimately show thesis
    by (intro that [of _ "\<lambda>_. c"]) (auto simp: example_world_def setup_thread_context_def io_service_new_def service_ready_def pipelines_hold_def)
qed

section \<open>Properties\<close>

text \<open>
  C14. \<open>submit\<close> with room in the ring. Run alone on a service whose pipelines hold operations, and with a free entry for each, it
  returns, has prepared one entry for each operation, in the order of the pipelines and of their queues, and has submitted
  them together. An entry has the call of its operation, its flags, its buffer group and its request. All pipelines are
  empty, those of other services are untouched, and the service can submit again.
\<close>

theorem submit_hands_over:
  assumes "ring_view L room entries" and "service_ready i w c ops" and "queued i w ops \<noteq> []"
    and "length (queued i w ops) \<le> room (M_uring (services w i))" and "length (queued i w ops) < 2 ^ 31"
  shows "\<exists>w' u es. submit L i w = Some w' \<and> M_uring (services w' i) = io_uring_submit L u \<and>
    entries u = entries (M_uring (services w i)) @ es \<and> list_all2 (entry_ok L) (queued i w ops) es \<and>
    service_ready i w' c (\<lambda>_. []) \<and> (\<forall>q. q \<notin> set (M_io_queues (services w i)) \<longrightarrow> pipelines w' ! q = pipelines w ! q)"
proof -
  obtain ps u es where s: "submit L i w = Some (update_service i (\<lambda>s. s\<lparr>M_uring := io_uring_submit L u\<rparr>) (w\<lparr>pipelines := ps\<rparr>))"
      "pipelines_hold (M_io_queues (services w i)) ps c (\<lambda>_. [])" "\<forall>q. q \<notin> set (M_io_queues (services w i)) \<longrightarrow> ps ! q = pipelines w ! q"
      "list_all2 (entry_ok L) (queued i w ops) es" "entries u = entries (M_uring (services w i)) @ es"
    using submit_all [OF assms] by blast
  then show ?thesis using assms(2)
    by (intro exI [of _ "update_service i (\<lambda>s. s\<lparr>M_uring := io_uring_submit L u\<rparr>) (w\<lparr>pipelines := ps\<rparr>)"] exI [of _ u] exI [of _ es])
       (simp add: service_ready_def)
qed

theorem submit_hands_over_witness:
  "\<exists>w w' u. example_world 2 [op0, op0\<lparr>body := Op_nop\<rparr>] = Some w \<and> submit list_ring 0 w = Some w' \<and>
    M_uring (services w' 0) = io_uring_submit list_ring u \<and> length (fst (snd u)) = 2 \<and>
    entry_prep (fst (snd u) ! 1) = Some Prep_nop"
proof -
  let ?ops = "[op0, op0\<lparr>body := Op_nop\<rparr>]"
  have "length ?ops < 128" by simp
  then obtain w c where w: "example_world 2 ?ops = Some w" "service_ready 0 w c (\<lambda>_. ?ops)" "queued 0 w (\<lambda>_. ?ops) = ?ops"
      "M_uring (services w 0) = (2, [], [])"
    by (rule example_ready)
  have "\<exists>w' u es. submit list_ring 0 w = Some w' \<and> M_uring (services w' 0) = io_uring_submit list_ring u \<and>
    fst (snd u) = fst (snd (M_uring (services w 0))) @ es \<and> list_all2 (entry_ok list_ring) (queued 0 w (\<lambda>_. ?ops)) es \<and>
    service_ready 0 w' c (\<lambda>_. []) \<and> (\<forall>q. q \<notin> set (M_io_queues (services w 0)) \<longrightarrow> pipelines w' ! q = pipelines w ! q)"
    by (rule submit_hands_over [OF list_ring_view w(2)]) (simp_all only: w(3), simp_all add: w(4))
  then obtain w' u es where r: "submit list_ring 0 w = Some w'" "M_uring (services w' 0) = io_uring_submit list_ring u"
      "fst (snd u) = es" "list_all2 (entry_ok list_ring) ?ops es"
    unfolding w(3,4) by auto
  then obtain e1 e2 where "es = [e1, e2]" "entry_ok list_ring (op0\<lparr>body := Op_nop\<rparr>) e2" by (auto simp: list_all2_Cons1)
  then have "length (fst (snd u)) = 2" "entry_prep (fst (snd u) ! 1) = Some Prep_nop" using r(3) by (simp_all add: entry_ok_def)
  with w(1) r(1,2) show ?thesis by blast
qed

text \<open>
  C36. \<open>submit\<close> when the ring is full. With more operations than free entries it prepares an entry for as many as fit and returns
  without submitting them, the next operation has left its queue and is kept nowhere, and the flag that \<open>submit\<close>
  is running stays set, so that every later call of \<open>submit\<close> on this service does nothing.
\<close>

theorem submit_full_ring_stuck:
  assumes "ring_view L room entries" and "service_ready i w c ops" and "room (M_uring (services w i)) < length (queued i w ops)"
    and "length (queued i w ops) < 2 ^ 31"
  shows "\<exists>w' es ops'. submit L i w = Some w' \<and> M_io_sq_running (services w' i) \<and>
    entries (M_uring (services w' i)) = entries (M_uring (services w i)) @ es \<and>
    list_all2 (entry_ok L) (take (room (M_uring (services w i))) (queued i w ops)) es \<and>
    pipelines_hold (M_io_queues (services w' i)) (pipelines w') c ops' \<and>
    queued i w' ops' = drop (Suc (room (M_uring (services w i)))) (queued i w ops) \<and>
    (\<forall>w''. M_io_sq_running (services w'' i) \<longrightarrow> submit L i w'' = Some w'')"
proof -
  obtain q ps u es ops' where s: "submit L i w =
        Some (update_service i (\<lambda>s. s\<lparr>M_io_sq_running := True, M_uring := u, M_io_queue_overflow := Some q\<rparr>) (w\<lparr>pipelines := ps\<rparr>))"
      "pipelines_hold (M_io_queues (services w i)) ps c ops'" "queued i w ops' = drop (Suc (room (M_uring (services w i)))) (queued i w ops)"
      "list_all2 (entry_ok L) (take (room (M_uring (services w i))) (queued i w ops)) es"
      "entries u = entries (M_uring (services w i)) @ es"
    using submit_full [OF assms] by blast
  let ?w = "update_service i (\<lambda>s. s\<lparr>M_io_sq_running := True, M_uring := u, M_io_queue_overflow := Some q\<rparr>) (w\<lparr>pipelines := ps\<rparr>)"
  have "M_io_queues (services ?w i) = M_io_queues (services w i)" by simp
  then show ?thesis using s by (intro exI [of _ ?w] exI [of _ es] exI [of _ ops']) (simp add: submit_running)
qed

theorem submit_full_ring_stuck_witness:
  "\<exists>w w' es. example_world 1 [op0, op0\<lparr>body := Op_nop\<rparr>] = Some w \<and> submit list_ring 0 w = Some w' \<and>
    M_io_sq_running (services w' 0) \<and> submit list_ring 0 w' = Some w' \<and> fst (snd (M_uring (services w' 0))) = es \<and> length es = 1"
proof -
  let ?ops = "[op0, op0\<lparr>body := Op_nop\<rparr>]"
  have "length ?ops < 128" by simp
  then obtain w c where w: "example_world 1 ?ops = Some w" "service_ready 0 w c (\<lambda>_. ?ops)" "queued 0 w (\<lambda>_. ?ops) = ?ops"
      "M_uring (services w 0) = (1, [], [])"
    by (rule example_ready)
  have "fst (M_uring (services w 0)) < length (queued 0 w (\<lambda>_. ?ops))" "length (queued 0 w (\<lambda>_. ?ops)) < 2 ^ 31"
    unfolding w(3,4) by simp_all
  from submit_full_ring_stuck [OF list_ring_view w(2) this] obtain w' es where r: "submit list_ring 0 w = Some w'"
      "M_io_sq_running (services w' 0)" "fst (snd (M_uring (services w' 0))) = es" "list_all2 (entry_ok list_ring) (take 1 ?ops) es"
      "submit list_ring 0 w' = Some w'"
    unfolding w(3,4) by auto
  then have "length es = 1" using list_all2_lengthD by fastforce
  with w(1) r show ?thesis by blast
qed

text \<open>
  One operation through \<open>submit_io\<close>, from a thread whose pipeline belongs to the service: the request comes from the
  allocator of the thread, and without link flags the operation is submitted with all that was waiting.
\<close>

theorem submit_io_submits:
  fixes b :: op_body
  assumes "ring_view L room entries" and "service_ready i w c ops" and "M_thread_id (threads w t) \<noteq> 0"
    and "M_io_queue (threads w t) = Some q" and "q \<in> set (M_io_queues (services w i))"
    and "M_uio_data_allocator (threads w t) = Some a" and "allocate 128 (allocators w ! a) = Some (x, p)"
    and "f AND (IOSQE_IO_HARDLINK L OR IOSQE_IO_LINK L) = 0"
    and "length (queued i w ops) < room (M_uring (services w i))" and "length (queued i w ops) < 2 ^ 31 - 1"
  defines "ops' \<equiv> ops(q := ops q @ [\<lparr>body = b, M_sqe_flags = f, M_request = (a, x)\<rparr>])"
  shows "\<exists>w' u es. submit_io L i t b f w = Some ((a, x), w') \<and> M_uring (services w' i) = io_uring_submit L u \<and>
    entries u = entries (M_uring (services w i)) @ es \<and> list_all2 (entry_ok L) (queued i w ops') es"
proof -
  let ?qs = "M_io_queues (services w i)"
  let ?op = "\<lparr>body = b, M_sqe_flags = f, M_request = (a, x)\<rparr>"
  have h: "q < length (pipelines w)" "pipeline_holds (pipelines w ! q) (c q) (ops q)" and D: "distinct ?qs"
    using assms(2,5) by (auto simp: service_ready_def pipelines_hold_def)
  obtain qs1 qs2 where qs: "?qs = qs1 @ q # qs2" using split_list [OF assms(5)] by blast
  have upd: "map ops' qs1 = map ops qs1" "map ops' qs2 = map ops qs2" "ops' q = ops q @ [?op]"
    using D qs by (auto simp: ops'_def)
  have len: "length (concat (map ops' ?qs)) = Suc (length (queued i w ops))" unfolding qs by (simp add: upd)
  have "length (ops q) < 2 ^ 61" using assms(10) unfolding qs by simp
  then obtain p' c' where p': "pipeline_enqueue ?op (pipelines w ! q) = Some p'" "pipeline_holds p' c' (ops q @ [?op])"
    by (rule pipeline_enqueue_holds [OF h(2)])
  let ?w = "w\<lparr>allocators := (allocators w)[a := p], pipelines := (pipelines w)[q := p']\<rparr>"
  have ready: "service_ready i ?w (c(q := c')) ops'"
    using assms(2) h(1) p'(2) by (auto simp: service_ready_def pipelines_hold_def ops'_def nth_list_update)
  have eq: "M_io_queues (services ?w i) = ?qs" "M_uring (services ?w i) = M_uring (services w i)" by simp_all
  have "queued i ?w ops' \<noteq> []" "length (queued i ?w ops') \<le> room (M_uring (services ?w i))" "length (queued i ?w ops') < 2 ^ 31"
    using len assms(9,10) unfolding eq by (metis list.size(3) nat.distinct(1), simp, simp)
  from submit_all [OF assms(1) ready this] obtain ps u es where
      s: "submit L i ?w = Some (update_service i (\<lambda>s. s\<lparr>M_uring := io_uring_submit L u\<rparr>) (?w\<lparr>pipelines := ps\<rparr>))"
      "list_all2 (entry_ok L) (queued i ?w ops') es" "entries u = entries (M_uring (services ?w i)) @ es"
    by blast
  have "submit_io L i t b f w = Some ((a, x), update_service i (\<lambda>s. s\<lparr>M_uring := io_uring_submit L u\<rparr>) (?w\<lparr>pipelines := ps\<rparr>))"
    using assms(3,4,6,7,8) p'(1) s(1) by (simp add: submit_io_def setup_thread_context_def get_future_def)
  with s(2,3) show ?thesis unfolding eq by (intro exI [of _ "update_service i (\<lambda>s. s\<lparr>M_uring := io_uring_submit L u\<rparr>) (?w\<lparr>pipelines := ps\<rparr>)"] exI [of _ u] exI [of _ es]) simp
qed

text \<open>
  The thread-local variables are shared by all services. A thread that first used another service keeps its pipeline: an
  operation it gives to a second service goes to the pipeline of the first, and the ring of the second gets nothing.
\<close>

theorem second_service_gets_nothing:
  assumes "M_thread_id (threads w t) \<noteq> 0" and "M_io_queue (threads w t) = Some q" and "q \<notin> set (M_io_queues (services w i))"
    and "io_queue_empty i w" and "submit_io L i t b f w = Some (r, w')"
  shows "services w' i = services w i"
proof -
  obtain a x p p' where "M_uio_data_allocator (threads w t) = Some a" "allocate 128 (allocators w ! a) = Some (x, p)"
    and p': "pipeline_enqueue \<lparr>body = b, M_sqe_flags = f, M_request = (a, x)\<rparr> (pipelines w ! q) = Some p'"
    and w': "(if f AND (IOSQE_IO_HARDLINK L OR IOSQE_IO_LINK L) = 0
      then submit L i (w\<lparr>allocators := (allocators w)[a := p], pipelines := (pipelines w)[q := p']\<rparr>)
      else Some (w\<lparr>allocators := (allocators w)[a := p], pipelines := (pipelines w)[q := p']\<rparr>)) = Some w'"
    using assms(1,2,5) by (auto simp: submit_io_def setup_thread_context_def get_future_def Let_def split: Option.bind_splits if_splits)
  have "io_queue_empty i (w\<lparr>allocators := (allocators w)[a := p], pipelines := (pipelines w)[q := p']\<rparr>)"
  proof -
    have "(pipelines w)[q := p'] ! r = pipelines w ! r" if "r \<in> set (M_io_queues (services w i))" for r
      using that assms(3) by (metis nth_list_update_neq)
    then show ?thesis using assms(4) by (simp add: io_queue_empty_def pipelines_empty_def foldl_and)
  qed
  then show ?thesis using w' by (auto simp: submit_empty split: if_splits)
qed

text \<open>A linked submission sets the flag on all operations but the last; with no operation at all it runs out of range.\<close>

theorem link_operations_spec:
  assumes "Suc (length ops) < 2 ^ 64"
  shows "link_operations L (ops @ [op]) =
      Some (map (\<lambda>op. op\<lparr>M_sqe_flags := M_sqe_flags op OR IOSQE_IO_HARDLINK L\<rparr>) ops @ [op]) \<and>
    link_operations L [] = None"
proof
  have "unat (of_nat (length (ops @ [op])) - 1 :: u64) = length ops"
    using assms by (simp add: unsigned_of_nat take_bit_nat_eq_self)
  then show "link_operations L (ops @ [op]) =
      Some (map (\<lambda>op. op\<lparr>M_sqe_flags := M_sqe_flags op OR IOSQE_IO_HARDLINK L\<rparr>) ops @ [op])"
    by (simp add: link_operations_def Let_def)
  show "link_operations L [] = None"
    by (simp add: link_operations_def Let_def unsigned_minus_1_eq_mask mask_eq_exp_minus_1)
qed

end
