(* ===== verification/Uring_Completion.thy ===== *)
theory Uring_Completion
  imports Godby_Prelude
begin

text \<open>
  A request to the ring and its completion: \<open>uring_data\<close> and \<open>uring_awaiter\<close> of \<^verbatim>\<open>samples/io_service.h\<close> and
  \<open>handle_completion\<close> of \<^verbatim>\<open>samples/io_service.cc\<close>. The coroutine and the thread of the completion queue meet at
  two atomic flags: whoever sets the first one second resumes the coroutine, and whoever sets the second one second gives
  the request back to its allocator. A use of a request that was given back, a schedule of a null handle and a resumption of a
  coroutine that is not suspended are recorded in \<open>fault\<close>.
\<close>

section \<open>A request and its completion\<close>

text \<open>The coroutine that holds the awaiter of a request.\<close>

datatype waiter_pc =
    W_made
  | W_suspending
  | W_stored
  | W_suspended
  | W_ready
  | W_done int u32
  | W_gone

text \<open>The thread that runs \<open>handle_completion\<close>.\<close>

datatype completer_pc = K_waiting | K_stored | K_notify | K_retire | K_finished

record uring_request =
  M_handle :: bool
  M_result :: int
  M_flags :: u32
  M_handle_ctl :: bool
  M_destroy_ctl :: bool

record request_sys =
  data :: uring_request
  freed :: nat
  waiter :: waiter_pc
  completer :: completer_pc
  scheduled :: nat
  fault :: bool

definition exchange_handle :: "request_sys \<Rightarrow> bool \<times> request_sys" where
  "exchange_handle s = (M_handle_ctl (data s), s\<lparr>data := (data s)\<lparr>M_handle_ctl := True\<rparr>\<rparr>)"

text \<open>The second of the two that set \<open>M_destroy_ctl\<close> destroys the request.\<close>

definition exchange_destroy :: "request_sys \<Rightarrow> request_sys" where
  "exchange_destroy s =
     (let old = M_destroy_ctl (data s); s = s\<lparr>data := (data s)\<lparr>M_destroy_ctl := True\<rparr>\<rparr>
      in if old then s\<lparr>freed := freed s + 1\<rparr> else s)"

fun waiter_uses :: "waiter_pc \<Rightarrow> bool" where
  "waiter_uses W_suspended = False"
| "waiter_uses W_gone = False"
| "waiter_uses _ = True"

text \<open>A coroutine may await, or drop the awaiter without awaiting it, and may await again after it has the result.\<close>

inductive awaiter_step :: "request_sys \<Rightarrow> request_sys \<Rightarrow> bool" where
  await_ready_yes: "waiter s = W_made \<or> waiter s = W_done r f \<Longrightarrow> freed s = 0 \<Longrightarrow> M_handle_ctl (data s) \<Longrightarrow>
    awaiter_step s (s\<lparr>waiter := W_ready\<rparr>)"
| await_ready_no: "waiter s = W_made \<or> waiter s = W_done r f \<Longrightarrow> freed s = 0 \<Longrightarrow> \<not> M_handle_ctl (data s) \<Longrightarrow>
    awaiter_step s (s\<lparr>waiter := W_suspending\<rparr>)"
| await_store: "waiter s = W_suspending \<Longrightarrow> freed s = 0 \<Longrightarrow>
    awaiter_step s (s\<lparr>data := (data s)\<lparr>M_handle := True\<rparr>, waiter := W_stored\<rparr>)"
| await_exchange: "waiter s = W_stored \<Longrightarrow> freed s = 0 \<Longrightarrow> exchange_handle s = (old, s') \<Longrightarrow>
    awaiter_step s (s'\<lparr>waiter := if old then W_ready else W_suspended\<rparr>)"
| await_woken: "waiter s = W_suspended \<Longrightarrow> scheduled s = Suc n \<Longrightarrow>
    awaiter_step s (s\<lparr>scheduled := n, waiter := W_ready\<rparr>)"
| await_resume: "waiter s = W_ready \<Longrightarrow> freed s = 0 \<Longrightarrow>
    awaiter_step s (s\<lparr>waiter := W_done (M_result (data s)) (M_flags (data s))\<rparr>)"
| awaiter_dtor: "waiter s = W_made \<or> waiter s = W_done r f \<Longrightarrow> freed s = 0 \<Longrightarrow>
    awaiter_step s ((exchange_destroy s)\<lparr>waiter := W_gone\<rparr>)"

text \<open>\<open>handle_completion\<close>, with the result and the flags of the completion.\<close>

inductive completion_step :: "request_sys \<Rightarrow> request_sys \<Rightarrow> bool" where
  complete_store: "completer s = K_waiting \<Longrightarrow> freed s = 0 \<Longrightarrow>
    completion_step s (s\<lparr>data := (data s)\<lparr>M_result := r, M_flags := f\<rparr>, completer := K_stored\<rparr>)"
| complete_exchange: "completer s = K_stored \<Longrightarrow> freed s = 0 \<Longrightarrow> exchange_handle s = (old, s') \<Longrightarrow>
    completion_step s (s'\<lparr>completer := if old then K_notify else K_retire\<rparr>)"
| complete_schedule: "completer s = K_notify \<Longrightarrow> freed s = 0 \<Longrightarrow> M_handle (data s) \<Longrightarrow>
    completion_step s (s\<lparr>scheduled := scheduled s + 1, completer := K_retire\<rparr>)"
| complete_destroy: "completer s = K_retire \<Longrightarrow> freed s = 0 \<Longrightarrow>
    completion_step s ((exchange_destroy s)\<lparr>completer := K_finished\<rparr>)"

inductive misuse_step :: "request_sys \<Rightarrow> request_sys \<Rightarrow> bool" where
  schedule_null: "completer s = K_notify \<Longrightarrow> \<not> M_handle (data s) \<Longrightarrow> misuse_step s (s\<lparr>fault := True\<rparr>)"
| use_after_free: "freed s \<noteq> 0 \<Longrightarrow> waiter_uses (waiter s) \<or> completer s \<noteq> K_finished \<Longrightarrow> misuse_step s (s\<lparr>fault := True\<rparr>)"
| resume_twice: "scheduled s \<noteq> 0 \<Longrightarrow> waiter s \<noteq> W_suspended \<Longrightarrow> misuse_step s (s\<lparr>fault := True\<rparr>)"

inductive request_step :: "request_sys \<Rightarrow> request_sys \<Rightarrow> bool" where
  by_awaiter: "awaiter_step s t \<Longrightarrow> request_step s t"
| by_completion: "completion_step s t \<Longrightarrow> request_step s t"
| by_misuse: "misuse_step s t \<Longrightarrow> request_step s t"

definition request_init :: "request_sys \<Rightarrow> bool" where
  "request_init s \<longleftrightarrow> \<not> M_handle_ctl (data s) \<and> \<not> M_destroy_ctl (data s) \<and> \<not> M_handle (data s) \<and> freed s = 0 \<and>
     waiter s = W_made \<and> completer s = K_waiting \<and> scheduled s = 0 \<and> \<not> fault s"

text \<open>The places of the two threads determine the flags.\<close>

fun past_exchange :: "completer_pc \<Rightarrow> bool" where
  "past_exchange K_waiting = False"
| "past_exchange K_stored = False"
| "past_exchange _ = True"

fun places_ok :: "waiter_pc \<Rightarrow> completer_pc \<Rightarrow> uring_request \<Rightarrow> bool" where
  "places_ok W_ready k d = (k = K_retire \<or> k = K_finished)"
| "places_ok (W_done r f) k d = ((k = K_retire \<or> k = K_finished) \<and> r = M_result d \<and> f = M_flags d)"
| "places_ok W_suspended k d = M_handle d"
| "places_ok W_stored k d = (k \<noteq> K_notify \<and> M_handle d)"
| "places_ok w k d = (k \<noteq> K_notify)"

definition request_inv :: "request_sys \<Rightarrow> bool" where
  "request_inv s \<longleftrightarrow> \<not> fault s \<and>
     freed s = of_bool (waiter s = W_gone \<and> completer s = K_finished) \<and>
     M_destroy_ctl (data s) = (waiter s = W_gone \<or> completer s = K_finished) \<and>
     M_handle_ctl (data s) = (past_exchange (completer s) \<or> waiter s = W_suspended) \<and>
     scheduled s = of_bool (waiter s = W_suspended \<and> (completer s = K_retire \<or> completer s = K_finished)) \<and>
     places_ok (waiter s) (completer s) (data s)"

lemma awaiter_step_inv: "awaiter_step s t \<Longrightarrow> request_inv s \<Longrightarrow> request_inv t"
proof (induction rule: awaiter_step.induct)
  case (await_exchange s old s')
  then show ?case by (cases "completer s") (auto simp: request_inv_def exchange_handle_def)
next
  case (await_woken s n)
  then show ?case by (cases "completer s") (auto simp: request_inv_def)
next
  case (awaiter_dtor s r f)
  then show ?case by (cases "completer s") (auto simp: request_inv_def exchange_destroy_def)
next
  case (await_ready_yes s r f)
  then show ?case by (cases "completer s") (auto simp: request_inv_def)
next
  case (await_ready_no s r f)
  then show ?case by (cases "completer s") (auto simp: request_inv_def)
next
  case (await_store s)
  then show ?case by (cases "completer s") (auto simp: request_inv_def)
next
  case (await_resume s)
  then show ?case by (cases "completer s") (auto simp: request_inv_def)
qed

lemma completion_step_inv: "completion_step s t \<Longrightarrow> request_inv s \<Longrightarrow> request_inv t"
proof (induction rule: completion_step.induct)
  case (complete_store s r f)
  then show ?case by (cases "waiter s") (auto simp: request_inv_def)
next
  case (complete_exchange s old s')
  then show ?case by (cases "waiter s") (auto simp: request_inv_def exchange_handle_def)
next
  case (complete_schedule s)
  then show ?case by (cases "waiter s") (auto simp: request_inv_def)
next
  case (complete_destroy s)
  then show ?case by (cases "waiter s") (auto simp: request_inv_def exchange_destroy_def)
qed

lemma misuse_step_inv: "misuse_step s t \<Longrightarrow> request_inv s \<Longrightarrow> request_inv t"
proof (induction rule: misuse_step.induct)
  case (schedule_null s)
  then show ?case by (cases "waiter s") (auto simp: request_inv_def)
next
  case (use_after_free s)
  then show ?case by (cases "waiter s") (auto simp: request_inv_def)
next
  case (resume_twice s)
  then show ?case by (cases "waiter s") (auto simp: request_inv_def)
qed

lemma request_step_inv: "request_step s t \<Longrightarrow> request_inv s \<Longrightarrow> request_inv t"
  by (auto elim: request_step.cases intro: awaiter_step_inv completion_step_inv misuse_step_inv)

lemma request_init_inv: "request_init s \<Longrightarrow> request_inv s"
  by (simp add: request_inv_def request_init_def)

interpretation rq: transition_invariant request_init request_step request_inv
  by unfold_locales (auto intro: request_init_inv request_step_inv)

text \<open>Until both have finished, one of them can take a step.\<close>

lemma request_moves:
  assumes "request_inv s" and "\<not> (waiter s = W_gone \<and> completer s = K_finished)"
  shows "\<exists>t. request_step s t \<and> \<not> fault t"
proof -
  have i: "\<not> fault s" "freed s = 0" using assms by (auto simp: request_inv_def)
  have go: ?thesis if "awaiter_step s t \<or> completion_step s t" "\<not> fault t" for t
    using that by (auto intro: by_awaiter by_completion)
  have d: "\<not> fault (exchange_destroy s)" using i by (simp add: exchange_destroy_def Let_def)
  show ?thesis
  proof (cases "completer s")
    case K_waiting
    from go [OF disjI2 [OF complete_store [OF this i(2), of 0 0]]] i(1) show ?thesis by simp
  next
    case K_stored
    from go [OF disjI2 [OF complete_exchange [OF this i(2) exchange_handle_def]]] i(1) show ?thesis by simp
  next
    case K_notify
    then have "M_handle (data s)" using assms(1) by (cases "waiter s") (auto simp: request_inv_def)
    from go [OF disjI2 [OF complete_schedule [OF K_notify i(2) this]]] i(1) show ?thesis by simp
  next
    case K_retire
    from go [OF disjI2 [OF complete_destroy [OF this i(2)]]] d show ?thesis by simp
  next
    case K_finished
    show ?thesis
    proof (cases "waiter s")
      case W_made
      from go [OF disjI1 [OF awaiter_dtor [of s 0 0]]] this i d show ?thesis by simp
    next
      case W_suspending
      from go [OF disjI1 [OF await_store [OF this i(2)]]] i(1) show ?thesis by simp
    next
      case W_stored
      from go [OF disjI1 [OF await_exchange [OF this i(2) exchange_handle_def]]] i(1) show ?thesis by simp
    next
      case W_suspended
      then have "scheduled s = Suc 0" using assms(1) K_finished by (simp add: request_inv_def)
      from go [OF disjI1 [OF await_woken [OF W_suspended this]]] i(1) show ?thesis by simp
    next
      case W_ready
      from go [OF disjI1 [OF await_resume [OF this i(2)]]] i(1) show ?thesis by simp
    next
      case (W_done r f)
      from go [OF disjI1 [OF awaiter_dtor [of s r f]]] this i d show ?thesis by simp
    next
      case W_gone
      with K_finished assms(2) show ?thesis by simp
    qed
  qed
qed

section \<open>Properties\<close>

text \<open>
  C13. A request and its completion, under every interleaving of the coroutine that awaits it, or drops it, and the thread that
  completes it: no freed request is used, and it is freed exactly once, when both are through with it; a coroutine that
  suspended is scheduled exactly once, and the result it sees is the one of the completion. Until both are through, one
  of them can go on.
\<close>

theorem request_completed_once:
  assumes "reachable request_init request_step s"
  shows "\<not> fault s \<and> freed s = of_bool (waiter s = W_gone \<and> completer s = K_finished) \<and>
    scheduled s = of_bool (waiter s = W_suspended \<and> (completer s = K_retire \<or> completer s = K_finished)) \<and>
    (\<forall>r f. waiter s = W_done r f \<longrightarrow> completer s \<in> {K_retire, K_finished} \<and> r = M_result (data s) \<and> f = M_flags (data s)) \<and>
    (waiter s = W_gone \<and> completer s = K_finished \<or> (\<exists>t. request_step s t \<and> \<not> fault t))"
proof -
  have inv: "request_inv s" using assms by (rule rq.reachable_inv)
  then show ?thesis using request_moves [OF inv] unfolding request_inv_def by auto
qed

theorem request_completed_once_witness:
  "\<exists>s. reachable request_init request_step s \<and> waiter s = W_suspended \<and> completer s = K_retire \<and> scheduled s = 1 \<and> \<not> fault s"
proof -
  define d :: uring_request where "d = \<lparr>M_handle = False, M_result = 0, M_flags = 0, M_handle_ctl = False, M_destroy_ctl = False\<rparr>"
  define s0 where "s0 = \<lparr>data = d, freed = 0, waiter = W_made, completer = K_waiting, scheduled = 0, fault = False\<rparr>"
  define s1 where "s1 = s0\<lparr>waiter := W_suspending\<rparr>"
  define s2 where "s2 = s1\<lparr>data := d\<lparr>M_handle := True\<rparr>, waiter := W_stored\<rparr>"
  define s3 where "s3 = s2\<lparr>data := d\<lparr>M_handle := True, M_handle_ctl := True\<rparr>, waiter := W_suspended\<rparr>"
  define s4 where "s4 = s3\<lparr>data := d\<lparr>M_handle := True, M_handle_ctl := True, M_result := 7, M_flags := 0\<rparr>, completer := K_stored\<rparr>"
  define s5 where "s5 = s4\<lparr>completer := K_notify\<rparr>"
  define s6 where "s6 = s5\<lparr>scheduled := 1, completer := K_retire\<rparr>"
  note defs = s0_def s1_def s2_def s3_def s4_def s5_def s6_def d_def
  have r0: "reachable request_init request_step s0" by (rule reachable_init) (simp add: request_init_def defs)
  have "request_step s0 s1" using by_awaiter [OF await_ready_no [of s0 0 0]] by (simp add: defs)
  note r1 = reachable_step [OF r0 this]
  have "request_step s1 s2" using by_awaiter [OF await_store [of s1]] by (simp add: defs)
  note r2 = reachable_step [OF r1 this]
  have "request_step s2 s3" using by_awaiter [OF await_exchange [OF _ _ exchange_handle_def, of s2]] by (simp add: defs)
  note r3 = reachable_step [OF r2 this]
  have "request_step s3 s4" using by_completion [OF complete_store [of s3 0 7]] by (simp add: defs)
  note r4 = reachable_step [OF r3 this]
  have "request_step s4 s5" using by_completion [OF complete_exchange [OF _ _ exchange_handle_def, of s4]] by (simp add: defs)
  note r5 = reachable_step [OF r4 this]
  have "request_step s5 s6" using by_completion [OF complete_schedule [of s5]] by (simp add: defs)
  note r6 = reachable_step [OF r5 this]
  have "waiter s6 = W_suspended" "completer s6 = K_retire" by (simp_all add: defs)
  with request_completed_once [OF r6] r6 show ?thesis by auto
qed

end
