(* ===== verification/Async_Coroutines.thy ===== *)
theory Async_Coroutines
  imports Godby_Prelude
begin

text \<open>
  The asynchronous coroutines of \<^verbatim>\<open>samples/io_service.h\<close>: the end of an \<open>async\<close> coroutine, the coroutine that awaits it or
  its cancellation, and the \<open>async\<close> object, which owns the frame together with the coroutine itself. The coroutine is created suspended and runs once it was
  scheduled. The flags decide who resumes the waiting coroutine and who destroys the frame. A use of a destroyed
  frame, and the resumption of a null handle, are recorded in \<open>fault\<close>.
\<close>

section \<open>The promise\<close>

text \<open>The handles of the waiting coroutines are modelled by whether they have been stored.\<close>

record 'a promise =
  M_value :: "'a option"
  M_continuation :: bool
  M_handle_ctl :: bool
  M_destroy_ctl :: bool
  M_cancel_continuation :: bool
  M_cancel_handle_ctl :: bool

text \<open>
  Where the coroutine is: suspended at its start (\<open>initial_suspend\<close>), with no scheduler; running; or in \<open>async_final_suspend\<close>. The argument is what the exchange before it returned, and from \<open>F_destroy\<close> on
  whether the continuation is to be resumed on this thread at the end.
\<close>

datatype finisher_pc =
    F_created
  | F_running
  | F_cancel
  | F_cancel_notify bool
  | F_handle
  | F_notify bool
  | F_destroy bool
  | F_return bool
  | F_end

text \<open>
  A coroutine that awaits the value, or the cancellation: it has no awaiter, has made one, has stored its handle, has suspended, or
  goes on. The value it has read is kept.
\<close>

datatype 'a awaiter_pc = A_none | A_idle | A_suspending | A_stored | A_suspended | A_ready | A_value "'a option"

text \<open>
  \<open>same_scheduler\<close> says whether the waiting coroutine runs on the scheduler of the one it waits for. \<open>tail\<close>: the thread on which the
  awaiting coroutine suspended still has to read the scheduler from the promise, in order to run another coroutine.
  \<open>woken\<close> counts the resumptions that the awaiting coroutine was given and has not used. \<open>returned\<close> is what the coroutine returned. \<open>early\<close> records
  that \<open>cancel\<close> was called on a coroutine that was not scheduled. There is one awaiter of each kind.
\<close>

record 'a async_sys =
  prom :: "'a promise"
  same_scheduler :: bool
  frames_freed :: nat
  finisher :: finisher_pc
  awaiter :: "'a awaiter_pc"
  tail :: bool
  woken :: nat
  canceller :: "unit awaiter_pc"
  cancel_tail :: bool
  cancel_woken :: nat
  owner :: bool
  returned :: "'a option"
  early :: bool
  fault :: bool

definition alive :: "'a async_sys \<Rightarrow> bool" where
  "alive s \<longleftrightarrow> frames_freed s = 0"

text \<open>\<open>if (M_destroy_ctl.exchange(true)) handle.destroy()\<close>.\<close>

definition destroy_frame :: "'a async_sys \<Rightarrow> 'a async_sys" where
  "destroy_frame s =
     (let old = M_destroy_ctl (prom s); s = s\<lparr>prom := (prom s)\<lparr>M_destroy_ctl := True\<rparr>\<rparr>
      in if old then s\<lparr>frames_freed := frames_freed s + 1\<rparr> else s)"

text \<open>
  \<open>return_value\<close>, \<open>unhandled_exception\<close>, which does nothing, and \<open>async_final_suspend\<close>.
\<close>

inductive finisher_step :: "'a async_sys \<Rightarrow> 'a async_sys \<Rightarrow> bool" where
  return_value: "finisher s = F_running \<Longrightarrow> alive s \<Longrightarrow>
    finisher_step s (s\<lparr>prom := (prom s)\<lparr>M_value := Some v\<rparr>, returned := Some v, finisher := F_cancel\<rparr>)"
| unhandled_exception: "finisher s = F_running \<Longrightarrow> alive s \<Longrightarrow> finisher_step s (s\<lparr>finisher := F_cancel\<rparr>)"
| final_cancel: "finisher s = F_cancel \<Longrightarrow> alive s \<Longrightarrow>
    finisher_step s (s\<lparr>prom := (prom s)\<lparr>M_cancel_handle_ctl := True\<rparr>,
      finisher := F_cancel_notify (M_cancel_handle_ctl (prom s))\<rparr>)"
| final_cancel_notify: "finisher s = F_cancel_notify w \<Longrightarrow> alive s \<Longrightarrow> w \<longrightarrow> M_cancel_continuation (prom s) \<Longrightarrow>
    finisher_step s (s\<lparr>finisher := F_handle, cancel_woken := if w then cancel_woken s + 1 else cancel_woken s\<rparr>)"
| final_handle: "finisher s = F_handle \<Longrightarrow> alive s \<Longrightarrow>
    finisher_step s (s\<lparr>prom := (prom s)\<lparr>M_handle_ctl := True\<rparr>, finisher := F_notify (M_handle_ctl (prom s))\<rparr>)"
| final_notify: "finisher s = F_notify w \<Longrightarrow> alive s \<Longrightarrow> w \<longrightarrow> M_continuation (prom s) \<Longrightarrow>
    finisher_step s (s\<lparr>finisher := F_destroy (w \<and> same_scheduler s),
      woken := if w \<and> \<not> same_scheduler s then woken s + 1 else woken s\<rparr>)"
| final_destroy: "finisher s = F_destroy r \<Longrightarrow> alive s \<Longrightarrow>
    finisher_step s ((destroy_frame s)\<lparr>finisher := F_return r\<rparr>)"
| final_return: "finisher s = F_return r \<Longrightarrow>
    finisher_step s (s\<lparr>finisher := F_end, woken := if r then woken s + 1 else woken s\<rparr>)"

text \<open>
  \<open>async_awaiter\<close>, made by \<open>schedule_on\<close> of the object or, after \<open>await_transform\<close> has called \<open>via\<close>, by \<open>operator co_await\<close>; both schedule the
  coroutine if it was not, so that it has a scheduler. \<open>await_tail\<close> is the read of \<open>M_scheduler\<close> after the exchange.
\<close>

inductive async_awaiter_step :: "'a async_sys \<Rightarrow> 'a async_sys \<Rightarrow> bool" where
  await_begin: "awaiter s = A_none \<Longrightarrow> owner s \<Longrightarrow> finisher s \<noteq> F_created \<Longrightarrow> async_awaiter_step s (s\<lparr>awaiter := A_idle\<rparr>)"
| await_ready_yes: "awaiter s = A_idle \<Longrightarrow> alive s \<Longrightarrow> M_handle_ctl (prom s) \<Longrightarrow>
    async_awaiter_step s (s\<lparr>awaiter := A_ready\<rparr>)"
| await_ready_no: "awaiter s = A_idle \<Longrightarrow> alive s \<Longrightarrow> \<not> M_handle_ctl (prom s) \<Longrightarrow>
    async_awaiter_step s (s\<lparr>awaiter := A_suspending\<rparr>)"
| await_store: "awaiter s = A_suspending \<Longrightarrow> alive s \<Longrightarrow>
    async_awaiter_step s (s\<lparr>prom := (prom s)\<lparr>M_continuation := True\<rparr>, awaiter := A_stored\<rparr>)"
| await_exchange: "awaiter s = A_stored \<Longrightarrow> alive s \<Longrightarrow>
    async_awaiter_step s (s\<lparr>prom := (prom s)\<lparr>M_handle_ctl := True\<rparr>,
      awaiter := if M_handle_ctl (prom s) then A_ready else A_suspended, tail := \<not> M_handle_ctl (prom s)\<rparr>)"
| await_tail: "tail s \<Longrightarrow> alive s \<Longrightarrow> async_awaiter_step s (s\<lparr>tail := False\<rparr>)"
| await_woken: "awaiter s = A_suspended \<Longrightarrow> woken s = Suc n \<Longrightarrow>
    async_awaiter_step s (s\<lparr>awaiter := A_ready, woken := n\<rparr>)"
| await_resume: "awaiter s = A_ready \<Longrightarrow> alive s \<Longrightarrow>
    async_awaiter_step s (s\<lparr>awaiter := A_value (M_value (prom s))\<rparr>)"

text \<open>\<open>cancel_awaiter\<close>, made by \<open>cancel\<close> of the object, which does not schedule the coroutine.\<close>

inductive cancel_awaiter_step :: "'a async_sys \<Rightarrow> 'a async_sys \<Rightarrow> bool" where
  cancel_begin: "canceller s = A_none \<Longrightarrow> owner s \<Longrightarrow> cancel_awaiter_step s (s\<lparr>canceller := A_idle, early := early s \<or> finisher s = F_created\<rparr>)"
| cancel_ready_yes: "canceller s = A_idle \<Longrightarrow> alive s \<Longrightarrow> M_cancel_handle_ctl (prom s) \<Longrightarrow>
    cancel_awaiter_step s (s\<lparr>canceller := A_value None\<rparr>)"
| cancel_ready_no: "canceller s = A_idle \<Longrightarrow> alive s \<Longrightarrow> \<not> M_cancel_handle_ctl (prom s) \<Longrightarrow>
    cancel_awaiter_step s (s\<lparr>canceller := A_suspending\<rparr>)"
| cancel_store: "canceller s = A_suspending \<Longrightarrow> alive s \<Longrightarrow>
    cancel_awaiter_step s (s\<lparr>prom := (prom s)\<lparr>M_cancel_continuation := True\<rparr>, canceller := A_stored\<rparr>)"
| cancel_exchange: "canceller s = A_stored \<Longrightarrow> alive s \<Longrightarrow>
    cancel_awaiter_step s (s\<lparr>prom := (prom s)\<lparr>M_cancel_handle_ctl := True\<rparr>,
      canceller := if M_cancel_handle_ctl (prom s) then A_value None else A_suspended,
      cancel_tail := \<not> M_cancel_handle_ctl (prom s)\<rparr>)"
| cancel_next: "cancel_tail s \<Longrightarrow> alive s \<Longrightarrow> finisher s \<noteq> F_created \<Longrightarrow> cancel_awaiter_step s (s\<lparr>cancel_tail := False\<rparr>)"
| cancel_woken: "canceller s = A_suspended \<Longrightarrow> cancel_woken s = Suc n \<Longrightarrow>
    cancel_awaiter_step s (s\<lparr>canceller := A_value None, cancel_woken := n\<rparr>)"

text \<open>Who will use the promise in the next step.\<close>

fun awaiter_uses :: "'a awaiter_pc \<Rightarrow> bool" where
  "awaiter_uses A_none = False"
| "awaiter_uses A_suspended = False"
| "awaiter_uses (A_value v) = False"
| "awaiter_uses _ = True"

fun finisher_uses :: "finisher_pc \<Rightarrow> bool" where
  "finisher_uses F_created = False"
| "finisher_uses (F_return r) = False"
| "finisher_uses F_end = False"
| "finisher_uses _ = True"

inductive async_misuse :: "'a async_sys \<Rightarrow> 'a async_sys \<Rightarrow> bool" where
  use_after_free: "\<not> alive s \<Longrightarrow>
    finisher_uses (finisher s) \<or> awaiter_uses (awaiter s) \<or> awaiter_uses (canceller s) \<or> tail s \<or> cancel_tail s \<or> owner s \<Longrightarrow>
    async_misuse s (s\<lparr>fault := True\<rparr>)"
| resume_null: "finisher s = F_notify True \<and> \<not> M_continuation (prom s) \<or>
    finisher s = F_cancel_notify True \<and> \<not> M_cancel_continuation (prom s) \<Longrightarrow>
    async_misuse s (s\<lparr>fault := True\<rparr>)"
| no_scheduler: "finisher s = F_created \<Longrightarrow> tail s \<or> cancel_tail s \<Longrightarrow> async_misuse s (s\<lparr>fault := True\<rparr>)"

text \<open>
  The calls of the \<open>async\<close> object: the first \<open>schedule_on\<close> or \<open>via\<close>, and the destructor. \<open>D\<close> says when the destructor may run. The awaiters are made from the object and are used while it
  lives, when it is destroyed only as they are through: this is \<open>unused\<close>. \<open>quiet\<close> also asks that the threads on which they
  suspended have gone on to another coroutine.
\<close>

inductive async_step :: "('a async_sys \<Rightarrow> bool) \<Rightarrow> 'a async_sys \<Rightarrow> 'a async_sys \<Rightarrow> bool" for D where
  async_schedule: "owner s \<Longrightarrow> alive s \<Longrightarrow> finisher s = F_created \<Longrightarrow> async_step D s (s\<lparr>finisher := F_running\<rparr>)"
| by_finisher: "finisher_step s t \<Longrightarrow> async_step D s t"
| by_awaiter: "async_awaiter_step s t \<Longrightarrow> async_step D s t"
| by_canceller: "cancel_awaiter_step s t \<Longrightarrow> async_step D s t"
| async_dtor: "owner s \<Longrightarrow> D s \<Longrightarrow> alive s \<Longrightarrow> async_step D s ((destroy_frame s)\<lparr>owner := False\<rparr>)"
| by_misuse: "async_misuse s t \<Longrightarrow> async_step D s t"

fun through :: "'a awaiter_pc \<Rightarrow> bool" where
  "through A_none = True"
| "through (A_value v) = True"
| "through _ = False"

definition unused :: "'a async_sys \<Rightarrow> bool" where
  "unused s \<longleftrightarrow> through (awaiter s) \<and> through (canceller s)"

definition quiet :: "'a async_sys \<Rightarrow> bool" where
  "quiet s \<longleftrightarrow> unused s \<and> \<not> tail s \<and> \<not> cancel_tail s"

definition async_init :: "'a async_sys \<Rightarrow> bool" where
  "async_init s \<longleftrightarrow> prom s = \<lparr>M_value = None, M_continuation = False, M_handle_ctl = False, M_destroy_ctl = False,
       M_cancel_continuation = False, M_cancel_handle_ctl = False\<rparr> \<and>
     frames_freed s = 0 \<and> finisher s = F_created \<and> awaiter s = A_none \<and> \<not> tail s \<and> woken s = 0 \<and>
     canceller s = A_none \<and> \<not> cancel_tail s \<and> cancel_woken s = 0 \<and> owner s \<and> returned s = None \<and> \<not> early s \<and> \<not> fault s"

section \<open>The invariant\<close>

fun handle_done :: "finisher_pc \<Rightarrow> bool" where
  "handle_done (F_notify w) = True"
| "handle_done (F_destroy w) = True"
| "handle_done (F_return w) = True"
| "handle_done F_end = True"
| "handle_done _ = False"

fun cancel_done :: "finisher_pc \<Rightarrow> bool" where
  "cancel_done F_created = False"
| "cancel_done F_running = False"
| "cancel_done F_cancel = False"
| "cancel_done _ = True"

fun destroy_done :: "finisher_pc \<Rightarrow> bool" where
  "destroy_done (F_return w) = True"
| "destroy_done F_end = True"
| "destroy_done _ = False"

text \<open>The resumptions that the finishing coroutine still has to give.\<close>

fun pending :: "finisher_pc \<Rightarrow> nat" where
  "pending (F_notify w) = of_bool w"
| "pending (F_destroy w) = of_bool w"
| "pending (F_return w) = of_bool w"
| "pending _ = 0"

fun cancel_pending :: "finisher_pc \<Rightarrow> nat" where
  "cancel_pending (F_cancel_notify w) = of_bool w"
| "cancel_pending _ = 0"

fun awaiter_place :: "'a awaiter_pc \<Rightarrow> bool \<Rightarrow> bool \<Rightarrow> 'a option \<Rightarrow> bool" where
  "awaiter_place A_stored d c v = c"
| "awaiter_place A_suspended d c v = c"
| "awaiter_place A_ready d c v = d"
| "awaiter_place (A_value u) d c v = (d \<and> u = v)"
| "awaiter_place _ d c v = True"

definition async_inv :: "'a async_sys \<Rightarrow> bool" where
  "async_inv s \<longleftrightarrow> \<not> fault s \<and>
     frames_freed s = of_bool (\<not> owner s \<and> destroy_done (finisher s)) \<and>
     M_destroy_ctl (prom s) = (\<not> owner s \<or> destroy_done (finisher s)) \<and>
     M_handle_ctl (prom s) = (handle_done (finisher s) \<or> awaiter s = A_suspended) \<and>
     M_cancel_handle_ctl (prom s) = (cancel_done (finisher s) \<or> canceller s = A_suspended) \<and>
     woken s + pending (finisher s) = of_bool (awaiter s = A_suspended \<and> handle_done (finisher s)) \<and>
     cancel_woken s + cancel_pending (finisher s) = of_bool (canceller s = A_suspended \<and> cancel_done (finisher s)) \<and>
     awaiter_place (awaiter s) (handle_done (finisher s)) (M_continuation (prom s)) (returned s) \<and>
     awaiter_place (canceller s) (cancel_done (finisher s)) (M_cancel_continuation (prom s)) None \<and>
     canceller s \<noteq> A_ready \<and> M_value (prom s) = returned s \<and> (owner s \<or> quiet s) \<and>
     (finisher s = F_created \<longrightarrow> awaiter s = A_none \<and> canceller s = A_none \<and> \<not> tail s \<and> \<not> cancel_tail s)"

definition async_safe :: "'a async_sys \<Rightarrow> bool" where
  "async_safe s \<longleftrightarrow> early s \<or> async_inv s"

lemma async_inv_alive: "async_inv s \<Longrightarrow> alive s \<longleftrightarrow> owner s \<or> \<not> destroy_done (finisher s)"
  by (simp add: async_inv_def alive_def)

lemma finisher_step_inv: "finisher_step s t \<Longrightarrow> async_inv s \<Longrightarrow> async_inv t"
proof (induction rule: finisher_step.induct)
  case (return_value s v)
  then show ?case by (cases "awaiter s"; cases "canceller s") (auto simp: async_inv_def quiet_def unused_def)
next
  case (unhandled_exception s)
  then show ?case by (cases "awaiter s"; cases "canceller s") (auto simp: async_inv_def quiet_def unused_def)
next
  case (final_cancel s)
  then show ?case by (cases "canceller s") (auto simp: async_inv_def quiet_def unused_def)
next
  case (final_cancel_notify s w)
  then show ?case by (cases "canceller s") (auto simp: async_inv_def quiet_def unused_def)
next
  case (final_handle s)
  then show ?case by (cases "awaiter s") (auto simp: async_inv_def quiet_def unused_def)
next
  case (final_notify s w)
  then show ?case by (cases "awaiter s") (auto simp: async_inv_def quiet_def unused_def)
next
  case (final_destroy s r)
  then show ?case by (auto simp: async_inv_def quiet_def unused_def destroy_frame_def Let_def)
next
  case (final_return s r)
  then show ?case by (auto simp: async_inv_def quiet_def unused_def)
qed

lemma async_awaiter_step_inv: "async_awaiter_step s t \<Longrightarrow> async_inv s \<Longrightarrow> async_inv t"
proof (induction rule: async_awaiter_step.induct)
  case (await_exchange s)
  then show ?case by (cases "handle_done (finisher s)") (auto simp: async_inv_def quiet_def unused_def)
next
  case (await_woken s n)
  then show ?case by (cases "finisher s") (auto simp: async_inv_def quiet_def unused_def)
qed (auto simp: async_inv_def quiet_def unused_def)

lemma cancel_awaiter_step_inv: "cancel_awaiter_step s t \<Longrightarrow> async_inv s \<Longrightarrow> early t \<or> async_inv t"
proof (induction rule: cancel_awaiter_step.induct)
  case (cancel_exchange s)
  then show ?case by (cases "cancel_done (finisher s)") (auto simp: async_inv_def quiet_def unused_def)
next
  case (cancel_woken s n)
  then show ?case by (cases "finisher s") (auto simp: async_inv_def quiet_def unused_def)
qed (auto simp: async_inv_def quiet_def unused_def)

lemma through_not_uses: "through p \<Longrightarrow> \<not> awaiter_uses p"
  by (cases p) simp_all

lemma finisher_uses_not: "destroy_done f \<Longrightarrow> \<not> finisher_uses f"
  by (cases f) simp_all

lemma async_no_misuse: "async_misuse s t \<Longrightarrow> \<not> async_inv s"
proof (induction rule: async_misuse.induct)
  case (use_after_free s)
  show ?case
  proof
    assume inv: "async_inv s"
    then have "\<not> owner s" "destroy_done (finisher s)" using use_after_free(1) by (auto simp: async_inv_alive)
    moreover from this inv have "quiet s" by (simp add: async_inv_def)
    ultimately show False using use_after_free(2) by (auto simp: quiet_def unused_def through_not_uses finisher_uses_not)
  qed
next
  case (resume_null s)
  then show ?case by (auto simp: async_inv_def)
next
  case (no_scheduler s)
  then show ?case by (auto simp: async_inv_def)
qed

lemma async_dtor_inv: "owner s \<Longrightarrow> quiet s \<Longrightarrow> async_inv s \<Longrightarrow> async_inv ((destroy_frame s)\<lparr>owner := False\<rparr>)"
  by (auto simp: async_inv_def quiet_def unused_def destroy_frame_def Let_def)

lemma async_schedule_inv: "finisher s = F_created \<Longrightarrow> async_inv s \<Longrightarrow> async_inv (s\<lparr>finisher := F_running\<rparr>)"
  by (auto simp: async_inv_def quiet_def unused_def)

lemma async_step_inv: "async_step quiet s t \<Longrightarrow> async_inv s \<Longrightarrow> early t \<or> async_inv t"
  by (auto elim!: async_step.cases intro: finisher_step_inv async_awaiter_step_inv async_dtor_inv async_schedule_inv
      dest: async_no_misuse cancel_awaiter_step_inv)

lemma early_destroy [simp]: "early (destroy_frame s) = early s"
  by (simp add: destroy_frame_def Let_def)

lemma early_step: "async_step D s t \<Longrightarrow> early s \<Longrightarrow> early t"
  by (auto elim!: async_step.cases finisher_step.cases async_awaiter_step.cases cancel_awaiter_step.cases async_misuse.cases)

lemma async_init_safe: "async_init s \<Longrightarrow> async_safe s"
  by (simp add: async_safe_def async_inv_def async_init_def)

lemma async_step_safe: "async_step quiet s t \<Longrightarrow> async_safe s \<Longrightarrow> async_safe t"
  unfolding async_safe_def using async_step_inv early_step by blast

interpretation ac: transition_invariant async_init "async_step quiet" async_safe
  by unfold_locales (auto intro: async_init_safe async_step_safe)

section \<open>Progress\<close>

lemma finisher_moves:
  assumes "async_inv s" and "finisher s \<noteq> F_end" and "finisher s \<noteq> F_created"
  shows "\<exists>t. finisher_step s t"
proof -
  have live: "alive s" if "\<not> destroy_done (finisher s)" using assms(1) that by (simp add: async_inv_alive)
  show ?thesis
  proof (cases "finisher s")
    case (F_cancel_notify w)
    then have "w \<longrightarrow> M_cancel_continuation (prom s)" using assms(1) by (cases "canceller s") (auto simp: async_inv_def)
    with F_cancel_notify live show ?thesis by (intro exI) (rule final_cancel_notify, simp_all)
  next
    case (F_notify w)
    then have "w \<longrightarrow> M_continuation (prom s)" using assms(1) by (cases "awaiter s") (auto simp: async_inv_def)
    with F_notify live show ?thesis by (intro exI) (rule final_notify, simp_all)
  qed (use assms(2,3) live in \<open>auto intro: finisher_step.intros\<close>)
qed

lemma async_awaiter_moves:
  assumes "async_inv s" and "finisher s = F_end" and "owner s" and "\<not> through (awaiter s) \<or> tail s"
  shows "\<exists>t. async_awaiter_step s t"
proof -
  have live: "alive s" using assms by (simp add: async_inv_alive)
  show ?thesis
  proof (cases "tail s")
    case True
    then show ?thesis using await_tail live by blast
  next
    case False
    have w: "awaiter s = A_suspended \<Longrightarrow> woken s = Suc 0" using assms by (simp add: async_inv_def)
    show ?thesis using False assms live w
      by (cases "awaiter s"; cases "M_handle_ctl (prom s)") (auto intro: async_awaiter_step.intros)
  qed
qed

lemma cancel_awaiter_moves:
  assumes "async_inv s" and "finisher s = F_end" and "owner s" and "\<not> through (canceller s) \<or> cancel_tail s"
  shows "\<exists>t. cancel_awaiter_step s t"
proof -
  have live: "alive s" using assms by (simp add: async_inv_alive)
  show ?thesis
  proof (cases "cancel_tail s")
    case True
    then show ?thesis using cancel_next [OF True live] assms(2) by auto
  next
    case False
    have w: "canceller s = A_suspended \<Longrightarrow> cancel_woken s = Suc 0" using assms by (simp add: async_inv_def)
    have r: "canceller s \<noteq> A_ready" using assms(1) by (simp add: async_inv_def)
    show ?thesis using False assms(3,4) live w r
      by (cases "canceller s"; cases "M_cancel_handle_ctl (prom s)") (auto intro: cancel_awaiter_step.intros)
  qed
qed

lemma no_early_step:
  assumes "async_step D s t" and "\<not> early s" and "finisher s \<noteq> F_created \<or> canceller s \<noteq> A_none \<or> canceller t = A_none"
  shows "\<not> early t"
  using assms by (auto elim!: async_step.cases finisher_step.cases async_awaiter_step.cases cancel_awaiter_step.cases async_misuse.cases)

lemma async_moves:
  assumes "async_inv s" and "\<not> early s"
  shows "(finisher s = F_end \<or> finisher s = F_created) \<and> \<not> owner s \<or> (\<exists>t. async_step quiet s t \<and> \<not> early t \<and> \<not> fault t)"
proof -
  have go: ?thesis if "async_step quiet s t" "finisher s \<noteq> F_created \<or> canceller s \<noteq> A_none \<or> canceller t = A_none" for t
  proof -
    have "\<not> early t" using no_early_step [OF that(1) assms(2) that(2)] .
    moreover from this have "async_inv t" using async_step_inv [OF that(1) assms(1)] by blast
    then have "\<not> fault t" by (simp add: async_inv_def)
    ultimately show ?thesis using that(1) by blast
  qed
  consider (created) "finisher s = F_created" "owner s" | (left) "finisher s = F_created \<or> finisher s = F_end" "\<not> owner s"
    | (ended) "finisher s = F_end" "owner s" | (run) "finisher s \<noteq> F_created" "finisher s \<noteq> F_end" by blast
  then show ?thesis
  proof cases
    case created
    then have "alive s" "canceller s = A_none" using assms(1) by (auto simp: async_inv_alive async_inv_def)
    with created show ?thesis by (intro go [OF async_schedule]) simp_all
  next
    case ended
    then have live: "alive s" using assms(1) by (simp add: async_inv_alive)
    consider "\<not> through (awaiter s) \<or> tail s" | "\<not> through (canceller s) \<or> cancel_tail s" | "quiet s"
      by (auto simp: quiet_def unused_def)
    then show ?thesis
    proof cases
      case 1
      then show ?thesis using ended async_awaiter_moves [OF assms(1)] go by (auto dest!: by_awaiter)
    next
      case 2
      then show ?thesis using ended cancel_awaiter_moves [OF assms(1)] go by (auto dest!: by_canceller)
    next
      case 3
      then show ?thesis using ended live go async_dtor by fastforce
    qed
  next
    case run
    then show ?thesis using finisher_moves [OF assms(1)] go by (auto dest!: by_finisher)
  qed blast
qed

section \<open>Concrete runs\<close>

definition new_async :: "bool \<Rightarrow> 'a async_sys" where
  "new_async same = \<lparr>prom = \<lparr>M_value = None, M_continuation = False, M_handle_ctl = False, M_destroy_ctl = False,
       M_cancel_continuation = False, M_cancel_handle_ctl = False\<rparr>,
     same_scheduler = same, frames_freed = 0, finisher = F_created, awaiter = A_none, tail = False, woken = 0,
     canceller = A_none, cancel_tail = False, cancel_woken = 0, owner = True, returned = None, early = False, fault = False\<rparr>"

lemma new_async_init: "async_init (new_async same)"
  by (simp add: new_async_def async_init_def)

text \<open>The steps as functions: a step that is not possible changes nothing.\<close>

fun finisher_do :: "'a \<Rightarrow> 'a async_sys \<Rightarrow> 'a async_sys" where
  "finisher_do v s = (case finisher s of
      F_running \<Rightarrow> if alive s then s\<lparr>prom := (prom s)\<lparr>M_value := Some v\<rparr>, returned := Some v, finisher := F_cancel\<rparr> else s
    | F_cancel \<Rightarrow> if alive s then s\<lparr>prom := (prom s)\<lparr>M_cancel_handle_ctl := True\<rparr>, finisher := F_cancel_notify (M_cancel_handle_ctl (prom s))\<rparr> else s
    | F_cancel_notify w \<Rightarrow> if alive s \<and> (w \<longrightarrow> M_cancel_continuation (prom s))
        then s\<lparr>finisher := F_handle, cancel_woken := if w then cancel_woken s + 1 else cancel_woken s\<rparr> else s
    | F_handle \<Rightarrow> if alive s then s\<lparr>prom := (prom s)\<lparr>M_handle_ctl := True\<rparr>, finisher := F_notify (M_handle_ctl (prom s))\<rparr> else s
    | F_notify w \<Rightarrow> if alive s \<and> (w \<longrightarrow> M_continuation (prom s))
        then s\<lparr>finisher := F_destroy (w \<and> same_scheduler s), woken := if w \<and> \<not> same_scheduler s then woken s + 1 else woken s\<rparr> else s
    | F_destroy r \<Rightarrow> if alive s then (destroy_frame s)\<lparr>finisher := F_return r\<rparr> else s
    | F_return r \<Rightarrow> s\<lparr>finisher := F_end, woken := if r then woken s + 1 else woken s\<rparr>
    | _ \<Rightarrow> s)"

fun awaiter_do :: "'a async_sys \<Rightarrow> 'a async_sys" where
  "awaiter_do s = (case awaiter s of
      A_none \<Rightarrow> if owner s \<and> finisher s \<noteq> F_created then s\<lparr>awaiter := A_idle\<rparr> else s
    | A_idle \<Rightarrow> if alive s then s\<lparr>awaiter := if M_handle_ctl (prom s) then A_ready else A_suspending\<rparr> else s
    | A_suspending \<Rightarrow> if alive s then s\<lparr>prom := (prom s)\<lparr>M_continuation := True\<rparr>, awaiter := A_stored\<rparr> else s
    | A_stored \<Rightarrow> if alive s then s\<lparr>prom := (prom s)\<lparr>M_handle_ctl := True\<rparr>,
        awaiter := if M_handle_ctl (prom s) then A_ready else A_suspended, tail := \<not> M_handle_ctl (prom s)\<rparr> else s
    | A_suspended \<Rightarrow> if woken s = 0 then s else s\<lparr>awaiter := A_ready, woken := woken s - 1\<rparr>
    | A_ready \<Rightarrow> if alive s then s\<lparr>awaiter := A_value (M_value (prom s))\<rparr> else s
    | A_value v \<Rightarrow> s)"

fun cancel_do :: "'a async_sys \<Rightarrow> 'a async_sys" where
  "cancel_do s = (case canceller s of
      A_none \<Rightarrow> if owner s then s\<lparr>canceller := A_idle, early := early s \<or> finisher s = F_created\<rparr> else s
    | A_idle \<Rightarrow> if alive s \<and> \<not> M_cancel_handle_ctl (prom s) then s\<lparr>canceller := A_suspending\<rparr> else s
    | A_suspending \<Rightarrow> if alive s then s\<lparr>prom := (prom s)\<lparr>M_cancel_continuation := True\<rparr>, canceller := A_stored\<rparr> else s
    | A_stored \<Rightarrow> if alive s then s\<lparr>prom := (prom s)\<lparr>M_cancel_handle_ctl := True\<rparr>,
        canceller := if M_cancel_handle_ctl (prom s) then A_value None else A_suspended,
        cancel_tail := \<not> M_cancel_handle_ctl (prom s)\<rparr> else s
    | _ \<Rightarrow> s)"

lemma finisher_do_step: "finisher_do v s = s \<or> finisher_step s (finisher_do v s)"
proof (cases "finisher s")
  case F_running
  then show ?thesis using return_value [of s v] by simp
next
  case F_cancel
  then show ?thesis using final_cancel [of s] by simp
next
  case (F_cancel_notify w)
  then show ?thesis using final_cancel_notify [of s w] by simp
next
  case F_handle
  then show ?thesis using final_handle [of s] by simp
next
  case (F_notify w)
  then show ?thesis using final_notify [of s w] by simp
next
  case (F_destroy r)
  then show ?thesis using final_destroy [of s r] by simp
next
  case (F_return r)
  then show ?thesis using final_return [of s r] by simp
qed simp_all

lemma awaiter_do_step: "awaiter_do s = s \<or> async_awaiter_step s (awaiter_do s)"
proof (cases "awaiter s")
  case A_suspended
  then show ?thesis using await_woken [of s "woken s - 1"] by auto
qed (use await_begin [of s] await_ready_yes [of s] await_ready_no [of s] await_store [of s] await_exchange [of s] await_resume [of s] in auto)

lemma cancel_do_step: "cancel_do s = s \<or> cancel_awaiter_step s (cancel_do s)"
proof (cases "canceller s")
  case A_none
  then show ?thesis using cancel_begin [of s] by simp
next
  case A_idle
  then show ?thesis using cancel_ready_no [of s] by simp
next
  case A_suspending
  then show ?thesis using cancel_store [of s] by simp
next
  case A_stored
  then show ?thesis using cancel_exchange [of s] by simp
qed simp_all

datatype 'a async_move = Schedule | Finish 'a | Await | Await_tail | Cancel_store | Destroy | Use

fun async_do :: "('a async_sys \<Rightarrow> bool) \<Rightarrow> 'a async_move \<Rightarrow> 'a async_sys \<Rightarrow> 'a async_sys" where
  "async_do D Schedule s = (if owner s \<and> alive s \<and> finisher s = F_created then s\<lparr>finisher := F_running\<rparr> else s)"
| "async_do D (Finish v) s = finisher_do v s"
| "async_do D Await s = awaiter_do s"
| "async_do D Await_tail s = (if tail s \<and> alive s then s\<lparr>tail := False\<rparr> else s)"
| "async_do D Cancel_store s = cancel_do s"
| "async_do D Destroy s = (if owner s \<and> D s \<and> alive s then (destroy_frame s)\<lparr>owner := False\<rparr> else s)"
| "async_do D Use s = (if \<not> alive s \<and> (awaiter_uses (awaiter s) \<or> tail s) \<or> finisher s = F_created \<and> cancel_tail s
     then s\<lparr>fault := True\<rparr> else s)"

lemma async_do_step: "async_do D m s = s \<or> async_step D s (async_do D m s)"
proof (cases m)
  case (Finish v)
  then show ?thesis using finisher_do_step [of v s] by_finisher [of s "finisher_do v s" D] by (simp del: finisher_do.simps) blast
next
  case Await
  then show ?thesis using awaiter_do_step [of s] by_awaiter [of s "awaiter_do s" D] by (simp del: awaiter_do.simps) blast
next
  case Await_tail
  then show ?thesis using by_awaiter [OF await_tail] by auto
next
  case Cancel_store
  then show ?thesis using cancel_do_step [of s] by_canceller [of s "cancel_do s" D] by (simp del: cancel_do.simps) blast
next
  case Use
  then show ?thesis using by_misuse [OF use_after_free [of s]] by_misuse [OF no_scheduler [of s]] by auto
qed (use async_schedule [of s D] async_dtor [of s D] in auto)

lemma async_run_reachable:
  "reachable async_init (async_step D) (fold (async_do D) ms (new_async same))"
proof -
  have "reachable async_init (async_step D) (fold (async_do D) ms s)" if "reachable async_init (async_step D) s" for s
    using that
  proof (induction ms arbitrary: s)
    case (Cons m ms)
    then show ?case using async_do_step [of D m s] reachable_step [of async_init "async_step D" s] by (auto intro: Cons.IH)
  qed simp
  moreover have "reachable async_init (async_step D) (new_async same)" by (rule reachable_init) (rule new_async_init)
  ultimately show ?thesis by blast
qed

lemmas async_run_defs = new_async_def alive_def destroy_frame_def quiet_def unused_def

section \<open>Properties\<close>

text \<open>
  C15. An \<open>async\<close> coroutine, from its creation on, one coroutine that awaits its end, one that awaits its cancellation, and the object that
  owns it, under every interleaving in which the object outlives the awaiters and the calls that suspended them (\<open>quiet\<close>) and \<open>cancel\<close> is called
  only after the coroutine was scheduled (\<open>\<not> early\<close>): no destroyed frame is used, and the frame is destroyed at most once, exactly when
  the coroutine has come to its end and the object is gone; a coroutine that suspended gets exactly one resumption, and the value it reads
  is the one that was returned. Somebody can go on until the coroutine has ended and the object is gone, unless the object went away without
  having scheduled the coroutine: then its frame is never destroyed.
\<close>

theorem async_frame_destroyed_once:
  assumes "reachable async_init (async_step quiet) s" and "\<not> early s"
  shows "\<not> fault s \<and> frames_freed s = of_bool (\<not> owner s \<and> destroy_done (finisher s)) \<and>
    woken s + pending (finisher s) = of_bool (awaiter s = A_suspended \<and> handle_done (finisher s)) \<and>
    cancel_woken s + cancel_pending (finisher s) = of_bool (canceller s = A_suspended \<and> cancel_done (finisher s)) \<and>
    (\<forall>v. awaiter s = A_value v \<longrightarrow> handle_done (finisher s) \<and> v = returned s) \<and>
    ((finisher s = F_end \<or> finisher s = F_created) \<and> \<not> owner s \<or> (\<exists>t. async_step quiet s t \<and> \<not> early t \<and> \<not> fault t))"
proof -
  have "async_safe s" using assms(1) by (rule ac.reachable_inv)
  then have inv: "async_inv s" using assms(2) by (simp add: async_safe_def)
  have "\<forall>v. awaiter s = A_value v \<longrightarrow> handle_done (finisher s) \<and> v = returned s"
    using inv by (auto simp: async_inv_def)
  with inv async_moves [OF inv assms(2)] show ?thesis by (simp add: async_inv_def)
qed

text \<open>A run to the end, with an awaiter that suspends, is resumed and reads the value.\<close>

theorem async_frame_destroyed_once_witness:
  "\<exists>s :: nat async_sys. reachable async_init (async_step quiet) s \<and> \<not> early s \<and> finisher s = F_end \<and> \<not> owner s \<and>
     awaiter s = A_value (Some 7) \<and> returned s = Some 7 \<and> frames_freed s = 1 \<and> \<not> fault s"
proof -
  define s :: "nat async_sys" where "s = fold (async_do quiet)
    ([Schedule] @ replicate 4 Await @ [Await_tail] @ replicate 6 (Finish 7) @ replicate 2 Await @ [Destroy, Finish 7]) (new_async False)"
  have r: "reachable async_init (async_step quiet) s" unfolding s_def by (rule async_run_reachable)
  have "\<not> early s" "finisher s = F_end" "\<not> owner s" "awaiter s = A_value (Some 7)" "returned s = Some 7"
    by (simp_all add: s_def async_run_defs eval_nat_numeral)
  with async_frame_destroyed_once [OF r] r show ?thesis by auto
qed

text \<open>
  An \<open>async\<close> object that is destroyed before \<open>schedule_on\<close>, \<open>via\<close> or \<open>co_await\<close> leaves its frame behind for ever.
\<close>

theorem unscheduled_async_leaks:
  "\<exists>s :: nat async_sys. reachable async_init (async_step quiet) s \<and> \<not> owner s \<and> frames_freed s = 0 \<and> (\<forall>t. \<not> async_step quiet s t)"
proof -
  define s :: "nat async_sys" where "s = fold (async_do quiet) [Destroy] (new_async False)"
  have r: "reachable async_init (async_step quiet) s" unfolding s_def by (rule async_run_reachable)
  have "\<not> async_step quiet s t" for t
    by (auto simp: s_def async_run_defs elim!: async_step.cases finisher_step.cases async_awaiter_step.cases cancel_awaiter_step.cases
        async_misuse.cases)
  moreover have "\<not> owner s" "frames_freed s = 0" by (simp_all add: s_def async_run_defs)
  ultimately show ?thesis using r by blast
qed

text \<open>
  A coroutine that awaits the cancellation of an \<open>async\<close> that was not scheduled suspends and then uses the null scheduler of the promise.
\<close>

theorem cancel_before_schedule:
  "\<exists>s :: nat async_sys. reachable async_init (async_step quiet) s \<and> early s \<and> owner s \<and> fault s"
proof -
  define s :: "nat async_sys" where "s = fold (async_do quiet) (replicate 4 Cancel_store @ [Use]) (new_async False)"
  have "early s" "owner s" "fault s" by (simp_all add: s_def async_run_defs eval_nat_numeral)
  then show ?thesis using async_run_reachable unfolding s_def by blast
qed

text \<open>
  C38. \<open>async_awaiter::await_suspend\<close> reads \<open>M_promise->M_scheduler\<close> after the exchange that lets the coroutine be resumed elsewhere: when
  it is resumed, reads the value and drops the \<open>async\<close> object before the thread that suspended it reads the scheduler,
  the frame is destroyed and that thread reads it all the same. The awaiters are used here as \<open>co_await\<close> uses them.
\<close>

theorem await_suspend_use_after_free:
  "\<exists>s :: nat async_sys. reachable async_init (async_step unused) s \<and> fault s \<and> tail s \<and> frames_freed s = 1 \<and>
     awaiter s = A_value (Some 7)"
proof -
  define s :: "nat async_sys" where "s = fold (async_do unused)
    ([Schedule] @ replicate 4 Await @ replicate 6 (Finish 7) @ replicate 2 Await @ [Destroy, Use]) (new_async False)"
  have "fault s" "tail s" "frames_freed s = 1" "awaiter s = A_value (Some 7)"
    by (simp_all add: s_def async_run_defs eval_nat_numeral)
  then show ?thesis using async_run_reachable unfolding s_def by blast
qed

text \<open>
  An awaiter that outlives the object it was made from, as in \<open>auto a = f().schedule_on(s); co_await a;\<close>, where the object
  is a temporary: the coroutine destroys its frame at its end, and the awaiter uses it.
\<close>

theorem awaiter_outlives_frame:
  "\<exists>s :: nat async_sys. reachable async_init (async_step (\<lambda>_. True)) s \<and> fault s \<and> frames_freed s = 1 \<and> awaiter s = A_idle"
proof -
  define s :: "nat async_sys" where "s = fold (async_do (\<lambda>_. True)) ([Schedule, Await, Destroy] @ replicate 6 (Finish 7) @ [Use]) (new_async False)"
  have "fault s" "frames_freed s = 1" "awaiter s = A_idle" by (simp_all add: s_def async_run_defs eval_nat_numeral)
  then show ?thesis using async_run_reachable unfolding s_def by blast
qed

end
