(* ===== verification/Coroutine_Scheduler.thy ===== *)
theory Coroutine_Scheduler
  imports Work_Queues
begin

text \<open>
  The coroutine scheduler of \<^verbatim>\<open>samples/io_service.h\<close> and \<^verbatim>\<open>samples/io_service.cc\<close>: a queue of coroutines for each worker
  thread and one, number 0, for all other threads. The first part has the operations of one thread on the queues of
  \<^theory_text>\<open>Work_Queues\<close>; the second part has the workers, which sleep on a flag when they find nothing to do, the threads that
  schedule coroutines, and the destructor, in every interleaving of their accesses to the indices of the queues, to the flag and to the mutex. There
  the relaxed store that clears the flag goes through a store buffer; the other accesses are sequentially consistent.
\<close>

section \<open>Operations of one thread\<close>

datatype thread_status = STATUS_NEW | STATUS_READY | STATUS_RUNNING | STATUS_SUSPENDED

record 'q thread_context =
  M_status :: thread_status
  M_tasks :: 'q

record 'q scheduler =
  M_id :: u32
  M_total_threads :: u32
  M_total_suspended_threads :: u32
  M_total_ready_threads :: u32
  M_total_running_threads :: u32
  M_thread_contexts :: "'q thread_context list"
  M_task_wait_flag :: bool

text \<open>
  The operations of a queue are arguments. Of the thread they take \<open>M_thread_id\<close> and \<open>M_coro_scheduler_id\<close>, which are
  thread-local and shared by all schedulers.
\<close>

text \<open>
  The two loops of \<open>steal_task\<close>: \<open>i\<close> is the queue that is looked at, and \<open>c\<close> says whether one of the queues was not empty.
\<close>

partial_function (option) steal_loop ::
    "('q \<Rightarrow> ('t option \<times> 'q) option) \<Rightarrow> ('q \<Rightarrow> bool) \<Rightarrow> nat \<Rightarrow> nat \<Rightarrow> nat \<Rightarrow> bool \<Rightarrow> 'q list \<Rightarrow> ('t option \<times> 'q list) option" where
  [code]: "steal_loop steal_q empty_q M_thread_id total_threads i c qs =
     (case steal_q (qs ! i) of
        None \<Rightarrow> None
      | Some (Some handle, q) \<Rightarrow> Some (Some handle, qs[i := q])
      | Some (None, q) \<Rightarrow>
          (let c = (c \<or> \<not> empty_q q); i' = (i + 1) mod (total_threads + 1); qs = qs[i := q]
           in if i' \<noteq> M_thread_id then steal_loop steal_q empty_q M_thread_id total_threads i' c qs
              else if c then steal_loop steal_q empty_q M_thread_id total_threads ((M_thread_id + 1) mod (total_threads + 1)) False qs
              else Some (None, qs)))"

definition queues :: "'q scheduler \<Rightarrow> 'q list" where
  "queues s = map M_tasks (M_thread_contexts s)"

definition set_queues :: "'q list \<Rightarrow> 'q scheduler \<Rightarrow> 'q scheduler" where
  "set_queues qs s = s\<lparr>M_thread_contexts := map2 (\<lambda>c q. c\<lparr>M_tasks := q\<rparr>) (M_thread_contexts s) qs\<rparr>"

definition steal_task ::
    "('q \<Rightarrow> ('t option \<times> 'q) option) \<Rightarrow> ('q \<Rightarrow> bool) \<Rightarrow> nat \<Rightarrow> 'q scheduler \<Rightarrow> ('t option \<times> 'q scheduler) option" where
  "steal_task steal_q empty_q M_thread_id s =
     (let total_threads = unat (M_total_threads s) in do {
        (handle, qs) \<leftarrow> steal_loop steal_q empty_q M_thread_id total_threads ((M_thread_id + 1) mod (total_threads + 1)) False (queues s);
        Some (handle, set_queues qs s) })"

text \<open>The first result says whether a sleeping worker is notified.\<close>

definition schedule :: "('t \<Rightarrow> 'q \<Rightarrow> 'q option) \<Rightarrow> nat \<Rightarrow> u32 \<Rightarrow> 't \<Rightarrow> 'q scheduler \<Rightarrow> (bool \<times> 'q scheduler) option" where
  "schedule enqueue_q M_thread_id M_coro_scheduler_id handle s =
     (let i = (if M_thread_id = 0 \<or> M_coro_scheduler_id \<noteq> M_id s then 0 else M_thread_id) in do {
        q \<leftarrow> enqueue_q handle (queues s ! i);
        let s = set_queues ((queues s)[i := q]) s;
        Some (\<not> M_task_wait_flag s, s\<lparr>M_task_wait_flag := True\<rparr>) })"

definition peek_next_coroutine ::
    "('q \<Rightarrow> ('t option \<times> 'q) option) \<Rightarrow> ('q \<Rightarrow> ('t option \<times> 'q) option) \<Rightarrow> ('q \<Rightarrow> bool) \<Rightarrow> nat \<Rightarrow> 'q scheduler \<Rightarrow>
     ('t option \<times> 'q scheduler) option" where
  "peek_next_coroutine dequeue_q steal_q empty_q M_thread_id s = do {
     (handle, q) \<leftarrow> dequeue_q (queues s ! M_thread_id);
     let s = set_queues ((queues s)[M_thread_id := q]) s;
     if handle \<noteq> None then Some (handle, s) else steal_task steal_q empty_q M_thread_id s }"

text \<open>\<open>Inr\<close> is the waiting channel of the thread.\<close>

definition get_next_coroutine ::
    "('q \<Rightarrow> ('t option \<times> 'q) option) \<Rightarrow> ('q \<Rightarrow> ('t option \<times> 'q) option) \<Rightarrow> ('q \<Rightarrow> bool) \<Rightarrow> nat \<Rightarrow> 'q scheduler \<Rightarrow>
     (('t + nat) \<times> 'q scheduler) option" where
  "get_next_coroutine dequeue_q steal_q empty_q M_thread_id s = do {
     (handle, s) \<leftarrow> peek_next_coroutine dequeue_q steal_q empty_q M_thread_id s;
     Some (case handle of Some h \<Rightarrow> Inl h | None \<Rightarrow> Inr M_thread_id, s) }"

text \<open>The counters of the threads. A worker is made with status \<open>READY\<close>; the counters are left as they are.\<close>

definition init_thread :: "'q \<Rightarrow> 'q scheduler \<Rightarrow> 'q scheduler" where
  "init_thread new_queue s = s\<lparr>M_thread_contexts := M_thread_contexts s @ [\<lparr>M_status = STATUS_READY, M_tasks = new_queue\<rparr>]\<rparr>"

fun spawn_workers :: "'q \<Rightarrow> nat \<Rightarrow> 'q scheduler \<Rightarrow> 'q scheduler" where
  "spawn_workers new_queue 0 s = s"
| "spawn_workers new_queue (Suc k) s =
     spawn_workers new_queue k ((init_thread new_queue s)\<lparr>M_total_threads := M_total_threads s + 1\<rparr>)"

definition scheduler_new :: "'q \<Rightarrow> u32 \<Rightarrow> nat \<Rightarrow> 'q scheduler" where
  "scheduler_new new_queue i hardware_concurrency = spawn_workers new_queue hardware_concurrency
     \<lparr>M_id = i, M_total_threads = 0, M_total_suspended_threads = 0, M_total_ready_threads = 0, M_total_running_threads = 0,
      M_thread_contexts = [\<lparr>M_status = STATUS_NEW, M_tasks = new_queue\<rparr>], M_task_wait_flag = False\<rparr>"

definition set_status :: "nat \<Rightarrow> thread_status \<Rightarrow> 'q scheduler \<Rightarrow> 'q scheduler" where
  "set_status t st s = s\<lparr>M_thread_contexts := (M_thread_contexts s)[t := (M_thread_contexts s ! t)\<lparr>M_status := st\<rparr>]\<rparr>"

definition set_thread_suspended :: "'q \<Rightarrow> nat \<Rightarrow> 'q scheduler \<Rightarrow> 'q scheduler" where
  "set_thread_suspended new_queue t s =
     (let s = s\<lparr>M_total_running_threads := M_total_running_threads s - 1, M_total_suspended_threads := M_total_suspended_threads s + 1\<rparr>;
          s = (if M_total_suspended_threads s \<ge> M_total_threads s then spawn_workers new_queue 1 s else s)
      in set_status t STATUS_SUSPENDED s)"

definition set_thread_ready :: "nat \<Rightarrow> 'q scheduler \<Rightarrow> 'q scheduler" where
  "set_thread_ready t s = set_status t STATUS_READY
     (s\<lparr>M_total_running_threads := M_total_running_threads s - 1, M_total_ready_threads := M_total_ready_threads s + 1\<rparr>)"

definition set_thread_running :: "nat \<Rightarrow> 'q scheduler \<Rightarrow> 'q scheduler" where
  "set_thread_running t s =
     (let s = (if M_status (M_thread_contexts s ! t) = STATUS_SUSPENDED
               then s\<lparr>M_total_suspended_threads := M_total_suspended_threads s - 1\<rparr>
               else s\<lparr>M_total_ready_threads := M_total_ready_threads s - 1\<rparr>)
      in set_status t STATUS_RUNNING (s\<lparr>M_total_running_threads := M_total_running_threads s + 1\<rparr>))"

fun set_thread_status :: "'q \<Rightarrow> thread_status \<Rightarrow> nat \<Rightarrow> 'q scheduler \<Rightarrow> 'q scheduler" where
  "set_thread_status new_queue STATUS_READY t s = set_thread_ready t s"
| "set_thread_status new_queue STATUS_RUNNING t s = set_thread_running t s"
| "set_thread_status new_queue STATUS_SUSPENDED t s = set_thread_suspended new_queue t s"
| "set_thread_status new_queue STATUS_NEW t s = s"

section \<open>The workers\<close>

text \<open>
  The places of a worker in \<open>awaiter\<close> and in the functions it calls, one for each access to memory that other threads write. The first argument
  of a search is true when the loop of \<open>awaiter\<close> searches, and false when a coroutine that suspends does, in \<open>get_next_coroutine\<close>; the queue and the
  flag are those of \<open>steal_loop\<close>. \<open>W_dequeue\<close> to \<open>W_cas\<close> are \<open>dequeue\<close> of the own queue: the indices are loaded (only the worker itself writes its \<open>M_back\<close>), \<open>M_back\<close> is lowered and, when there was one item,
  raised again before the exchange of \<open>M_front\<close>. \<open>W_steal\<close> to \<open>W_steal_cas\<close> are \<open>steal\<close>, and \<open>W_empty\<close> and \<open>W_empty_front\<close> are \<open>empty\<close> of another queue. \<open>W_run\<close> runs
  a coroutine.
\<close>

datatype worker_pc =
    W_loop
  | W_dequeue bool
  | W_claim bool int int
  | W_restore bool int
  | W_cas bool int
  | W_steal bool nat bool
  | W_steal_back bool nat bool int
  | W_steal_cas bool nat bool int
  | W_empty bool nat bool
  | W_empty_front bool nat bool int
  | W_lock
  | W_wait
  | W_unlock
  | W_stop
  | W_clear
  | W_run
  | W_notify
  | W_exit

datatype dtor_pc = D_none | D_flag | D_join | D_done

text \<open>
  \<open>fronts\<close> and \<open>backs\<close> are the indices of the queues, as integers, for fewer than \<open>2 ^ 63\<close> operations; a queue has something in it when \<open>fronts\<close> is below \<open>backs\<close>. Which
  coroutine is in a cell makes no difference to the control and is left out. \<open>M_task_wait_flag.clear\<close> is a relaxed store: \<open>buffered w\<close>
  says that the one of worker \<open>w\<close> is still in its store buffer, where the others do not see it, and \<open>overtook\<close> that a worker has loaded an index of a queue meanwhile.
  \<open>calling e\<close>: thread \<open>e\<close> has put a coroutine into queue 0 and still has to set the flag.
\<close>

record sched_sys =
  fronts :: "nat \<Rightarrow> int"
  backs :: "nat \<Rightarrow> int"
  wait_flag :: bool
  buffered :: "nat \<Rightarrow> bool"
  overtook :: bool
  stop :: bool
  task_mutex :: "nat option"
  workers :: "nat \<Rightarrow> worker_pc"
  calling :: "nat \<Rightarrow> bool"
  dtor :: dtor_pc

definition next_queue :: "nat \<Rightarrow> nat \<Rightarrow> nat" where
  "next_queue n i = (i + 1) mod (n + 1)"

definition goto :: "nat \<Rightarrow> worker_pc \<Rightarrow> sched_sys \<Rightarrow> sched_sys" where
  "goto w p s = s\<lparr>workers := (workers s)(w := p)\<rparr>"

text \<open>A load of an index, and a step that needs the stores of the thread to be written.\<close>

definition loads :: "nat \<Rightarrow> worker_pc \<Rightarrow> sched_sys \<Rightarrow> sched_sys option" where
  "loads w p s = Some (goto w p (s\<lparr>overtook := overtook s \<or> buffered s w\<rparr>))"

definition drained :: "nat \<Rightarrow> worker_pc \<Rightarrow> sched_sys \<Rightarrow> sched_sys \<Rightarrow> sched_sys option" where
  "drained w p s t = (if buffered s w then None else Some (goto w p t))"

text \<open>After \<open>c = c | !queue->empty()\<close>: the next queue, the next round or the end of \<open>steal_task\<close>.\<close>

definition after_check :: "nat \<Rightarrow> nat \<Rightarrow> bool \<Rightarrow> nat \<Rightarrow> bool \<Rightarrow> worker_pc" where
  "after_check n w b i c =
     (if next_queue n i \<noteq> w then W_steal b (next_queue n i) c
      else if c then W_steal b (next_queue n w) False
      else if b then W_lock else W_loop)"

text \<open>The next step of worker \<open>w\<close>; \<open>None\<close> when it cannot go on. A running coroutine suspends.\<close>

fun advance_worker :: "nat \<Rightarrow> nat \<Rightarrow> worker_pc \<Rightarrow> sched_sys \<Rightarrow> sched_sys option" where
  "advance_worker n w W_loop s = Some (goto w (if stop s then W_exit else W_dequeue True) s)"
| "advance_worker n w (W_dequeue b) s = loads w
     (if fronts s w = backs s w \<or> fronts s w = backs s w + 1 then W_steal b (next_queue n w) False else W_claim b (backs s w) (fronts s w)) s"
| "advance_worker n w (W_claim b x f) s =
     drained w (if f = x - 1 then W_restore b x else W_run) s (s\<lparr>backs := (backs s)(w := x - 1)\<rparr>)"
| "advance_worker n w (W_restore b x) s = drained w (W_cas b (x - 1)) s (s\<lparr>backs := (backs s)(w := x)\<rparr>)"
| "advance_worker n w (W_cas b f) s =
     (if fronts s w = f then drained w W_run s (s\<lparr>fronts := (fronts s)(w := f + 1)\<rparr>)
      else drained w (W_steal b (next_queue n w) False) s s)"
| "advance_worker n w (W_steal b i c) s = loads w (W_steal_back b i c (fronts s i)) s"
| "advance_worker n w (W_steal_back b i c f) s =
     loads w (if backs s i = f \<or> backs s i + 1 = f then W_empty b i c else W_steal_cas b i c f) s"
| "advance_worker n w (W_steal_cas b i c f) s =
     (if fronts s i = f then drained w W_run s (s\<lparr>fronts := (fronts s)(i := f + 1)\<rparr>) else drained w (W_empty b i c) s s)"
| "advance_worker n w (W_empty b i c) s = loads w (W_empty_front b i c (backs s i)) s"
| "advance_worker n w (W_empty_front b i c x) s = loads w (after_check n w b i (c \<or> x \<noteq> fronts s i)) s"
| "advance_worker n w W_lock s = (if task_mutex s = None then drained w W_wait s (s\<lparr>task_mutex := Some w\<rparr>) else None)"
| "advance_worker n w W_wait s = (if wait_flag s then Some (goto w W_unlock s) else None)"
| "advance_worker n w W_unlock s = Some (goto w W_stop (s\<lparr>task_mutex := None\<rparr>))"
| "advance_worker n w W_stop s = Some (goto w (if stop s then W_exit else W_clear) s)"
| "advance_worker n w W_clear s = Some (goto w (W_dequeue True) (s\<lparr>buffered := (buffered s)(w := True)\<rparr>))"
| "advance_worker n w W_run s = Some (goto w (W_dequeue False) s)"
| "advance_worker n w W_notify s = drained w W_run s (s\<lparr>wait_flag := True\<rparr>)"
| "advance_worker n w W_exit s = None"

text \<open>
  Who takes the next step. \<open>Flush\<close>: the buffered store of a worker is written. \<open>Post\<close>: a running coroutine schedules another one.
  \<open>Finish\<close>: the running coroutine was made by \<open>launch\<close>; at its end \<open>launch_final_awaiter\<close> hands no coroutine over, so control
  returns to the caller of \<open>resume\<close>, which is the function of the thread. \<open>Call\<close> and \<open>Notify\<close>: another thread schedules a coroutine.
\<close>

datatype turn = Worker nat | Flush nat | Post nat | Finish nat | Call nat | Notify nat | Destroy

fun sched_move :: "nat \<Rightarrow> turn \<Rightarrow> sched_sys \<Rightarrow> sched_sys option" where
  "sched_move n (Worker w) s = (if 1 \<le> w \<and> w \<le> n then advance_worker n w (workers s w) s else None)"
| "sched_move n (Flush w) s = (if 1 \<le> w \<and> w \<le> n \<and> buffered s w
     then Some (s\<lparr>wait_flag := False, buffered := (buffered s)(w := False)\<rparr>) else None)"
| "sched_move n (Post w) s = (if 1 \<le> w \<and> w \<le> n \<and> workers s w = W_run
     then Some (goto w W_notify (s\<lparr>backs := (backs s)(w := backs s w + 1)\<rparr>)) else None)"
| "sched_move n (Finish w) s = (if 1 \<le> w \<and> w \<le> n \<and> workers s w = W_run then Some (goto w W_exit s) else None)"
| "sched_move n (Call e) s = (if calling s e then None else
     Some (s\<lparr>backs := (backs s)(0 := backs s 0 + 1), calling := (calling s)(e := True)\<rparr>))"
| "sched_move n (Notify e) s = (if calling s e then Some (s\<lparr>wait_flag := True, calling := (calling s)(e := False)\<rparr>) else None)"
| "sched_move n Destroy s = (case dtor s of
       D_none \<Rightarrow> Some (s\<lparr>stop := True, dtor := D_flag\<rparr>)
     | D_flag \<Rightarrow> Some (s\<lparr>wait_flag := True, dtor := D_join\<rparr>)
     | D_join \<Rightarrow> if \<forall>w \<in> {1..n}. workers s w = W_exit then Some (s\<lparr>dtor := D_done\<rparr>) else None
     | D_done \<Rightarrow> None)"

fun finishes :: "turn \<Rightarrow> bool" where
  "finishes (Finish w) = True"
| "finishes _ = False"

text \<open>\<open>sched_step n L\<close>: a step of \<open>n\<close> workers and the other threads; \<open>L\<close> says whether coroutines made by \<open>launch\<close> end.\<close>

definition sched_step :: "nat \<Rightarrow> bool \<Rightarrow> sched_sys \<Rightarrow> sched_sys \<Rightarrow> bool" where
  "sched_step n L s t \<longleftrightarrow> (\<exists>a. (finishes a \<longrightarrow> L) \<and> sched_move n a s = Some t)"

definition sched_start :: sched_sys where
  "sched_start = \<lparr>fronts = (\<lambda>_. 0), backs = (\<lambda>_. 0), wait_flag = False, buffered = (\<lambda>_. False), overtook = False, stop = False,
     task_mutex = None, workers = (\<lambda>_. W_loop), calling = (\<lambda>_. False), dtor = D_none\<rparr>"

definition sched_init :: "sched_sys \<Rightarrow> bool" where
  "sched_init s \<longleftrightarrow> s = sched_start"

fun sched_exec :: "nat \<Rightarrow> turn list \<Rightarrow> sched_sys \<Rightarrow> sched_sys option" where
  "sched_exec n [] s = Some s"
| "sched_exec n (a # as) s = (case sched_move n a s of None \<Rightarrow> None | Some t \<Rightarrow> sched_exec n as t)"

section \<open>The order of the search\<close>

definition first_task :: "'t list list \<Rightarrow> nat list \<Rightarrow> nat option" where
  "first_task xss js = (case filter (\<lambda>i. xss ! i \<noteq> []) js of [] \<Rightarrow> None | i # _ \<Rightarrow> Some i)"

text \<open>The queues in the order in which thread \<open>tid\<close> looks at them: all but its own.\<close>

definition steal_order :: "nat \<Rightarrow> nat \<Rightarrow> nat list" where
  "steal_order n tid = map (\<lambda>k. (tid + 1 + k) mod (n + 1)) [0..<max 1 n]"

lemma ring_returns:
  assumes "tid \<le> (n :: nat)" and "k \<le> n"
  shows "(tid + 1 + k) mod (n + 1) = tid \<longleftrightarrow> k = n"
proof
  assume "(tid + 1 + k) mod (n + 1) = tid"
  then have "(tid + (1 + k)) mod (n + 1) = (tid + 0) mod (n + 1)" using assms(1) by (simp add: add.assoc)
  then show "k = n"
    using ring_offset [of "(1 + k) mod (n + 1)" "n + 1" 0 tid] assms(2) by (cases "k = n") (simp_all add: mod_simps)
next
  assume "k = n"
  then have "(tid + 1 + k) mod (n + 1) = ((n + 1) + tid) mod (n + 1)" by (simp add: ac_simps)
  also have "\<dots> = tid mod (n + 1)" by (rule mod_add_self1)
  finally show "(tid + 1 + k) mod (n + 1) = tid" using assms(1) by simp
qed

lemma queues_set_queues: "length qs = length (queues s) \<Longrightarrow> queues (set_queues qs s) = qs"
  by (simp add: queues_def set_queues_def list_eq_iff_nth_eq)

lemma queues_set_update [simp]: "queues (set_queues ((queues s)[i := q]) s) = (queues s)[i := q]"
  by (simp add: queues_set_queues)

lemma set_queues_frame [simp]:
  "M_task_wait_flag (set_queues qs s) = M_task_wait_flag s" "M_total_threads (set_queues qs s) = M_total_threads s"
  "queues (s\<lparr>M_task_wait_flag := b\<rparr>) = queues s"
  by (simp_all add: set_queues_def queues_def)

section \<open>What the scheduler needs of a queue\<close>

text \<open>The owner takes the newest task and other threads steal the oldest.\<close>

locale task_queue =
  fixes holds_q :: "'q \<Rightarrow> 't list \<Rightarrow> bool" and bound :: nat
    and enqueue_q :: "'t \<Rightarrow> 'q \<Rightarrow> 'q option"
    and dequeue_q :: "'q \<Rightarrow> ('t option \<times> 'q) option"
    and steal_q :: "'q \<Rightarrow> ('t option \<times> 'q) option"
    and empty_q :: "'q \<Rightarrow> bool"
  assumes enqueue_law: "holds_q q xs \<Longrightarrow> length xs < bound \<Longrightarrow> \<exists>q'. enqueue_q x q = Some q' \<and> holds_q q' (xs @ [x])"
    and dequeue_law: "holds_q q xs \<Longrightarrow> length xs < bound \<Longrightarrow>
      \<exists>q'. dequeue_q q = Some (if xs = [] then None else Some (last xs), q') \<and> holds_q q' (butlast xs)"
    and steal_law: "holds_q q xs \<Longrightarrow> length xs < bound \<Longrightarrow>
      \<exists>q'. steal_q q = Some (if xs = [] then None else Some (hd xs), q') \<and> holds_q q' (tl xs)"
    and empty_law: "holds_q q xs \<Longrightarrow> length xs < bound \<Longrightarrow> empty_q q \<longleftrightarrow> xs = []"
    and bound_pos: "0 < bound"
begin

definition hold :: "'q list \<Rightarrow> 't list list \<Rightarrow> bool" where
  "hold qs xss \<longleftrightarrow> list_all2 holds_q qs xss \<and> (\<forall>xs \<in> set xss. length xs < bound)"

lemma hold_nth: "hold qs xss \<Longrightarrow> i < length xss \<Longrightarrow> holds_q (qs ! i) (xss ! i) \<and> length (xss ! i) < bound"
  by (auto simp: hold_def list_all2_conv_all_nth)

lemma hold_length: "hold qs xss \<Longrightarrow> length qs = length xss"
  by (auto simp: hold_def list_all2_lengthD)

lemma hold_update: "hold qs xss \<Longrightarrow> holds_q q xs \<Longrightarrow> length xs < bound \<Longrightarrow> hold (qs[i := q]) (xss[i := xs])"
  by (auto simp: hold_def list_all2_update_cong dest!: set_update_subset_insert [THEN subsetD])

lemma hold_update_same: "hold qs xss \<Longrightarrow> i < length xss \<Longrightarrow> holds_q q (xss ! i) \<Longrightarrow> hold (qs[i := q]) xss"
  using hold_update [of qs xss q "xss ! i" i] hold_nth [of qs xss i] by simp

text \<open>The search from queue \<open>tid + 1 + k\<close> on, when the queues before it were empty.\<close>

lemma steal_loop_from:
  assumes "hold qs xss" and "length xss = Suc n" and "tid \<le> n" and "k < max 1 n"
  shows "\<exists>qs' r. steal_loop steal_q empty_q tid n ((tid + 1 + k) mod (n + 1)) False qs = Some (r, qs') \<and>
    (case first_task xss (map (\<lambda>k. (tid + 1 + k) mod (n + 1)) [k..<max 1 n]) of
       None \<Rightarrow> r = None \<and> hold qs' xss
     | Some i \<Rightarrow> r = Some (hd (xss ! i)) \<and> hold qs' (xss[i := tl (xss ! i)]))"
  using assms
proof (induction "max 1 n - k" arbitrary: k qs)
  case 0
  then show ?case by linarith
next
  case (Suc m)
  define i where "i = (tid + 1 + k) mod (n + 1)"
  have i: "i < length xss" using Suc.prems(2) by (simp add: i_def)
  have upt: "[k..<max 1 n] = k # [Suc k..<max 1 n]" using Suc.prems(4) by (rule upt_conv_Cons)
  obtain q' where st: "steal_q (qs ! i) = Some (if xss ! i = [] then None else Some (hd (xss ! i)), q')"
    and q': "holds_q q' (tl (xss ! i))"
    using steal_law hold_nth [OF Suc.prems(1) i] by blast
  show ?case
  proof (cases "xss ! i = []")
    case False
    have l: "length (tl (xss ! i)) < bound" using hold_nth [OF Suc.prems(1) i] by (auto intro: le_less_trans [OF diff_le_self])
    have "steal_loop steal_q empty_q tid n i False qs = Some (Some (hd (xss ! i)), qs[i := q'])"
      using st False by (subst steal_loop.simps) simp
    moreover have "first_task xss (map (\<lambda>k. (tid + 1 + k) mod (n + 1)) [k..<max 1 n]) = Some i"
      unfolding upt using False by (simp add: first_task_def i_def)
    ultimately show ?thesis using hold_update [OF Suc.prems(1) q' l, of i] by (simp add: i_def)
  next
    case True
    then have h': "hold (qs[i := q']) xss" using hold_update_same [OF Suc.prems(1) i] q' by simp
    have em: "empty_q q'" using empty_law [of q' "[]"] q' True bound_pos by simp
    have i': "(i + 1) mod (n + 1) = (tid + 1 + Suc k) mod (n + 1)" by (simp add: i_def mod_simps)
    have ft: "first_task xss (map (\<lambda>k. (tid + 1 + k) mod (n + 1)) [k..<max 1 n]) =
        first_task xss (map (\<lambda>k. (tid + 1 + k) mod (n + 1)) [Suc k..<max 1 n])"
      unfolding upt using True by (simp add: first_task_def i_def)
    show ?thesis
    proof (cases "Suc k < max 1 n")
      case more: True
      then have "(tid + 1 + Suc k) mod (n + 1) \<noteq> tid" using ring_returns [OF Suc.prems(3), of "Suc k"] by (simp add: max_def split: if_splits)
      then have "steal_loop steal_q empty_q tid n i False qs =
          steal_loop steal_q empty_q tid n ((tid + 1 + Suc k) mod (n + 1)) False (qs[i := q'])"
        using st True em i' by (subst steal_loop.simps) simp
      moreover have "m = max 1 n - Suc k" using Suc.hyps(2) by linarith
      note Suc.hyps(1) [OF this h' Suc.prems(2,3) more]
      ultimately show ?thesis unfolding ft i_def [symmetric] by simp
    next
      case last: False
      then have "(tid + 1 + Suc k) mod (n + 1) = tid"
        using Suc.prems(3,4) ring_returns [OF Suc.prems(3), of "Suc k"] by (cases "n = 0") (auto simp: max_def split: if_splits)
      then have "steal_loop steal_q empty_q tid n i False qs = Some (None, qs[i := q'])"
        using st True em i' by (subst steal_loop.simps) simp
      moreover have "first_task xss (map (\<lambda>k. (tid + 1 + k) mod (n + 1)) [k..<max 1 n]) = None"
        unfolding ft using last by (simp add: first_task_def)
      ultimately show ?thesis using h' by (simp add: i_def)
    qed
  qed
qed

text \<open>A thread whose number no queue has never finds the end of the round.\<close>

lemma steal_loop_diverges:
  assumes "n < tid" and "hold qs xss" and "length xss = Suc n" and "\<forall>xs \<in> set xss. xs = []" and "i \<le> n"
  shows "steal_loop steal_q empty_q tid n i c qs = None"
proof -
  define P where "P = (\<lambda>sq eq t m i (c :: bool) qs (y :: 't option \<times> 'q list).
    \<not> (sq = steal_q \<and> eq = empty_q \<and> t = tid \<and> m = n \<and> i \<le> n \<and> hold qs xss))"
  have "P steal_q empty_q tid n i c qs y" if "steal_loop steal_q empty_q tid n i c qs = Some y" for y
  proof (rule steal_loop.raw_induct [of P, OF _ that])
    fix self :: "('q \<Rightarrow> ('t option \<times> 'q) option) \<Rightarrow> ('q \<Rightarrow> bool) \<Rightarrow> nat \<Rightarrow> nat \<Rightarrow> nat \<Rightarrow> bool \<Rightarrow> 'q list \<Rightarrow> ('t option \<times> 'q list) option"
      and sq eq t m i c qs y
    assume IH: "\<And>sq eq t m i c qs y. self sq eq t m i c qs = Some y \<Longrightarrow> P sq eq t m i c qs y"
      and y: "(case sq (qs ! i) of
        None \<Rightarrow> None
      | Some (Some handle, q) \<Rightarrow> Some (Some handle, qs[i := q])
      | Some (None, q) \<Rightarrow>
          (let c = (c \<or> \<not> eq q); i' = (i + 1) mod (m + 1); qs = qs[i := q]
           in if i' \<noteq> t then self sq eq t m i' c qs
              else if c then self sq eq t m ((t + 1) mod (m + 1)) False qs
              else Some (None, qs))) = Some y"
    show "P sq eq t m i c qs y"
    proof (rule ccontr)
      assume "\<not> P sq eq t m i c qs y"
      then have p: "sq = steal_q" "eq = empty_q" "t = tid" "m = n" "i \<le> n" "hold qs xss" by (auto simp: P_def)
      then have i: "i < length xss" and e: "xss ! i = []" using assms(3,4) by auto
      obtain q where st: "steal_q (qs ! i) = Some (None, q)" and q: "holds_q q (xss ! i)"
        using steal_law hold_nth [OF p(6) i] e by fastforce
      have ne: "(i + 1) mod (n + 1) \<noteq> tid" using assms(1) mod_le_divisor [of "n + 1" "i + 1"] mod_less_divisor [of "n + 1" "i + 1"] by linarith
      from y st ne have "self steal_q empty_q tid n ((i + 1) mod (n + 1)) (c \<or> \<not> empty_q q) (qs[i := q]) = Some y"
        by (simp add: p)
      from IH [OF this] hold_update_same [OF p(6) i q] show False
        using mod_less_divisor [of "n + 1" "i + 1"] by (simp add: P_def)
    qed
  qed
  then show ?thesis using assms(2,5) by (cases "steal_loop steal_q empty_q tid n i c qs") (auto simp: P_def)
qed

lemma hold_butlast: "hold qs xss \<Longrightarrow> i < length xss \<Longrightarrow> holds_q q (butlast (xss ! i)) \<Longrightarrow> hold (qs[i := q]) (xss[i := butlast (xss ! i)])"
  using hold_update [of qs xss q "butlast (xss ! i)" i] hold_nth [of qs xss i] by fastforce

text \<open>\<open>peek_next_coroutine\<close> takes the newest task of the thread, or the oldest of the first queue that has one.\<close>

lemma peek_next:
  assumes "hold (queues s) xss" and "length xss = Suc n" and "n = unat (M_total_threads s)" and "tid \<le> n"
  shows "\<exists>s' r. peek_next_coroutine dequeue_q steal_q empty_q tid s = Some (r, s') \<and>
    (if xss ! tid \<noteq> [] then r = Some (last (xss ! tid)) \<and> hold (queues s') (xss[tid := butlast (xss ! tid)])
     else case first_task xss (steal_order n tid) of
       None \<Rightarrow> r = None \<and> hold (queues s') xss
     | Some i \<Rightarrow> r = Some (hd (xss ! i)) \<and> hold (queues s') (xss[i := tl (xss ! i)]))"
proof -
  have t: "tid < length xss" using assms(2,4) by simp
  obtain q where dq: "dequeue_q (queues s ! tid) = Some (if xss ! tid = [] then None else Some (last (xss ! tid)), q)"
    and q: "holds_q q (butlast (xss ! tid))"
    using dequeue_law hold_nth [OF assms(1) t] by blast
  define s1 where "s1 = set_queues ((queues s)[tid := q]) s"
  have q1: "queues s1 = (queues s)[tid := q]" by (simp add: s1_def)
  have h1: "hold (queues s1) (xss[tid := butlast (xss ! tid)])" unfolding q1 using hold_butlast [OF assms(1) t q] .
  show ?thesis
  proof (cases "xss ! tid = []")
    case False
    then have "peek_next_coroutine dequeue_q steal_q empty_q tid s = Some (Some (last (xss ! tid)), s1)"
      using dq by (simp add: peek_next_coroutine_def s1_def)
    with h1 False show ?thesis by simp
  next
    case True
    then have h2: "hold (queues s1) xss" using h1 list_update_id [of xss tid] by simp
    have n: "unat (M_total_threads s1) = n" using assms(3) by (simp add: s1_def set_queues_def)
    obtain qs' r where sl: "steal_loop steal_q empty_q tid n ((tid + 1) mod (n + 1)) False (queues s1) = Some (r, qs')"
      and r: "case first_task xss (steal_order n tid) of None \<Rightarrow> r = None \<and> hold qs' xss
        | Some i \<Rightarrow> r = Some (hd (xss ! i)) \<and> hold qs' (xss[i := tl (xss ! i)])"
      using steal_loop_from [OF h2 assms(2,4), of 0] unfolding steal_order_def by (auto simp: less_max_iff_disj)
    have "length qs' = length xss" using r by (auto dest: hold_length split: option.splits)
    then have "queues (set_queues qs' s1) = qs'" using hold_length [OF h2] by (simp add: queues_set_queues)
    moreover have "peek_next_coroutine dequeue_q steal_q empty_q tid s = Some (r, set_queues qs' s1)"
      using dq True sl n by (simp add: peek_next_coroutine_def steal_task_def s1_def Let_def)
    ultimately show ?thesis using r True by (simp split: option.splits)
  qed
qed

text \<open>\<open>schedule\<close> puts a task into the queue of the thread, or into queue 0.\<close>

lemma schedule_adds:
  assumes "hold (queues s) xss" and "i = (if tid = 0 \<or> sid \<noteq> M_id s then 0 else tid)" and "i < length xss"
    and "Suc (length (xss ! i)) < bound"
  shows "\<exists>s'. schedule enqueue_q tid sid h s = Some (\<not> M_task_wait_flag s, s') \<and> M_task_wait_flag s' \<and>
    M_total_threads s' = M_total_threads s \<and> hold (queues s') (xss[i := xss ! i @ [h]])"
proof -
  obtain q where e: "enqueue_q h (queues s ! i) = Some q" and q: "holds_q q (xss ! i @ [h])"
    using enqueue_law hold_nth [OF assms(1,3)] by blast
  have "hold ((queues s)[i := q]) (xss[i := xss ! i @ [h]])" using hold_update [OF assms(1) q] assms(4) by simp
  with e show ?thesis unfolding schedule_def assms(2) [symmetric] Let_def by simp
qed

end

interpretation wsq: task_queue "\<lambda>q xs. \<exists>c. holds q c xs" "2 ^ 61" "stealing_enqueue dflt" stealing_dequeue steal stealing_empty
proof
  fix q :: "'a work_queue" and xs x
  assume h: "\<exists>c. holds q c xs" and l: "length xs < 2 ^ 61"
  then obtain c where c: "holds q c xs" by blast
  note a = work_stealing_queue_alone [OF c l, of dflt x]
  show "\<exists>q'. stealing_enqueue dflt x q = Some q' \<and> (\<exists>c. holds q' c (xs @ [x]))" using a by blast
  show "\<exists>q'. stealing_dequeue q = Some (if xs = [] then None else Some (last xs), q') \<and> (\<exists>c. holds q' c (butlast xs))"
    using a by blast
  show "\<exists>q'. steal q = Some (if xs = [] then None else Some (hd xs), q') \<and> (\<exists>c. holds q' c (tl xs))" using a by blast
  show "stealing_empty q \<longleftrightarrow> xs = []" using a by blast
qed simp

definition hold_queues :: "'t work_queue list \<Rightarrow> 't list list \<Rightarrow> bool" where
  "hold_queues qs xss \<longleftrightarrow> list_all2 (\<lambda>q xs. \<exists>c. holds q c xs) qs xss \<and> (\<forall>xs \<in> set xss. length xs < 2 ^ 61)"

lemma wsq_hold: "wsq.hold = hold_queues"
  by (intro ext) (simp only: wsq.hold_def hold_queues_def)

lemma steal_order_others:
  assumes "tid \<le> n" and "i \<le> n" and "i \<noteq> tid"
  shows "i \<in> set (steal_order n tid)"
proof -
  define k where "k = (i + n - tid) mod (n + 1)"
  have "(tid + 1 + k) mod (n + 1) = (tid + 1 + (i + n - tid)) mod (n + 1)" unfolding k_def by (rule mod_add_right_eq)
  also have "tid + 1 + (i + n - tid) = (n + 1) + i" using assms(1) by simp
  also have "\<dots> mod (n + 1) = i mod (n + 1)" by (rule mod_add_self1)
  finally have e: "(tid + 1 + k) mod (n + 1) = i" using assms(2) by simp
  have "k \<noteq> n" using e assms(1,3) ring_returns [OF assms(1), of n] by auto
  moreover have "k < n + 1" unfolding k_def by (rule mod_less_divisor) simp
  ultimately have "k \<in> set [0..<max 1 n]" by simp
  then show ?thesis unfolding steal_order_def using e by force
qed

lemma first_task_none:
  assumes "length xss = Suc n" and "tid \<le> n" and "xss ! tid = []"
  shows "first_task xss (steal_order n tid) = None \<longleftrightarrow> (\<forall>xs \<in> set xss. xs = [])"
proof
  assume "first_task xss (steal_order n tid) = None"
  then have f: "\<forall>i \<in> set (steal_order n tid). xss ! i = []"
    by (auto simp: first_task_def filter_empty_conv split: list.splits)
  have "xss ! i = []" if "i < length xss" for i
    using f steal_order_others [OF assms(2), of i] assms(1,3) that by (cases "i = tid") auto
  then show "\<forall>xs \<in> set xss. xs = []" by (auto simp: in_set_conv_nth)
next
  assume e: "\<forall>xs \<in> set xss. xs = []"
  have "i < Suc n" if "i \<in> set (steal_order n tid)" for i using that by (auto simp: steal_order_def)
  then have "filter (\<lambda>i. xss ! i \<noteq> []) (steal_order n tid) = []" using e assms(1) by (auto simp: filter_empty_conv)
  then show "first_task xss (steal_order n tid) = None" by (simp add: first_task_def)
qed

section \<open>Positions in the search\<close>

text \<open>The number of the round at which worker \<open>w\<close> looks at queue \<open>i\<close>; its own queue comes last and is left out.\<close>

definition turn_of :: "nat \<Rightarrow> nat \<Rightarrow> nat \<Rightarrow> nat" where
  "turn_of n w i = (i + n - w) mod (n + 1)"

lemma turn_of_le: "turn_of n w i \<le> n"
  unfolding turn_of_def by (metis Suc_eq_plus1 less_Suc_eq_le mod_less_divisor zero_less_Suc)

lemma turn_of_own: "w \<le> n \<Longrightarrow> turn_of n w w = n"
  by (simp add: turn_of_def)

lemma turn_of_first: "w \<le> n \<Longrightarrow> turn_of n w (next_queue n w) = 0 \<or> n = 0"
  by (cases "w = n") (auto simp: turn_of_def next_queue_def)

lemma turn_of_inj:
  assumes "w \<le> n" and "i \<le> n" and "j \<le> n" and "turn_of n w i = turn_of n w j"
  shows "i = j"
proof -
  have "(n - w + i) mod (n + 1) = (n - w + j) mod (n + 1)" using assms(1,4) by (simp add: turn_of_def ac_simps)
  then show ?thesis using ring_offset [of i "n + 1" j "n - w"] assms(2,3) by simp
qed

lemma next_queue_le: "next_queue n i \<le> n"
  unfolding next_queue_def by (metis Suc_eq_plus1 less_Suc_eq_le mod_less_divisor zero_less_Suc)

lemma turn_of_next:
  assumes "w \<le> n" and "i \<le> n" and "i \<noteq> w"
  shows "turn_of n w (next_queue n i) = turn_of n w i + 1"
proof -
  have "turn_of n w i \<noteq> n" using assms turn_of_inj [of w n i w] turn_of_own by metis
  then have lt: "turn_of n w i + 1 < n + 1" using turn_of_le [of n w i] by linarith
  have "turn_of n w (next_queue n i) = (i + 1 + n - w) mod (n + 1)"
  proof (cases "i = n")
    case True
    then have "i + 1 + n - w = (n + 1) + (n - w)" using assms(1) by simp
    then have "(i + 1 + n - w) mod (n + 1) = (n - w) mod (n + 1)" by (simp only: mod_add_self1)
    then show ?thesis using True by (simp add: turn_of_def next_queue_def)
  next
    case False
    then show ?thesis using assms(2) by (simp add: turn_of_def next_queue_def)
  qed
  also have "i + 1 + n - w = (i + n - w) + 1" using assms(1) by simp
  also have "((i + n - w) + 1) mod (n + 1) = (turn_of n w i + 1) mod (n + 1)" by (simp add: turn_of_def mod_simps)
  also have "\<dots> = turn_of n w i + 1" using lt by simp
  finally show ?thesis .
qed

section \<open>The invariant of the workers\<close>

text \<open>Worker \<open>w\<close> will look at queue \<open>i\<close>, whose front index is \<open>f\<close>, before it goes to sleep, and will not go to sleep if something is in it.\<close>

fun will_look :: "nat \<Rightarrow> nat \<Rightarrow> nat \<Rightarrow> int \<Rightarrow> worker_pc \<Rightarrow> bool" where
  "will_look n w i f (W_steal b j c) = (\<not> b \<or> c \<or> turn_of n w j \<le> turn_of n w i)"
| "will_look n w i f (W_steal_back b j c g) = (\<not> b \<or> c \<or> turn_of n w j \<le> turn_of n w i)"
| "will_look n w i f (W_steal_cas b j c g) = (\<not> b \<or> c \<or> turn_of n w j \<le> turn_of n w i)"
| "will_look n w i f (W_empty b j c) = (\<not> b \<or> c \<or> turn_of n w j \<le> turn_of n w i)"
| "will_look n w i f (W_empty_front b j c x) = (\<not> b \<or> c \<or> (if j = i then x \<noteq> f else turn_of n w j \<le> turn_of n w i))"
| "will_look n w i f W_lock = False"
| "will_look n w i f W_wait = False"
| "will_look n w i f W_exit = False"
| "will_look n w i f p = True"

text \<open>
  What a worker knows of the indices \<open>f\<close> and \<open>x\<close> of its own queue: while it searches the other queues or sleeps the queue is empty, and the queue it looks at is one of the
  others.
\<close>

fun place_ok :: "nat \<Rightarrow> nat \<Rightarrow> int \<Rightarrow> int \<Rightarrow> worker_pc \<Rightarrow> bool" where
  "place_ok n w f x (W_claim b y g) = (x = y \<and> g \<le> f)"
| "place_ok n w f x (W_restore b y) = (x = y - 1 \<and> y - 1 \<le> f)"
| "place_ok n w f x (W_cas b g) = (x = g + 1 \<and> g \<le> f)"
| "place_ok n w f x (W_steal b j c) = (x \<le> f \<and> j \<le> n \<and> j \<noteq> w)"
| "place_ok n w f x (W_steal_back b j c g) = (x \<le> f \<and> j \<le> n \<and> j \<noteq> w)"
| "place_ok n w f x (W_steal_cas b j c g) = (x \<le> f \<and> j \<le> n \<and> j \<noteq> w)"
| "place_ok n w f x (W_empty b j c) = (x \<le> f \<and> j \<le> n \<and> j \<noteq> w)"
| "place_ok n w f x (W_empty_front b j c y) = (x \<le> f \<and> j \<le> n \<and> j \<noteq> w)"
| "place_ok n w f x W_lock = (x \<le> f)"
| "place_ok n w f x W_wait = (x \<le> f)"
| "place_ok n w f x p = True"

definition places_ok :: "nat \<Rightarrow> sched_sys \<Rightarrow> bool" where
  "places_ok n s \<longleftrightarrow> (\<forall>w. 1 \<le> w \<and> w \<le> n \<longrightarrow> place_ok n w (fronts s w) (backs s w) (workers s w))"

definition in_mutex :: "worker_pc \<Rightarrow> bool" where
  "in_mutex p \<longleftrightarrow> p = W_wait \<or> p = W_unlock"

definition mutex_ok :: "nat \<Rightarrow> sched_sys \<Rightarrow> bool" where
  "mutex_ok n s \<longleftrightarrow> (\<forall>w. task_mutex s = Some w \<longleftrightarrow> 1 \<le> w \<and> w \<le> n \<and> in_mutex (workers s w))"

definition none_gone :: "nat \<Rightarrow> sched_sys \<Rightarrow> bool" where
  "none_gone n s \<longleftrightarrow> (\<forall>w. 1 \<le> w \<and> w \<le> n \<longrightarrow> workers s w \<noteq> W_exit)"

text \<open>Every queue with something in it is going to be looked at, or somebody is going to be woken up.\<close>

definition looked_at :: "nat \<Rightarrow> sched_sys \<Rightarrow> bool" where
  "looked_at n s \<longleftrightarrow> wait_flag s \<or> (\<exists>e. calling s e) \<or>
     (\<forall>i\<le>n. fronts s i < backs s i \<longrightarrow> (\<exists>w. 1 \<le> w \<and> w \<le> n \<and> will_look n w i (fronts s i) (workers s w)))"

text \<open>A worker whose store is buffered has not loaded anything since.\<close>

definition buffers_ok :: "nat \<Rightarrow> sched_sys \<Rightarrow> bool" where
  "buffers_ok n s \<longleftrightarrow> (\<forall>w. buffered s w \<longrightarrow> 1 \<le> w \<and> w \<le> n \<and> workers s w = W_dequeue True)"

definition awake :: "nat \<Rightarrow> sched_sys \<Rightarrow> bool" where
  "awake n s \<longleftrightarrow> none_gone n s \<and> looked_at n s \<and> buffers_ok n s"

definition sched_inv :: "nat \<Rightarrow> bool \<Rightarrow> sched_sys \<Rightarrow> bool" where
  "sched_inv n L s \<longleftrightarrow> places_ok n s \<and> mutex_ok n s \<and> (dtor s = D_none \<or> stop s) \<and> (L \<or> stop s \<or> overtook s \<or> awake n s)"

section \<open>The steps keep the invariant\<close>

lemma goto_simps [simp]:
  "workers (goto w p s) = (workers s)(w := p)" "fronts (goto w p s) = fronts s" "backs (goto w p s) = backs s"
  "wait_flag (goto w p s) = wait_flag s" "buffered (goto w p s) = buffered s" "overtook (goto w p s) = overtook s"
  "stop (goto w p s) = stop s" "task_mutex (goto w p s) = task_mutex s" "calling (goto w p s) = calling s" "dtor (goto w p s) = dtor s"
  by (simp_all add: goto_def)

lemma drained_Some: "drained w p s u = Some t \<longleftrightarrow> \<not> buffered s w \<and> t = goto w p u"
  by (auto simp: drained_def)

lemma loads_Some: "loads w p s = Some t \<longleftrightarrow> t = goto w p (s\<lparr>overtook := overtook s \<or> buffered s w\<rparr>)"
  by (auto simp: loads_def)

lemmas access_simps = drained_Some loads_Some

lemma move_Worker: "sched_move n (Worker w) s = Some t \<longleftrightarrow> 1 \<le> w \<and> w \<le> n \<and> advance_worker n w (workers s w) s = Some t"
  by auto

lemma move_others:
  "sched_move n (Flush w) s = Some t \<longleftrightarrow>
     1 \<le> w \<and> w \<le> n \<and> buffered s w \<and> t = s\<lparr>wait_flag := False, buffered := (buffered s)(w := False)\<rparr>"
  "sched_move n (Post w) s = Some t \<longleftrightarrow>
     1 \<le> w \<and> w \<le> n \<and> workers s w = W_run \<and> t = goto w W_notify (s\<lparr>backs := (backs s)(w := backs s w + 1)\<rparr>)"
  "sched_move n (Finish w) s = Some t \<longleftrightarrow> 1 \<le> w \<and> w \<le> n \<and> workers s w = W_run \<and> t = goto w W_exit s"
  "sched_move n (Call e) s = Some t \<longleftrightarrow>
     \<not> calling s e \<and> t = s\<lparr>backs := (backs s)(0 := backs s 0 + 1), calling := (calling s)(e := True)\<rparr>"
  "sched_move n (Notify e) s = Some t \<longleftrightarrow> calling s e \<and> t = s\<lparr>wait_flag := True, calling := (calling s)(e := False)\<rparr>"
  by (auto split: if_splits)

lemma move_Destroy:
  "sched_move n Destroy s = Some t \<Longrightarrow> workers t = workers s \<and> task_mutex t = task_mutex s \<and> fronts t = fronts s \<and> backs t = backs s \<and>
     (dtor s = D_none \<longrightarrow> stop t) \<and> (stop s \<longrightarrow> stop t)"
  by (auto split: if_splits dtor_pc.splits)

subsection \<open>Indices\<close>

lemma next_queue_neq: "1 \<le> n \<Longrightarrow> w \<le> n \<Longrightarrow> next_queue n w \<noteq> w"
  by (auto simp: next_queue_def mod_Suc)

lemma after_check_place: "1 \<le> w \<Longrightarrow> w \<le> n \<Longrightarrow> x \<le> f \<Longrightarrow> place_ok n w f x (after_check n w b j c)"
  using next_queue_le [of n j] next_queue_le [of n w]
  by (auto simp: after_check_def next_queue_def mod_Suc split: if_splits)

lemma place_ok_mono: "place_ok n w f x p \<Longrightarrow> f \<le> g \<Longrightarrow> place_ok n w g x p"
  by (cases p) auto

lemma advance_indices:
  assumes "advance_worker n w p s = Some t"
  shows "fronts s v \<le> fronts t v" and "v \<noteq> w \<Longrightarrow> backs t v = backs s v" and "v \<noteq> w \<Longrightarrow> workers t v = workers s v"
  using assms by (cases p; auto simp: access_simps split: if_splits)+

lemma advance_place:
  assumes "1 \<le> w" and "w \<le> n" and "advance_worker n w p s = Some t" and "place_ok n w (fronts s w) (backs s w) p"
  shows "place_ok n w (fronts t w) (backs t w) (workers t w)"
  using assms next_queue_le [of n w] next_queue_neq [of n w] after_check_place [OF assms(1,2)]
  by (cases p) (auto simp: access_simps split: if_splits)

lemma places_ok_move:
  assumes "sched_move n a s = Some t" and "places_ok n s"
  shows "places_ok n t"
proof (cases a)
  case (Worker w)
  then have w: "1 \<le> w" "w \<le> n" and m: "advance_worker n w (workers s w) s = Some t" using assms(1) by (auto simp only: move_Worker)
  have "place_ok n v (fronts t v) (backs t v) (workers t v)" if "1 \<le> v" "v \<le> n" for v
  proof (cases "v = w")
    case True
    then show ?thesis using advance_place [OF w m] assms(2) w by (simp add: places_ok_def)
  next
    case False
    then show ?thesis using advance_indices [OF m, of v] place_ok_mono [OF _ advance_indices(1) [OF m]] assms(2) that
      by (simp add: places_ok_def)
  qed
  then show ?thesis by (simp add: places_ok_def)
next
  case Destroy
  then show ?thesis using move_Destroy assms by (metis places_ok_def)
qed (use assms in \<open>auto simp: places_ok_def move_others simp del: sched_move.simps\<close>)

subsection \<open>The mutex\<close>

lemma mutex_ok_goto:
  "mutex_ok n s \<Longrightarrow> task_mutex t = task_mutex s \<Longrightarrow> workers t = (workers s)(w := p) \<Longrightarrow> in_mutex p = in_mutex (workers s w) \<Longrightarrow> mutex_ok n t"
  by (auto simp: mutex_ok_def)

lemma mutex_ok_move:
  assumes "sched_move n a s = Some t" and "mutex_ok n s"
  shows "mutex_ok n t"
proof (cases a)
  case (Worker w)
  then have w: "1 \<le> w" "w \<le> n" and m: "advance_worker n w (workers s w) s = Some t" using assms(1) by (auto simp only: move_Worker)
  have k: "task_mutex s = Some w \<longleftrightarrow> in_mutex (workers s w)" using assms(2) w by (simp add: mutex_ok_def)
  show ?thesis
  proof (cases "workers s w")
    case W_lock
    then have n: "task_mutex s = None" and t: "t = goto w W_wait (s\<lparr>task_mutex := Some w\<rparr>)" using m by (auto simp: access_simps split: if_splits)
    have "\<not> in_mutex (workers s v)" if "1 \<le> v" "v \<le> n" for v using assms(2) n that by (auto simp: mutex_ok_def)
    then show ?thesis using w by (auto simp: mutex_ok_def t in_mutex_def)
  next
    case W_unlock
    then have n: "task_mutex s = Some w" and t: "t = goto w W_stop (s\<lparr>task_mutex := None\<rparr>)" using m k by (auto simp: in_mutex_def)
    have "\<not> in_mutex (workers s v)" if "1 \<le> v" "v \<le> n" "v \<noteq> w" for v using assms(2) n that by (force simp: mutex_ok_def)
    then show ?thesis by (auto simp: mutex_ok_def t in_mutex_def)
  qed (use m in \<open>auto intro!: mutex_ok_goto [OF assms(2), of _ w] simp: in_mutex_def after_check_def access_simps split: if_splits\<close>)
next
  case (Post w)
  then show ?thesis using assms(1) by (auto intro!: mutex_ok_goto [OF assms(2), of _ w] simp: in_mutex_def move_others simp del: sched_move.simps)
next
  case (Finish w)
  then show ?thesis using assms(1) by (auto intro!: mutex_ok_goto [OF assms(2), of _ w] simp: in_mutex_def move_others simp del: sched_move.simps)
next
  case Destroy
  then show ?thesis using move_Destroy assms by (metis mutex_ok_def)
qed (use assms in \<open>auto simp: mutex_ok_def move_others simp del: sched_move.simps\<close>)

subsection \<open>Stopping\<close>

lemma advance_frame: "advance_worker n w p s = Some t \<Longrightarrow> stop t = stop s \<and> dtor t = dtor s \<and> calling t = calling s \<and> (overtook s \<longrightarrow> overtook t)"
  by (cases p) (auto simp: access_simps split: if_splits)

lemma stop_move:
  assumes "sched_move n a s = Some t" and "dtor s = D_none \<or> stop s"
  shows "(dtor t = D_none \<or> stop t) \<and> (stop s \<longrightarrow> stop t) \<and> (overtook s \<longrightarrow> overtook t)"
proof (cases a)
  case (Worker w)
  then show ?thesis using assms advance_frame [of n w "workers s w" s t] by (auto simp only: move_Worker)
next
  case Destroy
  then show ?thesis using assms by (cases "dtor s") (auto split: if_splits)
qed (use assms in \<open>auto simp: move_others simp del: sched_move.simps\<close>)

subsection \<open>Nothing is forgotten\<close>

lemma looked_at_all: "1 \<le> w \<Longrightarrow> w \<le> n \<Longrightarrow> (\<And>i. i \<le> n \<Longrightarrow> fronts t i < backs t i \<Longrightarrow> will_look n w i (fronts t i) (workers t w)) \<Longrightarrow> looked_at n t"
  by (auto simp: looked_at_def)

lemma looked_at_keep:
  assumes "looked_at n s" and "1 \<le> w" and "w \<le> n"
    and "workers t = (workers s)(w := p)" and "wait_flag t = wait_flag s" and "calling t = calling s" and "fronts t = fronts s" and "backs t = backs s"
    and "\<And>i. i \<le> n \<Longrightarrow> fronts s i < backs s i \<Longrightarrow> will_look n w i (fronts s i) (workers s w) \<Longrightarrow> will_look n w i (fronts s i) p"
  shows "looked_at n t"
proof (cases "wait_flag s \<or> (\<exists>e. calling s e)")
  case True
  then show ?thesis using assms(5,6) by (auto simp: looked_at_def)
next
  case False
  have "\<exists>v. 1 \<le> v \<and> v \<le> n \<and> will_look n v i (fronts t i) (workers t v)" if i: "i \<le> n" "fronts t i < backs t i" for i
  proof -
    obtain v where v: "1 \<le> v" "v \<le> n" "will_look n v i (fronts s i) (workers s v)"
      using assms(1,7,8) False i by (auto simp: looked_at_def)
    then show ?thesis using assms(2-4,7,8) assms(9) [OF i(1)] i by (cases "v = w") (auto intro!: exI [of _ v])
  qed
  then show ?thesis by (simp add: looked_at_def)
qed

lemma after_check_look:
  assumes w: "1 \<le> w" "w \<le> n" and j: "j \<le> n" "j \<noteq> w" and i: "i \<le> n" "i \<noteq> w"
    and look: "\<not> b \<or> c \<or> (if j = i then d else turn_of n w j \<le> turn_of n w i)"
  shows "will_look n w i f (after_check n w b j (c \<or> d))"
proof -
  have nx: "turn_of n w (next_queue n j) = turn_of n w j + 1" using w(2) j by (rule turn_of_next)
  have first: "turn_of n w (next_queue n w) = 0" using turn_of_first [OF w(2)] w by auto
  have "turn_of n w i \<noteq> n" using turn_of_inj [OF w(2) i(1) w(2)] i(2) turn_of_own [OF w(2)] by auto
  then have lt: "turn_of n w i < n" using turn_of_le [of n w i] by simp
  consider "\<not> b" | "c \<or> d" | "b" "\<not> c" "\<not> d" by blast
  then show ?thesis
  proof cases
    case 3
    then have "j \<noteq> i" and l: "turn_of n w j \<le> turn_of n w i" using look by (auto split: if_splits)
    then have "turn_of n w j \<noteq> turn_of n w i" using turn_of_inj [OF w(2) j(1) i(1)] by auto
    then have le: "turn_of n w j + 1 \<le> turn_of n w i" using l by simp
    then have "next_queue n j \<noteq> w" using nx lt turn_of_own [OF w(2)] by auto
    then show ?thesis using 3 le nx by (simp add: after_check_def)
  qed (use first in \<open>auto simp: after_check_def\<close>)
qed

text \<open>The places from which a worker is certain to look at every queue but its own, or to run a coroutine.\<close>

lemma search_all:
  assumes w: "1 \<le> w" "w \<le> n"
  shows "will_look n w i f (W_steal b (next_queue n w) c)"
  using turn_of_first [OF w(2)] w by auto

lemma advance_looked_at:
  assumes w: "1 \<le> w" "w \<le> n" and m: "advance_worker n w (workers s w) s = Some t"
    and run: "\<not> stop s" "looked_at n s" and p: "place_ok n w (fronts s w) (backs s w) (workers s w)"
  shows "looked_at n t"
proof (cases "workers s w")
  case (W_steal b j c)
  then show ?thesis using m by (intro looked_at_keep [OF run(2) w, of _ "W_steal_back b j c (fronts s j)"]) (auto simp: access_simps)
next
  case (W_steal_back b j c f)
  then show ?thesis using m
    by (intro looked_at_keep [OF run(2) w, of _ "if backs s j = f \<or> backs s j + 1 = f then W_empty b j c else W_steal_cas b j c f"])
      (auto simp: access_simps)
next
  case (W_steal_cas b j c f)
  show ?thesis
  proof (cases "fronts s j = f")
    case True
    then show ?thesis using m W_steal_cas by (intro looked_at_all [OF w]) (auto simp: access_simps)
  next
    case False
    then show ?thesis using m W_steal_cas by (intro looked_at_keep [OF run(2) w, of _ "W_empty b j c"]) (auto simp: access_simps)
  qed
next
  case (W_empty b j c)
  then show ?thesis using m by (intro looked_at_keep [OF run(2) w, of _ "W_empty_front b j c (backs s j)"]) (auto simp: access_simps)
next
  case (W_empty_front b j c x)
  then have j: "j \<le> n" "j \<noteq> w" and own: "backs s w \<le> fronts s w" using p by auto
  have "will_look n w i (fronts s i) (after_check n w b j (c \<or> x \<noteq> fronts s j))"
    if "i \<le> n" "fronts s i < backs s i" "will_look n w i (fronts s i) (workers s w)" for i
    using that own W_empty_front by (intro after_check_look [OF w j that(1)]) (auto split: if_splits)
  then show ?thesis using m W_empty_front
    by (intro looked_at_keep [OF run(2) w, of _ "after_check n w b j (c \<or> x \<noteq> fronts s j)"]) (auto simp: access_simps)
next
  case W_lock
  then show ?thesis using m by (intro looked_at_keep [OF run(2) w, of _ W_wait]) (auto simp: access_simps split: if_splits)
next
  case (W_cas b f)
  then show ?thesis using m search_all [OF w] by (intro looked_at_all [OF w]) (auto simp: access_simps split: if_splits simp del: will_look.simps(1))
next
  case (W_dequeue b)
  then show ?thesis using m search_all [OF w] by (intro looked_at_all [OF w]) (auto simp: access_simps split: if_splits simp del: will_look.simps(1))
next
  case W_notify
  then show ?thesis using m by (auto simp: looked_at_def access_simps)
qed (use m run(1) in \<open>auto intro!: looked_at_all [OF w] simp: access_simps split: if_splits\<close>)

lemma advance_awake:
  assumes w: "1 \<le> w" "w \<le> n" and m: "advance_worker n w (workers s w) s = Some t"
    and run: "\<not> stop s" "awake n s" "\<not> overtook t" and p: "place_ok n w (fronts s w) (backs s w) (workers s w)"
  shows "awake n t"
proof -
  have "looked_at n t" using advance_looked_at [OF w m run(1) _ p] run(2) by (simp add: awake_def)
  moreover have "none_gone n t"
    using m run(1,2) by (cases "workers s w") (auto simp: awake_def none_gone_def access_simps after_check_def split: if_splits)
  moreover have "buffers_ok n t"
  proof -
    have b: "buffered s v \<Longrightarrow> 1 \<le> v \<and> v \<le> n \<and> workers s v = W_dequeue True" for v
      using run(2) unfolding awake_def buffers_ok_def by blast
    have "buffered t v \<Longrightarrow> v = w \<and> workers s w = W_clear \<or> buffered s v \<and> v \<noteq> w" for v
      using m run(3) b [of v] by (cases "workers s w") (auto simp: access_simps split: if_splits)
    then show ?thesis using b w m advance_indices(3) [OF m] unfolding buffers_ok_def by fastforce
  qed
  ultimately show ?thesis by (simp add: awake_def)
qed

lemma running_move:
  assumes m: "sched_move n a s = Some t" and fin: "\<not> finishes a" and run: "\<not> stop s" "\<not> stop t" "awake n s" "\<not> overtook t"
    and p: "places_ok n s" and d: "dtor s = D_none \<or> stop s"
  shows "awake n t"
proof (cases a)
  case (Worker w)
  then have w: "1 \<le> w" "w \<le> n" and a: "advance_worker n w (workers s w) s = Some t" using m by (auto simp only: move_Worker)
  have "place_ok n w (fronts s w) (backs s w) (workers s w)" using p w by (simp add: places_ok_def)
  from advance_awake [OF w a run(1,3,4) this] show ?thesis .
next
  case (Flush w)
  then have w: "1 \<le> w" "w \<le> n" "buffered s w" and t: "t = s\<lparr>wait_flag := False, buffered := (buffered s)(w := False)\<rparr>"
    using m by (auto simp only: move_others)
  have "workers s w = W_dequeue True" using run(3) w(3) by (simp add: awake_def buffers_ok_def)
  then have "looked_at n t" using t by (intro looked_at_all [OF w(1,2)]) simp
  then show ?thesis using run(3) t by (auto simp: awake_def none_gone_def buffers_ok_def)
next
  case (Post w)
  then have w: "1 \<le> w" "w \<le> n" "workers s w = W_run" and t: "t = goto w W_notify (s\<lparr>backs := (backs s)(w := backs s w + 1)\<rparr>)"
    using m by (auto simp only: move_others)
  have "looked_at n t" using t by (intro looked_at_all [OF w(1,2)]) simp
  then show ?thesis using run(3) t w(3) by (auto simp: awake_def none_gone_def buffers_ok_def)
next
  case (Call e)
  then show ?thesis using m run(3) by (auto simp: awake_def none_gone_def looked_at_def buffers_ok_def move_others simp del: sched_move.simps)
next
  case (Notify e)
  then show ?thesis using m run(3) by (auto simp: awake_def none_gone_def looked_at_def buffers_ok_def move_others simp del: sched_move.simps)
next
  case Destroy
  then show ?thesis using move_Destroy [of n s t] m d run(1,2) by blast
qed (use fin in simp)

lemma sched_step_inv:
  assumes "sched_step n L s t" and "sched_inv n L s"
  shows "sched_inv n L t"
proof -
  obtain a where a: "finishes a \<longrightarrow> L" "sched_move n a s = Some t" using assms(1) by (auto simp: sched_step_def)
  have i: "places_ok n s" "mutex_ok n s" "dtor s = D_none \<or> stop s" "L \<or> stop s \<or> overtook s \<or> awake n s"
    using assms(2) by (simp_all add: sched_inv_def)
  note st = stop_move [OF a(2) i(3)]
  have "L \<or> stop t \<or> overtook t \<or> awake n t"
    using running_move [OF a(2) _ _ _ _ _ i(1,3)] st i(4) a(1) by blast
  with places_ok_move [OF a(2) i(1)] mutex_ok_move [OF a(2) i(2)] st show ?thesis by (simp add: sched_inv_def)
qed

lemma sched_init_inv: "sched_init s \<Longrightarrow> sched_inv n L s"
  by (auto simp: sched_init_def sched_start_def sched_inv_def places_ok_def mutex_ok_def in_mutex_def awake_def none_gone_def looked_at_def
      buffers_ok_def)

interpretation sch: transition_invariant sched_init "sched_step n L" "sched_inv n L"
  by unfold_locales (auto intro: sched_init_inv sched_step_inv)

section \<open>Properties\<close>

lemma sched_exec_reachable:
  "sched_exec n as s = Some t \<Longrightarrow> (\<And>a. a \<in> set as \<Longrightarrow> finishes a \<Longrightarrow> L) \<Longrightarrow> reachable sched_init (sched_step n L) s \<Longrightarrow>
    reachable sched_init (sched_step n L) t"
proof (induction as arbitrary: s)
  case (Cons a as)
  then obtain u where u: "sched_move n a s = Some u" "sched_exec n as u = Some t" by (auto split: option.splits)
  have "sched_step n L s u" using u(1) Cons.prems(2) by (auto simp: sched_step_def)
  with Cons.prems(3) have "reachable sched_init (sched_step n L) u" by (rule reachable_step)
  with u(2) Cons.prems(2) show ?case by (auto intro: Cons.IH)
qed simp

lemma sched_start_reachable: "reachable sched_init (sched_step n L) sched_start"
  by (rule reachable_init) (simp add: sched_init_def)

text \<open>A worker cannot go on only when it has ended, waits for the mutex or for the flag, or has a store to write first.\<close>

lemma advance_possible:
  "p \<noteq> W_exit \<Longrightarrow> p = W_lock \<longrightarrow> task_mutex s = None \<Longrightarrow> p = W_wait \<longrightarrow> wait_flag s \<Longrightarrow> buffered s w \<longrightarrow> p = W_dequeue True \<Longrightarrow>
    \<exists>t. advance_worker n w p s = Some t"
  by (cases p) (auto simp: access_simps loads_def drained_def)

lemma worker_goes_on:
  assumes inv: "mutex_ok n s" "awake n s" and task: "i \<le> n" "fronts s i < backs s i" and n: "1 \<le> n" and quiet: "\<forall>e. \<not> calling s e"
  shows "\<exists>w t. sched_move n (Worker w) s = Some t \<and> (wait_flag s \<or> will_look n w i (fronts s i) (workers s w))"
proof -
  have b: "buffered s w \<longrightarrow> workers s w = W_dequeue True" for w using inv(2) by (simp add: awake_def buffers_ok_def)
  have ng: "workers s w \<noteq> W_exit" if "1 \<le> w" "w \<le> n" for w using inv(2) that by (simp add: awake_def none_gone_def)
  show ?thesis
  proof (cases "wait_flag s")
    case True
    show ?thesis
    proof (cases "task_mutex s")
      case None
      then show ?thesis using advance_possible [of "workers s 1" s 1 n] True n ng [of 1] b [of 1] by (auto intro!: exI [of _ 1])
    next
      case (Some w)
      then have w: "1 \<le> w" "w \<le> n" "in_mutex (workers s w)" using inv(1) by (auto simp: mutex_ok_def)
      then show ?thesis using advance_possible [of "workers s w" s w n] True b [of w] by (auto simp: in_mutex_def intro!: exI [of _ w])
    qed
  next
    case False
    then obtain w where w: "1 \<le> w" "w \<le> n" "will_look n w i (fronts s i) (workers s w)"
      using inv(2) task quiet by (auto simp: awake_def looked_at_def)
    then have "workers s w \<noteq> W_exit" "workers s w \<noteq> W_lock" "workers s w \<noteq> W_wait" by auto
    then show ?thesis using advance_possible [of "workers s w" s w n] w b [of w] by (auto intro!: exI [of _ w])
  qed
qed

text \<open>
  C12. The workers of a scheduler and the threads and coroutines that schedule, in every interleaving of their accesses to the indices of the
  queues, to the flag and to the mutex: as long as the scheduler is not being destroyed (\<open>\<not> stop\<close>), no coroutine of \<open>launch\<close> has ended on a worker (the \<open>False\<close>) and no
  worker has looked at a queue while its store that clears the flag was still in its store buffer (\<open>\<not> overtook\<close>), a queue that has something in it is
  not forgotten: a thread is about to set the flag; or the flag is set and some worker can go on; or some worker can go on that will look at this queue
  before it goes to sleep, and will not go to sleep while the queue has something in it.
\<close>

theorem queued_task_not_forgotten:
  assumes "reachable sched_init (sched_step n False) s" and "\<not> stop s" and "\<not> overtook s" and "1 \<le> n"
    and "i \<le> n" and "fronts s i < backs s i"
  shows "(\<exists>e. calling s e) \<or>
    (\<exists>w t. sched_move n (Worker w) s = Some t \<and> (wait_flag s \<or> will_look n w i (fronts s i) (workers s w)))"
proof -
  have "sched_inv n False s" using assms(1) by (rule sch.reachable_inv)
  then have "mutex_ok n s" "awake n s" using assms(2,3) by (simp_all add: sched_inv_def)
  then show ?thesis using worker_goes_on assms(4-6) by blast
qed

text \<open>The worker has found nothing and sleeps; then a thread puts a coroutine into queue 0 and sets the flag.\<close>

lemmas sched_run_defs = sched_start_def goto_def next_queue_def after_check_def loads_def drained_def

theorem queued_task_not_forgotten_witness:
  "\<exists>s. reachable sched_init (sched_step 1 False) s \<and> fronts s 0 < backs s 0 \<and> workers s 1 = W_wait \<and> (\<forall>e. \<not> calling s e) \<and>
     (\<exists>w t. sched_move 1 (Worker w) s = Some t \<and> (wait_flag s \<or> will_look 1 w 0 (fronts s 0) (workers s w)))"
proof -
  let ?as = "[Worker 1, Worker 1, Worker 1, Worker 1, Worker 1, Worker 1, Worker 1, Call 7, Notify 7]"
  obtain s where s: "sched_exec 1 ?as sched_start = Some s" "fronts s 0 < backs s 0" "workers s 1 = W_wait" "\<not> stop s" "\<not> overtook s"
      "\<forall>e. \<not> calling s e"
    by (simp add: sched_run_defs)
  have r: "reachable sched_init (sched_step 1 False) s"
    by (rule sched_exec_reachable [OF s(1) _ sched_start_reachable]) auto
  from queued_task_not_forgotten [OF r s(4,5) le_refl le0 s(2)] r s(2,3,6) show ?thesis by blast
qed

text \<open>
  A wake-up is lost when the store that clears the flag stays in the store buffer while the worker searches, which the relaxed \<open>clear\<close> allows: a thread puts
  a coroutine into a queue the worker has already found empty and finds the flag still set, so that it notifies nobody; then the store is written and
  the worker goes to sleep. The coroutine is in the queue, the scheduler is not being destroyed, and nobody can go on until another thread
  schedules something.
\<close>

theorem scheduler_wakeup_lost:
  "\<exists>s. reachable sched_init (sched_step 1 False) s \<and> \<not> stop s \<and> fronts s 0 < backs s 0 \<and> workers s 1 = W_wait \<and> (\<forall>e. \<not> calling s e) \<and>
     (\<forall>w. \<not> buffered s w) \<and> {a. sched_move 1 a s \<noteq> None} \<subseteq> insert Destroy (range Call)"
proof -
  let ?as = "[Call 7, Notify 7, Worker 1, Worker 1, Worker 1, Worker 1, Worker 1, Worker 1, Worker 1, Worker 1, Worker 1,
    Worker 1, Worker 1, Worker 1, Worker 1, Worker 1, Worker 1, Worker 1, Worker 1, Worker 1,
    Worker 1, Worker 1, Worker 1, Worker 1, Worker 1, Worker 1, Worker 1, Worker 1, Worker 1, Call 7, Notify 7, Flush 1, Worker 1]"
  obtain s where s: "sched_exec 1 ?as sched_start = Some s" "fronts s 0 < backs s 0" "workers s 1 = W_wait" "\<not> stop s"
      "\<forall>e. \<not> calling s e" "\<forall>w. \<not> buffered s w" "\<not> wait_flag s"
    by (simp add: sched_run_defs)
  have r: "reachable sched_init (sched_step 1 False) s"
    by (rule sched_exec_reachable [OF s(1) _ sched_start_reachable]) auto
  have "a \<in> insert Destroy (range Call)" if "a \<in> {a. sched_move 1 a s \<noteq> None}" for a
    using that s(3,5-7) by (cases a) (auto simp: le_Suc_eq split: if_splits)
  then have "{a. sched_move 1 a s \<noteq> None} \<subseteq> insert Destroy (range Call)" by (rule subsetI)
  with r s(2-6) show ?thesis by (intro exI [of _ s] conjI)
qed

text \<open>
  C39. The destructor can wait for ever. A worker that was woken up tests \<open>M_stop_requested\<close> and then clears the flag; when the destructor sets
  both in between, the worker clears the flag of the destructor, finds no coroutine and goes to sleep, and neither it
  nor the destructor can go on: only another thread that schedules a coroutine can do anything. No load has overtaken a store here.
\<close>

theorem scheduler_destructor_hangs:
  "\<exists>s. reachable sched_init (sched_step 1 False) s \<and> dtor s = D_join \<and> workers s 1 = W_wait \<and> stop s \<and> \<not> overtook s \<and>
     (\<forall>e. \<not> calling s e) \<and> {a. sched_move 1 a s \<noteq> None} \<subseteq> range Call"
proof -
  let ?as = "[Call 7, Notify 7, Worker 1, Worker 1, Worker 1, Worker 1, Worker 1, Worker 1, Worker 1, Worker 1, Worker 1,
    Worker 1, Worker 1, Worker 1, Worker 1, Worker 1, Worker 1, Worker 1, Worker 1, Worker 1,
    Worker 1, Worker 1, Worker 1, Destroy, Destroy, Worker 1, Flush 1, Worker 1, Worker 1, Worker 1, Worker 1, Worker 1, Worker 1]"
  obtain s where s: "sched_exec 1 ?as sched_start = Some s" "dtor s = D_join" "workers s 1 = W_wait" "stop s" "\<forall>e. \<not> calling s e"
      "\<forall>w. \<not> buffered s w" "\<not> wait_flag s" "\<not> overtook s"
    by (simp add: sched_run_defs)
  have r: "reachable sched_init (sched_step 1 False) s"
    by (rule sched_exec_reachable [OF s(1) _ sched_start_reachable]) auto
  have "a \<in> range Call" if "a \<in> {a. sched_move 1 a s \<noteq> None}" for a
    using that s(2,3,5-7) by (cases a) (auto simp: le_Suc_eq split: if_splits)
  then have "{a. sched_move 1 a s \<noteq> None} \<subseteq> range Call" by (rule subsetI)
  with r s(2-5,8) show ?thesis by (intro exI [of _ s] conjI)
qed

text \<open>
  The end of a coroutine made by \<open>launch\<close> ends its worker. After as many of them as there are workers, a coroutine that is scheduled is never resumed:
  no worker can take a step, whatever the other threads do.
\<close>

theorem launch_ends_worker:
  "\<exists>s. reachable sched_init (sched_step 1 True) s \<and> fronts s 0 < backs s 0 \<and> wait_flag s \<and> \<not> stop s \<and>
     (\<forall>w t. sched_move 1 (Worker w) s \<noteq> Some t)"
proof -
  let ?as = "[Call 7, Notify 7, Worker 1, Worker 1, Worker 1, Worker 1, Worker 1, Finish 1, Call 7, Notify 7]"
  obtain s where s: "sched_exec 1 ?as sched_start = Some s" "fronts s 0 < backs s 0" "workers s 1 = W_exit" "\<not> stop s" "wait_flag s"
    by (simp add: sched_run_defs)
  have r: "reachable sched_init (sched_step 1 True) s"
    by (rule sched_exec_reachable [OF s(1) _ sched_start_reachable]) auto
  have "sched_move 1 (Worker w) s \<noteq> Some t" for w t
  proof -
    have "w = 1 \<or> \<not> (1 \<le> w \<and> w \<le> 1)" by auto
    then show ?thesis using s(3) by (auto simp: move_Worker simp del: sched_move.simps)
  qed
  with r s(2,4,5) show ?thesis by blast
qed

text \<open>
  C29. The search for a coroutine, with the queues of \<^theory_text>\<open>Work_Queues\<close>: \<open>peek_next_coroutine\<close> returns, takes the newest task of the thread or, when it has
  none, the oldest one of the first other queue that is not empty, and reports that there is nothing exactly when all queues are empty; the
  other tasks stay where they are.
\<close>

theorem peek_next_coroutine_takes:
  assumes "hold_queues (queues s) xss" and "length xss = Suc n" and "n = unat (M_total_threads s)" and "tid \<le> n"
  shows "\<exists>s' r. peek_next_coroutine stealing_dequeue steal stealing_empty tid s = Some (r, s') \<and>
    (if xss ! tid \<noteq> [] then r = Some (last (xss ! tid)) \<and> hold_queues (queues s') (xss[tid := butlast (xss ! tid)])
     else case first_task xss (steal_order n tid) of
       None \<Rightarrow> r = None \<and> hold_queues (queues s') xss
     | Some i \<Rightarrow> r = Some (hd (xss ! i)) \<and> hold_queues (queues s') (xss[i := tl (xss ! i)])) \<and>
    (r = None \<longleftrightarrow> (\<forall>xs \<in> set xss. xs = []))"
proof -
  obtain s' r where p: "peek_next_coroutine stealing_dequeue steal stealing_empty tid s = Some (r, s')"
    and r: "if xss ! tid \<noteq> [] then r = Some (last (xss ! tid)) \<and> hold_queues (queues s') (xss[tid := butlast (xss ! tid)])
     else case first_task xss (steal_order n tid) of
       None \<Rightarrow> r = None \<and> hold_queues (queues s') xss
     | Some i \<Rightarrow> r = Some (hd (xss ! i)) \<and> hold_queues (queues s') (xss[i := tl (xss ! i)])"
    using wsq.peek_next [of s xss n tid] assms unfolding wsq_hold by blast
  have "xss ! tid \<in> set xss" using assms(2,4) by simp
  then have "r = None \<longleftrightarrow> (\<forall>xs \<in> set xss. xs = [])"
    using r first_task_none [OF assms(2,4)] by (auto split: if_splits option.splits)
  with p r show ?thesis by blast
qed

text \<open>Three queues of which that of thread 1 is empty and the other two are not.\<close>

theorem peek_next_coroutine_takes_witness:
  "\<exists>(s :: nat work_queue scheduler) s'. hold_queues (queues s) [[5], [], [6, 7]] \<and>
     peek_next_coroutine stealing_dequeue steal stealing_empty 1 s = Some (Some 6, s') \<and> hold_queues (queues s') [[5], [], [7]]"
proof -
  let ?q = "work_stealing_queue (0 :: nat) 64"
  have h: "holds ?q (2 ^ 6) []"
    using io_work_queue_holds [of 6 "0 :: nat"] by (simp add: work_stealing_queue_def io_work_queue_def)
  obtain p c1 where "holds p c1 ([] @ [5 :: nat])" by (rule stealing_enqueue_ok [OF h, of 0 5]) auto
  then have p: "holds p c1 [5]" by simp
  obtain q1 c2 where "holds q1 c2 ([] @ [6 :: nat])" by (rule stealing_enqueue_ok [OF h, of 0 6]) auto
  then have q1: "holds q1 c2 [6]" by simp
  obtain q c3 where "holds q c3 ([6] @ [7 :: nat])" by (rule stealing_enqueue_ok [OF q1, of 0 7]) auto
  then have q: "holds q c3 [6, 7]" by simp
  let ?c = "\<lambda>q. \<lparr>M_status = STATUS_READY, M_tasks = q\<rparr>"
  define s where "s = (scheduler_new ?q 1 2)\<lparr>M_thread_contexts := [?c p, ?c ?q, ?c q]\<rparr>"
  have hq: "hold_queues (queues s) [[5], [], [6, 7]]"
    using h p q by (auto simp: s_def queues_def hold_queues_def)
  have "M_total_threads s = 2" by (simp add: s_def scheduler_new_def init_thread_def numeral_2_eq_2)
  then have t: "2 = unat (M_total_threads s)" by simp
  have f: "first_task [[5], [], [6, 7 :: nat]] (steal_order 2 1) = Some 2" by (simp add: first_task_def steal_order_def numeral_2_eq_2)
  show ?thesis using peek_next_coroutine_takes [OF hq _ t, of 1] hq f by (auto simp: numeral_2_eq_2)
qed

text \<open>A thread of another scheduler, whose number is larger than that of every worker, searches for ever when there is nothing to do.\<close>

theorem steal_task_diverges:
  assumes "hold_queues (queues s) xss" and "length xss = Suc (unat (M_total_threads s))" and "\<forall>xs \<in> set xss. xs = []"
    and "unat (M_total_threads s) < tid"
  shows "steal_task steal stealing_empty tid s = None"
proof -
  have "(tid + 1) mod (unat (M_total_threads s) + 1) \<le> unat (M_total_threads s)"
    using mod_less_divisor [of "unat (M_total_threads s) + 1" "tid + 1"] by linarith
  from wsq.steal_loop_diverges [unfolded wsq_hold, OF assms(4,1,2,3) this] show ?thesis
    by (simp add: steal_task_def Let_def)
qed

text \<open>
  A queue whose indices have crossed, as \<open>task_taken_twice\<close> leaves them, has nothing to steal and is not \<open>empty\<close>: while it stays so and the other queues have
  nothing to steal, \<open>steal_task\<close> of every other thread goes round for ever.
\<close>

lemma crossed_nothing: "M_front q = M_back q + 1 \<Longrightarrow> steal q = Some (None, q) \<and> \<not> stealing_empty q"
  by (simp add: steal_def stealing_empty_def)

lemma steal_loop_spins:
  fixes steal_q :: "'q \<Rightarrow> ('t option \<times> 'q) option" and empty_q :: "'q \<Rightarrow> bool" and qs :: "'q list"
  assumes tid: "tid \<le> n" and j: "j \<le> n" "j \<noteq> tid" and len: "length qs = Suc n"
    and none: "\<forall>q \<in> set qs. steal_q q = Some (None, q)" and c: "\<not> empty_q (qs ! j)"
    and i: "i \<le> n" "i \<noteq> tid" "c \<or> turn_of n tid i \<le> turn_of n tid j"
  shows "steal_loop steal_q empty_q tid n i c qs = None"
proof -
  define P where "P = (\<lambda>sq eq t m i c rs (y :: 't option \<times> 'q list).
    \<not> (sq = steal_q \<and> eq = empty_q \<and> t = tid \<and> m = n \<and> i \<le> n \<and> i \<noteq> tid \<and> (c \<or> turn_of n tid i \<le> turn_of n tid j) \<and> rs = qs))"
  have n: "1 \<le> n" using tid j by simp
  have first: "turn_of n tid (next_queue n tid) = 0" using turn_of_first [OF tid] n by auto
  have nj: "turn_of n tid j < n" using turn_of_inj [OF tid j(1) tid] j(2) turn_of_own [OF tid] turn_of_le [of n tid j] by fastforce
  have "P steal_q empty_q tid n i c qs y" if "steal_loop steal_q empty_q tid n i c qs = Some y" for y
  proof (rule steal_loop.raw_induct [of P, OF _ that])
    fix self :: "('q \<Rightarrow> ('t option \<times> 'q) option) \<Rightarrow> ('q \<Rightarrow> bool) \<Rightarrow> nat \<Rightarrow> nat \<Rightarrow> nat \<Rightarrow> bool \<Rightarrow> 'q list \<Rightarrow> ('t option \<times> 'q list) option"
      and sq eq t m i c rs y
    assume IH: "\<And>sq eq t m i c rs y. self sq eq t m i c rs = Some y \<Longrightarrow> P sq eq t m i c rs y"
      and y: "(case sq (rs ! i) of
        None \<Rightarrow> None
      | Some (Some handle, q) \<Rightarrow> Some (Some handle, rs[i := q])
      | Some (None, q) \<Rightarrow>
          (let c = (c \<or> \<not> eq q); i' = (i + 1) mod (m + 1); qs = rs[i := q]
           in if i' \<noteq> t then self sq eq t m i' c qs
              else if c then self sq eq t m ((t + 1) mod (m + 1)) False qs
              else Some (None, qs))) = Some y"
    show "P sq eq t m i c rs y"
    proof (rule ccontr)
      assume "\<not> P sq eq t m i c rs y"
      then have p: "sq = steal_q" "eq = empty_q" "t = tid" "m = n" "rs = qs" and i: "i \<le> n" "i \<noteq> tid"
        and look: "c \<or> turn_of n tid i \<le> turn_of n tid j" by (auto simp: P_def)
      define c' where "c' \<longleftrightarrow> c \<or> \<not> empty_q (qs ! i)"
      have "steal_q (qs ! i) = Some (None, qs ! i)" using bspec [OF none nth_mem, of i] len i(1) by simp
      with y [unfolded p] have y': "(if next_queue n i \<noteq> tid then self steal_q empty_q tid n (next_queue n i) c' qs
          else if c' then self steal_q empty_q tid n (next_queue n tid) False qs else Some (None, qs)) = Some y"
        by (simp add: c'_def next_queue_def Let_def cong: if_cong)
      have nx: "turn_of n tid (next_queue n i) = turn_of n tid i + 1" using tid i by (rule turn_of_next)
      have look': "c' \<or> turn_of n tid i + 1 \<le> turn_of n tid j"
        using look c turn_of_inj [OF tid i(1) j(1)] by (cases "i = j") (auto simp: c'_def)
      show False
      proof (cases "next_queue n i = tid")
        case True
        then have "c'" using look' nx nj turn_of_own [OF tid] by auto
        with True y' have "self steal_q empty_q tid n (next_queue n tid) False qs = Some y" by simp
        from IH [OF this] show False using next_queue_le [of n tid] next_queue_neq [OF n tid] first by (simp add: P_def)
      next
        case False
        with y' have "self steal_q empty_q tid n (next_queue n i) c' qs = Some y" by simp
        from IH [OF this] show False using next_queue_le [of n i] False look' nx by (auto simp: P_def)
      qed
    qed
  qed
  then show ?thesis using i by (cases "steal_loop steal_q empty_q tid n i c qs") (auto simp: P_def)
qed

theorem crossed_queue_spins:
  assumes "tid \<le> n" and "n = unat (M_total_threads s)" and "length (queues s) = Suc n" and "j \<le> n" and "j \<noteq> tid"
    and "\<forall>q \<in> set (queues s). steal q = Some (None, q)" and "M_front (queues s ! j) = M_back (queues s ! j) + 1"
  shows "steal_task steal stealing_empty tid s = None"
proof -
  have n: "1 \<le> n" using assms(1,4,5) by simp
  have "steal_loop steal stealing_empty tid n (next_queue n tid) False (queues s) = None"
    using crossed_nothing [OF assms(7)] turn_of_first [OF assms(1)] n
    by (intro steal_loop_spins [OF assms(1,4,5,3,6)] next_queue_le next_queue_neq [OF n assms(1)]) auto
  then show ?thesis by (simp add: steal_task_def Let_def next_queue_def assms(2))
qed

text \<open>
  A coroutine that a worker schedules on its own scheduler is the next one it takes, and the first one that another thread schedules is found by every
  worker that has nothing to do.
\<close>

theorem scheduled_is_next:
  assumes "hold_queues (queues s) xss" and "length xss = Suc n" and "n = unat (M_total_threads s)" and "1 \<le> tid" and "tid \<le> n"
    and "Suc (length (xss ! tid)) < 2 ^ 61"
  shows "\<exists>s1 s2. schedule (stealing_enqueue dflt) tid (M_id s) h s = Some (\<not> M_task_wait_flag s, s1) \<and>
    peek_next_coroutine stealing_dequeue steal stealing_empty tid s1 = Some (Some h, s2) \<and> hold_queues (queues s2) xss"
proof -
  have t: "tid < length xss" using assms(2,5) by simp
  obtain s1 where s1: "schedule (stealing_enqueue dflt) tid (M_id s) h s = Some (\<not> M_task_wait_flag s, s1)"
      "M_total_threads s1 = M_total_threads s" "hold_queues (queues s1) (xss[tid := xss ! tid @ [h]])"
    using wsq.schedule_adds [unfolded wsq_hold, OF assms(1), of tid tid "M_id s" dflt h] assms(4,6) t by auto
  let ?yss = "xss[tid := xss ! tid @ [h]]"
  have e: "?yss ! tid = xss ! tid @ [h]" using t by simp
  have "length ?yss = Suc n" "n = unat (M_total_threads s1)" using assms(2,3) s1(2) by simp_all
  from wsq.peek_next [unfolded wsq_hold, OF s1(3) this assms(5)] obtain s2 where
    "peek_next_coroutine stealing_dequeue steal stealing_empty tid s1 = Some (Some h, s2)" "hold_queues (queues s2) xss"
    unfolding e by auto
  with s1(1) show ?thesis by blast
qed

text \<open>
  The counters of the threads: a new worker has status \<open>READY\<close> but is not counted, so the first time it runs the number of ready threads wraps
  around.
\<close>

theorem ready_count_wraps:
  "M_total_ready_threads (set_thread_status q STATUS_RUNNING 1 (scheduler_new q i 1)) = - 1"
  by (simp add: set_thread_running_def scheduler_new_def init_thread_def set_status_def)


end
