(* ===== verification/Coroutine_Events.thy ===== *)
theory Coroutine_Events
  imports Godby_Prelude
begin

text \<open>
  The other coroutine types of \<^verbatim>\<open>samples/io_service.h\<close>: \<open>event\<close>, on which one coroutine waits for the events that any number of
  threads count up; \<open>launch\<close>, the handle of a coroutine that a plain thread waits for; and \<open>generator\<close> and \<open>task\<close>, which run on the
  thread of the coroutine that awaits them.
\<close>

section \<open>Events\<close>

text \<open>
  The coroutine that awaits the event. In \<open>C_suspended\<close> it is suspended, and the thread it ran on goes on in \<open>await_suspend\<close>: \<open>tail_pc\<close> says
  where, before the load of the count, before the exchange, or before the call of \<open>get_next_coroutine\<close>.
\<close>

datatype event_pc = C_run | C_ready | C_store | C_suspended | C_resume

datatype tail_pc = T_none | T_test | T_exchange | T_next

text \<open>
  The two stores of \<open>await_suspend\<close>, of the handle and of \<open>M_handle_ctl\<close>, are a plain and a relaxed one: the processor may keep them in
  its store buffer while the thread goes on to load the count, so that other threads do not see them yet. \<open>buffered\<close> says that they are there;
  an exchange of the same thread waits until they are written. \<open>overtook\<close> records that a load of the count found 0 while they were in the buffer.

  \<open>in_set\<close> and \<open>in_schedule\<close> count the threads in \<open>set\<close>, before the compare-and-exchange and after one that succeeded. \<open>woken\<close> counts the resumptions the
  coroutine was given and has not used. When the coroutine leaves \<open>await_resume\<close> its awaiter is destroyed; \<open>left\<close> counts the threads that are
  still in \<open>await_suspend\<close> of such an awaiter, and \<open>stale\<close> records that one of them has used it. \<open>added\<close> and \<open>delivered\<close> are the sums of what
  was set and what was received.
\<close>

record event_sys =
  M_handle :: bool
  M_event_count :: u64
  M_handle_ctl :: bool
  waiter :: event_pc
  tail :: tail_pc
  buffered :: bool
  in_set :: nat
  in_schedule :: nat
  woken :: nat
  left :: nat
  added :: u64
  delivered :: u64
  overtook :: bool
  stale :: bool
  fault :: bool

text \<open>\<open>event_awaiter\<close>.\<close>

inductive event_await_step :: "event_sys \<Rightarrow> event_sys \<Rightarrow> bool" where
  await_begin: "waiter s = C_run \<Longrightarrow> event_await_step s (s\<lparr>waiter := C_ready\<rparr>)"
| await_ready: "waiter s = C_ready \<Longrightarrow>
    event_await_step s (s\<lparr>waiter := if M_event_count s \<noteq> 0 then C_resume else C_store\<rparr>)"
| await_suspend: "waiter s = C_store \<Longrightarrow> event_await_step s (s\<lparr>waiter := C_suspended, tail := T_test, buffered := True\<rparr>)"
| suspend_flush: "buffered s \<Longrightarrow> event_await_step s (s\<lparr>buffered := False, M_handle := True, M_handle_ctl := True\<rparr>)"
| suspend_test: "tail s = T_test \<Longrightarrow>
    event_await_step s (s\<lparr>tail := if M_event_count s \<noteq> 0 then T_exchange else T_next,
      overtook := overtook s \<or> buffered s \<and> M_event_count s = 0\<rparr>)"
| suspend_exchange: "tail s = T_exchange \<Longrightarrow> \<not> buffered s \<Longrightarrow>
    event_await_step s (s\<lparr>M_handle_ctl := False, tail := if M_handle_ctl s then T_none else T_next,
      woken := if M_handle_ctl s then woken s + 1 else woken s\<rparr>)"
| suspend_next: "tail s = T_next \<Longrightarrow> event_await_step s (s\<lparr>tail := T_none\<rparr>)"
| await_woken: "waiter s = C_suspended \<Longrightarrow> woken s = Suc n \<Longrightarrow> event_await_step s (s\<lparr>waiter := C_resume, woken := n\<rparr>)"
| await_resume: "waiter s = C_resume \<Longrightarrow>
    event_await_step s (s\<lparr>M_event_count := 0, delivered := delivered s + M_event_count s, waiter := C_run, tail := T_none,
      left := if tail s = T_none then left s else left s + 1\<rparr>)"
| use_after_resume: "left s > 0 \<Longrightarrow> event_await_step s (s\<lparr>stale := True\<rparr>)"

text \<open>\<open>set\<close>.\<close>

inductive event_set_step :: "event_sys \<Rightarrow> event_sys \<Rightarrow> bool" where
  set_add: "event_set_step s (s\<lparr>M_event_count := M_event_count s + events_count, added := added s + events_count, in_set := in_set s + 1\<rparr>)"
| set_exchange: "in_set s = Suc n \<Longrightarrow>
    event_set_step s (s\<lparr>in_set := n, M_handle_ctl := False, in_schedule := if M_handle_ctl s then in_schedule s + 1 else in_schedule s\<rparr>)"
| set_schedule: "in_schedule s = Suc n \<Longrightarrow> M_handle s \<Longrightarrow> event_set_step s (s\<lparr>in_schedule := n, woken := woken s + 1\<rparr>)"

text \<open>A null handle is scheduled, or a coroutine that is not suspended is resumed.\<close>

inductive event_misuse :: "event_sys \<Rightarrow> event_sys \<Rightarrow> bool" where
  schedule_null: "in_schedule s > 0 \<Longrightarrow> \<not> M_handle s \<Longrightarrow> event_misuse s (s\<lparr>fault := True\<rparr>)"
| resume_running: "woken s > 0 \<Longrightarrow> waiter s \<noteq> C_suspended \<Longrightarrow> event_misuse s (s\<lparr>fault := True\<rparr>)"
| resume_twice: "woken s > 1 \<Longrightarrow> event_misuse s (s\<lparr>fault := True\<rparr>)"

inductive event_step :: "event_sys \<Rightarrow> event_sys \<Rightarrow> bool" where
  by_await: "event_await_step s t \<Longrightarrow> event_step s t"
| by_set: "event_set_step s t \<Longrightarrow> event_step s t"
| by_misuse: "event_misuse s t \<Longrightarrow> event_step s t"

definition new_event :: event_sys where
  "new_event = \<lparr>M_handle = False, M_event_count = 0, M_handle_ctl = False, waiter = C_run, tail = T_none, buffered = False, in_set = 0,
     in_schedule = 0, woken = 0, left = 0, added = 0, delivered = 0, overtook = False, stale = False, fault = False\<rparr>"

definition event_init :: "event_sys \<Rightarrow> bool" where
  "event_init s \<longleftrightarrow> s = new_event"

section \<open>Launched coroutines\<close>

text \<open>The coroutine, which ends in \<open>launch_final_awaiter\<close>, and the thread that has the \<open>launch\<close> object.\<close>

datatype launch_pc = L_made | L_run | L_final | L_end

datatype 'a owner_pc = O_has | O_got 'a | O_gone

record 'a launch_sys =
  M_result :: "'a option"
  M_destroy_ctl :: bool
  coroutine :: launch_pc
  owner :: "'a owner_pc"
  frames_freed :: nat
  misused :: bool

text \<open>\<open>if (M_destroy_ctl.exchange(true)) handle.destroy()\<close>.\<close>

definition exchange_destroy :: "'a launch_sys \<Rightarrow> 'a launch_sys" where
  "exchange_destroy s = s\<lparr>M_destroy_ctl := True, frames_freed := if M_destroy_ctl s then frames_freed s + 1 else frames_freed s\<rparr>"

inductive launch_step :: "'a launch_sys \<Rightarrow> 'a launch_sys \<Rightarrow> bool" where
  launch_schedule_on: "owner s = O_has \<Longrightarrow> coroutine s = L_made \<Longrightarrow> frames_freed s = 0 \<Longrightarrow> launch_step s (s\<lparr>coroutine := L_run\<rparr>)"
| launch_return_value: "coroutine s = L_run \<Longrightarrow> frames_freed s = 0 \<Longrightarrow>
    launch_step s (s\<lparr>M_result := Some v, coroutine := L_final\<rparr>)"
| launch_final_suspend: "coroutine s = L_final \<Longrightarrow> frames_freed s = 0 \<Longrightarrow> launch_step s ((exchange_destroy s)\<lparr>coroutine := L_end\<rparr>)"
| launch_get: "owner s = O_has \<Longrightarrow> frames_freed s = 0 \<Longrightarrow> M_result s = Some v \<Longrightarrow> launch_step s (s\<lparr>owner := O_got v\<rparr>)"
| launch_dtor: "owner s \<noteq> O_gone \<Longrightarrow> frames_freed s = 0 \<Longrightarrow> launch_step s ((exchange_destroy s)\<lparr>owner := O_gone\<rparr>)"
| launch_use_after_free: "frames_freed s > 0 \<Longrightarrow> owner s \<noteq> O_gone \<or> coroutine s \<noteq> L_end \<Longrightarrow> launch_step s (s\<lparr>misused := True\<rparr>)"

definition new_launch :: "'a launch_sys" where
  "new_launch = \<lparr>M_result = None, M_destroy_ctl = False, coroutine = L_made, owner = O_has, frames_freed = 0, misused = False\<rparr>"

definition launch_init :: "'a launch_sys \<Rightarrow> bool" where
  "launch_init s \<longleftrightarrow> s = new_launch"

section \<open>Generators and tasks\<close>

text \<open>
  The body of a coroutine is a parameter: what it does from a point on until the next \<open>co_yield\<close> or until \<open>co_return\<close>.
\<close>

datatype ('b, 'v) outcome = Yield 'v 'b | Return 'v

text \<open>
  \<open>point\<close> is where the coroutine is suspended; \<open>None\<close> is the final suspend point, from which it must not be resumed. \<open>M_continuation\<close> is the coroutine
  that awaits it. \<open>M_cancel_continuation\<close> is a coroutine that awaits its cancellation, \<open>scheduled\<close> the coroutines that were
  given to a scheduler.
\<close>

record ('b, 'v) coroutine_promise =
  point :: "'b option"
  M_value :: "'v option"
  M_continuation :: "nat option"
  M_cancel_continuation :: "nat option"
  M_cancel_handle_ctl :: bool
  scheduled :: "nat list"

definition new_coroutine :: "'b \<Rightarrow> ('b, 'v) coroutine_promise" where
  "new_coroutine b = \<lparr>point = Some b, M_value = None, M_continuation = None, M_cancel_continuation = None, M_cancel_handle_ctl = False,
     scheduled = []\<rparr>"

text \<open>\<open>generator_final_suspend\<close>, and \<open>task_final_awaiter\<close>, which is the same; the result is the coroutine to resume.\<close>

definition final_suspend :: "('b, 'v) coroutine_promise \<Rightarrow> nat option \<times> ('b, 'v) coroutine_promise" where
  "final_suspend p =
     (let s = (if M_cancel_handle_ctl p then scheduled p @ (case M_cancel_continuation p of None \<Rightarrow> [] | Some c \<Rightarrow> [c]) else scheduled p)
      in (M_continuation p, p\<lparr>point := None, M_cancel_handle_ctl := True, scheduled := s\<rparr>))"

text \<open>
  The awaiting coroutine \<open>h\<close> stores its handle and resumes the body, which runs until it yields (\<open>yield_value\<close> and \<open>generator_promise\<close>) or returns
  (\<open>return_value\<close> and the final suspend point) and hands over to the stored continuation.
\<close>

definition coroutine_resume ::
    "('b \<Rightarrow> ('b, 'v) outcome) \<Rightarrow> nat \<Rightarrow> ('b, 'v) coroutine_promise \<Rightarrow> (nat option \<times> ('b, 'v) coroutine_promise) option" where
  "coroutine_resume body h p =
     (let p = p\<lparr>M_continuation := Some h\<rparr> in
      case point p of
        None \<Rightarrow> None
      | Some b \<Rightarrow> Some (case body b of
            Yield v b' \<Rightarrow> (M_continuation p, p\<lparr>M_value := Some v, point := Some b'\<rparr>)
          | Return v \<Rightarrow> final_suspend (p\<lparr>M_value := Some v\<rparr>)))"

text \<open>\<open>co_await\<close> of a generator: the result is the coroutine that goes on and the value it gets; the value is moved out.\<close>

definition generator_await ::
    "('b \<Rightarrow> ('b, 'v) outcome) \<Rightarrow> nat \<Rightarrow> ('b, 'v) coroutine_promise \<Rightarrow> ((nat option \<times> 'v option) \<times> ('b, 'v) coroutine_promise) option" where
  "generator_await body h p = (case coroutine_resume body h p of
      None \<Rightarrow> None
    | Some (c, p) \<Rightarrow> Some ((c, M_value p), p\<lparr>M_value := None\<rparr>))"

text \<open>\<open>operator bool\<close>.\<close>

definition generator_bool :: "('b, 'v) coroutine_promise \<Rightarrow> bool" where
  "generator_bool p \<longleftrightarrow> point p \<noteq> None"

text \<open>\<open>while (g) { xs.push_back(co_await g); }\<close>\<close>

partial_function (option) generator_collect ::
    "('b \<Rightarrow> ('b, 'v) outcome) \<Rightarrow> nat \<Rightarrow> 'v list \<Rightarrow> ('b, 'v) coroutine_promise \<Rightarrow> ('v list \<times> ('b, 'v) coroutine_promise) option" where
  [code]: "generator_collect body h xs p =
     (if generator_bool p then
        case generator_await body h p of
          Some ((c, Some v), p) \<Rightarrow> generator_collect body h (xs @ [v]) p
        | _ \<Rightarrow> None
      else Some (xs, p))"

text \<open>\<open>co_await\<close> of a task, whose body does not yield.\<close>

definition task_await ::
    "('b \<Rightarrow> 'v) \<Rightarrow> nat \<Rightarrow> ('b, 'v) coroutine_promise \<Rightarrow> ((nat option \<times> 'v option) \<times> ('b, 'v) coroutine_promise) option" where
  "task_await body h p = (case coroutine_resume (\<lambda>b. Return (body b)) h p of
      None \<Rightarrow> None
    | Some (c, p) \<Rightarrow> Some ((c, M_value p), p))"

section \<open>The invariant of an event\<close>

text \<open>
  A suspended coroutine is owed exactly one resumption, which the flag, the store buffer, a thread in \<open>set\<close> or the thread in \<open>await_suspend\<close> holds; and
  unless a load overtook the buffered store, events that were counted are going to be noticed.
\<close>

definition event_inv :: "event_sys \<Rightarrow> bool" where
  "event_inv s \<longleftrightarrow> \<not> fault s \<and>
     of_bool (M_handle_ctl s) + of_bool (buffered s) + in_schedule s + woken s = (of_bool (waiter s = C_suspended) :: nat) \<and>
     (waiter s = C_suspended \<longrightarrow> M_handle s \<or> buffered s) \<and>
     added s = delivered s + M_event_count s \<and>
     (\<not> overtook s \<longrightarrow> (buffered s \<longrightarrow> tail s = T_test \<or> tail s = T_exchange) \<and>
        (M_handle_ctl s \<longrightarrow> M_event_count s = 0 \<or> 0 < in_set s \<or> tail s = T_test \<or> tail s = T_exchange))"

lemma event_await_step_inv: "event_await_step s t \<Longrightarrow> event_inv s \<Longrightarrow> event_inv t"
  by (induction rule: event_await_step.induct) (auto simp: event_inv_def of_bool_def split: if_splits)

lemma event_set_step_inv: "event_set_step s t \<Longrightarrow> event_inv s \<Longrightarrow> event_inv t"
  by (induction rule: event_set_step.induct) (auto simp: event_inv_def of_bool_def split: if_splits)

lemma event_no_misuse: "event_misuse s t \<Longrightarrow> \<not> event_inv s"
  by (induction rule: event_misuse.induct) (auto simp: event_inv_def)

lemma event_step_inv: "event_step s t \<Longrightarrow> event_inv s \<Longrightarrow> event_inv t"
  by (auto elim!: event_step.cases intro: event_await_step_inv event_set_step_inv dest: event_no_misuse)

lemma event_init_inv: "event_init s \<Longrightarrow> event_inv s"
  by (simp add: event_inv_def event_init_def new_event_def)

interpretation ev: transition_invariant event_init event_step event_inv
  by unfold_locales (auto intro: event_init_inv event_step_inv)

text \<open>The steps as functions, for concrete runs: a step that is not possible changes nothing.\<close>

datatype event_move = Await | Flush | Tail | Set u64 | Set_exchange | Set_schedule | Use_left

fun event_do :: "event_move \<Rightarrow> event_sys \<Rightarrow> event_sys" where
  "event_do Await s = (case waiter s of
      C_run \<Rightarrow> s\<lparr>waiter := C_ready\<rparr>
    | C_ready \<Rightarrow> s\<lparr>waiter := if M_event_count s \<noteq> 0 then C_resume else C_store\<rparr>
    | C_store \<Rightarrow> s\<lparr>waiter := C_suspended, tail := T_test, buffered := True\<rparr>
    | C_suspended \<Rightarrow> if woken s = 0 then s else s\<lparr>waiter := C_resume, woken := woken s - 1\<rparr>
    | C_resume \<Rightarrow> s\<lparr>M_event_count := 0, delivered := delivered s + M_event_count s, waiter := C_run, tail := T_none,
        left := if tail s = T_none then left s else left s + 1\<rparr>)"
| "event_do Flush s = (if buffered s then s\<lparr>buffered := False, M_handle := True, M_handle_ctl := True\<rparr> else s)"
| "event_do Tail s = (case tail s of
      T_none \<Rightarrow> s
    | T_test \<Rightarrow> s\<lparr>tail := if M_event_count s \<noteq> 0 then T_exchange else T_next, overtook := overtook s \<or> buffered s \<and> M_event_count s = 0\<rparr>
    | T_exchange \<Rightarrow> if buffered s then s else s\<lparr>M_handle_ctl := False, tail := if M_handle_ctl s then T_none else T_next,
        woken := if M_handle_ctl s then woken s + 1 else woken s\<rparr>
    | T_next \<Rightarrow> s\<lparr>tail := T_none\<rparr>)"
| "event_do (Set n) s = s\<lparr>M_event_count := M_event_count s + n, added := added s + n, in_set := in_set s + 1\<rparr>"
| "event_do Set_exchange s = (if in_set s = 0 then s
     else s\<lparr>in_set := in_set s - 1, M_handle_ctl := False, in_schedule := if M_handle_ctl s then in_schedule s + 1 else in_schedule s\<rparr>)"
| "event_do Set_schedule s = (if in_schedule s = 0 \<or> \<not> M_handle s then s else s\<lparr>in_schedule := in_schedule s - 1, woken := woken s + 1\<rparr>)"
| "event_do Use_left s = (if left s = 0 then s else s\<lparr>stale := True\<rparr>)"

lemma event_do_step: "event_do m s = s \<or> event_step s (event_do m s)"
proof (cases m)
  case Await
  then show ?thesis
    using by_await [OF await_begin [of s]] by_await [OF await_ready [of s]] by_await [OF await_suspend [of s]]
      by_await [OF await_woken [of s "woken s - 1"]] by_await [OF await_resume [of s]]
    by (cases "waiter s") auto
next
  case Tail
  then show ?thesis
    using by_await [OF suspend_test [of s]] by_await [OF suspend_exchange [of s]] by_await [OF suspend_next [of s]]
    by (cases "tail s") auto
next
  case (Set n)
  then show ?thesis using by_set [OF set_add [of s n]] by simp
next
  case Set_exchange
  then show ?thesis using by_set [OF set_exchange [of s "in_set s - 1"]] by auto
next
  case Set_schedule
  then show ?thesis using by_set [OF set_schedule [of s "in_schedule s - 1"]] by auto
qed (use by_await [OF suspend_flush [of s]] by_await [OF use_after_resume [of s]] in auto)

lemma event_run_reachable: "reachable event_init event_step (fold event_do ms new_event)"
proof -
  have "reachable event_init event_step (fold event_do ms s)" if "reachable event_init event_step s" for s
    using that
  proof (induction ms arbitrary: s)
    case (Cons m ms)
    then show ?case using event_do_step [of m s] reachable_step [of event_init event_step s] by (auto intro: Cons.IH)
  qed simp
  moreover have "reachable event_init event_step new_event" by (rule reachable_init) (simp add: event_init_def)
  ultimately show ?thesis by blast
qed

section \<open>The invariant of a launched coroutine\<close>

definition launch_inv :: "'a launch_sys \<Rightarrow> bool" where
  "launch_inv s \<longleftrightarrow> \<not> misused s \<and>
     frames_freed s = of_bool (owner s = O_gone \<and> coroutine s = L_end) \<and>
     M_destroy_ctl s = (owner s = O_gone \<or> coroutine s = L_end) \<and>
     (M_result s \<noteq> None) = (coroutine s = L_final \<or> coroutine s = L_end) \<and>
     (\<forall>v. owner s = O_got v \<longrightarrow> M_result s = Some v)"

lemma launch_step_inv: "launch_step s t \<Longrightarrow> launch_inv s \<Longrightarrow> launch_inv t"
  by (induction rule: launch_step.induct) (auto simp: launch_inv_def exchange_destroy_def)

lemma launch_init_inv: "launch_init s \<Longrightarrow> launch_inv s"
  by (simp add: launch_inv_def launch_init_def new_launch_def)

interpretation la: transition_invariant launch_init launch_step launch_inv
  by unfold_locales (auto intro: launch_init_inv launch_step_inv)

lemma launch_moves:
  assumes "launch_inv s" and "coroutine s \<noteq> L_made" and "frames_freed s = 0"
  shows "\<exists>t. launch_step s t \<and> \<not> misused t"
proof -
  have go: ?thesis if "launch_step s t" for t
  proof -
    have "launch_inv t" using that assms(1) by (rule launch_step_inv)
    then have "\<not> misused t" by (simp add: launch_inv_def)
    with that show ?thesis by blast
  qed
  show ?thesis
  proof (cases "coroutine s")
    case L_run
    from go [OF launch_return_value [OF this assms(3)]] show ?thesis .
  next
    case L_final
    from go [OF launch_final_suspend [OF this assms(3)]] show ?thesis .
  next
    case L_end
    then have "owner s \<noteq> O_gone" using assms(1,3) by (auto simp: launch_inv_def)
    from go [OF launch_dtor [OF this assms(3)]] show ?thesis .
  qed (use assms(2) in simp)
qed

section \<open>What a generator produces\<close>

text \<open>From point \<open>b\<close> on, the body yields and returns the values \<open>vs\<close>.\<close>

inductive produces :: "('b \<Rightarrow> ('b, 'v) outcome) \<Rightarrow> 'b \<Rightarrow> 'v list \<Rightarrow> bool" for body where
  produces_return: "body b = Return v \<Longrightarrow> produces body b [v]"
| produces_yield: "body b = Yield v b' \<Longrightarrow> produces body b' vs \<Longrightarrow> produces body b (v # vs)"

lemma generator_await_continues:
  "generator_await body h p = Some ((c, v), q) \<Longrightarrow> c = Some h \<and> v \<noteq> None"
  by (auto simp: generator_await_def coroutine_resume_def final_suspend_def Let_def split: option.splits outcome.splits)

lemma generator_collects:
  "produces body b vs \<Longrightarrow> point p = Some b \<Longrightarrow>
    \<exists>q. generator_collect body h xs p = Some (xs @ vs, q) \<and> \<not> generator_bool q"
proof (induction arbitrary: xs p rule: produces.induct)
  case (produces_return b v)
  then have "\<exists>q. generator_await body h p = Some ((Some h, Some v), q) \<and> \<not> generator_bool q"
    by (simp add: generator_await_def coroutine_resume_def final_suspend_def generator_bool_def Let_def)
  then obtain q where q: "generator_await body h p = Some ((Some h, Some v), q)" "\<not> generator_bool q" by blast
  then show ?case using produces_return(2)
    by (subst generator_collect.simps) (simp add: generator_bool_def generator_collect.simps [of body h _ q])
next
  case (produces_yield b v b' vs)
  then have "\<exists>q. generator_await body h p = Some ((Some h, Some v), q) \<and> point q = Some b'"
    by (simp add: generator_await_def coroutine_resume_def Let_def)
  then obtain q where q: "generator_await body h p = Some ((Some h, Some v), q)" "point q = Some b'" by blast
  then show ?case using produces_yield.IH [OF q(2), of "xs @ [v]"] produces_yield.prems
    by (subst generator_collect.simps) (simp add: generator_bool_def)
qed

section \<open>Properties\<close>

text \<open>
  C16. A coroutine that awaits an \<open>event\<close> and any number of threads that set it, in every interleaving of their accesses, the stores of
  \<open>await_suspend\<close> held back in the store buffer for any time: a suspended coroutine is owed exactly one resumption, by the flag, the buffer, a thread in
  \<open>set\<close> or a scheduler, so that it is resumed once for each time it suspends and never while it runs, and no null handle is scheduled; no count is
  lost, as what was set is what the coroutine has received plus what is still counted, in 64 bits; and if no load of the count in \<open>await_suspend\<close> has
  overtaken the store of \<open>M_handle_ctl\<close> (\<open>\<not> overtook\<close>), then when the coroutine is suspended and no thread is in \<open>set\<close> or in \<open>await_suspend\<close>, nothing is
  left that it should have been woken up for. The statement is about runs in which no thread has gone on in \<open>await_suspend\<close> after its awaiter was
  destroyed (\<open>\<not> stale\<close>); that one can is \<open>event_awaiter_outlived\<close>.
\<close>

theorem event_not_lost:
  assumes "reachable event_init event_step s" and "\<not> stale s"
  shows "\<not> fault s \<and> added s = delivered s + M_event_count s \<and>
    of_bool (M_handle_ctl s) + of_bool (buffered s) + in_schedule s + woken s = (of_bool (waiter s = C_suspended) :: nat) \<and>
    (\<not> overtook s \<longrightarrow> waiter s = C_suspended \<longrightarrow> woken s = 0 \<longrightarrow> in_schedule s = 0 \<longrightarrow> in_set s = 0 \<longrightarrow> tail s = T_none \<longrightarrow>
       M_event_count s = 0)"
proof -
  have "event_inv s" using assms(1) by (rule ev.reachable_inv)
  then show ?thesis by (auto simp: event_inv_def)
qed

text \<open>
  One thread sets the event while the coroutine suspends, a second one after it was resumed and has suspended again with nothing counted.
\<close>

theorem event_not_lost_witness:
  "\<exists>s. reachable event_init event_step s \<and> \<not> stale s \<and> \<not> overtook s \<and> waiter s = C_suspended \<and> tail s = T_none \<and> M_event_count s = 4 \<and>
     in_set s = 1 \<and> delivered s = 3 \<and> added s = 7 \<and> \<not> fault s"
proof -
  define s where "s = fold event_do
    [Await, Await, Await, Set 3, Tail, Set_exchange, Flush, Tail, Await, Await, Await, Await, Await, Flush, Tail, Tail, Set 4] new_event"
  have r: "reachable event_init event_step s" unfolding s_def by (rule event_run_reachable)
  have "\<not> stale s" "\<not> overtook s" "waiter s = C_suspended" "tail s = T_none" "M_event_count s = 4" "in_set s = 1" "delivered s = 3" "added s = 7"
    by (simp_all add: s_def new_event_def)
  with event_not_lost [OF r] r show ?thesis by blast
qed

text \<open>
  A wake-up is lost when the load of the count overtakes the store of \<open>M_handle_ctl\<close>, which nothing in \<open>await_suspend\<close> prevents: whatever a thread
  sets, there is a run after which the coroutine is suspended, the count is not 0, every store is written and no thread is in \<open>set\<close>, in \<open>await_suspend\<close> or
  about to resume the coroutine: only another call of \<open>set\<close> changes anything.
\<close>

theorem event_wakeup_lost:
  assumes "n \<noteq> 0"
  shows "\<exists>s. reachable event_init event_step s \<and> \<not> stale s \<and> waiter s = C_suspended \<and> M_event_count s = n \<and> \<not> buffered s \<and>
    in_set s = 0 \<and> in_schedule s = 0 \<and> woken s = 0 \<and> tail s = T_none \<and> (\<forall>t. event_step s t \<longrightarrow> in_set t = 1 \<and> waiter t = C_suspended)"
proof -
  define s where "s = fold event_do [Await, Await, Await, Tail, Set n, Set_exchange, Flush, Tail] new_event"
  have r: "reachable event_init event_step s" unfolding s_def by (rule event_run_reachable)
  have e: "s = \<lparr>M_handle = True, M_event_count = n, M_handle_ctl = True, waiter = C_suspended, tail = T_none, buffered = False, in_set = 0,
     in_schedule = 0, woken = 0, left = 0, added = n, delivered = 0, overtook = True, stale = False, fault = False\<rparr>"
    by (simp add: s_def new_event_def)
  have "in_set t = 1 \<and> waiter t = C_suspended" if "event_step s t" for t
    using that unfolding e
    by (auto elim!: event_step.cases event_await_step.cases event_set_step.cases event_misuse.cases)
  then show ?thesis using r by (intro exI [of _ s]) (simp add: e)
qed

theorem event_wakeup_lost_witness:
  "\<exists>s. reachable event_init event_step s \<and> waiter s = C_suspended \<and> M_event_count s = 5 \<and> in_set s = 0 \<and> woken s = 0"
  using event_wakeup_lost [of 5] by auto

text \<open>
  A thread in \<open>await_suspend\<close> that has written \<open>M_handle_ctl\<close> does not own the awaiter any more: a thread in \<open>set\<close> resumes the coroutine, which
  receives the count and destroys the awaiter, and the first thread then reads \<open>M_promise\<close> in it.
\<close>

theorem event_awaiter_outlived:
  "\<exists>s. reachable event_init event_step s \<and> stale s \<and> \<not> overtook s \<and> delivered s = 1"
proof -
  define s where "s = fold event_do
    [Await, Await, Await, Flush, Set 1, Set_exchange, Set_schedule, Await, Await, Use_left] new_event"
  have "stale s" "\<not> overtook s" "delivered s = 1" by (simp_all add: s_def new_event_def)
  then show ?thesis using event_run_reachable unfolding s_def by blast
qed

text \<open>
  The coroutine can be resumed although nothing was set since it last received a count: of two threads in \<open>set\<close> the first resumes it, it
  takes both counts and suspends again, and the second resumes it with a count of 0.
\<close>

theorem event_wakes_with_nothing:
  "\<exists>s. reachable event_init event_step s \<and> \<not> stale s \<and> waiter s = C_resume \<and> M_event_count s = 0 \<and> delivered s = 2"
proof -
  define s where "s = fold event_do
    [Await, Await, Await, Flush, Tail, Tail, Set 1, Set 1, Set_exchange, Set_schedule, Await, Await,
     Await, Await, Await, Flush, Set_exchange, Set_schedule, Await] new_event"
  have "\<not> stale s" "waiter s = C_resume" "M_event_count s = 0" "delivered s = 2" by (simp_all add: s_def new_event_def)
  then show ?thesis using event_run_reachable unfolding s_def by blast
qed

text \<open>
  A launched coroutine and the thread that has its handle, in every interleaving: the frame is destroyed exactly once, when both are through, and
  not used afterwards; the value the thread gets is the one that was returned; and once the coroutine was scheduled, somebody can go on until the
  frame is destroyed.
\<close>

theorem launch_destroyed_once:
  assumes "reachable launch_init launch_step s"
  shows "\<not> misused s \<and> frames_freed s = of_bool (owner s = O_gone \<and> coroutine s = L_end) \<and>
    (\<forall>v. owner s = O_got v \<longrightarrow> M_result s = Some v) \<and>
    (coroutine s = L_made \<or> frames_freed s > 0 \<or> (\<exists>t. launch_step s t \<and> \<not> misused t))"
proof -
  have inv: "launch_inv s" using assms by (rule la.reachable_inv)
  then show ?thesis using launch_moves [OF inv] by (auto simp: launch_inv_def)
qed

text \<open>
  A \<open>launch\<close> object that is destroyed before \<open>schedule_on\<close> leaves its frame behind for ever.
\<close>

theorem unscheduled_launch_leaks:
  "\<exists>s :: nat launch_sys. reachable launch_init launch_step s \<and> owner s = O_gone \<and> frames_freed s = 0 \<and> (\<forall>t. \<not> launch_step s t)"
proof -
  define s :: "nat launch_sys" where "s = (exchange_destroy new_launch)\<lparr>owner := O_gone\<rparr>"
  have r: "reachable launch_init launch_step (new_launch :: nat launch_sys)" by (rule reachable_init) (simp add: launch_init_def)
  have "launch_step new_launch s" unfolding s_def by (rule launch_dtor) (simp_all add: new_launch_def)
  note r = reachable_step [OF r this]
  have "\<not> launch_step s t" for t by (auto simp: s_def exchange_destroy_def new_launch_def elim!: launch_step.cases)
  moreover have "owner s = O_gone" "frames_freed s = 0" by (simp_all add: s_def exchange_destroy_def new_launch_def)
  ultimately show ?thesis using r by blast
qed

text \<open>
  A loop over a generator gets all values that its body yields, in order, and the value that it returns as the last one; then the generator
  is done, and awaiting it again is an error.
\<close>

theorem generator_loop:
  assumes "produces body b vs"
  shows "\<exists>q. generator_collect body h [] (new_coroutine b) = Some (vs, q) \<and> \<not> generator_bool q \<and> generator_await body h q = None"
proof -
  obtain q where q: "generator_collect body h [] (new_coroutine b) = Some (vs, q)" "\<not> generator_bool q"
    using generator_collects [OF assms, of "new_coroutine b" h "[]"] by (auto simp: new_coroutine_def)
  then have "generator_await body h q = None"
    by (simp add: generator_bool_def generator_await_def coroutine_resume_def)
  with q show ?thesis by blast
qed

text \<open>A task runs once: the coroutine that awaits it goes on with its value, and awaiting it again is an error.\<close>

theorem task_awaited_once:
  "\<exists>q. task_await body h (new_coroutine b) = Some ((Some h, Some (body b)), q) \<and> task_await body h' q = None"
  by (simp add: task_await_def coroutine_resume_def final_suspend_def new_coroutine_def Let_def)

end
