(* ===== verification/Memory_Pool.thy ===== *)
theory Memory_Pool
  imports Godby_Prelude
begin

text \<open>
  The pool of \<^verbatim>\<open>samples/contrib/MemoryPool.h\<close>: slots of one size in blocks, and a list of the free slots whose head carries a counter.
  Addresses are numbers below \<^verbatim>\<open>2^64\<close>. The size and the alignment of a slot and the number of slots in a block are arguments; so are
  the addresses that \<open>operator new\<close> returns and the clock.
\<close>

section \<open>The state\<close>

record 'v mempool =
  m_allocate_block_threshold :: int
  m_max_size :: nat
  m_last_slot :: "nat option"
  m_allocated_blocks :: "nat list"
  m_free_aba :: u64
  m_free_node :: "nat option"
  m_last_allocate_block_time :: int
  slot_next :: "nat \<Rightarrow> nat option"
  element :: "nat \<Rightarrow> 'v option"

text \<open>The size of a slot, its alignment, the template argument \<open>block_size\<close> and the size of a pointer.\<close>

record layout =
  sizeof_slot :: nat
  alignof_slot :: nat
  block_size :: nat
  sizeof_pointer :: nat



definition max_size :: "layout \<Rightarrow> 'v mempool \<Rightarrow> nat" where
  "max_size l s = m_max_size s * sizeof_slot l"

section \<open>Blocks\<close>

definition pad_pointer :: "nat \<Rightarrow> nat \<Rightarrow> nat" where
  "pad_pointer p align = ((align + 2 ^ 64 - p) mod 2 ^ 64) mod align"

definition first_slot :: "layout \<Rightarrow> nat \<Rightarrow> nat" where
  "first_slot l buffer = (let body = buffer + sizeof_pointer l in body + pad_pointer body (alignof_slot l))"

text \<open>The loop that links the slots of a block; the results are the links, the number of slots and where the loop ends.\<close>

function link_slots :: "nat \<Rightarrow> nat \<Rightarrow> nat \<Rightarrow> nat \<Rightarrow> (nat \<Rightarrow> nat option) \<Rightarrow> (nat \<Rightarrow> nat option) \<times> nat \<times> nat" where
  "link_slots z end_address start n nx =
     (if start + z < end_address \<and> z > 0 then link_slots z end_address (start + z) (n + 1) (nx(start := Some (start + z)))
      else (nx, n, start))"
  by pat_completeness auto
termination by (relation "measure (\<lambda>(z, e, start, n, nx). e - start)") auto

declare link_slots.simps [simp del]

text \<open>The part of \<open>allocate_block\<close> up to the test whether the free list was filled in the meantime.\<close>

definition allocate_block_prepare :: "layout \<Rightarrow> int \<Rightarrow> nat \<Rightarrow> 'v mempool \<Rightarrow> 'v mempool" where
  "allocate_block_prepare l now buffer s =
     (let first = first_slot l buffer;
          nx = (case m_last_slot s of None \<Rightarrow> slot_next s | Some p \<Rightarrow> (slot_next s)(p := Some first));
          (nx, n, start) = link_slots (sizeof_slot l) (buffer + block_size l * sizeof_slot l) first (m_max_size s) nx;
          last_slot = start - sizeof_slot l;
          nx = nx(last_slot := m_free_node s)
      in s\<lparr>m_last_allocate_block_time := now, m_allocated_blocks := buffer # m_allocated_blocks s, m_max_size := n,
           m_last_slot := Some last_slot, slot_next := nx\<rparr>)"

text \<open>The store of the new head. The counter starts again.\<close>

definition allocate_block_publish :: "layout \<Rightarrow> nat \<Rightarrow> 'v mempool \<Rightarrow> 'v mempool" where
  "allocate_block_publish l buffer s = s\<lparr>m_free_aba := 0, m_free_node := Some (first_slot l buffer)\<rparr>"


section \<open>Slots\<close>



definition deallocate :: "nat \<Rightarrow> 'v mempool \<Rightarrow> 'v mempool" where
  "deallocate p s = s\<lparr>slot_next := (slot_next s)(p := m_free_node s), m_free_aba := m_free_aba s + 1, m_free_node := Some p\<rparr>"





section \<open>Slots of a block\<close>

definition slot_count :: "layout \<Rightarrow> nat \<Rightarrow> nat" where
  "slot_count l buffer = (buffer + block_size l * sizeof_slot l - first_slot l buffer - 1) div sizeof_slot l"

definition slots_of :: "layout \<Rightarrow> nat \<Rightarrow> nat list" where
  "slots_of l buffer = map (\<lambda>i. first_slot l buffer + i * sizeof_slot l) [0..<slot_count l buffer]"

text \<open>A layout as the compiler makes it, for blocks of two slots or more.\<close>

definition layout_ok :: "layout \<Rightarrow> bool" where
  "layout_ok l \<longleftrightarrow> 0 < alignof_slot l \<and> alignof_slot l dvd 2 ^ 64 \<and> alignof_slot l dvd sizeof_slot l \<and>
     sizeof_pointer l + alignof_slot l \<le> sizeof_slot l \<and> 2 \<le> block_size l"

text \<open>What \<open>operator new\<close> returns: memory that no block uses.\<close>

definition fresh_buffer :: "layout \<Rightarrow> nat \<Rightarrow> 'v mempool \<Rightarrow> bool" where
  "fresh_buffer l buffer s \<longleftrightarrow> (let n = block_size l * sizeof_slot l in
     buffer + n \<le> 2 ^ 64 \<and> (\<forall>b \<in> set (m_allocated_blocks s). b + n \<le> buffer \<or> buffer + n \<le> b))"

lemma pad_pointer_spec:
  assumes "0 < al" and "al dvd 2 ^ 64" and "p \<le> 2 ^ 64"
  shows "pad_pointer p al < al" and "(p + pad_pointer p al) mod al = 0"
proof -
  show "pad_pointer p al < al" using assms(1) by (simp add: pad_pointer_def)
  have "pad_pointer p al = (al + 2 ^ 64 - p) mod al" unfolding pad_pointer_def using assms(2) by (rule mod_mod_cancel)
  then have "(p + pad_pointer p al) mod al = (p + (al + 2 ^ 64 - p)) mod al" by (simp only: mod_add_right_eq)
  also have "p + (al + 2 ^ 64 - p) = al + 2 ^ 64" using assms(3) by simp
  also have "(al + 2 ^ 64) mod al = 0" using assms(2) by (simp only: mod_add_self1 mod_eq_0_iff_dvd)
  finally show "(p + pad_pointer p al) mod al = 0" .
qed

lemma link_slots_spec:
  assumes "0 < z"
  shows "link_slots z e a n nx =
    ((\<lambda>p. if \<exists>i < (e - a - 1) div z. p = a + i * z then Some (p + z) else nx p), n + (e - a - 1) div z, a + (e - a - 1) div z * z)"
  using assms
proof (induction z e a n nx rule: link_slots.induct)
  case (1 z e a n nx)
  show ?case
  proof (cases "a + z < e")
    case False
    then have "(e - a - 1) div z = 0" using 1(2) by simp
    then show ?thesis using False by (simp add: link_slots.simps)
  next
    case True
    define k where "k = (e - (a + z) - 1) div z"
    have "e - a - 1 = z + (e - (a + z) - 1)" using True by simp
    then have k: "(e - a - 1) div z = Suc k" using 1(2) by (simp only: div_add_self1) (simp add: k_def)
    have ex: "(\<exists>i < Suc k. p = a + i * z) \<longleftrightarrow> p = a \<or> (\<exists>i < k. p = a + z + i * z)" for p
      by (auto simp: less_Suc_eq_0_disj)
    have "link_slots z e a n nx = link_slots z e (a + z) (n + 1) (nx(a := Some (a + z)))"
      using True 1(2) by (subst link_slots.simps) simp
    also have "\<dots> = ((\<lambda>p. if \<exists>i < k. p = a + z + i * z then Some (p + z) else (nx(a := Some (a + z))) p), n + 1 + k, a + z + k * z)"
      using 1(1) [OF _ 1(2)] True 1(2) unfolding k_def by blast
    also have "\<dots> = ((\<lambda>p. if \<exists>i < Suc k. p = a + i * z then Some (p + z) else nx p), n + Suc k, a + Suc k * z)"
      unfolding ex by (auto simp: fun_eq_iff)
    finally show ?thesis unfolding k .
  qed
qed

section \<open>The free list\<close>

fun chain :: "(nat \<Rightarrow> nat option) \<Rightarrow> nat option \<Rightarrow> nat list \<Rightarrow> bool" where
  "chain nx h [] = (h = None)"
| "chain nx h (x # xs) = (h = Some x \<and> chain nx (nx x) xs)"

lemma free_chain_cong: "(\<And>x. x \<in> set xs \<Longrightarrow> nx x = ny x) \<Longrightarrow> chain nx h xs = chain ny h xs"
  by (induction xs arbitrary: h) auto

lemma chain_arithmetic:
  "(\<And>i. i < k \<Longrightarrow> nx (a + i * z) = (if Suc i < k then Some (a + i * z + z) else None)) \<Longrightarrow>
    chain nx (if k = 0 then None else Some a) (map (\<lambda>i. a + i * z) [0..<k])"
proof (induction k arbitrary: a)
  case (Suc k)
  have "nx (a + z + i * z) = (if Suc i < k then Some (a + z + i * z + z) else None)" if "i < k" for i
    using Suc.prems [of "Suc i"] that by (simp add: ac_simps)
  then have "chain nx (if k = 0 then None else Some (a + z)) (map (\<lambda>i. a + z + i * z) [0..<k])" by (rule Suc.IH)
  moreover have "nx a = (if k = 0 then None else Some (a + z))" using Suc.prems [of 0] by simp
  moreover have "map (\<lambda>i. a + i * z) [0..<Suc k] = a # map (\<lambda>i. a + z + i * z) [0..<k]"
    by (simp add: map_upt_Suc ac_simps del: upt_Suc)
  ultimately show ?case by simp
qed simp

section \<open>The layout of a block\<close>

lemma slot_in_block:
  assumes "layout_ok l" and "buffer + block_size l * sizeof_slot l \<le> 2 ^ 64" and "p \<in> set (slots_of l buffer)"
  shows "buffer \<le> p \<and> p + sizeof_slot l \<le> buffer + block_size l * sizeof_slot l \<and> p mod alignof_slot l = 0"
proof -
  let ?z = "sizeof_slot l" and ?e = "buffer + block_size l * sizeof_slot l" and ?f = "first_slot l buffer"
  obtain i where i: "i < slot_count l buffer" and p: "p = ?f + i * ?z" using assms(3) by (auto simp: slots_of_def)
  have z: "0 < ?z" using assms(1) by (auto simp: layout_ok_def)
  have "Suc i * ?z \<le> slot_count l buffer * ?z" using i by (intro mult_le_mono1) simp
  also have "\<dots> \<le> ?e - ?f - 1" unfolding slot_count_def by (rule div_times_less_eq_dividend)
  finally have le: "?f + Suc i * ?z \<le> ?e" using z by (cases "?f < ?e") auto
  have al: "0 < alignof_slot l" "alignof_slot l dvd 2 ^ 64" "alignof_slot l dvd ?z" using assms(1) by (auto simp: layout_ok_def)
  have "sizeof_pointer l \<le> block_size l * ?z"
    using assms(1) by (auto simp: layout_ok_def intro: order_trans [of _ "?z" "block_size l * ?z"])
  then have "buffer + sizeof_pointer l \<le> 2 ^ 64" using assms(2) by linarith
  from pad_pointer_spec(2) [OF al(1,2) this] have "?f mod alignof_slot l = 0" by (simp add: first_slot_def Let_def)
  then have "alignof_slot l dvd p" using al(3) p by (simp add: mod_eq_0_iff_dvd)
  moreover have "buffer \<le> ?f" by (simp add: first_slot_def Let_def)
  ultimately show ?thesis using le p by (simp add: mod_eq_0_iff_dvd)
qed

lemma slot_count_pos:
  assumes "layout_ok l" and "buffer + block_size l * sizeof_slot l \<le> 2 ^ 64"
  shows "0 < slot_count l buffer"
proof -
  let ?z = "sizeof_slot l"
  have al: "0 < alignof_slot l" "alignof_slot l dvd 2 ^ 64" and z: "sizeof_pointer l + alignof_slot l \<le> ?z" and b: "2 \<le> block_size l"
    using assms(1) by (auto simp: layout_ok_def)
  have bz: "2 * ?z \<le> block_size l * ?z" using b by (rule mult_le_mono1)
  have "buffer + sizeof_pointer l \<le> 2 ^ 64" using assms(2) z bz by linarith
  from pad_pointer_spec(1) [OF al this] have "first_slot l buffer + 1 \<le> buffer + ?z" using z by (simp add: first_slot_def Let_def)
  then have "?z \<le> buffer + block_size l * ?z - first_slot l buffer - 1" using bz by linarith
  then show ?thesis unfolding slot_count_def using z al(1) by (intro div_greater_zero_iff [THEN iffD2]) linarith
qed

lemma slots_distinct: "layout_ok l \<Longrightarrow> distinct (slots_of l buffer)"
  by (auto simp: slots_of_def distinct_map inj_on_def layout_ok_def)


section \<open>The invariant\<close>

definition all_slots :: "layout \<Rightarrow> nat list \<Rightarrow> nat set" where
  "all_slots l bs = (\<Union>b \<in> set bs. set (slots_of l b))"

definition blocks_ok :: "layout \<Rightarrow> nat list \<Rightarrow> bool" where
  "blocks_ok l bs \<longleftrightarrow> (let n = block_size l * sizeof_slot l in
     \<forall>b \<in> set bs. b + n \<le> 2 ^ 64 \<and> (\<forall>c \<in> set bs. b = c \<or> b + n \<le> c \<or> c + n \<le> b))"

text \<open>\<open>live\<close> are the elements in use, \<open>fs\<close> the free slots in the order of the list.\<close>

definition mempool_inv :: "layout \<Rightarrow> 'v mempool \<Rightarrow> nat list \<Rightarrow> (nat \<rightharpoonup> 'v) \<Rightarrow> bool" where
  "mempool_inv l s fs live \<longleftrightarrow> chain (slot_next s) (m_free_node s) fs \<and> distinct fs \<and> set fs \<inter> dom live = {} \<and>
     set fs \<union> dom live = all_slots l (m_allocated_blocks s) \<and> element s = live \<and>
     (\<forall>p. m_last_slot s = Some p \<longrightarrow> p \<in> all_slots l (m_allocated_blocks s)) \<and> blocks_ok l (m_allocated_blocks s)"

lemma mempool_invD:
  assumes "mempool_inv l s fs live"
  shows "chain (slot_next s) (m_free_node s) fs" and "distinct fs" and "set fs \<inter> dom live = {}"
    and "set fs \<union> dom live = all_slots l (m_allocated_blocks s)" and "element s = live"
    and "m_last_slot s = Some p \<Longrightarrow> p \<in> all_slots l (m_allocated_blocks s)" and "blocks_ok l (m_allocated_blocks s)"
  using assms by (simp_all add: mempool_inv_def)

lemma slots_of_block:
  "layout_ok l \<Longrightarrow> blocks_ok l bs \<Longrightarrow> b \<in> set bs \<Longrightarrow> p \<in> set (slots_of l b) \<Longrightarrow>
    b \<le> p \<and> p + sizeof_slot l \<le> b + block_size l * sizeof_slot l \<and> p mod alignof_slot l = 0"
  by (rule slot_in_block) (auto simp: blocks_ok_def Let_def)


lemma fresh_blocks_ok: "blocks_ok l (m_allocated_blocks s) \<Longrightarrow> fresh_buffer l buffer s \<Longrightarrow> blocks_ok l (buffer # m_allocated_blocks s)"
  by (auto simp: blocks_ok_def fresh_buffer_def Let_def)

lemma fresh_slots:
  assumes "layout_ok l" and "blocks_ok l (m_allocated_blocks s)" and "fresh_buffer l buffer s" and "p \<in> set (slots_of l buffer)"
  shows "p \<notin> all_slots l (m_allocated_blocks s)"
proof
  assume "p \<in> all_slots l (m_allocated_blocks s)"
  then obtain b where b: "b \<in> set (m_allocated_blocks s)" "p \<in> set (slots_of l b)" by (auto simp: all_slots_def)
  have "b + block_size l * sizeof_slot l \<le> buffer \<or> buffer + block_size l * sizeof_slot l \<le> b"
    using assms(3) b(1) by (auto simp: fresh_buffer_def Let_def)
  moreover have "0 < sizeof_slot l" using assms(1) by (auto simp: layout_ok_def)
  moreover have "buffer \<le> p \<and> p + sizeof_slot l \<le> buffer + block_size l * sizeof_slot l"
    using slot_in_block [OF assms(1) _ assms(4)] assms(3) by (auto simp: fresh_buffer_def Let_def)
  ultimately show False using slots_of_block [OF assms(1,2) b] by linarith
qed

lemma prepare_frame [simp]:
  "m_free_node (allocate_block_prepare l now buffer s) = m_free_node s"
  "element (allocate_block_prepare l now buffer s) = element s"
  "m_allocated_blocks (allocate_block_prepare l now buffer s) = buffer # m_allocated_blocks s"
  by (simp_all add: allocate_block_prepare_def Let_def split: prod.splits)

lemma prepare_links:
  assumes "layout_ok l" and "buffer + block_size l * sizeof_slot l \<le> 2 ^ 64"
  shows "m_last_slot (allocate_block_prepare l now buffer s) = Some (last (slots_of l buffer))"
    and "i < slot_count l buffer \<Longrightarrow> slot_next (allocate_block_prepare l now buffer s) (first_slot l buffer + i * sizeof_slot l) =
      (if Suc i < slot_count l buffer then Some (first_slot l buffer + i * sizeof_slot l + sizeof_slot l) else m_free_node s)"
proof -
  let ?z = "sizeof_slot l" and ?f = "first_slot l buffer" and ?k = "slot_count l buffer"
  have z: "0 < ?z" using assms(1) by (auto simp: layout_ok_def)
  obtain m where m: "?k = Suc m" using slot_count_pos [OF assms] by (cases ?k) auto
  have lk: "link_slots ?z (buffer + block_size l * ?z) ?f n nx =
      ((\<lambda>p. if \<exists>i < ?k. p = ?f + i * ?z then Some (p + ?z) else nx p), n + ?k, ?f + ?k * ?z)" for n nx
    unfolding slot_count_def by (rule link_slots_spec [OF z])
  have last: "last (slots_of l buffer) = ?f + ?k * ?z - ?z" by (simp add: slots_of_def m)
  show "m_last_slot (allocate_block_prepare l now buffer s) = Some (last (slots_of l buffer))"
    unfolding last by (simp add: allocate_block_prepare_def lk Let_def)
  assume i: "i < ?k"
  then have "?f + i * ?z = ?f + ?k * ?z - ?z \<longleftrightarrow> \<not> Suc i < ?k" using z m by auto
  then show "slot_next (allocate_block_prepare l now buffer s) (?f + i * ?z) = (if Suc i < ?k then Some (?f + i * ?z + ?z) else m_free_node s)"
    using i by (auto simp: allocate_block_prepare_def lk Let_def)
qed

lemma new_block_inv:
  assumes "layout_ok l" and "mempool_inv l s [] live" and "fresh_buffer l buffer s"
  shows "mempool_inv l (allocate_block_publish l buffer (allocate_block_prepare l now buffer s)) (slots_of l buffer) live"
proof -
  let ?t = "allocate_block_prepare l now buffer s"
  note I = mempool_invD [OF assms(2)]
  have b: "buffer + block_size l * sizeof_slot l \<le> 2 ^ 64" using assms(3) by (simp add: fresh_buffer_def Let_def)
  have k: "slot_count l buffer \<noteq> 0" using slot_count_pos [OF assms(1) b] by simp
  have "chain (slot_next ?t) (Some (first_slot l buffer)) (slots_of l buffer)"
    using chain_arithmetic [of "slot_count l buffer" "slot_next ?t" "first_slot l buffer" "sizeof_slot l"]
      prepare_links(2) [OF assms(1) b, of _ now s] I(1) k by (simp add: slots_of_def)
  moreover have "last (slots_of l buffer) \<in> set (slots_of l buffer)" using k by (intro last_in_set) (simp add: slots_of_def)
  moreover have "set (slots_of l buffer) \<inter> dom live = {}"
    using fresh_slots [OF assms(1) I(7) assms(3)] I(4) by auto
  ultimately show ?thesis
    using slots_distinct [OF assms(1), of buffer] I(4,5) fresh_blocks_ok [OF I(7) assms(3)] prepare_links(1) [OF assms(1) b, of now s]
    by (auto simp: mempool_inv_def allocate_block_publish_def all_slots_def)
qed






section \<open>Properties\<close>



text \<open>
  A thread that gives a slot back while another one is in \<open>allocate_block\<close>, after the test whether the free list was filled, loses it: the store of
  the new head overwrites the list, and the slot is neither in use nor free. The counter of the head starts again at 0, too.
\<close>

theorem deallocate_lost:
  assumes "layout_ok l" and "mempool_inv l s [] live" and "fresh_buffer l buffer s" and "p \<in> dom live"
  shows "chain (slot_next (allocate_block_publish l buffer (deallocate p (allocate_block_prepare l now buffer s))))
      (m_free_node (allocate_block_publish l buffer (deallocate p (allocate_block_prepare l now buffer s)))) (slots_of l buffer) \<and>
    p \<notin> set (slots_of l buffer)"
proof -
  let ?t = "allocate_block_prepare l now buffer s"
  have p: "p \<notin> set (slots_of l buffer)"
    using fresh_slots [OF assms(1) mempool_invD(7) [OF assms(2)] assms(3)] mempool_invD(4) [OF assms(2)] assms(4) by auto
  have "chain (slot_next ?t) (Some (first_slot l buffer)) (slots_of l buffer)"
    using mempool_invD(1) [OF new_block_inv [OF assms(1-3), of now]] by (simp add: allocate_block_publish_def)
  then have "chain ((slot_next ?t)(p := m_free_node ?t)) (Some (first_slot l buffer)) (slots_of l buffer)"
    using p by (subst free_chain_cong [of _ _ "slot_next ?t"]) auto
  with p show ?thesis by (simp add: allocate_block_publish_def deallocate_def)
qed

end
