(* ===== verification/Spec2Isabelle.thy ===== *)
theory Spec2Isabelle
  imports Mathematics Timer_Queries Stealing_Queue Atomic_Queue Hazard_Safety Pointer_Programs Atomic_Shared_Ptr Hashmap_History
    Shared_Storage Locks Atomic_Values Executor_Properties Lru_Cache Uring_Service Uring_Completion Async_Coroutines
    Coroutine_Scheduler Coroutine_Events Memory_Pool
begin

text \<open>
  Verification of \<^verbatim>\<open>godby\<close>, a C++ library of lock-free containers, reference-counted pointers, a timer wheel, an
  executor and a storage for shared objects, with a sample that runs coroutines over \<^verbatim>\<open>io_uring\<close>. All paths below are under \<^verbatim>\<open>src/godby\<close> unless they say otherwise;
  the headers are in \<^verbatim>\<open>include/godby\<close>.

  \<^bold>\<open>How the program is modelled.\<close> A class is a record, a pointer is a number (\<open>None\<close> is null) into a map of the objects that are alive, and an
  access to an object that is not alive has no result. Machine integers are words where they can wrap around. A failed assertion, an overflow that the
  language leaves undefined and a use of freed memory are \<open>None\<close>; an exception is \<open>Inl\<close>. Loops that end are functions with a termination proof;
  loops that need not end are partial functions or take fuel, and the theorems say how much is enough. Where threads work together, each access to shared memory is a step of an inductive relation or of
  an executable function, and the theorems hold for every order of the steps (sequential consistency; the memory orders of the source are not weakened further).

  \<^bold>\<open>The base.\<close> \<^theory_text>\<open>Godby_Prelude\<close> has the machine types, facts on words as natural numbers, reachable states and
  the locale \<open>transition_invariant\<close>, which every concurrent component interprets with its own steps and invariant.

  \<^bold>\<open>Numbers\<close> (\<^verbatim>\<open>Math.h\<close>, \<^verbatim>\<open>mathematics/Prime.cc\<close>). \<^theory_text>\<open>Mathematics\<close>: the three variants of \<open>NextPowerOfTwo\<close> give the least power of two;
  \<open>IsPrime\<close> and \<open>NextPrime\<close> are exact in the range of the trial division, accept every prime of 32 bits, and do not return for some arguments of 64 bits.

  \<^bold>\<open>Timers\<close> (\<^verbatim>\<open>TimerWheel.h\<close>). \<^theory_text>\<open>Timer_Slots\<close>: the intrusive doubly linked lists of the slots. \<^theory_text>\<open>Timer_Wheel\<close>: the eight levels, \<open>schedule\<close>,
  \<open>cancel\<close>, \<open>advance\<close>, the invariant, and the locales \<open>timer_callback\<close> and \<open>timer_run\<close>, which state what a callback may do and show once that \<open>advance\<close> runs it on time.
  \<^theory_text>\<open>Timer_Callbacks\<close> interprets them for callbacks that schedule, cancel and do nothing. \<^theory_text>\<open>Timer_Queries\<close>: \<open>schedule_in_range\<close> and \<open>ticks_to_wakeup\<close>. The fuel of
  \<open>advance\<close> bounds the events of one slot; one more than the number of events is enough.

  \<^bold>\<open>Queues.\<close> \<^theory_text>\<open>Stealing_Queue\<close> (\<^verbatim>\<open>StealingQueue.h\<close>): the operations alone, the memory accesses of the owner and of any number of thieves, and the
  refinement of an abstract deque. \<^theory_text>\<open>Atomic_Queue\<close> (\<^verbatim>\<open>AtomicQueue.h\<close>): the four queue classes and the decorator, by one locale \<open>bounded_fifo\<close> that each interprets.

  \<^bold>\<open>Reclamation and pointers.\<close> \<^theory_text>\<open>Hazard_Lists\<close>, \<^theory_text>\<open>Hazard_Pointers\<close> and \<^theory_text>\<open>Hazard_Safety\<close> (\<^verbatim>\<open>HazardPointers.h\<close>): the retired lists, both ways of reclamation, and that no
  protected object is destroyed under any interleaving. \<^theory_text>\<open>Wait_Free_Counter\<close>, \<^theory_text>\<open>Control_Block\<close>, \<^theory_text>\<open>Reference_Counts\<close>, \<^theory_text>\<open>Smart_Pointers\<close>, \<^theory_text>\<open>Pointer_Programs\<close>
  and \<^theory_text>\<open>Atomic_Shared_Ptr\<close> (\<^verbatim>\<open>AtomicSharedPointer.h\<close>): the sticky counter, the control blocks, which retire themselves through the locale \<open>reclaimer\<close> that the hazard
  pointers interpret, and the three pointer classes, whose counts stay exact in every program.

  \<^bold>\<open>Maps.\<close> \<^theory_text>\<open>Referenced_Boxes\<close>, \<^theory_text>\<open>Atomic_Hashmap\<close>, \<^theory_text>\<open>Hashmap_Laws\<close> and \<^theory_text>\<open>Hashmap_History\<close> (\<^verbatim>\<open>AtomicHashmap.h\<close>): the cells, the levels and their sizes in binary64 arithmetic, the
  operations of one thread as those of a bounded map (locale \<open>bounded_map\<close>), and two races. \<^theory_text>\<open>Lru_Cache\<close> (\<^verbatim>\<open>src/samples/contrib/expiring_lru_cache.h\<close>): a cache in the order of use.
  \<^theory_text>\<open>Memory_Pool\<close> (\<^verbatim>\<open>src/samples/contrib/MemoryPool.h\<close>): the addresses of the slots, the free list, and a slot that is lost in one interleaving.

  \<^bold>\<open>Shared objects\<close> (\<^verbatim>\<open>SharedStorage.h\<close>). \<^theory_text>\<open>Type_Names\<close>: the names of types and the keys. \<^theory_text>\<open>Reload_Timer\<close>: reloadable values on the timer wheel, by \<open>timer_run\<close>. \<^theory_text>\<open>Shared_Storage\<close>:
  the storage and the caches of the threads, its contract and its type safety.

  \<^bold>\<open>Atomics and locks.\<close> \<^theory_text>\<open>Atomic_Values\<close> (\<^verbatim>\<open>Atomic.h\<close>, \<^verbatim>\<open>AtomicOptional.h\<close>) and \<^theory_text>\<open>Locks\<close> (\<^verbatim>\<open>Spinlock.h\<close>, \<^verbatim>\<open>Barrier.h\<close>, \<^verbatim>\<open>Seqlock.h\<close>).

  \<^bold>\<open>Execution.\<close> \<^theory_text>\<open>Signals\<close> (\<^verbatim>\<open>portability/Signal.cc\<close>): handlers and their dispatch. \<^theory_text>\<open>Stealing_Executor\<close>, \<^theory_text>\<open>Executor_Safety\<close> and \<^theory_text>\<open>Executor_Properties\<close> (\<^verbatim>\<open>StealingExecutor.h\<close>):
  each access of the workers and the owner, the invariant on counters, items and wait groups, and what \<open>WaitAll\<close> and \<open>Parallelize\<close> promise. The queue of the executor is the abstract deque that
  \<^theory_text>\<open>Stealing_Queue\<close> refines.

  \<^bold>\<open>Asynchronous input and output\<close> (\<^verbatim>\<open>src/samples/io_service.h\<close>, \<^verbatim>\<open>src/samples/io_service.cc\<close>), coroutines over \<^verbatim>\<open>io_uring\<close>.
  \<^item> \<^theory_text>\<open>Work_Queues\<close>: \<open>io_work_queue\<close>, which is first-in first-out between one producer and one consumer under every interleaving, and \<open>work_stealing_queue\<close>, which is
    correct when it is used alone and hands a task out twice in one interleaving.
  \<^item> \<^theory_text>\<open>Chunk_Pool\<close>: \<open>pool_allocator\<close>; no chunk is handed out while it is in use, whatever the threads do, until the tag wraps around.
  \<^item> \<^theory_text>\<open>Uring_Operations\<close>: the twenty operations, the entries they write, and the pipeline of a thread on an \<open>io_work_queue\<close>; the ring is seen through \<open>ring_view\<close>.
  \<^item> \<^theory_text>\<open>Uring_Service\<close>: services, thread-local contexts and \<open>submit\<close>, which hands all operations over when there is room, and stays stuck after the ring was full once.
  \<^item> \<^theory_text>\<open>Uring_Completion\<close>: a request, its awaiter and \<open>handle_completion\<close>.
  \<^item> \<^theory_text>\<open>Async_Coroutines\<close>: \<open>async\<close>, its awaiter, its cancellation and its end; who destroys the frame, who resumes whom, and a use of a destroyed frame.
  \<^item> \<^theory_text>\<open>Coroutine_Scheduler\<close>: the scheduler on the queues of \<^theory_text>\<open>Work_Queues\<close>, through the locale \<open>task_queue\<close>, and the sleep and wake-up of its workers in every interleaving.
  \<^item> \<^theory_text>\<open>Coroutine_Events\<close>: \<open>event\<close>, \<open>launch\<close>, \<open>generator\<close> and \<open>task\<close>.

  \<^bold>\<open>Parameters.\<close> The functions of \<^verbatim>\<open>liburing\<close> and \<^verbatim>\<open>timerfd\<close>, the bodies of coroutines, the hash function and the logarithm of the hash map, the order in which a hash map is iterated, \<open>sigaction\<close>, the clock of the cache, \<open>Callback_IsLimited\<close> and the callbacks of timer
  events are arguments; what is assumed of them stands in the theorems.

  \<^bold>\<open>Not modelled.\<close> Memory orders weaker than sequential consistency; \<^verbatim>\<open>Expected.h\<close> (an alias of a third-party type), \<^verbatim>\<open>Concept.h\<close> and \<^verbatim>\<open>Portability.h\<close> (compile-time code and intrinsics), the asymmetric fence (system calls);
  members that do not compile when they are instantiated (\<open>allocate_shared\<close>, \<open>get_deleter\<close>, \<open>GetOrNull_Reloadable\<close>, the compare-and-swap of \<open>Atomic\<close>); interleavings of the hash map, of \<open>AtomicQueue\<close> and of
  \<open>AtomicSharedPtr\<close> beyond the races shown; of the \<^verbatim>\<open>io_service\<close> sample the constructors, the destructor and the completion loop of a service (calls of \<^verbatim>\<open>liburing\<close>), stop tokens, and the example programs; the tests and the vendored
  headers of the samples.
\<close>

end
